(* ===== verification/Prelude.thy ===== *)
theory Prelude
  imports Main "HOL-Library.Word" "HOL-Library.Monad_Syntax"
begin

text \<open>
  Shared vocabulary of the development: the machine integers of the target (a Cortex-M4, so
  \<open>int\<close> and \<open>size_t\<close> have 32 bits), memory blocks as byte lists with checked accesses,
  nullable pointers, byte-order helpers, NUL-terminated strings inside fixed arrays, and the
  fact collections that the component theories fill.

  A computation that may touch memory has type \<open>'a option\<close>. The value \<open>None\<close> is an access
  outside the block (undefined behaviour in C); \<open>Some r\<close> is a run that returns \<open>r\<close>.
  A pointer that the code compares with NULL has type \<open>'a ptr\<close>, and there \<open>None\<close> is NULL.
\<close>

unbundle bit_operations_syntax

section \<open>Types\<close>

type_synonym u8 = "8 word"
type_synonym u16 = "16 word"
type_synonym u32 = "32 word"
type_synonym buf = "u8 list"
type_synonym 'a ptr = "'a option"

named_theorems mem_simps
  \<comment> \<open>checked reads and writes that stay inside their block\<close>
named_theorems layout_simps
  \<comment> \<open>what an operation leaves in memory, as an equation\<close>
named_theorems runs_intros
  \<comment> \<open>rules that take a computation apart and leave its bounds and its postcondition\<close>
named_theorems wf_intros
  \<comment> \<open>well-formedness of a structure after an operation\<close>

section \<open>Bytes and wider integers\<close>

definition be16 :: "u8 \<Rightarrow> u8 \<Rightarrow> u16" where
  "be16 h l = push_bit 8 (ucast h) OR ucast l"

definition hi8 :: "u16 \<Rightarrow> u8" where
  "hi8 w = ucast (drop_bit 8 w)"

definition lo8 :: "u16 \<Rightarrow> u8" where
  "lo8 w = ucast w"

definition be32 :: "u8 \<Rightarrow> u8 \<Rightarrow> u8 \<Rightarrow> u8 \<Rightarrow> u32" where
  "be32 a b c d = push_bit 24 (ucast a) OR push_bit 16 (ucast b) OR push_bit 8 (ucast c) OR ucast d"

definition byte32 :: "nat \<Rightarrow> u32 \<Rightarrow> u8" where
  "byte32 k w = ucast (drop_bit (8 * k) w)"

lemma be16_hi8_lo8 [simp]: "be16 (hi8 w) (lo8 w) = w"
  unfolding be16_def hi8_def lo8_def
  by (rule bit_word_eqI) (auto simp: bit_simps)

lemma hi8_be16 [simp]: "hi8 (be16 h l) = h"
  unfolding be16_def hi8_def lo8_def
  by (rule bit_word_eqI) (auto simp: bit_simps dest: bit_imp_le_length)

lemma lo8_be16 [simp]: "lo8 (be16 h l) = l"
  unfolding be16_def hi8_def lo8_def
  by (rule bit_word_eqI) (auto simp: bit_simps)

lemma be16_eq_iff [simp]: "be16 h l = be16 h' l' \<longleftrightarrow> h = h' \<and> l = l'"
  by (metis hi8_be16 lo8_be16)

lemma unat_u8_less [simp]: "unat (b :: u8) < 256"
proof -
  have "unat b < 2 ^ LENGTH(8)" by (rule unsigned_less)
  then show ?thesis by simp
qed

lemma unat_u16_less [simp]: "unat (w :: u16) < 65536"
proof -
  have "unat w < 2 ^ LENGTH(16)" by (rule unsigned_less)
  then show ?thesis by simp
qed

lemma unat_u32_less [simp]: "unat (w :: u32) < 4294967296"
proof -
  have "unat w < 2 ^ LENGTH(32)" by (rule unsigned_less)
  then show ?thesis by simp
qed

lemma unat_ucast_u8_u16 [simp]: "unat (ucast (b :: u8) :: u16) = unat b"
  by (simp add: unsigned_ucast_eq take_bit_nat_eq_self_iff order_less_trans [OF unat_u8_less])

lemma unat_ucast_u8_u32 [simp]: "unat (ucast (b :: u8) :: u32) = unat b"
  by (simp add: unsigned_ucast_eq take_bit_nat_eq_self_iff order_less_trans [OF unat_u8_less])

lemma unat_ucast_u16_u32 [simp]: "unat (ucast (w :: u16) :: u32) = unat w"
  by (simp add: unsigned_ucast_eq take_bit_nat_eq_self_iff order_less_trans [OF unat_u16_less])

lemma unat_of_nat_u8: "n < 256 \<Longrightarrow> unat (of_nat n :: u8) = n"
  by (simp add: unat_of_nat take_bit_nat_eq_self)

lemma unat_of_nat_u16: "n < 65536 \<Longrightarrow> unat (of_nat n :: u16) = n"
  by (simp add: unat_of_nat take_bit_nat_eq_self)

lemma unat_of_nat_u32: "n < 4294967296 \<Longrightarrow> unat (of_nat n :: u32) = n"
  by (simp add: unat_of_nat take_bit_nat_eq_self)

lemma unat_be16: "unat (be16 h l) = 256 * unat h + unat l"
proof -
  have "push_bit 8 (ucast h :: u16) AND ucast l = 0"
    by (rule bit_word_eqI) (auto simp: bit_simps dest: bit_imp_le_length)
  then have "be16 h l = push_bit 8 (ucast h) + ucast l"
    by (simp add: be16_def disjunctive_add_eq_or)
  moreover have "unat h * 256 + unat l < 65536"
    using unat_u8_less [of h] unat_u8_less [of l] by linarith
  ultimately show ?thesis
    by (simp add: push_bit_eq_mult unat_word_ariths)
qed

lemma be32_bytes [simp]:
  "be32 (byte32 3 w) (byte32 2 w) (byte32 1 w) (byte32 0 w) = w"
proof (rule bit_word_eqI)
  fix n
  assume "n < LENGTH(32)"
  then consider "n < 8" | "8 \<le> n" "n < 16" | "16 \<le> n" "n < 24" | "24 \<le> n" "n < 32"
    by fastforce
  then show "bit (be32 (byte32 3 w) (byte32 2 w) (byte32 1 w) (byte32 0 w)) n = bit w n"
    unfolding be32_def byte32_def by cases (auto simp: bit_simps)
qed

section \<open>Checked memory accesses\<close>

text \<open>
  \<open>rd b i\<close> is \<open>b[i]\<close>; \<open>rd_bytes b i n\<close> is the source side of a \<open>memcpy\<close> of \<open>n\<close> bytes from
  \<open>b + i\<close> and \<open>wr_bytes b i s\<close> the destination side of one to \<open>b + i\<close>.
\<close>

definition rd :: "buf \<Rightarrow> nat \<Rightarrow> u8 option" where
  "rd b i = (if i < length b then Some (b ! i) else None)"

definition rd_bytes :: "buf \<Rightarrow> nat \<Rightarrow> nat \<Rightarrow> buf option" where
  "rd_bytes b i n = (if i + n \<le> length b then Some (take n (drop i b)) else None)"

definition wr_bytes :: "buf \<Rightarrow> nat \<Rightarrow> buf \<Rightarrow> buf option" where
  "wr_bytes b i s =
     (if i + length s \<le> length b then Some (take i b @ s @ drop (i + length s) b) else None)"

definition rd_be16 :: "buf \<Rightarrow> nat \<Rightarrow> u16 option" where
  "rd_be16 b i = do { h \<leftarrow> rd b i; l \<leftarrow> rd b (i + 1); Some (be16 h l) }"

definition rd_be32 :: "buf \<Rightarrow> nat \<Rightarrow> u32 option" where
  "rd_be32 b i =
     do { x \<leftarrow> rd b i; y \<leftarrow> rd b (i + 1); z \<leftarrow> rd b (i + 2); w \<leftarrow> rd b (i + 3);
          Some (be32 x y z w) }"

text \<open>
  \<open>with_off n f b\<close> is the call \<open>f(b + n)\<close> of a function that updates memory through its
  pointer: the callee sees the block from offset \<open>n\<close>, the bytes before it stay as they are.
\<close>

definition with_off :: "nat \<Rightarrow> (buf ptr \<Rightarrow> ('a \<times> buf ptr) option) \<Rightarrow> buf \<Rightarrow> ('a \<times> buf) option" where
  "with_off n f b =
     (if n \<le> length b
      then (case f (Some (drop n b)) of
              Some (r, Some b') \<Rightarrow> Some (r, take n b @ b')
            | _ \<Rightarrow> None)
      else None)"

lemma rd_in [mem_simps]: "i < length b \<Longrightarrow> rd b i = Some (b ! i)"
  by (simp add: rd_def)

lemma rd_bytes_in [mem_simps]: "i + n \<le> length b \<Longrightarrow> rd_bytes b i n = Some (take n (drop i b))"
  by (simp add: rd_bytes_def)

lemma wr_bytes_in [mem_simps]:
  "i + length s \<le> length b \<Longrightarrow> wr_bytes b i s = Some (take i b @ s @ drop (i + length s) b)"
  by (simp add: wr_bytes_def)

lemma rd_be16_in [mem_simps]: "i + 1 < length b \<Longrightarrow> rd_be16 b i = Some (be16 (b ! i) (b ! (i + 1)))"
  by (simp add: rd_be16_def rd_def)

lemma rd_be32_in [mem_simps]:
  "i + 3 < length b \<Longrightarrow>
     rd_be32 b i = Some (be32 (b ! i) (b ! (i + 1)) (b ! (i + 2)) (b ! (i + 3)))"
  by (simp add: rd_be32_def rd_def)

lemma rd_None_iff [simp]: "rd b i = None \<longleftrightarrow> length b \<le> i"
  by (simp add: rd_def)

lemma rd_Some_iff: "rd b i = Some v \<longleftrightarrow> i < length b \<and> v = b ! i"
  by (auto simp: rd_def)

lemma rd_bytes_Some_length: "rd_bytes b i n = Some s \<Longrightarrow> length s = n"
  by (auto simp: rd_bytes_def split: if_splits)

lemma wr_bytes_Some_length: "wr_bytes b i s = Some b' \<Longrightarrow> length b' = length b"
  by (auto simp: wr_bytes_def split: if_splits)

lemma wr_bytes_at:
  "length p = i \<Longrightarrow> length s \<le> length r \<Longrightarrow> wr_bytes (p @ r) i s = Some ((p @ s) @ drop (length s) r)"
  by (simp add: wr_bytes_def)

lemma with_off_at:
  "length p = n \<Longrightarrow> f (Some r) = Some (x, Some r') \<Longrightarrow> with_off n f (p @ r) = Some (x, p @ r')"
  by (simp add: with_off_def)

lemma rd_bytes_at:
  "length p = i \<Longrightarrow> length s = n \<Longrightarrow> rd_bytes (p @ s @ r) i n = Some s"
  by (simp add: rd_bytes_def)

lemma with_off_Some [mem_simps]:
  "n \<le> length b \<Longrightarrow> f (Some (drop n b)) = Some (r, Some b') \<Longrightarrow>
     with_off n f b = Some (r, take n b @ b')"
  by (simp add: with_off_def)

section \<open>Runs that stay inside memory\<close>

text \<open>
  \<open>runs m Q\<close>: the computation \<open>m\<close> makes no access outside its blocks and its result satisfies
  \<open>Q\<close>. The rules follow the syntax of the code.
\<close>

definition runs :: "'a option \<Rightarrow> ('a \<Rightarrow> bool) \<Rightarrow> bool" where
  "runs m Q \<longleftrightarrow> (case m of None \<Rightarrow> False | Some r \<Rightarrow> Q r)"

lemma runs_iff: "runs m Q \<longleftrightarrow> (\<exists>r. m = Some r \<and> Q r)"
  by (simp add: runs_def split: option.split)

lemma runs_Some [simp]: "runs (Some r) Q \<longleftrightarrow> Q r"
  by (simp add: runs_def)

lemma runs_None [simp]: "\<not> runs None Q"
  by (simp add: runs_def)

lemma runs_SomeI [runs_intros]: "Q r \<Longrightarrow> runs (Some r) Q"
  by simp

lemma runs_bind [runs_intros]: "runs m (\<lambda>x. runs (f x) Q) \<Longrightarrow> runs (m \<bind> f) Q"
  by (cases m) simp_all

lemma runs_bind_iff: "runs (m \<bind> f) Q \<longleftrightarrow> runs m (\<lambda>x. runs (f x) Q)"
  by (cases m) simp_all

lemma runs_if [runs_intros]:
  "(c \<Longrightarrow> runs m Q) \<Longrightarrow> (\<not> c \<Longrightarrow> runs n Q) \<Longrightarrow> runs (if c then m else n) Q"
  by simp

lemma runs_rd [runs_intros]: "i < length b \<Longrightarrow> Q (b ! i) \<Longrightarrow> runs (rd b i) Q"
  by (simp add: rd_def)

lemma runs_rd_be16 [runs_intros]:
  "i + 1 < length b \<Longrightarrow> Q (be16 (b ! i) (b ! (i + 1))) \<Longrightarrow> runs (rd_be16 b i) Q"
  by (simp add: rd_be16_in)

lemma runs_rd_be32 [runs_intros]:
  "i + 3 < length b \<Longrightarrow> Q (be32 (b ! i) (b ! (i + 1)) (b ! (i + 2)) (b ! (i + 3))) \<Longrightarrow>
     runs (rd_be32 b i) Q"
  by (simp add: rd_be32_in)

lemma runs_rd_bytes [runs_intros]:
  "i + n \<le> length b \<Longrightarrow> Q (take n (drop i b)) \<Longrightarrow> runs (rd_bytes b i n) Q"
  by (simp add: rd_bytes_def)

lemma runs_wr_bytes [runs_intros]:
  "i + length s \<le> length b \<Longrightarrow> Q (take i b @ s @ drop (i + length s) b) \<Longrightarrow> runs (wr_bytes b i s) Q"
  by (simp add: wr_bytes_def)

lemma runs_mono: "runs m P \<Longrightarrow> (\<And>r. P r \<Longrightarrow> Q r) \<Longrightarrow> runs m Q"
  by (cases m) simp_all

lemma runsD: "runs m Q \<Longrightarrow> m = Some r \<Longrightarrow> Q r"
  by simp

lemma runs_ex: "runs m Q \<Longrightarrow> \<exists>r. m = Some r"
  by (auto simp: runs_iff)

end
