(* ===== verification/C_Strings.thy ===== *)
theory C_Strings
  imports Prelude
begin

text \<open>
  NUL-terminated strings inside fixed \<open>char\<close> arrays, and the few library formats the code uses
  (\<open>snprintf\<close> with \<open>%s\<close>, \<open>%u\<close> of a byte and \<open>%02X\<close>, \<open>strncpy\<close>). An array is the list of all its
  bytes, the string in it what precedes the first zero byte. The destination sizes passed by the
  code are the sizes of the arrays, so an operation reads its bound off the destination list.
\<close>

section \<open>Strings in arrays\<close>

definition cstr :: "buf \<Rightarrow> buf" where
  "cstr a = takeWhile (\<lambda>c. c \<noteq> 0) a"

definition cstring :: "nat \<Rightarrow> buf \<Rightarrow> bool" where
  "cstring n a \<longleftrightarrow> length a = n \<and> 0 \<in> set a"

definition ascii :: "string \<Rightarrow> buf" where
  "ascii s = map of_char s"

definition snprintf_to :: "buf \<Rightarrow> buf \<Rightarrow> buf" where
  "snprintf_to dst txt =
     (if dst = [] then []
      else let s = take (length dst - 1) txt in s @ 0 # drop (length s + 1) dst)"

definition strncpy_to :: "buf \<Rightarrow> buf \<Rightarrow> nat \<Rightarrow> buf" where
  "strncpy_to dst src n =
     (let s = take n (cstr src) in s @ replicate (n - length s) 0 @ drop n dst)"

lemma cstr_length_le: "length (cstr a) \<le> length a"
  by (simp add: cstr_def length_takeWhile_le)

lemma cstr_no_nul [simp]: "0 \<notin> set (cstr a)"
  by (auto simp: cstr_def dest: set_takeWhileD)

lemma cstr_length: "cstring n a \<Longrightarrow> length (cstr a) < n"
proof -
  assume a: "cstring n a"
  have "cstr a \<noteq> a" using a cstr_no_nul [of a] by (metis cstring_def)
  then have "length (cstr a) \<noteq> length a"
    unfolding cstr_def by (metis length_takeWhile_le takeWhile_eq_take take_all order_refl)
  with cstr_length_le [of a] a show ?thesis by (simp add: cstring_def)
qed

lemma cstr_append_nul [simp]: "0 \<notin> set s \<Longrightarrow> cstr (s @ 0 # r) = s"
  unfolding cstr_def by (subst takeWhile_append2) auto

lemma cstr_replicate [simp]: "cstr (replicate n 0) = []"
  by (cases n) (simp_all add: cstr_def)

lemma cstr_Nil [simp]: "cstr [] = []"
  by (simp add: cstr_def)

lemma cstr_eq_Nil_iff: "a \<noteq> [] \<Longrightarrow> cstr a = [] \<longleftrightarrow> a ! 0 = 0"
  by (cases a) (auto simp: cstr_def)

lemma cstr_cstr [simp]: "cstr (cstr a) = cstr a"
  by (simp add: cstr_def takeWhile_idem)

lemma cstr_id: "0 \<notin> set s \<Longrightarrow> cstr s = s"
  unfolding cstr_def by (subst takeWhile_eq_all_conv) auto

lemma cstring_zeros [simp, wf_intros]: "0 < n \<Longrightarrow> cstring n (replicate n 0)"
  by (simp add: cstring_def)

lemma cstring_length: "cstring n a \<Longrightarrow> length a = n"
  by (simp add: cstring_def)

lemma take_no_nul: "0 \<notin> set s \<Longrightarrow> 0 \<notin> set (take n (s :: buf))"
  by (auto dest: in_set_takeD)

section \<open>The library calls\<close>

lemma snprintf_to_length [simp]: "length (snprintf_to dst txt) = length dst"
  by (cases dst) (auto simp: snprintf_to_def Let_def)

lemma snprintf_to_cstring [wf_intros]: "length dst = n \<Longrightarrow> 0 < n \<Longrightarrow> cstring n (snprintf_to dst txt)"
  by (cases dst) (auto simp: cstring_def snprintf_to_def Let_def)

lemma cstr_snprintf_to:
  "dst \<noteq> [] \<Longrightarrow> 0 \<notin> set txt \<Longrightarrow> cstr (snprintf_to dst txt) = take (length dst - 1) txt"
  by (simp add: snprintf_to_def Let_def take_no_nul)

lemma strncpy_to_length: "n \<le> length dst \<Longrightarrow> length (strncpy_to dst src n) = length dst"
  by (auto simp: strncpy_to_def Let_def)

lemma strncpy_to_zeros:
  assumes "m = Suc n"
  shows "strncpy_to (replicate m 0) src n =
           take n (cstr src) @ 0 # replicate (n - length (take n (cstr src))) 0"
proof -
  have "replicate k (0 :: u8) @ [0] = 0 # replicate k 0" for k
    by (simp add: replicate_append_same)
  moreover have "drop n (replicate m (0 :: u8)) = [0]"
    using assms by (simp only: drop_replicate) simp
  ultimately show ?thesis by (simp only: strncpy_to_def Let_def)
qed

lemma strncpy_to_cstring [wf_intros]:
  "m = Suc n \<Longrightarrow> cstring m (strncpy_to (replicate m 0) src n)"
  by (simp only: strncpy_to_zeros cstring_def) simp

lemma cstr_append_zeros: "0 \<notin> set s \<Longrightarrow> cstr (s @ replicate n 0) = s"
  by (cases n) (simp_all add: cstr_id)

lemma cstr_strncpy_to:
  "m = Suc n \<Longrightarrow> cstr (strncpy_to (replicate m 0) src n) = take n (cstr src)"
  by (simp only: strncpy_to_zeros) (simp add: take_no_nul)

section \<open>Number formats\<close>

definition dec_digit :: "nat \<Rightarrow> u8" where
  "dec_digit d = of_nat (48 + d)"

fun dec_nat :: "nat \<Rightarrow> buf" where
  "dec_nat n = (if n < 10 then [dec_digit n] else dec_nat (n div 10) @ [dec_digit (n mod 10)])"

declare dec_nat.simps [simp del]

definition dec_u8 :: "u8 \<Rightarrow> buf" where
  "dec_u8 b = dec_nat (unat b)"

definition dec_u16 :: "u16 \<Rightarrow> buf" where
  "dec_u16 w = dec_nat (unat w)"

definition dec_u32 :: "u32 \<Rightarrow> buf" where
  "dec_u32 w = dec_nat (unat w)"

definition hex_digit :: "nat \<Rightarrow> u8" where
  "hex_digit d = (if d < 10 then of_nat (48 + d) else of_nat (55 + d))"

definition hex02 :: "u8 \<Rightarrow> buf" where
  "hex02 b = [hex_digit (unat b div 16), hex_digit (unat b mod 16)]"

definition mac_text :: "buf \<Rightarrow> buf" where
  "mac_text m =
     hex02 (m ! 0) @ 58 # hex02 (m ! 1) @ 58 # hex02 (m ! 2) @ 58 #
     hex02 (m ! 3) @ 58 # hex02 (m ! 4) @ 58 # hex02 (m ! 5)"

definition ipv4_text :: "buf \<Rightarrow> buf" where
  "ipv4_text a = dec_u8 (a ! 0) @ 46 # dec_u8 (a ! 1) @ 46 # dec_u8 (a ! 2) @ 46 # dec_u8 (a ! 3)"

lemma dec_digit_unat: "d < 10 \<Longrightarrow> unat (dec_digit d) = 48 + d"
  unfolding dec_digit_def by (rule unat_of_nat_u8) simp

lemma hex_digit_unat: "d < 16 \<Longrightarrow> unat (hex_digit d) = (if d < 10 then 48 + d else 55 + d)"
  unfolding hex_digit_def using unat_of_nat_u8 [of "48 + d"] unat_of_nat_u8 [of "55 + d"] by auto

lemma dec_nat_nonempty [simp]: "dec_nat n \<noteq> []"
  by (subst dec_nat.simps) simp

lemma length_dec_nat: "n < 10 ^ Suc k \<Longrightarrow> length (dec_nat n) \<le> Suc k"
proof (induction k arbitrary: n)
  case 0
  then show ?case by (subst dec_nat.simps) simp
next
  case (Suc k)
  then have "n div 10 < 10 ^ Suc k" by simp
  then have "length (dec_nat (n div 10)) \<le> Suc k" by (rule Suc.IH)
  then show ?case by (subst dec_nat.simps) simp
qed

lemma dec_nat_digits: "c \<in> set (dec_nat n) \<Longrightarrow> 48 \<le> unat c \<and> unat c \<le> 57"
proof (induction n rule: dec_nat.induct)
  case (1 n)
  show ?case
  proof (cases "n < 10")
    case True
    with 1 show ?thesis by (auto simp: dec_nat.simps [of n] dec_digit_unat)
  next
    case False
    with 1 show ?thesis by (subst (asm) dec_nat.simps) (auto simp: dec_digit_unat)
  qed
qed

lemma dec_nat_no_nul [simp]: "0 \<notin> set (dec_nat n)"
  using dec_nat_digits [of 0 n] by auto

lemma length_dec_u8: "length (dec_u8 b) \<le> 3" "dec_u8 b \<noteq> []"
proof -
  have "unat b < 10 ^ Suc 2" using unat_u8_less [of b] by (simp del: unat_u8_less)
  from length_dec_nat [OF this] show "length (dec_u8 b) \<le> 3" by (simp add: dec_u8_def)
qed (simp add: dec_u8_def)

lemma length_dec_u16: "length (dec_u16 w) \<le> 5" "dec_u16 w \<noteq> []"
proof -
  have "unat w < 10 ^ Suc 4" using unat_u16_less [of w] by (simp del: unat_u16_less)
  from length_dec_nat [OF this] show "length (dec_u16 w) \<le> 5" by (simp add: dec_u16_def)
qed (simp add: dec_u16_def)

lemma length_dec_u32: "length (dec_u32 w) \<le> 10" "dec_u32 w \<noteq> []"
proof -
  have "unat w < 10 ^ Suc 9" using unat_u32_less [of w] by (simp del: unat_u32_less)
  from length_dec_nat [OF this] show "length (dec_u32 w) \<le> 10" by (simp add: dec_u32_def)
qed (simp add: dec_u32_def)

lemma hex02_chars: "c \<in> set (hex02 b) \<Longrightarrow> 48 \<le> unat c"
proof -
  assume c: "c \<in> set (hex02 b)"
  have "unat b < 16 * 16" using unat_u8_less [of b] by simp
  then have "unat b div 16 < 16" by (rule less_mult_imp_div_less)
  with c show ?thesis by (auto simp: hex02_def hex_digit_unat)
qed

lemma dec_no_nul [simp]:
  "0 \<notin> set (dec_u8 b)" "0 \<notin> set (dec_u16 w)" "0 \<notin> set (dec_u32 v)"
  by (simp_all add: dec_u8_def dec_u16_def dec_u32_def)

lemma hex02_no_nul [simp]: "0 \<notin> set (hex02 b)"
  using hex02_chars [of 0 b] by auto

lemma length_hex02 [simp]: "length (hex02 b) = 2"
  by (simp add: hex02_def)

lemma length_mac_text [simp]: "length (mac_text m) = 17"
  by (simp add: mac_text_def)

lemma mac_text_no_nul [simp]: "0 \<notin> set (mac_text m)"
  by (simp add: mac_text_def)

lemma length_ipv4_text: "length (ipv4_text a) \<le> 15"
  using length_dec_u8 [of "a ! 0"] length_dec_u8 [of "a ! 1"] length_dec_u8 [of "a ! 2"]
    length_dec_u8 [of "a ! 3"]
  by (simp add: ipv4_text_def)

lemma ipv4_text_no_nul [simp]: "0 \<notin> set (ipv4_text a)"
  by (simp add: ipv4_text_def)

lemma ipv4_text_nonempty [simp]: "ipv4_text a \<noteq> []"
  by (simp add: ipv4_text_def)

end
