(* ===== verification/Startup_Guard.thy ===== *)
theory Startup_Guard
  imports C_Strings
begin

text \<open>
  \<open>libraries/functions/startup_guard.c\<close>: the heap preflight every scene runs before it starts a
  worker, the diagnostic snapshot it captures, and the retry button of the status screen. The
  two heap figures (\<open>memmgr_get_free_heap\<close>, \<open>memmgr_heap_get_max_free_block\<close>) come from the
  firmware and are arguments here. \<open>size_t\<close> is a 32-bit word.
\<close>

section \<open>Requirements\<close>

record startup_guard_requirements =
  required_total_free :: u32
  required_max_block :: u32

datatype startup_guard_result =
    StartupGuardReady
  | StartupGuardInsufficientTotal
  | StartupGuardInsufficientBlock

definition SIZE_MAX :: u32 where "SIZE_MAX = 0xFFFFFFFF"

definition startup_guard_add_saturating :: "u32 \<Rightarrow> u32 \<Rightarrow> u32" where
  "startup_guard_add_saturating left right =
     (if left > SIZE_MAX - right then SIZE_MAX else left + right)"

definition startup_guard_align_up :: "u32 \<Rightarrow> u32" where
  "startup_guard_align_up val =
     (if val > SIZE_MAX - (8 - 1) then SIZE_MAX else (val + 8 - 1) AND NOT (8 - 1))"

definition startup_guard_allocation_block_size :: "u32 \<Rightarrow> u32" where
  "startup_guard_allocation_block_size payload_bytes =
     startup_guard_align_up (startup_guard_add_saturating payload_bytes 8)"

definition startup_guard_thread_requirements :: "u32 \<Rightarrow> u32 \<Rightarrow> u32 \<Rightarrow> startup_guard_requirements" where
  "startup_guard_thread_requirements stack_bytes additional_total_bytes additional_max_block_bytes =
     (let stack_heap_bytes = startup_guard_allocation_block_size stack_bytes;
          thread_heap_bytes = startup_guard_add_saturating 328 stack_heap_bytes
      in \<lparr> required_total_free =
             startup_guard_add_saturating
               (startup_guard_add_saturating thread_heap_bytes additional_total_bytes) 1024,
           required_max_block =
             (if thread_heap_bytes > additional_max_block_bytes then thread_heap_bytes
              else additional_max_block_bytes) \<rparr>)"

definition startup_guard_evaluate :: "u32 \<Rightarrow> u32 \<Rightarrow> startup_guard_requirements \<Rightarrow> startup_guard_result" where
  "startup_guard_evaluate free_heap max_block requirements =
     (if free_heap < required_total_free requirements then StartupGuardInsufficientTotal
      else if max_block < required_max_block requirements then StartupGuardInsufficientBlock
      else StartupGuardReady)"

text \<open>The public \<open>startup_guard_check\<close> reads the same two figures from the heap itself.\<close>

definition startup_guard_check :: "u32 \<Rightarrow> u32 \<Rightarrow> startup_guard_requirements \<Rightarrow> startup_guard_result" where
  "startup_guard_check free_heap max_block requirements =
     (if free_heap < required_total_free requirements then StartupGuardInsufficientTotal
      else if max_block < required_max_block requirements then StartupGuardInsufficientBlock
      else StartupGuardReady)"

section \<open>The diagnostic snapshot\<close>

datatype startup_diagnostic_result =
    StartupDiagnosticResultNone
  | StartupDiagnosticResultTotal
  | StartupDiagnosticResultBlock
  | StartupDiagnosticResultAllocation

datatype startup_diagnostic_boundary =
    StartupDiagnosticBoundaryNone
  | StartupDiagnosticBoundaryPassiveDb
  | StartupDiagnosticBoundaryReadPcapStart
  | StartupDiagnosticBoundaryReadPcapPostIndex
  | StartupDiagnosticBoundaryReadPcapWorker
  | StartupDiagnosticBoundaryArpScannerWorker
  | StartupDiagnosticBoundaryScannerWait

record startup_diagnostic_snapshot =
  sd_free_heap :: u32
  sd_max_block :: u32
  sd_required_total :: u32
  sd_required_block :: u32
  sd_result :: startup_diagnostic_result
  sd_boundary :: startup_diagnostic_boundary
  sd_valid :: bool

definition startup_guard_diagnostic_clear ::
  "startup_diagnostic_snapshot ptr \<Rightarrow> startup_diagnostic_snapshot ptr" where
  "startup_guard_diagnostic_clear snapshot =
     (case snapshot of
        None \<Rightarrow> None
      | Some s \<Rightarrow> Some (s\<lparr> sd_valid := False, sd_result := StartupDiagnosticResultNone,
                          sd_boundary := StartupDiagnosticBoundaryNone \<rparr>))"

definition startup_guard_check_capture ::
  "u32 \<Rightarrow> u32 \<Rightarrow> startup_diagnostic_snapshot \<Rightarrow> startup_guard_requirements \<Rightarrow>
   startup_diagnostic_boundary \<Rightarrow> startup_guard_result \<times> startup_diagnostic_snapshot" where
  "startup_guard_check_capture free_heap max_block snapshot requirements boundary =
     (let res = startup_guard_evaluate free_heap max_block requirements in
      (res,
       snapshot\<lparr> sd_free_heap := free_heap, sd_max_block := max_block,
                 sd_required_total := required_total_free requirements,
                 sd_required_block := required_max_block requirements,
                 sd_boundary := boundary,
                 sd_result := (if res = StartupGuardInsufficientTotal then StartupDiagnosticResultTotal
                               else if res = StartupGuardInsufficientBlock then StartupDiagnosticResultBlock
                               else StartupDiagnosticResultNone),
                 sd_valid := (res \<noteq> StartupGuardReady) \<rparr>))"

definition startup_guard_capture_allocation_failure ::
  "u32 \<Rightarrow> u32 \<Rightarrow> startup_diagnostic_snapshot \<Rightarrow> startup_guard_requirements \<Rightarrow>
   startup_diagnostic_boundary \<Rightarrow> startup_diagnostic_snapshot" where
  "startup_guard_capture_allocation_failure free_heap max_block snapshot requirements boundary =
     snapshot\<lparr> sd_free_heap := free_heap, sd_max_block := max_block,
               sd_required_total := required_total_free requirements,
               sd_required_block := required_max_block requirements,
               sd_result := StartupDiagnosticResultAllocation,
               sd_boundary := boundary, sd_valid := True \<rparr>"

fun startup_guard_boundary_name :: "startup_diagnostic_boundary \<Rightarrow> buf" where
  "startup_guard_boundary_name StartupDiagnosticBoundaryPassiveDb = ascii ''Passive DB''"
| "startup_guard_boundary_name StartupDiagnosticBoundaryReadPcapStart = ascii ''Reader start''"
| "startup_guard_boundary_name StartupDiagnosticBoundaryReadPcapPostIndex = ascii ''Reader index''"
| "startup_guard_boundary_name StartupDiagnosticBoundaryReadPcapWorker = ascii ''Reader worker''"
| "startup_guard_boundary_name StartupDiagnosticBoundaryArpScannerWorker = ascii ''Scanner worker''"
| "startup_guard_boundary_name StartupDiagnosticBoundaryScannerWait = ascii ''Scanner wait''"
| "startup_guard_boundary_name _ = ascii ''Resource''"

fun startup_guard_result_name :: "startup_diagnostic_result \<Rightarrow> buf" where
  "startup_guard_result_name StartupDiagnosticResultTotal = ascii ''TOTAL''"
| "startup_guard_result_name StartupDiagnosticResultBlock = ascii ''BLOCK''"
| "startup_guard_result_name StartupDiagnosticResultAllocation = ascii ''ALLOC''"
| "startup_guard_result_name _ = ascii ''UNKNOWN''"

definition startup_guard_diagnostic_title :: "startup_diagnostic_snapshot ptr \<Rightarrow> buf" where
  "startup_guard_diagnostic_title snapshot =
     (case snapshot of
        Some s \<Rightarrow> if sd_result s = StartupDiagnosticResultBlock then ascii ''Not enough block''
                  else if sd_result s = StartupDiagnosticResultAllocation then ascii ''Allocation failed''
                  else ascii ''Not enough memory''
      | None \<Rightarrow> ascii ''Not enough memory'')"

definition startup_guard_diagnostic_text :: "startup_diagnostic_snapshot \<Rightarrow> buf" where
  "startup_guard_diagnostic_text s =
     startup_guard_boundary_name (sd_boundary s) @ ascii '' '' @
     startup_guard_result_name (sd_result s) @ [10] @
     ascii ''Free:'' @ dec_u32 (sd_free_heap s) @ ascii '' Block:'' @ dec_u32 (sd_max_block s) @ [10] @
     ascii ''NeedT:'' @ dec_u32 (sd_required_total s) @ ascii '' NeedB:'' @ dec_u32 (sd_required_block s)"

definition startup_guard_format_diagnostic :: "startup_diagnostic_snapshot \<Rightarrow> buf \<Rightarrow> buf" where
  "startup_guard_format_diagnostic snapshot out =
     snprintf_to out (startup_guard_diagnostic_text snapshot)"

section \<open>Status screen and retry button\<close>

text \<open>
  The part of \<open>App\<close> the guard works on. \<open>ga_screen\<close> is what the widget shows after
  \<open>widget_reset\<close>: the title, the reason and the retry button; a retry callback is any value of
  type \<open>'cb\<close>, and pressing the button returns the callback to run.
\<close>

record 'cb guard_app =
  ga_retry_callback :: "'cb ptr"
  ga_diagnostic :: startup_diagnostic_snapshot
  ga_thread_alternative :: bool   \<comment> \<open>the pointer is not NULL\<close>
  ga_thread_owner_none :: bool    \<comment> \<open>the owner is \<open>AppThreadOwnerNone\<close>\<close>
  ga_screen :: "(buf \<times> buf) option"

definition startup_guard_retry_button :: "bool \<Rightarrow> bool \<Rightarrow> 'cb guard_app \<Rightarrow> 'cb ptr \<times> 'cb guard_app" where
  "startup_guard_retry_button is_center is_short app =
     (if \<not> is_center \<or> \<not> is_short \<or> ga_retry_callback app = None then (None, app)
      else (ga_retry_callback app, app\<lparr> ga_retry_callback := None \<rparr>))"

definition startup_guard_show_status :: "'cb guard_app \<Rightarrow> buf \<Rightarrow> buf \<Rightarrow> 'cb ptr \<Rightarrow> 'cb guard_app" where
  "startup_guard_show_status app title reason cb =
     app\<lparr> ga_retry_callback := cb, ga_screen := Some (title, reason) \<rparr>"

definition startup_guard_thread_slot_available :: "'cb guard_app \<Rightarrow> 'cb ptr \<Rightarrow> bool \<times> 'cb guard_app" where
  "startup_guard_thread_slot_available app cb =
     (if \<not> ga_thread_alternative app \<and> ga_thread_owner_none app then (True, app)
      else (False, startup_guard_show_status app (ascii ''Feature unavailable'')
                     (ascii ''Another operation'' @ [10] @ ascii ''is still active'') cb))"

definition startup_guard_show_low_memory :: "'cb guard_app \<Rightarrow> buf \<Rightarrow> 'cb ptr \<Rightarrow> 'cb guard_app" where
  "startup_guard_show_low_memory app reason cb =
     startup_guard_show_status app (ascii ''Not enough memory'') reason cb"

definition startup_guard_show_diagnostic :: "'cb guard_app \<Rightarrow> 'cb ptr \<Rightarrow> 'cb guard_app" where
  "startup_guard_show_diagnostic app cb =
     startup_guard_show_status app (startup_guard_diagnostic_title (Some (ga_diagnostic app)))
       (cstr (startup_guard_format_diagnostic (ga_diagnostic app) (replicate 112 0))) cb"

definition startup_guard_clear :: "'cb guard_app ptr \<Rightarrow> 'cb guard_app ptr" where
  "startup_guard_clear app =
     map_option (\<lambda>a. a\<lparr> ga_retry_callback := None,
                       ga_diagnostic := the (startup_guard_diagnostic_clear (Some (ga_diagnostic a))) \<rparr>) app"

section \<open>Facts\<close>

lemma unat_SIZE_MAX: "unat SIZE_MAX = 4294967295"
  by (simp add: SIZE_MAX_def)

lemma unat_add_saturating:
  "unat (startup_guard_add_saturating a b) = min (unat a + unat b) 4294967295"
proof -
  have "unat (SIZE_MAX - b) = 4294967295 - unat b"
    using unat_u32_less [of b] by (subst unat_sub) (auto simp: SIZE_MAX_def word_le_nat_alt simp del: unat_u32_less)
  then have "SIZE_MAX - b < a \<longleftrightarrow> 4294967295 < unat a + unat b"
    using unat_u32_less [of b] by (simp add: word_less_nat_alt del: unat_u32_less) linarith
  then show ?thesis
    by (auto simp: startup_guard_add_saturating_def unat_SIZE_MAX unat_word_ariths min_def)
qed

lemma and_not_seven: "(w :: u32) AND NOT 7 = push_bit 3 (drop_bit 3 w)"
proof (rule bit_word_eqI)
  fix n
  assume "n < LENGTH(32)"
  have "(7 :: u32) = mask 3" by (simp add: mask_eq_exp_minus_1)
  then show "bit (w AND NOT 7) n = bit (push_bit 3 (drop_bit 3 w)) n"
    using \<open>n < LENGTH(32)\<close> by (simp only: bit_simps) (auto simp: bit_simps)
qed

lemma and_minus_eight: "(w :: u32) AND - 8 = push_bit 3 (drop_bit 3 w)"
proof -
  have "(- 8 :: u32) = NOT 7" by simp
  then show ?thesis by (simp only: and_not_seven)
qed

lemma unat_align_up:
  "unat (startup_guard_align_up v) =
     (if unat v \<le> 4294967288 then (unat v + 7) div 8 * 8 else 4294967295)"
proof -
  have "SIZE_MAX - (8 - 1) < v \<longleftrightarrow> 4294967288 < unat v"
    by (simp add: SIZE_MAX_def word_less_nat_alt)
  moreover have "unat (push_bit 3 (drop_bit 3 (v + 7))) = (unat v + 7) div 8 * 8"
    if "unat v \<le> 4294967288"
  proof -
    have s: "unat (v + 7) = unat v + 7" using that by (simp add: unat_word_ariths)
    have "unat (drop_bit 3 (v + 7)) = (unat v + 7) div 8"
      by (simp only: unat_drop_bit_eq s) (simp add: drop_bit_eq_div)
    moreover have "(unat v + 7) div 8 * 8 \<le> unat v + 7" by simp
    ultimately show ?thesis
      using that by (simp add: push_bit_eq_mult unat_word_ariths)
  qed
  moreover have "v + 8 - 1 = v + 7" by (simp add: algebra_simps)
  ultimately show ?thesis
    by (auto simp: startup_guard_align_up_def and_minus_eight unat_SIZE_MAX not_less algebra_simps)
qed

lemma startup_guard_check_evaluate [simp]:
  "startup_guard_check f b r = startup_guard_evaluate f b r"
  by (simp add: startup_guard_check_def startup_guard_evaluate_def)

lemma evaluate_Ready_iff:
  "startup_guard_evaluate f b r = StartupGuardReady \<longleftrightarrow>
     required_total_free r \<le> f \<and> required_max_block r \<le> b"
  by (auto simp: startup_guard_evaluate_def not_less)

text \<open>The requirements are the sums as natural numbers, cut at the largest \<open>size_t\<close>.\<close>

lemma thread_requirements_unat:
  fixes s t m :: u32
  defines "blk \<equiv> (unat s + 15) div 8 * 8"
  shows "unat (required_total_free (startup_guard_thread_requirements s t m)) =
           min (328 + blk + unat t + 1024) 4294967295"
    and "unat (required_max_block (startup_guard_thread_requirements s t m)) =
           max (min (328 + blk) 4294967295) (unat m)"
proof -
  have th: "unat (startup_guard_add_saturating 328 (startup_guard_allocation_block_size s)) =
          min (328 + blk) 4294967295"
  proof (cases "unat s \<le> 4294967280")
    case True
    then have "unat (startup_guard_add_saturating s 8) = unat s + 8" by (simp add: unat_add_saturating)
    then have "unat (startup_guard_allocation_block_size s) = blk"
      using True by (simp add: startup_guard_allocation_block_size_def unat_align_up blk_def)
    then show ?thesis by (simp add: unat_add_saturating)
  next
    case False
    then have "4294967288 < unat (startup_guard_add_saturating s 8)" by (simp add: unat_add_saturating)
    then have "unat (startup_guard_allocation_block_size s) = 4294967295"
      by (simp add: startup_guard_allocation_block_size_def unat_align_up)
    moreover have "4294967288 \<le> blk" using False unfolding blk_def by linarith
    ultimately show ?thesis by (simp add: unat_add_saturating)
  qed
  then show "unat (required_total_free (startup_guard_thread_requirements s t m)) =
           min (328 + blk + unat t + 1024) 4294967295"
    by (simp add: startup_guard_thread_requirements_def Let_def unat_add_saturating)
  show "unat (required_max_block (startup_guard_thread_requirements s t m)) =
           max (min (328 + blk) 4294967295) (unat m)"
    using th by (auto simp: startup_guard_thread_requirements_def Let_def word_less_nat_alt)
qed

section \<open>Property\<close>

text \<open>
  C9. The preflight of a worker thread, for every stack size and every extra allocation: it answers
  Ready exactly when the free heap covers the thread metadata, the stack block with its header rounded
  up to eight bytes, the caller's extra allocations and the reserve together, and the largest block
  covers thread and extra block. The sums are those of natural numbers, cut at the largest \<open>size_t\<close>
  and never wrapped around. A lack of total is reported before a lack of block.
\<close>

theorem startup_guard_thread_check_iff:
  fixes stack extra extra_blk free blk :: u32
  defines "thread \<equiv> 328 + (unat stack + 15) div 8 * 8"
  shows "startup_guard_check free blk (startup_guard_thread_requirements stack extra extra_blk) =
           (if unat free < min (thread + unat extra + 1024) (2 ^ 32 - 1) then StartupGuardInsufficientTotal
            else if unat blk < max (min thread (2 ^ 32 - 1)) (unat extra_blk) then StartupGuardInsufficientBlock
            else StartupGuardReady)"
  using thread_requirements_unat [of stack extra extra_blk]
  by (simp add: startup_guard_evaluate_def word_less_nat_alt thread_def)

theorem startup_guard_thread_check_iff_witness:
  "startup_guard_check 8000 4000 (startup_guard_thread_requirements 2048 100 0) = StartupGuardReady \<and>
   startup_guard_check 0xFFFFFF00 4000 (startup_guard_thread_requirements 0xFFFFFF00 0xFFFFFF00 0) =
     StartupGuardInsufficientTotal"
  using startup_guard_thread_check_iff [of 8000 4000 2048 100 0]
    startup_guard_thread_check_iff [of "0xFFFFFF00" 4000 "0xFFFFFF00" "0xFFFFFF00" 0] by simp

end
