(* ===== verification/Packed_Struct.thy ===== *)
theory Packed_Struct
  imports Prelude
begin

text \<open>
  The C idiom behind every protocol header: a struct of byte arrays laid over a packet buffer.
  A header is a record, and a pair of layout functions says which bytes each field has. The code
  either copies a header out of a packet (\<open>memcpy((uint8_t*)&h, buffer + off, SIZE)\<close>), modelled by
  \<open>load_struct\<close>, or casts the buffer and assigns the fields in place, modelled by \<open>overlay\<close>.
\<close>

definition load_struct :: "nat \<Rightarrow> (buf \<Rightarrow> 'h) \<Rightarrow> buf \<Rightarrow> nat \<Rightarrow> 'h option" where
  "load_struct sz dec b off = map_option dec (rd_bytes b off sz)"

definition overlay :: "nat \<Rightarrow> (buf \<Rightarrow> 'h) \<Rightarrow> ('h \<Rightarrow> buf) \<Rightarrow> ('h \<Rightarrow> 'h) \<Rightarrow> buf \<Rightarrow> buf option" where
  "overlay sz dec enc f b = do { bs \<leftarrow> rd_bytes b 0 sz; wr_bytes b 0 (enc (f (dec bs))) }"

text \<open>Consecutive fields of a block, read back together.\<close>

lemma chunk: "k + n = m \<Longrightarrow> take n (drop k b) @ drop m b = drop k b"
  by (metis add.commute append_take_drop_id drop_drop)

lemma chunk_byte: "k < length b \<Longrightarrow> k + 1 = m \<Longrightarrow> b ! k # drop m b = drop k b"
  by (auto simp: Cons_nth_drop_Suc)

lemma chunk_last: "length b = k + n \<Longrightarrow> take n (drop k b) = drop k b"
  by simp

lemmas chunks = chunk chunk_byte chunk_last

text \<open>What a layout has to satisfy, and what loads and in-place updates then do.\<close>

locale packed_struct =
  fixes sz :: nat
    and dec :: "buf \<Rightarrow> 'h"
    and enc :: "'h \<Rightarrow> buf"
    and wf :: "'h \<Rightarrow> bool"
  assumes length_enc: "wf h \<Longrightarrow> length (enc h) = sz"
    and dec_enc: "wf h \<Longrightarrow> dec (enc h) = h"
    and wf_dec: "length b = sz \<Longrightarrow> wf (dec b)"
    and enc_dec: "length b = sz \<Longrightarrow> enc (dec b) = b"
begin

lemma overlay_eq:
  assumes "sz \<le> length b" and "\<And>h. wf h \<Longrightarrow> wf (f h)"
  shows "overlay sz dec enc f b = Some (enc (f (dec (take sz b))) @ drop sz b)"
proof -
  have "wf (f (dec (take sz b)))" using assms by (intro assms(2) wf_dec) simp
  then have "length (enc (f (dec (take sz b)))) = sz" by (rule length_enc)
  with assms(1) show ?thesis by (simp add: overlay_def rd_bytes_def wr_bytes_def)
qed

lemma load_eq: "off + sz \<le> length b \<Longrightarrow> load_struct sz dec b off = Some (dec (take sz (drop off b)))"
  by (simp add: load_struct_def rd_bytes_def)

lemma load_None_iff: "load_struct sz dec b off = None \<longleftrightarrow> length b < off + sz"
  by (simp add: load_struct_def rd_bytes_def)

lemma load_stored:
  assumes "wf h" and "length p = off"
  shows "load_struct sz dec (p @ enc h @ r) off = Some h"
  using assms length_enc [of h] by (simp add: load_eq dec_enc)

lemma load_wf: "load_struct sz dec b off = Some h \<Longrightarrow> wf h"
  unfolding load_struct_def by (auto intro: wf_dec dest: rd_bytes_Some_length)

lemma enc_inject: "wf g \<Longrightarrow> wf h \<Longrightarrow> enc g = enc h \<longleftrightarrow> g = h"
  by (metis dec_enc)

end

end
