(* ===== verification/Ethernet.thy ===== *)
theory Ethernet
  imports Packed_Struct
begin

text \<open>
  \<open>libraries/protocol_tools/ethernet_protocol.c\<close> and \<open>arp.c\<close>: the Ethernet II and ARP headers.
  A pointer that is only ever read (a MAC or IP address) is a nullable byte block of its own; the
  callers pass arrays that do not overlap the packet being built. The shared addresses of
  \<open>libraries/generals/ethernet_general.c\<close> are here too.
\<close>

section \<open>Shared addresses\<close>

definition MAC_ZEROS :: buf where "MAC_ZEROS = replicate 6 0"
definition MAC_BROADCAST :: buf where "MAC_BROADCAST = replicate 6 0xFF"
definition MAC_SPOOF :: buf where "MAC_SPOOF = replicate 6 1"
definition IP_BROADCAST :: buf where "IP_BROADCAST = replicate 4 0xFF"

section \<open>Ethernet header\<close>

record ethernet_header =
  eth_mac_destination :: buf
  eth_mac_source :: buf
  eth_type :: buf

definition ETHERNET_HEADER_LEN :: nat where [simp]: "ETHERNET_HEADER_LEN = 14"

definition eth_to_bytes :: "ethernet_header \<Rightarrow> buf" where
  "eth_to_bytes h = eth_mac_destination h @ eth_mac_source h @ eth_type h"

definition eth_of_bytes :: "buf \<Rightarrow> ethernet_header" where
  "eth_of_bytes b =
     \<lparr> eth_mac_destination = take 6 b, eth_mac_source = take 6 (drop 6 b),
       eth_type = take 2 (drop 12 b) \<rparr>"

definition wf_eth :: "ethernet_header \<Rightarrow> bool" where
  "wf_eth h \<longleftrightarrow> length (eth_mac_destination h) = 6 \<and> length (eth_mac_source h) = 6 \<and>
     length (eth_type h) = 2"

definition set_ethernet_header ::
  "buf ptr \<Rightarrow> buf ptr \<Rightarrow> buf ptr \<Rightarrow> u16 \<Rightarrow> (bool \<times> buf ptr) option" where
  "set_ethernet_header buffer mac_origin mac_destination type =
     (case (buffer, mac_origin, mac_destination) of
        (Some b, Some src, Some dst) \<Rightarrow>
          do { d \<leftarrow> rd_bytes dst 0 6;
               s \<leftarrow> rd_bytes src 0 6;
               b' \<leftarrow> overlay ETHERNET_HEADER_LEN eth_of_bytes eth_to_bytes
                      (\<lambda>h. h\<lparr> eth_mac_destination := d, eth_mac_source := s,
                              eth_type := [hi8 type, lo8 type] \<rparr>) b;
               Some (True, Some b') }
      | _ \<Rightarrow> Some (False, buffer))"

definition ethernet_get_header :: "buf \<Rightarrow> ethernet_header option" where
  "ethernet_get_header buffer = load_struct ETHERNET_HEADER_LEN eth_of_bytes buffer 0"

interpretation eth: packed_struct 14 eth_of_bytes eth_to_bytes wf_eth
  by unfold_locales (auto simp: eth_to_bytes_def eth_of_bytes_def wf_eth_def chunks)

text \<open>The two type bytes read as the code reads them, \<open>type[0] << 8 | type[1]\<close>.\<close>

definition eth_ethertype :: "ethernet_header \<Rightarrow> u16" where
  "eth_ethertype h = be16 (eth_type h ! 0) (eth_type h ! 1)"

lemma set_ethernet_header_eq [layout_simps]:
  assumes "14 \<le> length b" "6 \<le> length s" "6 \<le> length d"
  shows "set_ethernet_header (Some b) (Some s) (Some d) type =
           Some (True, Some (take 6 d @ take 6 s @ [hi8 type, lo8 type] @ drop 14 b))"
  using assms
  by (simp add: set_ethernet_header_def mem_simps)
    (subst eth.overlay_eq, auto simp: wf_eth_def eth_to_bytes_def)

lemma set_ethernet_header_null:
  "b = None \<or> s = None \<or> d = None \<Longrightarrow> set_ethernet_header b s d type = Some (False, b)"
  by (auto simp: set_ethernet_header_def split: option.splits)

section \<open>ARP header\<close>

record arp_header =
  arp_hardware_type :: buf
  arp_protocol_type :: buf
  arp_hardware_length :: u8
  arp_protocol_length :: u8
  arp_operation_code :: buf
  arp_mac_source :: buf
  arp_ip_source :: buf
  arp_mac_destiny :: buf
  arp_ip_destiny :: buf

definition ARP_LEN :: nat where [simp]: "ARP_LEN = 28"

definition arp_zero :: arp_header where
  "arp_zero =
     \<lparr> arp_hardware_type = [0, 0], arp_protocol_type = [0, 0], arp_hardware_length = 0,
       arp_protocol_length = 0, arp_operation_code = [0, 0], arp_mac_source = replicate 6 0,
       arp_ip_source = replicate 4 0, arp_mac_destiny = replicate 6 0,
       arp_ip_destiny = replicate 4 0 \<rparr>"

definition arp_to_bytes :: "arp_header \<Rightarrow> buf" where
  "arp_to_bytes h =
     arp_hardware_type h @ arp_protocol_type h @ [arp_hardware_length h, arp_protocol_length h] @
     arp_operation_code h @ arp_mac_source h @ arp_ip_source h @ arp_mac_destiny h @
     arp_ip_destiny h"

definition arp_of_bytes :: "buf \<Rightarrow> arp_header" where
  "arp_of_bytes b =
     \<lparr> arp_hardware_type = take 2 b, arp_protocol_type = take 2 (drop 2 b),
       arp_hardware_length = b ! 4, arp_protocol_length = b ! 5,
       arp_operation_code = take 2 (drop 6 b), arp_mac_source = take 6 (drop 8 b),
       arp_ip_source = take 4 (drop 14 b), arp_mac_destiny = take 6 (drop 18 b),
       arp_ip_destiny = take 4 (drop 24 b) \<rparr>"

definition wf_arp :: "arp_header \<Rightarrow> bool" where
  "wf_arp h \<longleftrightarrow> length (arp_hardware_type h) = 2 \<and> length (arp_protocol_type h) = 2 \<and>
     length (arp_operation_code h) = 2 \<and> length (arp_mac_source h) = 6 \<and>
     length (arp_ip_source h) = 4 \<and> length (arp_mac_destiny h) = 6 \<and>
     length (arp_ip_destiny h) = 4"

definition arp_set_header ::
  "buf ptr \<Rightarrow> buf ptr \<Rightarrow> buf ptr \<Rightarrow> buf ptr \<Rightarrow> buf ptr \<Rightarrow> u16 \<Rightarrow> (bool \<times> buf ptr) option" where
  "arp_set_header buffer MAC_SRC MAC_DES IP_SRC IP_DES opcode =
     (case (buffer, MAC_SRC, MAC_DES, IP_SRC, IP_DES) of
        (Some b, Some ms, Some md, Some sip, Some dip) \<Rightarrow>
          do { ips \<leftarrow> rd_bytes sip 0 4;
               ipd \<leftarrow> rd_bytes dip 0 4;
               macs \<leftarrow> rd_bytes ms 0 6;
               macd \<leftarrow> rd_bytes md 0 6;
               b' \<leftarrow> overlay ARP_LEN arp_of_bytes arp_to_bytes
                      (\<lambda>_. arp_zero\<lparr> arp_hardware_type := [0, 1], arp_protocol_type := [8, 0],
                             arp_hardware_length := 6, arp_protocol_length := 4,
                             arp_operation_code := [hi8 opcode, lo8 opcode],
                             arp_ip_source := ips, arp_ip_destiny := ipd,
                             arp_mac_source := macs, arp_mac_destiny := macd \<rparr>) b;
               Some (True, Some b') }
      | _ \<Rightarrow> Some (False, buffer))"

definition is_arp :: "buf ptr \<Rightarrow> bool option" where
  "is_arp buffer =
     (case buffer of
        None \<Rightarrow> Some False
      | Some b \<Rightarrow> do { header \<leftarrow> ethernet_get_header b; Some (eth_ethertype header = 0x0806) })"

definition arp_get_header :: "buf ptr \<Rightarrow> arp_header option" where
  "arp_get_header buffer =
     (case buffer of
        None \<Rightarrow> Some arp_zero
      | Some b \<Rightarrow> load_struct ARP_LEN arp_of_bytes b ETHERNET_HEADER_LEN)"

interpretation arp: packed_struct 28 arp_of_bytes arp_to_bytes wf_arp
  by unfold_locales (auto simp: arp_to_bytes_def arp_of_bytes_def wf_arp_def chunks nth_append)

text \<open>The header a successful \<open>arp_set_header\<close> lays at the start of the buffer.\<close>

definition arp_fields :: "buf \<Rightarrow> buf \<Rightarrow> buf \<Rightarrow> buf \<Rightarrow> u16 \<Rightarrow> arp_header" where
  "arp_fields ms md sip dip opcode =
     \<lparr> arp_hardware_type = [0, 1], arp_protocol_type = [8, 0], arp_hardware_length = 6,
       arp_protocol_length = 4, arp_operation_code = [hi8 opcode, lo8 opcode],
       arp_mac_source = take 6 ms, arp_ip_source = take 4 sip, arp_mac_destiny = take 6 md,
       arp_ip_destiny = take 4 dip \<rparr>"

lemma wf_arp_fields [wf_intros]:
  "6 \<le> length ms \<Longrightarrow> 6 \<le> length md \<Longrightarrow> 4 \<le> length sip \<Longrightarrow> 4 \<le> length dip \<Longrightarrow>
     wf_arp (arp_fields ms md sip dip opcode)"
  by (simp add: wf_arp_def arp_fields_def)

lemma arp_set_header_eq [layout_simps]:
  assumes "28 \<le> length b" "6 \<le> length ms" "6 \<le> length md" "4 \<le> length sip" "4 \<le> length dip"
  shows "arp_set_header (Some b) (Some ms) (Some md) (Some sip) (Some dip) opcode =
           Some (True, Some (arp_to_bytes (arp_fields ms md sip dip opcode) @ drop 28 b))"
  using assms
  by (simp add: arp_set_header_def mem_simps)
    (subst arp.overlay_eq, auto simp: wf_arp_def arp_fields_def arp_zero_def)

lemma arp_set_header_null:
  "b = None \<or> ms = None \<or> md = None \<or> sip = None \<or> dip = None \<Longrightarrow>
     arp_set_header b ms md sip dip opcode = Some (False, b)"
  by (auto simp: arp_set_header_def split: option.splits)

lemma is_arp_in [mem_simps]:
  "14 \<le> length b \<Longrightarrow> is_arp (Some b) = Some (be16 (b ! 12) (b ! 13) = 0x0806)"
  by (simp add: is_arp_def ethernet_get_header_def eth.load_eq eth_ethertype_def eth_of_bytes_def)

end
