(* ===== verification/Checksum.thy ===== *)
theory Checksum
  imports Prelude
begin

text \<open>
  The internet checksum of \<open>libraries/protocol_tools/ipv4.c\<close>: the byte-pair loop with a final
  carry fold (\<open>calculate_checksum\<close>), the word loop with an immediate carry
  (\<open>calculate_checksum_ipv4\<close>), and the arithmetic both compute. Lengths are the \<open>uint16_t\<close>
  arguments; the loop index \<open>i\<close> runs over naturals because \<open>i < len - 1\<close> is compared as
  \<open>int\<close> and \<open>i\<close> never passes 65534, so its 16-bit increments do not wrap.
\<close>

section \<open>The code\<close>

function fold_carries :: "u32 \<Rightarrow> u32" where
  "fold_carries acc =
     (if drop_bit 16 acc \<noteq> 0 then fold_carries ((acc AND 0xFFFF) + drop_bit 16 acc) else acc)"
  by pat_completeness auto

lemma low_half: "unat (s AND 0xFFFF) = unat s mod 65536" for s :: u32
proof -
  have "s AND 0xFFFF = take_bit 16 s" by (simp add: take_bit_eq_mask mask_eq_exp_minus_1)
  then show ?thesis by (simp only: unsigned_take_bit_eq) (simp add: take_bit_eq_mod)
qed

lemma high_half: "unat (drop_bit 16 s) = unat s div 65536" for s :: u32
  by (simp only: unat_drop_bit_eq) (simp add: drop_bit_eq_div)

lemma fold_step: "unat ((s AND 0xFFFF) + drop_bit 16 s) = unat s mod 65536 + unat s div 65536"
  for s :: u32
proof -
  have "unat s div 65536 < 65536"
    using unat_u32_less [of s] by (intro less_mult_imp_div_less) (simp del: unat_u32_less)
  moreover have "unat s mod 65536 < 65536" by simp
  ultimately have "unat s mod 65536 + unat s div 65536 < 4294967296" by linarith
  then show ?thesis by (simp add: unat_word_ariths low_half high_half)
qed

lemma drop_16_nonzero: "drop_bit 16 s \<noteq> 0 \<longleftrightarrow> 65536 \<le> unat s" for s :: u32
proof -
  have "drop_bit 16 s = 0 \<longleftrightarrow> unat s div 65536 = 0"
    by (metis high_half unsigned_0 unsigned_word_eqI)
  then show ?thesis by (auto simp: div_eq_0_iff)
qed

termination fold_carries
proof (relation "measure unat")
  fix s :: u32
  assume "drop_bit 16 s \<noteq> 0"
  then have s: "65536 \<le> unat s" by (simp only: drop_16_nonzero)
  then have "0 < unat s div 65536" by (simp add: div_greater_zero_iff)
  moreover have "unat s = 65536 * (unat s div 65536) + unat s mod 65536" by simp
  ultimately have "unat s mod 65536 + unat s div 65536 < unat s" by linarith
  then show "((s AND 0xFFFF) + drop_bit 16 s, s) \<in> measure unat" by (simp only: in_measure fold_step)
qed simp

declare fold_carries.simps [simp del]

function sum_pairs :: "buf \<Rightarrow> nat \<Rightarrow> nat \<Rightarrow> u32 \<Rightarrow> u32 option" where
  "sum_pairs d len i acc =
     (if i + 1 < len
      then do { x \<leftarrow> rd d i; y \<leftarrow> rd d (i + 1);
                sum_pairs d len (i + 2) (acc + (push_bit 8 (ucast x) OR ucast y)) }
      else Some acc)"
  by pat_completeness auto
termination by (relation "measure (\<lambda>(d, len, i, acc). len - i)") auto

declare sum_pairs.simps [simp del]

definition add_last :: "buf \<Rightarrow> nat \<Rightarrow> u32 \<Rightarrow> u32 option" where
  "add_last d len acc =
     (if odd len then do { x \<leftarrow> rd d (len - 1); Some (acc + push_bit 8 (ucast x)) } else Some acc)"

definition calculate_checksum :: "buf \<Rightarrow> u16 \<Rightarrow> u16 option" where
  "calculate_checksum d len =
     do { acc \<leftarrow> sum_pairs d (unat len) 0 0;
          acc \<leftarrow> add_last d (unat len) acc;
          Some (ucast (NOT (fold_carries acc))) }"

function sum_words :: "buf \<Rightarrow> nat \<Rightarrow> nat \<Rightarrow> u32 \<Rightarrow> u32 option" where
  "sum_words d len i acc =
     (if i < len
      then do { x \<leftarrow> rd d (2 * i); y \<leftarrow> rd d (2 * i + 1);
                let byte_act = (ucast ((push_bit 8 (ucast x) :: u32) + ucast y) :: u16);
                let acc = acc + ucast byte_act;
                sum_words d len (i + 1)
                  (if acc AND 0x10000 \<noteq> 0 then (acc AND 0xFFFF) + 1 else acc) }
      else Some acc)"
  by pat_completeness auto
termination by (relation "measure (\<lambda>(d, len, i, acc). len - i)") auto

declare sum_words.simps [simp del]

definition calculate_checksum_ipv4 :: "buf \<Rightarrow> u16 \<Rightarrow> u16 option" where
  "calculate_checksum_ipv4 d len =
     do { acc \<leftarrow> sum_words d (unat len) 0 0; Some (ucast (NOT acc AND 0xFFFF)) }"

section \<open>What they compute\<close>

text \<open>
  The sum of a block as big-endian 16-bit words, an odd last byte padded with zero, and its
  ones' complement residue: zero only for a zero sum, otherwise between 1 and 65535.
\<close>

fun words_sum :: "buf \<Rightarrow> nat" where
  "words_sum [] = 0"
| "words_sum [x] = 256 * unat x"
| "words_sum (x # y # r) = 256 * unat x + unat y + words_sum r"

definition oc_residue :: "nat \<Rightarrow> nat" where
  "oc_residue n = (if n = 0 then 0 else Suc ((n - 1) mod 65535))"

lemma oc_residue_le: "oc_residue n \<le> 65535"
  by (simp add: oc_residue_def Suc_le_eq)

lemma oc_residue_zero_iff [simp]: "oc_residue n = 0 \<longleftrightarrow> n = 0"
  by (simp add: oc_residue_def)

lemma oc_residue_small: "n \<le> 65535 \<Longrightarrow> oc_residue n = n"
  by (auto simp: oc_residue_def)

lemma oc_residue_add_65535: "0 < n \<Longrightarrow> oc_residue (n + 65535 * k) = oc_residue n"
proof -
  assume n: "0 < n"
  then have "n + 65535 * k - 1 = (n - 1) + 65535 * k" by simp
  then have "(n + 65535 * k - 1) mod 65535 = (n - 1) mod 65535" by (simp only: mod_mult_self2)
  with n show ?thesis by (simp add: oc_residue_def)
qed

lemma oc_residue_split: "n = q * 65536 + r \<Longrightarrow> oc_residue (r + q) = oc_residue n"
proof (cases "n = 0")
  case False
  assume n: "n = q * 65536 + r"
  have "n = (r + q) + 65535 * q" using n by simp
  moreover have "0 < r + q" using False n by (cases q) auto
  ultimately show ?thesis by (metis oc_residue_add_65535)
qed simp

lemma oc_residue_decompose: "\<exists>k. n = oc_residue n + 65535 * k"
proof (cases n)
  case 0
  then show ?thesis by simp
next
  case (Suc m)
  have "m = m mod 65535 + 65535 * (m div 65535)" by simp
  then have "n = oc_residue n + 65535 * (m div 65535)" by (simp add: oc_residue_def Suc)
  then show ?thesis ..
qed

lemma oc_residue_complete:
  "oc_residue (n + (65535 - oc_residue n)) = 65535"
proof (cases n)
  case 0
  then show ?thesis by (simp add: oc_residue_def)
next
  case (Suc k)
  define q r where "q = k div 65535" and "r = k mod 65535"
  have r: "r < 65535" "oc_residue n = Suc r" by (simp_all add: r_def oc_residue_def Suc)
  have "n = 65535 * q + r + 1" unfolding Suc q_def r_def by simp
  then have "n + (65535 - oc_residue n) = 65535 + 65535 * q" using r by linarith
  then show ?thesis by (simp only: oc_residue_add_65535) (simp only: oc_residue_small order_refl)
qed

lemma words_sum_append: "even (length p) \<Longrightarrow> words_sum (p @ q) = words_sum p + words_sum q"
  by (induction p rule: words_sum.induct) auto

lemma words_sum_le: "words_sum d \<le> 65535 * length d"
proof (induction d rule: words_sum.induct)
  case (2 x)
  then show ?case using unat_u8_less [of x] by (simp del: unat_u8_less)
next
  case (3 x y r)
  then show ?case using unat_u8_less [of x] unat_u8_less [of y] by (simp del: unat_u8_less)
qed simp

lemma words_sum_bound: "2 * words_sum d \<le> 65535 * (length d + 1)"
proof (induction d rule: words_sum.induct)
  case (2 x)
  then show ?case using unat_u8_less [of x] by (simp del: unat_u8_less)
next
  case (3 x y r)
  then show ?case using unat_u8_less [of x] unat_u8_less [of y] by (simp del: unat_u8_less)
qed simp

lemma fold_carries_eq: "unat (fold_carries s) = oc_residue (unat s)"
proof (induction s rule: fold_carries.induct)
  case (1 s)
  show ?case
  proof (cases "65536 \<le> unat s")
    case True
    then have nz: "drop_bit 16 s \<noteq> 0" by (simp only: drop_16_nonzero)
    have "unat (fold_carries s) = oc_residue (unat s mod 65536 + unat s div 65536)"
      using 1 [OF nz] nz by (subst fold_carries.simps) (simp only: fold_step if_True simp_thms)
    also have "\<dots> = oc_residue (unat s)" by (rule oc_residue_split) simp
    finally show ?thesis .
  next
    case False
    then have "\<not> drop_bit 16 s \<noteq> 0" by (simp only: drop_16_nonzero simp_thms)
    then show ?thesis using False
      by (subst fold_carries.simps) (simp only: if_False, simp add: oc_residue_small)
  qed
qed

section \<open>The loops compute the residue\<close>

lemma unat_pair: "unat (push_bit 8 (ucast x) OR ucast y :: u32) = 256 * unat x + unat y" for x y :: u8
proof -
  have "(push_bit 8 (ucast x) OR ucast y :: u32) = ucast (be16 x y)"
    unfolding be16_def by (rule bit_word_eqI) (auto simp: bit_simps dest: bit_imp_le_length)
  then show ?thesis by (simp add: unat_be16)
qed

lemma drop_two: "i + 1 < length xs \<Longrightarrow> drop i xs = xs ! i # xs ! (i + 1) # drop (i + 2) xs"
  using Cons_nth_drop_Suc [of i xs] Cons_nth_drop_Suc [of "i + 1" xs] by simp

lemma sum_pairs_eq:
  assumes "len \<le> length d" "even i" "i \<le> len"
    and "unat acc + words_sum (drop i (take len d)) < 4294967296"
  shows "\<exists>s. sum_pairs d len i acc = Some s \<and>
           unat s = unat acc + words_sum (drop i (take (2 * (len div 2)) d))"
  using assms
proof (induction d len i acc rule: sum_pairs.induct)
  case (1 d len i acc)
  show ?case
  proof (cases "i + 1 < len")
    case True
    let ?a = "acc + (push_bit 8 (ucast (d ! i)) OR ucast (d ! (i + 1)))"
    have split: "drop i (take n d) = d ! i # d ! (i + 1) # drop (i + 2) (take n d)"
      if "i + 1 < n" "n \<le> length d" for n
      using drop_two [of i "take n d"] that by simp
    have len: "i + 1 < 2 * (len div 2)" using True "1.prems"(2) by presburger
    have ua: "unat ?a = unat acc + (256 * unat (d ! i) + unat (d ! (i + 1)))"
    proof -
      have "unat acc + (256 * unat (d ! i) + unat (d ! (i + 1))) < 4294967296"
        using "1.prems"(1,4) True split [of len] by simp
      then show ?thesis by (simp only: unat_word_ariths unat_pair) simp
    qed
    have rd: "rd d i = Some (d ! i)" "rd d (i + 1) = Some (d ! (i + 1))"
      using "1.prems"(1) True by (simp_all add: rd_in)
    have "\<exists>s. sum_pairs d len (i + 2) ?a = Some s \<and>
            unat s = unat ?a + words_sum (drop (i + 2) (take (2 * (len div 2)) d))"
      using "1.IH" [OF True rd] "1.prems" True split [of len] ua by simp
    then show ?thesis
      using True rd ua split [of "2 * (len div 2)"] len "1.prems"(1)
        order_trans [OF times_div_less_eq_dividend "1.prems"(1)]
      by (subst sum_pairs.simps) (simp add: add.assoc)
  next
    case False
    then have "2 * (len div 2) = i \<or> 2 * (len div 2) < i" using "1.prems"(2,3) by presburger
    then show ?thesis using False by (subst sum_pairs.simps) auto
  qed
qed

lemma add_last_eq:
  assumes "len \<le> length d"
    and "unat acc + words_sum (drop (2 * (len div 2)) (take len d)) < 4294967296"
  shows "\<exists>s. add_last d len acc = Some s \<and>
           unat s = unat acc + words_sum (drop (2 * (len div 2)) (take len d))"
proof (cases "odd len")
  case True
  then have k: "2 * (len div 2) = len - 1" "0 < len" by presburger+
  then have d: "drop (2 * (len div 2)) (take len d) = [d ! (len - 1)]"
    using assms(1) by (simp add: drop_take take_Suc_conv_app_nth hd_drop_conv_nth take_Suc Suc_diff_le)
  have "unat (push_bit 8 (ucast (d ! (len - 1)) :: u32)) = 256 * unat (d ! (len - 1))"
    using unat_pair [of "d ! (len - 1)" 0] by simp
  then show ?thesis
    using True k assms d by (simp add: add_last_def mem_simps unat_word_ariths)
next
  case False
  then have "2 * (len div 2) = len" by presburger
  with False show ?thesis by (simp add: add_last_def)
qed

lemma complement_residue:
  fixes s :: u32
  assumes "unat s \<le> 65535"
  shows "unat (ucast (NOT s) :: u16) = 65535 - unat s"
proof -
  have "ucast (NOT s) = NOT (ucast s :: u16)"
    by (rule bit_word_eqI) (auto simp: bit_simps)
  moreover have "unat (ucast s :: u16) = unat s"
    using assms by (simp add: unsigned_ucast_eq take_bit_nat_eq_self)
  moreover have "NOT (ucast s :: u16) = 65535 - ucast s"
    by (simp add: not_eq_complement)
  moreover have "unat (65535 - ucast s :: u16) = 65535 - unat (ucast s :: u16)"
    using assms calculation(2) by (subst unat_sub) (simp_all add: word_le_nat_alt)
  ultimately show ?thesis by simp
qed

text \<open>
  Both routines return the ones' complement of the residue. The 16-bit length bounds the 32-bit
  sum: at most 32768 words of at most 65535.
\<close>

theorem calculate_checksum_eq:
  assumes "unat len \<le> length d"
  shows "\<exists>c. calculate_checksum d len = Some c \<and>
           unat c = 65535 - oc_residue (words_sum (take (unat len) d))"
proof -
  let ?n = "unat len" and ?e = "2 * (unat len div 2)"
  have sum: "words_sum (take ?n d) = words_sum (take ?e d) + words_sum (drop ?e (take ?n d))"
  proof -
    have e: "?e \<le> ?n" by simp
    then have "take ?e (take ?n d) = take ?e d" by (simp add: min_absorb1)
    then have d: "take ?n d = take ?e d @ drop ?e (take ?n d)"
      using append_take_drop_id [of ?e "take ?n d"] by simp
    have "even (length (take ?e d))" using assms e by (simp add: min_absorb2)
    then show ?thesis by (subst d) (rule words_sum_append)
  qed
  have b: "words_sum (take ?n d) < 4294967296"
    using words_sum_bound [of "take ?n d"] assms unat_u16_less [of len]
    by (simp del: unat_u16_less)
  obtain s where s: "sum_pairs d ?n 0 0 = Some s" "unat s = words_sum (take ?e d)"
    using sum_pairs_eq [of ?n d 0 0] assms b by auto
  obtain t where t: "add_last d ?n s = Some t" "unat t = words_sum (take ?n d)"
    using add_last_eq [of ?n d s] assms b s sum by auto
  have "unat (fold_carries t) \<le> 65535" by (simp add: fold_carries_eq oc_residue_le)
  then show ?thesis
    using s t complement_residue [of "fold_carries t"]
    by (simp add: calculate_checksum_def fold_carries_eq)
qed

lemma calculate_checksum_prefix:
  assumes "unat n = length m"
  shows "calculate_checksum (m @ r) n = calculate_checksum m n"
proof -
  obtain c c' where "calculate_checksum (m @ r) n = Some c" "calculate_checksum m n = Some c'"
      "unat c = unat c'"
    using calculate_checksum_eq [of n "m @ r"] calculate_checksum_eq [of n m] assms by auto
  moreover from this(3) have "c = c'" by (intro unsigned_word_eqI [where 'a = nat])
  ultimately show ?thesis by simp
qed

lemma calculate_checksum_Some:
  "unat n = length m \<Longrightarrow> calculate_checksum m n = Some (the (calculate_checksum m n))"
  using calculate_checksum_eq [of n m] by auto

text \<open>The word loop keeps its accumulator reduced, so one carry per word is enough.\<close>

lemma carry_bit: "s AND 0x10000 \<noteq> 0 \<longleftrightarrow> bit s 16" for s :: u32
proof -
  have "s AND 0x10000 = push_bit 16 (of_bool (bit s 16))"
  proof (rule bit_word_eqI)
    fix n
    assume "n < LENGTH(32)"
    have "(0x10000 :: u32) = push_bit 16 1" by (simp add: push_bit_eq_mult)
    then show "bit (s AND 0x10000) n = bit (push_bit 16 (of_bool (bit s 16) :: u32)) n"
      by (simp only: bit_simps) (auto simp: bit_simps)
  qed
  then show ?thesis by (simp add: push_bit_eq_mult)
qed

lemma bit_16_iff: "unat s < 131072 \<Longrightarrow> bit s 16 \<longleftrightarrow> 65536 \<le> unat s" for s :: u32
proof -
  assume s: "unat s < 131072"
  have "bit s 16 \<longleftrightarrow> odd (unat s div 65536)"
    using bit_unsigned_iff [of s 16, where ?'a = nat] by (simp add: bit_iff_odd)
  moreover have "unat s div 65536 = 0 \<or> unat s div 65536 = 1"
    using s less_mult_imp_div_less [of "unat s" 2 65536] by auto
  ultimately show ?thesis by (auto simp: div_eq_0_iff)
qed

lemma carry_step:
  fixes acc :: u32 and w :: u16
  assumes "unat acc = oc_residue n"
  defines "s \<equiv> acc + ucast w"
  shows "unat (if s AND 0x10000 \<noteq> 0 then (s AND 0xFFFF) + 1 else s) = oc_residue (n + unat w)"
proof -
  have le: "oc_residue n \<le> 65535" "unat w < 65536" by (simp_all add: oc_residue_le)
  have "oc_residue n + unat w < 4294967296" using le by linarith
  then have us: "unat s = oc_residue n + unat w"
    using assms(1) unfolding s_def by (subst unat_word_ariths) simp
  obtain k where k: "n = oc_residue n + 65535 * k"
    using oc_residue_decompose [of n] by blast
  have n: "oc_residue (n + unat w) = oc_residue (unat s)"
  proof (cases "n = 0")
    case False
    then have "oc_residue n \<noteq> 0" by simp
    then have "0 < unat s" using us by linarith
    moreover have "n + unat w = unat s + 65535 * k" using k us by linarith
    ultimately show ?thesis by (simp only: oc_residue_add_65535)
  next
    case True
    then show ?thesis by (simp add: us oc_residue_def [of 0])
  qed
  show ?thesis
  proof (cases "65536 \<le> unat s")
    case True
    have le2: "unat s \<le> 131070" using us le by linarith
    then have lt: "unat s < 131072" by simp
    have "unat s mod 65536 = unat s - 65536" using True lt by (simp add: mod_if)
    then have "unat ((s AND 0xFFFF) + 1) = unat s - 65535"
      using True lt by (simp add: unat_word_ariths low_half)
    moreover have "oc_residue (unat s) = unat s - 65535"
    proof -
      have "unat s = (unat s - 65535) + 65535 * 1" "0 < unat s - 65535" using True by simp_all
      then have "oc_residue (unat s) = oc_residue (unat s - 65535)" by (metis oc_residue_add_65535)
      then show ?thesis using le2 by (simp add: oc_residue_small)
    qed
    ultimately show ?thesis using True lt n by (simp add: carry_bit bit_16_iff)
  next
    case False
    then show ?thesis using n by (simp add: carry_bit bit_16_iff oc_residue_small)
  qed
qed

lemma sum_words_eq:
  assumes "2 * len \<le> length d" "i \<le> len" "unat acc = oc_residue (words_sum (take (2 * i) d))"
  shows "\<exists>s. sum_words d len i acc = Some s \<and> unat s = oc_residue (words_sum (take (2 * len) d))"
  using assms
proof (induction d len i acc rule: sum_words.induct)
  case (1 d len i acc)
  show ?case
  proof (cases "i < len")
    case True
    let ?x = "d ! (2 * i)" and ?y = "d ! (2 * i + 1)"
    let ?w = "ucast ((push_bit 8 (ucast ?x) :: u32) + ucast ?y) :: u16"
    let ?s = "acc + ucast ?w"
    let ?acc = "if ?s AND 0x10000 \<noteq> 0 then (?s AND 0xFFFF) + 1 else ?s"
    have rd: "rd d (2 * i) = Some ?x" "rd d (2 * i + 1) = Some ?y"
      using "1.prems"(1) True by (simp_all add: rd_in)
    have "push_bit 8 (ucast ?x :: u32) AND ucast ?y = 0"
      by (rule bit_word_eqI) (auto simp: bit_simps dest: bit_imp_le_length)
    then have "(push_bit 8 (ucast ?x) :: u32) + ucast ?y = push_bit 8 (ucast ?x) OR ucast ?y"
      by (rule disjunctive_add_eq_or)
    moreover have "(ucast (push_bit 8 (ucast ?x) OR ucast ?y :: u32) :: u16) = be16 ?x ?y"
      unfolding be16_def by (rule bit_word_eqI) (auto simp: bit_simps dest: bit_imp_le_length)
    ultimately have w: "unat ?w = 256 * unat ?x + unat ?y" by (simp only: unat_be16)
    have "take (2 * (i + 1)) d = take (2 * i) d @ [?x, ?y]"
      using "1.prems"(1) True by (simp add: take_Suc_conv_app_nth)
    then have "words_sum (take (2 * (i + 1)) d) = words_sum (take (2 * i) d) + unat ?w"
      using "1.prems"(1) True w by (simp add: words_sum_append)
    with carry_step [OF "1.prems"(3), of ?w]
    have acc: "unat ?acc = oc_residue (words_sum (take (2 * (i + 1)) d))" by (simp only:)
    have step: "sum_words d len i acc = sum_words d len (i + 1) ?acc"
      using True rd by (subst sum_words.simps) (simp only: if_True bind.bind_lunit Let_def)
    from True have "i + 1 \<le> len" by simp
    from "1.IH" [OF True rd refl refl "1.prems"(1) this acc] step show ?thesis by (simp only:)
  next
    case False
    then have "i = len" using "1.prems"(2) by simp
    then show ?thesis using "1.prems"(3) by (subst sum_words.simps) simp
  qed
qed

theorem calculate_checksum_ipv4_eq:
  assumes "2 * unat len \<le> length d"
  shows "\<exists>c. calculate_checksum_ipv4 d len = Some c \<and>
           unat c = 65535 - oc_residue (words_sum (take (2 * unat len) d))"
proof -
  obtain s where s: "sum_words d (unat len) 0 0 = Some s"
      "unat s = oc_residue (words_sum (take (2 * unat len) d))"
    using sum_words_eq [of "unat len" d 0 0] assms by auto
  have "ucast (NOT s AND 0xFFFF) = (ucast (NOT s) :: u16)"
  proof -
    have "NOT s AND 0xFFFF = take_bit 16 (NOT s)" by (simp add: take_bit_eq_mask mask_eq_exp_minus_1)
    then show ?thesis by (simp only:) (rule bit_word_eqI, auto simp: bit_simps)
  qed
  moreover have "unat s \<le> 65535" by (simp add: s oc_residue_le)
  ultimately show ?thesis
    using s complement_residue [of s] by (simp add: calculate_checksum_ipv4_def)
qed

lemma calculate_checksum_ipv4_prefix:
  assumes "2 * unat n = length m"
  shows "calculate_checksum_ipv4 (m @ r) n = calculate_checksum_ipv4 m n"
proof -
  obtain c c' where "calculate_checksum_ipv4 (m @ r) n = Some c" "calculate_checksum_ipv4 m n = Some c'"
      "unat c = unat c'"
    using calculate_checksum_ipv4_eq [of n "m @ r"] calculate_checksum_ipv4_eq [of n m] assms by auto
  moreover from this(3) have "c = c'" by (intro unsigned_word_eqI [where 'a = nat])
  ultimately show ?thesis by simp
qed

lemma calculate_checksum_ipv4_Some:
  "2 * unat n = length m \<Longrightarrow> calculate_checksum_ipv4 m n = Some (the (calculate_checksum_ipv4 m n))"
  using calculate_checksum_ipv4_eq [of n m] by auto

section \<open>The contract of an internet checksum\<close>

text \<open>
  A routine that returns the complement of the residue on every block it is defined for lets a
  receiver check a packet: with the checksum stored in an aligned pair of bytes that were zero
  when it was computed, the checksum of the whole block is zero.
\<close>

locale internet_checksum =
  fixes cksum :: "buf \<Rightarrow> u16"
    and ok :: "buf \<Rightarrow> bool"
  assumes cksum: "ok b \<Longrightarrow> unat (cksum b) = 65535 - oc_residue (words_sum b)"
begin

lemma verifies:
  assumes "ok (p @ [0, 0] @ s)" "ok (p @ [hi8 c, lo8 c] @ s)" "even (length p)"
    and c: "c = cksum (p @ [0, 0] @ s)"
  shows "cksum (p @ [hi8 c, lo8 c] @ s) = 0"
proof -
  let ?n = "words_sum p + words_sum s"
  have "words_sum (p @ [0, 0] @ s) = ?n" using assms(3) by (simp add: words_sum_append)
  then have uc: "unat c = 65535 - oc_residue ?n" using cksum [OF assms(1)] c by simp
  have "unat c = 256 * unat (hi8 c) + unat (lo8 c)" by (metis be16_hi8_lo8 unat_be16)
  then have "words_sum (p @ [hi8 c, lo8 c] @ s) = ?n + (65535 - oc_residue ?n)"
    using assms(3) uc by (simp add: words_sum_append)
  then have "unat (cksum (p @ [hi8 c, lo8 c] @ s)) = 0"
    using cksum [OF assms(2)] by (simp only: oc_residue_complete)
  then show ?thesis by (simp only: unat_eq_0)
qed

lemma agrees_with:
  assumes "ok b" "unat c = 65535 - oc_residue (words_sum b)"
  shows "c = cksum b"
  using assms cksum [of b] by (intro unsigned_word_eqI [where 'a = nat]) simp

end

text \<open>The two routines of \<open>ipv4.c\<close>, on a block whose length the caller passes.\<close>

interpretation bytesum: internet_checksum
  "\<lambda>b. the (calculate_checksum b (of_nat (length b)))" "\<lambda>b. length b < 65536"
proof unfold_locales
  fix b :: buf
  assume "length b < 65536"
  then have "unat (of_nat (length b) :: u16) = length b" by (simp add: unat_of_nat take_bit_nat_eq_self)
  with calculate_checksum_eq [of "of_nat (length b)" b]
  show "unat (the (calculate_checksum b (of_nat (length b)))) = 65535 - oc_residue (words_sum b)"
    by auto
qed

interpretation wordsum: internet_checksum
  "\<lambda>b. the (calculate_checksum_ipv4 b (of_nat (length b div 2)))"
  "\<lambda>b. length b < 131072 \<and> even (length b)"
proof unfold_locales
  fix b :: buf
  assume b: "length b < 131072 \<and> even (length b)"
  then have "length b div 2 < 65536" by (intro less_mult_imp_div_less) simp
  then have n: "unat (of_nat (length b div 2) :: u16) = length b div 2"
    by (simp add: unat_of_nat take_bit_nat_eq_self)
  from b have "2 * (length b div 2) = length b" by auto
  with n calculate_checksum_ipv4_eq [of "of_nat (length b div 2)" b]
  show "unat (the (calculate_checksum_ipv4 b (of_nat (length b div 2)))) =
          65535 - oc_residue (words_sum b)"
    by auto
qed

section \<open>Property\<close>

text \<open>
  C5. The two checksum routines agree: on an even number of bytes inside the block, summing
  16-bit words with an end-around carry after each addition gives exactly what summing byte pairs
  and folding the carries at the end gives, the complement of the ones' complement sum.
\<close>

theorem checksum_routines_agree:
  assumes "even (unat len)" "unat len \<le> length d"
  shows "calculate_checksum_ipv4 d (of_nat (unat len div 2)) = calculate_checksum d len \<and>
         (\<exists>c. calculate_checksum d len = Some c \<and>
           unat c = 65535 - oc_residue (words_sum (take (unat len) d)))"
proof -
  have "unat len div 2 < 65536" using unat_u16_less [of len] by linarith
  then have n: "unat (of_nat (unat len div 2) :: u16) = unat len div 2" by (rule unat_of_nat_u16)
  have e: "2 * (unat len div 2) = unat len" using assms(1) by simp
  obtain c c' where "calculate_checksum_ipv4 d (of_nat (unat len div 2)) = Some c"
      "calculate_checksum d len = Some c'" "unat c = unat c'"
    using calculate_checksum_ipv4_eq [of "of_nat (unat len div 2)" d] calculate_checksum_eq [of len d]
      assms n e by auto
  moreover from this(3) have "c = c'" by (intro unsigned_word_eqI [where 'a = nat])
  ultimately show ?thesis using calculate_checksum_eq [OF assms(2)] by simp
qed

theorem checksum_routines_agree_witness:
  "calculate_checksum_ipv4 [0x45, 0, 0, 0x73] 2 = calculate_checksum [0x45, 0, 0, 0x73] 4"
  using checksum_routines_agree [of 4 "[0x45, 0, 0, 0x73]"] by simp

end
