(* ===== verification/Functions.thy ===== *)
theory Functions
  imports Prelude
begin

text \<open>
  \<open>libraries/functions/functions.c\<close>: the byte-order converter behind \<open>uint_to_bytes\<close> and
  \<open>bytes_to_uint\<close>. The \<open>value\<close> argument is the memory of a C integer, least significant byte
  first on this target, the \<open>bytes\<close> argument an array of at least \<open>bytes_size\<close> bytes.
\<close>

section \<open>The converter\<close>

datatype convert_type = UINT2BYTES | BYTES2UINT

text \<open>One pass of the \<open>for\<close> body; the pair is the memory of \<open>value\<close> and of \<open>bytes\<close>.\<close>

fun converter_body :: "nat \<Rightarrow> convert_type \<Rightarrow> nat \<Rightarrow> buf \<times> buf \<Rightarrow> (buf \<times> buf) option" where
  "converter_body n UINT2BYTES i (val, bytes) =
     do { x \<leftarrow> rd val (n - 1 - i); b \<leftarrow> wr_bytes bytes i [x]; Some (val, b) }"
| "converter_body n BYTES2UINT i (val, bytes) =
     do { x \<leftarrow> rd bytes i; v \<leftarrow> wr_bytes val (n - 1 - i) [x]; Some (v, bytes) }"

function converter_from :: "nat \<Rightarrow> nat \<Rightarrow> convert_type \<Rightarrow> buf \<times> buf \<Rightarrow> (buf \<times> buf) option" where
  "converter_from i n ct mem =
     (if i < n then do { mem' \<leftarrow> converter_body n ct i mem; converter_from (i + 1) n ct mem' }
      else Some mem)"
  by pat_completeness auto
termination by (relation "measure (\<lambda>(i, n, _). n - i)") auto

declare converter_from.simps [simp del]

definition converter :: "buf \<Rightarrow> buf \<Rightarrow> u8 \<Rightarrow> convert_type \<Rightarrow> (buf \<times> buf) option" where
  "converter val bytes bytes_size ct = converter_from 0 (unat bytes_size) ct (val, bytes)"

definition uint_to_bytes :: "buf \<Rightarrow> buf \<Rightarrow> u8 \<Rightarrow> buf option" where
  "uint_to_bytes val bytes bytes_size =
     map_option snd (converter val bytes bytes_size UINT2BYTES)"

definition bytes_to_uint :: "buf \<Rightarrow> buf \<Rightarrow> u8 \<Rightarrow> buf option" where
  "bytes_to_uint val bytes bytes_size =
     map_option fst (converter val bytes bytes_size BYTES2UINT)"

text \<open>The memory of a \<open>uint16_t\<close> and of a \<open>uint32_t\<close> variable.\<close>

definition mem16 :: "u16 \<Rightarrow> buf" where
  "mem16 w = [lo8 w, hi8 w]"

definition mem32 :: "u32 \<Rightarrow> buf" where
  "mem32 w = [byte32 0 w, byte32 1 w, byte32 2 w, byte32 3 w]"

definition val16 :: "buf \<Rightarrow> u16" where
  "val16 m = be16 (m ! 1) (m ! 0)"

definition val32 :: "buf \<Rightarrow> u32" where
  "val32 m = be32 (m ! 3) (m ! 2) (m ! 1) (m ! 0)"

lemma val16_mem16 [simp]: "val16 (mem16 w) = w"
  by (simp add: val16_def mem16_def)

lemma val32_mem32 [simp]: "val32 (mem32 w) = w"
  unfolding val32_def mem32_def by (simp del: One_nat_def)

lemma length_mem [simp]: "length (mem16 w) = 2" "length (mem32 v) = 4"
  by (simp_all add: mem16_def mem32_def)

section \<open>What the loops leave in memory\<close>

lemma converter_from_UINT2BYTES:
  assumes "length val = n" "n \<le> length bytes" "i \<le> n"
  shows "converter_from i n UINT2BYTES (val, bytes) =
           Some (val, take i bytes @ drop i (rev val) @ drop n bytes)"
  using assms
proof (induction "n - i" arbitrary: i bytes)
  case 0
  then have "i = n" by simp
  with 0 show ?case by (subst converter_from.simps) simp
next
  case (Suc k)
  then have i: "i < n" "k = n - (i + 1)" by simp_all
  define x where "x = val ! (n - 1 - i)"
  have x: "x = rev val ! i" using i Suc.prems by (simp add: x_def rev_nth)
  define b where "b = take i bytes @ x # drop (i + 1) bytes"
  have step: "converter_body n UINT2BYTES i (val, bytes) = Some (val, b)"
    using i Suc.prems by (simp add: mem_simps x_def b_def)
  have b: "length b = length bytes" "take (i + 1) b = take i bytes @ [x]" "drop n b = drop n bytes"
    using i Suc.prems by (auto simp: b_def min_def take_Cons' drop_Cons')
  have "converter_from (i + 1) n UINT2BYTES (val, b) =
          Some (val, take (i + 1) b @ drop (i + 1) (rev val) @ drop n b)"
    using Suc.hyps(1) [of "i + 1" b] i Suc.prems b by simp
  moreover have "drop i (rev val) = x # drop (i + 1) (rev val)"
    using i Suc.prems x by (simp add: Cons_nth_drop_Suc)
  ultimately show ?case
    using i step b by (subst converter_from.simps) simp
qed

lemma converter_from_BYTES2UINT:
  assumes "length val = n" "n \<le> length bytes" "i \<le> n"
  shows "converter_from i n BYTES2UINT (val, bytes) =
           Some (rev (drop i (take n bytes)) @ drop (n - i) val, bytes)"
  using assms
proof (induction "n - i" arbitrary: i val)
  case 0
  then have "i = n" by simp
  with 0 show ?case by (subst converter_from.simps) simp
next
  case (Suc k)
  then have i: "i < n" "k = n - (i + 1)" by simp_all
  have d: "Suc (n - Suc i) = n - i" using i by simp
  define v where "v = take (n - 1 - i) val @ bytes ! i # drop (n - i) val"
  have step: "converter_body n BYTES2UINT i (val, bytes) = Some (v, bytes)"
    using i Suc.prems d by (simp add: mem_simps v_def)
  have v: "length v = n" "drop (n - (i + 1)) v = bytes ! i # drop (n - i) val"
    using i Suc.prems d by (auto simp: v_def)
  have "converter_from (i + 1) n BYTES2UINT (v, bytes) =
          Some (rev (drop (i + 1) (take n bytes)) @ drop (n - (i + 1)) v, bytes)"
    using Suc.hyps(1) [of "i + 1" v] i Suc.prems v by simp
  moreover have "drop i (take n bytes) = bytes ! i # drop (i + 1) (take n bytes)"
    using i Suc.prems by (subst Cons_nth_drop_Suc [symmetric]) simp_all
  ultimately show ?case
    using i step v by (subst converter_from.simps) simp
qed

lemma uint_to_bytes_eq:
  "length val = unat n \<Longrightarrow> unat n \<le> length bytes \<Longrightarrow>
     uint_to_bytes val bytes n = Some (rev val @ drop (unat n) bytes)"
  by (simp add: uint_to_bytes_def converter_def converter_from_UINT2BYTES)

lemma bytes_to_uint_eq:
  "length val = unat n \<Longrightarrow> unat n \<le> length bytes \<Longrightarrow>
     bytes_to_uint val bytes n = Some (rev (take (unat n) bytes))"
  by (simp add: bytes_to_uint_def converter_def converter_from_BYTES2UINT)

lemma uint16_to_bytes [layout_simps]:
  "length f = 2 \<Longrightarrow> uint_to_bytes (mem16 w) f 2 = Some [hi8 w, lo8 w]"
  by (subst uint_to_bytes_eq) (simp_all add: mem16_def)

lemma uint32_to_bytes [layout_simps]:
  "length f = 4 \<Longrightarrow>
     uint_to_bytes (mem32 w) f 4 = Some [byte32 3 w, byte32 2 w, byte32 1 w, byte32 0 w]"
  by (subst uint_to_bytes_eq) (simp_all add: mem32_def)

lemma bytes_to_uint16 [layout_simps]:
  "length v = 2 \<Longrightarrow> bytes_to_uint v [h, l] 2 = Some (mem16 (be16 h l))"
  by (subst bytes_to_uint_eq) (simp_all add: mem16_def)

section \<open>Property\<close>

text \<open>
  Network byte order is lossless: \<open>uint_to_bytes\<close> writes the integer's bytes most significant
  first into the first \<open>n\<close> bytes of the destination and touches nothing else, and
  \<open>bytes_to_uint\<close> reads the same integer back.
\<close>

theorem uint_bytes_roundtrip:
  assumes "length val = unat n" "unat n \<le> length bytes" "length val' = unat n"
  shows "\<exists>b. uint_to_bytes val bytes n = Some b \<and> length b = length bytes \<and>
           take (unat n) b = rev val \<and> drop (unat n) b = drop (unat n) bytes \<and>
           bytes_to_uint val' b n = Some val"
  using assms by (simp add: uint_to_bytes_eq bytes_to_uint_eq)

theorem uint_bytes_roundtrip_witness:
  "\<exists>b. uint_to_bytes [1, 2, 3, 4] [9, 9, 9, 9, 7] 4 = Some b \<and>
        take 4 b = [4, 3, 2, 1] \<and> drop 4 b = [7] \<and> bytes_to_uint [0, 0, 0, 0] b 4 = Some [1, 2, 3, 4]"
  using uint_bytes_roundtrip [of "[1, 2, 3, 4]" 4 "[9, 9, 9, 9, 7]" "[0, 0, 0, 0]"] by auto

end
