(* ===== verification/Ipv4.thy ===== *)
theory Ipv4
  imports Ethernet Checksum Functions
begin

text \<open>
  \<open>libraries/protocol_tools/ipv4.c\<close>: the IPv4 header the tool builds for every packet it sends,
  with its checksum, and the header it copies out of a received frame.
\<close>

record ipv4_header =
  ip_version_ihl :: u8
  ip_type_of_service :: u8
  ip_total_length :: buf
  ip_identification :: buf
  ip_flags_offset :: buf
  ip_ttl :: u8
  ip_protocol :: u8
  ip_checksum :: buf
  ip_source_ip :: buf
  ip_dest_ip :: buf

definition IP_HEADER_LEN :: nat where [simp]: "IP_HEADER_LEN = 20"

definition ip_zero :: ipv4_header where
  "ip_zero =
     \<lparr> ip_version_ihl = 0, ip_type_of_service = 0, ip_total_length = [0, 0],
       ip_identification = [0, 0], ip_flags_offset = [0, 0], ip_ttl = 0, ip_protocol = 0,
       ip_checksum = [0, 0], ip_source_ip = replicate 4 0, ip_dest_ip = replicate 4 0 \<rparr>"

definition ip_to_bytes :: "ipv4_header \<Rightarrow> buf" where
  "ip_to_bytes h =
     [ip_version_ihl h, ip_type_of_service h] @ ip_total_length h @ ip_identification h @
     ip_flags_offset h @ [ip_ttl h, ip_protocol h] @ ip_checksum h @ ip_source_ip h @ ip_dest_ip h"

definition ip_of_bytes :: "buf \<Rightarrow> ipv4_header" where
  "ip_of_bytes b =
     \<lparr> ip_version_ihl = b ! 0, ip_type_of_service = b ! 1, ip_total_length = take 2 (drop 2 b),
       ip_identification = take 2 (drop 4 b), ip_flags_offset = take 2 (drop 6 b), ip_ttl = b ! 8,
       ip_protocol = b ! 9, ip_checksum = take 2 (drop 10 b), ip_source_ip = take 4 (drop 12 b),
       ip_dest_ip = take 4 (drop 16 b) \<rparr>"

definition wf_ip :: "ipv4_header \<Rightarrow> bool" where
  "wf_ip h \<longleftrightarrow> length (ip_total_length h) = 2 \<and> length (ip_identification h) = 2 \<and>
     length (ip_flags_offset h) = 2 \<and> length (ip_checksum h) = 2 \<and>
     length (ip_source_ip h) = 4 \<and> length (ip_dest_ip h) = 4"

interpretation ip: packed_struct 20 ip_of_bytes ip_to_bytes wf_ip
proof unfold_locales
  fix b :: buf
  assume b: "length b = 20"
  have "b ! 0 # b ! Suc 0 # drop 2 b = b"
    using b Cons_nth_drop_Suc [of 0 b] Cons_nth_drop_Suc [of 1 b] by (simp add: numeral_2_eq_2)
  then show "ip_to_bytes (ip_of_bytes b) = b"
    using b by (simp add: ip_to_bytes_def ip_of_bytes_def chunks)
qed (auto simp: ip_to_bytes_def ip_of_bytes_def wf_ip_def nth_append)

definition set_ipv4_header ::
  "buf ptr \<Rightarrow> u8 \<Rightarrow> u16 \<Rightarrow> buf ptr \<Rightarrow> buf ptr \<Rightarrow> u16 \<Rightarrow> u16 \<Rightarrow> u8 \<Rightarrow> (bool \<times> buf ptr) option" where
  "set_ipv4_header buffer protocol data_length src_ip dst_ip ip_id ip_flags_offset_arg ttl =
     (case (buffer, src_ip, dst_ip) of
        (Some b, Some src, Some dst) \<Rightarrow>
          do { let total_length = 20 + data_length;
               let header = ip_zero\<lparr> ip_version_ihl := 0x45, ip_type_of_service := 0,
                              ip_total_length := [ucast (drop_bit 8 total_length), ucast total_length] \<rparr>;
               ident \<leftarrow> uint_to_bytes (mem16 ip_id) (ip_identification header) 2;
               flags \<leftarrow> uint_to_bytes (mem16 ip_flags_offset_arg) (ip_flags_offset header) 2;
               d \<leftarrow> rd_bytes dst 0 4;
               s \<leftarrow> rd_bytes src 0 4;
               let header = header\<lparr> ip_identification := ident, ip_flags_offset := flags,
                              ip_ttl := ttl, ip_protocol := protocol,
                              ip_dest_ip := d, ip_source_ip := s \<rparr>;
               checksum \<leftarrow> calculate_checksum_ipv4 (ip_to_bytes header) 10;
               b' \<leftarrow> overlay IP_HEADER_LEN ip_of_bytes ip_to_bytes
                      (\<lambda>_. header\<lparr> ip_checksum := [hi8 checksum, lo8 checksum] \<rparr>) b;
               Some (True, Some b') }
      | _ \<Rightarrow> Some (False, buffer))"

definition ipv4_get_header :: "buf \<Rightarrow> ipv4_header option" where
  "ipv4_get_header buffer = load_struct IP_HEADER_LEN ip_of_bytes buffer ETHERNET_HEADER_LEN"

definition is_ipv4 :: "buf \<Rightarrow> bool option" where
  "is_ipv4 buffer =
     do { header \<leftarrow> ethernet_get_header buffer; Some (eth_ethertype header = 0x0800) }"

section \<open>The header that is built\<close>

definition ip_fields :: "u8 \<Rightarrow> u16 \<Rightarrow> buf \<Rightarrow> buf \<Rightarrow> u16 \<Rightarrow> u16 \<Rightarrow> u8 \<Rightarrow> buf \<Rightarrow> ipv4_header" where
  "ip_fields protocol data_length src dst ident flags ttl ck =
     \<lparr> ip_version_ihl = 0x45, ip_type_of_service = 0,
       ip_total_length = [hi8 (20 + data_length), lo8 (20 + data_length)],
       ip_identification = [hi8 ident, lo8 ident], ip_flags_offset = [hi8 flags, lo8 flags],
       ip_ttl = ttl, ip_protocol = protocol, ip_checksum = ck,
       ip_source_ip = take 4 src, ip_dest_ip = take 4 dst \<rparr>"

definition ip_header_checksum :: "ipv4_header \<Rightarrow> u16" where
  "ip_header_checksum h = the (calculate_checksum_ipv4 (ip_to_bytes (h\<lparr> ip_checksum := [0, 0] \<rparr>)) 10)"

lemma wf_ip_fields [wf_intros]:
  "4 \<le> length src \<Longrightarrow> 4 \<le> length dst \<Longrightarrow> length ck = 2 \<Longrightarrow>
     wf_ip (ip_fields protocol n src dst ident flags ttl ck)"
  by (simp add: wf_ip_def ip_fields_def)

lemma ip_checksum_defined:
  "wf_ip h \<Longrightarrow> \<exists>c. calculate_checksum_ipv4 (ip_to_bytes h) 10 = Some c"
  using calculate_checksum_ipv4_eq [of 10 "ip_to_bytes h"] ip.length_enc [of h] by auto

lemma set_ipv4_header_eq [layout_simps]:
  fixes protocol :: u8 and n ident flags :: u16 and src dst :: buf and ttl :: u8
  defines "h \<equiv> ip_fields protocol n src dst ident flags ttl"
  assumes "20 \<le> length b" "4 \<le> length src" "4 \<le> length dst"
  shows "set_ipv4_header (Some b) protocol n (Some src) (Some dst) ident flags ttl =
           Some (True, Some (ip_to_bytes (h [hi8 (ip_header_checksum (h [0, 0])),
                                             lo8 (ip_header_checksum (h [0, 0]))]) @ drop 20 b))"
proof -
  obtain c where c: "calculate_checksum_ipv4 (ip_to_bytes (h [0, 0])) 10 = Some c"
    using ip_checksum_defined [of "h [0, 0]"] wf_ip_fields assms by (auto simp: h_def)
  have ck: "ip_header_checksum (h [0, 0]) = c"
    using c by (simp add: ip_header_checksum_def h_def ip_fields_def)
  have len: "20 \<le> length b" using assms by simp
  have wf: "wf_ip (h [hi8 c, lo8 c])" using assms by (simp add: h_def wf_intros)
  have z: "h [0, 0] = ip_zero\<lparr> ip_version_ihl := 0x45, ip_type_of_service := 0,
              ip_total_length := [ucast (drop_bit 8 (20 + n)), ucast (20 + n)],
              ip_identification := [hi8 ident, lo8 ident], ip_flags_offset := [hi8 flags, lo8 flags],
              ip_ttl := ttl, ip_protocol := protocol, ip_dest_ip := take 4 dst,
              ip_source_ip := take 4 src \<rparr>"
    by (simp add: h_def ip_fields_def ip_zero_def hi8_def lo8_def)
  have "overlay 20 ip_of_bytes ip_to_bytes (\<lambda>_. (h [0, 0])\<lparr> ip_checksum := [hi8 c, lo8 c] \<rparr>) b =
          Some (ip_to_bytes (h [hi8 c, lo8 c]) @ drop 20 b)"
    using ip.overlay_eq [OF len, of "\<lambda>_. h [hi8 c, lo8 c]"] wf by (simp add: h_def ip_fields_def)
  note this [unfolded z] c [unfolded z]
  then show ?thesis
    using assms(3,4) unfolding ck
    by (simp add: set_ipv4_header_def Let_def layout_simps mem_simps ip_zero_def)
qed

lemma set_ipv4_header_null:
  "b = None \<or> s = None \<or> d = None \<Longrightarrow> set_ipv4_header b p n s d i f t = Some (False, b)"
  by (auto simp: set_ipv4_header_def split: option.splits)

text \<open>A header with its own checksum in place sums to zero, whichever routine checks it.\<close>

lemma ip_header_verifies:
  assumes "wf_ip h" "ip_checksum h = [hi8 (ip_header_checksum h), lo8 (ip_header_checksum h)]"
  shows "calculate_checksum_ipv4 (ip_to_bytes h) 10 = Some 0"
    and "calculate_checksum (ip_to_bytes h) 20 = Some 0"
proof -
  define p where "p = [ip_version_ihl h, ip_type_of_service h] @ ip_total_length h @
     ip_identification h @ ip_flags_offset h @ [ip_ttl h, ip_protocol h]"
  define s where "s = ip_source_ip h @ ip_dest_ip h"
  let ?c = "ip_header_checksum h"
  have h: "ip_to_bytes h = p @ [hi8 ?c, lo8 ?c] @ s"
    and z: "ip_to_bytes (h\<lparr> ip_checksum := [0, 0] \<rparr>) = p @ [0, 0] @ s"
    using assms(2) by (simp_all add: ip_to_bytes_def p_def s_def)
  have l: "length p = 10" "length s = 8" using assms(1) by (simp_all add: wf_ip_def p_def s_def)
  have "the (calculate_checksum_ipv4 (p @ [hi8 ?c, lo8 ?c] @ s)
             (of_nat (length (p @ [hi8 ?c, lo8 ?c] @ s) div 2))) = 0"
    by (rule wordsum.verifies) (simp_all add: l ip_header_checksum_def z)
  with ip_checksum_defined [OF assms(1)]
  show w: "calculate_checksum_ipv4 (ip_to_bytes h) 10 = Some 0"
    by (auto simp: h l)
  have len: "length (ip_to_bytes h) = 20" by (simp add: h l)
  obtain c where c: "calculate_checksum (ip_to_bytes h) 20 = Some c"
      "unat c = 65535 - oc_residue (words_sum (ip_to_bytes h))"
    using calculate_checksum_eq [of 20 "ip_to_bytes h"] len by auto
  have "65535 - oc_residue (words_sum (ip_to_bytes h)) = 0"
    using w calculate_checksum_ipv4_eq [of 10 "ip_to_bytes h"] len by auto
  with c show "calculate_checksum (ip_to_bytes h) 20 = Some 0" by (simp add: unat_eq_0)
qed

lemma is_ipv4_in [mem_simps]:
  "14 \<le> length b \<Longrightarrow> is_ipv4 b = Some (be16 (b ! 12) (b ! 13) = 0x0800)"
  by (simp add: is_ipv4_def ethernet_get_header_def eth.load_eq eth_ethertype_def eth_of_bytes_def)

lemma ipv4_get_header_in [mem_simps]:
  "34 \<le> length b \<Longrightarrow> ipv4_get_header b = Some (ip_of_bytes (take 20 (drop 14 b)))"
  by (simp add: ipv4_get_header_def ip.load_eq)

section \<open>Property\<close>

text \<open>
  C6. Every IPv4 header the tool builds is valid: for any arguments \<open>set_ipv4_header\<close> succeeds
  without leaving its blocks, changes only the first 20 bytes, puts version, type of service, length,
  identification, flags and offset, time to live, protocol and addresses where \<open>ipv4_get_header\<close> reads them, and the header's checksum verifies under both
  checksum routines.
\<close>

theorem set_ipv4_header_valid:
  assumes "20 \<le> length b" "length src = 4" "length dst = 4"
  shows "\<exists>b'. set_ipv4_header (Some b) protocol n (Some src) (Some dst) ident flags ttl =
                Some (True, Some b') \<and>
              length b' = length b \<and> drop 20 b' = drop 20 b \<and>
              calculate_checksum (take 20 b') 20 = Some 0 \<and>
              calculate_checksum_ipv4 (take 20 b') 10 = Some 0 \<and>
              (\<exists>h. ipv4_get_header (replicate 14 0 @ b') = Some h \<and>
                   ip_version_ihl h = 0x45 \<and> ip_protocol h = protocol \<and> ip_ttl h = ttl \<and>
                   ip_source_ip h = src \<and> ip_dest_ip h = dst \<and>
                   be16 (ip_total_length h ! 0) (ip_total_length h ! 1) = 20 + n \<and>
                   be16 (ip_identification h ! 0) (ip_identification h ! 1) = ident \<and>
                   be16 (ip_flags_offset h ! 0) (ip_flags_offset h ! 1) = flags \<and>
                   ip_type_of_service h = 0)"
proof -
  define c where "c = ip_header_checksum (ip_fields protocol n src dst ident flags ttl [0, 0])"
  define h where "h = ip_fields protocol n src dst ident flags ttl [hi8 c, lo8 c]"
  have wf: "wf_ip h" using assms by (simp add: h_def wf_intros)
  have c: "ip_header_checksum h = c"
    by (simp add: h_def c_def ip_header_checksum_def ip_fields_def)
  then have "ip_checksum h = [hi8 (ip_header_checksum h), lo8 (ip_header_checksum h)]"
    by (simp add: h_def ip_fields_def)
  note v = ip_header_verifies [OF wf this]
  have "ipv4_get_header (replicate 14 0 @ ip_to_bytes h @ drop 20 b) = Some h"
    unfolding ipv4_get_header_def using ip.load_stored [OF wf, of "replicate 14 0" 14] by simp
  then show ?thesis
    using assms v ip.length_enc [OF wf]
    by (simp add: set_ipv4_header_eq h_def [symmetric] c_def [symmetric])
      (simp add: h_def ip_fields_def)
qed

theorem set_ipv4_header_valid_witness:
  "\<exists>b'. set_ipv4_header (Some (replicate 24 0)) 17 100 (Some [192, 168, 0, 2]) (Some [10, 0, 0, 1])
          0 0x4000 64 = Some (True, Some b') \<and> length b' = 24"
  using set_ipv4_header_valid [of "replicate 24 0" "[192, 168, 0, 2]" "[10, 0, 0, 1]",
      where protocol = 17 and n = 100 and ident = 0 and flags = "0x4000" and ttl = 64]
  by auto

end
