(* ===== verification/Icmp.thy ===== *)
theory Icmp
  imports Ipv4
begin

text \<open>
  \<open>libraries/protocol_tools/icmp.c\<close>: the ICMP header, its checksum over header and data, and the
  test for an ICMP frame. \<open>total_length\<close> is a \<open>uint16_t\<close>, so it wraps for more than 65527 bytes of
  data and the copies then leave the temporary buffer.
\<close>

record icmp_header =
  icmp_type :: u8
  icmp_code :: u8
  icmp_checksum :: buf
  icmp_identifier :: buf
  icmp_sequence :: buf

definition ICMP_HEADER_LEN :: nat where [simp]: "ICMP_HEADER_LEN = 8"

definition icmp_zero :: icmp_header where
  "icmp_zero = \<lparr> icmp_type = 0, icmp_code = 0, icmp_checksum = [0, 0], icmp_identifier = [0, 0],
                 icmp_sequence = [0, 0] \<rparr>"

definition icmp_to_bytes :: "icmp_header \<Rightarrow> buf" where
  "icmp_to_bytes h =
     [icmp_type h, icmp_code h] @ icmp_checksum h @ icmp_identifier h @ icmp_sequence h"

definition icmp_of_bytes :: "buf \<Rightarrow> icmp_header" where
  "icmp_of_bytes b =
     \<lparr> icmp_type = b ! 0, icmp_code = b ! 1, icmp_checksum = take 2 (drop 2 b),
       icmp_identifier = take 2 (drop 4 b), icmp_sequence = take 2 (drop 6 b) \<rparr>"

definition wf_icmp :: "icmp_header \<Rightarrow> bool" where
  "wf_icmp h \<longleftrightarrow> length (icmp_checksum h) = 2 \<and> length (icmp_identifier h) = 2 \<and>
     length (icmp_sequence h) = 2"

interpretation icmp: packed_struct 8 icmp_of_bytes icmp_to_bytes wf_icmp
proof unfold_locales
  fix b :: buf
  assume b: "length b = 8"
  have "b ! 0 # b ! Suc 0 # drop 2 b = b"
    using b Cons_nth_drop_Suc [of 0 b] Cons_nth_drop_Suc [of 1 b] by (simp add: numeral_2_eq_2)
  then show "icmp_to_bytes (icmp_of_bytes b) = b"
    using b by (simp add: icmp_to_bytes_def icmp_of_bytes_def chunks)
qed (auto simp: icmp_to_bytes_def icmp_of_bytes_def wf_icmp_def nth_append)

text \<open>
  The temporary buffer starts with the header, its checksum field cleared. Without data its
  remaining bytes are never written, so a positive length with a NULL \<open>data\<close> sums indeterminate
  bytes; \<open>None\<close> covers that case as well.
\<close>

definition icmp_calculate_checksum :: "icmp_header \<Rightarrow> buf ptr \<Rightarrow> u16 \<Rightarrow> u16 option" where
  "icmp_calculate_checksum header data data_length =
     do { let total_length = unat (8 + data_length);
          temp \<leftarrow> wr_bytes (replicate total_length 0) 0 (icmp_to_bytes header);
          temp \<leftarrow> wr_bytes temp 2 [0];
          temp \<leftarrow> wr_bytes temp 3 [0];
          temp \<leftarrow> (case data of
                     Some d \<Rightarrow> if data_length > 0
                               then do { s \<leftarrow> rd_bytes d 0 (unat data_length);
                                         wr_bytes temp ICMP_HEADER_LEN s }
                               else Some temp
                   | None \<Rightarrow> if data_length > 0 then None else Some temp);
          s \<leftarrow> sum_pairs temp total_length 0 0;
          s \<leftarrow> add_last temp total_length s;
          Some (ucast (NOT (fold_carries s))) }"

definition icmp_set_header ::
  "buf ptr \<Rightarrow> u8 \<Rightarrow> u8 \<Rightarrow> u16 \<Rightarrow> u16 \<Rightarrow> buf ptr \<Rightarrow> u16 \<Rightarrow> (bool \<times> buf ptr) option" where
  "icmp_set_header buffer type code identifier sequence data data_length =
     (case (buffer, data) of
        (Some b, Some d) \<Rightarrow>
          do { let header = icmp_zero\<lparr> icmp_type := type, icmp_code := code,
                              icmp_identifier := [hi8 identifier, lo8 identifier],
                              icmp_sequence := [hi8 sequence, lo8 sequence] \<rparr>;
               checksum \<leftarrow> icmp_calculate_checksum header data data_length;
               b' \<leftarrow> overlay ICMP_HEADER_LEN icmp_of_bytes icmp_to_bytes
                      (\<lambda>_. header\<lparr> icmp_checksum := [hi8 checksum, lo8 checksum] \<rparr>) b;
               Some (True, Some b') }
      | _ \<Rightarrow> Some (False, buffer))"

definition icmp_get_header :: "buf ptr \<Rightarrow> icmp_header option" where
  "icmp_get_header buffer =
     (case buffer of
        None \<Rightarrow> Some icmp_zero
      | Some b \<Rightarrow> load_struct ICMP_HEADER_LEN icmp_of_bytes b (ETHERNET_HEADER_LEN + IP_HEADER_LEN))"

definition is_icmp :: "buf ptr \<Rightarrow> bool option" where
  "is_icmp buffer =
     (case buffer of
        None \<Rightarrow> Some False
      | Some b \<Rightarrow>
          do { v4 \<leftarrow> is_ipv4 b;
               if \<not> v4 then Some False
               else do { ip_header \<leftarrow> ipv4_get_header b; Some (ip_protocol ip_header = 1) } })"

section \<open>The checksum\<close>

lemma icmp_checksum_calculate:
  assumes "wf_icmp h" "unat n \<le> length d" "unat n \<le> 65527"
  shows "icmp_calculate_checksum h (Some d) n =
           calculate_checksum (icmp_to_bytes (h\<lparr> icmp_checksum := [0, 0] \<rparr>) @ take (unat n) d) (8 + n)"
proof -
  have n8: "unat (8 + n) = 8 + unat n" using assms(3) by (simp add: unat_word_ariths)
  obtain t c ck idn sq where h: "h = \<lparr> icmp_type = t, icmp_code = c, icmp_checksum = ck,
      icmp_identifier = idn, icmp_sequence = sq \<rparr>" by (cases h)
  from assms(1) have l: "length ck = 2" "length idn = 2" "length sq = 2" by (simp_all add: h wf_icmp_def)
  let ?z = "t # c # 0 # 0 # idn @ sq"
  have temp: "do { temp \<leftarrow> wr_bytes (replicate (8 + unat n) 0) 0 (icmp_to_bytes h);
                   temp \<leftarrow> wr_bytes temp 2 [0]; wr_bytes temp 3 [0] } = Some (?z @ replicate (unat n) 0)"
    using l by (simp add: h icmp_to_bytes_def wr_bytes_def numeral_eq_Suc)
  have nz: "(n > 0) = (0 < unat n)" by (simp add: word_less_nat_alt)
  have "icmp_calculate_checksum h (Some d) n =
          do { s \<leftarrow> sum_pairs (?z @ take (unat n) d) (8 + unat n) 0 0;
               s \<leftarrow> add_last (?z @ take (unat n) d) (8 + unat n) s;
               Some (ucast (NOT (fold_carries s))) }"
    using temp assms(2) l
    by (cases "n > 0") (auto simp: icmp_calculate_checksum_def Let_def n8 nz mem_simps bind_assoc [symmetric]
        simp del: bind_assoc)
  then show ?thesis
    by (simp add: calculate_checksum_def n8 h icmp_to_bytes_def)
qed

section \<open>The header that is built\<close>

definition icmp_fields :: "u8 \<Rightarrow> u8 \<Rightarrow> u16 \<Rightarrow> u16 \<Rightarrow> buf \<Rightarrow> icmp_header" where
  "icmp_fields type code identifier sequence ck =
     \<lparr> icmp_type = type, icmp_code = code, icmp_checksum = ck,
       icmp_identifier = [hi8 identifier, lo8 identifier],
       icmp_sequence = [hi8 sequence, lo8 sequence] \<rparr>"

definition icmp_message :: "u8 \<Rightarrow> u8 \<Rightarrow> u16 \<Rightarrow> u16 \<Rightarrow> buf \<Rightarrow> buf \<Rightarrow> buf" where
  "icmp_message type code identifier sequence ck payload =
     icmp_to_bytes (icmp_fields type code identifier sequence ck) @ payload"

text \<open>The checksum the code stores: that of the message with a zero checksum field.\<close>

definition icmp_message_checksum :: "u8 \<Rightarrow> u8 \<Rightarrow> u16 \<Rightarrow> u16 \<Rightarrow> buf \<Rightarrow> u16" where
  "icmp_message_checksum type code identifier sequence payload =
     (let m = icmp_message type code identifier sequence [0, 0] payload
      in the (calculate_checksum m (of_nat (length m))))"

lemma length_icmp_message:
  "length ck = 2 \<Longrightarrow> length (icmp_message type code identifier sequence ck payload) = 8 + length payload"
  by (simp add: icmp_message_def icmp_to_bytes_def icmp_fields_def)

lemma icmp_set_header_eq [layout_simps]:
  fixes n :: u16 and d :: buf and type code :: u8 and ident sequence :: u16
  defines "c \<equiv> icmp_message_checksum type code ident sequence (take (unat n) d)"
  assumes "8 \<le> length b" "unat n \<le> length d" "unat n \<le> 65527"
  shows "icmp_set_header (Some b) type code ident sequence (Some d) n =
           Some (True, Some (icmp_message type code ident sequence [hi8 c, lo8 c] (drop 8 b)))"
proof -
  let ?h = "icmp_fields type code ident sequence"
  have wf: "wf_icmp (?h ck)" if "length ck = 2" for ck
    using that by (simp add: wf_icmp_def icmp_fields_def)
  let ?m = "icmp_message type code ident sequence [0, 0] (take (unat n) d)"
  have n8: "unat (8 + n) = 8 + unat n" using assms(4) by (simp add: unat_word_ariths)
  have lm: "length ?m = unat (8 + n)" using assms(3) by (simp add: length_icmp_message n8)
  have "calculate_checksum ?m (8 + n) = Some c"
    using calculate_checksum_eq [of "8 + n" ?m] lm
    by (auto simp: c_def icmp_message_checksum_def Let_def)
  then have "icmp_calculate_checksum (?h [0, 0]) (Some d) n = Some c"
    using assms wf by (simp add: icmp_checksum_calculate icmp_message_def icmp_fields_def)
  moreover have "overlay 8 icmp_of_bytes icmp_to_bytes (\<lambda>_. ?h [hi8 c, lo8 c]) b =
                   Some (icmp_to_bytes (?h [hi8 c, lo8 c]) @ drop 8 b)"
    using icmp.overlay_eq [of b "\<lambda>_. ?h [hi8 c, lo8 c]"] assms wf by simp
  ultimately show ?thesis
    by (simp add: icmp_set_header_def icmp_message_def icmp_zero_def icmp_fields_def)
qed

lemma icmp_message_verifies:
  fixes type code :: u8 and ident sequence :: u16 and payload :: buf
  assumes "length payload \<le> 65527"
  defines "c \<equiv> icmp_message_checksum type code ident sequence payload"
  defines "m \<equiv> icmp_message type code ident sequence [hi8 c, lo8 c] payload"
  shows "calculate_checksum m (of_nat (length m)) = Some 0"
proof -
  define s where "s = [hi8 ident, lo8 ident, hi8 sequence, lo8 sequence] @ payload"
  have m: "m = [type, code] @ [hi8 c, lo8 c] @ s"
      "icmp_message type code ident sequence [0, 0] payload = [type, code] @ [0, 0] @ s"
    by (simp_all add: m_def s_def icmp_message_def icmp_to_bytes_def icmp_fields_def)
  have "the (calculate_checksum ([type, code] @ [hi8 c, lo8 c] @ s)
              (of_nat (length ([type, code] @ [hi8 c, lo8 c] @ s)))) = 0"
    by (rule bytesum.verifies)
      (use assms(1) in \<open>simp_all add: s_def c_def icmp_message_checksum_def Let_def m(2)\<close>)
  moreover have "unat (of_nat (length m) :: u16) = length m"
    by (rule unat_of_nat_u16) (use assms(1) in \<open>simp add: m(1) s_def\<close>)
  ultimately show ?thesis
    using calculate_checksum_eq [of "of_nat (length m)" m] m(1) by auto
qed

lemma is_icmp_in [mem_simps]:
  "34 \<le> length b \<Longrightarrow> is_icmp (Some b) = Some (be16 (b ! 12) (b ! 13) = 0x0800 \<and> b ! 23 = 1)"
  by (simp add: is_icmp_def mem_simps ip_of_bytes_def)

section \<open>Property\<close>

text \<open>
  Every echo message the tool builds is valid: with \<open>n\<close> bytes of data behind it,
  \<open>icmp_set_header\<close> writes only the eight header bytes and the internet checksum of header and
  data together is zero, so the receiver accepts it.
\<close>

theorem icmp_set_header_valid:
  assumes "length b = 8 + unat n" "drop 8 b = d" "unat n \<le> 65527"
  shows "\<exists>b'. icmp_set_header (Some b) type code ident seqno (Some d) n = Some (True, Some b') \<and>
              drop 8 b' = d \<and> length b' = length b \<and>
              calculate_checksum b' (of_nat (length b')) = Some 0 \<and>
              icmp_get_header (Some (replicate 34 0 @ b')) =
                Some \<lparr> icmp_type = type, icmp_code = code, icmp_checksum = [b' ! 2, b' ! 3],
                       icmp_identifier = [hi8 ident, lo8 ident], icmp_sequence = [hi8 seqno, lo8 seqno] \<rparr>"
proof -
  define c where "c = icmp_message_checksum type code ident seqno d"
  have d: "length d = unat n" "take (unat n) d = d" using assms by auto
  have "calculate_checksum (icmp_message type code ident seqno [hi8 c, lo8 c] d)
          (of_nat (length (icmp_message type code ident seqno [hi8 c, lo8 c] d))) = Some 0"
    unfolding c_def by (rule icmp_message_verifies) (use assms d in simp)
  moreover have "icmp_set_header (Some b) type code ident seqno (Some d) n =
      Some (True, Some (icmp_message type code ident seqno [hi8 c, lo8 c] d))"
    using assms d by (simp add: icmp_set_header_eq c_def)
  ultimately show ?thesis
    using assms(1) d
    by (simp add: icmp_message_def icmp_to_bytes_def icmp_fields_def icmp_get_header_def
        load_struct_def rd_bytes_def icmp_of_bytes_def)
qed

theorem icmp_set_header_valid_witness:
  "\<exists>b'. icmp_set_header (Some [0, 0, 0, 0, 0, 0, 0, 0, 7, 7]) 8 0 1 2 (Some [7, 7]) 2 = Some (True, Some b') \<and>
        calculate_checksum b' (of_nat (length b')) = Some 0"
proof -
  have p: "length ([0, 0, 0, 0, 0, 0, 0, 0, 7, 7] :: buf) = 8 + unat (2 :: u16)"
      "drop 8 ([0, 0, 0, 0, 0, 0, 0, 0, 7, 7] :: buf) = [7, 7]" "unat (2 :: u16) \<le> 65527"
    by simp_all
  from icmp_set_header_valid [OF p, of 8 0 1 2] show ?thesis
    by (rule ex_forward) (elim conjE, intro conjI)
qed

end
