(* ===== verification/Tcp.thy ===== *)
theory Tcp
  imports Ipv4
begin

text \<open>
  \<open>libraries/protocol_tools/tcp.c\<close>: the TCP header with its 50-byte option area, the checksum over
  pseudo header and segment, the four builders (SYN with fixed options, FIN, ACK and the probe with
  caller-supplied options) and the header copied out of a received frame. \<open>*len\<close> is passed in and
  returned, since the builders leave it alone when they fail.
\<close>

record tcp_header =
  tcp_source_port :: buf
  tcp_dest_port :: buf
  tcp_sequence :: buf
  tcp_ack_number :: buf
  tcp_data_offset_flags :: buf
  tcp_window_size :: buf
  tcp_checksum :: buf
  tcp_urgent_pointer :: buf
  tcp_options :: buf

record pseudo_header_ip =
  ph_source_ip :: buf
  ph_target_ip :: buf
  ph_zero :: u8
  ph_protocol :: u8
  ph_tcp_lenght :: buf

definition TCP_FIN :: u16 where "TCP_FIN = 0x0001"
definition TCP_SYN :: u16 where "TCP_SYN = 0x0002"
definition TCP_ACK :: u16 where "TCP_ACK = 0x0010"

definition tcp_zero :: tcp_header where
  "tcp_zero =
     \<lparr> tcp_source_port = [0, 0], tcp_dest_port = [0, 0], tcp_sequence = replicate 4 0,
       tcp_ack_number = replicate 4 0, tcp_data_offset_flags = [0, 0], tcp_window_size = [0, 0],
       tcp_checksum = [0, 0], tcp_urgent_pointer = [0, 0], tcp_options = replicate 50 0 \<rparr>"

definition tcp_fixed_bytes :: "tcp_header \<Rightarrow> buf" where
  "tcp_fixed_bytes h =
     tcp_source_port h @ tcp_dest_port h @ tcp_sequence h @ tcp_ack_number h @
     tcp_data_offset_flags h @ tcp_window_size h @ tcp_checksum h @ tcp_urgent_pointer h"

definition tcp_to_bytes :: "tcp_header \<Rightarrow> buf" where
  "tcp_to_bytes h = tcp_fixed_bytes h @ tcp_options h"

definition tcp_of_bytes :: "buf \<Rightarrow> tcp_header" where
  "tcp_of_bytes b =
     \<lparr> tcp_source_port = take 2 b, tcp_dest_port = take 2 (drop 2 b),
       tcp_sequence = take 4 (drop 4 b), tcp_ack_number = take 4 (drop 8 b),
       tcp_data_offset_flags = take 2 (drop 12 b), tcp_window_size = take 2 (drop 14 b),
       tcp_checksum = take 2 (drop 16 b), tcp_urgent_pointer = take 2 (drop 18 b),
       tcp_options = take 50 (drop 20 b) \<rparr>"

definition wf_tcp :: "tcp_header \<Rightarrow> bool" where
  "wf_tcp h \<longleftrightarrow> length (tcp_source_port h) = 2 \<and> length (tcp_dest_port h) = 2 \<and>
     length (tcp_sequence h) = 4 \<and> length (tcp_ack_number h) = 4 \<and>
     length (tcp_data_offset_flags h) = 2 \<and> length (tcp_window_size h) = 2 \<and>
     length (tcp_checksum h) = 2 \<and> length (tcp_urgent_pointer h) = 2 \<and> length (tcp_options h) = 50"

interpretation tcp: packed_struct 70 tcp_of_bytes tcp_to_bytes wf_tcp
  by unfold_locales
    (auto simp: tcp_to_bytes_def tcp_fixed_bytes_def tcp_of_bytes_def wf_tcp_def chunks)

definition pseudo_to_bytes :: "pseudo_header_ip \<Rightarrow> buf" where
  "pseudo_to_bytes p =
     ph_source_ip p @ ph_target_ip p @ [ph_zero p, ph_protocol p] @ ph_tcp_lenght p"

definition create_tcp_header ::
  "tcp_header ptr \<Rightarrow> u16 \<Rightarrow> u16 \<Rightarrow> u32 \<Rightarrow> u32 \<Rightarrow> u16 \<Rightarrow> u16 \<Rightarrow> u16 \<Rightarrow> (bool \<times> tcp_header ptr) option" where
  "create_tcp_header header source_port dest_port sequence ack_number flags window_size urgent_pointer =
     (case header of
        None \<Rightarrow> Some (False, None)
      | Some h \<Rightarrow>
          do { sp \<leftarrow> uint_to_bytes (mem16 source_port) (tcp_source_port h) 2;
               dp \<leftarrow> uint_to_bytes (mem16 dest_port) (tcp_dest_port h) 2;
               sq \<leftarrow> uint_to_bytes (mem32 sequence) (tcp_sequence h) 4;
               ak \<leftarrow> uint_to_bytes (mem32 ack_number) (tcp_ack_number h) 4;
               let offset_and_flags = push_bit 12 5 OR flags;
               f \<leftarrow> uint_to_bytes (mem16 offset_and_flags) (tcp_data_offset_flags h) 2;
               w \<leftarrow> uint_to_bytes (mem16 window_size) (tcp_window_size h) 2;
               u \<leftarrow> uint_to_bytes (mem16 urgent_pointer) (tcp_urgent_pointer h) 2;
               Some (True, Some (h\<lparr> tcp_source_port := sp, tcp_dest_port := dp, tcp_sequence := sq,
                                   tcp_ack_number := ak, tcp_data_offset_flags := f,
                                   tcp_window_size := w, tcp_checksum := [0, 0],
                                   tcp_urgent_pointer := u \<rparr>)) })"

definition calculate_checksum_tcp ::
  "u16 \<Rightarrow> pseudo_header_ip \<Rightarrow> tcp_header \<Rightarrow> (pseudo_header_ip \<times> tcp_header) option" where
  "calculate_checksum_tcp options_size pseudo header =
     do { let tcp_header_len = options_size + 20;
          l \<leftarrow> uint_to_bytes (mem16 tcp_header_len) (ph_tcp_lenght pseudo) 2;
          let pseudo = pseudo\<lparr> ph_tcp_lenght := l \<rparr>;
          b \<leftarrow> wr_bytes (replicate 82 0) 0 (pseudo_to_bytes pseudo);
          s \<leftarrow> rd_bytes (tcp_to_bytes header) 0 (unat tcp_header_len);
          b \<leftarrow> wr_bytes b 12 s;
          checksum \<leftarrow> calculate_checksum_ipv4 b ((12 + tcp_header_len) div 2);
          c \<leftarrow> uint_to_bytes (mem16 checksum) (tcp_checksum header) 2;
          Some (pseudo, header\<lparr> tcp_checksum := c \<rparr>) }"

text \<open>The pseudo header a builder starts from; a NULL address is dereferenced.\<close>

definition tcp_pseudo_header :: "buf ptr \<Rightarrow> buf ptr \<Rightarrow> pseudo_header_ip option" where
  "tcp_pseudo_header source_ip target_ip =
     do { src \<leftarrow> source_ip; s \<leftarrow> rd_bytes src 0 4;
          dst \<leftarrow> target_ip; t \<leftarrow> rd_bytes dst 0 4;
          Some \<lparr> ph_source_ip = s, ph_target_ip = t, ph_zero = 0, ph_protocol = 6,
                 ph_tcp_lenght = [0, 0] \<rparr> }"

text \<open>The option bytes of a SYN: MSS 1460, SACK permitted, timestamp; 20 bytes, no padding needed.\<close>

definition syn_options :: "u32 \<Rightarrow> buf option" where
  "syn_options ts =
     do { o1 \<leftarrow> wr_bytes (replicate 50 0) 0 [0x02, 0x04, 0x05, 0xB4, 0x01, 0x01, 0x04, 0x02, 0x01, 0x01];
          o2 \<leftarrow> wr_bytes o1 10 [0x08, 0x0A];
          f \<leftarrow> rd_bytes o2 12 4; t \<leftarrow> uint_to_bytes (mem32 ts) f 4;
          o3 \<leftarrow> wr_bytes o2 12 t;
          f \<leftarrow> rd_bytes o3 16 4; e \<leftarrow> uint_to_bytes (mem32 0) f 4;
          wr_bytes o3 16 e }"

definition set_tcp_header_syn ::
  "u32 \<Rightarrow> buf ptr \<Rightarrow> buf ptr \<Rightarrow> buf ptr \<Rightarrow> u16 \<Rightarrow> u16 \<Rightarrow> u32 \<Rightarrow> u32 \<Rightarrow> u16 \<Rightarrow> u16 \<Rightarrow> u16 \<Rightarrow>
   (bool \<times> buf ptr \<times> u16) option" where
  "set_tcp_header_syn tick buffer source_ip target_ip source_port dest_port sequence ack_number
     window_size urgent_pointer len =
     (case buffer of
        None \<Rightarrow> Some (False, buffer, len)
      | Some b \<Rightarrow>
          if source_ip = None \<or> target_ip = None then Some (False, buffer, len)
          else
            do { pseudo \<leftarrow> tcp_pseudo_header source_ip target_ip;
                 (_, hp) \<leftarrow> create_tcp_header (Some tcp_zero) source_port dest_port sequence ack_number
                              TCP_SYN window_size urgent_pointer;
                 h \<leftarrow> hp;
                 opts \<leftarrow> syn_options tick;
                 let options_size = (20 :: u16);
                 let header_words = (20 + options_size) div 4;
                 m \<leftarrow> bytes_to_uint [0, 0] (tcp_data_offset_flags h) 2;
                 let offset_and_flags = (val16 m AND 0x0FFF) OR push_bit 12 header_words;
                 f \<leftarrow> uint_to_bytes (mem16 offset_and_flags) (tcp_data_offset_flags h) 2;
                 (_, h) \<leftarrow> calculate_checksum_tcp options_size pseudo
                             (h\<lparr> tcp_options := opts, tcp_data_offset_flags := f \<rparr>);
                 s \<leftarrow> rd_bytes (tcp_to_bytes h) 0 (unat (20 + options_size));
                 b' \<leftarrow> wr_bytes b 0 s;
                 Some (True, Some b', 20 + options_size) })"

text \<open>FIN and ACK have the same body, with the flag as the only difference.\<close>

definition set_tcp_header_plain ::
  "u16 \<Rightarrow> buf ptr \<Rightarrow> buf ptr \<Rightarrow> buf ptr \<Rightarrow> u16 \<Rightarrow> u16 \<Rightarrow> u32 \<Rightarrow> u32 \<Rightarrow> u16 \<Rightarrow> u16 \<Rightarrow> u16 \<Rightarrow>
   (bool \<times> buf ptr \<times> u16) option" where
  "set_tcp_header_plain flag buffer source_ip target_ip source_port dest_port sequence ack_number
     window_size urgent_pointer len =
     (case buffer of
        None \<Rightarrow> Some (False, buffer, len)
      | Some b \<Rightarrow>
          do { pseudo \<leftarrow> tcp_pseudo_header source_ip target_ip;
               (ok, hp) \<leftarrow> create_tcp_header (Some tcp_zero) source_port dest_port sequence ack_number
                             flag window_size urgent_pointer;
               if \<not> ok then Some (False, buffer, len)
               else do { h \<leftarrow> hp;
                         (_, h) \<leftarrow> calculate_checksum_tcp 0 pseudo h;
                         s \<leftarrow> rd_bytes (tcp_to_bytes h) 0 20;
                         b' \<leftarrow> wr_bytes b 0 s;
                         Some (True, Some b', 20) } })"

definition set_tcp_header_fin where
  "set_tcp_header_fin = set_tcp_header_plain TCP_FIN"

definition set_tcp_header_ack where
  "set_tcp_header_ack = set_tcp_header_plain TCP_ACK"

definition set_tcp_header_tseq ::
  "buf ptr \<Rightarrow> buf ptr \<Rightarrow> buf ptr \<Rightarrow> u16 \<Rightarrow> u16 \<Rightarrow> u32 \<Rightarrow> u32 \<Rightarrow> u16 \<Rightarrow> u16 \<Rightarrow> u16 \<Rightarrow> buf \<Rightarrow>
   (bool \<times> buf ptr \<times> u16) option" where
  "set_tcp_header_tseq buffer source_ip target_ip source_port dest_port sequence ack_number
     window_size urgent_pointer options_size options_vector =
     do { pseudo \<leftarrow> tcp_pseudo_header source_ip target_ip;
          (_, hp) \<leftarrow> create_tcp_header (Some tcp_zero) source_port dest_port sequence ack_number
                       TCP_SYN window_size urgent_pointer;
          h \<leftarrow> hp;
          v \<leftarrow> rd_bytes options_vector 0 (unat options_size);
          opts \<leftarrow> wr_bytes (tcp_options h) 0 v;
          let d0 = tcp_data_offset_flags h ! 0;
          let d0' = push_bit 4 (drop_bit 4 d0 + ucast (options_size div 4));
          (_, h) \<leftarrow> calculate_checksum_tcp options_size pseudo
                      (h\<lparr> tcp_options := opts,
                          tcp_data_offset_flags := (tcp_data_offset_flags h)[0 := d0'] \<rparr>);
          s \<leftarrow> rd_bytes (tcp_to_bytes h) 0 (unat (20 + options_size));
          b \<leftarrow> buffer;
          b' \<leftarrow> wr_bytes b 0 s;
          Some (True, Some b', 20 + options_size) }"

text \<open>
  The fixed part is copied first, its data offset then says how many bytes the second copy takes:
  at most 60, inside the 70-byte struct.
\<close>

definition tcp_get_header :: "buf \<Rightarrow> tcp_header option" where
  "tcp_get_header buffer =
     do { fixed \<leftarrow> rd_bytes buffer 34 20;
          h0 \<leftarrow> wr_bytes (tcp_to_bytes tcp_zero) 0 fixed;
          let data_offset = unat (drop_bit 4 (h0 ! 12)) * 4;
          s \<leftarrow> rd_bytes buffer 34 data_offset;
          h \<leftarrow> wr_bytes h0 0 s;
          Some (tcp_of_bytes h) }"

definition is_tcp :: "buf ptr \<Rightarrow> bool option" where
  "is_tcp buffer =
     (case buffer of
        None \<Rightarrow> Some False
      | Some b \<Rightarrow>
          do { v4 \<leftarrow> is_ipv4 b;
               if \<not> v4 then Some False
               else do { ip_header \<leftarrow> ipv4_get_header b; Some (ip_protocol ip_header = 6) } })"

section \<open>The segments that are built\<close>

definition tcp_segment :: "tcp_header \<Rightarrow> nat \<Rightarrow> buf" where
  "tcp_segment h n = tcp_fixed_bytes h @ take n (tcp_options h)"

text \<open>What a receiver sums: pseudo header and segment.\<close>

definition tcp_checked :: "buf \<Rightarrow> buf \<Rightarrow> buf \<Rightarrow> buf" where
  "tcp_checked src dst seg =
     src @ dst @ [0, 6, hi8 (of_nat (length seg)), lo8 (of_nat (length seg))] @ seg"

definition tcp_segment_checksum :: "buf \<Rightarrow> buf \<Rightarrow> tcp_header \<Rightarrow> nat \<Rightarrow> u16" where
  "tcp_segment_checksum src dst h n =
     (let m = tcp_checked src dst (tcp_segment (h\<lparr> tcp_checksum := [0, 0] \<rparr>) n)
      in the (calculate_checksum_ipv4 m (of_nat (length m div 2))))"

definition tcp_finish :: "buf \<Rightarrow> buf \<Rightarrow> tcp_header \<Rightarrow> nat \<Rightarrow> tcp_header" where
  "tcp_finish src dst h n =
     h\<lparr> tcp_checksum := [hi8 (tcp_segment_checksum src dst h n),
                         lo8 (tcp_segment_checksum src dst h n)] \<rparr>"

definition tcp_fields :: "u16 \<Rightarrow> u16 \<Rightarrow> u32 \<Rightarrow> u32 \<Rightarrow> u16 \<Rightarrow> u16 \<Rightarrow> u16 \<Rightarrow> buf \<Rightarrow> tcp_header" where
  "tcp_fields sp dp sq ak off win urg opts =
     \<lparr> tcp_source_port = [hi8 sp, lo8 sp], tcp_dest_port = [hi8 dp, lo8 dp],
       tcp_sequence = [byte32 3 sq, byte32 2 sq, byte32 1 sq, byte32 0 sq],
       tcp_ack_number = [byte32 3 ak, byte32 2 ak, byte32 1 ak, byte32 0 ak],
       tcp_data_offset_flags = [hi8 off, lo8 off], tcp_window_size = [hi8 win, lo8 win],
       tcp_checksum = [0, 0], tcp_urgent_pointer = [hi8 urg, lo8 urg], tcp_options = opts \<rparr>"

lemma wf_tcp_fields [wf_intros]: "length opts = 50 \<Longrightarrow> wf_tcp (tcp_fields sp dp sq ak off win urg opts)"
  by (simp add: wf_tcp_def tcp_fields_def)

lemma wf_tcp_finish [wf_intros]: "wf_tcp h \<Longrightarrow> wf_tcp (tcp_finish src dst h n)"
  by (simp add: wf_tcp_def tcp_finish_def)

lemma length_tcp_fixed_bytes: "wf_tcp h \<Longrightarrow> length (tcp_fixed_bytes h) = 20"
  by (simp add: wf_tcp_def tcp_fixed_bytes_def)

lemma length_tcp_segment: "wf_tcp h \<Longrightarrow> n \<le> 50 \<Longrightarrow> length (tcp_segment h n) = 20 + n"
  by (simp add: tcp_segment_def length_tcp_fixed_bytes) (simp add: wf_tcp_def)

lemma take_tcp_to_bytes: "wf_tcp h \<Longrightarrow> take (20 + n) (tcp_to_bytes h) = tcp_segment h n"
  by (simp add: tcp_to_bytes_def tcp_segment_def length_tcp_fixed_bytes)

lemma create_tcp_header_eq [layout_simps]:
  "create_tcp_header (Some tcp_zero) sp dp sq ak flags win urg =
     Some (True, Some (tcp_fields sp dp sq ak (0x5000 OR flags) win urg (replicate 50 0)))"
  by (simp add: create_tcp_header_def tcp_zero_def layout_simps tcp_fields_def Let_def)

lemma calculate_checksum_tcp_eq [layout_simps]:
  assumes "wf_tcp h" "tcp_checksum h = [0, 0]" "length s = 4" "length t = 4"
    and "unat n \<le> 50" "even (unat n)"
  shows "calculate_checksum_tcp n \<lparr> ph_source_ip = s, ph_target_ip = t, ph_zero = 0, ph_protocol = 6,
             ph_tcp_lenght = [0, 0] \<rparr> h =
           Some (\<lparr> ph_source_ip = s, ph_target_ip = t, ph_zero = 0, ph_protocol = 6,
                   ph_tcp_lenght = [hi8 (n + 20), lo8 (n + 20)] \<rparr>, tcp_finish s t h (unat n))"
proof -
  have n20: "unat (n + 20) = 20 + unat n" using assms(5) by (simp add: unat_word_ariths)
  let ?seg = "tcp_segment h (unat n)"
  let ?m = "tcp_checked s t ?seg"
  have ls: "length ?seg = 20 + unat n" using assms by (simp add: length_tcp_segment)
  have of_ls: "(of_nat (length ?seg) :: u16) = n + 20" by (simp add: ls)
  let ?ph = "s @ t @ [0, 6, hi8 (n + 20), lo8 (n + 20)]"
  have lph: "length ?ph = 12" using assms by simp
  have m: "?m = ?ph @ ?seg" by (simp add: tcp_checked_def of_ls)
  have lm: "length ?m = 32 + unat n" using lph ls by (simp add: m)
  have rd: "rd_bytes (tcp_to_bytes h) 0 (unat (n + 20)) = Some ?seg"
    using tcp.length_enc [OF assms(1)] assms(5) take_tcp_to_bytes [OF assms(1)]
    by (simp add: rd_bytes_def n20)
  have w1: "wr_bytes (replicate 82 0) 0 ?ph = Some (?ph @ replicate 70 0)"
    using wr_bytes_at [of "[]" 0 ?ph "replicate 82 0"] lph by simp
  have w2: "wr_bytes (?ph @ replicate 70 0) 12 ?seg = Some (?m @ replicate (50 - unat n) 0)"
    using wr_bytes_at [of ?ph 12 ?seg "replicate 70 0"] lph ls assms(5) by (simp add: m)
  have words: "(12 + (n + 20)) div 2 = of_nat (length ?m div 2)"
  proof (rule unsigned_word_eqI [where 'a = nat])
    have "unat ((12 + (n + 20)) div 2) = (32 + unat n) div 2"
      using assms(5) by (simp add: unat_div unat_word_ariths)
    moreover have "unat (of_nat (length ?m div 2) :: u16) = (32 + unat n) div 2"
      using assms(5) by (subst unat_of_nat_u16) (simp_all add: lm)
    ultimately show "unat ((12 + (n + 20)) div 2) = unat (of_nat (length ?m div 2) :: u16)" by simp
  qed
  have two: "2 * unat (of_nat (length ?m div 2) :: u16) = length ?m"
    using assms(5,6) by (subst unat_of_nat_u16) (simp_all add: lm)
  have z: "h\<lparr> tcp_checksum := [0, 0] \<rparr> = h" using assms(2) by (cases h) simp
  have "calculate_checksum_ipv4 (?m @ replicate (50 - unat n) 0) ((12 + (n + 20)) div 2) =
          Some (tcp_segment_checksum s t h (unat n))"
    unfolding words using calculate_checksum_ipv4_prefix [OF two] calculate_checksum_ipv4_Some [OF two]
    by (simp add: tcp_segment_checksum_def Let_def z)
  then show ?thesis
    using w1 w2 rd assms(2)
    by (simp add: calculate_checksum_tcp_def Let_def uint16_to_bytes pseudo_to_bytes_def tcp_finish_def)
qed

lemma tcp_pseudo_header_eq [mem_simps]:
  "4 \<le> length s \<Longrightarrow> 4 \<le> length t \<Longrightarrow>
     tcp_pseudo_header (Some s) (Some t) =
       Some \<lparr> ph_source_ip = take 4 s, ph_target_ip = take 4 t, ph_zero = 0, ph_protocol = 6,
              ph_tcp_lenght = [0, 0] \<rparr>"
  by (simp add: tcp_pseudo_header_def rd_bytes_in)

lemma rd_tcp_segment [mem_simps]:
  "wf_tcp h \<Longrightarrow> m = 20 + n \<Longrightarrow> n \<le> 50 \<Longrightarrow> rd_bytes (tcp_to_bytes h) 0 m = Some (tcp_segment h n)"
  using tcp.length_enc [of h] take_tcp_to_bytes [of h n] by (simp add: rd_bytes_def)

lemma set_tcp_header_plain_eq [layout_simps]:
  assumes "20 \<le> length b" "length s = 4" "length t = 4"
  shows "set_tcp_header_plain flag (Some b) (Some s) (Some t) sp dp sq ak win urg len =
           Some (True, Some (tcp_segment (tcp_finish s t
             (tcp_fields sp dp sq ak (0x5000 OR flag) win urg (replicate 50 0)) 0) 0 @ drop 20 b), 20)"
proof -
  let ?h = "tcp_fields sp dp sq ak (0x5000 OR flag) win urg (replicate 50 0)"
  have wf: "wf_tcp ?h" "wf_tcp (tcp_finish s t ?h 0)" by (simp_all add: wf_intros)
  have z: "tcp_checksum ?h = [0, 0]" by (simp add: tcp_fields_def)
  have l: "length (tcp_segment (tcp_finish s t ?h 0) 0) = 20" using wf by (simp add: length_tcp_segment)
  show ?thesis
    using assms l calculate_checksum_tcp_eq [OF wf(1) z assms(2,3), of 0]
    by (simp add: set_tcp_header_plain_def tcp_pseudo_header_eq create_tcp_header_eq
        rd_tcp_segment [OF wf(2)] wr_bytes_in)
qed

definition syn_option_bytes :: "u32 \<Rightarrow> buf" where
  "syn_option_bytes ts =
     [0x02, 0x04, 0x05, 0xB4, 0x01, 0x01, 0x04, 0x02, 0x01, 0x01, 0x08, 0x0A,
      byte32 3 ts, byte32 2 ts, byte32 1 ts, byte32 0 ts, 0, 0, 0, 0]"

lemma syn_options_eq [layout_simps]:
  "syn_options ts = Some (syn_option_bytes ts @ replicate 30 0)"
proof -
  have r: "replicate 50 (0 :: u8) = replicate 10 0 @ replicate 2 0 @ replicate 4 0 @ replicate 4 0 @ replicate 30 0"
    by (simp add: replicate_add [symmetric])
  have z: "byte32 k 0 = 0" for k by (simp add: byte32_def)
  let ?a = "[0x02, 0x04, 0x05, 0xB4, 0x01, 0x01, 0x04, 0x02, 0x01, 0x01] :: buf"
  let ?b = "[0x08, 0x0A] :: buf"
  let ?c = "[byte32 3 ts, byte32 2 ts, byte32 1 ts, byte32 0 ts]"
  have w1: "wr_bytes (replicate 50 0) 0 ?a = Some (?a @ replicate 40 0)"
    using wr_bytes_at [of "[]" 0 ?a "replicate 50 0"] by simp
  have w2: "wr_bytes (?a @ replicate 40 0) 10 ?b = Some ((?a @ ?b) @ replicate 38 0)"
    using wr_bytes_at [of ?a 10 ?b "replicate 40 0"] by simp
  have r2: "rd_bytes ((?a @ ?b) @ replicate 38 0) 12 4 = Some (replicate 4 0)"
    by (simp add: rd_bytes_def)
  have w3: "wr_bytes ((?a @ ?b) @ replicate 38 0) 12 ?c = Some ((?a @ ?b @ ?c) @ replicate 34 0)"
    using wr_bytes_at [of "?a @ ?b" 12 ?c "replicate 38 0"] by simp
  have r3: "rd_bytes ((?a @ ?b @ ?c) @ replicate 34 0) 16 4 = Some (replicate 4 0)"
    by (simp add: rd_bytes_def)
  have w4: "wr_bytes ((?a @ ?b @ ?c) @ replicate 34 0) 16 [0, 0, 0, 0] =
              Some ((?a @ ?b @ ?c @ [0, 0, 0, 0]) @ replicate 30 0)"
    using wr_bytes_at [of "?a @ ?b @ ?c" 16 "[0, 0, 0, 0]" "replicate 34 0"] by simp
  show ?thesis
    unfolding syn_options_def
    by (simp only: w1 bind.bind_lunit w2 r2 w3 r3 w4 uint32_to_bytes length_replicate z)
      (simp add: syn_option_bytes_def)
qed

lemma set_tcp_header_syn_eq [layout_simps]:
  assumes "40 \<le> length b" "length s = 4" "length t = 4"
  shows "set_tcp_header_syn tick (Some b) (Some s) (Some t) sp dp sq ak win urg len =
           Some (True, Some (tcp_segment (tcp_finish s t (tcp_fields sp dp sq ak 0xA002 win urg
             (syn_option_bytes tick @ replicate 30 0)) 20) 20 @ drop 40 b), 40)"
proof -
  let ?h = "tcp_fields sp dp sq ak 0xA002 win urg (syn_option_bytes tick @ replicate 30 0)"
  have wf: "wf_tcp ?h" "wf_tcp (tcp_finish s t ?h 20)" by (simp_all add: wf_intros syn_option_bytes_def)
  have z: "tcp_checksum ?h = [0, 0]" by (simp add: tcp_fields_def)
  have l: "length (tcp_segment (tcp_finish s t ?h 20) 20) = 40" using wf by (simp add: length_tcp_segment)
  let ?w = "0x5000 OR TCP_SYN :: u16"
  let ?g = "tcp_fields sp dp sq ak ?w win urg (replicate 50 0)"
  have f0: "tcp_data_offset_flags ?g = [hi8 ?w, lo8 ?w]" by (simp add: tcp_fields_def)
  have upd: "?g\<lparr> tcp_options := syn_option_bytes tick @ replicate 30 0,
                   tcp_data_offset_flags := [hi8 0xA002, lo8 0xA002] \<rparr> = ?h"
    by (simp only: tcp_fields_def tcp_header.update_convs)
  have v: "(?w AND 0x0FFF) OR 0xA000 = 0xA002" by (simp add: TCP_SYN_def)
  have u: "uint_to_bytes (mem16 ((?w AND 0x0FFF) OR 0xA000)) [hi8 ?w, lo8 ?w] 2 =
             Some [hi8 0xA002, lo8 0xA002]"
    unfolding v by (rule uint16_to_bytes) simp
  have ck: "calculate_checksum_tcp 20 \<lparr> ph_source_ip = s, ph_target_ip = t, ph_zero = 0,
      ph_protocol = 6, ph_tcp_lenght = [0, 0] \<rparr> ?h =
      Some (\<lparr> ph_source_ip = s, ph_target_ip = t, ph_zero = 0, ph_protocol = 6,
              ph_tcp_lenght = [hi8 40, lo8 40] \<rparr>, tcp_finish s t ?h 20)"
    using calculate_checksum_tcp_eq [OF wf(1) z assms(2,3), of 20] by simp
  show ?thesis
    using assms l u
    by (simp add: set_tcp_header_syn_def tcp_pseudo_header_eq create_tcp_header_eq syn_options_eq
        Let_def f0 bytes_to_uint16 upd ck rd_tcp_segment [OF wf(2)] wr_bytes_in)
qed

lemma tcp_fixed_split:
  "tcp_fixed_bytes h = (tcp_source_port h @ tcp_dest_port h @ tcp_sequence h @ tcp_ack_number h @
     tcp_data_offset_flags h @ tcp_window_size h) @ tcp_checksum h @ tcp_urgent_pointer h"
  by (simp add: tcp_fixed_bytes_def)

lemma tcp_segment_verifies:
  fixes h :: tcp_header
  assumes "wf_tcp h" "n \<le> 50" "even n" "length src = 4" "length dst = 4"
  defines "m \<equiv> tcp_checked src dst (tcp_segment (tcp_finish src dst h n) n)"
  shows "calculate_checksum m (of_nat (length m)) = Some 0"
proof -
  let ?c = "tcp_segment_checksum src dst h n"
  define pre where "pre = src @ dst @ [0, 6, hi8 (of_nat (20 + n)), lo8 (of_nat (20 + n))] @
      tcp_source_port h @ tcp_dest_port h @ tcp_sequence h @ tcp_ack_number h @
      tcp_data_offset_flags h @ tcp_window_size h"
  define post where "post = tcp_urgent_pointer h @ take n (tcp_options h)"
  have lens: "length pre = 28" "length post = 2 + n"
    using assms(1,2,4,5) by (simp_all add: pre_def post_def wf_tcp_def)
  have ls: "length (tcp_segment (h\<lparr> tcp_checksum := [a, b] \<rparr>) n) = 20 + n" for a b
    using assms(1,2) by (subst length_tcp_segment) (simp_all add: wf_tcp_def)
  have split: "tcp_checked src dst (tcp_segment (h\<lparr> tcp_checksum := [a, b] \<rparr>) n) = pre @ [a, b] @ post" for a b
    unfolding tcp_checked_def ls
    by (simp add: tcp_segment_def tcp_fixed_bytes_def pre_def post_def)
  have m: "m = pre @ [hi8 ?c, lo8 ?c] @ post" by (simp add: m_def tcp_finish_def split)
  have "the (calculate_checksum_ipv4 (pre @ [hi8 ?c, lo8 ?c] @ post)
              (of_nat (length (pre @ [hi8 ?c, lo8 ?c] @ post) div 2))) = 0"
    by (rule wordsum.verifies)
      (use lens assms(2,3) in \<open>simp_all add: tcp_segment_checksum_def Let_def split\<close>)
  then have w: "the (calculate_checksum_ipv4 m (of_nat (length m div 2))) = 0" by (simp only: m)
  have lm: "length m = 32 + n" by (simp add: m lens)
  have two: "2 * unat (of_nat (length m div 2) :: u16) = length m"
    using assms(2,3) by (subst unat_of_nat_u16) (simp_all add: lm)
  have one: "unat (of_nat (length m) :: u16) = length m"
    using assms(2) by (intro unat_of_nat_u16) (simp add: lm)
  have "65535 - oc_residue (words_sum m) = 0"
    using w calculate_checksum_ipv4_eq [of "of_nat (length m div 2)" m] two by auto
  then show ?thesis
    using calculate_checksum_eq [of "of_nat (length m)" m] one by (auto simp: unat_eq_0)
qed

lemma tcp_get_header_segment:
  assumes "wf_tcp h" "n \<le> 50" "length p = 34"
    and "unat (drop_bit 4 (tcp_data_offset_flags h ! 0)) * 4 = 20 + n"
    and "drop n (tcp_options h) = replicate (50 - n) 0"
  shows "tcp_get_header (p @ tcp_segment h n @ r) = Some h"
proof -
  let ?f = "tcp_fixed_bytes h" and ?o = "take n (tcp_options h)"
  have lf: "length ?f = 20" using assms(1) by (rule length_tcp_fixed_bytes)
  have lo: "length ?o = n" using assms(1,2) by (simp add: wf_tcp_def)
  have z: "tcp_to_bytes tcp_zero = replicate 20 0 @ replicate 50 0"
    by (simp add: tcp_to_bytes_def tcp_fixed_bytes_def tcp_zero_def eval_nat_numeral)
  have r1: "rd_bytes (p @ ?f @ ?o @ r) 34 20 = Some ?f"
    using rd_bytes_at [of p 34 ?f 20 "?o @ r"] assms(3) lf by simp
  have w1: "wr_bytes (replicate 20 0 @ replicate 50 0) 0 ?f = Some (?f @ replicate 50 0)"
    using wr_bytes_at [of "[]" 0 ?f "replicate 20 0 @ replicate 50 0"] lf by simp
  have nib: "(?f @ replicate 50 0) ! 12 = tcp_data_offset_flags h ! 0"
    using assms(1) by (simp add: tcp_fixed_bytes_def wf_tcp_def nth_append)
  have r2: "rd_bytes (p @ ?f @ ?o @ r) 34 (20 + n) = Some (?f @ ?o)"
    using rd_bytes_at [of p 34 "?f @ ?o" "20 + n" r] assms(3) lf lo by simp
  have w2: "wr_bytes (?f @ replicate 50 0) 0 (?f @ ?o) = Some (?f @ ?o @ replicate (50 - n) 0)"
    using assms(2) lf lo by (simp add: wr_bytes_def)
  have "?f @ ?o @ replicate (50 - n) 0 = tcp_to_bytes h"
    by (simp add: tcp_to_bytes_def assms(5) [symmetric])
  then show ?thesis
    using tcp.dec_enc [OF assms(1)]
    by (simp add: tcp_get_header_def tcp_segment_def Let_def r1 z w1 nib assms(4) r2 w2)
qed

lemma is_tcp_in [mem_simps]:
  "34 \<le> length b \<Longrightarrow> is_tcp (Some b) = Some (be16 (b ! 12) (b ! 13) = 0x0800 \<and> b ! 23 = 6)"
  by (simp add: is_tcp_def mem_simps ip_of_bytes_def)

section \<open>Properties\<close>

text \<open>
  C8. The SYN the tool sends is well formed: \<open>set_tcp_header_syn\<close> writes exactly 40 bytes at the
  start of the buffer, their checksum over the pseudo header verifies, and \<open>tcp_get_header\<close> on a
  frame that carries them reads back ports, sequence and acknowledgement number, window, urgent
  pointer, data offset 10 and the SYN flag alone, and the option bytes with the current tick as timestamp.
\<close>

theorem tcp_syn_segment_valid:
  assumes "40 \<le> length b" "length src = 4" "length dst = 4" "length p = 34"
  shows "\<exists>f h. set_tcp_header_syn tick (Some b) (Some src) (Some dst) sp dp sq ak win urg len =
                Some (True, Some (f @ drop 40 b), 40) \<and> length f = 40 \<and>
              calculate_checksum (tcp_checked src dst f) 52 = Some 0 \<and>
              tcp_get_header (p @ f @ r) = Some h \<and>
              tcp_source_port h = [hi8 sp, lo8 sp] \<and> tcp_dest_port h = [hi8 dp, lo8 dp] \<and>
              tcp_sequence h = [byte32 3 sq, byte32 2 sq, byte32 1 sq, byte32 0 sq] \<and>
              tcp_ack_number h = [byte32 3 ak, byte32 2 ak, byte32 1 ak, byte32 0 ak] \<and>
              tcp_window_size h = [hi8 win, lo8 win] \<and> tcp_urgent_pointer h = [hi8 urg, lo8 urg] \<and>
              tcp_data_offset_flags h = [0xA0, 0x02] \<and>
              take 20 (tcp_options h) = syn_option_bytes tick"
proof -
  define g where "g = tcp_fields sp dp sq ak 0xA002 win urg (syn_option_bytes tick @ replicate 30 0)"
  define h where "h = tcp_finish src dst g 20"
  have wg: "wf_tcp g" by (simp add: g_def wf_intros syn_option_bytes_def)
  then have wf: "wf_tcp h" by (simp add: h_def wf_intros)
  have f: "tcp_data_offset_flags h = [0xA0, 0x02]"
    by (simp add: h_def tcp_finish_def g_def tcp_fields_def hi8_def lo8_def)
  have o: "tcp_options h = syn_option_bytes tick @ replicate 30 0"
    by (simp add: h_def tcp_finish_def g_def tcp_fields_def)
  have l: "length (tcp_segment h 20) = 40" using wf by (simp add: length_tcp_segment)
  have "tcp_get_header (p @ tcp_segment h 20 @ r) = Some h"
    by (rule tcp_get_header_segment) (use wf assms f o in \<open>simp_all add: syn_option_bytes_def\<close>)
  moreover have "calculate_checksum (tcp_checked src dst (tcp_segment h 20)) 52 = Some 0"
  proof -
    have "length (tcp_checked src dst (tcp_segment h 20)) = 52"
      using assms l by (simp add: tcp_checked_def)
    then show ?thesis
      using tcp_segment_verifies [OF wg, of 20 src dst] assms by (simp add: h_def)
  qed
  ultimately show ?thesis
    using set_tcp_header_syn_eq [OF assms(1-3)] l f o
    by (intro exI [of _ "tcp_segment h 20"] exI [of _ h])
      (simp add: h_def [symmetric] g_def [symmetric],
       simp add: h_def tcp_finish_def g_def tcp_fields_def syn_option_bytes_def)
qed

theorem tcp_syn_segment_valid_witness:
  "\<exists>f h. set_tcp_header_syn 77 (Some (replicate 60 0)) (Some [10, 0, 0, 1]) (Some [10, 0, 0, 2])
           40000 443 1 0 1024 0 0 = Some (True, Some (f @ replicate 20 0), 40) \<and>
         tcp_get_header (replicate 34 0 @ f) = Some h \<and> tcp_data_offset_flags h = [0xA0, 0x02]"
  using tcp_syn_segment_valid [of "replicate 60 0" "[10, 0, 0, 1]" "[10, 0, 0, 2]" "replicate 34 0" 77
      40000 443 1 0 1024 0 0 "[]"]
  by auto

end
