(* ===== verification/Udp.thy ===== *)
theory Udp
  imports Ipv4
begin

text \<open>
  \<open>libraries/protocol_tools/udp.c\<close>: the UDP header, the checksum over pseudo header, header and
  payload in a 1518-byte stack buffer, and \<open>create_udp_packet\<close>, which lays the three headers and
  the payload into one frame.
\<close>

record udp_header =
  udp_source_port :: buf
  udp_dest_port :: buf
  udp_length :: buf
  udp_checksum :: buf

definition UDP_HEADER_LEN :: nat where [simp]: "UDP_HEADER_LEN = 8"

definition udp_to_bytes :: "udp_header \<Rightarrow> buf" where
  "udp_to_bytes h = udp_source_port h @ udp_dest_port h @ udp_length h @ udp_checksum h"

definition udp_of_bytes :: "buf \<Rightarrow> udp_header" where
  "udp_of_bytes b =
     \<lparr> udp_source_port = take 2 b, udp_dest_port = take 2 (drop 2 b),
       udp_length = take 2 (drop 4 b), udp_checksum = take 2 (drop 6 b) \<rparr>"

definition wf_udp :: "udp_header \<Rightarrow> bool" where
  "wf_udp h \<longleftrightarrow> length (udp_source_port h) = 2 \<and> length (udp_dest_port h) = 2 \<and>
     length (udp_length h) = 2 \<and> length (udp_checksum h) = 2"

interpretation udp: packed_struct 8 udp_of_bytes udp_to_bytes wf_udp
  by unfold_locales (auto simp: udp_to_bytes_def udp_of_bytes_def wf_udp_def chunks)

text \<open>The bytes of \<open>ip_pseudo_header_t\<close>.\<close>

definition udp_pseudo_header :: "buf \<Rightarrow> buf \<Rightarrow> u16 \<Rightarrow> buf" where
  "udp_pseudo_header src dst total_len = src @ dst @ [0, 17, hi8 total_len, lo8 total_len]"

text \<open>
  The scratch buffer is not initialised in C; every byte the sum reads has been written before,
  so the zeros it starts with here are never seen.
\<close>

definition udp_calculate_checksum :: "ipv4_header \<Rightarrow> udp_header \<Rightarrow> buf ptr \<Rightarrow> u16 \<Rightarrow> u16 option" where
  "udp_calculate_checksum ip_header header data len =
     do { let total_len = 8 + len;
          buffer \<leftarrow> wr_bytes (replicate 1518 0) 0
                     (udp_pseudo_header (ip_source_ip ip_header) (ip_dest_ip ip_header) total_len);
          buffer \<leftarrow> wr_bytes buffer 12 (udp_to_bytes header);
          s \<leftarrow> (case data of
                  Some d \<Rightarrow> rd_bytes d 0 (unat len)
                | None \<Rightarrow> if len = 0 then Some [] else None);
          buffer \<leftarrow> wr_bytes buffer 20 s;
          (if len mod 2 \<noteq> 0
           then do { buffer \<leftarrow> wr_bytes buffer (20 + unat len) [0];
                     calculate_checksum buffer (12 + (total_len + 1)) }
           else calculate_checksum buffer (12 + total_len)) }"

definition set_udp_header :: "buf ptr \<Rightarrow> u16 \<Rightarrow> u16 \<Rightarrow> u16 \<Rightarrow> (bool \<times> buf ptr) option" where
  "set_udp_header buffer source_port destination_port len =
     (case buffer of
        None \<Rightarrow> Some (False, None)
      | Some b \<Rightarrow>
          do { b' \<leftarrow> overlay UDP_HEADER_LEN udp_of_bytes udp_to_bytes
                 (\<lambda>h. h\<lparr> udp_dest_port := [hi8 destination_port, lo8 destination_port],
                         udp_source_port := [hi8 source_port, lo8 source_port],
                         udp_length := [hi8 len, lo8 len],
                         udp_checksum := [0, 0] \<rparr>) b;
               Some (True, Some b') })"

definition udp_get_header :: "buf \<Rightarrow> udp_header option" where
  "udp_get_header buffer = load_struct UDP_HEADER_LEN udp_of_bytes buffer 34"

definition is_udp :: "buf \<Rightarrow> bool option" where
  "is_udp buffer =
     do { v4 \<leftarrow> is_ipv4 buffer;
          if \<not> v4 then Some False
          else do { ip_header \<leftarrow> ipv4_get_header buffer; Some (ip_protocol ip_header = 0x11) } }"

definition create_udp_packet ::
  "buf ptr \<Rightarrow> buf ptr \<Rightarrow> buf ptr \<Rightarrow> buf ptr \<Rightarrow> buf ptr \<Rightarrow> u16 \<Rightarrow> u16 \<Rightarrow> buf ptr \<Rightarrow> u16 \<Rightarrow>
   (bool \<times> buf ptr) option" where
  "create_udp_packet buffer src_mac dst_mac src_ip dst_ip src_port dst_port payload payload_length =
     (if buffer = None \<or> src_mac = None \<or> dst_mac = None \<or> src_ip = None \<or> dst_ip = None
      then Some (False, buffer)
      else
        do { (ok, buffer) \<leftarrow> set_ethernet_header buffer src_mac dst_mac 0x0800;
             if \<not> ok then Some (False, buffer) else
        do { b \<leftarrow> buffer;
             let total_udp_length = 8 + payload_length;
             (ok, b) \<leftarrow> with_off ETHERNET_HEADER_LEN
                 (\<lambda>p. set_ipv4_header p 17 total_udp_length src_ip dst_ip 0 0x4000 128) b;
             if \<not> ok then Some (False, Some b) else
        do { (ok, b) \<leftarrow> with_off (ETHERNET_HEADER_LEN + IP_HEADER_LEN)
                 (\<lambda>p. set_udp_header p src_port dst_port total_udp_length) b;
             if \<not> ok then Some (False, Some b) else
        do { b \<leftarrow> (case payload of
                    Some p \<Rightarrow> if payload_length > 0
                              then do { s \<leftarrow> rd_bytes p 0 (unat payload_length);
                                        wr_bytes b (34 + UDP_HEADER_LEN) s }
                              else Some b
                  | None \<Rightarrow> Some b);
             ip_header \<leftarrow> load_struct IP_HEADER_LEN ip_of_bytes b ETHERNET_HEADER_LEN;
             header \<leftarrow> load_struct UDP_HEADER_LEN udp_of_bytes b 34;
             checksum \<leftarrow> udp_calculate_checksum ip_header header payload payload_length;
             b \<leftarrow> wr_bytes b 40 [hi8 checksum];
             b \<leftarrow> wr_bytes b 41 [lo8 checksum];
             Some (True, Some b) } } } })"

section \<open>The packet that is built\<close>

definition udp_segment :: "u16 \<Rightarrow> u16 \<Rightarrow> u16 \<Rightarrow> buf \<Rightarrow> buf \<Rightarrow> buf" where
  "udp_segment sport dport len ck payload =
     [hi8 sport, lo8 sport, hi8 dport, lo8 dport, hi8 len, lo8 len] @ ck @ payload"

text \<open>What the sum runs over: pseudo header and segment, an odd payload padded with a zero byte.\<close>

definition udp_checked :: "buf \<Rightarrow> buf \<Rightarrow> buf \<Rightarrow> buf" where
  "udp_checked src dst seg =
     udp_pseudo_header src dst (of_nat (length seg)) @ seg @ (if odd (length seg) then [0] else [])"

definition udp_segment_checksum :: "buf \<Rightarrow> buf \<Rightarrow> u16 \<Rightarrow> u16 \<Rightarrow> buf \<Rightarrow> u16" where
  "udp_segment_checksum src dst sport dport payload =
     (let m = udp_checked src dst (udp_segment sport dport (8 + of_nat (length payload)) [0, 0] payload)
      in the (calculate_checksum m (of_nat (length m))))"

definition udp_datagram :: "buf \<Rightarrow> buf \<Rightarrow> u16 \<Rightarrow> u16 \<Rightarrow> buf \<Rightarrow> buf" where
  "udp_datagram src dst sport dport payload =
     (let c = udp_segment_checksum src dst sport dport payload
      in udp_segment sport dport (8 + of_nat (length payload)) [hi8 c, lo8 c] payload)"

definition udp_ip_header :: "buf \<Rightarrow> buf \<Rightarrow> nat \<Rightarrow> ipv4_header" where
  "udp_ip_header src dst n =
     (let h = ip_fields 17 (8 + of_nat n) src dst 0 0x4000 128;
          c = ip_header_checksum (h [0, 0])
      in h [hi8 c, lo8 c])"

definition udp_frame :: "buf \<Rightarrow> buf \<Rightarrow> buf \<Rightarrow> buf \<Rightarrow> u16 \<Rightarrow> u16 \<Rightarrow> buf \<Rightarrow> buf" where
  "udp_frame smac dmac src dst sport dport payload =
     take 6 dmac @ take 6 smac @ [8, 0] @ ip_to_bytes (udp_ip_header src dst (length payload)) @
     udp_datagram (take 4 src) (take 4 dst) sport dport payload"

lemma set_udp_header_eq [layout_simps]:
  "8 \<le> length b \<Longrightarrow> set_udp_header (Some b) sport dport len =
     Some (True, Some (udp_segment sport dport len [0, 0] (drop 8 b)))"
  by (simp add: set_udp_header_def udp_segment_def)
    (subst udp.overlay_eq, auto simp: wf_udp_def udp_to_bytes_def udp_of_bytes_def)

lemma length_udp_checked:
  "length src = 4 \<Longrightarrow> length dst = 4 \<Longrightarrow>
     length (udp_checked src dst seg) = 12 + length seg + (if odd (length seg) then 1 else 0)"
  by (simp add: udp_checked_def udp_pseudo_header_def)

lemma length_udp_segment: "length ck = 2 \<Longrightarrow> length (udp_segment s d l ck p) = 8 + length p"
  by (simp add: udp_segment_def)

lemma udp_calculate_checksum_eq:
  assumes "wf_ip h" "unat len \<le> 1498" "unat len \<le> length d"
  shows "udp_calculate_checksum h \<lparr> udp_source_port = [hi8 sp, lo8 sp], udp_dest_port = [hi8 dp, lo8 dp],
             udp_length = [hi8 (8 + len), lo8 (8 + len)], udp_checksum = [0, 0] \<rparr> (Some d) len =
           Some (udp_segment_checksum (ip_source_ip h) (ip_dest_ip h) sp dp (take (unat len) d))"
proof -
  let ?p = "take (unat len) d" and ?src = "ip_source_ip h" and ?dst = "ip_dest_ip h"
  let ?seg = "udp_segment sp dp (8 + len) [0, 0] ?p"
  let ?m = "udp_checked ?src ?dst ?seg"
  have l4: "length ?src = 4" "length ?dst = 4" using assms(1) by (simp_all add: wf_ip_def)
  have lp: "length ?p = unat len" using assms(3) by simp
  have ls: "length ?seg = 8 + unat len" using assms(3) by (simp add: length_udp_segment)
  have of_len: "of_nat (length ?seg) = 8 + len" by (simp add: ls)
  have odd: "len mod 2 \<noteq> 0 \<longleftrightarrow> odd (unat len)"
    using bit_unsigned_iff [of len 0, where ?'a = nat] by (simp add: mod_2_eq_odd bit_0)
  let ?hb = "[hi8 sp, lo8 sp, hi8 dp, lo8 dp, hi8 (8 + len), lo8 (8 + len), 0, 0]"
  let ?ph = "udp_pseudo_header ?src ?dst (8 + len)"
  have lph: "length ?ph = 12" using l4 by (simp add: udp_pseudo_header_def)
  have w1: "wr_bytes (replicate 1518 0) 0 ?ph = Some (?ph @ replicate 1506 0)"
    using wr_bytes_at [of "[]" 0 ?ph "replicate 1518 0"] lph by simp
  have w2: "wr_bytes (?ph @ replicate 1506 0) 12 ?hb = Some (?ph @ ?hb @ replicate 1498 0)"
    using wr_bytes_at [of ?ph 12 ?hb "replicate 1506 0"] lph by simp
  have w3: "wr_bytes (?ph @ hi8 sp # lo8 sp # hi8 dp # lo8 dp # hi8 (8 + len) # lo8 (8 + len) #
                0 # 0 # replicate 1498 0) 20 ?p = Some (?ph @ ?seg @ replicate (1498 - unat len) 0)"
    using wr_bytes_at [of "?ph @ ?hb" 20 ?p "replicate 1498 0"] lph lp assms(2)
    by (simp add: udp_segment_def)
  have small: "unat len \<le> 1497" if "odd (unat len)"
    using assms(2) that by (cases "unat len = 1498") simp_all
  have w4: "wr_bytes (?ph @ ?seg @ replicate (1498 - unat len) 0) (20 + unat len) [0] =
              Some (?ph @ ?seg @ 0 # replicate (1497 - unat len) 0)" if "odd (unat len)"
    using that small wr_bytes_at [of "?ph @ ?seg" "20 + unat len" "[0]" "replicate (1498 - unat len) 0"]
      lph ls assms(2)
    by simp
  have m: "?m = ?ph @ ?seg @ (if odd (unat len) then [0] else [])"
    by (simp add: udp_checked_def of_len ls)
  have lm: "length ?m = 20 + unat len + (if odd (unat len) then 1 else 0)"
    using l4 ls by (simp add: length_udp_checked)
  have n: "unat (of_nat (length ?m) :: u16) = length ?m"
    using assms(2) lm by (intro unat_of_nat_u16) simp
  have nm: "of_nat (length ?m) = (if odd (unat len) then 12 + (8 + len + 1) else 12 + (8 + len))"
    by (simp add: lm)
  have body: "udp_calculate_checksum h \<lparr> udp_source_port = [hi8 sp, lo8 sp],
       udp_dest_port = [hi8 dp, lo8 dp], udp_length = [hi8 (8 + len), lo8 (8 + len)],
       udp_checksum = [0, 0] \<rparr> (Some d) len =
     calculate_checksum (?m @ replicate (1498 - unat len - (if odd (unat len) then 1 else 0)) 0)
       (of_nat (length ?m))"
    by (cases "odd (unat len)")
      (use odd assms(3) in \<open>simp_all add: udp_calculate_checksum_def Let_def udp_to_bytes_def
        rd_bytes_in w1 w2 w3 w4 m lph of_len [simplified]\<close>)
  show ?thesis
    unfolding body using calculate_checksum_prefix [OF n] calculate_checksum_Some [OF n] lp
    by (simp add: udp_segment_checksum_def Let_def)
qed

lemma udp_ip_header_eq [layout_simps]:
  "20 \<le> length b \<Longrightarrow> 4 \<le> length src \<Longrightarrow> 4 \<le> length dst \<Longrightarrow>
     set_ipv4_header (Some b) 17 (8 + n) (Some src) (Some dst) 0 0x4000 128 =
       Some (True, Some (ip_to_bytes (udp_ip_header src dst (unat n)) @ drop 20 b))"
  by (simp add: set_ipv4_header_eq udp_ip_header_def Let_def)

lemma wf_udp_ip_header [wf_intros]:
  "4 \<le> length src \<Longrightarrow> 4 \<le> length dst \<Longrightarrow> wf_ip (udp_ip_header src dst n)"
  by (simp add: udp_ip_header_def Let_def wf_intros)

lemma udp_of_bytes_header:
  "udp_of_bytes [a1, a2, b1, b2, c1, c2, d1, d2] =
     \<lparr> udp_source_port = [a1, a2], udp_dest_port = [b1, b2], udp_length = [c1, c2],
       udp_checksum = [d1, d2] \<rparr>"
  by (simp add: udp_of_bytes_def)

lemma create_udp_packet_eq [layout_simps]:
  fixes n :: u16
  assumes "42 + unat n \<le> length b" "unat n \<le> 1498" "unat n \<le> length p"
    and "6 \<le> length smac" "6 \<le> length dmac" "4 \<le> length src" "4 \<le> length dst"
  shows "create_udp_packet (Some b) (Some smac) (Some dmac) (Some src) (Some dst) sp dp (Some p) n =
           Some (True, Some (udp_frame smac dmac src dst sp dp (take (unat n) p) @ drop (42 + unat n) b))"
proof -
  define e where "e = take 6 dmac @ take 6 smac @ [8, 0]"
  define h where "h = udp_ip_header src dst (unat n)"
  define i where "i = ip_to_bytes h"
  define q where "q = [hi8 sp, lo8 sp, hi8 dp, lo8 dp, hi8 (8 + n), lo8 (8 + n)]"
  define s where "s = take (unat n) p"
  define r where "r = drop (42 + unat n) b"
  define c where "c = udp_segment_checksum (take 4 src) (take 4 dst) sp dp s"
  have wf: "wf_ip h" using assms by (simp add: h_def wf_intros)
  have le: "length e = 14" "length i = 20" "length q = 6" "length s = unat n"
    using assms wf ip.length_enc by (simp_all add: e_def i_def q_def s_def)
  have ips: "ip_source_ip h = take 4 src" "ip_dest_ip h = take 4 dst"
    by (simp_all add: h_def udp_ip_header_def Let_def ip_fields_def)
  have "hi8 0x0800 = 8" "lo8 0x0800 = 0" by (simp_all add: hi8_def lo8_def)
  then have s1: "set_ethernet_header (Some b) (Some smac) (Some dmac) 0x0800 =
                   Some (True, Some (e @ drop 14 b))"
    using assms by (simp add: set_ethernet_header_eq e_def)
  have s2: "with_off 14 (\<lambda>p. set_ipv4_header p 17 (8 + n) (Some src) (Some dst) 0 0x4000 128)
              (e @ drop 14 b) = Some (True, e @ i @ drop 34 b)"
    using assms le by (intro with_off_at) (simp_all add: udp_ip_header_eq i_def h_def)
  have s3: "with_off 34 (\<lambda>p. set_udp_header p sp dp (8 + n)) (e @ i @ drop 34 b) =
              Some (True, e @ i @ q @ 0 # 0 # drop 42 b)"
    using with_off_at [of "e @ i" 34 "\<lambda>p. set_udp_header p sp dp (8 + n)" "drop 34 b" True
        "q @ 0 # 0 # drop 42 b"] assms le
    by (simp add: set_udp_header_eq udp_segment_def q_def)
  have s4: "wr_bytes (e @ i @ q @ 0 # 0 # drop 42 b) 42 s = Some (e @ i @ q @ 0 # 0 # s @ r)"
    using wr_bytes_at [of "e @ i @ q @ [0, 0]" 42 s "drop 42 b"] assms le by (simp add: r_def add.commute)
  have s5: "rd_bytes p 0 (unat n) = Some s" using assms by (simp add: rd_bytes_in s_def)
  have s0: "drop 42 b = s @ r" if "\<not> n > 0"
    using that by (simp add: s_def r_def word_greater_zero_iff)
  have s6: "load_struct 20 ip_of_bytes (e @ i @ q @ 0 # 0 # s @ r) 14 = Some h"
    unfolding i_def by (rule ip.load_stored) (simp_all add: wf le)
  have s7: "load_struct 8 udp_of_bytes (e @ i @ q @ 0 # 0 # s @ r) 34 =
              Some (udp_of_bytes (q @ [0, 0]))"
    using rd_bytes_at [of "e @ i" 34 "q @ [0, 0]" 8 "s @ r"] le by (simp add: load_struct_def)
  have s8: "udp_calculate_checksum h (udp_of_bytes (q @ [0, 0])) (Some p) n = Some c"
    using udp_calculate_checksum_eq [OF wf assms(2,3)]
    by (simp add: q_def udp_of_bytes_header c_def s_def ips)
  have s9: "wr_bytes (e @ i @ q @ 0 # 0 # s @ r) 40 [hi8 c] = Some (e @ i @ q @ hi8 c # 0 # s @ r)"
    using wr_bytes_at [of "e @ i @ q" 40 "[hi8 c]" "0 # 0 # s @ r"] le by simp
  have s10: "wr_bytes (e @ i @ q @ hi8 c # 0 # s @ r) 41 [lo8 c] = Some (e @ i @ q @ hi8 c # lo8 c # s @ r)"
    using wr_bytes_at [of "e @ i @ q @ [hi8 c]" 41 "[lo8 c]" "0 # s @ r"] le by simp
  have "udp_frame smac dmac src dst sp dp s @ r = e @ i @ q @ hi8 c # lo8 c # s @ r"
    using le by (simp add: udp_frame_def udp_datagram_def Let_def udp_segment_def e_def i_def h_def q_def c_def)
  then show ?thesis
    by (cases "n > 0")
      (use s4 s0 in \<open>simp_all add: create_udp_packet_def Let_def s1 s2 s3 s5 s6 s7 s8 s9 s10
        s_def [symmetric] r_def [symmetric]\<close>)
qed

text \<open>A longer payload does not fit the scratch block of the checksum.\<close>

lemma udp_calculate_checksum_overruns:
  assumes "wf_ip h" "wf_udp u" "1498 < unat len" "unat len \<le> length d"
  shows "udp_calculate_checksum h u (Some d) len = None"
proof -
  have "length (udp_pseudo_header (ip_source_ip h) (ip_dest_ip h) (8 + len)) = 12"
    using assms(1) by (simp add: udp_pseudo_header_def wf_ip_def)
  then show ?thesis
    using assms udp.length_enc [OF assms(2)]
    by (simp add: udp_calculate_checksum_def Let_def wr_bytes_def rd_bytes_in)
qed

lemma create_udp_packet_overruns:
  fixes n :: u16
  assumes "42 + unat n \<le> length b" "1498 < unat n" "unat n \<le> length p"
    and "6 \<le> length smac" "6 \<le> length dmac" "4 \<le> length src" "4 \<le> length dst"
  shows "create_udp_packet (Some b) (Some smac) (Some dmac) (Some src) (Some dst) sp dp (Some p) n = None"
proof -
  obtain b1 where s1: "set_ethernet_header (Some b) (Some smac) (Some dmac) 0x0800 = Some (True, Some b1)"
    "length b1 = length b"
    using assms by (simp add: set_ethernet_header_eq)
  have i20: "length (ip_to_bytes (udp_ip_header src dst (unat n))) = 20"
    using assms by (intro ip.length_enc wf_udp_ip_header) simp_all
  have "set_ipv4_header (Some (drop 14 b1)) 17 (8 + n) (Some src) (Some dst) 0 0x4000 128 =
      Some (True, Some (ip_to_bytes (udp_ip_header src dst (unat n)) @ drop 20 (drop 14 b1)))"
    using assms s1(2) by (intro udp_ip_header_eq) simp_all
  then obtain b2 where s2: "with_off 14 (\<lambda>p. set_ipv4_header p 17 (8 + n) (Some src) (Some dst) 0 0x4000 128) b1 =
      Some (True, b2)" "length b2 = length b"
    using assms(1) s1(2) i20 by (simp add: with_off_def)
  obtain b3 where s3: "with_off 34 (\<lambda>p. set_udp_header p sp dp (8 + n)) b2 = Some (True, b3)"
    using assms(1) s2(2) set_udp_header_eq [of "drop 34 b2" sp dp "8 + n"] by (simp add: with_off_def)
  have c: "udp_calculate_checksum i u (Some p) n = None"
    if "load_struct 20 ip_of_bytes x 14 = Some i" "load_struct 8 udp_of_bytes x 34 = Some u" for x i u
    using udp_calculate_checksum_overruns [OF ip.load_wf [OF that(1)] udp.load_wf [OF that(2)] assms(2,3)] .
  show ?thesis
    using c by (auto simp: create_udp_packet_def s1 s2 s3 Let_def split: bind_splits)
qed

text \<open>
  The receiver's check: pseudo header and segment, taken back out of the frame, sum to zero.
\<close>

lemma udp_datagram_verifies:
  fixes sp dp :: u16 and payload src dst :: buf
  assumes "length payload \<le> 1498" "length src = 4" "length dst = 4"
  defines "m \<equiv> udp_checked src dst (udp_datagram src dst sp dp payload)"
  shows "calculate_checksum m (of_nat (length m)) = Some 0"
proof -
  define l where "l = (8 + of_nat (length payload) :: u16)"
  define pre where "pre = udp_pseudo_header src dst l @ [hi8 sp, lo8 sp, hi8 dp, lo8 dp, hi8 l, lo8 l]"
  define post where "post = payload @ (if odd (length payload) then [0] else [])"
  define c where "c = udp_segment_checksum src dst sp dp payload"
  have z: "udp_checked src dst (udp_segment sp dp l [0, 0] payload) = pre @ [0, 0] @ post"
    by (simp add: udp_checked_def udp_segment_def pre_def post_def l_def)
  have m: "m = pre @ [hi8 c, lo8 c] @ post"
    by (simp add: m_def udp_datagram_def Let_def udp_checked_def udp_segment_def pre_def post_def
        l_def c_def)
  have lens: "length pre = 18" "length post \<le> 1499"
    using assms by (simp_all add: pre_def post_def udp_pseudo_header_def)
  have "the (calculate_checksum (pre @ [hi8 c, lo8 c] @ post)
              (of_nat (length (pre @ [hi8 c, lo8 c] @ post)))) = 0"
    by (rule bytesum.verifies)
      (use lens z in \<open>simp_all add: c_def udp_segment_checksum_def Let_def l_def [symmetric]\<close>)
  moreover have "unat (of_nat (length m) :: u16) = length m"
    by (rule unat_of_nat_u16) (use lens in \<open>simp add: m\<close>)
  ultimately show ?thesis using calculate_checksum_Some [of "of_nat (length m)" m] m by simp
qed

lemma is_udp_in [mem_simps]:
  "34 \<le> length b \<Longrightarrow> is_udp b = Some (be16 (b ! 12) (b ! 13) = 0x0800 \<and> b ! 23 = 17)"
  by (simp add: is_udp_def mem_simps ip_of_bytes_def)

section \<open>Property\<close>

text \<open>
  C7. \<open>create_udp_packet\<close> builds a frame a receiver accepts, for a payload of at most 1498 bytes: it
  stays inside the buffer, leaves the bytes behind the frame alone, the frame is recognised by
  \<open>is_udp\<close>, carries ports and payload, the IP header's checksum verifies, and so does the UDP checksum
  over pseudo header, header and payload (padded when odd). A longer payload overruns the scratch
  block of the checksum.
\<close>

theorem create_udp_packet_valid:
  fixes n :: u16
  assumes "42 + unat n \<le> length b" "length payload = unat n"
    and "length smac = 6" "length dmac = 6" "length src = 4" "length dst = 4"
  shows "if unat n \<le> 1498
         then \<exists>f. create_udp_packet (Some b) (Some smac) (Some dmac) (Some src) (Some dst) sp dp
                    (Some payload) n = Some (True, Some (f @ drop (42 + unat n) b)) \<and>
                 length f = 42 + unat n \<and> drop 42 f = payload \<and> is_udp f = Some True \<and>
                 map_option udp_source_port (udp_get_header f) = Some [hi8 sp, lo8 sp] \<and>
                 map_option udp_dest_port (udp_get_header f) = Some [hi8 dp, lo8 dp] \<and>
                 calculate_checksum (take 20 (drop 14 f)) 20 = Some 0 \<and>
                 calculate_checksum (udp_checked src dst (drop 34 f))
                   (of_nat (length (udp_checked src dst (drop 34 f)))) = Some 0
         else create_udp_packet (Some b) (Some smac) (Some dmac) (Some src) (Some dst) sp dp
                (Some payload) n = None"
proof (cases "unat n \<le> 1498")
  case False
  then show ?thesis using create_udp_packet_overruns [of n b payload smac dmac src dst sp dp] assms by simp
next
  case True
  define h where "h = udp_ip_header src dst (unat n)"
  let ?f = "udp_frame smac dmac src dst sp dp payload"
  have wf: "wf_ip h" using assms by (simp add: h_def wf_intros)
  have ck: "ip_checksum h = [hi8 (ip_header_checksum h), lo8 (ip_header_checksum h)]"
    by (simp add: h_def udp_ip_header_def Let_def ip_header_checksum_def ip_fields_def)
  have f: "?f = (dmac @ smac @ [8, 0]) @ ip_to_bytes h @ udp_datagram src dst sp dp payload"
    using assms by (simp add: udp_frame_def h_def)
  have l: "length (ip_to_bytes h) = 20" "length (udp_datagram src dst sp dp payload) = 8 + unat n"
    using ip.length_enc [OF wf] assms by (simp_all add: udp_datagram_def Let_def length_udp_segment)
  have "ip_to_bytes h ! 9 = 17"
    by (simp add: ip_to_bytes_def h_def udp_ip_header_def Let_def ip_fields_def)
  then have "is_udp ?f = Some True"
    using l assms by (simp add: is_udp_in f nth_append be16_def)
  moreover have "drop 42 ?f = payload"
    using l assms by (simp add: f udp_datagram_def Let_def udp_segment_def)
  moreover have "udp_get_header ?f = Some (udp_of_bytes (take 8 (udp_datagram src dst sp dp payload)))"
    using l assms by (simp add: udp_get_header_def udp.load_eq f)
  then have "map_option udp_source_port (udp_get_header ?f) = Some [hi8 sp, lo8 sp]"
    "map_option udp_dest_port (udp_get_header ?f) = Some [hi8 dp, lo8 dp]"
    by (simp_all add: udp_datagram_def Let_def udp_segment_def udp_of_bytes_def)
  ultimately show ?thesis
    using create_udp_packet_eq [of n b payload smac dmac src dst sp dp] assms l True
      udp_datagram_verifies [of payload src dst sp dp] ip_header_verifies(2) [OF wf ck]
    by (simp add: f)
qed

theorem create_udp_packet_valid_witness:
  "\<exists>f. create_udp_packet (Some (replicate 64 0)) (Some [2, 0, 0, 0, 0, 1]) (Some [2, 0, 0, 0, 0, 2])
         (Some [10, 0, 0, 1]) (Some [10, 0, 0, 2]) 1234 53 (Some [1, 2, 3]) 3 =
         Some (True, Some (f @ replicate 19 0)) \<and> is_udp f = Some True"
  using create_udp_packet_valid [of 3 "replicate 64 0" "[1, 2, 3]" "[2, 0, 0, 0, 0, 1]"
      "[2, 0, 0, 0, 0, 2]" "[10, 0, 0, 1]" "[10, 0, 0, 2]" 1234 53]
  by auto

end
