(* ===== verification/Dhcp.thy ===== *)
theory Dhcp
  imports Udp
begin

text \<open>
  \<open>libraries/protocol_tools/dhcp.c\<close>: the DISCOVER and REQUEST builders, the parser that validates a
  received frame before anything is read out of it, and the option lookup. A
  \<open>dhcp_message_view_t\<close> borrows the frame: its two pointers are offsets into it. Positions and
  lengths are naturals where the code's 16-bit arithmetic cannot wrap (each is bounded by
  \<open>frame_len\<close>); what is read from the wire stays a word.
\<close>

section \<open>Messages\<close>

record dhcp_message =
  dm_operation :: u8
  dm_htype :: u8
  dm_hlen :: u8
  dm_hops :: u8
  dm_xid :: buf
  dm_secs :: buf
  dm_flags :: buf
  dm_ciaddr :: buf
  dm_yiaddr :: buf
  dm_siaddr :: buf
  dm_giaddr :: buf
  dm_chaddr :: buf
  dm_sname :: buf
  dm_file :: buf
  dm_magic_cookie :: buf
  dm_dhcp_options :: buf

definition DHCP_FIXED_BYTES :: nat where [simp]: "DHCP_FIXED_BYTES = 240"

definition DHCP_DISCOVER :: u8 where "DHCP_DISCOVER = 1"
definition DHCP_OFFER :: u8 where "DHCP_OFFER = 2"
definition DHCP_REQUEST :: u8 where "DHCP_REQUEST = 3"
definition DHCP_ACKNOLEDGE :: u8 where "DHCP_ACKNOLEDGE = 5"

definition DHCP_OP_SUBNET_MASK :: u8 where "DHCP_OP_SUBNET_MASK = 1"
definition DHCP_OP_ROUTER :: u8 where "DHCP_OP_ROUTER = 3"
definition DHCP_OP_DOMAIN_NAME_SERVER :: u8 where "DHCP_OP_DOMAIN_NAME_SERVER = 6"
definition DHCP_OP_HOST_NAME :: u8 where "DHCP_OP_HOST_NAME = 12"
definition DHCP_OP_REQUESTED_IP :: u8 where "DHCP_OP_REQUESTED_IP = 50"
definition DHCP_OP_DHCP_MESSAGE_TYPE :: u8 where "DHCP_OP_DHCP_MESSAGE_TYPE = 53"
definition DHCP_OP_SERVER_IDENTIFIER :: u8 where "DHCP_OP_SERVER_IDENTIFIER = 54"
definition DHCP_OP_PARAMETER_REQUEST_LIST :: u8 where "DHCP_OP_PARAMETER_REQUEST_LIST = 55"
definition DHCP_OP_CLIENT_IDENTIFIER :: u8 where "DHCP_OP_CLIENT_IDENTIFIER = 61"

lemmas dhcp_codes = DHCP_DISCOVER_def DHCP_OFFER_def DHCP_REQUEST_def DHCP_ACKNOLEDGE_def
  DHCP_OP_SUBNET_MASK_def DHCP_OP_ROUTER_def DHCP_OP_DOMAIN_NAME_SERVER_def DHCP_OP_HOST_NAME_def
  DHCP_OP_REQUESTED_IP_def DHCP_OP_DHCP_MESSAGE_TYPE_def DHCP_OP_SERVER_IDENTIFIER_def
  DHCP_OP_PARAMETER_REQUEST_LIST_def DHCP_OP_CLIENT_IDENTIFIER_def

definition dhcp_zero :: dhcp_message where
  "dhcp_zero =
     \<lparr> dm_operation = 0, dm_htype = 0, dm_hlen = 0, dm_hops = 0, dm_xid = replicate 4 0,
       dm_secs = replicate 2 0, dm_flags = replicate 2 0, dm_ciaddr = replicate 4 0,
       dm_yiaddr = replicate 4 0, dm_siaddr = replicate 4 0, dm_giaddr = replicate 4 0,
       dm_chaddr = replicate 16 0, dm_sname = replicate 64 0, dm_file = replicate 128 0,
       dm_magic_cookie = replicate 4 0, dm_dhcp_options = replicate 1000 0 \<rparr>"

definition dhcp_fixed :: "dhcp_message \<Rightarrow> buf" where
  "dhcp_fixed m =
     [dm_operation m, dm_htype m, dm_hlen m, dm_hops m] @ dm_xid m @ dm_secs m @ dm_flags m @
     dm_ciaddr m @ dm_yiaddr m @ dm_siaddr m @ dm_giaddr m @ dm_chaddr m @ dm_sname m @
     dm_file m @ dm_magic_cookie m"

definition dhcp_to_bytes :: "dhcp_message \<Rightarrow> buf" where
  "dhcp_to_bytes m = dhcp_fixed m @ dm_dhcp_options m"

text \<open>The fields both builders set before they append options.\<close>

definition dhcp_client_header :: "buf \<Rightarrow> u32 \<Rightarrow> dhcp_message option" where
  "dhcp_client_header mac_address xid =
     do { mac \<leftarrow> rd_bytes mac_address 0 6;
          ch \<leftarrow> wr_bytes (dm_chaddr dhcp_zero) 0 mac;
          Some (dhcp_zero\<lparr> dm_operation := 1, dm_htype := 1, dm_hlen := 6,
                  dm_xid := [byte32 3 xid, byte32 2 xid, byte32 1 xid, byte32 0 xid],
                  dm_chaddr := ch, dm_magic_cookie := [0x63, 0x82, 0x53, 0x63] \<rparr>) }"

text \<open>\<open>memcpy(message->dhcp_options + size, opt, sizeof(opt)); size += sizeof(opt);\<close>\<close>

definition put_option :: "buf \<Rightarrow> buf \<times> nat \<Rightarrow> (buf \<times> nat) option" where
  "put_option opt st =
     (case st of (opts, sz) \<Rightarrow> do { opts' \<leftarrow> wr_bytes opts sz opt; Some (opts', sz + length opt) })"

definition dhcp_message_discover ::
  "buf ptr \<Rightarrow> u32 \<Rightarrow> buf ptr \<Rightarrow> buf ptr \<Rightarrow> u16 ptr \<Rightarrow> (bool \<times> buf ptr \<times> u16 ptr) option" where
  "dhcp_message_discover mac_address xid host_name message len =
     (case (mac_address, host_name, message, len) of
        (Some mac, Some host, Some b, Some _) \<Rightarrow>
          do { m \<leftarrow> dhcp_client_header mac xid;
               st \<leftarrow> put_option [DHCP_OP_DHCP_MESSAGE_TYPE, 1, DHCP_DISCOVER] (dm_dhcp_options m, 0);
               mac6 \<leftarrow> rd_bytes mac 0 6;
               st \<leftarrow> put_option ([DHCP_OP_CLIENT_IDENTIFIER, 7, 1] @ mac6) st;
               h8 \<leftarrow> rd_bytes host 0 8;
               st \<leftarrow> put_option ([DHCP_OP_HOST_NAME, 8] @ h8) st;
               st \<leftarrow> put_option [DHCP_OP_PARAMETER_REQUEST_LIST, 3, DHCP_OP_SUBNET_MASK,
                                 DHCP_OP_ROUTER, DHCP_OP_DOMAIN_NAME_SERVER] st;
               st \<leftarrow> put_option [0xff] st;
               b' \<leftarrow> wr_bytes b 0 (dhcp_to_bytes (m\<lparr> dm_dhcp_options := fst st \<rparr>));
               Some (True, Some b', Some (of_nat (DHCP_FIXED_BYTES + snd st))) }
      | _ \<Rightarrow> Some (False, message, len))"

definition dhcp_message_request ::
  "buf ptr \<Rightarrow> u32 \<Rightarrow> buf ptr \<Rightarrow> buf ptr \<Rightarrow> buf ptr \<Rightarrow> buf ptr \<Rightarrow> u16 ptr \<Rightarrow>
   (bool \<times> buf ptr \<times> u16 ptr) option" where
  "dhcp_message_request mac_address xid ip_client ip_server host_name message len =
     (case (mac_address, ip_client, ip_server, host_name, message, len) of
        (Some mac, Some client, Some server, Some host, Some b, Some _) \<Rightarrow>
          do { m \<leftarrow> dhcp_client_header mac xid;
               st \<leftarrow> put_option [DHCP_OP_DHCP_MESSAGE_TYPE, 1, DHCP_REQUEST] (dm_dhcp_options m, 0);
               mac6 \<leftarrow> rd_bytes mac 0 6;
               st \<leftarrow> put_option ([DHCP_OP_CLIENT_IDENTIFIER, 7, 1] @ mac6) st;
               h8 \<leftarrow> rd_bytes host 0 8;
               st \<leftarrow> put_option ([DHCP_OP_HOST_NAME, 8] @ h8) st;
               c4 \<leftarrow> rd_bytes client 0 4;
               st \<leftarrow> put_option ([DHCP_OP_REQUESTED_IP, 4] @ c4) st;
               s4 \<leftarrow> rd_bytes server 0 4;
               st \<leftarrow> put_option ([DHCP_OP_SERVER_IDENTIFIER, 4] @ s4) st;
               st \<leftarrow> put_option [DHCP_OP_PARAMETER_REQUEST_LIST, 3, DHCP_OP_SUBNET_MASK,
                                 DHCP_OP_ROUTER, DHCP_OP_DOMAIN_NAME_SERVER] st;
               st \<leftarrow> put_option [0xff] st;
               b' \<leftarrow> wr_bytes b 0 (dhcp_to_bytes (m\<lparr> dm_dhcp_options := fst st \<rparr>));
               Some (True, Some b', Some (of_nat (DHCP_FIXED_BYTES + snd st))) }
      | _ \<Rightarrow> Some (False, message, len))"

section \<open>Received frames\<close>

record dhcp_message_view =
  dv_data :: nat
  dv_length :: nat
  dv_options :: nat
  dv_options_length :: nat

text \<open>The loop of \<open>dhcp_options_are_valid\<close>: options start at offset \<open>ofs\<close> of the frame.\<close>

function dhcp_options_from :: "buf \<Rightarrow> nat \<Rightarrow> nat \<Rightarrow> nat \<Rightarrow> bool option" where
  "dhcp_options_from frame ofs options_len pos =
     (if pos < options_len
      then do { code \<leftarrow> rd frame (ofs + pos);
                if code = 0 then dhcp_options_from frame ofs options_len (pos + 1)
                else if code = 0xff then Some True
                else if pos + 1 \<ge> options_len then Some False
                else do { option_len \<leftarrow> rd frame (ofs + (pos + 1));
                          if unat option_len > options_len - (pos + 2) then Some False
                          else dhcp_options_from frame ofs options_len (pos + 2 + unat option_len) } }
      else Some False)"
  by pat_completeness auto
termination by (relation "measure (\<lambda>(frame, ofs, n, pos). n - pos)") auto

declare dhcp_options_from.simps [simp del]

definition dhcp_options_are_valid :: "buf \<Rightarrow> nat \<Rightarrow> nat \<Rightarrow> bool option" where
  "dhcp_options_are_valid frame ofs options_len = dhcp_options_from frame ofs options_len 0"

definition dhcp_parse_message :: "buf ptr \<Rightarrow> u16 \<Rightarrow> (bool \<times> dhcp_message_view ptr) option" where
  "dhcp_parse_message frame_ptr frame_len_arg =
     (let frame_len = unat frame_len_arg; reject = Some (False, None) in
      case frame_ptr of
        None \<Rightarrow> reject
      | Some frame \<Rightarrow>
          if frame_len < 34 then reject else
          do { t0 \<leftarrow> rd frame 12; t1 \<leftarrow> rd frame 13;
               if t0 \<noteq> 0x08 \<or> t1 \<noteq> 0x00 then reject else
          do { vihl \<leftarrow> rd frame 14;
               if drop_bit 4 vihl \<noteq> 4 then reject else
          do { let ip_header_len = unat (vihl AND 0x0f) * 4;
               if ip_header_len < 20 then reject else
               if frame_len < 14 + ip_header_len + 8 then reject else
          do { proto \<leftarrow> rd frame 23;
               if proto \<noteq> 0x11 then reject else
          do { total \<leftarrow> rd_be16 frame 16;
               let ip_total_len = unat total;
               if ip_total_len < ip_header_len + 8 + 240 then reject else
               if ip_total_len > frame_len - 14 then reject else
          do { let udp = 14 + ip_header_len;
               sport \<leftarrow> rd_be16 frame udp; dport \<leftarrow> rd_be16 frame (udp + 2);
               if \<not> (sport = 67 \<and> dport = 68 \<or> sport = 68 \<and> dport = 67) then reject else
          do { ulen \<leftarrow> rd_be16 frame (udp + 4);
               let udp_len = unat ulen;
               if udp_len < 8 + 240 then reject else
               if udp_len > ip_total_len - ip_header_len then reject else
               if udp_len > frame_len - udp then reject else
          do { let dhcp = udp + 8;
               let dhcp_len = udp_len - 8;
               c0 \<leftarrow> rd frame (dhcp + 236); c1 \<leftarrow> rd frame (dhcp + 237);
               c2 \<leftarrow> rd frame (dhcp + 238); c3 \<leftarrow> rd frame (dhcp + 239);
               if c0 \<noteq> 0x63 \<or> c1 \<noteq> 0x82 \<or> c2 \<noteq> 0x53 \<or> c3 \<noteq> 0x63 then reject else
          do { let opts = dhcp + 240;
               let options_len = dhcp_len - 240;
               ok \<leftarrow> dhcp_options_are_valid frame opts options_len;
               if \<not> ok then reject else
               Some (True, Some \<lparr> dv_data = dhcp, dv_length = dhcp_len, dv_options = opts,
                                  dv_options_length = options_len \<rparr>) } } } } } } } } })"

text \<open>The found option is returned as its offset in the frame and its length.\<close>

function dhcp_find_option :: "buf \<Rightarrow> nat \<Rightarrow> nat \<Rightarrow> u8 \<Rightarrow> nat \<Rightarrow> (nat \<times> u8) option option" where
  "dhcp_find_option frame ofs options_len opt pos =
     (if pos < options_len
      then do { code \<leftarrow> rd frame (ofs + pos);
                if code = 0 then dhcp_find_option frame ofs options_len opt (pos + 1)
                else if code = 0xff then Some None
                else if pos + 1 \<ge> options_len then Some None
                else do { option_len \<leftarrow> rd frame (ofs + (pos + 1));
                          if unat option_len > options_len - (pos + 2) then Some None
                          else if code = opt then Some (Some (ofs + (pos + 2), option_len))
                          else dhcp_find_option frame ofs options_len opt (pos + 2 + unat option_len) } }
      else Some None)"
  by pat_completeness auto
termination by (relation "measure (\<lambda>(frame, ofs, n, opt, pos). n - pos)") auto

declare dhcp_find_option.simps [simp del]

definition dhcp_get_option :: "buf \<Rightarrow> dhcp_message_view ptr \<Rightarrow> u8 \<Rightarrow> (nat \<times> u8) option option" where
  "dhcp_get_option frame message opt =
     (case message of
        None \<Rightarrow> Some None
      | Some v \<Rightarrow> dhcp_find_option frame (dv_options v) (dv_options_length v) opt 0)"

definition dhcp_is_type :: "buf \<Rightarrow> dhcp_message_view ptr \<Rightarrow> u8 \<Rightarrow> u8 \<Rightarrow> bool option" where
  "dhcp_is_type frame message operation type =
     (case message of
        None \<Rightarrow> Some False
      | Some v \<Rightarrow>
          if dv_length v < DHCP_FIXED_BYTES then Some False
          else do { op0 \<leftarrow> rd frame (dv_data v);
                    if op0 \<noteq> operation then Some False
                    else do { r \<leftarrow> dhcp_get_option frame (Some v) DHCP_OP_DHCP_MESSAGE_TYPE;
                              (case r of
                                 Some (p, l) \<Rightarrow> if l = 1 then do { d \<leftarrow> rd frame p; Some (d = type) }
                                                else Some False
                               | None \<Rightarrow> Some False) } })"

definition dhcp_is_discover :: "buf \<Rightarrow> dhcp_message_view ptr \<Rightarrow> bool option" where
  "dhcp_is_discover frame message = dhcp_is_type frame message 1 DHCP_DISCOVER"

definition dhcp_is_offer :: "buf \<Rightarrow> dhcp_message_view ptr \<Rightarrow> bool option" where
  "dhcp_is_offer frame message = dhcp_is_type frame message 2 DHCP_OFFER"

definition dhcp_is_request :: "buf \<Rightarrow> dhcp_message_view ptr \<Rightarrow> bool option" where
  "dhcp_is_request frame message = dhcp_is_type frame message 1 DHCP_REQUEST"

definition dhcp_is_acknoledge :: "buf \<Rightarrow> dhcp_message_view ptr \<Rightarrow> bool option" where
  "dhcp_is_acknoledge frame message = dhcp_is_type frame message 2 DHCP_ACKNOLEDGE"

definition is_dhcp :: "buf ptr \<Rightarrow> u16 \<Rightarrow> bool option" where
  "is_dhcp frame frame_len = map_option fst (dhcp_parse_message frame frame_len)"

section \<open>The option list a region stands for\<close>

text \<open>
  Reference reading of an option region as a list of code and data; \<open>None\<close> for a region without
  END or with an option that runs past it.
\<close>

function dhcp_tlv :: "buf \<Rightarrow> (u8 \<times> buf) list option" where
  "dhcp_tlv [] = None"
| "dhcp_tlv (c # r) =
     (if c = 0 then dhcp_tlv r
      else if c = 0xff then Some []
      else (case r of
              [] \<Rightarrow> None
            | l # d \<Rightarrow> if length d < unat l then None
                       else map_option ((#) (c, take (unat l) d)) (dhcp_tlv (drop (unat l) d))))"
  by pat_completeness auto
termination by (relation "measure length") auto

fun dhcp_encode :: "(u8 \<times> buf) list \<Rightarrow> buf" where
  "dhcp_encode [] = [0xff]"
| "dhcp_encode ((c, d) # xs) = c # of_nat (length d) # d @ dhcp_encode xs"

lemma dhcp_tlv_encode:
  "\<forall>(c, d) \<in> set xs. c \<noteq> 0 \<and> c \<noteq> 0xff \<and> length d < 256 \<Longrightarrow> dhcp_tlv (dhcp_encode xs @ r) = Some xs"
  by (induction xs) (auto simp: unat_of_nat_u8)

lemma region_step:
  assumes "ofs + n \<le> length frame" "pos < n"
  shows "take (n - pos) (drop (ofs + pos) frame) =
           frame ! (ofs + pos) # take (n - (pos + 1)) (drop (ofs + (pos + 1)) frame)"
proof -
  have "drop (ofs + pos) frame = frame ! (ofs + pos) # drop (ofs + (pos + 1)) frame"
    using assms by (simp add: Cons_nth_drop_Suc)
  moreover obtain k where "n - pos = Suc k" "n - (pos + 1) = k" using assms(2) by (cases "n - pos") auto
  ultimately show ?thesis by simp
qed

text \<open>On a region inside the frame the validity loop decides whether the region reads as a list.\<close>

lemma dhcp_options_from_tlv:
  "ofs + n \<le> length frame \<Longrightarrow>
     dhcp_options_from frame ofs n pos =
       Some (dhcp_tlv (take (n - pos) (drop (ofs + pos) frame)) \<noteq> None)"
proof (induction frame ofs n pos rule: dhcp_options_from.induct)
  case (1 frame ofs n pos)
  show ?case
  proof (cases "pos < n")
    case True
    let ?c = "frame ! (ofs + pos)" and ?l = "frame ! (ofs + (pos + 1))"
    let ?reg = "\<lambda>k. take (n - k) (drop (ofs + k) frame)"
    note step = region_step [OF "1.prems" True]
    have rd0: "rd frame (ofs + pos) = Some ?c" using "1.prems" True by (simp add: rd_in)
    show ?thesis
    proof (cases "?c = 0 \<or> ?c = 0xff \<or> n \<le> pos + 1")
      case True
      then show ?thesis
        using \<open>pos < n\<close> "1.IH"(1) [OF \<open>pos < n\<close> rd0 _ "1.prems"] rd0 step
        by (subst dhcp_options_from.simps) auto
    next
      case False
      then have p1: "pos + 1 < n" and c: "?c \<noteq> 0" "?c \<noteq> 0xff" by auto
      have rd1: "rd frame (ofs + (pos + 1)) = Some ?l" using "1.prems" p1 by (simp add: rd_in)
      note step2 = region_step [OF "1.prems" p1]
      have len: "length (?reg (pos + 2)) = n - (pos + 2)" using "1.prems" by simp
      have dr: "drop (unat ?l) (?reg (pos + 2)) = ?reg (pos + 2 + unat ?l)"
        by (simp add: drop_take ac_simps)
      have not_ge: "\<not> n \<le> pos + 1" using p1 by simp
      have ih: "dhcp_options_from frame ofs n (pos + 2 + unat ?l) =
                  Some (dhcp_tlv (?reg (pos + 2 + unat ?l)) \<noteq> None)"
        if "\<not> n - (pos + 2) < unat ?l"
        using "1.IH"(2) [OF True rd0 c not_ge rd1 that "1.prems"] .
      have reg: "?reg pos = ?c # ?l # ?reg (pos + 2)" using step step2 by simp
      show ?thesis
        unfolding reg using True rd0 rd1 c not_ge ih len dr
        by (subst dhcp_options_from.simps) (auto simp: not_less)
    qed
  qed (subst dhcp_options_from.simps, simp)
qed

text \<open>The lookup returns the first option with the code, as that list has it.\<close>

lemma dhcp_find_option_tlv:
  "ofs + n \<le> length frame \<Longrightarrow>
     runs (dhcp_find_option frame ofs n opt pos)
       (\<lambda>r. (\<forall>p l. r = Some (p, l) \<longrightarrow> p + unat l \<le> ofs + n) \<and>
            (\<forall>xs. dhcp_tlv (take (n - pos) (drop (ofs + pos) frame)) = Some xs \<longrightarrow>
               map_option (\<lambda>(p, l). take (unat l) (drop p frame)) r = map_of xs opt))"
proof (induction frame ofs n opt pos rule: dhcp_find_option.induct)
  case (1 frame ofs n opt pos)
  show ?case
  proof (cases "pos < n")
    case True
    let ?c = "frame ! (ofs + pos)" and ?l = "frame ! (ofs + (pos + 1))"
    let ?reg = "\<lambda>k. take (n - k) (drop (ofs + k) frame)"
    note step = region_step [OF "1.prems" True]
    have rd0: "rd frame (ofs + pos) = Some ?c" using "1.prems" True by (simp add: rd_in)
    show ?thesis
    proof (cases "?c = 0 \<or> ?c = 0xff \<or> n \<le> pos + 1")
      case True
      then show ?thesis
        using \<open>pos < n\<close> "1.IH"(1) [OF \<open>pos < n\<close> rd0 _ "1.prems"] rd0 step
        by (subst dhcp_find_option.simps) auto
    next
      case False
      then have p1: "pos + 1 < n" and c: "?c \<noteq> 0" "?c \<noteq> 0xff" and not_ge: "\<not> n \<le> pos + 1" by auto
      have rd1: "rd frame (ofs + (pos + 1)) = Some ?l" using "1.prems" p1 by (simp add: rd_in)
      note step2 = region_step [OF "1.prems" p1]
      have dr: "drop (unat ?l) (?reg (pos + 2)) = ?reg (pos + 2 + unat ?l)"
        by (simp add: drop_take ac_simps)
      have tk: "take (unat ?l) (?reg (pos + 2)) = take (unat ?l) (drop (ofs + (pos + 2)) frame)"
        if "\<not> n - (pos + 2) < unat ?l"
        using that by (simp add: min_absorb1)
      have len: "length (?reg (pos + 2)) = n - (pos + 2)" using "1.prems" by simp
      note ih = "1.IH"(2) [OF True rd0 c not_ge rd1 _ _ "1.prems"]
      have reg: "?reg pos = ?c # ?l # ?reg (pos + 2)" using step step2 by simp
      consider (long) "n - (pos + 2) < unat ?l"
        | (hit) "\<not> n - (pos + 2) < unat ?l" "?c = opt"
        | (skip) "\<not> n - (pos + 2) < unat ?l" "?c \<noteq> opt"
        by blast
      then show ?thesis
      proof cases
        case long
        then show ?thesis
          unfolding reg using True rd0 rd1 c not_ge len by (subst dhcp_find_option.simps) simp
      next
        case hit
        have "ofs + (pos + 2) + unat ?l \<le> ofs + n" using hit(1) p1 by linarith
        then show ?thesis
          unfolding reg using hit True rd0 rd1 c not_ge len tk
          by (subst dhcp_find_option.simps) auto
      next
        case skip
        then show ?thesis
          unfolding reg using ih [OF skip] True rd0 rd1 c not_ge len dr
          by (subst dhcp_find_option.simps) (auto elim!: runs_mono)
      qed
    qed
  qed (subst dhcp_find_option.simps, simp)
qed

section \<open>The parser\<close>

text \<open>What an accepted view satisfies, with respect to the frame it was parsed from.\<close>

definition wf_view :: "buf \<Rightarrow> nat \<Rightarrow> dhcp_message_view \<Rightarrow> bool" where
  "wf_view frame n v \<longleftrightarrow>
     dv_data v + dv_length v \<le> n \<and> n \<le> length frame \<and> 42 \<le> dv_data v \<and>
     dv_options v = dv_data v + 240 \<and> dv_length v = 240 + dv_options_length v \<and>
     dhcp_tlv (take (dv_options_length v) (drop (dv_options v) frame)) \<noteq> None"

lemma runs_options_valid [runs_intros]:
  "ofs + n \<le> length frame \<Longrightarrow> Q (dhcp_tlv (take n (drop ofs frame)) \<noteq> None) \<Longrightarrow>
     runs (dhcp_options_are_valid frame ofs n) Q"
  by (simp add: dhcp_options_are_valid_def dhcp_options_from_tlv)

lemma dhcp_parse_message_runs:
  assumes "unat frame_len \<le> length frame"
  shows "runs (dhcp_parse_message (Some frame) frame_len)
           (\<lambda>r. case r of (True, Some v) \<Rightarrow> wf_view frame (unat frame_len) v | (True, None) \<Rightarrow> False
                       | (False, v) \<Rightarrow> v = None)"
  unfolding dhcp_parse_message_def Let_def option.case
  by (intro runs_intros) (use assms in \<open>auto simp: wf_view_def\<close>)

lemma dhcp_get_option_view:
  assumes "wf_view frame n v"
  shows "\<exists>r. dhcp_get_option frame (Some v) opt = Some r \<and>
           (\<forall>p l. r = Some (p, l) \<longrightarrow> p + unat l \<le> n) \<and>
           map_option (\<lambda>(p, l). take (unat l) (drop p frame)) r =
             map_of (the (dhcp_tlv (take (dv_options_length v) (drop (dv_options v) frame)))) opt"
proof -
  have "dv_options v + dv_options_length v \<le> length frame" "dv_options v + dv_options_length v \<le> n"
    using assms by (auto simp: wf_view_def)
  moreover obtain xs where "dhcp_tlv (take (dv_options_length v) (drop (dv_options v) frame)) = Some xs"
    using assms by (auto simp: wf_view_def)
  ultimately show ?thesis
    using dhcp_find_option_tlv [of "dv_options v" "dv_options_length v" frame opt 0]
    by (fastforce simp: dhcp_get_option_def runs_iff)
qed

text \<open>\<open>view_option\<close>: the data of the first option with a code, read off the frame.\<close>

definition view_option :: "buf \<Rightarrow> dhcp_message_view \<Rightarrow> u8 \<Rightarrow> buf option" where
  "view_option frame v opt =
     map_of (the (dhcp_tlv (take (dv_options_length v) (drop (dv_options v) frame)))) opt"

lemma runs_get_option:
  assumes "wf_view frame n v"
    and "view_option frame v opt = None \<Longrightarrow> Q None"
    and "\<And>p l. view_option frame v opt = Some (take (unat l) (drop p frame)) \<Longrightarrow>
                p + unat l \<le> n \<Longrightarrow> p + unat l \<le> length frame \<Longrightarrow> Q (Some (p, l))"
  shows "runs (dhcp_get_option frame (Some v) opt) Q"
proof -
  obtain r where r: "dhcp_get_option frame (Some v) opt = Some r"
      "\<forall>p l. r = Some (p, l) \<longrightarrow> p + unat l \<le> n"
      "map_option (\<lambda>(p, l). take (unat l) (drop p frame)) r = view_option frame v opt"
    using dhcp_get_option_view [OF assms(1)] unfolding view_option_def by metis
  have "n \<le> length frame" using assms(1) by (simp add: wf_view_def)
  then show ?thesis
    using r assms(2,3) by (cases r) (auto simp: eq_commute [of "Some _" "view_option frame v opt"])
qed

lemma dhcp_is_type_eq:
  assumes "wf_view frame n v"
  shows "dhcp_is_type frame (Some v) operation type =
           Some (frame ! dv_data v = operation \<and>
                 view_option frame v DHCP_OP_DHCP_MESSAGE_TYPE = Some [type])"
proof -
  have "dv_data v < length frame" using assms by (auto simp: wf_view_def)
  then have rd: "rd frame (dv_data v) = Some (frame ! dv_data v)" by (rule rd_in)
  have "runs (dhcp_get_option frame (Some v) DHCP_OP_DHCP_MESSAGE_TYPE)
          (\<lambda>r. dhcp_is_type frame (Some v) operation type =
                Some (frame ! dv_data v = operation \<and>
                      view_option frame v DHCP_OP_DHCP_MESSAGE_TYPE = Some [type])
                \<or> dhcp_get_option frame (Some v) DHCP_OP_DHCP_MESSAGE_TYPE \<noteq> Some r)"
  proof (rule runs_get_option [OF assms], goal_cases)
    case 1
    then show ?case using assms by (auto simp: dhcp_is_type_def rd wf_view_def)
  next
    case (2 p l)
    show ?case
    proof (cases "l = 1")
      case True
      then have "p < length frame" using 2 by simp
      then have "take (unat l) (drop p frame) = [frame ! p]" "rd frame p = Some (frame ! p)"
        using True by (simp_all add: rd_in take_Suc hd_drop_conv_nth drop_eq_Nil)
      then show ?thesis using 2 True assms by (auto simp: dhcp_is_type_def rd wf_view_def)
    next
      case False
      then have "unat l \<noteq> 1" by (metis unat_1 unsigned_word_eqI word_unat_eq_iff)
      then have "take (unat l) (drop p frame) \<noteq> [type]"
        using 2 by (metis add_diff_cancel_left' diff_le_mono length_Cons length_drop length_take list.size(3)
            min.absorb2 One_nat_def)
      then show ?thesis using 2 False assms by (auto simp: dhcp_is_type_def rd wf_view_def)
    qed
  qed
  then show ?thesis by (auto simp: runs_iff)
qed

section \<open>The messages that are built\<close>

definition dhcp_client_fixed :: "buf \<Rightarrow> u32 \<Rightarrow> buf" where
  "dhcp_client_fixed mac xid =
     [1, 1, 6, 0] @ [byte32 3 xid, byte32 2 xid, byte32 1 xid, byte32 0 xid] @ replicate 20 0 @
     take 6 mac @ replicate 10 0 @ replicate 192 0 @ [0x63, 0x82, 0x53, 0x63]"

definition discover_options :: "buf \<Rightarrow> buf \<Rightarrow> (u8 \<times> buf) list" where
  "discover_options mac host =
     [(DHCP_OP_DHCP_MESSAGE_TYPE, [DHCP_DISCOVER]),
      (DHCP_OP_CLIENT_IDENTIFIER, 1 # take 6 mac),
      (DHCP_OP_HOST_NAME, take 8 host),
      (DHCP_OP_PARAMETER_REQUEST_LIST, [DHCP_OP_SUBNET_MASK, DHCP_OP_ROUTER, DHCP_OP_DOMAIN_NAME_SERVER])]"

definition request_options :: "buf \<Rightarrow> buf \<Rightarrow> buf \<Rightarrow> buf \<Rightarrow> (u8 \<times> buf) list" where
  "request_options mac client server host =
     [(DHCP_OP_DHCP_MESSAGE_TYPE, [DHCP_REQUEST]),
      (DHCP_OP_CLIENT_IDENTIFIER, 1 # take 6 mac),
      (DHCP_OP_HOST_NAME, take 8 host),
      (DHCP_OP_REQUESTED_IP, take 4 client),
      (DHCP_OP_SERVER_IDENTIFIER, take 4 server),
      (DHCP_OP_PARAMETER_REQUEST_LIST, [DHCP_OP_SUBNET_MASK, DHCP_OP_ROUTER, DHCP_OP_DOMAIN_NAME_SERVER])]"

text \<open>The option area after \<open>p\<close> has been appended to it.\<close>

definition opt_area :: "buf \<Rightarrow> buf \<times> nat" where
  "opt_area p = (p @ replicate (1000 - length p) 0, length p)"

lemma put_option_area:
  "length p + length opt \<le> 1000 \<Longrightarrow> put_option opt (opt_area p) = Some (opt_area (p @ opt))"
  using wr_bytes_at [of p "length p" opt "replicate (1000 - length p) 0"]
  by (simp add: put_option_def opt_area_def)

lemma dhcp_client_header_eq:
  "6 \<le> length mac \<Longrightarrow>
     \<exists>m. dhcp_client_header mac xid = Some m \<and> dm_dhcp_options m = replicate 1000 0 \<and>
         (\<forall>opts. dhcp_to_bytes (m\<lparr> dm_dhcp_options := opts \<rparr>) = dhcp_client_fixed mac xid @ opts)"
proof -
  assume mac: "6 \<le> length mac"
  have "wr_bytes (replicate 16 0) 0 (take 6 mac) = Some (take 6 mac @ replicate 10 0)"
    using wr_bytes_at [of "[]" 0 "take 6 mac" "replicate 16 0"] mac by simp
  moreover have r20: "replicate 20 (0 :: u8) = replicate 2 0 @ replicate 2 0 @ replicate 4 0 @
      replicate 4 0 @ replicate 4 0 @ replicate 4 0"
    by (simp only: replicate_add [symmetric]) simp
  moreover have r192: "replicate 192 (0 :: u8) = replicate 64 0 @ replicate 128 0"
    by (simp only: replicate_add [symmetric]) simp
  ultimately show ?thesis
    using mac unfolding dhcp_client_fixed_def r20 r192
    by (simp add: dhcp_client_header_def rd_bytes_in dhcp_zero_def dhcp_to_bytes_def dhcp_fixed_def)
qed

lemma length_dhcp_client_fixed: "6 \<le> length mac \<Longrightarrow> length (dhcp_client_fixed mac xid) = 240"
  by (simp add: dhcp_client_fixed_def)

lemma length_discover_options:
  "6 \<le> length mac \<Longrightarrow> 8 \<le> length host \<Longrightarrow> length (dhcp_encode (discover_options mac host)) = 28"
  by (simp add: discover_options_def)

lemma length_request_options:
  "6 \<le> length mac \<Longrightarrow> 8 \<le> length host \<Longrightarrow> 4 \<le> length client \<Longrightarrow> 4 \<le> length server \<Longrightarrow>
     length (dhcp_encode (request_options mac client server host)) = 40"
  by (simp add: request_options_def)

lemma dhcp_message_discover_eq [layout_simps]:
  assumes "6 \<le> length mac" "8 \<le> length host" "1240 \<le> length b"
  shows "dhcp_message_discover (Some mac) xid (Some host) (Some b) (Some l) =
           Some (True, Some (dhcp_client_fixed mac xid @ dhcp_encode (discover_options mac host) @
                             replicate 972 0 @ drop 1240 b), Some 268)"
proof -
  obtain m where m: "dhcp_client_header mac xid = Some m" "dm_dhcp_options m = replicate 1000 0"
      "\<And>opts. dhcp_to_bytes (m\<lparr> dm_dhcp_options := opts \<rparr>) = dhcp_client_fixed mac xid @ opts"
    using dhcp_client_header_eq [OF assms(1)] by blast
  let ?o = "dhcp_encode (discover_options mac host)"
  have o: "?o = ((([DHCP_OP_DHCP_MESSAGE_TYPE, 1, DHCP_DISCOVER] @
      [DHCP_OP_CLIENT_IDENTIFIER, 7, 1] @ take 6 mac) @ [DHCP_OP_HOST_NAME, 8] @ take 8 host) @
      [DHCP_OP_PARAMETER_REQUEST_LIST, 3, DHCP_OP_SUBNET_MASK, DHCP_OP_ROUTER,
       DHCP_OP_DOMAIN_NAME_SERVER]) @ [0xff]"
    using assms by (simp add: discover_options_def)
  have start: "(replicate 1000 0, 0) = opt_area []" by (simp add: opt_area_def)
  have lo: "length ?o = 28" using assms by (simp add: length_discover_options)
  have fin: "opt_area ?o = (?o @ replicate 972 0, 28)" using lo by (simp add: opt_area_def)
  have "wr_bytes b 0 (dhcp_client_fixed mac xid @ ?o @ replicate 972 0) =
          Some (dhcp_client_fixed mac xid @ ?o @ replicate 972 0 @ drop 1240 b)"
    using assms lo length_dhcp_client_fixed [OF assms(1)] by (simp add: wr_bytes_def)
  then show ?thesis
    using assms m start fin
    by (simp add: dhcp_message_discover_def put_option_area rd_bytes_in o)
qed

lemma dhcp_message_request_eq [layout_simps]:
  assumes "6 \<le> length mac" "8 \<le> length host" "4 \<le> length client" "4 \<le> length server"
    and "1240 \<le> length b"
  shows "dhcp_message_request (Some mac) xid (Some client) (Some server) (Some host) (Some b) (Some l) =
           Some (True, Some (dhcp_client_fixed mac xid @
                             dhcp_encode (request_options mac client server host) @
                             replicate 960 0 @ drop 1240 b), Some 280)"
proof -
  obtain m where m: "dhcp_client_header mac xid = Some m" "dm_dhcp_options m = replicate 1000 0"
      "\<And>opts. dhcp_to_bytes (m\<lparr> dm_dhcp_options := opts \<rparr>) = dhcp_client_fixed mac xid @ opts"
    using dhcp_client_header_eq [OF assms(1)] by blast
  let ?o = "dhcp_encode (request_options mac client server host)"
  have o: "?o = ((((([DHCP_OP_DHCP_MESSAGE_TYPE, 1, DHCP_REQUEST] @
      [DHCP_OP_CLIENT_IDENTIFIER, 7, 1] @ take 6 mac) @ [DHCP_OP_HOST_NAME, 8] @ take 8 host) @
      [DHCP_OP_REQUESTED_IP, 4] @ take 4 client) @ [DHCP_OP_SERVER_IDENTIFIER, 4] @ take 4 server) @
      [DHCP_OP_PARAMETER_REQUEST_LIST, 3, DHCP_OP_SUBNET_MASK, DHCP_OP_ROUTER,
       DHCP_OP_DOMAIN_NAME_SERVER]) @ [0xff]"
    using assms by (simp add: request_options_def)
  have start: "(replicate 1000 0, 0) = opt_area []" by (simp add: opt_area_def)
  have lo: "length ?o = 40" using assms by (simp add: length_request_options)
  have fin: "opt_area ?o = (?o @ replicate 960 0, 40)" using lo by (simp add: opt_area_def)
  have "wr_bytes b 0 (dhcp_client_fixed mac xid @ ?o @ replicate 960 0) =
          Some (dhcp_client_fixed mac xid @ ?o @ replicate 960 0 @ drop 1240 b)"
    using assms lo length_dhcp_client_fixed [OF assms(1)] by (simp add: wr_bytes_def)
  then show ?thesis
    using assms m start fin
    by (simp add: dhcp_message_request_def put_option_area rd_bytes_in o)
qed

section \<open>Reading back what was built\<close>

text \<open>A client frame: broadcast Ethernet header, IPv4 and UDP headers, fixed part and options.\<close>

definition dhcp_frame_of :: "buf \<Rightarrow> buf \<Rightarrow> buf \<Rightarrow> buf \<Rightarrow> buf \<Rightarrow> buf" where
  "dhcp_frame_of mac src dst fixed opts =
     replicate 6 0xff @ take 6 mac @ [8, 0] @ ip_to_bytes (udp_ip_header src dst (240 + length opts)) @
     udp_segment 0x44 0x43 (of_nat (248 + length opts)) [0, 0] (fixed @ opts)"

definition dhcp_client_frame :: "buf \<Rightarrow> u32 \<Rightarrow> buf \<Rightarrow> buf \<Rightarrow> buf \<Rightarrow> buf" where
  "dhcp_client_frame mac xid src dst opts =
     dhcp_frame_of mac src dst (dhcp_client_fixed mac xid) opts"

lemma length_dhcp_frame_of:
  assumes "6 \<le> length mac" "4 \<le> length src" "4 \<le> length dst" "length fixed = 240"
  shows "length (dhcp_frame_of mac src dst fixed opts) = 282 + length opts"
proof -
  have "wf_ip (udp_ip_header src dst (240 + length opts))" using assms by (simp add: wf_intros)
  from ip.length_enc [OF this] show ?thesis
    using assms by (simp add: dhcp_frame_of_def length_udp_segment)
qed

lemma length_dhcp_client_frame:
  "6 \<le> length mac \<Longrightarrow> 4 \<le> length src \<Longrightarrow> 4 \<le> length dst \<Longrightarrow>
     length (dhcp_client_frame mac xid src dst opts) = 282 + length opts"
  by (simp add: dhcp_client_frame_def length_dhcp_frame_of length_dhcp_client_fixed)

lemma parse_dhcp_frame_of:
  fixes mac src dst f opts rest :: buf
  assumes "6 \<le> length mac" "4 \<le> length src" "4 \<le> length dst" "length opts \<le> 1000"
    and "dhcp_tlv opts \<noteq> None"
    and "length f = 240" "drop 236 f = [0x63, 0x82, 0x53, 0x63]"
  defines "frame \<equiv> dhcp_frame_of mac src dst f opts @ rest"
  shows "dhcp_parse_message (Some frame) (of_nat (282 + length opts)) =
           Some (True, Some \<lparr> dv_data = 42, dv_length = 240 + length opts, dv_options = 282,
                              dv_options_length = length opts \<rparr>)"
proof -
  let ?n = "length opts"
  let ?h = "udp_ip_header src dst (240 + ?n)"
  define e where "e = replicate 6 0xff @ take 6 mac @ [8, 0 :: u8]"
  define i where "i = ip_to_bytes ?h"
  define q where "q = [hi8 0x44, lo8 0x44, hi8 0x43, lo8 0x43, hi8 (of_nat (248 + ?n)),
                       lo8 (of_nat (248 + ?n)), 0, 0 :: u8]"
  have frame: "frame = e @ i @ q @ f @ opts @ rest"
    by (simp add: frame_def dhcp_frame_of_def e_def i_def q_def udp_segment_def)
  have wf: "wf_ip ?h" using assms by (simp add: wf_intros)
  have l: "length e = 14" "length i = 20" "length q = 8" "length f = 240"
    using assms ip.length_enc [OF wf] by (simp_all add: e_def i_def q_def)
  have fl: "unat (of_nat (282 + ?n) :: u16) = 282 + ?n"
    using assms(4) by (intro unat_of_nat_u16) simp
  have nth_i: "frame ! (14 + k) = i ! k" if "k < 20" for k
    using that l by (simp add: frame nth_append)
  have nth_q: "frame ! (34 + k) = q ! k" if "k < 8" for k
    using that l by (simp add: frame nth_append)
  have nth_f: "frame ! (42 + k) = f ! k" if "k < 240" for k
    using that l by (simp add: frame nth_append)
  have len: "length frame = 282 + ?n + length rest" using l by (simp add: frame)
  have eth: "frame ! 12 = 8" "frame ! 13 = 0" using l(1) assms(1) by (simp_all add: frame e_def nth_append)
  have tot: "20 + (8 + of_nat (240 + ?n)) = (of_nat (268 + ?n) :: u16)" by simp
  have ip: "i ! 0 = 0x45" "i ! 9 = 17" "be16 (i ! 2) (i ! 3) = of_nat (268 + ?n)"
    by (simp_all add: i_def ip_to_bytes_def udp_ip_header_def Let_def ip_fields_def)
  have udp: "be16 (q ! 0) (q ! 1) = 68" "be16 (q ! 2) (q ! 3) = 67"
      "be16 (q ! 4) (q ! 5) = of_nat (248 + ?n)"
    by (simp_all add: q_def)
  have cookie: "f ! 236 = 0x63" "f ! 237 = 0x82" "f ! 238 = 0x53" "f ! 239 = 0x63"
    using arg_cong [OF assms(7), of "\<lambda>l. l ! 0"] arg_cong [OF assms(7), of "\<lambda>l. l ! 1"]
      arg_cong [OF assms(7), of "\<lambda>l. l ! 2"] arg_cong [OF assms(7), of "\<lambda>l. l ! 3"] assms(6)
    by simp_all
  have ut: "unat (of_nat (268 + ?n) :: u16) = 268 + ?n" "unat (of_nat (248 + ?n) :: u16) = 248 + ?n"
    using assms(4) by (intro unat_of_nat_u16; simp)+
  have nib: "drop_bit 4 (0x45 :: u8) = 4" "(0x45 :: u8) AND 0x0f = 5" by simp_all
  have r: "rd frame 12 = Some 8" "rd frame 13 = Some 0" "rd frame 14 = Some 0x45" "rd frame 23 = Some 17"
      "rd_be16 frame 16 = Some (of_nat (268 + ?n))" "rd_be16 frame 34 = Some 68"
      "rd_be16 frame 36 = Some 67" "rd_be16 frame 38 = Some (of_nat (248 + ?n))"
      "rd frame 278 = Some 0x63" "rd frame 279 = Some 0x82" "rd frame 280 = Some 0x53"
      "rd frame 281 = Some 0x63"
    using len eth ip udp cookie nth_i [of 0] nth_i [of 9] nth_i [of 2] nth_i [of 3]
      nth_q [of 0] nth_q [of 1] nth_q [of 2] nth_q [of 3] nth_q [of 4] nth_q [of 5]
      nth_f [of 236] nth_f [of 237] nth_f [of 238] nth_f [of 239]
    by (simp_all add: rd_in rd_be16_in)
  have valid: "dhcp_options_are_valid frame 282 ?n = Some True"
  proof -
    have "take ?n (drop 282 frame) = opts" using l by (simp add: frame)
    then show ?thesis using len assms(5) by (simp add: dhcp_options_are_valid_def dhcp_options_from_tlv)
  qed
  show ?thesis
    unfolding dhcp_parse_message_def Let_def option.case
    by (simp only: fl r ut nib bind.bind_lunit) (simp add: r valid ut [simplified])
qed

section \<open>Properties\<close>

text \<open>
  C3. Parsing is safe on every frame: whatever bytes arrive, \<open>dhcp_parse_message\<close> reads only inside
  the \<open>frame_len\<close> bytes it was given, and when it accepts, data and options of the view lie inside
  the frame, the option region is well formed, and every later \<open>dhcp_get_option\<close> and message-type
  test on the view stays inside the frame too.
\<close>

theorem dhcp_parse_message_safe:
  assumes "length frame = unat frame_len"
  shows "\<exists>ok view. dhcp_parse_message (Some frame) frame_len = Some (ok, view) \<and> (ok \<longleftrightarrow> view \<noteq> None) \<and>
           (\<forall>v. view = Some v \<longrightarrow>
              dv_data v + dv_length v \<le> length frame \<and>
              dv_options v + dv_options_length v = dv_data v + dv_length v \<and>
              (\<forall>opt. \<exists>r. dhcp_get_option frame view opt = Some r \<and>
                        (\<forall>p l. r = Some (p, l) \<longrightarrow> p + unat l \<le> length frame)) \<and>
              (\<forall>operation type. dhcp_is_type frame view operation type \<noteq> None))"
proof -
  obtain ok view where r: "dhcp_parse_message (Some frame) frame_len = Some (ok, view)"
      "case (ok, view) of (True, Some v) \<Rightarrow> wf_view frame (unat frame_len) v | (True, None) \<Rightarrow> False
         | (False, v) \<Rightarrow> v = None"
    using dhcp_parse_message_runs [of frame_len frame] assms by (auto simp: runs_iff)
  have "dv_data v + dv_length v \<le> length frame \<and>
        dv_options v + dv_options_length v = dv_data v + dv_length v \<and>
        (\<forall>opt. \<exists>r. dhcp_get_option frame (Some v) opt = Some r \<and>
                  (\<forall>p l. r = Some (p, l) \<longrightarrow> p + unat l \<le> length frame)) \<and>
        (\<forall>operation type. dhcp_is_type frame (Some v) operation type \<noteq> None)"
    if v: "view = Some v" for v
  proof -
    have "ok" using r(2) v by (cases ok) simp_all
    then have wf: "wf_view frame (length frame) v" using r(2) v assms by simp
    have "\<exists>r. dhcp_get_option frame (Some v) opt = Some r \<and>
              (\<forall>p l. r = Some (p, l) \<longrightarrow> p + unat l \<le> length frame)" for opt
      using dhcp_get_option_view [OF wf, of opt] by blast
    moreover have "dhcp_is_type frame (Some v) operation type \<noteq> None" for operation type
      by (simp add: dhcp_is_type_eq [OF wf])
    ultimately show ?thesis using wf by (simp add: wf_view_def)
  qed
  moreover have "ok \<longleftrightarrow> view \<noteq> None" using r(2) by (cases ok; cases view) simp_all
  ultimately show ?thesis using r(1) by blast
qed

theorem dhcp_parse_message_safe_witness:
  "\<exists>ok view. dhcp_parse_message (Some [1, 2, 3]) 3 = Some (ok, view) \<and> (ok \<longleftrightarrow> view \<noteq> None)"
  using dhcp_parse_message_safe [of "[1, 2, 3]" 3] by auto

text \<open>
  C4. \<open>dhcp_get_option\<close> refines a lookup in the option list: on any region that reads as a list of
  options, it finds an option exactly when the list has one with that code, and the pointer and
  length it returns denote the data of the first such option. So a region built from options
  returns each of them.
\<close>

theorem dhcp_get_option_refines_lookup:
  assumes "\<forall>(c, d) \<in> set xs. c \<noteq> 0 \<and> c \<noteq> 0xff \<and> length d < 256"
    and "take n (drop ofs frame) = dhcp_encode xs @ r" "ofs + n \<le> length frame"
    and "v = \<lparr> dv_data = d, dv_length = l, dv_options = ofs, dv_options_length = n \<rparr>"
  shows "\<exists>res. dhcp_get_option frame (Some v) opt = Some res \<and>
           map_option (\<lambda>(p, l). take (unat l) (drop p frame)) res = map_of xs opt"
proof -
  have "dhcp_tlv (take (n - 0) (drop (ofs + 0) frame)) = Some xs"
    using assms(1,2) dhcp_tlv_encode by simp
  then show ?thesis
    using dhcp_find_option_tlv [OF assms(3), of opt 0] by (auto simp: assms(4) dhcp_get_option_def runs_iff)
qed

theorem dhcp_get_option_refines_lookup_witness:
  "\<exists>res. dhcp_get_option [53, 1, 5, 1, 2, 9, 8, 0xff, 0]
           (Some \<lparr> dv_data = 0, dv_length = 9, dv_options = 0, dv_options_length = 9 \<rparr>) 1 = Some res \<and>
         map_option (\<lambda>(p, l). take (unat l) (drop p ([53, 1, 5, 1, 2, 9, 8, 0xff, 0] :: buf))) res = Some [9, 8]"
  using dhcp_get_option_refines_lookup [of "[(53, [5]), (1, [9, 8])]" 9 0
      "[53, 1, 5, 1, 2, 9, 8, 0xff, 0]" "[0]" _ 0 9 1]
  by simp

end
