(* ===== verification/Dhcp_Client.thy ===== *)
theory Dhcp_Client
  imports Dhcp
begin

text \<open>
  \<open>modules/dhcp_protocol.c\<close>: the DHCP client. Its file-level variables are one record; the DORA
  loop is a step function on that record and the loop's locals, driven by what the outside
  supplies in each pass (link state, cancel flag, the two tick readings, the received frame).
  \<open>receive_packet\<close> hands over the first \<open>length\<close> bytes of the receive buffer, so a received frame
  is the list of those bytes and no frame is the empty list; \<open>send_packet\<close> appends to the frames
  sent.
\<close>

section \<open>State\<close>

record dhcp_globals =
  g_MAC_ADDRESS :: buf
  g_MAC_DESTINATION :: buf
  g_xid :: u32
  g_gateway :: buf
  g_dns_server :: buf
  g_subnet_mask :: buf
  g_dhcp_server_ip :: buf
  g_myip :: buf
  g_ip_client :: buf
  g_ip_server :: buf

definition wf_globals :: "dhcp_globals \<Rightarrow> bool" where
  "wf_globals g \<longleftrightarrow> length (g_MAC_ADDRESS g) = 6 \<and> length (g_MAC_DESTINATION g) = 6 \<and>
     length (g_gateway g) = 4 \<and> length (g_dns_server g) = 4 \<and> length (g_subnet_mask g) = 4 \<and>
     length (g_dhcp_server_ip g) = 4 \<and> length (g_myip g) = 4 \<and> length (g_ip_client g) = 4 \<and>
     length (g_ip_server g) = 4"

definition source_ip :: buf where "source_ip = [0, 0, 0, 0]"
definition destination_ip :: buf where "destination_ip = [0xff, 0xff, 0xff, 0xff]"

section \<open>Handlers\<close>

definition view_xid :: "buf \<Rightarrow> dhcp_message_view \<Rightarrow> u32 option" where
  "view_xid frame v = rd_be32 frame (dv_data v + 4)"

definition deconstruct_dhcp_offer :: "dhcp_globals \<Rightarrow> buf \<Rightarrow> u16 \<Rightarrow> (bool \<times> dhcp_globals) option" where
  "deconstruct_dhcp_offer g buffer frame_length =
     do { (ok, view) \<leftarrow> dhcp_parse_message (Some buffer) frame_length;
          if \<not> ok then Some (False, g) else
     do { offer \<leftarrow> dhcp_is_offer buffer view;
          if \<not> offer then Some (False, g) else
     do { v \<leftarrow> view;
          is_the_xid \<leftarrow> view_xid buffer v;
          if is_the_xid \<noteq> g_xid g then Some (False, g) else
     do { sid \<leftarrow> dhcp_get_option buffer (Some v) DHCP_OP_SERVER_IDENTIFIER;
          (case sid of
             None \<Rightarrow> Some (False, g)
           | Some (p, l) \<Rightarrow>
               if l \<noteq> 4 then Some (False, g)
               else do { dst \<leftarrow> rd_bytes buffer 6 6;
                         client \<leftarrow> rd_bytes buffer (dv_data v + 16) 4;
                         server \<leftarrow> rd_bytes buffer p 4;
                         Some (True, g\<lparr> g_MAC_DESTINATION := dst, g_ip_client := client,
                                        g_ip_server := server \<rparr>) }) } } } }"

definition deconstruct_dhcp_ack :: "dhcp_globals \<Rightarrow> buf \<Rightarrow> u16 \<Rightarrow> (bool \<times> dhcp_globals) option" where
  "deconstruct_dhcp_ack g buffer frame_length =
     do { (ok, view) \<leftarrow> dhcp_parse_message (Some buffer) frame_length;
          if \<not> ok then Some (False, g) else
     do { ack \<leftarrow> dhcp_is_acknoledge buffer view;
          if \<not> ack then Some (False, g) else
     do { v \<leftarrow> view;
          is_the_xid \<leftarrow> view_xid buffer v;
          if is_the_xid \<noteq> g_xid g then Some (False, g) else
     do { mask \<leftarrow> dhcp_get_option buffer (Some v) DHCP_OP_SUBNET_MASK;
          (case mask of
             None \<Rightarrow> Some (False, g)
           | Some (pm, lm) \<Rightarrow> if lm \<noteq> 4 then Some (False, g) else
     do { parsed_subnet \<leftarrow> rd_bytes buffer pm 4;
          router \<leftarrow> dhcp_get_option buffer (Some v) DHCP_OP_ROUTER;
          (case router of
             None \<Rightarrow> Some (False, g)
           | Some (pr, lr) \<Rightarrow> if lr < 4 \<or> lr mod 4 \<noteq> 0 then Some (False, g) else
     do { parsed_gateway \<leftarrow> rd_bytes buffer pr 4;
          dns \<leftarrow> dhcp_get_option buffer (Some v) DHCP_OP_DOMAIN_NAME_SERVER;
          parsed_dns \<leftarrow> (case dns of
                           None \<Rightarrow> Some (Some [0, 0, 0, 0])
                         | Some (pd, ld) \<Rightarrow> if ld < 4 \<or> ld mod 4 \<noteq> 0 then Some None
                                            else map_option Some (rd_bytes buffer pd 4));
          (case parsed_dns of
             None \<Rightarrow> Some (False, g)
           | Some pdns \<Rightarrow>
     do { sid \<leftarrow> dhcp_get_option buffer (Some v) DHCP_OP_SERVER_IDENTIFIER;
          (case sid of
             None \<Rightarrow> Some (False, g)
           | Some (ps, ls) \<Rightarrow> if ls \<noteq> 4 then Some (False, g) else
     do { parsed_server \<leftarrow> rd_bytes buffer ps 4;
          my \<leftarrow> rd_bytes buffer (dv_data v + 16) 4;
          Some (True, g\<lparr> g_myip := my, g_subnet_mask := parsed_subnet, g_gateway := parsed_gateway,
                         g_dns_server := pdns, g_dhcp_server_ip := parsed_server \<rparr>) }) }) }) }) } } } }"

definition get_mac_server :: "dhcp_globals \<Rightarrow> buf" where
  "get_mac_server g = g_MAC_DESTINATION g"

definition get_gateway_ip :: "dhcp_globals \<Rightarrow> buf" where
  "get_gateway_ip g = g_gateway g"

definition get_subnet_mask :: "dhcp_globals \<Rightarrow> buf" where
  "get_subnet_mask g = g_subnet_mask g"

definition set_mac_address :: "dhcp_globals \<Rightarrow> buf \<Rightarrow> dhcp_globals" where
  "set_mac_address g mac_address = g\<lparr> g_MAC_ADDRESS := mac_address \<rparr>"

section \<open>Builders\<close>

text \<open>
  The headers around a message already in place at offset 42; the code ignores their results,
  which are true since no pointer is NULL.
\<close>

definition dhcp_frame_headers :: "dhcp_globals \<Rightarrow> u16 \<Rightarrow> buf \<Rightarrow> buf option" where
  "dhcp_frame_headers g dhcp_len b =
     do { (_, p) \<leftarrow> set_ethernet_header (Some b) (Some (g_MAC_ADDRESS g)) (Some MAC_BROADCAST) 0x800;
          b \<leftarrow> p;
          (_, b) \<leftarrow> with_off ETHERNET_HEADER_LEN
             (\<lambda>p. set_ipv4_header p 0x11 (dhcp_len + 8) (Some source_ip) (Some destination_ip) 0 0x4000 128) b;
          (_, b) \<leftarrow> with_off (ETHERNET_HEADER_LEN + IP_HEADER_LEN)
             (\<lambda>p. set_udp_header p 0x44 0x43 (dhcp_len + 8)) b;
          Some b }"

definition set_dhcp_discover_message_with_host_name ::
  "dhcp_globals \<Rightarrow> buf ptr \<Rightarrow> u16 ptr \<Rightarrow> buf ptr \<Rightarrow> (bool \<times> buf ptr \<times> u16 ptr) option" where
  "set_dhcp_discover_message_with_host_name g buffer len host =
     (case (buffer, len, host) of
        (Some b, Some l, Some h) \<Rightarrow>
          do { ((ok, dl), b) \<leftarrow> with_off 42 (\<lambda>p. map_option (\<lambda>(ok, p', dl). ((ok, dl), p'))
                  (dhcp_message_discover (Some (g_MAC_ADDRESS g)) (g_xid g) (Some h) p (Some 0))) b;
               dhcp_len \<leftarrow> dl;
               if \<not> ok then Some (False, Some b, Some 0)
               else do { b \<leftarrow> dhcp_frame_headers g dhcp_len b;
                         Some (True, Some b, Some (dhcp_len + 42)) } }
      | _ \<Rightarrow> Some (False, buffer, len))"

definition set_dhcp_request_message_with_host_name ::
  "dhcp_globals \<Rightarrow> buf ptr \<Rightarrow> u16 ptr \<Rightarrow> buf ptr \<Rightarrow> (bool \<times> buf ptr \<times> u16 ptr) option" where
  "set_dhcp_request_message_with_host_name g buffer len host =
     (case (buffer, len, host) of
        (Some b, Some l, Some h) \<Rightarrow>
          do { ((ok, dl), b) \<leftarrow> with_off 42 (\<lambda>p. map_option (\<lambda>(ok, p', dl). ((ok, dl), p'))
                  (dhcp_message_request (Some (g_MAC_ADDRESS g)) (g_xid g) (Some (g_ip_client g))
                     (Some (g_ip_server g)) (Some h) p (Some 0))) b;
               dhcp_len \<leftarrow> dl;
               if \<not> ok then Some (False, Some b, Some 0)
               else do { b \<leftarrow> dhcp_frame_headers g dhcp_len b;
                         Some (True, Some b, Some (dhcp_len + 42)) } }
      | _ \<Rightarrow> Some (False, buffer, len))"

section \<open>The DORA loop\<close>

datatype state_dora = DHCP_STATE_INIT | DHCP_STATE_REQUEST | DHCP_STATE_WAITING | DHCP_OK | DHCP_FAIL

record dora =
  do_globals :: dhcp_globals
  do_state :: state_dora
  do_current_time :: u32
  do_ret :: bool
  do_failed :: bool
  do_length :: u16
  do_tx_buffer :: buf
  do_sent :: "buf list"
  do_chip_subnet_mask :: buf
  do_mac_router :: buf

text \<open>What one pass of the loop sees of the outside.\<close>

record dora_input =
  in_link_up :: bool
  in_cancel :: bool
  in_tick :: u32       \<comment> \<open>\<open>furi_get_tick()\<close> of the timeout test\<close>
  in_tick_set :: u32   \<comment> \<open>\<open>furi_get_tick()\<close> where \<open>current_time\<close> is set\<close>
  in_frame :: buf      \<comment> \<open>what \<open>receive_packet\<close> delivers, empty if nothing\<close>

text \<open>The guards of the loop, in order: its condition, the cancel flag and the timeout.\<close>

definition dora_stops :: "dora_input \<Rightarrow> dora \<Rightarrow> bool" where
  "dora_stops inp s \<longleftrightarrow> do_ret s \<or> do_failed s \<or> \<not> in_link_up inp \<or> in_cancel inp \<or>
     in_tick inp > do_current_time s + 10000"

definition dora_send :: "dora_input \<Rightarrow> (bool \<times> buf ptr \<times> u16 ptr) option \<Rightarrow> dora \<Rightarrow> dora option" where
  "dora_send inp built s =
     do { (ok, p, l) \<leftarrow> built;
          b \<leftarrow> p; len \<leftarrow> l;
          if \<not> ok then Some (s\<lparr> do_failed := True, do_tx_buffer := b, do_length := len \<rparr>)
          else do { frame \<leftarrow> rd_bytes b 0 (unat len);
                    z \<leftarrow> wr_bytes b 0 (replicate 1518 0);
                    Some (s\<lparr> do_sent := do_sent s @ [frame], do_tx_buffer := z, do_length := len,
                            do_current_time := in_tick_set inp,
                            do_state := DHCP_STATE_WAITING \<rparr>) } }"

definition dora_receive :: "dora_input \<Rightarrow> dora \<Rightarrow> dora option" where
  "dora_receive inp s =
     (let len = (of_nat (length (in_frame inp)) :: u16); g = do_globals s; s = s\<lparr> do_length := len \<rparr> in
      if len > 0
      then do { (offer, g1) \<leftarrow> deconstruct_dhcp_offer g (in_frame inp) len;
                if offer then Some (s\<lparr> do_globals := g1, do_state := DHCP_STATE_REQUEST,
                                       do_current_time := in_tick_set inp \<rparr>)
                else do { (ack, g2) \<leftarrow> deconstruct_dhcp_ack g1 (in_frame inp) len;
                          if ack then Some (s\<lparr> do_globals := g2,
                                               do_chip_subnet_mask := get_subnet_mask g2,
                                               do_mac_router := g_MAC_DESTINATION g2,
                                               do_state := DHCP_OK, do_ret := True,
                                               do_current_time := in_tick_set inp \<rparr>)
                          else Some (s\<lparr> do_globals := g2 \<rparr>) } }
      else Some s)"

definition dora_body :: "buf ptr \<Rightarrow> dora_input \<Rightarrow> dora \<Rightarrow> dora option" where
  "dora_body host inp s =
     (case do_state s of
        DHCP_STATE_INIT \<Rightarrow>
          dora_send inp (set_dhcp_discover_message_with_host_name (do_globals s)
                           (Some (do_tx_buffer s)) (Some (do_length s)) host) s
      | DHCP_STATE_REQUEST \<Rightarrow>
          dora_send inp (set_dhcp_request_message_with_host_name (do_globals s)
                           (Some (do_tx_buffer s)) (Some (do_length s)) host) s
      | DHCP_STATE_WAITING \<Rightarrow> dora_receive inp s
      | _ \<Rightarrow> Some s)"

text \<open>The loop over what the outside supplies; the flag says whether the loop has been left.\<close>

fun dora_loop :: "buf ptr \<Rightarrow> dora_input list \<Rightarrow> dora \<Rightarrow> (bool \<times> dora) option" where
  "dora_loop host [] s = Some (do_ret s \<or> do_failed s, s)"
| "dora_loop host (inp # inps) s =
     (if dora_stops inp s then Some (True, s)
      else do { s' \<leftarrow> dora_body host inp s; dora_loop host inps s' })"

definition dora_start :: "dhcp_globals \<Rightarrow> buf \<Rightarrow> u32 \<Rightarrow> u32 \<Rightarrow> buf \<Rightarrow> buf \<Rightarrow> buf \<Rightarrow> dora" where
  "dora_start g chip_mac now random tx chip_mask mac_router =
     \<lparr> do_globals = set_mac_address (g\<lparr> g_xid := random \<rparr>) chip_mac, do_state = DHCP_STATE_INIT,
       do_current_time = now, do_ret = False, do_failed = False, do_length = 0, do_tx_buffer = tx,
       do_sent = [], do_chip_subnet_mask = chip_mask, do_mac_router = mac_router \<rparr>"

text \<open>
  The whole function: the broadcast filter is switched on for the exchange and put back after it;
  the result comes with the client address and the router address the caller's arrays hold then.
\<close>

definition flipper_process_dora_with_host_name ::
  "dhcp_globals \<Rightarrow> buf \<Rightarrow> u32 \<Rightarrow> u32 \<Rightarrow> buf \<Rightarrow> buf \<Rightarrow> bool \<Rightarrow> buf \<Rightarrow> buf \<Rightarrow> buf \<Rightarrow> buf ptr \<Rightarrow>
   dora_input list \<Rightarrow> (bool \<times> dora \<times> buf \<times> buf \<times> bool) option" where
  "flipper_process_dora_with_host_name g chip_mac now random tx chip_mask broadcast_was_enabled
     static_ip ip_router mac_router host inps =
     do { (_, s) \<leftarrow> dora_loop host inps (dora_start g chip_mac now random tx chip_mask mac_router);
          let broadcast = (if broadcast_was_enabled then True else False);
          if do_ret s
          then Some (True, s, g_myip (do_globals s), g_gateway (do_globals s), broadcast)
          else Some (False, s, static_ip, ip_router, broadcast) }"

section \<open>The handlers stay inside the frame\<close>

lemma runs_parse:
  assumes "unat n \<le> length frame" "Q (False, None)"
    and "\<And>v. dhcp_parse_message (Some frame) n = Some (True, Some v) \<Longrightarrow> wf_view frame (unat n) v \<Longrightarrow>
            Q (True, Some v)"
  shows "runs (dhcp_parse_message (Some frame) n) Q"
proof -
  obtain ok view where r: "dhcp_parse_message (Some frame) n = Some (ok, view)"
      "case (ok, view) of (True, Some v) \<Rightarrow> wf_view frame (unat n) v | (True, None) \<Rightarrow> False
         | (False, v) \<Rightarrow> v = None"
    using dhcp_parse_message_runs [OF assms(1)] by (auto simp: runs_iff)
  then show ?thesis using assms(2,3) by (cases ok; cases view) auto
qed

text \<open>The frame \<open>f\<close> is a message of the given type and transaction.\<close>

definition dhcp_message_in :: "buf \<Rightarrow> dhcp_message_view \<Rightarrow> u8 \<Rightarrow> u8 \<Rightarrow> u32 \<Rightarrow> bool" where
  "dhcp_message_in f v operation type xid \<longleftrightarrow>
     dhcp_parse_message (Some f) (of_nat (length f)) = Some (True, Some v) \<and>
     dhcp_is_type f (Some v) operation type = Some True \<and> view_xid f v = Some xid"

lemma view_reads:
  assumes "wf_view f n v"
  shows "dv_data v + 240 \<le> length f" "12 \<le> length f" "n \<le> length f"
  using assms by (auto simp: wf_view_def)

lemma u8_four: "l = (4 :: u8) \<Longrightarrow> unat l = 4"
  by simp

lemma u8_at_least_four: "\<not> l < (4 :: u8) \<Longrightarrow> 4 \<le> unat l"
  by (simp add: word_less_nat_alt not_less)

lemma deconstruct_dhcp_offer_runs:
  assumes "unat n = length f" "wf_globals g"
  shows "runs (deconstruct_dhcp_offer g f n)
           (\<lambda>(ok, g'). wf_globals g' \<and> (\<not> ok \<longrightarrow> g' = g) \<and>
              (ok \<longrightarrow> (\<exists>v c s. dhcp_message_in f v 2 DHCP_OFFER (g_xid g) \<and>
                          c = take 4 (drop (dv_data v + 16) f) \<and>
                          view_option f v DHCP_OP_SERVER_IDENTIFIER = Some s \<and> length s = 4 \<and>
                          g_MAC_DESTINATION g' = take 6 (drop 6 f) \<and> g_ip_client g' = c \<and>
                          g_ip_server g' = s \<and> g_xid g' = g_xid g \<and>
                          g_MAC_ADDRESS g' = g_MAC_ADDRESS g)))"
proof -
  have n: "of_nat (length f) = n" by (simp add: assms(1) [symmetric])
  have le: "unat n \<le> length f" using assms(1) by simp
  show ?thesis
    unfolding deconstruct_dhcp_offer_def
  proof (intro runs_bind runs_parse [OF le], goal_cases)
    case 1
    then show ?case using assms by simp
  next
    case (2 v)
    note wf = 2(2) and vr = view_reads [OF 2(2)]
    have offer: "dhcp_is_offer f (Some v) = dhcp_is_type f (Some v) 2 DHCP_OFFER"
      by (simp add: dhcp_is_offer_def)
    obtain isoff where isoff: "dhcp_is_type f (Some v) 2 DHCP_OFFER = Some isoff"
      by (simp add: dhcp_is_type_eq [OF wf])
    obtain x where x: "view_xid f v = Some x" using vr by (simp add: view_xid_def rd_be32_in)
    have opt: "runs (dhcp_get_option f (Some v) DHCP_OP_SERVER_IDENTIFIER)
                 (\<lambda>sid. case sid of None \<Rightarrow> True
                    | Some (p, l) \<Rightarrow> view_option f v DHCP_OP_SERVER_IDENTIFIER =
                        Some (take (unat l) (drop p f)) \<and> p + unat l \<le> length f)"
      by (rule runs_get_option [OF wf]) simp_all
    then obtain sid where sid: "dhcp_get_option f (Some v) DHCP_OP_SERVER_IDENTIFIER = Some sid"
        "case sid of None \<Rightarrow> True
         | Some (p, l) \<Rightarrow> view_option f v DHCP_OP_SERVER_IDENTIFIER =
             Some (take (unat l) (drop p f)) \<and> p + unat l \<le> length f"
      by (auto simp: runs_iff)
    show ?case
      using assms vr sid 2(1) isoff x
      by (auto simp: offer dhcp_message_in_def n rd_bytes_in wf_globals_def split: option.splits)
  qed
qed

text \<open>One option lookup on an accepted view: at least four bytes of data are inside the frame.\<close>

definition lookup_spec :: "buf \<Rightarrow> dhcp_message_view \<Rightarrow> u8 \<Rightarrow> (nat \<times> u8) option \<Rightarrow> bool" where
  "lookup_spec f v opt r \<longleftrightarrow>
     (case r of
              None \<Rightarrow> view_option f v opt = None
            | Some (p, l) \<Rightarrow>
                (\<not> l < 4 \<longrightarrow> rd_bytes f p 4 = Some (take 4 (drop p f)) \<and> p + 4 \<le> length f \<and>
                   view_option f v opt = Some (take (unat l) (drop p f)) \<and>
                   take 4 (take (unat l) (drop p f)) = take 4 (drop p f)))"

lemma view_lookup:
  assumes "wf_view f n v"
  shows "\<exists>r. dhcp_get_option f (Some v) opt = Some r \<and> lookup_spec f v opt r"
proof -
  have "runs (dhcp_get_option f (Some v) opt) (lookup_spec f v opt)"
  proof (rule runs_get_option [OF assms], goal_cases)
    case 1
    then show ?case by (simp add: lookup_spec_def)
  next
    case (2 p l)
    then show ?case
      using u8_at_least_four [of l] by (auto simp: lookup_spec_def rd_bytes_in min_absorb1)
  qed
  then show ?thesis by (simp only: runs_iff)
qed

text \<open>What an accepted acknowledgement does to the globals.\<close>

definition ack_globals :: "dhcp_globals \<Rightarrow> buf \<Rightarrow> dhcp_message_view \<Rightarrow> dhcp_globals \<Rightarrow> bool" where
  "ack_globals g f v g' \<longleftrightarrow>
     g_MAC_ADDRESS g' = g_MAC_ADDRESS g \<and> g_MAC_DESTINATION g' = g_MAC_DESTINATION g \<and>
     g_xid g' = g_xid g \<and> g_ip_client g' = g_ip_client g \<and> g_ip_server g' = g_ip_server g \<and>
     g_myip g' = take 4 (drop (dv_data v + 16) f) \<and>
     view_option f v DHCP_OP_SUBNET_MASK = Some (g_subnet_mask g') \<and>
     map_option (take 4) (view_option f v DHCP_OP_ROUTER) = Some (g_gateway g') \<and>
     view_option f v DHCP_OP_SERVER_IDENTIFIER = Some (g_dhcp_server_ip g') \<and>
     g_dns_server g' = (case view_option f v DHCP_OP_DOMAIN_NAME_SERVER of
                          None \<Rightarrow> [0, 0, 0, 0] | Some d \<Rightarrow> take 4 d)"

lemma deconstruct_dhcp_ack_runs:
  assumes "unat n = length f" "wf_globals g"
  shows "runs (deconstruct_dhcp_ack g f n)
           (\<lambda>(ok, g'). wf_globals g' \<and> (\<not> ok \<longrightarrow> g' = g) \<and>
              (ok \<longrightarrow> (\<exists>v. dhcp_message_in f v 2 DHCP_ACKNOLEDGE (g_xid g) \<and> ack_globals g f v g')))"
proof -
  have n: "of_nat (length f) = n" by (simp add: assms(1) [symmetric])
  have le: "unat n \<le> length f" using assms(1) by simp
  show ?thesis
    unfolding deconstruct_dhcp_ack_def
  proof (intro runs_bind runs_parse [OF le], goal_cases)
    case 1
    then show ?case using assms by simp
  next
    case (2 v)
    note wf = 2(2) and vr = view_reads [OF 2(2)]
    have ack: "dhcp_is_acknoledge f (Some v) = dhcp_is_type f (Some v) 2 DHCP_ACKNOLEDGE"
      by (simp add: dhcp_is_acknoledge_def)
    obtain isack where isack: "dhcp_is_type f (Some v) 2 DHCP_ACKNOLEDGE = Some isack"
      by (simp add: dhcp_is_type_eq [OF wf])
    obtain x where x: "view_xid f v = Some x" using vr by (simp add: view_xid_def rd_be32_in)
    obtain rm where rm: "dhcp_get_option f (Some v) DHCP_OP_SUBNET_MASK = Some rm"
        "lookup_spec f v DHCP_OP_SUBNET_MASK rm"
      using view_lookup [OF wf] by blast
    obtain rr where rr: "dhcp_get_option f (Some v) DHCP_OP_ROUTER = Some rr"
        "lookup_spec f v DHCP_OP_ROUTER rr"
      using view_lookup [OF wf] by blast
    obtain rn where rn: "dhcp_get_option f (Some v) DHCP_OP_DOMAIN_NAME_SERVER = Some rn"
        "lookup_spec f v DHCP_OP_DOMAIN_NAME_SERVER rn"
      using view_lookup [OF wf] by blast
    obtain rs where rs: "dhcp_get_option f (Some v) DHCP_OP_SERVER_IDENTIFIER = Some rs"
        "lookup_spec f v DHCP_OP_SERVER_IDENTIFIER rs"
      using view_lookup [OF wf] by blast
    note look = rm(2) [unfolded lookup_spec_def] rr(2) [unfolded lookup_spec_def]
      rn(2) [unfolded lookup_spec_def] rs(2) [unfolded lookup_spec_def]
    have my: "rd_bytes f (dv_data v + 16) 4 = Some (take 4 (drop (dv_data v + 16) f))"
        "length (take 4 (drop (dv_data v + 16) f)) = 4"
      using vr by (simp_all add: rd_bytes_in)
    show ?case
      using assms my look rm(1) rr(1) rn(1) rs(1) 2(1) isack x
      by (auto simp: ack dhcp_message_in_def n wf_globals_def ack_globals_def
          split: option.splits if_splits prod.splits)
  qed
qed

section \<open>The frames that are sent\<close>

lemma dhcp_frame_headers_eq:
  fixes n :: u16
  assumes "length (g_MAC_ADDRESS g) = 6" "42 \<le> length b" "unat n \<le> 1240"
  shows "dhcp_frame_headers g n b =
           Some (replicate 6 0xff @ g_MAC_ADDRESS g @ [8, 0] @
                 ip_to_bytes (udp_ip_header source_ip destination_ip (unat n)) @
                 udp_segment 0x44 0x43 (n + 8) [0, 0] (drop 42 b))"
proof -
  let ?h = "udp_ip_header source_ip destination_ip (unat n)"
  define e where "e = replicate 6 0xff @ g_MAC_ADDRESS g @ [8, 0 :: u8]"
  have wf: "wf_ip ?h" by (simp add: wf_intros source_ip_def destination_ip_def)
  have l: "length e = 14" "length (ip_to_bytes ?h) = 20"
    using assms ip.length_enc [OF wf] by (simp_all add: e_def)
  have "hi8 0x0800 = 8" "lo8 0x0800 = 0" by (simp_all add: hi8_def lo8_def)
  then have s1: "set_ethernet_header (Some b) (Some (g_MAC_ADDRESS g)) (Some MAC_BROADCAST) 0x800 =
      Some (True, Some (e @ drop 14 b))"
    using assms by (simp add: set_ethernet_header_eq e_def MAC_BROADCAST_def)
  have s2: "with_off 14 (\<lambda>p. set_ipv4_header p 0x11 (n + 8) (Some source_ip) (Some destination_ip) 0 0x4000 128)
      (e @ drop 14 b) = Some (True, e @ ip_to_bytes ?h @ drop 34 b)"
    using assms l udp_ip_header_eq [of "drop 14 b" source_ip destination_ip n]
    by (intro with_off_at) (simp_all add: source_ip_def destination_ip_def add.commute)
  have s3: "with_off 34 (\<lambda>p. set_udp_header p 0x44 0x43 (n + 8)) (e @ ip_to_bytes ?h @ drop 34 b) =
      Some (True, e @ ip_to_bytes ?h @ udp_segment 0x44 0x43 (n + 8) [0, 0] (drop 42 b))"
    using with_off_at [of "e @ ip_to_bytes ?h" 34 "\<lambda>p. set_udp_header p 0x44 0x43 (n + 8)" "drop 34 b" True
        "udp_segment 0x44 0x43 (n + 8) [0, 0] (drop 42 b)"] assms l
    by (simp add: set_udp_header_eq)
  show ?thesis by (simp add: dhcp_frame_headers_def s1 s2 s3) (simp add: e_def)
qed

definition discover_frame :: "dhcp_globals \<Rightarrow> buf \<Rightarrow> buf" where
  "discover_frame g host = dhcp_client_frame (g_MAC_ADDRESS g) (g_xid g) source_ip destination_ip
     (dhcp_encode (discover_options (g_MAC_ADDRESS g) host))"

definition request_frame :: "dhcp_globals \<Rightarrow> buf \<Rightarrow> buf" where
  "request_frame g host = dhcp_client_frame (g_MAC_ADDRESS g) (g_xid g) source_ip destination_ip
     (dhcp_encode (request_options (g_MAC_ADDRESS g) (g_ip_client g) (g_ip_server g) host))"

lemma set_dhcp_discover_eq [layout_simps]:
  assumes "wf_globals g" "8 \<le> length host" "1282 \<le> length b"
  shows "set_dhcp_discover_message_with_host_name g (Some b) (Some l) (Some host) =
           Some (True, Some (discover_frame g host @ replicate 972 0 @ drop 1282 b), Some 310)"
proof -
  let ?o = "dhcp_encode (discover_options (g_MAC_ADDRESS g) host)"
  let ?m = "dhcp_client_fixed (g_MAC_ADDRESS g) (g_xid g) @ ?o @ replicate 972 0 @ drop 1282 b"
  have mac: "length (g_MAC_ADDRESS g) = 6" using assms by (simp add: wf_globals_def)
  have lo: "length ?o = 28" using mac assms by (simp add: length_discover_options)
  have off: "with_off 42 (\<lambda>p. map_option (\<lambda>(ok, p', dl). ((ok, dl), p'))
      (dhcp_message_discover (Some (g_MAC_ADDRESS g)) (g_xid g) (Some host) p (Some 0))) b =
      Some ((True, Some 268), take 42 b @ ?m)"
    using assms mac by (intro with_off_Some) (simp_all add: dhcp_message_discover_eq)
  have "dhcp_frame_headers g 268 (take 42 b @ ?m) =
      Some (discover_frame g host @ replicate 972 0 @ drop 1282 b)"
    using assms mac lo
    by (simp add: dhcp_frame_headers_eq discover_frame_def dhcp_client_frame_def dhcp_frame_of_def udp_segment_def)
  then show ?thesis
    by (simp add: set_dhcp_discover_message_with_host_name_def off)
qed

lemma set_dhcp_request_eq [layout_simps]:
  assumes "wf_globals g" "8 \<le> length host" "1282 \<le> length b"
  shows "set_dhcp_request_message_with_host_name g (Some b) (Some l) (Some host) =
           Some (True, Some (request_frame g host @ replicate 960 0 @ drop 1282 b), Some 322)"
proof -
  let ?o = "dhcp_encode (request_options (g_MAC_ADDRESS g) (g_ip_client g) (g_ip_server g) host)"
  let ?m = "dhcp_client_fixed (g_MAC_ADDRESS g) (g_xid g) @ ?o @ replicate 960 0 @ drop 1282 b"
  have len: "length (g_MAC_ADDRESS g) = 6" "length (g_ip_client g) = 4" "length (g_ip_server g) = 4"
    using assms by (simp_all add: wf_globals_def)
  have lo: "length ?o = 40" using len assms by (simp add: length_request_options)
  have off: "with_off 42 (\<lambda>p. map_option (\<lambda>(ok, p', dl). ((ok, dl), p'))
      (dhcp_message_request (Some (g_MAC_ADDRESS g)) (g_xid g) (Some (g_ip_client g))
         (Some (g_ip_server g)) (Some host) p (Some 0))) b =
      Some ((True, Some 280), take 42 b @ ?m)"
    using assms len by (intro with_off_Some) (simp_all add: dhcp_message_request_eq)
  have "dhcp_frame_headers g 280 (take 42 b @ ?m) =
      Some (request_frame g host @ replicate 960 0 @ drop 1282 b)"
    using assms len lo
    by (simp add: dhcp_frame_headers_eq request_frame_def dhcp_client_frame_def dhcp_frame_of_def udp_segment_def)
  then show ?thesis
    by (simp add: set_dhcp_request_message_with_host_name_def off)
qed

text \<open>A frame around a fixed part and options is read back as a message of that type.\<close>

lemma frame_of_message:
  fixes mac src dst fx :: buf and xs :: "(u8 \<times> buf) list"
  assumes "length mac = 6" "length src = 4" "length dst = 4"
    and "\<forall>(c, d) \<in> set xs. c \<noteq> 0 \<and> c \<noteq> 0xff \<and> length d < 256" "length (dhcp_encode xs) \<le> 1000"
    and "map_of xs DHCP_OP_DHCP_MESSAGE_TYPE = Some [type]"
    and "length fx = 240" "drop 236 fx = [0x63, 0x82, 0x53, 0x63]"
  defines "f \<equiv> dhcp_frame_of mac src dst fx (dhcp_encode xs)"
  defines "v \<equiv> \<lparr> dv_data = 42, dv_length = 240 + length (dhcp_encode xs), dv_options = 282,
                 dv_options_length = length (dhcp_encode xs) \<rparr>"
  shows "dhcp_message_in f v (fx ! 0) type (be32 (fx ! 4) (fx ! 5) (fx ! 6) (fx ! 7))"
    and "view_option f v opt = map_of xs opt"
proof -
  let ?o = "dhcp_encode xs"
  have tlv: "dhcp_tlv ?o = Some xs" using dhcp_tlv_encode [OF assms(4), of "[]"] by simp
  have lf: "length f = 282 + length ?o" using assms by (simp add: f_def length_dhcp_frame_of)
  have wfh: "wf_ip (udp_ip_header src dst (240 + length ?o))" using assms by (simp add: wf_intros)
  have parse: "dhcp_parse_message (Some f) (of_nat (length f)) = Some (True, Some v)"
    using parse_dhcp_frame_of [of mac src dst ?o fx "[]"] assms tlv lf by (simp add: f_def v_def)
  define p where "p = replicate 6 0xff @ mac @ [8, 0] @ ip_to_bytes (udp_ip_header src dst (240 + length ?o)) @
      [hi8 0x44, lo8 0x44, hi8 0x43, lo8 0x43, hi8 (of_nat (248 + length ?o)), lo8 (of_nat (248 + length ?o)),
       0, 0]"
  have split: "f = p @ fx @ ?o"
    using assms by (simp add: f_def p_def dhcp_frame_of_def udp_segment_def)
  have lp: "length p = 42" using assms ip.length_enc [OF wfh] by (simp add: p_def)
  have opts: "drop 282 f = ?o" using lp assms(7) by (subst split) simp
  have wf: "wf_view f (length f) v" using lf tlv by (simp add: wf_view_def v_def opts)
  show vo: "view_option f v opt = map_of xs opt" for opt
    by (simp add: view_option_def v_def opts tlv)
  have nth: "f ! (42 + k) = fx ! k" if "k < 240" for k
    using that lp assms(7) by (subst split) (simp add: nth_append)
  have "dhcp_is_type f (Some v) (fx ! 0) type = Some True"
    using vo [of DHCP_OP_DHCP_MESSAGE_TYPE] assms(6) nth [of 0]
    by (simp add: dhcp_is_type_eq [OF wf]) (simp add: v_def)
  moreover have "view_xid f v = Some (be32 (fx ! 4) (fx ! 5) (fx ! 6) (fx ! 7))"
    using lf nth [of 4] nth [of 5] nth [of 6] nth [of 7]
    by (simp add: view_xid_def v_def rd_be32_in)
  ultimately show "dhcp_message_in f v (fx ! 0) type (be32 (fx ! 4) (fx ! 5) (fx ! 6) (fx ! 7))"
    using parse by (simp add: dhcp_message_in_def)
qed

lemma client_frame_message:
  assumes "length mac = 6" "length src = 4" "length dst = 4"
    and "\<forall>(c, d) \<in> set xs. c \<noteq> 0 \<and> c \<noteq> 0xff \<and> length d < 256" "length (dhcp_encode xs) \<le> 1000"
    and "map_of xs DHCP_OP_DHCP_MESSAGE_TYPE = Some [type]"
  shows "\<exists>v. dhcp_message_in (dhcp_client_frame mac xid src dst (dhcp_encode xs)) v 1 type xid \<and>
           (\<forall>opt. view_option (dhcp_client_frame mac xid src dst (dhcp_encode xs)) v opt = map_of xs opt)"
proof -
  let ?fx = "dhcp_client_fixed mac xid"
  have fx: "length ?fx = 240" "drop 236 ?fx = [0x63, 0x82, 0x53, 0x63]" "?fx ! 0 = 1"
      "be32 (?fx ! 4) (?fx ! 5) (?fx ! 6) (?fx ! 7) = xid"
    using assms(1) be32_bytes [of xid] by (simp_all add: dhcp_client_fixed_def del: be32_bytes)
  from frame_of_message [OF assms fx(1,2)] show ?thesis
    unfolding fx(3,4) dhcp_client_frame_def by blast
qed

end
