(* ===== verification/Dora.thy ===== *)
theory Dora
  imports Dhcp_Client
begin

text \<open>
  The DORA exchange of \<open>modules/dhcp_protocol.c\<close> as a state machine: the states its loop can reach
  from its start whatever the network delivers, the invariant they satisfy, and what the caller
  may rely on.
\<close>

section \<open>Reachable states\<close>

text \<open>
  \<open>dora_reach host s0 rx s\<close>: the loop can be in state \<open>s\<close> after the frames \<open>rx\<close> came in. A frame
  fits the receive buffer, which is what \<open>receive_packet\<close> guarantees for the size it is given.
\<close>

inductive dora_reach :: "buf ptr \<Rightarrow> dora \<Rightarrow> buf list \<Rightarrow> dora \<Rightarrow> bool" for host s0 where
  dora_begin: "dora_reach host s0 [] s0"
| dora_pass: "dora_reach host s0 rx s \<Longrightarrow> \<not> dora_stops inp s \<Longrightarrow> length (in_frame inp) \<le> 1518 \<Longrightarrow>
    dora_body host inp s = Some s' \<Longrightarrow> dora_reach host s0 (rx @ [in_frame inp]) s'"

inductive_cases dora_reachE: "dora_reach host s0 rx s"

definition offered :: "u32 \<Rightarrow> buf list \<Rightarrow> buf \<Rightarrow> buf \<Rightarrow> bool" where
  "offered xid rx client server \<longleftrightarrow>
     (\<exists>f \<in> set rx. \<exists>v. dhcp_message_in f v 2 DHCP_OFFER xid \<and>
        client = take 4 (drop (dv_data v + 16) f) \<and>
        view_option f v DHCP_OP_SERVER_IDENTIFIER = Some server)"

definition acknowledged :: "u32 \<Rightarrow> buf list \<Rightarrow> dhcp_globals \<Rightarrow> bool" where
  "acknowledged xid rx g \<longleftrightarrow>
     (\<exists>f \<in> set rx. \<exists>v. dhcp_message_in f v 2 DHCP_ACKNOLEDGE xid \<and>
        g_myip g = take 4 (drop (dv_data v + 16) f) \<and>
        view_option f v DHCP_OP_SUBNET_MASK = Some (g_subnet_mask g) \<and>
        map_option (take 4) (view_option f v DHCP_OP_ROUTER) = Some (g_gateway g))"

definition proper_frame :: "u32 \<Rightarrow> buf list \<Rightarrow> buf \<Rightarrow> bool" where
  "proper_frame xid rx f \<longleftrightarrow>
     (\<exists>v. dhcp_message_in f v 1 DHCP_DISCOVER xid) \<or>
     (\<exists>v client server. dhcp_message_in f v 1 DHCP_REQUEST xid \<and>
        view_option f v DHCP_OP_REQUESTED_IP = Some client \<and>
        view_option f v DHCP_OP_SERVER_IDENTIFIER = Some server \<and> offered xid rx client server)"

definition dora_inv :: "u32 \<Rightarrow> buf list \<Rightarrow> dora \<Rightarrow> bool" where
  "dora_inv xid rx s \<longleftrightarrow>
     wf_globals (do_globals s) \<and> g_xid (do_globals s) = xid \<and> length (do_tx_buffer s) = 1518 \<and>
     \<not> do_failed s \<and> (do_ret s \<longleftrightarrow> do_state s = DHCP_OK) \<and> do_state s \<noteq> DHCP_FAIL \<and>
     (do_state s = DHCP_STATE_REQUEST \<longrightarrow>
        offered xid rx (g_ip_client (do_globals s)) (g_ip_server (do_globals s))) \<and>
     (\<forall>f \<in> set (do_sent s). proper_frame xid rx f) \<and>
     (do_ret s \<longrightarrow> acknowledged xid rx (do_globals s) \<and>
        do_chip_subnet_mask s = g_subnet_mask (do_globals s) \<and>
        do_mac_router s = g_MAC_DESTINATION (do_globals s))"

lemma offered_more: "offered xid rx c s \<Longrightarrow> offered xid (rx @ rx') c s"
  by (auto simp: offered_def)

lemma proper_frame_more: "proper_frame xid rx f \<Longrightarrow> proper_frame xid (rx @ rx') f"
  unfolding proper_frame_def by (blast intro: offered_more)

lemma offered_mono: "offered xid rx c s \<Longrightarrow> set rx \<subseteq> set rx' \<Longrightarrow> offered xid rx' c s"
  unfolding offered_def by blast

lemma acknowledged_mono: "acknowledged xid rx g \<Longrightarrow> set rx \<subseteq> set rx' \<Longrightarrow> acknowledged xid rx' g"
  unfolding acknowledged_def by blast

lemma offered_append: "offered xid rx' c s \<Longrightarrow> offered xid (rx @ rx') c s"
  by (auto simp: offered_def)

lemma acknowledged_append: "acknowledged xid rx' g \<Longrightarrow> acknowledged xid (rx @ rx') g"
  by (auto simp: acknowledged_def)

lemma offer_runs:
  assumes "unat n = length f" "wf_globals g"
  shows "runs (deconstruct_dhcp_offer g f n)
           (\<lambda>(ok, g1). wf_globals g1 \<and> g_xid g1 = g_xid g \<and> (\<not> ok \<longrightarrow> g1 = g) \<and>
              (ok \<longrightarrow> offered (g_xid g) [f] (g_ip_client g1) (g_ip_server g1)))"
  by (rule runs_mono [OF deconstruct_dhcp_offer_runs [OF assms]]) (auto simp: offered_def)

lemma ack_runs:
  assumes "unat n = length f" "wf_globals g"
  shows "runs (deconstruct_dhcp_ack g f n)
           (\<lambda>(ok, g1). wf_globals g1 \<and> g_xid g1 = g_xid g \<and> (\<not> ok \<longrightarrow> g1 = g) \<and>
              (ok \<longrightarrow> acknowledged (g_xid g) [f] g1))"
  by (rule runs_mono [OF deconstruct_dhcp_ack_runs [OF assms]])
    (auto simp: acknowledged_def ack_globals_def)

lemma discover_frame_message:
  assumes "wf_globals g" "length host = 8"
  shows "\<exists>v. dhcp_message_in (discover_frame g host) v 1 DHCP_DISCOVER (g_xid g)"
proof -
  let ?xs = "discover_options (g_MAC_ADDRESS g) host"
  have mac: "length (g_MAC_ADDRESS g) = 6" using assms by (simp add: wf_globals_def)
  have "\<forall>(c, d) \<in> set ?xs. c \<noteq> 0 \<and> c \<noteq> 0xff \<and> length d < 256"
    using mac assms by (auto simp: discover_options_def dhcp_codes)
  moreover have "length (dhcp_encode ?xs) \<le> 1000" using mac assms by (simp add: length_discover_options)
  moreover have "map_of ?xs DHCP_OP_DHCP_MESSAGE_TYPE = Some [DHCP_DISCOVER]"
    by (simp add: discover_options_def)
  moreover have "length source_ip = 4" "length destination_ip = 4"
    by (simp_all add: source_ip_def destination_ip_def)
  ultimately show ?thesis
    unfolding discover_frame_def using client_frame_message [OF mac] by blast
qed

lemma request_frame_message:
  assumes "wf_globals g" "length host = 8"
  shows "\<exists>v. dhcp_message_in (request_frame g host) v 1 DHCP_REQUEST (g_xid g) \<and>
           view_option (request_frame g host) v DHCP_OP_REQUESTED_IP = Some (g_ip_client g) \<and>
           view_option (request_frame g host) v DHCP_OP_SERVER_IDENTIFIER = Some (g_ip_server g)"
proof -
  let ?xs = "request_options (g_MAC_ADDRESS g) (g_ip_client g) (g_ip_server g) host"
  have len: "length (g_MAC_ADDRESS g) = 6" "length (g_ip_client g) = 4" "length (g_ip_server g) = 4"
    using assms by (simp_all add: wf_globals_def)
  have ok: "\<forall>(c, d) \<in> set ?xs. c \<noteq> 0 \<and> c \<noteq> 0xff \<and> length d < 256"
    using len assms by (auto simp: request_options_def dhcp_codes)
  have le: "length (dhcp_encode ?xs) \<le> 1000" using len assms by (simp add: length_request_options)
  have ty: "map_of ?xs DHCP_OP_DHCP_MESSAGE_TYPE = Some [DHCP_REQUEST]"
    by (simp add: request_options_def)
  have opts: "map_of ?xs DHCP_OP_REQUESTED_IP = Some (g_ip_client g)"
      "map_of ?xs DHCP_OP_SERVER_IDENTIFIER = Some (g_ip_server g)"
    using len by (simp_all add: request_options_def dhcp_codes)
  have l4: "length source_ip = 4" "length destination_ip = 4"
    by (simp_all add: source_ip_def destination_ip_def)
  show ?thesis
    unfolding request_frame_def
    using client_frame_message [OF len(1) l4 ok le ty, of "g_xid g"] opts by auto
qed

lemma length_frames:
  assumes "wf_globals g" "length host = 8"
  shows "length (discover_frame g host) = 310" "length (request_frame g host) = 322"
  using assms
  by (simp_all add: discover_frame_def request_frame_def length_dhcp_client_frame source_ip_def
      destination_ip_def length_discover_options length_request_options wf_globals_def)

lemma dora_send_eq:
  assumes "built = Some (True, Some (f @ r), Some l)" "length f = unat l" "length (f @ r) = 1518"
  shows "dora_send inp built s =
           Some (s\<lparr> do_sent := do_sent s @ [f], do_tx_buffer := replicate 1518 0, do_length := l,
                   do_current_time := in_tick_set inp, do_state := DHCP_STATE_WAITING \<rparr>)"
  using assms by (simp add: dora_send_def rd_bytes_def wr_bytes_def)

text \<open>Every pass keeps the invariant and stays inside the buffers.\<close>

lemma dora_body_inv:
  assumes "dora_inv xid rx s" "length host = 8" "length (in_frame inp) \<le> 1518" "\<not> dora_stops inp s"
  shows "runs (dora_body (Some host) inp s) (dora_inv xid (rx @ [in_frame inp]))"
proof -
  let ?g = "do_globals s" and ?f = "in_frame inp"
  have wf: "wf_globals ?g" and tx: "length (do_tx_buffer s) = 1518" and ret: "\<not> do_ret s"
    and st: "do_state s \<noteq> DHCP_FAIL" "do_state s \<noteq> DHCP_OK"
    and sent: "\<forall>f \<in> set (do_sent s). proper_frame xid (rx @ [?f]) f"
    using assms by (auto simp: dora_inv_def dora_stops_def intro: proper_frame_more)
  show ?thesis
  proof (cases "do_state s")
    case DHCP_STATE_INIT
    have "proper_frame xid (rx @ [?f]) (discover_frame ?g host)"
      using discover_frame_message [OF wf assms(2)] assms(1) by (auto simp: proper_frame_def dora_inv_def)
    then show ?thesis
      using assms DHCP_STATE_INIT wf tx sent ret
      by (simp add: dora_body_def set_dhcp_discover_eq)
        (subst dora_send_eq, auto simp: length_frames dora_inv_def)
  next
    case DHCP_STATE_REQUEST
    then have "offered xid rx (g_ip_client ?g) (g_ip_server ?g)" using assms(1) by (simp add: dora_inv_def)
    then have "proper_frame xid (rx @ [?f]) (request_frame ?g host)"
      using request_frame_message [OF wf assms(2)] assms(1)
      by (fastforce simp: proper_frame_def dora_inv_def intro: offered_more)
    then show ?thesis
      using assms DHCP_STATE_REQUEST wf tx sent ret
      by (simp add: dora_body_def set_dhcp_request_eq)
        (subst dora_send_eq, auto simp: length_frames dora_inv_def)
  next
    case DHCP_STATE_WAITING
    let ?n = "of_nat (length ?f) :: u16"
    have n: "unat ?n = length ?f" using assms(3) by (intro unat_of_nat_u16) simp
    have xid: "g_xid ?g = xid" using assms(1) by (simp add: dora_inv_def)
    obtain ok g1 where off: "deconstruct_dhcp_offer ?g ?f ?n = Some (ok, g1)" "wf_globals g1"
        "g_xid g1 = xid" "\<not> ok \<longrightarrow> g1 = ?g"
        "ok \<longrightarrow> offered xid (rx @ [?f]) (g_ip_client g1) (g_ip_server g1)"
      using offer_runs [OF n wf] by (auto simp: runs_iff xid intro: offered_append)
    show ?thesis
    proof (cases "?n > 0 \<and> \<not> ok")
      case False
      then show ?thesis
        using assms DHCP_STATE_WAITING sent tx ret wf off
        by (auto simp: dora_body_def dora_receive_def Let_def dora_inv_def)
    next
      case True
      then have g1: "g1 = ?g" using off(4) by simp
      obtain ok2 g2 where "deconstruct_dhcp_ack g1 ?f ?n = Some (ok2, g2)" "wf_globals g2"
          "g_xid g2 = xid" "\<not> ok2 \<longrightarrow> g2 = ?g" "ok2 \<longrightarrow> acknowledged xid (rx @ [?f]) g2"
        unfolding g1 using ack_runs [OF n wf] by (auto simp: runs_iff xid intro: acknowledged_append)
      then show ?thesis
        using True assms DHCP_STATE_WAITING sent tx ret wf off
        by (auto simp: dora_body_def dora_receive_def Let_def dora_inv_def get_subnet_mask_def)
    qed
  qed (use st in simp_all)
qed

lemma dora_start_inv:
  assumes "wf_globals g" "length mac = 6" "length tx = 1518"
  shows "dora_inv random [] (dora_start g mac now random tx chip_mask router)"
  using assms by (simp add: dora_inv_def dora_start_def set_mac_address_def wf_globals_def)

lemma dora_reach_inv:
  assumes "dora_reach (Some host) s0 rx s" "dora_inv xid [] s0" "length host = 8"
  shows "dora_inv xid rx s"
  using assms(1)
proof induction
  case dora_begin
  show ?case by (rule assms(2))
next
  case (dora_pass rx s inp s')
  from dora_body_inv [OF dora_pass.IH assms(3) dora_pass.hyps(3,2)] dora_pass.hyps(4)
  show ?case by simp
qed

text \<open>The loop only visits reachable states, and it never leaves memory.\<close>

lemma dora_loop_reach:
  assumes "dora_reach (Some host) s0 rx s" "dora_inv xid [] s0" "length host = 8"
    and "\<forall>inp \<in> set inps. length (in_frame inp) \<le> 1518"
  shows "\<exists>left rx' s'. dora_loop (Some host) inps s = Some (left, s') \<and>
           dora_reach (Some host) s0 (rx @ rx') s' \<and> set rx' \<subseteq> in_frame ` set inps"
  using assms(1,4)
proof (induction inps arbitrary: rx s)
  case Nil
  then show ?case by (auto intro: exI [of _ "[]"])
next
  case (Cons inp inps)
  show ?case
  proof (cases "dora_stops inp s")
    case True
    then show ?thesis using Cons.prems(1) by (auto intro!: exI [of _ "[]"])
  next
    case False
    have inv: "dora_inv xid rx s" by (rule dora_reach_inv [OF Cons.prems(1) assms(2,3)])
    obtain s1 where s1: "dora_body (Some host) inp s = Some s1"
      using dora_body_inv [OF inv assms(3) _ False] Cons.prems(2) by (auto simp: runs_iff)
    have "dora_reach (Some host) s0 (rx @ [in_frame inp]) s1"
      using dora_pass [OF Cons.prems(1) False _ s1] Cons.prems(2) by simp
    from Cons.IH [OF this] Cons.prems(2) obtain left rx' s' where
      "dora_loop (Some host) inps s1 = Some (left, s')"
      "dora_reach (Some host) s0 ((rx @ [in_frame inp]) @ rx') s'" "set rx' \<subseteq> in_frame ` set inps"
      by auto
    then show ?thesis
      using False s1 by (intro exI [of _ left] exI [of _ "in_frame inp # rx'"] exI [of _ s']) auto
  qed
qed

text \<open>A pass that sends moves the clock forward, so the loop leaves once the deadline has passed.\<close>

lemma dora_loop_deadline:
  assumes "do_current_time s + 10000 < in_tick inp"
  shows "dora_loop host (inp # inps) s = Some (True, s)"
  using assms by (simp add: dora_stops_def)

section \<open>A complete exchange\<close>

text \<open>A view the parser accepted is well formed, and the lookups on it succeed on what it carries.\<close>

lemma message_view:
  assumes "dhcp_message_in f v operation type xid" "length f < 65536"
  shows "wf_view f (length f) v"
proof -
  have n: "unat (of_nat (length f) :: u16) = length f" using assms(2) by (rule unat_of_nat_u16)
  have "runs (dhcp_parse_message (Some f) (of_nat (length f)))
          (\<lambda>r. \<forall>v. r = (True, Some v) \<longrightarrow> wf_view f (length f) v)"
    by (rule runs_parse) (simp_all add: n)
  then show ?thesis using assms(1) by (auto simp: dhcp_message_in_def)
qed

lemma view_lookup_four:
  assumes "wf_view f n v" "view_option f v opt = Some s" "length s = 4"
  shows "\<exists>p. dhcp_get_option f (Some v) opt = Some (Some (p, 4)) \<and> rd_bytes f p 4 = Some s"
proof -
  have "runs (dhcp_get_option f (Some v) opt) (\<lambda>r. \<exists>p. r = Some (p, 4) \<and> rd_bytes f p 4 = Some s)"
  proof (rule runs_get_option [OF assms(1)], goal_cases)
    case (2 p l)
    then have s: "s = take (unat l) (drop p f)" using assms(2) by simp
    then have "unat l = 4" using assms(3) 2 by simp
    then have "l = 4" by (intro unsigned_word_eqI [where 'a = nat]) simp
    with s 2 show ?case by (simp add: rd_bytes_in)
  qed (use assms in simp)
  then show ?thesis by (auto simp: runs_iff)
qed

text \<open>An option of addresses, as the acknowledgement handler takes them: at least one, none cut short.\<close>

definition address_list :: "buf \<Rightarrow> bool" where
  "address_list s \<longleftrightarrow> 4 \<le> length s \<and> length s mod 4 = 0"

lemma view_lookup_list:
  assumes "wf_view f n v" "view_option f v opt = Some s" "address_list s"
  shows "\<exists>p l. dhcp_get_option f (Some v) opt = Some (Some (p, l)) \<and> \<not> l < 4 \<and> l mod 4 = 0 \<and>
           rd_bytes f p 4 = Some (take 4 s)"
proof -
  have "runs (dhcp_get_option f (Some v) opt) (\<lambda>r. \<exists>p l. r = Some (p, l) \<and> \<not> l < 4 \<and> l mod 4 = 0 \<and>
          rd_bytes f p 4 = Some (take 4 s))"
  proof (rule runs_get_option [OF assms(1)], goal_cases)
    case (2 p l)
    then have s: "s = take (unat l) (drop p f)" "unat l = length s" using assms(2) by auto
    have "4 \<le> unat l" "unat l mod 4 = 0" using assms(3) s(2) by (simp_all add: address_list_def)
    then have "\<not> l < 4" "l mod 4 = 0"
      by (simp_all add: word_less_nat_alt unat_eq_0 [symmetric] unat_mod)
    moreover have "take 4 (drop p f) = take 4 s"
      unfolding s(1) using \<open>4 \<le> unat l\<close> by (simp add: min_absorb1)
    ultimately show ?case using 2 \<open>4 \<le> unat l\<close> by (simp add: rd_bytes_in)
  qed (use assms in simp)
  then show ?thesis unfolding runs_iff by (elim exE conjE) (hypsubst, intro exI conjI)
qed

lemma deconstruct_dhcp_offer_accepts:
  assumes "dhcp_message_in f v 2 DHCP_OFFER (g_xid g)" "length f < 65536"
    and "view_option f v DHCP_OP_SERVER_IDENTIFIER = Some server" "length server = 4"
  shows "deconstruct_dhcp_offer g f (of_nat (length f)) =
           Some (True, g\<lparr> g_MAC_DESTINATION := take 6 (drop 6 f),
                          g_ip_client := take 4 (drop (dv_data v + 16) f), g_ip_server := server \<rparr>)"
proof -
  note wf = message_view [OF assms(1,2)]
  obtain p where "dhcp_get_option f (Some v) DHCP_OP_SERVER_IDENTIFIER = Some (Some (p, 4))"
      "rd_bytes f p 4 = Some server"
    using view_lookup_four [OF wf assms(3,4)] by blast
  then show ?thesis
    using assms(1) view_reads [OF wf]
    by (simp add: deconstruct_dhcp_offer_def dhcp_message_in_def dhcp_is_offer_def rd_bytes_in)
qed

lemma deconstruct_dhcp_ack_accepts:
  assumes "dhcp_message_in f v 2 DHCP_ACKNOLEDGE (g_xid g)" "length f < 65536"
    and "view_option f v DHCP_OP_SUBNET_MASK = Some m" "length m = 4"
    and "view_option f v DHCP_OP_ROUTER = Some r" "address_list r"
    and "\<forall>d. view_option f v DHCP_OP_DOMAIN_NAME_SERVER = Some d \<longrightarrow> address_list d"
    and "view_option f v DHCP_OP_SERVER_IDENTIFIER = Some server" "length server = 4"
  shows "deconstruct_dhcp_ack g f (of_nat (length f)) =
           Some (True, g\<lparr> g_myip := take 4 (drop (dv_data v + 16) f), g_subnet_mask := m,
                          g_gateway := take 4 r,
                          g_dns_server := case_option [0, 0, 0, 0] (take 4)
                                            (view_option f v DHCP_OP_DOMAIN_NAME_SERVER),
                          g_dhcp_server_ip := server \<rparr>)"
proof -
  note wf = message_view [OF assms(1,2)]
  obtain pm where pm: "dhcp_get_option f (Some v) DHCP_OP_SUBNET_MASK = Some (Some (pm, 4))"
      "rd_bytes f pm 4 = Some m"
    using view_lookup_four [OF wf assms(3,4)] by blast
  obtain pr lr where pr: "dhcp_get_option f (Some v) DHCP_OP_ROUTER = Some (Some (pr, lr))"
      "\<not> lr < 4" "lr mod 4 = 0" "rd_bytes f pr 4 = Some (take 4 r)"
    using view_lookup_list [OF wf assms(5,6)] by (elim exE conjE) (rule that)
  obtain ps where ps: "dhcp_get_option f (Some v) DHCP_OP_SERVER_IDENTIFIER = Some (Some (ps, 4))"
      "rd_bytes f ps 4 = Some server"
    using view_lookup_four [OF wf assms(8,9)] by blast
  show ?thesis
  proof (cases "view_option f v DHCP_OP_DOMAIN_NAME_SERVER")
    case None
    then have "dhcp_get_option f (Some v) DHCP_OP_DOMAIN_NAME_SERVER = Some None"
      using runs_get_option [OF wf, of DHCP_OP_DOMAIN_NAME_SERVER "\<lambda>r. r = None"] by (auto simp: runs_iff)
    then show ?thesis
      using assms(1) view_reads [OF wf] pm pr ps None
      by (simp add: deconstruct_dhcp_ack_def dhcp_message_in_def dhcp_is_acknoledge_def rd_bytes_in)
  next
    case (Some d)
    then obtain pd ld where "dhcp_get_option f (Some v) DHCP_OP_DOMAIN_NAME_SERVER = Some (Some (pd, ld))"
      "\<not> ld < 4" "ld mod 4 = 0" "rd_bytes f pd 4 = Some (take 4 d)"
      using view_lookup_list [OF wf Some assms(7) [rule_format, OF Some]] by (elim exE conjE) (rule that)
    then show ?thesis
      using assms(1) view_reads [OF wf] pm pr ps Some
      by (simp add: deconstruct_dhcp_ack_def dhcp_message_in_def dhcp_is_acknoledge_def rd_bytes_in)
  qed
qed

section \<open>Properties\<close>

text \<open>
  C1. The DHCP client is safe against any server: whatever frames arrive, in whatever order,
  \<open>flipper_process_dora_with_host_name\<close> never leaves its buffers; every frame it sends is a
  DISCOVER, or a REQUEST that names the address and the server of an OFFER it received, both
  with its own transaction id; and when it reports success, the address, router and mask it hands
  out come from an acknowledgement it received with that transaction id.
\<close>

theorem dora_exchange_safe:
  assumes "wf_globals g" "length chip_mac = 6" "length tx = 1518" "length host = 8"
    and "\<forall>inp \<in> set inps. length (in_frame inp) \<le> 1518"
  shows "\<exists>ok s ip router bc.
           flipper_process_dora_with_host_name g chip_mac now random tx chip_mask bc0 ip0 router0
             mac0 (Some host) inps = Some (ok, s, ip, router, bc) \<and> bc = bc0 \<and>
           (\<forall>f \<in> set (do_sent s). proper_frame random (map in_frame inps) f) \<and>
           (\<not> ok \<longrightarrow> ip = ip0 \<and> router = router0) \<and>
           (ok \<longrightarrow> acknowledged random (map in_frame inps) (do_globals s) \<and>
                   ip = g_myip (do_globals s) \<and> router = g_gateway (do_globals s) \<and>
                   do_chip_subnet_mask s = g_subnet_mask (do_globals s))"
proof -
  let ?s0 = "dora_start g chip_mac now random tx chip_mask mac0"
  have inv0: "dora_inv random [] ?s0" using assms by (intro dora_start_inv)
  obtain left rx s where s: "dora_loop (Some host) inps ?s0 = Some (left, s)"
      "dora_reach (Some host) ?s0 rx s" "set rx \<subseteq> in_frame ` set inps"
    using dora_loop_reach [OF dora_begin inv0 assms(4,5)] by auto
  have inv: "dora_inv random rx s" by (rule dora_reach_inv [OF s(2) inv0 assms(4)])
  have off: "offered random (map in_frame inps) c d" if "offered random rx c d" for c d
    using offered_mono [OF that] s(3) by simp
  have sent: "\<forall>f \<in> set (do_sent s). proper_frame random (map in_frame inps) f"
    using inv off unfolding dora_inv_def proper_frame_def by blast
  have ack: "acknowledged random (map in_frame inps) (do_globals s)" if "do_ret s"
    using that inv s(3) acknowledged_mono [of random rx "do_globals s" "map in_frame inps"]
    by (simp add: dora_inv_def)
  show ?thesis
    using s(1) sent ack inv
    by (cases "do_ret s") (auto simp: flipper_process_dora_with_host_name_def Let_def dora_inv_def)
qed

theorem dora_exchange_safe_witness:
  "\<exists>ok s ip router bc.
     flipper_process_dora_with_host_name
       \<lparr> g_MAC_ADDRESS = [0, 0, 0, 0, 0, 0], g_MAC_DESTINATION = [0, 0, 0, 0, 0, 0], g_xid = 0,
         g_gateway = [0, 0, 0, 0], g_dns_server = [0, 0, 0, 0], g_subnet_mask = [0, 0, 0, 0],
         g_dhcp_server_ip = [0, 0, 0, 0], g_myip = [0, 0, 0, 0], g_ip_client = [0, 0, 0, 0],
         g_ip_server = [0, 0, 0, 0] \<rparr>
       [2, 0, 0, 0, 0, 1] 0 77 (replicate 1518 0) [0, 0, 0, 0] False [0, 0, 0, 0] [0, 0, 0, 0]
       [0, 0, 0, 0, 0, 0] (Some [70, 108, 105, 112, 112, 97, 32, 48])
       [\<lparr> in_link_up = True, in_cancel = False, in_tick = 5, in_tick_set = 6, in_frame = [] \<rparr>] =
       Some (ok, s, ip, router, bc) \<and>
     (\<forall>f \<in> set (do_sent s). proper_frame 77 [[]] f)"
proof -
  let ?g = "\<lparr> g_MAC_ADDRESS = [0, 0, 0, 0, 0, 0], g_MAC_DESTINATION = [0, 0, 0, 0, 0, 0], g_xid = 0,
         g_gateway = [0, 0, 0, 0], g_dns_server = [0, 0, 0, 0], g_subnet_mask = [0, 0, 0, 0],
         g_dhcp_server_ip = [0, 0, 0, 0], g_myip = [0, 0, 0, 0], g_ip_client = [0, 0, 0, 0],
         g_ip_server = [0, 0, 0, 0] \<rparr>"
  let ?i = "[\<lparr> in_link_up = True, in_cancel = False, in_tick = 5, in_tick_set = 6, in_frame = [] \<rparr>]"
  have "wf_globals ?g" by (simp add: wf_globals_def)
  moreover have "length ([2, 0, 0, 0, 0, 1] :: buf) = 6" "length (replicate 1518 (0 :: u8)) = 1518"
      "length ([70, 108, 105, 112, 112, 97, 32, 48] :: buf) = 8"
      "\<forall>inp \<in> set ?i. length (in_frame inp) \<le> 1518"
    by simp_all
  ultimately show ?thesis
    using dora_exchange_safe [of ?g "[2, 0, 0, 0, 0, 1]" "replicate 1518 0"
        "[70, 108, 105, 112, 112, 97, 32, 48]" ?i 0 77 "[0, 0, 0, 0]" False "[0, 0, 0, 0]"
        "[0, 0, 0, 0]" "[0, 0, 0, 0, 0, 0]"]
    unfolding list.map dora_input.select_convs by blast
qed

text \<open>
  C2. The exchange completes: with the link up, no cancel and each pass inside the ten-second
  window, a server whose frame in the second pass is a matching OFFER with a server identifier of 4
  bytes and whose frame in the fourth is a matching acknowledgement gets the client to succeed after
  four passes and two frames. The acknowledgement carries a mask and a server identifier of 4 bytes and
  one or more routers, and with or without name servers the client holds the acknowledged address,
  the mask, the first router and the first name server, or none.
\<close>

theorem dora_exchange_completes:
  assumes "wf_globals g" "length chip_mac = 6" "length tx = 1518" "length host = 8"
    and "\<forall>i \<in> {i0, i1, i2, i3}. in_link_up i \<and> \<not> in_cancel i"
    and "in_tick i0 \<le> now + 10000" "in_tick i1 \<le> in_tick_set i0 + 10000"
    and "in_tick i2 \<le> in_tick_set i1 + 10000" "in_tick i3 \<le> in_tick_set i2 + 10000"
    and "0 < length (in_frame i1)" "length (in_frame i1) \<le> 1518"
    and "dhcp_message_in (in_frame i1) v1 2 DHCP_OFFER random"
    and "view_option (in_frame i1) v1 DHCP_OP_SERVER_IDENTIFIER = Some server" "length server = 4"
    and "0 < length (in_frame i3)" "length (in_frame i3) \<le> 1518"
    and "dhcp_message_in (in_frame i3) v3 2 DHCP_ACKNOLEDGE random"
    and "view_option (in_frame i3) v3 DHCP_OP_SUBNET_MASK = Some m" "length m = 4"
    and "view_option (in_frame i3) v3 DHCP_OP_ROUTER = Some r" "address_list r"
    and "\<forall>d. view_option (in_frame i3) v3 DHCP_OP_DOMAIN_NAME_SERVER = Some d \<longrightarrow> address_list d"
    and "view_option (in_frame i3) v3 DHCP_OP_SERVER_IDENTIFIER = Some server3" "length server3 = 4"
  shows "\<exists>s. flipper_process_dora_with_host_name g chip_mac now random tx chip_mask bc ip0 router0 mac0
               (Some host) [i0, i1, i2, i3] =
               Some (True, s, take 4 (drop (dv_data v3 + 16) (in_frame i3)), take 4 r, bc) \<and>
             do_chip_subnet_mask s = m \<and> length (do_sent s) = 2 \<and>
             g_dns_server (do_globals s) =
               case_option [0, 0, 0, 0] (take 4) (view_option (in_frame i3) v3 DHCP_OP_DOMAIN_NAME_SERVER) \<and>
             do_mac_router s = take 6 (drop 6 (in_frame i1))"
proof -
  let ?s0 = "dora_start g chip_mac now random tx chip_mask mac0"
  let ?g0 = "do_globals ?s0"
  let ?f1 = "in_frame i1" and ?f3 = "in_frame i3"
  have g0: "wf_globals ?g0" "g_xid ?g0 = random"
    using assms(1,2) by (simp_all add: dora_start_def set_mac_address_def wf_globals_def)
  have nz: "0 < (of_nat (length f) :: u16)" if "0 < length f" "length f \<le> 1518" for f :: buf
    using that by (simp add: word_less_nat_alt unat_of_nat_u16)
  have st0: "do_state ?s0 = DHCP_STATE_INIT" "do_tx_buffer ?s0 = tx" "\<not> do_ret ?s0" "\<not> do_failed ?s0"
      "do_current_time ?s0 = now" "do_sent ?s0 = []"
    by (simp_all add: dora_start_def)
  define s1 where "s1 = ?s0\<lparr> do_sent := [discover_frame ?g0 host], do_tx_buffer := replicate 1518 0,
      do_length := 310, do_current_time := in_tick_set i0, do_state := DHCP_STATE_WAITING \<rparr>"
  have p0: "dora_body (Some host) i0 ?s0 = Some s1"
    using assms(3,4) g0 st0
    by (simp add: dora_body_def set_dhcp_discover_eq) (subst dora_send_eq, auto simp: length_frames s1_def)
  define g1 where "g1 = ?g0\<lparr> g_MAC_DESTINATION := take 6 (drop 6 ?f1),
      g_ip_client := take 4 (drop (dv_data v1 + 16) ?f1), g_ip_server := server \<rparr>"
  have off: "deconstruct_dhcp_offer ?g0 ?f1 (of_nat (length ?f1)) = Some (True, g1)"
    unfolding g1_def using assms(11-14) g0 by (intro deconstruct_dhcp_offer_accepts) simp_all
  define s2 where "s2 = s1\<lparr> do_length := of_nat (length ?f1), do_globals := g1,
      do_state := DHCP_STATE_REQUEST, do_current_time := in_tick_set i1 \<rparr>"
  have p1: "dora_body (Some host) i1 s1 = Some s2"
    using off nz [OF assms(10,11)]
    by (simp add: dora_body_def dora_receive_def s1_def s2_def Let_def)
  have "dv_data v1 + 20 \<le> length ?f1" "12 \<le> length ?f1"
    using view_reads [OF message_view [OF assms(12)]] assms(11) by simp_all
  then have g1: "wf_globals g1" "g_xid g1 = random" using g0 assms(14) by (simp_all add: g1_def wf_globals_def)
  define s3 where "s3 = s2\<lparr> do_sent := [discover_frame ?g0 host, request_frame g1 host],
      do_tx_buffer := replicate 1518 0, do_length := 322, do_current_time := in_tick_set i2,
      do_state := DHCP_STATE_WAITING \<rparr>"
  have p2: "dora_body (Some host) i2 s2 = Some s3"
    using assms(4) g1
    by (simp add: dora_body_def s2_def s1_def set_dhcp_request_eq)
      (subst dora_send_eq, auto simp: length_frames s3_def s2_def s1_def)
  define g3 where "g3 = g1\<lparr> g_myip := take 4 (drop (dv_data v3 + 16) ?f3), g_subnet_mask := m,
      g_gateway := take 4 r,
      g_dns_server := case_option [0, 0, 0, 0] (take 4) (view_option ?f3 v3 DHCP_OP_DOMAIN_NAME_SERVER),
      g_dhcp_server_ip := server3 \<rparr>"
  have ack: "deconstruct_dhcp_ack g1 ?f3 (of_nat (length ?f3)) = Some (True, g3)"
    unfolding g3_def using assms(16-24) g1 by (intro deconstruct_dhcp_ack_accepts) simp_all
  have nof: "deconstruct_dhcp_offer g1 ?f3 (of_nat (length ?f3)) = Some (False, g1)"
  proof -
    have "dhcp_is_offer ?f3 (Some v3) = Some False"
      using assms(17) message_view [OF assms(17)] assms(16)
      by (auto simp: dhcp_message_in_def dhcp_is_offer_def dhcp_is_type_eq dhcp_codes)
    then show ?thesis using assms(17) by (simp add: deconstruct_dhcp_offer_def dhcp_message_in_def)
  qed
  define s4 where "s4 = s3\<lparr> do_length := of_nat (length ?f3), do_globals := g3,
      do_chip_subnet_mask := m, do_mac_router := take 6 (drop 6 ?f1), do_state := DHCP_OK,
      do_ret := True, do_current_time := in_tick_set i3 \<rparr>"
  have p3: "dora_body (Some host) i3 s3 = Some s4"
    using ack nof nz [OF assms(15,16)]
    by (simp add: dora_body_def dora_receive_def s3_def s2_def s4_def Let_def get_subnet_mask_def g3_def g1_def)
  have stops: "\<not> dora_stops i0 ?s0" "\<not> dora_stops i1 s1" "\<not> dora_stops i2 s2" "\<not> dora_stops i3 s3"
    using assms(5-9) by (simp_all add: dora_stops_def s1_def s2_def s3_def dora_start_def not_less)
  have "dora_loop (Some host) [i0, i1, i2, i3] ?s0 = Some (True, s4)"
    using stops p0 p1 p2 p3 by (simp add: s4_def)
  then show ?thesis
    by (simp add: flipper_process_dora_with_host_name_def Let_def)
      (simp add: s4_def s3_def g3_def)
qed

definition server_example :: "(u8 \<times> buf) list \<Rightarrow> buf" where
  "server_example opts =
     dhcp_frame_of [2, 0, 0, 0, 0, 9] [10, 0, 0, 1] [255, 255, 255, 255]
       ([2, 1, 6, 0, 0, 0, 0, 77] @ replicate 8 0 @ [10, 0, 0, 7] @ replicate 216 0 @
        [0x63, 0x82, 0x53, 0x63]) (dhcp_encode opts)"

lemma server_example_message:
  assumes "\<forall>(c, d) \<in> set xs. c \<noteq> 0 \<and> c \<noteq> 0xff \<and> length d < 256" "length (dhcp_encode xs) \<le> 1000"
    and "map_of xs DHCP_OP_DHCP_MESSAGE_TYPE = Some [type]"
  shows "\<exists>v. dhcp_message_in (server_example xs) v 2 type 77 \<and>
           (\<forall>opt. view_option (server_example xs) v opt = map_of xs opt) \<and> dv_data v = 42"
    and "length (server_example xs) = 282 + length (dhcp_encode xs)"
proof -
  let ?fx = "[2, 1, 6, 0, 0, 0, 0, 77] @ replicate 8 0 @ [10, 0, 0, 7] @ replicate 216 0 @
        [0x63, 0x82, 0x53, 0x63] :: buf"
  have l: "length ([2, 0, 0, 0, 0, 9] :: buf) = 6" "length ([10, 0, 0, 1] :: buf) = 4"
      "length ([255, 255, 255, 255] :: buf) = 4" by simp_all
  have fx: "length ?fx = 240" "drop 236 ?fx = [0x63, 0x82, 0x53, 0x63]" "?fx ! 0 = 2"
      "be32 (?fx ! 4) (?fx ! 5) (?fx ! 6) (?fx ! 7) = 77"
    by (simp_all add: be32_def)
  note m = frame_of_message [OF l assms fx(1,2)]
  show "\<exists>v. dhcp_message_in (server_example xs) v 2 type 77 \<and>
           (\<forall>opt. view_option (server_example xs) v opt = map_of xs opt) \<and> dv_data v = 42"
    unfolding server_example_def
    by (rule exI, rule conjI, rule m(1) [unfolded fx(3,4)], rule conjI, rule allI, rule m(2)) simp
  show "length (server_example xs) = 282 + length (dhcp_encode xs)"
    unfolding server_example_def using fx(1) by (simp add: length_dhcp_frame_of)
qed

theorem dora_exchange_completes_witness:
  "\<exists>s ip.
     flipper_process_dora_with_host_name
       \<lparr> g_MAC_ADDRESS = [0, 0, 0, 0, 0, 0], g_MAC_DESTINATION = [0, 0, 0, 0, 0, 0], g_xid = 0,
         g_gateway = [0, 0, 0, 0], g_dns_server = [0, 0, 0, 0], g_subnet_mask = [0, 0, 0, 0],
         g_dhcp_server_ip = [0, 0, 0, 0], g_myip = [0, 0, 0, 0], g_ip_client = [0, 0, 0, 0],
         g_ip_server = [0, 0, 0, 0] \<rparr>
       [2, 0, 0, 0, 0, 1] 0 77 (replicate 1518 0) [0, 0, 0, 0] False [0, 0, 0, 0] [0, 0, 0, 0]
       [0, 0, 0, 0, 0, 0] (Some [70, 108, 105, 112, 112, 97, 32, 48])
       [\<lparr> in_link_up = True, in_cancel = False, in_tick = 5, in_tick_set = 6, in_frame = [] \<rparr>,
        \<lparr> in_link_up = True, in_cancel = False, in_tick = 7, in_tick_set = 8,
          in_frame = server_example [(53, [2]), (54, [10, 0, 0, 1])] \<rparr>,
        \<lparr> in_link_up = True, in_cancel = False, in_tick = 9, in_tick_set = 10, in_frame = [] \<rparr>,
        \<lparr> in_link_up = True, in_cancel = False, in_tick = 11, in_tick_set = 12,
          in_frame = server_example [(53, [5]), (1, [255, 255, 255, 0]), (3, [10, 0, 0, 1, 10, 0, 0, 2]),
                                     (6, [10, 0, 0, 3]), (54, [10, 0, 0, 1])] \<rparr>] =
       Some (True, s, ip, [10, 0, 0, 1], False) \<and> do_chip_subnet_mask s = [255, 255, 255, 0] \<and>
     g_dns_server (do_globals s) = [10, 0, 0, 3]"
proof -
  let ?g = "\<lparr> g_MAC_ADDRESS = [0, 0, 0, 0, 0, 0], g_MAC_DESTINATION = [0, 0, 0, 0, 0, 0], g_xid = 0,
         g_gateway = [0, 0, 0, 0], g_dns_server = [0, 0, 0, 0], g_subnet_mask = [0, 0, 0, 0],
         g_dhcp_server_ip = [0, 0, 0, 0], g_myip = [0, 0, 0, 0], g_ip_client = [0, 0, 0, 0],
         g_ip_server = [0, 0, 0, 0] \<rparr>"
  let ?xs = "[(53, [2]), (54, [10, 0, 0, 1])] :: (u8 \<times> buf) list"
  let ?ys = "[(53, [5]), (1, [255, 255, 255, 0]), (3, [10, 0, 0, 1, 10, 0, 0, 2]), (6, [10, 0, 0, 3]),
    (54, [10, 0, 0, 1])] :: (u8 \<times> buf) list"
  obtain v1 where v1: "dhcp_message_in (server_example ?xs) v1 2 DHCP_OFFER 77"
      "view_option (server_example ?xs) v1 DHCP_OP_SERVER_IDENTIFIER = Some [10, 0, 0, 1]"
    using server_example_message(1) [of ?xs DHCP_OFFER] by (auto simp: dhcp_codes)
  obtain v3 where v3: "dhcp_message_in (server_example ?ys) v3 2 DHCP_ACKNOLEDGE 77"
      "view_option (server_example ?ys) v3 DHCP_OP_SUBNET_MASK = Some [255, 255, 255, 0]"
      "view_option (server_example ?ys) v3 DHCP_OP_ROUTER = Some [10, 0, 0, 1, 10, 0, 0, 2]"
      "view_option (server_example ?ys) v3 DHCP_OP_DOMAIN_NAME_SERVER = Some [10, 0, 0, 3]"
      "view_option (server_example ?ys) v3 DHCP_OP_SERVER_IDENTIFIER = Some [10, 0, 0, 1]"
    using server_example_message(1) [of ?ys DHCP_ACKNOLEDGE] by (auto simp: dhcp_codes)
  have len: "length (server_example ?xs) = 292" "length (server_example ?ys) = 314"
    using server_example_message(2) [of ?xs DHCP_OFFER] server_example_message(2) [of ?ys DHCP_ACKNOLEDGE]
    by (simp_all add: dhcp_codes)
  have g: "wf_globals ?g" by (simp add: wf_globals_def)
  let ?i0 = "\<lparr> in_link_up = True, in_cancel = False, in_tick = 5, in_tick_set = 6, in_frame = [] \<rparr>"
  let ?i1 = "\<lparr> in_link_up = True, in_cancel = False, in_tick = 7, in_tick_set = 8, in_frame = server_example ?xs \<rparr>"
  let ?i2 = "\<lparr> in_link_up = True, in_cancel = False, in_tick = 9, in_tick_set = 10, in_frame = [] \<rparr>"
  let ?i3 = "\<lparr> in_link_up = True, in_cancel = False, in_tick = 11, in_tick_set = 12, in_frame = server_example ?ys \<rparr>"
  show ?thesis
    using dora_exchange_completes [of ?g "[2, 0, 0, 0, 0, 1]" "replicate 1518 0"
        "[70, 108, 105, 112, 112, 97, 32, 48]" ?i0 ?i1 ?i2 ?i3 0 v1 77 "[10, 0, 0, 1]" v3
        "[255, 255, 255, 0]" "[10, 0, 0, 1, 10, 0, 0, 2]" "[10, 0, 0, 1]" "[0, 0, 0, 0]" False "[0, 0, 0, 0]"
        "[0, 0, 0, 0]" "[0, 0, 0, 0, 0, 0]"] g v1 v3 len
    by (auto simp: address_list_def)
qed

end
