(* ===== verification/Neighbor_Db.thy ===== *)
theory Neighbor_Db
  imports Startup_Guard
begin

text \<open>
  \<open>libraries/protocol_tools/neighbor_db.c\<close>: the table of discovered neighbours, an array of 32
  entries on the heap. The file-level pointer \<open>neighbors\<close> is a nullable list of entries; a
  \<open>neighbor_t*\<close> into it is the index of the entry. \<open>calloc\<close> may fail, which is an argument.
\<close>

section \<open>Entries\<close>

record neighbor =
  nb_mac :: buf
  nb_chassis_id :: buf
  nb_name :: buf
  nb_description :: buf
  nb_port :: buf
  nb_management_address :: buf
  nb_ttl :: u16
  nb_capabilities :: u16
  nb_enabled_capabilities :: u16
  nb_discovery_sources :: u8
  nb_eapol_version :: u8
  nb_eapol_packet_type :: u8
  nb_eap_code :: u8
  nb_eap_type :: u8
  nb_lldp_chassis_subtype :: u8
  nb_lldp_port_subtype :: u8
  nb_vlan_id :: u16
  nb_pvid :: u16
  nb_vlan_name :: buf
  nb_network_policy_vlan :: u16
  nb_has_pvid :: bool
  nb_has_vlan_name :: bool
  nb_has_network_policy :: bool
  nb_poe_supported :: bool
  nb_poe_power_pair :: u8
  nb_poe_power_class :: u8
  nb_poe_type_source_priority :: u8
  nb_poe_requested_power :: u16
  nb_poe_allocated_power :: u16
  nb_poe_power_watts :: u16
  nb_poe_requested_power_watts :: u16
  nb_poe_allocated_power_watts :: u16
  nb_poe_power_type :: u8
  nb_poe_power_source :: u8
  nb_poe_power_priority :: u8
  nb_has_poe_mdi :: bool
  nb_has_poe :: bool
  nb_has_poe_power_values :: bool
  nb_occupied :: bool

text \<open>\<open>memset(&neighbor, 0, sizeof(neighbor_t))\<close>.\<close>

definition neighbor_zero :: neighbor where
  "neighbor_zero =
     \<lparr> nb_mac = replicate 6 0, nb_chassis_id = replicate 64 0, nb_name = replicate 64 0,
       nb_description = replicate 128 0, nb_port = replicate 64 0,
       nb_management_address = replicate 48 0, nb_ttl = 0, nb_capabilities = 0,
       nb_enabled_capabilities = 0, nb_discovery_sources = 0, nb_eapol_version = 0,
       nb_eapol_packet_type = 0, nb_eap_code = 0, nb_eap_type = 0, nb_lldp_chassis_subtype = 0,
       nb_lldp_port_subtype = 0, nb_vlan_id = 0, nb_pvid = 0, nb_vlan_name = replicate 64 0,
       nb_network_policy_vlan = 0, nb_has_pvid = False, nb_has_vlan_name = False,
       nb_has_network_policy = False, nb_poe_supported = False, nb_poe_power_pair = 0,
       nb_poe_power_class = 0, nb_poe_type_source_priority = 0, nb_poe_requested_power = 0,
       nb_poe_allocated_power = 0, nb_poe_power_watts = 0, nb_poe_requested_power_watts = 0,
       nb_poe_allocated_power_watts = 0, nb_poe_power_type = 0, nb_poe_power_source = 0,
       nb_poe_power_priority = 0, nb_has_poe_mdi = False, nb_has_poe = False,
       nb_has_poe_power_values = False, nb_occupied = False \<rparr>"

text \<open>The array sizes of the struct, each text field terminated inside its array.\<close>

definition wf_neighbor :: "neighbor \<Rightarrow> bool" where
  "wf_neighbor n \<longleftrightarrow> length (nb_mac n) = 6 \<and> cstring 64 (nb_chassis_id n) \<and> cstring 64 (nb_name n) \<and>
     cstring 128 (nb_description n) \<and> cstring 64 (nb_port n) \<and>
     cstring 48 (nb_management_address n) \<and> cstring 64 (nb_vlan_name n)"

definition NEIGHBOR_SOURCE_LLDP :: u8 where "NEIGHBOR_SOURCE_LLDP = 1"
definition NEIGHBOR_SOURCE_CDP :: u8 where "NEIGHBOR_SOURCE_CDP = 2"
definition NEIGHBOR_SOURCE_EAPOL :: u8 where "NEIGHBOR_SOURCE_EAPOL = 4"

lemmas neighbor_sources = NEIGHBOR_SOURCE_LLDP_def NEIGHBOR_SOURCE_CDP_def NEIGHBOR_SOURCE_EAPOL_def

type_synonym neighbor_db = "neighbor list ptr"

definition NEIGHBOR_DB_MAX_ENTRIES :: nat where [simp]: "NEIGHBOR_DB_MAX_ENTRIES = 32"
definition SIZEOF_NEIGHBOR :: nat where [simp]: "SIZEOF_NEIGHBOR = 484"

section \<open>Allocation\<close>

datatype neighbor_db_acquire_result =
    NeighborDbAcquireReady
  | NeighborDbAcquireInsufficientTotal
  | NeighborDbAcquireInsufficientBlock
  | NeighborDbAcquireAllocationFailed

definition neighbor_db_heap_block_size :: "u32 \<Rightarrow> u32" where
  "neighbor_db_heap_block_size payload_size = (payload_size + 8 + 8 - 1) AND NOT (8 - 1)"

definition neighbor_db_requirements :: startup_guard_requirements where
  "neighbor_db_requirements =
     (let allocation_block = neighbor_db_heap_block_size
            (of_nat NEIGHBOR_DB_MAX_ENTRIES * of_nat SIZEOF_NEIGHBOR)
      in \<lparr> required_total_free = allocation_block + 1024, required_max_block = allocation_block \<rparr>)"

definition neighbor_db_has_allocation_headroom ::
  "u32 \<Rightarrow> u32 \<Rightarrow> startup_diagnostic_snapshot \<Rightarrow>
   neighbor_db_acquire_result \<times> startup_diagnostic_snapshot" where
  "neighbor_db_has_allocation_headroom free_heap max_block diagnostic =
     (case startup_guard_check_capture free_heap max_block diagnostic neighbor_db_requirements
             StartupDiagnosticBoundaryPassiveDb of
        (StartupGuardInsufficientTotal, d) \<Rightarrow> (NeighborDbAcquireInsufficientTotal, d)
      | (StartupGuardInsufficientBlock, d) \<Rightarrow> (NeighborDbAcquireInsufficientBlock, d)
      | (StartupGuardReady, d) \<Rightarrow> (NeighborDbAcquireReady, d))"

definition neighbor_db_acquire ::
  "u32 \<Rightarrow> u32 \<Rightarrow> bool \<Rightarrow> startup_diagnostic_snapshot \<Rightarrow> neighbor_db \<Rightarrow>
   neighbor_db_acquire_result \<times> startup_diagnostic_snapshot \<times> neighbor_db" where
  "neighbor_db_acquire free_heap max_block calloc_ok diagnostic neighbors =
     (case neighbors of
        Some _ \<Rightarrow> (NeighborDbAcquireReady, the (startup_guard_diagnostic_clear (Some diagnostic)), neighbors)
      | None \<Rightarrow>
          (case neighbor_db_has_allocation_headroom free_heap max_block diagnostic of
             (res, d) \<Rightarrow>
               if res \<noteq> NeighborDbAcquireReady then (res, d, None)
               else if calloc_ok
                    then (NeighborDbAcquireReady, d, Some (replicate NEIGHBOR_DB_MAX_ENTRIES neighbor_zero))
                    else (NeighborDbAcquireAllocationFailed,
                          startup_guard_capture_allocation_failure free_heap max_block d
                            neighbor_db_requirements StartupDiagnosticBoundaryPassiveDb,
                          None)))"

definition neighbor_db_release :: "neighbor_db \<Rightarrow> neighbor_db" where
  "neighbor_db_release neighbors = (case neighbors of None \<Rightarrow> None | Some _ \<Rightarrow> None)"

definition neighbor_db_clear :: "neighbor_db \<Rightarrow> neighbor_db" where
  "neighbor_db_clear neighbors =
     (case neighbors of None \<Rightarrow> None
      | Some _ \<Rightarrow> Some (replicate NEIGHBOR_DB_MAX_ENTRIES neighbor_zero))"

definition neighbor_db_init :: "neighbor_db \<Rightarrow> neighbor_db" where
  "neighbor_db_init neighbors = neighbor_db_clear neighbors"

section \<open>Searching\<close>

text \<open>
  The two loop shapes of the file: return the first entry that passes the tests, and return the
  entry that is number \<open>position\<close> among those that pass.
\<close>

fun first_match :: "('a \<Rightarrow> bool) \<Rightarrow> 'a list \<Rightarrow> nat option" where
  "first_match p [] = None"
| "first_match p (x # xs) = (if p x then Some 0 else map_option Suc (first_match p xs))"

fun match_at :: "('a \<Rightarrow> bool) \<Rightarrow> 'a list \<Rightarrow> nat \<Rightarrow> nat option" where
  "match_at p [] position = None"
| "match_at p (x # xs) position =
     (if p x then (if position = 0 then Some 0 else map_option Suc (match_at p xs (position - 1)))
      else map_option Suc (match_at p xs position))"

definition has_source :: "u8 \<Rightarrow> neighbor \<Rightarrow> bool" where
  "has_source source n \<longleftrightarrow> nb_discovery_sources n AND source \<noteq> 0"

definition neighbor_db_count_by_source :: "neighbor_db \<Rightarrow> u8 \<Rightarrow> nat" where
  "neighbor_db_count_by_source neighbors source =
     (case neighbors of None \<Rightarrow> 0
      | Some ns \<Rightarrow> length (filter (\<lambda>n. nb_occupied n \<and> has_source source n) ns))"

definition neighbor_db_get_by_source :: "neighbor_db \<Rightarrow> u8 \<Rightarrow> nat \<Rightarrow> nat ptr" where
  "neighbor_db_get_by_source neighbors source position =
     (case neighbors of None \<Rightarrow> None
      | Some ns \<Rightarrow> match_at (\<lambda>n. nb_occupied n \<and> has_source source n) ns position)"

definition neighbor_db_clear_by_source :: "neighbor_db \<Rightarrow> u8 \<Rightarrow> neighbor_db" where
  "neighbor_db_clear_by_source neighbors source =
     map_option (map (\<lambda>n.
       if \<not> nb_occupied n then n
       else let s = nb_discovery_sources n AND NOT source in
            if s = 0 then neighbor_zero else n\<lparr> nb_discovery_sources := s \<rparr>)) neighbors"

definition neighbor_db_count :: "neighbor_db \<Rightarrow> nat" where
  "neighbor_db_count neighbors =
     (case neighbors of None \<Rightarrow> 0 | Some ns \<Rightarrow> length (filter nb_occupied ns))"

definition neighbor_db_get_by_position :: "neighbor_db \<Rightarrow> nat \<Rightarrow> nat ptr" where
  "neighbor_db_get_by_position neighbors position =
     (case neighbors of None \<Rightarrow> None | Some ns \<Rightarrow> match_at nb_occupied ns position)"

definition neighbor_db_get :: "neighbor_db \<Rightarrow> nat \<Rightarrow> nat ptr" where
  "neighbor_db_get neighbors index =
     (case neighbors of None \<Rightarrow> None
      | Some ns \<Rightarrow> if index \<ge> NEIGHBOR_DB_MAX_ENTRIES then None
                   else if \<not> nb_occupied (ns ! index) then None else Some index)"

definition neighbor_db_find :: "neighbor_db \<Rightarrow> buf ptr \<Rightarrow> nat ptr" where
  "neighbor_db_find neighbors mac =
     (case (neighbors, mac) of
        (Some ns, Some m) \<Rightarrow> first_match (\<lambda>n. nb_occupied n \<and> nb_mac n = m) ns
      | _ \<Rightarrow> None)"

definition neighbor_db_find_by_source :: "neighbor_db \<Rightarrow> buf ptr \<Rightarrow> u8 \<Rightarrow> nat ptr" where
  "neighbor_db_find_by_source neighbors mac source =
     (case (neighbors, mac) of
        (Some ns, Some m) \<Rightarrow>
          first_match (\<lambda>n. nb_occupied n \<and> nb_mac n = m \<and> has_source source n) ns
      | _ \<Rightarrow> None)"

section \<open>Changing entries\<close>

definition neighbor_db_add :: "neighbor_db \<Rightarrow> neighbor ptr \<Rightarrow> bool \<times> neighbor_db" where
  "neighbor_db_add neighbors entry =
     (case (neighbors, entry) of
        (Some ns, Some n) \<Rightarrow>
          (case neighbor_db_find_by_source neighbors (Some (nb_mac n)) (nb_discovery_sources n) of
             Some i \<Rightarrow> (True, Some (ns[i := n\<lparr> nb_occupied := True \<rparr>]))
           | None \<Rightarrow>
               (case first_match (\<lambda>m. \<not> nb_occupied m) ns of
                  Some i \<Rightarrow> (True, Some (ns[i := n\<lparr> nb_occupied := True \<rparr>]))
                | None \<Rightarrow> (False, neighbors)))
      | _ \<Rightarrow> (False, neighbors))"

definition neighbor_db_update :: "neighbor_db \<Rightarrow> neighbor ptr \<Rightarrow> bool \<times> neighbor_db" where
  "neighbor_db_update neighbors entry =
     (case (neighbors, entry) of
        (Some ns, Some n) \<Rightarrow>
          (case neighbor_db_find_by_source neighbors (Some (nb_mac n)) (nb_discovery_sources n) of
             None \<Rightarrow> (False, neighbors)
           | Some i \<Rightarrow> (True, Some (ns[i := n\<lparr> nb_occupied := True \<rparr>])))
      | _ \<Rightarrow> (False, neighbors))"


section \<open>The searches\<close>

lemma first_match_None: "first_match p xs = None \<longleftrightarrow> (\<forall>i<length xs. \<not> p (xs ! i))"
  by (induction xs) (auto simp: All_less_Suc2)

lemma first_match_Some:
  "first_match p xs = Some i \<Longrightarrow> i < length xs \<and> p (xs ! i) \<and> (\<forall>j<i. \<not> p (xs ! j))"
  by (induction xs arbitrary: i) (auto split: if_splits simp: less_Suc_eq_0_disj nth_Cons')

lemma first_match_unique:
  assumes "\<And>i j. i < length xs \<Longrightarrow> j < length xs \<Longrightarrow> p (xs ! i) \<Longrightarrow> p (xs ! j) \<Longrightarrow> i = j"
  shows "first_match p xs = Some i \<longleftrightarrow> i < length xs \<and> p (xs ! i)"
proof (cases "first_match p xs")
  case None
  then have "\<not> (i < length xs \<and> p (xs ! i))" by (auto simp: first_match_None)
  with None show ?thesis by simp
next
  case (Some k)
  then show ?thesis using assms first_match_Some [OF Some] by auto
qed

lemma filter_upt_Cons:
  "filter (\<lambda>i. p ((x # xs) ! i)) [0..<Suc (length xs)] =
     (if p x then [0] else []) @ map Suc (filter (\<lambda>i. p (xs ! i)) [0..<length xs])"
  by (simp add: upt_conv_Cons map_Suc_upt [symmetric] filter_map comp_def del: upt_Suc)

lemma length_filter_upt:
  "length (filter (\<lambda>i. p (xs ! i)) [0..<length xs]) = length (filter p xs)"
proof (induction xs)
  case (Cons x xs)
  show ?case unfolding length_Cons filter_upt_Cons using Cons.IH by simp
qed simp

lemma match_at_filter:
  "match_at p xs k =
     (let is = filter (\<lambda>i. p (xs ! i)) [0..<length xs]
      in if k < length is then Some (is ! k) else None)"
proof (induction xs arbitrary: k)
  case (Cons x xs)
  show ?case
    unfolding length_Cons filter_upt_Cons
    by (cases k) (auto simp: Cons.IH Let_def nth_append)
qed simp

section \<open>The table as a bounded map\<close>

text \<open>
  Every caller stores an entry under exactly one discovery source, so an occupied entry has the
  key (address, source) and the table is a map of at most 32 keys.
\<close>

definition single_source :: "u8 \<Rightarrow> bool" where
  "single_source s \<longleftrightarrow>
     s = NEIGHBOR_SOURCE_LLDP \<or> s = NEIGHBOR_SOURCE_CDP \<or> s = NEIGHBOR_SOURCE_EAPOL"

definition nb_key :: "neighbor \<Rightarrow> buf \<times> u8" where
  "nb_key n = (nb_mac n, nb_discovery_sources n)"

definition at_key :: "neighbor list \<Rightarrow> buf \<times> u8 \<Rightarrow> nat \<Rightarrow> bool" where
  "at_key ns k i \<longleftrightarrow> i < length ns \<and> nb_occupied (ns ! i) \<and> nb_key (ns ! i) = k"

definition neighbors_inv :: "neighbor list \<Rightarrow> bool" where
  "neighbors_inv ns \<longleftrightarrow>
     length ns = NEIGHBOR_DB_MAX_ENTRIES \<and>
     (\<forall>n\<in>set ns. nb_occupied n \<longrightarrow> single_source (nb_discovery_sources n)) \<and>
     (\<forall>k i j. at_key ns k i \<longrightarrow> at_key ns k j \<longrightarrow> i = j)"

definition neighbor_lookup :: "neighbor_db \<Rightarrow> buf \<times> u8 \<Rightarrow> neighbor option" where
  "neighbor_lookup neighbors k =
     map_option (\<lambda>i. the neighbors ! i) (neighbor_db_find_by_source neighbors (Some (fst k)) (snd k))"

lemma single_source_cases:
  "single_source s \<Longrightarrow> (s = 1 \<Longrightarrow> P) \<Longrightarrow> (s = 2 \<Longrightarrow> P) \<Longrightarrow> (s = 4 \<Longrightarrow> P) \<Longrightarrow> P"
  by (auto simp: single_source_def neighbor_sources)

lemma has_single_source:
  "single_source s \<Longrightarrow> single_source (nb_discovery_sources n) \<Longrightarrow>
     has_source s n \<longleftrightarrow> nb_discovery_sources n = s"
  by (erule single_source_cases; erule single_source_cases) (simp_all add: has_source_def)

lemma neighbors_inv_source:
  "neighbors_inv ns \<Longrightarrow> i < length ns \<Longrightarrow> nb_occupied (ns ! i) \<Longrightarrow>
     single_source (nb_discovery_sources (ns ! i))"
  by (simp add: neighbors_inv_def)

lemma neighbors_inv_length: "neighbors_inv ns \<Longrightarrow> length ns = 32"
  by (simp add: neighbors_inv_def)

lemma at_key_unique: "neighbors_inv ns \<Longrightarrow> at_key ns k i \<Longrightarrow> at_key ns k j \<Longrightarrow> i = j"
  unfolding neighbors_inv_def by blast

lemma find_by_source_Some:
  assumes inv: "neighbors_inv ns" and s: "single_source (snd k)"
  shows "neighbor_db_find_by_source (Some ns) (Some (fst k)) (snd k) = Some i \<longleftrightarrow> at_key ns k i"
proof -
  let ?p = "\<lambda>n. nb_occupied n \<and> nb_mac n = fst k \<and> has_source (snd k) n"
  have p: "?p (ns ! j) \<longleftrightarrow> at_key ns k j" if "j < length ns" for j
    using has_single_source [OF s] neighbors_inv_source [OF inv that] that
    by (auto simp: at_key_def nb_key_def prod_eq_iff)
  have "first_match ?p ns = Some i \<longleftrightarrow> i < length ns \<and> ?p (ns ! i)"
    using p at_key_unique [OF inv] by (intro first_match_unique) blast
  then show ?thesis
    using p [of i] by (auto simp: neighbor_db_find_by_source_def at_key_def)
qed

lemma find_by_source_None:
  assumes "neighbors_inv ns" "single_source (snd k)"
  shows "neighbor_db_find_by_source (Some ns) (Some (fst k)) (snd k) = None \<longleftrightarrow>
         (\<forall>i. \<not> at_key ns k i)"
  by (cases "neighbor_db_find_by_source (Some ns) (Some (fst k)) (snd k)")
     (use find_by_source_Some [OF assms] in auto)

lemma neighbor_lookup_Some:
  assumes "neighbors_inv ns" "single_source (snd k)"
  shows "neighbor_lookup (Some ns) k = Some n \<longleftrightarrow> (\<exists>i. at_key ns k i \<and> ns ! i = n)"
  unfolding neighbor_lookup_def using find_by_source_Some [OF assms] by auto

lemma neighbor_lookup_None:
  assumes "neighbors_inv ns" "single_source (snd k)"
  shows "neighbor_lookup (Some ns) k = None \<longleftrightarrow> (\<forall>i. \<not> at_key ns k i)"
  unfolding neighbor_lookup_def using find_by_source_None [OF assms] by simp


lemma at_key_update:
  "i < length ns \<Longrightarrow>
     at_key (ns[i := n]) k j \<longleftrightarrow> (if j = i then nb_occupied n \<and> nb_key n = k else at_key ns k j)"
  by (auto simp: at_key_def)

lemma neighbors_inv_update:
  assumes inv: "neighbors_inv ns" and "i < length ns" "single_source (nb_discovery_sources n)"
    and other: "\<And>j. at_key ns (nb_key n) j \<Longrightarrow> j = i"
  shows "neighbors_inv (ns[i := n])"
proof (unfold neighbors_inv_def, intro conjI ballI impI allI)
  show "length (ns[i := n]) = NEIGHBOR_DB_MAX_ENTRIES"
    using neighbors_inv_length [OF inv] by simp
next
  fix m
  assume "m \<in> set (ns[i := n])" "nb_occupied m"
  then consider "m = n" | "m \<in> set ns" using set_update_subset_insert [of ns i n] by blast
  then show "single_source (nb_discovery_sources m)"
    using assms(3) inv \<open>nb_occupied m\<close> by cases (auto simp: neighbors_inv_def)
next
  fix k j j'
  assume "at_key (ns[i := n]) k j" "at_key (ns[i := n]) k j'"
  then show "j = j'"
    unfolding at_key_update [OF assms(2)]
    using other at_key_unique [OF inv] by (metis (full_types))
qed

definition neighbor_map :: "neighbor list \<Rightarrow> buf \<times> u8 \<rightharpoonup> neighbor" where
  "neighbor_map ns = map_of (map (\<lambda>n. (nb_key n, n)) (filter nb_occupied ns))"

lemma neighbor_map_Some:
  assumes "neighbors_inv ns"
  shows "neighbor_map ns k = Some n \<longleftrightarrow> (\<exists>i. at_key ns k i \<and> ns ! i = n)"
proof
  assume "neighbor_map ns k = Some n"
  then have "n \<in> set ns \<and> nb_occupied n \<and> nb_key n = k"
    unfolding neighbor_map_def by (auto dest!: map_of_SomeD)
  then show "\<exists>i. at_key ns k i \<and> ns ! i = n" by (auto simp: in_set_conv_nth at_key_def)
next
  assume "\<exists>i. at_key ns k i \<and> ns ! i = n"
  then obtain i where i: "at_key ns k i" "ns ! i = n" by blast
  then have "k \<in> dom (neighbor_map ns)"
    by (auto simp: neighbor_map_def dom_map_of_conv_image_fst at_key_def image_iff in_set_conv_nth)
  then obtain m where m: "neighbor_map ns k = Some m" by blast
  then have "m \<in> set ns \<and> nb_occupied m \<and> nb_key m = k"
    unfolding neighbor_map_def by (auto dest!: map_of_SomeD)
  then obtain j where "at_key ns k j" "ns ! j = m" by (auto simp: in_set_conv_nth at_key_def)
  then show "neighbor_map ns k = Some n" using m i at_key_unique [OF assms] by blast
qed

lemma neighbor_map_None:
  "neighbors_inv ns \<Longrightarrow> neighbor_map ns k = None \<longleftrightarrow> (\<forall>i. \<not> at_key ns k i)"
  using neighbor_map_Some [of ns k] by (cases "neighbor_map ns k") auto

lemma neighbor_lookup_map:
  assumes "neighbors_inv ns" "single_source (snd k)"
  shows "neighbor_lookup (Some ns) k = neighbor_map ns k"
  using neighbor_lookup_Some [OF assms] neighbor_map_Some [OF assms(1)] not_None_eq
  by (metis (no_types))

lemma filter_as_nth: "filter p xs = map ((!) xs) (filter (\<lambda>i. p (xs ! i)) [0..<length xs])"
proof -
  have "filter p (map ((!) xs) [0..<length xs]) =
        map ((!) xs) (filter (\<lambda>i. p (xs ! i)) [0..<length xs])"
    by (simp add: filter_map comp_def)
  then show ?thesis by (simp add: map_nth)
qed

lemma neighbor_keys_distinct:
  assumes "neighbors_inv ns"
  shows "distinct (map nb_key (filter nb_occupied ns))"
proof -
  let ?is = "filter (\<lambda>i. nb_occupied (ns ! i)) [0..<length ns]"
  have "inj_on (\<lambda>i. nb_key (ns ! i)) (set ?is)"
    by (intro inj_onI) (auto intro: at_key_unique [OF assms] simp: at_key_def)
  then show ?thesis
    by (subst filter_as_nth) (simp add: distinct_map comp_def)
qed

lemma neighbor_map_card:
  assumes "neighbors_inv ns"
  shows "card (dom (neighbor_map ns)) = neighbor_db_count (Some ns)"
proof -
  have "dom (neighbor_map ns) = set (map nb_key (filter nb_occupied ns))"
    by (auto simp: neighbor_map_def dom_map_of_conv_image_fst image_image)
  then show ?thesis
    using distinct_card [OF neighbor_keys_distinct [OF assms]]
    by (simp add: neighbor_db_count_def)
qed

lemma free_entry:
  "first_match (\<lambda>m. \<not> nb_occupied m) ns = None \<longleftrightarrow> neighbor_db_count (Some ns) = length ns"
proof
  assume "first_match (\<lambda>m. \<not> nb_occupied m) ns = None"
  then have "filter nb_occupied ns = ns"
    by (intro filter_True) (auto simp: first_match_None in_set_conv_nth)
  then show "neighbor_db_count (Some ns) = length ns" by (simp add: neighbor_db_count_def)
next
  assume "neighbor_db_count (Some ns) = length ns"
  then have "filter nb_occupied ns = ns"
    by (simp add: neighbor_db_count_def) (metis length_filter_less less_irrefl filter_True)
  then have "\<forall>n\<in>set ns. nb_occupied n" by (metis filter_id_conv)
  then show "first_match (\<lambda>m. \<not> nb_occupied m) ns = None" by (simp add: first_match_None)
qed


section \<open>The operations on the map\<close>

lemma option_ext: "(\<And>m. x = Some m \<longleftrightarrow> y = Some m) \<Longrightarrow> x = y"
  by (cases x; cases y) fastforce+

definition stored :: "neighbor \<Rightarrow> neighbor" where
  "stored n = n\<lparr> nb_occupied := True \<rparr>"

lemma stored_simps [simp]:
  "nb_occupied (stored n)" "nb_key (stored n) = nb_key n"
  "nb_discovery_sources (stored n) = nb_discovery_sources n" "nb_mac (stored n) = nb_mac n"
  by (simp_all add: stored_def nb_key_def)

lemma neighbor_map_put:
  assumes inv: "neighbors_inv ns" and i: "i < length ns"
    and s: "single_source (nb_discovery_sources n)"
    and old: "at_key ns (nb_key n) i \<or> (\<not> nb_occupied (ns ! i) \<and> (\<forall>j. \<not> at_key ns (nb_key n) j))"
  shows "neighbors_inv (ns[i := stored n])"
    and "neighbor_map (ns[i := stored n]) = (neighbor_map ns)(nb_key n \<mapsto> stored n)"
proof -
  show inv': "neighbors_inv (ns[i := stored n])"
  proof (rule neighbors_inv_update [OF inv i])
    show "single_source (nb_discovery_sources (stored n))" using s by simp
    show "j = i" if "at_key ns (nb_key (stored n)) j" for j
      using old that by (metis at_key_unique [OF inv] stored_simps(2))
  qed
  show "neighbor_map (ns[i := stored n]) = (neighbor_map ns)(nb_key n \<mapsto> stored n)"
  proof
    fix k
    show "neighbor_map (ns[i := stored n]) k = ((neighbor_map ns)(nb_key n \<mapsto> stored n)) k"
    proof (cases "k = nb_key n")
      case True
      then have "neighbor_map (ns[i := stored n]) k = Some (stored n)"
        unfolding neighbor_map_Some [OF inv'] using i
        by (intro exI [of _ i]) (simp add: at_key_update [OF i])
      with True show ?thesis by simp
    next
      case False
      then have "at_key (ns[i := stored n]) k j \<longleftrightarrow> at_key ns k j \<and> j \<noteq> i" for j
        by (simp add: at_key_update [OF i])
      moreover have "\<not> at_key ns k i"
        using old False by (auto simp: at_key_def)
      ultimately have at: "at_key (ns[i := stored n]) k j \<longleftrightarrow> at_key ns k j" for j
        by (cases "j = i") simp_all
      have same: "ns[i := stored n] ! j = ns ! j" if "at_key ns k j" for j
        using that \<open>\<not> at_key ns k i\<close> by (cases "j = i") simp_all
      have "neighbor_map (ns[i := stored n]) k = Some m \<longleftrightarrow> neighbor_map ns k = Some m" for m
        unfolding neighbor_map_Some [OF inv'] neighbor_map_Some [OF inv] at
        by (rule ex_cong1) (use same in auto)
      then have "neighbor_map (ns[i := stored n]) k = neighbor_map ns k"
        by (rule option_ext)
      with False show ?thesis by simp
    qed
  qed
qed

lemma neighbor_db_add_known:
  assumes inv: "neighbors_inv ns" and s: "single_source (nb_discovery_sources n)"
    and k: "at_key ns (nb_key n) i"
  shows "neighbor_db_add (Some ns) (Some n) = (True, Some (ns[i := stored n]))"
  using find_by_source_Some [OF inv, of "nb_key n" i] s k
  by (simp add: neighbor_db_add_def nb_key_def stored_def)

lemma neighbor_db_add_new:
  assumes inv: "neighbors_inv ns" and s: "single_source (nb_discovery_sources n)"
    and k: "\<And>i. \<not> at_key ns (nb_key n) i"
  shows "neighbor_db_add (Some ns) (Some n) =
          (case first_match (\<lambda>m. \<not> nb_occupied m) ns of
             Some i \<Rightarrow> (True, Some (ns[i := stored n]))
           | None \<Rightarrow> (False, Some ns))"
  using find_by_source_None [OF inv, of "nb_key n"] s k
  unfolding neighbor_db_add_def stored_def by (simp add: nb_key_def)

lemma neighbor_db_add_puts:
  assumes inv: "neighbors_inv ns" and s: "single_source (nb_discovery_sources n)"
    and room: "nb_key n \<in> dom (neighbor_map ns) \<or> card (dom (neighbor_map ns)) < 32"
  shows "\<exists>ns'. neighbor_db_add (Some ns) (Some n) = (True, Some ns') \<and> neighbors_inv ns' \<and>
               neighbor_map ns' = (neighbor_map ns)(nb_key n \<mapsto> stored n)"
proof (cases "\<exists>i. at_key ns (nb_key n) i")
  case True
  then obtain i where i: "at_key ns (nb_key n) i" by blast
  then have "i < length ns" by (simp add: at_key_def)
  then show ?thesis
    using neighbor_db_add_known [OF inv s i] neighbor_map_put [OF inv _ s, of i] i by simp
next
  case False
  then have "card (dom (neighbor_map ns)) < length ns"
    using room neighbor_map_None [OF inv, of "nb_key n"] neighbors_inv_length [OF inv]
    by (auto simp: domIff)
  then obtain i where i: "first_match (\<lambda>m. \<not> nb_occupied m) ns = Some i"
    using free_entry [of ns] neighbor_map_card [OF inv] by auto
  then show ?thesis
    using neighbor_db_add_new [OF inv s] False neighbor_map_put [OF inv _ s, of i]
      first_match_Some [OF i] by auto
qed

lemma neighbor_db_add_refuses:
  assumes inv: "neighbors_inv ns" and s: "single_source (nb_discovery_sources n)"
    and new: "nb_key n \<notin> dom (neighbor_map ns)" and full: "card (dom (neighbor_map ns)) \<ge> 32"
  shows "neighbor_db_add (Some ns) (Some n) = (False, Some ns)"
proof -
  have none: "\<not> at_key ns (nb_key n) i" for i
    using new neighbor_map_None [OF inv, of "nb_key n"] by (auto simp: domIff)
  have "neighbor_db_count (Some ns) = length ns"
    using full neighbor_map_card [OF inv] neighbors_inv_length [OF inv]
      length_filter_le [of nb_occupied ns] by (simp add: neighbor_db_count_def)
  then have "first_match (\<lambda>m. \<not> nb_occupied m) ns = None" by (simp add: free_entry)
  then show ?thesis using neighbor_db_add_new [OF inv s none] by simp
qed

lemma neighbor_db_update_puts:
  assumes inv: "neighbors_inv ns" and s: "single_source (nb_discovery_sources n)"
  shows "neighbor_db_update (Some ns) (Some n) =
          (if nb_key n \<in> dom (neighbor_map ns) then neighbor_db_add (Some ns) (Some n)
           else (False, Some ns))"
proof (cases "neighbor_db_find_by_source (Some ns) (Some (nb_mac n)) (nb_discovery_sources n)")
  case None
  then have "nb_key n \<notin> dom (neighbor_map ns)"
    using find_by_source_None [OF inv, of "nb_key n"] s neighbor_map_None [OF inv, of "nb_key n"]
    by (simp add: nb_key_def domIff)
  with None show ?thesis by (simp add: neighbor_db_update_def)
next
  case (Some i)
  then have "nb_key n \<in> dom (neighbor_map ns)"
    using find_by_source_Some [OF inv, of "nb_key n"] s neighbor_map_Some [OF inv, of "nb_key n"]
    by (auto simp: nb_key_def domIff)
  with Some show ?thesis by (simp add: neighbor_db_update_def neighbor_db_add_def)
qed


text \<open>Clearing one discovery source.\<close>

definition clear_source_entry :: "u8 \<Rightarrow> neighbor \<Rightarrow> neighbor" where
  "clear_source_entry source n =
     (if nb_occupied n \<and> nb_discovery_sources n = source then neighbor_zero else n)"

lemma single_source_without:
  "single_source s \<Longrightarrow> single_source s' \<Longrightarrow> s' AND NOT s = (if s' = s then 0 else s')"
  by (erule single_source_cases; erule single_source_cases) simp_all

lemma single_source_nonzero: "single_source s \<Longrightarrow> s \<noteq> 0"
  by (erule single_source_cases) simp_all

lemma neighbor_db_clear_by_source_map:
  assumes inv: "neighbors_inv ns" and s: "single_source s"
  shows "neighbor_db_clear_by_source (Some ns) s = Some (map (clear_source_entry s) ns)"
proof -
  have "(let s' = nb_discovery_sources n AND NOT s
         in if s' = 0 then neighbor_zero else n\<lparr> nb_discovery_sources := s' \<rparr>) = clear_source_entry s n"
    if "n \<in> set ns" "nb_occupied n" for n
  proof -
    have n: "single_source (nb_discovery_sources n)" using inv that by (simp add: neighbors_inv_def)
    show ?thesis
      using single_source_without [OF s n] single_source_nonzero [OF n] that(2)
      by (simp add: clear_source_entry_def)
  qed
  then show ?thesis
    by (auto simp: neighbor_db_clear_by_source_def clear_source_entry_def Let_def)
qed

lemma at_key_clear:
  "at_key (map (clear_source_entry s) ns) k i \<longleftrightarrow> at_key ns k i \<and> snd k \<noteq> s"
  by (auto simp: at_key_def clear_source_entry_def nb_key_def neighbor_zero_def split: if_splits)

lemma neighbors_inv_clear:
  assumes "neighbors_inv ns"
  shows "neighbors_inv (map (clear_source_entry s) ns)"
  using assms unfolding neighbors_inv_def at_key_clear
  by (auto simp: clear_source_entry_def neighbor_zero_def)

lemma neighbor_map_clear:
  assumes inv: "neighbors_inv ns"
  shows "neighbor_map (map (clear_source_entry s) ns) = neighbor_map ns |` {k. snd k \<noteq> s}"
proof
  fix k
  have same: "clear_source_entry s (ns ! i) = ns ! i" if "at_key ns k i" "snd k \<noteq> s" for i
    using that by (auto simp: at_key_def clear_source_entry_def nb_key_def)
  show "neighbor_map (map (clear_source_entry s) ns) k = (neighbor_map ns |` {k. snd k \<noteq> s}) k"
  proof (rule option_ext)
    fix m
    have "(\<exists>i. at_key ns k i \<and> snd k \<noteq> s \<and> map (clear_source_entry s) ns ! i = m) \<longleftrightarrow>
          (\<exists>i. at_key ns k i \<and> snd k \<noteq> s \<and> ns ! i = m)"
      by (rule ex_cong1) (use same in \<open>auto simp: at_key_def\<close>)
    then show "neighbor_map (map (clear_source_entry s) ns) k = Some m \<longleftrightarrow>
          (neighbor_map ns |` {k. snd k \<noteq> s}) k = Some m"
      unfolding neighbor_map_Some [OF neighbors_inv_clear [OF inv]] at_key_clear
      using neighbor_map_Some [OF inv, of k m] by (auto simp: restrict_map_def)
  qed
qed

lemma neighbors_inv_zero: "neighbors_inv (replicate NEIGHBOR_DB_MAX_ENTRIES neighbor_zero)"
  by (auto simp: neighbors_inv_def at_key_def neighbor_zero_def)

lemma neighbor_map_zero: "neighbor_map (replicate NEIGHBOR_DB_MAX_ENTRIES neighbor_zero) = Map.empty"
  by (simp add: neighbor_map_def filter_replicate neighbor_zero_def)

lemma count_by_source_card:
  assumes inv: "neighbors_inv ns" and s: "single_source s"
  shows "neighbor_db_count_by_source (Some ns) s = card {k \<in> dom (neighbor_map ns). snd k = s}"
proof -
  have "filter (\<lambda>n. nb_occupied n \<and> has_source s n) ns =
        filter (\<lambda>n. nb_discovery_sources n = s) (filter nb_occupied ns)"
    using has_single_source [OF s] inv by (auto simp: neighbors_inv_def intro!: filter_cong)
  moreover have "{k \<in> dom (neighbor_map ns). snd k = s} =
        set (map nb_key (filter (\<lambda>n. nb_discovery_sources n = s) (filter nb_occupied ns)))"
    by (auto simp: neighbor_map_def dom_map_of_conv_image_fst image_image nb_key_def)
  moreover have "distinct (map nb_key (filter (\<lambda>n. nb_discovery_sources n = s) (filter nb_occupied ns)))"
    using neighbor_keys_distinct [OF inv] by (rule distinct_map_filter)
  ultimately show ?thesis
    by (metis (no_types, lifting) distinct_card length_map neighbor_db_count_by_source_def option.simps(5))
qed

section \<open>A bounded table as an interface\<close>

text \<open>
  What the passive scanner relies on: a table of bounded capacity in which a stored entry is found
  under its key, replaces only the entry with the same key, and is refused only when the table
  is full of other keys.
\<close>

locale bounded_table =
  fixes inv :: "'t \<Rightarrow> bool" and ok :: "'e \<Rightarrow> bool" and key :: "'e \<Rightarrow> 'k"
    and image :: "'e \<Rightarrow> 'e" and content :: "'t \<Rightarrow> 'k \<rightharpoonup> 'e"
    and put :: "'t \<Rightarrow> 'e \<Rightarrow> bool \<times> 't" and capacity :: nat
  assumes put_room: "inv t \<Longrightarrow> ok e \<Longrightarrow>
      key e \<in> dom (content t) \<or> card (dom (content t)) < capacity \<Longrightarrow>
      \<exists>t'. put t e = (True, t') \<and> inv t' \<and> content t' = (content t)(key e \<mapsto> image e)"
    and put_full: "inv t \<Longrightarrow> ok e \<Longrightarrow> key e \<notin> dom (content t) \<Longrightarrow>
      card (dom (content t)) \<ge> capacity \<Longrightarrow> put t e = (False, t)"
    and bounded: "inv t \<Longrightarrow> finite (dom (content t)) \<and> card (dom (content t)) \<le> capacity"
begin

definition put_all :: "'e list \<Rightarrow> 't \<Rightarrow> 't" where
  "put_all es t = fold (\<lambda>e t. snd (put t e)) es t"

lemma put_spec:
  assumes "inv t" "ok e"
  shows "inv (snd (put t e))"
    and "fst (put t e) \<longleftrightarrow> key e \<in> dom (content t) \<or> card (dom (content t)) < capacity"
    and "content (snd (put t e)) =
           (if fst (put t e) then (content t)(key e \<mapsto> image e) else content t)"
proof -
  consider (room) "key e \<in> dom (content t) \<or> card (dom (content t)) < capacity"
    | (full) "key e \<notin> dom (content t)" "card (dom (content t)) \<ge> capacity"
    by linarith
  then have "inv (snd (put t e)) \<and>
    (fst (put t e) \<longleftrightarrow> key e \<in> dom (content t) \<or> card (dom (content t)) < capacity) \<and>
    content (snd (put t e)) = (if fst (put t e) then (content t)(key e \<mapsto> image e) else content t)"
  proof cases
    case room
    then show ?thesis using put_room [OF assms room] by auto
  next
    case full
    then show ?thesis using put_full [OF assms full] assms by auto
  qed
  then show "inv (snd (put t e))"
    "fst (put t e) \<longleftrightarrow> key e \<in> dom (content t) \<or> card (dom (content t)) < capacity"
    "content (snd (put t e)) = (if fst (put t e) then (content t)(key e \<mapsto> image e) else content t)"
    by blast+
qed

lemma put_keeps_other: "inv t \<Longrightarrow> ok e \<Longrightarrow> k \<noteq> key e \<Longrightarrow> content (snd (put t e)) k = content t k"
  by (simp add: put_spec(3))

lemma put_all_spec:
  assumes "inv t" "\<forall>e\<in>set es. ok e"
    and "card (dom (content t) \<union> key ` set es) \<le> capacity"
  shows "inv (put_all es t) \<and>
         content (put_all es t) = content t ++ map_of (rev (map (\<lambda>e. (key e, image e)) es))"
  using assms
proof (induction es arbitrary: t)
  case (Cons e es)
  let ?t = "snd (put t e)"
  have fin: "finite (dom (content t) \<union> key ` set (e # es))"
    using bounded [OF Cons.prems(1)] by simp
  have ok: "ok e" using Cons.prems(2) by simp
  have room: "key e \<in> dom (content t) \<or> card (dom (content t)) < capacity"
  proof (rule ccontr)
    assume no: "\<not> ?thesis"
    then have "dom (content t) \<subset> dom (content t) \<union> key ` set (e # es)" by auto
    then have "card (dom (content t)) < card (dom (content t) \<union> key ` set (e # es))"
      using fin by (rule psubset_card_mono [rotated])
    with no Cons.prems(3) show False by simp
  qed
  have c: "content ?t = (content t)(key e \<mapsto> image e)"
    using put_spec [OF Cons.prems(1) ok] room by simp
  then have "dom (content ?t) \<union> key ` set es = dom (content t) \<union> key ` set (e # es)" by auto
  then have "inv (put_all es ?t) \<and>
      content (put_all es ?t) = content ?t ++ map_of (rev (map (\<lambda>e. (key e, image e)) es))"
    using Cons.IH [OF put_spec(1) [OF Cons.prems(1) ok]] Cons.prems by simp
  then show ?case by (simp add: put_all_def c)
qed (simp add: put_all_def)

end

interpretation nbt: bounded_table
  "\<lambda>db. \<exists>ns. db = Some ns \<and> neighbors_inv ns" "\<lambda>n::neighbor. single_source (nb_discovery_sources n)"
  nb_key stored "\<lambda>db. neighbor_map (the db)" "\<lambda>db n. neighbor_db_add db (Some n)" 32
proof
  fix db :: neighbor_db and n :: neighbor
  assume "\<exists>ns. db = Some ns \<and> neighbors_inv ns" and s: "single_source (nb_discovery_sources n)"
  then obtain ns where db: "db = Some ns" and inv: "neighbors_inv ns" by blast
  show "\<exists>t'. neighbor_db_add db (Some n) = (True, t') \<and> (\<exists>ns. t' = Some ns \<and> neighbors_inv ns) \<and>
          neighbor_map (the t') = (neighbor_map (the db))(nb_key n \<mapsto> stored n)"
    if "nb_key n \<in> dom (neighbor_map (the db)) \<or> card (dom (neighbor_map (the db))) < 32"
    using neighbor_db_add_puts [OF inv s] that by (auto simp: db)
  show "neighbor_db_add db (Some n) = (False, db)"
    if "nb_key n \<notin> dom (neighbor_map (the db))" "32 \<le> card (dom (neighbor_map (the db)))"
    using neighbor_db_add_refuses [OF inv s] that by (simp add: db)
next
  fix db
  assume "\<exists>ns. db = Some ns \<and> neighbors_inv ns"
  then obtain ns where db: "db = Some ns" and inv: "neighbors_inv ns" by blast
  show "finite (dom (neighbor_map (the db))) \<and> card (dom (neighbor_map (the db))) \<le> 32"
    using neighbor_map_card [OF inv] neighbors_inv_length [OF inv] length_filter_le [of nb_occupied ns]
    by (simp add: db neighbor_db_count_def) (simp add: neighbor_map_def finite_dom_map_of)
qed


section \<open>Properties\<close>

text \<open>
  C12. The table is a map with at most 32 keys (address, discovery source). On every table that
  keeps the invariant, storing an entry under one source answers true exactly when the key is
  known or fewer than 32 keys are; it then changes the map at that key only, and a refused entry
  changes nothing. Updating stores known keys only. Looking a key up is the map's lookup.
\<close>

theorem neighbor_db_refines_bounded_map:
  assumes "neighbors_inv ns" and "single_source (nb_discovery_sources n)"
  shows "\<exists>ns'. neighbor_db_add (Some ns) (Some n) =
                 (nb_key n \<in> dom (neighbor_map ns) \<or> neighbor_db_count (Some ns) < 32, Some ns') \<and>
               neighbors_inv ns' \<and>
               neighbor_map ns' =
                 (if nb_key n \<in> dom (neighbor_map ns) \<or> neighbor_db_count (Some ns) < 32
                  then (neighbor_map ns)(nb_key n \<mapsto> n\<lparr> nb_occupied := True \<rparr>) else neighbor_map ns) \<and>
               (\<forall>mac s. single_source s \<longrightarrow>
                  map_option ((!) ns') (neighbor_db_find_by_source (Some ns') (Some mac) s) =
                  neighbor_map ns' (mac, s)) \<and>
               neighbor_db_update (Some ns) (Some n) =
                 (if nb_key n \<in> dom (neighbor_map ns) then neighbor_db_add (Some ns) (Some n)
                  else (False, Some ns))"
proof -
  let ?db = "neighbor_db_add (Some ns) (Some n)"
  have t: "\<exists>m. Some ns = Some m \<and> neighbors_inv m" using assms(1) by simp
  obtain ns' where ns': "snd ?db = Some ns'" "neighbors_inv ns'"
    using nbt.put_spec(1) [OF t assms(2)] by auto
  have "map_option ((!) ns') (neighbor_db_find_by_source (Some ns') (Some mac) s) = neighbor_map ns' (mac, s)"
    if "single_source s" for mac s
    using neighbor_lookup_map [OF ns'(2), of "(mac, s)"] that by (simp add: neighbor_lookup_def)
  then show "\<exists>ns'. ?db = (nb_key n \<in> dom (neighbor_map ns) \<or> neighbor_db_count (Some ns) < 32, Some ns') \<and>
               neighbors_inv ns' \<and>
               neighbor_map ns' =
                 (if nb_key n \<in> dom (neighbor_map ns) \<or> neighbor_db_count (Some ns) < 32
                  then (neighbor_map ns)(nb_key n \<mapsto> n\<lparr> nb_occupied := True \<rparr>) else neighbor_map ns) \<and>
               (\<forall>mac s. single_source s \<longrightarrow>
                  map_option ((!) ns') (neighbor_db_find_by_source (Some ns') (Some mac) s) =
                  neighbor_map ns' (mac, s)) \<and>
               neighbor_db_update (Some ns) (Some n) =
                 (if nb_key n \<in> dom (neighbor_map ns) then neighbor_db_add (Some ns) (Some n)
                  else (False, Some ns))"
    using nbt.put_spec(2,3) [OF t assms(2)] ns' neighbor_map_card [OF assms(1)]
      neighbor_db_update_puts [OF assms]
    by (intro exI [of _ ns']) (simp add: prod_eq_iff stored_def)
qed

definition example_neighbor :: "u8 \<Rightarrow> u8 \<Rightarrow> neighbor" where
  "example_neighbor m s =
     neighbor_zero\<lparr> nb_mac := [0x02, 0, 0, 0, 0, m], nb_discovery_sources := s, nb_ttl := 120 \<rparr>"

lemma neighbor_db_refines_bounded_map_witness:
  "\<exists>ns'. neighbor_db_add (Some (replicate 32 neighbor_zero)) (Some (example_neighbor 7 2)) =
           (True, Some ns') \<and>
         map_option ((!) ns') (neighbor_db_find_by_source (Some ns') (Some [2, 0, 0, 0, 0, 7]) 2) =
           Some ((example_neighbor 7 2)\<lparr> nb_occupied := True \<rparr>)"
proof -
  let ?ns = "replicate 32 neighbor_zero" and ?n = "example_neighbor 7 2"
  have s: "single_source (nb_discovery_sources ?n)" "single_source 2"
    by (simp_all add: example_neighbor_def single_source_def neighbor_sources)
  have inv: "neighbors_inv ?ns" using neighbors_inv_zero by simp
  have c: "neighbor_db_count (Some ?ns) = 0" "nb_key ?n = ([2, 0, 0, 0, 0, 7], 2)"
    by (simp_all add: neighbor_db_count_def filter_replicate neighbor_zero_def nb_key_def
          example_neighbor_def)
  obtain ns' where "neighbor_db_add (Some ?ns) (Some ?n) = (True, Some ns')"
    and m: "neighbor_map ns' = (neighbor_map ?ns)(nb_key ?n \<mapsto> ?n\<lparr> nb_occupied := True \<rparr>)"
    and l: "\<forall>mac s. single_source s \<longrightarrow>
          map_option ((!) ns') (neighbor_db_find_by_source (Some ns') (Some mac) s) =
          neighbor_map ns' (mac, s)"
    using neighbor_db_refines_bounded_map [OF inv s(1)] c by auto
  moreover have "neighbor_map ns' ([2, 0, 0, 0, 0, 7], 2) = Some (?n\<lparr> nb_occupied := True \<rparr>)"
    by (simp add: m c)
  ultimately show ?thesis
    using l [rule_format, OF s(2), of "[2, 0, 0, 0, 0, 7]"] by (intro exI [of _ ns']) simp
qed

text \<open>
  Browsing by source. The entries at positions 0, 1, ... of a source are exactly the occupied
  entries of that source, in table order and without repetition; there are as many positions as
  \<open>neighbor_db_count_by_source\<close> says, and asking beyond them returns NULL. After the source is
  cleared its count is 0, every other key keeps its entry, and the invariant holds.
\<close>

theorem neighbor_db_browse_and_clear:
  assumes "neighbors_inv ns" and "single_source s"
  shows "map (neighbor_db_get_by_source (Some ns) s) [0..<neighbor_db_count_by_source (Some ns) s] =
           map Some (filter (\<lambda>i. nb_occupied (ns ! i) \<and> nb_discovery_sources (ns ! i) = s)
                      [0..<length ns]) \<and>
         (\<forall>p\<ge>neighbor_db_count_by_source (Some ns) s. neighbor_db_get_by_source (Some ns) s p = None) \<and>
         (\<exists>ns'. neighbor_db_clear_by_source (Some ns) s = Some ns' \<and> neighbors_inv ns' \<and>
               neighbor_db_count_by_source (Some ns') s = 0 \<and>
               neighbor_map ns' = neighbor_map ns |` {k. snd k \<noteq> s})"
proof (intro conjI)
  let ?p = "\<lambda>n. nb_occupied n \<and> has_source s n"
  let ?is = "filter (\<lambda>i. ?p (ns ! i)) [0..<length ns]"
  have is_eq: "?is = filter (\<lambda>i. nb_occupied (ns ! i) \<and> nb_discovery_sources (ns ! i) = s) [0..<length ns]"
    using has_single_source [OF assms(2)] neighbors_inv_source [OF assms(1)]
    by (intro filter_cong) auto
  have len: "length ?is = neighbor_db_count_by_source (Some ns) s"
    unfolding neighbor_db_count_by_source_def by (simp add: length_filter_upt [of ?p])
  have get: "neighbor_db_get_by_source (Some ns) s p =
        (if p < neighbor_db_count_by_source (Some ns) s then Some (?is ! p) else None)" for p
    unfolding neighbor_db_get_by_source_def len [symmetric] by (simp add: match_at_filter Let_def)
  show "map (neighbor_db_get_by_source (Some ns) s) [0..<neighbor_db_count_by_source (Some ns) s] =
        map Some (filter (\<lambda>i. nb_occupied (ns ! i) \<and> nb_discovery_sources (ns ! i) = s) [0..<length ns])"
    unfolding is_eq [symmetric] by (rule nth_equalityI) (simp_all add: get len)
  show "\<forall>p\<ge>neighbor_db_count_by_source (Some ns) s. neighbor_db_get_by_source (Some ns) s p = None"
    by (simp add: get)
  let ?ns = "map (clear_source_entry s) ns"
  have "{k \<in> dom (neighbor_map ?ns). snd k = s} = {}"
    by (auto simp: neighbor_map_clear [OF assms(1)])
  then have "neighbor_db_count_by_source (Some ?ns) s = 0"
    unfolding count_by_source_card [OF neighbors_inv_clear [OF assms(1)] assms(2)]
    by (simp only: card.empty)
  then show "\<exists>ns'. neighbor_db_clear_by_source (Some ns) s = Some ns' \<and> neighbors_inv ns' \<and>
      neighbor_db_count_by_source (Some ns') s = 0 \<and> neighbor_map ns' = neighbor_map ns |` {k. snd k \<noteq> s}"
    using neighbor_db_clear_by_source_map [OF assms] neighbors_inv_clear [OF assms(1)]
      neighbor_map_clear [OF assms(1)] by blast
qed

lemma neighbor_db_browse_and_clear_witness:
  "map (neighbor_db_get_by_source (Some ((replicate 32 neighbor_zero)[3 := stored (example_neighbor 7 2)])) 2)
     [0..<neighbor_db_count_by_source (Some ((replicate 32 neighbor_zero)[3 := stored (example_neighbor 7 2)])) 2] =
   [Some 3]"
proof -
  let ?ns = "(replicate 32 neighbor_zero)[3 := stored (example_neighbor 7 2)]"
  have s: "single_source (nb_discovery_sources (example_neighbor 7 2))" "single_source 2"
    by (simp_all add: example_neighbor_def single_source_def neighbor_sources)
  have "neighbors_inv (replicate 32 neighbor_zero)" using neighbors_inv_zero by simp
  moreover have "\<forall>j. \<not> at_key (replicate 32 neighbor_zero) (nb_key (example_neighbor 7 2)) j"
    by (auto simp: at_key_def neighbor_zero_def)
  ultimately have inv: "neighbors_inv ?ns"
    using neighbor_map_put(1) [of "replicate 32 neighbor_zero" 3 "example_neighbor 7 2"] s
    by (simp add: neighbor_zero_def)
  have "filter (\<lambda>i. nb_occupied (?ns ! i) \<and> nb_discovery_sources (?ns ! i) = 2) [0..<length ?ns] = [3]"
    by code_simp
  then show ?thesis
    using neighbor_db_browse_and_clear [OF inv s(2)] by simp
qed

end
