(* ===== verification/Frame_Values.thy ===== *)
theory Frame_Values
  imports Prelude
begin

text \<open>
  A value inside a frame: the parsers of type-length-value protocols read a value in place, at an
  offset of the frame. The lemmas turn such reads into reads of the value alone.
\<close>

definition at_value :: "buf \<Rightarrow> nat \<Rightarrow> buf \<Rightarrow> bool" where
  "at_value f p v \<longleftrightarrow> p + length v \<le> length f \<and> take (length v) (drop p f) = v"

lemma at_value_self [simp]: "at_value v 0 v"
  by (simp add: at_value_def)

lemma at_value_nth: "at_value f p v \<Longrightarrow> i < length v \<Longrightarrow> f ! (p + i) = v ! i"
  unfolding at_value_def by (metis add_leD1 nth_drop nth_take)

lemma at_value_rd:
  assumes "at_value f p v"
  shows "0 < length v \<Longrightarrow> rd f p = Some (v ! 0)"
    and "i < length v \<Longrightarrow> rd f (p + i) = Some (v ! i)"
    and "1 < length v \<Longrightarrow> rd_be16 f p = Some (be16 (v ! 0) (v ! 1))"
    and "i + 1 < length v \<Longrightarrow> rd_be16 f (p + i) = Some (be16 (v ! i) (v ! (i + 1)))"
proof -
  have r: "rd f (p + i) = Some (v ! i)" if "i < length v" for i
    using that assms at_value_nth [OF assms that] by (simp add: rd_def at_value_def)
  have r0: "rd f p = Some (v ! 0)" if "0 < length v" using r [OF that] by simp
  show "0 < length v \<Longrightarrow> rd f p = Some (v ! 0)" by (rule r0)
  show "i < length v \<Longrightarrow> rd f (p + i) = Some (v ! i)" by (rule r)
  show "1 < length v \<Longrightarrow> rd_be16 f p = Some (be16 (v ! 0) (v ! 1))"
    using r [of 0] r [of 1] by (cases "v = []") (auto simp: rd_be16_def)
  show "i + 1 < length v \<Longrightarrow> rd_be16 f (p + i) = Some (be16 (v ! i) (v ! (i + 1)))"
    using r [of i] r [of "i + 1"] by (simp add: rd_be16_def add.assoc)
qed

lemma at_value_rd_bytes:
  assumes "at_value f p v"
  shows "i + n \<le> length v \<Longrightarrow> rd_bytes f (p + i) n = Some (take n (drop i v))"
    and "n \<le> length v \<Longrightarrow> rd_bytes f p n = Some (take n v)"
proof -
  have a: "rd_bytes f (p + i) n = Some (take n (drop i v))" if "i + n \<le> length v" for i
  proof -
    have "p + length v \<le> length f" using assms by (simp add: at_value_def)
    then have "take n (drop (p + i) f) = take n (drop i v)"
      using that at_value_nth [OF assms] by (intro nth_equalityI) (auto simp: add.assoc)
    then show ?thesis
      using \<open>p + length v \<le> length f\<close> that by (simp add: rd_bytes_def)
  qed
  then show "i + n \<le> length v \<Longrightarrow> rd_bytes f (p + i) n = Some (take n (drop i v))" .
  show "n \<le> length v \<Longrightarrow> rd_bytes f p n = Some (take n v)" using a [of 0] by simp
qed

lemma at_value_same:
  assumes "at_value f p v"
  shows "i < length v \<Longrightarrow> rd f (p + i) = rd v i"
    and "0 < length v \<Longrightarrow> rd f p = rd v 0"
    and "i + 1 < length v \<Longrightarrow> rd_be16 f (p + i) = rd_be16 v i"
    and "1 < length v \<Longrightarrow> rd_be16 f p = rd_be16 v 0"
    and "i + n \<le> length v \<Longrightarrow> rd_bytes f (p + i) n = rd_bytes v i n"
    and "n \<le> length v \<Longrightarrow> rd_bytes f p n = rd_bytes v 0 n"
proof -
  note r = at_value_rd [OF assms] at_value_rd_bytes [OF assms]
  note s = at_value_rd [OF at_value_self [of v]] at_value_rd_bytes [OF at_value_self [of v]]
  show "i < length v \<Longrightarrow> rd f (p + i) = rd v i" "0 < length v \<Longrightarrow> rd f p = rd v 0"
    using r(1,2) s(1,2) by simp_all
  show "i + 1 < length v \<Longrightarrow> rd_be16 f (p + i) = rd_be16 v i" using r(4) s(4) by simp
  show "1 < length v \<Longrightarrow> rd_be16 f p = rd_be16 v 0" using r(3) s(3) by simp
  show "i + n \<le> length v \<Longrightarrow> rd_bytes f (p + i) n = rd_bytes v i n"
    using r(5) s(5) [of i n] by simp
  show "n \<le> length v \<Longrightarrow> rd_bytes f p n = rd_bytes v 0 n" using r(6) s(6) by simp
qed

end
