(* ===== verification/Lldp.thy ===== *)
theory Lldp
  imports Neighbor_Db Ethernet Frame_Values
begin

text \<open>
  \<open>libraries/protocol_tools/lldp.c\<close>: the LLDP frame parser. The cursor \<open>ptr\<close> is an offset into the
  frame; a TLV length, at most 511, is a natural number. \<open>lldp_info_t\<close> is a record whose character
  arrays are byte lists of the declared sizes. Frames up to \<open>length\<close> bytes lie in the receive
  buffer, which may be longer.
\<close>

section \<open>Data\<close>

record lldp_info =
  li_chassis_id :: buf
  li_port_id :: buf
  li_system_name :: buf
  li_system_description :: buf
  li_management_address :: buf
  li_source_mac :: buf
  li_chassis_id_subtype :: u8
  li_port_id_subtype :: u8
  li_ttl :: u16
  li_system_capabilities :: u16
  li_enabled_capabilities :: u16
  li_vlan_id :: u16
  li_pvid :: u16
  li_vlan_name :: buf
  li_has_pvid :: bool
  li_has_vlan_name :: bool
  li_network_policy_vlan :: u16
  li_has_network_policy :: bool
  li_poe_supported :: bool
  li_poe_power_pair :: u8
  li_poe_power_class :: u8
  li_poe_type_source_priority :: u8
  li_poe_requested_power :: u16
  li_poe_allocated_power :: u16
  li_poe_power_watts :: u16
  li_poe_requested_power_watts :: u16
  li_poe_allocated_power_watts :: u16
  li_poe_power_type :: u8
  li_poe_power_source :: u8
  li_poe_power_priority :: u8
  li_has_poe_mdi :: bool
  li_has_poe :: bool
  li_has_poe_power_values :: bool
  li_valid :: bool

definition lldp_info_zero :: lldp_info where
  "lldp_info_zero =
     \<lparr> li_chassis_id = replicate 64 0, li_port_id = replicate 64 0, li_system_name = replicate 64 0,
       li_system_description = replicate 128 0, li_management_address = replicate 48 0,
       li_source_mac = replicate 6 0, li_chassis_id_subtype = 0, li_port_id_subtype = 0, li_ttl = 0,
       li_system_capabilities = 0, li_enabled_capabilities = 0, li_vlan_id = 0, li_pvid = 0,
       li_vlan_name = replicate 64 0, li_has_pvid = False, li_has_vlan_name = False,
       li_network_policy_vlan = 0, li_has_network_policy = False, li_poe_supported = False,
       li_poe_power_pair = 0, li_poe_power_class = 0, li_poe_type_source_priority = 0,
       li_poe_requested_power = 0, li_poe_allocated_power = 0, li_poe_power_watts = 0,
       li_poe_requested_power_watts = 0, li_poe_allocated_power_watts = 0, li_poe_power_type = 0,
       li_poe_power_source = 0, li_poe_power_priority = 0, li_has_poe_mdi = False,
       li_has_poe = False, li_has_poe_power_values = False, li_valid = False \<rparr>"

definition LLDP_OUI_IEEE_802_1 :: u32 where "LLDP_OUI_IEEE_802_1 = 0x0080C2"
definition LLDP_OUI_IEEE_802_3 :: u32 where "LLDP_OUI_IEEE_802_3 = 0x00120F"
definition LLDP_OUI_LLDP_MED :: u32 where "LLDP_OUI_LLDP_MED = 0x0012BB"

lemmas lldp_ouis = LLDP_OUI_IEEE_802_1_def LLDP_OUI_IEEE_802_3_def LLDP_OUI_LLDP_MED_def

section \<open>Field helpers\<close>

text \<open>\<open>lldp_mac_to_string\<close> and \<open>lldp_ipv4_to_string\<close> read their bytes at \<open>ptr\<close>, offset \<open>p\<close>.\<close>

definition lldp_mac_to_string :: "buf \<Rightarrow> nat \<Rightarrow> buf \<Rightarrow> buf option" where
  "lldp_mac_to_string f p output =
     (if length output < 18 then Some output
      else do { mac \<leftarrow> rd_bytes f p 6; Some (snprintf_to output (mac_text mac)) })"

definition lldp_ipv4_to_string :: "buf \<Rightarrow> nat \<Rightarrow> buf \<Rightarrow> buf option" where
  "lldp_ipv4_to_string f p output =
     do { ip \<leftarrow> rd_bytes f p 4; Some (snprintf_to output (ipv4_text ip)) }"

definition lldp_copy_string_field :: "buf \<Rightarrow> nat \<Rightarrow> nat \<Rightarrow> buf \<Rightarrow> buf option" where
  "lldp_copy_string_field f p length_arg dst =
     (if length dst = 0 then Some dst
      else let copy_length = (if length_arg \<ge> length dst then length dst - 1 else length_arg)
           in do { s \<leftarrow> rd_bytes f p copy_length;
                   d \<leftarrow> wr_bytes dst 0 s;
                   wr_bytes d copy_length [0] })"

definition oui24 :: "buf \<Rightarrow> nat \<Rightarrow> u32 option" where
  "oui24 f p =
     do { a \<leftarrow> rd f p; b \<leftarrow> rd f (p + 1); c \<leftarrow> rd f (p + 2);
          Some (push_bit 16 (ucast a) OR push_bit 8 (ucast b) OR ucast c) }"

section \<open>One TLV\<close>

definition lldp_parse_chassis_id :: "buf \<Rightarrow> nat \<Rightarrow> nat \<Rightarrow> lldp_info \<Rightarrow> lldp_info option" where
  "lldp_parse_chassis_id f p tlv_length info =
     (if tlv_length < 2 then Some info
      else do { subtype \<leftarrow> rd f p;
                let info = info\<lparr> li_chassis_id_subtype := subtype \<rparr>;
                if subtype = 4 then
                  (if tlv_length = 7
                   then do { t \<leftarrow> lldp_mac_to_string f (p + 1) (li_chassis_id info);
                             Some (info\<lparr> li_chassis_id := t \<rparr>) }
                   else Some info)
                else if subtype = 5 then
                  (if tlv_length = 6
                   then do { family \<leftarrow> rd f (p + 1);
                             if family = 1
                             then do { t \<leftarrow> lldp_ipv4_to_string f (p + 2) (li_chassis_id info);
                                       Some (info\<lparr> li_chassis_id := t \<rparr>) }
                             else Some info }
                   else Some info)
                else if subtype \<in> {3, 2, 1, 6, 7} then
                  do { t \<leftarrow> lldp_copy_string_field f (p + 1) (tlv_length - 1) (li_chassis_id info);
                       Some (info\<lparr> li_chassis_id := t \<rparr>) }
                else Some info })"

definition lldp_parse_port_id :: "buf \<Rightarrow> nat \<Rightarrow> nat \<Rightarrow> lldp_info \<Rightarrow> lldp_info option" where
  "lldp_parse_port_id f p tlv_length info =
     (if tlv_length < 2 then Some info
      else do { subtype \<leftarrow> rd f p;
                let info = info\<lparr> li_port_id_subtype := subtype \<rparr>;
                if subtype = 3 then
                  (if tlv_length = 7
                   then do { t \<leftarrow> lldp_mac_to_string f (p + 1) (li_port_id info);
                             Some (info\<lparr> li_port_id := t \<rparr>) }
                   else Some info)
                else if subtype = 4 then
                  (if tlv_length = 6
                   then do { family \<leftarrow> rd f (p + 1);
                             if family = 1
                             then do { t \<leftarrow> lldp_ipv4_to_string f (p + 2) (li_port_id info);
                                       Some (info\<lparr> li_port_id := t \<rparr>) }
                             else Some info }
                   else Some info)
                else if subtype \<in> {1, 2, 5, 6, 7} then
                  do { t \<leftarrow> lldp_copy_string_field f (p + 1) (tlv_length - 1) (li_port_id info);
                       Some (info\<lparr> li_port_id := t \<rparr>) }
                else Some info })"

definition lldp_parse_ttl :: "buf \<Rightarrow> nat \<Rightarrow> nat \<Rightarrow> lldp_info \<Rightarrow> lldp_info option" where
  "lldp_parse_ttl f p tlv_length info =
     (if tlv_length \<noteq> 2 then Some info
      else do { t \<leftarrow> rd_be16 f p; Some (info\<lparr> li_ttl := t \<rparr>) })"

definition lldp_parse_system_name :: "buf \<Rightarrow> nat \<Rightarrow> nat \<Rightarrow> lldp_info \<Rightarrow> lldp_info option" where
  "lldp_parse_system_name f p tlv_length info =
     (if tlv_length = 0 then Some info
      else do { t \<leftarrow> lldp_copy_string_field f p tlv_length (li_system_name info);
                Some (info\<lparr> li_system_name := t \<rparr>) })"

definition lldp_parse_system_description :: "buf \<Rightarrow> nat \<Rightarrow> nat \<Rightarrow> lldp_info \<Rightarrow> lldp_info option" where
  "lldp_parse_system_description f p tlv_length info =
     (if tlv_length = 0 then Some info
      else do { t \<leftarrow> lldp_copy_string_field f p tlv_length (li_system_description info);
                Some (info\<lparr> li_system_description := t \<rparr>) })"

definition lldp_parse_system_capabilities :: "buf \<Rightarrow> nat \<Rightarrow> nat \<Rightarrow> lldp_info \<Rightarrow> lldp_info option" where
  "lldp_parse_system_capabilities f p tlv_length info =
     (if tlv_length \<noteq> 4 then Some info
      else do { s \<leftarrow> rd_be16 f p; e \<leftarrow> rd_be16 f (p + 2);
                Some (info\<lparr> li_system_capabilities := s, li_enabled_capabilities := e \<rparr>) })"

definition lldp_parse_management_address :: "buf \<Rightarrow> nat \<Rightarrow> nat \<Rightarrow> lldp_info \<Rightarrow> lldp_info option" where
  "lldp_parse_management_address f p tlv_length info =
     (if tlv_length < 2 then Some info
      else do { address_length \<leftarrow> rd f p;
                if address_length \<noteq> 5 then Some info
                else do { subtype \<leftarrow> rd f (p + 1);
                          if subtype \<noteq> 1 then Some info
                          else if tlv_length < 6 then Some info
                          else do { t \<leftarrow> lldp_ipv4_to_string f (p + 2) (li_management_address info);
                                    Some (info\<lparr> li_management_address := t \<rparr>) } } })"

definition lldp_parse_pvid :: "buf \<Rightarrow> nat \<Rightarrow> nat \<Rightarrow> lldp_info \<Rightarrow> lldp_info option" where
  "lldp_parse_pvid f p tlv_length info =
     (if tlv_length \<noteq> 6 then Some info
      else do { oui \<leftarrow> oui24 f p;
                if oui \<noteq> LLDP_OUI_IEEE_802_1 then Some info
                else do { subtype \<leftarrow> rd f (p + 3);
                          if subtype \<noteq> 1 then Some info
                          else do { v \<leftarrow> rd_be16 f (p + 4);
                                    Some (info\<lparr> li_pvid := v, li_has_pvid := True \<rparr>) } } })"

definition lldp_parse_vlan_name :: "buf \<Rightarrow> nat \<Rightarrow> nat \<Rightarrow> lldp_info \<Rightarrow> lldp_info option" where
  "lldp_parse_vlan_name f p tlv_length info =
     (if tlv_length < 7 then Some info
      else do { oui \<leftarrow> oui24 f p;
                if oui \<noteq> LLDP_OUI_IEEE_802_1 then Some info
                else do { subtype \<leftarrow> rd f (p + 3);
                          if subtype \<noteq> 3 then Some info
                          else do { vlan_id \<leftarrow> rd_be16 f (p + 4);
                                    n \<leftarrow> rd f (p + 6);
                                    if n = 0 then Some info
                                    else if 7 + unat n \<noteq> tlv_length then Some info
                                    else do { t \<leftarrow> lldp_copy_string_field f (p + 7) (unat n) (li_vlan_name info);
                                              Some (info\<lparr> li_vlan_name := t, li_vlan_id := vlan_id,
                                                          li_has_vlan_name := True \<rparr>) } } } })"

definition lldp_parse_network_policy :: "buf \<Rightarrow> nat \<Rightarrow> nat \<Rightarrow> lldp_info \<Rightarrow> lldp_info option" where
  "lldp_parse_network_policy f p tlv_length info =
     (if tlv_length \<noteq> 8 then Some info
      else do { oui \<leftarrow> oui24 f p;
                if oui \<noteq> LLDP_OUI_LLDP_MED then Some info
                else do { subtype \<leftarrow> rd f (p + 3);
                          if subtype \<noteq> 2 then Some info
                          else do { b5 \<leftarrow> rd f (p + 5); b6 \<leftarrow> rd f (p + 6);
                                    Some (info\<lparr> li_network_policy_vlan :=
                                                  push_bit 7 (ucast (b5 AND 0x1F)) OR ucast (drop_bit 1 b6),
                                                li_has_network_policy := True \<rparr>) } } })"

definition lldp_parse_poe_8023 :: "buf \<Rightarrow> nat \<Rightarrow> nat \<Rightarrow> lldp_info \<Rightarrow> lldp_info option" where
  "lldp_parse_poe_8023 f p tlv_length info =
     (if tlv_length < 7 then Some info
      else do { oui \<leftarrow> oui24 f p;
                if oui \<noteq> LLDP_OUI_IEEE_802_3 then Some info
                else do { subtype \<leftarrow> rd f (p + 3);
                          if subtype \<noteq> 2 then Some info
                          else do { power_mdi \<leftarrow> rd f (p + 4); pair \<leftarrow> rd f (p + 5); c \<leftarrow> rd f (p + 6);
                                    Some (info\<lparr> li_poe_power_type := (if power_mdi AND 1 \<noteq> 0 then 0 else 1),
                                                li_poe_supported := (power_mdi AND 2 \<noteq> 0),
                                                li_poe_type_source_priority := power_mdi,
                                                li_poe_power_pair := pair, li_poe_power_class := c,
                                                li_has_poe_mdi := True, li_has_poe := True \<rparr>) } } })"

definition lldp_parse_poe_med :: "buf \<Rightarrow> nat \<Rightarrow> nat \<Rightarrow> lldp_info \<Rightarrow> lldp_info option" where
  "lldp_parse_poe_med f p tlv_length info =
     (if tlv_length \<noteq> 7 then Some info
      else do { oui \<leftarrow> oui24 f p;
                if oui \<noteq> LLDP_OUI_LLDP_MED then Some info
                else do { subtype \<leftarrow> rd f (p + 3);
                          if subtype \<noteq> 4 then Some info
                          else do { power_info \<leftarrow> rd f (p + 4); w \<leftarrow> rd_be16 f (p + 5);
                                    Some (info\<lparr> li_poe_type_source_priority := power_info,
                                                li_poe_power_type := drop_bit 6 power_info AND 3,
                                                li_poe_power_source := drop_bit 4 power_info AND 3,
                                                li_poe_power_priority := power_info AND 0x0F,
                                                li_poe_power_watts := w, li_has_poe := True,
                                                li_has_poe_power_values := True \<rparr>) } } })"

definition lldp_parse_organizational_tlv :: "buf \<Rightarrow> nat \<Rightarrow> nat \<Rightarrow> lldp_info \<Rightarrow> lldp_info option" where
  "lldp_parse_organizational_tlv f p tlv_length info =
     (if tlv_length < 4 then Some info
      else do { oui \<leftarrow> oui24 f p;
                subtype \<leftarrow> rd f (p + 3);
                if oui = LLDP_OUI_IEEE_802_1 then
                  (if subtype = 1 then lldp_parse_pvid f p tlv_length info
                   else if subtype = 3 then lldp_parse_vlan_name f p tlv_length info
                   else Some info)
                else if oui = LLDP_OUI_IEEE_802_3 then
                  (if subtype = 2 then lldp_parse_poe_8023 f p tlv_length info else Some info)
                else if oui = LLDP_OUI_LLDP_MED then
                  (if subtype = 2 then lldp_parse_network_policy f p tlv_length info
                   else if subtype = 4 then lldp_parse_poe_med f p tlv_length info
                   else Some info)
                else Some info })"

text \<open>The switch over the TLV type.\<close>

definition lldp_parse_tlv :: "buf \<Rightarrow> nat \<Rightarrow> u8 \<Rightarrow> nat \<Rightarrow> lldp_info \<Rightarrow> lldp_info option" where
  "lldp_parse_tlv f p tlv_type tlv_length info =
     (if tlv_type = 1 then lldp_parse_chassis_id f p tlv_length info
      else if tlv_type = 2 then lldp_parse_port_id f p tlv_length info
      else if tlv_type = 3 then lldp_parse_ttl f p tlv_length info
      else if tlv_type = 5 then lldp_parse_system_name f p tlv_length info
      else if tlv_type = 6 then lldp_parse_system_description f p tlv_length info
      else if tlv_type = 7 then lldp_parse_system_capabilities f p tlv_length info
      else if tlv_type = 8 then lldp_parse_management_address f p tlv_length info
      else if tlv_type = 127 then lldp_parse_organizational_tlv f p tlv_length info
      else Some info)"

section \<open>The frame\<close>

text \<open>The while loop from cursor \<open>p\<close>, with \<open>e\<close> the end of the frame.\<close>

definition tlv_type_of :: "u16 \<Rightarrow> u8" where
  "tlv_type_of h = ucast (drop_bit 9 h AND 0x7F)"

definition tlv_length_of :: "u16 \<Rightarrow> nat" where
  "tlv_length_of h = unat (h AND 0x1FF)"

function lldp_parse_from :: "buf \<Rightarrow> nat \<Rightarrow> nat \<Rightarrow> lldp_info \<Rightarrow> (bool \<times> lldp_info) option" where
  "lldp_parse_from f e p info =
     (if p + 2 \<le> e
      then do { tlv_header \<leftarrow> rd_be16 f p;
                if p + 2 + tlv_length_of tlv_header > e then Some (False, info)
                else if tlv_type_of tlv_header = 0 then Some (True, info\<lparr> li_valid := True \<rparr>)
                else do { info \<leftarrow> lldp_parse_tlv f (p + 2) (tlv_type_of tlv_header)
                                     (tlv_length_of tlv_header) info;
                          lldp_parse_from f e (p + 2 + tlv_length_of tlv_header) info } }
      else Some (False, info))"
  by pat_completeness auto
termination by (relation "measure (\<lambda>(f, e, p, info). e - p)") auto

declare lldp_parse_from.simps [simp del]

definition lldp_parse ::
  "buf ptr \<Rightarrow> u16 \<Rightarrow> lldp_info ptr \<Rightarrow> (bool \<times> lldp_info ptr) option" where
  "lldp_parse frame length_arg info =
     (case (frame, info) of
        (Some f, Some _) \<Rightarrow>
          if unat length_arg \<le> ETHERNET_HEADER_LEN then Some (False, info)
          else do { header \<leftarrow> ethernet_get_header f;
                    r \<leftarrow> lldp_parse_from f (unat length_arg) ETHERNET_HEADER_LEN
                           (lldp_info_zero\<lparr> li_source_mac := eth_mac_source header \<rparr>);
                    Some (fst r, Some (snd r)) }
      | _ \<Rightarrow> Some (False, info))"

definition is_lldp :: "buf ptr \<Rightarrow> bool option" where
  "is_lldp buffer =
     (case buffer of None \<Rightarrow> Some False
      | Some b \<Rightarrow> do { header \<leftarrow> ethernet_get_header b; Some (eth_ethertype header = 0x88CC) })"

text \<open>
  \<open>lldp_fill_neighbor\<close>: \<open>memset\<close> of the entry, then the fields. \<open>strncpy\<close> of at most the array
  size less one leaves the terminator that \<open>memset\<close> wrote.
\<close>

definition lldp_fill_neighbor :: "lldp_info ptr \<Rightarrow> neighbor ptr \<Rightarrow> bool \<times> neighbor ptr" where
  "lldp_fill_neighbor info entry =
     (case (info, entry) of
        (Some i, Some _) \<Rightarrow>
          if \<not> li_valid i then (False, entry)
          else
            let z = neighbor_zero;
                n = z\<lparr> nb_mac := li_source_mac i,
                       nb_lldp_chassis_subtype := li_chassis_id_subtype i,
                       nb_lldp_port_subtype := li_port_id_subtype i,
                       nb_name := strncpy_to (nb_name z) (li_system_name i) 63,
                       nb_port := strncpy_to (nb_port z) (li_port_id i) 63,
                       nb_management_address :=
                         strncpy_to (nb_management_address z) (li_management_address i) 47,
                       nb_chassis_id := strncpy_to (nb_chassis_id z) (li_chassis_id i) 63,
                       nb_description := strncpy_to (nb_description z) (li_system_description i) 127,
                       nb_ttl := li_ttl i,
                       nb_capabilities := li_system_capabilities i,
                       nb_enabled_capabilities := li_enabled_capabilities i,
                       nb_pvid := li_pvid i, nb_has_pvid := li_has_pvid i,
                       nb_vlan_id := li_vlan_id i \<rparr>;
                n = (if li_has_vlan_name i
                     then n\<lparr> nb_vlan_name := (strncpy_to (nb_vlan_name n) (li_vlan_name i) 63)[63 := 0],
                             nb_has_vlan_name := True \<rparr>
                     else n);
                n = (if li_has_network_policy i
                     then n\<lparr> nb_network_policy_vlan := li_network_policy_vlan i,
                             nb_has_network_policy := True \<rparr>
                     else n)
            in (True, Some (n\<lparr> nb_poe_supported := li_poe_supported i,
                               nb_poe_power_pair := li_poe_power_pair i,
                               nb_poe_power_class := li_poe_power_class i,
                               nb_poe_type_source_priority := li_poe_type_source_priority i,
                               nb_poe_requested_power := li_poe_requested_power i,
                               nb_poe_allocated_power := li_poe_allocated_power i,
                               nb_poe_power_watts := li_poe_power_watts i,
                               nb_poe_requested_power_watts := li_poe_requested_power_watts i,
                               nb_poe_allocated_power_watts := li_poe_allocated_power_watts i,
                               nb_poe_power_type := li_poe_power_type i,
                               nb_poe_power_source := li_poe_power_source i,
                               nb_poe_power_priority := li_poe_power_priority i,
                               nb_has_poe_mdi := li_has_poe_mdi i, nb_has_poe := li_has_poe i,
                               nb_has_poe_power_values := li_has_poe_power_values i,
                               nb_discovery_sources := NEIGHBOR_SOURCE_LLDP,
                               nb_occupied := True \<rparr>))
      | _ \<Rightarrow> (False, entry))"


section \<open>A TLV is read only inside its value\<close>

text \<open>The copy of a string field: the bytes, cut to the array, then a terminator.\<close>

definition field_text :: "nat \<Rightarrow> buf \<Rightarrow> buf" where
  "field_text n s = (if length s \<ge> n then take (n - 1) s else s)"

lemma lldp_copy_at_value:
  assumes "at_value f p v" "i + n \<le> length v" "0 < length dst"
  shows "lldp_copy_string_field f (p + i) n dst =
           Some (let s = field_text (length dst) (take n (drop i v))
                 in s @ 0 # drop (Suc (length s)) dst)"
proof -
  define k where "k = (if n \<ge> length dst then length dst - 1 else n)"
  define s where "s = take k (drop i v)"
  have k: "i + k \<le> length v" "k < length dst" using assms by (auto simp: k_def)
  have s: "field_text (length dst) (take n (drop i v)) = s"
    using assms by (simp add: field_text_def s_def k_def min_def)
  have l: "length s = k" using k by (simp add: s_def)
  have "rd_bytes f (p + i) k = Some s"
    using at_value_rd_bytes(1) [OF assms(1) k(1)] by (simp add: s_def)
  moreover have "wr_bytes dst 0 s = Some (s @ drop k dst)"
    using k l by (simp add: wr_bytes_def)
  moreover have "wr_bytes (s @ drop k dst) k [0] = Some (s @ 0 # drop (Suc k) dst)"
    using wr_bytes_at [of s k "[0]" "drop k dst"] k l by simp
  ultimately show ?thesis
    using k(2) unfolding lldp_copy_string_field_def s k_def [symmetric] Let_def l by auto
qed


definition wf_lldp_info :: "lldp_info \<Rightarrow> bool" where
  "wf_lldp_info i \<longleftrightarrow>
     cstring 64 (li_chassis_id i) \<and> cstring 64 (li_port_id i) \<and> cstring 64 (li_system_name i) \<and>
     cstring 128 (li_system_description i) \<and> cstring 48 (li_management_address i) \<and>
     cstring 64 (li_vlan_name i) \<and> length (li_source_mac i) = 6"

definition lldp_from :: "buf \<Rightarrow> lldp_info \<Rightarrow> bool" where
  "lldp_from m i \<longleftrightarrow> wf_lldp_info i \<and> li_source_mac i = m"

text \<open>
  \<open>tlv_local P\<close>: a TLV parser depends on the bytes of its value only, wherever the value lies in the
  frame, makes no access outside it, and keeps the structure well-formed.
\<close>

definition tlv_local :: "(buf \<Rightarrow> nat \<Rightarrow> nat \<Rightarrow> lldp_info \<Rightarrow> lldp_info option) \<Rightarrow> bool" where
  "tlv_local P \<longleftrightarrow>
     (\<forall>m f p v info. at_value f p v \<longrightarrow> lldp_from m info \<longrightarrow>
        (\<exists>info'. P f p (length v) info = Some info' \<and> P v 0 (length v) info = Some info' \<and>
                 lldp_from m info'))"

lemma field_copy_cstring:
  "0 < length dst \<Longrightarrow> length dst = n \<Longrightarrow>
     cstring n (let s = field_text (length dst) t in s @ 0 # drop (Suc (length s)) dst)"
  by (auto simp: cstring_def field_text_def Let_def)

definition field_copy :: "buf \<Rightarrow> buf \<Rightarrow> buf" where
  "field_copy dst t = (let s = field_text (length dst) t in s @ 0 # drop (Suc (length s)) dst)"

lemma copy_field:
  assumes "at_value f p v" "0 < length dst"
  shows "lldp_copy_string_field f p (length v) dst = Some (field_copy dst v)"
    and "i \<le> length v \<Longrightarrow> lldp_copy_string_field f (p + i) (length v - i) dst = Some (field_copy dst (drop i v))"
    and "i + n \<le> length v \<Longrightarrow> lldp_copy_string_field f (p + i) n dst = Some (field_copy dst (take n (drop i v)))"
  using lldp_copy_at_value [OF assms(1), of 0 "length v"]
    lldp_copy_at_value [OF assms(1), of i "length v - i"]
    lldp_copy_at_value [OF assms(1), of i n] assms(2)
  by (simp_all add: field_copy_def)

lemma field_copy_cstring' [wf_intros]: "length dst = n \<Longrightarrow> 0 < n \<Longrightarrow> cstring n (field_copy dst t)"
  using field_copy_cstring [of dst n t] by (simp add: field_copy_def)

lemma tlv_localI:
  assumes "\<And>m f p v info. at_value f p v \<Longrightarrow> lldp_from m info \<Longrightarrow>
             P f p (length v) info = P v 0 (length v) info"
    and "\<And>m v info. lldp_from m info \<Longrightarrow> runs (P v 0 (length v) info) (lldp_from m)"
  shows "tlv_local P"
  unfolding tlv_local_def
proof (intro allI impI)
  fix m f p v info
  assume a: "at_value f p v" "lldp_from m info"
  show "\<exists>info'. P f p (length v) info = Some info' \<and> P v 0 (length v) info = Some info' \<and>
          lldp_from m info'"
    unfolding assms(1) [OF a] using assms(2) [OF a(2), of v] by (auto simp: runs_iff)
qed

lemma at_value_oui24:
  assumes "at_value f p v" "2 < length v"
  shows "oui24 f p = Some (push_bit 16 (ucast (v ! 0)) OR push_bit 8 (ucast (v ! 1)) OR ucast (v ! 2))"
  using at_value_rd(1) [OF assms(1)] at_value_rd(2) [OF assms(1), of 1]
    at_value_rd(2) [OF assms(1), of 2] assms(2)
  by (cases "v = []") (simp_all add: oui24_def numeral_2_eq_2)

lemma at_value_same_lldp:
  assumes "at_value f p v"
  shows "2 < length v \<Longrightarrow> oui24 f p = oui24 v 0"
    and "i + n \<le> length v \<Longrightarrow> lldp_copy_string_field f (p + i) n dst = lldp_copy_string_field v i n dst"
    and "n \<le> length v \<Longrightarrow> lldp_copy_string_field f p n dst = lldp_copy_string_field v 0 n dst"
    and "i + 6 \<le> length v \<Longrightarrow> lldp_mac_to_string f (p + i) d = lldp_mac_to_string v i d"
    and "i + 4 \<le> length v \<Longrightarrow> lldp_ipv4_to_string f (p + i) d = lldp_ipv4_to_string v i d"
proof -
  note r = at_value_same [OF assms]
  show "oui24 f p = oui24 v 0" if "2 < length v"
    unfolding oui24_def using that r(1) [of 1] r(1) [of 2] r(2) by (cases "v = []") (simp_all add: numeral_2_eq_2)
  show "i + n \<le> length v \<Longrightarrow> lldp_copy_string_field f (p + i) n dst = lldp_copy_string_field v i n dst"
    by (simp add: lldp_copy_string_field_def r)
  show "n \<le> length v \<Longrightarrow> lldp_copy_string_field f p n dst = lldp_copy_string_field v 0 n dst"
    by (simp add: lldp_copy_string_field_def r)
  show "i + 6 \<le> length v \<Longrightarrow> lldp_mac_to_string f (p + i) d = lldp_mac_to_string v i d"
    "i + 4 \<le> length v \<Longrightarrow> lldp_ipv4_to_string f (p + i) d = lldp_ipv4_to_string v i d"
    by (simp_all add: lldp_mac_to_string_def lldp_ipv4_to_string_def r)
qed

lemma runs_copy_field [runs_intros]:
  assumes "i + n \<le> length v" "0 < length dst" "Q (field_copy dst (take n (drop i v)))"
  shows "runs (lldp_copy_string_field v i n dst) Q"
  using copy_field(3) [OF at_value_self assms(2,1)] assms(3) by simp

lemma runs_mac_text [runs_intros]:
  "i + 6 \<le> length v \<Longrightarrow> Q (snprintf_to d (mac_text (take 6 (drop i v)))) \<Longrightarrow> Q d \<Longrightarrow>
     runs (lldp_mac_to_string v i d) Q"
  by (simp add: lldp_mac_to_string_def rd_bytes_in)

lemma runs_ipv4_text [runs_intros]:
  "i + 4 \<le> length v \<Longrightarrow> Q (snprintf_to d (ipv4_text (take 4 (drop i v)))) \<Longrightarrow>
     runs (lldp_ipv4_to_string v i d) Q"
  by (simp add: lldp_ipv4_to_string_def rd_bytes_in)

lemma runs_oui24 [runs_intros]:
  "p + 2 < length v \<Longrightarrow>
     Q (push_bit 16 (ucast (v ! p)) OR push_bit 8 (ucast (v ! (p + 1))) OR ucast (v ! (p + 2))) \<Longrightarrow>
     runs (oui24 v p) Q"
  by (simp add: oui24_def rd_def)

lemma cstring_rewrites [wf_intros]:
  assumes "cstring n a"
  shows "cstring n (field_copy a t)" and "cstring n (snprintf_to a t)"
proof -
  have "length a = n" "0 < n" using assms by (auto simp: cstring_def)
  then show "cstring n (field_copy a t)" "cstring n (snprintf_to a t)"
    by (simp_all add: field_copy_cstring' snprintf_to_cstring)
qed

lemmas tlv_same = at_value_same at_value_same_lldp

lemma lldp_parse_vlan_name_local: "tlv_local lldp_parse_vlan_name"
proof (rule tlv_localI)
  fix m f p v info
  assume a: "at_value f p v"
  have c: "7 + unat n = length v \<Longrightarrow> lldp_copy_string_field f (p + 7) (unat n) d =
             lldp_copy_string_field v 7 (unat n) d" for n :: u8 and d
    by (simp add: at_value_same_lldp [OF a])
  show "lldp_parse_vlan_name f p (length v) info = lldp_parse_vlan_name v 0 (length v) info"
    unfolding lldp_parse_vlan_name_def
    by (simp add: at_value_rd [OF a] at_value_rd [OF at_value_self [of v], simplified] c
        at_value_oui24 [OF a] at_value_oui24 [OF at_value_self]
        del: add_2_eq_Suc' length_greater_0_conv)
next
  fix m v info
  assume "lldp_from m info"
  then show "runs (lldp_parse_vlan_name v 0 (length v) info) (lldp_from m)"
    unfolding lldp_parse_vlan_name_def
    by (intro runs_intros; auto simp: lldp_from_def wf_lldp_info_def intro: wf_intros dest: cstring_length)
qed
lemma tlv_parsers_local:
  "tlv_local lldp_parse_chassis_id" "tlv_local lldp_parse_port_id" "tlv_local lldp_parse_ttl"
  "tlv_local lldp_parse_system_name" "tlv_local lldp_parse_system_description"
  "tlv_local lldp_parse_system_capabilities" "tlv_local lldp_parse_management_address"
  "tlv_local lldp_parse_pvid" "tlv_local lldp_parse_network_policy"
  "tlv_local lldp_parse_poe_8023" "tlv_local lldp_parse_poe_med"
  unfolding lldp_parse_chassis_id_def lldp_parse_port_id_def lldp_parse_ttl_def
    lldp_parse_system_name_def lldp_parse_system_description_def lldp_parse_system_capabilities_def
    lldp_parse_management_address_def lldp_parse_pvid_def
    lldp_parse_network_policy_def lldp_parse_poe_8023_def lldp_parse_poe_med_def Let_def
  by (rule tlv_localI,
      simp add: tlv_same cong: if_cong del: add_2_eq_Suc' One_nat_def length_greater_0_conv,
      (intro runs_intros; auto simp: lldp_from_def wf_lldp_info_def intro: wf_intros dest: cstring_length))+

lemma tlv_local_runs:
  "tlv_local P \<Longrightarrow> lldp_from m info \<Longrightarrow> runs (P v 0 (length v) info) (lldp_from m)"
  unfolding tlv_local_def runs_iff using at_value_self by blast

lemma tlv_local_same:
  assumes "tlv_local P" "at_value f p v" "lldp_from m info"
  shows "P f p (length v) info = P v 0 (length v) info"
  using assms unfolding tlv_local_def by metis


lemma lldp_parse_organizational_tlv_local: "tlv_local lldp_parse_organizational_tlv"
proof (rule tlv_localI)
  fix m f p v info
  assume a: "at_value f p v" and wf: "lldp_from m info"
  note same = tlv_parsers_local [THEN tlv_local_same, OF a wf]
    lldp_parse_vlan_name_local [THEN tlv_local_same, OF a wf]
  show "lldp_parse_organizational_tlv f p (length v) info =
        lldp_parse_organizational_tlv v 0 (length v) info"
    unfolding lldp_parse_organizational_tlv_def
    by (simp add: at_value_same [OF a] at_value_same_lldp [OF a] same cong: if_cong)
next
  fix m v info
  assume "lldp_from m info"
  then show "runs (lldp_parse_organizational_tlv v 0 (length v) info) (lldp_from m)"
    unfolding lldp_parse_organizational_tlv_def
    by (intro runs_intros; simp add: tlv_local_runs tlv_parsers_local lldp_parse_vlan_name_local)
qed


lemma lldp_parse_tlv_local: "tlv_local (\<lambda>f p. lldp_parse_tlv f p t)"
  using tlv_parsers_local lldp_parse_organizational_tlv_local
  unfolding tlv_local_def lldp_parse_tlv_def by simp

section \<open>Frames as lists of TLVs\<close>

text \<open>
  A TLV is a type below 128 and at most 511 bytes. On the wire it is a 16-bit header, type in the
  upper seven bits, and the value.
\<close>

type_synonym tlv = "u8 \<times> buf"

definition wf_tlv :: "tlv \<Rightarrow> bool" where
  "wf_tlv t \<longleftrightarrow> fst t < 128 \<and> length (snd t) < 512"

definition tlv_header :: "tlv \<Rightarrow> u16" where
  "tlv_header t = push_bit 9 (ucast (fst t)) OR of_nat (length (snd t))"

definition enc_tlv :: "tlv \<Rightarrow> buf" where
  "enc_tlv t = hi8 (tlv_header t) # lo8 (tlv_header t) # snd t"

text \<open>What one TLV means, as a function of its value alone.\<close>

definition apply_tlv :: "tlv \<Rightarrow> lldp_info \<Rightarrow> lldp_info" where
  "apply_tlv t info = the (lldp_parse_tlv (snd t) 0 (fst t) (length (snd t)) info)"

lemma apply_tlv:
  assumes "at_value f p v" "lldp_from m info"
  shows "lldp_parse_tlv f p t (length v) info = Some (apply_tlv (t, v) info)"
    and "lldp_from m (apply_tlv (t, v) info)"
  using lldp_parse_tlv_local [of t, unfolded tlv_local_def, rule_format, OF assms]
  by (auto simp: apply_tlv_def)

lemma wf_apply_tlvs: "lldp_from m info \<Longrightarrow> lldp_from m (fold apply_tlv tlvs info)"
  by (induction tlvs arbitrary: info) (auto simp: apply_tlv(2) [OF at_value_self])

lemma tlv_length_unat: "tlv_length_of h = unat h mod 512"
proof -
  have "h AND 0x1FF = take_bit 9 h" by (simp add: take_bit_eq_mask mask_eq_exp_minus_1)
  then show ?thesis by (simp add: tlv_length_of_def take_bit_eq_mod unat_mod)
qed

lemma tlv_type_unat: "unat (tlv_type_of h) = unat h div 512"
proof -
  have "drop_bit 9 h AND 0x7F = take_bit 7 (drop_bit 9 h)"
    by (simp add: take_bit_eq_mask mask_eq_exp_minus_1)
  moreover have "unat h div 512 < 128"
    using unat_u16_less [of h] by (simp add: less_mult_imp_div_less del: unat_u16_less)
  ultimately show ?thesis
    by (simp add: tlv_type_of_def unsigned_ucast_eq take_bit_eq_mod drop_bit_eq_div unat_mod unat_div)
qed

lemma tlv_header_unat:
  assumes "wf_tlv t"
  shows "unat (tlv_header t) = 512 * unat (fst t) + length (snd t)"
proof -
  have n: "length (snd t) < 512" and ty: "unat (fst t) < 128"
    using assms by (auto simp: wf_tlv_def word_less_nat_alt)
  have "take_bit 9 (of_nat (length (snd t)) :: u16) = of_nat (length (snd t))"
    by (rule word_unat_eq_iff [THEN iffD2])
       (use n in \<open>simp add: unsigned_take_bit_eq unat_of_nat_u16 take_bit_nat_eq_self\<close>)
  moreover have "push_bit 9 (ucast (fst t)) AND take_bit 9 (of_nat (length (snd t)) :: u16) = 0"
    by (rule bit_word_eqI) (auto simp: bit_simps)
  ultimately have "tlv_header t = push_bit 9 (ucast (fst t)) + of_nat (length (snd t))"
    by (simp add: tlv_header_def disjunctive_add_eq_or)
  then show ?thesis
    using n ty by (simp add: push_bit_eq_mult unat_word_ariths unat_of_nat_u16)
qed

lemma tlv_header_fields:
  assumes "wf_tlv t"
  shows "tlv_type_of (tlv_header t) = fst t" and "tlv_length_of (tlv_header t) = length (snd t)"
proof -
  have n: "length (snd t) < 512" using assms by (simp add: wf_tlv_def)
  show "tlv_type_of (tlv_header t) = fst t"
    by (rule word_unat_eq_iff [THEN iffD2]) (use n in \<open>simp add: tlv_type_unat tlv_header_unat assms\<close>)
  show "tlv_length_of (tlv_header t) = length (snd t)"
    using n by (simp add: tlv_length_unat tlv_header_unat assms)
qed

lemma tlv_header_decode:
  assumes "length v = tlv_length_of h"
  shows "wf_tlv (tlv_type_of h, v)" and "tlv_header (tlv_type_of h, v) = h"
proof -
  have "unat h div 512 < 128"
    using unat_u16_less [of h] by (simp add: less_mult_imp_div_less del: unat_u16_less)
  then show wf: "wf_tlv (tlv_type_of h, v)"
    using assms by (simp add: wf_tlv_def word_less_nat_alt tlv_type_unat tlv_length_unat)
  show "tlv_header (tlv_type_of h, v) = h"
    by (rule word_unat_eq_iff [THEN iffD2])
       (simp add: tlv_header_unat [OF wf] tlv_type_unat tlv_length_unat assms)
qed

text \<open>The loop on an encoded TLV, on the End TLV, and on a cut-off tail.\<close>

lemma lldp_parse_from_tlv:
  assumes "wf_tlv t" "fst t \<noteq> 0" "lldp_from m info"
    and "f = pre @ enc_tlv t @ rest" "length pre = p" "p + length (enc_tlv t) \<le> e"
  shows "lldp_parse_from f e p info =
           lldp_parse_from f e (p + length (enc_tlv t)) (apply_tlv t info)"
proof -
  have rd: "rd_be16 f p = Some (tlv_header t)"
    using assms(4,5) by (simp add: rd_be16_def rd_def enc_tlv_def nth_append)
  have at: "at_value f (p + 2) (snd t)"
    using assms(4,5) by (auto simp: at_value_def enc_tlv_def)
  have len: "length (enc_tlv t) = 2 + length (snd t)" by (simp add: enc_tlv_def)
  have "apply_tlv (fst t, snd t) info = apply_tlv t info" by simp
  then show ?thesis
    using assms(2,6) rd apply_tlv(1) [OF at assms(3), of "fst t"]
    by (subst lldp_parse_from.simps) (simp add: tlv_header_fields [OF assms(1)] len)
qed

lemma lldp_parse_from_end:
  assumes "wf_tlv t" "fst t = 0" "f = pre @ enc_tlv t @ rest" "length pre = p"
    and "p + length (enc_tlv t) \<le> e"
  shows "lldp_parse_from f e p info = Some (True, info\<lparr> li_valid := True \<rparr>)"
proof -
  have rd: "rd_be16 f p = Some (tlv_header t)"
    using assms(3,4) by (simp add: rd_be16_def rd_def enc_tlv_def nth_append)
  have len: "length (enc_tlv t) = 2 + length (snd t)" by (simp add: enc_tlv_def)
  show ?thesis
    using assms(2,5) rd
    by (subst lldp_parse_from.simps) (simp add: tlv_header_fields [OF assms(1)] len)
qed

lemma lldp_parse_from_tlvs:
  assumes "\<forall>t\<in>set tlvs. wf_tlv t \<and> fst t \<noteq> 0" "wf_tlv last_tlv" "fst last_tlv = 0"
    and "lldp_from m info"
    and "f = pre @ concat (map enc_tlv tlvs) @ enc_tlv last_tlv @ rest" "length pre = p"
    and "p + length (concat (map enc_tlv tlvs) @ enc_tlv last_tlv) \<le> e"
  shows "lldp_parse_from f e p info = Some (True, (fold apply_tlv tlvs info)\<lparr> li_valid := True \<rparr>)"
  using assms
proof (induction tlvs arbitrary: info pre p)
  case Nil
  then show ?case using lldp_parse_from_end [of last_tlv f pre rest p e info] by simp
next
  case (Cons t ts)
  let ?rest = "concat (map enc_tlv ts) @ enc_tlv last_tlv @ rest"
  have t: "wf_tlv t" "fst t \<noteq> 0" using Cons.prems(1) by auto
  have "lldp_parse_from f e p info = lldp_parse_from f e (p + length (enc_tlv t)) (apply_tlv t info)"
    using lldp_parse_from_tlv [OF t Cons.prems(4), of f pre ?rest p e] Cons.prems(5,6,7) by simp
  also have "\<dots> = Some (True, (fold apply_tlv ts (apply_tlv t info))\<lparr> li_valid := True \<rparr>)"
    using Cons.prems apply_tlv(2) [OF at_value_self Cons.prems(4), of "fst t" "snd t"]
    by (intro Cons.IH [of _ "pre @ enc_tlv t"]) (simp_all add: add.assoc)
  finally show ?case by simp
qed


text \<open>
  The payload of an LLDP data unit: TLVs that are not End, an End TLV, and anything after it.
\<close>

definition lldpdu :: "buf \<Rightarrow> tlv list \<Rightarrow> bool" where
  "lldpdu payload tlvs \<longleftrightarrow>
     (\<forall>t\<in>set tlvs. wf_tlv t \<and> fst t \<noteq> 0) \<and>
     (\<exists>last_tlv rest. wf_tlv last_tlv \<and> fst last_tlv = 0 \<and>
        payload = concat (map enc_tlv tlvs) @ enc_tlv last_tlv @ rest)"

lemma lldpdu_nonempty: "\<not> lldpdu [] tlvs"
  by (auto simp: lldpdu_def enc_tlv_def)

lemma enc_tlv_at:
  assumes "rd_be16 f p = Some h" "p + 2 + tlv_length_of h \<le> e" "e \<le> length f"
  shows "at_value f (p + 2) (take (tlv_length_of h) (drop (p + 2) f))"
    and "length (take (tlv_length_of h) (drop (p + 2) f)) = tlv_length_of h"
    and "drop p (take e f) =
           enc_tlv (tlv_type_of h, take (tlv_length_of h) (drop (p + 2) f)) @
           drop (p + 2 + tlv_length_of h) (take e f)"
proof -
  let ?n = "tlv_length_of h"
  let ?v = "take ?n (drop (p + 2) f)"
  show len: "length ?v = ?n" using assms by simp
  show "at_value f (p + 2) ?v" using assms len by (simp add: at_value_def)
  have h: "h = be16 (f ! p) (f ! Suc p)" "Suc p < length f"
    using assms(1) by (auto simp: rd_be16_def rd_def split: if_splits)
  have "drop p (take e f) = take e f ! p # take e f ! Suc p # drop (Suc (Suc p)) (take e f)"
    using assms(2,3) Cons_nth_drop_Suc [of p "take e f"] Cons_nth_drop_Suc [of "Suc p" "take e f"]
    by simp
  also have "drop (Suc (Suc p)) (take e f) = ?v @ drop (p + 2 + ?n) (take e f)"
  proof -
    have "take ?n (drop (p + 2) (take e f)) = ?v"
      using assms(2) by (simp add: drop_take min_def)
    then show ?thesis
      using append_take_drop_id [of ?n "drop (p + 2) (take e f)"] by (simp add: add.commute add.left_commute)
  qed
  finally show "drop p (take e f) = enc_tlv (tlv_type_of h, ?v) @ drop (p + 2 + ?n) (take e f)"
    using assms(2) h tlv_header_decode(2) [OF len] by (simp add: enc_tlv_def)
qed

lemma lldp_parse_from_sound:
  assumes "e \<le> length f" "p \<le> e" "lldp_from m info"
  shows "runs (lldp_parse_from f e p info) (\<lambda>(ok, info').
           lldp_from m info' \<and>
           (ok \<longrightarrow> (\<exists>tlvs. lldpdu (drop p (take e f)) tlvs \<and>
                           info' = (fold apply_tlv tlvs info)\<lparr> li_valid := True \<rparr>)))"
  using assms
proof (induction f e p info rule: lldp_parse_from.induct)
  case (1 f e p info)
  show ?case
  proof (cases "p + 2 \<le> e")
    case False
    then show ?thesis using "1.prems" by (subst lldp_parse_from.simps) simp
  next
    case in_frame: True
    then obtain h where h: "rd_be16 f p = Some h"
      using "1.prems"(1) by (simp add: rd_be16_in)
    let ?n = "tlv_length_of h" and ?ty = "tlv_type_of h"
    let ?v = "take ?n (drop (p + 2) f)"
    show ?thesis
    proof (cases "p + 2 + ?n > e")
      case True
      then show ?thesis using "1.prems" in_frame h by (subst lldp_parse_from.simps) simp
    next
      case False
      then have room: "p + 2 + ?n \<le> e" by simp
      note enc = enc_tlv_at [OF h room "1.prems"(1)]
      note wf = tlv_header_decode(1) [OF enc(2)]
      show ?thesis
      proof (cases "?ty = 0")
        case True
        have "lldpdu (drop p (take e f)) []"
          unfolding lldpdu_def enc(3) using wf True by auto
        moreover have "lldp_from m (info\<lparr> li_valid := True \<rparr>)"
          using "1.prems"(3) by (auto simp: lldp_from_def wf_lldp_info_def)
        moreover have "lldp_parse_from f e p info = Some (True, info\<lparr> li_valid := True \<rparr>)"
          using in_frame h room True by (subst lldp_parse_from.simps) simp
        ultimately show ?thesis by (auto intro: exI [of _ "[]"])
      next
        case nz: False
        let ?i = "apply_tlv (?ty, ?v) info"
        have step: "lldp_parse_tlv f (p + 2) ?ty ?n info = Some ?i"
          using apply_tlv(1) [OF enc(1) "1.prems"(3), of ?ty] by (simp only: enc(2))
        have eq: "lldp_parse_from f e p info = lldp_parse_from f e (p + 2 + ?n) ?i"
          using in_frame h room nz step by (subst lldp_parse_from.simps) simp
        have ih: "runs (lldp_parse_from f e (p + 2 + ?n) ?i) (\<lambda>(ok, info').
           lldp_from m info' \<and>
           (ok \<longrightarrow> (\<exists>tlvs. lldpdu (drop (p + 2 + ?n) (take e f)) tlvs \<and>
                           info' = (fold apply_tlv tlvs ?i)\<lparr> li_valid := True \<rparr>)))"
          using "1.IH" in_frame h False nz step "1.prems"(1) room apply_tlv(2) [OF enc(1) "1.prems"(3)]
          by blast
        have more: "lldpdu (drop p (take e f)) ((?ty, ?v) # tlvs)"
          if "lldpdu (drop (p + 2 + ?n) (take e f)) tlvs" for tlvs
          using that wf nz unfolding lldpdu_def enc(3) by auto
        show ?thesis
          unfolding eq
        proof (rule runs_mono [OF ih], safe)
          fix tlvs
          assume "lldpdu (drop (p + 2 + ?n) (take e f)) tlvs"
          from more [OF this]
          show "\<exists>tlvs'. lldpdu (drop p (take e f)) tlvs' \<and>
                  (fold apply_tlv tlvs ?i)\<lparr> li_valid := True \<rparr> =
                  (fold apply_tlv tlvs' info)\<lparr> li_valid := True \<rparr>"
            by (intro exI [of _ "(?ty, ?v) # tlvs"]) simp
        qed
      qed
    qed
  qed
qed


section \<open>The neighbour entry\<close>

lemma strncpy_field:
  assumes "cstring (Suc n) src"
  shows "cstr (strncpy_to (replicate (Suc n) 0) src n) = cstr src"
    and "cstring (Suc n) (strncpy_to (replicate (Suc n) 0) src n)"
  using cstr_strncpy_to [of "Suc n" n src] strncpy_to_cstring [of "Suc n" n src]
    cstr_length [OF assms] by simp_all

lemma strncpy_terminated:
  "(strncpy_to (replicate (Suc n) 0) src n)[n := 0] = strncpy_to (replicate (Suc n) 0) src n"
proof -
  have "strncpy_to (replicate (Suc n) 0) src n ! n = 0"
  proof (cases "length (take n (cstr src)) = n")
    case True
    then show ?thesis unfolding strncpy_to_zeros [OF refl] by (metis nth_append_length)
  next
    case False
    then have "length (cstr src) < n" by auto
    then show ?thesis
      unfolding strncpy_to_zeros [OF refl] by (simp add: nth_append nth_Cons')
  qed
  then show ?thesis by (metis list_update_id)
qed


text \<open>
  What an entry takes over from the parsed information: every field; the VLAN name and the policy when
  they were present, else the zeros of a fresh entry.
\<close>

definition lldp_texts_carried :: "lldp_info \<Rightarrow> neighbor \<Rightarrow> bool" where
  "lldp_texts_carried i n \<longleftrightarrow>
     cstr (nb_name n) = cstr (li_system_name i) \<and> cstr (nb_port n) = cstr (li_port_id i) \<and>
     cstr (nb_chassis_id n) = cstr (li_chassis_id i) \<and>
     cstr (nb_description n) = cstr (li_system_description i) \<and>
     cstr (nb_management_address n) = cstr (li_management_address i) \<and>
     cstr (nb_vlan_name n) = (if li_has_vlan_name i then cstr (li_vlan_name i) else [])"

definition lldp_numbers_carried :: "lldp_info \<Rightarrow> neighbor \<Rightarrow> bool" where
  "lldp_numbers_carried i n \<longleftrightarrow>
     nb_lldp_chassis_subtype n = li_chassis_id_subtype i \<and> nb_lldp_port_subtype n = li_port_id_subtype i \<and>
     nb_ttl n = li_ttl i \<and> nb_capabilities n = li_system_capabilities i \<and>
     nb_enabled_capabilities n = li_enabled_capabilities i \<and>
     nb_pvid n = li_pvid i \<and> nb_has_pvid n = li_has_pvid i \<and> nb_vlan_id n = li_vlan_id i \<and>
     nb_has_vlan_name n = li_has_vlan_name i \<and> nb_has_network_policy n = li_has_network_policy i \<and>
     nb_network_policy_vlan n = (if li_has_network_policy i then li_network_policy_vlan i else 0)"

definition lldp_power_carried :: "lldp_info \<Rightarrow> neighbor \<Rightarrow> bool" where
  "lldp_power_carried i n \<longleftrightarrow>
     nb_poe_supported n = li_poe_supported i \<and> nb_poe_power_pair n = li_poe_power_pair i \<and>
     nb_poe_power_class n = li_poe_power_class i \<and>
     nb_poe_type_source_priority n = li_poe_type_source_priority i \<and>
     nb_poe_requested_power n = li_poe_requested_power i \<and>
     nb_poe_allocated_power n = li_poe_allocated_power i \<and>
     nb_poe_power_watts n = li_poe_power_watts i \<and>
     nb_poe_requested_power_watts n = li_poe_requested_power_watts i \<and>
     nb_poe_allocated_power_watts n = li_poe_allocated_power_watts i \<and>
     nb_poe_power_type n = li_poe_power_type i \<and> nb_poe_power_source n = li_poe_power_source i \<and>
     nb_poe_power_priority n = li_poe_power_priority i \<and> nb_has_poe_mdi n = li_has_poe_mdi i \<and>
     nb_has_poe n = li_has_poe i \<and> nb_has_poe_power_values n = li_has_poe_power_values i"

lemma lldp_fill_neighbor_spec:
  assumes wf: "wf_lldp_info i" and valid: "li_valid i"
  shows "\<exists>n. lldp_fill_neighbor (Some i) (Some old) = (True, Some n) \<and> wf_neighbor n \<and>
             nb_occupied n \<and> nb_discovery_sources n = NEIGHBOR_SOURCE_LLDP \<and>
             nb_mac n = li_source_mac i \<and> lldp_texts_carried i n \<and> lldp_numbers_carried i n \<and>
             lldp_power_carried i n"
proof -
  have len: "length (li_source_mac i) = 6" using wf by (simp add: wf_lldp_info_def)
  have f: "cstring (Suc 63) (li_chassis_id i)" "cstring (Suc 63) (li_port_id i)"
    "cstring (Suc 63) (li_system_name i)" "cstring (Suc 127) (li_system_description i)"
    "cstring (Suc 47) (li_management_address i)" "cstring (Suc 63) (li_vlan_name i)"
    using wf by (simp_all add: wf_lldp_info_def)
  note s = f [THEN strncpy_field(1), simplified] f [THEN strncpy_field(2), simplified]
    strncpy_terminated [of 63, simplified]
  obtain n where n: "lldp_fill_neighbor (Some i) (Some old) = (True, Some n)"
    using valid by (simp add: lldp_fill_neighbor_def Let_def)
  then show ?thesis
    using valid len s
    by (simp add: lldp_fill_neighbor_def Let_def neighbor_zero_def wf_neighbor_def neighbor_sources
        lldp_texts_carried_def lldp_numbers_carried_def lldp_power_carried_def split: if_splits) auto
qed


lemma is_lldp_eq: "14 \<le> length b \<Longrightarrow> is_lldp (Some b) = Some (be16 (b ! 12) (b ! 13) = 0x88CC)"
  by (simp add: is_lldp_def ethernet_get_header_def eth.load_eq eth_ethertype_def eth_of_bytes_def)

definition lldp_start :: "buf \<Rightarrow> lldp_info" where
  "lldp_start f = lldp_info_zero\<lparr> li_source_mac := take 6 (drop 6 f) \<rparr>"

lemma wf_lldp_start: "14 \<le> length f \<Longrightarrow> lldp_from (take 6 (drop 6 f)) (lldp_start f)"
  by (simp add: lldp_from_def wf_lldp_info_def lldp_start_def lldp_info_zero_def)

lemma lldp_parse_eq:
  assumes "14 \<le> length f"
  shows "lldp_parse (Some f) len (Some old) =
           (if unat len \<le> 14 then Some (False, Some old)
            else map_option (\<lambda>(ok, i). (ok, Some i)) (lldp_parse_from f (unat len) 14 (lldp_start f)))"
proof -
  have "eth_mac_source (eth_of_bytes (take 14 f)) = take 6 (drop 6 f)"
    by (simp add: eth_of_bytes_def drop_take min_def)
  then show ?thesis
    using assms
    by (cases "lldp_parse_from f (unat len) 14 (lldp_start f)")
       (auto simp: lldp_parse_def ethernet_get_header_def eth.load_eq lldp_start_def)
qed

lemma lldpdu_parses:
  assumes "lldpdu (drop 14 (take (unat len) f)) tlvs" "unat len \<le> length f" "14 \<le> length f"
  shows "14 < unat len"
    and "lldp_parse_from f (unat len) 14 (lldp_start f) =
           Some (True, (fold apply_tlv tlvs (lldp_start f))\<lparr> li_valid := True \<rparr>)"
proof -
  obtain t rest where t: "\<forall>t\<in>set tlvs. wf_tlv t \<and> fst t \<noteq> 0" "wf_tlv t" "fst t = 0"
    and pl: "drop 14 (take (unat len) f) = concat (map enc_tlv tlvs) @ enc_tlv t @ rest"
    using assms(1) by (auto simp: lldpdu_def)
  have "0 < length (enc_tlv t)" by (simp add: enc_tlv_def)
  then have "0 < length (drop 14 (take (unat len) f))" unfolding pl by simp
  then show len: "14 < unat len" using assms(2) by simp
  have f: "f = take 14 f @ concat (map enc_tlv tlvs) @ enc_tlv t @ (rest @ drop (unat len) f)"
  proof -
    have "f = take (unat len) f @ drop (unat len) f" by simp
    also have "take (unat len) f = take 14 f @ drop 14 (take (unat len) f)"
      using len by (metis append_take_drop_id min.absorb1 order_less_imp_le take_take)
    finally show ?thesis unfolding pl by simp
  qed
  have "length (concat (map enc_tlv tlvs) @ enc_tlv t) \<le> length (drop 14 (take (unat len) f))"
    unfolding pl by simp
  then have "14 + length (concat (map enc_tlv tlvs) @ enc_tlv t) \<le> unat len"
    using assms(2) len by simp
  then show "lldp_parse_from f (unat len) 14 (lldp_start f) =
           Some (True, (fold apply_tlv tlvs (lldp_start f))\<lparr> li_valid := True \<rparr>)"
    using lldp_parse_from_tlvs [OF t wf_lldp_start [OF assms(3)] f] assms(3) by simp
qed

lemma lldp_parse_from_frame:
  assumes "unat len \<le> length f" "14 \<le> length f" "14 < unat len"
  shows "runs (lldp_parse_from f (unat len) 14 (lldp_start f)) (\<lambda>(ok, i).
           lldp_from (take 6 (drop 6 f)) i \<and>
           (ok \<longrightarrow> (\<exists>tlvs. lldpdu (drop 14 (take (unat len) f)) tlvs \<and>
                           i = (fold apply_tlv tlvs (lldp_start f))\<lparr> li_valid := True \<rparr>)))"
  using lldp_parse_from_sound [OF assms(1) _ wf_lldp_start [OF assms(2)]] assms(3) by simp

section \<open>Properties\<close>

text \<open>
  C10. The LLDP parser refines the grammar of LLDP data units. For any bytes of a frame inside its
  buffer it makes no access outside the buffer; it accepts exactly when the bytes after the Ethernet
  header, up to the frame's length, are a sequence of complete TLVs closed by an End TLV; and the
  information it returns is the fold of the TLVs' values, in order, over a zeroed structure that
  holds the sender's address. Every text field it returns is terminated inside its array. A frame of
  at most 14 bytes is rejected before any byte is read.
\<close>

theorem lldp_parse_refines_lldpdu:
  assumes "unat len \<le> length f"
  shows "\<exists>ok i. lldp_parse (Some f) len (Some old) = Some (ok, Some i) \<and>
           (ok \<longleftrightarrow> (\<exists>tlvs. lldpdu (drop 14 (take (unat len) f)) tlvs)) \<and>
           (ok \<longrightarrow> wf_lldp_info i) \<and>
           (\<forall>tlvs. lldpdu (drop 14 (take (unat len) f)) tlvs \<longrightarrow>
              i = (fold apply_tlv tlvs (lldp_info_zero\<lparr> li_source_mac := take 6 (drop 6 f) \<rparr>))
                    \<lparr> li_valid := True \<rparr>)"
proof (cases "14 < unat len")
  case False
  then have "\<not> lldpdu (drop 14 (take (unat len) f)) tlvs" for tlvs by (simp add: lldpdu_nonempty)
  then show ?thesis using False by (auto simp: lldp_parse_def)
next
  case True
  then have f: "14 \<le> length f" using assms by simp
  from lldp_parse_from_frame [OF assms f True]
  obtain ok i where r: "lldp_parse_from f (unat len) 14 (lldp_start f) = Some (ok, i)"
    and i: "wf_lldp_info i" "ok \<longrightarrow> (\<exists>tlvs. lldpdu (drop 14 (take (unat len) f)) tlvs)"
    by (auto simp: runs_iff lldp_from_def)
  have "ok \<and> i = (fold apply_tlv tlvs (lldp_start f))\<lparr> li_valid := True \<rparr>"
    if "lldpdu (drop 14 (take (unat len) f)) tlvs" for tlvs
    using lldpdu_parses(2) [OF that assms f] r by simp
  then show ?thesis
    using lldp_parse_eq [OF f, of len old] r i True
    unfolding lldp_start_def by (intro exI [of _ ok] exI [of _ i]) auto
qed

lemma lldp_parse_refines_lldpdu_witness:
  "\<exists>i. lldp_parse (Some ([0x01, 0x80, 0xC2, 0, 0, 0x0E] @ [2, 0, 0, 0, 0, 9] @ [0x88, 0xCC] @
           enc_tlv (3, [0, 120]) @ enc_tlv (0, []) @ replicate 40 0)) 60 (Some lldp_info_zero) =
         Some (True, Some i) \<and> li_ttl i = 120 \<and> li_source_mac i = [2, 0, 0, 0, 0, 9]"
proof -
  let ?f = "[0x01, 0x80, 0xC2, 0, 0, 0x0E] @ [2, 0, 0, 0, 0, 9] @ [0x88, 0xCC] @
           enc_tlv (3, [0, 120]) @ enc_tlv (0, []) @ replicate 40 (0 :: u8)"
  have len: "length ?f = 60" by (simp add: enc_tlv_def)
  have pl: "drop 14 (take (unat (60 :: u16)) ?f) =
        concat (map enc_tlv [(3, [0, 120])]) @ enc_tlv (0, []) @ replicate 40 0"
    using len by simp
  have "lldpdu (drop 14 (take (unat (60 :: u16)) ?f)) [(3, [0, 120])]"
    unfolding pl lldpdu_def
    by (intro conjI exI [of _ "(0, [])"] exI [of _ "replicate 40 0"]) (simp_all add: wf_tlv_def)
  moreover have "li_ttl (apply_tlv (3, [0, 120]) i) = 120"
    "li_source_mac (apply_tlv (3, [0, 120]) i) = li_source_mac i" for i
    by (simp_all add: apply_tlv_def lldp_parse_tlv_def lldp_parse_ttl_def rd_be16_in be16_def)
  ultimately show ?thesis
    using lldp_parse_refines_lldpdu [of 60 ?f lldp_info_zero] len by auto
qed

text \<open>
  C11. From the parsed information to the neighbour entry. An accepted LLDP frame fills an entry that
  is occupied, has LLDP as its only source, is keyed by the sender's address, has every text
  terminated inside its array, and carries every parsed field over: the six texts unshortened, the
  numbers and flags, and the power values.
\<close>

theorem lldp_fill_neighbor_faithful:
  assumes "unat len \<le> length f"
    and "lldp_parse (Some f) len (Some old) = Some (True, Some i)"
  shows "\<exists>n. lldp_fill_neighbor (Some i) (Some prev) = (True, Some n) \<and> wf_neighbor n \<and>
             nb_occupied n \<and> nb_discovery_sources n = NEIGHBOR_SOURCE_LLDP \<and>
             nb_mac n = take 6 (drop 6 f) \<and> lldp_texts_carried i n \<and> lldp_numbers_carried i n \<and>
             lldp_power_carried i n"
proof -
  have l: "14 < unat len" using assms(2) by (auto simp: lldp_parse_def split: if_splits)
  then have f: "14 \<le> length f" using assms(1) by simp
  have "wf_lldp_info i \<and> li_source_mac i = take 6 (drop 6 f) \<and> li_valid i"
    using lldp_parse_from_frame [OF assms(1) f l] assms(2) lldp_parse_eq [OF f, of len old] l
    by (auto simp: runs_iff lldp_from_def)
  then show ?thesis using lldp_fill_neighbor_spec [of i prev] by auto
qed

lemma lldp_fill_neighbor_faithful_witness:
  "\<exists>i n. lldp_parse (Some ([0x01, 0x80, 0xC2, 0, 0, 0x0E] @ [2, 0, 0, 0, 0, 9] @ [0x88, 0xCC] @
           enc_tlv (5, [115, 119, 49]) @ enc_tlv (0, []))) 21 (Some lldp_info_zero) =
         Some (True, Some i) \<and>
         lldp_fill_neighbor (Some i) (Some neighbor_zero) = (True, Some n) \<and>
         nb_mac n = [2, 0, 0, 0, 0, 9] \<and> cstr (nb_name n) = [115, 119, 49]"
proof -
  let ?f = "[0x01, 0x80, 0xC2, 0, 0, 0x0E] @ [2, 0, 0, 0, 0, 9] @ [0x88, 0xCC] @
           enc_tlv (5, [115, 119, 49]) @ enc_tlv (0, []) :: buf"
  have len: "unat (21 :: u16) \<le> length ?f" by (simp add: enc_tlv_def)
  have "lldp_parse (Some ?f) 21 (Some lldp_info_zero) =
        Some (True, Some (lldp_info_zero\<lparr> li_source_mac := [2, 0, 0, 0, 0, 9],
                li_system_name := [115, 119, 49] @ replicate 61 0, li_valid := True \<rparr>))"
    by code_simp
  moreover have "cstr ([115, 119, 49] @ replicate 61 0) = [115, 119, 49]"
    by (rule cstr_append_zeros) simp
  ultimately show ?thesis
    using lldp_fill_neighbor_faithful [OF len, of lldp_info_zero _ neighbor_zero]
    by (force simp: lldp_texts_carried_def)
qed

end
