(* ===== verification/Cdp.thy ===== *)
theory Cdp
  imports Lldp Checksum
begin

text \<open>
  \<open>libraries/protocol_tools/cdp.c\<close>: the Cisco Discovery Protocol parser. \<open>data\<close>, \<open>tlv\<close> and
  \<open>value\<close> are offsets into the frame; 16-bit lengths are natural numbers. Every loop keeps
  \<open>offset \<le> length\<close>, so that the unsigned difference \<open>length - offset\<close> of the code does not wrap
  and is the difference of natural numbers.
\<close>

section \<open>Data\<close>

record cdp_info =
  ci_source_mac :: buf
  ci_device_id :: buf
  ci_port_id :: buf
  ci_software_version :: buf
  ci_platform :: buf
  ci_management_address :: buf
  ci_capabilities :: u32
  ci_ttl :: u8
  ci_version :: u8
  ci_valid :: bool

definition cdp_info_zero :: cdp_info where
  "cdp_info_zero =
     \<lparr> ci_source_mac = replicate 6 0, ci_device_id = replicate 64 0, ci_port_id = replicate 64 0,
       ci_software_version = replicate 128 0, ci_platform = replicate 64 0,
       ci_management_address = replicate 16 0, ci_capabilities = 0, ci_ttl = 0, ci_version = 0,
       ci_valid = False \<rparr>"

section \<open>The envelope and the checksum\<close>

text \<open>
  \<open>cdp_get_pdu\<close> answers with \<open>None\<close> for false, and otherwise with what it stores through \<open>pdu\<close> and
  \<open>pdu_length\<close>: the offset and the length of the CDP data unit.
\<close>

definition cdp_get_pdu :: "buf ptr \<Rightarrow> u16 \<Rightarrow> (nat \<times> nat) option option" where
  "cdp_get_pdu frame captured_length =
     (case frame of
        None \<Rightarrow> Some None
      | Some f \<Rightarrow>
          if unat captured_length < 14 + 8 + 4 then Some None
          else do { destination \<leftarrow> rd_bytes f 0 6;
                    if destination \<noteq> [0x01, 0x00, 0x0C, 0xCC, 0xCC, 0xCC] then Some None
                    else do { declared \<leftarrow> rd_be16 f 12;
                              if unat declared < 8 + 4 \<or> unat declared > 1500 \<or>
                                 unat declared > unat captured_length - 14
                              then Some None
                              else do { llc \<leftarrow> rd_bytes f 14 6; pid \<leftarrow> rd_be16 f (14 + 6);
                                        if llc \<noteq> [0xAA, 0xAA, 0x03, 0x00, 0x00, 0x0C] \<or> pid \<noteq> 0x2000
                                        then Some None
                                        else Some (Some (14 + 8, unat declared - 8)) } } })"

function cdp_sum :: "buf \<Rightarrow> nat \<Rightarrow> nat \<Rightarrow> u32 \<Rightarrow> u32 option" where
  "cdp_sum f data n sum_acc =
     (if n \<ge> 2
      then do { w \<leftarrow> rd_be16 f data; cdp_sum f (data + 2) (n - 2) (sum_acc + ucast w) }
      else if n = 1 then do { b \<leftarrow> rd f data; Some (sum_acc + push_bit 8 (ucast b)) }
      else Some sum_acc)"
  by pat_completeness auto
termination by (relation "measure (\<lambda>(f, data, n, s). n)") auto

declare cdp_sum.simps [simp del]

definition cdp_checksum_is_valid :: "buf \<Rightarrow> nat \<Rightarrow> nat \<Rightarrow> bool option" where
  "cdp_checksum_is_valid f data n =
     do { s \<leftarrow> cdp_sum f data n 0; Some ((ucast (fold_carries s) :: u16) = 0xFFFF) }"

section \<open>Values\<close>

definition cdp_printable :: "u8 \<Rightarrow> u8" where
  "cdp_printable value = (if value \<ge> 0x20 \<and> value \<le> 0x7E then value else 0x20)"

text \<open>The trailing blanks: \<open>while(copy_length > 0 && destination[copy_length - 1] == ' ')\<close>.\<close>

fun cdp_trimmed :: "buf \<Rightarrow> nat \<Rightarrow> nat" where
  "cdp_trimmed d 0 = 0"
| "cdp_trimmed d (Suc n) = (if d ! n = 0x20 then cdp_trimmed d n else Suc n)"

definition cdp_copy_text :: "buf \<Rightarrow> nat \<Rightarrow> nat \<Rightarrow> buf \<Rightarrow> buf option" where
  "cdp_copy_text f source n destination =
     (if length destination = 0 then Some destination
      else let copy_length = (if n \<ge> length destination then length destination - 1 else n)
           in do { s \<leftarrow> rd_bytes f source copy_length;
                   d \<leftarrow> wr_bytes destination 0 (map cdp_printable s);
                   wr_bytes d (cdp_trimmed d copy_length) [0] })"

text \<open>
  The address list. The first argument counts the iterations left, \<open>address_count - address_index\<close>;
  the result is the function's answer and the address buffer.
\<close>

fun cdp_addresses_from :: "nat \<Rightarrow> buf \<Rightarrow> nat \<Rightarrow> nat \<Rightarrow> nat \<Rightarrow> buf \<Rightarrow> (bool \<times> buf) option" where
  "cdp_addresses_from left f data n offset addr =
     (if left = 0 then Some (offset = n, addr)
      else if n - offset < 2 then Some (False, addr)
      else do { protocol_type \<leftarrow> rd f (data + offset);
                protocol_length \<leftarrow> rd f (data + (offset + 1));
                if unat protocol_length > n - (offset + 2) then Some (False, addr)
                else if n - (offset + 2 + unat protocol_length) < 2 then Some (False, addr)
                else do { address_length \<leftarrow> rd_be16 f (data + (offset + 2 + unat protocol_length));
                          if unat address_length > n - (offset + 4 + unat protocol_length) then Some (False, addr)
                          else do { is_ipv4 \<leftarrow> (if protocol_type = 1 \<and> protocol_length = 1
                                                then do { c \<leftarrow> rd f (data + (offset + 2)); Some (c = 0xCC) }
                                                else Some False);
                                    if is_ipv4 \<and> address_length \<noteq> 4 then Some (False, addr)
                                    else do { addr \<leftarrow> (if is_ipv4
                                                       then do { a0 \<leftarrow> rd addr 0;
                                                                 if a0 = 0
                                                                 then lldp_ipv4_to_string f
                                                                   (data + (offset + 4 + unat protocol_length)) addr
                                                                 else Some addr }
                                                       else Some addr);
                                              cdp_addresses_from (left - 1) f data n
                                                (offset + 4 + unat protocol_length + unat address_length) addr } } } })"

declare cdp_addresses_from.simps [simp del]

definition cdp_parse_addresses :: "buf \<Rightarrow> nat \<Rightarrow> nat \<Rightarrow> buf \<Rightarrow> (bool \<times> buf) option" where
  "cdp_parse_addresses f data n addr =
     (if n < 4 then Some (False, addr)
      else do { address_count \<leftarrow> rd_be32 f data;
                cdp_addresses_from (unat address_count) f data n 4 addr })"

section \<open>The data unit\<close>

text \<open>
  The switch over the TLV type: whether the parse goes on, the structure, and \<open>saw_device_id\<close>.
\<close>

definition cdp_parse_tlv ::
  "buf \<Rightarrow> nat \<Rightarrow> u16 \<Rightarrow> nat \<Rightarrow> cdp_info \<times> bool \<Rightarrow> (bool \<times> cdp_info \<times> bool) option" where
  "cdp_parse_tlv f val type n st =
     (let info = fst st; saw_device_id = snd st in
      if type = 0x0001 then
        do { t \<leftarrow> cdp_copy_text f val n (ci_device_id info);
             t0 \<leftarrow> rd t 0;
             Some (True, info\<lparr> ci_device_id := t \<rparr>, t0 \<noteq> 0) }
      else if type = 0x0002 \<or> type = 0x0016 then
        do { r \<leftarrow> cdp_parse_addresses f val n (ci_management_address info);
             Some (fst r, info\<lparr> ci_management_address := snd r \<rparr>, saw_device_id) }
      else if type = 0x0003 then
        do { t \<leftarrow> cdp_copy_text f val n (ci_port_id info);
             Some (True, info\<lparr> ci_port_id := t \<rparr>, saw_device_id) }
      else if type = 0x0004 then
        (if n \<noteq> 4 then Some (False, info, saw_device_id)
         else do { c \<leftarrow> rd_be32 f val; Some (True, info\<lparr> ci_capabilities := c \<rparr>, saw_device_id) })
      else if type = 0x0005 then
        do { t \<leftarrow> cdp_copy_text f val n (ci_software_version info);
             Some (True, info\<lparr> ci_software_version := t \<rparr>, saw_device_id) }
      else if type = 0x0006 then
        do { t \<leftarrow> cdp_copy_text f val n (ci_platform info);
             Some (True, info\<lparr> ci_platform := t \<rparr>, saw_device_id) }
      else Some (True, info, saw_device_id))"

function cdp_parse_from ::
  "buf \<Rightarrow> nat \<Rightarrow> nat \<Rightarrow> nat \<Rightarrow> bool \<Rightarrow> cdp_info \<times> bool \<Rightarrow> (bool \<times> cdp_info) option" where
  "cdp_parse_from f pdu pdu_length offset saw_tlv st =
     (if offset < pdu_length
      then if pdu_length - offset < 4 then Some (False, fst st)
           else do { type \<leftarrow> rd_be16 f (pdu + offset);
                     tlv_length \<leftarrow> rd_be16 f (pdu + (offset + 2));
                     if unat tlv_length < 4 \<or> unat tlv_length > pdu_length - offset
                     then Some (False, fst st)
                     else do { r \<leftarrow> cdp_parse_tlv f (pdu + (offset + 4)) type (unat tlv_length - 4) st;
                               if fst r
                               then cdp_parse_from f pdu pdu_length (offset + unat tlv_length) True (snd r)
                               else Some (False, fst (snd r)) } }
      else if \<not> saw_tlv \<or> \<not> snd st then Some (False, fst st)
      else Some (True, (fst st)\<lparr> ci_valid := True \<rparr>))"
  by pat_completeness auto
termination by (relation "measure (\<lambda>(f, pdu, n, offset, saw_tlv, st). n - offset)") auto

declare cdp_parse_from.simps [simp del]

definition is_cdp :: "buf ptr \<Rightarrow> u16 \<Rightarrow> bool option" where
  "is_cdp frame length_arg = map_option (\<lambda>r. r \<noteq> None) (cdp_get_pdu frame length_arg)"

definition cdp_parse :: "buf ptr \<Rightarrow> u16 \<Rightarrow> cdp_info ptr \<Rightarrow> (bool \<times> cdp_info ptr) option" where
  "cdp_parse frame length_arg info =
     (case (frame, info) of
        (Some f, Some _) \<Rightarrow>
          do { g \<leftarrow> cdp_get_pdu frame length_arg;
               case g of
                 None \<Rightarrow> Some (False, info)
               | Some (pdu, pdu_length) \<Rightarrow>
                   do { valid \<leftarrow> cdp_checksum_is_valid f pdu pdu_length;
                        if \<not> valid then Some (False, info)
                        else do { version \<leftarrow> rd f pdu; ttl \<leftarrow> rd f (pdu + 1);
                                  let i = cdp_info_zero\<lparr> ci_version := version, ci_ttl := ttl \<rparr>;
                                  if version \<noteq> 1 \<and> version \<noteq> 2 then Some (False, Some i)
                                  else do { m \<leftarrow> rd_bytes f 6 6;
                                            r \<leftarrow> cdp_parse_from f pdu pdu_length 4 False
                                                   (i\<lparr> ci_source_mac := m \<rparr>, False);
                                            Some (fst r, Some (snd r)) } } } }
      | _ \<Rightarrow> Some (False, info))"

section \<open>The neighbour entry\<close>

text \<open>How many bytes of the platform and of the software version the description takes.\<close>

definition cdp_description_shares :: "nat \<Rightarrow> nat \<Rightarrow> nat \<Rightarrow> nat \<times> nat" where
  "cdp_description_shares content_capacity platform_length software_length =
     (let platform_copy = (if platform_length < 47 then platform_length else 47);
          software_copy = (if software_length < 77 then software_length else 77);
          used = platform_copy + software_copy;
          (software_copy, used) =
            (if used < content_capacity \<and> software_copy < software_length
             then let extra = software_length - software_copy;
                      extra = (if extra > content_capacity - used then content_capacity - used else extra)
                  in (software_copy + extra, used + extra)
             else (software_copy, used));
          platform_copy =
            (if used < content_capacity \<and> platform_copy < platform_length
             then let extra = platform_length - platform_copy;
                      extra = (if extra > content_capacity - used then content_capacity - used else extra)
                  in platform_copy + extra
             else platform_copy)
      in (platform_copy, software_copy))"

definition cdp_store_description :: "cdp_info \<Rightarrow> buf \<Rightarrow> buf option" where
  "cdp_store_description info output_arg =
     (let output = (if length output_arg > 0 then output_arg[0 := 0] else output_arg) in
      if length output < 4 \<or> (ci_platform info ! 0 = 0 \<and> ci_software_version info ! 0 = 0) then Some output
      else
        let (platform_copy, software_copy) =
              cdp_description_shares (length output - 3 - 1) (length (cstr (ci_platform info)))
                (length (cstr (ci_software_version info)))
        in do { p \<leftarrow> rd_bytes (ci_platform info) 0 platform_copy;
                d \<leftarrow> wr_bytes output 0 p;
                d \<leftarrow> wr_bytes d platform_copy [0x20, 0x7C, 0x20];
                s \<leftarrow> rd_bytes (ci_software_version info) 0 software_copy;
                d \<leftarrow> wr_bytes d (platform_copy + 3) s;
                wr_bytes d (platform_copy + 3 + software_copy) [0] })"

definition cdp_fill_neighbor :: "cdp_info ptr \<Rightarrow> neighbor ptr \<Rightarrow> (bool \<times> neighbor ptr) option" where
  "cdp_fill_neighbor info entry =
     (case (info, entry) of
        (Some i, Some _) \<Rightarrow>
          if \<not> ci_valid i then Some (False, entry)
          else let z = neighbor_zero in
               do { d \<leftarrow> cdp_store_description i (nb_description z);
                    Some (True, Some (z\<lparr> nb_mac := ci_source_mac i,
                      nb_name := snprintf_to (nb_name z) (cstr (ci_device_id i)),
                      nb_port := snprintf_to (nb_port z) (cstr (ci_port_id i)),
                      nb_management_address :=
                        snprintf_to (nb_management_address z) (cstr (ci_management_address i)),
                      nb_description := d,
                      nb_ttl := ucast (ci_ttl i),
                      nb_capabilities := ucast (ci_capabilities i AND 0xFFFF),
                      nb_discovery_sources := NEIGHBOR_SOURCE_CDP,
                      nb_occupied := True \<rparr>)) }
      | _ \<Rightarrow> Some (False, entry))"


section \<open>The checksum is the internet checksum\<close>

lemma words_sum_pair: "2 \<le> n \<Longrightarrow> data + n \<le> length f \<Longrightarrow>
    words_sum (take n (drop data f)) =
    unat (be16 (f ! data) (f ! (data + 1))) + words_sum (take (n - 2) (drop (data + 2) f))"
proof -
  assume a: "2 \<le> n" "data + n \<le> length f"
  then have "drop data f = f ! data # f ! (data + 1) # drop (data + 2) f"
    by (intro drop_two) simp
  then have "take n (drop data f) = f ! data # f ! (data + 1) # take (n - 2) (drop (data + 2) f)"
    using a by (cases n; cases "n - 1") auto
  then show ?thesis by (simp add: unat_be16)
qed

lemma cdp_sum_eq:
  assumes "data + n \<le> length f" "unat s + words_sum (take n (drop data f)) < 4294967296"
  shows "\<exists>s'. cdp_sum f data n s = Some s' \<and> unat s' = unat s + words_sum (take n (drop data f))"
  using assms
proof (induction f data n s rule: cdp_sum.induct)
  case (1 f data n s)
  show ?case
  proof (cases "n \<ge> 2")
    case True
    let ?w = "be16 (f ! data) (f ! (data + 1))"
    have w: "rd_be16 f data = Some ?w" using True "1.prems"(1) by (simp add: rd_be16_in)
    note pair = words_sum_pair [OF True "1.prems"(1)]
    have s: "unat (s + ucast ?w) = unat s + unat ?w"
      using "1.prems"(2) unfolding pair by (simp add: unat_word_ariths)
    have "\<exists>s'. cdp_sum f (data + 2) (n - 2) (s + ucast ?w) = Some s' \<and>
            unat s' = unat (s + ucast ?w) + words_sum (take (n - 2) (drop (data + 2) f))"
      using True "1.prems" s pair by (intro "1.IH" [OF True w]) simp_all
    then show ?thesis
      using True w s pair by (subst cdp_sum.simps) auto
  next
    case False
    then consider "n = 0" | "n = 1" by linarith
    then show ?thesis
    proof cases
      case 1
      then show ?thesis by (subst cdp_sum.simps) simp
    next
      case 2
      then have one: "take n (drop data f) = [f ! data]"
        using "1.prems"(1) by (simp add: take_Suc_conv_app_nth)
      have "unat (push_bit 8 (ucast (f ! data)) :: u32) = 256 * unat (f ! data)"
        using unat_pair [of "f ! data" 0] by simp
      then have "unat (s + push_bit 8 (ucast (f ! data))) = unat s + 256 * unat (f ! data)"
        using "1.prems"(2) unfolding one by (simp add: unat_word_ariths)
      then show ?thesis
        using 2 "1.prems"(1) unfolding one by (subst cdp_sum.simps) (simp add: rd_def)
    qed
  qed
qed

lemma ucast_all_ones: "unat s \<le> 65535 \<Longrightarrow> (ucast s :: u16) = 0xFFFF \<longleftrightarrow> unat s = 65535" for s :: u32
  by (simp add: word_unat_eq_iff unsigned_ucast_eq take_bit_nat_eq_self)

lemma cdp_checksum_eq:
  assumes "data + n \<le> length f" "n \<le> 65535"
  shows "cdp_checksum_is_valid f data n =
           Some (oc_residue (words_sum (take n (drop data f))) = 65535)"
proof -
  let ?w = "words_sum (take n (drop data f))"
  have "?w \<le> 65535 * length (take n (drop data f))" by (rule words_sum_le)
  also have "\<dots> \<le> 65535 * 65535" using assms by simp
  finally have "unat (0 :: u32) + ?w < 4294967296" by simp
  from cdp_sum_eq [OF assms(1) this]
  obtain s where s: "cdp_sum f data n 0 = Some s" "unat s = ?w" by auto
  have "unat (fold_carries s) = oc_residue ?w" using s by (simp add: fold_carries_eq)
  moreover have "unat (fold_carries s) \<le> 65535" using calculation oc_residue_le by simp
  ultimately show ?thesis
    using s(1) by (simp add: cdp_checksum_is_valid_def ucast_all_ones)
qed

text \<open>It accepts exactly the blocks whose checksum, as the IPv4 code computes it, is zero.\<close>

lemma cdp_checksum_calculate:
  assumes "data + n \<le> length f" "n \<le> 65535"
  shows "cdp_checksum_is_valid f data n =
           Some (calculate_checksum (take n (drop data f)) (of_nat n) = Some 0)"
proof -
  have n: "unat (of_nat n :: u16) = n" using assms(2) by (simp add: unat_of_nat_u16)
  have l: "length (take n (drop data f)) = n" using assms(1) by simp
  from calculate_checksum_eq [of "of_nat n" "take n (drop data f)"] n l
  obtain c where c: "calculate_checksum (take n (drop data f)) (of_nat n) = Some c"
    "unat c = 65535 - oc_residue (words_sum (take n (drop data f)))"
    using assms(1) by auto
  then have "c = 0 \<longleftrightarrow> oc_residue (words_sum (take n (drop data f))) = 65535"
    using oc_residue_le [of "words_sum (take n (drop data f))"] by (auto simp: unat_eq_0 [symmetric])
  then show ?thesis using cdp_checksum_eq [OF assms] c(1) by simp
qed


section \<open>A TLV is read only inside its value\<close>

definition cdp_from :: "buf \<Rightarrow> cdp_info \<Rightarrow> bool" where
  "cdp_from m i \<longleftrightarrow> cstring 64 (ci_device_id i) \<and> cstring 64 (ci_port_id i) \<and>
     cstring 128 (ci_software_version i) \<and> cstring 64 (ci_platform i) \<and>
     cstring 16 (ci_management_address i) \<and> length m = 6 \<and> ci_source_mac i = m"

lemma cdp_trimmed_le: "cdp_trimmed d n \<le> n"
  by (induction n) (auto intro: le_SucI)

lemma cdp_copy_text_runs:
  assumes "p + n \<le> length f" "cstring k dst"
  shows "runs (cdp_copy_text f p n dst) (cstring k)"
proof -
  define c where "c = (if n \<ge> length dst then length dst - 1 else n)"
  have k: "length dst = k" "0 < k" using assms(2) by (auto simp: cstring_def)
  have c: "c < length dst" "p + c \<le> length f" using assms(1) k by (auto simp: c_def)
  define d where "d = map cdp_printable (take c (drop p f)) @ drop c dst"
  have d: "rd_bytes f p c = Some (take c (drop p f))"
    "wr_bytes dst 0 (map cdp_printable (take c (drop p f))) = Some d"
    using c by (simp_all add: rd_bytes_def wr_bytes_def d_def)
  have "cdp_trimmed d c < length d"
    using cdp_trimmed_le [of d c] c by (simp add: d_def)
  then have "runs (wr_bytes d (cdp_trimmed d c) [0]) (cstring k)"
    using c k by (intro runs_wr_bytes) (auto simp: cstring_def d_def)
  then show ?thesis
    unfolding cdp_copy_text_def c_def [symmetric] Let_def using d k by simp
qed

lemma cdp_copy_text_same:
  "at_value f p v \<Longrightarrow> n \<le> length v \<Longrightarrow> cdp_copy_text f p n dst = cdp_copy_text v 0 n dst"
  by (simp add: cdp_copy_text_def at_value_same)

lemma rd_be32_same:
  assumes "at_value f p v" "4 \<le> length v"
  shows "rd_be32 f p = rd_be32 v 0"
  unfolding rd_be32_def
  using assms(2) at_value_same(2) [OF assms(1)] at_value_same(1) [OF assms(1), of 1]
    at_value_same(1) [OF assms(1), of 2] at_value_same(1) [OF assms(1), of 3]
  by (cases "v = []") (simp_all add: numeral_2_eq_2)

lemma rd_at_value: "at_value f p v \<Longrightarrow> i < length v \<Longrightarrow> rd f (p + i) = Some (v ! i)"
  by (rule at_value_rd(2))

lemma ipv4_text_same:
  "at_value f p v \<Longrightarrow> i + 4 \<le> length v \<Longrightarrow> lldp_ipv4_to_string f (p + i) d = lldp_ipv4_to_string v i d"
  by (rule at_value_same_lldp(5))

text \<open>One iteration of the address loop, with the bytes it reads.\<close>

lemma cdp_addresses_step:
  assumes at: "at_value f p v" and "offset + 2 \<le> length v" "0 < left"
  defines "pl \<equiv> unat (v ! (offset + 1))"
  defines "al \<equiv> be16 (v ! (offset + 2 + pl)) (v ! (offset + 2 + pl + 1))"
  defines "is4 \<equiv> v ! offset = 1 \<and> pl = 1 \<and> v ! (offset + 2) = 0xCC"
  shows "cdp_addresses_from left f p (length v) offset addr =
           (if length v < offset + 4 + pl \<or> length v < offset + 4 + pl + unat al \<or> (is4 \<and> al \<noteq> 4)
            then Some (False, addr)
            else do { a \<leftarrow> (if is4 then do { a0 \<leftarrow> rd addr 0;
                                            if a0 = 0 then lldp_ipv4_to_string v (offset + 4 + pl) addr
                                            else Some addr }
                            else Some addr);
                      cdp_addresses_from (left - 1) f p (length v) (offset + 4 + pl + unat al) a })"
proof -
  define b1 where "b1 = v ! (offset + 1)"
  have pl: "pl = unat b1" by (simp add: pl_def b1_def)
  have r0: "rd f (p + offset) = Some (v ! offset)" "rd f (p + (offset + 1)) = Some b1"
    using assms(2) by (simp_all only: rd_at_value [OF at] b1_def)
  have one: "b1 = 1 \<longleftrightarrow> unat b1 = 1" by (simp add: word_unat_eq_iff)
  show ?thesis
  proof (cases "length v < offset + 4 + pl")
    case True
    then have "unat b1 > length v - (offset + 2) \<or> length v - (offset + 2 + unat b1) < 2"
      "\<not> length v - offset < 2"
      using assms(2) pl by auto
    then show ?thesis
      using True assms(3) r0 by (subst cdp_addresses_from.simps) auto
  next
    case False
    have r1: "rd_be16 f (p + (offset + 2 + unat b1)) = Some al"
      using False at_value_rd(4) [OF at, of "offset + 2 + unat b1"] by (simp add: al_def pl)
    have r2: "rd f (p + (offset + 2)) = Some (v ! (offset + 2))"
      using False rd_at_value [OF at, of "offset + 2"] by simp
    have c: "\<not> length v - offset < 2" "\<not> unat b1 > length v - (offset + 2)"
      "\<not> length v - (offset + 2 + unat b1) < 2"
      "unat al > length v - (offset + 4 + unat b1) \<longleftrightarrow> length v < offset + 4 + unat b1 + unat al"
      using False pl by auto
    show ?thesis
      using False assms(3) c r0 r1 r2 one unfolding is4_def pl
      by (subst cdp_addresses_from.simps) (simp del: add_2_eq_Suc' add_2_eq_Suc One_nat_def cong: if_cong,
          intro impI, elim conjE, subst ipv4_text_same [OF at], simp_all)
  qed
qed


lemma cdp_addresses_runs:
  assumes at: "at_value f p v" and "offset \<le> length v" "cstring k addr"
  shows "\<exists>r. cdp_addresses_from left f p (length v) offset addr = Some r \<and>
             cdp_addresses_from left v 0 (length v) offset addr = Some r \<and> cstring k (snd r)"
  using assms(2,3)
proof (induction left arbitrary: offset addr)
  case 0
  then show ?case by (simp add: cdp_addresses_from.simps)
next
  case (Suc left)
  show ?case
  proof (cases "offset + 2 \<le> length v")
    case False
    then have "length v - offset < 2" using Suc.prems(1) by simp
    then show ?thesis using Suc.prems by (simp add: cdp_addresses_from.simps [of "Suc left"])
  next
    case True
    define pl where "pl = unat (v ! (offset + 1))"
    define al where "al = be16 (v ! (offset + 2 + pl)) (v ! (offset + 2 + pl + 1))"
    define is4 where "is4 \<longleftrightarrow> v ! offset = 1 \<and> pl = 1 \<and> v ! (offset + 2) = 0xCC"
    note step = cdp_addresses_step [OF at True, of "Suc left" addr]
      cdp_addresses_step [OF at_value_self True, of "Suc left" addr]
    note step = step [folded pl_def, folded al_def is4_def]
    define bad where "bad \<longleftrightarrow> length v < offset + 4 + pl \<or> length v < offset + 4 + pl + unat al \<or> (is4 \<and> al \<noteq> 4)"
    define m where "m = (if is4 then do { a0 \<leftarrow> rd addr 0;
                                          if a0 = 0 then lldp_ipv4_to_string v (offset + 4 + pl) addr
                                          else Some addr }
                         else Some addr)"
    note step = step [folded bad_def m_def]
    show ?thesis
    proof (cases bad)
      case True
      then show ?thesis using step Suc.prems(2) by simp
    next
      case False
      then have room: "offset + 4 + pl + unat al \<le> length v" "is4 \<longrightarrow> al = 4"
        by (auto simp: bad_def)
      have "addr \<noteq> []" using Suc.prems(2) by (auto simp: cstring_def)
      then have "runs m (cstring k)"
        unfolding m_def using room Suc.prems(2)
        by (intro runs_intros) (auto intro: wf_intros)
      then obtain a where a: "m = Some a" "cstring k a" by (auto simp: runs_iff)
      then show ?thesis
        using False step Suc.IH [OF room(1) a(2)] by simp
    qed
  qed
qed


lemma cdp_parse_addresses_runs:
  assumes "at_value f p v" "cstring k addr"
  shows "\<exists>r. cdp_parse_addresses f p (length v) addr = Some r \<and>
             cdp_parse_addresses v 0 (length v) addr = Some r \<and> cstring k (snd r)"
proof (cases "length v < 4")
  case True
  then show ?thesis using assms(2) by (simp add: cdp_parse_addresses_def)
next
  case False
  then have "rd_be32 f p = rd_be32 v 0" "rd_be32 v 0 \<noteq> None"
    using rd_be32_same [OF assms(1)] by (simp_all add: rd_be32_in)
  then show ?thesis
    using False cdp_addresses_runs [OF assms(1) _ assms(2), of 4]
    by (auto simp: cdp_parse_addresses_def)
qed

lemma cdp_copy_text_at:
  assumes "at_value f p v" "cstring k dst"
  shows "\<exists>t. cdp_copy_text f p (length v) dst = Some t \<and> cdp_copy_text v 0 (length v) dst = Some t \<and>
             cstring k t"
proof -
  have "p + length v \<le> length f" using assms(1) by (simp add: at_value_def)
  from cdp_copy_text_runs [OF this assms(2)] show ?thesis
    using cdp_copy_text_same [OF assms(1) order_refl, of dst] by (auto simp: runs_iff)
qed

lemma cdp_parse_tlv_local:
  assumes at: "at_value f p v" and wf: "cdp_from m (fst st)"
  shows "\<exists>r. cdp_parse_tlv f p t (length v) st = Some r \<and> cdp_parse_tlv v 0 t (length v) st = Some r \<and>
             cdp_from m (fst (snd r))"
proof -
  have c: "cstring 64 (ci_device_id (fst st))" "cstring 64 (ci_port_id (fst st))"
    "cstring 128 (ci_software_version (fst st))" "cstring 64 (ci_platform (fst st))"
    "cstring 16 (ci_management_address (fst st))"
    using wf by (simp_all add: cdp_from_def)
  obtain d q s l a where texts:
    "cdp_copy_text f p (length v) (ci_device_id (fst st)) = Some d"
    "cdp_copy_text v 0 (length v) (ci_device_id (fst st)) = Some d" "cstring 64 d"
    "cdp_copy_text f p (length v) (ci_port_id (fst st)) = Some q"
    "cdp_copy_text v 0 (length v) (ci_port_id (fst st)) = Some q" "cstring 64 q"
    "cdp_copy_text f p (length v) (ci_software_version (fst st)) = Some s"
    "cdp_copy_text v 0 (length v) (ci_software_version (fst st)) = Some s" "cstring 128 s"
    "cdp_copy_text f p (length v) (ci_platform (fst st)) = Some l"
    "cdp_copy_text v 0 (length v) (ci_platform (fst st)) = Some l" "cstring 64 l"
    "cdp_parse_addresses f p (length v) (ci_management_address (fst st)) = Some a"
    "cdp_parse_addresses v 0 (length v) (ci_management_address (fst st)) = Some a" "cstring 16 (snd a)"
    using c [THEN cdp_copy_text_at [OF at]] cdp_parse_addresses_runs [OF at c(5)] by blast
  have d0: "rd d 0 = Some (d ! 0)" using texts(3) by (auto simp: rd_def cstring_def)
  have caps: "\<exists>x. rd_be32 f p = Some x \<and> rd_be32 v 0 = Some x" if "length v = 4"
    using rd_be32_same [OF at] that by (simp add: rd_be32_in)
  note parse = cdp_parse_tlv_def cdp_from_def Let_def
  consider "t = 1" | "t = 2" | "t = 0x16" | "t = 3" | "t = 4" | "t = 5" | "t = 6"
    | (other) "t \<notin> {1, 2, 0x16, 3, 4, 5, 6}" by auto
  then show ?thesis
  proof cases
    case 1
    then show ?thesis using wf texts(1-3) d0 by (simp add: parse)
  next
    case 2
    then show ?thesis using wf texts(13-15) by (simp add: parse)
  next
    case 3
    then show ?thesis using wf texts(13-15) by (simp add: parse)
  next
    case 4
    then show ?thesis using wf texts(4-6) by (simp add: parse)
  next
    case 5
    then show ?thesis using wf caps by (cases "length v = 4") (auto simp: parse)
  next
    case 6
    then show ?thesis using wf texts(7-9) by (simp add: parse)
  next
    case 7
    then show ?thesis using wf texts(10-12) by (simp add: parse)
  next
    case other
    then show ?thesis using wf by (simp add: parse)
  qed
qed

section \<open>Data units as lists of TLVs\<close>

type_synonym cdp_tlv = "u16 \<times> buf"

definition wf_cdp_tlv :: "cdp_tlv \<Rightarrow> bool" where
  "wf_cdp_tlv t \<longleftrightarrow> length (snd t) + 4 < 65536"

definition enc_cdp_tlv :: "cdp_tlv \<Rightarrow> buf" where
  "enc_cdp_tlv t =
     (let l = of_nat (length (snd t) + 4) :: u16
      in [hi8 (fst t), lo8 (fst t), hi8 l, lo8 l] @ snd t)"

definition cdp_body :: "buf \<Rightarrow> cdp_tlv list \<Rightarrow> bool" where
  "cdp_body b tlvs \<longleftrightarrow> (\<forall>t\<in>set tlvs. wf_cdp_tlv t) \<and> b = concat (map enc_cdp_tlv tlvs)"

text \<open>What one TLV does to the structure and to \<open>saw_device_id\<close>; \<open>None\<close> rejects the frame.\<close>

definition apply_cdp_tlv :: "cdp_tlv \<Rightarrow> cdp_info \<times> bool \<Rightarrow> (cdp_info \<times> bool) option" where
  "apply_cdp_tlv t st =
     (let r = the (cdp_parse_tlv (snd t) 0 (fst t) (length (snd t)) st)
      in if fst r then Some (snd r) else None)"

fun apply_cdp_tlvs :: "cdp_tlv list \<Rightarrow> cdp_info \<times> bool \<Rightarrow> (cdp_info \<times> bool) option" where
  "apply_cdp_tlvs [] st = Some st"
| "apply_cdp_tlvs (t # ts) st = do { st' \<leftarrow> apply_cdp_tlv t st; apply_cdp_tlvs ts st' }"

lemma length_enc_cdp: "length (enc_cdp_tlv t) = length (snd t) + 4"
  by (simp add: enc_cdp_tlv_def Let_def)

lemma unat_cdp_length: "wf_cdp_tlv t \<Longrightarrow> unat (of_nat (length (snd t) + 4) :: u16) = length (snd t) + 4"
  unfolding wf_cdp_tlv_def by (rule unat_of_nat_u16)

lemma enc_cdp_inject:
  assumes "wf_cdp_tlv t" "wf_cdp_tlv t'" "enc_cdp_tlv t @ r = enc_cdp_tlv t' @ r'"
  shows "t = t' \<and> r = r'"
proof -
  let ?l = "of_nat (length (snd t) + 4) :: u16" and ?l' = "of_nat (length (snd t') + 4) :: u16"
  have heads: "hi8 (fst t) = hi8 (fst t')" "lo8 (fst t) = lo8 (fst t')"
    "hi8 ?l = hi8 ?l'" "lo8 ?l = lo8 ?l'" and vals: "snd t @ r = snd t' @ r'"
    using assms(3) by (simp_all add: enc_cdp_tlv_def Let_def)
  have "fst t = fst t'" using heads(1,2) be16_hi8_lo8 by metis
  moreover have "?l = ?l'" using heads(3,4) be16_hi8_lo8 by metis
  then have "length (snd t) = length (snd t')"
    using unat_cdp_length [OF assms(1)] unat_cdp_length [OF assms(2)] by simp
  ultimately show ?thesis using vals by (simp add: prod_eq_iff)
qed

lemma cdp_body_Nil: "cdp_body [] tlvs \<longleftrightarrow> tlvs = []"
  by (cases tlvs) (auto simp: cdp_body_def enc_cdp_tlv_def Let_def)

lemma cdp_body_Cons:
  assumes "wf_cdp_tlv t"
  shows "cdp_body (enc_cdp_tlv t @ r) tlvs \<longleftrightarrow> (\<exists>ts. tlvs = t # ts \<and> cdp_body r ts)"
proof (cases tlvs)
  case Nil
  then show ?thesis by (simp add: cdp_body_def enc_cdp_tlv_def Let_def)
next
  case (Cons t' ts)
  show ?thesis
    unfolding Cons cdp_body_def using enc_cdp_inject [OF assms, of t' r "concat (map enc_cdp_tlv ts)"] assms
    by auto
qed

lemma cdp_body_nonempty:
  assumes "cdp_body b tlvs" "b \<noteq> []"
  obtains t ts where "tlvs = t # ts" "wf_cdp_tlv t" "b = enc_cdp_tlv t @ concat (map enc_cdp_tlv ts)"
  using assms by (cases tlvs) (auto simp: cdp_body_def)


lemma apply_cdp_tlv:
  assumes "at_value f p v" "cdp_from m (fst st)"
  shows "\<exists>r. cdp_parse_tlv f p t (length v) st = Some r \<and> cdp_from m (fst (snd r)) \<and>
             apply_cdp_tlv (t, v) st = (if fst r then Some (snd r) else None)"
proof -
  obtain r where "cdp_parse_tlv f p t (length v) st = Some r" "cdp_parse_tlv v 0 t (length v) st = Some r"
    "cdp_from m (fst (snd r))"
    using cdp_parse_tlv_local [OF assms, of t] by blast
  then show ?thesis by (intro exI [of _ r]) (simp add: apply_cdp_tlv_def)
qed

text \<open>The bytes at the cursor, when they start with a complete TLV.\<close>

lemma cdp_tlv_at:
  assumes "rd_be16 f c = Some ty" "rd_be16 f (c + 2) = Some l" "4 \<le> unat l" "unat l \<le> n"
    and "c + n \<le> length f"
  defines "v \<equiv> take (unat l - 4) (drop (c + 4) f)"
  shows "at_value f (c + 4) v" "length v = unat l - 4" "wf_cdp_tlv (ty, v)"
    and "take n (drop c f) = enc_cdp_tlv (ty, v) @ take (n - unat l) (drop (c + unat l) f)"
proof -
  show len: "length v = unat l - 4" using assms(3-5) by (simp add: v_def)
  show "at_value f (c + 4) v" using assms(3-5) len by (simp add: at_value_def v_def)
  show wf: "wf_cdp_tlv (ty, v)"
    using len assms(3) by (simp add: wf_cdp_tlv_def)
  have l: "of_nat (length v + 4) = l" using len assms(3) by simp
  have ty: "ty = be16 (f ! c) (f ! (c + 1))" and ll: "l = be16 (f ! (c + 2)) (f ! (c + 3))"
    using assms(1,2) by (auto simp: rd_be16_def rd_def numeral_eq_Suc split: if_splits)
  have "take n (drop c f) = take 4 (drop c f) @ take (n - 4) (drop (c + 4) f)"
    using take_add [of 4 "n - 4" "drop c f"] assms(3,4) by (simp add: add.commute)
  also have "take 4 (drop c f) = [f ! c, f ! (c + 1), f ! (c + 2), f ! (c + 3)]"
    using assms(3-5) by (intro nth_equalityI) (auto simp: nth_Cons' numeral_eq_Suc less_Suc_eq)
  also have "take (n - 4) (drop (c + 4) f) = v @ take (n - unat l) (drop (c + unat l) f)"
    using take_add [of "unat l - 4" "n - unat l" "drop (c + 4) f"] assms(3,4)
    by (simp add: v_def add.commute)
  finally show "take n (drop c f) = enc_cdp_tlv (ty, v) @ take (n - unat l) (drop (c + unat l) f)"
    unfolding enc_cdp_tlv_def fst_conv snd_conv l Let_def ty ll by simp
qed

lemma cdp_body_header:
  assumes "cdp_body (take n (drop c f)) tlvs" "0 < n" "c + n \<le> length f"
  shows "4 \<le> n" and "\<exists>l. rd_be16 f (c + 2) = Some l \<and> 4 \<le> unat l \<and> unat l \<le> n"
proof -
  have "take n (drop c f) \<noteq> []" using assms(2,3) by auto
  then obtain t ts where t: "wf_cdp_tlv t" "take n (drop c f) = enc_cdp_tlv t @ concat (map enc_cdp_tlv ts)"
    using cdp_body_nonempty [OF assms(1)] by metis
  have "length (enc_cdp_tlv t) \<le> length (take n (drop c f))" unfolding t(2) by simp
  then have len: "length (snd t) + 4 \<le> n" using assms(3) by (simp add: length_enc_cdp)
  then show "4 \<le> n" by simp
  let ?l = "of_nat (length (snd t) + 4) :: u16"
  have "f ! (c + i) = (enc_cdp_tlv t @ concat (map enc_cdp_tlv ts)) ! i" if "i < 4" for i
    unfolding t(2) [symmetric] using that len assms(3) by simp
  from this [of 2] this [of 3] have "f ! (c + 2) = hi8 ?l" "f ! (c + 3) = lo8 ?l"
    by (simp_all add: enc_cdp_tlv_def Let_def)
  then have "rd_be16 f (c + 2) = Some ?l"
    using len assms(3) by (simp add: rd_be16_in numeral_eq_Suc)
  then show "\<exists>l. rd_be16 f (c + 2) = Some l \<and> 4 \<le> unat l \<and> unat l \<le> n"
    using unat_cdp_length [OF t(1)] len by auto
qed


text \<open>
  \<open>cdp_accepts b saw st info\<close>: the bytes are a sequence of TLVs that leads from the state \<open>st\<close> to
  the structure \<open>info\<close>, after at least one TLV (\<open>saw\<close> if there was one already) and with a device
  name.
\<close>

definition cdp_accepts :: "buf \<Rightarrow> bool \<Rightarrow> cdp_info \<times> bool \<Rightarrow> cdp_info \<Rightarrow> bool" where
  "cdp_accepts b saw st info \<longleftrightarrow>
     (\<exists>tlvs i. cdp_body b tlvs \<and> apply_cdp_tlvs tlvs st = Some (i, True) \<and> (saw \<or> tlvs \<noteq> []) \<and>
                info = i\<lparr> ci_valid := True \<rparr>)"

lemma cdp_accepts_Nil:
  "cdp_accepts [] saw st info \<longleftrightarrow> saw \<and> snd st \<and> info = (fst st)\<lparr> ci_valid := True \<rparr>"
  by (cases st) (auto simp: cdp_accepts_def cdp_body_Nil)

lemma cdp_accepts_Cons:
  assumes "wf_cdp_tlv t"
  shows "cdp_accepts (enc_cdp_tlv t @ r) saw st info \<longleftrightarrow>
           (case apply_cdp_tlv t st of None \<Rightarrow> False | Some st' \<Rightarrow> cdp_accepts r True st' info)"
  unfolding cdp_accepts_def cdp_body_Cons [OF assms]
  by (cases "apply_cdp_tlv t st") force+

lemma cdp_parse_from_spec:
  assumes "pdu + n \<le> length f" "offset \<le> n" "cdp_from m (fst st)"
  shows "runs (cdp_parse_from f pdu n offset saw st) (\<lambda>(ok, info).
           cdp_from m info \<and>
           (\<forall>info'. cdp_accepts (take (n - offset) (drop (pdu + offset) f)) saw st info' \<longrightarrow>
                     ok \<and> info = info') \<and>
           (ok \<longrightarrow> cdp_accepts (take (n - offset) (drop (pdu + offset) f)) saw st info))"
  using assms
proof (induction f pdu n offset saw st rule: cdp_parse_from.induct)
  case (1 f pdu n offset saw st)
  let ?b = "take (n - offset) (drop (pdu + offset) f)"
  show ?case
  proof (cases "offset < n")
    case False
    then have "?b = []" using "1.prems"(2) by simp
    then show ?thesis
      using False "1.prems"(3)
      by (subst cdp_parse_from.simps) (auto simp: cdp_accepts_Nil cdp_from_def)
  next
    case more: True
    have bound: "pdu + offset + (n - offset) \<le> length f" using "1.prems" by simp
    show ?thesis
    proof (cases "\<exists>l. 4 \<le> n - offset \<and> rd_be16 f (pdu + (offset + 2)) = Some l \<and>
                      4 \<le> unat l \<and> unat l \<le> n - offset")
      case False
      then have no: "\<not> cdp_body ?b tlvs" for tlvs
        using cdp_body_header [of "n - offset" "pdu + offset" f tlvs] more bound
        by (auto simp: add.assoc)
      have "cdp_parse_from f pdu n offset saw st = Some (False, fst st)"
      proof (cases "4 \<le> n - offset")
        case True
        then obtain ty l where r: "rd_be16 f (pdu + offset) = Some ty" "rd_be16 f (pdu + (offset + 2)) = Some l"
          using bound by (simp add: rd_be16_in)
        then have "unat l < 4 \<or> unat l > n - offset" using False True by auto
        with r True more show ?thesis by (subst cdp_parse_from.simps) simp
      next
        case False
        with more show ?thesis by (subst cdp_parse_from.simps) simp
      qed
      then show ?thesis using no "1.prems"(3) by (simp add: cdp_accepts_def)
    next
      case True
      then obtain l where l: "4 \<le> n - offset" "rd_be16 f (pdu + (offset + 2)) = Some l"
        "4 \<le> unat l" "unat l \<le> n - offset" by blast
      obtain ty where ty: "rd_be16 f (pdu + offset) = Some ty"
        using bound l(1) by (simp add: rd_be16_in)
      define v where "v = take (unat l - 4) (drop (pdu + offset + 4) f)"
      have l': "rd_be16 f (pdu + offset + 2) = Some l" using l(2) by (simp add: add.assoc)
      note at = cdp_tlv_at [OF ty l' l(3,4) bound, folded v_def]
      obtain r where r: "cdp_parse_tlv f (pdu + (offset + 4)) ty (unat l - 4) st = Some r"
        "cdp_from m (fst (snd r))"
        "apply_cdp_tlv (ty, v) st = (if fst r then Some (snd r) else None)"
        using apply_cdp_tlv [OF at(1) "1.prems"(3), of ty] at(2) by (auto simp: add.assoc)
      have ok: "\<not> (unat l < 4 \<or> unat l > n - offset)" "\<not> n - offset < 4" using l by auto
      show ?thesis
      proof (cases "fst r")
        case False
        have "cdp_parse_from f pdu n offset saw st = Some (False, fst (snd r))"
          using more ok ty l(2) r(1) False by (subst cdp_parse_from.simps) simp
        moreover have "\<not> cdp_accepts ?b saw st info" for info
          unfolding at(4) cdp_accepts_Cons [OF at(3)] using r(3) False by simp
        ultimately show ?thesis using r(2) by auto
      next
        case True
        have step: "cdp_parse_from f pdu n offset saw st =
            cdp_parse_from f pdu n (offset + unat l) True (snd r)"
          using more ok ty l(2) r(1) True by (subst cdp_parse_from.simps) simp
        have ih: "runs (cdp_parse_from f pdu n (offset + unat l) True (snd r)) (\<lambda>(ok, info).
           cdp_from m info \<and>
           (\<forall>info'. cdp_accepts (take (n - (offset + unat l)) (drop (pdu + (offset + unat l)) f))
                             True (snd r) info' \<longrightarrow> ok \<and> info = info') \<and>
           (ok \<longrightarrow> cdp_accepts (take (n - (offset + unat l)) (drop (pdu + (offset + unat l)) f))
                             True (snd r) info))"
          using l(4) more by (intro "1.IH" [OF more ok(2) ty l(2) ok(1) r(1) True "1.prems"(1) _ r(2)]) simp
        have b: "?b = enc_cdp_tlv (ty, v) @ take (n - (offset + unat l)) (drop (pdu + (offset + unat l)) f)"
          using at(4) by (simp add: add.assoc)
        show ?thesis
          unfolding step b cdp_accepts_Cons [OF at(3)] using r(3) True ih by simp
      qed
    qed
  qed
qed


section \<open>The frame\<close>

text \<open>
  The untagged IEEE 802.3 envelope: the CDP multicast address, a declared payload that lies inside
  the captured frame, and the LLC/SNAP header of CDP.
\<close>

definition cdp_envelope :: "buf \<Rightarrow> nat \<Rightarrow> bool" where
  "cdp_envelope f len \<longleftrightarrow>
     26 \<le> len \<and> take 6 f = [0x01, 0x00, 0x0C, 0xCC, 0xCC, 0xCC] \<and>
     (let declared = unat (be16 (f ! 12) (f ! 13))
      in 12 \<le> declared \<and> declared \<le> 1500 \<and> declared + 14 \<le> len) \<and>
     take 6 (drop 14 f) = [0xAA, 0xAA, 0x03, 0x00, 0x00, 0x0C] \<and> be16 (f ! 20) (f ! 21) = 0x2000"

definition cdp_length :: "buf \<Rightarrow> nat" where
  "cdp_length f = unat (be16 (f ! 12) (f ! 13)) - 8"

lemma cdp_get_pdu_eq:
  assumes "unat len \<le> length f"
  shows "cdp_get_pdu (Some f) len =
           Some (if cdp_envelope f (unat len) then Some (22, cdp_length f) else None)"
proof (cases "unat len < 26")
  case True
  then show ?thesis by (simp add: cdp_get_pdu_def cdp_envelope_def)
next
  case False
  have r: "rd_bytes f 0 6 = Some (take 6 f)" "rd_be16 f 12 = Some (be16 (f ! 12) (f ! 13))"
    "rd_bytes f 14 6 = Some (take 6 (drop 14 f))" "rd_be16 f 20 = Some (be16 (f ! 20) (f ! 21))"
    using False assms by (simp_all add: rd_bytes_in rd_be16_in)
  have "unat (be16 (f ! 12) (f ! 13)) > unat len - 14 \<longleftrightarrow>
        \<not> unat (be16 (f ! 12) (f ! 13)) + 14 \<le> unat len"
    using False by auto
  then show ?thesis
    using False unfolding cdp_get_pdu_def cdp_envelope_def cdp_length_def Let_def
    by (simp add: r)
qed

lemma cdp_envelope_length:
  "cdp_envelope f len \<Longrightarrow> 4 \<le> cdp_length f \<and> 22 + cdp_length f \<le> len \<and> cdp_length f \<le> 1492"
  by (auto simp: cdp_envelope_def cdp_length_def Let_def)

definition cdp_start :: "buf \<Rightarrow> cdp_info" where
  "cdp_start f = cdp_info_zero\<lparr> ci_version := f ! 22, ci_ttl := f ! 23, ci_source_mac := take 6 (drop 6 f) \<rparr>"

lemma cdp_from_start: "26 \<le> length f \<Longrightarrow> cdp_from (take 6 (drop 6 f)) (cdp_start f)"
  by (simp add: cdp_from_def cdp_start_def cdp_info_zero_def)

lemma cdp_parse_eq:
  assumes "unat len \<le> length f"
  shows "cdp_parse (Some f) len (Some old) =
           (if \<not> cdp_envelope f (unat len) \<or>
               calculate_checksum (take (cdp_length f) (drop 22 f)) (of_nat (cdp_length f)) \<noteq> Some 0
            then Some (False, Some old)
            else if f ! 22 \<noteq> 1 \<and> f ! 22 \<noteq> 2
            then Some (False, Some (cdp_info_zero\<lparr> ci_version := f ! 22, ci_ttl := f ! 23 \<rparr>))
            else map_option (\<lambda>(ok, i). (ok, Some i))
                   (cdp_parse_from f 22 (cdp_length f) 4 False (cdp_start f, False)))"
proof (cases "cdp_envelope f (unat len)")
  case False
  then show ?thesis using cdp_get_pdu_eq [OF assms] by (simp add: cdp_parse_def)
next
  case True
  note len = cdp_envelope_length [OF True]
  have c: "cdp_checksum_is_valid f 22 (cdp_length f) =
      Some (calculate_checksum (take (cdp_length f) (drop 22 f)) (of_nat (cdp_length f)) = Some 0)"
    using len assms by (intro cdp_checksum_calculate) auto
  have r: "rd f 22 = Some (f ! 22)" "rd f 23 = Some (f ! 23)"
    "rd_bytes f 6 6 = Some (take 6 (drop 6 f))"
    using len assms by (simp_all add: rd_def rd_bytes_def)
  show ?thesis
    using True cdp_get_pdu_eq [OF assms]
    by (cases "cdp_parse_from f 22 (cdp_length f) 4 False (cdp_start f, False)")
       (auto simp: cdp_parse_def c r cdp_start_def Let_def simp del: One_nat_def)
qed

section \<open>The description\<close>

lemma cdp_description_shares_spec:
  assumes "cdp_description_shares 124 pl sl = (pc, sc)"
  shows "pc \<le> pl" "sc \<le> sl" "pc + sc = min 124 (pl + sl)" "min 47 pl \<le> pc" "min 77 sl \<le> sc"
  using assms by (auto simp: cdp_description_shares_def Let_def min_def split: if_splits)

lemma take_cstr:
  assumes "k \<le> length (cstr a)"
  shows "take k a = take k (cstr a)"
proof -
  have "a = cstr a @ dropWhile (\<lambda>c. c \<noteq> 0) a" unfolding cstr_def by (rule takeWhile_dropWhile_id [symmetric])
  then have "take k a = take k (cstr a @ dropWhile (\<lambda>c. c \<noteq> 0) a)" by (rule arg_cong)
  also have "\<dots> = take k (cstr a)" using assms by simp
  finally show ?thesis .
qed

lemma cdp_store_description_spec:
  assumes p: "cstring 64 (ci_platform i)" and s: "cstring 128 (ci_software_version i)"
    and sh: "cdp_description_shares 124 (length (cstr (ci_platform i)))
               (length (cstr (ci_software_version i))) = (pc, sc)"
  shows "\<exists>d. cdp_store_description i (replicate 128 0) = Some d \<and> cstring 128 d \<and>
             cstr d = (if cstr (ci_platform i) = [] \<and> cstr (ci_software_version i) = [] then []
                       else take pc (cstr (ci_platform i)) @ [0x20, 0x7C, 0x20] @
                            take sc (cstr (ci_software_version i)))"
proof -
  let ?p = "ci_platform i" and ?s = "ci_software_version i"
  note shares = cdp_description_shares_spec [OF sh]
  have len: "length ?p = 64" "length ?s = 128" using p s by (simp_all add: cstring_def)
  have empty: "?p ! 0 = 0 \<longleftrightarrow> cstr ?p = []" "?s ! 0 = 0 \<longleftrightarrow> cstr ?s = []"
    using len cstr_eq_Nil_iff [of ?p] cstr_eq_Nil_iff [of ?s] by fastforce+
  have upd: "(replicate 128 (0 :: u8))[0 := 0] = replicate 128 0" by (simp add: list_update_same_conv)
  show ?thesis
  proof (cases "cstr ?p = [] \<and> cstr ?s = []")
    case True
    then show ?thesis using empty by (simp add: cdp_store_description_def upd Let_def)
  next
    case False
    define a where "a = take pc ?p"
    define b where "b = take sc ?s"
    define R where "R = replicate (128 - pc) (0 :: u8)"
    have ab: "a = take pc (cstr ?p)" "b = take sc (cstr ?s)"
      unfolding a_def b_def by (rule take_cstr, rule shares)+
    have la: "length a = pc" "length b = sc" using shares(1,2) by (simp_all add: ab)
    have sum: "pc + sc \<le> 124" using shares(3) by simp
    have r: "rd_bytes ?p 0 pc = Some a" "rd_bytes ?s 0 sc = Some b"
      using shares(1,2) cstr_length_le [of ?p] cstr_length_le [of ?s] by (simp_all add: rd_bytes_def a_def b_def)
    have w1: "wr_bytes (replicate 128 0) 0 a = Some (a @ R)"
      using la sum by (simp add: wr_bytes_def R_def)
    have w2: "wr_bytes (a @ R) pc [0x20, 0x7C, 0x20] = Some ((a @ [0x20, 0x7C, 0x20]) @ drop 3 R)"
      using la sum wr_bytes_at [of a pc "[0x20, 0x7C, 0x20]" R] by (simp add: R_def numeral_3_eq_3)
    have w3: "wr_bytes ((a @ [0x20, 0x7C, 0x20]) @ drop 3 R) (pc + 3) b =
        Some ((a @ [0x20, 0x7C, 0x20] @ b) @ drop (sc + 3) R)"
      using la sum wr_bytes_at [of "a @ [0x20, 0x7C, 0x20]" "pc + 3" b "drop 3 R"] by (simp add: R_def)
    have w4: "wr_bytes ((a @ [0x20, 0x7C, 0x20] @ b) @ drop (sc + 3) R) (pc + 3 + sc) [0] =
        Some ((a @ [0x20, 0x7C, 0x20] @ b) @ 0 # drop (sc + 4) R)"
      using la sum wr_bytes_at [of "a @ [0x20, 0x7C, 0x20] @ b" "pc + 3 + sc" "[0]" "drop (sc + 3) R"]
      by (simp add: R_def add.commute)
    have "cdp_store_description i (replicate 128 0) =
        Some ((a @ [0x20, 0x7C, 0x20] @ b) @ 0 # drop (sc + 4) R)"
      unfolding cdp_store_description_def using False empty sh r w1 w2 w3 w4
      by (auto simp: Let_def upd)
    moreover have "length ((a @ [0x20, 0x7C, 0x20] @ b) @ 0 # drop (sc + 4) R) = 128"
      using la sum by (simp add: R_def)
    moreover have "cstr ((a @ [0x20, 0x7C, 0x20] @ b) @ 0 # drop (sc + 4) R) = a @ [0x20, 0x7C, 0x20] @ b"
      by (rule cstr_append_nul) (auto simp: ab dest: in_set_takeD)
    ultimately show ?thesis using False by (auto simp: cstring_def ab)
  qed
qed

lemma cdp_fill_neighbor_spec:
  assumes wf: "cdp_from m i" and valid: "ci_valid i"
  shows "\<exists>n. cdp_fill_neighbor (Some i) (Some old) = Some (True, Some n) \<and> wf_neighbor n \<and>
             nb_occupied n \<and> nb_discovery_sources n = NEIGHBOR_SOURCE_CDP \<and> nb_mac n = m \<and>
             unat (nb_ttl n) = unat (ci_ttl i) \<and>
             cstr (nb_name n) = cstr (ci_device_id i) \<and> cstr (nb_port n) = cstr (ci_port_id i) \<and>
             cstr (nb_management_address n) = cstr (ci_management_address i) \<and>
             (\<exists>pc sc. pc + sc = min 124 (length (cstr (ci_platform i)) + length (cstr (ci_software_version i))) \<and>
               min 47 (length (cstr (ci_platform i))) \<le> pc \<and>
               min 77 (length (cstr (ci_software_version i))) \<le> sc \<and>
               cstr (nb_description n) =
                 (if cstr (ci_platform i) = [] \<and> cstr (ci_software_version i) = [] then []
                  else take pc (cstr (ci_platform i)) @ [0x20, 0x7C, 0x20] @
                       take sc (cstr (ci_software_version i))))"
proof -
  have w: "cstring 64 (ci_platform i)" "cstring 128 (ci_software_version i)" "cstring 64 (ci_device_id i)"
    "cstring 64 (ci_port_id i)" "cstring 16 (ci_management_address i)" "length m = 6" "ci_source_mac i = m"
    using wf by (simp_all add: cdp_from_def)
  obtain pc sc where sh: "cdp_description_shares 124 (length (cstr (ci_platform i)))
               (length (cstr (ci_software_version i))) = (pc, sc)" by (meson surj_pair)
  obtain d where d: "cdp_store_description i (replicate 128 0) = Some d" "cstring 128 d"
    "cstr d = (if cstr (ci_platform i) = [] \<and> cstr (ci_software_version i) = [] then []
               else take pc (cstr (ci_platform i)) @ [0x20, 0x7C, 0x20] @
                    take sc (cstr (ci_software_version i)))"
    using cdp_store_description_spec [OF w(1,2) sh] by blast
  have t: "cstr (snprintf_to (replicate 64 0) (cstr (ci_device_id i))) = cstr (ci_device_id i)"
    "cstr (snprintf_to (replicate 64 0) (cstr (ci_port_id i))) = cstr (ci_port_id i)"
    "cstr (snprintf_to (replicate 48 0) (cstr (ci_management_address i))) = cstr (ci_management_address i)"
    using cstr_length [OF w(3)] cstr_length [OF w(4)] cstr_length [OF w(5)]
    by (simp_all add: cstr_snprintf_to)
  define n where "n = neighbor_zero\<lparr> nb_mac := ci_source_mac i,
                      nb_name := snprintf_to (nb_name neighbor_zero) (cstr (ci_device_id i)),
                      nb_port := snprintf_to (nb_port neighbor_zero) (cstr (ci_port_id i)),
                      nb_management_address :=
                        snprintf_to (nb_management_address neighbor_zero) (cstr (ci_management_address i)),
                      nb_description := d,
                      nb_ttl := ucast (ci_ttl i),
                      nb_capabilities := ucast (ci_capabilities i AND 0xFFFF),
                      nb_discovery_sources := NEIGHBOR_SOURCE_CDP,
                      nb_occupied := True \<rparr>"
  have z: "nb_description neighbor_zero = replicate 128 0" by (simp add: neighbor_zero_def)
  have "cdp_fill_neighbor (Some i) (Some old) = Some (True, Some n)"
    using valid d(1) by (simp add: cdp_fill_neighbor_def n_def z Let_def)
  moreover have "wf_neighbor n"
    using w d(2) by (simp add: wf_neighbor_def n_def neighbor_zero_def snprintf_to_cstring)
  moreover note cdp_description_shares_spec [OF sh]
  ultimately show ?thesis
    using t d(3) w by (intro exI [of _ n]) (auto simp: n_def neighbor_zero_def)
qed


section \<open>The address loop is bounded\<close>

lemma div4_step: "offset + 4 + k \<le> n \<Longrightarrow> (n - offset) div 4 < Suc left \<Longrightarrow>
    (n - (offset + 4 + k)) div 4 < left" for n offset k left :: nat
proof -
  assume a: "offset + 4 + k \<le> n" "(n - offset) div 4 < Suc left"
  then have "(n - (offset + 4 + k)) div 4 \<le> (n - offset - 4) div 4" by (intro div_le_mono) simp
  also have "\<dots> < (n - offset) div 4" using a(1) by (simp add: div_if)
  finally show ?thesis using a(2) by simp
qed

lemma cdp_addresses_enough:
  assumes at: "at_value f p v"
  shows "offset \<le> length v \<Longrightarrow> (length v - offset) div 4 < left \<Longrightarrow> (length v - offset) div 4 < left' \<Longrightarrow>
     cdp_addresses_from left f p (length v) offset addr = cdp_addresses_from left' f p (length v) offset addr"
proof (induction left arbitrary: left' offset addr)
  case (Suc left)
  obtain l' where l': "left' = Suc l'" using Suc.prems(3) by (cases left') auto
  show ?case
  proof (cases "offset + 2 \<le> length v")
    case False
    then have "length v - offset < 2" using Suc.prems(1) by simp
    then show ?thesis
      using l' by (simp add: cdp_addresses_from.simps [of "Suc left"] cdp_addresses_from.simps [of "Suc l'"])
  next
    case True
    define pl where "pl = unat (v ! (offset + 1))"
    define al where "al = be16 (v ! (offset + 2 + pl)) (v ! (offset + 2 + pl + 1))"
    note step = cdp_addresses_step [OF at True, of "Suc left" addr, folded pl_def, folded al_def]
      cdp_addresses_step [OF at True, of "Suc l'" addr, folded pl_def, folded al_def]
    show ?thesis
    proof (cases "offset + 4 + pl + unat al \<le> length v")
      case room: True
      have "cdp_addresses_from left f p (length v) (offset + 4 + pl + unat al) a =
            cdp_addresses_from l' f p (length v) (offset + 4 + pl + unat al) a" for a
        using Suc.IH [OF room] div4_step [of offset "pl + unat al" "length v"] Suc.prems(2,3) room l'
        by (simp add: add.assoc)
      then have "cdp_addresses_from left f p (length v) (offset + 4 + pl + unat al) =
                 cdp_addresses_from l' f p (length v) (offset + 4 + pl + unat al)" by blast
      then show ?thesis using step l' by (simp only: zero_less_Suc diff_Suc_1)
    next
      case False
      then show ?thesis using step l' by simp
    qed
  qed
qed simp

lemma cdp_parse_from_frame:
  assumes "unat len \<le> length f" "cdp_envelope f (unat len)"
  shows "runs (cdp_parse_from f 22 (cdp_length f) 4 False (cdp_start f, False)) (\<lambda>(ok, info).
           cdp_from (take 6 (drop 6 f)) info \<and>
           (\<forall>info'. cdp_accepts (take (cdp_length f - 4) (drop 26 f)) False (cdp_start f, False) info' \<longrightarrow>
                     ok \<and> info = info') \<and>
           (ok \<longrightarrow> cdp_accepts (take (cdp_length f - 4) (drop 26 f)) False (cdp_start f, False) info))"
proof -
  note len = cdp_envelope_length [OF assms(2)]
  have "26 \<le> length f" using len assms(1) by simp
  from cdp_parse_from_spec [of 22 "cdp_length f" f 4 _ "(cdp_start f, False)" False] cdp_from_start [OF this]
  show ?thesis using len assms(1) by simp
qed

lemma cdp_parse_accepted:
  assumes "unat len \<le> length f" "cdp_parse (Some f) len (Some old) = Some (True, Some i)"
  shows "cdp_from (take 6 (drop 6 f)) i" "ci_valid i"
proof -
  from assms(2) have env: "cdp_envelope f (unat len)"
    unfolding cdp_parse_eq [OF assms(1)] by (auto split: if_splits)
  from assms(2) have "cdp_parse_from f 22 (cdp_length f) 4 False (cdp_start f, False) = Some (True, i)"
    unfolding cdp_parse_eq [OF assms(1)] by (auto split: if_splits)
  then have "cdp_from (take 6 (drop 6 f)) i \<and> ci_valid i"
    using cdp_parse_from_frame [OF assms(1) env] by (auto simp: cdp_accepts_def)
  then show "cdp_from (take 6 (drop 6 f)) i" "ci_valid i" by simp_all
qed

section \<open>Accepted frames\<close>

lemma cdp_parse_accepts:
  assumes "unat len \<le> length f"
  shows "\<exists>ok i. cdp_parse (Some f) len (Some old) = Some (ok, Some i) \<and>
           (ok \<longleftrightarrow> cdp_envelope f (unat len) \<and>
                  calculate_checksum (take (cdp_length f) (drop 22 f)) (of_nat (cdp_length f)) = Some 0 \<and>
                  (f ! 22 = 1 \<or> f ! 22 = 2) \<and>
                  (\<exists>i'. cdp_accepts (take (cdp_length f - 4) (drop 26 f)) False (cdp_start f, False) i')) \<and>
           (ok \<longrightarrow> cdp_from (take 6 (drop 6 f)) i \<and> ci_valid i \<and>
                  cdp_accepts (take (cdp_length f - 4) (drop 26 f)) False (cdp_start f, False) i)"
proof (cases "cdp_envelope f (unat len) \<and>
              calculate_checksum (take (cdp_length f) (drop 22 f)) (of_nat (cdp_length f)) = Some 0 \<and>
              (f ! 22 = 1 \<or> f ! 22 = 2)")
  case False
  then show ?thesis using cdp_parse_eq [OF assms, of old] by auto
next
  case True
  from cdp_parse_from_frame [OF assms conjunct1 [OF True]]
obtain ok i where r: "cdp_parse_from f 22 (cdp_length f) 4 False (cdp_start f, False) = Some (ok, i)"
    and i: "cdp_from (take 6 (drop 6 f)) i"
      "\<forall>info'. cdp_accepts (take (cdp_length f - 4) (drop 26 f)) False (cdp_start f, False) info' \<longrightarrow> ok"
      "ok \<longrightarrow> cdp_accepts (take (cdp_length f - 4) (drop 26 f)) False (cdp_start f, False) i"
    by (auto simp: runs_iff)
  have "ci_valid i" if ok using i(3) that by (auto simp: cdp_accepts_def)
  then show ?thesis
    using cdp_parse_eq [OF assms, of old] True r i by (intro exI [of _ ok] exI [of _ i]) auto
qed

definition example_cdp_frame :: buf where
  "example_cdp_frame =
     [0x01, 0x00, 0x0C, 0xCC, 0xCC, 0xCC, 0x02, 0, 0, 0, 0, 5, 0, 18,
      0xAA, 0xAA, 0x03, 0, 0, 0x0C, 0x20, 0,
      2, 180, 0xAB, 0x13, 0, 1, 0, 6, 0x52, 0x31]"

text \<open>
  A hostile address count costs nothing. Whatever count up to 2^32 - 1 an address TLV claims,
  the loop makes no access outside the TLV and behaves as with at most one iteration more than a
  quarter of the TLV's length: it returns, and the address buffer stays a terminated string.
\<close>

theorem cdp_address_loop_bounded:
  assumes "p + n \<le> length f" and "4 \<le> n" and "cstring 16 addr"
  shows "cdp_parse_addresses f p n addr =
           cdp_addresses_from (min (unat (be32 (f ! p) (f ! (p + 1)) (f ! (p + 2)) (f ! (p + 3)))) (n div 4))
             f p n 4 addr \<and>
         (\<exists>ok addr'. cdp_parse_addresses f p n addr = Some (ok, addr') \<and> cstring 16 addr')"
proof (intro conjI)
  let ?v = "take n (drop p f)"
  have v: "at_value f p ?v" "length ?v = n" using assms(1) by (simp_all add: at_value_def)
  let ?c = "unat (be32 (f ! p) (f ! (p + 1)) (f ! (p + 2)) (f ! (p + 3)))"
  have eq: "cdp_parse_addresses f p n addr = cdp_addresses_from ?c f p n 4 addr"
    using assms(1,2) by (simp add: cdp_parse_addresses_def rd_be32_in)
  have "(n - 4) div 4 < n div 4" using assms(2) by (simp add: div_if)
  then have "cdp_addresses_from ?c f p n 4 addr = cdp_addresses_from (n div 4) f p n 4 addr"
    if "n div 4 \<le> ?c"
    using cdp_addresses_enough [OF v(1), of 4 ?c "n div 4" addr] assms(2) that by (simp only: v(2))
  then show "cdp_parse_addresses f p n addr = cdp_addresses_from (min ?c (n div 4)) f p n 4 addr"
    unfolding eq by (simp add: min_def)
  show "\<exists>ok addr'. cdp_parse_addresses f p n addr = Some (ok, addr') \<and> cstring 16 addr'"
    using cdp_parse_addresses_runs [OF v(1) assms(3)] unfolding v(2) by auto
qed

lemma cdp_address_loop_bounded_witness:
  "cdp_parse_addresses [0xFF, 0xFF, 0xFF, 0xFF, 1, 1, 0xCC, 0, 4, 10, 0, 0, 1] 0 13 (replicate 16 0) =
     Some (False, ascii ''10.0.0.1'' @ replicate 8 0)"
proof -
  let ?f = "[0xFF, 0xFF, 0xFF, 0xFF, 1, 1, 0xCC, 0, 4, 10, 0, 0, 1] :: buf"
  have "unat (be32 (?f ! 0) (?f ! (0 + 1)) (?f ! (0 + 2)) (?f ! (0 + 3))) = 4294967295"
    by (simp add: be32_def)
  then have "cdp_parse_addresses ?f 0 13 (replicate 16 0) = cdp_addresses_from 3 ?f 0 13 4 (replicate 16 0)"
    using cdp_address_loop_bounded [of 0 13 ?f "replicate 16 0"] by simp
  also have "\<dots> = Some (False, ascii ''10.0.0.1'' @ replicate 8 0)" by code_simp
  finally show ?thesis .
qed


text \<open>
  The neighbour entry of a CDP frame. An accepted frame fills an entry that is occupied, has CDP
  as its only source and is keyed by the sender, with name, port and address unshortened. The
  description is the platform, a separator and the software version; when both do not fit in the
  124 bytes there are, the whole room is used, the platform keeps at least 47 bytes and the version
  at least 77 (or all they have), and the text is terminated inside its array.
\<close>

theorem cdp_fill_neighbor_faithful:
  assumes "unat len \<le> length f" and "cdp_parse (Some f) len (Some old) = Some (True, Some i)"
  defines "p \<equiv> cstr (ci_platform i)" and "s \<equiv> cstr (ci_software_version i)"
  shows "\<exists>n. cdp_fill_neighbor (Some i) (Some prev) = Some (True, Some n) \<and> wf_neighbor n \<and>
             nb_occupied n \<and> nb_discovery_sources n = NEIGHBOR_SOURCE_CDP \<and>
             nb_mac n = take 6 (drop 6 f) \<and> unat (nb_ttl n) = unat (ci_ttl i) \<and>
             cstr (nb_name n) = cstr (ci_device_id i) \<and> cstr (nb_port n) = cstr (ci_port_id i) \<and>
             cstr (nb_management_address n) = cstr (ci_management_address i) \<and>
             (\<exists>pc sc. pc + sc = min 124 (length p + length s) \<and> min 47 (length p) \<le> pc \<and>
               min 77 (length s) \<le> sc \<and>
               cstr (nb_description n) =
                 (if p = [] \<and> s = [] then [] else take pc p @ [0x20, 0x7C, 0x20] @ take sc s))"
  unfolding p_def s_def using cdp_fill_neighbor_spec cdp_parse_accepted [OF assms(1,2)] by blast

lemma cdp_fill_neighbor_faithful_witness:
  "\<exists>i n. cdp_parse (Some example_cdp_frame) 32 (Some cdp_info_zero) = Some (True, Some i) \<and>
         cdp_fill_neighbor (Some i) (Some neighbor_zero) = Some (True, Some n) \<and>
         nb_mac n = [2, 0, 0, 0, 0, 5] \<and> nb_discovery_sources n = 2"
proof -
  have len: "unat (32 :: u16) \<le> length example_cdp_frame" by (simp add: example_cdp_frame_def)
  have "cdp_parse (Some example_cdp_frame) 32 (Some cdp_info_zero) =
      Some (True, Some (cdp_info_zero\<lparr> ci_version := 2, ci_ttl := 180, ci_source_mac := [2, 0, 0, 0, 0, 5],
                          ci_device_id := [0x52, 0x31] @ replicate 62 0, ci_valid := True \<rparr>))"
    by code_simp
  then obtain i where parse: "cdp_parse (Some example_cdp_frame) 32 (Some cdp_info_zero) = Some (True, Some i)"
    by blast
  have mac: "take 6 (drop 6 example_cdp_frame) = [2, 0, 0, 0, 0, 5]" by code_simp
  obtain n where "cdp_fill_neighbor (Some i) (Some neighbor_zero) = Some (True, Some n)"
    "nb_mac n = [2, 0, 0, 0, 0, 5]" "nb_discovery_sources n = 2"
    using cdp_fill_neighbor_faithful [OF len parse, of neighbor_zero] mac
    unfolding NEIGHBOR_SOURCE_CDP_def by (elim exE conjE) simp
  then show ?thesis using parse by blast
qed

end
