(* ===== verification/Cdp_Grammar.thy ===== *)
theory Cdp_Grammar
  imports Cdp
begin

text \<open>
  The grammar of CDP data units, stated over bytes and lists without the functions of the parser: texts,
  address lists, TLVs, and what a list of TLVs means. The parser of theory Cdp accepts exactly the
  sentences of this grammar and returns their meaning.
\<close>

section \<open>Texts\<close>

text \<open>A text: printable bytes, others blank, trailing blanks and excess bytes cut.\<close>

definition blank_trimmed :: "buf \<Rightarrow> buf" where
  "blank_trimmed s = rev (dropWhile (\<lambda>c. c = 0x20) (rev s))"

definition cdp_text :: "nat \<Rightarrow> buf \<Rightarrow> buf" where
  "cdp_text k v = blank_trimmed (map cdp_printable (take k v))"

lemma blank_trimmed_snoc: "blank_trimmed (s @ [x]) = (if x = 0x20 then blank_trimmed s else s @ [x])"
  by (simp add: blank_trimmed_def)

lemma cdp_trimmed_take: "n \<le> length d \<Longrightarrow> take (cdp_trimmed d n) d = blank_trimmed (take n d)"
proof (induction n)
  case (Suc n)
  then have "take (Suc n) d = take n d @ [d ! n]" by (simp add: take_Suc_conv_app_nth)
  then show ?case using Suc by (simp add: blank_trimmed_snoc)
qed (simp add: blank_trimmed_def)

lemma printable_nonzero: "cdp_printable v \<noteq> 0"
  by (simp add: cdp_printable_def) (auto simp: word_le_nat_alt)

lemma blank_trimmed_subset: "set (blank_trimmed s) \<subseteq> set s"
  by (auto simp: blank_trimmed_def dest: set_dropWhileD)

lemma cdp_text_no_nul: "0 \<notin> set (cdp_text k s)"
  using blank_trimmed_subset [of "map cdp_printable (take k s)"] printable_nonzero
  by (auto simp: cdp_text_def)

lemma cdp_copy_text_eq:
  assumes "cstring (Suc k) dst"
  shows "\<exists>t. cdp_copy_text v 0 (length v) dst = Some t \<and> cstring (Suc k) t \<and> cstr t = cdp_text k v \<and>
             rd t 0 = Some (t ! 0) \<and> (t ! 0 \<noteq> 0 \<longleftrightarrow> cdp_text k v \<noteq> [])"
proof -
  have len: "length dst = Suc k" using assms by (simp add: cstring_def)
  define c where "c = (if length v \<ge> length dst then length dst - 1 else length v)"
  define s where "s = map cdp_printable (take c v)"
  have c: "c \<le> k" "c \<le> length v" "length s = c" and s: "s = map cdp_printable (take k v)"
    using len by (auto simp: c_def s_def)
  define d where "d = s @ drop c dst"
  have d: "length d = Suc k" "take c d = s" using c len by (simp_all add: d_def)
  let ?m = "cdp_trimmed d c"
  let ?t = "take ?m d @ 0 # drop (Suc ?m) d"
  have m: "?m \<le> c" by (rule cdp_trimmed_le)
  have eq: "cdp_copy_text v 0 (length v) dst = Some ?t"
  proof -
    have "rd_bytes v 0 c = Some (take c v)" using c by (simp add: rd_bytes_def)
    moreover have "wr_bytes dst 0 s = Some d" using c len by (simp add: wr_bytes_def d_def)
    moreover have "wr_bytes d ?m [0] = Some ?t" using m c d by (simp add: wr_bytes_def)
    moreover have "length dst \<noteq> 0" using len by simp
    ultimately show ?thesis
      unfolding cdp_copy_text_def c_def [symmetric] Let_def by (simp add: s_def)
  qed
  have "take ?m d = cdp_text k v"
    using cdp_trimmed_take [of c d] c d s by (simp add: cdp_text_def)
  then have t: "cstr ?t = cdp_text k v" using cdp_text_no_nul by simp
  have "?t \<noteq> []" by simp
  then have "?t ! 0 \<noteq> 0 \<longleftrightarrow> cdp_text k v \<noteq> []" using cstr_eq_Nil_iff [of ?t] t by simp
  moreover have "rd ?t 0 = Some (?t ! 0)" by (simp add: rd_def)
  moreover have "cstring (Suc k) ?t" using m c d by (simp add: cstring_def)
  ultimately show ?thesis using eq t by blast
qed

section \<open>Address lists\<close>

text \<open>Protocol type, protocol and address; an IPv4 address has four bytes.\<close>

type_synonym cdp_address = "u8 \<times> buf \<times> buf"

fun cdp_is_ipv4 :: "cdp_address \<Rightarrow> bool" where
  "cdp_is_ipv4 (t, p, a) \<longleftrightarrow> t = 1 \<and> p = [0xCC]"

fun wf_cdp_address :: "cdp_address \<Rightarrow> bool" where
  "wf_cdp_address (t, p, a) \<longleftrightarrow>
     length p < 256 \<and> length a < 65536 \<and> (cdp_is_ipv4 (t, p, a) \<longrightarrow> length a = 4)"

fun enc_cdp_address :: "cdp_address \<Rightarrow> buf" where
  "enc_cdp_address (t, p, a) =
     [t, of_nat (length p)] @ p @ [hi8 (of_nat (length a)), lo8 (of_nat (length a))] @ a"

definition cdp_address_list :: "buf \<Rightarrow> cdp_address list \<Rightarrow> bool" where
  "cdp_address_list v as \<longleftrightarrow>
     (\<forall>a\<in>set as. wf_cdp_address a) \<and> 4 \<le> length v \<and>
     length as = unat (be32 (v ! 0) (v ! 1) (v ! 2) (v ! 3)) \<and>
     drop 4 v = concat (map enc_cdp_address as)"

text \<open>The text that is kept: the one there is, else the first IPv4 address of the list.\<close>

definition cdp_first_address :: "buf \<Rightarrow> cdp_address list \<Rightarrow> buf" where
  "cdp_first_address old as =
     (if old \<noteq> [] then old
      else case filter cdp_is_ipv4 as of [] \<Rightarrow> [] | a # _ \<Rightarrow> ipv4_text (snd (snd a)))"

lemma cdp_first_address_Nil [simp]: "cdp_first_address old [] = old"
  by (simp add: cdp_first_address_def)

lemma cdp_first_address_append:
  "cdp_first_address (cdp_first_address old as) bs = cdp_first_address old (as @ bs)"
  by (auto simp: cdp_first_address_def split: list.splits)

lemma enc_cdp_address_inject:
  assumes "wf_cdp_address x" "wf_cdp_address y" "enc_cdp_address x @ r = enc_cdp_address y @ r'"
  shows "x = y \<and> r = r'"
proof -
  obtain t p a t' p' a' where x: "x = (t, p, a)" and y: "y = (t', p', a')" by (cases x; cases y) auto
  have b: "length p < 256" "length p' < 256" "length a < 65536" "length a' < 65536"
    using assms(1,2) by (simp_all add: x y)
  have h: "t = t'" "(of_nat (length p) :: u8) = of_nat (length p')"
    and rest: "p @ [hi8 (of_nat (length a)), lo8 (of_nat (length a))] @ a @ r =
      p' @ [hi8 (of_nat (length a')), lo8 (of_nat (length a'))] @ a' @ r'"
    using assms(3) by (simp_all add: x y)
  have p: "length p = length p'"
    using h(2) unat_of_nat_u8 [OF b(1)] unat_of_nat_u8 [OF b(2)] by metis
  then have q: "p = p'" "hi8 (of_nat (length a)) = hi8 (of_nat (length a'))"
    "lo8 (of_nat (length a)) = lo8 (of_nat (length a'))" "a @ r = a' @ r'" using rest by simp_all
  then have "(of_nat (length a) :: u16) = of_nat (length a')" using be16_hi8_lo8 by metis
  then have "length a = length a'"
    using unat_of_nat_u16 [OF b(3)] unat_of_nat_u16 [OF b(4)] by metis
  then show ?thesis using h(1) q by (simp add: x y)
qed

text \<open>The bytes at the cursor when they start with a complete address.\<close>

lemma cdp_address_at:
  fixes v offset
  defines "pl \<equiv> unat (v ! (offset + 1))"
  defines "al \<equiv> be16 (v ! (offset + 2 + pl)) (v ! (offset + 2 + pl + 1))"
  defines "x \<equiv> (v ! offset, take pl (drop (offset + 2) v), take (unat al) (drop (offset + 4 + pl) v))"
  assumes "offset + 4 + pl + unat al \<le> length v"
  shows "drop offset v = enc_cdp_address x @ drop (offset + 4 + pl + unat al) v"
    and "cdp_is_ipv4 x \<longleftrightarrow> v ! offset = 1 \<and> pl = 1 \<and> v ! (offset + 2) = 0xCC"
    and "length (snd (snd x)) = unat al" "length (fst (snd x)) = pl"
proof -
  have lens: "length (take pl (drop (offset + 2) v)) = pl"
    "length (take (unat al) (drop (offset + 4 + pl) v)) = unat al" using assms(4) by simp_all
  then show "length (snd (snd x)) = unat al" "length (fst (snd x)) = pl" by (simp_all add: x_def)
  have b1: "(of_nat pl :: u8) = v ! (offset + 1)" and bl: "(of_nat (unat al) :: u16) = al"
    by (simp_all add: pl_def)
  have pair: "drop i v = v ! i # v ! (i + 1) # drop j v" if "j = i + 2" "i + 2 \<le> length v" for i j
    using that chunk_byte [of i v "i + 1"] chunk_byte [of "i + 1" v j] by simp
  have "drop offset v = v ! offset # v ! (offset + 1) # drop (offset + 2) v"
    by (rule pair) (use assms(4) in simp_all)
  also have "drop (offset + 2) v = take pl (drop (offset + 2) v) @ drop (offset + 2 + pl) v"
    by (rule chunk [symmetric]) simp
  also have "drop (offset + 2 + pl) v = v ! (offset + 2 + pl) # v ! (offset + 2 + pl + 1) # drop (offset + 4 + pl) v"
    by (rule pair) (use assms(4) in simp_all)
  also have "v ! (offset + 2 + pl) = hi8 al" by (simp add: al_def)
  also have "v ! (offset + 2 + pl + 1) = lo8 al" by (simp add: al_def)
  also have "drop (offset + 4 + pl) v =
      take (unat al) (drop (offset + 4 + pl) v) @ drop (offset + 4 + pl + unat al) v"
    by (rule chunk [symmetric]) simp
  finally show "drop offset v = enc_cdp_address x @ drop (offset + 4 + pl + unat al) v"
    using lens by (simp add: x_def b1 bl)
  have "take pl (drop (offset + 2) v) = [0xCC] \<longleftrightarrow> pl = 1 \<and> v ! (offset + 2) = 0xCC"
  proof (cases "pl = 1")
    case True
    then have "take pl (drop (offset + 2) v) = [v ! (offset + 2)]"
      using assms(4) by (simp add: take_Suc hd_drop_conv_nth)
    then show ?thesis using True by simp
  next
    case False
    then show ?thesis using lens(1) by (metis length_Cons list.size(3) One_nat_def)
  qed
  then show "cdp_is_ipv4 x \<longleftrightarrow> v ! offset = 1 \<and> pl = 1 \<and> v ! (offset + 2) = 0xCC" by (simp add: x_def)
qed

lemma cdp_address_head:
  assumes "drop offset v = enc_cdp_address x @ r" "wf_cdp_address x" "offset \<le> length v"
  defines "pl \<equiv> unat (v ! (offset + 1))"
  defines "al \<equiv> be16 (v ! (offset + 2 + pl)) (v ! (offset + 2 + pl + 1))"
  shows "pl = length (fst (snd x))" "unat al = length (snd (snd x))" "v ! offset = fst x"
    "offset + 4 + pl + unat al \<le> length v"
proof -
  obtain t p a where x: "x = (t, p, a)" by (cases x) auto
  have n: "v ! (offset + i) = (enc_cdp_address x @ r) ! i" for i
    using assms(1,3) by (metis nth_drop)
  have len: "length v = offset + (4 + length p + length a + length r)"
    using arg_cong [OF assms(1), of length] assms(3) by (simp add: x)
  have "v ! (offset + 1) = of_nat (length p)" "v ! offset = t"
    using n [of 1] n [of 0] by (simp_all add: x)
  moreover have "unat (of_nat (length p) :: u8) = length p" using assms(2) by (intro unat_of_nat_u8) (simp add: x)
  ultimately show pl: "pl = length (fst (snd x))" and "v ! offset = fst x" by (simp_all add: pl_def x)
  then have plp: "pl = length p" by (simp add: x)
  have "al = of_nat (length a)"
    unfolding al_def plp using n [of "2 + length p"] n [of "2 + length p + 1"]
    by (simp add: x nth_append add.assoc)
  then show al: "unat al = length (snd (snd x))" using assms(2) by (simp add: x unat_of_nat_u16)
  show "offset + 4 + pl + unat al \<le> length v" using len plp al by (simp add: x)
qed

lemma cdp_addresses_spec:
  assumes "offset \<le> length v" "cstring 16 addr"
  shows "\<exists>ok addr'. cdp_addresses_from left v 0 (length v) offset addr = Some (ok, addr') \<and> cstring 16 addr' \<and>
           (ok \<longleftrightarrow> (\<exists>as. length as = left \<and> (\<forall>a\<in>set as. wf_cdp_address a) \<and>
                         drop offset v = concat (map enc_cdp_address as))) \<and>
           (\<forall>as. length as = left \<and> (\<forall>a\<in>set as. wf_cdp_address a) \<and>
                 drop offset v = concat (map enc_cdp_address as) \<longrightarrow>
                 cstr addr' = cdp_first_address (cstr addr) as)"
  using assms
proof (induction left arbitrary: offset addr)
  case 0
  then show ?case by (auto simp: cdp_addresses_from.simps)
next
  case (Suc left)
  let ?G = "\<lambda>n offset as. length as = n \<and> (\<forall>a\<in>set as. wf_cdp_address a) \<and>
              drop offset v = concat (map enc_cdp_address as)"
  define pl where "pl = unat (v ! (offset + 1))"
  define al where "al = be16 (v ! (offset + 2 + pl)) (v ! (offset + 2 + pl + 1))"
  define is4 where "is4 \<longleftrightarrow> v ! offset = 1 \<and> pl = 1 \<and> v ! (offset + 2) = 0xCC"
  define x where "x = (v ! offset, take pl (drop (offset + 2) v), take (unat al) (drop (offset + 4 + pl) v))"
  define bad where "bad \<longleftrightarrow> length v < offset + 4 + pl \<or> length v < offset + 4 + pl + unat al \<or> (is4 \<and> al \<noteq> 4)"
  have head: "\<not> bad \<and> offset + 2 \<le> length v \<and>
      (\<exists>bs. as = x # bs \<and> wf_cdp_address x \<and> ?G left (offset + 4 + pl + unat al) bs)"
    if g: "?G (Suc left) offset as" for as
  proof -
    obtain y bs where as: "as = y # bs" using g by (cases as) auto
    have y: "drop offset v = enc_cdp_address y @ concat (map enc_cdp_address bs)" "wf_cdp_address y"
      using g by (simp_all add: as)
    note h = cdp_address_head [OF y Suc.prems(1), folded pl_def, folded al_def]
    note at = cdp_address_at [of offset v, folded pl_def, folded al_def, OF h(4), folded x_def]
    have wx: "wf_cdp_address x \<longleftrightarrow> (is4 \<longrightarrow> unat al = 4)"
    proof -
      have "length (fst (snd x)) < 256" "length (snd (snd x)) < 65536"
        unfolding at(3,4) pl_def by simp_all
      then show ?thesis using at(2,3) by (cases x) (auto simp: is4_def)
    qed
    have "wf_cdp_address x"
    proof -
      have "is4 \<longrightarrow> cdp_is_ipv4 y"
      proof
        assume is4
        obtain t p a where yy: "y = (t, p, a)" by (cases y) auto
        have "p ! 0 = v ! (offset + 2)"
          using h(1) \<open>is4\<close> nth_drop [of offset v 2] Suc.prems(1) y(1)
          by (simp add: yy is4_def nth_append)
        then have "p = [0xCC]" using h(1) \<open>is4\<close> by (cases p) (auto simp: yy is4_def)
        then show "cdp_is_ipv4 y" using h(3) \<open>is4\<close> by (simp add: yy is4_def)
      qed
      then show ?thesis unfolding wx using y(2) h(2) by (cases y) auto
    qed
    then have "x = y \<and> drop (offset + 4 + pl + unat al) v = concat (map enc_cdp_address bs)"
      by (rule enc_cdp_address_inject [OF _ y(2) trans [OF at(1) [symmetric] y(1)]])
    moreover have "\<not> bad"
      using h(4) \<open>wf_cdp_address x\<close> unfolding bad_def wx by (auto simp: word_unat_eq_iff)
    ultimately show ?thesis using g h(4) \<open>wf_cdp_address x\<close> by (auto simp: as)
  qed
  show ?case
  proof (cases "offset + 2 \<le> length v")
    case False
    then have "length v - offset < 2" by simp
    then have "cdp_addresses_from (Suc left) v 0 (length v) offset addr = Some (False, addr)"
      by (simp add: cdp_addresses_from.simps [of "Suc left"])
    then show ?thesis using False head Suc.prems(2) by blast
  next
    case two: True
    define m where "m = (if is4 then do { a0 \<leftarrow> rd addr 0;
                                          if a0 = 0 then lldp_ipv4_to_string v (offset + 4 + pl) addr
                                          else Some addr }
                         else Some addr)"
    note step = cdp_addresses_step [OF at_value_self two, of "Suc left" addr]
    note step = step [folded pl_def, folded al_def is4_def, folded bad_def m_def]
    show ?thesis
    proof (cases bad)
      case True
      then have "cdp_addresses_from (Suc left) v 0 (length v) offset addr = Some (False, addr)"
        using step by simp
      then show ?thesis using True head Suc.prems(2) by blast
    next
      case False
      then have room: "offset + 4 + pl + unat al \<le> length v" "is4 \<longrightarrow> unat al = 4"
        by (auto simp: bad_def)
      note at = cdp_address_at [of offset v, folded pl_def, folded al_def, OF room(1), folded x_def]
      have wx: "wf_cdp_address x"
      proof -
        have "length (fst (snd x)) < 256" "length (snd (snd x)) < 65536"
          unfolding at(3,4) pl_def by simp_all
        then show ?thesis using at(2,3) room(2) by (cases x) (auto simp: is4_def)
      qed
      have ne: "addr \<noteq> []" "length addr = 16" using Suc.prems(2) by (auto simp: cstring_def)
      obtain a where a: "m = Some a" "cstring 16 a" "cstr a = cdp_first_address (cstr addr) [x]"
      proof (cases "is4 \<and> addr ! 0 = 0")
        case True
        let ?t = "ipv4_text (take 4 (drop (offset + 4 + pl) v))"
        have "lldp_ipv4_to_string v (offset + 4 + pl) addr = Some (snprintf_to addr ?t)"
          using room True by (simp add: lldp_ipv4_to_string_def rd_bytes_in)
        then have m: "m = Some (snprintf_to addr ?t)" using True ne by (simp add: m_def rd_def)
        have "cstr (snprintf_to addr ?t) = ?t"
          using cstr_snprintf_to [OF ne(1), of ?t] ne(2) length_ipv4_text [of "take 4 (drop (offset + 4 + pl) v)"]
          by simp
        moreover have "cstr addr = []" using True cstr_eq_Nil_iff [OF ne(1)] by simp
        moreover have "cdp_is_ipv4 x" "snd (snd x) = take 4 (drop (offset + 4 + pl) v)"
          using at(2) True room(2) by (auto simp: is4_def x_def)
        ultimately have "cstr (snprintf_to addr ?t) = cdp_first_address (cstr addr) [x]"
          by (simp add: cdp_first_address_def)
        then show ?thesis using that m ne(2) snprintf_to_cstring by simp
      next
        case False
        then have "m = Some addr" using ne by (simp add: m_def rd_def)
        moreover have "cdp_first_address (cstr addr) [x] = cstr addr"
          using False at(2) cstr_eq_Nil_iff [OF ne(1)] by (auto simp: cdp_first_address_def is4_def)
        ultimately show ?thesis using that Suc.prems(2) by simp
      qed
      from Suc.IH [OF room(1) a(2)] obtain ok addr' where
        ih: "cdp_addresses_from left v 0 (length v) (offset + 4 + pl + unat al) a = Some (ok, addr')" "cstring 16 addr'"
          "ok \<longleftrightarrow> (\<exists>as. ?G left (offset + 4 + pl + unat al) as)"
          "\<forall>as. ?G left (offset + 4 + pl + unat al) as \<longrightarrow> cstr addr' = cdp_first_address (cstr a) as" by auto
      have "?G (Suc left) offset (x # bs)" if "?G left (offset + 4 + pl + unat al) bs" for bs
        using that wx at(1) by simp
      then have "(\<exists>as. ?G (Suc left) offset as) \<longleftrightarrow> (\<exists>as. ?G left (offset + 4 + pl + unat al) as)"
        using head by blast
      moreover have "cstr addr' = cdp_first_address (cstr addr) as" if "?G (Suc left) offset as" for as
      proof -
        from head [OF that] obtain bs where "as = x # bs" "?G left (offset + 4 + pl + unat al) bs" by blast
        then have "cstr addr' = cdp_first_address (cstr a) bs" using ih(4) by blast
        then show ?thesis using \<open>as = x # bs\<close> a(3) cdp_first_address_append [of "cstr addr" "[x]" bs] by simp
      qed
      ultimately show ?thesis
        using step False a(1) ih(1-3) by (intro exI [of _ ok] exI [of _ addr']) auto
    qed
  qed
qed

section \<open>Data units\<close>

text \<open>
  The addresses that the TLVs hold, one list per TLV: an address or management address TLV holds an
  address list, the others none.
\<close>

definition cdp_tlv_addresses :: "cdp_tlv \<Rightarrow> cdp_address list \<Rightarrow> bool" where
  "cdp_tlv_addresses t as \<longleftrightarrow> (if fst t = 0x0002 \<or> fst t = 0x0016 then cdp_address_list (snd t) as else as = [])"

text \<open>The texts of the TLVs of one type, at most \<open>k\<close> bytes of each.\<close>

definition cdp_texts :: "nat \<Rightarrow> u16 \<Rightarrow> cdp_tlv list \<Rightarrow> buf list" where
  "cdp_texts k ty tlvs = map (\<lambda>t. cdp_text k (snd t)) (filter (\<lambda>t. fst t = ty) tlvs)"

definition last_or :: "'a \<Rightarrow> 'a list \<Rightarrow> 'a" where
  "last_or d xs = (if xs = [] then d else last xs)"

lemma last_or_simps [simp]: "last_or d [] = d" "last_or d (x # xs) = last_or x xs"
  by (simp_all add: last_or_def)

text \<open>
  A data unit: complete TLVs to the last byte, address lists in the address TLVs, capabilities of four
  bytes, and a device name that is not blank (the last one counts).
\<close>

definition cdp_data_unit :: "buf \<Rightarrow> cdp_tlv list \<Rightarrow> cdp_address list list \<Rightarrow> bool" where
  "cdp_data_unit b tlvs ass \<longleftrightarrow>
     cdp_body b tlvs \<and> list_all2 cdp_tlv_addresses tlvs ass \<and>
     (\<forall>t\<in>set tlvs. fst t = 0x0004 \<longrightarrow> length (snd t) = 4) \<and> last_or [] (cdp_texts 63 0x0001 tlvs) \<noteq> []"

definition cdp_capability_values :: "cdp_tlv list \<Rightarrow> u32 list" where
  "cdp_capability_values tlvs =
     map (\<lambda>t. be32 (snd t ! 0) (snd t ! 1) (snd t ! 2) (snd t ! 3)) (filter (\<lambda>t. fst t = 0x0004) tlvs)"

text \<open>What the parser makes of a data unit: the last value of each type, the first IPv4 address.\<close>

definition cdp_meaning :: "buf \<Rightarrow> cdp_tlv list \<Rightarrow> cdp_address list list \<Rightarrow> cdp_info \<Rightarrow> bool" where
  "cdp_meaning f tlvs ass i \<longleftrightarrow>
     ci_valid i \<and> ci_source_mac i = take 6 (drop 6 f) \<and> ci_version i = f ! 22 \<and> ci_ttl i = f ! 23 \<and>
     cstr (ci_device_id i) = last_or [] (cdp_texts 63 0x0001 tlvs) \<and>
     cstr (ci_port_id i) = last_or [] (cdp_texts 63 0x0003 tlvs) \<and>
     cstr (ci_software_version i) = last_or [] (cdp_texts 127 0x0005 tlvs) \<and>
     cstr (ci_platform i) = last_or [] (cdp_texts 63 0x0006 tlvs) \<and>
     ci_capabilities i = last_or 0 (cdp_capability_values tlvs) \<and>
     cstr (ci_management_address i) = cdp_first_address [] (concat ass)"

text \<open>The same, from a structure that holds something already.\<close>

definition cdp_continues :: "cdp_info \<times> bool \<Rightarrow> cdp_tlv list \<Rightarrow> cdp_address list list \<Rightarrow> cdp_info \<times> bool \<Rightarrow> bool" where
  "cdp_continues st tlvs ass st' \<longleftrightarrow>
     ci_valid (fst st') = ci_valid (fst st) \<and> ci_version (fst st') = ci_version (fst st) \<and>
     ci_ttl (fst st') = ci_ttl (fst st) \<and>
     cstr (ci_device_id (fst st')) = last_or (cstr (ci_device_id (fst st))) (cdp_texts 63 0x0001 tlvs) \<and>
     snd st' = last_or (snd st) (map (\<lambda>s. s \<noteq> []) (cdp_texts 63 0x0001 tlvs)) \<and>
     cstr (ci_port_id (fst st')) = last_or (cstr (ci_port_id (fst st))) (cdp_texts 63 0x0003 tlvs) \<and>
     cstr (ci_software_version (fst st')) =
       last_or (cstr (ci_software_version (fst st))) (cdp_texts 127 0x0005 tlvs) \<and>
     cstr (ci_platform (fst st')) = last_or (cstr (ci_platform (fst st))) (cdp_texts 63 0x0006 tlvs) \<and>
     ci_capabilities (fst st') = last_or (ci_capabilities (fst st)) (cdp_capability_values tlvs) \<and>
     cstr (ci_management_address (fst st')) =
       cdp_first_address (cstr (ci_management_address (fst st))) (concat ass)"

lemma cdp_parse_addresses_spec:
  assumes "cstring 16 addr"
  shows "\<exists>ok addr'. cdp_parse_addresses v 0 (length v) addr = Some (ok, addr') \<and> cstring 16 addr' \<and>
           (ok \<longleftrightarrow> (\<exists>as. cdp_address_list v as)) \<and>
           (\<forall>as. cdp_address_list v as \<longrightarrow> cstr addr' = cdp_first_address (cstr addr) as)"
proof (cases "length v < 4")
  case True
  then show ?thesis using assms by (auto simp: cdp_parse_addresses_def cdp_address_list_def)
next
  case False
  let ?n = "unat (be32 (v ! 0) (v ! 1) (v ! 2) (v ! 3))"
  have "cdp_parse_addresses v 0 (length v) addr = cdp_addresses_from ?n v 0 (length v) 4 addr"
    using False rd_be32_in [of 0 v] by (simp add: cdp_parse_addresses_def numeral_2_eq_2)
  moreover have "cdp_address_list v as \<longleftrightarrow> length as = ?n \<and> (\<forall>a\<in>set as. wf_cdp_address a) \<and>
      drop 4 v = concat (map enc_cdp_address as)" for as
    using False by (auto simp: cdp_address_list_def)
  ultimately show ?thesis
    using cdp_addresses_spec [of 4 v addr ?n] False assms by simp
qed

text \<open>One TLV.\<close>

definition cdp_tlv_accepted :: "cdp_tlv \<Rightarrow> cdp_address list \<Rightarrow> bool" where
  "cdp_tlv_accepted t as \<longleftrightarrow> cdp_tlv_addresses t as \<and> (fst t = 0x0004 \<longrightarrow> length (snd t) = 4)"

lemma apply_cdp_tlv_spec:
  assumes "cdp_from m (fst st)"
  shows "(apply_cdp_tlv t st = None \<and> (\<forall>as. \<not> cdp_tlv_accepted t as)) \<or>
         (\<exists>st'. apply_cdp_tlv t st = Some st' \<and> cdp_from m (fst st') \<and> (\<exists>as. cdp_tlv_accepted t as) \<and>
            (\<forall>as. cdp_tlv_accepted t as \<longrightarrow> cdp_continues st [t] [as] st'))"
proof -
  obtain ty v i saw where t: "t = (ty, v)" and st: "st = (i, saw)" by (cases t; cases st) auto
  have c: "cstring (Suc 63) (ci_device_id i)" "cstring (Suc 63) (ci_port_id i)"
    "cstring (Suc 127) (ci_software_version i)" "cstring (Suc 63) (ci_platform i)"
    "cstring 16 (ci_management_address i)"
    using assms by (simp_all add: cdp_from_def st)
  note c4 = c(1) [THEN cdp_copy_text_eq [of _ _ v]] c(2) [THEN cdp_copy_text_eq [of _ _ v]]
    c(3) [THEN cdp_copy_text_eq [of _ _ v]] c(4) [THEN cdp_copy_text_eq [of _ _ v]]
  note a5 = cdp_parse_addresses_spec [OF c(5), of v]
  note defs = t st apply_cdp_tlv_def cdp_parse_tlv_def cdp_tlv_accepted_def cdp_tlv_addresses_def
    cdp_continues_def cdp_texts_def cdp_capability_values_def Let_def
  have frm: "cdp_from m i" using assms by (simp add: st)
  consider "ty = 1" | "ty = 2 \<or> ty = 0x16" | "ty = 3" | "ty = 4" | "ty = 5" | "ty = 6"
    | (other) "ty \<notin> {1, 2, 0x16, 3, 4, 5, 6}" by auto
  then show ?thesis
  proof cases
    case 1
    then show ?thesis using c4(1) frm by (fastforce simp: defs cdp_from_def)
  next
    case 2
    from a5 obtain ok addr' where
      "cdp_parse_addresses v 0 (length v) (ci_management_address i) = Some (ok, addr')" "cstring 16 addr'"
      "ok \<longleftrightarrow> (\<exists>as. cdp_address_list v as)"
      "\<forall>as. cdp_address_list v as \<longrightarrow> cstr addr' = cdp_first_address (cstr (ci_management_address i)) as"
      by blast
    then show ?thesis using 2 frm by (cases ok) (auto simp: defs cdp_from_def)
  next
    case 3
    then show ?thesis using c4(2) frm by (fastforce simp: defs cdp_from_def)
  next
    case 4
    have "rd_be32 v 0 = Some (be32 (v ! 0) (v ! 1) (v ! 2) (v ! 3))" if "length v = 4"
      using that rd_be32_in [of 0 v] by (simp add: numeral_2_eq_2)
    then show ?thesis using frm 4 by (cases "length v = 4") (auto simp: defs cdp_from_def)
  next
    case 5
    then show ?thesis using c4(3) frm by (fastforce simp: defs cdp_from_def)
  next
    case 6
    then show ?thesis using c4(4) frm by (fastforce simp: defs cdp_from_def)
  next
    case other
    then show ?thesis using frm by (auto simp: defs cdp_from_def)
  qed
qed

lemma last_or_append: "last_or d (xs @ ys) = last_or (last_or d xs) ys"
  by (simp add: last_or_def)

lemma cdp_continues_trans:
  "cdp_continues st ts as st' \<Longrightarrow> cdp_continues st' us bs st'' \<Longrightarrow> cdp_continues st (ts @ us) (as @ bs) st''"
  unfolding cdp_continues_def cdp_texts_def cdp_capability_values_def
  by (simp add: last_or_append cdp_first_address_append)

lemma apply_cdp_tlvs_spec:
  assumes "cdp_from m (fst st)"
  shows "(apply_cdp_tlvs tlvs st = None \<and> (\<forall>ass. \<not> list_all2 cdp_tlv_accepted tlvs ass)) \<or>
         (\<exists>st'. apply_cdp_tlvs tlvs st = Some st' \<and> (\<exists>ass. list_all2 cdp_tlv_accepted tlvs ass) \<and>
            (\<forall>ass. list_all2 cdp_tlv_accepted tlvs ass \<longrightarrow> cdp_continues st tlvs ass st'))"
  using assms
proof (induction tlvs arbitrary: st)
  case Nil
  then show ?case by (simp add: cdp_continues_def cdp_texts_def cdp_capability_values_def)
next
  case (Cons t ts)
  have all2: "list_all2 cdp_tlv_accepted (t # ts) ass \<longleftrightarrow>
      (\<exists>as bs. ass = as # bs \<and> cdp_tlv_accepted t as \<and> list_all2 cdp_tlv_accepted ts bs)" for ass
    by (simp add: list_all2_Cons1)
  from apply_cdp_tlv_spec [OF Cons.prems, of t] show ?case
  proof (elim disjE exE conjE)
    assume "apply_cdp_tlv t st = None" "\<forall>as. \<not> cdp_tlv_accepted t as"
    then show ?thesis unfolding all2 by simp
  next
    fix st1 as1
    assume 1: "apply_cdp_tlv t st = Some st1" "cdp_from m (fst st1)" "cdp_tlv_accepted t as1"
      "\<forall>as. cdp_tlv_accepted t as \<longrightarrow> cdp_continues st [t] [as] st1"
    from Cons.IH [OF 1(2)] show ?thesis
    proof (elim disjE exE conjE)
      assume "apply_cdp_tlvs ts st1 = None" "\<forall>ass. \<not> list_all2 cdp_tlv_accepted ts ass"
      then show ?thesis unfolding all2 using 1(1) by simp
    next
      fix st2 ass2
      assume 2: "apply_cdp_tlvs ts st1 = Some st2" "list_all2 cdp_tlv_accepted ts ass2"
        "\<forall>ass. list_all2 cdp_tlv_accepted ts ass \<longrightarrow> cdp_continues st1 ts ass st2"
      have "cdp_continues st (t # ts) ass st2" if "list_all2 cdp_tlv_accepted (t # ts) ass" for ass
        using that 1(4) 2(3) cdp_continues_trans [of st "[t]" _ st1 ts _ st2] unfolding all2 by fastforce
      then show ?thesis using 1(1,3) 2(1,2) unfolding all2 by auto
    qed
  qed
qed

lemma data_unit_accepted:
  "cdp_data_unit b tlvs ass \<longleftrightarrow>
     cdp_body b tlvs \<and> list_all2 cdp_tlv_accepted tlvs ass \<and> last_or [] (cdp_texts 63 0x0001 tlvs) \<noteq> []"
proof -
  have "list_all2 cdp_tlv_accepted tlvs ass \<longleftrightarrow>
      list_all2 cdp_tlv_addresses tlvs ass \<and> (\<forall>t\<in>set tlvs. fst t = 0x0004 \<longrightarrow> length (snd t) = 4)"
    by (simp add: list_all2_conv_all_nth cdp_tlv_accepted_def all_set_conv_all_nth) blast
  then show ?thesis by (auto simp: cdp_data_unit_def)
qed

lemma last_or_named: "last_or False (map (\<lambda>s. s \<noteq> []) xs) \<longleftrightarrow> last_or [] xs \<noteq> []"
  by (simp add: last_or_def last_map)

lemma cdp_start_texts:
  "cstr (ci_device_id (cdp_start f)) = []" "cstr (ci_port_id (cdp_start f)) = []"
  "cstr (ci_software_version (cdp_start f)) = []" "cstr (ci_platform (cdp_start f)) = []"
  "cstr (ci_management_address (cdp_start f)) = []" "ci_capabilities (cdp_start f) = 0"
  by (simp_all add: cdp_start_def cdp_info_zero_def)

text \<open>What the states of the parser accept is what the grammar generates.\<close>

lemma cdp_accepts_grammar:
  assumes "26 \<le> length f"
  shows "(\<exists>i. cdp_accepts b False (cdp_start f, False) i) \<longleftrightarrow> (\<exists>tlvs ass. cdp_data_unit b tlvs ass)"
    and "cdp_accepts b False (cdp_start f, False) i \<Longrightarrow> cdp_from (take 6 (drop 6 f)) i \<Longrightarrow>
           \<exists>tlvs ass. cdp_data_unit b tlvs ass \<and> cdp_meaning f tlvs ass i"
proof -
  let ?s = "(cdp_start f, False)"
  have start: "cdp_from (take 6 (drop 6 f)) (fst ?s)" using cdp_from_start [OF assms] by simp
  have fwd: "\<exists>tlvs ass st. cdp_data_unit b tlvs ass \<and> cdp_continues ?s tlvs ass (st, True) \<and> i = st\<lparr> ci_valid := True \<rparr>"
    if "cdp_accepts b False ?s i" for i
  proof -
    from that obtain tlvs st where a: "cdp_body b tlvs" "apply_cdp_tlvs tlvs ?s = Some (st, True)"
      "i = st\<lparr> ci_valid := True \<rparr>" by (auto simp: cdp_accepts_def)
    from apply_cdp_tlvs_spec [OF start, of tlvs] a(2) obtain ass where
      l: "list_all2 cdp_tlv_accepted tlvs ass" "cdp_continues ?s tlvs ass (st, True)" by auto
    then have "last_or False (map (\<lambda>s. s \<noteq> []) (cdp_texts 63 0x0001 tlvs))" by (simp add: cdp_continues_def)
    then show ?thesis using a l unfolding data_unit_accepted last_or_named by blast
  qed
  have bwd: "\<exists>i. cdp_accepts b False ?s i" if u: "cdp_data_unit b tlvs ass" for tlvs ass
  proof -
    have a: "cdp_body b tlvs" "list_all2 cdp_tlv_accepted tlvs ass" "last_or [] (cdp_texts 63 0x0001 tlvs) \<noteq> []"
      using u unfolding data_unit_accepted by blast+
    from apply_cdp_tlvs_spec [OF start, of tlvs] a(2) obtain st where
      s: "apply_cdp_tlvs tlvs ?s = Some st" "cdp_continues ?s tlvs ass st" by blast
    then have "snd st" using a(3) unfolding last_or_named [symmetric] by (simp add: cdp_continues_def)
    moreover have "tlvs \<noteq> []" using a(3) by (auto simp: cdp_texts_def)
    ultimately show ?thesis using a(1) s(1) unfolding cdp_accepts_def by (metis prod.collapse)
  qed
  show "(\<exists>i. cdp_accepts b False ?s i) \<longleftrightarrow> (\<exists>tlvs ass. cdp_data_unit b tlvs ass)"
    using fwd bwd by blast
  show "\<exists>tlvs ass. cdp_data_unit b tlvs ass \<and> cdp_meaning f tlvs ass i"
    if acc: "cdp_accepts b False ?s i" and m: "cdp_from (take 6 (drop 6 f)) i"
  proof -
    from fwd [OF acc] obtain tlvs ass st where
      u: "cdp_data_unit b tlvs ass" "cdp_continues ?s tlvs ass (st, True)" "i = st\<lparr> ci_valid := True \<rparr>" by blast
    have "ci_version (cdp_start f) = f ! 22" "ci_ttl (cdp_start f) = f ! 23" by (simp_all add: cdp_start_def)
    then have "cdp_meaning f tlvs ass i"
      using u(2) m unfolding u(3) by (simp add: cdp_meaning_def cdp_continues_def cdp_start_texts cdp_from_def)
    then show ?thesis using u(1) by blast
  qed
qed

section \<open>Property\<close>

text \<open>
  C13. The CDP parser refines the grammar of CDP data units. For any bytes of a frame inside its
  buffer it makes no access outside the buffer and accepts exactly when the frame has the CDP
  envelope, the internet checksum of the data unit is zero (as the IPv4 code computes it), the
  version is 1 or 2, and the bytes after the CDP header are, to the last one, a sequence of
  length-delimited TLVs in which the address TLVs hold complete address lists (IPv4 addresses of four
  bytes), the capabilities have four bytes and the last device name is not blank. What it returns then
  is the meaning of that sequence: the last text of each type, trimmed and cut to its array, the
  last capabilities and the first IPv4 address as text.
\<close>

theorem cdp_parse_refines_grammar:
  assumes "unat len \<le> length f"
  shows "\<exists>ok i. cdp_parse (Some f) len (Some old) = Some (ok, Some i) \<and>
           (ok \<longleftrightarrow> cdp_envelope f (unat len) \<and>
                  calculate_checksum (take (cdp_length f) (drop 22 f)) (of_nat (cdp_length f)) = Some 0 \<and>
                  (f ! 22 = 1 \<or> f ! 22 = 2) \<and>
                  (\<exists>tlvs ass. cdp_data_unit (take (cdp_length f - 4) (drop 26 f)) tlvs ass)) \<and>
           (ok \<longrightarrow> (\<exists>tlvs ass. cdp_data_unit (take (cdp_length f - 4) (drop 26 f)) tlvs ass \<and>
                                cdp_meaning f tlvs ass i))"
proof -
  let ?b = "take (cdp_length f - 4) (drop 26 f)"
  from cdp_parse_accepts [OF assms, of old] obtain ok i where
    r: "cdp_parse (Some f) len (Some old) = Some (ok, Some i)"
    and ok: "ok \<longleftrightarrow> cdp_envelope f (unat len) \<and>
                  calculate_checksum (take (cdp_length f) (drop 22 f)) (of_nat (cdp_length f)) = Some 0 \<and>
                  (f ! 22 = 1 \<or> f ! 22 = 2) \<and> (\<exists>i'. cdp_accepts ?b False (cdp_start f, False) i')"
    and i: "ok \<longrightarrow> cdp_from (take 6 (drop 6 f)) i \<and> ci_valid i \<and> cdp_accepts ?b False (cdp_start f, False) i"
    by blast
  show ?thesis
  proof (cases "cdp_envelope f (unat len)")
    case True
    then have "26 \<le> length f" using assms by (simp add: cdp_envelope_def)
    note g = cdp_accepts_grammar [OF this, where b = ?b]
    have "(\<exists>i'. cdp_accepts ?b False (cdp_start f, False) i') \<longleftrightarrow> (\<exists>tlvs ass. cdp_data_unit ?b tlvs ass)"
      by (rule g(1))
    moreover have "\<exists>tlvs ass. cdp_data_unit ?b tlvs ass \<and> cdp_meaning f tlvs ass i" if ok
      using i that by (intro g(2)) simp_all
    ultimately show ?thesis using r ok by (intro exI [of _ ok] exI [of _ i]) simp
  next
    case False
    then show ?thesis using r ok by (intro exI [of _ ok] exI [of _ i]) simp
  qed
qed

lemma cdp_parse_refines_grammar_witness:
  "\<exists>i tlvs ass. cdp_parse (Some example_cdp_frame) 32 (Some cdp_info_zero) = Some (True, Some i) \<and>
       cdp_data_unit [0, 1, 0, 6, 0x52, 0x31] tlvs ass \<and> cdp_meaning example_cdp_frame tlvs ass i"
proof -
  have len: "unat (32 :: u16) \<le> length example_cdp_frame" by (simp add: example_cdp_frame_def)
  have "cdp_parse (Some example_cdp_frame) 32 (Some cdp_info_zero) =
      Some (True, Some (cdp_info_zero\<lparr> ci_version := 2, ci_ttl := 180, ci_source_mac := [2, 0, 0, 0, 0, 5],
                          ci_device_id := [0x52, 0x31] @ replicate 62 0, ci_valid := True \<rparr>))"
    by code_simp
  moreover have "take (cdp_length example_cdp_frame - 4) (drop 26 example_cdp_frame) = [0, 1, 0, 6, 0x52, 0x31]"
    by code_simp
  ultimately show ?thesis
    using cdp_parse_refines_grammar [OF len, of cdp_info_zero] by auto
qed

end
