(* ===== verification/Eapol.thy ===== *)
theory Eapol
  imports Cdp_Grammar
begin

text \<open>
  \<open>libraries/protocol_tools/eapol.c\<close>: observations of 802.1X authentication frames. Offsets and
  16-bit lengths are natural numbers.
\<close>

section \<open>Data\<close>

record eapol_info =
  ei_source_mac :: buf
  ei_identity :: buf
  ei_version :: u8
  ei_packet_type :: u8
  ei_eap_code :: u8
  ei_eap_type :: u8
  ei_has_identity :: bool
  ei_valid :: bool

definition eapol_info_zero :: eapol_info where
  "eapol_info_zero =
     \<lparr> ei_source_mac = replicate 6 0, ei_identity = replicate 64 0, ei_version = 0,
       ei_packet_type = 0, ei_eap_code = 0, ei_eap_type = 0, ei_has_identity = False,
       ei_valid = False \<rparr>"

section \<open>The parser\<close>

definition eapol_version_is_supported :: "u8 \<Rightarrow> bool" where
  "eapol_version_is_supported version \<longleftrightarrow> version \<ge> 1 \<and> version \<le> 3"

definition is_eapol :: "buf ptr \<Rightarrow> u16 \<Rightarrow> bool option" where
  "is_eapol frame length_arg =
     (case frame of
        None \<Rightarrow> Some False
      | Some f \<Rightarrow> if unat length_arg < 14 + 4 then Some False
                  else do { type \<leftarrow> rd_be16 f 12; Some (type = 0x888E) })"

text \<open>\<open>eapol_copy_identity\<close> is, line by line, the text copy of the CDP parser.\<close>

definition eapol_copy_identity :: "buf \<Rightarrow> nat \<Rightarrow> nat \<Rightarrow> buf \<Rightarrow> buf option" where
  "eapol_copy_identity f source n destination =
     (if length destination = 0 then Some destination
      else let copy_length = (if n \<ge> length destination then length destination - 1 else n)
           in do { s \<leftarrow> rd_bytes f source copy_length;
                   d \<leftarrow> wr_bytes destination 0
                          (map (\<lambda>value. if value \<ge> 0x20 \<and> value \<le> 0x7E then value else 0x20) s);
                   wr_bytes d (cdp_trimmed d copy_length) [0] })"

definition eapol_parse_eap :: "buf \<Rightarrow> nat \<Rightarrow> nat \<Rightarrow> eapol_info \<Rightarrow> (bool \<times> eapol_info) option" where
  "eapol_parse_eap f body body_length info =
     (if body_length < 4 then Some (False, info)
      else do { code \<leftarrow> rd f body;
                eap_length \<leftarrow> rd_be16 f (body + 2);
                if unat eap_length < 4 \<or> unat eap_length > body_length then Some (False, info)
                else let info = info\<lparr> ei_eap_code := code \<rparr> in
                     if code = 3 \<or> code = 4 then Some (eap_length = 4, info)
                     else if code \<noteq> 1 \<and> code \<noteq> 2 then Some (False, info)
                     else if unat eap_length < 4 + 1 then Some (False, info)
                     else do { type \<leftarrow> rd f (body + 4);
                               let info = info\<lparr> ei_eap_type := type \<rparr>;
                               if code = 2 \<and> type = 1
                               then do { t \<leftarrow> eapol_copy_identity f (body + 4 + 1) (unat eap_length - 4 - 1)
                                                (ei_identity info);
                                         t0 \<leftarrow> rd t 0;
                                         Some (True, info\<lparr> ei_identity := t, ei_has_identity := (t0 \<noteq> 0) \<rparr>) }
                               else Some (True, info) } })"

definition eapol_parse :: "buf ptr \<Rightarrow> u16 \<Rightarrow> eapol_info ptr \<Rightarrow> (bool \<times> eapol_info ptr) option" where
  "eapol_parse frame length_arg info =
     (case (frame, info) of
        (Some f, Some _) \<Rightarrow>
          do { eapol \<leftarrow> is_eapol frame length_arg;
               if \<not> eapol then Some (False, info)
               else do { version \<leftarrow> rd f 14; packet_type \<leftarrow> rd f (14 + 1);
                         body_length \<leftarrow> rd_be16 f (14 + 2);
                         let i = eapol_info_zero;
                         let available_length = unat length_arg - 14 - 4;
                         if \<not> eapol_version_is_supported version \<or> unat body_length > available_length
                         then Some (False, Some i)
                         else do { m \<leftarrow> rd_bytes f 6 6;
                                   let i = i\<lparr> ei_source_mac := m, ei_version := version,
                                              ei_packet_type := packet_type \<rparr>;
                                   r \<leftarrow> (if packet_type = 0 then eapol_parse_eap f (14 + 4) (unat body_length) i
                                         else if packet_type = 1 \<or> packet_type = 2 then Some (body_length = 0, i)
                                         else if packet_type = 3 then Some (\<not> unat body_length < 1, i)
                                         else Some (False, i));
                                   Some (fst r, Some (if fst r then (snd r)\<lparr> ei_valid := True \<rparr> else snd r)) } } }
      | _ \<Rightarrow> Some (False, info))"

definition eapol_fill_neighbor :: "eapol_info ptr \<Rightarrow> neighbor ptr \<Rightarrow> bool \<times> neighbor ptr" where
  "eapol_fill_neighbor info entry =
     (case (info, entry) of
        (Some i, Some _) \<Rightarrow>
          if \<not> ei_valid i then (False, entry)
          else let n = neighbor_zero\<lparr> nb_mac := ei_source_mac i \<rparr>;
                   n = (if ei_has_identity i
                        then n\<lparr> nb_name := (take 64 (ei_identity i))[63 := 0] \<rparr> else n)
               in (True, Some (n\<lparr> nb_eapol_version := ei_version i,
                                  nb_eapol_packet_type := ei_packet_type i,
                                  nb_eap_code := ei_eap_code i, nb_eap_type := ei_eap_type i,
                                  nb_discovery_sources := NEIGHBOR_SOURCE_EAPOL,
                                  nb_occupied := True \<rparr>))
      | _ \<Rightarrow> (False, entry))"

section \<open>What is accepted\<close>

text \<open>
  \<open>eap_ok\<close>: the EAP packet fits its EAPOL body; a success or failure is a bare header, a request or
  a response has a type.
\<close>

definition eap_ok :: "buf \<Rightarrow> nat \<Rightarrow> bool" where
  "eap_ok f body_length \<longleftrightarrow>
     (let eap_length = unat (be16 (f ! 20) (f ! 21)) in
      4 \<le> body_length \<and> 4 \<le> eap_length \<and> eap_length \<le> body_length \<and>
      ((f ! 18 \<in> {3, 4} \<and> eap_length = 4) \<or> (f ! 18 \<in> {1, 2} \<and> 5 \<le> eap_length)))"

definition eapol_accepts :: "buf \<Rightarrow> nat \<Rightarrow> bool" where
  "eapol_accepts f len \<longleftrightarrow>
     (let body_length = unat (be16 (f ! 16) (f ! 17)) in
      18 \<le> len \<and> be16 (f ! 12) (f ! 13) = 0x888E \<and> f ! 14 \<in> {1, 2, 3} \<and> body_length + 18 \<le> len \<and>
      ((f ! 15 = 0 \<and> eap_ok f body_length) \<or> (f ! 15 \<in> {1, 2} \<and> body_length = 0) \<or>
       (f ! 15 = 3 \<and> 1 \<le> body_length)))"

text \<open>The identity text: printable bytes, others blank, trailing blanks and excess bytes cut.\<close>

definition eapol_identity :: "buf \<Rightarrow> buf" where
  "eapol_identity s = blank_trimmed (map cdp_printable (take 63 s))"


lemma eapol_identity_no_nul: "0 \<notin> set (eapol_identity s)"
  using blank_trimmed_subset [of "map cdp_printable (take 63 s)"] printable_nonzero
  by (auto simp: eapol_identity_def)

lemma eapol_copy_identity_eq:
  assumes "p + n \<le> length f" "cstring 64 dst"
  shows "\<exists>t. eapol_copy_identity f p n dst = Some t \<and> cstring 64 t \<and> t \<noteq> [] \<and>
             cstr t = eapol_identity (take n (drop p f))"
proof -
  define c where "c = (if n \<ge> length dst then length dst - 1 else n)"
  define s where "s = map cdp_printable (take c (drop p f))"
  have len: "length dst = 64" using assms(2) by (simp add: cstring_def)
  have c: "c \<le> 63" "p + c \<le> length f" "length s = c"
    using assms(1) len by (auto simp: c_def s_def)
  have s63: "s = map cdp_printable (take 63 (take n (drop p f)))"
  proof -
    have "c = min 63 n" using len by (auto simp: c_def)
    then show ?thesis by (simp add: s_def)
  qed
  define d where "d = s @ drop c dst"
  have d: "length d = 64" "take c d = s" using c len by (simp_all add: d_def)
  let ?k = "cdp_trimmed d c"
  have k: "?k \<le> c" by (rule cdp_trimmed_le)
  have eq: "eapol_copy_identity f p n dst = Some (take ?k d @ 0 # drop (Suc ?k) d)"
  proof -
    have "map (\<lambda>value. if value \<ge> 0x20 \<and> value \<le> 0x7E then value else 0x20) (take c (drop p f)) = s"
      by (simp add: s_def cdp_printable_def)
    moreover have "rd_bytes f p c = Some (take c (drop p f))" using c by (simp add: rd_bytes_def)
    moreover have "wr_bytes dst 0 s = Some d" using c len by (simp add: wr_bytes_def d_def)
    moreover have "wr_bytes d ?k [0] = Some (take ?k d @ 0 # drop (Suc ?k) d)"
      using k c d by (simp add: wr_bytes_def)
    moreover have "length dst \<noteq> 0" using len by simp
    ultimately show ?thesis
      unfolding eapol_copy_identity_def c_def [symmetric] Let_def by simp
  qed
  have "take ?k d = eapol_identity (take n (drop p f))"
    using cdp_trimmed_take [of c d] c d s63 by (simp add: eapol_identity_def)
  moreover have "cstring 64 (take ?k d @ 0 # drop (Suc ?k) d)"
    using k c d by (simp add: cstring_def)
  ultimately show ?thesis
    using eq eapol_identity_no_nul by simp
qed

lemma eapol_parse_eap_spec:
  assumes "18 + n \<le> length f" "cstring 64 (ei_identity info)" "cstr (ei_identity info) = []"
    "ei_eap_type info = 0" "\<not> ei_has_identity info"
  shows "\<exists>ok i. eapol_parse_eap f 18 n info = Some (ok, i) \<and> (ok \<longleftrightarrow> eap_ok f n) \<and>
           ei_source_mac i = ei_source_mac info \<and> ei_version i = ei_version info \<and>
           ei_packet_type i = ei_packet_type info \<and> cstring 64 (ei_identity i) \<and>
           (ei_has_identity i \<longleftrightarrow> cstr (ei_identity i) \<noteq> []) \<and>
           (ok \<longrightarrow> ei_eap_code i = f ! 18 \<and>
             ei_eap_type i = (if f ! 18 \<in> {1, 2} then f ! 22 else 0) \<and>
             cstr (ei_identity i) =
               (if f ! 18 = 2 \<and> f ! 22 = 1
                then eapol_identity (take (unat (be16 (f ! 20) (f ! 21)) - 5) (drop 23 f)) else []))"
proof (cases "4 \<le> n \<and> 4 \<le> unat (be16 (f ! 20) (f ! 21)) \<and> unat (be16 (f ! 20) (f ! 21)) \<le> n")
  case False
  then have "eapol_parse_eap f 18 n info = Some (False, info)"
    using assms(1) by (auto simp: eapol_parse_eap_def rd_in rd_be16_in)
  moreover have "\<not> eap_ok f n" using False by (auto simp: eap_ok_def Let_def)
  ultimately show ?thesis using assms by (intro exI [of _ False] exI [of _ info]) simp
next
  case True
  let ?l = "be16 (f ! 20) (f ! 21)" and ?i = "info\<lparr> ei_eap_code := f ! 18 \<rparr>"
  have r: "rd f 18 = Some (f ! 18)" "rd_be16 f (18 + 2) = Some ?l"
    using True assms(1) by (simp_all add: rd_in rd_be16_in)
  have guard: "\<not> n < 4" "\<not> (unat ?l < 4 \<or> unat ?l > n)" using True by auto
  consider (bare) "f ! 18 = 3 \<or> f ! 18 = 4" | (other) "f ! 18 \<notin> {1, 2, 3, 4}"
    | (short) "f ! 18 = 1 \<or> f ! 18 = 2" "unat ?l < 5"
    | (typed) "f ! 18 = 1 \<or> f ! 18 = 2" "5 \<le> unat ?l" by auto linarith
  then show ?thesis
  proof cases
    case bare
    then have "eapol_parse_eap f 18 n info = Some (?l = 4, ?i)"
      using r guard by (auto simp: eapol_parse_eap_def Let_def)
    moreover have "eap_ok f n \<longleftrightarrow> ?l = 4"
      using bare True by (auto simp: eap_ok_def Let_def word_unat_eq_iff)
    ultimately show ?thesis using bare assms by auto
  next
    case other
    then have "eapol_parse_eap f 18 n info = Some (False, ?i)" "\<not> eap_ok f n"
      using r guard by (simp_all add: eapol_parse_eap_def eap_ok_def Let_def)
    then show ?thesis using assms by (intro exI [of _ False] exI [of _ ?i]) simp
  next
    case short
    then have "eapol_parse_eap f 18 n info = Some (False, ?i)" "\<not> eap_ok f n"
      using r guard by (auto simp: eapol_parse_eap_def eap_ok_def Let_def)
    then show ?thesis using assms by (intro exI [of _ False] exI [of _ ?i]) simp
  next
    case typed
    have ok: "eap_ok f n" using typed True by (auto simp: eap_ok_def Let_def)
    have ty: "rd f (18 + 4) = Some (f ! 22)" using typed True assms(1) by (simp add: rd_in)
    have cond: "f ! 18 \<noteq> 3" "f ! 18 \<noteq> 4" "\<not> (f ! 18 \<noteq> 1 \<and> f ! 18 \<noteq> 2)" "\<not> unat ?l < 4 + 1"
      using typed by auto
    show ?thesis
    proof (cases "f ! 18 = 2 \<and> f ! 22 = 1")
      case False
      then have "eapol_parse_eap f 18 n info = Some (True, ?i\<lparr> ei_eap_type := f ! 22 \<rparr>)"
        using r guard ty cond unfolding eapol_parse_eap_def Let_def by auto
      then show ?thesis using ok False typed assms by auto
    next
      case identity: True
      have "23 + (unat ?l - 5) \<le> length f" using True typed assms(1) by simp
      from eapol_copy_identity_eq [OF this assms(2)] obtain t where
        t: "eapol_copy_identity f 23 (unat ?l - 5) (ei_identity info) = Some t" "cstring 64 t" "t \<noteq> []"
          "cstr t = eapol_identity (take (unat ?l - 5) (drop 23 f))" by auto
      have "eapol_parse_eap f 18 n info =
          Some (True, ?i\<lparr> ei_eap_type := 1, ei_identity := t, ei_has_identity := (t ! 0 \<noteq> 0) \<rparr>)"
        using r guard ty cond identity t unfolding eapol_parse_eap_def Let_def by (simp add: rd_in)
      then show ?thesis using ok identity t assms cstr_eq_Nil_iff [OF t(3)] by auto
    qed
  qed
qed


lemma eapol_parse_eq:
  assumes "unat len \<le> length f"
  shows "eapol_parse (Some f) len (Some old) =
     (if unat len < 18 \<or> be16 (f ! 12) (f ! 13) \<noteq> 0x888E then Some (False, Some old)
      else let bl = be16 (f ! 16) (f ! 17);
               i = eapol_info_zero\<lparr> ei_source_mac := take 6 (drop 6 f), ei_version := f ! 14,
                                    ei_packet_type := f ! 15 \<rparr> in
           if \<not> eapol_version_is_supported (f ! 14) \<or> unat bl + 18 > unat len
           then Some (False, Some eapol_info_zero)
           else map_option (\<lambda>(ok, i). (ok, Some (if ok then i\<lparr> ei_valid := True \<rparr> else i)))
                  (if f ! 15 = 0 then eapol_parse_eap f 18 (unat bl) i
                   else Some ((f ! 15 = 1 \<or> f ! 15 = 2) \<and> bl = 0 \<or> f ! 15 = 3 \<and> bl \<noteq> 0, i)))"
proof (cases "unat len < 18")
  case True
  then show ?thesis by (simp add: eapol_parse_def is_eapol_def)
next
  case False
  have r: "rd_be16 f 12 = Some (be16 (f ! 12) (f ! 13))" "rd f 14 = Some (f ! 14)" "rd f 15 = Some (f ! 15)"
    "rd_be16 f 16 = Some (be16 (f ! 16) (f ! 17))" "rd_bytes f 6 6 = Some (take 6 (drop 6 f))"
    using False assms by (simp_all add: rd_def rd_be16_in rd_bytes_in)
  have a: "unat (be16 (f ! 16) (f ! 17)) > unat len - 14 - 4 \<longleftrightarrow> unat (be16 (f ! 16) (f ! 17)) + 18 > unat len"
    using False by auto
  have b: "\<not> unat (be16 (f ! 16) (f ! 17)) < 1 \<longleftrightarrow> be16 (f ! 16) (f ! 17) \<noteq> 0"
    by (auto simp: unat_eq_0)
  show ?thesis
  proof (cases "be16 (f ! 12) (f ! 13) = 0x888E")
    case no: False
    then show ?thesis using False by (simp add: eapol_parse_def is_eapol_def r)
  next
    case type: True
    have is_eapol: "is_eapol (Some f) len = Some True"
      using False type by (simp add: is_eapol_def r)
    let ?bl = "be16 (f ! 16) (f ! 17)"
    let ?i = "eapol_info_zero\<lparr> ei_source_mac := take 6 (drop 6 f), ei_version := f ! 14,
                               ei_packet_type := f ! 15 \<rparr>"
    show ?thesis
    proof (cases "\<not> eapol_version_is_supported (f ! 14) \<or> unat ?bl + 18 > unat len")
      case True
      then show ?thesis using False type by (auto simp: eapol_parse_def is_eapol r a Let_def)
    next
      case ok: False
      then have ok': "eapol_version_is_supported (f ! 14)" "\<not> unat ?bl > unat len - 14 - 4"
        "\<not> unat ?bl + 18 > unat len" using a by auto
      show ?thesis
      proof (cases "f ! 15 = 0")
        case True
        then show ?thesis
          using False type ok'
          by (cases "eapol_parse_eap f 18 (unat ?bl) ?i") (auto simp: eapol_parse_def is_eapol r Let_def)
      next
        case f15: False
        then show ?thesis
          using False type ok' b by (auto simp: eapol_parse_def is_eapol r Let_def)
      qed
    qed
  qed
qed

lemma version_supported: "eapol_version_is_supported v \<longleftrightarrow> v \<in> {1, 2, 3}"
proof -
  have "v \<ge> 1 \<and> v \<le> 3 \<longleftrightarrow> unat v \<in> {1, 2, 3}" by (auto simp: word_le_nat_alt)
  also have "\<dots> \<longleftrightarrow> v \<in> {1, 2, 3}" by (auto simp: word_unat_eq_iff)
  finally show ?thesis by (simp add: eapol_version_is_supported_def)
qed


lemma wf_eapol_start:
  "cstring 64 (ei_identity (eapol_info_zero\<lparr> ei_source_mac := m, ei_version := v, ei_packet_type := p \<rparr>))"
  "cstr (ei_identity (eapol_info_zero\<lparr> ei_source_mac := m, ei_version := v, ei_packet_type := p \<rparr>)) = []"
  by (simp_all add: eapol_info_zero_def)

text \<open>The structure of an accepted frame.\<close>

definition eapol_result :: "buf \<Rightarrow> eapol_info \<Rightarrow> bool" where
  "eapol_result f i \<longleftrightarrow>
     ei_valid i \<and> ei_source_mac i = take 6 (drop 6 f) \<and> ei_version i = f ! 14 \<and>
     ei_packet_type i = f ! 15 \<and>
     ei_eap_code i = (if f ! 15 = 0 then f ! 18 else 0) \<and>
     ei_eap_type i = (if f ! 15 = 0 \<and> f ! 18 \<in> {1, 2} then f ! 22 else 0) \<and>
     cstring 64 (ei_identity i) \<and> (ei_has_identity i \<longleftrightarrow> cstr (ei_identity i) \<noteq> []) \<and>
     cstr (ei_identity i) =
       (if f ! 15 = 0 \<and> f ! 18 = 2 \<and> f ! 22 = 1
        then eapol_identity (take (unat (be16 (f ! 20) (f ! 21)) - 5) (drop 23 f)) else [])"

lemma eapol_parse_result:
  assumes "unat len \<le> length f"
  shows "\<exists>ok i. eapol_parse (Some f) len (Some old) = Some (ok, Some i) \<and>
           (ok \<longleftrightarrow> eapol_accepts f (unat len)) \<and> (ok \<longrightarrow> eapol_result f i)"
proof (cases "unat len < 18 \<or> be16 (f ! 12) (f ! 13) \<noteq> 0x888E \<or>
              \<not> eapol_version_is_supported (f ! 14) \<or> unat (be16 (f ! 16) (f ! 17)) + 18 > unat len")
  case True
  then show ?thesis
    using eapol_parse_eq [OF assms, of old]
    by (auto simp: eapol_accepts_def Let_def version_supported)
next
  case False
  let ?bl = "be16 (f ! 16) (f ! 17)"
  let ?i = "eapol_info_zero\<lparr> ei_source_mac := take 6 (drop 6 f), ei_version := f ! 14,
                             ei_packet_type := f ! 15 \<rparr>"
  show ?thesis
  proof (cases "f ! 15 = 0")
    case True
    have "18 + unat ?bl \<le> length f" using False assms by simp
    moreover have "ei_eap_type ?i = 0" "\<not> ei_has_identity ?i" by (simp_all add: eapol_info_zero_def)
    ultimately obtain ok i where
      eap: "eapol_parse_eap f 18 (unat ?bl) ?i = Some (ok, i)" "ok \<longleftrightarrow> eap_ok f (unat ?bl)"
      "ei_source_mac i = ei_source_mac ?i" "ei_version i = ei_version ?i"
      "ei_packet_type i = ei_packet_type ?i"
      "cstring 64 (ei_identity i)" "ei_has_identity i \<longleftrightarrow> cstr (ei_identity i) \<noteq> []"
      "ok \<longrightarrow> ei_eap_code i = f ! 18 \<and> ei_eap_type i = (if f ! 18 \<in> {1, 2} then f ! 22 else 0) \<and>
         cstr (ei_identity i) = (if f ! 18 = 2 \<and> f ! 22 = 1
           then eapol_identity (take (unat (be16 (f ! 20) (f ! 21)) - 5) (drop 23 f)) else [])"
      using eapol_parse_eap_spec [of "unat ?bl" f ?i] wf_eapol_start by blast
    have "eapol_parse (Some f) len (Some old) =
        Some (ok, Some (if ok then i\<lparr> ei_valid := True \<rparr> else i))"
      using eapol_parse_eq [OF assms, of old] False True eap(1) by simp
    moreover have "eapol_accepts f (unat len) \<longleftrightarrow> eap_ok f (unat ?bl)"
      using False True by (auto simp: eapol_accepts_def Let_def version_supported)
    ultimately show ?thesis using eap True by (auto simp: eapol_result_def)
  next
    case other: False
    then show ?thesis
      using eapol_parse_eq [OF assms, of old] False
      by (auto simp: eapol_accepts_def Let_def version_supported unat_eq_0 Suc_le_eq unat_gt_0 eapol_info_zero_def eapol_result_def)
  qed
qed


section \<open>Properties\<close>

text \<open>
  C14. The EAPOL parser. For any bytes of a frame inside its buffer the parser makes no access
  outside it and accepts exactly the frames of \<open>eapol_accepts\<close>: the EtherType, a version from 1 to
  3, a body inside the frame, and a body that fits the packet type (a well-formed EAP packet, an
  empty start or logoff, a key body with a descriptor). The structure of an accepted frame holds the
  sender, version, type, EAP code and EAP type, and the identity text of an identity response (and
  no other text), printable, without trailing blanks and terminated inside its array.
\<close>

theorem eapol_parse_accepts_iff:
  assumes "unat len \<le> length f"
  shows "\<exists>ok i. eapol_parse (Some f) len (Some old) = Some (ok, Some i) \<and>
           (ok \<longleftrightarrow> eapol_accepts f (unat len)) \<and>
           (ok \<longrightarrow> ei_valid i \<and> ei_source_mac i = take 6 (drop 6 f) \<and> ei_version i = f ! 14 \<and>
             ei_packet_type i = f ! 15 \<and>
             ei_eap_code i = (if f ! 15 = 0 then f ! 18 else 0) \<and>
             ei_eap_type i = (if f ! 15 = 0 \<and> f ! 18 \<in> {1, 2} then f ! 22 else 0) \<and>
             cstring 64 (ei_identity i) \<and> (ei_has_identity i \<longleftrightarrow> cstr (ei_identity i) \<noteq> []) \<and>
             cstr (ei_identity i) =
               (if f ! 15 = 0 \<and> f ! 18 = 2 \<and> f ! 22 = 1
                then eapol_identity (take (unat (be16 (f ! 20) (f ! 21)) - 5) (drop 23 f)) else []))"
  using eapol_parse_result [OF assms, of old] unfolding eapol_result_def .

lemma eapol_parse_accepts_iff_witness:
  "\<exists>i. eapol_parse (Some ([1, 0x80, 0xC2, 0, 0, 3, 2, 0, 0, 0, 0, 6, 0x88, 0x8E, 2, 0, 0, 9,
          2, 7, 0, 9, 1, 98, 111, 98, 32])) 27 (Some eapol_info_zero) = Some (True, Some i) \<and>
       cstr (ei_identity i) = ascii ''bob'' \<and> ei_source_mac i = [2, 0, 0, 0, 0, 6]"
proof -
  let ?f = "[1, 0x80, 0xC2, 0, 0, 3, 2, 0, 0, 0, 0, 6, 0x88, 0x8E, 2, 0, 0, 9,
             2, 7, 0, 9, 1, 98, 111, 98, 32] :: buf"
  have "eapol_accepts ?f (unat (27 :: u16))"
    by (simp add: eapol_accepts_def eap_ok_def be16_def)
  moreover have "eapol_identity (take (unat (be16 (?f ! 20) (?f ! 21)) - 5) (drop 23 ?f)) = ascii ''bob''"
    by (simp add: eapol_identity_def blank_trimmed_def cdp_printable_def be16_def ascii_def)
  ultimately show ?thesis
    using eapol_parse_accepts_iff [of 27 ?f eapol_info_zero] by auto
qed

text \<open>
  Key material stays opaque. For a key frame, whatever follows the 18 header bytes has no
  influence on anything the parser returns: two frames with the same header give the same answer
  and the same structure, and no text is kept.
\<close>

theorem eapol_key_material_opaque:
  assumes "unat len \<le> length f" and "unat len \<le> length g" and "take 18 f = take 18 g"
    and "18 \<le> unat len" and "f ! 15 = 3"
  shows "eapol_parse (Some f) len (Some old) = eapol_parse (Some g) len (Some old) \<and>
         (\<forall>i. eapol_parse (Some f) len (Some old) = Some (True, Some i) \<longrightarrow>
            ei_identity i = replicate 64 0 \<and> ei_eap_code i = 0 \<and> ei_eap_type i = 0)"
proof -
  have nth: "f ! k = g ! k" if "k < 18" for k
    using assms(3) that by (metis nth_take)
  have "take 6 (drop 6 (take 18 f)) = take 6 (drop 6 (take 18 g))" using assms(3) by simp
  then have mac: "take 6 (drop 6 f) = take 6 (drop 6 g)" by (simp add: drop_take min_def)
  have "eapol_parse (Some f) len (Some old) = eapol_parse (Some g) len (Some old)"
    unfolding eapol_parse_eq [OF assms(1)] eapol_parse_eq [OF assms(2)]
    using assms(5) nth [of 15] by (simp add: nth mac Let_def)
  moreover have "ei_identity i = replicate 64 0 \<and> ei_eap_code i = 0 \<and> ei_eap_type i = 0"
    if "eapol_parse (Some f) len (Some old) = Some (True, Some i)" for i
    using that assms(5) unfolding eapol_parse_eq [OF assms(1)]
    by (auto simp: Let_def eapol_info_zero_def split: if_splits)
  ultimately show ?thesis by blast
qed

lemma eapol_key_material_opaque_witness:
  "eapol_parse (Some [1, 0x80, 0xC2, 0, 0, 3, 2, 0, 0, 0, 0, 6, 0x88, 0x8E, 2, 3, 0, 2, 2, 0x55]) 20
     (Some eapol_info_zero) =
   eapol_parse (Some [1, 0x80, 0xC2, 0, 0, 3, 2, 0, 0, 0, 0, 6, 0x88, 0x8E, 2, 3, 0, 2, 9, 0xAA]) 20
     (Some eapol_info_zero)"
  using eapol_key_material_opaque
    [of 20 "[1, 0x80, 0xC2, 0, 0, 3, 2, 0, 0, 0, 0, 6, 0x88, 0x8E, 2, 3, 0, 2, 2, 0x55]"
           "[1, 0x80, 0xC2, 0, 0, 3, 2, 0, 0, 0, 0, 6, 0x88, 0x8E, 2, 3, 0, 2, 9, 0xAA]" eapol_info_zero]
  by simp

lemma cstr_split:
  assumes "cstring n a"
  obtains r where "a = cstr a @ 0 # r"
proof -
  have "dropWhile (\<lambda>c. c \<noteq> 0) a \<noteq> []" using assms by (auto simp: cstring_def)
  then obtain x r where xr: "dropWhile (\<lambda>c. c \<noteq> 0) a = x # r" by (cases "dropWhile (\<lambda>c. c \<noteq> 0) a") auto
  then have "x = 0" using hd_dropWhile [of "\<lambda>c. c \<noteq> 0" a] by simp
  then have "a = cstr a @ 0 # r" using xr takeWhile_dropWhile_id [of "\<lambda>c. c \<noteq> 0" a] by (simp add: cstr_def)
  then show thesis by (rule that)
qed

lemma cstr_terminate_last:
  assumes "cstring (Suc n) a"
  shows "cstr (a[n := 0]) = cstr a"
proof -
  obtain r where r: "a = cstr a @ 0 # r" using cstr_split [OF assms] .
  have "length (cstr a) \<le> n" using cstr_length [OF assms] by simp
  then consider "length (cstr a) = n" | k where "n = length (cstr a) + Suc k"
    by (metis add_Suc_right le_neq_implies_less less_natE)
  then show ?thesis
  proof cases
    case 1
    then have "a[n := 0] = a" by (metis list_update_id nth_append_length r)
    then show ?thesis by simp
  next
    case 2
    then have "(cstr a @ 0 # r)[n := 0] = cstr a @ 0 # r[k := 0]" by (simp add: list_update_append)
    then have "a[n := 0] = cstr a @ 0 # r[k := 0]" using r by metis
    then show ?thesis using cstr_append_nul [of "cstr a" "r[k := 0]"] by simp
  qed
qed

lemma eapol_fill_neighbor_spec:
  assumes "ei_valid i" "cstring 64 (ei_identity i)" "length (ei_source_mac i) = 6"
    and "ei_has_identity i \<longleftrightarrow> cstr (ei_identity i) \<noteq> []"
  shows "\<exists>n. eapol_fill_neighbor (Some i) (Some old) = (True, Some n) \<and> wf_neighbor n \<and> nb_occupied n \<and>
             nb_discovery_sources n = NEIGHBOR_SOURCE_EAPOL \<and> nb_mac n = ei_source_mac i \<and>
             cstr (nb_name n) = cstr (ei_identity i) \<and>
             nb_eapol_version n = ei_version i \<and> nb_eapol_packet_type n = ei_packet_type i \<and>
             nb_eap_code n = ei_eap_code i \<and> nb_eap_type n = ei_eap_type i"
proof -
  have len: "length (ei_identity i) = 64" using assms(2) by (simp add: cstring_def)
  have c: "cstring 64 ((ei_identity i)[63 := 0])" "cstr ((ei_identity i)[63 := 0]) = cstr (ei_identity i)"
    using cstr_terminate_last [of 63 "ei_identity i"] assms(2) len
    by (auto simp: cstring_def set_update_memI)
  then show ?thesis
    using assms len by (auto simp: eapol_fill_neighbor_def Let_def wf_neighbor_def neighbor_zero_def)
qed

text \<open>
  The neighbour entry of an EAPOL frame. An accepted frame fills an entry that is occupied, has
  EAPOL as its only source, is keyed by the sender, carries the version, packet type, EAP code and
  EAP type of the frame, and has the identity as its name, unshortened and terminated inside its
  array.
\<close>

theorem eapol_fill_neighbor_faithful:
  assumes "unat len \<le> length f" and "eapol_parse (Some f) len (Some old) = Some (True, Some i)"
  shows "\<exists>n. eapol_fill_neighbor (Some i) (Some prev) = (True, Some n) \<and> wf_neighbor n \<and> nb_occupied n \<and>
             nb_discovery_sources n = NEIGHBOR_SOURCE_EAPOL \<and> nb_mac n = take 6 (drop 6 f) \<and>
             cstr (nb_name n) = cstr (ei_identity i) \<and>
             nb_eapol_version n = f ! 14 \<and> nb_eapol_packet_type n = f ! 15 \<and>
             nb_eap_code n = ei_eap_code i \<and> nb_eap_type n = ei_eap_type i"
proof -
  have r: "eapol_result f i" and acc: "eapol_accepts f (unat len)"
    using eapol_parse_result [OF assms(1), of old] assms(2) by auto
  have "18 \<le> length f" using acc assms(1) by (simp add: eapol_accepts_def Let_def)
  then have "length (ei_source_mac i) = 6" using r by (simp add: eapol_result_def)
  then show ?thesis
    using eapol_fill_neighbor_spec [of i prev] r unfolding eapol_result_def by auto
qed

lemma eapol_fill_neighbor_faithful_witness:
  "\<exists>i n. eapol_parse (Some ([1, 0x80, 0xC2, 0, 0, 3, 2, 0, 0, 0, 0, 6, 0x88, 0x8E, 1, 1, 0, 0])) 18
           (Some eapol_info_zero) = Some (True, Some i) \<and>
         eapol_fill_neighbor (Some i) (Some neighbor_zero) = (True, Some n) \<and>
         nb_mac n = [2, 0, 0, 0, 0, 6] \<and> nb_eapol_packet_type n = 1"
proof -
  let ?f = "[1, 0x80, 0xC2, 0, 0, 3, 2, 0, 0, 0, 0, 6, 0x88, 0x8E, 1, 1, 0, 0] :: buf"
  have "eapol_parse (Some ?f) 18 (Some eapol_info_zero) =
      Some (True, Some (eapol_info_zero\<lparr> ei_source_mac := [2, 0, 0, 0, 0, 6], ei_version := 1,
                          ei_packet_type := 1, ei_valid := True \<rparr>))"
    by code_simp
  then obtain i where i: "eapol_parse (Some ?f) 18 (Some eapol_info_zero) = Some (True, Some i)" by blast
  then show ?thesis
    using eapol_fill_neighbor_faithful [of 18 ?f eapol_info_zero i neighbor_zero] by auto
qed

end
