(* ===== verification/Passive_Handlers.thy ===== *)
theory Passive_Handlers
  imports Eapol
begin

text \<open>
  From a received frame to the neighbour table: \<open>process_frame\<close> of \<open>modules/lldp_module.c\<close>,
  \<open>modules/cdp_module.c\<close> and \<open>modules/eapol_module.c\<close>, and the protocol registry of
  \<open>modules/passive_discovery_module.c\<close> that offers each frame to the selected handlers.

  The locals \<open>info\<close> and \<open>neighbor\<close> of a handler are uninitialised; their former contents are
  the arguments \<open>info0\<close> and \<open>entry0\<close>. Log output is left out, its reads of the frame are not.
\<close>

section \<open>One handler\<close>

text \<open>The end of every handler: update the entry of this sender, or add a new one.\<close>

definition store_neighbor :: "neighbor_db \<Rightarrow> u8 \<Rightarrow> neighbor \<Rightarrow> bool \<times> neighbor_db" where
  "store_neighbor neighbors source n =
     (case neighbor_db_find_by_source neighbors (Some (nb_mac n)) source of
        Some _ \<Rightarrow> neighbor_db_update neighbors (Some n)
      | None \<Rightarrow> neighbor_db_add neighbors (Some n))"

definition lldp_module_init :: "neighbor_db \<Rightarrow> neighbor_db" where
  "lldp_module_init neighbors = neighbor_db_clear_by_source neighbors NEIGHBOR_SOURCE_LLDP"

definition lldp_module_reset :: "neighbor_db \<Rightarrow> neighbor_db" where
  "lldp_module_reset neighbors = neighbor_db_clear_by_source neighbors NEIGHBOR_SOURCE_LLDP"

definition lldp_module_process_frame ::
  "lldp_info \<Rightarrow> neighbor \<Rightarrow> neighbor_db \<Rightarrow> buf ptr \<Rightarrow> u16 \<Rightarrow> (bool \<times> neighbor_db) option" where
  "lldp_module_process_frame info0 entry0 neighbors frame length_arg =
     (case frame of
        None \<Rightarrow> Some (False, neighbors)
      | Some f \<Rightarrow>
          do { _ \<leftarrow> rd_bytes f 0 6;
               lldp \<leftarrow> is_lldp frame;
               if \<not> lldp then do { _ \<leftarrow> rd_bytes f 0 14; Some (False, neighbors) }
               else do { p \<leftarrow> lldp_parse frame length_arg (Some info0);
                         if \<not> fst p then Some (False, neighbors)
                         else (case lldp_fill_neighbor (snd p) (Some entry0) of
                                 (False, _) \<Rightarrow> Some (False, neighbors)
                               | (True, n) \<Rightarrow> Some (store_neighbor neighbors NEIGHBOR_SOURCE_LLDP (the n))) } })"

definition lldp_packet_predicate ::
  "lldp_info \<Rightarrow> neighbor \<Rightarrow> neighbor_db \<Rightarrow> buf ptr \<Rightarrow> u16 \<Rightarrow> (bool \<times> neighbor_db) option" where
  "lldp_packet_predicate info0 entry0 neighbors frame len =
     lldp_module_process_frame info0 entry0 neighbors frame len"

definition lldp_module_count :: "neighbor_db \<Rightarrow> nat" where
  "lldp_module_count neighbors = neighbor_db_count neighbors"

definition lldp_module_get :: "neighbor_db \<Rightarrow> nat \<Rightarrow> nat ptr" where
  "lldp_module_get neighbors index = neighbor_db_get neighbors index"

definition cdp_module_init :: "neighbor_db \<Rightarrow> neighbor_db" where
  "cdp_module_init neighbors = neighbor_db_clear_by_source neighbors NEIGHBOR_SOURCE_CDP"

definition cdp_module_reset :: "neighbor_db \<Rightarrow> neighbor_db" where
  "cdp_module_reset neighbors = neighbor_db_clear_by_source neighbors NEIGHBOR_SOURCE_CDP"

definition cdp_module_process_frame ::
  "cdp_info \<Rightarrow> neighbor \<Rightarrow> neighbor_db \<Rightarrow> buf ptr \<Rightarrow> u16 \<Rightarrow> (bool \<times> neighbor_db) option" where
  "cdp_module_process_frame info0 entry0 neighbors frame length_arg =
     do { p \<leftarrow> cdp_parse frame length_arg (Some info0);
          if \<not> fst p then Some (False, neighbors)
          else do { q \<leftarrow> cdp_fill_neighbor (snd p) (Some entry0);
                    if \<not> fst q then Some (False, neighbors)
                    else Some (store_neighbor neighbors NEIGHBOR_SOURCE_CDP (the (snd q))) } }"

definition eapol_module_init :: "neighbor_db \<Rightarrow> neighbor_db" where
  "eapol_module_init neighbors = neighbor_db_clear_by_source neighbors NEIGHBOR_SOURCE_EAPOL"

definition eapol_module_reset :: "neighbor_db \<Rightarrow> neighbor_db" where
  "eapol_module_reset neighbors = neighbor_db_clear_by_source neighbors NEIGHBOR_SOURCE_EAPOL"

text \<open>An EAPOL frame without an identity keeps the name that the sender's entry already has.\<close>

definition keep_name :: "neighbor \<Rightarrow> neighbor \<Rightarrow> neighbor" where
  "keep_name existing n =
     (if nb_name n ! 0 = 0 \<and> nb_name existing ! 0 \<noteq> 0
      then n\<lparr> nb_name := (nb_name existing)[63 := 0] \<rparr> else n)"

definition eapol_module_process_frame ::
  "eapol_info \<Rightarrow> neighbor \<Rightarrow> neighbor_db \<Rightarrow> buf ptr \<Rightarrow> u16 \<Rightarrow> (bool \<times> neighbor_db) option" where
  "eapol_module_process_frame info0 entry0 neighbors frame length_arg =
     do { p \<leftarrow> eapol_parse frame length_arg (Some info0);
          if \<not> fst p then Some (False, neighbors)
          else (case eapol_fill_neighbor (snd p) (Some entry0) of
                  (False, _) \<Rightarrow> Some (False, neighbors)
                | (True, q) \<Rightarrow>
                    let n = the q in
                    (case neighbor_db_find_by_source neighbors (Some (nb_mac n)) NEIGHBOR_SOURCE_EAPOL of
                       Some i \<Rightarrow> Some (neighbor_db_update neighbors (Some (keep_name (the neighbors ! i) n)))
                     | None \<Rightarrow> Some (neighbor_db_add neighbors (Some n)))) }"

section \<open>The registry\<close>

datatype passive_protocol =
    PassiveProtocolALL
  | PassiveProtocolLLDP
  | PassiveProtocolCDP
  | PassiveProtocolEAPOL
  | PassiveProtocolClearAll
  | PassiveProtocolCount

fun protocol_value :: "passive_protocol \<Rightarrow> nat" where
  "protocol_value PassiveProtocolALL = 0"
| "protocol_value PassiveProtocolLLDP = 1"
| "protocol_value PassiveProtocolCDP = 2"
| "protocol_value PassiveProtocolEAPOL = 3"
| "protocol_value PassiveProtocolClearAll = 4"
| "protocol_value PassiveProtocolCount = 5"

text \<open>\<open>protocol++\<close> below \<open>PassiveProtocolCount\<close>.\<close>

fun next_protocol :: "passive_protocol \<Rightarrow> passive_protocol" where
  "next_protocol PassiveProtocolALL = PassiveProtocolLLDP"
| "next_protocol PassiveProtocolLLDP = PassiveProtocolCDP"
| "next_protocol PassiveProtocolCDP = PassiveProtocolEAPOL"
| "next_protocol PassiveProtocolEAPOL = PassiveProtocolClearAll"
| "next_protocol PassiveProtocolClearAll = PassiveProtocolCount"
| "next_protocol PassiveProtocolCount = PassiveProtocolCount"

lemma protocol_value_inject: "protocol_value p = protocol_value q \<longleftrightarrow> p = q"
  by (cases p; cases q) simp_all

instantiation passive_protocol :: linorder
begin

definition less_eq_passive_protocol :: "passive_protocol \<Rightarrow> passive_protocol \<Rightarrow> bool" where
  "less_eq_passive_protocol p q \<longleftrightarrow> protocol_value p \<le> protocol_value q"

definition less_passive_protocol :: "passive_protocol \<Rightarrow> passive_protocol \<Rightarrow> bool" where
  "less_passive_protocol p q \<longleftrightarrow> protocol_value p < protocol_value q"

instance
  by standard (auto simp: less_eq_passive_protocol_def less_passive_protocol_def protocol_value_inject)

end

lemma next_protocol_value:
  "p < PassiveProtocolCount \<Longrightarrow> protocol_value (next_protocol p) = Suc (protocol_value p)"
  by (cases p) (simp_all add: less_passive_protocol_def)

datatype passive_handler_id = lldp_protocol_handler | cdp_protocol_handler | eapol_protocol_handler

definition get_handler :: "passive_protocol \<Rightarrow> passive_handler_id ptr" where
  "get_handler protocol =
     (if protocol \<ge> PassiveProtocolCount then None
      else (case protocol of
              PassiveProtocolLLDP \<Rightarrow> Some lldp_protocol_handler
            | PassiveProtocolCDP \<Rightarrow> Some cdp_protocol_handler
            | PassiveProtocolEAPOL \<Rightarrow> Some eapol_protocol_handler
            | _ \<Rightarrow> None))"

definition passive_discovery_handler_is_selected :: "passive_protocol \<Rightarrow> passive_protocol \<Rightarrow> bool" where
  "passive_discovery_handler_is_selected selected_protocol handler_protocol \<longleftrightarrow>
     selected_protocol = PassiveProtocolALL \<or> selected_protocol = handler_protocol"

definition passive_discovery_neighbor_count :: "neighbor_db \<Rightarrow> passive_protocol \<Rightarrow> nat" where
  "passive_discovery_neighbor_count neighbors selected_protocol =
     (case selected_protocol of
        PassiveProtocolLLDP \<Rightarrow> neighbor_db_count_by_source neighbors NEIGHBOR_SOURCE_LLDP
      | PassiveProtocolCDP \<Rightarrow> neighbor_db_count_by_source neighbors NEIGHBOR_SOURCE_CDP
      | PassiveProtocolEAPOL \<Rightarrow> neighbor_db_count_by_source neighbors NEIGHBOR_SOURCE_EAPOL
      | PassiveProtocolALL \<Rightarrow> neighbor_db_count neighbors
      | _ \<Rightarrow> 0)"

text \<open>The registry calls a handler through its function pointers; the \<open>cleanup\<close> hooks do nothing.\<close>

fun handler_init :: "passive_handler_id \<Rightarrow> neighbor_db \<Rightarrow> neighbor_db" where
  "handler_init lldp_protocol_handler neighbors = lldp_module_init neighbors"
| "handler_init cdp_protocol_handler neighbors = cdp_module_init neighbors"
| "handler_init eapol_protocol_handler neighbors = eapol_module_init neighbors"

fun handler_cleanup :: "passive_handler_id \<Rightarrow> neighbor_db \<Rightarrow> neighbor_db" where
  "handler_cleanup lldp_protocol_handler neighbors = neighbors"
| "handler_cleanup cdp_protocol_handler neighbors = neighbors"
| "handler_cleanup eapol_protocol_handler neighbors = neighbors"

record handler_locals =
  hl_lldp :: lldp_info
  hl_cdp :: cdp_info
  hl_eapol :: eapol_info
  hl_neighbor :: neighbor

fun handler_process_frame ::
  "handler_locals \<Rightarrow> passive_handler_id \<Rightarrow> neighbor_db \<Rightarrow> buf ptr \<Rightarrow> u16 \<Rightarrow> (bool \<times> neighbor_db) option" where
  "handler_process_frame l lldp_protocol_handler neighbors frame len =
     lldp_module_process_frame (hl_lldp l) (hl_neighbor l) neighbors frame len"
| "handler_process_frame l cdp_protocol_handler neighbors frame len =
     cdp_module_process_frame (hl_cdp l) (hl_neighbor l) neighbors frame len"
| "handler_process_frame l eapol_protocol_handler neighbors frame len =
     eapol_module_process_frame (hl_eapol l) (hl_neighbor l) neighbors frame len"

function handlers_init_from :: "passive_protocol \<Rightarrow> passive_protocol \<Rightarrow> neighbor_db \<Rightarrow> neighbor_db" where
  "handlers_init_from protocol selected_protocol neighbors =
     (if protocol < PassiveProtocolCount
      then handlers_init_from (next_protocol protocol) selected_protocol
             (case get_handler protocol of
                Some h \<Rightarrow> if passive_discovery_handler_is_selected selected_protocol protocol
                          then handler_init h neighbors else neighbors
              | None \<Rightarrow> neighbors)
      else neighbors)"
  by pat_completeness auto
termination
  by (relation "measure (\<lambda>(p, _). 5 - protocol_value p)")
    (auto simp: next_protocol_value less_passive_protocol_def)

definition passive_discovery_handlers_init :: "neighbor_db \<Rightarrow> passive_protocol \<Rightarrow> neighbor_db" where
  "passive_discovery_handlers_init neighbors selected_protocol =
     handlers_init_from PassiveProtocolLLDP selected_protocol neighbors"

function handlers_cleanup_from :: "passive_protocol \<Rightarrow> passive_protocol \<Rightarrow> neighbor_db \<Rightarrow> neighbor_db" where
  "handlers_cleanup_from protocol selected_protocol neighbors =
     (if protocol < PassiveProtocolCount
      then handlers_cleanup_from (next_protocol protocol) selected_protocol
             (case get_handler protocol of
                Some h \<Rightarrow> if passive_discovery_handler_is_selected selected_protocol protocol
                          then handler_cleanup h neighbors else neighbors
              | None \<Rightarrow> neighbors)
      else neighbors)"
  by pat_completeness auto
termination
  by (relation "measure (\<lambda>(p, _). 5 - protocol_value p)")
    (auto simp: next_protocol_value less_passive_protocol_def)

definition passive_discovery_handlers_cleanup :: "neighbor_db \<Rightarrow> passive_protocol \<Rightarrow> neighbor_db" where
  "passive_discovery_handlers_cleanup neighbors selected_protocol =
     handlers_cleanup_from PassiveProtocolLLDP selected_protocol neighbors"

function dispatch_frame_from ::
  "handler_locals \<Rightarrow> passive_protocol \<Rightarrow> passive_protocol \<Rightarrow> buf ptr \<Rightarrow> u16 \<Rightarrow> bool \<Rightarrow> neighbor_db \<Rightarrow>
   (bool \<times> neighbor_db) option" where
  "dispatch_frame_from l protocol selected_protocol frame len matched neighbors =
     (if protocol < PassiveProtocolCount
      then (case get_handler protocol of
              Some h \<Rightarrow>
                if passive_discovery_handler_is_selected selected_protocol protocol
                then do { r \<leftarrow> handler_process_frame l h neighbors frame len;
                          dispatch_frame_from l (next_protocol protocol) selected_protocol frame len
                            (if fst r then True else matched) (snd r) }
                else dispatch_frame_from l (next_protocol protocol) selected_protocol frame len matched neighbors
            | None \<Rightarrow>
                dispatch_frame_from l (next_protocol protocol) selected_protocol frame len matched neighbors)
      else Some (matched, neighbors))"
  by pat_completeness auto
termination
  by (relation "measure (\<lambda>(_, p, _). 5 - protocol_value p)")
    (auto simp: next_protocol_value less_passive_protocol_def)

definition passive_discovery_dispatch_frame ::
  "handler_locals \<Rightarrow> passive_protocol \<Rightarrow> neighbor_db \<Rightarrow> buf ptr \<Rightarrow> u16 \<Rightarrow> (bool \<times> neighbor_db) option" where
  "passive_discovery_dispatch_frame l selected_protocol neighbors frame len =
     dispatch_frame_from l PassiveProtocolLLDP selected_protocol frame len False neighbors"

declare handlers_init_from.simps [simp del] handlers_cleanup_from.simps [simp del]
  dispatch_frame_from.simps [simp del]

section \<open>What the handlers accept\<close>

text \<open>A table whose entries have unique keys and hold terminated texts.\<close>

definition table_ok :: "neighbor list \<Rightarrow> bool" where
  "table_ok ns \<longleftrightarrow> neighbors_inv ns \<and> (\<forall>n\<in>set ns. wf_neighbor n)"

definition lldp_frame :: "buf \<Rightarrow> nat \<Rightarrow> bool" where
  "lldp_frame f len \<longleftrightarrow> be16 (f ! 12) (f ! 13) = 0x88CC \<and> (\<exists>tlvs. lldpdu (drop 14 (take len f)) tlvs)"

definition cdp_frame :: "buf \<Rightarrow> nat \<Rightarrow> bool" where
  "cdp_frame f len \<longleftrightarrow>
     cdp_envelope f len \<and>
     calculate_checksum (take (cdp_length f) (drop 22 f)) (of_nat (cdp_length f)) = Some 0 \<and>
     (f ! 22 = 1 \<or> f ! 22 = 2) \<and>
     (\<exists>tlvs ass. cdp_data_unit (take (cdp_length f - 4) (drop 26 f)) tlvs ass)"

lemma lldp_parse_runs:
  assumes "unat len \<le> length f" and "14 \<le> length f"
  shows "\<exists>ok i. lldp_parse (Some f) len (Some old) = Some (ok, Some i) \<and>
           (ok \<longleftrightarrow> (\<exists>tlvs. lldpdu (drop 14 (take (unat len) f)) tlvs)) \<and>
           (ok \<longrightarrow> wf_lldp_info i \<and> li_valid i \<and> li_source_mac i = take 6 (drop 6 f))"
proof (cases "14 < unat len")
  case False
  then show ?thesis
    using lldpdu_parses(1) [OF _ assms] lldp_parse_eq [OF assms(2)] by auto
next
  case True
  from lldp_parse_from_frame [OF assms True]
  obtain ok i where r: "lldp_parse_from f (unat len) 14 (lldp_start f) = Some (ok, i)"
    and i: "wf_lldp_info i" "li_source_mac i = take 6 (drop 6 f)"
      "ok \<longrightarrow> (\<exists>tlvs. lldpdu (drop 14 (take (unat len) f)) tlvs \<and>
                           i = (fold apply_tlv tlvs (lldp_start f))\<lparr> li_valid := True \<rparr>)"
    by (auto simp: runs_iff lldp_from_def)
  have "ok" if "lldpdu (drop 14 (take (unat len) f)) tlvs" for tlvs
    using lldpdu_parses(2) [OF that assms] r by simp
  moreover have "li_valid i" if ok using i(3) that by auto
  ultimately show ?thesis
    using lldp_parse_eq [OF assms(2), of len old] r i True
    by (intro exI [of _ ok] exI [of _ i]) auto
qed

lemma cdp_parse_runs:
  assumes "unat len \<le> length f"
  shows "\<exists>ok i. cdp_parse (Some f) len (Some old) = Some (ok, Some i) \<and>
           (ok \<longleftrightarrow> cdp_frame f (unat len)) \<and> (ok \<longrightarrow> cdp_from (take 6 (drop 6 f)) i \<and> ci_valid i)"
proof -
  from cdp_parse_accepts [OF assms, of old] obtain ok i where
    r: "cdp_parse (Some f) len (Some old) = Some (ok, Some i)"
    and ok: "ok \<longleftrightarrow> cdp_envelope f (unat len) \<and>
        calculate_checksum (take (cdp_length f) (drop 22 f)) (of_nat (cdp_length f)) = Some 0 \<and>
        (f ! 22 = 1 \<or> f ! 22 = 2) \<and>
        (\<exists>i'. cdp_accepts (take (cdp_length f - 4) (drop 26 f)) False (cdp_start f, False) i')"
    and i: "ok \<longrightarrow> cdp_from (take 6 (drop 6 f)) i \<and> ci_valid i"
    by blast
  have "26 \<le> length f" if "cdp_envelope f (unat len)" using that assms by (simp add: cdp_envelope_def)
  then have "ok \<longleftrightarrow> cdp_frame f (unat len)"
    unfolding ok cdp_frame_def using cdp_accepts_grammar(1) [of f] by blast
  then show ?thesis using r i by blast
qed

text \<open>The three kinds of frame have different EtherType fields: no frame is of two kinds.\<close>

fun passive_frame :: "passive_protocol \<Rightarrow> buf \<Rightarrow> nat \<Rightarrow> bool" where
  "passive_frame PassiveProtocolLLDP f len = lldp_frame f len"
| "passive_frame PassiveProtocolCDP f len = cdp_frame f len"
| "passive_frame PassiveProtocolEAPOL f len = eapol_accepts f len"
| "passive_frame _ f len = False"

fun protocol_source :: "passive_protocol \<Rightarrow> u8" where
  "protocol_source PassiveProtocolLLDP = NEIGHBOR_SOURCE_LLDP"
| "protocol_source PassiveProtocolCDP = NEIGHBOR_SOURCE_CDP"
| "protocol_source PassiveProtocolEAPOL = NEIGHBOR_SOURCE_EAPOL"
| "protocol_source _ = 0"

lemma passive_frame_type:
  "lldp_frame f len \<Longrightarrow> be16 (f ! 12) (f ! 13) = 0x88CC"
  "cdp_frame f len \<Longrightarrow> unat (be16 (f ! 12) (f ! 13)) \<le> 1500"
  "eapol_accepts f len \<Longrightarrow> be16 (f ! 12) (f ! 13) = 0x888E"
  by (simp_all add: lldp_frame_def cdp_frame_def cdp_envelope_def eapol_accepts_def Let_def)

lemma passive_frames_differ:
  "lldp_frame f len \<Longrightarrow> \<not> cdp_frame f len" "lldp_frame f len \<Longrightarrow> \<not> eapol_accepts f len"
  "cdp_frame f len \<Longrightarrow> \<not> eapol_accepts f len"
  using passive_frame_type [of f len] by fastforce+

lemma passive_frame_unique: "passive_frame p f len \<Longrightarrow> passive_frame q f len \<Longrightarrow> p = q"
  using passive_frames_differ [of f len] by (cases p; cases q) auto

lemma neighbor_db_add_wf:
  assumes "neighbor_db_add (Some ns) (Some n) = (ok, Some ns')" "\<forall>m\<in>set ns. wf_neighbor m" "wf_neighbor n"
  shows "\<forall>m\<in>set ns'. wf_neighbor m"
proof -
  have "wf_neighbor (n\<lparr> nb_occupied := True \<rparr>)" using assms(3) by (simp add: wf_neighbor_def)
  then show ?thesis
    using assms(1,2) set_update_subset_insert [of ns _ "n\<lparr> nb_occupied := True \<rparr>"]
    by (auto simp: neighbor_db_add_def split: option.splits)
qed

section \<open>The handler interface\<close>

text \<open>
  What the registry relies on: a handler refuses every frame that is not of its kind without
  touching the table, and stores one well-formed entry under the sender and its own source
  otherwise; without a table it stores nothing.
\<close>

locale passive_handler =
  fixes process :: "neighbor_db \<Rightarrow> buf ptr \<Rightarrow> u16 \<Rightarrow> (bool \<times> neighbor_db) option"
    and source :: u8 and accepts :: "buf \<Rightarrow> nat \<Rightarrow> bool"
  assumes one_source: "single_source source"
    and refuses: "unat len \<le> length f \<Longrightarrow> 14 \<le> length f \<Longrightarrow> \<not> accepts f (unat len) \<Longrightarrow>
      process db (Some f) len = Some (False, db)"
    and no_table: "unat len \<le> length f \<Longrightarrow> 14 \<le> length f \<Longrightarrow>
      process None (Some f) len = Some (False, None)"
    and stores: "table_ok ns \<Longrightarrow> unat len \<le> length f \<Longrightarrow> 14 \<le> length f \<Longrightarrow> accepts f (unat len) \<Longrightarrow>
      \<exists>n. wf_neighbor n \<and> nb_key n = (take 6 (drop 6 f), source) \<and>
          process (Some ns) (Some f) len = Some (neighbor_db_add (Some ns) (Some n))"
begin

lemma process_effect:
  assumes t: "table_ok ns" and f: "unat len \<le> length f" "14 \<le> length f"
  defines "k \<equiv> (take 6 (drop 6 f), source)"
  shows "\<exists>ok ns'. process (Some ns) (Some f) len = Some (ok, Some ns') \<and> table_ok ns' \<and>
           (ok \<longleftrightarrow> accepts f (unat len) \<and> (k \<in> dom (neighbor_map ns) \<or> neighbor_db_count (Some ns) < 32)) \<and>
           (\<forall>k'. k' \<noteq> k \<longrightarrow> neighbor_map ns' k' = neighbor_map ns k') \<and>
           (ok \<longrightarrow> k \<in> dom (neighbor_map ns')) \<and> (\<not> ok \<longrightarrow> ns' = ns)"
proof (cases "accepts f (unat len)")
  case False
  then show ?thesis using refuses [OF f] t by auto
next
  case True
  from stores [OF t f True] obtain n where n: "wf_neighbor n" "nb_key n = k"
    and p: "process (Some ns) (Some f) len = Some (neighbor_db_add (Some ns) (Some n))"
    unfolding k_def by blast
  have inv: "neighbors_inv ns" and wf: "\<forall>n\<in>set ns. wf_neighbor n" using t by (simp_all add: table_ok_def)
  have s: "single_source (nb_discovery_sources n)"
    using n(2) one_source by (simp add: nb_key_def k_def)
  show ?thesis
  proof (cases "k \<in> dom (neighbor_map ns) \<or> neighbor_db_count (Some ns) < 32")
    case room: True
    then obtain ns' where a: "neighbor_db_add (Some ns) (Some n) = (True, Some ns')" "neighbors_inv ns'"
      "neighbor_map ns' = (neighbor_map ns)(k \<mapsto> stored n)"
      using neighbor_db_add_puts [OF inv s] n(2) neighbor_map_card [OF inv] by auto
    have "\<forall>m\<in>set ns'. wf_neighbor m"
      using neighbor_db_add_wf [OF a(1) wf n(1)] .
    then show ?thesis using p a True room by (auto simp: table_ok_def)
  next
    case False
    then have "neighbor_db_add (Some ns) (Some n) = (False, Some ns)"
      using neighbor_db_add_refuses [OF inv s] n(2) neighbor_map_card [OF inv] by auto
    then show ?thesis using p False t by auto
  qed
qed

end

section \<open>The three handlers provide it\<close>

lemma store_neighbor_adds:
  assumes "neighbors_inv ns" "single_source (nb_discovery_sources n)"
  shows "store_neighbor (Some ns) (nb_discovery_sources n) n = neighbor_db_add (Some ns) (Some n)"
proof (cases "neighbor_db_find_by_source (Some ns) (Some (nb_mac n)) (nb_discovery_sources n)")
  case (Some i)
  then have "nb_key n \<in> dom (neighbor_map ns)"
    using find_by_source_Some [OF assms(1), of "nb_key n" i] assms(2) neighbor_map_Some [OF assms(1), of "nb_key n"]
    by (auto simp: nb_key_def)
  with Some show ?thesis using neighbor_db_update_puts [OF assms] by (simp add: store_neighbor_def)
qed (simp add: store_neighbor_def)

lemma store_neighbor_no_table: "store_neighbor None source n = (False, None)"
  by (simp add: store_neighbor_def neighbor_db_find_by_source_def neighbor_db_add_def)

interpretation lldp_handler: passive_handler
  "lldp_module_process_frame info0 entry0" NEIGHBOR_SOURCE_LLDP lldp_frame for info0 entry0
proof
  show src: "single_source NEIGHBOR_SOURCE_LLDP" by (simp add: single_source_def)
  fix f :: buf and len :: u16
  assume f: "unat len \<le> length f" "14 \<le> length f"
  have lldp: "is_lldp (Some f) = Some (be16 (f ! 12) (f ! 13) = 0x88CC)" using is_lldp_eq [OF f(2)] .
  have rd: "rd_bytes f 0 6 = Some (take 6 f)" "rd_bytes f 0 14 = Some (take 14 f)"
    using f(2) by (simp_all add: rd_bytes_in)
  from lldp_parse_runs [OF f, of info0] obtain ok i where
    p: "lldp_parse (Some f) len (Some info0) = Some (ok, Some i)"
    and ok: "ok \<longleftrightarrow> (\<exists>tlvs. lldpdu (drop 14 (take (unat len) f)) tlvs)"
    and i: "ok \<Longrightarrow> wf_lldp_info i \<and> li_valid i \<and> li_source_mac i = take 6 (drop 6 f)"
    by blast
  show "lldp_module_process_frame info0 entry0 db (Some f) len = Some (False, db)"
    if "\<not> lldp_frame f (unat len)" for db
    using that ok by (simp add: lldp_module_process_frame_def rd lldp p lldp_frame_def)
  have acc: "\<exists>n. wf_neighbor n \<and> nb_mac n = take 6 (drop 6 f) \<and> nb_discovery_sources n = NEIGHBOR_SOURCE_LLDP \<and>
          (\<forall>db. lldp_module_process_frame info0 entry0 db (Some f) len =
                Some (store_neighbor db NEIGHBOR_SOURCE_LLDP n))"
    if "lldp_frame f (unat len)"
  proof -
    have t: "be16 (f ! 12) (f ! 13) = 0x88CC" "ok" using that ok by (simp_all add: lldp_frame_def)
    then obtain n where n: "lldp_fill_neighbor (Some i) (Some entry0) = (True, Some n)" "wf_neighbor n"
      "nb_discovery_sources n = NEIGHBOR_SOURCE_LLDP" "nb_mac n = take 6 (drop 6 f)"
      using lldp_fill_neighbor_spec [of i entry0] i by auto
    then show ?thesis
      using t by (intro exI [of _ n]) (simp add: lldp_module_process_frame_def rd lldp p)
  qed
  show "lldp_module_process_frame info0 entry0 None (Some f) len = Some (False, None)"
  proof (cases "lldp_frame f (unat len)")
    case True
    then show ?thesis using acc store_neighbor_no_table by auto
  next
    case False
    then show ?thesis using ok by (simp add: lldp_module_process_frame_def rd lldp p lldp_frame_def)
  qed
  show "\<exists>n. wf_neighbor n \<and> nb_key n = (take 6 (drop 6 f), NEIGHBOR_SOURCE_LLDP) \<and>
          lldp_module_process_frame info0 entry0 (Some ns) (Some f) len = Some (neighbor_db_add (Some ns) (Some n))"
    if "table_ok ns" "lldp_frame f (unat len)" for ns
    using acc [OF that(2)] that(1) store_neighbor_adds [of ns] src
    by (auto simp: nb_key_def table_ok_def) metis
qed

interpretation cdp_handler: passive_handler
  "cdp_module_process_frame info0 entry0" NEIGHBOR_SOURCE_CDP cdp_frame for info0 entry0
proof
  show src: "single_source NEIGHBOR_SOURCE_CDP" by (simp add: single_source_def)
  fix f :: buf and len :: u16
  assume f: "unat len \<le> length f" "14 \<le> length f"
  from cdp_parse_runs [OF f(1), of info0] obtain ok i where
    p: "cdp_parse (Some f) len (Some info0) = Some (ok, Some i)"
    and ok: "ok \<longleftrightarrow> cdp_frame f (unat len)"
    and i: "ok \<Longrightarrow> cdp_from (take 6 (drop 6 f)) i \<and> ci_valid i"
    by blast
  show refuse: "cdp_module_process_frame info0 entry0 db (Some f) len = Some (False, db)"
    if "\<not> cdp_frame f (unat len)" for db
    using that ok by (simp add: cdp_module_process_frame_def p)
  have acc: "\<exists>n. wf_neighbor n \<and> nb_mac n = take 6 (drop 6 f) \<and> nb_discovery_sources n = NEIGHBOR_SOURCE_CDP \<and>
          (\<forall>db. cdp_module_process_frame info0 entry0 db (Some f) len =
                Some (store_neighbor db NEIGHBOR_SOURCE_CDP n))"
    if "cdp_frame f (unat len)"
  proof -
    have "ok" using that ok by simp
    moreover obtain n where "cdp_fill_neighbor (Some i) (Some entry0) = Some (True, Some n)" "wf_neighbor n"
      "nb_discovery_sources n = NEIGHBOR_SOURCE_CDP" "nb_mac n = take 6 (drop 6 f)"
      using cdp_fill_neighbor_spec [of "take 6 (drop 6 f)" i entry0] i calculation by auto
    ultimately show ?thesis
      by (intro exI [of _ n]) (simp add: cdp_module_process_frame_def p)
  qed
  show "cdp_module_process_frame info0 entry0 None (Some f) len = Some (False, None)"
    using refuse acc store_neighbor_no_table by (cases "cdp_frame f (unat len)") auto
  show "\<exists>n. wf_neighbor n \<and> nb_key n = (take 6 (drop 6 f), NEIGHBOR_SOURCE_CDP) \<and>
          cdp_module_process_frame info0 entry0 (Some ns) (Some f) len = Some (neighbor_db_add (Some ns) (Some n))"
    if "table_ok ns" "cdp_frame f (unat len)" for ns
    using acc [OF that(2)] that(1) store_neighbor_adds [of ns] src
    by (auto simp: nb_key_def table_ok_def) metis
qed

text \<open>For EAPOL the stored entry may be the new one with the name of the old one.\<close>

lemma keep_name_simps [simp]:
  "nb_mac (keep_name e n) = nb_mac n" "nb_discovery_sources (keep_name e n) = nb_discovery_sources n"
  by (simp_all add: keep_name_def)

lemma keep_name_wf: "wf_neighbor e \<Longrightarrow> wf_neighbor n \<Longrightarrow> wf_neighbor (keep_name e n)"
proof -
  assume e: "wf_neighbor e" and n: "wf_neighbor n"
  then have "cstring 64 ((nb_name e)[63 := 0])"
    by (auto simp: wf_neighbor_def cstring_def intro: set_update_memI)
  with n show ?thesis by (simp add: keep_name_def wf_neighbor_def)
qed

interpretation eapol_handler: passive_handler
  "eapol_module_process_frame info0 entry0" NEIGHBOR_SOURCE_EAPOL eapol_accepts for info0 entry0
proof
  show src: "single_source NEIGHBOR_SOURCE_EAPOL" by (simp add: single_source_def)
  fix f :: buf and len :: u16
  assume f: "unat len \<le> length f" "14 \<le> length f"
  from eapol_parse_result [OF f(1), of info0] obtain ok i where
    p: "eapol_parse (Some f) len (Some info0) = Some (ok, Some i)"
    and ok: "ok \<longleftrightarrow> eapol_accepts f (unat len)" and i: "ok \<Longrightarrow> eapol_result f i"
    by blast
  show refuse: "eapol_module_process_frame info0 entry0 db (Some f) len = Some (False, db)"
    if "\<not> eapol_accepts f (unat len)" for db
    using that ok by (simp add: eapol_module_process_frame_def p)
  have acc: "\<exists>n. wf_neighbor n \<and> nb_mac n = take 6 (drop 6 f) \<and> nb_discovery_sources n = NEIGHBOR_SOURCE_EAPOL \<and>
          eapol_fill_neighbor (Some i) (Some entry0) = (True, Some n)"
    if "ok"
  proof -
    have "length (ei_source_mac i) = 6" using i [OF that] f(2) by (simp add: eapol_result_def)
    then show ?thesis
      using eapol_fill_neighbor_spec [of i entry0] i [OF that] unfolding eapol_result_def by auto
  qed
  show "eapol_module_process_frame info0 entry0 None (Some f) len = Some (False, None)"
  proof (cases ok)
    case True
    from acc [OF this] show ?thesis
      by (auto simp: eapol_module_process_frame_def p True neighbor_db_find_by_source_def neighbor_db_add_def)
  qed (use refuse ok in simp)
  show "\<exists>n. wf_neighbor n \<and> nb_key n = (take 6 (drop 6 f), NEIGHBOR_SOURCE_EAPOL) \<and>
          eapol_module_process_frame info0 entry0 (Some ns) (Some f) len = Some (neighbor_db_add (Some ns) (Some n))"
    if t: "table_ok ns" and a: "eapol_accepts f (unat len)" for ns
  proof -
    have "ok" using a ok by simp
    with acc obtain n where n: "wf_neighbor n" "nb_mac n = take 6 (drop 6 f)"
      "nb_discovery_sources n = NEIGHBOR_SOURCE_EAPOL"
      "eapol_fill_neighbor (Some i) (Some entry0) = (True, Some n)" by blast
    have inv: "neighbors_inv ns" using t by (simp add: table_ok_def)
    show ?thesis
    proof (cases "neighbor_db_find_by_source (Some ns) (Some (nb_mac n)) NEIGHBOR_SOURCE_EAPOL")
      case None
      then show ?thesis
        using n \<open>ok\<close> by (intro exI [of _ n]) (simp add: eapol_module_process_frame_def p nb_key_def)
    next
      case (Some j)
      let ?n = "keep_name (ns ! j) n"
      have k: "at_key ns (nb_key ?n) j"
        using Some find_by_source_Some [OF inv, of "nb_key n" j] src n(3) by (simp add: nb_key_def)
      then have "wf_neighbor ?n"
        using t n(1) by (intro keep_name_wf) (simp_all add: table_ok_def at_key_def)
      moreover have "eapol_module_process_frame info0 entry0 (Some ns) (Some f) len =
                     Some (neighbor_db_add (Some ns) (Some ?n))"
        using Some n(3,4) \<open>ok\<close> neighbor_db_update_puts [OF inv, of ?n] k neighbor_map_Some [OF inv, of "nb_key ?n"] src
        by (auto simp: eapol_module_process_frame_def p)
      ultimately show ?thesis using n(2,3) by (intro exI [of _ ?n]) (simp add: nb_key_def)
    qed
  qed
qed

section \<open>Dispatching a frame\<close>

definition selected_handler :: "passive_protocol \<Rightarrow> passive_protocol \<Rightarrow> bool" where
  "selected_handler sel p \<longleftrightarrow> get_handler p \<noteq> None \<and> passive_discovery_handler_is_selected sel p"

lemma protocol_less_count [simp]: "p < PassiveProtocolCount \<longleftrightarrow> p \<noteq> PassiveProtocolCount"
  by (cases p) (simp_all add: less_passive_protocol_def)

lemma get_handler_simps [simp]:
  "get_handler PassiveProtocolALL = None" "get_handler PassiveProtocolLLDP = Some lldp_protocol_handler"
  "get_handler PassiveProtocolCDP = Some cdp_protocol_handler"
  "get_handler PassiveProtocolEAPOL = Some eapol_protocol_handler"
  "get_handler PassiveProtocolClearAll = None" "get_handler PassiveProtocolCount = None"
  by (simp_all add: get_handler_def less_eq_passive_protocol_def)

text \<open>One turn of the dispatch loop, as an effect on the table.\<close>

definition dispatch_effect ::
  "buf \<Rightarrow> nat \<Rightarrow> (passive_protocol \<Rightarrow> bool) \<Rightarrow> neighbor list \<Rightarrow> bool \<Rightarrow> neighbor list \<Rightarrow> bool" where
  "dispatch_effect f len P ns ok ns' \<longleftrightarrow>
     table_ok ns' \<and>
     (ok \<longleftrightarrow> (\<exists>p. P p \<and> passive_frame p f len \<and>
                  ((take 6 (drop 6 f), protocol_source p) \<in> dom (neighbor_map ns) \<or>
                   neighbor_db_count (Some ns) < 32))) \<and>
     (\<forall>k. neighbor_map ns' k \<noteq> neighbor_map ns k \<longrightarrow>
          (\<exists>p. P p \<and> passive_frame p f len \<and> k = (take 6 (drop 6 f), protocol_source p))) \<and>
     (ok \<longrightarrow> (\<exists>p. P p \<and> passive_frame p f len \<and>
                  (take 6 (drop 6 f), protocol_source p) \<in> dom (neighbor_map ns'))) \<and>
     (\<not> ok \<longrightarrow> ns' = ns)"

lemma dispatch_effect_one:
  assumes "table_ok ns'" "ok \<longleftrightarrow> passive_frame p f len \<and>
      ((take 6 (drop 6 f), protocol_source p) \<in> dom (neighbor_map ns) \<or> neighbor_db_count (Some ns) < 32)"
    "\<forall>k'. k' \<noteq> (take 6 (drop 6 f), protocol_source p) \<longrightarrow> neighbor_map ns' k' = neighbor_map ns k'"
    "ok \<longrightarrow> (take 6 (drop 6 f), protocol_source p) \<in> dom (neighbor_map ns')" "\<not> ok \<longrightarrow> ns' = ns"
  shows "dispatch_effect f len (\<lambda>q. q = p) ns ok ns'"
  unfolding dispatch_effect_def simp_thms
proof (intro conjI allI impI)
  show "(take 6 (drop 6 f), protocol_source p) \<in> dom (neighbor_map ns')" "passive_frame p f len" if ok
    using assms(2,4) that by simp_all
  fix k
  assume "neighbor_map ns' k \<noteq> neighbor_map ns k"
  then have "ok" "k = (take 6 (drop 6 f), protocol_source p)" using assms(3,5) by blast+
  then show "passive_frame p f len" "k = (take 6 (drop 6 f), protocol_source p)"
    using assms(2) by simp_all
qed (use assms(1,2,5) in simp_all)

lemma handler_effect:
  assumes t: "table_ok ns" "unat len \<le> length f" "14 \<le> length f" and h: "get_handler p = Some h"
  shows "\<exists>ok ns'. handler_process_frame l h (Some ns) (Some f) len = Some (ok, Some ns') \<and>
           dispatch_effect f (unat len) (\<lambda>q. q = p) ns ok ns'"
proof -
  let ?k = "\<lambda>p. (take 6 (drop 6 f), protocol_source p)"
  have "\<exists>ok ns'. handler_process_frame l h (Some ns) (Some f) len = Some (ok, Some ns') \<and> table_ok ns' \<and>
      (ok \<longleftrightarrow> passive_frame p f (unat len) \<and>
         (?k p \<in> dom (neighbor_map ns) \<or> neighbor_db_count (Some ns) < 32)) \<and>
      (\<forall>k'. k' \<noteq> ?k p \<longrightarrow> neighbor_map ns' k' = neighbor_map ns k') \<and>
      (ok \<longrightarrow> ?k p \<in> dom (neighbor_map ns')) \<and> (\<not> ok \<longrightarrow> ns' = ns)"
  proof (cases p)
    case PassiveProtocolLLDP
    with h show ?thesis using lldp_handler.process_effect [OF t, of "hl_lldp l" "hl_neighbor l"] by simp
  next
    case PassiveProtocolCDP
    with h show ?thesis using cdp_handler.process_effect [OF t, of "hl_cdp l" "hl_neighbor l"] by simp
  next
    case PassiveProtocolEAPOL
    with h show ?thesis using eapol_handler.process_effect [OF t, of "hl_eapol l" "hl_neighbor l"] by simp
  qed (use h in simp_all)
  then show ?thesis using dispatch_effect_one [of _ _ p f "unat len" ns] by blast
qed

lemma dispatch_effect_refused:
  assumes "dispatch_effect f len P ns ok ns'" "\<And>p. P p \<Longrightarrow> \<not> passive_frame p f len"
  shows "\<not> ok" "ns' = ns"
  using assms unfolding dispatch_effect_def by blast+

lemma dispatch_effect_weaken:
  assumes "dispatch_effect f len P ns ok ns'"
    and "\<And>p. passive_frame p f len \<Longrightarrow> P p \<longleftrightarrow> Q p"
  shows "dispatch_effect f len Q ns ok ns'"
proof -
  have "(\<exists>p. P p \<and> passive_frame p f len \<and> R p) \<longleftrightarrow> (\<exists>p. Q p \<and> passive_frame p f len \<and> R p)" for R
    using assms(2) by blast
  then show ?thesis using assms(1) unfolding dispatch_effect_def by simp
qed

lemma dispatch_effect_seq:
  assumes 1: "dispatch_effect f len P ns ok ns'" and 2: "dispatch_effect f len Q ns' ok' ns''"
    and disjoint: "\<And>p. P p \<Longrightarrow> \<not> Q p"
  shows "dispatch_effect f len (\<lambda>p. P p \<or> Q p) ns (ok' \<or> ok) ns''"
proof (cases "\<exists>p. P p \<and> passive_frame p f len")
  case True
  then have q: "\<not> passive_frame p f len" if "Q p" for p
    using that disjoint passive_frame_unique by metis
  have "dispatch_effect f len (\<lambda>p. P p \<or> Q p) ns ok ns'"
    using 1 by (rule dispatch_effect_weaken) (use q in blast)
  then show ?thesis using dispatch_effect_refused [OF 2 q] by simp
next
  case False
  then have p: "\<not> passive_frame p f len" if "P p" for p using that by blast
  have "dispatch_effect f len (\<lambda>p. P p \<or> Q p) ns' ok' ns''"
    using 2 by (rule dispatch_effect_weaken) (use p in blast)
  then show ?thesis using dispatch_effect_refused [OF 1 p] by simp
qed

lemma dispatch_effect_none: "table_ok ns \<Longrightarrow> dispatch_effect f len (\<lambda>_. False) ns False ns"
  by (simp add: dispatch_effect_def)

lemma dispatch_effect_ok: "dispatch_effect f len P ns ok ns' \<Longrightarrow> table_ok ns'"
  by (simp add: dispatch_effect_def)

lemma dispatch_frame_from_effect:
  assumes f: "unat len \<le> length f" "14 \<le> length f" and t: "table_ok ns"
    and before: "dispatch_effect f (unat len) (\<lambda>q. q < p \<and> selected_handler sel q) ns0 matched ns"
  shows "\<exists>ok ns'. dispatch_frame_from l p sel (Some f) len matched (Some ns) = Some (ok, Some ns') \<and>
           dispatch_effect f (unat len) (selected_handler sel) ns0 ok ns'"
  using t before
proof (induction "5 - protocol_value p" arbitrary: p matched ns rule: less_induct)
  case less
  show ?case
  proof (cases "p = PassiveProtocolCount")
    case True
    have "q < p \<and> selected_handler sel q \<longleftrightarrow> selected_handler sel q" for q
      using True by (cases q) (simp_all add: selected_handler_def)
    then show ?thesis
      using less.prems True by (intro exI [of _ matched] exI [of _ ns]) (simp add: dispatch_frame_from.simps)
  next
    case False
    have p: "protocol_value (next_protocol p) = Suc (protocol_value p)" "protocol_value p < 5"
      using False by (cases p; simp)+
    have below: "q < next_protocol p \<longleftrightarrow> q < p \<or> q = p" for q
      using p(1) protocol_value_inject [of q p] by (auto simp: less_passive_protocol_def)
    note IH = less.hyps [of "next_protocol p"]
    show ?thesis
    proof (cases "selected_handler sel p")
      case True
      then obtain h where h: "get_handler p = Some h" "passive_discovery_handler_is_selected sel p"
        by (auto simp: selected_handler_def)
      from handler_effect [OF less.prems(1) f h(1), of l] obtain ok ns' where
        r: "handler_process_frame l h (Some ns) (Some f) len = Some (ok, Some ns')"
        and e: "dispatch_effect f (unat len) (\<lambda>q. q = p) ns ok ns'" by blast
      have "(\<lambda>q. q < next_protocol p \<and> selected_handler sel q) =
            (\<lambda>q. (q < p \<and> selected_handler sel q) \<or> q = p)"
        using True below by (intro ext) auto
      then have "dispatch_effect f (unat len) (\<lambda>q. q < next_protocol p \<and> selected_handler sel q) ns0
                   (ok \<or> matched) ns'"
        using dispatch_effect_seq [OF less.prems(2) e] by auto
      from IH [OF _ dispatch_effect_ok [OF e] this] show ?thesis
        using p False h r by (simp add: dispatch_frame_from.simps [of l p]) (cases ok; simp)
    next
      case none: False
      have "(\<lambda>q. q < next_protocol p \<and> selected_handler sel q) = (\<lambda>q. q < p \<and> selected_handler sel q)"
        using none below by (intro ext) auto
      with less.prems have "dispatch_effect f (unat len) (\<lambda>q. q < next_protocol p \<and> selected_handler sel q) ns0
                   matched ns" by simp
      from IH [OF _ less.prems(1) this] show ?thesis
        using p False none
        by (auto simp: dispatch_frame_from.simps [of l p] selected_handler_def split: option.split)
    qed
  qed
qed

lemma passive_dispatch_effect:
  assumes "table_ok ns" "unat len \<le> length f" "14 \<le> length f"
  shows "\<exists>ok ns'. passive_discovery_dispatch_frame l sel (Some ns) (Some f) len = Some (ok, Some ns') \<and>
           dispatch_effect f (unat len) (selected_handler sel) ns ok ns'"
proof -
  have "(\<lambda>q. q < PassiveProtocolLLDP \<and> selected_handler sel q) = (\<lambda>_. False)"
  proof
    show "(q < PassiveProtocolLLDP \<and> selected_handler sel q) = False" for q
      by (cases q) (simp_all add: less_passive_protocol_def selected_handler_def)
  qed
  then have "dispatch_effect f (unat len) (\<lambda>q. q < PassiveProtocolLLDP \<and> selected_handler sel q) ns False ns"
    using dispatch_effect_none [OF assms(1)] by simp
  from dispatch_frame_from_effect [OF assms(2,3,1) this] show ?thesis
    by (simp add: passive_discovery_dispatch_frame_def)
qed

section \<open>Starting a capture\<close>

lemma table_ok_clear:
  assumes t: "table_ok ns" and s: "single_source s"
  shows "\<exists>ns'. neighbor_db_clear_by_source (Some ns) s = Some ns' \<and> table_ok ns' \<and>
           neighbor_map ns' = neighbor_map ns |` {k. snd k \<noteq> s}"
proof -
  have inv: "neighbors_inv ns" and wf: "\<forall>n\<in>set ns. wf_neighbor n" using t by (simp_all add: table_ok_def)
  have z: "wf_neighbor neighbor_zero" by (simp add: wf_neighbor_def neighbor_zero_def)
  have "\<forall>n\<in>set (map (clear_source_entry s) ns). wf_neighbor n"
    using wf z by (auto simp: clear_source_entry_def)
  then show ?thesis
    using neighbor_db_clear_by_source_map [OF inv s] neighbors_inv_clear [OF inv] neighbor_map_clear [OF inv]
    by (simp add: table_ok_def)
qed

lemma handler_init_eq:
  "get_handler p = Some h \<Longrightarrow> handler_init h neighbors = neighbor_db_clear_by_source neighbors (protocol_source p)"
  by (cases p) (auto simp: lldp_module_init_def cdp_module_init_def eapol_module_init_def)

lemma protocol_single_source: "get_handler p = Some h \<Longrightarrow> single_source (protocol_source p)"
  by (cases p) (auto simp: single_source_def)

lemma handlers_init_from_effect:
  assumes "table_ok ns"
  shows "\<exists>ns'. handlers_init_from p sel (Some ns) = Some ns' \<and> table_ok ns' \<and>
           neighbor_map ns' =
             neighbor_map ns |` {k. \<forall>q. p \<le> q \<and> selected_handler sel q \<longrightarrow> snd k \<noteq> protocol_source q}"
  using assms
proof (induction "5 - protocol_value p" arbitrary: p ns rule: less_induct)
  case less
  show ?case
  proof (cases "p = PassiveProtocolCount")
    case True
    have "\<not> (p \<le> q \<and> selected_handler sel q)" for q
      using True by (cases q) (simp_all add: less_eq_passive_protocol_def selected_handler_def)
    then have u: "{k. \<forall>q. p \<le> q \<and> selected_handler sel q \<longrightarrow> snd k \<noteq> protocol_source q} = UNIV" by blast
    show ?thesis
      unfolding u using less.prems True by (simp add: handlers_init_from.simps [of PassiveProtocolCount] restrict_map_def)
  next
    case False
    have p: "protocol_value (next_protocol p) = Suc (protocol_value p)" "protocol_value p < 5"
      using False by (cases p; simp)+
    have above: "p \<le> q \<longleftrightarrow> next_protocol p \<le> q \<or> q = p" for q
      using p(1) protocol_value_inject [of p q] by (auto simp: less_eq_passive_protocol_def)
    note IH = less.hyps [of "next_protocol p"]
    show ?thesis
    proof (cases "selected_handler sel p")
      case True
      then obtain h where h: "get_handler p = Some h" "passive_discovery_handler_is_selected sel p"
        by (auto simp: selected_handler_def)
      from table_ok_clear [OF less.prems protocol_single_source [OF h(1)]] obtain ns1 where
        c: "handler_init h (Some ns) = Some ns1" "table_ok ns1"
        "neighbor_map ns1 = neighbor_map ns |` {k. snd k \<noteq> protocol_source p}"
        unfolding handler_init_eq [OF h(1)] by blast
      have eq: "{k. snd k \<noteq> protocol_source p} \<inter>
            {k. \<forall>q. next_protocol p \<le> q \<and> selected_handler sel q \<longrightarrow> snd k \<noteq> protocol_source q} =
            {k. \<forall>q. p \<le> q \<and> selected_handler sel q \<longrightarrow> snd k \<noteq> protocol_source q}"
        using True unfolding above by blast
      from IH [OF _ c(2), unfolded c(3) restrict_restrict eq] show ?thesis
        using p False h c(1) by (simp add: handlers_init_from.simps [of p])
    next
      case none: False
      have "(\<forall>q. p \<le> q \<and> selected_handler sel q \<longrightarrow> R q) \<longleftrightarrow>
            (\<forall>q. next_protocol p \<le> q \<and> selected_handler sel q \<longrightarrow> R q)" for R
        using none unfolding above by blast
      then show ?thesis
        using IH [OF _ less.prems] p False none
        by (auto simp: handlers_init_from.simps [of p] selected_handler_def split: option.split)
    qed
  qed
qed

lemma handlers_cleanup_from_same: "handlers_cleanup_from p sel db = db"
proof (induction "5 - protocol_value p" arbitrary: p rule: less_induct)
  case less
  show ?case
  proof (cases "p = PassiveProtocolCount")
    case False
    then have p: "protocol_value (next_protocol p) = Suc (protocol_value p)" "protocol_value p < 5"
      by (cases p; simp)+
    have "handler_cleanup h db = db" for h by (cases h) simp_all
    then show ?thesis
      using less.hyps [of "next_protocol p"] p False
      by (simp add: handlers_cleanup_from.simps [of p] split: option.split)
  qed (simp add: handlers_cleanup_from.simps)
qed

section \<open>Properties\<close>

text \<open>A block that is shorter than an Ethernet header.\<close>

lemma short_block_handlers:
  assumes "unat len \<le> length f" "length f < 14"
  shows "handler_process_frame l lldp_protocol_handler db (Some f) len = None"
    and "handler_process_frame l cdp_protocol_handler db (Some f) len = Some (False, db)"
    and "handler_process_frame l eapol_protocol_handler db (Some f) len = Some (False, db)"
proof -
  have "is_lldp (Some f) = None"
    using assms(2) eth.load_None_iff [of f 0] by (simp add: is_lldp_def ethernet_get_header_def)
  then show "handler_process_frame l lldp_protocol_handler db (Some f) len = None"
    by (simp add: lldp_module_process_frame_def)
  have "\<not> cdp_frame f (unat len)" using assms by (simp add: cdp_frame_def cdp_envelope_def)
  then obtain i where "cdp_parse (Some f) len (Some (hl_cdp l)) = Some (False, Some i)"
    using cdp_parse_runs [OF assms(1), of "hl_cdp l"] by auto
  then show "handler_process_frame l cdp_protocol_handler db (Some f) len = Some (False, db)"
    by (simp add: cdp_module_process_frame_def)
  have "\<not> eapol_accepts f (unat len)" using assms by (simp add: eapol_accepts_def Let_def)
  then obtain i where "eapol_parse (Some f) len (Some (hl_eapol l)) = Some (False, Some i)"
    using eapol_parse_result [OF assms(1), of "hl_eapol l"] by auto
  then show "handler_process_frame l eapol_protocol_handler db (Some f) len = Some (False, db)"
    by (simp add: eapol_module_process_frame_def)
qed

lemma short_block_dispatch:
  assumes "unat len \<le> length f" "length f < 14"
  shows "passive_discovery_dispatch_frame l sel db (Some f) len =
           (if selected_handler sel PassiveProtocolLLDP then None else Some (False, db))"
  using short_block_handlers [OF assms]
  by (simp add: passive_discovery_dispatch_frame_def selected_handler_def
      dispatch_frame_from.simps [of l PassiveProtocolLLDP] dispatch_frame_from.simps [of l PassiveProtocolCDP]
      dispatch_frame_from.simps [of l PassiveProtocolEAPOL] dispatch_frame_from.simps [of l PassiveProtocolClearAll]
      dispatch_frame_from.simps [of l PassiveProtocolCount])

text \<open>
  C15. Offering a frame to the selected handlers touches one entry at most, and is safe with one
  exception. For any bytes no handler leaves the block that holds the frame, except that the LLDP handler
  reads the 14 bytes of an Ethernet header whatever the length of the frame, and so leaves a block
  that is shorter. Otherwise the table keeps unique keys and terminated texts, and the answer is true
  exactly when a selected protocol accepts the frame and its sender is known under it or there is
  room. Whatever changes in the table changes at that sender and protocol only, and an unmatched frame
  changes nothing.
\<close>

theorem passive_dispatch_faithful:
  assumes "table_ok ns" "unat len \<le> length f"
  shows "if length f < 14 \<and> selected_handler sel PassiveProtocolLLDP
         then passive_discovery_dispatch_frame l sel (Some ns) (Some f) len = None
         else \<exists>matched ns'.
           passive_discovery_dispatch_frame l sel (Some ns) (Some f) len = Some (matched, Some ns') \<and>
           table_ok ns' \<and>
           (matched \<longleftrightarrow> (\<exists>p. selected_handler sel p \<and> passive_frame p f (unat len) \<and>
              ((take 6 (drop 6 f), protocol_source p) \<in> dom (neighbor_map ns) \<or>
               neighbor_db_count (Some ns) < 32))) \<and>
           (\<forall>k. neighbor_map ns' k \<noteq> neighbor_map ns k \<longrightarrow>
              (\<exists>p. selected_handler sel p \<and> passive_frame p f (unat len) \<and>
                   k = (take 6 (drop 6 f), protocol_source p))) \<and>
           (matched \<longrightarrow> (\<exists>p. selected_handler sel p \<and> passive_frame p f (unat len) \<and>
              (take 6 (drop 6 f), protocol_source p) \<in> dom (neighbor_map ns'))) \<and>
           (\<not> matched \<longrightarrow> ns' = ns)"
proof (cases "length f < 14")
  case True
  have "\<not> passive_frame p f (unat len)" if "p \<noteq> PassiveProtocolLLDP" for p
    using that True assms(2)
    by (cases p) (simp_all add: cdp_frame_def cdp_envelope_def eapol_accepts_def Let_def)
  note none = short_block_dispatch [OF assms(2) True, of l sel "Some ns"] this
  show ?thesis
  proof (cases "selected_handler sel PassiveProtocolLLDP")
    case True
    then show ?thesis using none(1) \<open>length f < 14\<close> by simp
  next
    case False
    then have "\<not> passive_frame p f (unat len)" if "selected_handler sel p" for p
      using none(2) that by (cases "p = PassiveProtocolLLDP") simp_all
    then show ?thesis using none(1) False assms(1) by auto
  qed
next
  case False
  then have n: "\<not> (length f < 14 \<and> selected_handler sel PassiveProtocolLLDP)" and "14 \<le> length f" by simp_all
  from this(2) show ?thesis
    unfolding if_not_P [OF n] using passive_dispatch_effect [OF assms, of l sel]
    unfolding dispatch_effect_def by blast
qed

text \<open>A capture: the selected sources are cleared, then the frames are offered in order.\<close>

fun capture_frames ::
  "handler_locals \<Rightarrow> passive_protocol \<Rightarrow> neighbor_db \<Rightarrow> (buf \<times> u16) list \<Rightarrow> neighbor_db option" where
  "capture_frames l sel neighbors [] = Some neighbors"
| "capture_frames l sel neighbors ((f, len) # frames) =
     do { r \<leftarrow> passive_discovery_dispatch_frame l sel neighbors (Some f) len;
          capture_frames l sel (snd r) frames }"

definition heard :: "passive_protocol \<Rightarrow> (buf \<times> u16) list \<Rightarrow> buf \<times> u8 \<Rightarrow> bool" where
  "heard sel frames k \<longleftrightarrow>
     (\<exists>f len p. (f, len) \<in> set frames \<and> selected_handler sel p \<and> passive_frame p f (unat len) \<and>
                k = (take 6 (drop 6 f), protocol_source p))"

lemma heard_Cons: "heard sel frames k \<Longrightarrow> heard sel (x # frames) k"
  unfolding heard_def
  by (elim exE conjE, intro exI conjI, rule list.set_intros(2), assumption) assumption+

lemma capture_frames_effect:
  assumes "table_ok ns" "\<And>f len. (f, len) \<in> set frames \<Longrightarrow> unat len \<le> length f \<and> 14 \<le> length f"
  shows "\<exists>ns'. capture_frames l sel (Some ns) frames = Some (Some ns') \<and> table_ok ns' \<and>
           (\<forall>k n. neighbor_map ns' k = Some n \<longrightarrow> neighbor_map ns k = Some n \<or>
              heard sel frames k)"
  using assms
proof (induction frames arbitrary: ns)
  case (Cons x frames)
  obtain f len where x: "x = (f, len)" by fastforce
  from passive_dispatch_effect [OF Cons.prems(1), of len f l sel] Cons.prems(2) x
  obtain ok ns1 where r: "passive_discovery_dispatch_frame l sel (Some ns) (Some f) len = Some (ok, Some ns1)"
    and e: "dispatch_effect f (unat len) (selected_handler sel) ns ok ns1" by auto
  from Cons.IH [OF dispatch_effect_ok [OF e]] Cons.prems(2)
  obtain ns' where c: "capture_frames l sel (Some ns1) frames = Some (Some ns')" "table_ok ns'"
    and d: "neighbor_map ns' k = Some n \<Longrightarrow> neighbor_map ns1 k = Some n \<or>
              heard sel frames k" for k n
    by (metis list.set_intros(2))
  have "neighbor_map ns k = Some n \<or>
        heard sel (x # frames) k"
    if "neighbor_map ns' k = Some n" for k n
  proof (cases "neighbor_map ns1 k = neighbor_map ns k")
    case True
    then show ?thesis using d [OF that] heard_Cons by metis
  next
    case False
    then obtain p where "selected_handler sel p" "passive_frame p f (unat len)"
      "k = (take 6 (drop 6 f), protocol_source p)"
      using e unfolding dispatch_effect_def by blast
    then have "heard sel (x # frames) k"
      unfolding heard_def by (intro exI [of _ f] exI [of _ len] exI [of _ p]) (simp add: x)
    then show ?thesis by simp
  qed
  then show ?case using r c by (simp add: x)
qed simp

text \<open>
  C16. A capture stores only what it heard. Starting a capture forgets exactly the entries of the
  selected protocols, and after any sequence of frames, whatever bytes they hold, every entry is a
  well-formed structure (fixed array sizes, every text terminated) with one discovery source, keys are
  unique, and an entry either survived from before under a protocol that is not selected or has the
  sender of a received frame of a selected protocol that accepted it.
\<close>

theorem passive_capture_stores_heard:
  assumes "table_ok ns"
    and "\<And>f len. (f, len) \<in> set frames \<Longrightarrow> unat len \<le> length f \<and> 14 \<le> length f"
  shows "\<exists>ns'. capture_frames l sel (passive_discovery_handlers_init (Some ns) sel) frames = Some (Some ns') \<and>
           neighbors_inv ns' \<and> (\<forall>n\<in>set ns'. wf_neighbor n) \<and>
           (\<forall>k n. neighbor_map ns' k = Some n \<longrightarrow>
              (neighbor_map ns k = Some n \<and> (\<forall>p. selected_handler sel p \<longrightarrow> snd k \<noteq> protocol_source p)) \<or>
              (\<exists>f len p. (f, len) \<in> set frames \<and> selected_handler sel p \<and> passive_frame p f (unat len) \<and>
                         k = (take 6 (drop 6 f), protocol_source p)))"
proof -
  have "PassiveProtocolLLDP \<le> q \<and> selected_handler sel q \<longleftrightarrow> selected_handler sel q" for q
    by (cases q) (simp_all add: less_eq_passive_protocol_def selected_handler_def)
  then obtain ns1 where i: "passive_discovery_handlers_init (Some ns) sel = Some ns1" "table_ok ns1"
    "neighbor_map ns1 = neighbor_map ns |` {k. \<forall>q. selected_handler sel q \<longrightarrow> snd k \<noteq> protocol_source q}"
    using handlers_init_from_effect [OF assms(1), of PassiveProtocolLLDP sel]
    by (auto simp: passive_discovery_handlers_init_def)
  from capture_frames_effect [OF i(2), of frames l sel] assms(2)
  obtain ns' where c: "capture_frames l sel (Some ns1) frames = Some (Some ns')" "table_ok ns'"
    and d: "\<And>k n. neighbor_map ns' k = Some n \<Longrightarrow> neighbor_map ns1 k = Some n \<or> heard sel frames k"
    by blast
  have "(neighbor_map ns k = Some n \<and> (\<forall>p. selected_handler sel p \<longrightarrow> snd k \<noteq> protocol_source p)) \<or>
        heard sel frames k"
    if "neighbor_map ns' k = Some n" for k n
    using d [OF that] i(3) by (auto simp: restrict_map_def split: if_splits)
  then show ?thesis
    using c i(1) unfolding heard_def table_ok_def by (intro exI [of _ ns']) simp
qed

text \<open>A sender that starts EAPOL authentication, after a table with an LLDP entry.\<close>

definition example_start_frame :: buf where
  "example_start_frame = [1, 0x80, 0xC2, 0, 0, 3, 2, 0, 0, 0, 0, 6, 0x88, 0x8E, 1, 1, 0, 0]"

definition example_locals :: handler_locals where
  "example_locals = \<lparr> hl_lldp = lldp_info_zero, hl_cdp = cdp_info_zero, hl_eapol = eapol_info_zero,
                      hl_neighbor = neighbor_zero \<rparr>"

lemma example_start_accepted: "passive_frame PassiveProtocolEAPOL example_start_frame 18"
  by (simp add: example_start_frame_def eapol_accepts_def be16_def)

lemma table_ok_empty: "table_ok (replicate NEIGHBOR_DB_MAX_ENTRIES neighbor_zero)"
  using neighbors_inv_zero by (simp add: table_ok_def wf_neighbor_def neighbor_zero_def)

lemma passive_dispatch_faithful_witness:
  "\<exists>ns'. passive_discovery_dispatch_frame example_locals PassiveProtocolALL
           (Some (replicate NEIGHBOR_DB_MAX_ENTRIES neighbor_zero)) (Some example_start_frame) 18 =
         Some (True, Some ns') \<and>
         ([2, 0, 0, 0, 0, 6], NEIGHBOR_SOURCE_EAPOL) \<in> dom (neighbor_map ns')"
proof -
  have len: "unat (18 :: u16) \<le> length example_start_frame"
      "\<not> (length example_start_frame < 14 \<and> selected_handler PassiveProtocolALL PassiveProtocolLLDP)"
    by (simp_all add: example_start_frame_def)
  have sel: "selected_handler PassiveProtocolALL PassiveProtocolEAPOL"
    by (simp add: selected_handler_def passive_discovery_handler_is_selected_def)
  have acc: "passive_frame PassiveProtocolEAPOL example_start_frame (unat (18 :: u16))"
    using example_start_accepted by simp
  have cnt: "neighbor_db_count (Some (replicate NEIGHBOR_DB_MAX_ENTRIES neighbor_zero)) < 32"
    by (simp add: neighbor_db_count_def filter_replicate neighbor_zero_def)
  from passive_dispatch_faithful [OF table_ok_empty len(1), of PassiveProtocolALL example_locals]
  obtain matched ns' where r: "passive_discovery_dispatch_frame example_locals PassiveProtocolALL
           (Some (replicate NEIGHBOR_DB_MAX_ENTRIES neighbor_zero)) (Some example_start_frame) 18 =
         Some (matched, Some ns')"
    and m: "matched" and p: "\<exists>p. passive_frame p example_start_frame (unat (18 :: u16)) \<and>
              (take 6 (drop 6 example_start_frame), protocol_source p) \<in> dom (neighbor_map ns')"
    unfolding if_not_P [OF len(2)] using sel acc cnt by blast
  from p have "([2, 0, 0, 0, 0, 6], NEIGHBOR_SOURCE_EAPOL) \<in> dom (neighbor_map ns')"
    using passive_frame_unique [OF _ acc] by (force simp: example_start_frame_def)
  with r m show ?thesis by auto
qed

lemma passive_capture_stores_heard_witness:
  "\<exists>ns'. capture_frames example_locals PassiveProtocolEAPOL
           (passive_discovery_handlers_init (Some (replicate NEIGHBOR_DB_MAX_ENTRIES neighbor_zero))
              PassiveProtocolEAPOL) [(example_start_frame, 18)] = Some (Some ns') \<and> neighbors_inv ns' \<and>
         dom (neighbor_map ns') \<subseteq> {([2, 0, 0, 0, 0, 6], NEIGHBOR_SOURCE_EAPOL)}"
proof -
  have len: "unat len \<le> length f \<and> 14 \<le> length f"
    if "(f, len) \<in> set [(example_start_frame, 18 :: u16)]" for f len
    using that by (simp add: example_start_frame_def)
  have acc: "passive_frame PassiveProtocolEAPOL example_start_frame (unat (18 :: u16))"
    using example_start_accepted by simp
  have p: "p = PassiveProtocolEAPOL" if "passive_frame p example_start_frame 18" for p
    using passive_frame_unique [OF _ acc] that by simp
  have m: "take 6 (drop 6 example_start_frame) = [2, 0, 0, 0, 0, 6]" by (simp add: example_start_frame_def)
  from passive_capture_stores_heard
    [OF table_ok_empty len, where l = example_locals and sel = PassiveProtocolEAPOL]
  obtain ns' where c: "capture_frames example_locals PassiveProtocolEAPOL
           (passive_discovery_handlers_init (Some (replicate NEIGHBOR_DB_MAX_ENTRIES neighbor_zero))
              PassiveProtocolEAPOL) [(example_start_frame, 18)] = Some (Some ns')" "neighbors_inv ns'"
    and d: "\<And>k n. neighbor_map ns' k = Some n \<Longrightarrow>
              neighbor_map (replicate NEIGHBOR_DB_MAX_ENTRIES neighbor_zero) k = Some n \<or>
              (\<exists>p. passive_frame p example_start_frame 18 \<and>
                   k = (take 6 (drop 6 example_start_frame), protocol_source p))"
    by fastforce
  have "k = ([2, 0, 0, 0, 0, 6], NEIGHBOR_SOURCE_EAPOL)" if "neighbor_map ns' k = Some n" for k n
  proof -
    from d [OF that] obtain q where q: "passive_frame q example_start_frame 18"
      "k = (take 6 (drop 6 example_start_frame), protocol_source q)"
      unfolding neighbor_map_zero by auto
    show ?thesis using p [OF q(1)] q(2) m by simp
  qed
  with c show ?thesis by (intro exI [of _ ns']) auto
qed

end
