(* ===== verification/History_Payload.thy ===== *)
theory History_Payload
  imports Neighbor_Db
begin

text \<open>
  \<open>libraries/protocol_tools/passive_history.c\<close>, first half: the little-endian integers, the CRC-32 and
  the payload of one stored neighbour. A writer or reader is its block, its length and its position;
  a call that would leave the block is \<open>None\<close>. A chain of calls joined by \<open>||\<close> is \<open>chain\<close>, which
  stops at the first call that fails.
\<close>

section \<open>Integers and checksum\<close>

definition history_read_u16 :: "buf \<Rightarrow> nat \<Rightarrow> u16 option" where
  "history_read_u16 data i = do { a \<leftarrow> rd data i; b \<leftarrow> rd data (i + 1); Some (be16 b a) }"

definition history_read_u32 :: "buf \<Rightarrow> nat \<Rightarrow> u32 option" where
  "history_read_u32 data i =
     do { a \<leftarrow> rd data i; b \<leftarrow> rd data (i + 1); c \<leftarrow> rd data (i + 2); d \<leftarrow> rd data (i + 3);
          Some (be32 d c b a) }"

definition history_write_u16 :: "buf \<Rightarrow> nat \<Rightarrow> u16 \<Rightarrow> buf option" where
  "history_write_u16 data i val = wr_bytes data i [lo8 val, hi8 val]"

definition history_write_u32 :: "buf \<Rightarrow> nat \<Rightarrow> u32 \<Rightarrow> buf option" where
  "history_write_u32 data i val =
     wr_bytes data i [byte32 0 val, byte32 1 val, byte32 2 val, byte32 3 val]"

fun crc32_bits :: "nat \<Rightarrow> u32 \<Rightarrow> u32" where
  "crc32_bits 0 crc = crc"
| "crc32_bits (Suc n) crc =
     crc32_bits n (drop_bit 1 crc XOR (0xEDB88320 AND (- (crc AND 1))))"

fun history_crc32_update :: "u32 \<Rightarrow> buf \<Rightarrow> u32" where
  "history_crc32_update crc [] = crc"
| "history_crc32_update crc (b # data) = history_crc32_update (crc32_bits 8 (crc XOR ucast b)) data"

definition history_crc32 :: "buf \<Rightarrow> u32" where
  "history_crc32 data = history_crc32_update 0xFFFFFFFF data XOR 0xFFFFFFFF"

section \<open>Writer and reader\<close>

record payload_writer =
  pw_data :: buf
  pw_capacity :: nat
  pw_position :: nat

record payload_reader =
  pr_data :: buf
  pr_length :: nat
  pr_position :: nat

fun chain :: "('s \<Rightarrow> (bool \<times> 's) option) list \<Rightarrow> 's \<Rightarrow> (bool \<times> 's) option" where
  "chain [] s = Some (True, s)"
| "chain (c # cs) s = do { r \<leftarrow> c s; if fst r then chain cs (snd r) else Some r }"

definition history_string_length :: "buf \<Rightarrow> nat \<Rightarrow> nat" where
  "history_string_length string capacity = length (takeWhile (\<lambda>c. c \<noteq> 0) (take capacity string))"

definition payload_put_u8 :: "u8 \<Rightarrow> payload_writer \<Rightarrow> (bool \<times> payload_writer) option" where
  "payload_put_u8 val w =
     (if pw_position w \<ge> pw_capacity w then Some (False, w)
      else do { d \<leftarrow> wr_bytes (pw_data w) (pw_position w) [val];
                Some (True, w\<lparr> pw_data := d, pw_position := pw_position w + 1 \<rparr>) })"

definition payload_put_u16 :: "u16 \<Rightarrow> payload_writer \<Rightarrow> (bool \<times> payload_writer) option" where
  "payload_put_u16 val w =
     (if pw_capacity w - pw_position w < 2 then Some (False, w)
      else do { d \<leftarrow> history_write_u16 (pw_data w) (pw_position w) val;
                Some (True, w\<lparr> pw_data := d, pw_position := pw_position w + 2 \<rparr>) })"

definition payload_put_string :: "buf \<Rightarrow> nat \<Rightarrow> payload_writer \<Rightarrow> (bool \<times> payload_writer) option" where
  "payload_put_string string capacity w =
     (let len = history_string_length string capacity in
      if len \<ge> capacity \<or> len > 255 \<or> pw_capacity w - pw_position w < len + 1 then Some (False, w)
      else do { d \<leftarrow> wr_bytes (pw_data w) (pw_position w) [of_nat len];
                s \<leftarrow> rd_bytes string 0 len;
                d \<leftarrow> wr_bytes d (pw_position w + 1) s;
                Some (True, w\<lparr> pw_data := d, pw_position := pw_position w + 1 + len \<rparr>) })"

text \<open>A getter returns the value read, or NULL where the code returns false.\<close>

definition payload_get_u8 :: "payload_reader \<Rightarrow> (u8 ptr \<times> payload_reader) option" where
  "payload_get_u8 r =
     (if pr_position r \<ge> pr_length r then Some (None, r)
      else do { v \<leftarrow> rd (pr_data r) (pr_position r);
                Some (Some v, r\<lparr> pr_position := pr_position r + 1 \<rparr>) })"

definition payload_get_u16 :: "payload_reader \<Rightarrow> (u16 ptr \<times> payload_reader) option" where
  "payload_get_u16 r =
     (if pr_length r - pr_position r < 2 then Some (None, r)
      else do { v \<leftarrow> history_read_u16 (pr_data r) (pr_position r);
                Some (Some v, r\<lparr> pr_position := pr_position r + 2 \<rparr>) })"

definition payload_get_string ::
  "buf \<Rightarrow> nat \<Rightarrow> bool \<Rightarrow> payload_reader \<Rightarrow> (buf ptr \<times> payload_reader) option" where
  "payload_get_string string capacity marked_present r =
     do { (l, r) \<leftarrow> payload_get_u8 r;
          case l of
            None \<Rightarrow> Some (None, r)
          | Some len \<Rightarrow>
              if unat len \<ge> capacity \<or> pr_length r - pr_position r < unat len \<or>
                 marked_present \<noteq> (len \<noteq> 0)
              then Some (None, r)
              else do { s \<leftarrow> rd_bytes (pr_data r) (pr_position r) (unat len);
                        string \<leftarrow> wr_bytes string 0 s;
                        string \<leftarrow> wr_bytes string (unat len) [0];
                        Some (Some string, r\<lparr> pr_position := pr_position r + unat len \<rparr>) } }"

section \<open>Protocols and flags\<close>

text \<open>The enum is kept as the byte the file stores, since a stored byte is cast to it.\<close>

type_synonym history_protocol = u8

definition PassiveHistoryProtocolAll :: history_protocol where [simp]: "PassiveHistoryProtocolAll = 0"
definition PassiveHistoryProtocolLldp :: history_protocol where [simp]: "PassiveHistoryProtocolLldp = 1"
definition PassiveHistoryProtocolCdp :: history_protocol where [simp]: "PassiveHistoryProtocolCdp = 2"
definition PassiveHistoryProtocolEapol :: history_protocol where [simp]: "PassiveHistoryProtocolEapol = 3"

definition HISTORY_FLAG_NAME :: u16 where "HISTORY_FLAG_NAME = push_bit 0 1"
definition HISTORY_FLAG_PORT :: u16 where "HISTORY_FLAG_PORT = push_bit 1 1"
definition HISTORY_FLAG_MANAGEMENT :: u16 where "HISTORY_FLAG_MANAGEMENT = push_bit 2 1"
definition HISTORY_FLAG_CHASSIS :: u16 where "HISTORY_FLAG_CHASSIS = push_bit 3 1"
definition HISTORY_FLAG_DESCRIPTION :: u16 where "HISTORY_FLAG_DESCRIPTION = push_bit 4 1"
definition HISTORY_FLAG_VLAN_NAME_STRING :: u16 where "HISTORY_FLAG_VLAN_NAME_STRING = push_bit 5 1"
definition HISTORY_FLAG_HAS_PVID :: u16 where "HISTORY_FLAG_HAS_PVID = push_bit 6 1"
definition HISTORY_FLAG_HAS_VLAN_NAME :: u16 where "HISTORY_FLAG_HAS_VLAN_NAME = push_bit 7 1"
definition HISTORY_FLAG_HAS_POLICY :: u16 where "HISTORY_FLAG_HAS_POLICY = push_bit 8 1"
definition HISTORY_FLAG_HAS_POE_MDI :: u16 where "HISTORY_FLAG_HAS_POE_MDI = push_bit 9 1"
definition HISTORY_FLAG_HAS_POE :: u16 where "HISTORY_FLAG_HAS_POE = push_bit 10 1"
definition HISTORY_FLAG_HAS_POE_VALUES :: u16 where "HISTORY_FLAG_HAS_POE_VALUES = push_bit 11 1"
definition HISTORY_FLAG_POE_SUPPORTED :: u16 where "HISTORY_FLAG_POE_SUPPORTED = push_bit 12 1"

lemmas history_flags =
  HISTORY_FLAG_NAME_def HISTORY_FLAG_PORT_def HISTORY_FLAG_MANAGEMENT_def HISTORY_FLAG_CHASSIS_def
  HISTORY_FLAG_DESCRIPTION_def HISTORY_FLAG_VLAN_NAME_STRING_def HISTORY_FLAG_HAS_PVID_def
  HISTORY_FLAG_HAS_VLAN_NAME_def HISTORY_FLAG_HAS_POLICY_def HISTORY_FLAG_HAS_POE_MDI_def
  HISTORY_FLAG_HAS_POE_def HISTORY_FLAG_HAS_POE_VALUES_def HISTORY_FLAG_POE_SUPPORTED_def

definition HISTORY_LLDP_FLAGS_MASK :: u16 where "HISTORY_LLDP_FLAGS_MASK = 0x1FFF"
definition HISTORY_CDP_FLAGS_MASK :: u16 where
  "HISTORY_CDP_FLAGS_MASK =
     HISTORY_FLAG_NAME OR HISTORY_FLAG_PORT OR HISTORY_FLAG_MANAGEMENT OR HISTORY_FLAG_DESCRIPTION"
definition HISTORY_EAPOL_FLAGS_MASK :: u16 where "HISTORY_EAPOL_FLAGS_MASK = HISTORY_FLAG_NAME"

definition HISTORY_LLDP_PAYLOAD_MAX :: nat where [simp]: "HISTORY_LLDP_PAYLOAD_MAX = 463"
definition HISTORY_CDP_PAYLOAD_MAX :: nat where [simp]: "HISTORY_CDP_PAYLOAD_MAX = 308"
definition HISTORY_EAPOL_PAYLOAD_MAX :: nat where [simp]: "HISTORY_EAPOL_PAYLOAD_MAX = 68"
definition HISTORY_PAYLOAD_MAX :: nat where [simp]: "HISTORY_PAYLOAD_MAX = HISTORY_LLDP_PAYLOAD_MAX"

definition raise_flag :: "bool \<Rightarrow> u16 \<Rightarrow> u16 \<Rightarrow> u16" where
  "raise_flag c flag fl = (if c then fl OR flag else fl)"

definition history_presence_flags :: "neighbor \<Rightarrow> history_protocol \<Rightarrow> u16" where
  "history_presence_flags n protocol =
     (let fl = 0;
          fl = raise_flag (nb_name n ! 0 \<noteq> 0) HISTORY_FLAG_NAME fl;
          fl = raise_flag (nb_port n ! 0 \<noteq> 0) HISTORY_FLAG_PORT fl;
          fl = raise_flag (nb_management_address n ! 0 \<noteq> 0) HISTORY_FLAG_MANAGEMENT fl;
          fl = raise_flag (nb_description n ! 0 \<noteq> 0) HISTORY_FLAG_DESCRIPTION fl
      in if protocol = PassiveHistoryProtocolLldp
         then let fl = raise_flag (nb_chassis_id n ! 0 \<noteq> 0) HISTORY_FLAG_CHASSIS fl;
                  fl = raise_flag (nb_vlan_name n ! 0 \<noteq> 0) HISTORY_FLAG_VLAN_NAME_STRING fl;
                  fl = raise_flag (nb_has_pvid n) HISTORY_FLAG_HAS_PVID fl;
                  fl = raise_flag (nb_has_vlan_name n) HISTORY_FLAG_HAS_VLAN_NAME fl;
                  fl = raise_flag (nb_has_network_policy n) HISTORY_FLAG_HAS_POLICY fl;
                  fl = raise_flag (nb_has_poe_mdi n) HISTORY_FLAG_HAS_POE_MDI fl;
                  fl = raise_flag (nb_has_poe n) HISTORY_FLAG_HAS_POE fl;
                  fl = raise_flag (nb_has_poe_power_values n) HISTORY_FLAG_HAS_POE_VALUES fl
              in raise_flag (nb_poe_supported n) HISTORY_FLAG_POE_SUPPORTED fl
         else fl)"

definition history_protocol_valid :: "history_protocol \<Rightarrow> bool" where
  "history_protocol_valid protocol \<longleftrightarrow>
     protocol \<ge> PassiveHistoryProtocolLldp \<and> protocol \<le> PassiveHistoryProtocolEapol"

definition history_source_for_protocol :: "history_protocol \<Rightarrow> u8" where
  "history_source_for_protocol protocol =
     (if protocol = PassiveHistoryProtocolLldp then NEIGHBOR_SOURCE_LLDP
      else if protocol = PassiveHistoryProtocolCdp then NEIGHBOR_SOURCE_CDP
      else if protocol = PassiveHistoryProtocolEapol then NEIGHBOR_SOURCE_EAPOL
      else 0)"

definition history_filter_matches :: "history_protocol \<Rightarrow> history_protocol \<Rightarrow> bool" where
  "history_filter_matches filter_arg protocol \<longleftrightarrow>
     filter_arg = PassiveHistoryProtocolAll \<or> filter_arg = protocol"

definition history_flags_valid :: "history_protocol \<Rightarrow> u16 \<Rightarrow> bool" where
  "history_flags_valid protocol fl =
     (let m = (if protocol = PassiveHistoryProtocolLldp then HISTORY_LLDP_FLAGS_MASK
               else if protocol = PassiveHistoryProtocolCdp then HISTORY_CDP_FLAGS_MASK
               else if protocol = PassiveHistoryProtocolEapol then HISTORY_EAPOL_FLAGS_MASK
               else 0)
      in m \<noteq> 0 \<and> fl AND NOT m = 0)"

section \<open>The payload of a neighbour\<close>

text \<open>Result of the encoder: the answer, the payload block, the payload length and the flags.\<close>

definition history_encode_payload ::
  "history_protocol \<Rightarrow> neighbor \<Rightarrow> buf \<Rightarrow> (bool \<times> buf \<times> u16 \<times> u16) option" where
  "history_encode_payload protocol n payload =
     do { let w = \<lparr> pw_data = payload, pw_capacity = HISTORY_PAYLOAD_MAX, pw_position = 0 \<rparr>;
          let fl = history_presence_flags n protocol;
          r \<leftarrow> (if protocol = PassiveHistoryProtocolLldp
                 then chain [payload_put_u8 (nb_lldp_chassis_subtype n),
                             payload_put_u8 (nb_lldp_port_subtype n),
                             payload_put_u16 (nb_ttl n),
                             payload_put_u16 (nb_capabilities n),
                             payload_put_u16 (nb_enabled_capabilities n),
                             payload_put_u16 (nb_vlan_id n),
                             payload_put_u16 (nb_pvid n),
                             payload_put_u16 (nb_network_policy_vlan n),
                             payload_put_u8 (nb_poe_power_pair n),
                             payload_put_u8 (nb_poe_power_class n),
                             payload_put_u8 (nb_poe_type_source_priority n),
                             payload_put_u16 (nb_poe_requested_power n),
                             payload_put_u16 (nb_poe_allocated_power n),
                             payload_put_u16 (nb_poe_power_watts n),
                             payload_put_u16 (nb_poe_requested_power_watts n),
                             payload_put_u16 (nb_poe_allocated_power_watts n),
                             payload_put_u8 (nb_poe_power_type n),
                             payload_put_u8 (nb_poe_power_source n),
                             payload_put_u8 (nb_poe_power_priority n),
                             payload_put_u8 (if nb_poe_supported n then 1 else 0),
                             payload_put_string (nb_chassis_id n) 64,
                             payload_put_string (nb_name n) 64,
                             payload_put_string (nb_description n) 128,
                             payload_put_string (nb_port n) 64,
                             payload_put_string (nb_management_address n) 48,
                             payload_put_string (nb_vlan_name n) 64] w
                 else if protocol = PassiveHistoryProtocolCdp
                 then chain [payload_put_u16 (nb_ttl n),
                             payload_put_u16 (nb_capabilities n),
                             payload_put_string (nb_name n) 64,
                             payload_put_string (nb_port n) 64,
                             payload_put_string (nb_management_address n) 48,
                             payload_put_string (nb_description n) 128] w
                 else if protocol = PassiveHistoryProtocolEapol
                 then chain [payload_put_u8 (nb_eapol_version n),
                             payload_put_u8 (nb_eapol_packet_type n),
                             payload_put_u8 (nb_eap_code n),
                             payload_put_u8 (nb_eap_type n),
                             payload_put_string (nb_name n) 64] w
                 else Some (False, w));
          Some (fst r, pw_data (snd r), of_nat (pw_position (snd r)), fl) }"

text \<open>
  The decoder's state: the reader, the neighbour and the local \<open>poe_supported\<close>. \<open>get_u8 upd\<close> is
  \<open>payload_get_u8(&reader, &field)\<close> with \<open>upd\<close> storing into the field, and so on.
\<close>

type_synonym decoder = "payload_reader \<times> neighbor \<times> u8"

definition get_u8 :: "(u8 \<Rightarrow> neighbor \<times> u8 \<Rightarrow> neighbor \<times> u8) \<Rightarrow> decoder \<Rightarrow> (bool \<times> decoder) option" where
  "get_u8 upd s =
     do { (v, r) \<leftarrow> payload_get_u8 (fst s);
          Some (case v of None \<Rightarrow> (False, r, snd s) | Some x \<Rightarrow> (True, r, upd x (snd s))) }"

definition get_u16 :: "(u16 \<Rightarrow> neighbor \<times> u8 \<Rightarrow> neighbor \<times> u8) \<Rightarrow> decoder \<Rightarrow> (bool \<times> decoder) option" where
  "get_u16 upd s =
     do { (v, r) \<leftarrow> payload_get_u16 (fst s);
          Some (case v of None \<Rightarrow> (False, r, snd s) | Some x \<Rightarrow> (True, r, upd x (snd s))) }"

definition get_string ::
  "(neighbor \<Rightarrow> buf) \<Rightarrow> nat \<Rightarrow> bool \<Rightarrow> (buf \<Rightarrow> neighbor \<times> u8 \<Rightarrow> neighbor \<times> u8) \<Rightarrow> decoder \<Rightarrow>
   (bool \<times> decoder) option" where
  "get_string field capacity marked upd s =
     do { (v, r) \<leftarrow> payload_get_string (field (fst (snd s))) capacity marked (fst s);
          Some (case v of None \<Rightarrow> (False, r, snd s) | Some x \<Rightarrow> (True, r, upd x (snd s))) }"

definition flag_set :: "u16 \<Rightarrow> u16 \<Rightarrow> bool" where
  "flag_set fl flag \<longleftrightarrow> fl AND flag \<noteq> 0"

text \<open>The stores into a field, for the chains below.\<close>

definition on_neighbor :: "('a \<Rightarrow> neighbor \<Rightarrow> neighbor) \<Rightarrow> 'a \<Rightarrow> neighbor \<times> u8 \<Rightarrow> neighbor \<times> u8" where
  "on_neighbor f v s = (f v (fst s), snd s)"

definition lldp_getters :: "u16 \<Rightarrow> (decoder \<Rightarrow> (bool \<times> decoder) option) list" where
  "lldp_getters fl =
     [get_u8 (on_neighbor (\<lambda>v n. n\<lparr> nb_lldp_chassis_subtype := v \<rparr>)),
      get_u8 (on_neighbor (\<lambda>v n. n\<lparr> nb_lldp_port_subtype := v \<rparr>)),
      get_u16 (on_neighbor (\<lambda>v n. n\<lparr> nb_ttl := v \<rparr>)),
      get_u16 (on_neighbor (\<lambda>v n. n\<lparr> nb_capabilities := v \<rparr>)),
      get_u16 (on_neighbor (\<lambda>v n. n\<lparr> nb_enabled_capabilities := v \<rparr>)),
      get_u16 (on_neighbor (\<lambda>v n. n\<lparr> nb_vlan_id := v \<rparr>)),
      get_u16 (on_neighbor (\<lambda>v n. n\<lparr> nb_pvid := v \<rparr>)),
      get_u16 (on_neighbor (\<lambda>v n. n\<lparr> nb_network_policy_vlan := v \<rparr>)),
      get_u8 (on_neighbor (\<lambda>v n. n\<lparr> nb_poe_power_pair := v \<rparr>)),
      get_u8 (on_neighbor (\<lambda>v n. n\<lparr> nb_poe_power_class := v \<rparr>)),
      get_u8 (on_neighbor (\<lambda>v n. n\<lparr> nb_poe_type_source_priority := v \<rparr>)),
      get_u16 (on_neighbor (\<lambda>v n. n\<lparr> nb_poe_requested_power := v \<rparr>)),
      get_u16 (on_neighbor (\<lambda>v n. n\<lparr> nb_poe_allocated_power := v \<rparr>)),
      get_u16 (on_neighbor (\<lambda>v n. n\<lparr> nb_poe_power_watts := v \<rparr>)),
      get_u16 (on_neighbor (\<lambda>v n. n\<lparr> nb_poe_requested_power_watts := v \<rparr>)),
      get_u16 (on_neighbor (\<lambda>v n. n\<lparr> nb_poe_allocated_power_watts := v \<rparr>)),
      get_u8 (on_neighbor (\<lambda>v n. n\<lparr> nb_poe_power_type := v \<rparr>)),
      get_u8 (on_neighbor (\<lambda>v n. n\<lparr> nb_poe_power_source := v \<rparr>)),
      get_u8 (on_neighbor (\<lambda>v n. n\<lparr> nb_poe_power_priority := v \<rparr>)),
      get_u8 (\<lambda>v s. (fst s, v)),
      (\<lambda>s. Some (\<not> snd (snd s) > 1, s)),
      get_string nb_chassis_id 64 (flag_set fl HISTORY_FLAG_CHASSIS) (on_neighbor (\<lambda>v n. n\<lparr> nb_chassis_id := v \<rparr>)),
      get_string nb_name 64 (flag_set fl HISTORY_FLAG_NAME) (on_neighbor (\<lambda>v n. n\<lparr> nb_name := v \<rparr>)),
      get_string nb_description 128 (flag_set fl HISTORY_FLAG_DESCRIPTION)
        (on_neighbor (\<lambda>v n. n\<lparr> nb_description := v \<rparr>)),
      get_string nb_port 64 (flag_set fl HISTORY_FLAG_PORT) (on_neighbor (\<lambda>v n. n\<lparr> nb_port := v \<rparr>)),
      get_string nb_management_address 48 (flag_set fl HISTORY_FLAG_MANAGEMENT)
        (on_neighbor (\<lambda>v n. n\<lparr> nb_management_address := v \<rparr>)),
      get_string nb_vlan_name 64 (flag_set fl HISTORY_FLAG_VLAN_NAME_STRING)
        (on_neighbor (\<lambda>v n. n\<lparr> nb_vlan_name := v \<rparr>))]"

definition cdp_getters :: "u16 \<Rightarrow> (decoder \<Rightarrow> (bool \<times> decoder) option) list" where
  "cdp_getters fl =
     [get_u16 (on_neighbor (\<lambda>v n. n\<lparr> nb_ttl := v \<rparr>)),
      get_u16 (on_neighbor (\<lambda>v n. n\<lparr> nb_capabilities := v \<rparr>)),
      get_string nb_name 64 (flag_set fl HISTORY_FLAG_NAME) (on_neighbor (\<lambda>v n. n\<lparr> nb_name := v \<rparr>)),
      get_string nb_port 64 (flag_set fl HISTORY_FLAG_PORT) (on_neighbor (\<lambda>v n. n\<lparr> nb_port := v \<rparr>)),
      get_string nb_management_address 48 (flag_set fl HISTORY_FLAG_MANAGEMENT)
        (on_neighbor (\<lambda>v n. n\<lparr> nb_management_address := v \<rparr>)),
      get_string nb_description 128 (flag_set fl HISTORY_FLAG_DESCRIPTION)
        (on_neighbor (\<lambda>v n. n\<lparr> nb_description := v \<rparr>))]"

definition eapol_getters :: "u16 \<Rightarrow> (decoder \<Rightarrow> (bool \<times> decoder) option) list" where
  "eapol_getters fl =
     [get_u8 (on_neighbor (\<lambda>v n. n\<lparr> nb_eapol_version := v \<rparr>)),
      get_u8 (on_neighbor (\<lambda>v n. n\<lparr> nb_eapol_packet_type := v \<rparr>)),
      get_u8 (on_neighbor (\<lambda>v n. n\<lparr> nb_eap_code := v \<rparr>)),
      get_u8 (on_neighbor (\<lambda>v n. n\<lparr> nb_eap_type := v \<rparr>)),
      get_string nb_name 64 (flag_set fl HISTORY_FLAG_NAME) (on_neighbor (\<lambda>v n. n\<lparr> nb_name := v \<rparr>))]"

definition set_lldp_presence :: "u16 \<Rightarrow> u8 \<Rightarrow> neighbor \<Rightarrow> neighbor" where
  "set_lldp_presence fl poe_supported n =
     n\<lparr> nb_has_pvid := flag_set fl HISTORY_FLAG_HAS_PVID,
        nb_has_vlan_name := flag_set fl HISTORY_FLAG_HAS_VLAN_NAME,
        nb_has_network_policy := flag_set fl HISTORY_FLAG_HAS_POLICY,
        nb_has_poe_mdi := flag_set fl HISTORY_FLAG_HAS_POE_MDI,
        nb_has_poe := flag_set fl HISTORY_FLAG_HAS_POE,
        nb_has_poe_power_values := flag_set fl HISTORY_FLAG_HAS_POE_VALUES,
        nb_poe_supported := poe_supported \<noteq> 0 \<rparr>"

definition history_decode_payload ::
  "history_protocol \<Rightarrow> u16 \<Rightarrow> buf \<Rightarrow> u16 \<Rightarrow> buf \<Rightarrow> (bool \<times> neighbor) option" where
  "history_decode_payload protocol fl payload payload_length mac =
     do { let r = \<lparr> pr_data = payload, pr_length = unat payload_length, pr_position = 0 \<rparr>;
          m \<leftarrow> rd_bytes mac 0 6;
          let n = neighbor_zero\<lparr> nb_mac := m,
                                 nb_discovery_sources := history_source_for_protocol protocol,
                                 nb_occupied := True \<rparr>;
          q \<leftarrow> (if protocol = PassiveHistoryProtocolLldp
                 then do { (ok, r, n, poe_supported) \<leftarrow> chain (lldp_getters fl) (r, n, 0);
                           if \<not> ok then Some (False, r, n)
                           else let n = set_lldp_presence fl poe_supported n in
                                Some (nb_poe_supported n = flag_set fl HISTORY_FLAG_POE_SUPPORTED, r, n) }
                 else if protocol = PassiveHistoryProtocolCdp
                 then do { (ok, r, n, _) \<leftarrow> chain (cdp_getters fl) (r, n, 0); Some (ok, r, n) }
                 else if protocol = PassiveHistoryProtocolEapol
                 then do { (ok, r, n, _) \<leftarrow> chain (eapol_getters fl) (r, n, 0); Some (ok, r, n) }
                 else Some (False, r, n));
          Some (case q of (ok, r, n) \<Rightarrow> (ok \<and> pr_position r = pr_length r, n)) }"

section \<open>Encoding is the concatenation of the fields\<close>

datatype field = F8 u8 | F16 u16 | FText buf

fun enc_field :: "field \<Rightarrow> buf" where
  "enc_field (F8 v) = [v]"
| "enc_field (F16 v) = [lo8 v, hi8 v]"
| "enc_field (FText s) = of_nat (length s) # s"

definition history_fields :: "history_protocol \<Rightarrow> neighbor \<Rightarrow> field list" where
  "history_fields protocol n =
     (if protocol = 1
      then [F8 (nb_lldp_chassis_subtype n), F8 (nb_lldp_port_subtype n), F16 (nb_ttl n),
            F16 (nb_capabilities n), F16 (nb_enabled_capabilities n), F16 (nb_vlan_id n),
            F16 (nb_pvid n), F16 (nb_network_policy_vlan n), F8 (nb_poe_power_pair n),
            F8 (nb_poe_power_class n), F8 (nb_poe_type_source_priority n),
            F16 (nb_poe_requested_power n), F16 (nb_poe_allocated_power n), F16 (nb_poe_power_watts n),
            F16 (nb_poe_requested_power_watts n), F16 (nb_poe_allocated_power_watts n),
            F8 (nb_poe_power_type n), F8 (nb_poe_power_source n), F8 (nb_poe_power_priority n),
            F8 (if nb_poe_supported n then 1 else 0), FText (cstr (nb_chassis_id n)),
            FText (cstr (nb_name n)), FText (cstr (nb_description n)), FText (cstr (nb_port n)),
            FText (cstr (nb_management_address n)), FText (cstr (nb_vlan_name n))]
      else if protocol = 2
      then [F16 (nb_ttl n), F16 (nb_capabilities n), FText (cstr (nb_name n)), FText (cstr (nb_port n)),
            FText (cstr (nb_management_address n)), FText (cstr (nb_description n))]
      else [F8 (nb_eapol_version n), F8 (nb_eapol_packet_type n), F8 (nb_eap_code n),
            F8 (nb_eap_type n), FText (cstr (nb_name n))])"

definition history_bytes :: "history_protocol \<Rightarrow> neighbor \<Rightarrow> buf" where
  "history_bytes protocol n = concat (map enc_field (history_fields protocol n))"

definition wrote :: "buf \<Rightarrow> payload_writer \<Rightarrow> payload_writer" where
  "wrote bs w = w\<lparr> pw_data := take (pw_position w) (pw_data w) @ bs @
                              drop (pw_position w + length bs) (pw_data w),
                   pw_position := pw_position w + length bs \<rparr>"

definition fits :: "buf \<Rightarrow> payload_writer \<Rightarrow> bool" where
  "fits bs w \<longleftrightarrow> length (pw_data w) = pw_capacity w \<and> pw_position w + length bs \<le> pw_capacity w"

definition appends :: "(payload_writer \<Rightarrow> (bool \<times> payload_writer) option) \<Rightarrow> buf \<Rightarrow> bool" where
  "appends p bs \<longleftrightarrow> (\<forall>w. fits bs w \<longrightarrow> p w = Some (True, wrote bs w))"

lemma wrote_append: "fits (bs @ cs) w \<Longrightarrow> wrote cs (wrote bs w) = wrote (bs @ cs) w"
  by (simp add: wrote_def fits_def ac_simps)

lemma fits_append: "fits (bs @ cs) w \<Longrightarrow> fits bs w \<and> fits cs (wrote bs w)"
  by (auto simp: fits_def wrote_def)

lemma appends_u8: "appends (payload_put_u8 v) (enc_field (F8 v))"
  by (simp add: appends_def fits_def payload_put_u8_def wr_bytes_in wrote_def)

lemma appends_u16: "appends (payload_put_u16 v) (enc_field (F16 v))"
  by (auto simp: appends_def fits_def payload_put_u16_def history_write_u16_def wr_bytes_in wrote_def)

lemma history_string_length_eq: "length s = capacity \<Longrightarrow> history_string_length s capacity = length (cstr s)"
  by (simp add: history_string_length_def cstr_def)

lemma appends_string:
  assumes s: "cstring capacity s" and c: "capacity \<le> 128"
  shows "appends (payload_put_string s capacity) (enc_field (FText (cstr s)))"
  unfolding appends_def
proof (intro allI impI)
  fix w
  assume f: "fits (enc_field (FText (cstr s))) w"
  let ?d = "pw_data w" and ?p = "pw_position w" and ?n = "length (cstr s)"
  have len: "length s = capacity" "?n < capacity" using s cstr_length [OF s] by (simp_all add: cstring_def)
  have f: "length ?d = pw_capacity w" "?p + ?n + 1 \<le> length ?d" using f by (simp_all add: fits_def)
  have w1: "wr_bytes ?d ?p [of_nat ?n] = Some (take ?p ?d @ of_nat ?n # drop (?p + 1) ?d)"
    using f by (simp add: wr_bytes_in)
  have rd: "rd_bytes s 0 ?n = Some (cstr s)"
    using len by (simp add: rd_bytes_in cstr_def takeWhile_eq_take [symmetric])
  have w2: "wr_bytes (take ?p ?d @ of_nat ?n # drop (?p + 1) ?d) (?p + 1) (cstr s) =
            Some (take ?p ?d @ of_nat ?n # cstr s @ drop (?p + 1 + ?n) ?d)"
    using f by (subst wr_bytes_in) (auto simp: min_def add.commute add.left_commute)
  show "payload_put_string s capacity w = Some (True, wrote (enc_field (FText (cstr s))) w)"
    using len c f w1 rd w2
    by (simp add: payload_put_string_def history_string_length_eq Let_def wrote_def)
qed

lemma appends_chain: "list_all2 appends ps bss \<Longrightarrow> appends (chain ps) (concat bss)"
proof (induction ps bss rule: list_all2_induct)
  case Nil
  show ?case by (simp add: appends_def wrote_def)
next
  case (Cons p ps b bs)
  show ?case
    unfolding appends_def
  proof (intro allI impI)
    fix w
    assume f: "fits (concat (b # bs)) w"
    then have "fits (b @ concat bs) w" by simp
    from fits_append [OF this] wrote_append [OF this] Cons
    show "chain (p # ps) w = Some (True, wrote (concat (b # bs)) w)" by (simp add: appends_def)
  qed
qed

lemma chain_append:
  "chain (xs @ ys) s = do { r \<leftarrow> chain xs s; if fst r then chain ys (snd r) else Some r }"
  by (induction xs arbitrary: s) (auto simp: Option.bind_eq_Some_conv split: bind_splits)

lemma wf_neighbor_texts:
  assumes "wf_neighbor n"
  shows "cstring 64 (nb_chassis_id n)" "cstring 64 (nb_name n)" "cstring 128 (nb_description n)"
    "cstring 64 (nb_port n)" "cstring 48 (nb_management_address n)" "cstring 64 (nb_vlan_name n)"
    "length (nb_mac n) = 6"
  using assms by (simp_all add: wf_neighbor_def)

definition history_payload_max :: "history_protocol \<Rightarrow> nat" where
  "history_payload_max protocol =
     (if protocol = 1 then HISTORY_LLDP_PAYLOAD_MAX
      else if protocol = 2 then HISTORY_CDP_PAYLOAD_MAX else HISTORY_EAPOL_PAYLOAD_MAX)"

lemma history_bytes_length:
  assumes "wf_neighbor n"
  shows "length (history_bytes protocol n) \<le> history_payload_max protocol"
  using wf_neighbor_texts(1-6) [OF assms, THEN cstr_length]
  by (simp add: history_bytes_def history_fields_def history_payload_max_def)

lemma history_valid_cases:
  "history_protocol_valid p \<longleftrightarrow> p = 1 \<or> p = 2 \<or> p = 3"
proof -
  have "p \<ge> 1 \<and> p \<le> 3 \<longleftrightarrow> unat p = 1 \<or> unat p = 2 \<or> unat p = 3"
    by (simp add: word_le_nat_alt) arith
  also have "\<dots> \<longleftrightarrow> p = 1 \<or> p = 2 \<or> p = 3"
    by (simp add: word_unat_eq_iff)
  finally show ?thesis by (simp add: history_protocol_valid_def)
qed

lemma history_encode_eq:
  assumes n: "wf_neighbor n" and p: "history_protocol_valid protocol" and d: "length payload = HISTORY_PAYLOAD_MAX"
  shows "history_encode_payload protocol n payload =
           Some (True, history_bytes protocol n @ drop (length (history_bytes protocol n)) payload,
                 of_nat (length (history_bytes protocol n)), history_presence_flags n protocol)"
proof -
  note texts = wf_neighbor_texts(1-6) [OF n]
  note app = appends_u8 appends_u16 texts [THEN appends_string]
  let ?w = "\<lparr> pw_data = payload, pw_capacity = HISTORY_PAYLOAD_MAX, pw_position = 0 \<rparr>"
  have run: "chain ps ?w = Some (True, wrote (history_bytes protocol n) ?w)"
    if "list_all2 appends ps (map enc_field (history_fields protocol n))" for ps
  proof -
    have "history_payload_max protocol \<le> 463" by (simp add: history_payload_max_def)
    then have "fits (history_bytes protocol n) ?w"
      using history_bytes_length [OF n, of protocol] d by (simp add: fits_def)
    then show ?thesis using appends_chain [OF that] by (simp add: appends_def history_bytes_def)
  qed
  have w: "pw_data (wrote bs \<lparr> pw_data = payload, pw_capacity = c, pw_position = 0 \<rparr>) = bs @ drop (length bs) payload"
    "pw_position (wrote bs \<lparr> pw_data = payload, pw_capacity = c, pw_position = 0 \<rparr>) = length bs" for bs c
    by (simp_all add: wrote_def)
  consider "protocol = 1" | "protocol = 2" | "protocol = 3" using p history_valid_cases by blast
  then show ?thesis
  proof cases
    case 1
    show ?thesis
      unfolding history_encode_payload_def Let_def 1 PassiveHistoryProtocolLldp_def if_P [OF refl]
      by (subst run [unfolded 1]) (simp_all add: history_fields_def app w del: enc_field.simps)
  next
    case 2
    have "\<not> (2 :: u8) = 1" by simp
    then show ?thesis
      unfolding history_encode_payload_def Let_def 2
      by (subst run [unfolded 2]) (simp_all add: history_fields_def app w del: enc_field.simps)
  next
    case 3
    then show ?thesis
      unfolding history_encode_payload_def Let_def 3
      by (subst run [unfolded 3]) (simp_all add: history_fields_def app w del: enc_field.simps)
  qed
qed

section \<open>Decoding reads the fields back\<close>

text \<open>
  \<open>reads gs bs u\<close>: on a reader that stands before the bytes \<open>bs\<close> the chain of getters \<open>gs\<close>
  succeeds, moves behind them and updates the structure by \<open>u\<close>. The text arrays keep their sizes.
\<close>

definition sized :: "neighbor \<times> u8 \<Rightarrow> bool" where
  "sized s \<longleftrightarrow>
     length (nb_chassis_id (fst s)) = 64 \<and> length (nb_name (fst s)) = 64 \<and>
     length (nb_description (fst s)) = 128 \<and> length (nb_port (fst s)) = 64 \<and>
     length (nb_management_address (fst s)) = 48 \<and> length (nb_vlan_name (fst s)) = 64"

definition stands_before :: "buf \<Rightarrow> payload_reader \<Rightarrow> bool" where
  "stands_before bs r \<longleftrightarrow>
     pr_length r \<le> length (pr_data r) \<and> pr_position r + length bs \<le> pr_length r \<and>
     take (length bs) (drop (pr_position r) (pr_data r)) = bs"

definition skip :: "nat \<Rightarrow> payload_reader \<Rightarrow> payload_reader" where
  "skip k r = r\<lparr> pr_position := pr_position r + k \<rparr>"

definition reads ::
  "(decoder \<Rightarrow> (bool \<times> decoder) option) list \<Rightarrow> buf \<Rightarrow> (neighbor \<times> u8 \<Rightarrow> neighbor \<times> u8) \<Rightarrow> bool" where
  "reads gs bs u \<longleftrightarrow>
     (\<forall>r s. stands_before bs r \<longrightarrow> sized s \<longrightarrow>
        chain gs (r, s) = Some (True, skip (length bs) r, u s) \<and> sized (u s))"

lemma stands_before_append:
  assumes "stands_before (bs @ cs) r"
  shows "stands_before bs r" "stands_before cs (skip (length bs) r)"
proof -
  let ?x = "drop (pr_position r) (pr_data r)"
  have t: "take (length bs + length cs) ?x = bs @ cs" and l: "pr_position r + length bs + length cs \<le> pr_length r"
    "pr_length r \<le> length (pr_data r)"
    using assms by (simp_all add: stands_before_def ac_simps)
  from t have "take (length bs) (take (length bs + length cs) ?x) = bs" by simp
  then show "stands_before bs r" using l by (simp add: stands_before_def min_def)
  from t have "drop (length bs) (take (length bs + length cs) ?x) = cs" by simp
  then show "stands_before cs (skip (length bs) r)"
    using l by (simp add: stands_before_def skip_def drop_take ac_simps)
qed

lemma skip_skip [simp]: "skip b (skip a r) = skip (a + b) r"
  by (simp add: skip_def)

lemma skip_sel [simp]:
  "pr_data (skip k r) = pr_data r" "pr_length (skip k r) = pr_length r"
  "pr_position (skip k r) = pr_position r + k"
  by (simp_all add: skip_def)

lemma reads_Nil: "reads [] [] (\<lambda>s. s)"
  by (simp add: reads_def skip_def)

lemma readsD:
  "reads gs bs u \<Longrightarrow> stands_before bs r \<Longrightarrow> sized s \<Longrightarrow>
     chain gs (r, s) = Some (True, skip (length bs) r, u s) \<and> sized (u s)"
  unfolding reads_def by blast

lemma reads_append:
  assumes g: "reads gs bs u" and h: "reads hs cs v"
  shows "reads (gs @ hs) (bs @ cs) (\<lambda>s. v (u s))"
  unfolding reads_def
proof (intro allI impI)
  fix r s
  assume st: "stands_before (bs @ cs) r" and s: "sized s"
  note b = stands_before_append [OF st]
  have "chain gs (r, s) = Some (True, skip (length bs) r, u s)" "sized (u s)"
    using readsD [OF g b(1) s] by simp_all
  moreover from this(2) have "chain hs (skip (length bs) r, u s) = Some (True, skip (length cs) (skip (length bs) r), v (u s))"
    "sized (v (u s))"
    using readsD [OF h b(2)] by simp_all
  ultimately show "chain (gs @ hs) (r, s) = Some (True, skip (length (bs @ cs)) r, v (u s)) \<and> sized (v (u s))"
    by (simp add: chain_append)
qed

lemma reads_Cons:
  "reads [g] bs u \<Longrightarrow> reads gs cs v \<Longrightarrow> reads (g # gs) (bs @ cs) (\<lambda>s. v (u s))"
  using reads_append [of "[g]" bs u gs cs v] by simp

lemma stands_before_nth:
  assumes "stands_before bs r" "i < length bs"
  shows "pr_position r + i < length (pr_data r) \<and> pr_data r ! (pr_position r + i) = bs ! i"
proof -
  have "take (length bs) (drop (pr_position r) (pr_data r)) ! i = drop (pr_position r) (pr_data r) ! i"
    using assms(2) by (rule nth_take)
  also have "\<dots> = pr_data r ! (pr_position r + i)"
    using assms by (intro nth_drop) (simp add: stands_before_def)
  finally have "bs ! i = pr_data r ! (pr_position r + i)"
    using assms(1) by (metis stands_before_def)
  then show ?thesis using assms by (auto simp: stands_before_def)
qed

lemma get_u8_reads:
  assumes "\<And>s. sized s \<Longrightarrow> sized (u v s)"
  shows "reads [get_u8 u] (enc_field (F8 v)) (u v)"
  unfolding reads_def
proof (intro allI impI)
  fix r and s :: "neighbor \<times> u8"
  assume st: "stands_before (enc_field (F8 v)) r" and s: "sized s"
  from stands_before_nth [OF st, of 0] st
  have "payload_get_u8 r = Some (Some v, skip 1 r)"
    by (simp add: payload_get_u8_def rd_in stands_before_def skip_def)
  then show "chain [get_u8 u] (r, s) = Some (True, skip (length (enc_field (F8 v))) r, u v s) \<and> sized (u v s)"
    using assms [OF s] by (simp add: get_u8_def)
qed

lemma get_u16_reads:
  assumes "\<And>s. sized s \<Longrightarrow> sized (u v s)"
  shows "reads [get_u16 u] (enc_field (F16 v)) (u v)"
  unfolding reads_def
proof (intro allI impI)
  fix r and s :: "neighbor \<times> u8"
  assume st: "stands_before (enc_field (F16 v)) r" and s: "sized s"
  from stands_before_nth [OF st, of 0] stands_before_nth [OF st, of 1] st
  have "payload_get_u16 r = Some (Some v, skip 2 r)"
    by (auto simp: payload_get_u16_def history_read_u16_def rd_in stands_before_def skip_def)
  then show "chain [get_u16 u] (r, s) = Some (True, skip (length (enc_field (F16 v))) r, u v s) \<and> sized (u v s)"
    using assms [OF s] by (simp add: get_u16_def numeral_2_eq_2)
qed

text \<open>A text laid over an array: the text, a terminator, and the old bytes behind.\<close>

definition text_over :: "buf \<Rightarrow> buf \<Rightarrow> buf" where
  "text_over txt a = txt @ 0 # drop (Suc (length txt)) a"

lemma text_over_length: "length txt < length a \<Longrightarrow> length (text_over txt a) = length a"
  by (simp add: text_over_def)

lemma get_string_reads:
  assumes t: "length txt < capacity" "capacity \<le> 128" and m: "marked \<longleftrightarrow> txt \<noteq> []"
    and len: "\<And>s. sized s \<Longrightarrow> length (field (fst s)) = capacity"
    and upd: "\<And>a s. sized s \<Longrightarrow> length a = capacity \<Longrightarrow> sized (u a s)"
  shows "reads [get_string field capacity marked u] (enc_field (FText txt))
           (\<lambda>s. u (text_over txt (field (fst s))) s)"
  unfolding reads_def
proof (intro allI impI)
  fix r and s :: "neighbor \<times> u8"
  assume st: "stands_before (enc_field (FText txt)) r" and s: "sized s"
  have n: "unat (of_nat (length txt) :: u8) = length txt" using t by (intro unat_of_nat_u8) simp
  have "stands_before ([of_nat (length txt)] @ txt) r" using st by simp
  note b = stands_before_append [OF this]
  have b2: "stands_before txt (skip 1 r)" using b(2) by simp
  from stands_before_nth [OF b(1), of 0] b(1)
  have l: "payload_get_u8 r = Some (Some (of_nat (length txt)), skip 1 r)"
    by (simp add: payload_get_u8_def rd_in stands_before_def skip_def)
  have fl: "length (field (fst s)) = capacity" using len [OF s] .
  have z: "(of_nat (length txt) :: u8) \<noteq> 0 \<longleftrightarrow> txt \<noteq> []"
    using n by (cases "txt") (auto simp: word_unat_eq_iff)
  have rd: "rd_bytes (pr_data r) (Suc (pr_position r)) (length txt) = Some txt"
    using b2 by (simp add: rd_bytes_def stands_before_def)
  have room: "\<not> pr_length r - Suc (pr_position r) < length txt"
    using b2 by (auto simp: stands_before_def)
  have w1: "wr_bytes (field (fst s)) 0 txt = Some (txt @ drop (length txt) (field (fst s)))"
    using fl t by (simp add: wr_bytes_in)
  have w2: "wr_bytes (txt @ drop (length txt) (field (fst s))) (length txt) [0] =
            Some (text_over txt (field (fst s)))"
    using fl t by (subst wr_bytes_at) (simp_all add: text_over_def)
  have g: "payload_get_string (field (fst s)) capacity marked r =
           Some (Some (text_over txt (field (fst s))), skip (1 + length txt) r)"
    using t m room by (simp add: payload_get_string_def l n z rd w1 w2 skip_def)
  have "length (text_over txt (field (fst s))) = capacity" using text_over_length [of "txt"] fl t by simp
  then show "chain [get_string field capacity marked u] (r, s) =
        Some (True, skip (length (enc_field (FText txt))) r, u (text_over txt (field (fst s))) s) \<and>
        sized (u (text_over txt (field (fst s))) s)"
    using g upd [OF s] by (simp add: get_string_def)
qed

section \<open>The structure that comes back\<close>

text \<open>
  What a stored neighbour keeps: its address, the protocol as its one source and the fields of the
  protocol, each text cut at its terminator and padded with zero bytes.
\<close>

definition padded :: "buf \<Rightarrow> buf" where
  "padded a = text_over (cstr a) (replicate (length a) 0)"

definition history_blank :: "history_protocol \<Rightarrow> buf \<Rightarrow> neighbor" where
  "history_blank protocol mac =
     neighbor_zero\<lparr> nb_mac := mac, nb_discovery_sources := history_source_for_protocol protocol,
                    nb_occupied := True \<rparr>"

definition history_view :: "history_protocol \<Rightarrow> neighbor \<Rightarrow> neighbor" where
  "history_view protocol n =
     (let b = history_blank protocol (nb_mac n) in
      if protocol = 1
      then b\<lparr> nb_lldp_chassis_subtype := nb_lldp_chassis_subtype n,
              nb_lldp_port_subtype := nb_lldp_port_subtype n, nb_ttl := nb_ttl n,
              nb_capabilities := nb_capabilities n,
              nb_enabled_capabilities := nb_enabled_capabilities n, nb_vlan_id := nb_vlan_id n,
              nb_pvid := nb_pvid n, nb_network_policy_vlan := nb_network_policy_vlan n,
              nb_poe_power_pair := nb_poe_power_pair n, nb_poe_power_class := nb_poe_power_class n,
              nb_poe_type_source_priority := nb_poe_type_source_priority n,
              nb_poe_requested_power := nb_poe_requested_power n,
              nb_poe_allocated_power := nb_poe_allocated_power n,
              nb_poe_power_watts := nb_poe_power_watts n,
              nb_poe_requested_power_watts := nb_poe_requested_power_watts n,
              nb_poe_allocated_power_watts := nb_poe_allocated_power_watts n,
              nb_poe_power_type := nb_poe_power_type n, nb_poe_power_source := nb_poe_power_source n,
              nb_poe_power_priority := nb_poe_power_priority n,
              nb_chassis_id := padded (nb_chassis_id n), nb_name := padded (nb_name n),
              nb_description := padded (nb_description n), nb_port := padded (nb_port n),
              nb_management_address := padded (nb_management_address n),
              nb_vlan_name := padded (nb_vlan_name n),
              nb_has_pvid := nb_has_pvid n, nb_has_vlan_name := nb_has_vlan_name n,
              nb_has_network_policy := nb_has_network_policy n, nb_has_poe_mdi := nb_has_poe_mdi n,
              nb_has_poe := nb_has_poe n, nb_has_poe_power_values := nb_has_poe_power_values n,
              nb_poe_supported := nb_poe_supported n \<rparr>
      else if protocol = 2
      then b\<lparr> nb_ttl := nb_ttl n, nb_capabilities := nb_capabilities n, nb_name := padded (nb_name n),
              nb_port := padded (nb_port n),
              nb_management_address := padded (nb_management_address n),
              nb_description := padded (nb_description n) \<rparr>
      else b\<lparr> nb_eapol_version := nb_eapol_version n, nb_eapol_packet_type := nb_eapol_packet_type n,
              nb_eap_code := nb_eap_code n, nb_eap_type := nb_eap_type n,
              nb_name := padded (nb_name n) \<rparr>)"

subsection \<open>The presence flags\<close>

lemma flag_set_bit: "flag_set fl (push_bit k 1) \<longleftrightarrow> bit fl k"
  by (simp add: flag_set_def push_bit_eq_mult and_exp_eq_0_iff_not_bit)

lemma bit_raise_flag:
  "k < 16 \<Longrightarrow> bit (raise_flag c (push_bit k 1) fl) j \<longleftrightarrow> bit fl j \<or> (c \<and> j = k)"
  by (auto simp: raise_flag_def bit_simps)

lemma flag_bits:
  "bit (raise_flag c HISTORY_FLAG_NAME fl) j \<longleftrightarrow> bit fl j \<or> (c \<and> j = 0)"
    "bit (raise_flag c HISTORY_FLAG_PORT fl) j \<longleftrightarrow> bit fl j \<or> (c \<and> j = 1)"
    "bit (raise_flag c HISTORY_FLAG_MANAGEMENT fl) j \<longleftrightarrow> bit fl j \<or> (c \<and> j = 2)"
    "bit (raise_flag c HISTORY_FLAG_CHASSIS fl) j \<longleftrightarrow> bit fl j \<or> (c \<and> j = 3)"
    "bit (raise_flag c HISTORY_FLAG_DESCRIPTION fl) j \<longleftrightarrow> bit fl j \<or> (c \<and> j = 4)"
    "bit (raise_flag c HISTORY_FLAG_VLAN_NAME_STRING fl) j \<longleftrightarrow> bit fl j \<or> (c \<and> j = 5)"
    "bit (raise_flag c HISTORY_FLAG_HAS_PVID fl) j \<longleftrightarrow> bit fl j \<or> (c \<and> j = 6)"
    "bit (raise_flag c HISTORY_FLAG_HAS_VLAN_NAME fl) j \<longleftrightarrow> bit fl j \<or> (c \<and> j = 7)"
    "bit (raise_flag c HISTORY_FLAG_HAS_POLICY fl) j \<longleftrightarrow> bit fl j \<or> (c \<and> j = 8)"
    "bit (raise_flag c HISTORY_FLAG_HAS_POE_MDI fl) j \<longleftrightarrow> bit fl j \<or> (c \<and> j = 9)"
    "bit (raise_flag c HISTORY_FLAG_HAS_POE fl) j \<longleftrightarrow> bit fl j \<or> (c \<and> j = 10)"
    "bit (raise_flag c HISTORY_FLAG_HAS_POE_VALUES fl) j \<longleftrightarrow> bit fl j \<or> (c \<and> j = 11)"
    "bit (raise_flag c HISTORY_FLAG_POE_SUPPORTED fl) j \<longleftrightarrow> bit fl j \<or> (c \<and> j = 12)"
    "flag_set fl HISTORY_FLAG_NAME \<longleftrightarrow> bit fl 0"
    "flag_set fl HISTORY_FLAG_PORT \<longleftrightarrow> bit fl 1"
    "flag_set fl HISTORY_FLAG_MANAGEMENT \<longleftrightarrow> bit fl 2"
    "flag_set fl HISTORY_FLAG_CHASSIS \<longleftrightarrow> bit fl 3"
    "flag_set fl HISTORY_FLAG_DESCRIPTION \<longleftrightarrow> bit fl 4"
    "flag_set fl HISTORY_FLAG_VLAN_NAME_STRING \<longleftrightarrow> bit fl 5"
    "flag_set fl HISTORY_FLAG_HAS_PVID \<longleftrightarrow> bit fl 6"
    "flag_set fl HISTORY_FLAG_HAS_VLAN_NAME \<longleftrightarrow> bit fl 7"
    "flag_set fl HISTORY_FLAG_HAS_POLICY \<longleftrightarrow> bit fl 8"
    "flag_set fl HISTORY_FLAG_HAS_POE_MDI \<longleftrightarrow> bit fl 9"
    "flag_set fl HISTORY_FLAG_HAS_POE \<longleftrightarrow> bit fl 10"
    "flag_set fl HISTORY_FLAG_HAS_POE_VALUES \<longleftrightarrow> bit fl 11"
    "flag_set fl HISTORY_FLAG_POE_SUPPORTED \<longleftrightarrow> bit fl 12"
  unfolding history_flags flag_set_bit
  by (rule bit_raise_flag, simp)+ (rule refl)+

lemma presence_flags:
  fixes n defines "fl \<equiv> history_presence_flags n 1" and "fc \<equiv> history_presence_flags n 2"
    and "fe \<equiv> history_presence_flags n 3"
  shows "flag_set fl HISTORY_FLAG_NAME \<longleftrightarrow> nb_name n ! 0 \<noteq> 0"
    "flag_set fl HISTORY_FLAG_PORT \<longleftrightarrow> nb_port n ! 0 \<noteq> 0"
    "flag_set fl HISTORY_FLAG_MANAGEMENT \<longleftrightarrow> nb_management_address n ! 0 \<noteq> 0"
    "flag_set fl HISTORY_FLAG_DESCRIPTION \<longleftrightarrow> nb_description n ! 0 \<noteq> 0"
    "flag_set fl HISTORY_FLAG_CHASSIS \<longleftrightarrow> nb_chassis_id n ! 0 \<noteq> 0"
    "flag_set fl HISTORY_FLAG_VLAN_NAME_STRING \<longleftrightarrow> nb_vlan_name n ! 0 \<noteq> 0"
    "flag_set fl HISTORY_FLAG_HAS_PVID \<longleftrightarrow> nb_has_pvid n"
    "flag_set fl HISTORY_FLAG_HAS_VLAN_NAME \<longleftrightarrow> nb_has_vlan_name n"
    "flag_set fl HISTORY_FLAG_HAS_POLICY \<longleftrightarrow> nb_has_network_policy n"
    "flag_set fl HISTORY_FLAG_HAS_POE_MDI \<longleftrightarrow> nb_has_poe_mdi n"
    "flag_set fl HISTORY_FLAG_HAS_POE \<longleftrightarrow> nb_has_poe n"
    "flag_set fl HISTORY_FLAG_HAS_POE_VALUES \<longleftrightarrow> nb_has_poe_power_values n"
    "flag_set fl HISTORY_FLAG_POE_SUPPORTED \<longleftrightarrow> nb_poe_supported n"
    "flag_set fc HISTORY_FLAG_NAME \<longleftrightarrow> nb_name n ! 0 \<noteq> 0"
    "flag_set fc HISTORY_FLAG_PORT \<longleftrightarrow> nb_port n ! 0 \<noteq> 0"
    "flag_set fc HISTORY_FLAG_MANAGEMENT \<longleftrightarrow> nb_management_address n ! 0 \<noteq> 0"
    "flag_set fc HISTORY_FLAG_DESCRIPTION \<longleftrightarrow> nb_description n ! 0 \<noteq> 0"
    "flag_set fe HISTORY_FLAG_NAME \<longleftrightarrow> nb_name n ! 0 \<noteq> 0"
  unfolding fl_def fc_def fe_def history_presence_flags_def
  by (simp_all add: Let_def flag_bits)

subsection \<open>The steps of the decoder\<close>

type_synonym decode_step =
  "(decoder \<Rightarrow> (bool \<times> decoder) option) list \<times> buf \<times> (neighbor \<times> u8 \<Rightarrow> neighbor \<times> u8)"

definition good_step :: "decode_step \<Rightarrow> bool" where
  "good_step x \<longleftrightarrow> reads (fst x) (fst (snd x)) (snd (snd x))"

definition step_u8 :: "(u8 \<Rightarrow> neighbor \<Rightarrow> neighbor) \<Rightarrow> u8 \<Rightarrow> decode_step" where
  "step_u8 f v = ([get_u8 (on_neighbor f)], enc_field (F8 v), on_neighbor f v)"

definition step_u16 :: "(u16 \<Rightarrow> neighbor \<Rightarrow> neighbor) \<Rightarrow> u16 \<Rightarrow> decode_step" where
  "step_u16 f v = ([get_u16 (on_neighbor f)], enc_field (F16 v), on_neighbor f v)"

definition step_text ::
  "(neighbor \<Rightarrow> buf) \<Rightarrow> nat \<Rightarrow> bool \<Rightarrow> (buf \<Rightarrow> neighbor \<Rightarrow> neighbor) \<Rightarrow> buf \<Rightarrow> decode_step" where
  "step_text field capacity marked f s =
     ([get_string field capacity marked (on_neighbor f)], enc_field (FText s),
      \<lambda>st. on_neighbor f (text_over s (field (fst st))) st)"

definition step_poe :: "u8 \<Rightarrow> decode_step" where
  "step_poe v = ([get_u8 (\<lambda>v s. (fst s, v)), \<lambda>s. Some (\<not> snd (snd s) > 1, s)], enc_field (F8 v),
                 \<lambda>s. (fst s, v))"

lemma good_steps:
  "list_all good_step xs \<Longrightarrow>
     reads (concat (map fst xs)) (concat (map (fst \<circ> snd) xs)) (fold (snd \<circ> snd) xs)"
proof (induction xs)
  case Nil
  have "fold (snd \<circ> snd) ([] :: decode_step list) = (\<lambda>s. s)" by (simp add: fun_eq_iff)
  then show ?case using reads_Nil by simp
next
  case (Cons x xs)
  then have "reads (fst x) (fst (snd x)) (snd (snd x))" and "list_all good_step xs"
    unfolding list.pred_inject good_step_def by blast+
  from reads_append [OF this(1) Cons.IH [OF this(2)]] show ?case by (simp add: comp_def)
qed

lemma good_step_u8: "(\<And>s. sized s \<Longrightarrow> sized (on_neighbor f v s)) \<Longrightarrow> good_step (step_u8 f v)"
  using get_u8_reads [of "on_neighbor f" v] by (simp add: good_step_def step_u8_def)

lemma good_step_u16: "(\<And>s. sized s \<Longrightarrow> sized (on_neighbor f v s)) \<Longrightarrow> good_step (step_u16 f v)"
  using get_u16_reads [of "on_neighbor f" v] by (simp add: good_step_def step_u16_def)

lemma good_step_text:
  assumes "length s < capacity" "capacity \<le> 128" "marked \<longleftrightarrow> s \<noteq> []"
    and "\<And>st. sized st \<Longrightarrow> length (field (fst st)) = capacity"
    and "\<And>a st. sized st \<Longrightarrow> length a = capacity \<Longrightarrow> sized (on_neighbor f a st)"
  shows "good_step (step_text field capacity marked f s)"
  using get_string_reads [of s capacity marked field "on_neighbor f"] assms
  by (simp add: good_step_def step_text_def)

lemma good_step_poe: "v \<le> 1 \<Longrightarrow> good_step (step_poe v)"
proof -
  assume v: "v \<le> 1"
  have g: "reads [get_u8 (\<lambda>v s. (fst s, v))] (enc_field (F8 v)) (\<lambda>s. (fst s, v))"
    using get_u8_reads [of "\<lambda>v s. (fst s, v)" v] by (simp add: sized_def)
  have "chain (fst (step_poe v)) (r, s) = Some (True, skip (length (enc_field (F8 v))) r, fst s, v) \<and>
        sized (fst s, v)"
    if "stands_before (enc_field (F8 v)) r" "sized s" for r s
    using readsD [OF g that] v chain_append [of "[get_u8 (\<lambda>v s. (fst s, v))]" "[\<lambda>s. Some (\<not> snd (snd s) > 1, s)]" "(r, s)"]
    by (simp add: step_poe_def not_less del: chain.simps(2)) simp
  then show ?thesis by (simp add: good_step_def reads_def step_poe_def)
qed

definition lldp_steps :: "u16 \<Rightarrow> neighbor \<Rightarrow> decode_step list" where
  "lldp_steps fl n =
     [step_u8 (\<lambda>v n. n\<lparr> nb_lldp_chassis_subtype := v \<rparr>) (nb_lldp_chassis_subtype n),
      step_u8 (\<lambda>v n. n\<lparr> nb_lldp_port_subtype := v \<rparr>) (nb_lldp_port_subtype n),
      step_u16 (\<lambda>v n. n\<lparr> nb_ttl := v \<rparr>) (nb_ttl n),
      step_u16 (\<lambda>v n. n\<lparr> nb_capabilities := v \<rparr>) (nb_capabilities n),
      step_u16 (\<lambda>v n. n\<lparr> nb_enabled_capabilities := v \<rparr>) (nb_enabled_capabilities n),
      step_u16 (\<lambda>v n. n\<lparr> nb_vlan_id := v \<rparr>) (nb_vlan_id n),
      step_u16 (\<lambda>v n. n\<lparr> nb_pvid := v \<rparr>) (nb_pvid n),
      step_u16 (\<lambda>v n. n\<lparr> nb_network_policy_vlan := v \<rparr>) (nb_network_policy_vlan n),
      step_u8 (\<lambda>v n. n\<lparr> nb_poe_power_pair := v \<rparr>) (nb_poe_power_pair n),
      step_u8 (\<lambda>v n. n\<lparr> nb_poe_power_class := v \<rparr>) (nb_poe_power_class n),
      step_u8 (\<lambda>v n. n\<lparr> nb_poe_type_source_priority := v \<rparr>) (nb_poe_type_source_priority n),
      step_u16 (\<lambda>v n. n\<lparr> nb_poe_requested_power := v \<rparr>) (nb_poe_requested_power n),
      step_u16 (\<lambda>v n. n\<lparr> nb_poe_allocated_power := v \<rparr>) (nb_poe_allocated_power n),
      step_u16 (\<lambda>v n. n\<lparr> nb_poe_power_watts := v \<rparr>) (nb_poe_power_watts n),
      step_u16 (\<lambda>v n. n\<lparr> nb_poe_requested_power_watts := v \<rparr>) (nb_poe_requested_power_watts n),
      step_u16 (\<lambda>v n. n\<lparr> nb_poe_allocated_power_watts := v \<rparr>) (nb_poe_allocated_power_watts n),
      step_u8 (\<lambda>v n. n\<lparr> nb_poe_power_type := v \<rparr>) (nb_poe_power_type n),
      step_u8 (\<lambda>v n. n\<lparr> nb_poe_power_source := v \<rparr>) (nb_poe_power_source n),
      step_u8 (\<lambda>v n. n\<lparr> nb_poe_power_priority := v \<rparr>) (nb_poe_power_priority n),
      step_poe (if nb_poe_supported n then 1 else 0),
      step_text nb_chassis_id 64 (flag_set fl HISTORY_FLAG_CHASSIS) (\<lambda>v n. n\<lparr> nb_chassis_id := v \<rparr>) (cstr (nb_chassis_id n)),
      step_text nb_name 64 (flag_set fl HISTORY_FLAG_NAME) (\<lambda>v n. n\<lparr> nb_name := v \<rparr>) (cstr (nb_name n)),
      step_text nb_description 128 (flag_set fl HISTORY_FLAG_DESCRIPTION) (\<lambda>v n. n\<lparr> nb_description := v \<rparr>) (cstr (nb_description n)),
      step_text nb_port 64 (flag_set fl HISTORY_FLAG_PORT) (\<lambda>v n. n\<lparr> nb_port := v \<rparr>) (cstr (nb_port n)),
      step_text nb_management_address 48 (flag_set fl HISTORY_FLAG_MANAGEMENT) (\<lambda>v n. n\<lparr> nb_management_address := v \<rparr>) (cstr (nb_management_address n)),
      step_text nb_vlan_name 64 (flag_set fl HISTORY_FLAG_VLAN_NAME_STRING) (\<lambda>v n. n\<lparr> nb_vlan_name := v \<rparr>) (cstr (nb_vlan_name n))]"

definition cdp_steps :: "u16 \<Rightarrow> neighbor \<Rightarrow> decode_step list" where
  "cdp_steps fl n =
     [step_u16 (\<lambda>v n. n\<lparr> nb_ttl := v \<rparr>) (nb_ttl n),
      step_u16 (\<lambda>v n. n\<lparr> nb_capabilities := v \<rparr>) (nb_capabilities n),
      step_text nb_name 64 (flag_set fl HISTORY_FLAG_NAME) (\<lambda>v n. n\<lparr> nb_name := v \<rparr>) (cstr (nb_name n)),
      step_text nb_port 64 (flag_set fl HISTORY_FLAG_PORT) (\<lambda>v n. n\<lparr> nb_port := v \<rparr>) (cstr (nb_port n)),
      step_text nb_management_address 48 (flag_set fl HISTORY_FLAG_MANAGEMENT) (\<lambda>v n. n\<lparr> nb_management_address := v \<rparr>) (cstr (nb_management_address n)),
      step_text nb_description 128 (flag_set fl HISTORY_FLAG_DESCRIPTION) (\<lambda>v n. n\<lparr> nb_description := v \<rparr>) (cstr (nb_description n))]"

definition eapol_steps :: "u16 \<Rightarrow> neighbor \<Rightarrow> decode_step list" where
  "eapol_steps fl n =
     [step_u8 (\<lambda>v n. n\<lparr> nb_eapol_version := v \<rparr>) (nb_eapol_version n),
      step_u8 (\<lambda>v n. n\<lparr> nb_eapol_packet_type := v \<rparr>) (nb_eapol_packet_type n),
      step_u8 (\<lambda>v n. n\<lparr> nb_eap_code := v \<rparr>) (nb_eap_code n),
      step_u8 (\<lambda>v n. n\<lparr> nb_eap_type := v \<rparr>) (nb_eap_type n),
      step_text nb_name 64 (flag_set fl HISTORY_FLAG_NAME) (\<lambda>v n. n\<lparr> nb_name := v \<rparr>) (cstr (nb_name n))]"


lemma text_present:
  assumes "cstring capacity a" "0 < capacity"
  shows "a ! 0 \<noteq> 0 \<longleftrightarrow> cstr a \<noteq> []" "length (cstr a) < capacity"
proof -
  have "a \<noteq> []" using assms by (auto simp: cstring_def)
  then show "a ! 0 \<noteq> 0 \<longleftrightarrow> cstr a \<noteq> []" using cstr_eq_Nil_iff [of a] by simp
  show "length (cstr a) < capacity" using cstr_length [OF assms(1)] .
qed

lemmas step_simps = step_u8_def step_u16_def step_text_def step_poe_def

lemma steps_cover:
  "concat (map fst (lldp_steps fl n)) = lldp_getters fl"
  "concat (map fst (cdp_steps fl n)) = cdp_getters fl"
  "concat (map fst (eapol_steps fl n)) = eapol_getters fl"
  "concat (map (fst \<circ> snd) (lldp_steps fl n)) = history_bytes 1 n"
  "concat (map (fst \<circ> snd) (cdp_steps fl n)) = history_bytes 2 n"
  "concat (map (fst \<circ> snd) (eapol_steps fl n)) = history_bytes 3 n"
  unfolding lldp_steps_def cdp_steps_def eapol_steps_def history_bytes_def history_fields_def
    lldp_getters_def cdp_getters_def eapol_getters_def
  by (simp_all add: step_simps del: enc_field.simps)

lemma steps_good:
  assumes n: "wf_neighbor n"
  shows "list_all good_step (lldp_steps (history_presence_flags n 1) n)"
    "list_all good_step (cdp_steps (history_presence_flags n 2) n)"
    "list_all good_step (eapol_steps (history_presence_flags n 3) n)"
proof -
  note tp = wf_neighbor_texts(1-6) [OF n, THEN text_present(1)] wf_neighbor_texts(1-6) [OF n, THEN text_present(2)]
  note steps = good_step_u8 good_step_u16 good_step_text good_step_poe
  show "list_all good_step (lldp_steps (history_presence_flags n 1) n)"
    unfolding lldp_steps_def list.pred_inject
    by (intro conjI TrueI steps) (simp_all add: tp presence_flags sized_def on_neighbor_def)
  show "list_all good_step (cdp_steps (history_presence_flags n 2) n)"
    unfolding cdp_steps_def list.pred_inject
    by (intro conjI TrueI steps) (simp_all add: tp presence_flags sized_def on_neighbor_def)
  show "list_all good_step (eapol_steps (history_presence_flags n 3) n)"
    unfolding eapol_steps_def list.pred_inject
    by (intro conjI TrueI steps) (simp_all add: tp presence_flags sized_def on_neighbor_def)
qed

text \<open>The texts of the blank structure are arrays of zero bytes.\<close>

lemma blank_texts:
  assumes n: "wf_neighbor n"
  shows "text_over (cstr (nb_chassis_id n)) (nb_chassis_id (history_blank p m)) = padded (nb_chassis_id n)"
    "text_over (cstr (nb_name n)) (nb_name (history_blank p m)) = padded (nb_name n)"
    "text_over (cstr (nb_description n)) (nb_description (history_blank p m)) = padded (nb_description n)"
    "text_over (cstr (nb_port n)) (nb_port (history_blank p m)) = padded (nb_port n)"
    "text_over (cstr (nb_management_address n)) (nb_management_address (history_blank p m)) =
       padded (nb_management_address n)"
    "text_over (cstr (nb_vlan_name n)) (nb_vlan_name (history_blank p m)) = padded (nb_vlan_name n)"
  using n by (simp_all only: padded_def history_blank_def neighbor_zero_def wf_neighbor_def cstring_def
      neighbor.simps)

lemma sized_blank: "sized (history_blank p m, 0)"
  by (simp add: sized_def history_blank_def neighbor_zero_def)

lemma history_reader_start:
  "stands_before bs \<lparr> pr_data = bs @ rest, pr_length = length bs, pr_position = 0 \<rparr>"
  by (simp add: stands_before_def)

lemma fold_steps:
  assumes n: "wf_neighbor n"
  shows "fold (snd \<circ> snd) (eapol_steps fl n) (history_blank 3 (nb_mac n), 0) = (history_view 3 n, 0)"
    "fold (snd \<circ> snd) (cdp_steps fl n) (history_blank 2 (nb_mac n), 0) = (history_view 2 n, 0)"
    "\<exists>n'. fold (snd \<circ> snd) (lldp_steps (history_presence_flags n 1) n) (history_blank 1 (nb_mac n), 0) =
          (n', if nb_poe_supported n then 1 else 0) \<and>
          set_lldp_presence (history_presence_flags n 1) (if nb_poe_supported n then 1 else 0) n' =
          history_view 1 n"
proof -
  show "fold (snd \<circ> snd) (eapol_steps fl n) (history_blank 3 (nb_mac n), 0) = (history_view 3 n, 0)"
    by (simp add: eapol_steps_def step_simps on_neighbor_def history_view_def blank_texts [OF n])
  show "fold (snd \<circ> snd) (cdp_steps fl n) (history_blank 2 (nb_mac n), 0) = (history_view 2 n, 0)"
    by (simp add: cdp_steps_def step_simps on_neighbor_def history_view_def blank_texts [OF n])
  show "\<exists>n'. fold (snd \<circ> snd) (lldp_steps (history_presence_flags n 1) n) (history_blank 1 (nb_mac n), 0) =
          (n', if nb_poe_supported n then 1 else 0) \<and>
          set_lldp_presence (history_presence_flags n 1) (if nb_poe_supported n then 1 else 0) n' =
          history_view 1 n"
    by (simp add: lldp_steps_def step_simps on_neighbor_def history_view_def blank_texts [OF n]
        set_lldp_presence_def presence_flags)
qed

lemma history_bytes_u16: "wf_neighbor n \<Longrightarrow> unat (of_nat (length (history_bytes p n)) :: u16) = length (history_bytes p n)"
  using history_bytes_length [of n p]
  by (intro unat_of_nat_u16) (auto simp: history_payload_max_def split: if_splits)

lemma history_decode_eq:
  assumes n: "wf_neighbor n" and p: "history_protocol_valid p"
  shows "history_decode_payload p (history_presence_flags n p) (history_bytes p n @ rest)
           (of_nat (length (history_bytes p n))) (nb_mac n) = Some (True, history_view p n)"
proof -
  let ?r = "\<lambda>p. \<lparr> pr_data = history_bytes p n @ rest, pr_length = length (history_bytes p n), pr_position = 0 \<rparr>"
  have mac: "rd_bytes (nb_mac n) 0 6 = Some (nb_mac n)" using n by (simp add: rd_bytes_def wf_neighbor_def)
  note good = steps_good [OF n, THEN good_steps, unfolded steps_cover]
  note run = good [THEN readsD, OF history_reader_start sized_blank]
  have pos: "pr_position (skip (length (history_bytes p n)) (?r p)) = length (history_bytes p n)"
    "pr_length (skip (length (history_bytes p n)) (?r p)) = length (history_bytes p n)" for p
    by simp_all
  note unf = history_decode_payload_def Let_def mac history_bytes_u16 [OF n] bind.bind_lunit
    history_blank_def [symmetric]
  consider "p = 1" | "p = 2" | "p = 3" using p history_valid_cases by blast
  then show ?thesis
  proof cases
    case 1
    have eq: "nb_poe_supported (history_view 1 n) = flag_set (history_presence_flags n 1) HISTORY_FLAG_POE_SUPPORTED"
      by (simp add: presence_flags history_view_def)
    from fold_steps(3) [OF n] obtain n' where
      "fold (snd \<circ> snd) (lldp_steps (history_presence_flags n 1) n) (history_blank 1 (nb_mac n), 0) =
       (n', if nb_poe_supported n then 1 else 0)"
      "set_lldp_presence (history_presence_flags n 1) (if nb_poe_supported n then 1 else 0) n' = history_view 1 n"
      by blast
    then show ?thesis
      unfolding 1 unf using conjunct1 [OF run(1)] eq by (simp add: unf(1))
  next
    case 2
    show ?thesis
      unfolding 2 unf using conjunct1 [OF run(2)] fold_steps(2) [OF n] by simp
  next
    case 3
    show ?thesis
      unfolding 3 unf using conjunct1 [OF run(3)] fold_steps(1) [OF n] by simp
  qed
qed

section \<open>Decoding arbitrary bytes\<close>

definition texts_ok :: "neighbor \<times> u8 \<Rightarrow> bool" where
  "texts_ok s \<longleftrightarrow> wf_neighbor (fst s) \<and> nb_occupied (fst s)"

definition same_owner :: "neighbor \<times> u8 \<Rightarrow> neighbor \<times> u8 \<Rightarrow> bool" where
  "same_owner s s' \<longleftrightarrow> nb_key (fst s') = nb_key (fst s)"

definition in_block :: "payload_reader \<Rightarrow> bool" where
  "in_block r \<longleftrightarrow> pr_position r \<le> pr_length r \<and> pr_length r \<le> length (pr_data r)"

definition lengthen :: "nat \<Rightarrow> payload_reader \<Rightarrow> payload_reader" where
  "lengthen k r = r\<lparr> pr_length := k \<rparr>"

text \<open>
  \<open>tame gs\<close>: on any bytes the chain stays inside the block, keeps the structure well-formed, and if it
  succeeds it does the same on a longer block.
\<close>

definition tame :: "(decoder \<Rightarrow> (bool \<times> decoder) option) list \<Rightarrow> bool" where
  "tame gs \<longleftrightarrow>
     (\<forall>r s. in_block r \<longrightarrow> texts_ok s \<longrightarrow>
        (\<exists>ok r' s'. chain gs (r, s) = Some (ok, r', s') \<and> in_block r' \<and> texts_ok s' \<and> same_owner s s' \<and>
           pr_data r' = pr_data r \<and> pr_length r' = pr_length r \<and>
           (\<forall>k. ok \<and> pr_length r \<le> k \<and> k \<le> length (pr_data r) \<longrightarrow>
                chain gs (lengthen k r, s) = Some (True, lengthen k r', s'))))"

lemma tameD:
  assumes "tame gs" "in_block r" "texts_ok s"
  obtains ok r' s' where "chain gs (r, s) = Some (ok, r', s')" "in_block r'" "texts_ok s'" "same_owner s s'"
    "pr_data r' = pr_data r" "pr_length r' = pr_length r"
    "\<And>k. ok \<Longrightarrow> pr_length r \<le> k \<Longrightarrow> k \<le> length (pr_data r) \<Longrightarrow>
       chain gs (lengthen k r, s) = Some (True, lengthen k r', s')"
  using assms unfolding tame_def by blast

lemma tame_Nil: "tame []"
  unfolding tame_def by (intro allI impI exI [of _ True] exI) (auto simp: same_owner_def)

lemma tame_append:
  assumes g: "tame gs" and h: "tame hs"
  shows "tame (gs @ hs)"
  unfolding tame_def
proof (intro allI impI)
  fix r s
  assume rs: "in_block r" "texts_ok s"
  from tameD [OF g rs] obtain ok r1 s1 where 1: "chain gs (r, s) = Some (ok, r1, s1)" "in_block r1" "texts_ok s1"
    "same_owner s s1" "pr_data r1 = pr_data r" "pr_length r1 = pr_length r"
    "\<And>k. ok \<Longrightarrow> pr_length r \<le> k \<Longrightarrow> k \<le> length (pr_data r) \<Longrightarrow>
       chain gs (lengthen k r, s) = Some (True, lengthen k r1, s1)"
    by blast
  show "\<exists>ok r' s'. chain (gs @ hs) (r, s) = Some (ok, r', s') \<and> in_block r' \<and> texts_ok s' \<and> same_owner s s' \<and>
           pr_data r' = pr_data r \<and> pr_length r' = pr_length r \<and>
           (\<forall>k. ok \<and> pr_length r \<le> k \<and> k \<le> length (pr_data r) \<longrightarrow>
                chain (gs @ hs) (lengthen k r, s) = Some (True, lengthen k r', s'))"
  proof (cases ok)
    case False
    then show ?thesis
      using 1 by (intro exI [of _ False] exI [of _ r1] exI [of _ s1]) (simp add: chain_append)
  next
    case True
    from tameD [OF h 1(2,3)] obtain ok' r2 s2 where 2: "chain hs (r1, s1) = Some (ok', r2, s2)" "in_block r2"
      "texts_ok s2" "same_owner s1 s2" "pr_data r2 = pr_data r1" "pr_length r2 = pr_length r1"
      "\<And>k. ok' \<Longrightarrow> pr_length r1 \<le> k \<Longrightarrow> k \<le> length (pr_data r1) \<Longrightarrow>
         chain hs (lengthen k r1, s1) = Some (True, lengthen k r2, s2)"
      by blast
    show ?thesis
      using True 1 2 by (simp add: chain_append same_owner_def)
  qed
qed

lemma tame_Cons: "tame [g] \<Longrightarrow> tame gs \<Longrightarrow> tame (g # gs)"
  using tame_append [of "[g]" gs] by simp

lemma tame_list: "(\<And>g. g \<in> set gs \<Longrightarrow> tame [g]) \<Longrightarrow> tame gs"
  by (induction gs) (simp_all add: tame_Nil tame_Cons)

lemma tame_u8:
  assumes "\<And>v s. texts_ok s \<Longrightarrow> texts_ok (u v s) \<and> same_owner s (u v s)"
  shows "tame [get_u8 u]"
  unfolding tame_def
proof (intro allI impI)
  fix r s
  assume r: "in_block r" and s: "texts_ok s"
  show "\<exists>ok r' s'. chain [get_u8 u] (r, s) = Some (ok, r', s') \<and> in_block r' \<and> texts_ok s' \<and> same_owner s s' \<and>
           pr_data r' = pr_data r \<and> pr_length r' = pr_length r \<and>
           (\<forall>k. ok \<and> pr_length r \<le> k \<and> k \<le> length (pr_data r) \<longrightarrow>
                chain [get_u8 u] (lengthen k r, s) = Some (True, lengthen k r', s'))"
    using r s assms [OF s]
    by (cases "pr_position r < pr_length r")
      (auto simp: get_u8_def payload_get_u8_def rd_in in_block_def same_owner_def lengthen_def)
qed

lemma tame_u16:
  assumes "\<And>v s. texts_ok s \<Longrightarrow> texts_ok (u v s) \<and> same_owner s (u v s)"
  shows "tame [get_u16 u]"
  unfolding tame_def
proof (intro allI impI)
  fix r s
  assume r: "in_block r" and s: "texts_ok s"
  show "\<exists>ok r' s'. chain [get_u16 u] (r, s) = Some (ok, r', s') \<and> in_block r' \<and> texts_ok s' \<and> same_owner s s' \<and>
           pr_data r' = pr_data r \<and> pr_length r' = pr_length r \<and>
           (\<forall>k. ok \<and> pr_length r \<le> k \<and> k \<le> length (pr_data r) \<longrightarrow>
                chain [get_u16 u] (lengthen k r, s) = Some (True, lengthen k r', s'))"
  proof (cases "pr_length r - pr_position r < 2")
    case True
    then show ?thesis
      using r s by (intro exI [of _ False] exI [of _ r] exI [of _ s])
        (simp add: get_u16_def payload_get_u16_def same_owner_def)
  next
    case False
    then show ?thesis
      using r s assms [OF s]
      by (intro exI [of _ True] exI [of _ "r\<lparr> pr_position := pr_position r + 2 \<rparr>"]
          exI [of _ "u (be16 (pr_data r ! (pr_position r + 1)) (pr_data r ! pr_position r)) s"])
        (auto simp: get_u16_def payload_get_u16_def history_read_u16_def rd_in in_block_def same_owner_def
          lengthen_def)
  qed
qed

lemma tame_string:
  assumes c: "0 < capacity" and f: "\<And>st. texts_ok st \<Longrightarrow> cstring capacity (field (fst st))"
    and upd: "\<And>a st. texts_ok st \<Longrightarrow> cstring capacity a \<Longrightarrow> texts_ok (u a st) \<and> same_owner st (u a st)"
  shows "tame [get_string field capacity marked u]"
  unfolding tame_def
proof (intro allI impI)
  fix r s
  assume r: "in_block r" and s: "texts_ok s"
  let ?p = "pr_position r" and ?d = "pr_data r" and ?a = "field (fst s)"
  let ?g = "chain [get_string field capacity marked u]"
  let ?goal = "\<exists>ok r' s'. ?g (r, s) = Some (ok, r', s') \<and> in_block r' \<and> texts_ok s' \<and>
           same_owner s s' \<and> pr_data r' = pr_data r \<and> pr_length r' = pr_length r \<and>
           (\<forall>k. ok \<and> pr_length r \<le> k \<and> k \<le> length (pr_data r) \<longrightarrow>
                ?g (lengthen k r, s) = Some (True, lengthen k r', s'))"
  have refuse: "?goal" if "?g (r, s) = Some (False, r', s)" "r' = r \<or> r' = skip 1 r" "in_block r'" for r'
    using that s by (intro exI [of _ False] exI [of _ r'] exI [of _ s]) (auto simp: same_owner_def)
  show ?goal
  proof (cases "?p < pr_length r")
    case False
    have "?g (r, s) = Some (False, r, s)"
      using False by (simp add: get_string_def payload_get_string_def payload_get_u8_def)
    then show ?thesis using refuse r by blast
  next
    case in_r: True
    define l where "l = ?d ! ?p"
    have u8: "payload_get_u8 (lengthen k r) = Some (Some l, skip 1 (lengthen k r))" if "pr_length r \<le> k" for k
      using in_r r that by (simp add: payload_get_u8_def rd_in in_block_def skip_def lengthen_def l_def)
    have same: "lengthen (pr_length r) r = r" by (simp add: lengthen_def)
    have in1: "in_block (skip 1 r)" using in_r r by (simp add: in_block_def)
    show ?thesis
    proof (cases "unat l \<ge> capacity \<or> pr_length r - (?p + 1) < unat l \<or> marked \<noteq> (l \<noteq> 0)")
      case True
      then have "?g (r, s) = Some (False, skip 1 r, s)"
        using u8 [OF order_refl] same by (simp add: get_string_def payload_get_string_def)
      then show ?thesis using refuse in1 by blast
    next
      case False
      let ?s = "take (unat l) (drop (?p + 1) ?d)"
      have la: "length ?a = capacity" using f [OF s] by (simp add: cstring_def)
      have ls: "length ?s = unat l" "unat l < capacity" "?p + 1 + unat l \<le> pr_length r"
        "pr_length r \<le> length ?d"
        using False in_r r by (auto simp: in_block_def)
      have rd: "rd_bytes ?d (?p + 1) (unat l) = Some ?s" using ls by (simp add: rd_bytes_def)
      have w1: "wr_bytes ?a 0 ?s = Some (?s @ drop (unat l) ?a)" using ls la by (simp add: wr_bytes_def)
      have w2: "wr_bytes (?s @ drop (unat l) ?a) (unat l) [0] = Some (text_over ?s ?a)"
        using ls la by (subst wr_bytes_at) (simp_all add: text_over_def)
      have run: "?g (lengthen k r, s) = Some (True, skip (1 + unat l) (lengthen k r), u (text_over ?s ?a) s)"
        if "pr_length r \<le> k" for k
      proof -
        have "\<not> k - Suc ?p < unat l" using ls that by simp
        then show ?thesis
          using False u8 [OF that] rd w1 w2
          by (simp add: get_string_def payload_get_string_def) (simp add: lengthen_def skip_def)
      qed
      have ov: "cstring capacity (text_over ?s ?a)"
        using ls la text_over_length [of ?s ?a] by (simp add: cstring_def text_over_def)
      show ?thesis
      proof (intro exI [of _ True] exI [of _ "skip (1 + unat l) r"] exI [of _ "u (text_over ?s ?a) s"] conjI allI impI)
        show "?g (r, s) = Some (True, skip (1 + unat l) r, u (text_over ?s ?a) s)"
          using run [OF order_refl] same by simp
        show "in_block (skip (1 + unat l) r)" using ls by (simp add: in_block_def)
        show "?g (lengthen k r, s) = Some (True, lengthen k (skip (1 + unat l) r), u (text_over ?s ?a) s)"
          if "True \<and> pr_length r \<le> k \<and> k \<le> length (pr_data r)" for k
          using run [of k] that by (simp add: lengthen_def skip_def)
      qed (use upd [OF s ov] in simp_all)
    qed
  qed
qed

lemma tame_poe: "tame [\<lambda>s. Some (\<not> snd (snd s) > 1, s)]"
  unfolding tame_def by (auto simp: same_owner_def)

text \<open>Every store of a getter is into another field than the address and the sources.\<close>

lemma on_neighbor_keeps:
  assumes "\<And>n. nb_key (f v n) = nb_key n" "\<And>n. nb_occupied (f v n) = nb_occupied n"
    and "\<And>n. wf_neighbor n \<Longrightarrow> wf_neighbor (f v n)" and "texts_ok s"
  shows "texts_ok (on_neighbor f v s) \<and> same_owner s (on_neighbor f v s)"
  using assms by (simp add: texts_ok_def same_owner_def on_neighbor_def)

lemma texts_ok_cstring:
  assumes "texts_ok st"
  shows "cstring 64 (nb_chassis_id (fst st))" "cstring 64 (nb_name (fst st))"
    "cstring 128 (nb_description (fst st))" "cstring 64 (nb_port (fst st))"
    "cstring 48 (nb_management_address (fst st))" "cstring 64 (nb_vlan_name (fst st))"
  using assms by (simp_all add: texts_ok_def wf_neighbor_def)

definition harmless :: "('a \<Rightarrow> bool) \<Rightarrow> ('a \<Rightarrow> neighbor \<Rightarrow> neighbor) \<Rightarrow> bool" where
  "harmless P f \<longleftrightarrow>
     (\<forall>v n. nb_key (f v n) = nb_key n \<and> nb_occupied (f v n) = nb_occupied n \<and>
            (P v \<longrightarrow> wf_neighbor n \<longrightarrow> wf_neighbor (f v n)))"

lemma harmless_tame:
  "harmless (\<lambda>_. True) f \<Longrightarrow> tame [get_u8 (on_neighbor f)]"
  "harmless (\<lambda>_. True) g \<Longrightarrow> tame [get_u16 (on_neighbor g)]"
  by (rule tame_u8 tame_u16, rule on_neighbor_keeps; simp add: harmless_def)+

lemma harmless_tame_text:
  assumes "harmless (cstring capacity) f" "0 < capacity"
    and "\<And>st. texts_ok st \<Longrightarrow> cstring capacity (field (fst st))"
  shows "tame [get_string field capacity marked (on_neighbor f)]"
  using assms by (intro tame_string on_neighbor_keeps) (auto simp: harmless_def)

lemma harmless_stores:
  "harmless (\<lambda>_. True) (\<lambda>v n. n\<lparr> nb_lldp_chassis_subtype := v \<rparr>)"
  "harmless (\<lambda>_. True) (\<lambda>v n. n\<lparr> nb_lldp_port_subtype := v \<rparr>)"
  "harmless (\<lambda>_. True) (\<lambda>v n. n\<lparr> nb_poe_power_pair := v \<rparr>)"
  "harmless (\<lambda>_. True) (\<lambda>v n. n\<lparr> nb_poe_power_class := v \<rparr>)"
  "harmless (\<lambda>_. True) (\<lambda>v n. n\<lparr> nb_poe_type_source_priority := v \<rparr>)"
  "harmless (\<lambda>_. True) (\<lambda>v n. n\<lparr> nb_poe_power_type := v \<rparr>)"
  "harmless (\<lambda>_. True) (\<lambda>v n. n\<lparr> nb_poe_power_source := v \<rparr>)"
  "harmless (\<lambda>_. True) (\<lambda>v n. n\<lparr> nb_poe_power_priority := v \<rparr>)"
  "harmless (\<lambda>_. True) (\<lambda>v n. n\<lparr> nb_eapol_version := v \<rparr>)"
  "harmless (\<lambda>_. True) (\<lambda>v n. n\<lparr> nb_eapol_packet_type := v \<rparr>)"
  "harmless (\<lambda>_. True) (\<lambda>v n. n\<lparr> nb_eap_code := v \<rparr>)"
  "harmless (\<lambda>_. True) (\<lambda>v n. n\<lparr> nb_eap_type := v \<rparr>)"
  "harmless (\<lambda>_. True) (\<lambda>v n. n\<lparr> nb_ttl := v \<rparr>)"
  "harmless (\<lambda>_. True) (\<lambda>v n. n\<lparr> nb_capabilities := v \<rparr>)"
  "harmless (\<lambda>_. True) (\<lambda>v n. n\<lparr> nb_enabled_capabilities := v \<rparr>)"
  "harmless (\<lambda>_. True) (\<lambda>v n. n\<lparr> nb_vlan_id := v \<rparr>)"
  "harmless (\<lambda>_. True) (\<lambda>v n. n\<lparr> nb_pvid := v \<rparr>)"
  "harmless (\<lambda>_. True) (\<lambda>v n. n\<lparr> nb_network_policy_vlan := v \<rparr>)"
  "harmless (\<lambda>_. True) (\<lambda>v n. n\<lparr> nb_poe_requested_power := v \<rparr>)"
  "harmless (\<lambda>_. True) (\<lambda>v n. n\<lparr> nb_poe_allocated_power := v \<rparr>)"
  "harmless (\<lambda>_. True) (\<lambda>v n. n\<lparr> nb_poe_power_watts := v \<rparr>)"
  "harmless (\<lambda>_. True) (\<lambda>v n. n\<lparr> nb_poe_requested_power_watts := v \<rparr>)"
  "harmless (\<lambda>_. True) (\<lambda>v n. n\<lparr> nb_poe_allocated_power_watts := v \<rparr>)"
  "harmless (cstring 64) (\<lambda>v n. n\<lparr> nb_chassis_id := v \<rparr>)"
  "harmless (cstring 64) (\<lambda>v n. n\<lparr> nb_name := v \<rparr>)"
  "harmless (cstring 128) (\<lambda>v n. n\<lparr> nb_description := v \<rparr>)"
  "harmless (cstring 64) (\<lambda>v n. n\<lparr> nb_port := v \<rparr>)"
  "harmless (cstring 48) (\<lambda>v n. n\<lparr> nb_management_address := v \<rparr>)"
  "harmless (cstring 64) (\<lambda>v n. n\<lparr> nb_vlan_name := v \<rparr>)"
  by (simp_all add: harmless_def nb_key_def wf_neighbor_def)

lemma tame_poe_local: "tame [get_u8 (\<lambda>v s. (fst s, v))]"
  by (rule tame_u8) (simp add: texts_ok_def same_owner_def)

lemma getters_tame: "tame (lldp_getters fl)" "tame (cdp_getters fl)" "tame (eapol_getters fl)"
proof -
  note simps = harmless_tame harmless_tame_text harmless_stores texts_ok_cstring tame_poe tame_poe_local tame_Nil
  show "tame (lldp_getters fl)"
    unfolding lldp_getters_def by (rule tame_list) (auto simp: simps)
  show "tame (cdp_getters fl)"
    unfolding cdp_getters_def by (rule tame_list) (auto simp: simps)
  show "tame (eapol_getters fl)"
    unfolding eapol_getters_def by (rule tame_list) (auto simp: simps)
qed

lemma tame_exact:
  assumes g: "tame gs" and r: "in_block r" and s: "texts_ok s"
    and 1: "chain gs (r, s) = Some (True, r1, s1)" "pr_position r1 = pr_length r1"
    and k: "k \<noteq> pr_length r" "pr_position r \<le> k" "k \<le> length (pr_data r)"
    and 2: "chain gs (lengthen k r, s) = Some (True, r2, s2)"
  shows "pr_position r2 \<noteq> pr_length r2"
proof -
  from tameD [OF g r s] 1(1) have l1: "pr_length r1 = pr_length r"
    and ext: "\<And>k. pr_length r \<le> k \<Longrightarrow> k \<le> length (pr_data r) \<Longrightarrow>
       chain gs (lengthen k r, s) = Some (True, lengthen k r1, s1)"
    by fastforce+
  have r': "in_block (lengthen k r)" using k r by (simp add: in_block_def lengthen_def)
  show ?thesis
  proof (cases "pr_length r \<le> k")
    case True
    then show ?thesis using ext [OF True k(3)] 2 k(1) 1(2) l1 by (auto simp: lengthen_def)
  next
    case False
    from tameD [OF g r' s] 2 have l2: "pr_length r2 = k"
      and ext2: "\<And>j. k \<le> j \<Longrightarrow> j \<le> length (pr_data r) \<Longrightarrow>
         chain gs (lengthen j (lengthen k r), s) = Some (True, lengthen j r2, s2)"
      by (fastforce simp: lengthen_def)+
    have "lengthen (pr_length r) (lengthen k r) = r" by (simp add: lengthen_def)
    moreover have "pr_length r \<le> length (pr_data r)" using r by (simp add: in_block_def)
    ultimately have "chain gs (r, s) = Some (True, lengthen (pr_length r) r2, s2)"
      using ext2 [of "pr_length r"] False by simp
    then have "pr_position r1 = pr_position r2" using 1(1) by (simp add: lengthen_def)
    then show ?thesis using 1(2) l1 l2 k(1) by simp
  qed
qed

lemma presence_keeps:
  "nb_key (set_lldp_presence fl v n) = nb_key n" "nb_occupied (set_lldp_presence fl v n) = nb_occupied n"
  "wf_neighbor (set_lldp_presence fl v n) = wf_neighbor n"
  by (simp_all add: set_lldp_presence_def nb_key_def wf_neighbor_def)

lemma texts_ok_blank: "length mac = 6 \<Longrightarrow> texts_ok (history_blank p mac, 0)"
  by (simp add: texts_ok_def history_blank_def neighbor_zero_def wf_neighbor_def)

text \<open>The getters of a protocol, and what happens to the structure after them.\<close>

definition history_getters :: "history_protocol \<Rightarrow> u16 \<Rightarrow> (decoder \<Rightarrow> (bool \<times> decoder) option) list" where
  "history_getters p fl = (if p = 1 then lldp_getters fl else if p = 2 then cdp_getters fl else eapol_getters fl)"

definition history_close :: "history_protocol \<Rightarrow> u16 \<Rightarrow> bool \<times> decoder \<Rightarrow> bool \<times> neighbor" where
  "history_close p fl x =
     (case x of (ok, r, n, v) \<Rightarrow>
        if p = 1 \<and> ok
        then (v \<noteq> 0 \<longleftrightarrow> flag_set fl HISTORY_FLAG_POE_SUPPORTED, set_lldp_presence fl v n) else (ok, n))"

lemma history_decode_chain:
  assumes p: "history_protocol_valid p" and m: "length mac = 6"
  shows "history_decode_payload p fl payload len mac =
           map_option (\<lambda>x. (fst (history_close p fl x) \<and> pr_position (fst (snd x)) = pr_length (fst (snd x)),
                             snd (history_close p fl x)))
             (chain (history_getters p fl)
                (\<lparr> pr_data = payload, pr_length = unat len, pr_position = 0 \<rparr>, history_blank p mac, 0))"
proof -
  have mac: "rd_bytes mac 0 6 = Some mac" using m by (simp add: rd_bytes_def)
  let ?c = "\<lambda>p. chain (history_getters p fl)
              (\<lparr> pr_data = payload, pr_length = unat len, pr_position = 0 \<rparr>, history_blank p mac, 0)"
  note unf = history_decode_payload_def Let_def mac bind.bind_lunit history_blank_def [symmetric]
  consider "p = 1" | "p = 2" | "p = 3" using p history_valid_cases by blast
  then show ?thesis
  proof cases
    case 1
    have set: "nb_poe_supported (set_lldp_presence fl v n) = (v \<noteq> 0)" for v n
      by (simp add: set_lldp_presence_def)
    show ?thesis
      unfolding 1 unf
      by (cases "?c 1") (auto simp: history_getters_def history_close_def set split: prod.splits)
  next
    case 2
    show ?thesis
      unfolding 2 unf
      by (cases "?c 2") (auto simp: history_getters_def history_close_def split: prod.splits)
  next
    case 3
    show ?thesis
      unfolding 3 unf
      by (cases "?c 3") (auto simp: history_getters_def history_close_def split: prod.splits)
  qed
qed

lemma history_getters_tame: "tame (history_getters p fl)"
  using getters_tame by (simp add: history_getters_def)

lemma history_decode_runs:
  assumes p: "history_protocol_valid p" and m: "length mac = 6" and len: "unat len \<le> length payload"
  obtains ok r n v where
    "chain (history_getters p fl)
       (\<lparr> pr_data = payload, pr_length = unat len, pr_position = 0 \<rparr>, history_blank p mac, 0) = Some (ok, r, n, v)"
    "wf_neighbor (snd (history_close p fl (ok, r, n, v)))" "nb_occupied (snd (history_close p fl (ok, r, n, v)))"
    "nb_key (snd (history_close p fl (ok, r, n, v))) = (mac, history_source_for_protocol p)"
proof -
  let ?r = "\<lparr> pr_data = payload, pr_length = unat len, pr_position = 0 \<rparr>"
  have "in_block ?r" using len by (simp add: in_block_def)
  from tameD [OF history_getters_tame this texts_ok_blank [OF m]]
  obtain ok r s where c: "chain (history_getters p fl) (?r, history_blank p mac, 0) = Some (ok, r, s)"
    "texts_ok s" "same_owner (history_blank p mac, 0) s" by metis
  obtain n v where s: "s = (n, v)" by fastforce
  have "nb_key (history_blank p mac) = (mac, history_source_for_protocol p)"
    by (simp add: history_blank_def nb_key_def)
  then show ?thesis
    using that [of ok r n v] c by (simp add: s texts_ok_def same_owner_def history_close_def presence_keeps)
qed

section \<open>Valid flags\<close>

text \<open>A neighbour has no more texts than its protocol stores.\<close>

definition texts_of :: "history_protocol \<Rightarrow> neighbor \<Rightarrow> bool" where
  "texts_of p n \<longleftrightarrow>
     p = 3 \<longrightarrow> nb_port n ! 0 = 0 \<and> nb_management_address n ! 0 = 0 \<and> nb_description n ! 0 = 0"

lemma word_and_not_zero: "(\<And>j. bit a j \<Longrightarrow> bit b j) \<Longrightarrow> a AND NOT b = (0 :: u16)"
  by (rule bit_word_eqI) (auto simp: bit_simps)

lemma bit_lldp_mask: "j < 13 \<Longrightarrow> bit HISTORY_LLDP_FLAGS_MASK j"
proof -
  assume "j < 13"
  have m: "HISTORY_LLDP_FLAGS_MASK = mask 13"
    by (simp add: HISTORY_LLDP_FLAGS_MASK_def mask_eq_exp_minus_1)
  show ?thesis unfolding m using \<open>j < 13\<close> by (simp add: bit_mask_iff)
qed

lemma presence_flags_valid:
  assumes "history_protocol_valid p" "texts_of p n"
  shows "history_flags_valid p (history_presence_flags n p)"
proof -
  note bits = history_presence_flags_def Let_def flag_bits
  have m2: "bit HISTORY_CDP_FLAGS_MASK j" if "j = 0 \<or> j = 1 \<or> j = 2 \<or> j = 4" for j
    using that by (auto simp: HISTORY_CDP_FLAGS_MASK_def history_flags bit_simps)
  have m3: "bit HISTORY_EAPOL_FLAGS_MASK 0" by (simp add: HISTORY_EAPOL_FLAGS_MASK_def HISTORY_FLAG_NAME_def)
  have nz: "HISTORY_LLDP_FLAGS_MASK \<noteq> 0" "HISTORY_CDP_FLAGS_MASK \<noteq> 0" "HISTORY_EAPOL_FLAGS_MASK \<noteq> 0"
    using bit_lldp_mask [of 0] m2 [of 0] m3 by auto
  consider "p = 1" | "p = 2" | "p = 3" using assms(1) history_valid_cases by blast
  then show ?thesis
  proof cases
    case 1
    have "history_presence_flags n 1 AND NOT HISTORY_LLDP_FLAGS_MASK = 0"
      by (rule word_and_not_zero, rule bit_lldp_mask) (auto simp: bits)
    then show ?thesis using nz by (simp add: 1 history_flags_valid_def)
  next
    case 2
    have "history_presence_flags n 2 AND NOT HISTORY_CDP_FLAGS_MASK = 0"
      by (rule word_and_not_zero, rule m2) (auto simp: bits)
    then show ?thesis using nz by (simp add: 2 history_flags_valid_def)
  next
    case 3
    have "history_presence_flags n 3 AND NOT HISTORY_EAPOL_FLAGS_MASK = 0"
      by (rule word_and_not_zero) (use assms(2) m3 3 in \<open>auto simp: bits texts_of_def\<close>)
    then show ?thesis using nz by (simp add: 3 history_flags_valid_def)
  qed
qed

section \<open>Properties\<close>

text \<open>
  C21. A stored neighbour comes back. Encoding a well-formed neighbour under a valid protocol stays
  inside the payload block, never fails, and takes at most 463, 308 or 68 bytes; its flags are valid for
  the protocol when it has only the texts of the protocol. Decoding the result yields every field
  of the protocol unchanged, each text equal up to its terminator, with the same address and the
  protocol as the only source.
\<close>

theorem history_payload_roundtrip:
  assumes "wf_neighbor n" "history_protocol_valid p" "length payload = HISTORY_PAYLOAD_MAX"
  shows "\<exists>payload' len fl. history_encode_payload p n payload = Some (True, payload', len, fl) \<and>
           length payload' = HISTORY_PAYLOAD_MAX \<and>
           unat len \<le> (if p = 1 then 463 else if p = 2 then 308 else 68) \<and>
           (texts_of p n \<longrightarrow> history_flags_valid p fl) \<and>
           history_decode_payload p fl payload' len (nb_mac n) = Some (True, history_view p n)"
proof -
  have max: "length (history_bytes p n) \<le> (if p = 1 then 463 else if p = 2 then 308 else 68)"
    using history_bytes_length [OF assms(1), of p]
    by (simp only: history_payload_max_def HISTORY_LLDP_PAYLOAD_MAX_def HISTORY_CDP_PAYLOAD_MAX_def
        HISTORY_EAPOL_PAYLOAD_MAX_def)
  then have "length (history_bytes p n) \<le> 463" by (auto split: if_splits)
  then show ?thesis
    using history_encode_eq [OF assms] history_decode_eq [OF assms(1,2)] presence_flags_valid [OF assms(2)]
      history_bytes_u16 [OF assms(1), of p] max assms(3)
    by simp
qed

text \<open>
  Whatever bytes a stored payload holds, decoding it stays inside the payload and inside the text
  arrays and returns a well-formed, occupied neighbour with the given address and the protocol as its
  source, whether it succeeds or not. A payload that is accepted is not accepted when it is cut
  short or has bytes behind it.
\<close>

theorem history_decode_total:
  assumes "history_protocol_valid p" "length mac = 6" "unat len \<le> length payload"
  shows "\<exists>ok n. history_decode_payload p fl payload len mac = Some (ok, n) \<and>
           wf_neighbor n \<and> nb_occupied n \<and> nb_mac n = mac \<and>
           nb_discovery_sources n = history_source_for_protocol p \<and>
           (ok \<longrightarrow> (\<forall>len'. len' \<noteq> len \<longrightarrow> unat len' \<le> length payload \<longrightarrow>
              (\<exists>n'. history_decode_payload p fl payload len' mac = Some (False, n'))))"
proof -
  let ?r = "\<lambda>len. \<lparr> pr_data = payload, pr_length = unat (len :: u16), pr_position = 0 \<rparr>"
  from history_decode_runs [OF assms] obtain ok r n v where
    c: "chain (history_getters p fl) (?r len, history_blank p mac, 0) = Some (ok, r, n, v)"
    and n: "wf_neighbor (snd (history_close p fl (ok, r, n, v)))" "nb_occupied (snd (history_close p fl (ok, r, n, v)))"
      "nb_key (snd (history_close p fl (ok, r, n, v))) = (mac, history_source_for_protocol p)"
    by blast
  let ?ok = "fst (history_close p fl (ok, r, n, v)) \<and> pr_position r = pr_length r"
  have d: "history_decode_payload p fl payload len mac = Some (?ok, snd (history_close p fl (ok, r, n, v)))"
    unfolding history_decode_chain [OF assms(1,2)] c by simp
  have other: "\<exists>n'. history_decode_payload p fl payload len' mac = Some (False, n')"
    if "?ok" "len' \<noteq> len" "unat len' \<le> length payload" for len'
  proof -
    from history_decode_runs [OF assms(1,2) that(3)] obtain ok' r' n' v' where
      c': "chain (history_getters p fl) (?r len', history_blank p mac, 0) = Some (ok', r', n', v')" by metis
    have ok: "ok" using that(1) by (auto simp: history_close_def split: if_splits)
    have "\<not> (ok' \<and> pr_position r' = pr_length r')"
    proof
      assume o: "ok' \<and> pr_position r' = pr_length r'"
      have "in_block (?r len)" using assms(3) by (simp add: in_block_def)
      then have "pr_position r' \<noteq> pr_length r'"
        using tame_exact [OF history_getters_tame _ texts_ok_blank [OF assms(2)], of "?r len" p fl p r "(n, v)" "unat len'" r' "(n', v')"]
          c c' o ok that by (simp add: lengthen_def word_unat_eq_iff)
      with o show False by blast
    qed
    then have "\<not> (fst (history_close p fl (ok', r', n', v')) \<and> pr_position r' = pr_length r')"
      by (auto simp: history_close_def split: if_splits)
    then show ?thesis unfolding history_decode_chain [OF assms(1,2)] c' by simp
  qed
  show ?thesis
    using d n other by (intro exI [of _ ?ok] exI [of _ "snd (history_close p fl (ok, r, n, v))"])
      (simp add: nb_key_def)
qed

lemma history_payload_roundtrip_witness:
  "\<exists>payload' len fl. history_encode_payload 1 (example_neighbor 7 1) (replicate HISTORY_PAYLOAD_MAX 0) =
           Some (True, payload', len, fl) \<and>
         history_decode_payload 1 fl payload' len (nb_mac (example_neighbor 7 1)) =
           Some (True, history_view 1 (example_neighbor 7 1))"
proof -
  have "wf_neighbor (example_neighbor 7 1)"
    by (simp add: wf_neighbor_def example_neighbor_def neighbor_zero_def)
  then show ?thesis
    using history_payload_roundtrip [of "example_neighbor 7 1" 1 "replicate HISTORY_PAYLOAD_MAX 0"]
    by (auto simp: history_valid_cases)
qed

lemma history_decode_total_witness:
  "\<exists>n. history_decode_payload 3 1 [2, 0, 2, 1, 2, 104, 105, 0] 7 [2, 0, 0, 0, 0, 6] = Some (True, n) \<and>
       wf_neighbor n \<and> (\<exists>n'. history_decode_payload 3 1 [2, 0, 2, 1, 2, 104, 105, 0] 6 [2, 0, 0, 0, 0, 6] = Some (False, n'))"
proof -
  have "fst (the (history_decode_payload 3 1 [2, 0, 2, 1, 2, 104, 105, 0] 7 [2, 0, 0, 0, 0, 6]))"
    by code_simp
  then show ?thesis
    using history_decode_total [of 3 "[2, 0, 0, 0, 0, 6]" 7 "[2, 0, 2, 1, 2, 104, 105, 0]" 1]
    by (auto simp: history_valid_cases)
qed

end
