(* ===== verification/Passive_History.thy ===== *)
theory Passive_History
  imports History_Payload
begin

text \<open>
  \<open>libraries/protocol_tools/passive_history.c\<close>, second half: the file of stored neighbours, its index
  in memory, loading, merging the live table into it and clearing it.

  The storage service is a parameter: a record of the answers it gives to each call the code makes, any
  answers unless a lemma restricts them. Each opening of the history file has a view of its own, absent
  when the opening fails: \<open>hs_file\<close> is the one for loading the index and decoding, \<open>hs_source\<close> the later one from
  which records are copied, so that what was read once may fail or differ when it is read again. In a
  view a read of \<open>n\<close> bytes at position \<open>p\<close> delivers \<open>fl_read p n\<close>, whatever these bytes are and however
  many; \<open>stored_file\<close> is the view of a file that delivers its bytes. A write to the temporary file is told
  what the file holds, the position and the data, and answers how many bytes it wrote. A rename is told what the temporary
  and the history file hold and gives its answer and what the history file is afterwards, which need not
  be either of them when it fails. Sizes stay below \<open>2^14\<close>, so they are natural numbers here.
\<close>

section \<open>The service and the index\<close>

record history_file =
  fl_size :: nat
  fl_seek :: "nat \<Rightarrow> bool"
  fl_read :: "nat \<Rightarrow> nat \<Rightarrow> buf"

definition stored_file :: "buf \<Rightarrow> history_file" where
  "stored_file bytes = \<lparr> fl_size = length bytes, fl_seek = (\<lambda>_. True),
                         fl_read = (\<lambda>p n. take n (drop p bytes)) \<rparr>"

record history_disk =
  dk_open :: bool
  dk_write :: "buf \<Rightarrow> nat \<Rightarrow> buf \<Rightarrow> nat"
  dk_seek :: bool
  dk_sync :: bool
  dk_rename :: "buf \<Rightarrow> buf ptr \<Rightarrow> bool \<times> buf ptr"

record history_storage =
  hs_file :: "history_file ptr"
  hs_source :: "history_file ptr"
  hs_disk :: history_disk

definition PASSIVE_HISTORY_MAX_RECORDS :: nat where [simp]: "PASSIVE_HISTORY_MAX_RECORDS = 32"
definition HISTORY_HEADER_SIZE :: nat where [simp]: "HISTORY_HEADER_SIZE = 20"
definition HISTORY_RECORD_HEADER_SIZE :: nat where [simp]: "HISTORY_RECORD_HEADER_SIZE = 16"
definition HISTORY_FORMAT_VERSION :: u8 where [simp]: "HISTORY_FORMAT_VERSION = 1"
definition HISTORY_RECORD_VERSION :: u8 where [simp]: "HISTORY_RECORD_VERSION = 1"
definition HISTORY_BODY_MAX :: nat where
  "HISTORY_BODY_MAX = PASSIVE_HISTORY_MAX_RECORDS * (HISTORY_RECORD_HEADER_SIZE + HISTORY_PAYLOAD_MAX)"
definition HISTORY_FILE_MAX :: nat where
  "HISTORY_FILE_MAX = HISTORY_HEADER_SIZE + HISTORY_BODY_MAX"
definition history_magic :: buf where "history_magic = [0x50, 0x53, 0x48, 0x31]"

datatype passive_history_status =
    PassiveHistoryStatusReady
  | PassiveHistoryStatusMissing
  | PassiveHistoryStatusInvalid

record history_index_entry =
  he_offset :: nat
  he_payload_length :: u16
  he_flags :: u16
  he_mac :: buf
  he_protocol :: history_protocol

text \<open>The first \<open>count\<close> entries of the array are the list \<open>ph_entries\<close>.\<close>

record passive_history =
  ph_entries :: "history_index_entry list"
  ph_scratch :: neighbor
  ph_status :: passive_history_status

section \<open>Loading\<close>

definition history_record_read ::
  "history_file \<Rightarrow> history_index_entry \<Rightarrow> neighbor \<Rightarrow> (bool \<times> neighbor) option" where
  "history_record_read file entry n =
     (let header = fl_read file (he_offset entry) HISTORY_RECORD_HEADER_SIZE in
      if \<not> fl_seek file (he_offset entry) \<or> length header \<noteq> HISTORY_RECORD_HEADER_SIZE then Some (False, n)
      else
        do { payload_length \<leftarrow> history_read_u16 header 4;
             version \<leftarrow> rd header 0; protocol \<leftarrow> rd header 1; fl \<leftarrow> history_read_u16 header 2;
             mac \<leftarrow> rd_bytes header 6 6;
             if version \<noteq> HISTORY_RECORD_VERSION \<or> protocol \<noteq> he_protocol entry \<or> fl \<noteq> he_flags entry \<or>
                payload_length \<noteq> he_payload_length entry \<or> mac \<noteq> he_mac entry \<or>
                unat payload_length > HISTORY_PAYLOAD_MAX
             then Some (False, n)
             else
               let payload = fl_read file (he_offset entry + HISTORY_RECORD_HEADER_SIZE) (unat payload_length) in
               if length payload \<noteq> unat payload_length then Some (False, n)
               else
                 do { crc \<leftarrow> history_read_u32 header 12;
                      if history_crc32 payload \<noteq> crc then Some (False, n)
                      else history_decode_payload (he_protocol entry) (he_flags entry) payload payload_length
                             (he_mac entry) } })"

definition history_key_exists :: "history_index_entry list \<Rightarrow> buf \<Rightarrow> history_protocol \<Rightarrow> bool" where
  "history_key_exists entries mac protocol \<longleftrightarrow>
     (\<exists>e\<in>set entries. he_protocol e = protocol \<and> he_mac e = mac)"

text \<open>The loop over chunks of 128 bytes: whether all could be read, and the checksum so far.\<close>

function history_body_crc :: "history_file \<Rightarrow> nat \<Rightarrow> nat \<Rightarrow> u32 \<Rightarrow> bool \<times> u32" where
  "history_body_crc file position remaining crc =
     (if remaining = 0 then (True, crc)
      else let amount = (if remaining < 128 then remaining else 128);
               chunk = fl_read file position amount
           in if length chunk \<noteq> amount then (False, crc)
              else history_body_crc file (position + amount) (remaining - amount)
                     (history_crc32_update crc chunk))"
  by pat_completeness auto
termination by (relation "measure (\<lambda>(_, _, remaining, _). remaining)") auto

declare history_body_crc.simps [simp del]

text \<open>The checks of the file header; the result is the record count and the body size.\<close>

definition history_header :: "history_file \<Rightarrow> (nat \<times> nat \<times> u32) ptr option" where
  "history_header file =
     (let header = fl_read file 0 HISTORY_HEADER_SIZE in
      if \<not> (fl_size file \<ge> HISTORY_HEADER_SIZE \<and> fl_size file \<le> HISTORY_FILE_MAX \<and>
             length header = HISTORY_HEADER_SIZE)
      then Some None
      else
        do { record_count \<leftarrow> rd header 6; body_size \<leftarrow> history_read_u32 header 8;
             magic \<leftarrow> rd_bytes header 0 4; version \<leftarrow> rd header 4; header_size \<leftarrow> rd header 5;
             zero \<leftarrow> rd header 7; first16 \<leftarrow> rd_bytes header 0 16;
             header_crc \<leftarrow> history_read_u32 header 16; body_crc \<leftarrow> history_read_u32 header 12;
             Some (if magic \<noteq> history_magic \<or> version \<noteq> HISTORY_FORMAT_VERSION \<or>
                      header_size \<noteq> of_nat HISTORY_HEADER_SIZE \<or> zero \<noteq> 0 \<or>
                      unat record_count > PASSIVE_HISTORY_MAX_RECORDS \<or> unat body_size > HISTORY_BODY_MAX \<or>
                      fl_size file \<noteq> HISTORY_HEADER_SIZE + unat body_size \<or>
                      history_crc32 first16 \<noteq> header_crc
                   then None else Some (unat record_count, unat body_size, body_crc)) })"

text \<open>The loop over records: validity, the offset behind the last record, the entries, the scratch.\<close>

fun history_load_records ::
  "history_file \<Rightarrow> nat \<Rightarrow> nat \<Rightarrow> nat \<Rightarrow> history_index_entry list \<Rightarrow> neighbor \<Rightarrow>
   (bool \<times> nat \<times> history_index_entry list \<times> neighbor) option" where
  "history_load_records file body_size 0 offset entries scratch = Some (True, offset, entries, scratch)"
| "history_load_records file body_size (Suc todo) offset entries scratch =
     (let record_header = fl_read file offset HISTORY_RECORD_HEADER_SIZE in
      if body_size - (offset - HISTORY_HEADER_SIZE) < HISTORY_RECORD_HEADER_SIZE \<or>
         \<not> fl_seek file offset \<or> length record_header \<noteq> HISTORY_RECORD_HEADER_SIZE
      then Some (False, offset, entries, scratch)
      else
        do { version \<leftarrow> rd record_header 0; protocol \<leftarrow> rd record_header 1;
             fl \<leftarrow> history_read_u16 record_header 2; payload_length \<leftarrow> history_read_u16 record_header 4;
             mac \<leftarrow> rd_bytes record_header 6 6;
             if version \<noteq> HISTORY_RECORD_VERSION \<or> \<not> history_protocol_valid protocol \<or>
                \<not> history_flags_valid protocol fl \<or> unat payload_length > HISTORY_PAYLOAD_MAX \<or>
                unat payload_length >
                  body_size - (offset - HISTORY_HEADER_SIZE) - HISTORY_RECORD_HEADER_SIZE
             then Some (False, offset, entries, scratch)
             else
               let entry = \<lparr> he_offset = offset, he_payload_length = payload_length, he_flags = fl,
                             he_mac = mac, he_protocol = protocol \<rparr> in
               if history_key_exists entries mac protocol then Some (False, offset, entries, scratch)
               else
                 do { (ok, scratch) \<leftarrow> history_record_read file entry scratch;
                      if \<not> ok then Some (False, offset, entries, scratch)
                      else history_load_records file body_size todo
                             (offset + HISTORY_RECORD_HEADER_SIZE + unat payload_length)
                             (entries @ [entry]) scratch } })"

definition history_load :: "history_file ptr \<Rightarrow> passive_history \<Rightarrow> passive_history option" where
  "history_load file history =
     (case file of
        None \<Rightarrow> Some (history\<lparr> ph_entries := [], ph_status := PassiveHistoryStatusMissing \<rparr>)
      | Some f \<Rightarrow>
          do { let invalid = \<lparr> ph_entries = [], ph_scratch = neighbor_zero,
                               ph_status = PassiveHistoryStatusInvalid \<rparr>;
               h \<leftarrow> history_header f;
               case h of
                 None \<Rightarrow> Some invalid
               | Some (record_count, body_size, stored_crc) \<Rightarrow>
                   let (ok, crc) = history_body_crc f HISTORY_HEADER_SIZE body_size 0xFFFFFFFF in
                   if \<not> ok \<or> crc XOR 0xFFFFFFFF \<noteq> stored_crc then Some invalid
                   else
                     do { (valid, offset, entries, scratch) \<leftarrow>
                            history_load_records f body_size record_count HISTORY_HEADER_SIZE []
                              (ph_scratch history);
                          Some (if valid \<and> length entries = record_count \<and>
                                   offset = HISTORY_HEADER_SIZE + body_size
                                then \<lparr> ph_entries = entries, ph_scratch = scratch,
                                       ph_status = PassiveHistoryStatusReady \<rparr>
                                else invalid) } })"

text \<open>
  The size of the object is a parameter, as the compiler lays it out; \<open>malloc\<close> delivers or not.
\<close>

definition passive_history_alloc ::
  "nat \<Rightarrow> nat \<Rightarrow> nat \<Rightarrow> bool \<Rightarrow> history_storage ptr \<Rightarrow> passive_history ptr option" where
  "passive_history_alloc size_of free_heap max_free_block malloc_ok storage =
     (case storage of
        None \<Rightarrow> Some None
      | Some s \<Rightarrow>
          if free_heap < size_of + 512 \<or> max_free_block < size_of then Some None
          else if \<not> malloc_ok then Some None
          else map_option Some
            (history_load (hs_file s)
               \<lparr> ph_entries = [], ph_scratch = neighbor_zero, ph_status = PassiveHistoryStatusReady \<rparr>))"

section \<open>Looking into the index\<close>

definition passive_history_get_status :: "passive_history ptr \<Rightarrow> passive_history_status" where
  "passive_history_get_status history =
     (case history of Some h \<Rightarrow> ph_status h | None \<Rightarrow> PassiveHistoryStatusInvalid)"

definition passive_history_count :: "passive_history ptr \<Rightarrow> history_protocol \<Rightarrow> nat" where
  "passive_history_count history filter_arg =
     (case history of
        None \<Rightarrow> 0
      | Some h \<Rightarrow> if ph_status h = PassiveHistoryStatusInvalid then 0
                  else length (filter (\<lambda>e. history_filter_matches filter_arg (he_protocol e)) (ph_entries h)))"

definition passive_history_get_key ::
  "passive_history ptr \<Rightarrow> history_protocol \<Rightarrow> nat \<Rightarrow> (buf \<times> history_protocol) ptr" where
  "passive_history_get_key history filter_arg position =
     (case history of
        None \<Rightarrow> None
      | Some h \<Rightarrow>
          if ph_status h = PassiveHistoryStatusInvalid then None
          else map_option (\<lambda>i. (he_mac (ph_entries h ! i), he_protocol (ph_entries h ! i)))
                 (match_at (\<lambda>e. history_filter_matches filter_arg (he_protocol e)) (ph_entries h) position))"

definition passive_history_decode ::
  "passive_history ptr \<Rightarrow> history_storage ptr \<Rightarrow> buf ptr \<Rightarrow> history_protocol \<Rightarrow>
   (neighbor ptr \<times> passive_history ptr) option" where
  "passive_history_decode history storage mac protocol =
     (case (history, storage, mac) of
        (Some h, Some s, Some m) \<Rightarrow>
          if ph_status h \<noteq> PassiveHistoryStatusReady then Some (None, history)
          else (case first_match (\<lambda>e. he_protocol e = protocol \<and> he_mac e = m) (ph_entries h) of
                  None \<Rightarrow> Some (None, history)
                | Some i \<Rightarrow>
                    (case hs_file s of
                       None \<Rightarrow> Some (None, history)
                     | Some f \<Rightarrow>
                         do { (ok, n) \<leftarrow> history_record_read f (ph_entries h ! i) (ph_scratch h);
                              Some (if ok then Some n else None, Some (h\<lparr> ph_scratch := n \<rparr>)) }))
      | _ \<Rightarrow> Some (None, history))"

section \<open>Writing\<close>

record history_writer =
  hw_file :: "buf ptr"
  hw_body_crc :: u32
  hw_body_size :: nat
  hw_count :: nat
  hw_ok :: bool

definition history_writer_begin :: "history_disk \<Rightarrow> history_writer" where
  "history_writer_begin disk =
     (let placeholder = replicate HISTORY_HEADER_SIZE 0;
          ok = dk_open disk \<and> dk_write disk [] 0 placeholder = length placeholder in
      \<lparr> hw_file = Some (if ok then placeholder else []), hw_body_crc = 0xFFFFFFFF,
         hw_body_size = 0, hw_count = 0, hw_ok = ok \<rparr>)"

definition history_writer_add ::
  "history_disk \<Rightarrow> history_writer \<Rightarrow> history_protocol \<Rightarrow> neighbor ptr \<Rightarrow> (bool \<times> history_writer) option" where
  "history_writer_add disk w protocol n_ptr =
     (if \<not> hw_ok w \<or> hw_count w \<ge> PASSIVE_HISTORY_MAX_RECORDS \<or> n_ptr = None \<or>
         \<not> history_protocol_valid protocol
      then Some (False, w)
      else
        do { n \<leftarrow> n_ptr; bytes \<leftarrow> hw_file w;
             (ok, payload, payload_length, fl) \<leftarrow>
               history_encode_payload protocol n (replicate HISTORY_PAYLOAD_MAX 0);
             if \<not> ok then Some (False, w)
             else
               do { payload \<leftarrow> rd_bytes payload 0 (unat payload_length);
                    h \<leftarrow> wr_bytes (replicate HISTORY_RECORD_HEADER_SIZE 0) 0 [HISTORY_RECORD_VERSION];
                    h \<leftarrow> wr_bytes h 1 [protocol];
                    h \<leftarrow> history_write_u16 h 2 fl;
                    h \<leftarrow> history_write_u16 h 4 payload_length;
                    mac \<leftarrow> rd_bytes (nb_mac n) 0 6;
                    h \<leftarrow> wr_bytes h 6 mac;
                    h \<leftarrow> history_write_u32 h 12 (history_crc32 payload);
                    if dk_write disk bytes (length bytes) h = length h \<and>
                       dk_write disk (bytes @ h) (length bytes + length h) payload = length payload
                    then Some (True, w\<lparr> hw_file := Some (bytes @ h @ payload),
                                hw_body_crc := history_crc32_update
                                                 (history_crc32_update (hw_body_crc w) h) payload,
                                hw_body_size := hw_body_size w + length h + length payload,
                                hw_count := hw_count w + 1 \<rparr>)
                    else Some (False, w\<lparr> hw_ok := False \<rparr>) } })"

text \<open>The result is the answer, the closed writer and the history file.\<close>

definition history_writer_finish ::
  "history_disk \<Rightarrow> history_writer \<Rightarrow> buf ptr \<Rightarrow> (bool \<times> history_writer \<times> buf ptr) option" where
  "history_writer_finish disk w main =
     do { h \<leftarrow> wr_bytes (replicate HISTORY_HEADER_SIZE 0) 0 history_magic;
          h \<leftarrow> wr_bytes h 4 [HISTORY_FORMAT_VERSION];
          h \<leftarrow> wr_bytes h 5 [of_nat HISTORY_HEADER_SIZE];
          h \<leftarrow> wr_bytes h 6 [of_nat (hw_count w)];
          h \<leftarrow> history_write_u32 h 8 (of_nat (hw_body_size w));
          h \<leftarrow> history_write_u32 h 12 (hw_body_crc w XOR 0xFFFFFFFF);
          first16 \<leftarrow> rd_bytes h 0 16;
          h \<leftarrow> history_write_u32 h 16 (history_crc32 first16);
          bytes \<leftarrow> hw_file w;
          if hw_ok w \<and> dk_seek disk \<and> dk_write disk bytes 0 h = length h \<and> dk_sync disk
          then do { bytes \<leftarrow> wr_bytes bytes 0 h;
                    let (ok, main) = dk_rename disk bytes main;
                    Some (ok, w\<lparr> hw_file := None \<rparr>, main) }
          else Some (False, w\<lparr> hw_file := None \<rparr>, main) }"

text \<open>Aborting closes and removes the temporary file only; nothing else remains of the writer.\<close>

definition history_writer_abort :: "history_writer \<Rightarrow> history_writer" where
  "history_writer_abort w = w\<lparr> hw_file := None \<rparr>"

definition history_close_writer ::
  "history_disk \<Rightarrow> bool \<Rightarrow> history_writer \<Rightarrow> buf ptr \<Rightarrow> (bool \<times> buf ptr) option" where
  "history_close_writer disk ok w main =
     (if ok then do { (ok, w, main) \<leftarrow> history_writer_finish disk w main; Some (ok, main) }
      else Some (False, main))"

section \<open>Merging and clearing\<close>

definition history_find_live ::
  "neighbor_db \<Rightarrow> buf \<Rightarrow> history_protocol \<Rightarrow> history_protocol \<Rightarrow> neighbor ptr" where
  "history_find_live neighbors mac protocol filter_arg =
     (if \<not> history_filter_matches filter_arg protocol then None
      else map_option (\<lambda>i. the neighbors ! i)
             (neighbor_db_find_by_source neighbors (Some mac) (history_source_for_protocol protocol)))"

fun merge_entries ::
  "history_disk \<Rightarrow> neighbor_db \<Rightarrow> history_protocol \<Rightarrow> history_file ptr \<Rightarrow> history_index_entry list \<Rightarrow> neighbor \<Rightarrow>
   history_writer \<Rightarrow> (bool \<times> history_writer) option" where
  "merge_entries disk neighbors filter_arg src [] scratch w = Some (True, w)"
| "merge_entries disk neighbors filter_arg src (e # es) scratch w =
     (case history_find_live neighbors (he_mac e) (he_protocol e) filter_arg of
        Some n \<Rightarrow> do { (ok, w) \<leftarrow> history_writer_add disk w (he_protocol e) (Some n);
                       if ok then merge_entries disk neighbors filter_arg src es scratch w
                       else Some (False, w) }
      | None \<Rightarrow>
          do { f \<leftarrow> src; (ok, n) \<leftarrow> history_record_read f e scratch;
               if \<not> ok then Some (False, w)
               else do { (ok, w) \<leftarrow> history_writer_add disk w (he_protocol e) (Some n);
                         if ok then merge_entries disk neighbors filter_arg src es n w
                         else Some (False, w) } })"

fun merge_protocols ::
  "history_disk \<Rightarrow> history_protocol \<Rightarrow> history_index_entry list \<Rightarrow> neighbor \<Rightarrow> history_protocol list \<Rightarrow> bool \<Rightarrow>
   history_writer \<Rightarrow> (bool \<times> history_writer) option" where
  "merge_protocols disk filter_arg entries live [] ok w = Some (ok, w)"
| "merge_protocols disk filter_arg entries live (protocol # ps) ok w =
     (if nb_discovery_sources live AND history_source_for_protocol protocol = 0 \<or>
         \<not> history_filter_matches filter_arg protocol \<or>
         history_key_exists entries (nb_mac live) protocol
      then merge_protocols disk filter_arg entries live ps ok w
      else if hw_count w < PASSIVE_HISTORY_MAX_RECORDS
      then do { (ok, w) \<leftarrow> history_writer_add disk w protocol (Some live);
                merge_protocols disk filter_arg entries live ps ok w }
      else merge_protocols disk filter_arg entries live ps ok w)"

fun merge_live_from ::
  "history_disk \<Rightarrow> neighbor_db \<Rightarrow> history_protocol \<Rightarrow> history_index_entry list \<Rightarrow> nat list \<Rightarrow> history_writer \<Rightarrow>
   (bool \<times> history_writer) option" where
  "merge_live_from disk neighbors filter_arg entries [] w = Some (True, w)"
| "merge_live_from disk neighbors filter_arg entries (i # is) w =
     (case neighbor_db_get_by_position neighbors i of
        None \<Rightarrow> merge_live_from disk neighbors filter_arg entries is w
      | Some j \<Rightarrow>
          do { (ok, w) \<leftarrow> merge_protocols disk filter_arg entries (the neighbors ! j)
                            [PassiveHistoryProtocolLldp, PassiveHistoryProtocolCdp,
                             PassiveHistoryProtocolEapol] True w;
               if ok then merge_live_from disk neighbors filter_arg entries is w else Some (False, w) })"

definition history_zero :: passive_history where
  "history_zero = \<lparr> ph_entries = [], ph_scratch = neighbor_zero, ph_status = PassiveHistoryStatusReady \<rparr>"

definition passive_history_merge_live ::
  "history_storage ptr \<Rightarrow> history_protocol \<Rightarrow> neighbor_db \<Rightarrow> buf ptr \<Rightarrow> (bool \<times> buf ptr) option" where
  "passive_history_merge_live storage filter_arg neighbors main =
     (case storage of
        None \<Rightarrow> Some (False, main)
      | Some s \<Rightarrow>
          if filter_arg \<noteq> PassiveHistoryProtocolAll \<and> \<not> history_protocol_valid filter_arg
          then Some (False, main)
          else
            do { history \<leftarrow> history_load (hs_file s) history_zero;
                 let w = history_writer_begin (hs_disk s);
                 if \<not> hw_ok w then Some (False, main)
                 else
                   do { let have_existing = (ph_status history = PassiveHistoryStatusReady \<and> hs_source s \<noteq> None);
                        let src = (if have_existing then hs_source s else None);
                        let ok = (ph_entries history = [] \<or> have_existing);
                        (ok, w) \<leftarrow> (if ok then merge_entries (hs_disk s) neighbors filter_arg src
                                            (ph_entries history) (ph_scratch history) w
                                     else Some (False, w));
                        (ok, w) \<leftarrow> (if ok then merge_live_from (hs_disk s) neighbors filter_arg
                                            (ph_entries history) [0..<neighbor_db_count neighbors] w
                                     else Some (False, w));
                        history_close_writer (hs_disk s) ok w main } })"

fun clear_entries ::
  "history_disk \<Rightarrow> history_protocol \<Rightarrow> history_file ptr \<Rightarrow> history_index_entry list \<Rightarrow> neighbor \<Rightarrow>
   history_writer \<Rightarrow> (bool \<times> history_writer \<times> neighbor) option" where
  "clear_entries disk filter_arg src [] scratch w = Some (True, w, scratch)"
| "clear_entries disk filter_arg src (e # es) scratch w =
     (if history_filter_matches filter_arg (he_protocol e)
      then clear_entries disk filter_arg src es scratch w
      else
        do { f \<leftarrow> src; (ok, n) \<leftarrow> history_record_read f e scratch;
             if \<not> ok then Some (False, w, n)
             else do { (ok, w) \<leftarrow> history_writer_add disk w (he_protocol e) (Some n);
                       if ok then clear_entries disk filter_arg src es n w
                       else Some (False, w, n) } })"

text \<open>After a successful clear the index is loaded again, from the new file as \<open>reload\<close> delivers it.\<close>

definition passive_history_clear ::
  "passive_history ptr \<Rightarrow> history_storage ptr \<Rightarrow> (buf \<Rightarrow> history_file ptr) \<Rightarrow> history_protocol \<Rightarrow> buf ptr \<Rightarrow>
   (bool \<times> passive_history ptr \<times> buf ptr) option" where
  "passive_history_clear history storage reload filter_arg main =
     (case (history, storage) of
        (Some h, Some s) \<Rightarrow>
          if filter_arg \<noteq> PassiveHistoryProtocolAll \<and> \<not> history_protocol_valid filter_arg
          then Some (False, history, main)
          else if ph_status h = PassiveHistoryStatusInvalid \<and> filter_arg \<noteq> PassiveHistoryProtocolAll
          then Some (False, history, main)
          else
            do { let w = history_writer_begin (hs_disk s);
                 if \<not> hw_ok w then Some (False, history, main)
                 else
                   do { let have_existing = (ph_status h = PassiveHistoryStatusReady \<and> hs_source s \<noteq> None);
                        let src = (if have_existing then hs_source s else None);
                        let ok = (ph_entries h = [] \<or> have_existing);
                        (ok, w, scratch) \<leftarrow> (if ok then clear_entries (hs_disk s) filter_arg src
                                            (ph_entries h) (ph_scratch h) w
                                     else Some (False, w, ph_scratch h));
                        (ok, main) \<leftarrow> history_close_writer (hs_disk s) ok w main;
                        let h = h\<lparr> ph_scratch := scratch \<rparr>;
                        if ok then do { h \<leftarrow> history_load (Option.bind main reload) h;
                                        Some (True, Some h, main) }
                        else Some (False, Some h, main) } }
      | _ \<Rightarrow> Some (False, history, main))"

definition passive_history_clear_storage ::
  "history_storage ptr \<Rightarrow> (buf \<Rightarrow> history_file ptr) \<Rightarrow> history_protocol \<Rightarrow> buf ptr \<Rightarrow>
   (bool \<times> buf ptr) option" where
  "passive_history_clear_storage storage reload filter_arg main =
     (case storage of
        None \<Rightarrow> Some (False, main)
      | Some s \<Rightarrow>
          do { h \<leftarrow> history_load (hs_file s) history_zero;
               (ok, _, main) \<leftarrow> passive_history_clear (Some h) storage reload filter_arg main;
               Some (ok, main) })"

section \<open>The bytes of a file\<close>

type_synonym stored_neighbor = "history_protocol \<times> neighbor"

definition le16 :: "u16 \<Rightarrow> buf" where "le16 v = [lo8 v, hi8 v]"
definition le32 :: "u32 \<Rightarrow> buf" where "le32 v = [byte32 0 v, byte32 1 v, byte32 2 v, byte32 3 v]"

definition record_header :: "stored_neighbor \<Rightarrow> buf" where
  "record_header x =
     [1, fst x] @ le16 (history_presence_flags (snd x) (fst x)) @
     le16 (of_nat (length (history_bytes (fst x) (snd x)))) @ nb_mac (snd x) @
     le32 (history_crc32 (history_bytes (fst x) (snd x)))"

definition record_bytes :: "stored_neighbor \<Rightarrow> buf" where
  "record_bytes x = record_header x @ history_bytes (fst x) (snd x)"

definition body_bytes :: "stored_neighbor list \<Rightarrow> buf" where
  "body_bytes xs = concat (map record_bytes xs)"

definition header_front :: "stored_neighbor list \<Rightarrow> buf" where
  "header_front xs =
     history_magic @ [1, 20, of_nat (length xs), 0] @ le32 (of_nat (length (body_bytes xs))) @
     le32 (history_crc32 (body_bytes xs))"

definition history_file_bytes :: "stored_neighbor list \<Rightarrow> buf" where
  "history_file_bytes xs = header_front xs @ le32 (history_crc32 (header_front xs)) @ body_bytes xs"

definition stored_key :: "stored_neighbor \<Rightarrow> buf \<times> history_protocol" where
  "stored_key x = (nb_mac (snd x), fst x)"

text \<open>What may be stored: at most 32 well-formed neighbours under different keys.\<close>

definition stored_ok :: "stored_neighbor \<Rightarrow> bool" where
  "stored_ok x \<longleftrightarrow> history_protocol_valid (fst x) \<and> wf_neighbor (snd x) \<and> texts_of (fst x) (snd x)"

definition store_ok :: "stored_neighbor list \<Rightarrow> bool" where
  "store_ok xs \<longleftrightarrow> length xs \<le> 32 \<and> (\<forall>x\<in>set xs. stored_ok x) \<and> distinct (map stored_key xs)"

lemma crc_append: "history_crc32_update crc (a @ b) = history_crc32_update (history_crc32_update crc a) b"
  by (induction a arbitrary: crc) simp_all

lemma le_length [simp]: "length (le16 v) = 2" "length (le32 w) = 4"
  by (simp_all add: le16_def le32_def)

lemma read_u16_at: "length xs = i \<Longrightarrow> history_read_u16 (xs @ le16 v @ ys) i = Some v"
  by (auto simp: history_read_u16_def le16_def rd_in nth_append)

lemma read_u32_at: "length xs = i \<Longrightarrow> history_read_u32 (xs @ le32 v @ ys) i = Some v"
  by (auto simp: history_read_u32_def le32_def rd_in nth_append be32_bytes [simplified])

lemma write_u16_at: "length xs = i \<Longrightarrow> length r = 2 \<Longrightarrow> history_write_u16 (xs @ r @ ys) i v = Some (xs @ le16 v @ ys)"
  by (simp add: history_write_u16_def le16_def wr_bytes_def)

lemma write_u32_at: "length xs = i \<Longrightarrow> length r = 4 \<Longrightarrow> history_write_u32 (xs @ r @ ys) i v = Some (xs @ le32 v @ ys)"
  by (simp add: history_write_u32_def le32_def wr_bytes_def)

lemma stored_ok_mac: "stored_ok x \<Longrightarrow> length (nb_mac (snd x)) = 6"
  by (simp add: stored_ok_def wf_neighbor_def)

lemma payload_bounds:
  assumes "stored_ok x"
  shows "length (history_bytes (fst x) (snd x)) \<le> 463"
    and "unat (of_nat (length (history_bytes (fst x) (snd x))) :: u16) = length (history_bytes (fst x) (snd x))"
proof -
  have "wf_neighbor (snd x)" using assms by (simp add: stored_ok_def)
  then show "unat (of_nat (length (history_bytes (fst x) (snd x))) :: u16) = length (history_bytes (fst x) (snd x))"
    by (rule history_bytes_u16)
  show "length (history_bytes (fst x) (snd x)) \<le> 463"
    using history_bytes_length [OF \<open>wf_neighbor (snd x)\<close>, of "fst x"]
    by (auto simp: history_payload_max_def split: if_splits)
qed

lemma record_header_length: "stored_ok x \<Longrightarrow> length (record_header x) = 16"
  by (simp add: record_header_def stored_ok_mac)

lemma record_bytes_length:
  "stored_ok x \<Longrightarrow> length (record_bytes x) = 16 + length (history_bytes (fst x) (snd x))"
  by (simp add: record_bytes_def record_header_length)

lemma body_bytes_length:
  "(\<forall>x\<in>set xs. stored_ok x) \<Longrightarrow> length (body_bytes xs) \<le> 479 * length xs"
proof (induction xs)
  case (Cons x xs)
  then have "length (record_bytes x) \<le> 479" using record_bytes_length [of x] payload_bounds [of x] by simp
  with Cons show ?case by (simp add: body_bytes_def)
qed (simp add: body_bytes_def)

lemma header_front_length: "length (header_front xs) = 16"
  by (simp add: header_front_def history_magic_def)

lemma history_file_bytes_length: "length (history_file_bytes xs) = 20 + length (body_bytes xs)"
  by (simp add: history_file_bytes_def header_front_length)

section \<open>The writer builds such a file\<close>

lemma record_header_build:
  assumes x: "stored_ok x"
  shows "do { h \<leftarrow> wr_bytes (replicate HISTORY_RECORD_HEADER_SIZE 0) 0 [HISTORY_RECORD_VERSION];
              h \<leftarrow> wr_bytes h 1 [fst x];
              h \<leftarrow> history_write_u16 h 2 (history_presence_flags (snd x) (fst x));
              h \<leftarrow> history_write_u16 h 4 (of_nat (length (history_bytes (fst x) (snd x))));
              mac \<leftarrow> rd_bytes (nb_mac (snd x)) 0 6;
              h \<leftarrow> wr_bytes h 6 mac;
              h \<leftarrow> history_write_u32 h 12 (history_crc32 (history_bytes (fst x) (snd x)));
              F h } = F (record_header x)"
proof -
  let ?m = "nb_mac (snd x)"
  have m: "length ?m = 6" using stored_ok_mac [OF x] .
  have 0: "wr_bytes (replicate HISTORY_RECORD_HEADER_SIZE 0) 0 [HISTORY_RECORD_VERSION] = Some ([1] @ replicate 15 0)"
    by (simp add: wr_bytes_def)
  have 1: "wr_bytes ([1] @ replicate 15 0) 1 [fst x] = Some ([1, fst x] @ replicate 2 0 @ replicate 12 0)"
    by (simp add: wr_bytes_def numeral_eq_Suc)
  have 2: "history_write_u16 ([1, fst x] @ replicate 2 0 @ replicate 12 0) 2 v =
           Some (([1, fst x] @ le16 v) @ replicate 2 0 @ replicate 10 0)" for v
    using write_u16_at [of "[1, fst x]" 2 "replicate 2 0" "replicate 12 0"] by (simp add: numeral_eq_Suc)
  have 4: "history_write_u16 (([1, fst x] @ le16 v) @ replicate 2 0 @ replicate 10 0) 4 u =
           Some ([1, fst x] @ le16 v @ le16 u @ replicate 10 0)" for v u
    using write_u16_at [of "[1, fst x] @ le16 v" 4 "replicate 2 0" "replicate 10 0" u] by simp
  have 6: "wr_bytes ([1, fst x] @ le16 v @ le16 u @ replicate 10 0) 6 ?m =
           Some (([1, fst x] @ le16 v @ le16 u @ ?m) @ replicate 4 0 @ [])" for v u
    using wr_bytes_at [of "[1, fst x] @ le16 v @ le16 u" 6 ?m "replicate 10 0"] m by simp
  have 12: "history_write_u32 (([1, fst x] @ le16 v @ le16 u @ ?m) @ replicate 4 0 @ []) 12 c =
            Some ([1, fst x] @ le16 v @ le16 u @ ?m @ le32 c)" for v u c
    using write_u32_at [of "[1, fst x] @ le16 v @ le16 u @ ?m" 12 "replicate 4 0" "[]" c] m by simp
  have rd: "rd_bytes ?m 0 6 = Some ?m" using m by (simp add: rd_bytes_def)
  show ?thesis
    unfolding 0 bind.bind_lunit 1 2 4 rd 6 12 record_header_def ..
qed

text \<open>A disk that does everything it is asked to; a rename that answers success only when it replaced the file.\<close>

definition rename_replaces :: "history_disk \<Rightarrow> bool" where
  "rename_replaces d \<longleftrightarrow> (\<forall>b main main'. dk_rename d b main = (True, main') \<longrightarrow> main' = Some b)"

definition disk_works :: "history_disk \<Rightarrow> bool" where
  "disk_works d \<longleftrightarrow>
     dk_open d \<and> (\<forall>b p x. dk_write d b p x = length x) \<and> dk_seek d \<and> dk_sync d \<and>
     (\<forall>b main. dk_rename d b main = (True, Some b))"

definition writer_holds :: "history_writer \<Rightarrow> stored_neighbor list \<Rightarrow> bool" where
  "writer_holds w xs \<longleftrightarrow>
     hw_ok w \<and> hw_file w = Some (replicate 20 0 @ body_bytes xs) \<and>
     hw_body_crc w = history_crc32_update 0xFFFFFFFF (body_bytes xs) \<and>
     hw_body_size w = length (body_bytes xs) \<and> hw_count w = length xs"

lemma writer_begin_holds: "hw_ok (history_writer_begin disk) \<Longrightarrow> writer_holds (history_writer_begin disk) []"
  by (simp add: writer_holds_def history_writer_begin_def body_bytes_def Let_def)

lemma body_bytes_snoc: "body_bytes (xs @ [x]) = body_bytes xs @ record_bytes x"
  by (simp add: body_bytes_def)

lemma writer_add_spec:
  assumes w: "writer_holds w xs" and x: "stored_ok x" and room: "length xs < 32"
  shows "\<exists>ok w'. history_writer_add disk w (fst x) (Some (snd x)) = Some (ok, w') \<and>
           (disk_works disk \<longrightarrow> ok) \<and> (ok \<longrightarrow> writer_holds w' (xs @ [x])) \<and> (\<not> ok \<longrightarrow> \<not> hw_ok w')"
proof -
  let ?p = "history_bytes (fst x) (snd x)" and ?pre = "replicate 20 0 @ body_bytes xs"
  have x': "wf_neighbor (snd x)" "history_protocol_valid (fst x)" using x by (simp_all add: stored_ok_def)
  have enc: "history_encode_payload (fst x) (snd x) (replicate HISTORY_PAYLOAD_MAX 0) =
      Some (True, ?p @ drop (length ?p) (replicate HISTORY_PAYLOAD_MAX 0), of_nat (length ?p),
            history_presence_flags (snd x) (fst x))"
    by (rule history_encode_eq [OF x']) simp
  have rd: "rd_bytes (?p @ drop (length ?p) (replicate HISTORY_PAYLOAD_MAX 0)) 0 (length ?p) = Some ?p"
    by (simp add: rd_bytes_def)
  have g: "\<not> (\<not> hw_ok w \<or> PASSIVE_HISTORY_MAX_RECORDS \<le> hw_count w \<or> Some (snd x) = None \<or>
              \<not> history_protocol_valid (fst x))"
    using w room x' by (simp add: writer_holds_def)
  have f: "hw_file w = Some ?pre" using w by (simp add: writer_holds_def)
  have eq: "history_writer_add disk w (fst x) (Some (snd x)) =
      (if dk_write disk ?pre (length ?pre) (record_header x) = length (record_header x) \<and>
          dk_write disk (?pre @ record_header x) (length ?pre + length (record_header x)) ?p = length ?p
       then Some (True, w\<lparr> hw_file := Some (?pre @ record_header x @ ?p),
                   hw_body_crc := history_crc32_update (history_crc32_update (hw_body_crc w) (record_header x)) ?p,
                   hw_body_size := hw_body_size w + length (record_header x) + length ?p,
                   hw_count := hw_count w + 1 \<rparr>)
       else Some (False, w\<lparr> hw_ok := False \<rparr>))"
    unfolding history_writer_add_def if_not_P [OF g] f bind.bind_lunit enc prod.case not_True_eq_False if_False
      payload_bounds(2) [OF x] rd record_header_build [OF x] ..
  have "writer_holds (w\<lparr> hw_file := Some (?pre @ record_header x @ ?p),
                   hw_body_crc := history_crc32_update (history_crc32_update (hw_body_crc w) (record_header x)) ?p,
                   hw_body_size := hw_body_size w + length (record_header x) + length ?p,
                   hw_count := hw_count w + 1 \<rparr>) (xs @ [x])"
    using w by (simp add: writer_holds_def body_bytes_snoc record_bytes_def crc_append)
  then show ?thesis
    unfolding eq disk_works_def
    by (cases "dk_write disk ?pre (length ?pre) (record_header x) = length (record_header x) \<and>
          dk_write disk (?pre @ record_header x) (length ?pre + length (record_header x)) ?p = length ?p") auto
qed

text \<open>The calls of \<open>history_writer_finish\<close> in front of the rename.\<close>

definition header_written :: "history_disk \<Rightarrow> stored_neighbor list \<Rightarrow> bool" where
  "header_written disk xs \<longleftrightarrow>
     dk_seek disk \<and>
     dk_write disk (replicate 20 0 @ body_bytes xs) 0 (header_front xs @ le32 (history_crc32 (header_front xs))) = 20 \<and>
     dk_sync disk"

lemma writer_finish_spec:
  assumes w: "writer_holds w xs"
  shows "\<exists>w'. history_writer_finish disk w main =
           Some (if header_written disk xs
                 then let (ok, main) = dk_rename disk (history_file_bytes xs) main in (ok, w', main)
                 else (False, w', main))"
proof -
  let ?z = "replicate :: nat \<Rightarrow> u8 \<Rightarrow> buf"
  let ?n = "of_nat (length xs) :: u8" and ?l = "of_nat (length (body_bytes xs)) :: u32"
  let ?c = "history_crc32 (body_bytes xs)"
  have 0: "wr_bytes (?z HISTORY_HEADER_SIZE 0) 0 history_magic = Some (history_magic @ ?z 16 0)"
    by (simp add: wr_bytes_def history_magic_def)
  have 4: "wr_bytes (history_magic @ ?z 16 0) 4 [HISTORY_FORMAT_VERSION] = Some (history_magic @ [1] @ ?z 15 0)"
    by (simp add: wr_bytes_def history_magic_def)
  have 5: "wr_bytes (history_magic @ [1] @ ?z 15 0) 5 [of_nat HISTORY_HEADER_SIZE] =
           Some (history_magic @ [1, 20] @ ?z 14 0)"
    by (simp add: wr_bytes_def history_magic_def)
  have 6: "wr_bytes (history_magic @ [1, 20] @ ?z 14 0) 6 [?n] =
           Some ((history_magic @ [1, 20, ?n, 0]) @ ?z 4 0 @ ?z 8 0)"
    by (simp add: wr_bytes_def history_magic_def numeral_eq_Suc)
  have 8: "history_write_u32 ((history_magic @ [1, 20, ?n, 0]) @ ?z 4 0 @ ?z 8 0) 8 ?l =
           Some ((history_magic @ [1, 20, ?n, 0] @ le32 ?l) @ ?z 4 0 @ ?z 4 0)"
    using write_u32_at [of "history_magic @ [1, 20, ?n, 0]" 8 "?z 4 0" "?z 8 0" ?l]
    by (simp add: history_magic_def numeral_eq_Suc)
  have 12: "history_write_u32 ((history_magic @ [1, 20, ?n, 0] @ le32 ?l) @ ?z 4 0 @ ?z 4 0) 12 ?c =
           Some (header_front xs @ ?z 4 0 @ [])"
    using write_u32_at [of "history_magic @ [1, 20, ?n, 0] @ le32 ?l" 12 "?z 4 0" "?z 4 0" ?c]
    by (simp add: history_magic_def header_front_def)
  have rd: "rd_bytes (header_front xs @ ?z 4 0 @ []) 0 16 = Some (header_front xs)"
    using header_front_length [of xs] by (simp add: rd_bytes_def)
  have 16: "history_write_u32 (header_front xs @ ?z 4 0 @ []) 16 c = Some (header_front xs @ le32 c)" for c
    using write_u32_at [of "header_front xs" 16 "?z 4 0" "[]" c] by (simp add: header_front_length)
  let ?h = "header_front xs @ le32 (history_crc32 (header_front xs))"
  have h: "length ?h = 20" by (simp add: header_front_length)
  have wr: "wr_bytes (?z 20 0 @ body_bytes xs) 0 ?h = Some (history_file_bytes xs)"
    using h by (simp add: wr_bytes_def history_file_bytes_def)
  have crc: "hw_body_crc w XOR 0xFFFFFFFF = ?c" "hw_count w = length xs" "hw_body_size w = length (body_bytes xs)"
    "hw_ok w" "hw_file w = Some (?z 20 0 @ body_bytes xs)"
    using w by (simp_all add: writer_holds_def history_crc32_def)
  show ?thesis
    unfolding history_writer_finish_def 0 4 5 bind.bind_lunit crc 6 8 12 rd 16
    using wr h crc
    by (intro exI [of _ "w\<lparr> hw_file := None \<rparr>"]) (auto simp: header_written_def split: prod.split)
qed

section \<open>Loading such a file\<close>

definition entry_at :: "nat \<Rightarrow> stored_neighbor \<Rightarrow> history_index_entry" where
  "entry_at offset x =
     \<lparr> he_offset = offset, he_payload_length = of_nat (length (history_bytes (fst x) (snd x))),
       he_flags = history_presence_flags (snd x) (fst x), he_mac = nb_mac (snd x), he_protocol = fst x \<rparr>"

fun entries_from :: "nat \<Rightarrow> stored_neighbor list \<Rightarrow> history_index_entry list" where
  "entries_from offset [] = []"
| "entries_from offset (x # xs) = entry_at offset x # entries_from (offset + length (record_bytes x)) xs"

text \<open>The file delivers a record at a position.\<close>

definition delivers :: "history_file \<Rightarrow> nat \<Rightarrow> stored_neighbor \<Rightarrow> bool" where
  "delivers f offset x \<longleftrightarrow>
     fl_seek f offset \<and> fl_read f offset 16 = record_header x \<and>
     fl_read f (offset + 16) (length (history_bytes (fst x) (snd x))) = history_bytes (fst x) (snd x)"

lemma record_header_parts:
  assumes x: "stored_ok x"
  shows "rd (record_header x) 0 = Some 1" "rd (record_header x) 1 = Some (fst x)"
    "history_read_u16 (record_header x) 2 = Some (history_presence_flags (snd x) (fst x))"
    "history_read_u16 (record_header x) 4 = Some (of_nat (length (history_bytes (fst x) (snd x))))"
    "rd_bytes (record_header x) 6 6 = Some (nb_mac (snd x))"
    "history_read_u32 (record_header x) 12 = Some (history_crc32 (history_bytes (fst x) (snd x)))"
proof -
  let ?f = "history_presence_flags (snd x) (fst x)" and ?m = "nb_mac (snd x)"
  let ?l = "of_nat (length (history_bytes (fst x) (snd x))) :: u16"
  let ?c = "history_crc32 (history_bytes (fst x) (snd x))"
  have m: "length ?m = 6" using stored_ok_mac [OF x] .
  show "rd (record_header x) 0 = Some 1" "rd (record_header x) 1 = Some (fst x)"
    by (simp_all add: record_header_def rd_def)
  show "history_read_u16 (record_header x) 2 = Some ?f"
    using read_u16_at [of "[1, fst x]" 2 ?f "le16 ?l @ ?m @ le32 ?c"] by (simp add: record_header_def)
  show "history_read_u16 (record_header x) 4 = Some ?l"
    using read_u16_at [of "[1, fst x] @ le16 ?f" 4 ?l "?m @ le32 ?c"] by (simp add: record_header_def)
  show "rd_bytes (record_header x) 6 6 = Some ?m"
    using rd_bytes_at [of "[1, fst x] @ le16 ?f @ le16 ?l" 6 ?m 6 "le32 ?c"] m by (simp add: record_header_def)
  show "history_read_u32 (record_header x) 12 = Some ?c"
    using read_u32_at [of "[1, fst x] @ le16 ?f @ le16 ?l @ ?m" 12 ?c "[]"] m by (simp add: record_header_def)
qed

lemma record_read_delivered:
  assumes x: "stored_ok x" and f: "delivers f offset x"
  shows "history_record_read f (entry_at offset x) old = Some (True, history_view (fst x) (snd x))"
proof -
  let ?p = "history_bytes (fst x) (snd x)"
  have x': "wf_neighbor (snd x)" "history_protocol_valid (fst x)" using x by (simp_all add: stored_ok_def)
  have g: "fl_seek f offset" "fl_read f offset 16 = record_header x" "fl_read f (offset + 16) (length ?p) = ?p"
    using f by (simp_all add: delivers_def)
  show ?thesis
    using record_header_length [OF x] record_header_parts [OF x] payload_bounds [OF x] g
      history_decode_eq [OF x', of "[]"]
    by (simp add: history_record_read_def entry_at_def)
qed

lemma load_records_delivered:
  assumes "\<forall>x\<in>set xs. stored_ok x"
    and "\<And>pre x post. xs = pre @ x # post \<Longrightarrow> delivers f (offset + length (body_bytes pre)) x"
    and "20 \<le> offset" "offset + length (body_bytes xs) \<le> 20 + body_size"
    and "distinct (map (\<lambda>e. (he_mac e, he_protocol e)) entries @ map stored_key xs)"
  shows "\<exists>scratch'. history_load_records f body_size (length xs) offset entries scratch =
           Some (True, offset + length (body_bytes xs), entries @ entries_from offset xs, scratch')"
  using assms
proof (induction xs arbitrary: offset entries scratch)
  case Nil
  then show ?case by (simp add: body_bytes_def)
next
  case (Cons x xs)
  let ?p = "history_bytes (fst x) (snd x)"
  let ?o = "offset + length (record_bytes x)"
  have x: "stored_ok x" using Cons.prems(1) by simp
  have d: "delivers f offset x" using Cons.prems(2) [of "[]" x xs] by (simp add: body_bytes_def)
  have body: "length (body_bytes (x # xs)) = 16 + length ?p + length (body_bytes xs)"
    using record_bytes_length [OF x] by (simp add: body_bytes_def)
  have valid: "history_protocol_valid (fst x)" "history_flags_valid (fst x) (history_presence_flags (snd x) (fst x))"
    using x presence_flags_valid by (simp_all add: stored_ok_def)
  have new: "\<not> history_key_exists entries (nb_mac (snd x)) (fst x)"
    using Cons.prems(5) by (force simp: history_key_exists_def stored_key_def)
  have room: "\<not> body_size - (offset - 20) < 16" "\<not> length ?p > body_size - (offset - 20) - 16"
    using Cons.prems(3,4) body by linarith+
  have step: "history_load_records f body_size (length (x # xs)) offset entries scratch =
      history_load_records f body_size (length xs) ?o (entries @ [entry_at offset x]) (history_view (fst x) (snd x))"
    using record_header_length [OF x] record_header_parts [OF x] payload_bounds [OF x] d valid new room
      record_read_delivered [OF x d] record_bytes_length [OF x]
    by (simp add: delivers_def Let_def entry_at_def [symmetric] add.assoc)
  have "\<exists>scratch'. history_load_records f body_size (length xs) ?o (entries @ [entry_at offset x])
          (history_view (fst x) (snd x)) =
        Some (True, ?o + length (body_bytes xs), (entries @ [entry_at offset x]) @ entries_from ?o xs, scratch')"
  proof (rule Cons.IH)
    show "delivers f (?o + length (body_bytes pre)) y" if "xs = pre @ y # post" for pre y post
      using Cons.prems(2) [of "x # pre" y post] that by (simp add: body_bytes_def add.assoc)
    have "(he_mac (entry_at offset x), he_protocol (entry_at offset x)) = stored_key x"
      by (simp add: entry_at_def stored_key_def)
    then show "distinct (map (\<lambda>e. (he_mac e, he_protocol e)) (entries @ [entry_at offset x]) @ map stored_key xs)"
      using Cons.prems(5) by simp
  qed (use Cons.prems body record_bytes_length [OF x] in auto)
  then show ?case
    unfolding step using record_bytes_length [OF x] body by (simp add: add.assoc)
qed

text \<open>The file that delivers its bytes.\<close>

lemma stored_file_simps [simp]:
  "fl_size (stored_file b) = length b" "fl_seek (stored_file b) p"
  "fl_read (stored_file b) p n = take n (drop p b)"
  by (simp_all add: stored_file_def)

lemma stored_file_delivers:
  assumes x: "stored_ok x" and o: "offset = length pre"
  shows "delivers (stored_file (pre @ record_bytes x @ post)) offset x"
  using record_header_length [OF x] o by (simp add: delivers_def record_bytes_def)

lemma body_crc_stored:
  assumes "position + remaining = length b"
  shows "history_body_crc (stored_file b) position remaining crc =
           (True, history_crc32_update crc (drop position b))"
  using assms
proof (induction "stored_file b" position remaining crc rule: history_body_crc.induct)
  case (1 position remaining crc)
  show ?case
  proof (cases "remaining = 0")
    case True
    then show ?thesis using "1.prems" by (simp add: history_body_crc.simps)
  next
    case False
    let ?a = "if remaining < 128 then remaining else 128"
    let ?c = "take ?a (drop position b)"
    have a: "length ?c = ?a" "?a \<le> remaining" using "1.prems" by auto
    have "history_body_crc (stored_file b) (position + ?a) (remaining - ?a) (history_crc32_update crc ?c) =
          (True, history_crc32_update (history_crc32_update crc ?c) (drop (position + ?a) b))"
      using "1.hyps" [OF False refl refl] a "1.prems" by simp
    moreover have "?c @ drop (position + ?a) b = drop position b"
      by (metis add.commute append_take_drop_id drop_drop)
    ultimately show ?thesis
      using False a by (subst history_body_crc.simps) (simp add: Let_def crc_append [symmetric])
  qed
qed

lemma file_prefix_length: "length (header_front xs @ le32 (history_crc32 (header_front xs))) = 20"
  by (simp add: header_front_length)

lemma header_parts:
  defines "b \<equiv> \<lambda>xs. header_front xs @ le32 (history_crc32 (header_front xs))"
  shows "rd_bytes (b xs) 0 4 = Some history_magic" "rd (b xs) 4 = Some 1" "rd (b xs) 5 = Some 20"
    "rd (b xs) 6 = Some (of_nat (length xs))" "rd (b xs) 7 = Some 0"
    "history_read_u32 (b xs) 8 = Some (of_nat (length (body_bytes xs)))"
    "history_read_u32 (b xs) 12 = Some (history_crc32 (body_bytes xs))"
    "rd_bytes (b xs) 0 16 = Some (header_front xs)"
    "history_read_u32 (b xs) 16 = Some (history_crc32 (header_front xs))"
proof -
  let ?f = "history_magic @ [1, 20, of_nat (length xs), 0]" and ?l = "of_nat (length (body_bytes xs)) :: u32"
  let ?c = "history_crc32 (body_bytes xs)" and ?h = "le32 (history_crc32 (header_front xs))"
  have f: "length ?f = 8" by (simp add: history_magic_def)
  show "rd_bytes (b xs) 0 4 = Some history_magic" "rd (b xs) 4 = Some 1" "rd (b xs) 5 = Some 20"
    "rd (b xs) 6 = Some (of_nat (length xs))" "rd (b xs) 7 = Some 0"
    by (simp_all add: b_def header_front_def rd_bytes_def rd_def history_magic_def)
  have 8: "length ?f = 8" "length (?f @ le32 ?l) = 12" by (simp_all add: history_magic_def)
  have b: "b xs = ?f @ le32 ?l @ le32 ?c @ ?h" "b xs = (?f @ le32 ?l) @ le32 ?c @ ?h"
    "b xs = header_front xs @ ?h @ []"
    by (simp_all add: b_def header_front_def)
  show "history_read_u32 (b xs) 8 = Some ?l" unfolding b(1) using 8(1) by (rule read_u32_at)
  show "history_read_u32 (b xs) 12 = Some ?c" unfolding b(2) using 8(2) by (rule read_u32_at)
  show "history_read_u32 (b xs) 16 = Some (history_crc32 (header_front xs))"
    unfolding b(3) using header_front_length by (rule read_u32_at)
  show "rd_bytes (b xs) 0 16 = Some (header_front xs)"
    unfolding b_def by (simp add: rd_bytes_def header_front_length)
qed

lemma store_ok_sizes:
  assumes "store_ok xs"
  shows "length (body_bytes xs) \<le> HISTORY_BODY_MAX" "unat (of_nat (length xs) :: u8) = length xs"
    "unat (of_nat (length (body_bytes xs)) :: u32) = length (body_bytes xs)"
proof -
  have "length xs \<le> 32" "\<forall>x\<in>set xs. stored_ok x" using assms by (simp_all add: store_ok_def)
  then show b: "length (body_bytes xs) \<le> HISTORY_BODY_MAX"
    using body_bytes_length [of xs] by (simp add: HISTORY_BODY_MAX_def)
  show "unat (of_nat (length xs) :: u8) = length xs" using \<open>length xs \<le> 32\<close> by (intro unat_of_nat_u8) simp
  show "unat (of_nat (length (body_bytes xs)) :: u32) = length (body_bytes xs)"
    using b by (intro unat_of_nat_u32) (simp add: HISTORY_BODY_MAX_def)
qed

lemma stored_delivers:
  assumes ok: "\<forall>x\<in>set xs. stored_ok x" and at: "xs = pre @ x # post"
  shows "delivers (stored_file (history_file_bytes xs)) (20 + length (body_bytes pre)) x"
proof -
  let ?p = "header_front xs @ le32 (history_crc32 (header_front xs))"
  have "body_bytes xs = body_bytes pre @ record_bytes x @ body_bytes post"
    using at by (simp add: body_bytes_def)
  then have "history_file_bytes xs = (?p @ body_bytes pre) @ record_bytes x @ body_bytes post"
    by (simp add: history_file_bytes_def)
  moreover have "stored_ok x" using ok at by simp
  ultimately show ?thesis
    using stored_file_delivers [of x "20 + length (body_bytes pre)" "?p @ body_bytes pre" "body_bytes post"]
      file_prefix_length [of xs] by (simp del: append_assoc)
qed

lemma history_load_stored:
  assumes xs: "store_ok xs"
  shows "\<exists>scratch. history_load (Some (stored_file (history_file_bytes xs))) h =
           Some \<lparr> ph_entries = entries_from 20 xs, ph_scratch = scratch, ph_status = PassiveHistoryStatusReady \<rparr>"
proof -
  let ?b = "history_file_bytes xs" and ?p = "header_front xs @ le32 (history_crc32 (header_front xs))"
  let ?f = "stored_file ?b"
  note sizes = store_ok_sizes [OF xs]
  have ok: "length xs \<le> 32" "\<forall>x\<in>set xs. stored_ok x" "distinct (map stored_key xs)"
    using xs by (simp_all add: store_ok_def)
  have split: "?b = ?p @ body_bytes xs" by (simp add: history_file_bytes_def)
  have read: "take 20 ?b = ?p" "drop 20 ?b = body_bytes xs"
    unfolding split using file_prefix_length [of xs] by simp_all
  have len: "length ?b = 20 + length (body_bytes xs)" by (rule history_file_bytes_length)
  have head: "history_header ?f = Some (Some (length xs, length (body_bytes xs), history_crc32 (body_bytes xs)))"
    using header_parts [of xs] sizes ok(1) file_prefix_length [of xs]
    by (simp add: history_header_def read len HISTORY_FILE_MAX_def Let_def)
  have crc: "history_body_crc ?f 20 (length (body_bytes xs)) 0xFFFFFFFF =
             (True, history_crc32_update 0xFFFFFFFF (body_bytes xs))"
    using body_crc_stored [of 20 "length (body_bytes xs)" ?b] len read by simp
  have del: "delivers ?f (20 + length (body_bytes pre)) x" if "xs = pre @ x # post" for pre x post
    using stored_delivers [OF ok(2) that] .
  have "\<exists>scratch. history_load_records ?f (length (body_bytes xs)) (length xs) 20 [] (ph_scratch h) =
      Some (True, 20 + length (body_bytes xs), [] @ entries_from 20 xs, scratch)"
  proof (rule load_records_delivered [OF ok(2)])
    show "delivers ?f (20 + length (body_bytes pre)) x" if "xs = pre @ x # post" for pre x post
      using del [OF that] .
    show "distinct (map (\<lambda>e. (he_mac e, he_protocol e)) [] @ map stored_key xs)" using ok(3) by simp
  qed simp_all
  then obtain scratch where recs: "history_load_records ?f (length (body_bytes xs)) (length xs) 20 [] (ph_scratch h) =
      Some (True, 20 + length (body_bytes xs), entries_from 20 xs, scratch)" by auto
  have el: "length (entries_from o' ys) = length ys" for o' ys
    by (induction ys arbitrary: o') simp_all
  have "history_crc32_update 0xFFFFFFFF (body_bytes xs) XOR 0xFFFFFFFF = history_crc32 (body_bytes xs)"
    by (simp add: history_crc32_def)
  then show ?thesis
    using head crc recs el by (intro exI [of _ scratch]) (simp add: history_load_def Let_def)
qed

section \<open>Loading any file\<close>

lemma decode_safe:
  assumes "length mac = 6" "unat len \<le> length payload" "history_protocol_valid p"
  shows "\<exists>ok n. history_decode_payload p fl payload len mac = Some (ok, n) \<and> wf_neighbor n \<and>
           nb_occupied n \<and> nb_key n = (mac, history_source_for_protocol p)"
proof -
  from history_decode_runs [OF assms(3,1,2)] obtain ok r n v where
    "chain (history_getters p fl)
       (\<lparr> pr_data = payload, pr_length = unat len, pr_position = 0 \<rparr>, history_blank p mac, 0) = Some (ok, r, n, v)"
    "wf_neighbor (snd (history_close p fl (ok, r, n, v)))" "nb_occupied (snd (history_close p fl (ok, r, n, v)))"
    "nb_key (snd (history_close p fl (ok, r, n, v))) = (mac, history_source_for_protocol p)"
    by blast
  then show ?thesis unfolding history_decode_chain [OF assms(3,1)] by simp
qed

text \<open>An entry that the loader makes: a valid protocol and an address of six bytes.\<close>

definition entry_ok :: "history_index_entry \<Rightarrow> bool" where
  "entry_ok e \<longleftrightarrow> history_protocol_valid (he_protocol e) \<and> length (he_mac e) = 6 \<and>
     history_flags_valid (he_protocol e) (he_flags e) \<and> unat (he_payload_length e) \<le> 463"

lemma u16_in [mem_simps]: "i + 1 < length b \<Longrightarrow> history_read_u16 b i = Some (be16 (b ! (i + 1)) (b ! i))"
  by (simp add: history_read_u16_def rd_def)

lemma u32_in [mem_simps]:
  "i + 3 < length b \<Longrightarrow> history_read_u32 b i = Some (be32 (b ! (i + 3)) (b ! (i + 2)) (b ! (i + 1)) (b ! i))"
  by (simp add: history_read_u32_def rd_def)

lemma record_read_safe:
  assumes e: "entry_ok e"
  shows "\<exists>ok n. history_record_read f e old = Some (ok, n) \<and>
           (ok \<longrightarrow> wf_neighbor n \<and> nb_occupied n \<and> nb_mac n = he_mac e \<and>
                   nb_discovery_sources n = history_source_for_protocol (he_protocol e))"
proof -
  let ?h = "fl_read f (he_offset e) 16"
  let ?p = "fl_read f (he_offset e + 16) (unat (he_payload_length e))"
  show ?thesis
  proof (cases "fl_seek f (he_offset e) \<and> length ?h = 16")
    case False
    then show ?thesis by (intro exI [of _ False] exI [of _ old]) (auto simp: history_record_read_def)
  next
    case h: True
    show ?thesis
    proof (cases "length ?p = unat (he_payload_length e)")
      case True
      from decode_safe [of "he_mac e" "he_payload_length e" ?p "he_protocol e" "he_flags e"] e True
      obtain ok n where "history_decode_payload (he_protocol e) (he_flags e) ?p (he_payload_length e) (he_mac e) = Some (ok, n)"
        "wf_neighbor n" "nb_occupied n" "nb_key n = (he_mac e, history_source_for_protocol (he_protocol e))"
        by (auto simp: entry_ok_def)
      then show ?thesis
        using h True by (auto simp: history_record_read_def mem_simps Let_def nb_key_def)
    next
      case False
      then show ?thesis
        using h by (auto simp: history_record_read_def mem_simps Let_def)
    qed
  qed
qed

text \<open>What holds of the entries collected so far, for any file.\<close>

definition index_ok :: "history_file \<Rightarrow> history_index_entry list \<Rightarrow> bool" where
  "index_ok f es \<longleftrightarrow>
     distinct (map (\<lambda>e. (he_mac e, he_protocol e)) es) \<and>
     (\<forall>e\<in>set es. entry_ok e \<and> (\<exists>old n. history_record_read f e old = Some (True, n)))"

lemma record_read_result: "history_record_read f e old = Some (True, n) \<Longrightarrow> history_record_read f e old' = Some (True, n)"
  by (auto simp: history_record_read_def Let_def Option.bind_eq_Some_conv split: if_splits)

lemma index_ok_snoc:
  assumes "index_ok f es" "entry_ok e" "\<not> history_key_exists es (he_mac e) (he_protocol e)"
    and "history_record_read f e old = Some (True, n)"
  shows "index_ok f (es @ [e])"
  using assms by (force simp: index_ok_def history_key_exists_def)

lemma load_records_safe:
  assumes "index_ok f es"
  shows "\<exists>ok offset' es' scratch'. history_load_records f sz todo offset es scratch = Some (ok, offset', es', scratch') \<and>
           index_ok f es' \<and> length es' \<le> length es + todo"
  using assms
proof (induction todo arbitrary: offset es scratch)
  case (Suc todo)
  let ?h = "fl_read f offset 16"
  show ?case
  proof (cases "sz - (offset - 20) < 16 \<or> \<not> fl_seek f offset \<or> length ?h \<noteq> 16")
    case True
    then have st: "history_load_records f sz (Suc todo) offset es scratch = Some (False, offset, es, scratch)"
      by (simp add: Let_def)
    show ?thesis unfolding st using Suc.prems by auto
  next
    case False
    then have h: "length ?h = 16" by simp
    define e where "e = \<lparr> he_offset = offset, he_payload_length = be16 (?h ! 5) (?h ! 4),
      he_flags = be16 (?h ! 3) (?h ! 2), he_mac = take 6 (drop 6 ?h), he_protocol = ?h ! 1 \<rparr>"
    have mac: "length (he_mac e) = 6" using h by (simp add: e_def)
    show ?thesis
    proof (cases "?h ! 0 \<noteq> 1 \<or> \<not> history_protocol_valid (he_protocol e) \<or>
        \<not> history_flags_valid (he_protocol e) (he_flags e) \<or> unat (he_payload_length e) > 463 \<or>
        unat (he_payload_length e) > sz - (offset - 20) - 16 \<or>
        history_key_exists es (he_mac e) (he_protocol e)")
      case True
      then have st: "history_load_records f sz (Suc todo) offset es scratch = Some (False, offset, es, scratch)"
        using False h by (auto simp: e_def mem_simps Let_def)
      show ?thesis unfolding st using Suc.prems by auto
    next
      case good: False
      then have e: "entry_ok e" using mac by (simp add: entry_ok_def)
      from record_read_safe [OF e, of f scratch] obtain ok n where
        r: "history_record_read f e scratch = Some (ok, n)" by blast
      have step: "history_load_records f sz (Suc todo) offset es scratch =
          (if \<not> ok then Some (False, offset, es, n)
           else history_load_records f sz todo (offset + 16 + unat (he_payload_length e)) (es @ [e]) n)"
        using False h good r by (auto simp: e_def mem_simps Let_def)
      show ?thesis
      proof (cases ok)
        case True
        then have "index_ok f (es @ [e])" using index_ok_snoc [OF Suc.prems e] good r by simp
        from Suc.IH [OF this, of "offset + 16 + unat (he_payload_length e)" n] show ?thesis
          unfolding step using True by auto
      next
        case False
        show ?thesis unfolding step using False Suc.prems by auto
      qed
    qed
  qed
qed auto

lemma history_load_safe:
  "\<exists>h'. history_load src h = Some h' \<and>
     (ph_status h' \<noteq> PassiveHistoryStatusReady \<longrightarrow> ph_entries h' = []) \<and>
     (ph_status h' = PassiveHistoryStatusMissing \<longleftrightarrow> src = None) \<and>
     (\<forall>f. src = Some f \<longrightarrow> index_ok f (ph_entries h')) \<and> length (ph_entries h') \<le> 32"
proof (cases src)
  case None
  then show ?thesis by (simp add: history_load_def)
next
  case (Some f)
  have head: "\<exists>h. history_header f = Some h \<and> (\<forall>c s crc. h = Some (c, s, crc) \<longrightarrow> c \<le> 32)"
    by (auto simp: history_header_def Let_def mem_simps)
  have empty: "index_ok f []" by (simp add: index_ok_def)
  from head obtain h0 where h0: "history_header f = Some h0" "\<And>c s crc. h0 = Some (c, s, crc) \<Longrightarrow> c \<le> 32" by blast
  show ?thesis
  proof (cases h0)
    case None
    then show ?thesis using h0 Some empty by (simp add: history_load_def)
  next
    case (Some x)
    obtain c s crc where x: "x = (c, s, crc)" by (cases x) auto
    have c: "c \<le> 32" using h0(2) Some x by simp
    from load_records_safe [OF empty, of s c 20 "ph_scratch h"] obtain ok o' es' n' where
      l: "history_load_records f s c 20 [] (ph_scratch h) = Some (ok, o', es', n')" "index_ok f es'" "length es' \<le> c"
      by auto
    obtain cok ccrc where cc: "history_body_crc f 20 s 0xFFFFFFFF = (cok, ccrc)" by fastforce
    show ?thesis
      using \<open>src = Some f\<close> h0(1) Some x l c cc empty by (auto simp: history_load_def Let_def)
  qed
qed

section \<open>A stored neighbour is stored again unchanged\<close>

lemma padded_props:
  assumes "cstring k a" "0 < k"
  shows "cstr (padded a) = cstr a" "cstring k (padded a)" "padded a ! 0 = a ! 0"
proof -
  have len: "length (cstr a) < length a" "length a = k" using cstr_length [OF assms(1)] assms(1) by (simp_all add: cstring_def)
  show c: "cstr (padded a) = cstr a" by (simp add: padded_def text_over_def)
  show "cstring k (padded a)" using len by (auto simp: padded_def text_over_def cstring_def)
  show "padded a ! 0 = a ! 0"
  proof (cases a)
    case (Cons x xs)
    then show ?thesis by (cases "x = 0") (simp_all add: padded_def text_over_def cstr_def)
  qed (use len in simp)
qed

lemma view_fields:
  "nb_mac (history_view p n) = nb_mac n"
  "nb_discovery_sources (history_view p n) = history_source_for_protocol p"
  "nb_occupied (history_view p n)"
  by (simp_all add: history_view_def history_blank_def Let_def)

lemma blank_wf: "length m = 6 \<Longrightarrow> wf_neighbor (history_blank p m)"
  by (simp add: history_blank_def neighbor_zero_def wf_neighbor_def)

lemma blank_first:
  "nb_port (history_blank p m) ! 0 = 0" "nb_management_address (history_blank p m) ! 0 = 0"
  "nb_description (history_blank p m) ! 0 = 0"
  by (simp_all add: history_blank_def neighbor_zero_def)

lemma view_wf:
  assumes "wf_neighbor n"
  shows "wf_neighbor (history_view p n)"
proof -
  note t = wf_neighbor_texts [OF assms]
  note c = t(1-6) [THEN padded_props(2)]
  have b: "wf_neighbor (history_blank q (nb_mac n))" for q using blank_wf t(7) by blast
  show ?thesis
    unfolding history_view_def wf_neighbor_def Let_def by (simp add: c wf_neighbor_texts [OF b])
qed

lemma view_texts: "texts_of p (history_view p n)"
  by (simp add: texts_of_def history_view_def blank_first Let_def)

lemma view_record:
  assumes "wf_neighbor n" "texts_of p n" "history_protocol_valid p"
  shows "history_bytes p (history_view p n) = history_bytes p n"
    and "history_presence_flags (history_view p n) p = history_presence_flags n p"
proof -
  note t = wf_neighbor_texts [OF assms(1)]
  note c = t(1-6) [THEN padded_props(1)] t(1-6) [THEN padded_props(3)]
  consider "p = 1" | "p = 2" | "p = 3" using assms(3) history_valid_cases by blast
  then have "history_bytes p (history_view p n) = history_bytes p n \<and>
        history_presence_flags (history_view p n) p = history_presence_flags n p"
  proof cases
    case 1
    then show ?thesis
      by (simp add: history_bytes_def history_fields_def history_presence_flags_def history_view_def c Let_def)
  next
    case 2
    then show ?thesis
      by (simp add: history_bytes_def history_fields_def history_presence_flags_def history_view_def c Let_def)
  next
    case 3
    then show ?thesis
      using assms(2)
      by (simp add: history_bytes_def history_fields_def history_presence_flags_def history_view_def c Let_def
          texts_of_def blank_first)
  qed
  then show "history_bytes p (history_view p n) = history_bytes p n"
    "history_presence_flags (history_view p n) p = history_presence_flags n p" by simp_all
qed

lemma view_record_bytes: "stored_ok x \<Longrightarrow> record_bytes (fst x, history_view (fst x) (snd x)) = record_bytes x"
  using view_record [of "snd x" "fst x"] view_fields(1)
  by (simp add: stored_ok_def record_bytes_def record_header_def)

lemma view_stored_ok: "stored_ok x \<Longrightarrow> stored_ok (fst x, history_view (fst x) (snd x))"
  by (simp add: stored_ok_def view_wf view_texts)

section \<open>Merging the live table\<close>

text \<open>
  A table that can be stored: unique keys, well-formed entries, and no texts in an EAPOL entry that the
  EAPOL payload does not hold.
\<close>

definition live_ok :: "neighbor list \<Rightarrow> bool" where
  "live_ok ns \<longleftrightarrow>
     neighbors_inv ns \<and>
     (\<forall>n\<in>set ns. nb_occupied n \<longrightarrow>
        wf_neighbor n \<and> (nb_discovery_sources n = NEIGHBOR_SOURCE_EAPOL \<longrightarrow> texts_of 3 n))"

definition protocol_of :: "neighbor \<Rightarrow> history_protocol" where
  "protocol_of n = (if nb_discovery_sources n = 1 then 1 else if nb_discovery_sources n = 2 then 2 else 3)"

lemma source_of_protocol:
  "history_protocol_valid p \<Longrightarrow> single_source (history_source_for_protocol p)"
  by (auto simp: history_valid_cases history_source_for_protocol_def single_source_def)

lemma protocol_of_source:
  "single_source (nb_discovery_sources n) \<Longrightarrow>
     history_protocol_valid (protocol_of n) \<and> history_source_for_protocol (protocol_of n) = nb_discovery_sources n"
  by (auto simp: single_source_def neighbor_sources protocol_of_def history_valid_cases history_source_for_protocol_def)

lemma source_injective:
  "history_protocol_valid p \<Longrightarrow> history_protocol_valid q \<Longrightarrow>
     history_source_for_protocol p = history_source_for_protocol q \<longleftrightarrow> p = q"
  by (auto simp: history_valid_cases history_source_for_protocol_def neighbor_sources)

lemma live_stored_ok:
  assumes l: "live_ok ns" and n: "n \<in> set ns" "nb_occupied n"
  shows "stored_ok (protocol_of n, n)"
proof -
  have s: "single_source (nb_discovery_sources n)" using l n by (auto simp: live_ok_def neighbors_inv_def)
  then have "protocol_of n = 3 \<Longrightarrow> nb_discovery_sources n = NEIGHBOR_SOURCE_EAPOL"
    by (auto simp: protocol_of_def single_source_def neighbor_sources split: if_splits)
  then show ?thesis
    using l n protocol_of_source [OF s] by (auto simp: stored_ok_def live_ok_def texts_of_def)
qed

definition live_entry :: "neighbor list \<Rightarrow> history_protocol \<Rightarrow> buf \<times> history_protocol \<Rightarrow> neighbor option" where
  "live_entry ns filter_arg k =
     (if history_filter_matches filter_arg (snd k)
      then neighbor_map ns (fst k, history_source_for_protocol (snd k)) else None)"

lemma find_live_eq:
  assumes "neighbors_inv ns" "history_protocol_valid p"
  shows "history_find_live (Some ns) mac p filter_arg = live_entry ns filter_arg (mac, p)"
proof -
  have "neighbor_lookup (Some ns) (mac, history_source_for_protocol p) =
        neighbor_map ns (mac, history_source_for_protocol p)"
    using neighbor_lookup_map [OF assms(1)] source_of_protocol [OF assms(2)] by simp
  then show ?thesis
    by (simp add: history_find_live_def live_entry_def neighbor_lookup_def)
qed

lemma live_entry_stored_ok:
  assumes l: "live_ok ns" and p: "history_protocol_valid p" and e: "live_entry ns filter_arg (mac, p) = Some n"
  shows "stored_ok (p, n)" "nb_mac n = mac"
proof -
  have inv: "neighbors_inv ns" using l by (simp add: live_ok_def)
  from e have "neighbor_map ns (mac, history_source_for_protocol p) = Some n"
    by (auto simp: live_entry_def split: if_splits)
  then obtain i where "at_key ns (mac, history_source_for_protocol p) i" "ns ! i = n"
    using neighbor_map_Some [OF inv] by blast
  then have n: "n \<in> set ns" "nb_occupied n" "nb_mac n = mac" "nb_discovery_sources n = history_source_for_protocol p"
    by (auto simp: at_key_def nb_key_def)
  have s: "single_source (nb_discovery_sources n)" using n(4) source_of_protocol [OF p] by simp
  have "protocol_of n = p"
    using protocol_of_source [OF s] source_injective [of "protocol_of n" p] p n(4) by simp
  then show "stored_ok (p, n)" "nb_mac n = mac" using live_stored_ok [OF l n(1,2)] n(3) by simp_all
qed

lemma writer_add_result:
  assumes "writer_holds w xs" "stored_ok x" "length xs < 32"
  obtains ok w' where "history_writer_add disk w (fst x) (Some (snd x)) = Some (ok, w')"
    "ok \<Longrightarrow> writer_holds w' (xs @ [x])" "disk_works disk \<Longrightarrow> ok"
  using writer_add_spec [OF assms, of disk] by blast

text \<open>What a stored record becomes: the live neighbour under its key, or what the file delivers.\<close>

definition merged_from ::
  "history_file \<Rightarrow> neighbor list \<Rightarrow> history_protocol \<Rightarrow> history_index_entry \<Rightarrow> stored_neighbor \<Rightarrow> bool" where
  "merged_from f ns filter_arg e y \<longleftrightarrow>
     stored_ok y \<and> stored_key y = (he_mac e, he_protocol e) \<and>
     (case live_entry ns filter_arg (he_mac e, he_protocol e) of
        Some n \<Rightarrow> snd y = n
      | None \<Rightarrow> \<exists>old. history_record_read f e old = Some (True, snd y))"

text \<open>Decoded neighbours can be stored again.\<close>

lemma chain_keeps:
  assumes "\<And>g r s ok r' s'. g \<in> set gs \<Longrightarrow> g (r, s) = Some (ok, r', s') \<Longrightarrow> I s \<Longrightarrow> I s'"
    and "chain gs (r, s) = Some (ok, r', s')" "I s"
  shows "I s'"
  using assms
proof (induction gs arbitrary: r s)
  case (Cons g gs)
  from Cons.prems(2) obtain x where x: "g (r, s) = Some x" by (cases "g (r, s)") auto
  obtain ok1 r1 s1 where g: "g (r, s) = Some (ok1, r1, s1)" using x by (cases x) auto
  have rest: "(if ok1 then chain gs (r1, s1) else Some (ok1, r1, s1)) = Some (ok, r', s')"
    using Cons.prems(2) g by (cases ok1) auto
  have i1: "I s1" by (rule Cons.prems(1) [of g r s ok1 r1 s1]) (use g Cons.prems(3) in simp_all)
  show ?case
  proof (cases ok1)
    case True
    show ?thesis
    proof (rule Cons.IH [OF _ _ i1])
      show "I u'" if "h \<in> set gs" "h (q, u) = Some (b, q', u')" "I u" for h q u b q' u'
        by (rule Cons.prems(1) [of h q u b q' u']) (use that in simp_all)
      show "chain gs (r1, s1) = Some (ok, r', s')" using rest True by simp
    qed
  next
    case False
    then show ?thesis using rest i1 by simp
  qed
qed simp

lemma eapol_decode_texts:
  assumes "history_decode_payload 3 fl payload len mac = Some (ok, n)" and m: "length mac = 6"
  shows "texts_of 3 n"
proof -
  let ?I = "\<lambda>s. texts_of 3 (fst s)"
  have v: "history_protocol_valid 3" by (simp add: history_valid_cases)
  let ?c = "chain (eapol_getters fl)
    (\<lparr> pr_data = payload, pr_length = unat len, pr_position = 0 \<rparr>, history_blank 3 mac, 0)"
  have d: "history_decode_payload 3 fl payload len mac =
      map_option (\<lambda>x. (fst (history_close 3 fl x) \<and> pr_position (fst (snd x)) = pr_length (fst (snd x)),
                        snd (history_close 3 fl x))) ?c"
    using history_decode_chain [OF v m] by (simp add: history_getters_def)
  obtain x where x: "?c = Some x" using assms(1) d by (cases ?c) auto
  obtain ok' r' n' v' where x': "x = (ok', r', n', v')" by (cases x) auto
  have c: "?c = Some (ok', r', n', v')" and n: "n = fst (n', v')"
    using assms(1) d x x' by (simp_all add: history_close_def)
  have "?I (n', v')"
  proof (rule chain_keeps [OF _ c])
    show "?I (history_blank 3 mac, 0)" by (simp add: texts_of_def blank_first)
    show "?I s2" if "g \<in> set (eapol_getters fl)" "g (r, s) = Some (ok2, r2, s2)" "?I s" for g r s ok2 r2 s2
      using that
      by (auto simp: eapol_getters_def get_u8_def get_string_def on_neighbor_def texts_of_def
          Option.bind_eq_Some_conv split: option.splits)
  qed
  then show ?thesis using n by simp
qed

lemma record_read_stored_ok:
  assumes e: "entry_ok e" and r: "history_record_read f e old = Some (True, n)"
  shows "stored_ok (he_protocol e, n)" "nb_mac n = he_mac e"
proof -
  from record_read_safe [OF e, of f old] r have n: "wf_neighbor n" "nb_mac n = he_mac e" by auto
  have "texts_of (he_protocol e) n"
  proof (cases "he_protocol e = 3")
    case True
    from r obtain payload len where "history_decode_payload 3 (he_flags e) payload len (he_mac e) = Some (True, n)"
      using True by (auto simp: history_record_read_def Let_def Option.bind_eq_Some_conv split: if_splits)
    then show ?thesis using eapol_decode_texts e True by (auto simp: entry_ok_def)
  qed (simp add: texts_of_def)
  then show "stored_ok (he_protocol e, n)" "nb_mac n = he_mac e"
    using n e by (simp_all add: stored_ok_def entry_ok_def)
qed

lemma merge_entries_spec:
  assumes w: "writer_holds w xs" and room: "length xs + length es \<le> 32"
    and l: "live_ok ns" and es: "\<forall>e\<in>set es. entry_ok e"
  shows "\<exists>ok w'. merge_entries disk (Some ns) filter_arg (Some f) es scratch w = Some (ok, w') \<and>
           (ok \<longrightarrow> (\<exists>ys. writer_holds w' (xs @ ys) \<and> list_all2 (merged_from f ns filter_arg) es ys)) \<and>
           (disk_works disk \<and> index_ok f es \<longrightarrow> ok)"
  using w room es
proof (induction es arbitrary: w xs scratch)
  case Nil
  then show ?case by (intro exI [of _ True] exI [of _ w]) (auto intro: exI [of _ "[]"])
next
  case (Cons e es)
  have inv: "neighbors_inv ns" using l by (simp add: live_ok_def)
  have e: "entry_ok e" "history_protocol_valid (he_protocol e)" using Cons.prems(3) by (simp_all add: entry_ok_def)
  let ?live = "live_entry ns filter_arg (he_mac e, he_protocol e)"
  note find = find_live_eq [OF inv e(2), of "he_mac e" filter_arg]
  have add: "\<exists>ok w'. (history_writer_add disk w (he_protocol e) (Some n) \<bind>
          (\<lambda>(ok, w). if ok then merge_entries disk (Some ns) filter_arg (Some f) es sc w else Some (False, w))) =
        Some (ok, w') \<and>
        (ok \<longrightarrow> (\<exists>ys. writer_holds w' (xs @ ys) \<and> list_all2 (merged_from f ns filter_arg) (e # es) ys)) \<and>
        (disk_works disk \<and> index_ok f (e # es) \<longrightarrow> ok)"
    if n: "merged_from f ns filter_arg e (he_protocol e, n)" for n sc
  proof -
    have st: "stored_ok (he_protocol e, n)" using n by (simp add: merged_from_def)
    from writer_add_result [OF Cons.prems(1) st, of disk] Cons.prems(2) obtain ok1 w1 where
      a: "history_writer_add disk w (he_protocol e) (Some n) = Some (ok1, w1)"
      "ok1 \<Longrightarrow> writer_holds w1 (xs @ [(he_protocol e, n)])" "disk_works disk \<Longrightarrow> ok1" by auto
    show ?thesis
    proof (cases ok1)
      case False
      then show ?thesis using a by (intro exI [of _ False] exI [of _ w1]) auto
    next
      case True
      have "\<forall>e\<in>set es. entry_ok e" "length (xs @ [(he_protocol e, n)]) + length es \<le> 32"
        using Cons.prems by simp_all
      from Cons.IH [OF a(2) [OF True] this(2,1), of sc] obtain ok w' where
        r: "merge_entries disk (Some ns) filter_arg (Some f) es sc w1 = Some (ok, w')"
        "disk_works disk \<and> index_ok f es \<longrightarrow> ok"
        and y: "ok \<Longrightarrow> \<exists>ys. writer_holds w' ((xs @ [(he_protocol e, n)]) @ ys) \<and>
                          list_all2 (merged_from f ns filter_arg) es ys" by blast
      have "\<exists>ys. writer_holds w' (xs @ ys) \<and> list_all2 (merged_from f ns filter_arg) (e # es) ys" if ok
      proof -
        from y [OF that] obtain ys where "writer_holds w' (xs @ (he_protocol e, n) # ys)"
          "list_all2 (merged_from f ns filter_arg) es ys" by auto
        with n show ?thesis by (intro exI [of _ "(he_protocol e, n) # ys"]) simp
      qed
      then show ?thesis using a r True by (intro exI [of _ ok] exI [of _ w']) (auto simp: index_ok_def)
    qed
  qed
  show ?case
  proof (cases ?live)
    case (Some n)
    have "merged_from f ns filter_arg e (he_protocol e, n)"
      using live_entry_stored_ok [OF l e(2) Some] Some by (simp add: merged_from_def stored_key_def)
    from add [OF this, of scratch] show ?thesis
      using find Some by simp
  next
    case None
    from record_read_safe [OF e(1), of f scratch] obtain ok n where
      r: "history_record_read f e scratch = Some (ok, n)" by blast
    show ?thesis
    proof (cases ok)
      case False
      have "\<not> index_ok f (e # es)"
      proof
        assume "index_ok f (e # es)"
        then obtain old m where "history_record_read f e old = Some (True, m)" by (auto simp: index_ok_def)
        from record_read_result [OF this, of scratch] r False show False by simp
      qed
      then show ?thesis
        using find None r False by (intro exI [of _ False] exI [of _ w]) auto
    next
      case True
      have "merged_from f ns filter_arg e (he_protocol e, n)"
        using record_read_stored_ok [OF e(1), of f scratch n] r True None
        by (auto simp: merged_from_def stored_key_def)
      from add [OF this, of n] show ?thesis
        using find None r True by simp
    qed
  qed
qed

lemma merge_protocols_one:
  assumes "single_source (nb_discovery_sources n)"
  shows "merge_protocols disk filter_arg es n
           [PassiveHistoryProtocolLldp, PassiveHistoryProtocolCdp, PassiveHistoryProtocolEapol] True w =
         (if history_filter_matches filter_arg (protocol_of n) \<and>
             \<not> history_key_exists es (nb_mac n) (protocol_of n) \<and> hw_count w < 32
          then history_writer_add disk w (protocol_of n) (Some n) else Some (True, w))"
proof -
  from assms consider "nb_discovery_sources n = 1" | "nb_discovery_sources n = 2" | "nb_discovery_sources n = 4"
    by (auto simp: single_source_def neighbor_sources)
  then show ?thesis
  proof cases
    case 1
    then show ?thesis
      by (cases "history_writer_add disk w 1 (Some n)")
        (auto simp: history_source_for_protocol_def neighbor_sources protocol_of_def)
  next
    case 2
    then show ?thesis
      by (cases "history_writer_add disk w 2 (Some n)")
        (auto simp: history_source_for_protocol_def neighbor_sources protocol_of_def)
  next
    case 3
    then show ?thesis
      by (cases "history_writer_add disk w 3 (Some n)")
        (auto simp: history_source_for_protocol_def neighbor_sources protocol_of_def)
  qed
qed

text \<open>The live neighbours that no stored record stands for, in table order.\<close>

definition new_records ::
  "history_protocol \<Rightarrow> (buf \<times> history_protocol) set \<Rightarrow> neighbor list \<Rightarrow> stored_neighbor list" where
  "new_records filter_arg keys ns =
     filter (\<lambda>y. history_filter_matches filter_arg (fst y) \<and> stored_key y \<notin> keys)
       (map (\<lambda>n. (protocol_of n, n)) ns)"

lemma key_exists_image:
  "history_key_exists es mac p \<longleftrightarrow> (mac, p) \<in> (\<lambda>e. (he_mac e, he_protocol e)) ` set es"
  by (auto simp: history_key_exists_def)

lemma positions_occupied:
  "map (\<lambda>i. the (neighbor_db_get_by_position (Some ns) i)) [0..<neighbor_db_count (Some ns)] =
     filter (\<lambda>i. nb_occupied (ns ! i)) [0..<length ns]"
    (is "?l = ?occ")
  and position_found: "i < neighbor_db_count (Some ns) \<Longrightarrow>
     neighbor_db_get_by_position (Some ns) i = Some (filter (\<lambda>i. nb_occupied (ns ! i)) [0..<length ns] ! i)"
proof -
  have len: "length ?occ = neighbor_db_count (Some ns)"
    using length_filter_upt [of nb_occupied ns] by (simp add: neighbor_db_count_def)
  have g: "neighbor_db_get_by_position (Some ns) i = (if i < length ?occ then Some (?occ ! i) else None)" for i
    using match_at_filter [of nb_occupied ns i] by (simp add: neighbor_db_get_by_position_def Let_def)
  show "?l = ?occ" using g len by (intro nth_equalityI) auto
  show "neighbor_db_get_by_position (Some ns) i = Some (?occ ! i)" if "i < neighbor_db_count (Some ns)"
    using g that len by simp
qed

text \<open>The loop over positions as a loop over neighbours.\<close>

fun merge_neighbors ::
  "history_disk \<Rightarrow> history_protocol \<Rightarrow> history_index_entry list \<Rightarrow> neighbor list \<Rightarrow> history_writer \<Rightarrow>
   (bool \<times> history_writer) option" where
  "merge_neighbors disk filter_arg es [] w = Some (True, w)"
| "merge_neighbors disk filter_arg es (n # ns) w =
     do { (ok, w) \<leftarrow> (if history_filter_matches filter_arg (protocol_of n) \<and>
                           \<not> history_key_exists es (nb_mac n) (protocol_of n) \<and> hw_count w < 32
                        then history_writer_add disk w (protocol_of n) (Some n) else Some (True, w));
          if ok then merge_neighbors disk filter_arg es ns w else Some (False, w) }"

lemma merge_live_from_neighbors:
  assumes "\<And>i. i \<in> set is \<Longrightarrow> \<exists>j. neighbor_db_get_by_position (Some ns) i = Some j \<and>
             single_source (nb_discovery_sources (ns ! j))"
  shows "merge_live_from disk (Some ns) filter_arg es is w =
         merge_neighbors disk filter_arg es (map (\<lambda>i. ns ! the (neighbor_db_get_by_position (Some ns) i)) is) w"
  using assms
proof (induction "is" arbitrary: w)
  case (Cons i "is")
  from Cons.prems [of i] obtain j where j: "neighbor_db_get_by_position (Some ns) i = Some j"
    "single_source (nb_discovery_sources (ns ! j))" by auto
  have IH: "merge_live_from disk (Some ns) filter_arg es is =
      merge_neighbors disk filter_arg es (map (\<lambda>i. ns ! the (neighbor_db_get_by_position (Some ns) i)) is)"
    using Cons.IH Cons.prems by (intro ext) simp
  show ?case
    unfolding merge_live_from.simps(2) list.map merge_neighbors.simps(2) IH
    using j merge_protocols_one [OF j(2), of disk filter_arg es w] by (simp del: merge_protocols.simps)
qed simp

lemma merge_live_eq:
  assumes inv: "neighbors_inv ns"
  shows "merge_live_from disk (Some ns) filter_arg es [0..<neighbor_db_count (Some ns)] w =
         merge_neighbors disk filter_arg es (filter nb_occupied ns) w"
proof -
  let ?occ = "filter (\<lambda>i. nb_occupied (ns ! i)) [0..<length ns]"
  have len: "length ?occ = neighbor_db_count (Some ns)"
    using length_filter_upt [of nb_occupied ns] by (simp add: neighbor_db_count_def)
  have "single_source (nb_discovery_sources (ns ! (?occ ! i)))" if "i < neighbor_db_count (Some ns)" for i
  proof -
    have "?occ ! i \<in> set ?occ" using that len by (intro nth_mem) simp
    then show ?thesis using neighbors_inv_source [OF inv] by simp
  qed
  then have "merge_live_from disk (Some ns) filter_arg es [0..<neighbor_db_count (Some ns)] w =
      merge_neighbors disk filter_arg es
        (map (\<lambda>i. ns ! the (neighbor_db_get_by_position (Some ns) i)) [0..<neighbor_db_count (Some ns)]) w"
    by (intro merge_live_from_neighbors) (simp add: position_found)
  also have "map (\<lambda>i. ns ! the (neighbor_db_get_by_position (Some ns) i)) [0..<neighbor_db_count (Some ns)] =
      map ((!) ns) ?occ"
    using positions_occupied [of ns] by (metis (no_types, lifting) map_map comp_apply map_eq_conv)
  also have "map ((!) ns) ?occ = filter nb_occupied ns" using filter_as_nth [of nb_occupied ns] by simp
  finally show ?thesis .
qed

lemma merge_neighbors_spec:
  assumes w: "writer_holds w xs" and room: "length xs \<le> 32"
    and ns: "\<forall>n\<in>set ms. stored_ok (protocol_of n, n)"
  shows "\<exists>ok w'. merge_neighbors disk filter_arg es ms w = Some (ok, w') \<and>
           (ok \<longrightarrow> writer_holds w' (xs @ take (32 - length xs)
              (new_records filter_arg ((\<lambda>e. (he_mac e, he_protocol e)) ` set es) ms))) \<and>
           (disk_works disk \<longrightarrow> ok)"
  using assms
proof (induction ms arbitrary: w xs)
  case Nil
  then show ?case by (intro exI [of _ True] exI [of _ w]) (simp add: new_records_def)
next
  case (Cons n ms)
  let ?keys = "(\<lambda>e. (he_mac e, he_protocol e)) ` set es"
  let ?c = "history_filter_matches filter_arg (protocol_of n) \<and> \<not> history_key_exists es (nb_mac n) (protocol_of n)"
  have cnt: "hw_count w = length xs" using Cons.prems(1) by (simp add: writer_holds_def)
  have st: "stored_ok (protocol_of n, n)" using Cons.prems(3) by simp
  have new: "new_records filter_arg ?keys (n # ms) =
      (if ?c then (protocol_of n, n) # new_records filter_arg ?keys ms else new_records filter_arg ?keys ms)"
    by (simp add: new_records_def key_exists_image stored_key_def)
  show ?case
  proof (cases "?c \<and> length xs < 32")
    case False
    have "merge_neighbors disk filter_arg es (n # ms) w = merge_neighbors disk filter_arg es ms w"
      using False cnt by auto
    moreover have "take (32 - length xs) (new_records filter_arg ?keys (n # ms)) =
                   take (32 - length xs) (new_records filter_arg ?keys ms)"
      using False Cons.prems(2) by (auto simp: new)
    ultimately show ?thesis using Cons.IH [OF Cons.prems(1,2)] Cons.prems(3) by simp
  next
    case True
    from writer_add_result [OF Cons.prems(1) st, of disk] True obtain ok1 w1 where
      a: "history_writer_add disk w (protocol_of n) (Some n) = Some (ok1, w1)"
      "ok1 \<Longrightarrow> writer_holds w1 (xs @ [(protocol_of n, n)])" "disk_works disk \<Longrightarrow> ok1" by auto
    show ?thesis
    proof (cases ok1)
      case False
      then show ?thesis using a True cnt by (intro exI [of _ False] exI [of _ w1]) auto
    next
      case ok1: True
      have "length (xs @ [(protocol_of n, n)]) \<le> 32" using True by simp
      from Cons.IH [OF a(2) [OF ok1] this] Cons.prems(3) obtain ok w' where
        r: "merge_neighbors disk filter_arg es ms w1 = Some (ok, w')" "disk_works disk \<longrightarrow> ok"
        "ok \<longrightarrow> writer_holds w' ((xs @ [(protocol_of n, n)]) @ take (32 - length (xs @ [(protocol_of n, n)]))
              (new_records filter_arg ?keys ms))" by auto
      have "take (32 - length xs) (new_records filter_arg ?keys (n # ms)) =
            (protocol_of n, n) # take (32 - length (xs @ [(protocol_of n, n)])) (new_records filter_arg ?keys ms)"
        using True by (simp add: new take_Cons')
      then show ?thesis
        using a r True cnt ok1 by (intro exI [of _ ok] exI [of _ w']) auto
    qed
  qed
qed

section \<open>The merged file\<close>

lemma close_writer_spec:
  assumes "ok \<Longrightarrow> writer_holds w xs"
  shows "history_close_writer disk ok w main =
           Some (if ok \<and> header_written disk xs then dk_rename disk (history_file_bytes xs) main else (False, main))"
proof (cases ok)
  case True
  from writer_finish_spec [OF assms [OF True], of disk main] obtain w' where
    "history_writer_finish disk w main =
       Some (if header_written disk xs
             then let (ok, main) = dk_rename disk (history_file_bytes xs) main in (ok, w', main)
             else (False, w', main))" by blast
  then show ?thesis using True by (simp add: history_close_writer_def split: prod.split)
qed (simp add: history_close_writer_def)

lemma header_written_works: "disk_works disk \<Longrightarrow> header_written disk xs"
  by (simp add: disk_works_def header_written_def header_front_length)

lemma new_records_ok:
  assumes l: "live_ok ns"
  shows "\<forall>y\<in>set (new_records filter_arg keys (filter nb_occupied ns)). stored_ok y \<and> stored_key y \<notin> keys"
    and "distinct (map stored_key (new_records filter_arg keys (filter nb_occupied ns)))"
proof -
  show "\<forall>y\<in>set (new_records filter_arg keys (filter nb_occupied ns)). stored_ok y \<and> stored_key y \<notin> keys"
    using live_stored_ok [OF l] by (auto simp: new_records_def)
  let ?ms = "filter nb_occupied ns"
  have inv: "neighbors_inv ns" using l by (simp add: live_ok_def)
  let ?g = "\<lambda>k. (fst k, history_source_for_protocol (snd k))"
  have eq: "map nb_key ?ms = map ?g (map stored_key (map (\<lambda>n. (protocol_of n, n)) ?ms))"
    unfolding map_map using protocol_of_source neighbors_inv_source [OF inv]
    by (intro map_cong refl) (auto simp: nb_key_def stored_key_def in_set_conv_nth)
  have "distinct (map ?g (map stored_key (map (\<lambda>n. (protocol_of n, n)) ?ms)))"
    using neighbor_keys_distinct [OF inv] unfolding eq .
  then have "distinct (map stored_key (map (\<lambda>n. (protocol_of n, n)) ?ms))"
    using distinct_map by blast
  then show "distinct (map stored_key (new_records filter_arg keys ?ms))"
    unfolding new_records_def by (rule distinct_map_filter)
qed

lemma merged_store_ok:
  assumes l: "live_ok ns" and ys: "list_all2 (merged_from f ns filter_arg) es ys"
    and es: "length es \<le> 32" "distinct (map (\<lambda>e. (he_mac e, he_protocol e)) es)"
  defines "keys \<equiv> (\<lambda>e. (he_mac e, he_protocol e)) ` set es"
  shows "store_ok (ys @ take (32 - length ys) (new_records filter_arg keys (filter nb_occupied ns)))"
proof -
  let ?new = "new_records filter_arg keys (filter nb_occupied ns)"
  have k: "map stored_key ys = map (\<lambda>e. (he_mac e, he_protocol e)) es"
    using ys by (induction es ys rule: list_all2_induct) (simp_all add: merged_from_def)
  then have ks: "stored_key ` set ys = keys" unfolding keys_def by (metis list.set_map)
  have st: "\<forall>y\<in>set ys. stored_ok y"
    using ys by (induction es ys rule: list_all2_induct) (simp_all add: merged_from_def)
  have len: "length ys \<le> 32" using list_all2_lengthD [OF ys] es(1) by simp
  have sub: "set (take k ?new) \<subseteq> set ?new" for k by (rule set_take_subset)
  have "distinct (map stored_key (take (32 - length ys) ?new))"
    using new_records_ok(2) [OF l, of filter_arg keys] by (simp add: take_map [symmetric])
  moreover have "stored_key ` set ys \<inter> stored_key ` set (take (32 - length ys) ?new) = {}"
    using new_records_ok(1) [OF l, of filter_arg keys] sub unfolding ks by blast
  moreover have "distinct (map stored_key ys)" using k es(2) by simp
  ultimately have d: "distinct (map stored_key (ys @ take (32 - length ys) ?new))" by simp
  have "\<forall>x\<in>set (ys @ take (32 - length ys) ?new). stored_ok x"
    unfolding set_append using st new_records_ok(1) [OF l, of filter_arg keys] sub by blast
  then show ?thesis unfolding store_ok_def using d len by simp
qed

text \<open>
  Merging, whatever the card delivers. The rename is reached with the file of a table \<open>zs\<close>, or it
  is not reached at all.
\<close>

definition merged_into ::
  "history_storage \<Rightarrow> neighbor list \<Rightarrow> history_protocol \<Rightarrow> history_index_entry list \<Rightarrow> stored_neighbor list \<Rightarrow> bool" where
  "merged_into s ns filter_arg es zs \<longleftrightarrow>
     store_ok zs \<and> (es = [] \<or> hs_source s \<noteq> None) \<and>
     (\<exists>ys. list_all2 (merged_from (the (hs_source s)) ns filter_arg) es ys \<and>
        zs = ys @ take (32 - length ys) (new_records filter_arg
               ((\<lambda>e. (he_mac e, he_protocol e)) ` set es) (filter nb_occupied ns)))"

lemma merge_live_any:
  assumes l: "live_ok ns"
    and f: "filter_arg = PassiveHistoryProtocolAll \<or> history_protocol_valid filter_arg"
    and h: "history_load (hs_file s) history_zero = Some h"
  shows "\<exists>reached. passive_history_merge_live (Some s) filter_arg (Some ns) main =
       Some (case reached of None \<Rightarrow> (False, main) | Some zs \<Rightarrow> dk_rename (hs_disk s) (history_file_bytes zs) main) \<and>
     (\<forall>zs. reached = Some zs \<longrightarrow> merged_into s ns filter_arg (ph_entries h) zs) \<and>
     (disk_works (hs_disk s) \<and>
        (ph_entries h = [] \<or> (\<exists>g. hs_source s = Some g \<and> index_ok g (ph_entries h))) \<longrightarrow> reached \<noteq> None)"
proof -
  let ?es = "ph_entries h" and ?d = "hs_disk s" and ?w = "history_writer_begin (hs_disk s)"
  let ?f = "the (hs_source s)" and ?keys = "(\<lambda>e. (he_mac e, he_protocol e)) ` set (ph_entries h)"
  let ?new = "new_records filter_arg ?keys (filter nb_occupied ns)"
  let ?have = "ph_status h = PassiveHistoryStatusReady \<and> hs_source s \<noteq> None"
  have safe: "ph_status h \<noteq> PassiveHistoryStatusReady \<longrightarrow> ?es = []" "ph_status h = PassiveHistoryStatusMissing \<longleftrightarrow> hs_file s = None"
    "\<forall>g. hs_file s = Some g \<longrightarrow> index_ok g ?es" "length ?es \<le> 32"
    using history_load_safe [of "hs_file s" history_zero] h by auto
  have inv: "neighbors_inv ns" using l by (simp add: live_ok_def)
  have g: "\<not> (filter_arg \<noteq> PassiveHistoryProtocolAll \<and> \<not> history_protocol_valid filter_arg)" using f by blast
  have idx: "\<exists>g. index_ok g ?es" if "?es \<noteq> []" using safe that by (cases "hs_file s") auto
  then have eok: "\<forall>e\<in>set ?es. entry_ok e" by (cases "?es = []") (auto simp: index_ok_def)
  have dist: "distinct (map (\<lambda>e. (he_mac e, he_protocol e)) ?es)"
    using idx by (cases "?es = []") (auto simp: index_ok_def)
  have eq: "passive_history_merge_live (Some s) filter_arg (Some ns) main =
      (if \<not> hw_ok ?w then Some (False, main)
       else do { (ok, w) \<leftarrow> (if ?es = [] \<or> ?have
                   then merge_entries ?d (Some ns) filter_arg (if ?have then hs_source s else None) ?es (ph_scratch h) ?w
                   else Some (False, ?w));
                 (ok, w) \<leftarrow> (if ok then merge_neighbors ?d filter_arg ?es (filter nb_occupied ns) w
                             else Some (False, w));
                 history_close_writer ?d ok w main })"
    unfolding passive_history_merge_live_def option.case h bind.bind_lunit Let_def if_not_P [OF g]
      merge_live_eq [OF inv] ..
  have works: "hw_ok ?w" if "disk_works ?d" using that by (simp add: disk_works_def history_writer_begin_def Let_def)
  let ?fine = "disk_works ?d \<and> (?es = [] \<or> (\<exists>g. hs_source s = Some g \<and> index_ok g ?es))"
  show ?thesis
  proof (cases "hw_ok ?w \<and> (?es = [] \<or> ?have)")
    case False
    then have "passive_history_merge_live (Some s) filter_arg (Some ns) main = Some (False, main)"
      unfolding eq by (auto simp: history_close_writer_def)
    then show ?thesis using works False safe(1) by (intro exI [of _ None]) auto
  next
    case True
    have w0: "writer_holds ?w []" using True writer_begin_holds by blast
    have "\<exists>ok w. merge_entries ?d (Some ns) filter_arg (if ?have then hs_source s else None) ?es (ph_scratch h) ?w = Some (ok, w) \<and>
        (ok \<longrightarrow> (\<exists>ys. writer_holds w ys \<and> list_all2 (merged_from ?f ns filter_arg) ?es ys)) \<and> (?fine \<longrightarrow> ok)"
    proof (cases "?es = []")
      case True
      then show ?thesis using w0 by (intro exI [of _ True] exI [of _ ?w]) auto
    next
      case False
      then have "hs_source s = Some ?f" "?have" using True by auto
      then show ?thesis
        using merge_entries_spec [OF w0 _ l eok, where filter_arg = filter_arg and f = ?f and scratch = "ph_scratch h" and disk = ?d]
          safe(4) False by auto
    qed
    then obtain ok1 w1 where
      e: "merge_entries ?d (Some ns) filter_arg (if ?have then hs_source s else None) ?es (ph_scratch h) ?w = Some (ok1, w1)"
      "ok1 \<Longrightarrow> \<exists>ys. writer_holds w1 ys \<and> list_all2 (merged_from ?f ns filter_arg) ?es ys" "?fine \<Longrightarrow> ok1"
      by blast
    show ?thesis
    proof (cases ok1)
      case no: False
      then have "passive_history_merge_live (Some s) filter_arg (Some ns) main = Some (False, main)"
        unfolding eq using True e(1) by (simp add: history_close_writer_def)
      then show ?thesis using e(3) no by (intro exI [of _ None]) auto
    next
      case yes: True
      from e(2) [OF yes] obtain ys where ys: "writer_holds w1 ys" "list_all2 (merged_from ?f ns filter_arg) ?es ys" by blast
      let ?zs = "ys @ take (32 - length ys) ?new"
      have len: "length ys \<le> 32" using list_all2_lengthD [OF ys(2)] safe(4) by simp
      have "\<forall>n\<in>set (filter nb_occupied ns). stored_ok (protocol_of n, n)" using live_stored_ok [OF l] by simp
      from merge_neighbors_spec [OF ys(1) len this, where disk = ?d and filter_arg = filter_arg and es = ?es] obtain ok2 w2 where
        m: "merge_neighbors ?d filter_arg ?es (filter nb_occupied ns) w1 = Some (ok2, w2)"
        "ok2 \<Longrightarrow> writer_holds w2 ?zs" "disk_works ?d \<Longrightarrow> ok2" by blast
      let ?reached = "ok2 \<and> header_written ?d ?zs"
      have close: "history_close_writer ?d ok2 w2 main =
          Some (if ?reached then dk_rename ?d (history_file_bytes ?zs) main else (False, main))"
        by (rule close_writer_spec) (rule m(2))
      have r: "passive_history_merge_live (Some s) filter_arg (Some ns) main =
          Some (if ?reached then dk_rename ?d (history_file_bytes ?zs) main else (False, main))"
        unfolding eq using True e(1) yes m(1) close by simp
      have "merged_into s ns filter_arg ?es ?zs"
        using ys(2) merged_store_ok [OF l ys(2) safe(4) dist] True by (auto simp: merged_into_def)
      then show ?thesis
        unfolding r using m(3) header_written_works [of ?d ?zs]
        by (intro exI [of _ "if ?reached then Some ?zs else None"]) auto
    qed
  qed
qed

end
