(* ===== verification/Passive_Store.thy ===== *)
theory Passive_Store
  imports Passive_History
begin

text \<open>
  What \<open>passive_history.c\<close> promises as a whole: the file is a table of at most 32 neighbours under
  unique keys, and loading, looking up, merging the live table and clearing are operations on that
  table. A file that holds a table \<open>xs\<close> has the bytes \<open>history_file_bytes xs\<close>.
\<close>

section \<open>Looking up\<close>

lemma entry_index:
  assumes d: "distinct (map (\<lambda>e. (he_mac e, he_protocol e)) es)" and e: "e \<in> set es"
  shows "\<exists>i. first_match (\<lambda>e'. he_protocol e' = he_protocol e \<and> he_mac e' = he_mac e) es = Some i \<and> es ! i = e"
proof -
  let ?p = "\<lambda>e'. he_protocol e' = he_protocol e \<and> he_mac e' = he_mac e"
  have "first_match ?p es \<noteq> None" using e by (auto simp: first_match_None in_set_conv_nth)
  then obtain i where i: "first_match ?p es = Some i" by blast
  note m = first_match_Some [OF i]
  have "inj_on (\<lambda>e. (he_mac e, he_protocol e)) (set es)" using d by (simp add: distinct_map)
  moreover have "es ! i \<in> set es" using m by simp
  ultimately have "es ! i = e" using m e by (auto dest: inj_onD)
  then show ?thesis using i by blast
qed

lemma decode_entry:
  assumes d: "distinct (map (\<lambda>e. (he_mac e, he_protocol e)) (ph_entries h))" and e: "e \<in> set (ph_entries h)"
    and r: "ph_status h = PassiveHistoryStatusReady" "hs_file s = Some f"
    and n: "history_record_read f e (ph_scratch h) = Some (True, n)"
  shows "passive_history_decode (Some h) (Some s) (Some (he_mac e)) (he_protocol e) =
           Some (Some n, Some (h\<lparr> ph_scratch := n \<rparr>))"
proof -
  from entry_index [OF d e] obtain i where
    "first_match (\<lambda>e'. he_protocol e' = he_protocol e \<and> he_mac e' = he_mac e) (ph_entries h) = Some i"
    "ph_entries h ! i = e" by blast
  then show ?thesis using r n by (simp add: passive_history_decode_def)
qed

lemma entries_from_keys: "map (\<lambda>e. (he_mac e, he_protocol e)) (entries_from offset xs) = map stored_key xs"
  by (induction xs arbitrary: offset) (simp_all add: entry_at_def stored_key_def)

lemma entries_from_split:
  assumes "\<forall>x\<in>set (pre @ x # post). stored_ok x"
  shows "entries_from offset (pre @ x # post) =
           entries_from offset pre @ entry_at (offset + length (body_bytes pre)) x #
           entries_from (offset + length (body_bytes pre) + length (record_bytes x)) post"
  using assms by (induction pre arbitrary: offset) (simp_all add: body_bytes_def add.assoc)

lemma stored_record_read:
  assumes xs: "store_ok xs" and x: "x \<in> set xs"
  shows "\<exists>e\<in>set (entries_from 20 xs). (he_mac e, he_protocol e) = stored_key x \<and>
           (\<forall>old. history_record_read (stored_file (history_file_bytes xs)) e old =
                    Some (True, history_view (fst x) (snd x)))"
proof -
  obtain pre post where s: "xs = pre @ x # post" using x by (meson split_list)
  have ok: "\<forall>y\<in>set xs. stored_ok y" using xs by (simp add: store_ok_def)
  then have ok': "\<forall>y\<in>set (pre @ x # post). stored_ok y" using s by simp
  let ?e = "entry_at (20 + length (body_bytes pre)) x"
  have "?e \<in> set (entries_from 20 xs)" unfolding s entries_from_split [OF ok'] by simp
  moreover have "(he_mac ?e, he_protocol ?e) = stored_key x" by (simp add: entry_at_def stored_key_def)
  moreover have "history_record_read (stored_file (history_file_bytes xs)) ?e old =
      Some (True, history_view (fst x) (snd x))" for old
    using record_read_delivered [OF _ stored_delivers [OF ok s]] ok x by blast
  ultimately show ?thesis by blast
qed

text \<open>
  A view of a file with the bytes \<open>b\<close> that delivers only bytes of it, though a read may end early and a
  seek may fail. What such a view gives of a record is the record or nothing.
\<close>

definition reads_true :: "history_file \<Rightarrow> buf \<Rightarrow> bool" where
  "reads_true f b \<longleftrightarrow> (\<forall>p n. \<exists>k\<le>n. fl_read f p n = take k (drop p b))"

lemma reads_true_stored: "reads_true (stored_file b) b"
  by (auto simp: reads_true_def)

lemma read_complete: "reads_true f b \<Longrightarrow> length (fl_read f p n) = n \<Longrightarrow> fl_read f p n = take n (drop p b)"
proof -
  assume f: "reads_true f b" and n: "length (fl_read f p n) = n"
  from f obtain k where k: "k \<le> n" "fl_read f p n = take k (drop p b)" unfolding reads_true_def by blast
  then have "k = n" using n by simp
  then show ?thesis using k by simp
qed

lemma record_read_true:
  assumes f: "reads_true f b" and r: "history_record_read f e old = Some (True, n)"
  shows "history_record_read (stored_file b) e old = Some (True, n)"
proof -
  have h: "length (fl_read f (he_offset e) 16) = 16" using r by (auto simp: history_record_read_def Let_def split: if_splits)
  then have p: "length (fl_read f (he_offset e + 16) (unat (he_payload_length e))) = unat (he_payload_length e)"
    using r by (auto simp: history_record_read_def Let_def Option.bind_eq_Some_conv split: if_splits)
  show ?thesis
    using r h p read_complete [OF f h] read_complete [OF f p]
    by (auto simp: history_record_read_def Let_def Option.bind_eq_Some_conv split: if_splits)
qed

text \<open>An entry of the index and the stored neighbour it gives, unless reading fails.\<close>

definition reads_back :: "history_file \<Rightarrow> history_index_entry \<Rightarrow> stored_neighbor \<Rightarrow> bool" where
  "reads_back f e x \<longleftrightarrow>
     entry_ok e \<and> (he_mac e, he_protocol e) = stored_key x \<and>
     (\<forall>old n. history_record_read f e old = Some (True, n) \<longrightarrow> n = history_view (fst x) (snd x))"

lemma entry_at_ok: "stored_ok x \<Longrightarrow> entry_ok (entry_at offset x)"
  using payload_bounds [of x] presence_flags_valid
  by (simp add: entry_ok_def entry_at_def stored_ok_def wf_neighbor_def)

text \<open>Tables that are stored as the same records have the same file.\<close>

lemma file_bytes_cong:
  assumes "map record_bytes xs = map record_bytes ys"
  shows "history_file_bytes xs = history_file_bytes ys"
proof -
  have "body_bytes xs = body_bytes ys" using assms by (simp add: body_bytes_def)
  moreover have "length xs = length ys" using assms map_eq_imp_length_eq by blast
  ultimately show ?thesis by (simp add: history_file_bytes_def header_front_def)
qed

section \<open>The merged table\<close>

definition merged_table ::
  "neighbor list \<Rightarrow> history_protocol \<Rightarrow> stored_neighbor list \<Rightarrow> stored_neighbor list" where
  "merged_table ns filter_arg xs =
     map (\<lambda>x. (fst x, case live_entry ns filter_arg (stored_key x) of Some n \<Rightarrow> n | None \<Rightarrow> snd x)) xs @
     take (32 - length xs) (new_records filter_arg (stored_key ` set xs) (filter nb_occupied ns))"

lemma merged_record:
  assumes xs: "store_ok xs" and x: "x \<in> set xs" and e: "(he_mac e, he_protocol e) = stored_key x"
    and r: "\<And>old n. history_record_read f e old = Some (True, n) \<Longrightarrow> n = history_view (fst x) (snd x)"
    and m: "merged_from f ns filter_arg e y"
  shows "record_bytes y =
    record_bytes (fst x, case live_entry ns filter_arg (stored_key x) of Some n \<Rightarrow> n | None \<Rightarrow> snd x)"
proof -
  have p: "fst y = fst x" using m e by (simp add: merged_from_def stored_key_def)
  show ?thesis
  proof (cases "live_entry ns filter_arg (stored_key x)")
    case None
    then have "snd y = history_view (fst x) (snd x)" using m e r by (auto simp: merged_from_def)
    then have "y = (fst x, history_view (fst x) (snd x))" using p by (metis prod.collapse)
    then show ?thesis using view_record_bytes [of x] xs x None by (simp add: store_ok_def)
  next
    case (Some n)
    then have "snd y = n" using m e by (simp add: merged_from_def)
    then have "y = (fst x, n)" using p by (metis prod.collapse)
    then show ?thesis using Some by simp
  qed
qed

lemma entries_from_reads:
  assumes "store_ok xs"
  shows "list_all2 (\<lambda>e x. (he_mac e, he_protocol e) = stored_key x \<and>
           (\<forall>old. history_record_read (stored_file (history_file_bytes xs)) e old =
                    Some (True, history_view (fst x) (snd x)))) (entries_from 20 xs) xs"
proof -
  have ok: "\<forall>y\<in>set xs. stored_ok y" using assms by (simp add: store_ok_def)
  have "list_all2 (\<lambda>e x. (he_mac e, he_protocol e) = stored_key x \<and>
           (\<forall>old. history_record_read (stored_file (history_file_bytes xs)) e old =
                    Some (True, history_view (fst x) (snd x))))
         (entries_from (20 + length (body_bytes pre)) post) post" if "xs = pre @ post" for pre post
    using that
  proof (induction post arbitrary: pre)
    case (Cons x post)
    have "list_all2 (\<lambda>e x. (he_mac e, he_protocol e) = stored_key x \<and>
           (\<forall>old. history_record_read (stored_file (history_file_bytes xs)) e old =
                    Some (True, history_view (fst x) (snd x))))
         (entries_from (20 + length (body_bytes (pre @ [x]))) post) post"
      using Cons.prems by (intro Cons.IH) simp
    moreover have "stored_ok x" using ok Cons.prems by simp
    ultimately show ?case
      using record_read_delivered [OF _ stored_delivers [OF ok Cons.prems]]
      by (simp add: entry_at_def [of _ x] stored_key_def body_bytes_snoc add.assoc)
  qed simp
  from this [of "[]" xs] show ?thesis by (simp add: body_bytes_def)
qed

lemma entries_read_back:
  assumes xs: "store_ok xs" and f: "reads_true f (history_file_bytes xs)"
  shows "list_all2 (reads_back f) (entries_from 20 xs) xs"
proof -
  have ok: "\<forall>e\<in>set (entries_from offset ys). entry_ok e" if "\<forall>y\<in>set ys. stored_ok y" for offset ys
    using that by (induction ys arbitrary: offset) (simp_all add: entry_at_ok)
  have "\<forall>e\<in>set (entries_from 20 xs). entry_ok e" by (rule ok) (use xs in \<open>simp add: store_ok_def\<close>)
  then show ?thesis
    using entries_from_reads [OF xs] record_read_true [OF f]
    by (auto simp: list_all2_conv_all_nth reads_back_def) (metis option.inject prod.inject)
qed

lemma merged_records:
  assumes xs: "store_ok xs" and r: "list_all2 (reads_back f) es xs"
    and ys: "list_all2 (merged_from f ns filter_arg) es ys"
  shows "map record_bytes ys = map record_bytes (map (\<lambda>x. (fst x, case live_entry ns filter_arg (stored_key x) of
           Some n \<Rightarrow> n | None \<Rightarrow> snd x)) xs)"
proof (rule nth_equalityI)
  have len: "length ys = length xs" using list_all2_lengthD [OF ys] list_all2_lengthD [OF r] by simp
  then show "length (map record_bytes ys) = length (map record_bytes (map (\<lambda>x. (fst x, case live_entry ns filter_arg
      (stored_key x) of Some n \<Rightarrow> n | None \<Rightarrow> snd x)) xs))" by simp
  fix i assume "i < length (map record_bytes ys)"
  then have i: "i < length ys" "i < length xs" "i < length es"
    using len list_all2_lengthD [OF r] by simp_all
  have b: "reads_back f (es ! i) (xs ! i)" and m: "merged_from f ns filter_arg (es ! i) (ys ! i)"
    using list_all2_nthD [OF r i(3)] list_all2_nthD [OF ys i(3)] by simp_all
  have "record_bytes (ys ! i) = record_bytes (fst (xs ! i), case live_entry ns filter_arg (stored_key (xs ! i)) of
      Some n \<Rightarrow> n | None \<Rightarrow> snd (xs ! i))"
    by (rule merged_record [OF xs _ _ _ m]) (use b i in \<open>auto simp: reads_back_def\<close>)
  then show "map record_bytes ys ! i = map record_bytes (map (\<lambda>x. (fst x, case live_entry ns filter_arg
      (stored_key x) of Some n \<Rightarrow> n | None \<Rightarrow> snd x)) xs) ! i" using i by simp
qed

text \<open>The new file is that of the merged table, with or without stored records.\<close>

lemma merged_into_bytes:
  assumes xs: "store_ok xs" and r: "list_all2 (reads_back (the (hs_source s))) es xs"
    and m: "merged_into s ns filter_arg es zs"
  shows "history_file_bytes zs = history_file_bytes (merged_table ns filter_arg xs)"
proof -
  have "map (\<lambda>e. (he_mac e, he_protocol e)) es = map stored_key xs"
    using r by (simp add: list_all2_conv_all_nth reads_back_def list_eq_iff_nth_eq)
  then have keys: "(\<lambda>e. (he_mac e, he_protocol e)) ` set es = stored_key ` set xs" by (metis list.set_map)
  from m obtain ys where ys: "list_all2 (merged_from (the (hs_source s)) ns filter_arg) es ys"
    "zs = ys @ take (32 - length ys) (new_records filter_arg (stored_key ` set xs) (filter nb_occupied ns))"
    unfolding merged_into_def keys by blast
  note b = merged_records [OF xs r ys(1)]
  have "length ys = length xs" using arg_cong [OF b, of length] by simp
  with b show ?thesis unfolding ys(2) merged_table_def by (intro file_bytes_cong) simp
qed

lemma merge_stored:
  assumes xs: "store_ok xs" and l: "live_ok ns"
    and f: "filter_arg = PassiveHistoryProtocolAll \<or> history_protocol_valid filter_arg"
    and s: "hs_file s = Some (stored_file (history_file_bytes xs))"
    and g: "\<forall>g. hs_source s = Some g \<longrightarrow> reads_true g (history_file_bytes xs)"
  shows "\<exists>reached. passive_history_merge_live (Some s) filter_arg (Some ns) main =
       Some (if reached then dk_rename (hs_disk s) (history_file_bytes (merged_table ns filter_arg xs)) main
             else (False, main)) \<and>
     (disk_works (hs_disk s) \<and> hs_source s = hs_file s \<longrightarrow> reached)"
proof -
  from history_load_stored [OF xs, of history_zero] obtain scratch where
    h: "history_load (hs_file s) history_zero =
      Some \<lparr> ph_entries = entries_from 20 xs, ph_scratch = scratch, ph_status = PassiveHistoryStatusReady \<rparr>"
    unfolding s by blast
  from merge_live_any [OF l f h, of main] obtain reached where
    m: "passive_history_merge_live (Some s) filter_arg (Some ns) main =
       Some (case reached of None \<Rightarrow> (False, main) | Some zs \<Rightarrow> dk_rename (hs_disk s) (history_file_bytes zs) main)"
    "\<And>zs. reached = Some zs \<Longrightarrow> merged_into s ns filter_arg (entries_from 20 xs) zs"
    "disk_works (hs_disk s) \<Longrightarrow> (\<exists>g. hs_source s = Some g \<and> index_ok g (entries_from 20 xs)) \<Longrightarrow> reached \<noteq> None"
    by auto
  have index: "index_ok (stored_file (history_file_bytes xs)) (entries_from 20 xs)"
    using history_load_safe [of "hs_file s" history_zero] h s by auto
  have read: "list_all2 (reads_back (the (hs_source s))) (entries_from 20 xs) xs" if "merged_into s ns filter_arg (entries_from 20 xs) zs" for zs
  proof (cases "hs_source s")
    case (Some g)
    then show ?thesis using entries_read_back [OF xs] g by simp
  next
    case None
    then have "entries_from 20 xs = []" using that by (simp add: merged_into_def)
    then have "xs = []" by (cases xs) simp_all
    then show ?thesis by simp
  qed
  show ?thesis
  proof (cases reached)
    case None
    then show ?thesis using m(1,3) s index by (intro exI [of _ False]) auto
  next
    case (Some zs)
    from merged_into_bytes [OF xs read [OF m(2) [OF Some]] m(2) [OF Some]] show ?thesis
      using m(1) Some by (intro exI [of _ True]) simp
  qed
qed

section \<open>Clearing\<close>

definition cleared_table :: "history_protocol \<Rightarrow> stored_neighbor list \<Rightarrow> stored_neighbor list" where
  "cleared_table filter_arg xs = filter (\<lambda>x. \<not> history_filter_matches filter_arg (fst x)) xs"

lemma cleared_store_ok: "store_ok xs \<Longrightarrow> store_ok (cleared_table filter_arg xs)"
  unfolding store_ok_def cleared_table_def
  by (auto simp: distinct_map_filter intro: le_trans [OF length_filter_le])

lemma clear_entries_spec:
  assumes "list_all2 (reads_back f) es xs"
    and "\<forall>x\<in>set xs. stored_ok x" "writer_holds w ys" "length ys + length xs \<le> 32"
  shows "\<exists>ok w' scratch'. clear_entries disk filter_arg (Some f) es scratch w = Some (ok, w', scratch') \<and>
           (ok \<longrightarrow> writer_holds w' (ys @ map (\<lambda>x. (fst x, history_view (fst x) (snd x))) (cleared_table filter_arg xs))) \<and>
           (disk_works disk \<and> index_ok f es \<longrightarrow> ok)"
  using assms
proof (induction es xs arbitrary: w ys scratch rule: list_all2_induct)
  case Nil
  then show ?case by (intro exI [of _ True]) (auto simp: cleared_table_def)
next
  case (Cons e es x xs)
  have p: "he_protocol e = fst x" and e: "entry_ok e" using Cons.hyps(1) by (simp_all add: reads_back_def stored_key_def)
  have tail: "index_ok f es" if "index_ok f (e # es)" using that by (simp add: index_ok_def)
  show ?case
  proof (cases "history_filter_matches filter_arg (fst x)")
    case True
    then have "cleared_table filter_arg (x # xs) = cleared_table filter_arg xs" by (simp add: cleared_table_def)
    with Cons.IH [of w ys scratch] Cons.prems True p tail show ?thesis by fastforce
  next
    case False
    let ?y = "(fst x, history_view (fst x) (snd x))"
    have y: "stored_ok ?y" using view_stored_ok Cons.prems(1) by simp
    have t: "cleared_table filter_arg (x # xs) = x # cleared_table filter_arg xs" using False by (simp add: cleared_table_def)
    have "length ys < 32" using Cons.prems(3) by simp
    from writer_add_result [OF Cons.prems(2) y this, of disk] obtain ok w1 where
      a: "history_writer_add disk w (fst x) (Some (snd ?y)) = Some (ok, w1)"
        "ok \<Longrightarrow> writer_holds w1 (ys @ [?y])" "disk_works disk \<Longrightarrow> ok"
      by auto
    from record_read_safe [OF e, of f scratch] obtain got n where
      r: "history_record_read f e scratch = Some (got, n)" by blast
    have n: "n = snd ?y" if got using r that Cons.hyps(1) by (auto simp: reads_back_def)
    have whole: got if "index_ok f (e # es)"
    proof -
      from that obtain old m where "history_record_read f e old = Some (True, m)" by (auto simp: index_ok_def)
      from record_read_result [OF this, of scratch] r show got by simp
    qed
    have step: "clear_entries disk filter_arg (Some f) (e # es) scratch w =
        (if \<not> got then Some (False, w, n)
         else if ok then clear_entries disk filter_arg (Some f) es n w1 else Some (False, w1, n))"
      using False p a(1) r n by (cases got) auto
    show ?thesis
    proof (cases "got \<and> ok")
      case True
      from Cons.IH [OF _ a(2), of n] Cons.prems True tail show ?thesis
        unfolding step t by fastforce
    next
      case False
      then show ?thesis unfolding step using a(3) whole by (cases got) auto
    qed
  qed
qed

lemma bind_Some_map: "m \<bind> (\<lambda>x. Some (f x)) = map_option f m"
  by (cases m) simp_all

lemma clear_stored:
  assumes xs: "store_ok xs"
    and f: "filter_arg = PassiveHistoryProtocolAll \<or> history_protocol_valid filter_arg"
    and g: "\<forall>g. hs_source s = Some g \<longrightarrow> reads_true g (history_file_bytes xs)"
    and h: "ph_status h = PassiveHistoryStatusReady" "ph_entries h = entries_from 20 xs"
  shows "\<exists>reached sc. passive_history_clear (Some h) (Some s) reload filter_arg main =
           (let b = history_file_bytes (cleared_table filter_arg xs); h' = h\<lparr> ph_scratch := sc \<rparr>;
                (ok, main') = (if reached then dk_rename (hs_disk s) b main else (False, main))
            in if ok then map_option (\<lambda>h. (True, Some h, main')) (history_load (Option.bind main' reload) h')
               else Some (False, Some h', main')) \<and>
         (disk_works (hs_disk s) \<and> hs_source s = Some (stored_file (history_file_bytes xs)) \<longrightarrow> reached)"
proof -
  let ?d = "hs_disk s" and ?w = "history_writer_begin (hs_disk s)"
  let ?zs = "map (\<lambda>x. (fst x, history_view (fst x) (snd x))) (cleared_table filter_arg xs)"
  have ok: "length xs \<le> 32" "\<forall>x\<in>set xs. stored_ok x" using xs by (simp_all add: store_ok_def)
  have g1: "\<not> (filter_arg \<noteq> PassiveHistoryProtocolAll \<and> \<not> history_protocol_valid filter_arg)" using f by blast
  have g2: "\<not> (ph_status h = PassiveHistoryStatusInvalid \<and> filter_arg \<noteq> PassiveHistoryProtocolAll)" using h by simp
  have works: "hw_ok ?w" if "disk_works ?d" using that by (simp add: disk_works_def history_writer_begin_def Let_def)
  let ?have = "ph_status h = PassiveHistoryStatusReady \<and> hs_source s \<noteq> None"
  let ?fine = "disk_works ?d \<and> hs_source s = Some (stored_file (history_file_bytes xs))"
  let ?read = "if ph_entries h = [] \<or> ?have
                 then clear_entries ?d filter_arg (if ?have then hs_source s else None) (ph_entries h) (ph_scratch h) ?w
                 else Some (False, ?w, ph_scratch h)"
  have eq: "passive_history_clear (Some h) (Some s) reload filter_arg main =
      (if \<not> hw_ok ?w then Some (False, Some h, main)
       else do { (ok, w, scratch) \<leftarrow> ?read;
                 (ok, main) \<leftarrow> history_close_writer ?d ok w main;
                 let h = h\<lparr> ph_scratch := scratch \<rparr>;
                 if ok then do { h \<leftarrow> history_load (Option.bind main reload) h; Some (True, Some h, main) }
                 else Some (False, Some h, main) })"
    unfolding passive_history_clear_def prod.case option.case if_not_P [OF g1] if_not_P [OF g2] Let_def ..
  have bytes: "history_file_bytes ?zs = history_file_bytes (cleared_table filter_arg xs)"
    using ok(2) view_record_bytes by (intro file_bytes_cong) (auto simp: cleared_table_def)
  have index: "index_ok (stored_file (history_file_bytes xs)) (entries_from 20 xs)"
    using history_load_safe [of "Some (stored_file (history_file_bytes xs))" history_zero]
      history_load_stored [OF xs, of history_zero] by auto
  have read: "\<exists>ok w' scratch'. ?read = Some (ok, w', scratch') \<and> (ok \<longrightarrow> writer_holds w' ?zs) \<and> (?fine \<longrightarrow> ok)" if w: "hw_ok ?w"
  proof (cases "hs_source s")
    case None
    then show ?thesis
      using h writer_begin_holds [OF w] by (cases xs) (auto simp: cleared_table_def)
  next
    case (Some g0)
    have "list_all2 (reads_back g0) (entries_from 20 xs) xs" using entries_read_back [OF xs] g Some by simp
    from clear_entries_spec [OF this ok(2) writer_begin_holds [OF w], of ?d filter_arg "ph_scratch h"]
      ok(1) Some h index show ?thesis by auto
  qed
  show ?thesis
  proof (cases "hw_ok ?w")
    case False
    then show ?thesis unfolding eq using works by (intro exI [of _ False] exI [of _ "ph_scratch h"]) auto
  next
    case True
    from read [OF True] obtain ok1 w1 sc where
      c: "?read = Some (ok1, w1, sc)" "ok1 \<Longrightarrow> writer_holds w1 ?zs" "?fine \<Longrightarrow> ok1" by blast
    let ?reached = "ok1 \<and> header_written ?d ?zs"
    have close: "history_close_writer ?d ok1 w1 main =
        Some (if ?reached then dk_rename ?d (history_file_bytes ?zs) main else (False, main))"
      by (rule close_writer_spec) (rule c(2))
    show ?thesis
      unfolding eq c(1) using True close c(3) header_written_works [of ?d ?zs]
      by (intro exI [of _ ?reached] exI [of _ sc])
        (auto simp: bytes Let_def bind_Some_map split: prod.split option.split)
  qed
qed

section \<open>Properties\<close>

text \<open>
  C19. Loading is safe on any storage. Whatever the file delivers, loading stays inside its blocks and
  ends in one of the three states: missing exactly when there is no file, invalid with no entry, or
  ready with at most 32 entries under different keys; and then every entry can be looked up and
  decoded, as a well-formed neighbour with the address and the source of its key.
\<close>

theorem history_load_any_file:
  "\<exists>h'. history_load (hs_file s) h = Some h' \<and> length (ph_entries h') \<le> 32 \<and>
     (ph_status h' = PassiveHistoryStatusMissing \<longleftrightarrow> hs_file s = None) \<and>
     (ph_status h' \<noteq> PassiveHistoryStatusReady \<longrightarrow> ph_entries h' = []) \<and>
     distinct (map (\<lambda>e. (he_mac e, he_protocol e)) (ph_entries h')) \<and>
     (\<forall>e\<in>set (ph_entries h'). \<exists>n h''.
        passive_history_decode (Some h') (Some s) (Some (he_mac e)) (he_protocol e) = Some (Some n, h'') \<and>
        wf_neighbor n \<and> nb_occupied n \<and> nb_mac n = he_mac e \<and>
        nb_discovery_sources n = history_source_for_protocol (he_protocol e))"
proof -
  from history_load_safe [of "hs_file s" h] obtain h' where h':
    "history_load (hs_file s) h = Some h'"
    "ph_status h' \<noteq> PassiveHistoryStatusReady \<longrightarrow> ph_entries h' = []"
    "ph_status h' = PassiveHistoryStatusMissing \<longleftrightarrow> hs_file s = None"
    "\<forall>f. hs_file s = Some f \<longrightarrow> index_ok f (ph_entries h')" "length (ph_entries h') \<le> 32"
    by (elim exE conjE)
  have idx: "\<exists>f. hs_file s = Some f \<and> index_ok f (ph_entries h')" if "ph_entries h' \<noteq> []"
    using that h'(2-4) by (cases "hs_file s") auto
  have d: "distinct (map (\<lambda>e. (he_mac e, he_protocol e)) (ph_entries h'))"
    using idx by (cases "ph_entries h' = []") (auto simp: index_ok_def)
  have "\<exists>n h''. passive_history_decode (Some h') (Some s) (Some (he_mac e)) (he_protocol e) = Some (Some n, h'') \<and>
        wf_neighbor n \<and> nb_occupied n \<and> nb_mac n = he_mac e \<and>
        nb_discovery_sources n = history_source_for_protocol (he_protocol e)" if e: "e \<in> set (ph_entries h')" for e
  proof -
    have ne: "ph_entries h' \<noteq> []" using e by (cases "ph_entries h'") simp_all
    from idx [OF ne] obtain f where f: "hs_file s = Some f" "index_ok f (ph_entries h')" by blast
    then obtain old n where "history_record_read f e old = Some (True, n)" and ok: "entry_ok e"
      using e unfolding index_ok_def by blast
    then have n: "history_record_read f e (ph_scratch h') = Some (True, n)" using record_read_result by blast
    have ready: "ph_status h' = PassiveHistoryStatusReady" using h'(2) ne by blast
    show ?thesis
      using decode_entry [OF d e ready f(1) n] record_read_safe [OF ok, of f "ph_scratch h'"] n by auto
  qed
  with h' d show ?thesis by (intro exI [of _ h'] conjI ballI) simp_all
qed

text \<open>
  C18. A written file is read back. The bytes of a table of at most 32 well-formed neighbours under
  different keys load as a ready index of exactly its keys, in its order, and decoding under each key
  yields the neighbour that was stored, every field of its protocol unchanged.
\<close>

theorem history_file_roundtrip:
  assumes "store_ok xs" "hs_file s = Some (stored_file (history_file_bytes xs))"
  shows "\<exists>h'. history_load (hs_file s) h = Some h' \<and> ph_status h' = PassiveHistoryStatusReady \<and>
     map (\<lambda>e. (he_mac e, he_protocol e)) (ph_entries h') = map stored_key xs \<and>
     (\<forall>x\<in>set xs. \<exists>h''. passive_history_decode (Some h') (Some s) (Some (nb_mac (snd x))) (fst x) =
        Some (Some (history_view (fst x) (snd x)), h''))"
proof -
  from history_load_stored [OF assms(1), of h] obtain scratch where
    l: "history_load (hs_file s) h =
      Some \<lparr> ph_entries = entries_from 20 xs, ph_scratch = scratch, ph_status = PassiveHistoryStatusReady \<rparr>"
    unfolding assms(2) by blast
  let ?h = "\<lparr> ph_entries = entries_from 20 xs, ph_scratch = scratch, ph_status = PassiveHistoryStatusReady \<rparr>"
  have d: "distinct (map (\<lambda>e. (he_mac e, he_protocol e)) (ph_entries ?h))"
    using assms(1) by (simp add: entries_from_keys store_ok_def)
  have "\<exists>h''. passive_history_decode (Some ?h) (Some s) (Some (nb_mac (snd x))) (fst x) =
      Some (Some (history_view (fst x) (snd x)), h'')" if x: "x \<in> set xs" for x
  proof -
    from stored_record_read [OF assms(1) x] obtain e where
      e: "e \<in> set (ph_entries ?h)" "(he_mac e, he_protocol e) = stored_key x"
        "history_record_read (stored_file (history_file_bytes xs)) e (ph_scratch ?h) =
           Some (True, history_view (fst x) (snd x))" by auto
    then show ?thesis
      using decode_entry [OF d e(1) _ assms(2) e(3)] by (simp add: stored_key_def)
  qed
  then show ?thesis using l by (intro exI [of _ ?h]) (simp add: entries_from_keys)
qed

text \<open>
  C17. Merging implements the update of a table. With a file that holds a table, whose index could be
  loaded, merging the live neighbours of a well-formed table has two outcomes. Either the rename is not
  reached, failure is reported and the history file is the old one; or the rename is called with a complete temporary
  file that holds exactly the merged table, and answer and history file are what the rename makes of
  them. The merged table has every stored record, renewed by the live neighbour under its key when the filter
  covers it, then the live neighbours with new keys until 32 records are reached. This holds
  whichever write, seek or sync fails, and when the second reading of the file is cut short or fails anywhere. A card
  on which every call works reaches the rename, and then the merged table is the history file.
\<close>

theorem history_merge_refines:
  assumes "store_ok xs" "live_ok ns" "filter_arg = PassiveHistoryProtocolAll \<or> history_protocol_valid filter_arg"
    and "hs_file s = Some (stored_file (history_file_bytes xs))"
    and "\<forall>g. hs_source s = Some g \<longrightarrow> reads_true g (history_file_bytes xs)"
  shows "\<exists>reached. passive_history_merge_live (Some s) filter_arg (Some ns) main =
       Some (if reached then dk_rename (hs_disk s) (history_file_bytes (merged_table ns filter_arg xs)) main
             else (False, main)) \<and>
     (disk_works (hs_disk s) \<and> hs_source s = hs_file s \<longrightarrow>
        reached \<and> passive_history_merge_live (Some s) filter_arg (Some ns) main =
          Some (True, Some (history_file_bytes (merged_table ns filter_arg xs))))"
proof -
  from merge_stored [OF assms, of main] obtain reached where
    "passive_history_merge_live (Some s) filter_arg (Some ns) main =
       Some (if reached then dk_rename (hs_disk s) (history_file_bytes (merged_table ns filter_arg xs)) main
             else (False, main))"
    "disk_works (hs_disk s) \<and> hs_source s = hs_file s \<longrightarrow> reached"
    by blast
  then show ?thesis by (intro exI [of _ reached]) (simp add: disk_works_def)
qed

text \<open>
  C20. Merging never installs a bad file. Whatever the first opening of the history file delivers, whatever the second
  one delivers, even for what was read before, and whichever call fails, merging a well-formed live
  table ends in one of two ways: the rename is not reached, failure is reported and the history file is
  untouched; or the rename is called with a complete temporary file that loads as ready, and answer and
  history file are what it makes of them. So when the rename replaces the file whenever it answers success, a merge
  that reports success leaves a file that loads as ready. What a failed rename leaves is up to the file system.
\<close>

theorem history_merge_atomic:
  assumes "live_ok ns" "filter_arg = PassiveHistoryProtocolAll \<or> history_protocol_valid filter_arg"
  shows "\<exists>ok main'. passive_history_merge_live (Some s) filter_arg (Some ns) main = Some (ok, main') \<and>
     (\<not> ok \<and> main' = main \<or>
      (\<exists>b h'. (ok, main') = dk_rename (hs_disk s) b main \<and>
         history_load (Some (stored_file b)) history_zero = Some h' \<and> ph_status h' = PassiveHistoryStatusReady \<and>
         (ok \<and> rename_replaces (hs_disk s) \<longrightarrow> main' = Some b)))"
proof -
  from history_load_safe [of "hs_file s" history_zero] obtain h where
    h: "history_load (hs_file s) history_zero = Some h" by blast
  from merge_live_any [OF assms h, of main] obtain reached where
    m: "passive_history_merge_live (Some s) filter_arg (Some ns) main =
       Some (case reached of None \<Rightarrow> (False, main) | Some zs \<Rightarrow> dk_rename (hs_disk s) (history_file_bytes zs) main)"
    "\<And>zs. reached = Some zs \<Longrightarrow> merged_into s ns filter_arg (ph_entries h) zs"
    by blast
  show ?thesis
  proof (cases reached)
    case None
    then show ?thesis using m(1) by (intro exI [of _ False] exI [of _ main]) simp
  next
    case (Some zs)
    obtain ok main' where r: "dk_rename (hs_disk s) (history_file_bytes zs) main = (ok, main')" by fastforce
    have "store_ok zs" using m(2) [OF Some] by (simp add: merged_into_def)
    from history_load_stored [OF this, of history_zero] r show ?thesis
      using m(1) Some
      by (intro exI [of _ ok] exI [of _ main'] conjI disjI2 exI [of _ "history_file_bytes zs"])
        (auto simp: rename_replaces_def)
  qed
qed

text \<open>
  A read error costs the history. When the card works but the header of a file that holds a table cannot be
  read at the first opening, the file counts as invalid with no records, and the merge replaces it by
  the live neighbours alone.
\<close>

theorem history_read_error_drops_records:
  assumes "live_ok ns" "filter_arg = PassiveHistoryProtocolAll \<or> history_protocol_valid filter_arg"
    and "hs_file s = Some f" "length (fl_read f 0 20) \<noteq> 20" "disk_works (hs_disk s)"
  shows "passive_history_merge_live (Some s) filter_arg (Some ns) main =
           Some (True, Some (history_file_bytes (merged_table ns filter_arg [])))"
proof -
  have h: "history_load (hs_file s) history_zero =
      Some \<lparr> ph_entries = [], ph_scratch = neighbor_zero, ph_status = PassiveHistoryStatusInvalid \<rparr>"
    using assms(3,4) by (simp add: history_load_def history_header_def)
  from merge_live_any [OF assms(1,2) h, of main] assms(5) obtain zs where
    z: "passive_history_merge_live (Some s) filter_arg (Some ns) main = Some (dk_rename (hs_disk s) (history_file_bytes zs) main)"
      "merged_into s ns filter_arg [] zs"
    by auto
  have "store_ok []" by (simp add: store_ok_def)
  from merged_into_bytes [OF this _ z(2)] show ?thesis using z(1) assms(5) by (simp add: disk_works_def)
qed

text \<open>
  Clearing removes one protocol. With a file that holds a table and its index loaded, clearing
  with a filter either does not reach the rename, reports failure and leaves file and index; or it calls the rename
  with the file of exactly the records the filter does not cover, in their order. When the rename then succeeds
  and replaces the file, the reloaded index is that of these records; a card on which every call works gives this outcome.
\<close>

theorem history_clear_refines:
  assumes "store_ok xs" "filter_arg = PassiveHistoryProtocolAll \<or> history_protocol_valid filter_arg"
    and "\<forall>g. hs_source s = Some g \<longrightarrow> reads_true g (history_file_bytes xs)"
    and "ph_status h = PassiveHistoryStatusReady" "ph_entries h = entries_from 20 xs"
    and "reload = (\<lambda>b. Some (stored_file b))" "rename_replaces (hs_disk s)"
  shows "\<exists>ok h' main'. passive_history_clear (Some h) (Some s) reload filter_arg main = Some (ok, Some h', main') \<and>
     (\<not> ok \<and> main' = main \<or>
      (ok, main') = dk_rename (hs_disk s) (history_file_bytes (cleared_table filter_arg xs)) main) \<and>
     ph_status h' = PassiveHistoryStatusReady \<and>
     ph_entries h' = entries_from 20 (if ok then cleared_table filter_arg xs else xs) \<and>
     (disk_works (hs_disk s) \<and> hs_source s = Some (stored_file (history_file_bytes xs)) \<longrightarrow>
        ok \<and> main' = Some (history_file_bytes (cleared_table filter_arg xs)))"
proof -
  let ?b = "history_file_bytes (cleared_table filter_arg xs)" and ?d = "hs_disk s"
  from clear_stored [OF assms(1-5), of reload main] obtain reached sc where
    c: "passive_history_clear (Some h) (Some s) reload filter_arg main =
           (let b = ?b; h' = h\<lparr> ph_scratch := sc \<rparr>;
                (ok, main') = (if reached then dk_rename (hs_disk s) b main else (False, main))
            in if ok then map_option (\<lambda>h. (True, Some h, main')) (history_load (Option.bind main' reload) h')
               else Some (False, Some h', main'))"
       "disk_works ?d \<and> hs_source s = Some (stored_file (history_file_bytes xs)) \<longrightarrow> reached"
    by blast
  from history_load_stored [OF cleared_store_ok [OF assms(1)], of filter_arg "h\<lparr> ph_scratch := sc \<rparr>"] obtain sc' where
    ld: "history_load (Some (stored_file ?b)) (h\<lparr> ph_scratch := sc \<rparr>) =
      Some \<lparr> ph_entries = entries_from 20 (cleared_table filter_arg xs), ph_scratch = sc', ph_status = PassiveHistoryStatusReady \<rparr>"
    by blast
  obtain ok main' where r: "(if reached then dk_rename ?d ?b main else (False, main)) = (ok, main')" by fastforce
  show ?thesis
  proof (cases ok)
    case True
    then have reached: "dk_rename ?d ?b main = (True, main')" using r by (auto split: if_splits)
    then have "main' = Some ?b" using assms(7) by (auto simp: rename_replaces_def)
    then show ?thesis using c r True ld reached assms(6) by (auto simp: Let_def)
  next
    case False
    have never: "\<not> (disk_works ?d \<and> hs_source s = Some (stored_file (history_file_bytes xs)))"
      using c(2) r False by (auto simp: disk_works_def)
    have "\<not> ok \<and> main' = main \<or> (ok, main') = dk_rename ?d ?b main" using r by (auto split: if_splits)
    then show ?thesis using c(1) r False never assms(4,5) by (auto simp: Let_def)
  qed
qed

section \<open>Witnesses\<close>

definition example_store :: "stored_neighbor list" where
  "example_store = [(1, example_neighbor 7 1), (2, example_neighbor 7 2)]"

definition example_disk :: history_disk where
  "example_disk = \<lparr> dk_open = True, dk_write = (\<lambda>_ _ x. length x), dk_seek = True, dk_sync = True,
                    dk_rename = (\<lambda>b _. (True, Some b)) \<rparr>"

definition example_card :: history_storage where
  "example_card = \<lparr> hs_file = Some (stored_file (history_file_bytes example_store)),
                    hs_source = Some (stored_file (history_file_bytes example_store)), hs_disk = example_disk \<rparr>"

definition example_live :: "neighbor list" where
  "example_live = (replicate 32 neighbor_zero)[0 := (example_neighbor 9 1)\<lparr> nb_occupied := True \<rparr>]"

lemma neighbor_zero_free: "\<not> nb_occupied neighbor_zero"
  by (simp add: neighbor_zero_def)

lemma example_stored_ok: "store_ok example_store" "live_ok example_live" "disk_works example_disk"
proof -
  show "store_ok example_store"
    by (simp add: store_ok_def example_store_def stored_ok_def wf_neighbor_def example_neighbor_def
        neighbor_zero_def texts_of_def stored_key_def history_valid_cases)
  have "neighbors_inv example_live"
    unfolding example_live_def
    by (rule neighbors_inv_update [OF neighbors_inv_zero [simplified]])
      (auto simp: at_key_def nb_key_def example_neighbor_def neighbor_zero_def single_source_def neighbor_sources)
  moreover have "n = (example_neighbor 9 1)\<lparr> nb_occupied := True \<rparr>" if "n \<in> set example_live" "nb_occupied n" for n
    using that neighbor_zero_free by (auto simp: example_live_def in_set_conv_nth nth_list_update split: if_splits)
  ultimately show "live_ok example_live"
    by (fastforce simp: live_ok_def wf_neighbor_def example_neighbor_def neighbor_zero_def neighbor_sources)
  show "disk_works example_disk" by (simp add: disk_works_def example_disk_def)
qed

text \<open>A file with two records: what the first of them decodes to.\<close>

lemma history_load_any_file_witness:
  "\<exists>h' n h''. history_load (hs_file example_card) history_zero = Some h' \<and>
     ph_status h' = PassiveHistoryStatusReady \<and> length (ph_entries h') = 2 \<and>
     passive_history_decode (Some h') (Some example_card) (Some [2, 0, 0, 0, 0, 7]) 1 = Some (Some n, h'') \<and>
     wf_neighbor n \<and> nb_mac n = [2, 0, 0, 0, 0, 7]"
proof -
  obtain scratch where l: "history_load (hs_file example_card) history_zero = Some \<lparr> ph_entries = entries_from 20 example_store,
      ph_scratch = scratch, ph_status = PassiveHistoryStatusReady \<rparr>"
    using history_load_stored [OF example_stored_ok(1), of history_zero] by (auto simp: example_card_def)
  define e where "e = entry_at 20 (1, example_neighbor 7 1)"
  have e: "e \<in> set (entries_from 20 example_store)" unfolding e_def example_store_def by simp
  have key: "he_mac e = [2, 0, 0, 0, 0, 7]" "he_protocol e = 1"
    by (simp_all add: e_def entry_at_def example_neighbor_def neighbor_zero_def)
  obtain h' where h': "history_load (hs_file example_card) history_zero = Some h'"
    and d: "\<forall>e\<in>set (ph_entries h'). \<exists>n h''.
        passive_history_decode (Some h') (Some example_card) (Some (he_mac e)) (he_protocol e) = Some (Some n, h'') \<and>
        wf_neighbor n \<and> nb_occupied n \<and> nb_mac n = he_mac e \<and>
        nb_discovery_sources n = history_source_for_protocol (he_protocol e)"
    using history_load_any_file [of example_card history_zero] by blast
  have eq: "ph_entries h' = entries_from 20 example_store" "ph_status h' = PassiveHistoryStatusReady"
    using l h' by simp_all
  then have "e \<in> set (ph_entries h')" using e by simp
  from bspec [OF d this] obtain n h'' where
    "passive_history_decode (Some h') (Some example_card) (Some (he_mac e)) (he_protocol e) = Some (Some n, h'')"
    "wf_neighbor n" "nb_mac n = he_mac e" by blast
  moreover have "length (ph_entries h') = 2" unfolding eq(1) by (simp add: example_store_def)
  ultimately show ?thesis using h' eq(2) unfolding key by blast
qed

lemma history_file_roundtrip_witness:
  "\<exists>h'. history_load (hs_file example_card) history_zero = Some h' \<and>
     map (\<lambda>e. (he_mac e, he_protocol e)) (ph_entries h') =
       [([2, 0, 0, 0, 0, 7], 1), ([2, 0, 0, 0, 0, 7], 2)]"
  using history_file_roundtrip [OF example_stored_ok(1), of example_card history_zero]
  by (auto simp: example_card_def example_store_def stored_key_def example_neighbor_def neighbor_zero_def)

lemma example_views:
  "reads_true (stored_file (history_file_bytes example_store)) (history_file_bytes example_store)"
  "rename_replaces example_disk"
  by (rule reads_true_stored) (simp add: rename_replaces_def example_disk_def)

lemma history_merge_refines_witness:
  "\<exists>b. passive_history_merge_live (Some example_card) PassiveHistoryProtocolAll (Some example_live) None =
         Some (True, Some b)"
  using history_merge_refines [OF example_stored_ok(1,2), of PassiveHistoryProtocolAll example_card None]
    example_stored_ok(3) example_views(1) by (simp add: example_card_def) blast

text \<open>The card does all it is asked to, but the second reading of the file delivers nothing.\<close>

lemma history_merge_atomic_witness:
  "\<exists>ok main'. passive_history_merge_live (Some (example_card\<lparr> hs_source := Some (stored_file []) \<rparr>)) 0 (Some example_live) None =
     Some (ok, main') \<and>
     (ok \<longrightarrow> (\<exists>b h'. main' = Some b \<and> history_load (Some (stored_file b)) history_zero = Some h' \<and>
                 ph_status h' = PassiveHistoryStatusReady))"
proof -
  let ?s = "example_card\<lparr> hs_source := Some (stored_file []) \<rparr>"
  have "rename_replaces (hs_disk ?s)" using example_views(2) by (simp add: example_card_def)
  then show ?thesis
    using history_merge_atomic [OF example_stored_ok(2), of 0 ?s None] by (simp add: PassiveHistoryProtocolAll_def) blast
qed

text \<open>The header of a file that holds a table cannot be read.\<close>

lemma history_read_error_drops_records_witness:
  "passive_history_merge_live (Some (example_card\<lparr> hs_file := Some (stored_file []) \<rparr>)) 0 (Some example_live)
       (Some (history_file_bytes example_store)) =
     Some (True, Some (history_file_bytes (merged_table example_live 0 [])))"
  by (rule history_read_error_drops_records [OF example_stored_ok(2), where f = "stored_file []"])
    (use example_stored_ok(3) in \<open>simp_all add: example_card_def\<close>)

lemma history_clear_refines_witness:
  "\<exists>h' b. passive_history_clear (Some (history_zero\<lparr> ph_entries := entries_from 20 example_store \<rparr>))
         (Some example_card) (\<lambda>b. Some (stored_file b)) 1 None = Some (True, Some h', Some b) \<and>
       length (ph_entries h') = 1"
proof -
  have c: "cleared_table 1 example_store = [(2, example_neighbor 7 2)]"
    by (simp add: cleared_table_def example_store_def history_filter_matches_def PassiveHistoryProtocolAll_def)
  have d: "hs_disk example_card = example_disk" "hs_source example_card = Some (stored_file (history_file_bytes example_store))"
    by (simp_all add: example_card_def)
  show ?thesis
    using history_clear_refines [OF example_stored_ok(1), of 1 example_card
        "history_zero\<lparr> ph_entries := entries_from 20 example_store \<rparr>" "\<lambda>b. Some (stored_file b)" None]
      example_stored_ok(3) example_views c
    by (auto simp: d history_zero_def history_valid_cases)
qed

end
