(* ===== verification/Rx_Dispatch.thy ===== *)
theory Rx_Dispatch
  imports Prelude
begin

text \<open>
  \<open>libraries/chip/rx_dispatch.c\<close>: the dispatcher thread that receives frames and offers them to
  registered handlers, and the calls that other threads make. The threads share \<open>g_dispatch\<close>, partly
  without the mutex, so they are step relations: each step makes at most one access to a
  shared variable outside the mutex, and any order of steps of the threads is a behaviour. The frames,
  the answers of predicates and the timeouts of waits are the environment's choice. Handlers and
  predicates are the addresses of functions, and running one is a state of the dispatcher.
\<close>

section \<open>The state\<close>

definition RX_DISPATCH_MAX_HANDLERS :: nat where [simp]: "RX_DISPATCH_MAX_HANDLERS = 8"

record rx_handle =
  rh_predicate :: "nat ptr"
  rh_handler :: "nat ptr"
  rh_ctx :: "nat ptr"
  rh_in_use :: bool

text \<open>Where the dispatcher thread stands in \<open>rx_dispatch_thread_fn\<close>.\<close>

datatype dispatcher_pc =
    LoopTop | Waiting | Woken | CheckPause | SetAck | ClearAck
  | DrainTop | DrainPause | Receiving | Locking
  | Slot nat | InPredicate nat | InHandler nat | Unlocking
  | Exited

text \<open>Where a calling thread stands: outside, or inside one of the calls.\<close>

datatype client_pc =
    Idle
  | PauseLock | PauseCount | PauseClearAck | PauseUnlock | PauseKick | PausePoll nat | Paused bool
  | ResumeLock | ResumeCount | ResumeUnlock | ResumeKick
  | RegisterLock rx_handle | RegisterBody rx_handle | RegisterUnlock "nat ptr" | Registered nat
  | UnregisterLock nat | UnregisterBody nat | UnregisterUnlock
  | DeinitKick | DeinitJoin

datatype thread = Dispatcher | Client nat

text \<open>
  The mutex is NULL, free (\<open>Some None\<close>) or held. Client \<open>i\<close> is the \<open>i\<close>-th of the threads that make
  calls; a thread that nests two pauses counts as two clients.
\<close>

record rx_dispatch =
  rx_thread_id :: bool
  rx_mutex :: "thread option ptr"
  rx_running :: bool
  rx_pause_count :: u8
  rx_acked_pause :: bool
  rx_slots :: "rx_handle list"
  rx_flag_int :: bool
  rx_pc :: dispatcher_pc
  rx_clients :: "client_pc list"

definition rx_handle_zero :: rx_handle where
  "rx_handle_zero = \<lparr> rh_predicate = None, rh_handler = None, rh_ctx = None, rh_in_use = False \<rparr>"

definition rx_dispatch_init :: "nat \<Rightarrow> rx_dispatch" where
  "rx_dispatch_init n =
     \<lparr> rx_thread_id = True, rx_mutex = Some None, rx_running = True, rx_pause_count = 0,
        rx_acked_pause = False, rx_slots = replicate RX_DISPATCH_MAX_HANDLERS rx_handle_zero,
        rx_flag_int = False, rx_pc = LoopTop, rx_clients = replicate n Idle \<rparr>"

text \<open>The interrupt handler on the INT pin.\<close>

definition rx_dispatch_int_isr :: "rx_dispatch \<Rightarrow> rx_dispatch" where
  "rx_dispatch_int_isr d = (if rx_thread_id d then d\<lparr> rx_flag_int := True \<rparr> else d)"

section \<open>The dispatcher thread\<close>

inductive rx_dispatch_thread_fn :: "rx_dispatch \<Rightarrow> rx_dispatch \<Rightarrow> bool" where
  loop_top: "rx_pc d = LoopTop \<Longrightarrow>
    rx_dispatch_thread_fn d (d\<lparr> rx_pc := if rx_running d then Waiting else Exited \<rparr>)"
| flags_wait: "rx_pc d = Waiting \<Longrightarrow>
    rx_dispatch_thread_fn d (d\<lparr> rx_flag_int := False, rx_pc := Woken \<rparr>)"
| woken: "rx_pc d = Woken \<Longrightarrow>
    rx_dispatch_thread_fn d (d\<lparr> rx_pc := if rx_running d then CheckPause else Exited \<rparr>)"
| check_pause: "rx_pc d = CheckPause \<Longrightarrow>
    rx_dispatch_thread_fn d (d\<lparr> rx_pc := if rx_pause_count d > 0 then SetAck else ClearAck \<rparr>)"
| set_ack: "rx_pc d = SetAck \<Longrightarrow>
    rx_dispatch_thread_fn d (d\<lparr> rx_acked_pause := True, rx_pc := LoopTop \<rparr>)"
| clear_ack: "rx_pc d = ClearAck \<Longrightarrow>
    rx_dispatch_thread_fn d (d\<lparr> rx_acked_pause := False, rx_pc := DrainTop \<rparr>)"
| drain_top: "rx_pc d = DrainTop \<Longrightarrow>
    rx_dispatch_thread_fn d (d\<lparr> rx_pc := if rx_running d then DrainPause else LoopTop \<rparr>)"
| drain_pause: "rx_pc d = DrainPause \<Longrightarrow>
    rx_dispatch_thread_fn d (d\<lparr> rx_pc := if rx_pause_count d > 0 then LoopTop else Receiving \<rparr>)"
| received_none: "rx_pc d = Receiving \<Longrightarrow>
    rx_dispatch_thread_fn d (d\<lparr> rx_pc := LoopTop \<rparr>)"
| received: "rx_pc d = Receiving \<Longrightarrow>
    rx_dispatch_thread_fn d (d\<lparr> rx_pc := Locking \<rparr>)"
| lock: "rx_pc d = Locking \<Longrightarrow> rx_mutex d = Some None \<Longrightarrow>
    rx_dispatch_thread_fn d (d\<lparr> rx_mutex := Some (Some Dispatcher), rx_pc := Slot 0 \<rparr>)"
| slots_done: "rx_pc d = Slot i \<Longrightarrow> i \<ge> RX_DISPATCH_MAX_HANDLERS \<Longrightarrow>
    rx_dispatch_thread_fn d (d\<lparr> rx_pc := Unlocking \<rparr>)"
| slot_free: "rx_pc d = Slot i \<Longrightarrow> i < RX_DISPATCH_MAX_HANDLERS \<Longrightarrow> \<not> rh_in_use (rx_slots d ! i) \<Longrightarrow>
    rx_dispatch_thread_fn d (d\<lparr> rx_pc := Slot (i + 1) \<rparr>)"
| slot_used: "rx_pc d = Slot i \<Longrightarrow> i < RX_DISPATCH_MAX_HANDLERS \<Longrightarrow> rh_in_use (rx_slots d ! i) \<Longrightarrow>
    rx_dispatch_thread_fn d (d\<lparr> rx_pc := InPredicate i \<rparr>)"
| predicate: "rx_pc d = InPredicate i \<Longrightarrow>
    rx_dispatch_thread_fn d (d\<lparr> rx_pc := if answer then InHandler i else Slot (i + 1) \<rparr>)"
| handler: "rx_pc d = InHandler i \<Longrightarrow>
    rx_dispatch_thread_fn d (d\<lparr> rx_pc := Slot (i + 1) \<rparr>)"
| unlock: "rx_pc d = Unlocking \<Longrightarrow>
    rx_dispatch_thread_fn d (d\<lparr> rx_mutex := Some None, rx_pc := DrainTop \<rparr>)"

section \<open>The calls\<close>

text \<open>Releasing a mutex checks its owner, as the firmware does.\<close>

definition rx_at :: "rx_dispatch \<Rightarrow> nat \<Rightarrow> client_pc \<Rightarrow> bool" where
  "rx_at d c p \<longleftrightarrow> c < length (rx_clients d) \<and> rx_clients d ! c = p"

definition go :: "nat \<Rightarrow> client_pc \<Rightarrow> rx_dispatch \<Rightarrow> rx_dispatch" where
  "go c p d = d\<lparr> rx_clients := (rx_clients d)[c := p] \<rparr>"

text \<open>
  The end of the polling loop is \<open>Paused True\<close> when the acknowledgement was seen, \<open>Paused False\<close> when 20
  polls passed without it.
\<close>

inductive rx_dispatch_pause :: "nat \<Rightarrow> rx_dispatch \<Rightarrow> rx_dispatch \<Rightarrow> bool" where
  pause_null: "rx_at d c Idle \<Longrightarrow> rx_mutex d = None \<Longrightarrow> rx_dispatch_pause c d d"
| pause_start: "rx_at d c Idle \<Longrightarrow> rx_mutex d \<noteq> None \<Longrightarrow> rx_dispatch_pause c d (go c PauseLock d)"
| pause_lock: "rx_at d c PauseLock \<Longrightarrow> rx_mutex d = Some None \<Longrightarrow>
    rx_dispatch_pause c d (go c PauseCount (d\<lparr> rx_mutex := Some (Some (Client c)) \<rparr>))"
| pause_count: "rx_at d c PauseCount \<Longrightarrow>
    rx_dispatch_pause c d (go c PauseClearAck (d\<lparr> rx_pause_count := rx_pause_count d + 1 \<rparr>))"
| pause_clear_ack: "rx_at d c PauseClearAck \<Longrightarrow>
    rx_dispatch_pause c d (go c PauseUnlock (d\<lparr> rx_acked_pause := False \<rparr>))"
| pause_unlock: "rx_at d c PauseUnlock \<Longrightarrow> rx_mutex d = Some (Some (Client c)) \<Longrightarrow>
    rx_dispatch_pause c d (go c PauseKick (d\<lparr> rx_mutex := Some None \<rparr>))"
| pause_kick: "rx_at d c PauseKick \<Longrightarrow>
    rx_dispatch_pause c d (go c (PausePoll 0) (rx_dispatch_int_isr d))"
| pause_poll: "rx_at d c (PausePoll i) \<Longrightarrow> i < 20 \<Longrightarrow>
    rx_dispatch_pause c d (go c (if rx_acked_pause d then Paused True else PausePoll (i + 1)) d)"
| pause_give_up: "rx_at d c (PausePoll i) \<Longrightarrow> i \<ge> 20 \<Longrightarrow>
    rx_dispatch_pause c d (go c (Paused False) d)"

inductive rx_dispatch_resume :: "nat \<Rightarrow> rx_dispatch \<Rightarrow> rx_dispatch \<Rightarrow> bool" where
  resume_null: "rx_at d c (Paused b) \<Longrightarrow> rx_mutex d = None \<Longrightarrow> rx_dispatch_resume c d d"
| resume_start: "rx_at d c (Paused b) \<Longrightarrow> rx_mutex d \<noteq> None \<Longrightarrow> rx_dispatch_resume c d (go c ResumeLock d)"
| resume_lock: "rx_at d c ResumeLock \<Longrightarrow> rx_mutex d = Some None \<Longrightarrow>
    rx_dispatch_resume c d (go c ResumeCount (d\<lparr> rx_mutex := Some (Some (Client c)) \<rparr>))"
| resume_count: "rx_at d c ResumeCount \<Longrightarrow>
    rx_dispatch_resume c d (go c ResumeUnlock
      (if rx_pause_count d > 0 then d\<lparr> rx_pause_count := rx_pause_count d - 1 \<rparr> else d))"
| resume_unlock: "rx_at d c ResumeUnlock \<Longrightarrow> rx_mutex d = Some (Some (Client c)) \<Longrightarrow>
    rx_dispatch_resume c d (go c ResumeKick (d\<lparr> rx_mutex := Some None \<rparr>))"
| resume_kick: "rx_at d c ResumeKick \<Longrightarrow>
    rx_dispatch_resume c d (go c Idle (rx_dispatch_int_isr d))"

text \<open>The loop over the slots: the slots with the entry in the first free one, and its index.\<close>

fun register_slot :: "rx_handle list \<Rightarrow> rx_handle \<Rightarrow> rx_handle list \<times> nat ptr" where
  "register_slot [] h = ([], None)"
| "register_slot (s # ss) h =
     (if \<not> rh_in_use s then (h # ss, Some 0)
      else let (ss', r) = register_slot ss h in (s # ss', map_option Suc r))"

definition unregister_slot :: "rx_handle list \<Rightarrow> nat \<Rightarrow> rx_handle list" where
  "unregister_slot slots i = slots[i := rx_handle_zero]"

inductive rx_register :: "nat \<Rightarrow> rx_dispatch \<Rightarrow> rx_dispatch \<Rightarrow> bool" where
  register_null: "rx_at d c Idle \<Longrightarrow> rx_mutex d = None \<Longrightarrow> rx_register c d d"
| register_start: "rx_at d c Idle \<Longrightarrow> rx_mutex d \<noteq> None \<Longrightarrow> rh_in_use h \<Longrightarrow>
    rx_register c d (go c (RegisterLock h) d)"
| register_lock: "rx_at d c (RegisterLock h) \<Longrightarrow> rx_mutex d = Some None \<Longrightarrow>
    rx_register c d (go c (RegisterBody h) (d\<lparr> rx_mutex := Some (Some (Client c)) \<rparr>))"
| register_body: "rx_at d c (RegisterBody h) \<Longrightarrow> register_slot (rx_slots d) h = (slots, r) \<Longrightarrow>
    rx_register c d (go c (RegisterUnlock r) (d\<lparr> rx_slots := slots \<rparr>))"
| register_unlock: "rx_at d c (RegisterUnlock r) \<Longrightarrow> rx_mutex d = Some (Some (Client c)) \<Longrightarrow>
    rx_register c d (go c (case r of Some i \<Rightarrow> Registered i | None \<Rightarrow> Idle) (d\<lparr> rx_mutex := Some None \<rparr>))"

inductive rx_unregister :: "nat \<Rightarrow> rx_dispatch \<Rightarrow> rx_dispatch \<Rightarrow> bool" where
  unregister_null: "rx_at d c (Registered i) \<Longrightarrow> rx_mutex d = None \<Longrightarrow> rx_unregister c d d"
| unregister_start: "rx_at d c (Registered i) \<Longrightarrow> rx_mutex d \<noteq> None \<Longrightarrow>
    rx_unregister c d (go c (UnregisterLock i) d)"
| unregister_lock: "rx_at d c (UnregisterLock i) \<Longrightarrow> rx_mutex d = Some None \<Longrightarrow>
    rx_unregister c d (go c (UnregisterBody i) (d\<lparr> rx_mutex := Some (Some (Client c)) \<rparr>))"
| unregister_body: "rx_at d c (UnregisterBody i) \<Longrightarrow>
    rx_unregister c d (go c UnregisterUnlock (d\<lparr> rx_slots := unregister_slot (rx_slots d) i \<rparr>))"
| unregister_unlock: "rx_at d c UnregisterUnlock \<Longrightarrow> rx_mutex d = Some (Some (Client c)) \<Longrightarrow>
    rx_unregister c d (go c Idle (d\<lparr> rx_mutex := Some None \<rparr>))"

inductive rx_dispatch_deinit :: "nat \<Rightarrow> rx_dispatch \<Rightarrow> rx_dispatch \<Rightarrow> bool" where
  deinit_not_running: "rx_at d c Idle \<Longrightarrow> \<not> rx_running d \<Longrightarrow> rx_dispatch_deinit c d d"
| deinit_stop: "rx_at d c Idle \<Longrightarrow> rx_running d \<Longrightarrow>
    rx_dispatch_deinit c d (go c DeinitKick (d\<lparr> rx_running := False \<rparr>))"
| deinit_kick: "rx_at d c DeinitKick \<Longrightarrow>
    rx_dispatch_deinit c d (go c DeinitJoin (rx_dispatch_int_isr d))"
| deinit_join: "rx_at d c DeinitJoin \<Longrightarrow> rx_pc d = Exited \<Longrightarrow>
    rx_dispatch_deinit c d (go c Idle (d\<lparr> rx_thread_id := False, rx_mutex := None \<rparr>))"

text \<open>One step of any thread, or an interrupt.\<close>

inductive rx_step :: "rx_dispatch \<Rightarrow> rx_dispatch \<Rightarrow> bool" where
  thread_step: "rx_dispatch_thread_fn d d' \<Longrightarrow> rx_step d d'"
| interrupt: "rx_step d (rx_dispatch_int_isr d)"
| pause_step: "rx_dispatch_pause c d d' \<Longrightarrow> rx_step d d'"
| resume_step: "rx_dispatch_resume c d d' \<Longrightarrow> rx_step d d'"
| register_step: "rx_register c d d' \<Longrightarrow> rx_step d d'"
| unregister_step: "rx_unregister c d d' \<Longrightarrow> rx_step d d'"
| deinit_step: "rx_dispatch_deinit c d d' \<Longrightarrow> rx_step d d'"

definition rx_reachable :: "nat \<Rightarrow> rx_dispatch \<Rightarrow> bool" where
  "rx_reachable n d \<longleftrightarrow> rx_step\<^sup>*\<^sup>* (rx_dispatch_init n) d"

section \<open>Automation\<close>

inductive_cases dispatcher_stepE: "rx_dispatch_thread_fn d d'"
inductive_cases pause_stepE: "rx_dispatch_pause c d d'"
inductive_cases resume_stepE: "rx_dispatch_resume c d d'"
inductive_cases register_stepE: "rx_register c d d'"
inductive_cases unregister_stepE: "rx_unregister c d d'"
inductive_cases deinit_stepE: "rx_dispatch_deinit c d d'"

lemmas client_stepE = pause_stepE resume_stepE register_stepE unregister_stepE deinit_stepE

lemma go_simps [simp]:
  "rx_thread_id (go c p d) = rx_thread_id d" "rx_mutex (go c p d) = rx_mutex d"
  "rx_running (go c p d) = rx_running d" "rx_pause_count (go c p d) = rx_pause_count d"
  "rx_acked_pause (go c p d) = rx_acked_pause d" "rx_slots (go c p d) = rx_slots d"
  "rx_pc (go c p d) = rx_pc d" "rx_clients (go c p d) = (rx_clients d)[c := p]"
  by (simp_all add: go_def)

lemma isr_simps [simp]:
  "rx_thread_id (rx_dispatch_int_isr d) = rx_thread_id d" "rx_mutex (rx_dispatch_int_isr d) = rx_mutex d"
  "rx_running (rx_dispatch_int_isr d) = rx_running d" "rx_pause_count (rx_dispatch_int_isr d) = rx_pause_count d"
  "rx_acked_pause (rx_dispatch_int_isr d) = rx_acked_pause d" "rx_slots (rx_dispatch_int_isr d) = rx_slots d"
  "rx_pc (rx_dispatch_int_isr d) = rx_pc d" "rx_clients (rx_dispatch_int_isr d) = rx_clients d"
  by (simp_all add: rx_dispatch_int_isr_def)

lemma at_update: "rx_clients d' = (rx_clients d)[c := p] \<Longrightarrow>
    rx_at d' k q \<longleftrightarrow> (if k = c then k < length (rx_clients d) \<and> p = q else rx_at d k q)"
  by (auto simp: rx_at_def)

lemma at_go [simp]: "rx_at (go c p d) k q \<longleftrightarrow> (if k = c then c < length (rx_clients d) \<and> p = q else rx_at d k q)"
  by (auto simp: rx_at_def)

lemma at_isr [simp]: "rx_at (rx_dispatch_int_isr d) k q \<longleftrightarrow> rx_at d k q"
  by (simp add: rx_at_def)

lemma at_fields [simp]:
  "rx_at (d\<lparr> rx_mutex := m \<rparr>) k q \<longleftrightarrow> rx_at d k q" "rx_at (d\<lparr> rx_pause_count := n \<rparr>) k q \<longleftrightarrow> rx_at d k q"
  "rx_at (d\<lparr> rx_acked_pause := b \<rparr>) k q \<longleftrightarrow> rx_at d k q" "rx_at (d\<lparr> rx_slots := ss \<rparr>) k q \<longleftrightarrow> rx_at d k q"
  "rx_at (d\<lparr> rx_running := b \<rparr>) k q \<longleftrightarrow> rx_at d k q" "rx_at (d\<lparr> rx_thread_id := b \<rparr>) k q \<longleftrightarrow> rx_at d k q"
  "rx_at (d\<lparr> rx_pc := pc \<rparr>) k q \<longleftrightarrow> rx_at d k q" "rx_at (d\<lparr> rx_flag_int := b \<rparr>) k q \<longleftrightarrow> rx_at d k q"
  by (simp_all add: rx_at_def)

lemma at_unique: "rx_at d c p \<Longrightarrow> rx_at d c q \<longleftrightarrow> p = q"
  by (auto simp: rx_at_def)

lemma at_bound: "rx_at d c p \<Longrightarrow> c < length (rx_clients d)"
  by (simp add: rx_at_def)

section \<open>The mutex\<close>

fun client_holds :: "client_pc \<Rightarrow> bool" where
  "client_holds PauseCount = True"
| "client_holds PauseClearAck = True"
| "client_holds PauseUnlock = True"
| "client_holds ResumeCount = True"
| "client_holds ResumeUnlock = True"
| "client_holds (RegisterBody _) = True"
| "client_holds (RegisterUnlock _) = True"
| "client_holds (UnregisterBody _) = True"
| "client_holds UnregisterUnlock = True"
| "client_holds _ = False"

fun dispatcher_holds :: "dispatcher_pc \<Rightarrow> bool" where
  "dispatcher_holds (Slot _) = True"
| "dispatcher_holds (InPredicate _) = True"
| "dispatcher_holds (InHandler _) = True"
| "dispatcher_holds Unlocking = True"
| "dispatcher_holds _ = False"

definition mutex_inv :: "rx_dispatch \<Rightarrow> bool" where
  "mutex_inv d \<longleftrightarrow>
     (\<forall>c p. rx_at d c p \<longrightarrow> client_holds p \<longrightarrow> rx_mutex d \<noteq> None \<longrightarrow> rx_mutex d = Some (Some (Client c))) \<and>
     (dispatcher_holds (rx_pc d) \<longleftrightarrow> rx_mutex d = Some (Some Dispatcher)) \<and>
     (rx_mutex d = None \<longrightarrow> rx_pc d = Exited)"

lemma mutex_inv_init: "mutex_inv (rx_dispatch_init n)"
  by (auto simp: mutex_inv_def rx_dispatch_init_def rx_at_def)

lemma mutex_inv_dispatcher: "mutex_inv d \<Longrightarrow> rx_dispatch_thread_fn d d' \<Longrightarrow> mutex_inv d'"
  by (erule dispatcher_stepE) (auto simp: mutex_inv_def)

text \<open>What a client's step does to its own place and to the mutex.\<close>

definition client_move :: "nat \<Rightarrow> rx_dispatch \<Rightarrow> rx_dispatch \<Rightarrow> bool" where
  "client_move c d d' \<longleftrightarrow>
     c < length (rx_clients d) \<and> rx_clients d' = (rx_clients d)[c := rx_clients d' ! c] \<and> rx_pc d' = rx_pc d \<and>
     (let h = client_holds (rx_clients d ! c); h' = client_holds (rx_clients d' ! c)
      in if h then (h' \<and> rx_mutex d' = rx_mutex d) \<or>
                   (\<not> h' \<and> rx_mutex d = Some (Some (Client c)) \<and> rx_mutex d' = Some None)
         else (h' \<and> rx_mutex d = Some None \<and> rx_mutex d' = Some (Some (Client c))) \<or>
              (\<not> h' \<and> (rx_mutex d' = rx_mutex d \<or> rx_mutex d' = None \<and> rx_pc d = Exited)))"

lemma client_moveI:
  assumes "rx_at d c p" "rx_clients d' = (rx_clients d)[c := q]" "rx_pc d' = rx_pc d"
    and "if client_holds p then (client_holds q \<and> rx_mutex d' = rx_mutex d) \<or>
             (\<not> client_holds q \<and> rx_mutex d = Some (Some (Client c)) \<and> rx_mutex d' = Some None)
         else (client_holds q \<and> rx_mutex d = Some None \<and> rx_mutex d' = Some (Some (Client c))) \<or>
              (\<not> client_holds q \<and> (rx_mutex d' = rx_mutex d \<or> rx_mutex d' = None \<and> rx_pc d = Exited))"
  shows "client_move c d d'"
proof -
  have c: "c < length (rx_clients d)" "rx_clients d ! c = p" using assms(1) by (simp_all add: rx_at_def)
  have "rx_clients d' ! c = q" using assms(2) c by simp
  then show ?thesis using assms c unfolding client_move_def Let_def by simp
qed

lemma client_move_stay: "rx_at d c p \<Longrightarrow> client_move c d d"
  by (rule client_moveI [where q = p]) (auto simp: rx_at_def)

lemma pause_move: "rx_dispatch_pause c d d' \<Longrightarrow> client_move c d d'"
  by (erule pause_stepE) (auto intro: client_moveI client_move_stay)

lemma resume_move: "rx_dispatch_resume c d d' \<Longrightarrow> client_move c d d'"
  by (erule resume_stepE) (auto intro: client_moveI client_move_stay)

lemma register_move: "rx_register c d d' \<Longrightarrow> client_move c d d'"
  by (erule register_stepE) (auto intro: client_moveI client_move_stay split: option.splits)

lemma unregister_move: "rx_unregister c d d' \<Longrightarrow> client_move c d d'"
  by (erule unregister_stepE) (auto intro: client_moveI client_move_stay)

lemma deinit_move: "rx_dispatch_deinit c d d' \<Longrightarrow> client_move c d d'"
  by (erule deinit_stepE) (auto intro: client_moveI client_move_stay)

lemmas client_moves = pause_move resume_move register_move unregister_move deinit_move

lemma mutex_inv_client:
  assumes inv: "mutex_inv d" and m: "client_move c d d'"
  shows "mutex_inv d'"
proof -
  let ?h = "client_holds (rx_clients d ! c)" and ?h' = "client_holds (rx_clients d' ! c)"
  have c: "c < length (rx_clients d)" "rx_clients d' = (rx_clients d)[c := rx_clients d' ! c]" "rx_pc d' = rx_pc d"
    using m by (simp_all add: client_move_def)
  have own: "\<And>k p. rx_at d k p \<Longrightarrow> client_holds p \<Longrightarrow> rx_mutex d \<noteq> None \<Longrightarrow> rx_mutex d = Some (Some (Client k))"
    and disp: "dispatcher_holds (rx_pc d) \<longleftrightarrow> rx_mutex d = Some (Some Dispatcher)"
    and dead: "rx_mutex d = None \<longrightarrow> rx_pc d = Exited"
    using inv unfolding mutex_inv_def by blast+
  have cases: "if ?h then (?h' \<and> rx_mutex d' = rx_mutex d) \<or>
                   (\<not> ?h' \<and> rx_mutex d = Some (Some (Client c)) \<and> rx_mutex d' = Some None)
         else (?h' \<and> rx_mutex d = Some None \<and> rx_mutex d' = Some (Some (Client c))) \<or>
              (\<not> ?h' \<and> (rx_mutex d' = rx_mutex d \<or> rx_mutex d' = None \<and> rx_pc d = Exited))"
    using m unfolding client_move_def Let_def by blast
  have other: "rx_at d k p" if "rx_at d' k p" "k \<noteq> c" for k p using that at_update [OF c(2), of k p] by simp
  have self: "rx_clients d' ! c = p" if "rx_at d' c p" for p using that by (simp add: rx_at_def)
  have at: "rx_at d c (rx_clients d ! c)" using c(1) by (simp add: rx_at_def)
  have "rx_mutex d' = Some (Some (Client k))" if k: "rx_at d' k p" "client_holds p" "rx_mutex d' \<noteq> None" for k p
  proof (cases "k = c")
    case True
    then have h': "?h'" using self k(1,2) by simp
    show ?thesis
    proof (cases ?h)
      case True
      then have "rx_mutex d' = rx_mutex d" using cases h' by simp
      then show ?thesis using own [OF at True] k(3) \<open>k = c\<close> by simp
    next
      case False
      then show ?thesis using cases h' \<open>k = c\<close> by simp
    qed
  next
    case False
    have "rx_at d k p" using other k(1) False by blast
    note mine = own [OF this k(2)]
    have "rx_mutex d \<noteq> None"
    proof
      assume none: "rx_mutex d = None"
      then have "rx_mutex d' = None" using cases by (cases ?h) auto
      then show False using k(3) by blast
    qed
    then have held: "rx_mutex d = Some (Some (Client k))" by (rule mine)
    then have "\<not> ?h" using own [OF at] False by auto
    then have "rx_mutex d' = rx_mutex d" using cases held k(3) by (cases ?h') auto
    then show ?thesis using held by simp
  qed
  moreover have "dispatcher_holds (rx_pc d') \<longleftrightarrow> rx_mutex d' = Some (Some Dispatcher)"
    using cases disp c(3) own [OF at] by (auto split: if_splits)
  moreover have "rx_mutex d' = None \<longrightarrow> rx_pc d' = Exited" using cases dead c(3) by (auto split: if_splits)
  ultimately show ?thesis unfolding mutex_inv_def by blast
qed

lemma mutex_inv_isr: "mutex_inv d \<Longrightarrow> mutex_inv (rx_dispatch_int_isr d)"
  by (simp add: mutex_inv_def)

lemma mutex_inv_step: "mutex_inv d \<Longrightarrow> rx_step d d' \<Longrightarrow> mutex_inv d'"
  by (erule rx_step.cases) (auto intro: mutex_inv_dispatcher mutex_inv_isr mutex_inv_client client_moves)

section \<open>The slots\<close>

lemma register_slot_spec:
  "register_slot slots h = (slots', r) \<Longrightarrow>
     (case r of
        None \<Rightarrow> slots' = slots \<and> (\<forall>s\<in>set slots. rh_in_use s)
      | Some i \<Rightarrow> i < length slots \<and> \<not> rh_in_use (slots ! i) \<and> (\<forall>j<i. rh_in_use (slots ! j)) \<and>
                  slots' = slots[i := h])"
proof (induction slots arbitrary: slots' r)
  case (Cons s slots)
  show ?case
  proof (cases "rh_in_use s")
    case False
    then show ?thesis using Cons.prems by auto
  next
    case True
    obtain ss r0 where rec: "register_slot slots h = (ss, r0)" by (cases "register_slot slots h")
    with Cons.prems True have r: "slots' = s # ss" "r = map_option Suc r0" by auto
    show ?thesis using Cons.IH [OF rec] True unfolding r by (cases r0) (auto simp: nth_Cons' less_Suc_eq_0_disj)
  qed
qed auto

fun slot_in_call :: "dispatcher_pc \<Rightarrow> nat ptr" where
  "slot_in_call (InPredicate i) = Some i"
| "slot_in_call (InHandler i) = Some i"
| "slot_in_call _ = None"

lemma in_call_holds: "slot_in_call pc = Some i \<Longrightarrow> dispatcher_holds pc"
  by (cases pc) auto

text \<open>The slot that a client's place speaks of as its own.\<close>

fun owned_slot :: "client_pc \<Rightarrow> nat ptr" where
  "owned_slot (RegisterUnlock r) = r"
| "owned_slot (Registered i) = Some i"
| "owned_slot (UnregisterLock i) = Some i"
| "owned_slot (UnregisterBody i) = Some i"
| "owned_slot _ = None"

fun entry_to_add :: "client_pc \<Rightarrow> rx_handle ptr" where
  "entry_to_add (RegisterLock h) = Some h"
| "entry_to_add (RegisterBody h) = Some h"
| "entry_to_add _ = None"

definition slots_inv :: "rx_dispatch \<Rightarrow> bool" where
  "slots_inv d \<longleftrightarrow>
     length (rx_slots d) = RX_DISPATCH_MAX_HANDLERS \<and>
     (\<forall>i. slot_in_call (rx_pc d) = Some i \<longrightarrow> i < 8 \<and> rh_in_use (rx_slots d ! i)) \<and>
     (\<forall>c p i. rx_at d c p \<longrightarrow> owned_slot p = Some i \<longrightarrow> i < 8 \<and> rh_in_use (rx_slots d ! i)) \<and>
     (\<forall>c p c' p' i. rx_at d c p \<longrightarrow> rx_at d c' p' \<longrightarrow> owned_slot p = Some i \<longrightarrow> owned_slot p' = Some i \<longrightarrow> c = c') \<and>
     (\<forall>c p h. rx_at d c p \<longrightarrow> entry_to_add p = Some h \<longrightarrow> rh_in_use h)"

text \<open>What a client's step does to the slots.\<close>

definition slots_move :: "nat \<Rightarrow> rx_dispatch \<Rightarrow> rx_dispatch \<Rightarrow> bool" where
  "slots_move c d d' \<longleftrightarrow>
     (let p = rx_clients d ! c; p' = rx_clients d' ! c
      in (\<forall>h. entry_to_add p' = Some h \<longrightarrow> entry_to_add p = Some h \<or> rh_in_use h) \<and>
         ((rx_slots d' = rx_slots d \<and> owned_slot p' \<in> {owned_slot p, None}) \<or>
          (\<exists>i h. client_holds p \<and> entry_to_add p = Some h \<and> i < length (rx_slots d) \<and> \<not> rh_in_use (rx_slots d ! i) \<and>
               rx_slots d' = (rx_slots d)[i := h] \<and> owned_slot p' = Some i) \<or>
          (\<exists>i. client_holds p \<and> owned_slot p = Some i \<and> rx_slots d' = (rx_slots d)[i := rx_handle_zero] \<and>
               owned_slot p' = None)))"

lemma slots_moveI:
  assumes "rx_at d c p" "rx_clients d' = (rx_clients d)[c := q]"
    and "entry_to_add q = entry_to_add p \<or> entry_to_add q = None \<or> rh_in_use (the (entry_to_add q))"
    and "rx_slots d' = rx_slots d" "owned_slot q = owned_slot p \<or> owned_slot q = None"
  shows "slots_move c d d'"
  using assms by (auto simp: slots_move_def rx_at_def)

lemma slots_move_stay: "rx_at d c p \<Longrightarrow> slots_move c d d"
  by (auto simp: slots_move_def rx_at_def)

lemma pause_slots: "rx_dispatch_pause c d d' \<Longrightarrow> slots_move c d d'"
  by (erule pause_stepE) (auto intro: slots_moveI slots_move_stay)

lemma resume_slots: "rx_dispatch_resume c d d' \<Longrightarrow> slots_move c d d'"
  by (erule resume_stepE) (auto intro: slots_moveI slots_move_stay)

lemma deinit_slots: "rx_dispatch_deinit c d d' \<Longrightarrow> slots_move c d d'"
  by (erule deinit_stepE) (auto intro: slots_moveI slots_move_stay)

lemma unregister_slots: "rx_unregister c d d' \<Longrightarrow> slots_move c d d'"
proof (erule unregister_stepE)
  fix i assume "d' = go c UnregisterUnlock (d\<lparr> rx_slots := unregister_slot (rx_slots d) i \<rparr>)" "rx_at d c (UnregisterBody i)"
  then show "slots_move c d d'" by (simp add: slots_move_def rx_at_def unregister_slot_def)
qed (auto intro: slots_moveI slots_move_stay)

lemma register_slots: "rx_register c d d' \<Longrightarrow> slots_move c d d'"
proof (erule register_stepE)
  fix h slots r
  assume "d' = go c (RegisterUnlock r) (d\<lparr> rx_slots := slots \<rparr>)" "rx_at d c (RegisterBody h)"
    "register_slot (rx_slots d) h = (slots, r)"
  then show "slots_move c d d'"
    using register_slot_spec [of "rx_slots d" h slots r] by (cases r) (auto simp: slots_move_def rx_at_def)
qed (auto intro: slots_moveI slots_move_stay split: option.splits)

lemmas client_slots = pause_slots resume_slots register_slots unregister_slots deinit_slots

lemma slots_inv_init: "slots_inv (rx_dispatch_init n)"
  by (auto simp: slots_inv_def rx_dispatch_init_def rx_at_def)

lemma slots_inv_dispatcher: "slots_inv d \<Longrightarrow> rx_dispatch_thread_fn d d' \<Longrightarrow> slots_inv d'"
  by (erule dispatcher_stepE) (auto simp: slots_inv_def)

lemma slots_inv_client:
  assumes mut: "mutex_inv d" and inv: "slots_inv d" and m: "client_move c d d'" and s: "slots_move c d d'"
  shows "slots_inv d'"
proof -
  let ?p = "rx_clients d ! c" and ?p' = "rx_clients d' ! c"
  have c: "c < length (rx_clients d)" "rx_clients d' = (rx_clients d)[c := ?p']" "rx_pc d' = rx_pc d"
    using m by (simp_all add: client_move_def)
  have at: "rx_at d c ?p" using c(1) by (simp add: rx_at_def)
  have at': "rx_at d' k q \<longleftrightarrow> (if k = c then q = ?p' else rx_at d k q)" for k q
    using at_update [OF c(2), of k q] c(1) by auto
  have len: "length (rx_slots d) = 8"
    and call: "\<And>i. slot_in_call (rx_pc d) = Some i \<Longrightarrow> i < 8 \<and> rh_in_use (rx_slots d ! i)"
    and own: "\<And>k q i. rx_at d k q \<Longrightarrow> owned_slot q = Some i \<Longrightarrow> i < 8 \<and> rh_in_use (rx_slots d ! i)"
    and uniq: "\<And>k q k' q' i. rx_at d k q \<Longrightarrow> rx_at d k' q' \<Longrightarrow> owned_slot q = Some i \<Longrightarrow> owned_slot q' = Some i \<Longrightarrow> k = k'"
    and ent: "\<And>k q h. rx_at d k q \<Longrightarrow> entry_to_add q = Some h \<Longrightarrow> rh_in_use h"
    using inv unfolding slots_inv_def RX_DISPATCH_MAX_HANDLERS_def by blast+
  have idle: "slot_in_call (rx_pc d) = None" if "client_holds ?p"
  proof -
    have "rx_mutex d \<noteq> Some (Some Dispatcher)" using mut at that unfolding mutex_inv_def by force
    then have "\<not> dispatcher_holds (rx_pc d)" using mut unfolding mutex_inv_def by blast
    then show ?thesis using in_call_holds by (cases "slot_in_call (rx_pc d)") auto
  qed
  have ent': "rh_in_use h" if "rx_at d' k q" "entry_to_add q = Some h" for k q h
  proof (cases "k = c")
    case True
    then show ?thesis using that at' [of k q] s ent [OF at] unfolding slots_move_def Let_def by auto
  next
    case False
    then show ?thesis using that at' [of k q] ent [of k q h] by simp
  qed
  have "(rx_slots d' = rx_slots d \<and> owned_slot ?p' \<in> {owned_slot ?p, None}) \<or>
        (\<exists>i h. client_holds ?p \<and> entry_to_add ?p = Some h \<and> i < length (rx_slots d) \<and> \<not> rh_in_use (rx_slots d ! i) \<and>
             rx_slots d' = (rx_slots d)[i := h] \<and> owned_slot ?p' = Some i) \<or>
        (\<exists>i. client_holds ?p \<and> owned_slot ?p = Some i \<and> rx_slots d' = (rx_slots d)[i := rx_handle_zero] \<and>
             owned_slot ?p' = None)"
    using s unfolding slots_move_def Let_def by (rule conjunct2)
  then show ?thesis
  proof (elim disjE exE)
    assume same: "rx_slots d' = rx_slots d \<and> owned_slot ?p' \<in> {owned_slot ?p, None}"
    have old: "\<exists>q0. rx_at d k q0 \<and> owned_slot q0 = Some i" if "rx_at d' k q" "owned_slot q = Some i" for k q i
    proof (cases "k = c")
      case True
      then show ?thesis using that at' [of k q] at same by auto
    next
      case False
      then show ?thesis using that at' [of k q] by auto
    qed
    have own': "i < 8 \<and> rh_in_use (rx_slots d ! i)" if "rx_at d' k q" "owned_slot q = Some i" for k q i
      using old [OF that] own by blast
    have uniq': "k = k'" if "rx_at d' k q" "rx_at d' k' q'" "owned_slot q = Some i" "owned_slot q' = Some i" for k q k' q' i
      using old [OF that(1,3)] old [OF that(2,4)] uniq by blast
    show ?thesis
      unfolding slots_inv_def using len call own' uniq' ent' same c(3) by auto
  next
    fix i h
    assume "client_holds ?p \<and> entry_to_add ?p = Some h \<and> i < length (rx_slots d) \<and> \<not> rh_in_use (rx_slots d ! i) \<and>
             rx_slots d' = (rx_slots d)[i := h] \<and> owned_slot ?p' = Some i"
    then have add: "client_holds ?p" "entry_to_add ?p = Some h" "i < length (rx_slots d)" "\<not> rh_in_use (rx_slots d ! i)"
        "rx_slots d' = (rx_slots d)[i := h]" "owned_slot ?p' = Some i" by blast+
    have used: "rh_in_use h" using ent [OF at add(2)] .
    have own': "j < 8 \<and> rh_in_use (rx_slots d' ! j)" if "rx_at d' k q" "owned_slot q = Some j" for k q j
      using that at' [of k q] own [of k q j] add used len by (auto split: if_splits simp: nth_list_update)
    have uniq': "k = k'" if "rx_at d' k q" "rx_at d' k' q'" "owned_slot q = Some j" "owned_slot q' = Some j" for k q k' q' j
      using that at' [of k q] at' [of k' q'] uniq [of k q k' q' j] own [of k q j] own [of k' q' j] add(4,6)
      by (auto split: if_splits)
    show ?thesis
      unfolding slots_inv_def using len own' uniq' ent' idle [OF add(1)] add(5) c(3) by auto
  next
    fix i
    assume "client_holds ?p \<and> owned_slot ?p = Some i \<and> rx_slots d' = (rx_slots d)[i := rx_handle_zero] \<and>
             owned_slot ?p' = None"
    then have remove: "client_holds ?p" "owned_slot ?p = Some i" "rx_slots d' = (rx_slots d)[i := rx_handle_zero]"
        "owned_slot ?p' = None" by blast+
    have own': "j < 8 \<and> rh_in_use (rx_slots d' ! j)" if "rx_at d' k q" "owned_slot q = Some j" for k q j
    proof -
      have k: "rx_at d k q" "k \<noteq> c" using that at' [of k q] remove(4) by (auto split: if_splits)
      then have "j \<noteq> i" using uniq [OF k(1) at that(2)] remove(2) by blast
      then show ?thesis using own [OF k(1) that(2)] remove(3) by (simp add: nth_list_update)
    qed
    have uniq': "k = k'" if "rx_at d' k q" "rx_at d' k' q'" "owned_slot q = Some j" "owned_slot q' = Some j" for k q k' q' j
      using that at' [of k q] at' [of k' q'] uniq [of k q k' q' j] remove(4) by (auto split: if_splits)
    show ?thesis
      unfolding slots_inv_def using len own' uniq' ent' idle [OF remove(1)] remove(3) c(3) by auto
  qed
qed

lemma slots_inv_isr: "slots_inv d \<Longrightarrow> slots_inv (rx_dispatch_int_isr d)"
  by (simp add: slots_inv_def)

lemma slots_inv_step: "mutex_inv d \<Longrightarrow> slots_inv d \<Longrightarrow> rx_step d d' \<Longrightarrow> slots_inv d'"
  by (erule rx_step.cases)
    (auto intro: slots_inv_dispatcher slots_inv_isr slots_inv_client client_moves client_slots)

section \<open>The pause counter\<close>

fun pausing :: "client_pc \<Rightarrow> bool" where
  "pausing PauseClearAck = True"
| "pausing PauseUnlock = True"
| "pausing PauseKick = True"
| "pausing (PausePoll _) = True"
| "pausing (Paused _) = True"
| "pausing ResumeLock = True"
| "pausing ResumeCount = True"
| "pausing _ = False"

definition count_inv :: "rx_dispatch \<Rightarrow> bool" where
  "count_inv d \<longleftrightarrow> length (rx_clients d) < 256 \<and> unat (rx_pause_count d) = length (filter pausing (rx_clients d))"

lemma length_filter_update:
  "c < length xs \<Longrightarrow> length (filter P (xs[c := y])) + (if P (xs ! c) then 1 else 0) =
     length (filter P xs) + (if P y then 1 else 0)"
proof (induction xs arbitrary: c)
  case (Cons x xs)
  then show ?case by (cases c) auto
qed simp

lemma count_inv_init: "n < 256 \<Longrightarrow> count_inv (rx_dispatch_init n)"
  by (simp add: count_inv_def rx_dispatch_init_def)

lemma count_inv_dispatcher: "count_inv d \<Longrightarrow> rx_dispatch_thread_fn d d' \<Longrightarrow> count_inv d'"
  by (erule dispatcher_stepE) (auto simp: count_inv_def)

text \<open>A client's step changes the counter exactly when it starts or ends to pause.\<close>

definition count_move :: "nat \<Rightarrow> rx_dispatch \<Rightarrow> rx_dispatch \<Rightarrow> bool" where
  "count_move c d d' \<longleftrightarrow>
     (let p = pausing (rx_clients d ! c); p' = pausing (rx_clients d' ! c)
      in rx_pause_count d' =
           (if p = p' then rx_pause_count d
            else if p' then rx_pause_count d + 1
            else if rx_pause_count d > 0 then rx_pause_count d - 1 else rx_pause_count d))"

lemma count_moveI:
  assumes "rx_at d c p" "rx_clients d' = (rx_clients d)[c := q]" "pausing q = pausing p"
    and "rx_pause_count d' = rx_pause_count d"
  shows "count_move c d d'"
  using assms by (auto simp: count_move_def rx_at_def)

lemma count_move_stay: "rx_at d c p \<Longrightarrow> count_move c d d"
  by (auto simp: count_move_def)

lemma pause_count_move: "rx_dispatch_pause c d d' \<Longrightarrow> count_move c d d'"
proof (erule pause_stepE)
  assume "d' = go c PauseClearAck (d\<lparr> rx_pause_count := rx_pause_count d + 1 \<rparr>)" "rx_at d c PauseCount"
  then show "count_move c d d'" by (simp add: count_move_def rx_at_def)
qed (auto intro: count_moveI count_move_stay)

lemma resume_count_move: "rx_dispatch_resume c d d' \<Longrightarrow> count_move c d d'"
proof (erule resume_stepE)
  assume "d' = go c ResumeUnlock (if rx_pause_count d > 0 then d\<lparr> rx_pause_count := rx_pause_count d - 1 \<rparr> else d)"
    "rx_at d c ResumeCount"
  then show "count_move c d d'" by (simp add: count_move_def rx_at_def)
qed (auto intro: count_moveI count_move_stay)

lemma register_count_move: "rx_register c d d' \<Longrightarrow> count_move c d d'"
  by (erule register_stepE) (auto intro: count_moveI count_move_stay split: option.splits)

lemma unregister_count_move: "rx_unregister c d d' \<Longrightarrow> count_move c d d'"
  by (erule unregister_stepE) (auto intro: count_moveI count_move_stay)

lemma deinit_count_move: "rx_dispatch_deinit c d d' \<Longrightarrow> count_move c d d'"
  by (erule deinit_stepE) (auto intro: count_moveI count_move_stay)

lemmas client_counts = pause_count_move resume_count_move register_count_move unregister_count_move deinit_count_move

lemma count_inv_client:
  assumes inv: "count_inv d" and m: "client_move c d d'" and n: "count_move c d d'"
  shows "count_inv d'"
proof -
  let ?k = "length (filter pausing (rx_clients d))" and ?q = "rx_clients d' ! c"
  have c: "c < length (rx_clients d)" "rx_clients d' = (rx_clients d)[c := ?q]"
    using m by (simp_all add: client_move_def)
  have len: "length (rx_clients d') = length (rx_clients d)" using c(2) by (metis length_list_update)
  have eq: "length (filter pausing (rx_clients d')) + (if pausing (rx_clients d ! c) then 1 else 0) =
      ?k + (if pausing ?q then 1 else 0)"
    using length_filter_update [OF c(1), of pausing ?q] c(2) by simp
  have k: "unat (rx_pause_count d) = ?k" "length (rx_clients d) < 256" using inv by (simp_all add: count_inv_def)
  have "?k < 256" using k(2) le_less_trans [OF length_filter_le] by blast
  have new: "length (filter pausing (rx_clients d')) < 256"
    using k(2) len le_less_trans [OF length_filter_le] by metis
  have pos: "rx_pause_count d > 0 \<longleftrightarrow> ?k > 0" using k(1) by (simp add: word_less_nat_alt)
  show ?thesis
  proof (cases "pausing (rx_clients d ! c) = pausing ?q")
    case True
    then show ?thesis using n eq k len by (simp add: count_inv_def count_move_def)
  next
    case False
    show ?thesis
    proof (cases "pausing ?q")
      case True
      then have "length (filter pausing (rx_clients d')) = ?k + 1" using eq False by simp
      moreover have "unat (rx_pause_count d + 1) = ?k + 1"
        using new k calculation by (simp add: unat_word_ariths)
      ultimately show ?thesis using n False True k len by (simp add: count_inv_def count_move_def)
    next
      case no: False
      then have k': "length (filter pausing (rx_clients d')) = ?k - 1" "?k > 0" using eq False by auto
      then have "unat (rx_pause_count d - 1) = ?k - 1" using pos k(1) by (simp add: unat_minus_one word_gt_0)
      then show ?thesis using n False no k k' pos len by (simp add: count_inv_def count_move_def)
    qed
  qed
qed

lemma count_inv_step: "count_inv d \<Longrightarrow> rx_step d d' \<Longrightarrow> count_inv d'"
  by (erule rx_step.cases)
    (auto intro: count_inv_dispatcher count_inv_client client_moves client_counts simp: count_inv_def [of "rx_dispatch_int_isr _"] count_inv_def [of d])

lemma pausing_positive:
  assumes "count_inv d" "rx_at d c p" "pausing p"
  shows "rx_pause_count d > 0"
proof -
  have "p \<in> set (filter pausing (rx_clients d))" using assms(2,3) by (auto simp: rx_at_def)
  then have "length (filter pausing (rx_clients d)) > 0" by (cases "filter pausing (rx_clients d)") auto
  then show ?thesis using assms(1) by (simp add: count_inv_def word_less_nat_alt)
qed

section \<open>Acknowledged pauses\<close>

text \<open>Where the dispatcher neither uses the chip nor will before it reads the counter again.\<close>

definition quiet :: "dispatcher_pc \<Rightarrow> bool" where
  "quiet pc \<longleftrightarrow> pc \<in> {LoopTop, Waiting, Woken, CheckPause, SetAck, Exited}"

fun cleared :: "client_pc \<Rightarrow> bool" where
  "cleared PauseUnlock = True"
| "cleared PauseKick = True"
| "cleared (PausePoll _) = True"
| "cleared (Paused _) = True"
| "cleared _ = False"

lemma cleared_pausing: "cleared p \<Longrightarrow> pausing p"
  by (cases p) auto

definition ack_inv :: "rx_dispatch \<Rightarrow> bool" where
  "ack_inv d \<longleftrightarrow>
     (\<forall>c p. rx_at d c p \<longrightarrow> cleared p \<longrightarrow> rx_acked_pause d \<or> p = Paused True \<longrightarrow> quiet (rx_pc d))"

definition ack_move :: "nat \<Rightarrow> rx_dispatch \<Rightarrow> rx_dispatch \<Rightarrow> bool" where
  "ack_move c d d' \<longleftrightarrow>
     (let p = rx_clients d ! c; p' = rx_clients d' ! c
      in (rx_acked_pause d' \<longrightarrow> rx_acked_pause d) \<and>
         (cleared p' \<longrightarrow> (cleared p \<or> \<not> rx_acked_pause d' \<and> p' \<noteq> Paused True)) \<and>
         (p' = Paused True \<longrightarrow> p = Paused True \<or> cleared p \<and> rx_acked_pause d))"

lemma ack_moveI:
  assumes "rx_at d c p" "rx_clients d' = (rx_clients d)[c := q]" "rx_acked_pause d' \<longrightarrow> rx_acked_pause d"
    and "cleared q \<longrightarrow> cleared p \<or> \<not> rx_acked_pause d' \<and> q \<noteq> Paused True"
    and "q = Paused True \<longrightarrow> p = Paused True \<or> cleared p \<and> rx_acked_pause d"
  shows "ack_move c d d'"
  using assms by (auto simp: ack_move_def rx_at_def)

lemma ack_move_stay: "rx_at d c p \<Longrightarrow> p \<noteq> Paused True \<or> p = Paused True \<Longrightarrow> ack_move c d d"
  by (auto simp: ack_move_def rx_at_def)

lemma pause_ack: "rx_dispatch_pause c d d' \<Longrightarrow> ack_move c d d'"
  by (erule pause_stepE) (auto intro: ack_moveI ack_move_stay)

lemma resume_ack: "rx_dispatch_resume c d d' \<Longrightarrow> ack_move c d d'"
  by (erule resume_stepE) (auto intro: ack_moveI ack_move_stay)

lemma register_ack: "rx_register c d d' \<Longrightarrow> ack_move c d d'"
  by (erule register_stepE) (auto intro: ack_moveI ack_move_stay split: option.splits)

lemma unregister_ack: "rx_unregister c d d' \<Longrightarrow> ack_move c d d'"
  by (erule unregister_stepE) (auto intro: ack_moveI ack_move_stay)

lemma deinit_ack: "rx_dispatch_deinit c d d' \<Longrightarrow> ack_move c d d'"
  by (erule deinit_stepE) (auto intro: ack_moveI ack_move_stay)

lemmas client_acks = pause_ack resume_ack register_ack unregister_ack deinit_ack

lemma ack_inv_init: "ack_inv (rx_dispatch_init n)"
  by (auto simp: ack_inv_def rx_dispatch_init_def rx_at_def quiet_def)

lemma ack_inv_client:
  assumes inv: "ack_inv d" and m: "client_move c d d'" and a: "ack_move c d d'"
  shows "ack_inv d'"
  unfolding ack_inv_def
proof (intro allI impI)
  fix k p assume k: "rx_at d' k p" "cleared p" "rx_acked_pause d' \<or> p = Paused True"
  have c: "c < length (rx_clients d)" "rx_clients d' = (rx_clients d)[c := rx_clients d' ! c]" "rx_pc d' = rx_pc d"
    using m by (simp_all add: client_move_def)
  have at: "rx_at d c (rx_clients d ! c)" using c(1) by (simp add: rx_at_def)
  show "quiet (rx_pc d')"
  proof (cases "k = c")
    case True
    then have "p = rx_clients d' ! c" using k(1) by (simp add: rx_at_def)
    then have "cleared (rx_clients d ! c) \<and> (rx_acked_pause d \<or> rx_clients d ! c = Paused True)"
      using a k(2,3) unfolding ack_move_def Let_def by auto
    then show ?thesis using inv at c(3) unfolding ack_inv_def by auto
  next
    case False
    then have "rx_at d k p" using k(1) at_update [OF c(2), of k p] by simp
    moreover have "rx_acked_pause d \<or> p = Paused True" using a k(3) by (auto simp: ack_move_def Let_def)
    ultimately show ?thesis using inv k(2) c(3) unfolding ack_inv_def by auto
  qed
qed

lemma ack_inv_dispatcher:
  assumes count: "count_inv d" and inv: "ack_inv d" and step: "rx_dispatch_thread_fn d d'"
  shows "ack_inv d'"
  unfolding ack_inv_def
proof (intro allI impI)
  fix k p assume k: "rx_at d' k p" "cleared p" "rx_acked_pause d' \<or> p = Paused True"
  have at: "rx_at d k p" using k(1) step by (auto elim!: dispatcher_stepE)
  have pos: "rx_pause_count d > 0" using pausing_positive [OF count at] cleared_pausing [OF k(2)] .
  show "quiet (rx_pc d')"
  proof (cases "rx_acked_pause d \<or> p = Paused True")
    case True
    then have "quiet (rx_pc d)" using inv at k(2) unfolding ack_inv_def by blast
    then show ?thesis using step pos by (auto simp: quiet_def elim!: dispatcher_stepE split: if_splits)
  next
    case False
    then show ?thesis using step k(3) by (auto simp: quiet_def elim!: dispatcher_stepE)
  qed
qed

lemma ack_inv_step: "count_inv d \<Longrightarrow> ack_inv d \<Longrightarrow> rx_step d d' \<Longrightarrow> ack_inv d'"
  by (erule rx_step.cases)
    (auto intro: ack_inv_dispatcher ack_inv_client client_moves client_acks simp: ack_inv_def [of "rx_dispatch_int_isr _"] ack_inv_def [of d])

section \<open>Reachable states\<close>

lemma rx_invariants:
  assumes "rx_reachable n d"
  shows "mutex_inv d" "slots_inv d" "n < 256 \<Longrightarrow> count_inv d \<and> ack_inv d"
proof -
  have r: "rx_step\<^sup>*\<^sup>* (rx_dispatch_init n) d" using assms by (simp add: rx_reachable_def)
  then have "mutex_inv d \<and> slots_inv d"
    by induction (auto intro: mutex_inv_init slots_inv_init mutex_inv_step slots_inv_step)
  then show "mutex_inv d" "slots_inv d" by simp_all
  show "count_inv d \<and> ack_inv d" if "n < 256"
    using r by induction (auto intro: that count_inv_init ack_inv_init count_inv_step ack_inv_step)
qed

section \<open>How long a pause takes\<close>

text \<open>A bound on the dispatcher's own steps to the next acknowledgement while a pause is on.\<close>

fun steps_to_ack :: "dispatcher_pc \<Rightarrow> nat" where
  "steps_to_ack SetAck = 1"
| "steps_to_ack CheckPause = 2"
| "steps_to_ack Woken = 3"
| "steps_to_ack Waiting = 4"
| "steps_to_ack LoopTop = 5"
| "steps_to_ack DrainPause = 6"
| "steps_to_ack DrainTop = 7"
| "steps_to_ack ClearAck = 8"
| "steps_to_ack Unlocking = 8"
| "steps_to_ack (Slot i) = 9 + 3 * (8 - i)"
| "steps_to_ack (InHandler i) = 10 + 3 * (8 - (i + 1))"
| "steps_to_ack (InPredicate i) = 11 + 3 * (8 - (i + 1))"
| "steps_to_ack Locking = 34"
| "steps_to_ack Receiving = 35"
| "steps_to_ack Exited = 0"

lemma steps_to_ack_max: "steps_to_ack pc \<le> 35"
  by (cases pc) auto

lemma dispatcher_keeps:
  "rx_dispatch_thread_fn d d' \<Longrightarrow> rx_running d' = rx_running d \<and> rx_pause_count d' = rx_pause_count d"
  by (erule dispatcher_stepE) auto

lemma dispatcher_towards_ack:
  assumes "rx_dispatch_thread_fn d d'" "rx_running d" "rx_pause_count d > 0"
  shows "rx_acked_pause d' \<and> steps_to_ack (rx_pc d) = 1 \<or> steps_to_ack (rx_pc d') < steps_to_ack (rx_pc d)"
  using assms by (elim dispatcher_stepE) auto

lemma dispatcher_runs_or_waits:
  assumes "mutex_inv d" "rx_pc d \<noteq> Exited" "\<And>c. rx_mutex d \<noteq> Some (Some (Client c))"
  shows "\<exists>d'. rx_dispatch_thread_fn d d'"
proof (cases "rx_pc d = Locking")
  case True
  have "rx_mutex d \<noteq> None" using assms(1) True by (auto simp: mutex_inv_def)
  moreover have "rx_mutex d \<noteq> Some (Some Dispatcher)" using assms(1) True by (auto simp: mutex_inv_def)
  ultimately have "rx_mutex d = Some None" using assms(3) by (metis not_None_eq thread.exhaust)
  then show ?thesis using rx_dispatch_thread_fn.lock [OF True] by blast
next
  case False
  show ?thesis
  proof (cases "rx_pc d")
    case (Slot i)
    then show ?thesis
      using slots_done [OF Slot] slot_free [OF Slot] slot_used [OF Slot] by (meson not_le)
  qed (use False assms(2) in \<open>blast intro: rx_dispatch_thread_fn.intros\<close>)+
qed

text \<open>Runs of the dispatcher alone, of a given length, in which no state is acknowledged.\<close>

inductive unacked_run :: "nat \<Rightarrow> rx_dispatch \<Rightarrow> rx_dispatch \<Rightarrow> bool" where
  unacked_done: "unacked_run 0 d d"
| unacked_more: "rx_dispatch_thread_fn d d' \<Longrightarrow> \<not> rx_acked_pause d' \<Longrightarrow> unacked_run k d' d'' \<Longrightarrow>
    unacked_run (Suc k) d d''"

lemma unacked_run_bound:
  "unacked_run k d d' \<Longrightarrow> rx_running d \<Longrightarrow> rx_pause_count d > 0 \<Longrightarrow> k \<le> steps_to_ack (rx_pc d)"
proof (induction rule: unacked_run.induct)
  case (unacked_more d d' k d'')
  have keep: "rx_running d'" "rx_pause_count d' > 0" using dispatcher_keeps [OF unacked_more.hyps(1)] unacked_more.prems by simp_all
  have "steps_to_ack (rx_pc d') < steps_to_ack (rx_pc d)"
    using dispatcher_towards_ack [OF unacked_more.hyps(1) unacked_more.prems] unacked_more.hyps(2) by blast
  then show ?case using unacked_more.IH [OF keep] by simp
qed simp

section \<open>Properties\<close>

text \<open>
  C22. A pause that was acknowledged gives its caller the chip. In every interleaving of the dispatcher
  with up to 255 threads that pause, resume, register, unregister and shut down, while a caller is
  between an acknowledged pause and its resume the counter is positive and the dispatcher is neither
  receiving nor offering a frame; the caller may read the chip itself.
\<close>

theorem rx_pause_exclusive:
  assumes "n < 256" "rx_reachable n d" "rx_at d c (Paused True)"
  shows "rx_pause_count d > 0 \<and> quiet (rx_pc d) \<and> slot_in_call (rx_pc d) = None"
proof -
  have inv: "count_inv d" "ack_inv d" using rx_invariants(3) [OF assms(2,1)] by simp_all
  have q: "quiet (rx_pc d)" using inv(2) assms(3) by (auto simp: ack_inv_def)
  then have "slot_in_call (rx_pc d) = None" by (auto simp: quiet_def)
  then show ?thesis using q pausing_positive [OF inv(1) assms(3)] by simp
qed

text \<open>
  C23. No handler outlives its registration. In every interleaving, when the dispatcher is inside a
  predicate or handler, it holds the mutex and the slot it took it from is still in use; so while a
  caller removes a slot, and when \<open>rx_unregister\<close> returns, no call is in flight, and the memory its
  context points to may be freed.
\<close>

theorem rx_unregister_waits:
  assumes "rx_reachable n d"
  shows "(\<forall>i. slot_in_call (rx_pc d) = Some i \<longrightarrow>
             i < RX_DISPATCH_MAX_HANDLERS \<and> rh_in_use (rx_slots d ! i) \<and> rx_mutex d = Some (Some Dispatcher)) \<and>
         (\<forall>c i. rx_at d c (UnregisterBody i) \<or> rx_at d c UnregisterUnlock \<longrightarrow> slot_in_call (rx_pc d) = None) \<and>
         (\<forall>c d'. rx_at d c UnregisterUnlock \<longrightarrow> rx_unregister c d d' \<longrightarrow>
             rx_at d' c Idle \<and> slot_in_call (rx_pc d') = None)"
proof -
  note inv = rx_invariants(1,2) [OF assms]
  have call: "i < RX_DISPATCH_MAX_HANDLERS \<and> rh_in_use (rx_slots d ! i) \<and> rx_mutex d = Some (Some Dispatcher)"
    if "slot_in_call (rx_pc d) = Some i" for i
    using that inv in_call_holds [OF that] by (simp add: mutex_inv_def slots_inv_def)
  have idle: "slot_in_call (rx_pc d) = None" if "rx_at d c p" "client_holds p" for c p
  proof (cases "slot_in_call (rx_pc d)")
    case (Some i)
    then have "rx_mutex d = Some (Some Dispatcher)" using call by blast
    moreover from this have "rx_mutex d = Some (Some (Client c))" using inv(1) that unfolding mutex_inv_def by simp
    ultimately show ?thesis by simp
  qed simp
  have "rx_at d' c Idle \<and> slot_in_call (rx_pc d') = None" if "rx_at d c UnregisterUnlock" "rx_unregister c d d'" for c d'
    using that(2,1) idle [OF that(1)] by (cases rule: unregister_stepE) (auto simp: at_unique at_bound)
  then show ?thesis using call idle by (metis client_holds.simps(8,9))
qed

text \<open>
  A registration stays. In every interleaving, from the return of \<open>rx_register\<close> to the call of
  \<open>rx_unregister\<close> the slot of a caller keeps its predicate, handler and context, whatever the other
  threads do, and no other caller holds the same slot.
\<close>

theorem rx_registration_stable:
  assumes "rx_reachable n d" "rx_step d d'" "rx_at d c (Registered i)" "rx_at d' c (Registered i)"
  shows "i < RX_DISPATCH_MAX_HANDLERS \<and> rh_in_use (rx_slots d ! i) \<and> rx_slots d' ! i = rx_slots d ! i \<and>
         (\<forall>c'. rx_at d c' (Registered i) \<longrightarrow> c' = c)"
proof -
  have inv: "slots_inv d" using rx_invariants(2) [OF assms(1)] .
  have own: "i < 8" "rh_in_use (rx_slots d ! i)"
    using inv assms(3) owned_slot.simps(2) [of i] unfolding slots_inv_def by blast+
  have uniq: "k = c" if "rx_at d k q" "owned_slot q = Some i" for k q
    using inv that assms(3) owned_slot.simps(2) [of i] unfolding slots_inv_def by blast
  have client: "rx_slots d' ! i = rx_slots d ! i" if m: "client_move k d d'" and s: "slots_move k d d'" for k
  proof -
    let ?p = "rx_clients d ! k" and ?p' = "rx_clients d' ! k"
    have at: "rx_at d k ?p" using m by (simp add: client_move_def rx_at_def)
    have "(rx_slots d' = rx_slots d \<and> owned_slot ?p' \<in> {owned_slot ?p, None}) \<or>
        (\<exists>j h. client_holds ?p \<and> entry_to_add ?p = Some h \<and> j < length (rx_slots d) \<and> \<not> rh_in_use (rx_slots d ! j) \<and>
             rx_slots d' = (rx_slots d)[j := h] \<and> owned_slot ?p' = Some j) \<or>
        (\<exists>j. client_holds ?p \<and> owned_slot ?p = Some j \<and> rx_slots d' = (rx_slots d)[j := rx_handle_zero] \<and>
             owned_slot ?p' = None)"
      using s unfolding slots_move_def Let_def by (rule conjunct2)
    then show ?thesis
    proof (elim disjE exE conjE)
      fix j assume j: "owned_slot ?p = Some j" "rx_slots d' = (rx_slots d)[j := rx_handle_zero]" "owned_slot ?p' = None"
      have "j \<noteq> i"
      proof
        assume "j = i"
        then have "k = c" using uniq at j(1) by blast
        then have "?p' = Registered i" using assms(4) by (simp add: rx_at_def)
        then show False using j(3) by simp
      qed
      then show ?thesis using j(2) by simp
    qed (use own(2) in \<open>auto simp: nth_list_update\<close>)
  qed
  have "rx_slots d' ! i = rx_slots d ! i"
    using assms(2)
    by (cases rule: rx_step.cases) (auto intro: client client_moves client_slots elim!: dispatcher_stepE)
  then show ?thesis using own uniq owned_slot.simps(2) [of i] by auto
qed

text \<open>
  C24. A pause is acknowledged soon. While a pause is on and the dispatcher runs, at most 35 of its own
  steps pass without an acknowledgement, counted from any of its places, a received frame and eight
  handlers included; and it can always make its next step unless a caller holds the mutex.
\<close>

theorem rx_pause_acknowledged:
  assumes "rx_reachable n d" "rx_running d" "rx_pause_count d > 0" "rx_pc d \<noteq> Exited"
  shows "(\<forall>k d'. unacked_run k d d' \<longrightarrow> k \<le> 35) \<and>
         ((\<forall>c. rx_mutex d \<noteq> Some (Some (Client c))) \<longrightarrow> (\<exists>d'. rx_dispatch_thread_fn d d'))"
proof -
  have "k \<le> 35" if "unacked_run k d d'" for k d'
    using unacked_run_bound [OF that assms(2,3)] steps_to_ack_max [of "rx_pc d"] by simp
  then show ?thesis using dispatcher_runs_or_waits [OF rx_invariants(1) [OF assms(1)] assms(4)] by blast
qed

section \<open>Example runs\<close>

text \<open>The states of a run with one caller.\<close>

definition example_state ::
  "dispatcher_pc \<Rightarrow> client_pc \<Rightarrow> thread option \<Rightarrow> u8 \<Rightarrow> bool \<Rightarrow> bool \<Rightarrow> rx_handle list \<Rightarrow> rx_dispatch" where
  "example_state pc cl m n ack flag slots =
     \<lparr> rx_thread_id = True, rx_mutex = Some m, rx_running = True, rx_pause_count = n, rx_acked_pause = ack,
        rx_slots = slots, rx_flag_int = flag, rx_pc = pc, rx_clients = [cl] \<rparr>"

definition free_slots :: "rx_handle list" where
  "free_slots = replicate 8 rx_handle_zero"

lemma example_init: "rx_dispatch_init 1 = example_state LoopTop Idle None 0 False False free_slots"
  by (simp add: rx_dispatch_init_def example_state_def free_slots_def)

lemma example_at: "rx_at (example_state pc cl m n ack flag slots) 0 p \<longleftrightarrow> cl = p"
  by (simp add: rx_at_def example_state_def)

lemma example_fields [simp]:
  "rx_pc (example_state pc cl m n ack flag slots) = pc" "rx_mutex (example_state pc cl m n ack flag slots) = Some m"
  "rx_pause_count (example_state pc cl m n ack flag slots) = n" "rx_running (example_state pc cl m n ack flag slots)"
  "rx_acked_pause (example_state pc cl m n ack flag slots) = ack" "rx_slots (example_state pc cl m n ack flag slots) = slots"
  by (simp_all add: example_state_def)

lemma steps_chain: "successively rx_step (d # ds) \<Longrightarrow> rx_step\<^sup>*\<^sup>* d (last (d # ds))"
  by (induction ds arbitrary: d) (auto intro: converse_rtranclp_into_rtranclp)

lemma example_pause_run:
  "rx_step\<^sup>*\<^sup>* (example_state pc Idle None 0 ack flag slots) (example_state pc (PausePoll 0) None 1 False True slots)"
proof -
  let ?s = "\<lambda>cl m n ack flag. example_state pc cl m n ack flag slots"
  let ?m = "Some (Client 0)"
  have 1: "rx_step (?s Idle None 0 ack flag) (?s PauseLock None 0 ack flag)"
    using pause_step [OF pause_start [of "?s Idle None 0 ack flag" 0]] by (simp add: example_at go_def) (simp add: example_state_def)
  have 2: "rx_step (?s PauseLock None 0 ack flag) (?s PauseCount ?m 0 ack flag)"
    using pause_step [OF pause_lock [of "?s PauseLock None 0 ack flag" 0]] by (simp add: example_at go_def) (simp add: example_state_def)
  have 3: "rx_step (?s PauseCount ?m 0 ack flag) (?s PauseClearAck ?m 1 ack flag)"
    using pause_step [OF pause_count [of "?s PauseCount ?m 0 ack flag" 0]] by (simp add: example_at go_def) (simp add: example_state_def)
  have 4: "rx_step (?s PauseClearAck ?m 1 ack flag) (?s PauseUnlock ?m 1 False flag)"
    using pause_step [OF pause_clear_ack [of "?s PauseClearAck ?m 1 ack flag" 0]] by (simp add: example_at go_def) (simp add: example_state_def)
  have 5: "rx_step (?s PauseUnlock ?m 1 False flag) (?s PauseKick None 1 False flag)"
    using pause_step [OF pause_unlock [of "?s PauseUnlock ?m 1 False flag" 0]] by (simp add: example_at go_def) (simp add: example_state_def)
  have 6: "rx_step (?s PauseKick None 1 False flag) (?s (PausePoll 0) None 1 False True)"
    using pause_step [OF pause_kick [of "?s PauseKick None 1 False flag" 0]]
    by (simp add: example_at go_def rx_dispatch_int_isr_def) (simp add: example_state_def)
  show ?thesis
    using steps_chain [of "(?s Idle None 0 ack flag)"
        "[(?s PauseLock None 0 ack flag),
          (?s PauseCount ?m 0 ack flag),
          (?s PauseClearAck ?m 1 ack flag),
          (?s PauseUnlock ?m 1 False flag),
          (?s PauseKick None 1 False flag),
          (?s (PausePoll 0) None 1 False True)]"] 1 2 3 4 5 6 by simp
qed

lemma example_ack_run:
  "rx_step\<^sup>*\<^sup>* (example_state LoopTop cl m 1 ack flag slots) (example_state LoopTop cl m 1 True False slots)"
proof -
  let ?s = "\<lambda>pc ack flag. example_state pc cl m 1 ack flag slots"
  have 1: "rx_step (?s LoopTop ack flag) (?s Waiting ack flag)"
    using thread_step [OF loop_top [of "?s LoopTop ack flag"]] by (simp add: example_state_def)
  have 2: "rx_step (?s Waiting ack flag) (?s Woken ack False)"
    using thread_step [OF flags_wait [of "?s Waiting ack flag"]] by (simp add: example_state_def)
  have 3: "rx_step (?s Woken ack False) (?s CheckPause ack False)"
    using thread_step [OF woken [of "?s Woken ack False"]] by (simp add: example_state_def)
  have 4: "rx_step (?s CheckPause ack False) (?s SetAck ack False)"
    using thread_step [OF check_pause [of "?s CheckPause ack False"]] by (simp add: example_state_def)
  have 5: "rx_step (?s SetAck ack False) (?s LoopTop True False)"
    using thread_step [OF set_ack [of "?s SetAck ack False"]] by (simp add: example_state_def)
  show ?thesis
    using steps_chain [of "(?s LoopTop ack flag)"
        "[(?s Waiting ack flag),
          (?s Woken ack False),
          (?s CheckPause ack False),
          (?s SetAck ack False),
          (?s LoopTop True False)]"] 1 2 3 4 5 by simp
qed

lemma example_receive_run:
  "rx_step\<^sup>*\<^sup>* (example_state LoopTop cl m 0 ack flag slots) (example_state Receiving cl m 0 False False slots)"
proof -
  let ?s = "\<lambda>pc ack flag. example_state pc cl m 0 ack flag slots"
  have 1: "rx_step (?s LoopTop ack flag) (?s Waiting ack flag)"
    using thread_step [OF loop_top [of "?s LoopTop ack flag"]] by (simp add: example_state_def)
  have 2: "rx_step (?s Waiting ack flag) (?s Woken ack False)"
    using thread_step [OF flags_wait [of "?s Waiting ack flag"]] by (simp add: example_state_def)
  have 3: "rx_step (?s Woken ack False) (?s CheckPause ack False)"
    using thread_step [OF woken [of "?s Woken ack False"]] by (simp add: example_state_def)
  have 4: "rx_step (?s CheckPause ack False) (?s ClearAck ack False)"
    using thread_step [OF check_pause [of "?s CheckPause ack False"]] by (simp add: example_state_def)
  have 5: "rx_step (?s ClearAck ack False) (?s DrainTop False False)"
    using thread_step [OF clear_ack [of "?s ClearAck ack False"]] by (simp add: example_state_def)
  have 6: "rx_step (?s DrainTop False False) (?s DrainPause False False)"
    using thread_step [OF drain_top [of "?s DrainTop False False"]] by (simp add: example_state_def)
  have 7: "rx_step (?s DrainPause False False) (?s Receiving False False)"
    using thread_step [OF drain_pause [of "?s DrainPause False False"]] by (simp add: example_state_def)
  show ?thesis
    using steps_chain [of "(?s LoopTop ack flag)"
        "[(?s Waiting ack flag),
          (?s Woken ack False),
          (?s CheckPause ack False),
          (?s ClearAck ack False),
          (?s DrainTop False False),
          (?s DrainPause False False),
          (?s Receiving False False)]"] 1 2 3 4 5 6 7 by simp
qed

lemma example_polls:
  assumes "i \<le> 20"
  shows "rx_step\<^sup>*\<^sup>* (example_state pc (PausePoll 0) m n False flag slots) (example_state pc (PausePoll i) m n False flag slots)"
  using assms
proof (induction i)
  case (Suc i)
  let ?s = "\<lambda>i. example_state pc (PausePoll i) m n False flag slots"
  have "rx_step (?s i) (?s (Suc i))"
    using pause_step [OF pause_poll [of "?s i" 0 i]] Suc.prems by (simp add: example_at go_def) (simp add: example_state_def)
  then show ?case using Suc.IH Suc.prems by (simp add: rtranclp.rtrancl_into_rtrancl)
qed simp

lemma example_acknowledged:
  "rx_reachable 1 (example_state LoopTop (Paused True) None 1 True False free_slots)"
proof -
  let ?s = "\<lambda>cl. example_state LoopTop cl None 1 True False free_slots"
  have "rx_step (?s (PausePoll 0)) (?s (Paused True))"
    using pause_step [OF pause_poll [of "?s (PausePoll 0)" 0 0]] by (simp add: example_at go_def) (simp add: example_state_def)
  then show ?thesis
    unfolding rx_reachable_def example_init
    using example_pause_run [of LoopTop False False free_slots] example_ack_run [of "PausePoll 0" None False True free_slots]
    by (meson rtranclp.rtrancl_into_rtrancl rtranclp_trans)
qed

lemma example_gave_up:
  "rx_reachable 1 (example_state Receiving (Paused False) None 1 False True free_slots)"
proof -
  let ?s = "\<lambda>cl. example_state Receiving cl None 1 False True free_slots"
  have "rx_step (?s (PausePoll 20)) (?s (Paused False))"
    using pause_step [OF pause_give_up [of "?s (PausePoll 20)" 0 20]] by (simp add: example_at go_def) (simp add: example_state_def)
  then show ?thesis
    unfolding rx_reachable_def example_init
    using example_receive_run [of Idle None False False free_slots] example_pause_run [of Receiving False False free_slots]
      example_polls [of 20 Receiving None 1 True free_slots]
    by (meson rtranclp.rtrancl_into_rtrancl rtranclp_trans order_refl)
qed

definition example_entry :: rx_handle where
  "example_entry = \<lparr> rh_predicate = Some 1, rh_handler = Some 2, rh_ctx = Some 3, rh_in_use = True \<rparr>"

lemma example_registered:
  "rx_reachable 1 (example_state LoopTop (Registered 0) None 0 False False (free_slots[0 := example_entry]))"
proof -
  let ?s = "\<lambda>cl m slots. example_state LoopTop cl m 0 False False slots"
  let ?m = "Some (Client 0)" and ?new = "free_slots[0 := example_entry]"
  have 1: "rx_step (?s Idle None free_slots) (?s (RegisterLock example_entry) None free_slots)"
    using register_step [OF register_start [of "?s Idle None free_slots" 0 example_entry]]
    by (simp add: example_at go_def example_entry_def) (simp add: example_state_def)
  have 2: "rx_step (?s (RegisterLock example_entry) None free_slots) (?s (RegisterBody example_entry) ?m free_slots)"
    using register_step [OF register_lock [of "?s (RegisterLock example_entry) None free_slots" 0 example_entry]]
    by (simp add: example_at go_def) (simp add: example_state_def)
  have "register_slot free_slots example_entry = (?new, Some 0)"
    by (simp add: free_slots_def rx_handle_zero_def numeral_eq_Suc)
  then have 3: "rx_step (?s (RegisterBody example_entry) ?m free_slots) (?s (RegisterUnlock (Some 0)) ?m ?new)"
    using register_step [OF register_body [of "?s (RegisterBody example_entry) ?m free_slots" 0 example_entry ?new "Some 0"]]
    by (simp add: example_at go_def) (simp add: example_state_def)
  have 4: "rx_step (?s (RegisterUnlock (Some 0)) ?m ?new) (?s (Registered 0) None ?new)"
    using register_step [OF register_unlock [of "?s (RegisterUnlock (Some 0)) ?m ?new" 0 "Some 0"]]
    by (simp add: example_at go_def) (simp add: example_state_def)
  show ?thesis
    unfolding rx_reachable_def example_init
    using steps_chain [of "?s Idle None free_slots" "[?s (RegisterLock example_entry) None free_slots,
      ?s (RegisterBody example_entry) ?m free_slots, ?s (RegisterUnlock (Some 0)) ?m ?new, ?s (Registered 0) None ?new]"]
      1 2 3 4 by simp
qed

text \<open>
  A pause may return unacknowledged. \<open>rx_dispatch_pause\<close> returns nothing and gives up after 20 polls:
  there is a run in which a caller's pause has returned while the dispatcher is still inside
  \<open>receive_packet\<close>, so the caller and the dispatcher read the chip at the same time. The header's
  promise that the call blocks until the dispatcher is idle holds only for acknowledged pauses.
\<close>

theorem rx_pause_may_give_up:
  "\<exists>d. rx_reachable 1 d \<and> rx_at d 0 (Paused False) \<and> rx_pause_count d = 1 \<and> rx_pc d = Receiving"
  by (intro exI [of _ "example_state Receiving (Paused False) None 1 False True free_slots"])
    (simp add: example_gave_up [simplified] example_at)

section \<open>Witnesses\<close>

lemma rx_pause_exclusive_witness:
  "quiet (rx_pc (example_state LoopTop (Paused True) None 1 True False free_slots))"
  using rx_pause_exclusive [OF _ example_acknowledged, of 0] by (simp add: example_at)

lemma rx_unregister_waits_witness:
  "slot_in_call (rx_pc (rx_dispatch_init 1)) = None"
  using rx_unregister_waits [of 1 "rx_dispatch_init 1"]
  by (cases "slot_in_call (rx_pc (rx_dispatch_init 1))") (auto simp: rx_reachable_def rx_dispatch_init_def)

lemma rx_registration_stable_witness:
  "rx_slots (rx_dispatch_int_isr (example_state LoopTop (Registered 0) None 0 False False (free_slots[0 := example_entry]))) ! 0 =
     example_entry"
  using rx_registration_stable [OF example_registered interrupt, of 0 0]
  by (simp add: example_at free_slots_def)

lemma rx_pause_acknowledged_witness:
  "(\<exists>d'. rx_dispatch_thread_fn (example_state LoopTop (Paused True) None 1 True False free_slots) d') \<and>
   (\<nexists>d'. unacked_run 36 (example_state LoopTop (Paused True) None 1 True False free_slots) d')"
proof -
  note bound = rx_pause_acknowledged [OF example_acknowledged]
  have "\<not> unacked_run 36 (example_state LoopTop (Paused True) None 1 True False free_slots) d'" for d'
    using bound [THEN conjunct1, rule_format, of 36 d'] by auto
  moreover have "\<exists>d'. rx_dispatch_thread_fn (example_state LoopTop (Paused True) None 1 True False free_slots) d'"
    using bound [THEN conjunct2] by simp
  ultimately show ?thesis by blast
qed

end
