(* ===== verification/Enc28j60.thy ===== *)
theory Enc28j60
  imports Prelude
begin

text \<open>
  \<open>libraries/chip/enc28j60.c\<close>, the driver of the Ethernet controller. The chip and the clock are
  parameters: the chip answers every byte read over SPI by any function of the transfers so far and of
  the command, the clock gives the milliseconds at each reading. The state is the driver's structure, the
  list of SPI transfers made, the number of clock readings, and whether the chip mutex is held. A
  transfer without the mutex, a second acquisition and a release of a free mutex have no result,
  like an access outside a buffer; so a result shows the locking discipline of the operation as well.
\<close>

section \<open>Registers, bits and commands\<close>

definition ADDR_MASK :: u8 where [simp]: "ADDR_MASK = 0x1F"
definition BANK_MASK :: u8 where [simp]: "BANK_MASK = 0x60"
definition EIE :: u8 where [simp]: "EIE = 0x1B"
definition EIR :: u8 where [simp]: "EIR = 0x1C"
definition ESTAT :: u8 where [simp]: "ESTAT = 0x1D"
definition ECON2 :: u8 where [simp]: "ECON2 = 0x1E"
definition ECON1 :: u8 where [simp]: "ECON1 = 0x1F"
definition ERDPT :: u8 where [simp]: "ERDPT = 0x00"
definition EWRPT :: u8 where [simp]: "EWRPT = 0x02"
definition ETXST :: u8 where [simp]: "ETXST = 0x04"
definition ETXND :: u8 where [simp]: "ETXND = 0x06"
definition ERXST :: u8 where [simp]: "ERXST = 0x08"
definition ERXND :: u8 where [simp]: "ERXND = 0x0A"
definition ERXRDPT :: u8 where [simp]: "ERXRDPT = 0x0C"
definition EPMM0 :: u8 where [simp]: "EPMM0 = 0x08 OR 0x20"
definition EPMM1 :: u8 where [simp]: "EPMM1 = 0x09 OR 0x20"
definition EPMM2 :: u8 where [simp]: "EPMM2 = 0x0A OR 0x20"
definition EPMM3 :: u8 where [simp]: "EPMM3 = 0x0B OR 0x20"
definition EPMM4 :: u8 where [simp]: "EPMM4 = 0x0C OR 0x20"
definition EPMM5 :: u8 where [simp]: "EPMM5 = 0x0D OR 0x20"
definition EPMM6 :: u8 where [simp]: "EPMM6 = 0x0E OR 0x20"
definition EPMM7 :: u8 where [simp]: "EPMM7 = 0x0F OR 0x20"
definition EPMCS :: u8 where [simp]: "EPMCS = 0x10 OR 0x20"
definition EPMOL :: u8 where [simp]: "EPMOL = 0x14 OR 0x20"
definition EPMOH :: u8 where [simp]: "EPMOH = 0x15 OR 0x20"
definition ERXFCON :: u8 where [simp]: "ERXFCON = 0x18 OR 0x20"
definition EPKTCNT :: u8 where [simp]: "EPKTCNT = 0x19 OR 0x20"
definition MACON1 :: u8 where [simp]: "MACON1 = 0x00 OR 0x40 OR 0x80"
definition MACON3 :: u8 where [simp]: "MACON3 = 0x02 OR 0x40 OR 0x80"
definition MABBIPG :: u8 where [simp]: "MABBIPG = 0x04 OR 0x40 OR 0x80"
definition MAIPG :: u8 where [simp]: "MAIPG = 0x06 OR 0x40 OR 0x80"
definition MAMXFL :: u8 where [simp]: "MAMXFL = 0x0A OR 0x40 OR 0x80"
definition MICMD :: u8 where [simp]: "MICMD = 0x12 OR 0x40 OR 0x80"
definition MIREGADR :: u8 where [simp]: "MIREGADR = 0x14 OR 0x40 OR 0x80"
definition MIWR :: u8 where [simp]: "MIWR = 0x16 OR 0x40 OR 0x80"
definition MIRD :: u8 where [simp]: "MIRD = 0x18 OR 0x40 OR 0x80"
definition MAADR1 :: u8 where [simp]: "MAADR1 = 0x00 OR 0x60 OR 0x80"
definition MAADR0 :: u8 where [simp]: "MAADR0 = 0x01 OR 0x60 OR 0x80"
definition MAADR3 :: u8 where [simp]: "MAADR3 = 0x02 OR 0x60 OR 0x80"
definition MAADR2 :: u8 where [simp]: "MAADR2 = 0x03 OR 0x60 OR 0x80"
definition MAADR5 :: u8 where [simp]: "MAADR5 = 0x04 OR 0x60 OR 0x80"
definition MAADR4 :: u8 where [simp]: "MAADR4 = 0x05 OR 0x60 OR 0x80"
definition MISTAT :: u8 where [simp]: "MISTAT = 0x0A OR 0x60 OR 0x80"
definition EREVID :: u8 where [simp]: "EREVID = 0x12 OR 0x60"
definition ERXFCON_UCEN :: u8 where [simp]: "ERXFCON_UCEN = 0x80"
definition ERXFCON_CRCEN :: u8 where [simp]: "ERXFCON_CRCEN = 0x20"
definition ERXFCON_PMEN :: u8 where [simp]: "ERXFCON_PMEN = 0x10"
definition ERXFCON_MCEN :: u8 where [simp]: "ERXFCON_MCEN = 0x02"
definition ERXFCON_BCEN :: u8 where [simp]: "ERXFCON_BCEN = 0x01"
definition EIE_INTIE :: u8 where [simp]: "EIE_INTIE = 0x80"
definition EIE_PKTIE :: u8 where [simp]: "EIE_PKTIE = 0x40"
definition EIR_TXIF :: u8 where [simp]: "EIR_TXIF = 0x08"
definition EIR_TXERIF :: u8 where [simp]: "EIR_TXERIF = 0x02"
definition ESTAT_CLKRDY :: u8 where [simp]: "ESTAT_CLKRDY = 0x01"
definition ECON2_PKTDEC :: u8 where [simp]: "ECON2_PKTDEC = 0x40"
definition ECON1_TXRST :: u8 where [simp]: "ECON1_TXRST = 0x80"
definition ECON1_TXRTS :: u8 where [simp]: "ECON1_TXRTS = 0x08"
definition ECON1_RXEN :: u8 where [simp]: "ECON1_RXEN = 0x04"
definition MACON1_MARXEN :: u8 where [simp]: "MACON1_MARXEN = 0x01"
definition MACON3_PADCFG0 :: u8 where [simp]: "MACON3_PADCFG0 = 0x20"
definition MACON3_TXCRCEN :: u8 where [simp]: "MACON3_TXCRCEN = 0x10"
definition MACON3_FRMLNEN :: u8 where [simp]: "MACON3_FRMLNEN = 0x02"
definition MICMD_MIIRD :: u8 where [simp]: "MICMD_MIIRD = 0x01"
definition MISTAT_BUSY :: u8 where [simp]: "MISTAT_BUSY = 0x01"
definition PHSTAT2 :: u8 where [simp]: "PHSTAT2 = 0x11"
definition PHLCON :: u8 where [simp]: "PHLCON = 0x14"
definition PHCON2 :: u8 where [simp]: "PHCON2 = 0x10"
definition ENC28J60_READ_CTRL_REG :: u8 where [simp]: "ENC28J60_READ_CTRL_REG = 0x00"
definition ENC28J60_READ_BUF_MEM :: u8 where [simp]: "ENC28J60_READ_BUF_MEM = 0x3A"
definition ENC28J60_WRITE_CTRL_REG :: u8 where [simp]: "ENC28J60_WRITE_CTRL_REG = 0x40"
definition ENC28J60_WRITE_BUF_MEM :: u8 where [simp]: "ENC28J60_WRITE_BUF_MEM = 0x7A"
definition ENC28J60_BIT_FIELD_SET :: u8 where [simp]: "ENC28J60_BIT_FIELD_SET = 0x80"
definition ENC28J60_BIT_FIELD_CLR :: u8 where [simp]: "ENC28J60_BIT_FIELD_CLR = 0xA0"
definition ENC28J60_SOFT_RESET :: u8 where [simp]: "ENC28J60_SOFT_RESET = 0xFF"

definition PHCON2_HDLDIS :: u16 where [simp]: "PHCON2_HDLDIS = 0x0100"
definition MAX_FRAMELEN :: u16 where [simp]: "MAX_FRAMELEN = 1518"
definition RXSTART_INIT :: u16 where [simp]: "RXSTART_INIT = 0x0000"
definition RXSTOP_INIT :: u16 where [simp]: "RXSTOP_INIT = 0x0BFF"
definition TXSTART_INIT :: u16 where [simp]: "TXSTART_INIT = 0x0C00"
definition TXSTOP_INIT :: u16 where [simp]: "TXSTOP_INIT = 0x11FF"
definition PHY_BUSY_TIMEOUT_MS :: u32 where [simp]: "PHY_BUSY_TIMEOUT_MS = 100"

section \<open>The driver's state and the bus\<close>

text \<open>A transfer keeps the register address the driver meant; the chip sees its low five bits.\<close>

datatype spi_transfer =
    WriteOp u8 u8 u8
  | ReadOp u8 u8 u8
  | WriteMem buf
  | ReadMem buf

text \<open>The answer to the \<open>n\<close>-th byte read after a command, and the clock at each reading.\<close>

record chip =
  ch_answer :: "spi_transfer list \<Rightarrow> u8 \<Rightarrow> nat \<Rightarrow> u8"
  ch_ms :: "nat \<Rightarrow> nat"

record enc28j60 =
  enc_spi :: bool
  enc_mac_address :: buf
  enc_ip_address :: buf
  enc_bank :: u8
  enc_rx_next_packet :: u16
  enc_rx_packet_unreleased :: bool
  enc_locked :: bool
  bus_trace :: "spi_transfer list"
  bus_ticks :: nat

definition mutex_acquire :: "enc28j60 \<Rightarrow> enc28j60 option" where
  "mutex_acquire d = (if enc_locked d then None else Some (d\<lparr> enc_locked := True \<rparr>))"

definition mutex_release :: "enc28j60 \<Rightarrow> enc28j60 option" where
  "mutex_release d = (if enc_locked d then Some (d\<lparr> enc_locked := False \<rparr>) else None)"

definition get_tick :: "chip \<Rightarrow> enc28j60 \<Rightarrow> (u32 \<times> enc28j60) option" where
  "get_tick chip d = Some (of_nat (ch_ms chip (bus_ticks d)), d\<lparr> bus_ticks := bus_ticks d + 1 \<rparr>)"

definition transfer :: "spi_transfer \<Rightarrow> enc28j60 \<Rightarrow> enc28j60 option" where
  "transfer t d = (if enc_locked d then Some (d\<lparr> bus_trace := bus_trace d @ [t] \<rparr>) else None)"

section \<open>Register access\<close>

definition write_operation :: "u8 \<Rightarrow> u8 \<Rightarrow> u8 \<Rightarrow> enc28j60 \<Rightarrow> enc28j60 option" where
  "write_operation operation address data d = transfer (WriteOp operation address data) d"

definition read_operation :: "chip \<Rightarrow> u8 \<Rightarrow> u8 \<Rightarrow> enc28j60 \<Rightarrow> (u8 \<times> enc28j60) option" where
  "read_operation chip operation address d =
     (let command = operation OR (address AND ADDR_MASK);
          result = ch_answer chip (bus_trace d) command (if address AND 0x80 \<noteq> 0 then 1 else 0)
      in do { d \<leftarrow> transfer (ReadOp operation address result) d; Some (result, d) })"

definition get_current_bank :: "chip \<Rightarrow> enc28j60 \<Rightarrow> (u8 \<times> enc28j60) option" where
  "get_current_bank chip d =
     do { (v, d) \<leftarrow> read_operation chip ENC28J60_READ_CTRL_REG ECON1 d; Some (v AND 0x03, d) }"

definition set_bank_with_mask :: "chip \<Rightarrow> u8 \<Rightarrow> enc28j60 \<Rightarrow> enc28j60 option" where
  "set_bank_with_mask chip address d =
     (let bank_to_set = drop_bit 5 (address AND BANK_MASK) in
      if bank_to_set = enc_bank d then Some d
      else
        do { (current_bank, d) \<leftarrow> get_current_bank chip d;
             d \<leftarrow> (if current_bank \<noteq> bank_to_set
                   then do { d \<leftarrow> write_operation ENC28J60_BIT_FIELD_CLR ECON1 0x03 d;
                             write_operation ENC28J60_BIT_FIELD_SET ECON1 bank_to_set d }
                   else Some d);
             Some (d\<lparr> enc_bank := bank_to_set \<rparr>) })"

definition write_register_byte :: "chip \<Rightarrow> u8 \<Rightarrow> u8 \<Rightarrow> enc28j60 \<Rightarrow> enc28j60 option" where
  "write_register_byte chip address data d =
     do { d \<leftarrow> set_bank_with_mask chip address d;
          write_operation ENC28J60_WRITE_CTRL_REG address data d }"

definition write_register :: "chip \<Rightarrow> u8 \<Rightarrow> u16 \<Rightarrow> enc28j60 \<Rightarrow> enc28j60 option" where
  "write_register chip address data d =
     do { d \<leftarrow> write_register_byte chip address (lo8 data) d;
          write_register_byte chip (address + 1) (hi8 data) d }"

definition read_register_byte :: "chip \<Rightarrow> u8 \<Rightarrow> enc28j60 \<Rightarrow> (u8 \<times> enc28j60) option" where
  "read_register_byte chip address d =
     do { d \<leftarrow> set_bank_with_mask chip address d; read_operation chip ENC28J60_READ_CTRL_REG address d }"

text \<open>C leaves the order of the two reads open; here the low byte is read first.\<close>

definition read_register :: "chip \<Rightarrow> u8 \<Rightarrow> enc28j60 \<Rightarrow> (u16 \<times> enc28j60) option" where
  "read_register chip address d =
     do { (l, d) \<leftarrow> read_register_byte chip address d;
          (h, d) \<leftarrow> read_register_byte chip (address + 1) d;
          Some (ucast l + push_bit 8 (ucast h), d) }"

definition write_buffer :: "u16 \<Rightarrow> buf \<Rightarrow> enc28j60 \<Rightarrow> enc28j60 option" where
  "write_buffer len data d =
     (if len = 0 then Some d
      else do { bytes \<leftarrow> rd_bytes data 0 (unat len); transfer (WriteMem bytes) d })"

definition read_buffer :: "chip \<Rightarrow> u16 \<Rightarrow> buf \<Rightarrow> enc28j60 \<Rightarrow> (buf \<times> enc28j60) option" where
  "read_buffer chip len data d =
     (if len = 0 then Some (data, d)
      else do { let bytes = map (ch_answer chip (bus_trace d) ENC28J60_READ_BUF_MEM) [0..<unat len];
                data \<leftarrow> wr_bytes data 0 bytes; d \<leftarrow> transfer (ReadMem bytes) d; Some (data, d) })"

section \<open>The PHY\<close>

partial_function (option) wait_phy_loop :: "chip \<Rightarrow> u32 \<Rightarrow> enc28j60 \<Rightarrow> (bool \<times> enc28j60) option" where
  "wait_phy_loop chip started d =
     do { (v, d) \<leftarrow> read_register_byte chip MISTAT d;
          if v AND MISTAT_BUSY = 0 then Some (True, d)
          else do { (now, d) \<leftarrow> get_tick chip d;
                    if now - started \<ge> PHY_BUSY_TIMEOUT_MS then Some (False, d)
                    else wait_phy_loop chip started d } }"

definition wait_phy_ready :: "chip \<Rightarrow> enc28j60 \<Rightarrow> (bool \<times> enc28j60) option" where
  "wait_phy_ready chip d = do { (started, d) \<leftarrow> get_tick chip d; wait_phy_loop chip started d }"

definition write_Phy :: "chip \<Rightarrow> u8 \<Rightarrow> u16 \<Rightarrow> enc28j60 \<Rightarrow> (bool \<times> enc28j60) option" where
  "write_Phy chip address data d =
     do { d \<leftarrow> write_register_byte chip MIREGADR address d; d \<leftarrow> write_register chip MIWR data d;
          wait_phy_ready chip d }"

text \<open>The value is NULL where the code returns false; its only caller passes a pointer.\<close>

definition read_Phy_byte :: "chip \<Rightarrow> u8 \<Rightarrow> enc28j60 \<Rightarrow> (u8 ptr \<times> enc28j60) option" where
  "read_Phy_byte chip address d =
     do { d \<leftarrow> write_register_byte chip MIREGADR address d;
          d \<leftarrow> write_register_byte chip MICMD MICMD_MIIRD d;
          (ready, d) \<leftarrow> wait_phy_ready chip d;
          d \<leftarrow> write_register_byte chip MICMD 0x00 d;
          if \<not> ready then Some (None, d)
          else do { (v, d) \<leftarrow> read_register_byte chip (MIRD + 1) d; Some (Some v, d) } }"

section \<open>Starting\<close>

definition enc28j60_alloc :: "bool \<Rightarrow> bool \<Rightarrow> bool \<Rightarrow> buf \<Rightarrow> buf \<Rightarrow> enc28j60 ptr option" where
  "enc28j60_alloc malloc_ok spi_ok mutex_ok mac_address ip_address =
     (if \<not> malloc_ok \<or> \<not> spi_ok \<or> \<not> mutex_ok then Some None
      else do { mac \<leftarrow> rd_bytes mac_address 0 6; ip \<leftarrow> rd_bytes ip_address 0 4;
                Some (Some \<lparr> enc_spi = True, enc_mac_address = mac, enc_ip_address = ip, enc_bank = 0,
                             enc_rx_next_packet = RXSTART_INIT, enc_rx_packet_unreleased = False,
                             enc_locked = False, bus_trace = [], bus_ticks = 0 \<rparr>) })"

definition enc28j60_soft_reset :: "enc28j60 \<Rightarrow> enc28j60 option" where
  "enc28j60_soft_reset d =
     (if \<not> enc_spi d then Some d
      else do { d \<leftarrow> mutex_acquire d;
                d \<leftarrow> write_operation ENC28J60_SOFT_RESET 0 ENC28J60_SOFT_RESET d;
                mutex_release (d\<lparr> enc_bank := 0, enc_rx_next_packet := RXSTART_INIT,
                                  enc_rx_packet_unreleased := False \<rparr>) })"

definition write_mac :: "chip \<Rightarrow> enc28j60 \<Rightarrow> enc28j60 option" where
  "write_mac chip d =
     do { m \<leftarrow> rd (enc_mac_address d) 0; d \<leftarrow> write_register_byte chip MAADR5 m d;
          m \<leftarrow> rd (enc_mac_address d) 1; d \<leftarrow> write_register_byte chip MAADR4 m d;
          m \<leftarrow> rd (enc_mac_address d) 2; d \<leftarrow> write_register_byte chip MAADR3 m d;
          m \<leftarrow> rd (enc_mac_address d) 3; d \<leftarrow> write_register_byte chip MAADR2 m d;
          m \<leftarrow> rd (enc_mac_address d) 4; d \<leftarrow> write_register_byte chip MAADR1 m d;
          m \<leftarrow> rd (enc_mac_address d) 5; write_register_byte chip MAADR0 m d }"

definition enc28j60_set_mac :: "chip \<Rightarrow> enc28j60 \<Rightarrow> enc28j60 option" where
  "enc28j60_set_mac chip d = do { d \<leftarrow> mutex_acquire d; d \<leftarrow> write_mac chip d; mutex_release d }"

text \<open>The loop that waits for the oscillator; \<open>False\<close> is the timeout.\<close>

partial_function (option) wait_clock_ready :: "chip \<Rightarrow> u32 \<Rightarrow> enc28j60 \<Rightarrow> (bool \<times> enc28j60) option" where
  "wait_clock_ready chip prev_time d =
     do { (v, d) \<leftarrow> read_operation chip ENC28J60_READ_CTRL_REG ESTAT d;
          if v AND ESTAT_CLKRDY \<noteq> 0 then Some (True, d)
          else do { (now, d) \<leftarrow> get_tick chip d;
                    if now > prev_time + 1000 then Some (False, d)
                    else wait_clock_ready chip prev_time d } }"

text \<open>The buffer registers, the pattern filter for LLDP and the receive filter.\<close>

definition start_buffers :: "chip \<Rightarrow> enc28j60 \<Rightarrow> enc28j60 option" where
  "start_buffers chip d =
     do { d \<leftarrow> write_register chip ERXST RXSTART_INIT d;
          d \<leftarrow> write_register chip ERXRDPT RXSTART_INIT d;
          d \<leftarrow> write_register chip ERXND RXSTOP_INIT d;
          d \<leftarrow> write_register chip ETXST TXSTART_INIT d;
          write_register chip ETXND TXSTOP_INIT d }"

definition start_filters :: "chip \<Rightarrow> enc28j60 \<Rightarrow> enc28j60 option" where
  "start_filters chip d =
     do { d \<leftarrow> write_register_byte chip EPMOL 0x00 d; d \<leftarrow> write_register_byte chip EPMOH 0x00 d;
          d \<leftarrow> write_register_byte chip EPMM0 0x00 d; d \<leftarrow> write_register_byte chip EPMM1 0x30 d;
          d \<leftarrow> write_register_byte chip EPMM2 0x00 d; d \<leftarrow> write_register_byte chip EPMM3 0x00 d;
          d \<leftarrow> write_register_byte chip EPMM4 0x00 d; d \<leftarrow> write_register_byte chip EPMM5 0x00 d;
          d \<leftarrow> write_register_byte chip EPMM6 0x00 d; d \<leftarrow> write_register_byte chip EPMM7 0x00 d;
          d \<leftarrow> write_register chip EPMCS 0x7733 d;
          write_register_byte chip ERXFCON
            (ERXFCON_UCEN OR ERXFCON_CRCEN OR ERXFCON_PMEN OR ERXFCON_BCEN) d }"

definition start_mac :: "chip \<Rightarrow> enc28j60 \<Rightarrow> enc28j60 option" where
  "start_mac chip d =
     do { d \<leftarrow> write_register_byte chip MACON1 MACON1_MARXEN d;
          d \<leftarrow> write_operation ENC28J60_BIT_FIELD_SET MACON3
                 (MACON3_PADCFG0 OR MACON3_TXCRCEN OR MACON3_FRMLNEN) d;
          d \<leftarrow> write_register chip MAIPG 0x0C12 d;
          d \<leftarrow> write_register_byte chip MABBIPG 0x12 d;
          d \<leftarrow> write_register chip MAMXFL MAX_FRAMELEN d;
          write_mac chip d }"

definition start_enable :: "chip \<Rightarrow> enc28j60 \<Rightarrow> (u8 \<times> enc28j60) option" where
  "start_enable chip d =
     do { d \<leftarrow> set_bank_with_mask chip ECON1 d;
          d \<leftarrow> write_operation ENC28J60_BIT_FIELD_SET EIE (EIE_INTIE OR EIE_PKTIE) d;
          d \<leftarrow> write_operation ENC28J60_BIT_FIELD_SET ECON1 ECON1_RXEN d;
          read_register_byte chip EREVID d }"

definition enc28j60_start :: "chip \<Rightarrow> enc28j60 \<Rightarrow> (u8 \<times> enc28j60) option" where
  "enc28j60_start chip d =
     (if \<not> enc_spi d then Some (0xFF, d)
      else
        do { d \<leftarrow> mutex_acquire d;
             let d = d\<lparr> enc_bank := 0, enc_rx_next_packet := RXSTART_INIT, enc_rx_packet_unreleased := False \<rparr>;
             (prev_time, d) \<leftarrow> get_tick chip d;
             (ready, d) \<leftarrow> wait_clock_ready chip prev_time d;
             if \<not> ready then do { d \<leftarrow> mutex_release d; Some (0xFF, d) }
             else
               do { d \<leftarrow> start_buffers chip d;
                    d \<leftarrow> start_filters chip d;
                    (written, d) \<leftarrow> write_Phy chip PHLCON 0x476 d;
                    if \<not> written then do { d \<leftarrow> mutex_release d; Some (0xFF, d) }
                    else
                      do { d \<leftarrow> start_mac chip d;
                           (written, d) \<leftarrow> write_Phy chip PHCON2 PHCON2_HDLDIS d;
                           if \<not> written then do { d \<leftarrow> mutex_release d; Some (0xFF, d) }
                           else
                             do { (rev_id, d) \<leftarrow> start_enable chip d;
                                  d \<leftarrow> mutex_release d;
                                  Some (if rev_id > 5 then rev_id + 1 else rev_id, d) } } } })"

section \<open>The link\<close>

definition is_link_up :: "chip \<Rightarrow> enc28j60 \<Rightarrow> (bool \<times> enc28j60) option" where
  "is_link_up chip d =
     do { d \<leftarrow> mutex_acquire d;
          (phy_status, d) \<leftarrow> read_Phy_byte chip PHSTAT2 d;
          let result = (case phy_status of Some v \<Rightarrow> drop_bit 2 v AND 1 \<noteq> 0 | None \<Rightarrow> False);
          d \<leftarrow> mutex_release d;
          Some (result, d) }"

partial_function (option) network_loop :: "chip \<Rightarrow> u32 \<Rightarrow> bool \<Rightarrow> enc28j60 \<Rightarrow> (bool \<times> enc28j60) option" where
  "network_loop chip last_time ret d =
     do { (now, d) \<leftarrow> get_tick chip d;
          if now - last_time < 1500 \<and> \<not> ret
          then do { (ret, d) \<leftarrow> is_link_up chip d; network_loop chip last_time ret d }
          else Some (ret, d) }"

definition is_the_network_connected :: "chip \<Rightarrow> enc28j60 \<Rightarrow> (bool \<times> enc28j60) option" where
  "is_the_network_connected chip d =
     do { (last_time, d) \<leftarrow> get_tick chip d; network_loop chip last_time False d }"

section \<open>Sending\<close>

text \<open>The loop that polls the end of a transmission; the result is \<open>count\<close>.\<close>

function poll_transmission :: "chip \<Rightarrow> nat \<Rightarrow> enc28j60 \<Rightarrow> (nat \<times> enc28j60) option" where
  "poll_transmission chip count d =
     do { (v, d) \<leftarrow> read_register_byte chip EIR d;
          if v AND (EIR_TXIF OR EIR_TXERIF) \<noteq> 0 then Some (count, d)
          else if count + 1 < 1000 then poll_transmission chip (count + 1) d
          else Some (count + 1, d) }"
  by pat_completeness auto
termination by (relation "measure (\<lambda>(_, count, _). 1000 - count)") auto

definition load_frame :: "chip \<Rightarrow> buf \<Rightarrow> u16 \<Rightarrow> enc28j60 \<Rightarrow> enc28j60 option" where
  "load_frame chip buffer len d =
     do { d \<leftarrow> write_register chip EWRPT TXSTART_INIT d;
          d \<leftarrow> write_register chip ETXND (TXSTART_INIT + len) d;
          d \<leftarrow> write_operation ENC28J60_WRITE_BUF_MEM 0 0x00 d;
          write_buffer len buffer d }"

text \<open>One pass of the loop; the result says whether it ends.\<close>

definition send_attempt :: "chip \<Rightarrow> buf \<Rightarrow> u16 \<Rightarrow> nat \<Rightarrow> enc28j60 \<Rightarrow> (bool \<times> enc28j60) option" where
  "send_attempt chip buffer len retry d =
     do { d \<leftarrow> write_operation ENC28J60_BIT_FIELD_SET ECON1 ECON1_TXRST d;
          d \<leftarrow> write_operation ENC28J60_BIT_FIELD_CLR ECON1 ECON1_TXRST d;
          d \<leftarrow> write_operation ENC28J60_BIT_FIELD_CLR EIR (EIR_TXERIF OR EIR_TXIF) d;
          d \<leftarrow> (if retry = 0 then load_frame chip buffer len d else Some d);
          d \<leftarrow> write_operation ENC28J60_BIT_FIELD_SET ECON1 ECON1_TXRTS d;
          (count, d) \<leftarrow> poll_transmission chip 0 d;
          (v, d) \<leftarrow> read_register_byte chip EIR d;
          if v AND EIR_TXERIF = 0 \<and> count < 1000 then Some (True, d)
          else
            do { d \<leftarrow> write_operation ENC28J60_BIT_FIELD_CLR ECON1 ECON1_TXRTS d;
                 (etxnd, d) \<leftarrow> read_register chip ETXND d;
                 d \<leftarrow> write_register chip ERDPT (etxnd + 1) d;
                 (tsv, d) \<leftarrow> read_buffer chip 7 (replicate 7 0) d;
                 (v, d) \<leftarrow> read_register_byte chip EIR d;
                 tsv3 \<leftarrow> rd tsv 3;
                 Some (\<not> (v AND EIR_TXERIF \<noteq> 0 \<and> tsv3 AND push_bit 5 1 \<noteq> 0) \<or> retry > 16, d) } }"

lemma send_attempt_stops: "send_attempt chip buffer len retry d = Some (stop, d') \<Longrightarrow> retry > 16 \<Longrightarrow> stop"
  by (auto simp: send_attempt_def Option.bind_eq_Some_conv simp del: poll_transmission.simps split: if_splits prod.splits)

function send_loop :: "chip \<Rightarrow> buf \<Rightarrow> u16 \<Rightarrow> nat \<Rightarrow> enc28j60 \<Rightarrow> enc28j60 option" where
  "send_loop chip buffer len retry d =
     (case send_attempt chip buffer len retry d of
        None \<Rightarrow> None
      | Some (stop, d') \<Rightarrow> if stop then Some d' else send_loop chip buffer len (retry + 1) d')"
  by pat_completeness auto
termination
proof (relation "measure (\<lambda>(_, _, _, retry, _). 18 - retry)")
  fix chip buffer len retry d x stop d'
  assume "send_attempt chip buffer len retry d = Some x" "(stop, d') = x" "\<not> stop"
  then have "\<not> retry > 16" using send_attempt_stops by blast
  then show "((chip, buffer, len, retry + 1, d'), chip, buffer, len, retry, d) \<in> measure (\<lambda>(_, _, _, retry, _). 18 - retry)"
    by simp
qed simp

definition send_packet :: "chip \<Rightarrow> buf \<Rightarrow> u16 \<Rightarrow> enc28j60 \<Rightarrow> enc28j60 option" where
  "send_packet chip buffer len d =
     do { d \<leftarrow> mutex_acquire d; d \<leftarrow> send_loop chip buffer len 0 d; mutex_release d }"

section \<open>Receiving\<close>

definition release_packet :: "chip \<Rightarrow> enc28j60 \<Rightarrow> enc28j60 option" where
  "release_packet chip d =
     (if enc_rx_packet_unreleased d
      then do { d \<leftarrow> (if enc_rx_next_packet d = 0 then write_register chip ERXRDPT RXSTOP_INIT d
                      else write_register chip ERXRDPT (enc_rx_next_packet d - 1) d);
                Some (d\<lparr> enc_rx_packet_unreleased := False \<rparr>) }
      else Some d)"

definition read_packet :: "chip \<Rightarrow> buf \<Rightarrow> u16 \<Rightarrow> enc28j60 \<Rightarrow> (u16 \<times> buf \<times> enc28j60) option" where
  "read_packet chip buffer size_arg d =
     do { d \<leftarrow> write_register chip ERDPT (enc_rx_next_packet d) d;
          (header, d) \<leftarrow> read_buffer chip 6 (replicate 6 0) d;
          l \<leftarrow> rd header 0; h \<leftarrow> rd header 1; let next_packet = be16 h l;
          l \<leftarrow> rd header 2; h \<leftarrow> rd header 3; let byteCount = be16 h l;
          l \<leftarrow> rd header 4; h \<leftarrow> rd header 5; let status = be16 h l;
          let d = d\<lparr> enc_rx_next_packet := next_packet \<rparr>;
          let len = byteCount - 4;
          let len = (if int (unat len) > int (unat size_arg) - 1 then of_int (int (unat size_arg) - 1) else len);
          (len, buffer, d) \<leftarrow>
            (if status AND 0x80 = 0 then Some (0, buffer, d)
             else do { (buffer, d) \<leftarrow> read_buffer chip len buffer d; Some (len, buffer, d) });
          buffer \<leftarrow> wr_bytes buffer (unat len) [0];
          let d = d\<lparr> enc_rx_packet_unreleased := True \<rparr>;
          d \<leftarrow> write_operation ENC28J60_BIT_FIELD_SET ECON2 ECON2_PKTDEC d;
          Some (len, buffer, d) }"

definition receive_packet :: "chip \<Rightarrow> buf \<Rightarrow> u16 \<Rightarrow> enc28j60 \<Rightarrow> (u16 \<times> buf \<times> enc28j60) option" where
  "receive_packet chip buffer size_arg d =
     do { d \<leftarrow> mutex_acquire d;
          d \<leftarrow> release_packet chip d;
          (pending, d) \<leftarrow> read_register_byte chip EPKTCNT d;
          (len, buffer, d) \<leftarrow> (if pending > 0 then read_packet chip buffer size_arg d else Some (0, buffer, d));
          d \<leftarrow> mutex_release d;
          Some (len, buffer, d) }"

section \<open>The receive filter\<close>

definition change_filter :: "chip \<Rightarrow> (u8 \<Rightarrow> u8) \<Rightarrow> enc28j60 \<Rightarrow> enc28j60 option" where
  "change_filter chip f d =
     do { d \<leftarrow> mutex_acquire d;
          (v, d) \<leftarrow> read_register_byte chip ERXFCON d;
          d \<leftarrow> write_register_byte chip ERXFCON (f v) d;
          mutex_release d }"

definition enable_broadcast :: "chip \<Rightarrow> enc28j60 \<Rightarrow> enc28j60 option" where
  "enable_broadcast chip d = change_filter chip (\<lambda>v. v OR ERXFCON_BCEN) d"

definition is_broadcast_enabled :: "chip \<Rightarrow> enc28j60 \<Rightarrow> (bool \<times> enc28j60) option" where
  "is_broadcast_enabled chip d =
     do { d \<leftarrow> mutex_acquire d;
          (v, d) \<leftarrow> read_register_byte chip ERXFCON d;
          d \<leftarrow> mutex_release d;
          Some (v AND ERXFCON_BCEN \<noteq> 0, d) }"

definition disable_broadcast :: "chip \<Rightarrow> enc28j60 \<Rightarrow> enc28j60 option" where
  "disable_broadcast chip d = change_filter chip (\<lambda>v. v AND NOT ERXFCON_BCEN) d"

definition enable_multicast :: "chip \<Rightarrow> enc28j60 \<Rightarrow> enc28j60 option" where
  "enable_multicast chip d = change_filter chip (\<lambda>v. v OR ERXFCON_MCEN) d"

definition disable_multicast :: "chip \<Rightarrow> enc28j60 \<Rightarrow> enc28j60 option" where
  "disable_multicast chip d = change_filter chip (\<lambda>v. v AND NOT ERXFCON_MCEN) d"

definition enable_promiscuous :: "chip \<Rightarrow> enc28j60 \<Rightarrow> enc28j60 option" where
  "enable_promiscuous chip d = change_filter chip (\<lambda>v. v AND ERXFCON_CRCEN) d"

definition disable_promiscuous :: "chip \<Rightarrow> enc28j60 \<Rightarrow> enc28j60 option" where
  "disable_promiscuous chip d =
     do { d \<leftarrow> mutex_acquire d;
          d \<leftarrow> write_register_byte chip ERXFCON
                 (ERXFCON_UCEN OR ERXFCON_CRCEN OR ERXFCON_PMEN OR ERXFCON_BCEN) d;
          mutex_release d }"

text \<open>The random source gives 32 bits at each call.\<close>

definition generate_random_mac :: "(nat \<Rightarrow> u32) \<Rightarrow> buf \<Rightarrow> buf option" where
  "generate_random_mac random_get mac =
     do { mac \<leftarrow> wr_bytes mac 0 (map (\<lambda>i. ucast (random_get i)) [0..<6]);
          m \<leftarrow> rd mac 0;
          wr_bytes mac 0 [(m AND 0xFC) OR 0x02] }"

declare poll_transmission.simps [simp del] send_loop.simps [simp del]

section \<open>The bank of a register\<close>

text \<open>The two bank bits of the chip's ECON1 register, from the transfers it has seen.\<close>

fun chip_bank_step :: "u8 \<Rightarrow> spi_transfer \<Rightarrow> u8" where
  "chip_bank_step b (WriteOp operation address data) =
     (if operation = ENC28J60_SOFT_RESET then 0
      else if address AND ADDR_MASK \<noteq> ECON1 then b
      else if operation = ENC28J60_WRITE_CTRL_REG then data AND 3
      else if operation = ENC28J60_BIT_FIELD_SET then b OR (data AND 3)
      else if operation = ENC28J60_BIT_FIELD_CLR then b AND NOT (data AND 3)
      else b)"
| "chip_bank_step b _ = b"

definition chip_bank :: "spi_transfer list \<Rightarrow> u8" where
  "chip_bank tr = foldl chip_bank_step 0 tr"

text \<open>A transfer to a register that is not in all banks finds the chip in the bank of the register.\<close>

fun right_bank :: "u8 \<Rightarrow> spi_transfer \<Rightarrow> bool" where
  "right_bank b (WriteOp operation address data) \<longleftrightarrow>
     operation \<in> {ENC28J60_WRITE_CTRL_REG, ENC28J60_BIT_FIELD_SET, ENC28J60_BIT_FIELD_CLR} \<and>
     address AND ADDR_MASK < EIE \<longrightarrow> b = drop_bit 5 (address AND BANK_MASK)"
| "right_bank b (ReadOp operation address result) \<longleftrightarrow>
     address AND ADDR_MASK < EIE \<longrightarrow> b = drop_bit 5 (address AND BANK_MASK)"
| "right_bank b _ \<longleftrightarrow> True"

fun right_banks :: "u8 \<Rightarrow> spi_transfer list \<Rightarrow> bool" where
  "right_banks b [] = True"
| "right_banks b (t # ts) = (right_bank b t \<and> right_banks (chip_bank_step b t) ts)"

lemma right_banks_append: "right_banks b (xs @ ys) \<longleftrightarrow> right_banks b xs \<and> right_banks (foldl chip_bank_step b xs) ys"
  by (induction xs arbitrary: b) simp_all

lemma chip_bank_snoc [simp]: "chip_bank (tr @ [t]) = chip_bank_step (chip_bank tr) t"
  by (simp add: chip_bank_def)

text \<open>Documented behaviour of the chip: reading ECON1 yields its bank bits.\<close>

definition honest_bank :: "chip \<Rightarrow> bool" where
  "honest_bank chip \<longleftrightarrow> (\<forall>tr. ch_answer chip tr ECON1 0 AND 0x03 = chip_bank tr)"

text \<open>Inside an operation: the mutex is held, the driver knows the bank, and every transfer was right.\<close>

definition driver_ok :: "enc28j60 \<Rightarrow> bool" where
  "driver_ok d \<longleftrightarrow> enc_locked d \<and> enc_bank d = chip_bank (bus_trace d) \<and> right_banks 0 (bus_trace d)"

text \<open>Between operations.\<close>

definition driver_idle :: "enc28j60 \<Rightarrow> bool" where
  "driver_idle d \<longleftrightarrow>
     \<not> enc_locked d \<and> enc_bank d = chip_bank (bus_trace d) \<and> right_banks 0 (bus_trace d) \<and>
     length (enc_mac_address d) = 6"

text \<open>What register accesses leave alone.\<close>

definition same_driver :: "enc28j60 \<Rightarrow> enc28j60 \<Rightarrow> bool" where
  "same_driver d d' \<longleftrightarrow>
     enc_spi d' = enc_spi d \<and> enc_mac_address d' = enc_mac_address d \<and> enc_ip_address d' = enc_ip_address d \<and>
     enc_rx_next_packet d' = enc_rx_next_packet d \<and> enc_rx_packet_unreleased d' = enc_rx_packet_unreleased d \<and>
     enc_locked d' = enc_locked d"

lemma same_driver_refl [simp]: "same_driver d d"
  by (simp add: same_driver_def)

lemma same_driver_trans: "same_driver d d' \<Longrightarrow> same_driver d' d'' \<Longrightarrow> same_driver d d''"
  by (simp add: same_driver_def)

lemma runs_transfer:
  assumes "driver_ok d" "right_bank (chip_bank (bus_trace d)) t" "chip_bank_step (enc_bank d) t = enc_bank d"
    and "\<And>d'. driver_ok d' \<Longrightarrow> same_driver d d' \<Longrightarrow> enc_bank d' = enc_bank d \<Longrightarrow> bus_trace d' = bus_trace d @ [t] \<Longrightarrow>
          bus_ticks d' = bus_ticks d \<Longrightarrow> Q d'"
  shows "runs (transfer t d) Q"
  using assms(1-3)
  by (auto simp: transfer_def driver_ok_def same_driver_def right_banks_append chip_bank_def [symmetric] intro!: assms(4))

text \<open>A bank number.\<close>

definition two_bits :: "u8 \<Rightarrow> bool" where
  "two_bits b \<longleftrightarrow> (\<forall>n\<ge>2. \<not> bit b n)"

lemma and_3: "(x :: u8) AND 3 = take_bit 2 x"
  by (simp add: take_bit_eq_mask mask_eq_exp_minus_1)

lemma two_bits_3: "two_bits (x AND 3)"
  by (auto simp: two_bits_def and_3 bit_take_bit_iff)

lemma two_bits_bank: "two_bits (drop_bit 5 (address AND BANK_MASK))"
proof -
  have "drop_bit 5 (address AND BANK_MASK) = drop_bit 5 address AND 3" by (simp add: drop_bit_and)
  then show ?thesis using two_bits_3 [of "drop_bit 5 address"] by simp
qed

lemma two_bits_and: "two_bits b \<Longrightarrow> b AND 3 = b"
  by (rule bit_word_eqI) (auto simp: two_bits_def and_3 bit_take_bit_iff not_le)

lemma two_bits_and_not: "two_bits b \<Longrightarrow> b AND NOT 3 = 0"
proof -
  assume b: "two_bits b"
  have "b AND NOT 3 = (b AND 3) AND NOT 3" by (simp add: two_bits_and [OF b])
  then show ?thesis by (simp add: and.assoc)
qed

lemma two_bits_step: "two_bits b \<Longrightarrow> two_bits (chip_bank_step b t)"
proof (cases t)
  case (WriteOp operation address data)
  assume "two_bits b"
  then show ?thesis
    using two_bits_3 [of data] by (auto simp: WriteOp two_bits_def bit_or_iff bit_and_iff bit_not_iff)
qed simp_all

lemma two_bits_chip: "two_bits (chip_bank tr)"
  by (induction tr rule: rev_induct) (simp add: chip_bank_def two_bits_def, simp add: two_bits_step)

section \<open>Register accesses are disciplined\<close>

named_theorems driver_runs \<comment> \<open>an access keeps the discipline and leaves the driver's variables\<close>

text \<open>Transfers that neither start a transmission, nor fill the transmit buffer, nor count a packet as read.\<close>

fun plain :: "spi_transfer \<Rightarrow> bool" where
  "plain (WriteOp operation address data) \<longleftrightarrow>
     \<not> (operation = ENC28J60_BIT_FIELD_SET \<and> address = ECON1 \<and> data = ECON1_TXRTS) \<and>
     operation \<noteq> ENC28J60_WRITE_BUF_MEM \<and> operation \<noteq> ENC28J60_SOFT_RESET \<and> address \<noteq> ECON2"
| "plain (WriteMem _) \<longleftrightarrow> False"
| "plain _ \<longleftrightarrow> True"

text \<open>From \<open>d\<close> to \<open>d'\<close> by plain transfers, with the discipline kept; \<open>waits\<close> may read the clock.\<close>

definition waits :: "enc28j60 \<Rightarrow> enc28j60 \<Rightarrow> bool" where
  "waits d d' \<longleftrightarrow>
     driver_ok d' \<and> same_driver d d' \<and> bus_ticks d \<le> bus_ticks d' \<and>
     (\<exists>tr. bus_trace d' = bus_trace d @ tr \<and> list_all plain tr)"

definition accesses :: "enc28j60 \<Rightarrow> enc28j60 \<Rightarrow> bool" where
  "accesses d d' \<longleftrightarrow>
     driver_ok d' \<and> same_driver d d' \<and> bus_ticks d' = bus_ticks d \<and>
     (\<exists>tr. bus_trace d' = bus_trace d @ tr \<and> list_all plain tr)"

lemma accesses_refl: "driver_ok d \<Longrightarrow> accesses d d"
  by (simp add: accesses_def)

lemma accesses_trans [trans]: "accesses d d' \<Longrightarrow> accesses d' d'' \<Longrightarrow> accesses d d''"
  unfolding accesses_def by (auto intro: same_driver_trans simp: list_all_append)

lemma accesses_ok: "accesses d d' \<Longrightarrow> driver_ok d'"
  by (simp add: accesses_def)

lemma waits_refl: "driver_ok d \<Longrightarrow> waits d d"
  by (simp add: waits_def)

lemma waits_ok: "waits d d' \<Longrightarrow> driver_ok d'"
  by (simp add: waits_def)

lemma waits_trans: "waits d d' \<Longrightarrow> waits d' d'' \<Longrightarrow> waits d d''"
  unfolding waits_def by (auto intro: same_driver_trans simp: list_all_append)

lemma waits_accesses: "waits d d' \<Longrightarrow> accesses d' d'' \<Longrightarrow> waits d d''"
  unfolding waits_def accesses_def by (auto intro: same_driver_trans simp: list_all_append)

lemma and_zero_eq_8: "(8 :: u8) AND 3 \<noteq> 8"
  by simp

lemma runs_set_bank:
  assumes h: "honest_bank chip" and d: "driver_ok d"
    and Q: "\<And>d'. accesses d d' \<Longrightarrow> enc_bank d' = drop_bit 5 (address AND BANK_MASK) \<Longrightarrow> Q d'"
  shows "runs (set_bank_with_mask chip address d) Q"
proof (cases "drop_bit 5 (address AND BANK_MASK) = enc_bank d")
  case True
  then show ?thesis using Q [of d] accesses_refl [OF d] by (simp add: set_bank_with_mask_def Let_def)
next
  case False
  let ?b = "drop_bit 5 (address AND BANK_MASK)" and ?r = "ch_answer chip (bus_trace d) ECON1 0"
  have lock: "enc_locked d" and bank: "enc_bank d = chip_bank (bus_trace d)" "right_banks 0 (bus_trace d)"
    using d by (simp_all add: driver_ok_def)
  have r: "?r AND 3 = enc_bank d" using h bank by (simp add: honest_bank_def)
  have b: "?b AND 3 = ?b" using two_bits_and [OF two_bits_bank] .
  let ?tr = "[ReadOp 0 ECON1 ?r, WriteOp 0xA0 ECON1 3, WriteOp 0x80 ECON1 ?b]"
  let ?d = "d\<lparr> bus_trace := bus_trace d @ ?tr, enc_bank := ?b \<rparr>"
  have step: "foldl chip_bank_step (chip_bank (bus_trace d)) ?tr = ?b"
    using two_bits_and_not [OF two_bits_chip] b by simp
  have "driver_ok ?d"
    using lock bank step by (simp add: driver_ok_def right_banks_append chip_bank_def)
  moreover have "set_bank_with_mask chip address d = Some ?d"
    using False lock r
    by (simp add: set_bank_with_mask_def get_current_bank_def read_operation_def write_operation_def transfer_def Let_def)
  moreover have "?b \<noteq> 8" using b by (metis and_zero_eq_8)
  then have "list_all plain ?tr" by simp
  ultimately show ?thesis
    using Q [of ?d] by (simp add: same_driver_def accesses_def)
qed

lemma runs_plain_transfer:
  assumes "driver_ok d" "right_bank (enc_bank d) t" "chip_bank_step (enc_bank d) t = enc_bank d" "plain t"
    and "\<And>d'. accesses d d' \<Longrightarrow> enc_bank d' = enc_bank d \<Longrightarrow> Q d'"
  shows "runs (transfer t d) Q"
  by (rule runs_transfer) (use assms in \<open>auto simp: accesses_def driver_ok_def\<close>)

text \<open>Each access in front of the rest of an operation, and as its last step.\<close>

lemma runs_bind_pair: "runs m (\<lambda>x. case x of (v, d) \<Rightarrow> runs (f v d) Q) \<Longrightarrow> runs (m \<bind> (\<lambda>(v, d). f v d)) Q"
  by (cases m) auto

lemma runs_write_register_byte:
  assumes "honest_bank chip" "driver_ok d" "address AND ADDR_MASK \<noteq> ECON1" "address \<noteq> ECON2"
    and Q: "\<And>d'. accesses d d' \<Longrightarrow> Q d'"
  shows "runs (write_register_byte chip address data d) Q"
  unfolding write_register_byte_def write_operation_def
  by (intro runs_bind runs_set_bank [OF assms(1,2)] runs_plain_transfer)
    (use assms(3,4) in \<open>auto intro: Q accesses_trans accesses_ok\<close>)

lemma runs_write_register:
  assumes "honest_bank chip" "driver_ok d" "address AND ADDR_MASK \<noteq> ECON1" "address \<noteq> ECON2"
    "(address + 1) AND ADDR_MASK \<noteq> ECON1" "address + 1 \<noteq> ECON2"
    and Q: "\<And>d'. accesses d d' \<Longrightarrow> Q d'"
  shows "runs (write_register chip address data d) Q"
  unfolding write_register_def
  by (intro runs_bind runs_write_register_byte [OF assms(1)]) (use assms in \<open>auto intro: Q accesses_trans accesses_ok\<close>)

lemma runs_read_register_byte:
  assumes "honest_bank chip" "driver_ok d"
    and Q: "\<And>v d'. accesses d d' \<Longrightarrow> Q (v, d')"
  shows "runs (read_register_byte chip address d) Q"
  unfolding read_register_byte_def read_operation_def Let_def
  by (intro runs_bind runs_set_bank [OF assms(1,2)] runs_plain_transfer runs_SomeI)
    (auto intro: Q accesses_trans accesses_ok)

lemma runs_waits:
  assumes "waits d0 d" "runs m Q'" "\<And>r. Q' r \<Longrightarrow> Q r"
  shows "runs m Q"
  using assms(2,3) by (rule runs_mono)

lemma bind_write_register_byte [driver_runs]:
  assumes "honest_bank chip" "waits d0 d" "address AND ADDR_MASK \<noteq> ECON1" "address \<noteq> ECON2"
    "\<And>d'. waits d0 d' \<Longrightarrow> runs (f d') Q"
  shows "runs (write_register_byte chip address data d \<bind> f) Q"
  by (intro runs_bind runs_write_register_byte [OF assms(1) waits_ok [OF assms(2)] assms(3,4)] assms(5))
    (rule waits_accesses [OF assms(2)])

lemma bind_write_register [driver_runs]:
  assumes "honest_bank chip" "waits d0 d" "address AND ADDR_MASK \<noteq> ECON1" "address \<noteq> ECON2"
    "(address + 1) AND ADDR_MASK \<noteq> ECON1" "address + 1 \<noteq> ECON2"
    "\<And>d'. waits d0 d' \<Longrightarrow> runs (f d') Q"
  shows "runs (write_register chip address data d \<bind> f) Q"
  by (intro runs_bind runs_write_register [OF assms(1) waits_ok [OF assms(2)] assms(3-6)] assms(7))
    (rule waits_accesses [OF assms(2)])

lemma bind_read_register_byte [driver_runs]:
  assumes "honest_bank chip" "waits d0 d" "\<And>v d'. waits d0 d' \<Longrightarrow> runs (f v d') Q"
  shows "runs (read_register_byte chip address d \<bind> (\<lambda>(v, d). f v d)) Q"
  by (intro runs_bind runs_read_register_byte [OF assms(1) waits_ok [OF assms(2)]])
    (auto intro: assms(3) waits_accesses [OF assms(2)])

lemma bind_read_register [driver_runs]:
  assumes "honest_bank chip" "waits d0 d" "\<And>v d'. waits d0 d' \<Longrightarrow> runs (f v d') Q"
  shows "runs (read_register chip address d \<bind> (\<lambda>(v, d). f v d)) Q"
proof -
  have "runs (read_register chip address d) (\<lambda>(v, d'). waits d0 d')"
    unfolding read_register_def by (intro bind_read_register_byte [OF assms(1), where ?d0.0 = d0]) (use assms(2) in simp_all)
  then show ?thesis by (intro runs_bind, elim runs_mono) (auto intro: assms(3))
qed

lemma bind_get_tick [driver_runs]:
  assumes "waits d0 d" "\<And>v d'. waits d0 d' \<Longrightarrow> runs (f v d') Q"
  shows "runs (get_tick chip d \<bind> (\<lambda>(v, d). f v d)) Q"
  using assms(1) by (auto simp: get_tick_def waits_def driver_ok_def same_driver_def intro!: assms(2))

text \<open>The last step of an operation.\<close>

lemma last_write_register_byte [driver_runs]:
  "honest_bank chip \<Longrightarrow> waits d0 d \<Longrightarrow> address AND ADDR_MASK \<noteq> ECON1 \<Longrightarrow> address \<noteq> ECON2 \<Longrightarrow>
     (\<And>d'. waits d0 d' \<Longrightarrow> Q d') \<Longrightarrow> runs (write_register_byte chip address data d) Q"
  by (rule runs_write_register_byte) (auto intro: waits_ok waits_accesses)

lemma last_write_register [driver_runs]:
  "honest_bank chip \<Longrightarrow> waits d0 d \<Longrightarrow> address AND ADDR_MASK \<noteq> ECON1 \<Longrightarrow> address \<noteq> ECON2 \<Longrightarrow>
     (address + 1) AND ADDR_MASK \<noteq> ECON1 \<Longrightarrow> address + 1 \<noteq> ECON2 \<Longrightarrow>
     (\<And>d'. waits d0 d' \<Longrightarrow> Q d') \<Longrightarrow> runs (write_register chip address data d) Q"
  by (rule runs_write_register) (auto intro: waits_ok waits_accesses)

lemma last_read_register_byte [driver_runs]:
  "honest_bank chip \<Longrightarrow> waits d0 d \<Longrightarrow> (\<And>v d'. waits d0 d' \<Longrightarrow> Q (v, d')) \<Longrightarrow>
     runs (read_register_byte chip address d) Q"
  by (rule runs_read_register_byte) (auto intro: waits_ok waits_accesses)

section \<open>Waiting ends\<close>

text \<open>The clock never goes back, does not stop, and moves at most a second between two readings.\<close>

definition steady_clock :: "chip \<Rightarrow> bool" where
  "steady_clock chip \<longleftrightarrow>
     mono (ch_ms chip) \<and> (\<forall>n. ch_ms chip (Suc n) \<le> ch_ms chip n + 1000) \<and> (\<forall>m. \<exists>n. m \<le> ch_ms chip n)"

lemma tick_difference:
  assumes "a \<le> b" "b - a < 2 ^ 32"
  shows "unat ((of_nat b :: u32) - of_nat a) = b - a"
proof -
  have "(of_nat b :: u32) - of_nat a = of_nat (b - a)" using assms(1) by (simp add: of_nat_diff)
  then show ?thesis using assms(2) by (simp add: unat_of_nat_u32)
qed

lemma runs_wait_phy_loop:
  assumes h: "honest_bank chip" and clock: "steady_clock chip"
    and d: "waits d0 d" "k < bus_ticks d" "ch_ms chip (bus_ticks d - 1) < ch_ms chip k + 100"
  shows "runs (wait_phy_loop chip (of_nat (ch_ms chip k)) d)
           (\<lambda>(r, d'). waits d0 d' \<and> k < bus_ticks d' \<and> ch_ms chip (bus_ticks d' - 1) \<le> ch_ms chip k + 1100)"
    (is "runs _ ?Q")
proof -
  obtain N where N: "ch_ms chip k + 100 \<le> ch_ms chip N" using clock unfolding steady_clock_def by blast
  have mono: "mono (ch_ms chip)" and jump: "\<And>n. ch_ms chip (Suc n) \<le> ch_ms chip n + 1000"
    using clock unfolding steady_clock_def by blast+
  show ?thesis
    using d
  proof (induction "N + 1 - bus_ticks d" arbitrary: d rule: less_induct)
    case less
    let ?j = "bus_ticks d"
    have j: "?j \<le> N"
    proof (rule ccontr)
      assume "\<not> ?j \<le> N"
      then have "ch_ms chip N \<le> ch_ms chip (?j - 1)" by (intro monoD [OF mono]) simp
      then show False using less.prems(3) N by simp
    qed
    have lo: "ch_ms chip k \<le> ch_ms chip ?j" using less.prems(2) by (intro monoD [OF mono]) simp
    have hi: "ch_ms chip ?j \<le> ch_ms chip k + 1100"
      using jump [of "?j - 1"] less.prems(2,3) by simp
    have now: "unat ((of_nat (ch_ms chip ?j) :: u32) - of_nat (ch_ms chip k)) = ch_ms chip ?j - ch_ms chip k"
      using lo hi by (intro tick_difference) simp_all
    show ?case
      unfolding wait_phy_loop.simps [of chip _ d]
    proof (intro runs_bind runs_read_register_byte [OF h waits_ok [OF less.prems(1)]], simp only: prod.case, intro runs_if)
      fix v d1 assume d1: "accesses d d1" "v AND MISTAT_BUSY \<noteq> 0"
      have w1: "waits d0 d1" by (rule waits_accesses [OF less.prems(1) d1(1)])
      have t1: "bus_ticks d1 = ?j" using d1(1) by (simp add: accesses_def)
      let ?d2 = "d1\<lparr> bus_ticks := bus_ticks d1 + 1 \<rparr>"
      have w2: "waits d0 ?d2" using w1 by (auto simp: waits_def driver_ok_def same_driver_def)
      show "runs (get_tick chip d1 \<bind> (\<lambda>(now, d).
          if PHY_BUSY_TIMEOUT_MS \<le> now - of_nat (ch_ms chip k) then Some (False, d)
          else wait_phy_loop chip (of_nat (ch_ms chip k)) d)) ?Q"
      proof (cases "(100 :: u32) \<le> of_nat (ch_ms chip ?j) - of_nat (ch_ms chip k)")
        case True
        then show ?thesis using w2 t1 hi less.prems(2) by (simp add: get_tick_def)
      next
        case False
        then have lt: "ch_ms chip ?j < ch_ms chip k + 100" using now lo by (simp add: word_le_nat_alt)
        have "runs (wait_phy_loop chip (of_nat (ch_ms chip k)) ?d2) ?Q"
          by (rule less.hyps) (use w2 t1 lt j less.prems(2) in auto)
        then show ?thesis using False t1 by (simp add: get_tick_def)
      qed
    qed (use waits_accesses [OF less.prems(1)] less.prems(2,3) in \<open>auto simp: accesses_def\<close>)
  qed
qed

lemma runs_wait_phy_ready:
  assumes "honest_bank chip" "steady_clock chip" "waits d0 d"
    "\<And>r d'. waits d0 d' \<Longrightarrow> bus_ticks d < bus_ticks d' \<Longrightarrow>
       ch_ms chip (bus_ticks d' - 1) \<le> ch_ms chip (bus_ticks d) + 1100 \<Longrightarrow> Q (r, d')"
  shows "runs (wait_phy_ready chip d) Q"
proof -
  let ?d = "d\<lparr> bus_ticks := bus_ticks d + 1 \<rparr>"
  have "waits d0 ?d" using assms(3) by (auto simp: waits_def driver_ok_def same_driver_def)
  then have "runs (wait_phy_loop chip (of_nat (ch_ms chip (bus_ticks d))) ?d)
      (\<lambda>(r, d'). waits d0 d' \<and> bus_ticks d < bus_ticks d' \<and>
         ch_ms chip (bus_ticks d' - 1) \<le> ch_ms chip (bus_ticks d) + 1100)"
    by (intro runs_wait_phy_loop assms(1,2)) simp_all
  then show ?thesis
    unfolding wait_phy_ready_def get_tick_def by (auto elim!: runs_mono intro: assms(4))
qed

lemma bind_wait_phy_ready [driver_runs]:
  assumes "honest_bank chip" "steady_clock chip" "waits d0 d" "\<And>r d'. waits d0 d' \<Longrightarrow> runs (f r d') Q"
  shows "runs (wait_phy_ready chip d \<bind> (\<lambda>(r, d). f r d)) Q"
  by (intro runs_bind runs_wait_phy_ready [OF assms(1-3)]) (auto intro: assms(4))

lemma bind_write_Phy [driver_runs]:
  assumes "honest_bank chip" "steady_clock chip" "waits d0 d" "\<And>r d'. waits d0 d' \<Longrightarrow> runs (f r d') Q"
  shows "runs (write_Phy chip address data d \<bind> (\<lambda>(r, d). f r d)) Q"
proof -
  have "runs (write_Phy chip address data d) (\<lambda>(r, d'). waits d0 d')"
    unfolding write_Phy_def
    by (intro driver_runs [where ?d0.0 = d0] runs_wait_phy_ready [where ?d0.0 = d0]) (use assms(1-3) in simp_all)
  then show ?thesis by (intro runs_bind, elim runs_mono) (auto intro: assms(4))
qed

lemma bind_read_Phy_byte [driver_runs]:
  assumes "honest_bank chip" "steady_clock chip" "waits d0 d" "\<And>r d'. waits d0 d' \<Longrightarrow> runs (f r d') Q"
  shows "runs (read_Phy_byte chip address d \<bind> (\<lambda>(r, d). f r d)) Q"
proof -
  have "runs (read_Phy_byte chip address d) (\<lambda>(r, d'). waits d0 d')"
    unfolding read_Phy_byte_def
    by (intro driver_runs [where ?d0.0 = d0] runs_if) (use assms(1-3) in simp_all)
  then show ?thesis by (intro runs_bind, elim runs_mono) (auto intro: assms(4))
qed

lemma runs_write_mac [driver_runs]:
  assumes "honest_bank chip" "waits d0 d" "length (enc_mac_address d0) = 6" "\<And>d'. waits d0 d' \<Longrightarrow> Q d'"
  shows "runs (write_mac chip d) Q"
proof -
  have mac: "enc_mac_address d' = enc_mac_address d0" if "waits d0 d'" for d' using that by (simp add: waits_def same_driver_def)
  show ?thesis
    unfolding write_mac_def
    by (intro runs_bind runs_rd driver_runs [where ?d0.0 = d0]) (use assms mac in simp_all)
qed

lemma last_wait_phy_ready [driver_runs]:
  "honest_bank chip \<Longrightarrow> steady_clock chip \<Longrightarrow> waits d0 d \<Longrightarrow> (\<And>r d'. waits d0 d' \<Longrightarrow> Q (r, d')) \<Longrightarrow>
     runs (wait_phy_ready chip d) Q"
  by (rule runs_wait_phy_ready)

section \<open>Starting\<close>

lemma runs_wait_clock_ready:
  assumes clock: "steady_clock chip" and k: "ch_ms chip k + 2002 < 2 ^ 32"
    and d: "waits d0 d" "k < bus_ticks d" "ch_ms chip (bus_ticks d - 1) \<le> ch_ms chip k + 1000"
  shows "runs (wait_clock_ready chip (of_nat (ch_ms chip k)) d) (\<lambda>(r, d'). waits d0 d')"
proof -
  obtain N where N: "ch_ms chip k + 1001 \<le> ch_ms chip N" using clock unfolding steady_clock_def by blast
  have mono: "mono (ch_ms chip)" and jump: "\<And>n. ch_ms chip (Suc n) \<le> ch_ms chip n + 1000"
    using clock unfolding steady_clock_def by blast+
  show ?thesis
    using d
  proof (induction "N + 1 - bus_ticks d" arbitrary: d rule: less_induct)
    case less
    let ?j = "bus_ticks d"
    have j: "?j \<le> N"
    proof (rule ccontr)
      assume "\<not> ?j \<le> N"
      then have "ch_ms chip N \<le> ch_ms chip (?j - 1)" by (intro monoD [OF mono]) simp
      then show False using less.prems(3) N by simp
    qed
    have hi: "ch_ms chip ?j \<le> ch_ms chip k + 2000" using jump [of "?j - 1"] less.prems(2,3) by simp
    have "unat (of_nat (ch_ms chip k) + 1000 :: u32) = ch_ms chip k + 1000"
      using k unat_of_nat_u32 [of "ch_ms chip k + 1000"] by simp
    moreover have "unat (of_nat (ch_ms chip ?j) :: u32) = ch_ms chip ?j" using k hi by (intro unat_of_nat_u32) simp
    ultimately have now: "of_nat (ch_ms chip k) + 1000 < (of_nat (ch_ms chip ?j) :: u32) \<longleftrightarrow>
        ch_ms chip k + 1000 < ch_ms chip ?j" by (simp add: word_less_nat_alt)
    show ?case
      unfolding wait_clock_ready.simps [of chip _ d] read_operation_def Let_def bind_assoc
    proof (intro runs_bind runs_plain_transfer [OF waits_ok [OF less.prems(1)]])
      fix d1 assume d1: "accesses d d1"
      let ?v = "ch_answer chip (bus_trace d) (ENC28J60_READ_CTRL_REG OR (ESTAT AND ADDR_MASK)) (if ESTAT AND 0x80 \<noteq> 0 then 1 else 0)"
      have w1: "waits d0 d1" by (rule waits_accesses [OF less.prems(1) d1])
      have t1: "bus_ticks d1 = ?j" using d1 by (simp add: accesses_def)
      let ?d2 = "d1\<lparr> bus_ticks := bus_ticks d1 + 1 \<rparr>"
      have w2: "waits d0 ?d2" using w1 by (auto simp: waits_def driver_ok_def same_driver_def)
      have more: "runs (wait_clock_ready chip (of_nat (ch_ms chip k)) ?d2) (\<lambda>(r, d'). waits d0 d')"
        if "ch_ms chip ?j \<le> ch_ms chip k + 1000"
        by (rule less.hyps) (use w2 t1 that j less.prems(2) in auto)
      show "runs (Some (?v, d1)) (\<lambda>x. runs (case x of (v, d) \<Rightarrow>
          if v AND ESTAT_CLKRDY \<noteq> 0 then Some (True, d)
          else get_tick chip d \<bind> (\<lambda>(now, d).
            if of_nat (ch_ms chip k) + 1000 < now then Some (False, d)
            else wait_clock_ready chip (of_nat (ch_ms chip k)) d)) (\<lambda>(r, d'). waits d0 d'))"
        using w1 w2 t1 now more by (simp add: get_tick_def not_less)
    qed simp_all
  qed
qed

lemma bind_start_buffers [driver_runs]:
  assumes "honest_bank chip" "waits d0 d" "\<And>d'. waits d0 d' \<Longrightarrow> runs (f d') Q"
  shows "runs (start_buffers chip d \<bind> f) Q"
proof -
  have "runs (start_buffers chip d) (waits d0)"
    unfolding start_buffers_def by (intro driver_runs [where ?d0.0 = d0]) (use assms(1,2) in simp_all)
  then show ?thesis by (intro runs_bind, elim runs_mono) (rule assms(3))
qed

lemma bind_start_filters [driver_runs]:
  assumes "honest_bank chip" "waits d0 d" "\<And>d'. waits d0 d' \<Longrightarrow> runs (f d') Q"
  shows "runs (start_filters chip d \<bind> f) Q"
proof -
  have "runs (start_filters chip d) (waits d0)"
    unfolding start_filters_def by (intro driver_runs [where ?d0.0 = d0]) (use assms(1,2) in simp_all)
  then show ?thesis by (intro runs_bind, elim runs_mono) (rule assms(3))
qed

lemma write_register_byte_bank:
  assumes "honest_bank chip" "driver_ok d" "address AND ADDR_MASK \<noteq> ECON1" "address \<noteq> ECON2"
    and Q: "\<And>d'. accesses d d' \<Longrightarrow> enc_bank d' = drop_bit 5 (address AND BANK_MASK) \<Longrightarrow> Q d'"
  shows "runs (write_register_byte chip address data d) Q"
  unfolding write_register_byte_def write_operation_def
  by (intro runs_bind runs_set_bank [OF assms(1,2)] runs_plain_transfer)
    (use assms(3,4) in \<open>auto intro: Q accesses_trans accesses_ok\<close>)

lemma bind_write_operation [driver_runs]:
  assumes "waits d0 d" "right_bank (enc_bank d) (WriteOp operation address data)"
    "chip_bank_step (enc_bank d) (WriteOp operation address data) = enc_bank d" "plain (WriteOp operation address data)"
    "\<And>d'. waits d0 d' \<Longrightarrow> runs (f d') Q"
  shows "runs (write_operation operation address data d \<bind> f) Q"
  unfolding write_operation_def
  by (intro runs_bind runs_plain_transfer [OF waits_ok [OF assms(1)] assms(2-4)] assms(5)) (rule waits_accesses [OF assms(1)])

lemma bind_set_bank [driver_runs]:
  assumes "honest_bank chip" "waits d0 d" "\<And>d'. waits d0 d' \<Longrightarrow> runs (f d') Q"
  shows "runs (set_bank_with_mask chip address d \<bind> f) Q"
  by (intro runs_bind runs_set_bank [OF assms(1) waits_ok [OF assms(2)]] assms(3)) (rule waits_accesses [OF assms(2)])

text \<open>The bits of MACON3 are set in the bank that the write to MACON1 left.\<close>

lemma bind_macon:
  assumes "honest_bank chip" "waits d0 d" "\<And>d'. waits d0 d' \<Longrightarrow> runs (f d') Q"
  shows "runs (write_register_byte chip MACON1 data d \<bind>
    (\<lambda>d. write_operation ENC28J60_BIT_FIELD_SET MACON3 bits d \<bind> f)) Q"
proof (intro runs_bind write_register_byte_bank [OF assms(1) waits_ok [OF assms(2)]])
  fix d1 assume d1: "accesses d d1" "enc_bank d1 = drop_bit 5 (MACON1 AND BANK_MASK)"
  have w1: "waits d0 d1" by (rule waits_accesses [OF assms(2) d1(1)])
  have "runs (write_operation ENC28J60_BIT_FIELD_SET MACON3 bits d1 \<bind> f) Q"
    by (intro bind_write_operation [where ?d0.0 = d0] assms(3)) (use w1 d1(2) in simp_all)
  then show "runs (write_operation ENC28J60_BIT_FIELD_SET MACON3 bits d1) (\<lambda>x. runs (f x) Q)"
    by (simp add: runs_bind_iff)
qed simp_all

lemma bind_start_mac [driver_runs]:
  assumes "honest_bank chip" "waits d0 d" "length (enc_mac_address d0) = 6" "\<And>d'. waits d0 d' \<Longrightarrow> runs (f d') Q"
  shows "runs (start_mac chip d \<bind> f) Q"
proof -
  have "runs (start_mac chip d) (waits d0)"
    unfolding start_mac_def
    by (intro bind_macon [where ?d0.0 = d0] driver_runs [where ?d0.0 = d0]) (use assms(1-3) in simp_all)
  then show ?thesis by (intro runs_bind, elim runs_mono) (rule assms(4))
qed

lemma bind_start_enable [driver_runs]:
  assumes "honest_bank chip" "waits d0 d" "\<And>r d'. waits d0 d' \<Longrightarrow> runs (f r d') Q"
  shows "runs (start_enable chip d \<bind> (\<lambda>(r, d). f r d)) Q"
proof -
  have "runs (start_enable chip d) (\<lambda>(r, d'). waits d0 d')"
    unfolding start_enable_def
    by (intro driver_runs [where ?d0.0 = d0]) (use assms(1-2) in simp_all)
  then show ?thesis by (intro runs_bind, elim runs_mono) (auto intro: assms(3))
qed

text \<open>Acquiring and releasing the mutex.\<close>

definition lock_on :: "enc28j60 \<Rightarrow> enc28j60" where
  "lock_on d = d\<lparr> enc_locked := True \<rparr>"

lemma idle_locked: "driver_idle d \<Longrightarrow> mutex_acquire d = Some (lock_on d) \<and> driver_ok (lock_on d)"
  by (simp add: driver_idle_def mutex_acquire_def lock_on_def driver_ok_def)

lemma bind_release:
  assumes "waits (lock_on d) d1" "driver_idle d"
    and "\<And>d'. driver_idle d' \<Longrightarrow> enc_rx_next_packet d' = enc_rx_next_packet d1 \<Longrightarrow>
            enc_rx_packet_unreleased d' = enc_rx_packet_unreleased d1 \<Longrightarrow> runs (f d') Q"
  shows "runs (mutex_release d1 \<bind> f) Q"
  using assms(1,2)
  by (auto simp: mutex_release_def waits_def driver_ok_def driver_idle_def same_driver_def lock_on_def intro!: assms(3))

lemma last_release:
  assumes "waits (lock_on d) d1" "driver_idle d" "\<And>d'. driver_idle d' \<Longrightarrow> Q d'"
  shows "runs (mutex_release d1) Q"
  using assms(1,2)
  by (auto simp: mutex_release_def waits_def driver_ok_def driver_idle_def same_driver_def lock_on_def intro!: assms(3))

lemma enc28j60_start_runs:
  assumes h: "honest_bank chip" and clock: "steady_clock chip" and d: "driver_idle d" "chip_bank (bus_trace d) = 0"
    and up: "ch_ms chip (bus_ticks d) + 2002 < 2 ^ 32"
  shows "runs (enc28j60_start chip d) (\<lambda>(r, d'). driver_idle d')"
proof -
  let ?e = "d\<lparr> enc_bank := 0, enc_rx_next_packet := RXSTART_INIT, enc_rx_packet_unreleased := False \<rparr>"
  let ?l = "lock_on ?e" and ?k = "bus_ticks d"
  let ?t = "?l\<lparr> bus_ticks := ?k + 1 \<rparr>"
  have e: "driver_idle ?e" using d by (simp add: driver_idle_def)
  have start: "mutex_acquire d = Some (lock_on d)" using idle_locked [OF d(1)] by simp
  have ok: "driver_ok ?l" using idle_locked [OF e] by simp
  have mac: "length (enc_mac_address ?l) = 6" using e by (simp add: driver_idle_def lock_on_def)
  have w0: "waits ?l ?t" using ok by (auto simp: waits_def driver_ok_def same_driver_def lock_on_def)
  have tick: "get_tick chip ((lock_on d)\<lparr> enc_bank := 0, enc_rx_next_packet := RXSTART_INIT, enc_rx_packet_unreleased := False \<rparr>) =
      Some (of_nat (ch_ms chip ?k), ?t)" by (simp add: get_tick_def lock_on_def)
  have "runs (wait_clock_ready chip (of_nat (ch_ms chip ?k)) ?t) (\<lambda>(r, d'). waits ?l d')"
    by (intro runs_wait_clock_ready [OF clock up]) (use w0 in simp_all)
  then obtain ready d1 where d1: "wait_clock_ready chip (of_nat (ch_ms chip ?k)) ?t = Some (ready, d1)" "waits ?l d1"
    by (auto simp: runs_iff)
  show ?thesis
  proof (cases "enc_spi d")
    case False
    then show ?thesis using d(1) by (simp add: enc28j60_start_def)
  next
    case True
    have "runs (if \<not> ready then do { d \<leftarrow> mutex_release d1; Some (0xFF :: u8, d) }
             else
               do { d \<leftarrow> start_buffers chip d1;
                    d \<leftarrow> start_filters chip d;
                    (written, d) \<leftarrow> write_Phy chip PHLCON 0x476 d;
                    if \<not> written then do { d \<leftarrow> mutex_release d; Some (0xFF, d) }
                    else
                      do { d \<leftarrow> start_mac chip d;
                           (written, d) \<leftarrow> write_Phy chip PHCON2 PHCON2_HDLDIS d;
                           if \<not> written then do { d \<leftarrow> mutex_release d; Some (0xFF, d) }
                           else
                             do { (rev_id, d) \<leftarrow> start_enable chip d;
                                  d \<leftarrow> mutex_release d;
                                  Some (if rev_id > 5 then rev_id + 1 else rev_id, d) } } }) (\<lambda>(r, d'). driver_idle d')"
      by (intro runs_if driver_runs [where ?d0.0 = ?l] bind_release [where d = ?e] runs_SomeI)
        (use h clock d1(2) mac e in simp_all)
    then show ?thesis
      using True start tick d1(1) by (simp add: enc28j60_start_def Let_def)
  qed
qed

section \<open>The other operations\<close>

lemma idle_mac: "driver_idle d \<Longrightarrow> length (enc_mac_address (lock_on d)) = 6"
  by (simp add: driver_idle_def lock_on_def)

lemma idle_waits: "driver_idle d \<Longrightarrow> waits (lock_on d) (lock_on d)"
  using idle_locked waits_refl by blast

lemma soft_reset_runs:
  "driver_idle d \<Longrightarrow> runs (enc28j60_soft_reset d) (\<lambda>d'. driver_idle d' \<and> (enc_spi d \<longrightarrow> chip_bank (bus_trace d') = 0))"
  by (auto simp: enc28j60_soft_reset_def mutex_acquire_def write_operation_def transfer_def mutex_release_def
      driver_idle_def right_banks_append)

lemma set_mac_runs: "honest_bank chip \<Longrightarrow> driver_idle d \<Longrightarrow> runs (enc28j60_set_mac chip d) driver_idle"
  unfolding enc28j60_set_mac_def
  using idle_locked [of d] idle_mac [of d] idle_waits [of d]
  by (auto intro!: runs_bind runs_write_mac last_release)

lemma change_filter_runs: "honest_bank chip \<Longrightarrow> driver_idle d \<Longrightarrow> runs (change_filter chip f d) driver_idle"
  unfolding change_filter_def
  using idle_locked [of d] idle_waits [of d]
  by (auto intro!: driver_runs [where ?d0.0 = "lock_on d"] last_release [of d])

lemma disable_promiscuous_runs: "honest_bank chip \<Longrightarrow> driver_idle d \<Longrightarrow> runs (disable_promiscuous chip d) driver_idle"
  unfolding disable_promiscuous_def
  using idle_locked [of d] idle_waits [of d]
  by (auto intro!: driver_runs [where ?d0.0 = "lock_on d"] last_release [of d])

lemma broadcast_runs: "honest_bank chip \<Longrightarrow> driver_idle d \<Longrightarrow> runs (is_broadcast_enabled chip d) (\<lambda>(r, d'). driver_idle d')"
  unfolding is_broadcast_enabled_def
  using idle_locked [of d] idle_waits [of d]
  by (auto intro!: driver_runs [where ?d0.0 = "lock_on d"] bind_release [of d])

text \<open>Asking for the link reads the clock, and takes at most 1.1 seconds from the first reading.\<close>

lemma read_Phy_byte_time:
  assumes h: "honest_bank chip" "steady_clock chip" and d: "waits d0 d"
  shows "runs (read_Phy_byte chip address d) (\<lambda>(r, d'). waits d0 d' \<and> bus_ticks d < bus_ticks d' \<and>
           ch_ms chip (bus_ticks d' - 1) \<le> ch_ms chip (bus_ticks d) + 1100)"
    (is "runs _ ?Q")
  unfolding read_Phy_byte_def
proof (rule runs_bind, rule runs_write_register_byte [OF h(1) waits_ok [OF d]])
  fix d1 assume d1: "accesses d d1"
  have w1: "waits d0 d1" by (rule waits_accesses [OF d d1])
  show "runs (write_register_byte chip MICMD MICMD_MIIRD d1 \<bind> (\<lambda>d. wait_phy_ready chip d \<bind> (\<lambda>(ready, d).
      write_register_byte chip MICMD 0 d \<bind> (\<lambda>d. if \<not> ready then Some (None, d)
        else read_register_byte chip (MIRD + 1) d \<bind> (\<lambda>(v, d). Some (Some v, d)))))) ?Q"
  proof (rule runs_bind, rule runs_write_register_byte [OF h(1) accesses_ok [OF d1]])
    fix d2 assume d2: "accesses d1 d2"
    have w2: "waits d0 d2" by (rule waits_accesses [OF w1 d2])
    have t2: "bus_ticks d2 = bus_ticks d" using d1 d2 by (simp add: accesses_def)
    show "runs (wait_phy_ready chip d2 \<bind> (\<lambda>(ready, d).
      write_register_byte chip MICMD 0 d \<bind> (\<lambda>d. if \<not> ready then Some (None, d)
        else read_register_byte chip (MIRD + 1) d \<bind> (\<lambda>(v, d). Some (Some v, d))))) ?Q"
    proof (rule runs_bind, rule runs_wait_phy_ready [OF h w2], simp only: prod.case)
      fix ready d3
      assume d3: "waits d0 d3" "bus_ticks d2 < bus_ticks d3" "ch_ms chip (bus_ticks d3 - 1) \<le> ch_ms chip (bus_ticks d2) + 1100"
      have *: "waits d0 d' \<and> bus_ticks d < bus_ticks d' \<and> ch_ms chip (bus_ticks d' - 1) \<le> ch_ms chip (bus_ticks d) + 1100"
        if "accesses d3 d'" for d'
        using that d3 t2 waits_accesses [OF d3(1) that] by (simp add: accesses_def)
      show "runs (write_register_byte chip MICMD 0 d3 \<bind> (\<lambda>d. if \<not> ready then Some (None, d)
        else read_register_byte chip (MIRD + 1) d \<bind> (\<lambda>(v, d). Some (Some v, d)))) ?Q"
      proof (rule runs_bind, rule runs_write_register_byte [OF h(1) waits_ok [OF d3(1)]])
        fix d4 assume d4: "accesses d3 d4"
        have "runs (read_register_byte chip (MIRD + 1) d4 \<bind> (\<lambda>(v, d). Some (Some v, d))) ?Q"
          by (intro runs_bind runs_read_register_byte [OF h(1) accesses_ok [OF d4]])
            (use * accesses_trans [OF d4] in \<open>simp split: prod.split\<close>)
        then show "runs (if \<not> ready then Some (None, d4)
          else read_register_byte chip (MIRD + 1) d4 \<bind> (\<lambda>(v, d). Some (Some v, d))) ?Q"
          using * [OF d4] by simp
      qed simp_all
    qed
  qed simp_all
qed simp_all

lemma link_up_time:
  assumes h: "honest_bank chip" "steady_clock chip" and d: "driver_idle d"
  shows "runs (is_link_up chip d) (\<lambda>(r, d'). driver_idle d' \<and> bus_ticks d < bus_ticks d' \<and>
           ch_ms chip (bus_ticks d' - 1) \<le> ch_ms chip (bus_ticks d) + 1100)"
proof -
  from read_Phy_byte_time [OF h idle_waits [OF d], of PHSTAT2] obtain r d1 where
    d1: "read_Phy_byte chip PHSTAT2 (lock_on d) = Some (r, d1)" "waits (lock_on d) d1"
      "bus_ticks (lock_on d) < bus_ticks d1" "ch_ms chip (bus_ticks d1 - 1) \<le> ch_ms chip (bus_ticks (lock_on d)) + 1100"
    by (auto simp: runs_iff)
  have "mutex_release d1 = Some (d1\<lparr> enc_locked := False \<rparr>)" "driver_idle (d1\<lparr> enc_locked := False \<rparr>)"
    using d1(2) d by (simp_all add: mutex_release_def waits_def driver_ok_def driver_idle_def same_driver_def lock_on_def)
  then show ?thesis
    using idle_locked [OF d] d1 by (simp add: is_link_up_def Let_def lock_on_def)
qed

lemma network_loop_runs:
  assumes h: "honest_bank chip" "steady_clock chip" and d: "driver_idle d" "k < bus_ticks d"
    and time: "ch_ms chip (bus_ticks d - 1) \<le> ch_ms chip k + 3600"
  shows "runs (network_loop chip (of_nat (ch_ms chip k)) ret d) (\<lambda>(r, d'). driver_idle d')"
proof -
  obtain N where N: "ch_ms chip k + 1500 \<le> ch_ms chip N" using h(2) unfolding steady_clock_def by blast
  have mono: "mono (ch_ms chip)" and jump: "\<And>n. ch_ms chip (Suc n) \<le> ch_ms chip n + 1000"
    using h(2) unfolding steady_clock_def by blast+
  show ?thesis
    using d time
  proof (induction "N + 1 - bus_ticks d" arbitrary: d ret rule: less_induct)
    case less
    let ?j = "bus_ticks d" and ?s = "ch_ms chip k"
    let ?d = "d\<lparr> bus_ticks := ?j + 1 \<rparr>"
    have idle: "driver_idle ?d" using less.prems(1) by (simp add: driver_idle_def)
    have lo: "?s \<le> ch_ms chip ?j" using less.prems(2) by (intro monoD [OF mono]) simp
    have hi: "ch_ms chip ?j \<le> ?s + 4600" using jump [of "?j - 1"] less.prems(2,3) by simp
    have now: "unat ((of_nat (ch_ms chip ?j) :: u32) - of_nat ?s) = ch_ms chip ?j - ?s"
      using lo hi by (intro tick_difference) simp_all
    show ?case
    proof (cases "(of_nat (ch_ms chip ?j) :: u32) - of_nat ?s < 1500 \<and> \<not> ret")
      case False
      then show ?thesis
        unfolding network_loop.simps [of chip _ ret d] using idle by (auto simp: get_tick_def)
    next
      case True
      then have early: "ch_ms chip ?j < ?s + 1500" using now by (simp add: word_less_nat_alt less_diff_conv2 [OF lo])
      have j: "?j \<le> N"
      proof (rule ccontr)
        assume "\<not> ?j \<le> N"
        then have "ch_ms chip N \<le> ch_ms chip ?j" by (intro monoD [OF mono]) simp
        then show False using early N by simp
      qed
      from link_up_time [OF h idle] obtain r d2 where
        d2: "is_link_up chip ?d = Some (r, d2)" "driver_idle d2" "?j + 1 < bus_ticks d2"
          "ch_ms chip (bus_ticks d2 - 1) \<le> ch_ms chip (?j + 1) + 1100"
        by (auto simp: runs_iff)
      have "ch_ms chip (?j + 1) \<le> ?s + 2500" using jump [of ?j] early by simp
      then have t2: "ch_ms chip (bus_ticks d2 - 1) \<le> ?s + 3600" using d2(4) by simp
      have "runs (network_loop chip (of_nat ?s) r d2) (\<lambda>(r, d'). driver_idle d')"
        by (rule less.hyps) (use d2 t2 j less.prems(2) in auto)
      then show ?thesis
        unfolding network_loop.simps [of chip _ ret d] using True d2(1) by (simp add: get_tick_def)
    qed
  qed
qed

lemma network_connected_runs:
  assumes "honest_bank chip" "steady_clock chip" "driver_idle d"
  shows "runs (is_the_network_connected chip d) (\<lambda>(r, d'). driver_idle d')"
proof -
  let ?d = "d\<lparr> bus_ticks := bus_ticks d + 1 \<rparr>"
  have "driver_idle ?d" using assms(3) by (simp add: driver_idle_def)
  then have "runs (network_loop chip (of_nat (ch_ms chip (bus_ticks d))) False ?d) (\<lambda>(r, d'). driver_idle d')"
    by (intro network_loop_runs [OF assms(1,2)]) simp_all
  then show ?thesis by (simp add: is_the_network_connected_def get_tick_def)
qed

section \<open>Sending\<close>

text \<open>From \<open>d\<close> to \<open>d'\<close> with the discipline kept and exactly the transfers \<open>L\<close> beside plain ones.\<close>

definition issues :: "enc28j60 \<Rightarrow> enc28j60 \<Rightarrow> spi_transfer list \<Rightarrow> bool" where
  "issues d d' L \<longleftrightarrow>
     driver_ok d' \<and> enc_spi d' = enc_spi d \<and> enc_mac_address d' = enc_mac_address d \<and>
     enc_ip_address d' = enc_ip_address d \<and> bus_ticks d \<le> bus_ticks d' \<and>
     (\<exists>tr. bus_trace d' = bus_trace d @ tr \<and> filter (\<lambda>t. \<not> plain t) tr = L)"

lemma waits_issues: "waits d d' \<Longrightarrow> issues d d' []"
  by (auto simp: waits_def issues_def same_driver_def list_all_iff filter_empty_conv)

lemma issues_trans: "issues d d1 K \<Longrightarrow> issues d1 d2 L \<Longrightarrow> issues d d2 (K @ L)"
  unfolding issues_def by auto

lemma issues_ok: "issues d d' L \<Longrightarrow> driver_ok d'"
  by (simp add: issues_def)

lemma runs_issue:
  assumes "driver_ok d" "right_bank (enc_bank d) t" "chip_bank_step (enc_bank d) t = enc_bank d" "\<not> plain t"
    and "\<And>d'. issues d d' [t] \<Longrightarrow> same_driver d d' \<Longrightarrow> Q d'"
  shows "runs (transfer t d) Q"
  by (rule runs_transfer [OF assms(1)]) (use assms in \<open>auto simp: issues_def driver_ok_def same_driver_def\<close>)

text \<open>Between operations: the driver is idle again, has its addresses, and the clock was not turned back.\<close>

definition same_station :: "enc28j60 \<Rightarrow> enc28j60 \<Rightarrow> bool" where
  "same_station d d' \<longleftrightarrow>
     driver_idle d' \<and> enc_mac_address d' = enc_mac_address d \<and> enc_ip_address d' = enc_ip_address d \<and>
     bus_ticks d \<le> bus_ticks d'"

lemma same_station_refl: "driver_idle d \<Longrightarrow> same_station d d"
  by (simp add: same_station_def)

lemma same_station_trans: "same_station d d' \<Longrightarrow> same_station d' d'' \<Longrightarrow> same_station d d''"
  by (auto simp: same_station_def)

lemma unlocked_station:
  "issues (lock_on d) d' L \<Longrightarrow> driver_idle d \<Longrightarrow>
     mutex_release d' = Some (d'\<lparr> enc_locked := False \<rparr>) \<and> same_station d (d'\<lparr> enc_locked := False \<rparr>) \<and>
     (\<exists>tr. bus_trace d' = bus_trace d @ tr \<and> filter (\<lambda>t. \<not> plain t) tr = L)"
  by (auto simp: issues_def driver_ok_def driver_idle_def lock_on_def mutex_release_def same_station_def)

abbreviation transmit :: spi_transfer where
  "transmit \<equiv> WriteOp ENC28J60_BIT_FIELD_SET ECON1 ECON1_TXRTS"

lemma runs_poll_transmission:
  assumes "honest_bank chip" "waits d0 d" "count < 1000"
  shows "runs (poll_transmission chip count d) (\<lambda>(n, d'). waits d0 d' \<and> n \<le> 1000)"
  using assms(2,3)
proof (induction "1000 - count" arbitrary: count d rule: less_induct)
  case less
  show ?case
    unfolding poll_transmission.simps [of chip count d]
    by (intro bind_read_register_byte [OF assms(1), where ?d0.0 = d0] runs_if)
      (use less in auto)
qed

text \<open>What one attempt puts on the bus beside register accesses.\<close>

definition frame_load :: "buf \<Rightarrow> u16 \<Rightarrow> spi_transfer list" where
  "frame_load buffer len =
     WriteOp ENC28J60_WRITE_BUF_MEM 0 0 # (if len = 0 then [] else [WriteMem (take (unat len) buffer)])"

lemma runs_load_frame:
  assumes h: "honest_bank chip" and d: "waits d0 d" and len: "unat len \<le> length buffer"
  shows "runs (load_frame chip buffer len d) (\<lambda>d'. issues d0 d' (frame_load buffer len))"
  unfolding load_frame_def
proof (intro bind_write_register [OF h, where ?d0.0 = d0] d)
  fix d1 assume d1: "waits d0 d1"
  have first: "runs (transfer (WriteOp 0x7A 0 0) d1) (\<lambda>d2. issues d1 d2 [WriteOp 0x7A 0 0])"
    by (rule runs_issue [OF waits_ok [OF d1]]) simp_all
  then obtain d2 where d2: "transfer (WriteOp 0x7A 0 0) d1 = Some d2" "issues d1 d2 [WriteOp 0x7A 0 0]"
    by (auto simp: runs_iff)
  let ?L = "if len = 0 then [] else [WriteMem (take (unat len) buffer)]"
  have "runs (transfer (WriteMem (take (unat len) buffer)) d2) (\<lambda>d3. issues d2 d3 [WriteMem (take (unat len) buffer)])"
    by (rule runs_issue [OF issues_ok [OF d2(2)]]) simp_all
  then have "runs (write_buffer len buffer d2) (\<lambda>d3. issues d2 d3 ?L)"
    using waits_issues [OF waits_refl [OF issues_ok [OF d2(2)]]] len by (simp add: write_buffer_def mem_simps)
  then obtain d3 where d3: "write_buffer len buffer d2 = Some d3" "issues d2 d3 ?L"
    by (auto simp: runs_iff)
  have "issues d0 d3 (frame_load buffer len)"
    using issues_trans [OF waits_issues [OF d1] issues_trans [OF d2(2) d3(2)]] by (simp add: frame_load_def)
  then show "runs (write_operation ENC28J60_WRITE_BUF_MEM 0 0 d1 \<bind> write_buffer len buffer) (\<lambda>d'. issues d0 d' (frame_load buffer len))"
    using d2(1) d3(1) by (simp add: write_operation_def)
qed simp_all

lemma runs_read_buffer:
  assumes "driver_ok d" "unat len \<le> length data"
    and "\<And>d' bytes. accesses d d' \<Longrightarrow> length bytes = unat len \<Longrightarrow> Q (bytes @ drop (unat len) data, d')"
  shows "runs (read_buffer chip len data d) Q"
proof (cases "len = 0")
  case True
  then show ?thesis using assms(3) [of d "[]"] accesses_refl [OF assms(1)] by (simp add: read_buffer_def)
next
  case False
  let ?bytes = "map (ch_answer chip (bus_trace d) ENC28J60_READ_BUF_MEM) [0..<unat len]"
  have "runs (transfer (ReadMem ?bytes) d) (\<lambda>d'. Q (?bytes @ drop (unat len) data, d'))"
    by (intro runs_plain_transfer [OF assms(1)] assms(3)) simp_all
  then show ?thesis using False assms(2) by (auto simp: read_buffer_def Let_def mem_simps runs_iff)
qed

lemma runs_send_attempt:
  assumes h: "honest_bank chip" and d: "driver_ok d" and len: "unat len \<le> length buffer"
  shows "runs (send_attempt chip buffer len retry d)
           (\<lambda>(stop, d'). issues d d' ((if retry = 0 then frame_load buffer len else []) @ [transmit]))"
proof -
  let ?L = "if retry = 0 then frame_load buffer len else []"
  have "runs (if retry = 0 then load_frame chip buffer len d1 else Some d1) (\<lambda>d'. issues d d' ?L)" if "waits d d1" for d1
    using runs_load_frame [OF h that len] waits_issues [OF that] by simp
  then have load: "\<exists>d'. (if retry = 0 then load_frame chip buffer len d1 else Some d1) = Some d' \<and> issues d d' ?L"
    if "waits d d1" for d1 using that by (auto simp: runs_iff)
  have begin_tx: "\<exists>d'. write_operation ENC28J60_BIT_FIELD_SET ECON1 ECON1_TXRTS d2 = Some d' \<and> issues d2 d' [transmit]"
    if "driver_ok d2" for d2
    using runs_issue [OF that, of transmit "\<lambda>d'. issues d2 d' [transmit]"] by (simp add: write_operation_def runs_iff)
  show ?thesis
    unfolding send_attempt_def
  proof (intro bind_write_operation [where ?d0.0 = d])
    fix d1 assume d1: "waits d d1"
    from load [OF d1] obtain d2 where
      d2: "(if retry = 0 then load_frame chip buffer len d1 else Some d1) = Some d2" "issues d d2 ?L" by blast
    from begin_tx [OF issues_ok [OF d2(2)]] obtain d3 where
      d3: "write_operation ENC28J60_BIT_FIELD_SET ECON1 ECON1_TXRTS d2 = Some d3" "issues d2 d3 [transmit]" by blast
    have after: "issues d d' (?L @ [transmit])" if "waits d3 d'" for d'
      using issues_trans [OF issues_trans [OF d2(2) d3(2)] waits_issues [OF that]] by simp
    have w3: "waits d3 d3" by (rule waits_refl [OF issues_ok [OF d3(2)]])
    from runs_poll_transmission [OF h w3, of 0] obtain n d4 where
      d4: "poll_transmission chip 0 d3 = Some (n, d4)" "waits d3 d4" by (auto simp: runs_iff)
    show "runs ((if retry = 0 then load_frame chip buffer len d1 else Some d1) \<bind> (\<lambda>d.
        write_operation ENC28J60_BIT_FIELD_SET ECON1 ECON1_TXRTS d \<bind> (\<lambda>d.
        poll_transmission chip 0 d \<bind> (\<lambda>(count, d).
        read_register_byte chip EIR d \<bind> (\<lambda>(v, d).
          if v AND EIR_TXERIF = 0 \<and> count < 1000 then Some (True, d)
          else write_operation ENC28J60_BIT_FIELD_CLR ECON1 ECON1_TXRTS d \<bind> (\<lambda>d.
            read_register chip ETXND d \<bind> (\<lambda>(etxnd, d).
            write_register chip ERDPT (etxnd + 1) d \<bind> (\<lambda>d.
            read_buffer chip 7 (replicate 7 0) d \<bind> (\<lambda>(tsv, d).
            read_register_byte chip EIR d \<bind> (\<lambda>(v, d).
            rd tsv 3 \<bind> (\<lambda>tsv3.
              Some (\<not> (v AND EIR_TXERIF \<noteq> 0 \<and> tsv3 AND push_bit 5 1 \<noteq> 0) \<or> retry > 16, d))))))))))))
        (\<lambda>(stop, d'). issues d d' (?L @ [transmit]))"
      unfolding d2(1) bind.bind_lunit d3(1) d4(1) prod.case
    proof (intro bind_read_register_byte [OF h d4(2)] runs_if)
      fix v d5 assume "waits d3 d5"
      then show "runs (Some (True, d5)) (\<lambda>(stop, d'). issues d d' (?L @ [transmit]))" using after by simp
    next
      fix v d5 assume d5: "waits d3 d5"
      show "runs (write_operation ENC28J60_BIT_FIELD_CLR ECON1 ECON1_TXRTS d5 \<bind> (\<lambda>d.
            read_register chip ETXND d \<bind> (\<lambda>(etxnd, d).
            write_register chip ERDPT (etxnd + 1) d \<bind> (\<lambda>d.
            read_buffer chip 7 (replicate 7 0) d \<bind> (\<lambda>(tsv, d).
            read_register_byte chip EIR d \<bind> (\<lambda>(v, d).
            rd tsv 3 \<bind> (\<lambda>tsv3.
              Some (\<not> (v AND EIR_TXERIF \<noteq> 0 \<and> tsv3 AND push_bit 5 1 \<noteq> 0) \<or> retry > 16, d))))))))
        (\<lambda>(stop, d'). issues d d' (?L @ [transmit]))"
      proof (intro driver_runs [where ?d0.0 = d3] d5 h)
        fix d6 assume d6: "waits d3 d6"
        show "runs (read_buffer chip 7 (replicate 7 0) d6 \<bind> (\<lambda>(tsv, d).
            read_register_byte chip EIR d \<bind> (\<lambda>(v, d).
            rd tsv 3 \<bind> (\<lambda>tsv3.
              Some (\<not> (v AND EIR_TXERIF \<noteq> 0 \<and> tsv3 AND push_bit 5 1 \<noteq> 0) \<or> retry > 16, d)))))
          (\<lambda>(stop, d'). issues d d' (?L @ [transmit]))"
        proof (rule runs_bind, rule runs_read_buffer [OF waits_ok [OF d6]], simp, simp only: prod.case)
          fix d7 :: enc28j60 and bytes :: buf
          assume d7: "accesses d6 d7" "length bytes = unat (7 :: u16)"
          have w7: "waits d3 d7" by (rule waits_accesses [OF d6 d7(1)])
          show "runs (read_register_byte chip EIR d7 \<bind> (\<lambda>(v, d).
            rd (bytes @ drop (unat (7 :: u16)) (replicate 7 0)) 3 \<bind> (\<lambda>tsv3.
              Some (\<not> (v AND EIR_TXERIF \<noteq> 0 \<and> tsv3 AND push_bit 5 1 \<noteq> 0) \<or> retry > 16, d))))
            (\<lambda>(stop, d'). issues d d' (?L @ [transmit]))"
            by (intro bind_read_register_byte [OF h w7] runs_bind runs_rd runs_SomeI) (use d7(2) after in simp_all)
        qed
      qed simp_all
    qed
  qed (use waits_refl [OF d] in simp_all)
qed

lemma runs_send_loop:
  assumes h: "honest_bank chip" and d: "driver_ok d" and len: "unat len \<le> length buffer" and r: "retry \<le> 17"
  shows "runs (send_loop chip buffer len retry d)
           (\<lambda>d'. \<exists>n. 1 \<le> n \<and> n + retry \<le> 18 \<and>
              issues d d' ((if retry = 0 then frame_load buffer len else []) @ replicate n transmit))"
  using d r
proof (induction "18 - retry" arbitrary: retry d rule: less_induct)
  case less
  let ?L = "if retry = 0 then frame_load buffer len else []"
  from runs_send_attempt [OF h less.prems(1) len, of retry] obtain stop d1 where
    a: "send_attempt chip buffer len retry d = Some (stop, d1)" "issues d d1 (?L @ [transmit])"
    by (auto simp: runs_iff)
  show ?case
  proof (cases stop)
    case True
    then show ?thesis
      unfolding send_loop.simps [of chip buffer len retry d] using a less.prems(2)
      by (auto intro!: exI [of _ 1])
  next
    case False
    then have r: "retry + 1 \<le> 17" using send_attempt_stops [OF a(1)] by (cases "retry > 16") auto
    have "runs (send_loop chip buffer len (retry + 1) d1)
           (\<lambda>d'. \<exists>n. 1 \<le> n \<and> n + (retry + 1) \<le> 18 \<and> issues d1 d' ([] @ replicate n transmit))"
      using less.hyps [of "retry + 1" d1] issues_ok [OF a(2)] r by simp
    then obtain d' n where n: "send_loop chip buffer len (retry + 1) d1 = Some d'" "1 \<le> n" "n + (retry + 1) \<le> 18"
        "issues d1 d' (replicate n transmit)"
      by (auto simp: runs_iff)
    have "issues d d' (?L @ replicate (Suc n) transmit)"
      using issues_trans [OF a(2) n(4)] by simp
    then show ?thesis
      unfolding send_loop.simps [of chip buffer len retry d] using a(1) False n(1,3)
      by (auto intro!: exI [of _ "Suc n"])
  qed
qed

lemma send_packet_sends:
  assumes "honest_bank chip" "driver_idle d" "unat len \<le> length buffer"
  shows "runs (send_packet chip buffer len d)
           (\<lambda>d'. same_station d d' \<and>
            (\<exists>tr n. bus_trace d' = bus_trace d @ tr \<and> 1 \<le> n \<and> n \<le> 18 \<and>
              filter (\<lambda>t. \<not> plain t) tr = frame_load buffer len @ replicate n transmit))"
proof -
  have l: "mutex_acquire d = Some (lock_on d)" "driver_ok (lock_on d)" using idle_locked [OF assms(2)] by simp_all
  from runs_send_loop [OF assms(1) l(2) assms(3), of 0] obtain d1 n where
    d1: "send_loop chip buffer len 0 (lock_on d) = Some d1" "1 \<le> n" "n \<le> 18"
      "issues (lock_on d) d1 (frame_load buffer len @ replicate n transmit)"
    by (auto simp: runs_iff)
  then show ?thesis
    using l(1) unlocked_station [OF d1(4) assms(2)] by (auto simp: send_packet_def)
qed

lemma send_packet_runs:
  assumes "honest_bank chip" "driver_idle d" "unat len \<le> length buffer"
  shows "runs (send_packet chip buffer len d)
           (\<lambda>d'. driver_idle d' \<and> (\<exists>tr n. bus_trace d' = bus_trace d @ tr \<and> 1 \<le> n \<and> n \<le> 18 \<and>
              filter (\<lambda>t. \<not> plain t) tr = frame_load buffer len @ replicate n transmit))"
  by (rule runs_mono [OF send_packet_sends [OF assms]]) (simp add: same_station_def)

section \<open>Sending to any chip\<close>

text \<open>
  The bounds on sending need nothing of the chip. From \<open>d0\<close> to \<open>d\<close> with the mutex held and exactly the
  transfers \<open>L\<close> beside plain ones, whatever bank is selected.
\<close>

named_theorems emits_intros \<comment> \<open>a step of the driver in front of the rest of an operation\<close>

definition emits :: "enc28j60 \<Rightarrow> enc28j60 \<Rightarrow> spi_transfer list \<Rightarrow> bool" where
  "emits d0 d L \<longleftrightarrow>
     enc_locked d \<and> (\<exists>tr. bus_trace d = bus_trace d0 @ tr \<and> filter (\<lambda>t. \<not> plain t) tr = L)"

lemma emits_transfer:
  assumes "emits d0 d L" "\<And>d'. emits d0 d' (L @ filter (\<lambda>t. \<not> plain t) [t]) \<Longrightarrow> Q d'"
  shows "runs (transfer t d) Q"
proof -
  obtain tr where "bus_trace d = bus_trace d0 @ tr" "filter (\<lambda>t. \<not> plain t) tr = L"
    using assms(1) by (auto simp: emits_def)
  then have "emits d0 (d\<lparr> bus_trace := bus_trace d @ [t] \<rparr>) (L @ filter (\<lambda>t. \<not> plain t) [t])"
    using assms(1) by (auto simp: emits_def)
  then show ?thesis using assms by (auto simp: transfer_def emits_def)
qed

lemma emits_operation [emits_intros]:
  assumes "emits d0 d L" "plain (WriteOp operation address data)" "\<And>d'. emits d0 d' L \<Longrightarrow> runs (f d') Q"
  shows "runs (write_operation operation address data d \<bind> f) Q"
  unfolding write_operation_def proof (intro runs_bind emits_transfer [OF assms(1)] assms(3))
  fix d' assume "emits d0 d' (L @ filter (\<lambda>t. \<not> plain t) [WriteOp operation address data])"
  then show "emits d0 d' L" by (simp only: assms(2) filter.simps not_True_eq_False if_False append_Nil2)
qed

lemma emits_read_operation:
  assumes "emits d0 d L" "\<And>v d'. emits d0 d' L \<Longrightarrow> Q (v, d')"
  shows "runs (read_operation chip operation address d) Q"
  unfolding read_operation_def Let_def
  by (intro runs_bind emits_transfer [OF assms(1)] runs_SomeI assms(2)) simp

lemma emits_set_bank:
  assumes "emits d0 d L" "\<And>d'. emits d0 d' L \<Longrightarrow> Q d'"
  shows "runs (set_bank_with_mask chip address d) Q"
proof (cases "drop_bit 5 (address AND BANK_MASK) = enc_bank d")
  case True
  then show ?thesis using assms by (simp add: set_bank_with_mask_def Let_def)
next
  case False
  let ?b = "drop_bit 5 (address AND BANK_MASK)"
  have "?b AND 3 = ?b" by (rule two_bits_and [OF two_bits_bank])
  then have b: "?b \<noteq> 8" by (metis and_zero_eq_8)
  have last: "runs (Some (d2\<lparr> enc_bank := ?b \<rparr>)) Q" if "emits d0 d2 L" for d2
    using that assms(2) by (simp add: emits_def)
  have mask: "runs ((if c then write_operation ENC28J60_BIT_FIELD_CLR ECON1 3 d1 \<bind>
        write_operation ENC28J60_BIT_FIELD_SET ECON1 ?b else Some d1) \<bind> (\<lambda>d. Some (d\<lparr> enc_bank := ?b \<rparr>))) Q"
    if "emits d0 d1 L" for c d1
  proof (cases c)
    case True
    have "runs (write_operation ENC28J60_BIT_FIELD_CLR ECON1 3 d1 \<bind> (\<lambda>d.
        write_operation ENC28J60_BIT_FIELD_SET ECON1 ?b d \<bind> (\<lambda>d. Some (d\<lparr> enc_bank := ?b \<rparr>)))) Q"
      by (intro emits_operation [where ?d0.0 = d0 and L = L] last) (use that b in simp_all)
    then show ?thesis using True by simp
  qed (use last [OF that] in simp)
  show ?thesis
    unfolding set_bank_with_mask_def get_current_bank_def Let_def if_not_P [OF False] bind_assoc
    by (intro runs_bind emits_read_operation [OF assms(1)]) (use mask in simp)
qed

lemma emits_write_byte [emits_intros]:
  assumes "emits d0 d L" "address \<noteq> ECON2" "\<And>d'. emits d0 d' L \<Longrightarrow> runs (f d') Q"
  shows "runs (write_register_byte chip address data d \<bind> f) Q"
proof -
  have "runs (write_register_byte chip address data d) (\<lambda>d'. emits d0 d' L)"
    unfolding write_register_byte_def write_operation_def
    by (intro runs_bind emits_set_bank [OF assms(1)], erule emits_transfer) (use assms(2) in simp)
  then show ?thesis by (intro runs_bind, elim runs_mono) (rule assms(3))
qed

lemma emits_write [emits_intros]:
  assumes "emits d0 d L" "address \<noteq> ECON2" "address + 1 \<noteq> ECON2" "\<And>d'. emits d0 d' L \<Longrightarrow> runs (f d') Q"
  shows "runs (write_register chip address data d \<bind> f) Q"
  unfolding write_register_def bind_assoc
  by (intro emits_write_byte [where ?d0.0 = d0 and L = L]) (use assms in simp_all)

lemma emits_read_byte [emits_intros]:
  assumes "emits d0 d L" "\<And>v d'. emits d0 d' L \<Longrightarrow> runs (f v d') Q"
  shows "runs (read_register_byte chip address d \<bind> (\<lambda>(v, d). f v d)) Q"
  unfolding read_register_byte_def bind_assoc
  by (intro runs_bind emits_set_bank [OF assms(1)], erule emits_read_operation) (use assms(2) in simp)

lemma emits_read [emits_intros]:
  assumes "emits d0 d L" "\<And>v d'. emits d0 d' L \<Longrightarrow> runs (f v d') Q"
  shows "runs (read_register chip address d \<bind> (\<lambda>(v, d). f v d)) Q"
proof -
  have "runs (read_register chip address d) (\<lambda>(v, d'). emits d0 d' L)"
    unfolding read_register_def by (intro emits_read_byte [where ?d0.0 = d0 and L = L]) (use assms(1) in simp_all)
  then show ?thesis by (intro runs_bind, elim runs_mono) (auto intro: assms(2))
qed

lemma emits_poll:
  assumes "emits d0 d L" "count < 1000"
  shows "runs (poll_transmission chip count d) (\<lambda>(n, d'). emits d0 d' L)"
  using assms
proof (induction "1000 - count" arbitrary: count d rule: less_induct)
  case less
  show ?case
    unfolding poll_transmission.simps [of chip count d]
    by (intro emits_read_byte [where ?d0.0 = d0 and L = L] runs_if) (use less in auto)
qed

lemma emits_read_buffer [emits_intros]:
  assumes "emits d0 d L" "unat len \<le> length data"
    and "\<And>d' bytes. emits d0 d' L \<Longrightarrow> length bytes = length data \<Longrightarrow> runs (f bytes d') Q"
  shows "runs (read_buffer chip len data d \<bind> (\<lambda>(bytes, d). f bytes d)) Q"
proof (cases "len = 0")
  case True
  then show ?thesis using assms by (simp add: read_buffer_def)
next
  case False
  have "runs (transfer (ReadMem bytes) d \<bind> (\<lambda>d. f data' d)) Q" if "length data' = length data" for data' bytes
    by (intro runs_bind emits_transfer [OF assms(1)] assms(3)) (use that in simp_all)
  then show ?thesis using False assms(2) by (simp add: read_buffer_def Let_def mem_simps)
qed

lemma bind_rd: "i < length b \<Longrightarrow> runs (f (b ! i)) Q \<Longrightarrow> runs (rd b i \<bind> f) Q"
  by (simp add: rd_def)

lemma emits_load_frame:
  assumes "emits d0 d L" "unat len \<le> length buffer"
  shows "runs (load_frame chip buffer len d) (\<lambda>d'. emits d0 d' (L @ frame_load buffer len))"
proof -
  have "runs (write_buffer len buffer d') (\<lambda>d'. emits d0 d' (L @ frame_load buffer len))"
    if "emits d0 d' (L @ [WriteOp ENC28J60_WRITE_BUF_MEM 0 0])" for d'
  proof (cases "len = 0")
    case False
    have "runs (transfer (WriteMem (take (unat len) buffer)) d') (\<lambda>d'. emits d0 d' (L @ frame_load buffer len))"
      by (rule emits_transfer [OF that]) (use False in \<open>simp add: frame_load_def\<close>)
    then show ?thesis using False assms(2) by (simp add: write_buffer_def mem_simps)
  qed (use that in \<open>simp add: write_buffer_def frame_load_def\<close>)
  then have "runs (write_operation ENC28J60_WRITE_BUF_MEM 0 0 d1 \<bind> write_buffer len buffer)
      (\<lambda>d'. emits d0 d' (L @ frame_load buffer len))" if "emits d0 d1 L" for d1
    unfolding write_operation_def by (intro runs_bind emits_transfer [OF that]) simp
  then show ?thesis
    unfolding load_frame_def by (intro emits_write [where ?d0.0 = d0 and L = L]) (use assms(1) in simp_all)
qed

lemma emits_send_attempt:
  assumes "emits d0 d L" "unat len \<le> length buffer"
  shows "runs (send_attempt chip buffer len retry d)
           (\<lambda>(stop, d'). emits d0 d' (L @ (if retry = 0 then frame_load buffer len else []) @ [transmit]))"
    (is "runs _ (\<lambda>(stop, d'). emits d0 d' ?L)")
proof -
  let ?K = "L @ (if retry = 0 then frame_load buffer len else [])"
  have load: "runs (if retry = 0 then load_frame chip buffer len d1 else Some d1) (\<lambda>d'. emits d0 d' ?K)"
    if "emits d0 d1 L" for d1
    using emits_load_frame [OF that assms(2)] that by simp
  have start: "runs (write_operation ENC28J60_BIT_FIELD_SET ECON1 ECON1_TXRTS d2) (\<lambda>d'. emits d0 d' ?L)"
    if "emits d0 d2 ?K" for d2
    unfolding write_operation_def by (rule emits_transfer [OF that]) simp
  have poll: "runs (poll_transmission chip 0 d3) (\<lambda>(n, d'). emits d0 d' ?L)" if "emits d0 d3 ?L" for d3
    by (rule emits_poll [OF that]) simp
  show ?thesis
    unfolding send_attempt_def
  proof (intro emits_operation [where ?d0.0 = d0 and L = L] assms(1))
    fix d1 assume d1: "emits d0 d1 L"
    show "runs ((if retry = 0 then load_frame chip buffer len d1 else Some d1) \<bind> (\<lambda>d.
        write_operation ENC28J60_BIT_FIELD_SET ECON1 ECON1_TXRTS d \<bind> (\<lambda>d.
        poll_transmission chip 0 d \<bind> (\<lambda>(count, d).
        read_register_byte chip EIR d \<bind> (\<lambda>(v, d).
          if v AND EIR_TXERIF = 0 \<and> count < 1000 then Some (True, d)
          else write_operation ENC28J60_BIT_FIELD_CLR ECON1 ECON1_TXRTS d \<bind> (\<lambda>d.
            read_register chip ETXND d \<bind> (\<lambda>(etxnd, d).
            write_register chip ERDPT (etxnd + 1) d \<bind> (\<lambda>d.
            read_buffer chip 7 (replicate 7 0) d \<bind> (\<lambda>(tsv, d).
            read_register_byte chip EIR d \<bind> (\<lambda>(v, d).
            rd tsv 3 \<bind> (\<lambda>tsv3.
              Some (\<not> (v AND EIR_TXERIF \<noteq> 0 \<and> tsv3 AND push_bit 5 1 \<noteq> 0) \<or> retry > 16, d))))))))))))
        (\<lambda>(stop, d'). emits d0 d' ?L)"
      by (rule runs_bind, rule runs_mono [OF load [OF d1]], rule runs_bind, rule runs_mono [OF start], assumption,
          rule runs_bind, rule runs_mono [OF poll], assumption, elim case_prodE, hypsubst, simp only: prod.case,
          intro emits_intros [where ?d0.0 = d0 and L = ?L] runs_if bind_rd runs_SomeI) simp_all
  qed simp_all
qed

lemma emits_send_loop:
  assumes "emits d0 d L" "unat len \<le> length buffer" "retry \<le> 17"
  shows "runs (send_loop chip buffer len retry d)
           (\<lambda>d'. \<exists>n. 1 \<le> n \<and> n + retry \<le> 18 \<and>
              emits d0 d' (L @ (if retry = 0 then frame_load buffer len else []) @ replicate n transmit))"
  using assms(1,3)
proof (induction "18 - retry" arbitrary: retry d L rule: less_induct)
  case less
  let ?L = "L @ (if retry = 0 then frame_load buffer len else []) @ [transmit]"
  from emits_send_attempt [OF less.prems(1) assms(2), of chip retry] obtain stop d1 where
    a: "send_attempt chip buffer len retry d = Some (stop, d1)" "emits d0 d1 ?L"
    by (auto simp: runs_iff)
  show ?case
  proof (cases stop)
    case True
    then show ?thesis
      unfolding send_loop.simps [of chip buffer len retry d] using a less.prems(2)
      by (auto intro!: exI [of _ 1])
  next
    case False
    then have "retry + 1 \<le> 17" using send_attempt_stops [OF a(1)] by (cases "retry > 16") auto
    then have "runs (send_loop chip buffer len (retry + 1) d1)
           (\<lambda>d'. \<exists>n. 1 \<le> n \<and> n + (retry + 1) \<le> 18 \<and> emits d0 d' (?L @ replicate n transmit))"
      using less.hyps [of "retry + 1" d1 ?L] a(2) by simp
    then obtain d' n where n: "send_loop chip buffer len (retry + 1) d1 = Some d'" "n + (retry + 1) \<le> 18"
        "emits d0 d' (?L @ replicate n transmit)"
      by (auto simp: runs_iff)
    then show ?thesis
      unfolding send_loop.simps [of chip buffer len retry d] using a(1) False
      by (auto intro!: exI [of _ "Suc n"])
  qed
qed

section \<open>Receiving\<close>

lemma driver_ok_vars [simp]:
  "driver_ok (d\<lparr> enc_rx_next_packet := p \<rparr>) = driver_ok d"
  "driver_ok (d\<lparr> enc_rx_packet_unreleased := b \<rparr>) = driver_ok d"
  by (simp_all add: driver_ok_def)

lemma issues_vars [simp]:
  "issues d (d'\<lparr> enc_rx_next_packet := p \<rparr>) L = issues d d' L"
  "issues d (d'\<lparr> enc_rx_packet_unreleased := b \<rparr>) L = issues d d' L"
  by (simp_all add: issues_def)

lemma runs_release_packet:
  assumes h: "honest_bank chip" and d: "driver_ok d"
  shows "runs (release_packet chip d) (\<lambda>d'. issues d d' [] \<and> \<not> enc_rx_packet_unreleased d' \<and>
           enc_rx_next_packet d' = enc_rx_next_packet d)"
proof (cases "enc_rx_packet_unreleased d")
  case False
  then show ?thesis using waits_issues [OF waits_refl [OF d]] by (simp add: release_packet_def)
next
  case True
  have w: "runs (write_register chip ERXRDPT v d) (\<lambda>d'. waits d d')" for v
    by (rule last_write_register [OF h waits_refl [OF d]]) simp_all
  have "issues d d' [] \<and> enc_rx_next_packet d' = enc_rx_next_packet d" if "waits d d'" for d'
    using that waits_issues [OF that] by (simp add: waits_def same_driver_def)
  then show ?thesis
    using True w [of RXSTOP_INIT] w [of "enc_rx_next_packet d - 1"]
    by (auto simp: release_packet_def runs_iff)
qed

definition packet_read :: spi_transfer where
  "packet_read = WriteOp ENC28J60_BIT_FIELD_SET ECON2 ECON2_PKTDEC"

lemma clipped_length:
  assumes "0 < (s :: u16)"
  shows "(if int (unat l) > int (unat s) - 1 then of_int (int (unat s) - 1) else l) < s"
proof -
  have s: "1 \<le> unat s" using assms by (simp add: word_less_nat_alt)
  have "of_int (int (unat s) - 1) = (of_nat (unat s - 1) :: u16)" using s by (simp add: of_nat_diff)
  moreover have "unat (of_nat (unat s - 1) :: u16) = unat s - 1"
    using unat_u16_less [of s] by (intro unat_of_nat_u16) linarith
  ultimately have full: "of_int (int (unat s) - 1) < s" using s by (simp only: word_less_nat_alt)
  show ?thesis
  proof (cases "int (unat l) > int (unat s) - 1")
    case True
    then show ?thesis using full by (simp only: if_True)
  next
    case False
    then have "unat l < unat s" by linarith
    then show ?thesis using False by (simp only: if_False word_less_nat_alt)
  qed
qed

text \<open>The end of \<open>read_packet\<close>, once the header is read.\<close>

lemma runs_take_packet:
  assumes d: "driver_ok d" and n: "unat n < length buffer"
  shows "runs (do { (len, buffer, d) \<leftarrow>
                (if c then Some (0, buffer, d)
                 else do { (buffer, d) \<leftarrow> read_buffer chip n buffer d; Some (n, buffer, d) });
              buffer \<leftarrow> wr_bytes buffer (unat len) [0];
              let d = d\<lparr> enc_rx_packet_unreleased := True \<rparr>;
              d \<leftarrow> write_operation ENC28J60_BIT_FIELD_SET ECON2 ECON2_PKTDEC d;
              Some (len, buffer, d) })
           (\<lambda>(k, buffer', d'). issues d d' [packet_read] \<and> enc_rx_packet_unreleased d' \<and> (k = n \<or> k = 0) \<and>
              length buffer' = length buffer \<and> buffer' ! unat k = 0 \<and>
              drop (unat k + 1) buffer' = drop (unat k + 1) buffer)"
proof -
  have finish: "\<exists>d'. write_operation ENC28J60_BIT_FIELD_SET ECON2 ECON2_PKTDEC (d1\<lparr> enc_rx_packet_unreleased := True \<rparr>) = Some d' \<and>
      issues d d' [packet_read] \<and> enc_rx_packet_unreleased d'" if "accesses d d1" for d1
  proof -
    have i: "issues d (d1\<lparr> enc_rx_packet_unreleased := True \<rparr>) []"
      using waits_issues [OF waits_accesses [OF waits_refl [OF d] that]] by simp
    have "runs (transfer packet_read (d1\<lparr> enc_rx_packet_unreleased := True \<rparr>))
        (\<lambda>d'. issues (d1\<lparr> enc_rx_packet_unreleased := True \<rparr>) d' [packet_read] \<and> enc_rx_packet_unreleased d')"
      by (rule runs_issue [OF issues_ok [OF i]]) (auto simp: packet_read_def same_driver_def)
    then show ?thesis
      using issues_trans [OF i] by (auto simp: runs_iff write_operation_def packet_read_def)
  qed
  show ?thesis
  proof (cases c)
    case True
    from finish [OF accesses_refl [OF d]] obtain d' where
      "write_operation ENC28J60_BIT_FIELD_SET ECON2 ECON2_PKTDEC (d\<lparr> enc_rx_packet_unreleased := True \<rparr>) = Some d'"
      "issues d d' [packet_read]" "enc_rx_packet_unreleased d'" by blast
    then show ?thesis using True n by (cases buffer) (simp_all add: wr_bytes_def Let_def)
  next
    case False
    have "runs (read_buffer chip n buffer d) (\<lambda>(b, d1). \<exists>bytes. accesses d d1 \<and> length bytes = unat n \<and> b = bytes @ drop (unat n) buffer)"
      by (rule runs_read_buffer [OF d]) (use n in auto)
    then obtain d1 bytes where
      b: "read_buffer chip n buffer d = Some (bytes @ drop (unat n) buffer, d1)" "accesses d d1" "length bytes = unat n"
      by (auto simp: runs_iff)
    from finish [OF b(2)] obtain d' where d':
      "write_operation ENC28J60_BIT_FIELD_SET ECON2 ECON2_PKTDEC (d1\<lparr> enc_rx_packet_unreleased := True \<rparr>) = Some d'"
      "issues d d' [packet_read]" "enc_rx_packet_unreleased d'" by blast
    have "wr_bytes (bytes @ drop (unat n) buffer) (unat n) [0] = Some (bytes @ [0] @ drop (unat n + 1) buffer)"
      using b(3) n by (simp add: wr_bytes_def)
    then show ?thesis using False b(1,3) d' n by (simp add: Let_def nth_append)
  qed
qed

lemma runs_read_packet:
  assumes h: "honest_bank chip" and d: "driver_ok d" and size_arg: "0 < size_arg" "unat size_arg \<le> length buffer"
  shows "runs (read_packet chip buffer size_arg d)
           (\<lambda>(n, buffer', d'). issues d d' [packet_read] \<and> enc_rx_packet_unreleased d' \<and> n < size_arg \<and>
              length buffer' = length buffer \<and> buffer' ! unat n = 0 \<and>
              drop (unat n + 1) buffer' = drop (unat n + 1) buffer)"
proof -
  have "runs (write_register chip ERDPT (enc_rx_next_packet d) d) (waits d)"
    by (rule last_write_register [OF h waits_refl [OF d]]) simp_all
  then obtain d1 where d1: "write_register chip ERDPT (enc_rx_next_packet d) d = Some d1" "waits d d1"
    by (auto simp: runs_iff)
  have "runs (read_buffer chip 6 (replicate 6 0) d1) (\<lambda>(b, d2). accesses d1 d2 \<and> length b = 6)"
    by (rule runs_read_buffer [OF waits_ok [OF d1(2)]]) auto
  then obtain b d2 where b: "read_buffer chip 6 (replicate 6 0) d1 = Some (b, d2)" "accesses d1 d2" "length b = 6"
    by (auto simp: runs_iff)
  have rds: "rd b 0 = Some (b ! 0)" "rd b 1 = Some (b ! 1)" "rd b 2 = Some (b ! 2)" "rd b 3 = Some (b ! 3)"
    "rd b 4 = Some (b ! 4)" "rd b 5 = Some (b ! 5)" using b(3) by (simp_all add: rd_in)
  let ?d3 = "d2\<lparr> enc_rx_next_packet := be16 (b ! 1) (b ! 0) \<rparr>"
  let ?l = "be16 (b ! 3) (b ! 2) - 4"
  let ?n = "if int (unat ?l) > int (unat size_arg) - 1 then of_int (int (unat size_arg) - 1) else ?l"
  have n: "?n < size_arg" by (rule clipped_length [OF size_arg(1)])
  have i: "issues d ?d3 []" using waits_issues [OF waits_accesses [OF d1(2) b(2)]] by simp
  have room: "unat ?n < length buffer"
    using n size_arg(2) unfolding word_less_nat_alt by linarith
  have "runs (do { (len, buffer, d) \<leftarrow>
                (if be16 (b ! 5) (b ! 4) AND 0x80 = 0 then Some (0, buffer, ?d3)
                 else do { (buffer, d) \<leftarrow> read_buffer chip ?n buffer ?d3; Some (?n, buffer, d) });
              buffer \<leftarrow> wr_bytes buffer (unat len) [0];
              let d = d\<lparr> enc_rx_packet_unreleased := True \<rparr>;
              d \<leftarrow> write_operation ENC28J60_BIT_FIELD_SET ECON2 ECON2_PKTDEC d;
              Some (len, buffer, d) })
     (\<lambda>(n, buffer', d'). issues d d' [packet_read] \<and> enc_rx_packet_unreleased d' \<and> n < size_arg \<and>
              length buffer' = length buffer \<and> buffer' ! unat n = 0 \<and>
              drop (unat n + 1) buffer' = drop (unat n + 1) buffer)"
    by (rule runs_mono [OF runs_take_packet [OF issues_ok [OF i] room]])
      (use issues_trans [OF i] n size_arg(1) in auto)
  then show ?thesis
    unfolding read_packet_def d1(1) b(1) bind.bind_lunit prod.case rds Let_def .
qed

lemma receive_packet_station:
  assumes h: "honest_bank chip" and d: "driver_idle d" and size_arg: "0 < size_arg" "unat size_arg \<le> length buffer"
  shows "runs (receive_packet chip buffer size_arg d)
           (\<lambda>(n, buffer', d'). same_station d d' \<and> n < size_arg \<and> length buffer' = length buffer \<and>
              (\<exists>tr. bus_trace d' = bus_trace d @ tr \<and>
                 (if enc_rx_packet_unreleased d'
                  then filter (\<lambda>t. \<not> plain t) tr = [packet_read] \<and> buffer' ! unat n = 0 \<and>
                       drop (unat n + 1) buffer' = drop (unat n + 1) buffer
                  else filter (\<lambda>t. \<not> plain t) tr = [] \<and> n = 0 \<and> buffer' = buffer \<and>
                       enc_rx_next_packet d' = enc_rx_next_packet d)))"
proof -
  have l: "mutex_acquire d = Some (lock_on d)" "driver_ok (lock_on d)" using idle_locked [OF d] by simp_all
  from runs_release_packet [OF h l(2)] obtain d1 where
    d1: "release_packet chip (lock_on d) = Some d1" "issues (lock_on d) d1 []" "\<not> enc_rx_packet_unreleased d1"
      "enc_rx_next_packet d1 = enc_rx_next_packet d"
    by (auto simp: runs_iff lock_on_def)
  have "runs (read_register_byte chip EPKTCNT d1) (\<lambda>(v, d2). waits d1 d2)"
    by (rule last_read_register_byte [OF h waits_refl [OF issues_ok [OF d1(2)]]]) simp
  then obtain v d2 where d2: "read_register_byte chip EPKTCNT d1 = Some (v, d2)" "waits d1 d2" by (auto simp: runs_iff)
  have i2: "issues (lock_on d) d2 []" using issues_trans [OF d1(2) waits_issues [OF d2(2)]] by simp
  have v2: "enc_rx_packet_unreleased d2 = False" "enc_rx_next_packet d2 = enc_rx_next_packet d"
    using d2(2) d1(3,4) by (simp_all add: waits_def same_driver_def)
  note unlocked = unlocked_station [OF _ d]
  show ?thesis
  proof (cases "v > 0")
    case True
    from runs_read_packet [OF h issues_ok [OF i2] size_arg] obtain n b d3 where
      d3: "read_packet chip buffer size_arg d2 = Some (n, b, d3)" "issues d2 d3 [packet_read]" "enc_rx_packet_unreleased d3"
        "n < size_arg" "length b = length buffer" "b ! unat n = 0" "drop (unat n + 1) b = drop (unat n + 1) buffer"
      by (auto simp: runs_iff)
    have i3: "issues (lock_on d) d3 [packet_read]" using issues_trans [OF i2 d3(2)] by simp
    show ?thesis
      unfolding receive_packet_def using l(1) d1(1) d2(1) True d3 unlocked [OF i3] by simp
  next
    case False
    show ?thesis
      unfolding receive_packet_def using l(1) d1(1) d2(1) False unlocked [OF i2] v2 size_arg(1) by simp
  qed
qed

lemma receive_packet_runs:
  assumes h: "honest_bank chip" and d: "driver_idle d" and size_arg: "0 < size_arg" "unat size_arg \<le> length buffer"
  shows "runs (receive_packet chip buffer size_arg d)
           (\<lambda>(n, buffer', d'). driver_idle d' \<and> n < size_arg \<and> length buffer' = length buffer \<and>
              (\<exists>tr. bus_trace d' = bus_trace d @ tr \<and>
                 (if enc_rx_packet_unreleased d'
                  then filter (\<lambda>t. \<not> plain t) tr = [packet_read] \<and> buffer' ! unat n = 0 \<and>
                       drop (unat n + 1) buffer' = drop (unat n + 1) buffer
                  else filter (\<lambda>t. \<not> plain t) tr = [] \<and> n = 0 \<and> buffer' = buffer \<and>
                       enc_rx_next_packet d' = enc_rx_next_packet d)))"
  by (rule runs_mono [OF receive_packet_station [OF assms]]) (unfold same_station_def split_beta, blast)

section \<open>Properties\<close>

text \<open>
  C25. The driver talks to the right bank. On a chip that reports its bank bits truly and with a
  clock that runs and is more than two seconds away from its wrap-around, \<open>enc28j60_soft_reset\<close> followed by \<open>enc28j60_start\<close>, and each of \<open>enc28j60_set_mac\<close>,
  the two link queries, \<open>send_packet\<close>, \<open>receive_packet\<close> (with a buffer of the stated size, for receiving not
  zero) and the seven operations of the receive filter, from every state between operations, ends (its
  waiting and polling loops included), holds the chip mutex during each SPI transfer and releases it once
  on every path, and accesses every register while the chip has the register's bank selected, so
  that the cached bank number is right again. \<open>enc28j60_start\<close> without the reset before it is not
  covered: it has this property only when the chip is in bank 0, see \<open>enc28j60_restart_loses_buffers\<close>.
\<close>

theorem enc28j60_bank_discipline:
  assumes "honest_bank chip" "steady_clock chip" "driver_idle d" "enc_spi d"
    and "ch_ms chip (bus_ticks d) + 2002 < 2 ^ 32"
  shows "(\<exists>d1 r d'. enc28j60_soft_reset d = Some d1 \<and> enc28j60_start chip d1 = Some (r, d') \<and> driver_idle d') \<and>
         (\<exists>d'. enc28j60_set_mac chip d = Some d' \<and> driver_idle d') \<and>
         (\<exists>r d'. is_link_up chip d = Some (r, d') \<and> driver_idle d') \<and>
         (\<exists>r d'. is_the_network_connected chip d = Some (r, d') \<and> driver_idle d') \<and>
         (\<forall>buffer len. unat len \<le> length buffer \<longrightarrow>
            (\<exists>d'. send_packet chip buffer len d = Some d' \<and> driver_idle d')) \<and>
         (\<forall>buffer s. 0 < s \<and> unat s \<le> length buffer \<longrightarrow>
            (\<exists>n b d'. receive_packet chip buffer s d = Some (n, b, d') \<and> driver_idle d')) \<and>
         (\<forall>operation\<in>{enable_broadcast, disable_broadcast, enable_multicast, disable_multicast,
                       enable_promiscuous, disable_promiscuous}.
            \<exists>d'. operation chip d = Some d' \<and> driver_idle d') \<and>
         (\<exists>r d'. is_broadcast_enabled chip d = Some (r, d') \<and> driver_idle d')"
proof (intro conjI allI impI ballI)
  obtain d1 where d1: "enc28j60_soft_reset d = Some d1" "driver_idle d1" "chip_bank (bus_trace d1) = 0" "bus_ticks d1 = bus_ticks d"
    using soft_reset_runs [OF assms(3)] assms(3,4)
    by (auto simp: enc28j60_soft_reset_def mutex_acquire_def write_operation_def transfer_def mutex_release_def
        driver_idle_def right_banks_append)
  from enc28j60_start_runs [OF assms(1,2) d1(2,3)] d1(1,4) assms(5)
  show "\<exists>d1 r d'. enc28j60_soft_reset d = Some d1 \<and> enc28j60_start chip d1 = Some (r, d') \<and> driver_idle d'"
    by (auto simp: runs_iff)
next
  show "\<exists>d'. enc28j60_set_mac chip d = Some d' \<and> driver_idle d'"
    using set_mac_runs [OF assms(1,3)] by (simp add: runs_iff)
next
  show "\<exists>r d'. is_link_up chip d = Some (r, d') \<and> driver_idle d'"
    using link_up_time [OF assms(1-3)] by (auto simp: runs_iff)
next
  show "\<exists>r d'. is_the_network_connected chip d = Some (r, d') \<and> driver_idle d'"
    using network_connected_runs [OF assms(1-3)] by (auto simp: runs_iff)
next
  fix buffer :: buf and len :: u16 assume "unat len \<le> length buffer"
  then show "\<exists>d'. send_packet chip buffer len d = Some d' \<and> driver_idle d'"
    using send_packet_runs [OF assms(1,3), of len buffer] by (auto simp: runs_iff)
next
  fix buffer :: buf and s :: u16 assume "0 < s \<and> unat s \<le> length buffer"
  then show "\<exists>n b d'. receive_packet chip buffer s d = Some (n, b, d') \<and> driver_idle d'"
    using receive_packet_runs [OF assms(1,3), of s buffer] by (auto simp: runs_iff)
next
  fix operation
  assume "operation \<in> {enable_broadcast, disable_broadcast, enable_multicast, disable_multicast,
                       enable_promiscuous, disable_promiscuous}"
  then show "\<exists>d'. operation chip d = Some d' \<and> driver_idle d'"
    using change_filter_runs [OF assms(1,3)] disable_promiscuous_runs [OF assms(1,3)]
    by (auto simp: runs_iff enable_broadcast_def disable_broadcast_def enable_multicast_def disable_multicast_def
        enable_promiscuous_def)
next
  show "\<exists>r d'. is_broadcast_enabled chip d = Some (r, d') \<and> driver_idle d'"
    using broadcast_runs [OF assms(1,3)] by (auto simp: runs_iff)
qed

text \<open>
  C26. Receiving is safe against the chip. On a chip that reports its bank bits truly, whatever header,
  length and status it delivers, \<open>receive_packet\<close> stays inside a buffer of the given size, returns a
  length below that size with a NUL byte behind the data, leaves what is behind it, and counts a packet as
  read exactly once when there was one; when there was none the buffer and the ring position are untouched.
\<close>

theorem receive_packet_safe:
  assumes "honest_bank chip" "driver_idle d" "0 < size_arg" "unat size_arg \<le> length buffer"
  shows "\<exists>n buffer' d' tr. receive_packet chip buffer size_arg d = Some (n, buffer', d') \<and>
     driver_idle d' \<and> n < size_arg \<and> length buffer' = length buffer \<and> bus_trace d' = bus_trace d @ tr \<and>
     (if enc_rx_packet_unreleased d'
      then filter (\<lambda>t. \<not> plain t) tr = [packet_read] \<and> buffer' ! unat n = 0 \<and>
           drop (unat n + 1) buffer' = drop (unat n + 1) buffer
      else filter (\<lambda>t. \<not> plain t) tr = [] \<and> n = 0 \<and> buffer' = buffer \<and>
           enc_rx_next_packet d' = enc_rx_next_packet d)"
  using receive_packet_runs [OF assms] by (auto simp: runs_iff)

text \<open>
  C27. Sending is bounded and sends the frame. Whatever the chip answers to any read, the bank bits
  included (an absent chip among them), \<open>send_packet\<close> of any length up to that of the buffer ends with
  the mutex free; it sends a zero control byte and, when the length is not zero, the first \<open>len\<close> bytes of
  the buffer to the transmit memory exactly once, before the first transmission, sets the start bit at least
  once and at most 18 times, and none of its other transfers writes to the transmit memory. The only assumption
  is that the mutex is free and the buffer has the length.
\<close>

theorem send_packet_bounded:
  assumes "\<not> enc_locked d" "unat len \<le> length buffer"
  shows "\<exists>d' tr n. send_packet chip buffer len d = Some d' \<and> \<not> enc_locked d' \<and>
     bus_trace d' = bus_trace d @ tr \<and> 1 \<le> n \<and> n \<le> 18 \<and>
     filter (\<lambda>t. \<not> plain t) tr =
       WriteOp ENC28J60_WRITE_BUF_MEM 0 0 # (if len = 0 then [] else [WriteMem (take (unat len) buffer)]) @
       replicate n transmit"
proof -
  have "emits (lock_on d) (lock_on d) []" by (simp add: emits_def lock_on_def)
  from emits_send_loop [OF this assms(2), of 0 chip] show ?thesis
    using assms(1)
    by (auto simp: runs_iff send_packet_def mutex_acquire_def mutex_release_def emits_def lock_on_def frame_load_def)
qed

text \<open>
  Starting again without a reset sets up the wrong registers. \<open>enc28j60_start\<close> declares the bank to
  be 0 without selecting it. When the chip has another bank selected, as after a start that failed while
  it waited for the PHY, and the oscillator runs, all ten writes that define the receive and transmit
  buffers are sent without a change of bank, so none reaches its register.
\<close>

theorem enc28j60_restart_loses_buffers:
  assumes "enc_locked d" "enc_bank d = 0" "chip_bank (bus_trace d) \<noteq> 0"
  shows "\<exists>d'. start_buffers chip d = Some d' \<and>
     bus_trace d' = bus_trace d @
       [WriteOp ENC28J60_WRITE_CTRL_REG ERXST 0x00, WriteOp ENC28J60_WRITE_CTRL_REG (ERXST + 1) 0x00,
        WriteOp ENC28J60_WRITE_CTRL_REG ERXRDPT 0x00, WriteOp ENC28J60_WRITE_CTRL_REG (ERXRDPT + 1) 0x00,
        WriteOp ENC28J60_WRITE_CTRL_REG ERXND 0xFF, WriteOp ENC28J60_WRITE_CTRL_REG (ERXND + 1) 0x0B,
        WriteOp ENC28J60_WRITE_CTRL_REG ETXST 0x00, WriteOp ENC28J60_WRITE_CTRL_REG (ETXST + 1) 0x0C,
        WriteOp ENC28J60_WRITE_CTRL_REG ETXND 0xFF, WriteOp ENC28J60_WRITE_CTRL_REG (ETXND + 1) 0x11] \<and>
     (\<forall>t\<in>set (drop (length (bus_trace d)) (bus_trace d')). \<not> right_bank (chip_bank (bus_trace d)) t)"
  using assms
  by (simp add: start_buffers_def write_register_def write_register_byte_def set_bank_with_mask_def
      write_operation_def transfer_def lo8_def hi8_def)

section \<open>Witnesses\<close>

definition example_chip :: chip where
  "example_chip = \<lparr> ch_answer = (\<lambda>tr command i. if command = ECON1 then chip_bank tr else 0), ch_ms = (\<lambda>n. n) \<rparr>"

definition example_driver :: enc28j60 where
  "example_driver = \<lparr> enc_spi = True, enc_mac_address = [2, 0, 0, 0, 0, 1], enc_ip_address = [10, 0, 0, 2], enc_bank = 0,
     enc_rx_next_packet = 0, enc_rx_packet_unreleased = False, enc_locked = False, bus_trace = [], bus_ticks = 0 \<rparr>"

lemma example_chip_ok: "honest_bank example_chip" "steady_clock example_chip"
proof -
  show "honest_bank example_chip"
    using two_bits_and [OF two_bits_chip] by (simp add: honest_bank_def example_chip_def)
  show "steady_clock example_chip"
    by (auto simp: steady_clock_def example_chip_def mono_def)
qed

lemma example_driver_ok: "driver_idle example_driver"
  by (simp add: driver_idle_def example_driver_def chip_bank_def)

lemma enc28j60_bank_discipline_witness:
  "\<exists>r d'. is_the_network_connected example_chip example_driver = Some (r, d') \<and> driver_idle d'"
  using enc28j60_bank_discipline [OF example_chip_ok example_driver_ok]
  by (simp add: example_driver_def example_chip_def)

lemma receive_packet_safe_witness:
  "\<exists>n buffer' d'. receive_packet example_chip (replicate 1518 0) 1518 example_driver = Some (n, buffer', d') \<and> n < 1518"
  using receive_packet_safe [OF example_chip_ok(1) example_driver_ok, of 1518 "replicate 1518 0"] by auto

text \<open>A bus on which nothing answers reads as ones.\<close>

definition absent_chip :: chip where
  "absent_chip = \<lparr> ch_answer = (\<lambda>tr command i. 0xFF), ch_ms = (\<lambda>n. n) \<rparr>"

lemma send_packet_bounded_witness:
  "\<exists>d' tr n. send_packet absent_chip (replicate 60 0) 60 example_driver = Some d' \<and> n \<le> 18 \<and>
     filter (\<lambda>t. \<not> plain t) tr =
       WriteOp ENC28J60_WRITE_BUF_MEM 0 0 # WriteMem (replicate 60 0) # replicate n transmit"
  using send_packet_bounded [of example_driver 60 "replicate 60 0" absent_chip] by (auto simp: example_driver_def)

lemma enc28j60_restart_loses_buffers_witness:
  "\<exists>d'. start_buffers example_chip (example_driver\<lparr> enc_locked := True,
          bus_trace := [WriteOp ENC28J60_BIT_FIELD_SET ECON1 3] \<rparr>) = Some d'"
  using enc28j60_restart_loses_buffers [of "example_driver\<lparr> enc_locked := True,
          bus_trace := [WriteOp ENC28J60_BIT_FIELD_SET ECON1 3] \<rparr>" example_chip]
  by (auto simp: example_driver_def chip_bank_def)

end
