(* ===== verification/Ip_Assigner.thy ===== *)
theory Ip_Assigner
  imports C_Strings
begin

text \<open>
  \<open>draw_functions/ip_assigner.c\<close>: the view in which the user edits an IPv4 address digit by digit.
  The model of the view holds twelve decimal digits, the digit under the selector and a pointer to
  the address being edited; here the model holds the four bytes the pointer leads to. The callback of
  the OK key is a function on the state of the application, its context included.
\<close>

section \<open>The model\<close>

record 'w ip_assigner_model =
  selector_position :: u8
  ip_callback :: "('w \<Rightarrow> 'w) ptr"
  digits_array :: buf
  ip_header :: buf
  ip_array :: "buf ptr"

datatype input_type = InputTypePress | InputTypeRelease | InputTypeShort | InputTypeLong | InputTypeRepeat
datatype input_key = InputKeyUp | InputKeyDown | InputKeyRight | InputKeyLeft | InputKeyOk | InputKeyBack

section \<open>Digits and bytes\<close>

text \<open>The loop divides \<open>digit_pos\<close> times.\<close>

definition get_num :: "u8 \<Rightarrow> u8 \<Rightarrow> u8" where
  "get_num number digit_pos = ((\<lambda>n. n div 10) ^^ unat digit_pos) number mod 10"

fun update_ip_octets :: "nat list \<Rightarrow> buf \<Rightarrow> buf \<Rightarrow> buf option" where
  "update_ip_octets [] ip digits = Some ip"
| "update_ip_octets (k # rest) ip digits =
     do { ip \<leftarrow> wr_bytes ip k [0];
          hundreds \<leftarrow> rd digits (3 * k);
          v \<leftarrow> rd ip k; ip \<leftarrow> wr_bytes ip k [v + hundreds * 100];
          tens \<leftarrow> rd digits (3 * k + 1);
          v \<leftarrow> rd ip k; ip \<leftarrow> wr_bytes ip k [v + tens * 10];
          ones \<leftarrow> rd digits (3 * k + 2);
          v \<leftarrow> rd ip k; ip \<leftarrow> wr_bytes ip k [v + ones];
          update_ip_octets rest ip digits }"

definition update_ip_data :: "buf \<Rightarrow> buf \<Rightarrow> buf option" where
  "update_ip_data ip digits = update_ip_octets [0, 1, 2, 3] ip digits"

section \<open>The up and down keys\<close>

text \<open>
  Each function is three tests of the position one after the other; \<open>p\<close> is the position of the
  selector, which they do not change.
\<close>

definition sum_first_digit :: "nat \<Rightarrow> buf \<Rightarrow> buf option" where
  "sum_first_digit p ds =
     do { d \<leftarrow> rd ds p;
          ds \<leftarrow> wr_bytes ds p [if d = 2 then 0 else d + 1];
          d \<leftarrow> rd ds p;
          if d = 2
          then do { next1 \<leftarrow> rd ds (p + 1);
                    next2 \<leftarrow> rd ds (p + 2);
                    ds \<leftarrow> (if 5 \<le> next1 \<and> 5 < next2
                           then do { ds \<leftarrow> wr_bytes ds (p + 1) [5]; wr_bytes ds (p + 2) [5] }
                           else Some ds);
                    next1 \<leftarrow> rd ds (p + 1);
                    if 5 < next1 then wr_bytes ds (p + 1) [5] else Some ds }
          else Some ds }"

definition sum_second_digit :: "nat \<Rightarrow> buf \<Rightarrow> buf option" where
  "sum_second_digit p ds =
     do { before \<leftarrow> rd ds (p - 1); d \<leftarrow> rd ds p; behind \<leftarrow> rd ds (p + 1);
          if before = 2 \<and> d = 4 \<and> 5 < behind
          then do { ds \<leftarrow> wr_bytes ds p [d + 1]; wr_bytes ds (p + 1) [5] }
          else if before = 2 \<and> d = 5 then wr_bytes ds p [0]
          else if d = 9 then wr_bytes ds p [0]
          else wr_bytes ds p [d + 1] }"

definition sum_third_digit :: "nat \<Rightarrow> buf \<Rightarrow> buf option" where
  "sum_third_digit p ds =
     do { first \<leftarrow> rd ds (p - 2); second \<leftarrow> rd ds (p - 1); d \<leftarrow> rd ds p;
          if first = 2 \<and> second = 5 \<and> d = 5 then wr_bytes ds p [0]
          else if d = 9 then wr_bytes ds p [0]
          else wr_bytes ds p [d + 1] }"

definition validate_num_in_sum :: "'w ip_assigner_model \<Rightarrow> buf \<Rightarrow> 'w ip_assigner_model option" where
  "validate_num_in_sum m ip =
     (let p = unat (selector_position m) in
      do { ds \<leftarrow> (if p mod 3 = 0 then sum_first_digit p (digits_array m) else Some (digits_array m));
           ds \<leftarrow> (if p mod 3 = 1 then sum_second_digit p ds else Some ds);
           ds \<leftarrow> (if p mod 3 = 2 then sum_third_digit p ds else Some ds);
           ip \<leftarrow> update_ip_data ip ds;
           Some (m\<lparr> digits_array := ds, ip_array := Some ip \<rparr>) })"

definition subtract_first_digit :: "nat \<Rightarrow> buf \<Rightarrow> buf option" where
  "subtract_first_digit p ds =
     do { d \<leftarrow> rd ds p;
          if d = 0
          then do { ds \<leftarrow> wr_bytes ds p [2];
                    next1 \<leftarrow> rd ds (p + 1);
                    next2 \<leftarrow> rd ds (p + 2);
                    if 5 < next1 \<and> 5 < next2
                    then do { ds \<leftarrow> wr_bytes ds (p + 1) [5]; wr_bytes ds (p + 2) [5] }
                    else if 5 < next1 then wr_bytes ds (p + 1) [5]
                    else Some ds }
          else wr_bytes ds p [d - 1] }"

definition subtract_second_digit :: "nat \<Rightarrow> buf \<Rightarrow> buf option" where
  "subtract_second_digit p ds =
     do { before \<leftarrow> rd ds (p - 1); d \<leftarrow> rd ds p;
          if before = 2 \<and> d = 0
          then do { ds \<leftarrow> wr_bytes ds p [5];
                    behind \<leftarrow> rd ds (p + 1);
                    if 5 < behind then wr_bytes ds (p + 1) [5] else Some ds }
          else if d = 0 then wr_bytes ds p [9]
          else wr_bytes ds p [d - 1] }"

definition subtract_third_digit :: "nat \<Rightarrow> buf \<Rightarrow> buf option" where
  "subtract_third_digit p ds =
     do { first \<leftarrow> rd ds (p - 2); second \<leftarrow> rd ds (p - 1); d \<leftarrow> rd ds p;
          if first = 2 \<and> second = 5 \<and> d = 0 then wr_bytes ds p [5]
          else if d = 0 then wr_bytes ds p [9]
          else wr_bytes ds p [d - 1] }"

definition validate_num_in_subtraction ::
  "'w ip_assigner_model \<Rightarrow> buf \<Rightarrow> 'w ip_assigner_model option" where
  "validate_num_in_subtraction m ip =
     (let p = unat (selector_position m) in
      do { ds \<leftarrow> (if p mod 3 = 0 then subtract_first_digit p (digits_array m) else Some (digits_array m));
           ds \<leftarrow> (if p mod 3 = 1 then subtract_second_digit p ds else Some ds);
           ds \<leftarrow> (if p mod 3 = 2 then subtract_third_digit p ds else Some ds);
           ip \<leftarrow> update_ip_data ip ds;
           Some (m\<lparr> digits_array := ds, ip_array := Some ip \<rparr>) })"

section \<open>Events and the operations of the view\<close>

text \<open>The result is the answer of the callback, which is always \<open>false\<close>, the model and the application.\<close>

definition ip_input_callback ::
  "input_type \<Rightarrow> input_key \<Rightarrow> 'w ip_assigner_model \<Rightarrow> 'w \<Rightarrow> (bool \<times> 'w ip_assigner_model \<times> 'w) option" where
  "ip_input_callback type key m app =
     (if type = InputTypeRelease \<or> type = InputTypeRepeat
      then (case key of
              InputKeyRight \<Rightarrow>
                let next_position = selector_position m + 1 in
                Some (False, m\<lparr> selector_position := (if 11 < next_position then 0 else next_position) \<rparr>, app)
            | InputKeyLeft \<Rightarrow>
                Some (False, m\<lparr> selector_position := (if selector_position m = 0 then 11
                                                      else selector_position m - 1) \<rparr>, app)
            | InputKeyUp \<Rightarrow>
                (case ip_array m of
                   None \<Rightarrow> Some (False, m, app)
                 | Some ip \<Rightarrow> do { m \<leftarrow> validate_num_in_sum m ip; Some (False, m, app) })
            | InputKeyDown \<Rightarrow>
                (case ip_array m of
                   None \<Rightarrow> Some (False, m, app)
                 | Some ip \<Rightarrow> do { m \<leftarrow> validate_num_in_subtraction m ip; Some (False, m, app) })
            | InputKeyOk \<Rightarrow>
                (case ip_callback m of None \<Rightarrow> Some (False, m, app) | Some f \<Rightarrow> Some (False, m, f app))
            | _ \<Rightarrow> Some (False, m, app))
      else Some (False, m, app))"

definition ip_assigner_alloc :: "'w ip_assigner_model" where
  "ip_assigner_alloc = \<lparr> selector_position = 0, ip_callback = None, digits_array = replicate 12 0,
                         ip_header = [], ip_array = None \<rparr>"

definition ip_assigner_set_header :: "buf ptr \<Rightarrow> 'w ip_assigner_model \<Rightarrow> 'w ip_assigner_model" where
  "ip_assigner_set_header txt0 m =
     m\<lparr> ip_header := (case txt0 of None \<Rightarrow> [] | Some t \<Rightarrow> cstr t) \<rparr>"

fun ip_digits_from :: "buf \<Rightarrow> nat list \<Rightarrow> u8 \<Rightarrow> buf \<Rightarrow> buf option" where
  "ip_digits_from ip [] pivot ds = Some ds"
| "ip_digits_from ip (i # rest) pivot ds =
     do { v \<leftarrow> rd ip (i div 3);
          ds \<leftarrow> wr_bytes ds i [get_num v (pivot - 1)];
          ip_digits_from ip rest (if pivot - 1 = 0 then 3 else pivot - 1) ds }"

definition ip_assigner_set_ip_array :: "buf \<Rightarrow> 'w ip_assigner_model \<Rightarrow> 'w ip_assigner_model option" where
  "ip_assigner_set_ip_array ip m =
     do { ds \<leftarrow> ip_digits_from ip [0..<12] 3 (digits_array m);
          Some (m\<lparr> ip_array := Some ip, digits_array := ds \<rparr>) }"

definition ip_assigner_callback :: "('w \<Rightarrow> 'w) ptr \<Rightarrow> 'w ip_assigner_model \<Rightarrow> 'w ip_assigner_model" where
  "ip_assigner_callback f m = m\<lparr> ip_callback := f \<rparr>"

definition ip_assigner_reset :: "'w ip_assigner_model \<Rightarrow> 'w ip_assigner_model" where
  "ip_assigner_reset m =
     m\<lparr> ip_header := [], ip_array := None, ip_callback := None, selector_position := 0,
        digits_array := replicate 12 0 \<rparr>"

section \<open>One octet\<close>

text \<open>Three digits that read a byte.\<close>

fun octet_value :: "buf \<Rightarrow> nat" where
  "octet_value [a, b, c] = 100 * unat a + 10 * unat b + unat c"
| "octet_value _ = 0"

definition octet_ok :: "buf \<Rightarrow> bool" where
  "octet_ok t \<longleftrightarrow> length t = 3 \<and> (\<forall>d\<in>set t. d \<le> 9) \<and> t ! 0 \<le> 2 \<and> octet_value t \<le> 255"

definition column_up :: "nat \<Rightarrow> buf \<Rightarrow> buf option" where
  "column_up j = (if j = 0 then sum_first_digit 0 else if j = 1 then sum_second_digit 1 else sum_third_digit 2)"

definition column_down :: "nat \<Rightarrow> buf \<Rightarrow> buf option" where
  "column_down j =
     (if j = 0 then subtract_first_digit 0 else if j = 1 then subtract_second_digit 1 else subtract_third_digit 2)"

text \<open>The one reading from which the down key leaves the bytes: 056 to 059 with the selector on the zero.\<close>

definition down_overflows :: "nat \<Rightarrow> buf \<Rightarrow> bool" where
  "down_overflows j t \<longleftrightarrow> j = 0 \<and> t ! 0 = 0 \<and> t ! 1 = 5 \<and> 5 < t ! 2"

lemma inc_digit: "d \<le> k \<Longrightarrow> d \<noteq> k \<Longrightarrow> d + 1 \<le> (k :: u8)"
  by (simp add: inc_le order_neq_le_trans)

lemma pred_digit: "d \<le> k \<Longrightarrow> d \<noteq> 0 \<Longrightarrow> d - 1 \<le> (k :: u8)"
proof -
  assume "d \<le> k" "d \<noteq> 0"
  then have "unat (d - 1) \<le> unat k" by (simp add: unat_minus_one word_le_nat_alt)
  then show ?thesis by (simp add: word_le_nat_alt)
qed

lemma octet_ok_iff:
  "octet_ok [a, b, c] \<longleftrightarrow> a \<le> 2 \<and> b \<le> 9 \<and> c \<le> 9 \<and> (a = 2 \<longrightarrow> b \<le> 5 \<and> (b = 5 \<longrightarrow> c \<le> 5))"
proof -
  have "a = 2 \<longleftrightarrow> unat a = 2" "b = 5 \<longleftrightarrow> unat b = 5" by (simp_all add: word_unat_eq_iff)
  moreover have "unat a \<le> 2 \<Longrightarrow> unat b \<le> 9 \<Longrightarrow> unat c \<le> 9 \<Longrightarrow>
      100 * unat a + 10 * unat b + unat c \<le> 255 \<longleftrightarrow>
      (unat a = 2 \<longrightarrow> unat b \<le> 5 \<and> (unat b = 5 \<longrightarrow> unat c \<le> 5))"
    by linarith
  ultimately show ?thesis by (auto simp: octet_ok_def word_le_nat_alt)
qed

lemma octet_cases:
  assumes "octet_ok t"
  obtains a b c where "t = [a, b, c]"
  using assms by (auto simp: octet_ok_def length_Suc_conv numeral_3_eq_3)

lemmas digit_order = inc_digit pred_digit order_trans [of _ 2 "9 :: u8"] order_trans [of _ 5 "9 :: u8"]

lemma octet_up:
  assumes "octet_ok t" "j < 3"
  obtains r where "column_up j t = Some r" "octet_ok r"
proof -
  obtain a b c where t: "t = [a, b, c]" using assms(1) by (rule octet_cases)
  have ok: "a \<le> 2" "b \<le> 9" "c \<le> 9" "a = 2 \<longrightarrow> b \<le> 5 \<and> (b = 5 \<longrightarrow> c \<le> 5)"
    using assms(1) by (simp_all add: t octet_ok_iff)
  have "\<exists>r. column_up 0 t = Some r \<and> octet_ok r"
    using ok by (auto simp: t column_up_def sum_first_digit_def rd_def wr_bytes_def octet_ok_iff Let_def
        not_le not_less intro: digit_order)
  moreover have "\<exists>r. column_up 1 t = Some r \<and> octet_ok r"
    using ok by (auto simp: t column_up_def sum_second_digit_def rd_def wr_bytes_def octet_ok_iff Let_def
        not_le not_less intro: digit_order)
  moreover have "\<exists>r. column_up 2 t = Some r \<and> octet_ok r"
    using ok by (auto simp: t column_up_def sum_third_digit_def rd_def wr_bytes_def octet_ok_iff Let_def
        not_le not_less intro: digit_order)
  moreover have "j = 0 \<or> j = 1 \<or> j = 2" using assms(2) by auto
  ultimately show ?thesis using that by blast
qed

lemma octet_down:
  assumes "octet_ok t" "j < 3"
  obtains r where "column_down j t = Some r" "length r = 3" "octet_ok r \<longleftrightarrow> \<not> down_overflows j t"
proof -
  obtain a b c where t: "t = [a, b, c]" using assms(1) by (rule octet_cases)
  have ok: "a \<le> 2" "b \<le> 9" "c \<le> 9" "a = 2 \<longrightarrow> b \<le> 5 \<and> (b = 5 \<longrightarrow> c \<le> 5)"
    using assms(1) by (simp_all add: t octet_ok_iff)
  have less: "a \<noteq> 0 \<Longrightarrow> a - 1 \<noteq> 2" using ok(1) by (auto simp: word_le_nat_alt diff_eq_eq)
  have "\<exists>r. column_down 0 t = Some r \<and> length r = 3 \<and> (octet_ok r \<longleftrightarrow> \<not> down_overflows 0 t)"
    using ok less by (auto simp: t column_down_def subtract_first_digit_def rd_def wr_bytes_def octet_ok_iff
        Let_def not_le not_less down_overflows_def intro: digit_order)
  moreover have "\<exists>r. column_down 1 t = Some r \<and> length r = 3 \<and> octet_ok r"
    using ok by (auto simp: t column_down_def subtract_second_digit_def rd_def wr_bytes_def octet_ok_iff Let_def
        not_le not_less intro: digit_order)
  moreover have "\<exists>r. column_down 2 t = Some r \<and> length r = 3 \<and> octet_ok r"
    using ok by (auto simp: t column_down_def subtract_third_digit_def rd_def wr_bytes_def octet_ok_iff Let_def
        not_le not_less intro: digit_order)
  moreover have "j = 0 \<or> j = 1 \<or> j = 2" using assms(2) by auto
  ultimately show ?thesis using that by (auto simp: down_overflows_def)
qed

section \<open>An octet inside the digits\<close>

text \<open>The keys on a display that is one octet between other digits.\<close>

definition digits_up :: "nat \<Rightarrow> buf \<Rightarrow> buf option" where
  "digits_up p ds =
     do { ds \<leftarrow> (if p mod 3 = 0 then sum_first_digit p ds else Some ds);
          ds \<leftarrow> (if p mod 3 = 1 then sum_second_digit p ds else Some ds);
          if p mod 3 = 2 then sum_third_digit p ds else Some ds }"

definition digits_down :: "nat \<Rightarrow> buf \<Rightarrow> buf option" where
  "digits_down p ds =
     do { ds \<leftarrow> (if p mod 3 = 0 then subtract_first_digit p ds else Some ds);
          ds \<leftarrow> (if p mod 3 = 1 then subtract_second_digit p ds else Some ds);
          if p mod 3 = 2 then subtract_third_digit p ds else Some ds }"

lemma digits_up_inside:
  assumes "length t = 3" "j < 3" "length pre mod 3 = 0"
  shows "digits_up (length pre + j) (pre @ t @ post) = map_option (\<lambda>r. pre @ r @ post) (column_up j t)"
proof -
  have "j = 0 \<or> j = 1 \<or> j = 2" using assms(2) by auto
  moreover obtain a b c where t: "t = [a, b, c]" using assms(1) by (auto simp: length_Suc_conv numeral_3_eq_3)
  moreover have "(length pre + j) mod 3 = j" using assms(2,3) by presburger
  ultimately show ?thesis
    by (elim disjE)
      (auto simp: column_up_def digits_up_def sum_first_digit_def sum_second_digit_def sum_third_digit_def rd_def
         wr_bytes_def nth_append Let_def split: if_splits)
qed

lemma digits_down_inside:
  assumes "length t = 3" "j < 3" "length pre mod 3 = 0"
  shows "digits_down (length pre + j) (pre @ t @ post) = map_option (\<lambda>r. pre @ r @ post) (column_down j t)"
proof -
  have "j = 0 \<or> j = 1 \<or> j = 2" using assms(2) by auto
  moreover obtain a b c where t: "t = [a, b, c]" using assms(1) by (auto simp: length_Suc_conv numeral_3_eq_3)
  moreover have "(length pre + j) mod 3 = j" using assms(2,3) by presburger
  ultimately show ?thesis
    by (elim disjE)
      (auto simp: column_down_def digits_down_def subtract_first_digit_def subtract_second_digit_def
         subtract_third_digit_def rd_def wr_bytes_def nth_append Let_def split: if_splits)
qed

section \<open>The stored address\<close>

definition octet :: "buf \<Rightarrow> nat \<Rightarrow> buf" where
  "octet ds k = take 3 (drop (3 * k) ds)"

definition octet_byte :: "buf \<Rightarrow> nat \<Rightarrow> u8" where
  "octet_byte ds k = ds ! (3 * k) * 100 + ds ! (3 * k + 1) * 10 + ds ! (3 * k + 2)"

text \<open>The display is consistent: every octet is three digits that read the byte of the address.\<close>

definition ip_display_ok :: "'w ip_assigner_model \<Rightarrow> bool" where
  "ip_display_ok m \<longleftrightarrow> unat (selector_position m) < 12 \<and> length (digits_array m) = 12 \<and>
     (\<forall>ip. ip_array m = Some ip \<longrightarrow> length ip = 4 \<and>
        (\<forall>k<4. octet_ok (octet (digits_array m) k) \<and> unat (ip ! k) = octet_value (octet (digits_array m) k)))"

text \<open>The event after which it is not.\<close>

definition down_on_05x :: "input_type \<Rightarrow> input_key \<Rightarrow> 'w ip_assigner_model \<Rightarrow> bool" where
  "down_on_05x type key m \<longleftrightarrow>
     (type = InputTypeRelease \<or> type = InputTypeRepeat) \<and> key = InputKeyDown \<and> ip_array m \<noteq> None \<and>
     down_overflows (unat (selector_position m) mod 3) (octet (digits_array m) (unat (selector_position m) div 3))"

lemma update_ip_octet:
  assumes "k < length ip" "3 * k + 2 < length ds"
  shows "update_ip_octets (k # rest) ip ds = update_ip_octets rest (ip[k := octet_byte ds k]) ds"
  using assms by (simp add: octet_byte_def upd_conv_take_nth_drop [symmetric] wr_bytes_def rd_def nth_append Let_def)

lemma update_ip_data_eq:
  assumes "length ip = 4" "length ds = 12"
  shows "update_ip_data ip ds = Some (map (octet_byte ds) [0, 1, 2, 3])"
proof -
  obtain a b c d where "ip = [a, b, c, d]"
    using assms(1) by (auto simp: length_Suc_conv numeral_eq_Suc)
  then show ?thesis
    using assms by (simp add: update_ip_data_def update_ip_octet del: update_ip_octets.simps(2))
qed

lemma octet_nth:
  "length ds = 12 \<Longrightarrow> k < 4 \<Longrightarrow> octet ds k = [ds ! (3 * k), ds ! (3 * k + 1), ds ! (3 * k + 2)]"
  by (rule nth_equalityI) (auto simp: octet_def less_Suc_eq numeral_3_eq_3 nth_append)

lemma unat_octet_byte:
  assumes "length ds = 12" "k < 4" "octet_ok (octet ds k)"
  shows "unat (octet_byte ds k) = octet_value (octet ds k)"
proof -
  have "unat (ds ! (3 * k)) * 100 + unat (ds ! (3 * k + 1)) * 10 + unat (ds ! (3 * k + 2)) \<le> 255"
    using assms by (simp add: octet_nth octet_ok_def algebra_simps)
  then show ?thesis
    using assms(1,2) by (simp add: octet_nth octet_byte_def unat_word_ariths)
qed

lemma octet_replace:
  assumes "length ds = 12" "k < 4" "length r = 3"
  defines "ds' \<equiv> take (3 * k) ds @ r @ drop (3 * k + 3) ds"
  shows "length ds' = 12" "octet ds' k = r" "i < 4 \<Longrightarrow> i \<noteq> k \<Longrightarrow> octet ds' i = octet ds i"
proof -
  show l: "length ds' = 12" using assms by (auto simp: ds'_def)
  show "octet ds' k = r" using assms by (simp add: octet_def ds'_def)
  assume i: "i < 4" "i \<noteq> k"
  have "ds' ! n = ds ! n" if "n < 12" "n < 3 * k \<or> 3 * k + 3 \<le> n" for n
    using that assms(1-3) by (auto simp: ds'_def nth_append min_def)
  moreover have "3 * i + j < 3 * k \<or> 3 * k + 3 \<le> 3 * i + j" "3 * i + j < 12" if "j < 3" for j
    using i assms(2) that by auto
  ultimately have "ds' ! (3 * i + j) = ds ! (3 * i + j)" if "j < 3" for j using that by blast
  from this [of 0] this [of 1] this [of 2] show "octet ds' i = octet ds i"
    using i assms(1) l by (simp add: octet_nth)
qed

lemma octet_split: "ds = take (3 * k) ds @ octet ds k @ drop (3 * k + 3) ds"
  by (simp add: octet_def) (metis append_take_drop_id drop_drop add.commute)

lemma edit_octet:
  assumes ok: "ip_display_ok m" and ip: "ip_array m = Some ip"
  defines "p \<equiv> unat (selector_position m)"
  shows "validate_num_in_sum m ip =
           do { ds \<leftarrow> digits_up p (digits_array m); ip \<leftarrow> update_ip_data ip ds;
                Some (m\<lparr> digits_array := ds, ip_array := Some ip \<rparr>) }"
    and "validate_num_in_subtraction m ip =
           do { ds \<leftarrow> digits_down p (digits_array m); ip \<leftarrow> update_ip_data ip ds;
                Some (m\<lparr> digits_array := ds, ip_array := Some ip \<rparr>) }"
  by (simp_all add: validate_num_in_sum_def validate_num_in_subtraction_def digits_up_def digits_down_def p_def Let_def)

text \<open>What an edit of one octet leaves.\<close>

lemma edited_display:
  fixes m :: "'w ip_assigner_model"
  assumes ok: "ip_display_ok m" and ip: "ip_array m = Some ip"
    and k: "k < 4" and r: "length r = 3"
  defines "ds \<equiv> take (3 * k) (digits_array m) @ r @ drop (3 * k + 3) (digits_array m)"
  shows "\<exists>ip'. update_ip_data ip ds = Some ip' \<and>
           (ip_display_ok (m\<lparr> digits_array := ds, ip_array := Some ip' \<rparr>) \<longleftrightarrow> octet_ok r) \<and>
           (\<forall>i<4. i \<noteq> k \<longrightarrow> octet ds i = octet (digits_array m) i)"
proof -
  have len: "length (digits_array m) = 12" "length ip = 4" using ok ip by (auto simp: ip_display_ok_def)
  note ds = octet_replace [OF len(1) k r, folded ds_def]
  let ?ip = "map (octet_byte ds) [0, 1, 2, 3]"
  have byte: "?ip ! i = octet_byte ds i" if "i < 4" for i
    using that by (auto simp: less_Suc_eq numeral_eq_Suc nth_Cons')
  have others: "octet_ok (octet ds i)" if "i < 4" "i \<noteq> k" for i
    using that ok ip ds(3) [OF that] by (simp add: ip_display_ok_def)
  have "ip_display_ok (m\<lparr> digits_array := ds, ip_array := Some ?ip \<rparr>) \<longleftrightarrow> octet_ok r"
  proof
    assume "ip_display_ok (m\<lparr> digits_array := ds, ip_array := Some ?ip \<rparr>)"
    then have "\<forall>i<4. octet_ok (octet ds i)" by (simp add: ip_display_ok_def)
    then show "octet_ok r" using k ds(2) by blast
  next
    assume "octet_ok r"
    then have "octet_ok (octet ds i)" if "i < 4" for i using that others ds(2) by (cases "i = k") auto
    then show "ip_display_ok (m\<lparr> digits_array := ds, ip_array := Some ?ip \<rparr>)"
      using ok ds(1) by (simp only: ip_display_ok_def) (simp add: byte [simplified] unat_octet_byte)
  qed
  then show ?thesis using update_ip_data_eq [OF len(2) ds(1)] ds(3) by blast
qed

lemma selected_octet:
  "ip_display_ok m \<Longrightarrow> unat (selector_position m) div 3 < 4 \<and> unat (selector_position m) mod 3 < 3"
  by (simp add: ip_display_ok_def less_mult_imp_div_less)

lemma digits_keys:
  assumes ok: "ip_display_ok m" and ip: "ip_array m = Some ip"
  defines "p \<equiv> unat (selector_position m)" and "ds \<equiv> digits_array m"
  shows "digits_up p ds = map_option (\<lambda>r. take (3 * (p div 3)) ds @ r @ drop (3 * (p div 3) + 3) ds)
                            (column_up (p mod 3) (octet ds (p div 3)))"
    and "digits_down p ds = map_option (\<lambda>r. take (3 * (p div 3)) ds @ r @ drop (3 * (p div 3) + 3) ds)
                            (column_down (p mod 3) (octet ds (p div 3)))"
proof -
  let ?k = "p div 3"
  have k: "?k < 4" using selected_octet [OF ok] by (simp add: p_def)
  have l: "length (take (3 * ?k) ds) = 3 * ?k" "length (octet ds ?k) = 3"
    using ok k by (auto simp: ip_display_ok_def ds_def octet_def)
  have p: "p = length (take (3 * ?k) ds) + p mod 3" using l(1) by simp
  show "digits_up p ds = map_option (\<lambda>r. take (3 * ?k) ds @ r @ drop (3 * ?k + 3) ds)
                            (column_up (p mod 3) (octet ds ?k))"
    by (subst p, subst octet_split [of ds ?k], subst digits_up_inside) (use l in auto)
  show "digits_down p ds = map_option (\<lambda>r. take (3 * ?k) ds @ r @ drop (3 * ?k + 3) ds)
                            (column_down (p mod 3) (octet ds ?k))"
    by (subst p, subst octet_split [of ds ?k], subst digits_down_inside) (use l in auto)
qed

lemma up_down_display:
  assumes ok: "ip_display_ok m" and ip: "ip_array m = Some ip"
  defines "k \<equiv> unat (selector_position m) div 3" and "j \<equiv> unat (selector_position m) mod 3"
  shows "runs (validate_num_in_sum m ip)
           (\<lambda>m'. ip_display_ok m' \<and> (\<forall>i<4. i \<noteq> k \<longrightarrow> octet (digits_array m') i = octet (digits_array m) i))"
    and "runs (validate_num_in_subtraction m ip)
           (\<lambda>m'. (ip_display_ok m' \<longleftrightarrow> \<not> down_overflows j (octet (digits_array m) k)) \<and>
                 (\<forall>i<4. i \<noteq> k \<longrightarrow> octet (digits_array m') i = octet (digits_array m) i))"
proof -
  have k: "k < 4" "j < 3" using selected_octet [OF ok] by (simp_all add: k_def j_def)
  then have o: "octet_ok (octet (digits_array m) k)" using ok ip by (simp add: ip_display_ok_def)
  obtain u where u: "column_up j (octet (digits_array m) k) = Some u" "octet_ok u" using octet_up [OF o k(2)] .
  obtain d where d: "column_down j (octet (digits_array m) k) = Some d" "length d = 3"
    "octet_ok d \<longleftrightarrow> \<not> down_overflows j (octet (digits_array m) k)" using octet_down [OF o k(2)] .
  have "length u = 3" using u(2) by (simp add: octet_ok_def)
  from edited_display [OF ok ip k(1) this] u
  show "runs (validate_num_in_sum m ip)
           (\<lambda>m'. ip_display_ok m' \<and> (\<forall>i<4. i \<noteq> k \<longrightarrow> octet (digits_array m') i = octet (digits_array m) i))"
    by (auto simp: edit_octet [OF ok ip] digits_keys [OF ok ip] k_def j_def)
  from edited_display [OF ok ip k(1) d(2)] d
  show "runs (validate_num_in_subtraction m ip)
           (\<lambda>m'. (ip_display_ok m' \<longleftrightarrow> \<not> down_overflows j (octet (digits_array m) k)) \<and>
                 (\<forall>i<4. i \<noteq> k \<longrightarrow> octet (digits_array m') i = octet (digits_array m) i))"
    by (auto simp: edit_octet [OF ok ip] digits_keys [OF ok ip] k_def j_def)
qed

lemma unat_ten: "unat (10 :: u8) = 10" "unat (2 :: u8) = Suc (Suc 0)"
  by simp_all

lemma get_num_unat:
  "unat (get_num n 0) = unat n mod 10" "unat (get_num n 1) = unat n div 10 mod 10"
  "unat (get_num n 2) = unat n div 10 div 10 mod 10"
  unfolding get_num_def by (simp_all only: unat_ten unat_div unat_mod unat_0 unat_1 funpow.simps o_apply id_apply One_nat_def)

text \<open>The digits of an address are consistent with it.\<close>

lemma decimal_byte:
  fixes n :: nat
  assumes "n \<le> 255"
  shows "100 * (n div 10 div 10 mod 10) + 10 * (n div 10 mod 10) + n mod 10 = n"
    and "n div 10 div 10 mod 10 \<le> 2"
proof -
  define q r s where "q = n div 10" and "r = q div 10" and "s = q mod 10"
  have "n = 10 * q + n mod 10" "q = 10 * r + s" by (simp_all add: q_def r_def s_def)
  moreover have "r \<le> 2" using assms by (simp add: r_def q_def)
  moreover have "n div 10 div 10 mod 10 = r" "n div 10 mod 10 = s"
    using \<open>r \<le> 2\<close> by (simp_all only: q_def [symmetric] r_def [symmetric] s_def [symmetric] mod_less)
  ultimately show "100 * (n div 10 div 10 mod 10) + 10 * (n div 10 mod 10) + n mod 10 = n"
    "n div 10 div 10 mod 10 \<le> 2"
    by linarith+
qed

lemma byte_digits:
  "octet_ok [get_num n 2, get_num n 1, get_num n 0] \<and>
   octet_value [get_num n 2, get_num n 1, get_num n 0] = unat n"
proof -
  have n: "unat n \<le> 255" using unat_u8_less [of n] by linarith
  have "octet_value [get_num n 2, get_num n 1, get_num n 0] = unat n"
    using decimal_byte(1) [OF n] by (simp only: octet_value.simps get_num_unat)
  moreover have "x mod 10 \<le> (9 :: nat)" for x using mod_less_divisor [of 10 x] by linarith
  then have "get_num n k \<le> 9" if "k \<in> {0, 1, 2}" for k
    using that by (auto simp: word_le_nat_alt get_num_unat)
  moreover have "get_num n 2 \<le> 2" using decimal_byte(2) [OF n] by (simp add: word_le_nat_alt get_num_unat)
  ultimately show ?thesis using n by (simp add: octet_ok_def)
qed

lemma ip_assigner_set_ip_array_display:
  assumes "length ip = 4" "length (digits_array m) = 12" "unat (selector_position m) < 12"
  shows "\<exists>m'. ip_assigner_set_ip_array ip m = Some m' \<and> ip_display_ok m' \<and> ip_array m' = Some ip"
proof -
  obtain a b c d where ip: "ip = [a, b, c, d]"
    using assms(1) by (auto simp: length_Suc_conv numeral_eq_Suc)
  let ?t = "\<lambda>n. [get_num n 2, get_num n 1, get_num n 0]"
  let ?ds = "?t a @ ?t b @ ?t c @ ?t d"
  obtain x0 x1 x2 x3 x4 x5 x6 x7 x8 x9 x10 x11
    where ds: "digits_array m = [x0, x1, x2, x3, x4, x5, x6, x7, x8, x9, x10, x11]"
    using assms(2) by (auto simp: length_Suc_conv numeral_eq_Suc)
  have "[0..<12] = [0, 1, 2, 3, 4, 5, 6, 7, 8, 9, 10, 11]" by (simp add: upt_rec)
  then have "ip_digits_from ip [0..<12] 3 (digits_array m) = Some ?ds"
    by (simp add: ip ds rd_def wr_bytes_def)
  moreover have "octet ?ds 0 = ?t a" "octet ?ds 1 = ?t b" "octet ?ds 2 = ?t c" "octet ?ds 3 = ?t d"
    by (simp_all add: octet_def)
  then have "octet_ok (octet ?ds k) \<and> unat (ip ! k) = octet_value (octet ?ds k)" if "k < 4" for k
  proof -
    have "k = 0 \<or> k = 1 \<or> k = 2 \<or> k = 3" using that by auto
    then show ?thesis using byte_digits \<open>octet ?ds 0 = ?t a\<close> \<open>octet ?ds 1 = ?t b\<close> \<open>octet ?ds 2 = ?t c\<close> \<open>octet ?ds 3 = ?t d\<close>
      by (elim disjE) (simp_all only: ip nth_Cons_0 nth_Cons_Suc One_nat_def numeral_2_eq_2 numeral_3_eq_3)
  qed
  ultimately show ?thesis
    using assms by (simp add: ip_assigner_set_ip_array_def ip_display_ok_def)
qed

section \<open>The properties of the view\<close>

text \<open>
  C28. Once an address has been handed to the view, every key event is memory safe and leaves the
  display consistent with the address (the selector on one of the twelve digits, every octet three
  decimal digits that read the byte stored for it), with one exception, and edits only the octet
  under the selector. The exception is a press of the down key on the leading zero of an octet that
  reads 056 to 059: the digits become 256 to 259 and no byte reads like that.
\<close>

theorem ip_input_callback_consistent:
  assumes "ip_display_ok m"
  shows "runs (ip_input_callback type key m app)
           (\<lambda>(_, m', _). (ip_display_ok m' \<longleftrightarrow> \<not> down_on_05x type key m) \<and>
              (\<forall>k<4. k \<noteq> unat (selector_position m) div 3 \<longrightarrow>
                 octet (digits_array m') k = octet (digits_array m) k))"
proof (cases key)
  case InputKeyUp
  then show ?thesis
    using assms up_down_display(1) [OF assms]
    by (cases "ip_array m") (auto simp: ip_input_callback_def runs_bind_iff down_on_05x_def elim: runs_mono)
next
  case InputKeyDown
  then show ?thesis
    using assms up_down_display(2) [OF assms]
    by (cases "ip_array m") (auto simp: ip_input_callback_def runs_bind_iff down_on_05x_def elim: runs_mono)
next
  case InputKeyRight
  have "unat (selector_position m + 1) = unat (selector_position m) + 1"
    using assms by (subst unat_word_ariths) (simp add: ip_display_ok_def)
  then show ?thesis
    using assms InputKeyRight
    by (auto simp: ip_input_callback_def down_on_05x_def ip_display_ok_def Let_def word_less_nat_alt)
next
  case InputKeyLeft
  then show ?thesis
    using assms
    by (auto simp: ip_input_callback_def down_on_05x_def ip_display_ok_def unat_minus_one)
qed (use assms in \<open>auto simp: ip_input_callback_def down_on_05x_def split: option.splits\<close>)

lemma four_octets: "(\<forall>k<4. P k) \<longleftrightarrow> P 0 \<and> P 1 \<and> P 2 \<and> P (3 :: nat)"
proof -
  have "k < 4 \<longleftrightarrow> k = 0 \<or> k = 1 \<or> k = 2 \<or> k = (3 :: nat)" for k by auto
  then show ?thesis by auto
qed

definition example_editor :: "unit ip_assigner_model" where
  "example_editor = \<lparr> selector_position = 0, ip_callback = None,
     digits_array = [0, 5, 9, 0, 0, 0, 0, 0, 0, 0, 0, 1], ip_header = [], ip_array = Some [59, 0, 0, 1] \<rparr>"

lemma ip_input_callback_consistent_witness:
  "ip_display_ok example_editor \<and> runs (ip_input_callback InputTypeRelease InputKeyDown example_editor ())
     (\<lambda>(_, m, _). \<not> ip_display_ok m \<and> octet (digits_array m) 3 = [0, 0, 1])"
proof -
  have ok: "ip_display_ok example_editor"
    by (simp add: ip_display_ok_def example_editor_def four_octets octet_def octet_ok_def)
  have "down_on_05x InputTypeRelease InputKeyDown example_editor"
    by (simp add: down_on_05x_def down_overflows_def example_editor_def octet_def)
  then have "runs (ip_input_callback InputTypeRelease InputKeyDown example_editor ())
     (\<lambda>(_, m, _). \<not> ip_display_ok m \<and> octet (digits_array m) 3 = octet (digits_array example_editor) 3)"
    by - (rule runs_mono [OF ip_input_callback_consistent [OF ok, of InputTypeRelease InputKeyDown "()"]],
        auto simp: example_editor_def)
  then show ?thesis using ok by (simp add: example_editor_def octet_def)
qed

end
