(* ===== verification/Settings.thy ===== *)
theory Settings
  imports Enc28j60
begin

text \<open>
  \<open>libraries/settings/settings.c\<close>: the settings file. The file service \<open>flipper_format\<close> of the firmware
  is a parameter: a record of its operations on an arbitrary state. A read of hexadecimal bytes gets
  the array it fills and returns what the array holds afterwards, since a read that fails may have
  filled part of it; a read of one number returns it or nothing.
\<close>

section \<open>The service and the application\<close>

record 's flipper_format =
  ff_open_existing :: "'s \<Rightarrow> bool \<times> 's"
  ff_read_header :: "'s \<Rightarrow> (string \<times> u32) ptr \<times> 's"
  ff_read_hex :: "string \<Rightarrow> buf \<Rightarrow> 's \<Rightarrow> bool \<times> buf \<times> 's"
  ff_read_bool :: "string \<Rightarrow> 's \<Rightarrow> bool ptr \<times> 's"
  ff_read_uint32 :: "string \<Rightarrow> 's \<Rightarrow> u32 ptr \<times> 's"
  ff_open_always :: "'s \<Rightarrow> bool \<times> 's"
  ff_write_header :: "string \<Rightarrow> u32 \<Rightarrow> 's \<Rightarrow> bool \<times> 's"
  ff_write_hex :: "string \<Rightarrow> buf \<Rightarrow> 's \<Rightarrow> bool \<times> 's"
  ff_write_bool :: "string \<Rightarrow> bool \<Rightarrow> 's \<Rightarrow> bool \<times> 's"
  ff_write_uint32 :: "string \<Rightarrow> u32 \<Rightarrow> 's \<Rightarrow> bool \<times> 's"

record scan_params =
  sp_target_ip :: buf
  sp_target_port :: u16
  sp_range_port :: u16
  sp_protocols_index :: u8
  sp_ip_ping :: buf
  sp_ip_start :: buf
  sp_range_ip :: u8

text \<open>The fields of \<open>App\<close> that the settings touch; \<open>app_ethernet\<close> is the driver, with its addresses.\<close>

record settings_app =
  app_ethernet :: enc28j60
  app_subnet_mask :: buf
  app_ip_helper :: buf
  app_is_static_ip :: bool
  app_is_dora :: bool
  app_ip_gateway :: buf
  app_mac_gateway :: buf
  app_scan_params :: scan_params

definition SETTINGS_FILETYPE :: string where
  "SETTINGS_FILETYPE = ''Flipper ENC28J60 Ethernet App Settings''"

definition SETTINGS_VERSION :: u32 where "SETTINGS_VERSION = 3"

section \<open>Validity of the addresses\<close>

definition settings_ipv4_is_nonzero :: "buf \<Rightarrow> bool option" where
  "settings_ipv4_is_nonzero address =
     do { a \<leftarrow> rd address 0; b \<leftarrow> rd address 1; c \<leftarrow> rd address 2; d \<leftarrow> rd address 3;
          Some (a \<noteq> 0 \<or> b \<noteq> 0 \<or> c \<noteq> 0 \<or> d \<noteq> 0) }"

text \<open>The loop over the mask; no result is \<open>return false\<close>, else the two flags.\<close>

function subnet_bits :: "u8 \<Rightarrow> u8 \<Rightarrow> bool \<Rightarrow> bool \<Rightarrow> (bool \<times> bool) ptr" where
  "subnet_bits byte0 bit_mask found_zero found_one =
     (if bit_mask = 0 then Some (found_zero, found_one)
      else if byte0 AND bit_mask \<noteq> 0
           then (if found_zero then None else subnet_bits byte0 (drop_bit 1 bit_mask) found_zero True)
           else subnet_bits byte0 (drop_bit 1 bit_mask) True found_one)"
  by pat_completeness auto
termination
proof (relation "measure (\<lambda>(_, bit_mask, _, _). unat bit_mask)", goal_cases)
  case (2 byte0 bit_mask found_zero found_one)
  then have "0 < unat bit_mask" by (simp add: unat_gt_0)
  then show ?case by (simp add: drop_bit_eq_div unat_div)
next
  case (3 byte0 bit_mask found_zero found_one)
  then have "0 < unat bit_mask" by (simp add: unat_gt_0)
  then show ?case by (simp add: drop_bit_eq_div unat_div)
qed simp

declare subnet_bits.simps [simp del]

fun subnet_bytes :: "buf \<Rightarrow> nat list \<Rightarrow> bool \<Rightarrow> bool \<Rightarrow> bool option" where
  "subnet_bytes subnet [] found_zero found_one = Some found_one"
| "subnet_bytes subnet (k # rest) found_zero found_one =
     do { b \<leftarrow> rd subnet k;
          (case subnet_bits b 0x80 found_zero found_one of
             None \<Rightarrow> Some False
           | Some (zero, one) \<Rightarrow> subnet_bytes subnet rest zero one) }"

definition settings_subnet_is_valid :: "buf \<Rightarrow> bool option" where
  "settings_subnet_is_valid subnet = subnet_bytes subnet [0, 1, 2, 3] False False"

fun mac_bytes :: "buf \<Rightarrow> nat list \<Rightarrow> bool \<Rightarrow> bool \<Rightarrow> (bool \<times> bool) option" where
  "mac_bytes mac [] all_zero all_ff = Some (all_zero, all_ff)"
| "mac_bytes mac (i # rest) all_zero all_ff =
     do { b \<leftarrow> rd mac i; mac_bytes mac rest (all_zero \<and> b = 0) (all_ff \<and> b = 0xFF) }"

definition settings_mac_is_valid :: "buf \<Rightarrow> bool option" where
  "settings_mac_is_valid mac =
     do { (all_zero, all_ff) \<leftarrow> mac_bytes mac [0, 1, 2, 3, 4, 5] True True;
          first \<leftarrow> rd mac 0;
          Some (\<not> all_zero \<and> \<not> all_ff \<and> first AND 0x01 = 0) }"

definition settings_dora_tuple_is_valid :: "buf \<Rightarrow> buf \<Rightarrow> buf \<Rightarrow> buf \<Rightarrow> bool option" where
  "settings_dora_tuple_is_valid ip subnet gateway gateway_mac =
     do { a \<leftarrow> settings_ipv4_is_nonzero ip;
          if \<not> a then Some False
          else do { b \<leftarrow> settings_subnet_is_valid subnet;
                    if \<not> b then Some False
                    else do { c \<leftarrow> settings_ipv4_is_nonzero gateway;
                              if \<not> c then Some False else settings_mac_is_valid gateway_mac } } }"

section \<open>Loading\<close>

text \<open>The MAC address is also written into the controller.\<close>

definition load_mac ::
  "chip \<Rightarrow> 's flipper_format \<Rightarrow> settings_app \<Rightarrow> 's \<Rightarrow> (settings_app \<times> 's) option" where
  "load_mac chip ff app s =
     (case ff_read_hex ff ''mac_address'' (replicate 6 0) s of
        (ok, mac, s) \<Rightarrow>
          if ok
          then do { e \<leftarrow> enc28j60_set_mac chip (app_ethernet app\<lparr> enc_mac_address := mac \<rparr>);
                    Some (app\<lparr> app_ethernet := e \<rparr>, s) }
          else Some (app, s))"

definition load_ip ::
  "'s flipper_format \<Rightarrow> settings_app \<Rightarrow> 's \<Rightarrow> (bool \<times> buf) \<times> settings_app \<times> 's" where
  "load_ip ff app s =
     (case ff_read_hex ff ''ip_address'' (replicate 4 0) s of
        (ok, ip, s) \<Rightarrow>
          ((ok, ip),
           (if ok then app\<lparr> app_ethernet := app_ethernet app\<lparr> enc_ip_address := ip \<rparr>, app_ip_helper := ip \<rparr>
            else app), s))"

definition load_network ::
  "'s flipper_format \<Rightarrow> u32 \<Rightarrow> settings_app \<Rightarrow> 's \<Rightarrow> (settings_app \<times> 's) option" where
  "load_network ff version app s =
     (let ((have_ip, saved_ip), app, s) = load_ip ff app s;
          (static_flag, s) = ff_read_bool ff ''is_static_ip'' s;
          app = (case static_flag of None \<Rightarrow> app | Some b \<Rightarrow> app\<lparr> app_is_static_ip := b \<rparr>);
          (dora_flag, s) = ff_read_bool ff ''is_dora'' s;
          requested_dora = (case dora_flag of None \<Rightarrow> False | Some b \<Rightarrow> b);
          (have_gateway, saved_gateway, s) = ff_read_hex ff ''ip_gateway'' (replicate 4 0) s;
          (have_gateway_mac, saved_gateway_mac, s) = ff_read_hex ff ''mac_gateway'' (replicate 6 0) s;
          (have_subnet, saved_subnet, s) =
            (if 3 \<le> version then ff_read_hex ff ''subnet_mask'' (replicate 4 0) s
             else (False, replicate 4 0, s))
      in do { valid_dora \<leftarrow>
                (if requested_dora \<and> have_ip \<and> have_subnet \<and> have_gateway \<and> have_gateway_mac
                 then settings_dora_tuple_is_valid saved_ip saved_subnet saved_gateway saved_gateway_mac
                 else Some False);
              Some ((if valid_dora
                     then app\<lparr> app_is_dora := True, app_subnet_mask := saved_subnet,
                               app_ip_gateway := saved_gateway, app_mac_gateway := saved_gateway_mac \<rparr>
                     else app\<lparr> app_is_dora := False, app_subnet_mask := replicate 4 0,
                               app_ip_gateway := replicate 4 0, app_mac_gateway := replicate 6 0 \<rparr>), s) })"

text \<open>The scan block; the casts to narrower integers drop high bits.\<close>

definition load_scan_params :: "'s flipper_format \<Rightarrow> scan_params \<Rightarrow> 's \<Rightarrow> scan_params \<times> 's" where
  "load_scan_params ff sp s =
     (let (_, ip, s) = ff_read_hex ff ''scan_target_ip'' (sp_target_ip sp) s;
          sp = sp\<lparr> sp_target_ip := ip \<rparr>;
          (v, s) = ff_read_uint32 ff ''scan_target_port'' s;
          sp = (case v of None \<Rightarrow> sp | Some w \<Rightarrow> sp\<lparr> sp_target_port := ucast w \<rparr>);
          (v, s) = ff_read_uint32 ff ''scan_range_port'' s;
          sp = (case v of None \<Rightarrow> sp | Some w \<Rightarrow> sp\<lparr> sp_range_port := ucast w \<rparr>);
          (v, s) = ff_read_uint32 ff ''scan_protocols_index'' s;
          sp = (case v of None \<Rightarrow> sp | Some w \<Rightarrow> sp\<lparr> sp_protocols_index := ucast w \<rparr>);
          (_, ip, s) = ff_read_hex ff ''scan_ip_ping'' (sp_ip_ping sp) s;
          sp = sp\<lparr> sp_ip_ping := ip \<rparr>;
          (_, ip, s) = ff_read_hex ff ''scan_ip_start'' (sp_ip_start sp) s;
          sp = sp\<lparr> sp_ip_start := ip \<rparr>;
          (v, s) = ff_read_uint32 ff ''scan_range_ip'' s;
          sp = (case v of None \<Rightarrow> sp | Some w \<Rightarrow> sp\<lparr> sp_range_ip := ucast w \<rparr>)
      in (sp, s))"

definition settings_load ::
  "chip \<Rightarrow> 's flipper_format \<Rightarrow> settings_app \<Rightarrow> 's \<Rightarrow> (settings_app \<times> 's) option" where
  "settings_load chip ff app s =
     (let (opened, s) = ff_open_existing ff s in
      if \<not> opened then Some (app, s)
      else let (header, s) = ff_read_header ff s in
           case header of
             None \<Rightarrow> Some (app, s)
           | Some (file_type, version) \<Rightarrow>
               if version \<noteq> 1 \<and> version \<noteq> 2 \<and> version \<noteq> 3 then Some (app, s)
               else if file_type \<noteq> SETTINGS_FILETYPE then Some (app, s)
               else do { (app, s) \<leftarrow> load_mac chip ff app s;
                         (app, s) \<leftarrow> load_network ff version app s;
                         let (sp, s) = load_scan_params ff (app_scan_params app) s;
                         Some (app\<lparr> app_scan_params := sp \<rparr>, s) })"

section \<open>Saving\<close>

text \<open>The writes in their order; a failed write skips the rest.\<close>

datatype settings_entry =
    HexEntry string buf
  | BoolEntry string bool
  | Uint32Entry string u32

fun ff_write :: "'s flipper_format \<Rightarrow> settings_entry \<Rightarrow> 's \<Rightarrow> bool \<times> 's" where
  "ff_write ff (HexEntry key v) s = ff_write_hex ff key v s"
| "ff_write ff (BoolEntry key v) s = ff_write_bool ff key v s"
| "ff_write ff (Uint32Entry key v) s = ff_write_uint32 ff key v s"

fun ff_write_all :: "'s flipper_format \<Rightarrow> settings_entry list \<Rightarrow> 's \<Rightarrow> bool \<times> 's" where
  "ff_write_all ff [] s = (True, s)"
| "ff_write_all ff (e # rest) s =
     (case ff_write ff e s of (ok, s) \<Rightarrow> if ok then ff_write_all ff rest s else (False, s))"

definition settings_entries :: "settings_app \<Rightarrow> bool \<Rightarrow> settings_entry list" where
  "settings_entries app dora_valid =
     [HexEntry ''mac_address'' (enc_mac_address (app_ethernet app)),
      HexEntry ''ip_address'' (enc_ip_address (app_ethernet app)),
      BoolEntry ''is_static_ip'' (app_is_static_ip app),
      BoolEntry ''is_dora'' dora_valid,
      HexEntry ''ip_gateway'' (app_ip_gateway app),
      HexEntry ''mac_gateway'' (app_mac_gateway app),
      HexEntry ''subnet_mask'' (app_subnet_mask app),
      HexEntry ''scan_target_ip'' (sp_target_ip (app_scan_params app)),
      Uint32Entry ''scan_target_port'' (ucast (sp_target_port (app_scan_params app))),
      Uint32Entry ''scan_range_port'' (ucast (sp_range_port (app_scan_params app))),
      Uint32Entry ''scan_protocols_index'' (ucast (sp_protocols_index (app_scan_params app))),
      HexEntry ''scan_ip_ping'' (sp_ip_ping (app_scan_params app)),
      HexEntry ''scan_ip_start'' (sp_ip_start (app_scan_params app)),
      Uint32Entry ''scan_range_ip'' (ucast (sp_range_ip (app_scan_params app)))]"

text \<open>The answer is whether everything was written; the code ignores it.\<close>

definition settings_save :: "'s flipper_format \<Rightarrow> settings_app \<Rightarrow> 's \<Rightarrow> (bool \<times> 's) option" where
  "settings_save ff app s =
     do { dora_valid \<leftarrow>
            (if app_is_dora app
             then settings_dora_tuple_is_valid (enc_ip_address (app_ethernet app)) (app_subnet_mask app)
                    (app_ip_gateway app) (app_mac_gateway app)
             else Some False);
          Some (let (opened, s) = ff_open_always ff s in
                if \<not> opened then (False, s)
                else let (ok, s) = ff_write_header ff SETTINGS_FILETYPE SETTINGS_VERSION s in
                     if \<not> ok then (False, s)
                     else ff_write_all ff (settings_entries app dora_valid) s) }"

section \<open>What the checks accept\<close>

text \<open>A scan over a list of bits, most significant first.\<close>

fun scan_bits :: "bool list \<Rightarrow> bool \<Rightarrow> bool \<Rightarrow> (bool \<times> bool) ptr" where
  "scan_bits [] zero one = Some (zero, one)"
| "scan_bits (b # rest) zero one =
     (if b then (if zero then None else scan_bits rest zero True) else scan_bits rest True one)"

lemma scan_bits_append:
  "scan_bits (xs @ ys) zero one =
     (case scan_bits xs zero one of None \<Rightarrow> None | Some (z, o') \<Rightarrow> scan_bits ys z o')"
  by (induction xs arbitrary: zero one) auto

lemma scan_bits_zero: "scan_bits xs True one = (if True \<in> set xs then None else Some (True, one))"
  by (induction xs) auto

lemma prefix_True:
  "True # xs = replicate n True @ replicate m False \<longleftrightarrow> (\<exists>k. n = Suc k \<and> xs = replicate k True @ replicate m False)"
  by (cases n; cases m) auto

lemma prefix_False:
  "False # xs = replicate n True @ replicate m False \<longleftrightarrow> n = 0 \<and> (\<exists>k. m = Suc k \<and> xs = replicate k False)"
  by (cases n; cases m) auto

lemma all_False: "True \<notin> set xs \<longleftrightarrow> (\<exists>k. xs = replicate k False)"
proof
  assume "True \<notin> set xs"
  then show "\<exists>k. xs = replicate k False" by (induction xs) (auto intro: exI [of _ "Suc k" for k])
qed auto

lemma scan_bits_prefix_from:
  "(case scan_bits xs False one of None \<Rightarrow> False | Some (z, o') \<Rightarrow> o') \<longleftrightarrow>
     (\<exists>n m. xs = replicate n True @ replicate m False \<and> (one \<or> 0 < n))"
proof (induction xs arbitrary: one)
  case (Cons b xs)
  show ?case
  proof (cases b)
    case True
    show ?thesis by (simp only: True scan_bits.simps if_True if_False prefix_True Cons.IH) blast
  next
    case False
    have "(case scan_bits xs True one of None \<Rightarrow> False | Some (z, o') \<Rightarrow> o') \<longleftrightarrow> True \<notin> set xs \<and> one"
      by (simp add: scan_bits_zero)
    then show ?thesis by (simp only: False scan_bits.simps if_False prefix_False all_False) auto
  qed
qed simp

lemma scan_bits_prefix:
  "(case scan_bits xs False False of None \<Rightarrow> False | Some (z, o') \<Rightarrow> o') \<longleftrightarrow>
     (\<exists>n m. 0 < n \<and> xs = replicate n True @ replicate m False)"
  by (simp only: scan_bits_prefix_from) blast

definition byte_bits :: "u8 \<Rightarrow> bool list" where
  "byte_bits b = map (bit b) [7, 6, 5, 4, 3, 2, 1, 0]"

lemma subnet_bits_scan: "subnet_bits b 0x80 zero one = scan_bits (byte_bits b) zero one"
proof -
  have *: "b AND 0x80 = 0 \<longleftrightarrow> \<not> bit b 7" "b AND 0x40 = 0 \<longleftrightarrow> \<not> bit b 6" "b AND 0x20 = 0 \<longleftrightarrow> \<not> bit b 5"
    "b AND 0x10 = 0 \<longleftrightarrow> \<not> bit b 4" "b AND 0x08 = 0 \<longleftrightarrow> \<not> bit b 3" "b AND 0x04 = 0 \<longleftrightarrow> \<not> bit b 2"
    "b AND 0x02 = 0 \<longleftrightarrow> \<not> bit b 1" "b AND 0x01 = 0 \<longleftrightarrow> \<not> bit b 0"
    using and_exp_eq_0_iff_not_bit [of b 7] and_exp_eq_0_iff_not_bit [of b 6] and_exp_eq_0_iff_not_bit [of b 5]
      and_exp_eq_0_iff_not_bit [of b 4] and_exp_eq_0_iff_not_bit [of b 3] and_exp_eq_0_iff_not_bit [of b 2]
      and_exp_eq_0_iff_not_bit [of b 1] and_exp_eq_0_iff_not_bit [of b 0]
    by simp_all
  have end': "subnet_bits b 0 zero one = Some (zero, one)" for zero one by (simp add: subnet_bits.simps)
  have step: "m \<noteq> 0 \<Longrightarrow> subnet_bits b m zero one =
      (if b AND m \<noteq> 0 then (if zero then None else subnet_bits b (drop_bit 1 m) zero True)
       else subnet_bits b (drop_bit 1 m) True one)" for m zero one
    by (simp add: subnet_bits.simps)
  have one: "subnet_bits b 1 zero one = scan_bits (map (bit b) [0]) zero one" for zero one
    by (simp add: step end' *)
  have two: "subnet_bits b 2 zero one = scan_bits (map (bit b) [1, 0]) zero one" for zero one
    by (simp add: step one *)
  have four: "subnet_bits b 4 zero one = scan_bits (map (bit b) [2, 1, 0]) zero one" for zero one
    by (simp add: step two *)
  have eight: "subnet_bits b 8 zero one = scan_bits (map (bit b) [3, 2, 1, 0]) zero one" for zero one
    by (simp add: step four *)
  have b16: "subnet_bits b 16 zero one = scan_bits (map (bit b) [4, 3, 2, 1, 0]) zero one" for zero one
    by (simp add: step eight *)
  have b32: "subnet_bits b 32 zero one = scan_bits (map (bit b) [5, 4, 3, 2, 1, 0]) zero one" for zero one
    by (simp add: step b16 *)
  have b64: "subnet_bits b 64 zero one = scan_bits (map (bit b) [6, 5, 4, 3, 2, 1, 0]) zero one" for zero one
    by (simp add: step b32 *)
  show ?thesis by (simp add: step b64 * byte_bits_def)
qed

lemma address_bits:
  "byte_bits a @ byte_bits b @ byte_bits c @ byte_bits d = map (\<lambda>i. bit (be32 a b c d) (31 - i)) [0..<32]"
proof -
  have "[0..<32] = [0, 1, 2, 3, 4, 5, 6, 7, 8, 9, 10, 11, 12, 13, 14, 15, 16, 17, 18, 19, 20, 21, 22, 23,
      24, 25, 26, 27, 28, 29, 30, 31 :: nat]"
    by (simp add: upt_rec)
  then show ?thesis by (auto simp: byte_bits_def be32_def bit_simps dest: bit_imp_le_length)
qed

text \<open>A subnet mask in the sense of RFC 950: ones in front of zeros, and at least one.\<close>

definition subnet_mask_ok :: "buf \<Rightarrow> bool" where
  "subnet_mask_ok s \<longleftrightarrow> (\<exists>k<32. be32 (s ! 0) (s ! 1) (s ! 2) (s ! 3) = NOT (mask k))"

lemma prefix_mask:
  fixes w :: u32
  shows "(\<exists>n m. 0 < n \<and> map (\<lambda>i. bit w (31 - i)) [0..<32] = replicate n True @ replicate m False) \<longleftrightarrow>
         (\<exists>k<32. w = NOT (mask k))"
proof
  assume "\<exists>n m. 0 < n \<and> map (\<lambda>i. bit w (31 - i)) [0..<32] = replicate n True @ replicate m False"
  then obtain n m where nm: "0 < n" "map (\<lambda>i. bit w (31 - i)) [0..<32] = replicate n True @ replicate m False"
    by blast
  have "n + m = 32" using arg_cong [OF nm(2), of length] by simp
  have "bit w i \<longleftrightarrow> 32 - n \<le> i" if "i < 32" for i
  proof -
    have "31 - i < 32" "31 - (31 - i) = i" using that by linarith+
    then have "map (\<lambda>i. bit w (31 - i)) [0..<32] ! (31 - i) = bit w i" by (simp only: nth_map_upt add_0 diff_zero)
    then have "(replicate n True @ replicate m False) ! (31 - i) = bit w i" using nm(2) by simp
    then show ?thesis using that nm(1) \<open>n + m = 32\<close> by (cases "31 - i < n") (simp_all add: nth_append)
  qed
  then have "w = NOT (mask (32 - n))" by (intro bit_word_eqI) (auto simp: bit_simps)
  then show "\<exists>k<32. w = NOT (mask k)" using nm(1) \<open>n + m = 32\<close> by (intro exI [of _ "32 - n"]) auto
next
  assume "\<exists>k<32. w = NOT (mask k)"
  then obtain k where k: "k < 32" "w = NOT (mask k)" by blast
  have "map (\<lambda>i. bit w (31 - i)) [0..<32] = replicate (32 - k) True @ replicate k False"
    using k by (intro nth_equalityI) (auto simp: nth_append bit_simps)
  then show "\<exists>n m. 0 < n \<and> map (\<lambda>i. bit w (31 - i)) [0..<32] = replicate n True @ replicate m False"
    using k(1) by - (rule exI [of _ "32 - k"], rule exI [of _ k], simp)
qed

lemma settings_subnet_is_valid_eq:
  assumes "length s = 4"
  shows "settings_subnet_is_valid s = Some (subnet_mask_ok s)"
proof -
  let ?bits = "byte_bits (s ! 0) @ byte_bits (s ! 1) @ byte_bits (s ! 2) @ byte_bits (s ! 3)"
  have "settings_subnet_is_valid s =
      Some (case scan_bits ?bits False False of None \<Rightarrow> False | Some (z, o') \<Rightarrow> o')"
    using assms
    by (simp add: settings_subnet_is_valid_def rd_def subnet_bits_scan scan_bits_append split: option.splits prod.splits)
  then show ?thesis
    by (simp only: scan_bits_prefix address_bits prefix_mask subnet_mask_ok_def)
qed

lemma settings_ipv4_is_nonzero_eq:
  "length a = 4 \<Longrightarrow> settings_ipv4_is_nonzero a = Some (a \<noteq> replicate 4 0)"
  by (auto simp: settings_ipv4_is_nonzero_def rd_def length_Suc_conv numeral_eq_Suc)

definition mac_ok :: "buf \<Rightarrow> bool" where
  "mac_ok mac \<longleftrightarrow> mac \<noteq> replicate 6 0 \<and> mac \<noteq> replicate 6 0xFF \<and> \<not> bit (mac ! 0) 0"

lemma settings_mac_is_valid_eq:
  assumes "length mac = 6"
  shows "settings_mac_is_valid mac = Some (mac_ok mac)"
proof -
  have "b AND 1 = 0 \<longleftrightarrow> \<not> bit b 0" for b :: u8 using and_exp_eq_0_iff_not_bit [of b 0] by simp
  moreover obtain a b c d e f where "mac = [a, b, c, d, e, f]"
    using assms by (auto simp: length_Suc_conv numeral_eq_Suc)
  moreover have "replicate 6 x = [x, x, x, x, x, x]" for x :: u8 by (simp add: numeral_eq_Suc)
  ultimately show ?thesis by (auto simp: settings_mac_is_valid_def mac_ok_def rd_def)
qed

text \<open>The network settings under which the active features may run.\<close>

definition dora_tuple_ok :: "buf \<Rightarrow> buf \<Rightarrow> buf \<Rightarrow> buf \<Rightarrow> bool" where
  "dora_tuple_ok ip subnet gateway gateway_mac \<longleftrightarrow>
     ip \<noteq> replicate 4 0 \<and> subnet_mask_ok subnet \<and> gateway \<noteq> replicate 4 0 \<and> mac_ok gateway_mac"

lemma settings_dora_tuple_is_valid_eq:
  "length ip = 4 \<Longrightarrow> length subnet = 4 \<Longrightarrow> length gateway = 4 \<Longrightarrow> length gateway_mac = 6 \<Longrightarrow>
     settings_dora_tuple_is_valid ip subnet gateway gateway_mac =
       Some (dora_tuple_ok ip subnet gateway gateway_mac)"
  by (simp add: settings_dora_tuple_is_valid_def dora_tuple_ok_def settings_ipv4_is_nonzero_eq
      settings_subnet_is_valid_eq settings_mac_is_valid_eq)

section \<open>Loading any file\<close>

text \<open>The service fills the array it is given and nothing else.\<close>

definition ff_fills :: "'s flipper_format \<Rightarrow> bool" where
  "ff_fills ff \<longleftrightarrow> (\<forall>key b s. length (fst (snd (ff_read_hex ff key b s))) = length b)"

lemma ff_fillsD: "ff_fills ff \<Longrightarrow> ff_read_hex ff key b s = (ok, v, s') \<Longrightarrow> length v = length b"
  by (metis ff_fills_def fst_conv snd_conv)

definition app_ok :: "settings_app \<Rightarrow> bool" where
  "app_ok a \<longleftrightarrow> driver_idle (app_ethernet a) \<and> length (enc_ip_address (app_ethernet a)) = 4 \<and>
     length (app_subnet_mask a) = 4 \<and> length (app_ip_helper a) = 4 \<and> length (app_ip_gateway a) = 4 \<and>
     length (app_mac_gateway a) = 6 \<and> length (sp_target_ip (app_scan_params a)) = 4 \<and>
     length (sp_ip_ping (app_scan_params a)) = 4 \<and> length (sp_ip_start (app_scan_params a)) = 4"

lemma set_mac_keeps:
  assumes "honest_bank chip" "driver_idle d"
  shows "runs (enc28j60_set_mac chip d) (\<lambda>d'. driver_idle d' \<and> enc_mac_address d' = enc_mac_address d \<and>
           enc_ip_address d' = enc_ip_address d)"
proof -
  have "runs (mutex_release d1) (\<lambda>d'. driver_idle d' \<and> enc_mac_address d' = enc_mac_address d \<and>
           enc_ip_address d' = enc_ip_address d)" if "waits (lock_on d) d1" for d1
    using that assms(2)
    by (auto simp: mutex_release_def waits_def driver_ok_def driver_idle_def same_driver_def lock_on_def)
  then show ?thesis
    unfolding enc28j60_set_mac_def
    using assms idle_locked [of d] idle_mac [of d] idle_waits [of d]
    by (auto intro!: runs_bind runs_write_mac)
qed

lemma load_mac_runs:
  assumes "honest_bank chip" "ff_fills ff" "app_ok a"
  shows "runs (load_mac chip ff a s) (\<lambda>(a', s').
           app_ok a' \<and> (\<exists>e. a' = a\<lparr> app_ethernet := e \<rparr> \<and> enc_ip_address e = enc_ip_address (app_ethernet a)))"
proof -
  obtain ok v s' where r: "ff_read_hex ff ''mac_address'' (replicate 6 0) s = (ok, v, s')" by (rule prod_cases3)
  have v: "length v = 6" using ff_fillsD [OF assms(2) r] by simp
  let ?d = "app_ethernet a\<lparr> enc_mac_address := v \<rparr>"
  have "driver_idle ?d" using assms(3) v by (simp add: app_ok_def driver_idle_def)
  from set_mac_keeps [OF assms(1) this] obtain e where
    "enc28j60_set_mac chip ?d = Some e" "driver_idle e" "enc_ip_address e = enc_ip_address (app_ethernet a)"
    by (auto simp: runs_iff)
  moreover have "a\<lparr> app_ethernet := app_ethernet a \<rparr> = a" by simp
  ultimately show ?thesis using assms(3)
    by (cases ok) (auto simp: load_mac_def r app_ok_def intro: exI [of _ e] exI [of _ "app_ethernet a"])
qed

text \<open>What loading the addresses leaves: a network that was checked, or none.\<close>

definition network_checked :: "settings_app \<Rightarrow> bool" where
  "network_checked a \<longleftrightarrow>
     (if app_is_dora a
      then dora_tuple_ok (enc_ip_address (app_ethernet a)) (app_subnet_mask a) (app_ip_gateway a) (app_mac_gateway a) \<and>
           app_ip_helper a = enc_ip_address (app_ethernet a)
      else app_subnet_mask a = replicate 4 0 \<and> app_ip_gateway a = replicate 4 0 \<and> app_mac_gateway a = replicate 6 0)"

lemma load_ip_ok:
  assumes "ff_fills ff" "app_ok a"
  obtains ok ip a' s' where "load_ip ff a s = ((ok, ip), a', s')" "length ip = 4" "app_ok a'"
    "app_scan_params a' = app_scan_params a"
    "ok \<Longrightarrow> enc_ip_address (app_ethernet a') = ip \<and> app_ip_helper a' = ip"
proof -
  obtain ok ip s' where r: "ff_read_hex ff ''ip_address'' (replicate 4 0) s = (ok, ip, s')" by (rule prod_cases3)
  have l: "length ip = 4" using ff_fillsD [OF assms(1) r] by simp
  let ?a = "if ok then a\<lparr> app_ethernet := app_ethernet a\<lparr> enc_ip_address := ip \<rparr>, app_ip_helper := ip \<rparr> else a"
  show ?thesis
  proof (rule that [of ok ip ?a s'])
    show "load_ip ff a s = ((ok, ip), ?a, s')" by (simp add: load_ip_def r)
  qed (use assms(2) l in \<open>auto simp: app_ok_def driver_idle_def\<close>)
qed

lemma load_network_runs:
  assumes fills: "ff_fills ff" and a: "app_ok a"
  shows "runs (load_network ff version a s)
           (\<lambda>(a', s'). app_ok a' \<and> network_checked a' \<and> (app_is_dora a' \<longrightarrow> 3 \<le> version))"
proof -
  obtain have_ip ip a1 s1 where ip: "load_ip ff a s = ((have_ip, ip), a1, s1)" "length ip = 4" "app_ok a1"
    "have_ip \<Longrightarrow> enc_ip_address (app_ethernet a1) = ip \<and> app_ip_helper a1 = ip"
    using load_ip_ok [OF fills a] by metis
  obtain static s2 where static: "ff_read_bool ff ''is_static_ip'' s1 = (static, s2)" by fastforce
  obtain dora s3 where dora: "ff_read_bool ff ''is_dora'' s2 = (dora, s3)" by fastforce
  obtain g gw s4 where g: "ff_read_hex ff ''ip_gateway'' (replicate 4 0) s3 = (g, gw, s4)" by (rule prod_cases3)
  obtain gm gmac s5 where gm: "ff_read_hex ff ''mac_gateway'' (replicate 6 0) s4 = (gm, gmac, s5)" by (rule prod_cases3)
  obtain sn snm s6 where sn: "ff_read_hex ff ''subnet_mask'' (replicate 4 0) s5 = (sn, snm, s6)" by (rule prod_cases3)
  have len: "length gw = 4" "length gmac = 6" "length snm = 4"
    using ff_fillsD [OF fills g] ff_fillsD [OF fills gm] ff_fillsD [OF fills sn] by simp_all
  show ?thesis
  proof (cases "3 \<le> version")
    case True
    show ?thesis
      using ip(2-4) len
      by (auto simp: load_network_def ip(1) static dora g gm sn True settings_dora_tuple_is_valid_eq app_ok_def
          network_checked_def split: option.splits)
  next
    case False
    show ?thesis
      using ip(2-4) len
      by (auto simp: load_network_def ip(1) static dora g gm False app_ok_def network_checked_def split: option.splits)
  qed
qed

definition scan_params_ok :: "scan_params \<Rightarrow> bool" where
  "scan_params_ok sp \<longleftrightarrow> length (sp_target_ip sp) = 4 \<and> length (sp_ip_ping sp) = 4 \<and> length (sp_ip_start sp) = 4"

lemma load_scan_params_ok:
  assumes fills: "ff_fills ff" and sp: "scan_params_ok sp"
  shows "scan_params_ok (fst (load_scan_params ff sp s))"
proof -
  obtain o1 ip1 s1 where 1: "ff_read_hex ff ''scan_target_ip'' (sp_target_ip sp) s = (o1, ip1, s1)" by (rule prod_cases3)
  obtain p s2 where 2: "ff_read_uint32 ff ''scan_target_port'' s1 = (p, s2)" by fastforce
  obtain r s3 where 3: "ff_read_uint32 ff ''scan_range_port'' s2 = (r, s3)" by fastforce
  obtain i s4 where 4: "ff_read_uint32 ff ''scan_protocols_index'' s3 = (i, s4)" by fastforce
  obtain o5 ip5 s5 where 5: "ff_read_hex ff ''scan_ip_ping'' (sp_ip_ping sp) s4 = (o5, ip5, s5)" by (rule prod_cases3)
  obtain o6 ip6 s6 where 6: "ff_read_hex ff ''scan_ip_start'' (sp_ip_start sp) s5 = (o6, ip6, s6)" by (rule prod_cases3)
  obtain w s7 where 7: "ff_read_uint32 ff ''scan_range_ip'' s6 = (w, s7)" by fastforce
  show ?thesis
    using ff_fillsD [OF fills 1] ff_fillsD [OF fills 5] ff_fillsD [OF fills 6] sp
    by (cases p; cases r; cases i; cases w)
      (simp_all add: load_scan_params_def scan_params_ok_def 1 2 3 4 5 6 7 Let_def)
qed

text \<open>The schema version of a file whose header is accepted.\<close>

definition header_version :: "'s flipper_format \<Rightarrow> 's \<Rightarrow> u32 ptr" where
  "header_version ff s =
     (let (opened, s) = ff_open_existing ff s in
      if \<not> opened then None
      else case fst (ff_read_header ff s) of
             None \<Rightarrow> None
           | Some (file_type, version) \<Rightarrow>
               if version \<in> {1, 2, 3} \<and> file_type = SETTINGS_FILETYPE then Some version else None)"

lemma settings_load_accepted:
  assumes bank: "honest_bank chip" and fills: "ff_fills ff" and a: "app_ok a" and v: "version \<in> {1, 2, 3}"
  shows "runs (do { (app, s) \<leftarrow> load_mac chip ff a s;
                    (app, s) \<leftarrow> load_network ff version app s;
                    let (sp, s) = load_scan_params ff (app_scan_params app) s;
                    Some (app\<lparr> app_scan_params := sp \<rparr>, s) })
           (\<lambda>(a', s'). app_ok a' \<and> network_checked a' \<and> (app_is_dora a' \<longrightarrow> version = 3))"
proof -
  obtain a1 s1 where 1: "load_mac chip ff a s = Some (a1, s1)" "app_ok a1"
    using load_mac_runs [OF bank fills a, of s] by (auto simp: runs_iff)
  obtain a2 s2 where 2: "load_network ff version a1 s1 = Some (a2, s2)" "app_ok a2" "network_checked a2"
    "app_is_dora a2 \<Longrightarrow> 3 \<le> version"
    using load_network_runs [OF fills 1(2), of version s1] by (auto simp: runs_iff)
  have "scan_params_ok (app_scan_params a2)" using 2(2) by (simp add: app_ok_def scan_params_ok_def)
  from load_scan_params_ok [OF fills this] obtain sp s3
    where 3: "load_scan_params ff (app_scan_params a2) s2 = (sp, s3)" "scan_params_ok sp"
    by (metis fst_conv prod.collapse)
  have "app_is_dora a2 \<Longrightarrow> version = 3" using 2(4) v by (auto simp: word_le_nat_alt)
  then show ?thesis using 1(1) 2 3 by (simp add: app_ok_def scan_params_ok_def network_checked_def)
qed

section \<open>Loading what was saved\<close>

text \<open>Reading the entries in the order in which they were written.\<close>

fun ff_delivers :: "'s flipper_format \<Rightarrow> 's \<Rightarrow> settings_entry list \<Rightarrow> bool" where
  "ff_delivers ff s [] = True"
| "ff_delivers ff s (HexEntry key v # rest) =
     (\<forall>b. length b = length v \<longrightarrow> (\<exists>s'. ff_read_hex ff key b s = (True, v, s') \<and> ff_delivers ff s' rest))"
| "ff_delivers ff s (BoolEntry key v # rest) =
     (\<exists>s'. ff_read_bool ff key s = (Some v, s') \<and> ff_delivers ff s' rest)"
| "ff_delivers ff s (Uint32Entry key v # rest) =
     (\<exists>s'. ff_read_uint32 ff key s = (Some v, s') \<and> ff_delivers ff s' rest)"

text \<open>The service keeps a file whose writes have all succeeded.\<close>

definition ff_stores :: "'s flipper_format \<Rightarrow> bool" where
  "ff_stores ff \<longleftrightarrow>
     (\<forall>s s1 s2 s3 file_type version entries.
        ff_open_always ff s = (True, s1) \<and> ff_write_header ff file_type version s1 = (True, s2) \<and>
        ff_write_all ff entries s2 = (True, s3) \<longrightarrow>
        (\<exists>t1 t2. ff_open_existing ff s3 = (True, t1) \<and> ff_read_header ff t1 = (Some (file_type, version), t2) \<and>
                 ff_delivers ff t2 entries))"

lemma delivers_hex:
  "ff_delivers ff s (HexEntry key v # rest) \<Longrightarrow> length b = length v \<Longrightarrow>
     (\<And>s'. ff_read_hex ff key b s = (True, v, s') \<Longrightarrow> ff_delivers ff s' rest \<Longrightarrow> P) \<Longrightarrow> P"
  by auto

lemma settings_save_writes:
  assumes "app_ok a" "settings_save ff a s = Some (True, s')"
  defines "valid \<equiv> app_is_dora a \<and> dora_tuple_ok (enc_ip_address (app_ethernet a)) (app_subnet_mask a)
                      (app_ip_gateway a) (app_mac_gateway a)"
  shows "\<exists>s1 s2. ff_open_always ff s = (True, s1) \<and>
           ff_write_header ff SETTINGS_FILETYPE SETTINGS_VERSION s1 = (True, s2) \<and>
           ff_write_all ff (settings_entries a valid) s2 = (True, s')"
proof -
  have valid: "(if app_is_dora a then settings_dora_tuple_is_valid (enc_ip_address (app_ethernet a)) (app_subnet_mask a)
      (app_ip_gateway a) (app_mac_gateway a) else Some False) = Some valid"
    using assms(1) by (simp add: app_ok_def settings_dora_tuple_is_valid_eq valid_def)
  show ?thesis
    using assms(2) by (auto simp: settings_save_def valid Let_def split: prod.splits if_splits)
qed

definition dora_valid :: "settings_app \<Rightarrow> bool" where
  "dora_valid a \<longleftrightarrow> app_is_dora a \<and> dora_tuple_ok (enc_ip_address (app_ethernet a)) (app_subnet_mask a)
                      (app_ip_gateway a) (app_mac_gateway a)"

lemma load_network_stored:
  assumes a: "app_ok a" and d: "ff_delivers ff s (
     HexEntry ''ip_address'' (enc_ip_address (app_ethernet a)) #
     BoolEntry ''is_static_ip'' (app_is_static_ip a) # BoolEntry ''is_dora'' (dora_valid a) #
     HexEntry ''ip_gateway'' (app_ip_gateway a) # HexEntry ''mac_gateway'' (app_mac_gateway a) #
     HexEntry ''subnet_mask'' (app_subnet_mask a) # rest)"
  shows "\<exists>s'. load_network ff 3 b s = Some (b\<lparr>
            app_ethernet := app_ethernet b\<lparr> enc_ip_address := enc_ip_address (app_ethernet a) \<rparr>,
            app_ip_helper := enc_ip_address (app_ethernet a), app_is_static_ip := app_is_static_ip a,
            app_is_dora := dora_valid a,
            app_subnet_mask := (if dora_valid a then app_subnet_mask a else replicate 4 0),
            app_ip_gateway := (if dora_valid a then app_ip_gateway a else replicate 4 0),
            app_mac_gateway := (if dora_valid a then app_mac_gateway a else replicate 6 0) \<rparr>, s') \<and>
          ff_delivers ff s' rest"
proof -
  have len: "length (enc_ip_address (app_ethernet a)) = 4" "length (app_ip_gateway a) = 4"
    "length (app_mac_gateway a) = 6" "length (app_subnet_mask a) = 4"
    using a by (simp_all add: app_ok_def)
  obtain s1 where 1: "ff_read_hex ff ''ip_address'' (replicate 4 0) s = (True, enc_ip_address (app_ethernet a), s1)"
    "ff_delivers ff s1 (BoolEntry ''is_static_ip'' (app_is_static_ip a) # BoolEntry ''is_dora'' (dora_valid a) #
     HexEntry ''ip_gateway'' (app_ip_gateway a) # HexEntry ''mac_gateway'' (app_mac_gateway a) #
     HexEntry ''subnet_mask'' (app_subnet_mask a) # rest)"
    by (rule delivers_hex [OF d, of "replicate 4 0"]) (use len in auto)
  then obtain s2 s3 where 2: "ff_read_bool ff ''is_static_ip'' s1 = (Some (app_is_static_ip a), s2)"
      "ff_read_bool ff ''is_dora'' s2 = (Some (dora_valid a), s3)"
    and d3: "ff_delivers ff s3 (HexEntry ''ip_gateway'' (app_ip_gateway a) #
       HexEntry ''mac_gateway'' (app_mac_gateway a) # HexEntry ''subnet_mask'' (app_subnet_mask a) # rest)"
    by (auto simp del: ff_delivers.simps(2))
  obtain s4 where 4: "ff_read_hex ff ''ip_gateway'' (replicate 4 0) s3 = (True, app_ip_gateway a, s4)"
    and d4: "ff_delivers ff s4 (HexEntry ''mac_gateway'' (app_mac_gateway a) #
       HexEntry ''subnet_mask'' (app_subnet_mask a) # rest)"
    by (rule delivers_hex [OF d3, of "replicate 4 0"]) (use len in auto)
  obtain s5 where 5: "ff_read_hex ff ''mac_gateway'' (replicate 6 0) s4 = (True, app_mac_gateway a, s5)"
    and d5: "ff_delivers ff s5 (HexEntry ''subnet_mask'' (app_subnet_mask a) # rest)"
    by (rule delivers_hex [OF d4, of "replicate 6 0"]) (use len in auto)
  obtain s6 where 6: "ff_read_hex ff ''subnet_mask'' (replicate 4 0) s5 = (True, app_subnet_mask a, s6)"
    and d6: "ff_delivers ff s6 rest"
    by (rule delivers_hex [OF d5, of "replicate 4 0"]) (use len in auto)
  show ?thesis
    using d6 len
    by (auto simp: load_network_def load_ip_def 1(1) 2 4 5 6 settings_dora_tuple_is_valid_eq dora_valid_def)
qed

lemma load_scan_params_stored:
  assumes a: "app_ok a" and b: "scan_params_ok b" and d: "ff_delivers ff s (drop 7 (settings_entries a v))"
  shows "fst (load_scan_params ff b s) = app_scan_params a"
proof -
  let ?p = "app_scan_params a"
  have len: "length (sp_target_ip b) = length (sp_target_ip ?p)" "length (sp_ip_ping b) = length (sp_ip_ping ?p)"
    "length (sp_ip_start b) = length (sp_ip_start ?p)"
    using a b by (simp_all add: app_ok_def scan_params_ok_def)
  have narrow: "ucast (ucast (x :: u16) :: u32) = x" "ucast (ucast (y :: u8) :: u32) = y" for x y
    by (rule bit_word_eqI; auto simp: bit_simps dest: bit_imp_le_length)+
  have "ff_delivers ff s (HexEntry ''scan_target_ip'' (sp_target_ip ?p) #
      Uint32Entry ''scan_target_port'' (ucast (sp_target_port ?p)) #
      Uint32Entry ''scan_range_port'' (ucast (sp_range_port ?p)) #
      Uint32Entry ''scan_protocols_index'' (ucast (sp_protocols_index ?p)) #
      HexEntry ''scan_ip_ping'' (sp_ip_ping ?p) # HexEntry ''scan_ip_start'' (sp_ip_start ?p) #
      [Uint32Entry ''scan_range_ip'' (ucast (sp_range_ip ?p))])"
    using d by (simp only: settings_entries_def drop_Cons_numeral drop_0 diff_numeral_simps) (simp add: numeral_eq_Suc)
  from delivers_hex [OF this len(1)] obtain s1
    where 1: "ff_read_hex ff ''scan_target_ip'' (sp_target_ip b) s = (True, sp_target_ip ?p, s1)"
      and d1: "ff_delivers ff s1 (Uint32Entry ''scan_target_port'' (ucast (sp_target_port ?p)) #
      Uint32Entry ''scan_range_port'' (ucast (sp_range_port ?p)) #
      Uint32Entry ''scan_protocols_index'' (ucast (sp_protocols_index ?p)) #
      HexEntry ''scan_ip_ping'' (sp_ip_ping ?p) # HexEntry ''scan_ip_start'' (sp_ip_start ?p) #
      [Uint32Entry ''scan_range_ip'' (ucast (sp_range_ip ?p))])" by blast
  then obtain s2 s3 s4 where 2: "ff_read_uint32 ff ''scan_target_port'' s1 = (Some (ucast (sp_target_port ?p)), s2)"
      "ff_read_uint32 ff ''scan_range_port'' s2 = (Some (ucast (sp_range_port ?p)), s3)"
      "ff_read_uint32 ff ''scan_protocols_index'' s3 = (Some (ucast (sp_protocols_index ?p)), s4)"
    and d4: "ff_delivers ff s4 (HexEntry ''scan_ip_ping'' (sp_ip_ping ?p) #
      HexEntry ''scan_ip_start'' (sp_ip_start ?p) # [Uint32Entry ''scan_range_ip'' (ucast (sp_range_ip ?p))])"
    by (auto simp del: ff_delivers.simps(2))
  from delivers_hex [OF d4 len(2)] obtain s5
    where 5: "ff_read_hex ff ''scan_ip_ping'' (sp_ip_ping b) s4 = (True, sp_ip_ping ?p, s5)"
      and d5: "ff_delivers ff s5 (HexEntry ''scan_ip_start'' (sp_ip_start ?p) #
        [Uint32Entry ''scan_range_ip'' (ucast (sp_range_ip ?p))])" by blast
  from delivers_hex [OF d5 len(3)] obtain s6
    where 6: "ff_read_hex ff ''scan_ip_start'' (sp_ip_start b) s5 = (True, sp_ip_start ?p, s6)"
      and d6: "ff_delivers ff s6 [Uint32Entry ''scan_range_ip'' (ucast (sp_range_ip ?p))]" by blast
  then obtain s7 where 7: "ff_read_uint32 ff ''scan_range_ip'' s6 = (Some (ucast (sp_range_ip ?p)), s7)" by auto
  show ?thesis by (simp add: load_scan_params_def 1 2 5 6 7 Let_def narrow)
qed

section \<open>Properties\<close>

text \<open>
  C29. Whatever the settings file holds, loading is memory safe, drives the controller correctly and
  leaves well-formed fields. A file without an accepted header (type, version 1 to 3) changes
  nothing. Otherwise the network is one that was checked (an address, a contiguous subnet mask, a
  gateway and a unicast hardware address), flagged as acquired and taken from a version 3 file, or
  there is none: the flag is off and mask, gateway and gateway hardware address are zero.
\<close>

theorem settings_load_checked:
  assumes "honest_bank chip" "ff_fills ff" "app_ok a"
  shows "runs (settings_load chip ff a s)
           (\<lambda>(a', s'). app_ok a' \<and>
              (case header_version ff s of
                 None \<Rightarrow> a' = a
               | Some version \<Rightarrow> network_checked a' \<and> (app_is_dora a' \<longrightarrow> version = 3)))"
proof -
  obtain opened s1 where 1: "ff_open_existing ff s = (opened, s1)" by fastforce
  obtain header s2 where 2: "ff_read_header ff s1 = (header, s2)" by fastforce
  consider (refused) "header_version ff s = None" "settings_load chip ff a s = Some (a, s1) \<or>
      settings_load chip ff a s = Some (a, s2)"
    | (accepted) version where "version \<in> {1, 2, 3}" "header_version ff s = Some version"
      "settings_load chip ff a s =
         do { (app, s) \<leftarrow> load_mac chip ff a s2;
              (app, s) \<leftarrow> load_network ff version app s;
              let (sp, s) = load_scan_params ff (app_scan_params app) s;
              Some (app\<lparr> app_scan_params := sp \<rparr>, s) }"
    by (cases opened; cases header)
      (force simp: settings_load_def header_version_def 1 2 split: if_splits)+
  then show ?thesis
  proof cases
    case refused
    then show ?thesis using assms(3) by auto
  next
    case accepted
    then show ?thesis
      using settings_load_accepted [OF assms accepted(1), of s2] by (auto elim: runs_mono)
  qed
qed

text \<open>
  C30. What was written completely is read back. Saving the settings of one session and loading them
  in another gives the addresses, the flags and the scan parameters of the first, whatever the second
  held; the network tuple comes back when it was acquired and valid, and is cleared otherwise.
\<close>

theorem settings_roundtrip:
  assumes "honest_bank chip" "ff_stores ff" "app_ok a" "app_ok b" "settings_save ff a s = Some (True, s')"
  shows "runs (settings_load chip ff b s')
           (\<lambda>(c, _). enc_mac_address (app_ethernet c) = enc_mac_address (app_ethernet a) \<and>
              enc_ip_address (app_ethernet c) = enc_ip_address (app_ethernet a) \<and>
              app_is_static_ip c = app_is_static_ip a \<and> app_scan_params c = app_scan_params a \<and>
              app_is_dora c = dora_valid a \<and>
              app_subnet_mask c = (if dora_valid a then app_subnet_mask a else replicate 4 0) \<and>
              app_ip_gateway c = (if dora_valid a then app_ip_gateway a else replicate 4 0) \<and>
              app_mac_gateway c = (if dora_valid a then app_mac_gateway a else replicate 6 0))"
proof -
  let ?es = "settings_entries a (dora_valid a)"
  obtain s1 s2 where "ff_open_always ff s = (True, s1)" "ff_write_header ff SETTINGS_FILETYPE SETTINGS_VERSION s1 = (True, s2)"
    "ff_write_all ff ?es s2 = (True, s')"
    using settings_save_writes [OF assms(3,5)] by (auto simp: dora_valid_def)
  with assms(2) obtain t1 t2 where open': "ff_open_existing ff s' = (True, t1)"
      "ff_read_header ff t1 = (Some (SETTINGS_FILETYPE, SETTINGS_VERSION), t2)"
    and d: "ff_delivers ff t2 ?es"
    unfolding ff_stores_def by blast
  have mac_len: "length (enc_mac_address (app_ethernet a)) = 6" using assms(3) by (simp add: app_ok_def driver_idle_def)
  obtain t3 where mac: "ff_read_hex ff ''mac_address'' (replicate 6 0) t2 = (True, enc_mac_address (app_ethernet a), t3)"
    and d3: "ff_delivers ff t3 (drop 1 ?es)"
    by (rule delivers_hex [OF d [unfolded settings_entries_def], of "replicate 6 0"])
      (use mac_len in \<open>auto simp: settings_entries_def simp del: ff_delivers.simps\<close>)
  let ?d = "app_ethernet b\<lparr> enc_mac_address := enc_mac_address (app_ethernet a) \<rparr>"
  have "driver_idle ?d" using assms(4) mac_len by (simp add: app_ok_def driver_idle_def)
  from set_mac_keeps [OF assms(1) this] obtain e where
    e: "enc28j60_set_mac chip ?d = Some e" "enc_mac_address e = enc_mac_address (app_ethernet a)"
    by (auto simp: runs_iff)
  let ?b = "b\<lparr> app_ethernet := e \<rparr>"
  have rest: "drop 1 ?es = HexEntry ''ip_address'' (enc_ip_address (app_ethernet a)) #
     BoolEntry ''is_static_ip'' (app_is_static_ip a) # BoolEntry ''is_dora'' (dora_valid a) #
     HexEntry ''ip_gateway'' (app_ip_gateway a) # HexEntry ''mac_gateway'' (app_mac_gateway a) #
     HexEntry ''subnet_mask'' (app_subnet_mask a) # drop 7 ?es"
    by (simp add: settings_entries_def)
  from load_network_stored [OF assms(3) d3 [unfolded rest], of ?b] obtain c t4
    where c: "load_network ff 3 ?b t3 = Some (c, t4)" "ff_delivers ff t4 (drop 7 ?es)"
      "c = ?b\<lparr> app_ethernet := e\<lparr> enc_ip_address := enc_ip_address (app_ethernet a) \<rparr>,
            app_ip_helper := enc_ip_address (app_ethernet a), app_is_static_ip := app_is_static_ip a,
            app_is_dora := dora_valid a,
            app_subnet_mask := (if dora_valid a then app_subnet_mask a else replicate 4 0),
            app_ip_gateway := (if dora_valid a then app_ip_gateway a else replicate 4 0),
            app_mac_gateway := (if dora_valid a then app_mac_gateway a else replicate 6 0) \<rparr>"
    by auto
  have "scan_params_ok (app_scan_params c)" using assms(4) by (simp add: c(3) app_ok_def scan_params_ok_def)
  from load_scan_params_stored [OF assms(3) this c(2)] obtain t5
    where sp: "load_scan_params ff (app_scan_params c) t4 = (app_scan_params a, t5)" by (metis prod.collapse)
  have "settings_load chip ff b s' = Some (c\<lparr> app_scan_params := app_scan_params a \<rparr>, t5)"
    by (simp add: settings_load_def open' SETTINGS_VERSION_def load_mac_def mac e(1) c(1) sp)
  then show ?thesis using e(2) by (simp add: c(3))
qed

section \<open>A service that keeps files\<close>

text \<open>The header, the entries of the file, and those behind the read position.\<close>

type_synonym example_file = "(string \<times> u32) ptr \<times> settings_entry list \<times> settings_entry list"

fun entry_key :: "settings_entry \<Rightarrow> string" where
  "entry_key (HexEntry k v) = k"
| "entry_key (BoolEntry k b) = k"
| "entry_key (Uint32Entry k w) = k"

definition example_format :: "example_file flipper_format" where
  "example_format =
     \<lparr> ff_open_existing = (\<lambda>(h, c, r). (True, (h, c, c))),
       ff_read_header = (\<lambda>(h, c, r). (h, (h, c, r))),
       ff_read_hex = (\<lambda>key b (h, c, r).
          case dropWhile (\<lambda>e. entry_key e \<noteq> key) r of
            HexEntry k v # rest \<Rightarrow> if length v = length b then (True, v, (h, c, rest)) else (False, b, (h, c, rest))
          | _ \<Rightarrow> (False, b, (h, c, []))),
       ff_read_bool = (\<lambda>key (h, c, r).
          case dropWhile (\<lambda>e. entry_key e \<noteq> key) r of
            BoolEntry k v # rest \<Rightarrow> (Some v, (h, c, rest)) | _ \<Rightarrow> (None, (h, c, []))),
       ff_read_uint32 = (\<lambda>key (h, c, r).
          case dropWhile (\<lambda>e. entry_key e \<noteq> key) r of
            Uint32Entry k v # rest \<Rightarrow> (Some v, (h, c, rest)) | _ \<Rightarrow> (None, (h, c, []))),
       ff_open_always = (\<lambda>_. (True, (None, [], []))),
       ff_write_header = (\<lambda>file_type version (h, c, r). (True, (Some (file_type, version), c, r))),
       ff_write_hex = (\<lambda>key v (h, c, r). (True, (h, c @ [HexEntry key v], r))),
       ff_write_bool = (\<lambda>key v (h, c, r). (True, (h, c @ [BoolEntry key v], r))),
       ff_write_uint32 = (\<lambda>key v (h, c, r). (True, (h, c @ [Uint32Entry key v], r))) \<rparr>"

lemma example_format_fills: "ff_fills example_format"
  by (auto simp: ff_fills_def example_format_def split: list.splits settings_entry.splits)

lemma example_format_write: "ff_write_all example_format es (h, c, r) = (True, (h, c @ es, r))"
proof (induction es arbitrary: c)
  case (Cons e es)
  then show ?case by (cases e) (simp_all add: example_format_def)
qed simp

lemma example_format_delivers: "ff_delivers example_format (h, c, es) es"
proof (induction es)
  case (Cons e es)
  then show ?case by (cases e) (simp_all add: example_format_def)
qed simp

lemma example_format_stores: "ff_stores example_format"
proof -
  have "ff_open_always example_format s = (True, (None, [], []))"
    "ff_write_header example_format ft v (None, [], []) = (True, (Some (ft, v), [], []))"
    "ff_open_existing example_format (h, c, r) = (True, (h, c, c))"
    "ff_read_header example_format (h, c, r) = (h, (h, c, r))" for s ft v h c r
    by (simp_all add: example_format_def)
  then show ?thesis
    unfolding ff_stores_def by (auto simp: example_format_write example_format_delivers)
qed

definition example_app :: settings_app where
  "example_app =
     \<lparr> app_ethernet = example_driver\<lparr> enc_ip_address := [192, 168, 0, 7] \<rparr>,
       app_subnet_mask = [255, 255, 255, 0], app_ip_helper = [0, 0, 0, 0], app_is_static_ip = True,
       app_is_dora = True, app_ip_gateway = [192, 168, 0, 1], app_mac_gateway = [2, 0, 0, 0, 0, 1],
       app_scan_params = \<lparr> sp_target_ip = [192, 168, 0, 9], sp_target_port = 80, sp_range_port = 10,
         sp_protocols_index = 0, sp_ip_ping = [192, 168, 0, 1], sp_ip_start = [192, 168, 0, 0], sp_range_ip = 20 \<rparr> \<rparr>"

lemma example_app_ok: "app_ok example_app"
  using example_driver_ok by (simp add: app_ok_def example_app_def driver_idle_def)

lemma example_app_dora: "dora_valid example_app"
proof -
  have "be32 255 255 255 0 = (NOT (mask 8) :: u32)" by (simp add: be32_def mask_eq_exp_minus_1)
  then have "subnet_mask_ok [255, 255, 255, 0]"
    unfolding subnet_mask_ok_def by - (rule exI [of _ "8 :: nat"], simp)
  moreover have "replicate 4 x = [x, x, x, x]" "replicate 6 x = [x, x, x, x, x, x]" for x :: u8
    by (simp_all add: numeral_eq_Suc)
  ultimately show ?thesis by (simp add: dora_valid_def dora_tuple_ok_def mac_ok_def example_app_def)
qed

lemma settings_load_checked_witness:
  "\<exists>a s. settings_load example_chip example_format example_app
           (Some (SETTINGS_FILETYPE, 2), [], [BoolEntry ''is_dora'' True]) = Some (a, s) \<and>
         app_subnet_mask a = [0, 0, 0, 0]"
proof -
  have "header_version example_format (Some (SETTINGS_FILETYPE, 2), [], [BoolEntry ''is_dora'' True]) = Some 2"
    by (simp add: header_version_def example_format_def)
  with settings_load_checked [OF example_chip_ok(1) example_format_fills example_app_ok,
      of "(Some (SETTINGS_FILETYPE, 2), [], [BoolEntry ''is_dora'' True])"]
  show ?thesis by (auto simp: runs_iff network_checked_def numeral_eq_Suc)
qed

lemma settings_roundtrip_witness:
  "\<exists>s s' c t. settings_save example_format example_app s = Some (True, s') \<and>
     settings_load example_chip example_format
       (example_app\<lparr> app_is_dora := False, app_ip_gateway := [0, 0, 0, 0] \<rparr>) s' = Some (c, t) \<and>
     app_is_dora c \<and> app_ip_gateway c = [192, 168, 0, 1]"
proof -
  let ?b = "example_app\<lparr> app_is_dora := False, app_ip_gateway := [0, 0, 0, 0] \<rparr>"
  have "app_ok ?b" using example_app_ok by (simp add: app_ok_def)
  moreover obtain s' where s: "settings_save example_format example_app (None, [], []) = Some (True, s')"
  proof -
    have "\<exists>s'. settings_save example_format example_app (None, [], []) = Some (True, s')"
      using example_app_ok
      by (auto simp: settings_save_def app_ok_def settings_dora_tuple_is_valid_eq example_format_write Let_def
          split: prod.splits) (auto simp: example_format_def)
    then show ?thesis using that by blast
  qed
  ultimately have "runs (settings_load example_chip example_format ?b s')
      (\<lambda>(c, _). app_is_dora c = dora_valid example_app \<and>
         app_ip_gateway c = (if dora_valid example_app then app_ip_gateway example_app else replicate 4 0))"
    by - (rule runs_mono [OF settings_roundtrip [OF example_chip_ok(1) example_format_stores example_app_ok _ s]], auto)
  then obtain c t where "settings_load example_chip example_format ?b s' = Some (c, t)"
    "app_is_dora c" "app_ip_gateway c = app_ip_gateway example_app"
    using example_app_dora by (auto simp: runs_iff)
  moreover have "app_ip_gateway example_app = [192, 168, 0, 1]" by (simp add: example_app_def)
  ultimately show ?thesis using s by metis
qed

end
