(* ===== verification/Arp_Module.thy ===== *)
theory Arp_Module
  imports Ethernet Enc28j60
begin

text \<open>
  \<open>modules/arp_module.c\<close>: the ARP frames the tool builds, the tests on those it receives, and the
  operations that talk to the controller. The file-level variables are a record. The network scan is in
  theory Arp_Scan, on top of the scanner session.
\<close>

section \<open>State and addresses\<close>

record arp_globals =
  ag_packet_rate :: u8
  ag_my_mac :: buf
  ag_my_ip :: buf
  ag_mac_dest :: buf
  ag_ip_src_requested :: buf
  ag_prev_time :: u32

definition arp_globals_init :: arp_globals where
  "arp_globals_init =
     \<lparr> ag_packet_rate = 120, ag_my_mac = replicate 6 0, ag_my_ip = replicate 4 0,
       ag_mac_dest = replicate 6 0, ag_ip_src_requested = replicate 4 0, ag_prev_time = 0 \<rparr>"

definition arp_set_my_mac_address :: "buf ptr \<Rightarrow> arp_globals \<Rightarrow> arp_globals option" where
  "arp_set_my_mac_address mac g =
     (case mac of
        None \<Rightarrow> Some g
      | Some m \<Rightarrow> do { m \<leftarrow> rd_bytes m 0 6; Some (g\<lparr> ag_my_mac := m \<rparr>) })"

definition arp_set_my_ip_address :: "buf ptr \<Rightarrow> arp_globals \<Rightarrow> arp_globals option" where
  "arp_set_my_ip_address ip g =
     (case ip of
        None \<Rightarrow> Some g
      | Some i \<Rightarrow> do { i \<leftarrow> rd_bytes i 0 4; Some (g\<lparr> ag_my_ip := i \<rparr>) })"

section \<open>Frames\<close>

text \<open>The attack frames; the result is the buffer and the length written through \<open>len\<close>.\<close>

definition set_arp_message_for_attack_all :: "buf \<Rightarrow> buf ptr \<Rightarrow> buf ptr \<Rightarrow> (buf \<times> u16) option" where
  "set_arp_message_for_attack_all buffer MAC ip_for_router =
     do { (_, b) \<leftarrow> with_off 0 (\<lambda>b. set_ethernet_header b MAC (Some MAC_BROADCAST) 0x806) buffer;
          (_, b) \<leftarrow> with_off ETHERNET_HEADER_LEN
             (\<lambda>b. arp_set_header b (Some MAC_SPOOF) (Some MAC_BROADCAST) ip_for_router (Some IP_BROADCAST) 2) b;
          Some (b, of_nat (ETHERNET_HEADER_LEN + ARP_LEN)) }"

definition arp_set_message_attack ::
  "buf \<Rightarrow> buf ptr \<Rightarrow> buf ptr \<Rightarrow> buf ptr \<Rightarrow> buf ptr \<Rightarrow> (buf \<times> u16) option" where
  "arp_set_message_attack buffer ip_src mac_src ip_dst mac_dst =
     do { (_, b) \<leftarrow> with_off 0 (\<lambda>b. set_ethernet_header b mac_src mac_dst 0x806) buffer;
          (_, b) \<leftarrow> with_off ETHERNET_HEADER_LEN
             (\<lambda>b. arp_set_header b (Some MAC_SPOOF) mac_dst ip_src ip_dst 2) b;
          Some (b, of_nat (ETHERNET_HEADER_LEN + ARP_LEN)) }"

text \<open>\<open>len\<close> is written only on success.\<close>

definition set_arp_request ::
  "arp_globals \<Rightarrow> buf ptr \<Rightarrow> u16 \<Rightarrow> buf ptr \<Rightarrow> (bool \<times> buf ptr \<times> u16) option" where
  "set_arp_request g buffer len target_ip =
     (case (buffer, target_ip) of
        (Some b, Some ip) \<Rightarrow>
          do { (ok, b) \<leftarrow> with_off 0 (\<lambda>b. set_ethernet_header b (Some (ag_my_mac g)) (Some MAC_BROADCAST) 0x0806) b;
               if \<not> ok then Some (False, Some b, len)
               else do { (ok, b) \<leftarrow> with_off ETHERNET_HEADER_LEN
                           (\<lambda>b. arp_set_header b (Some (ag_my_mac g)) (Some MAC_ZEROS) (Some (ag_my_ip g)) target_ip 1) b;
                         if \<not> ok then Some (False, Some b, len)
                         else Some (True, Some b, of_nat (ETHERNET_HEADER_LEN + ARP_LEN)) } }
      | _ \<Rightarrow> Some (False, buffer, len))"

definition set_arp_reply ::
  "arp_globals \<Rightarrow> buf ptr \<Rightarrow> buf \<Rightarrow> buf ptr \<Rightarrow> (bool \<times> buf ptr) option" where
  "set_arp_reply g buffer mac_dst target_ip =
     (case (buffer, target_ip) of
        (Some b, Some ip) \<Rightarrow>
          do { (_, b) \<leftarrow> with_off 0 (\<lambda>b. set_ethernet_header b (Some (ag_my_mac g)) (Some (ag_mac_dest g)) 0x0806) b;
               macs \<leftarrow> rd_bytes (ag_my_mac g) 0 6; ips \<leftarrow> rd_bytes (ag_my_ip g) 0 4;
               macd \<leftarrow> rd_bytes mac_dst 0 6; ipd \<leftarrow> rd_bytes ip 0 4;
               let arp_header = arp_zero\<lparr> arp_hardware_type := [0, 1], arp_protocol_type := [8, 0],
                      arp_hardware_length := 6, arp_protocol_length := 4, arp_operation_code := [0, 2],
                      arp_mac_source := macs, arp_ip_source := ips, arp_mac_destiny := macd, arp_ip_destiny := ipd \<rparr>;
               b \<leftarrow> wr_bytes b ETHERNET_HEADER_LEN (arp_to_bytes arp_header);
               Some (True, Some b) }
      | _ \<Rightarrow> Some (False, buffer))"

section \<open>Tests\<close>

definition is_the_ip :: "buf \<Rightarrow> buf \<Rightarrow> bool option" where
  "is_the_ip current_ip compare_ip =
     do { ip_get_it \<leftarrow> rd_be32 current_ip 0; ip_propused \<leftarrow> rd_be32 compare_ip 0;
          Some (ip_get_it = ip_propused) }"

definition arp_opcode :: "arp_header \<Rightarrow> u16 option" where
  "arp_opcode h = rd_be16 (arp_operation_code h) 0"

text \<open>The second result is the array \<open>target_mac\<close>.\<close>

definition get_arp_reply ::
  "arp_globals \<Rightarrow> buf \<Rightarrow> buf \<Rightarrow> buf ptr \<Rightarrow> u16 \<Rightarrow> (bool \<times> buf) option" where
  "get_arp_reply g target_ip target_mac buffer len =
     (if buffer = None \<or> unat len < ETHERNET_HEADER_LEN + ARP_LEN then Some (False, target_mac)
      else do { h \<leftarrow> arp_get_header buffer;
                opcode \<leftarrow> arp_opcode h;
                if opcode \<noteq> 2 then Some (False, target_mac)
                else do { mine \<leftarrow> is_the_ip (ag_my_ip g) (arp_ip_destiny h);
                          if \<not> mine then Some (False, target_mac)
                          else do { same \<leftarrow> is_the_ip target_ip (arp_ip_source h);
                                    if \<not> same then Some (False, target_mac)
                                    else do { m \<leftarrow> wr_bytes target_mac 0 (arp_mac_source h);
                                              Some (True, m) } } } })"

definition get_arp_requested ::
  "buf ptr \<Rightarrow> buf ptr \<Rightarrow> arp_globals \<Rightarrow> (bool \<times> arp_globals) option" where
  "get_arp_requested buffer dst_ip g =
     (case (buffer, dst_ip) of
        (Some b, Some ip) \<Rightarrow>
          do { a \<leftarrow> is_arp buffer;
               if \<not> a then Some (False, g)
               else do { h \<leftarrow> arp_get_header buffer;
                         opcode \<leftarrow> arp_opcode h;
                         if opcode \<noteq> 1 then Some (False, g)
                         else do { same \<leftarrow> is_the_ip ip (arp_ip_destiny h);
                                   if \<not> same then Some (False, g)
                                   else Some (True, g\<lparr> ag_mac_dest := arp_mac_source h,
                                                       ag_ip_src_requested := arp_ip_source h \<rparr>) } } }
      | _ \<Rightarrow> Some (False, g))"

text \<open>The context of the predicate: the address asked for and the array for its hardware address.\<close>

record arp_reply_match_ctx =
  am_target_ip :: buf
  am_target_mac :: buf

definition arp_reply_match_predicate ::
  "arp_globals \<Rightarrow> buf \<Rightarrow> u16 \<Rightarrow> arp_reply_match_ctx \<Rightarrow> (bool \<times> arp_reply_match_ctx) option" where
  "arp_reply_match_predicate g frame len c =
     do { (ok, m) \<leftarrow> get_arp_reply g (am_target_ip c) (am_target_mac c) (Some frame) len;
          Some (ok, c\<lparr> am_target_mac := m \<rparr>) }"

record arp_list =
  al_mac :: buf
  al_ip :: buf

text \<open>The count is a byte; the callers' lists have at most 255 entries, so it does not wrap.\<close>

fun count_ip :: "buf \<Rightarrow> arp_list list \<Rightarrow> nat list \<Rightarrow> u8 \<Rightarrow> u8 option" where
  "count_ip ip list [] count = Some count"
| "count_ip ip list (i # rest) count =
     (if i < length list
      then do { same \<leftarrow> is_the_ip (al_ip (list ! i)) ip; count_ip ip list rest (if same then count + 1 else count) }
      else None)"

definition is_duplicated_ip :: "buf \<Rightarrow> arp_list list \<Rightarrow> u8 \<Rightarrow> u8 option" where
  "is_duplicated_ip ip list total_list =
     do { count \<leftarrow> count_ip ip list [0..<unat total_list] 0;
          Some (if count = 0 then 0 else count - 1) }"

section \<open>Operations on the controller\<close>

definition send_arp_spoofing ::
  "chip \<Rightarrow> buf \<Rightarrow> u16 \<Rightarrow> arp_globals \<Rightarrow> enc28j60 \<Rightarrow> (arp_globals \<times> enc28j60) option" where
  "send_arp_spoofing chip buffer len g d =
     do { (now, d) \<leftarrow> get_tick chip d;
          if now > ag_prev_time g + 1000 div ucast (ag_packet_rate g)
          then do { d \<leftarrow> send_packet chip buffer len d;
                    (now, d) \<leftarrow> get_tick chip d;
                    Some (g\<lparr> ag_prev_time := now \<rparr>, d) }
          else Some (g, d) }"

definition send_arp_gratuitous :: "chip \<Rightarrow> buf \<Rightarrow> buf \<Rightarrow> enc28j60 \<Rightarrow> enc28j60 option" where
  "send_arp_gratuitous chip source_mac source_ip d =
     do { (_, b) \<leftarrow> with_off 0 (\<lambda>b. set_ethernet_header b (Some source_mac) (Some MAC_BROADCAST) 0x0806)
                      (replicate (ETHERNET_HEADER_LEN + ARP_LEN) 0);
          (_, b) \<leftarrow> with_off 14 (\<lambda>b. arp_set_header b (Some source_mac) (Some MAC_ZEROS) (Some source_ip) (Some source_ip) 1) b;
          send_packet chip b 42 d }"

definition arp_reply_requested ::
  "chip \<Rightarrow> buf ptr \<Rightarrow> buf ptr \<Rightarrow> arp_globals \<Rightarrow> enc28j60 \<Rightarrow> (bool \<times> arp_globals \<times> enc28j60) option" where
  "arp_reply_requested chip buffer dst_ip g d =
     (case (buffer, dst_ip) of
        (Some b, Some ip) \<Rightarrow>
          do { (asked, g) \<leftarrow> get_arp_requested buffer dst_ip g;
               if \<not> asked then Some (False, g, d)
               else do { m \<leftarrow> rd_bytes (enc_mac_address d) 0 6; i \<leftarrow> rd_bytes ip 0 4;
                         let g = g\<lparr> ag_my_mac := m, ag_my_ip := i \<rparr>;
                         (ok, reply) \<leftarrow> set_arp_reply g (Some (replicate (ETHERNET_HEADER_LEN + ARP_LEN) 0))
                                          (ag_mac_dest g) (Some (ag_ip_src_requested g));
                         (case reply of
                            None \<Rightarrow> None
                          | Some r \<Rightarrow>
                              if \<not> ok then Some (False, g, d)
                              else do { d \<leftarrow> send_packet chip r (of_nat (ETHERNET_HEADER_LEN + ARP_LEN)) d;
                                        Some (True, g, d) }) } }
      | _ \<Rightarrow> Some (False, g, d))"

text \<open>The receive loop of \<open>arp_get_specific_mac\<close>; it passes 1500 as the size of the 60 bytes it has.\<close>

partial_function (option) arp_poll ::
  "chip \<Rightarrow> arp_globals \<Rightarrow> buf \<Rightarrow> u32 \<Rightarrow> buf \<Rightarrow> buf \<Rightarrow> bool \<Rightarrow> enc28j60 \<Rightarrow> (bool \<times> buf \<times> buf \<times> enc28j60) option" where
  "arp_poll chip g target_ip last_time target_mac packet_receive ret d =
     do { (now, d) \<leftarrow> get_tick chip d;
          if \<not> (now - last_time < 2000 \<and> \<not> ret) then Some (ret, target_mac, packet_receive, d)
          else do { (len, packet_receive, d) \<leftarrow> receive_packet chip packet_receive 1500 d;
                    (ret, target_mac) \<leftarrow>
                      (if len \<noteq> 0
                       then do { a \<leftarrow> is_arp (Some packet_receive);
                                 if a then get_arp_reply g target_ip target_mac (Some packet_receive) len
                                 else Some (ret, target_mac) }
                       else Some (ret, target_mac));
                    arp_poll chip g target_ip last_time target_mac packet_receive ret d } }"

fun arp_attempts ::
  "nat \<Rightarrow> chip \<Rightarrow> arp_globals \<Rightarrow> buf \<Rightarrow> u16 \<Rightarrow> buf \<Rightarrow> buf \<Rightarrow> buf \<Rightarrow> enc28j60 \<Rightarrow> (bool \<times> buf \<times> enc28j60) option" where
  "arp_attempts 0 chip g packet_send packet_send_len target_ip target_mac packet_receive d =
     Some (False, target_mac, d)"
| "arp_attempts (Suc n) chip g packet_send packet_send_len target_ip target_mac packet_receive d =
     do { (last_time, d) \<leftarrow> get_tick chip d;
          d \<leftarrow> send_packet chip packet_send packet_send_len d;
          (ret, target_mac, packet_receive, d) \<leftarrow>
            arp_poll chip g target_ip last_time target_mac packet_receive False d;
          if ret then Some (True, target_mac, d)
          else arp_attempts n chip g packet_send packet_send_len target_ip target_mac packet_receive d }"

definition arp_get_specific_mac ::
  "chip \<Rightarrow> buf ptr \<Rightarrow> buf \<Rightarrow> buf ptr \<Rightarrow> buf \<Rightarrow> arp_globals \<Rightarrow> enc28j60 \<Rightarrow>
   (bool \<times> buf \<times> arp_globals \<times> enc28j60) option" where
  "arp_get_specific_mac chip sender_ip target_ip sender_mac target_mac g d =
     do { g \<leftarrow> arp_set_my_mac_address sender_mac g;
          g \<leftarrow> arp_set_my_ip_address sender_ip g;
          (_, send, len) \<leftarrow> set_arp_request g (Some (replicate 60 0)) 0 (Some target_ip);
          (case send of
             None \<Rightarrow> None
           | Some packet_send \<Rightarrow>
               do { (ret, target_mac, d) \<leftarrow>
                      arp_attempts 10 chip g packet_send len target_ip target_mac (replicate 60 0) d;
                    Some (ret, target_mac, g, d) }) }"

section \<open>What the builders lay down\<close>

definition arp_frame :: "buf \<Rightarrow> buf \<Rightarrow> arp_header \<Rightarrow> buf" where
  "arp_frame dst src h = dst @ src @ [8, 6] @ arp_to_bytes h"

definition arp_globals_ok :: "arp_globals \<Rightarrow> bool" where
  "arp_globals_ok g \<longleftrightarrow> length (ag_my_mac g) = 6 \<and> length (ag_my_ip g) = 4 \<and> length (ag_mac_dest g) = 6 \<and>
     length (ag_ip_src_requested g) = 4"

lemma length_arp_frame: "length dst = 6 \<Longrightarrow> length src = 6 \<Longrightarrow> wf_arp h \<Longrightarrow> length (arp_frame dst src h) = 42"
  by (simp add: arp_frame_def arp.length_enc)

lemma type_bytes: "hi8 0x806 = 8" "lo8 0x806 = 6"
  by (simp_all add: hi8_def lo8_def)

lemma put_ethernet:
  assumes "14 \<le> length b" "length src = 6" "length dst = 6"
  shows "with_off 0 (\<lambda>b. set_ethernet_header b (Some src) (Some dst) 0x806) b =
           Some (True, (dst @ src @ [8, 6]) @ drop 14 b)"
  using assms by (simp add: with_off_def set_ethernet_header_eq type_bytes)

lemma put_arp:
  assumes "length p = 14" "28 \<le> length r" "length ms = 6" "length md = 6" "length sip = 4" "length dip = 4"
  shows "with_off 14 (\<lambda>b. arp_set_header b (Some ms) (Some md) (Some sip) (Some dip) opcode) (p @ r) =
           Some (True, p @ arp_to_bytes (arp_fields ms md sip dip opcode) @ drop 28 r)"
  using assms by (intro with_off_at arp_set_header_eq) simp_all

lemma length_constants [simp]: "length MAC_BROADCAST = 6" "length MAC_ZEROS = 6" "length MAC_SPOOF = 6" "length IP_BROADCAST = 4"
  by (simp_all add: MAC_BROADCAST_def MAC_ZEROS_def MAC_SPOOF_def IP_BROADCAST_def)

lemma set_arp_request_eq [layout_simps]:
  assumes "arp_globals_ok g" "42 \<le> length b" "length ip = 4"
  shows "set_arp_request g (Some b) len (Some ip) =
           Some (True, Some (arp_frame MAC_BROADCAST (ag_my_mac g)
                   (arp_fields (ag_my_mac g) MAC_ZEROS (ag_my_ip g) ip 1) @ drop 42 b), 42)"
  using assms
  by (simp add: set_arp_request_def arp_globals_ok_def put_ethernet put_arp arp_frame_def del: append_assoc)

lemma set_arp_reply_eq [layout_simps]:
  assumes "arp_globals_ok g" "length b = 42" "length m = 6" "length ip = 4"
  shows "set_arp_reply g (Some b) m (Some ip) =
           Some (True, Some (arp_frame (ag_mac_dest g) (ag_my_mac g)
                   (arp_fields (ag_my_mac g) m (ag_my_ip g) ip 2)))"
proof -
  let ?h = "arp_fields (ag_my_mac g) m (ag_my_ip g) ip 2"
  have wf: "wf_arp ?h" using assms by (intro wf_arp_fields) (simp_all add: arp_globals_ok_def)
  have h: "arp_zero\<lparr> arp_hardware_type := [0, 1], arp_protocol_type := [8, 0], arp_hardware_length := 6,
      arp_protocol_length := 4, arp_operation_code := [0, 2], arp_mac_source := ag_my_mac g,
      arp_ip_source := ag_my_ip g, arp_mac_destiny := m, arp_ip_destiny := ip \<rparr> = ?h"
    using assms by (simp add: arp_zero_def arp_fields_def arp_globals_ok_def hi8_def lo8_def)
  show ?thesis
    using assms arp.length_enc [OF wf]
    by (simp add: set_arp_reply_def put_ethernet arp_globals_ok_def rd_bytes_def h wr_bytes_def arp_frame_def)
qed

lemma arp_frame_header:
  "length dst = 6 \<Longrightarrow> length src = 6 \<Longrightarrow> wf_arp h \<Longrightarrow> arp_get_header (Some (arp_frame dst src h @ r)) = Some h"
  using arp.load_stored [of h "dst @ src @ [8, 6]" 14 r] by (simp add: arp_get_header_def arp_frame_def)

lemma arp_frame_is_arp:
  "length dst = 6 \<Longrightarrow> length src = 6 \<Longrightarrow> is_arp (Some (arp_frame dst src h @ r)) = Some True"
proof -
  assume "length dst = 6" "length src = 6"
  then have "(dst @ src @ [8, 6] @ s) ! 12 = 8" "(dst @ src @ [8, 6] @ s) ! 13 = 6" for s :: buf
    by (simp_all add: nth_append)
  moreover have "be16 8 6 = 0x806" by (simp add: be16_def)
  ultimately show ?thesis by (simp add: is_arp_in arp_frame_def \<open>length dst = 6\<close> \<open>length src = 6\<close>)
qed

section \<open>What the tests decide\<close>

lemma be32_eq_iff: "be32 a b c d = be32 a' b' c' d' \<longleftrightarrow> a = a' \<and> b = b' \<and> c = c' \<and> d = d'"
proof -
  have "byte32 3 (be32 a b c d) = a" "byte32 2 (be32 a b c d) = b" "byte32 1 (be32 a b c d) = c"
    "byte32 0 (be32 a b c d) = d" for a b c d
    by (rule bit_word_eqI; auto simp: byte32_def be32_def bit_simps dest: bit_imp_le_length)+
  then show ?thesis by metis
qed

lemma is_the_ip_eq:
  assumes "length a = 4" "length b = 4"
  shows "is_the_ip a b = Some (a = b)"
proof -
  obtain a0 a1 a2 a3 b0 b1 b2 b3 where "a = [a0, a1, a2, a3]" "b = [b0, b1, b2, b3]"
    using assms by (auto simp: length_Suc_conv numeral_eq_Suc)
  then show ?thesis by (simp add: is_the_ip_def rd_be32_def rd_def be32_eq_iff)
qed

lemma arp_opcode_eq: "wf_arp h \<Longrightarrow> arp_opcode h = Some (be16 (arp_operation_code h ! 0) (arp_operation_code h ! 1))"
  by (simp add: arp_opcode_def wf_arp_def rd_be16_in)

lemma be16_small: "be16 h l = 1 \<longleftrightarrow> h = 0 \<and> l = 1" "be16 h l = 2 \<longleftrightarrow> h = 0 \<and> l = 2"
proof -
  have "be16 0 1 = 1" "be16 0 2 = 2" by (simp_all add: be16_def)
  then show "be16 h l = 1 \<longleftrightarrow> h = 0 \<and> l = 1" "be16 h l = 2 \<longleftrightarrow> h = 0 \<and> l = 2"
    by (metis be16_eq_iff)+
qed

text \<open>
  The bytes on which \<open>get_arp_reply\<close> accepts a frame. The type of the frame is not one of them, so a frame
  of another protocol with these bytes is accepted as well.
\<close>

definition arp_reply_accepted :: "arp_globals \<Rightarrow> buf \<Rightarrow> buf \<Rightarrow> u16 \<Rightarrow> bool" where
  "arp_reply_accepted g target_ip frame len \<longleftrightarrow>
     42 \<le> unat len \<and> take 2 (drop 20 frame) = [0, 2] \<and> take 4 (drop 38 frame) = ag_my_ip g \<and>
     take 4 (drop 28 frame) = target_ip"

lemma arp_reply_match_eq:
  assumes "arp_globals_ok g" "unat len \<le> length frame" "length (am_target_ip c) = 4" "length (am_target_mac c) = 6"
  shows "arp_reply_match_predicate g frame len c =
           Some (if arp_reply_accepted g (am_target_ip c) frame len
                 then (True, c\<lparr> am_target_mac := take 6 (drop 22 frame) \<rparr>) else (False, c))"
proof (cases "unat len < 42")
  case True
  then show ?thesis by (simp add: arp_reply_match_predicate_def get_arp_reply_def arp_reply_accepted_def)
next
  case False
  let ?b = "take 28 (drop 14 frame)"
  let ?h = "arp_of_bytes ?b"
  have l: "length ?b = 28" using False assms(2) by simp
  have wf: "wf_arp ?h" using arp.wf_dec [OF l] .
  have get: "arp_get_header (Some frame) = Some ?h"
    using False assms(2) by (simp add: arp_get_header_def arp.load_eq)
  have fields: "arp_operation_code ?h = take 2 (drop 20 frame)" "arp_mac_source ?h = take 6 (drop 22 frame)"
    "arp_ip_source ?h = take 4 (drop 28 frame)" "arp_ip_destiny ?h = take 4 (drop 38 frame)"
    by (simp_all add: arp_of_bytes_def drop_take min_def)
  have code: "take 2 (drop 20 frame) = [0, 2] \<longleftrightarrow>
      be16 (arp_operation_code ?h ! 0) (arp_operation_code ?h ! 1) = 2"
  proof -
    obtain x y where "arp_operation_code ?h = [x, y]"
      using wf by (auto simp: wf_arp_def length_Suc_conv numeral_2_eq_2)
    then show ?thesis using fields(1) by (simp add: be16_small)
  qed
  have ips: "is_the_ip (ag_my_ip g) (arp_ip_destiny ?h) = Some (ag_my_ip g = take 4 (drop 38 frame))"
    "is_the_ip (am_target_ip c) (arp_ip_source ?h) = Some (am_target_ip c = take 4 (drop 28 frame))"
    using assms wf by (simp_all add: is_the_ip_eq fields [symmetric] wf_arp_def arp_globals_ok_def)
  have mac: "wr_bytes (am_target_mac c) 0 (arp_mac_source ?h) = Some (take 6 (drop 22 frame))"
    using assms(4) wf by (simp add: wr_bytes_def wf_arp_def fields(2) [symmetric])
  show ?thesis
    using False code ips mac
    by (auto simp: arp_reply_match_predicate_def get_arp_reply_def arp_reply_accepted_def get arp_opcode_eq [OF wf])
qed

text \<open>A request for an address, heard by a host with address \<open>own\<close>.\<close>

lemma get_arp_requested_frame:
  assumes "length dst = 6" "length src = 6" "wf_arp h" "length own = 4"
  shows "get_arp_requested (Some (arp_frame dst src h)) (Some own) g =
           Some (if arp_operation_code h = [0, 1] \<and> arp_ip_destiny h = own
                 then (True, g\<lparr> ag_mac_dest := arp_mac_source h, ag_ip_src_requested := arp_ip_source h \<rparr>)
                 else (False, g))"
proof -
  have frame: "is_arp (Some (arp_frame dst src h)) = Some True"
    "arp_get_header (Some (arp_frame dst src h)) = Some h"
    using arp_frame_is_arp [OF assms(1,2), of h "[]"] arp_frame_header [OF assms(1-3), of "[]"] by simp_all
  obtain x y where "arp_operation_code h = [x, y]"
    using assms(3) by (auto simp: wf_arp_def length_Suc_conv numeral_2_eq_2)
  then show ?thesis
    using assms(3,4)
    by (auto simp: get_arp_requested_def frame arp_opcode_eq be16_small is_the_ip_eq wf_arp_def)
qed

section \<open>Properties\<close>

text \<open>
  C31. Address resolution works between two hosts that run this code. The request built for an address is
  answered by the host that has it and by no other; the answering host sends one frame, and the
  asking host's predicate accepts that frame and takes the answering controller's hardware
  address from it.
\<close>

theorem arp_exchange_resolves:
  assumes "honest_bank chip" "driver_idle d" "arp_globals_ok asking" "arp_globals_ok answering"
    and "length ip = 4" "length own = 4" "length mac = 6"
  shows "\<exists>request. set_arp_request asking (Some (replicate 42 0)) len (Some ip) = Some (True, Some request, 42) \<and>
           (own \<noteq> ip \<longrightarrow> arp_reply_requested chip (Some request) (Some own) answering d = Some (False, answering, d)) \<and>
           (own = ip \<longrightarrow> (\<exists>g' d' tr n reply.
              arp_reply_requested chip (Some request) (Some own) answering d = Some (True, g', d') \<and>
              driver_idle d' \<and> bus_trace d' = bus_trace d @ tr \<and>
              filter (\<lambda>t. \<not> plain t) tr = frame_load reply 42 @ replicate n transmit \<and>
              arp_reply_match_predicate asking reply 42 \<lparr> am_target_ip = ip, am_target_mac = mac \<rparr> =
                Some (True, \<lparr> am_target_ip = ip, am_target_mac = enc_mac_address d \<rparr>)))"
proof -
  let ?h = "arp_fields (ag_my_mac asking) MAC_ZEROS (ag_my_ip asking) ip 1"
  let ?request = "arp_frame MAC_BROADCAST (ag_my_mac asking) ?h"
  have asking: "length (ag_my_mac asking) = 6" "length (ag_my_ip asking) = 4"
    using assms(3) by (simp_all add: arp_globals_ok_def)
  have wf: "wf_arp ?h" using asking assms(5) by (intro wf_arp_fields) simp_all
  have h: "arp_operation_code ?h = [0, 1]" "arp_ip_destiny ?h = ip" "arp_mac_source ?h = ag_my_mac asking"
    "arp_ip_source ?h = ag_my_ip asking"
    using asking assms(5) by (simp_all add: arp_fields_def hi8_def lo8_def)
  have request: "set_arp_request asking (Some (replicate 42 0)) len (Some ip) = Some (True, Some ?request, 42)"
    by (simp add: set_arp_request_eq [OF assms(3) _ assms(5)])
  note heard = get_arp_requested_frame [OF length_constants(1) asking(1) wf assms(6), of answering, unfolded h]
  have own: "length (enc_mac_address d) = 6" using assms(2) by (simp add: driver_idle_def)
  let ?g = "answering\<lparr> ag_mac_dest := ag_my_mac asking, ag_ip_src_requested := ag_my_ip asking,
              ag_my_mac := enc_mac_address d, ag_my_ip := ip \<rparr>"
  let ?r = "arp_fields (enc_mac_address d) (ag_my_mac asking) ip (ag_my_ip asking) 2"
  let ?reply = "arp_frame (ag_my_mac asking) (enc_mac_address d) ?r"
  have g: "arp_globals_ok ?g" using assms(5) asking own by (simp add: arp_globals_ok_def)
  have wf': "wf_arp ?r" using asking assms(5) own by (intro wf_arp_fields) simp_all
  have len: "length ?reply = 42" by (rule length_arp_frame [OF asking(1) own wf'])
  have reply: "set_arp_reply ?g (Some (replicate 42 0)) (ag_my_mac asking) (Some (ag_my_ip asking)) = Some (True, Some ?reply)"
    using set_arp_reply_eq [OF g _ asking, of "replicate 42 0"] by simp
  obtain d' tr n where sent: "send_packet chip ?reply 42 d = Some d'" "driver_idle d'" "bus_trace d' = bus_trace d @ tr"
    "filter (\<lambda>t. \<not> plain t) tr = frame_load ?reply 42 @ replicate n transmit"
    using send_packet_runs [OF assms(1,2), of 42 ?reply] len by (auto simp: runs_iff)
  have bytes: "arp_to_bytes ?r = [0, 1, 8, 0, 6, 4, 0, 2] @ enc_mac_address d @ ip @ ag_my_mac asking @ ag_my_ip asking"
    using asking own assms(5) by (simp add: arp_to_bytes_def arp_fields_def hi8_def lo8_def)
  have "arp_reply_accepted asking ip ?reply 42" "take 6 (drop 22 ?reply) = enc_mac_address d"
    using asking own assms(5) by (simp_all add: arp_reply_accepted_def arp_frame_def bytes)
  then have matched: "arp_reply_match_predicate asking ?reply 42 \<lparr> am_target_ip = ip, am_target_mac = mac \<rparr> =
      Some (True, \<lparr> am_target_ip = ip, am_target_mac = enc_mac_address d \<rparr>)"
    using assms(3,5,7) len by (subst arp_reply_match_eq) simp_all
  have "own \<noteq> ip \<longrightarrow> arp_reply_requested chip (Some ?request) (Some own) answering d = Some (False, answering, d)"
    using heard by (auto simp: arp_reply_requested_def)
  moreover have "own = ip \<longrightarrow> arp_reply_requested chip (Some ?request) (Some own) answering d = Some (True, ?g, d')"
    using heard own assms(5) reply sent(1)
    by (auto simp: arp_reply_requested_def rd_bytes_def)
  ultimately show ?thesis using request sent matched by blast
qed

section \<open>The receive buffer of arp_get_specific_mac\<close>

text \<open>
  The controller holds a frame of more than \<open>n\<close> bytes without receive errors: a packet is pending, and
  the six bytes in front of it say so.
\<close>

definition long_frame_waits :: "chip \<Rightarrow> nat \<Rightarrow> bool" where
  "long_frame_waits chip n \<longleftrightarrow>
     (\<forall>tr. 0 < ch_answer chip tr 0x19 0 \<and>
        n < unat (be16 (ch_answer chip tr ENC28J60_READ_BUF_MEM 3) (ch_answer chip tr ENC28J60_READ_BUF_MEM 2) - 4) \<and>
        be16 (ch_answer chip tr ENC28J60_READ_BUF_MEM 5) (ch_answer chip tr ENC28J60_READ_BUF_MEM 4) AND 0x80 \<noteq> 0)"

lemma read_pending:
  assumes "honest_bank chip" "driver_ok d" "long_frame_waits chip n"
  shows "runs (read_register_byte chip EPKTCNT d) (\<lambda>(v, d'). 0 < v \<and> accesses d d')"
proof -
  have "runs (set_bank_with_mask chip EPKTCNT d) (\<lambda>d'. accesses d d' \<and> enc_bank d' = 1)"
    by (rule runs_set_bank [OF assms(1,2)]) (simp_all add: drop_bit_eq_div)
  then obtain d1 where d1: "set_bank_with_mask chip EPKTCNT d = Some d1" "accesses d d1" "enc_bank d1 = 1"
    by (auto simp: runs_iff)
  let ?v = "ch_answer chip (bus_trace d1) 0x19 0"
  have "runs (transfer (ReadOp ENC28J60_READ_CTRL_REG EPKTCNT ?v) d1) (accesses d1)"
    by (rule runs_plain_transfer [OF accesses_ok [OF d1(2)]]) (simp_all add: d1(3))
  then obtain d2 where "transfer (ReadOp ENC28J60_READ_CTRL_REG EPKTCNT ?v) d1 = Some d2" "accesses d1 d2"
    by (auto simp: runs_iff)
  moreover have "0 < ?v" using assms(3) by (simp add: long_frame_waits_def)
  ultimately show ?thesis
    using d1(1) accesses_trans [OF d1(2)] by (simp add: read_register_byte_def read_operation_def)
qed

lemma receive_packet_overruns:
  assumes h: "honest_bank chip" and d: "driver_idle d" and f: "long_frame_waits chip (length buffer)"
    and s: "length buffer + 1 < unat s"
  shows "receive_packet chip buffer s d = None"
proof -
  have l: "mutex_acquire d = Some (lock_on d)" "driver_ok (lock_on d)" using idle_locked [OF d] by simp_all
  from runs_release_packet [OF h l(2)] obtain d1 where d1: "release_packet chip (lock_on d) = Some d1"
    "driver_ok d1" using issues_ok by (auto simp: runs_iff)
  from read_pending [OF h d1(2) f] obtain v d2 where d2: "read_register_byte chip EPKTCNT d1 = Some (v, d2)"
    "0 < v" "driver_ok d2" using accesses_ok by (auto simp: runs_iff)
  have "runs (write_register chip ERDPT (enc_rx_next_packet d2) d2) (waits d2)"
    by (rule last_write_register [OF h waits_refl [OF d2(3)]]) simp_all
  then obtain d3 where d3: "write_register chip ERDPT (enc_rx_next_packet d2) d2 = Some d3" "driver_ok d3"
    using waits_ok by (auto simp: runs_iff)
  let ?a = "ch_answer chip (bus_trace d3) ENC28J60_READ_BUF_MEM"
  obtain d4 where d4: "transfer (ReadMem (map ?a [0..<6])) d3 = Some d4"
    using d3(2) by (auto simp: transfer_def driver_ok_def)
  have "[0..<6] = [0, 1, 2, 3, 4, 5 :: nat]" by (simp add: upt_rec)
  then have header: "read_buffer chip 6 (replicate 6 0) d3 = Some ([?a 0, ?a 1, ?a 2, ?a 3, ?a 4, ?a 5], d4)"
    using d4 by (simp add: read_buffer_def wr_bytes_def)
  let ?l = "be16 (?a 3) (?a 2) - 4"
  let ?n = "if int (unat ?l) > int (unat s) - 1 then of_int (int (unat s) - 1) else ?l"
  have frame: "length buffer < unat ?l" "be16 (?a 5) (?a 4) AND 0x80 \<noteq> 0"
    using f by (simp_all add: long_frame_waits_def)
  have "length buffer < unat ?n"
  proof (cases "int (unat ?l) > int (unat s) - 1")
    case True
    have "(of_int (int (unat s) - 1) :: u16) = of_nat (unat s - 1)" using s by (simp add: of_nat_diff)
    then have "unat (of_int (int (unat s) - 1) :: u16) = unat s - 1"
      using unat_u16_less [of s] by (simp only: unat_of_nat_u16)
    then show ?thesis using True s by simp
  qed (use frame(1) in simp)
  then have "read_buffer chip ?n buffer (d4\<lparr> enc_rx_next_packet := be16 (?a 1) (?a 0) \<rparr>) = None"
    by (auto simp: read_buffer_def wr_bytes_def)
  note none = this
  have rds: "rd [?a 0, ?a 1, ?a 2, ?a 3, ?a 4, ?a 5] 0 = Some (?a 0)" "rd [?a 0, ?a 1, ?a 2, ?a 3, ?a 4, ?a 5] 1 = Some (?a 1)"
    "rd [?a 0, ?a 1, ?a 2, ?a 3, ?a 4, ?a 5] 2 = Some (?a 2)" "rd [?a 0, ?a 1, ?a 2, ?a 3, ?a 4, ?a 5] 3 = Some (?a 3)"
    "rd [?a 0, ?a 1, ?a 2, ?a 3, ?a 4, ?a 5] 4 = Some (?a 4)" "rd [?a 0, ?a 1, ?a 2, ?a 3, ?a 4, ?a 5] 5 = Some (?a 5)"
    by (simp_all add: rd_def)
  have "read_packet chip buffer s d2 = None"
    unfolding read_packet_def d3(1) header bind.bind_lunit prod.case rds Let_def
    by (simp only: frame(2) if_False none bind.bind_lzero)
  then show ?thesis
    unfolding receive_packet_def using l(1) d1(1) d2(1,2) by simp
qed

text \<open>
  \<open>arp_get_specific_mac\<close> overruns its stack buffer. It receives into 60 bytes and says that they are
  1500; when a longer frame is waiting while it polls for the first reply, the
  controller's bytes are written behind the buffer, whatever the frame is.
\<close>

theorem arp_get_specific_mac_overruns:
  assumes "honest_bank chip" "driver_idle d" "\<forall>k. ch_ms chip k = now" "long_frame_waits chip 60"
    and "length sender_mac = 6" "length sender_ip = 4" "length target_ip = 4"
  shows "arp_get_specific_mac chip (Some sender_ip) target_ip (Some sender_mac) target_mac arp_globals_init d = None"
proof -
  let ?g = "arp_globals_init\<lparr> ag_my_mac := sender_mac, ag_my_ip := sender_ip \<rparr>"
  have g: "arp_globals_ok ?g" using assms(5,6) by (simp add: arp_globals_ok_def arp_globals_init_def)
  let ?h = "arp_fields (ag_my_mac ?g) MAC_ZEROS (ag_my_ip ?g) target_ip 1"
  let ?b = "arp_frame MAC_BROADCAST (ag_my_mac ?g) ?h @ drop 42 (replicate 60 0)"
  have request: "set_arp_request ?g (Some (replicate 60 0)) 0 (Some target_ip) = Some (True, Some ?b, 42)"
    by (rule set_arp_request_eq [OF g _ assms(7)]) simp
  let ?d = "d\<lparr> bus_ticks := bus_ticks d + 1 \<rparr>"
  have d: "driver_idle ?d" using assms(2) by (simp add: driver_idle_def)
  have b: "42 \<le> length ?b"
    using length_arp_frame [OF length_constants(1), of "ag_my_mac ?g" ?h] assms(5-7) wf_arp_fields
    by (simp add: wf_arp_fields)
  obtain d1 where d1: "send_packet chip ?b 42 ?d = Some d1" "driver_idle d1"
    using send_packet_runs [OF assms(1) d, of 42 ?b] b by (auto simp: runs_iff)
  let ?d1 = "d1\<lparr> bus_ticks := bus_ticks d1 + 1 \<rparr>"
  have "driver_idle ?d1" using d1(2) by (simp add: driver_idle_def)
  then have "receive_packet chip (replicate 60 0) 1500 ?d1 = None"
    using assms(1,4) by (intro receive_packet_overruns) simp_all
  then have "arp_poll chip ?g target_ip (of_nat now) target_mac (replicate 60 0) False d1 = None"
    using assms(3) by (subst arp_poll.simps) (simp add: get_tick_def)
  note poll = this
  have tick: "get_tick chip d = Some (of_nat now, ?d)" using assms(3) by (simp add: get_tick_def)
  have "(10 :: nat) = Suc 9" by simp
  then have "arp_attempts 10 chip ?g ?b 42 target_ip target_mac (replicate 60 0) d = None"
    by (simp only: arp_attempts.simps(2) tick bind.bind_lunit prod.case d1(1) poll bind.bind_lzero)
  moreover have "arp_set_my_mac_address (Some sender_mac) arp_globals_init = Some (arp_globals_init\<lparr> ag_my_mac := sender_mac \<rparr>)"
    "arp_set_my_ip_address (Some sender_ip) (arp_globals_init\<lparr> ag_my_mac := sender_mac \<rparr>) = Some ?g"
    using assms(5,6) by (simp_all add: arp_set_my_mac_address_def arp_set_my_ip_address_def rd_bytes_def)
  ultimately show ?thesis
    unfolding arp_get_specific_mac_def by (simp only: bind.bind_lunit request prod.case option.case) simp
qed

section \<open>Examples\<close>

definition busy_chip :: chip where
  "busy_chip = \<lparr> ch_answer = (\<lambda>tr command i. if command = ECON1 then chip_bank tr
       else if command = 0x19 then 1
       else if command = ENC28J60_READ_BUF_MEM then (if i = 2 then 0xE8 else if i = 3 then 3 else if i = 4 then 0x80 else 0)
       else 0), ch_ms = (\<lambda>_. 7) \<rparr>"

lemma busy_chip_ok: "honest_bank busy_chip" "long_frame_waits busy_chip 60"
proof -
  show "honest_bank busy_chip"
    using two_bits_and [OF two_bits_chip] by (simp add: honest_bank_def busy_chip_def)
  have "be16 3 0xE8 - 4 = 996" "be16 0 0x80 AND 0x80 = 0x80" by (simp_all add: be16_def)
  then show "long_frame_waits busy_chip 60" by (simp add: long_frame_waits_def busy_chip_def)
qed

lemma arp_get_specific_mac_overruns_witness:
  "arp_get_specific_mac busy_chip (Some [10, 0, 0, 2]) [10, 0, 0, 1] (Some [2, 0, 0, 0, 0, 1])
     (replicate 6 0) arp_globals_init example_driver = None"
  by (rule arp_get_specific_mac_overruns [OF busy_chip_ok(1) _ _ busy_chip_ok(2)])
    (use example_driver_ok in \<open>simp_all add: busy_chip_def\<close>)

lemma arp_exchange_resolves_witness:
  "\<exists>request reply g' d'.
     set_arp_request (arp_globals_init\<lparr> ag_my_ip := [10, 0, 0, 9] \<rparr>) (Some (replicate 42 0)) 0 (Some [10, 0, 0, 2]) =
       Some (True, Some request, 42) \<and>
     arp_reply_requested example_chip (Some request) (Some [10, 0, 0, 2]) arp_globals_init example_driver = Some (True, g', d') \<and>
     arp_reply_match_predicate (arp_globals_init\<lparr> ag_my_ip := [10, 0, 0, 9] \<rparr>) reply 42
       \<lparr> am_target_ip = [10, 0, 0, 2], am_target_mac = replicate 6 0 \<rparr> =
       Some (True, \<lparr> am_target_ip = [10, 0, 0, 2], am_target_mac = [2, 0, 0, 0, 0, 1] \<rparr>)"
proof -
  have "arp_globals_ok arp_globals_init" "arp_globals_ok (arp_globals_init\<lparr> ag_my_ip := [10, 0, 0, 9] \<rparr>)"
    by (simp_all add: arp_globals_ok_def arp_globals_init_def)
  moreover have "enc_mac_address example_driver = [2, 0, 0, 0, 0, 1]" by (simp add: example_driver_def)
  ultimately show ?thesis
    using arp_exchange_resolves [OF example_chip_ok(1) example_driver_ok(1), of
        "arp_globals_init\<lparr> ag_my_ip := [10, 0, 0, 9] \<rparr>" arp_globals_init "[10, 0, 0, 2]" "[10, 0, 0, 2]" "replicate 6 0" 0]
    by auto
qed

end
