(* ===== verification/Scanner_Session.thy ===== *)
theory Scanner_Session
  imports Startup_Guard Rx_Dispatch Arp_Module
begin

text \<open>
  \<open>libraries/scanner/scanner_session.c\<close>: the session of a scanner's worker thread. It keeps a cache of
  hardware addresses and the cancel flags, and its \<open>scanner_wait_for_packet\<close> registers a handler with
  the dispatcher, fires a trigger and sleeps until a frame is accepted. The dispatcher's thread
  delivers frames between any two steps of the worker; which ones, and what the clock and the heap
  say, is the environment of a wait. The user's predicate works on a state \<open>'c\<close> of the caller's choice.
\<close>

section \<open>The session\<close>

datatype scanner_wait_failure =
    ScannerWaitFailureNone
  | ScannerWaitFailureNoMemoryTotal
  | ScannerWaitFailureNoMemoryBlock
  | ScannerWaitFailureNoMemoryAllocation
  | ScannerWaitFailureRxUnavailable

record scanner_cache_entry =
  ce_ip :: buf
  ce_mac :: buf
  ce_valid :: bool

text \<open>The two flags are borrowed pointers: the session knows whether it has one, the values are polled.\<close>

record scanner_session =
  ss_ip_gateway :: buf
  ss_mac_gateway :: buf
  ss_subnet_mask :: buf
  ss_cache :: "scanner_cache_entry list"
  ss_cache_next :: u8
  ss_cancelled :: bool
  ss_external_cancel :: bool
  ss_app_shutdown :: bool
  ss_last_wait_failure :: scanner_wait_failure

definition SCANNER_RESOLVE_CACHE_ENTRIES :: nat where [simp]: "SCANNER_RESOLVE_CACHE_ENTRIES = 4"

definition scanner_session_init :: "buf \<Rightarrow> buf \<Rightarrow> buf \<Rightarrow> scanner_session \<Rightarrow> scanner_session" where
  "scanner_session_init ip_gateway mac_gateway subnet_mask s =
     s\<lparr> ss_ip_gateway := ip_gateway, ss_mac_gateway := mac_gateway, ss_subnet_mask := subnet_mask,
        ss_cache_next := 0, ss_cancelled := False, ss_external_cancel := False, ss_app_shutdown := True,
        ss_last_wait_failure := ScannerWaitFailureNone,
        ss_cache := map (ce_valid_update (\<lambda>_. False)) (ss_cache s) \<rparr>"

definition scanner_session_deinit :: "scanner_session \<Rightarrow> scanner_session" where
  "scanner_session_deinit s = s"

definition scanner_session_set_cancel_flag :: "bool \<Rightarrow> scanner_session \<Rightarrow> scanner_session" where
  "scanner_session_set_cancel_flag cancel_flag s = s\<lparr> ss_external_cancel := cancel_flag \<rparr>"

definition scanner_session_get_last_wait_failure :: "scanner_session \<Rightarrow> scanner_wait_failure" where
  "scanner_session_get_last_wait_failure s = ss_last_wait_failure s"

definition scanner_wait_failure_is_memory :: "scanner_wait_failure \<Rightarrow> bool" where
  "scanner_wait_failure_is_memory failure \<longleftrightarrow>
     failure = ScannerWaitFailureNoMemoryTotal \<or> failure = ScannerWaitFailureNoMemoryBlock \<or>
     failure = ScannerWaitFailureNoMemoryAllocation"

text \<open>What one poll finds: the values behind the two pointers, and the level of the back button's pin.\<close>

record scanner_poll =
  po_app_shutdown :: bool
  po_external_cancel :: bool
  po_back_pin :: bool

definition cancel_poll :: "scanner_poll \<Rightarrow> scanner_session \<Rightarrow> bool \<times> scanner_session" where
  "cancel_poll p s =
     (if ss_app_shutdown s \<and> po_app_shutdown p then (True, s\<lparr> ss_cancelled := True \<rparr>)
      else if ss_external_cancel s \<and> po_external_cancel p then (True, s\<lparr> ss_cancelled := True \<rparr>)
      else if \<not> po_back_pin p then (True, s\<lparr> ss_cancelled := True \<rparr>)
      else (ss_cancelled s, s))"

definition scanner_cancel_requested ::
  "scanner_poll \<Rightarrow> scanner_session ptr \<Rightarrow> bool \<times> scanner_session ptr" where
  "scanner_cancel_requested p s =
     (case s of None \<Rightarrow> (False, None) | Some s \<Rightarrow> map_prod id Some (cancel_poll p s))"

section \<open>The cache\<close>

definition same_subnet :: "buf \<Rightarrow> buf \<Rightarrow> buf \<Rightarrow> bool option" where
  "same_subnet a b net =
     do { a0 \<leftarrow> rd a 0; m0 \<leftarrow> rd net 0; b0 \<leftarrow> rd b 0;
          if a0 AND m0 \<noteq> b0 AND m0 then Some False
          else do { a1 \<leftarrow> rd a 1; m1 \<leftarrow> rd net 1; b1 \<leftarrow> rd b 1;
          if a1 AND m1 \<noteq> b1 AND m1 then Some False
          else do { a2 \<leftarrow> rd a 2; m2 \<leftarrow> rd net 2; b2 \<leftarrow> rd b 2;
          if a2 AND m2 \<noteq> b2 AND m2 then Some False
          else do { a3 \<leftarrow> rd a 3; m3 \<leftarrow> rd net 3; b3 \<leftarrow> rd b 3;
                    Some (a3 AND m3 = b3 AND m3) } } } }"

fun cache_scan :: "scanner_cache_entry list \<Rightarrow> buf \<Rightarrow> buf \<Rightarrow> (bool \<times> buf) option" where
  "cache_scan [] ip mac_out = Some (False, mac_out)"
| "cache_scan (e # es) ip mac_out =
     (if ce_valid e
      then do { stored \<leftarrow> rd_bytes (ce_ip e) 0 4; given \<leftarrow> rd_bytes ip 0 4;
                if stored = given
                then do { m \<leftarrow> rd_bytes (ce_mac e) 0 6; mac_out \<leftarrow> wr_bytes mac_out 0 m; Some (True, mac_out) }
                else cache_scan es ip mac_out }
      else cache_scan es ip mac_out)"

definition cache_lookup :: "scanner_session \<Rightarrow> buf \<Rightarrow> buf \<Rightarrow> (bool \<times> buf) option" where
  "cache_lookup s ip mac_out = cache_scan (ss_cache s) ip mac_out"

definition cache_insert :: "scanner_session \<Rightarrow> buf \<Rightarrow> buf \<Rightarrow> scanner_session option" where
  "cache_insert s ip mac =
     (let slot = ss_cache_next s in
      if unat slot < length (ss_cache s)
      then do { i \<leftarrow> rd_bytes ip 0 4; m \<leftarrow> rd_bytes mac 0 6;
                Some (s\<lparr> ss_cache := (ss_cache s)[unat slot := \<lparr> ce_ip = i, ce_mac = m, ce_valid = True \<rparr>],
                         ss_cache_next := of_nat ((unat slot + 1) mod SCANNER_RESOLVE_CACHE_ENTRIES) \<rparr>) }
      else None)"

section \<open>Waiting for a frame\<close>

type_synonym 'c packet_predicate = "buf \<Rightarrow> u16 \<Rightarrow> 'c \<Rightarrow> (bool \<times> 'c) option"
type_synonym 'c trigger = "'c \<Rightarrow> 'c option"
type_synonym frames = "(buf \<times> u16) list"

text \<open>
  What the session shares with the rest of the application: the diagnostic, the dispatcher's slots and
  whether its mutex exists, and the number of allocated semaphores.
\<close>

record scanner_system =
  sy_diagnostic :: startup_diagnostic_snapshot
  sy_rx_mutex :: bool
  sy_slots :: "rx_handle list"
  sy_semaphores :: nat

text \<open>The whole call, without a step of another thread inside it; theory Rx_Dispatch has the steps.\<close>

definition register_call :: "rx_handle \<Rightarrow> scanner_system \<Rightarrow> nat ptr \<times> scanner_system" where
  "register_call h sys =
     (if \<not> sy_rx_mutex sys then (None, sys)
      else let (slots, r) = register_slot (sy_slots sys) h in (r, sys\<lparr> sy_slots := slots \<rparr>))"

definition unregister_call :: "nat \<Rightarrow> scanner_system \<Rightarrow> scanner_system" where
  "unregister_call i sys =
     (if \<not> sy_rx_mutex sys then sys else sys\<lparr> sy_slots := unregister_slot (sy_slots sys) i \<rparr>)"

record 'c scanner_wait_state =
  ws_user_ctx :: 'c
  ws_signal :: nat
  ws_matched_len :: u16
  ws_matched :: bool

definition wait_predicate ::
  "'c packet_predicate \<Rightarrow> buf \<Rightarrow> u16 \<Rightarrow> 'c scanner_wait_state \<Rightarrow> (bool \<times> 'c scanner_wait_state) option" where
  "wait_predicate user_pred frame len w =
     (if ws_matched w then Some (False, w)
      else do { (ok, c) \<leftarrow> user_pred frame len (ws_user_ctx w);
                let w = w\<lparr> ws_user_ctx := c \<rparr>;
                if ok then Some (True, w\<lparr> ws_matched_len := len \<rparr>) else Some (False, w) })"

text \<open>The semaphore counts to one.\<close>

definition wait_signal_handler :: "'c scanner_wait_state \<Rightarrow> 'c scanner_wait_state" where
  "wait_signal_handler w =
     (if \<not> ws_matched w then w\<lparr> ws_matched := True, ws_signal := min 1 (ws_signal w + 1) \<rparr> else w)"

text \<open>The dispatcher's turn for each received frame, as far as it concerns this handler.\<close>

fun wait_deliver :: "'c packet_predicate \<Rightarrow> frames \<Rightarrow> 'c scanner_wait_state \<Rightarrow> 'c scanner_wait_state option" where
  "wait_deliver user_pred [] w = Some w"
| "wait_deliver user_pred ((frame, len) # rest) w =
     do { (ok, w) \<leftarrow> wait_predicate user_pred frame len w;
          wait_deliver user_pred rest (if ok then wait_signal_handler w else w) }"

text \<open>
  The environment of one pass of the loop: the two clock readings, the poll, and the frames delivered
  until the acquire of a given slice returns; and of a whole wait: the heap before the check and at a
  failed allocation, the frames delivered before the trigger, the passes, and the frames delivered
  after the last acquire until the handler is gone.
\<close>

record wait_pass =
  wp_now :: u32
  wp_poll :: scanner_poll
  wp_now2 :: u32
  wp_frames :: "u32 \<Rightarrow> frames"

record wait_env =
  we_free_heap :: u32
  we_max_block :: u32
  we_semaphore :: bool
  we_failed_free :: u32
  we_failed_block :: u32
  we_before :: frames
  we_start :: u32
  we_passes :: "nat \<Rightarrow> wait_pass"
  we_late :: frames

partial_function (option) wait_loop ::
  "'c packet_predicate \<Rightarrow> (nat \<Rightarrow> wait_pass) \<Rightarrow> u32 \<Rightarrow> u32 \<Rightarrow> nat \<Rightarrow> scanner_session \<Rightarrow> 'c scanner_wait_state \<Rightarrow>
   (bool \<times> u16 \<times> scanner_session \<times> 'c scanner_wait_state) option" where
  "wait_loop user_pred passes timeout_ms start i s w =
     (let p = passes i in
      if \<not> wp_now p - start < timeout_ms then Some (False, 0, s, w)
      else let (cancel, s) = cancel_poll (wp_poll p) s in
        if cancel then Some (False, 0, s, w)
        else let slice = timeout_ms - (wp_now2 p - start);
                 slice = (if slice > 50 then 50 else slice)
          in do { w \<leftarrow> wait_deliver user_pred (wp_frames p slice) w;
                  if ws_signal w > 0
                  then Some (True, ws_matched_len w, s, w\<lparr> ws_signal := ws_signal w - 1 \<rparr>)
                  else wait_loop user_pred passes timeout_ms start (i + 1) s w })"

definition semaphore_requirements :: startup_guard_requirements where
  "semaphore_requirements = \<lparr> required_total_free = 96 + 1024, required_max_block = 96 \<rparr>"

text \<open>The addresses of the two functions and of the state on the caller's stack.\<close>

definition wait_handle :: rx_handle where
  "wait_handle = \<lparr> rh_predicate = Some 1, rh_handler = Some 2, rh_ctx = Some 3, rh_in_use = True \<rparr>"

definition wait_state_init :: "'c \<Rightarrow> 'c scanner_wait_state" where
  "wait_state_init c = \<lparr> ws_user_ctx = c, ws_signal = 0, ws_matched_len = 0, ws_matched = False \<rparr>"

definition scanner_wait_for_packet ::
  "'c packet_predicate \<Rightarrow> 'c \<Rightarrow> 'c trigger ptr \<Rightarrow> u32 \<Rightarrow> wait_env \<Rightarrow> scanner_session \<Rightarrow> scanner_system \<Rightarrow>
   (bool \<times> u16 \<times> 'c \<times> scanner_session \<times> scanner_system) option" where
  "scanner_wait_for_packet pred c trigger_fn timeout_ms env s sys =
     (let s = s\<lparr> ss_last_wait_failure := ScannerWaitFailureNone \<rparr>;
          (guard, diag) = startup_guard_check_capture (we_free_heap env) (we_max_block env) (sy_diagnostic sys)
             semaphore_requirements StartupDiagnosticBoundaryScannerWait;
          sys = sys\<lparr> sy_diagnostic := diag \<rparr>
      in if guard \<noteq> StartupGuardReady
         then Some (False, 0, c, s\<lparr> ss_last_wait_failure :=
                (if guard = StartupGuardInsufficientTotal then ScannerWaitFailureNoMemoryTotal
                 else ScannerWaitFailureNoMemoryBlock) \<rparr>, sys)
         else if \<not> we_semaphore env
         then Some (False, 0, c, s\<lparr> ss_last_wait_failure := ScannerWaitFailureNoMemoryAllocation \<rparr>,
                sys\<lparr> sy_diagnostic := startup_guard_capture_allocation_failure (we_failed_free env) (we_failed_block env)
                       (sy_diagnostic sys) semaphore_requirements StartupDiagnosticBoundaryScannerWait \<rparr>)
         else let (handle, sys) = register_call wait_handle (sys\<lparr> sy_semaphores := sy_semaphores sys + 1 \<rparr>)
         in case handle of
              None \<Rightarrow> Some (False, 0, c, s\<lparr> ss_last_wait_failure := ScannerWaitFailureRxUnavailable \<rparr>,
                            sys\<lparr> sy_semaphores := sy_semaphores sys - 1 \<rparr>)
            | Some h \<Rightarrow>
                do { w \<leftarrow> wait_deliver pred (we_before env) (wait_state_init c);
                     w \<leftarrow> (case trigger_fn of
                             None \<Rightarrow> Some w
                           | Some t \<Rightarrow> do { c \<leftarrow> t (ws_user_ctx w); Some (w\<lparr> ws_user_ctx := c \<rparr>) });
                     (got, len, s, w) \<leftarrow> wait_loop pred (we_passes env) timeout_ms (we_start env) 0 s w;
                     w \<leftarrow> wait_deliver pred (we_late env) w;
                     let sys = unregister_call h sys;
                     Some (got, len, ws_user_ctx w, s, sys\<lparr> sy_semaphores := sy_semaphores sys - 1 \<rparr>) })"

section \<open>Resolving the next hop\<close>

text \<open>The state of the predicate and the trigger: the predicate's context, and the ARP module's variables with the driver.\<close>

type_synonym arp_world = "arp_globals \<times> enc28j60"

definition scanner_send_packet_trigger :: "chip \<Rightarrow> buf \<Rightarrow> u16 \<Rightarrow> ('c \<times> arp_world) trigger" where
  "scanner_send_packet_trigger chip buf len =
     (\<lambda>(c, g, d). do { d \<leftarrow> send_packet chip buf len d; Some (c, g, d) })"

definition arp_reply_match :: "(arp_reply_match_ctx \<times> arp_world) packet_predicate" where
  "arp_reply_match frame len =
     (\<lambda>(c, g, d). do { (ok, c) \<leftarrow> arp_reply_match_predicate g frame len c; Some (ok, c, g, d) })"

text \<open>The loop over the attempts, each with its poll and its wait's environment.\<close>

fun resolve_attempts ::
  "chip \<Rightarrow> buf \<Rightarrow> u16 \<Rightarrow> (scanner_poll \<times> wait_env) list \<Rightarrow> arp_reply_match_ctx \<times> arp_world \<Rightarrow> scanner_session \<Rightarrow>
   scanner_system \<Rightarrow> (bool \<times> (arp_reply_match_ctx \<times> arp_world) \<times> scanner_session \<times> scanner_system) option" where
  "resolve_attempts chip buf len [] c s sys = Some (False, c, s, sys)"
| "resolve_attempts chip buf len ((p, env) # rest) c s sys =
     (let (cancel, s) = cancel_poll p s in
      if cancel then Some (False, c, s, sys)
      else do { (ok, got, c, s, sys) \<leftarrow>
                  scanner_wait_for_packet arp_reply_match c (Some (scanner_send_packet_trigger chip buf len)) 2000 env s sys;
                if ok then Some (True, c, s, sys) else resolve_attempts chip buf len rest c s sys })"

text \<open>
  \<open>is_gateway\<close> says that the caller's \<open>target_ip\<close> is the pointer \<open>s->ip_gateway\<close> itself; the code
  compares the pointers. Only the first ten environments are used.
\<close>

definition scanner_resolve_next_hop ::
  "chip \<Rightarrow> buf \<Rightarrow> bool \<Rightarrow> buf \<Rightarrow> (scanner_poll \<times> wait_env) list \<Rightarrow> scanner_session \<Rightarrow> arp_world \<Rightarrow> scanner_system \<Rightarrow>
   (bool \<times> buf \<times> scanner_session \<times> arp_world \<times> scanner_system) option" where
  "scanner_resolve_next_hop chip target_ip is_gateway mac_out envs s w sys =
     (case w of (g, d) \<Rightarrow>
      do { local \<leftarrow> same_subnet target_ip (enc_ip_address d) (ss_subnet_mask s);
           let resolve_ip = (if local then target_ip else ss_ip_gateway s);
           (hit, mac_out) \<leftarrow> cache_lookup s resolve_ip mac_out;
           if hit then Some (True, mac_out, s, (g, d), sys)
           else do { g \<leftarrow> arp_set_my_mac_address (Some (enc_mac_address d)) g;
                     g \<leftarrow> arp_set_my_ip_address (Some (enc_ip_address d)) g;
                     (ready, request, len) \<leftarrow>
                       set_arp_request g (Some (replicate (ETHERNET_HEADER_LEN + ARP_LEN) 0)) 0 (Some resolve_ip);
                     (case request of
                        None \<Rightarrow> None
                      | Some request_buf \<Rightarrow>
                          if \<not> ready then Some (False, mac_out, s, (g, d), sys)
                          else do { (ok, (c, g, d), s, sys) \<leftarrow>
                                      resolve_attempts chip request_buf len (take 10 envs)
                                        (\<lparr> am_target_ip = resolve_ip, am_target_mac = mac_out \<rparr>, g, d) s sys;
                                    let mac_out = am_target_mac c;
                                    if ok
                                    then do { s \<leftarrow> cache_insert s resolve_ip mac_out;
                                              if \<not> local \<or> is_gateway
                                              then do { m \<leftarrow> rd_bytes mac_out 0 6;
                                                        Some (True, mac_out, s\<lparr> ss_mac_gateway := m \<rparr>, (g, d), sys) }
                                              else Some (True, mac_out, s, (g, d), sys) }
                                    else Some (False, mac_out, s, (g, d), sys) }) } })"

section \<open>The environment of a wait\<close>

text \<open>
  The clock counts milliseconds: it does not go back, an unsuccessful acquire takes time, and no two
  readings are more than \<open>2\<^sup>3\<^sup>1\<close> apart.
\<close>

definition clock_runs :: "wait_env \<Rightarrow> bool" where
  "clock_runs env \<longleftrightarrow>
     (\<exists>ms. we_start env = of_nat (ms 0) \<and> (\<forall>j. wp_now (we_passes env j) = of_nat (ms (Suc j))) \<and>
        (\<forall>j. ms j \<le> ms (Suc j)) \<and> (\<forall>j. ms (Suc j) < ms (Suc (Suc j))) \<and> (\<forall>j. ms (Suc j) \<le> ms j + 2147483648))"

definition frame_heard :: "wait_env \<Rightarrow> buf \<times> u16 \<Rightarrow> bool" where
  "frame_heard env x \<longleftrightarrow>
     x \<in> set (we_before env) \<or> x \<in> set (we_late env) \<or>
     (\<exists>j slice. x \<in> set (wp_frames (we_passes env j) slice))"

definition slots_clean :: "rx_handle list \<Rightarrow> bool" where
  "slots_clean slots \<longleftrightarrow> (\<forall>h\<in>set slots. \<not> rh_in_use h \<longrightarrow> h = rx_handle_zero)"

lemma register_restored:
  assumes "slots_clean (sy_slots sys)" "register_call h sys = (Some i, sys')"
  shows "unregister_call i sys' = sys"
proof -
  obtain slots where slots: "register_slot (sy_slots sys) h = (slots, Some i)" "sys' = sys\<lparr> sy_slots := slots \<rparr>"
      "sy_rx_mutex sys"
    using assms(2) by (auto simp: register_call_def split: if_splits prod.splits)
  from register_slot_spec [OF slots(1)] have "i < length (sy_slots sys)" "\<not> rh_in_use (sy_slots sys ! i)"
    "slots = (sy_slots sys)[i := h]" by simp_all
  moreover from this assms(1) have "sy_slots sys ! i = rx_handle_zero" by (simp add: slots_clean_def)
  ultimately have "unregister_slot slots i = sy_slots sys"
    by (metis list_update_id list_update_overwrite unregister_slot_def)
  then show ?thesis using slots(2,3) by (simp add: unregister_call_def)
qed

lemma register_full: "register_call h sys = (None, sys') \<Longrightarrow> sys' = sys"
  using register_slot_spec [of "sy_slots sys" h]
  by (auto simp: register_call_def split: if_splits prod.splits)

text \<open>What a wait leaves of the session and of what it shares: all but the cancel flag, the failure and the diagnostic.\<close>

definition session_kept :: "scanner_session \<Rightarrow> scanner_session \<Rightarrow> bool" where
  "session_kept s s' \<longleftrightarrow>
     ss_ip_gateway s' = ss_ip_gateway s \<and> ss_mac_gateway s' = ss_mac_gateway s \<and> ss_subnet_mask s' = ss_subnet_mask s \<and>
     ss_cache s' = ss_cache s \<and> ss_cache_next s' = ss_cache_next s \<and> ss_external_cancel s' = ss_external_cancel s \<and>
     ss_app_shutdown s' = ss_app_shutdown s"

definition system_kept :: "scanner_system \<Rightarrow> scanner_system \<Rightarrow> bool" where
  "system_kept sys sys' \<longleftrightarrow>
     sy_rx_mutex sys' = sy_rx_mutex sys \<and> sy_slots sys' = sy_slots sys \<and> sy_semaphores sys' = sy_semaphores sys"

lemma session_kept_refl [simp]: "session_kept s s"
  by (simp add: session_kept_def)

lemma session_kept_trans: "session_kept s s' \<Longrightarrow> session_kept s' s'' \<Longrightarrow> session_kept s s''"
  by (simp add: session_kept_def)

lemma system_kept_refl [simp]: "system_kept s s"
  by (simp add: system_kept_def)

lemma system_kept_trans: "system_kept s s' \<Longrightarrow> system_kept s' s'' \<Longrightarrow> system_kept s s''"
  by (simp add: system_kept_def)

lemma session_kept_updates [simp]:
  "session_kept s (s'\<lparr> ss_cancelled := b \<rparr>) = session_kept s s'"
  "session_kept s (s'\<lparr> ss_last_wait_failure := f \<rparr>) = session_kept s s'"
  by (simp_all add: session_kept_def)

lemma system_kept_diagnostic [simp]: "system_kept sys (sys'\<lparr> sy_diagnostic := d \<rparr>) = system_kept sys sys'"
  by (simp add: system_kept_def)

lemma cancel_poll_kept: "cancel_poll p s = (cancel, s') \<Longrightarrow> session_kept s s'"
  by (auto simp: cancel_poll_def split: if_splits)

section \<open>Waiting, for any predicate\<close>

text \<open>
  What a caller of \<open>scanner_wait_for_packet\<close> provides: an invariant of its state under which the
  predicate runs on every frame and which it keeps, and the part of the state that holds the answer.
\<close>

locale packet_client =
  fixes pred :: "'c packet_predicate" and cinv :: "'c \<Rightarrow> bool" and frame_ok :: "buf \<times> u16 \<Rightarrow> bool"
    and answer :: "'c \<Rightarrow> 'v"
  assumes pred_runs: "cinv c \<Longrightarrow> frame_ok (f, len) \<Longrightarrow> runs (pred f len c) (\<lambda>(ok, c'). cinv c')"
begin

definition accepted :: "(buf \<times> u16 \<Rightarrow> bool) \<Rightarrow> u16 \<Rightarrow> 'v \<Rightarrow> bool" where
  "accepted heard len a \<longleftrightarrow>
     (\<exists>f c1 c2. heard (f, len) \<and> cinv c1 \<and> pred f len c1 = Some (True, c2) \<and> answer c2 = a)"

definition wait_inv :: "(buf \<times> u16 \<Rightarrow> bool) \<Rightarrow> 'c scanner_wait_state \<Rightarrow> bool" where
  "wait_inv heard w \<longleftrightarrow>
     cinv (ws_user_ctx w) \<and> (0 < ws_signal w \<longrightarrow> ws_matched w) \<and>
     (ws_matched w \<longrightarrow> accepted heard (ws_matched_len w) (answer (ws_user_ctx w)))"

lemma wait_deliver_matched: "ws_matched w \<Longrightarrow> wait_deliver pred fs w = Some w"
  by (induction fs) (auto simp: wait_predicate_def)

lemma wait_deliver_runs:
  assumes "wait_inv heard w" "\<forall>x\<in>set fs. frame_ok x \<and> heard x"
  shows "runs (wait_deliver pred fs w) (wait_inv heard)"
  using assms
proof (induction fs arbitrary: w)
  case (Cons x fs)
  obtain f len where x: "x = (f, len)" by force
  show ?case
  proof (cases "ws_matched w")
    case True
    then show ?thesis using Cons.prems(1) by (simp add: wait_deliver_matched)
  next
    case False
    from Cons.prems have "runs (pred f len (ws_user_ctx w)) (\<lambda>(ok, c'). cinv c')"
      by (intro pred_runs) (simp_all add: wait_inv_def x)
    then obtain ok c where r: "pred f len (ws_user_ctx w) = Some (ok, c)" "cinv c" by (auto simp: runs_iff)
    let ?w = "w\<lparr> ws_user_ctx := c \<rparr>"
    let ?w' = "if ok then wait_signal_handler (?w\<lparr> ws_matched_len := len \<rparr>) else ?w"
    have "wait_inv heard ?w'"
      using Cons.prems False r by (cases ok) (auto simp: wait_inv_def wait_signal_handler_def accepted_def x intro!: exI [of _ f])
    then have "runs (wait_deliver pred fs ?w') (wait_inv heard)" using Cons.prems(2) by (intro Cons.IH) simp_all
    then show ?thesis using False r(1) by (cases ok) (simp_all add: x wait_predicate_def)
  qed
qed simp

text \<open>The clock \<open>ms\<close> at the start and at the test of each pass.\<close>

lemma wait_loop_runs:
  assumes clock: "\<forall>j. wp_now (passes j) = of_nat (ms (Suc j))" "\<forall>j. ms j \<le> ms (Suc j)" "\<forall>j. ms (Suc j) < ms (Suc (Suc j))"
      "\<forall>j. ms (Suc j) \<le> ms j + 2147483648" "unat timeout < 2147483648"
    and heard: "\<forall>j slice x. x \<in> set (wp_frames (passes j) slice) \<longrightarrow> frame_ok x \<and> heard x"
    and start: "ms 0 \<le> ms (Suc i)" "ms (Suc i) - ms 0 < 4294967296"
    and w: "wait_inv heard w"
  shows "runs (wait_loop pred passes timeout (of_nat (ms 0)) i s w) (\<lambda>(got, len, s', w').
           wait_inv heard w' \<and> (\<exists>b. s' = s\<lparr> ss_cancelled := b \<rparr>) \<and>
           (if got then ws_matched w' \<and> len = ws_matched_len w' else len = 0))"
  using start w
proof (induction "unat timeout - (ms (Suc i) - ms 0)" arbitrary: i s w rule: less_induct)
  case less
  have "(of_nat (ms (Suc i)) - of_nat (ms 0) :: u32) = of_nat (ms (Suc i) - ms 0)"
    using less.prems(1) by (simp add: of_nat_diff)
  then have now: "unat (wp_now (passes i) - of_nat (ms 0)) = ms (Suc i) - ms 0"
    using less.prems(2) clock(1) by (simp add: unat_of_nat_u32)
  have same: "\<exists>b. s = s\<lparr> ss_cancelled := b \<rparr>" by (rule exI [of _ "ss_cancelled s"]) simp
  show ?case
  proof (cases "wp_now (passes i) - of_nat (ms 0) < timeout")
    case False
    then show ?thesis using less.prems(3) same by (subst wait_loop.simps) simp
  next
    case True
    then have lt: "ms (Suc i) - ms 0 < unat timeout" using now by (simp add: word_less_nat_alt)
    obtain cancel s1 where poll: "cancel_poll (wp_poll (passes i)) s = (cancel, s1)" by force
    have s1: "\<exists>b. s1 = s\<lparr> ss_cancelled := b \<rparr>" using poll same by (auto simp: cancel_poll_def split: if_splits)
    show ?thesis
    proof (cases cancel)
      case True
      then show ?thesis
        using less.prems(3) \<open>wp_now (passes i) - of_nat (ms 0) < timeout\<close> poll s1 by (subst wait_loop.simps) simp
    next
      case False
      define slice where "slice = (let x = timeout - (wp_now2 (passes i) - of_nat (ms 0)) in if x > 50 then 50 else x)"
      have "runs (wait_deliver pred (wp_frames (passes i) slice) w) (wait_inv heard)"
        using heard by (intro wait_deliver_runs [OF less.prems(3)]) blast
      then obtain w1 where w1: "wait_deliver pred (wp_frames (passes i) slice) w = Some w1" "wait_inv heard w1"
        by (auto simp: runs_iff)
      have step: "wait_loop pred passes timeout (of_nat (ms 0)) i s w =
          (if ws_signal w1 > 0 then Some (True, ws_matched_len w1, s1, w1\<lparr> ws_signal := ws_signal w1 - 1 \<rparr>)
           else wait_loop pred passes timeout (of_nat (ms 0)) (i + 1) s1 w1)"
        using True False poll w1(1) by (subst wait_loop.simps) (simp add: slice_def Let_def)
      show ?thesis
      proof (cases "ws_signal w1 > 0")
        case True
        then show ?thesis using step w1(2) s1 by (auto simp: wait_inv_def)
      next
        case no: False
        have "ms (Suc (i + 1)) \<le> ms (Suc i) + 2147483648" "ms (Suc i) < ms (Suc (i + 1))" using clock(3,4) by simp_all
        then have next1: "ms 0 \<le> ms (Suc (i + 1))" "ms (Suc (i + 1)) - ms 0 < 4294967296"
          "unat timeout - (ms (Suc (i + 1)) - ms 0) < unat timeout - (ms (Suc i) - ms 0)"
          using lt clock(5) less.prems(1) by linarith+
        have "runs (wait_loop pred passes timeout (of_nat (ms 0)) (i + 1) s1 w1) (\<lambda>(got, len, s', w').
           wait_inv heard w' \<and> (\<exists>b. s' = s1\<lparr> ss_cancelled := b \<rparr>) \<and>
           (if got then ws_matched w' \<and> len = ws_matched_len w' else len = 0))"
          by (rule less.hyps [OF next1(3,1,2) w1(2)])
        then show ?thesis using step no s1 by (auto elim!: runs_mono)
      qed
    qed
  qed
qed

text \<open>
  The whole wait. It returns; the slot and the semaphore are given back on every path; a failure means
  that nothing was waited for; and a success means that the predicate accepted a frame that was delivered
  during the wait, that the length is that frame's, and that the answer is the one it left.
\<close>

definition trigger_ok :: "'c trigger ptr \<Rightarrow> bool" where
  "trigger_ok t \<longleftrightarrow>
     (case t of None \<Rightarrow> True | Some f \<Rightarrow> \<forall>c. cinv c \<longrightarrow> runs (f c) (\<lambda>c'. cinv c' \<and> answer c' = answer c))"

definition waited :: "wait_env \<Rightarrow> 'c \<Rightarrow> scanner_session \<Rightarrow> scanner_system \<Rightarrow>
    bool \<times> u16 \<times> 'c \<times> scanner_session \<times> scanner_system \<Rightarrow> bool" where
  "waited env c s sys = (\<lambda>(got, len, c', s', sys').
     cinv c' \<and> system_kept sys sys' \<and> session_kept s s' \<and>
     (ss_last_wait_failure s' \<noteq> ScannerWaitFailureNone \<longrightarrow> \<not> got \<and> c' = c \<and> ss_cancelled s' = ss_cancelled s) \<and>
     (if got then accepted (frame_heard env) len (answer c') else len = 0))"

lemma waited_failed:
  "cinv c \<Longrightarrow> sys' = sys\<lparr> sy_diagnostic := d \<rparr> \<Longrightarrow>
     waited env c s sys (False, 0, c, s\<lparr> ss_last_wait_failure := f \<rparr>, sys')"
  by (simp add: waited_def)

lemma scanner_wait_runs:
  assumes "clock_runs env" "unat timeout < 2147483648" "slots_clean (sy_slots sys)"
    and "\<forall>x. frame_heard env x \<longrightarrow> frame_ok x" "cinv c" "trigger_ok t"
  shows "runs (scanner_wait_for_packet pred c t timeout env s sys) (waited env c s sys)"
proof -
  let ?s = "s\<lparr> ss_last_wait_failure := ScannerWaitFailureNone \<rparr>"
  obtain guard diag where guard: "startup_guard_check_capture (we_free_heap env) (we_max_block env) (sy_diagnostic sys)
      semaphore_requirements StartupDiagnosticBoundaryScannerWait = (guard, diag)" by force
  show ?thesis
  proof (cases "guard = StartupGuardReady \<and> we_semaphore env")
    case False
    have "waited env c s sys (False, 0, c, s\<lparr> ss_last_wait_failure := f \<rparr>, sys\<lparr> sy_diagnostic := e \<rparr>)" for f e
      using assms(5) by (simp add: waited_failed)
    then show ?thesis using guard False
      by (cases guard) (simp_all add: scanner_wait_for_packet_def)
  next
    case ready: True
    let ?sys = "sys\<lparr> sy_diagnostic := diag, sy_semaphores := sy_semaphores sys + 1 \<rparr>"
    obtain r sys1 where reg: "register_call wait_handle ?sys = (r, sys1)" by force
    show ?thesis
    proof (cases r)
      case None
      then have "sys1 = ?sys" using register_full reg by blast
      then have "scanner_wait_for_packet pred c t timeout env s sys =
          Some (False, 0, c, s\<lparr> ss_last_wait_failure := ScannerWaitFailureRxUnavailable \<rparr>, sys\<lparr> sy_diagnostic := diag \<rparr>)"
        using guard ready reg None by (simp add: scanner_wait_for_packet_def)
      then show ?thesis using assms(5) by (simp add: waited_failed)
    next
      case (Some h)
      have restored: "unregister_call h sys1 = ?sys"
        using reg assms(3) unfolding Some by (intro register_restored [of _ wait_handle]) simp_all
      have "wait_inv (frame_heard env) (wait_state_init c)" using assms(5) by (simp add: wait_inv_def wait_state_init_def)
      then have "runs (wait_deliver pred (we_before env) (wait_state_init c)) (wait_inv (frame_heard env))"
        by (rule wait_deliver_runs) (use assms(4) in \<open>auto simp: frame_heard_def\<close>)
      then obtain w1 where w1: "wait_deliver pred (we_before env) (wait_state_init c) = Some w1"
        "wait_inv (frame_heard env) w1" by (auto simp: runs_iff)
      have "\<exists>w2. (case t of None \<Rightarrow> Some w1 | Some t \<Rightarrow> do { c \<leftarrow> t (ws_user_ctx w1); Some (w1\<lparr> ws_user_ctx := c \<rparr>) }) = Some w2 \<and>
              wait_inv (frame_heard env) w2"
        using assms(6) w1(2) by (cases t) (fastforce simp: trigger_ok_def wait_inv_def runs_iff)+
      then obtain w2 where w2: "(case t of None \<Rightarrow> Some w1 | Some t \<Rightarrow> do { c \<leftarrow> t (ws_user_ctx w1); Some (w1\<lparr> ws_user_ctx := c \<rparr>) }) = Some w2"
        "wait_inv (frame_heard env) w2" by blast
      from assms(1) obtain ms where ms: "we_start env = of_nat (ms 0)" "\<forall>j. wp_now (we_passes env j) = of_nat (ms (Suc j))"
        "\<forall>j. ms j \<le> ms (Suc j)" "\<forall>j. ms (Suc j) < ms (Suc (Suc j))" "\<forall>j. ms (Suc j) \<le> ms j + 2147483648"
        by (auto simp: clock_runs_def)
      have heard: "\<forall>j slice x. x \<in> set (wp_frames (we_passes env j) slice) \<longrightarrow> frame_ok x \<and> frame_heard env x"
        using assms(4) unfolding frame_heard_def by blast
      have "ms (Suc 0) - ms 0 < 4294967296" using ms(5) [rule_format, of 0] by simp
      then have "runs (wait_loop pred (we_passes env) timeout (we_start env) 0 ?s w2) (\<lambda>(got, len, s', w').
           wait_inv (frame_heard env) w' \<and> (\<exists>b. s' = ?s\<lparr> ss_cancelled := b \<rparr>) \<and>
           (if got then ws_matched w' \<and> len = ws_matched_len w' else len = 0))"
        unfolding ms(1) using ms(3) heard by (intro wait_loop_runs [OF ms(2-5) assms(2) _ _ _ w2(2)]) simp_all
      then obtain got len s3 w3 b where w3: "wait_loop pred (we_passes env) timeout (we_start env) 0 ?s w2 = Some (got, len, s3, w3)"
        "wait_inv (frame_heard env) w3" "s3 = ?s\<lparr> ss_cancelled := b \<rparr>"
        "if got then ws_matched w3 \<and> len = ws_matched_len w3 else len = 0"
        by (auto simp: runs_iff)
      have "runs (wait_deliver pred (we_late env) w3) (wait_inv (frame_heard env))"
        by (rule wait_deliver_runs [OF w3(2)]) (use assms(4) in \<open>auto simp: frame_heard_def\<close>)
      then obtain w4 where w4: "wait_deliver pred (we_late env) w3 = Some w4" "wait_inv (frame_heard env) w4"
        by (auto simp: runs_iff)
      have "got \<Longrightarrow> w4 = w3" using w4(1) w3(4) wait_deliver_matched by simp
      then have final: "waited env c s sys (got, len, ws_user_ctx w4, s3, sys\<lparr> sy_diagnostic := diag \<rparr>)"
        using w3 w4(2) by (simp add: waited_def wait_inv_def split: if_splits)
      have "scanner_wait_for_packet pred c t timeout env s sys =
          Some (got, len, ws_user_ctx w4, s3, sys\<lparr> sy_diagnostic := diag \<rparr>)"
        unfolding scanner_wait_for_packet_def Let_def
        by (simp add: guard ready reg [simplified] Some w1(1) w2(1) w3(1) w4(1) restored)
      then show ?thesis using final by simp
    qed
  qed
qed

end

section \<open>The cache as a queue of four bindings\<close>

text \<open>Its entries from the newest to the oldest: the one before \<open>cache_next\<close>, going round.\<close>

definition cache_order :: "scanner_session \<Rightarrow> scanner_cache_entry list" where
  "cache_order s = (let n = unat (ss_cache_next s) in rev (drop n (ss_cache s) @ take n (ss_cache s)))"

definition cache_view :: "scanner_session \<Rightarrow> (buf \<times> buf) list" where
  "cache_view s = map (\<lambda>e. (ce_ip e, ce_mac e)) (filter ce_valid (cache_order s))"

definition session_ok :: "scanner_session \<Rightarrow> bool" where
  "session_ok s \<longleftrightarrow>
     length (ss_cache s) = 4 \<and> unat (ss_cache_next s) < 4 \<and> sorted_wrt (\<lambda>e e'. ce_valid e' \<longrightarrow> ce_valid e) (cache_order s) \<and>
     (\<forall>(ip, mac)\<in>set (cache_view s). length ip = 4 \<and> length mac = 6) \<and> distinct (map fst (cache_view s)) \<and>
     length (ss_ip_gateway s) = 4 \<and> length (ss_subnet_mask s) = 4"

lemma four_elements:
  assumes "length xs = 4"
  obtains a b c d where "xs = [a, b, c, d]"
  using assms by (auto simp: numeral_eq_Suc length_Suc_conv)

lemma cache_scan_none:
  "\<forall>e\<in>set es. ce_valid e \<longrightarrow> length (ce_ip e) = 4 \<and> ce_ip e \<noteq> ip \<Longrightarrow> length ip = 4 \<Longrightarrow>
     cache_scan es ip mac = Some (False, mac)"
  by (induction es) (auto simp: rd_bytes_def)

lemma cache_scan_some:
  assumes "\<forall>e\<in>set es. ce_valid e \<longrightarrow> length (ce_ip e) = 4 \<and> length (ce_mac e) = 6 \<and> (ce_ip e = ip \<longrightarrow> ce_mac e = m)"
    and "\<exists>e\<in>set es. ce_valid e \<and> ce_ip e = ip" "length ip = 4" "length mac = 6"
  shows "cache_scan es ip mac = Some (True, m)"
  using assms(1,2)
proof (induction es)
  case (Cons e es)
  show ?case
  proof (cases "ce_valid e \<and> ce_ip e = ip")
    case True
    then have "ce_mac e = m" "length m = 6" using Cons.prems(1) by auto
    then show ?thesis using True assms(3,4) by (simp add: rd_bytes_def wr_bytes_def)
  next
    case False
    then have "cache_scan es ip mac = Some (True, m)" using Cons.prems by (intro Cons.IH) auto
    moreover have "ce_valid e \<Longrightarrow> length (ce_ip e) = 4" using Cons.prems(1) by simp
    ultimately show ?thesis using False assms(3) by (auto simp: rd_bytes_def)
  qed
qed simp

lemma set_cache_view: "set (cache_view s) = (\<lambda>e. (ce_ip e, ce_mac e)) ` {e \<in> set (ss_cache s). ce_valid e}"
proof -
  have "set (take n xs) \<union> set (drop n xs) = set xs" for n and xs :: "scanner_cache_entry list"
    by (metis append_take_drop_id set_append)
  then have "set (cache_order s) = set (ss_cache s)" by (simp add: cache_order_def Let_def Un_commute)
  then show ?thesis by (auto simp: cache_view_def)
qed

lemma in_cache_view: "e \<in> set (ss_cache s) \<Longrightarrow> ce_valid e \<Longrightarrow> (ce_ip e, ce_mac e) \<in> set (cache_view s)"
  by (simp add: set_cache_view)

lemma cache_view_shape:
  assumes "session_ok s" "e \<in> set (ss_cache s)" "ce_valid e"
  shows "length (ce_ip e) = 4" "length (ce_mac e) = 6" "map_of (cache_view s) (ce_ip e) = Some (ce_mac e)"
proof -
  have "(ce_ip e, ce_mac e) \<in> set (cache_view s)" by (rule in_cache_view [OF assms(2,3)])
  then show "length (ce_ip e) = 4" "length (ce_mac e) = 6" "map_of (cache_view s) (ce_ip e) = Some (ce_mac e)"
    using assms(1) by (auto simp: session_ok_def map_of_eq_Some_iff)
qed

lemma cache_lookup_eq:
  assumes "session_ok s" "length ip = 4" "length mac = 6"
  shows "cache_lookup s ip mac =
           Some (case map_of (cache_view s) ip of Some m \<Rightarrow> (True, m) | None \<Rightarrow> (False, mac))"
proof (cases "map_of (cache_view s) ip")
  case None
  have "cache_scan (ss_cache s) ip mac = Some (False, mac)"
    by (rule cache_scan_none) (use None cache_view_shape [OF assms(1)] assms(2) in fastforce)+
  then show ?thesis using None by (simp add: cache_lookup_def)
next
  case (Some m)
  then have "(ip, m) \<in> set (cache_view s)" by (rule map_of_SomeD)
  then have "\<exists>e\<in>set (ss_cache s). ce_valid e \<and> ce_ip e = ip" unfolding set_cache_view by blast
  then have "cache_scan (ss_cache s) ip mac = Some (True, m)"
    by (intro cache_scan_some) (use Some cache_view_shape [OF assms(1)] assms(2,3) in fastforce)+
  then show ?thesis using Some by (simp add: cache_lookup_def)
qed

lemma cache_insert_order:
  assumes "length (ss_cache s) = 4" "unat (ss_cache_next s) < 4" "length ip = 4" "length mac = 6"
  shows "\<exists>s'. cache_insert s ip mac = Some s' \<and> length (ss_cache s') = 4 \<and> unat (ss_cache_next s') < 4 \<and>
           s' = s\<lparr> ss_cache := ss_cache s', ss_cache_next := ss_cache_next s' \<rparr> \<and>
           cache_order s' = take 4 (\<lparr> ce_ip = ip, ce_mac = mac, ce_valid = True \<rparr> # cache_order s)"
proof -
  obtain a b c d where c: "ss_cache s = [a, b, c, d]" by (rule four_elements [OF assms(1)])
  consider "unat (ss_cache_next s) = 0" | "unat (ss_cache_next s) = 1" | "unat (ss_cache_next s) = 2" | "unat (ss_cache_next s) = 3"
    using assms(2) by linarith
  then show ?thesis
    using assms(3,4) by cases (simp_all add: cache_insert_def c rd_bytes_def cache_order_def)
qed

lemma filter_take_valid:
  "sorted_wrt (\<lambda>e e'. v e' \<longrightarrow> v e) xs \<Longrightarrow> filter v (take n xs) = take n (filter v xs)"
proof (induction xs arbitrary: n)
  case (Cons x xs)
  show ?case
  proof (cases "v x")
    case True
    then show ?thesis using Cons by (cases n) simp_all
  next
    case False
    then have "filter v xs = []" "\<forall>n. filter v (take n xs) = []"
      using Cons.prems by (auto simp: filter_empty_conv dest: in_set_takeD)
    then show ?thesis using False by (cases n) simp_all
  qed
qed simp

lemma cache_insert_eq:
  assumes ok: "session_ok s" and l: "length ip = 4" "length mac = 6" and new: "map_of (cache_view s) ip = None"
  shows "\<exists>s'. cache_insert s ip mac = Some s' \<and> session_ok s' \<and> cache_view s' = take 4 ((ip, mac) # cache_view s) \<and>
           s' = s\<lparr> ss_cache := ss_cache s', ss_cache_next := ss_cache_next s' \<rparr>"
proof -
  let ?e = "\<lparr> ce_ip = ip, ce_mac = mac, ce_valid = True \<rparr>"
  obtain s' where s': "cache_insert s ip mac = Some s'" "length (ss_cache s') = 4" "unat (ss_cache_next s') < 4"
    "s' = s\<lparr> ss_cache := ss_cache s', ss_cache_next := ss_cache_next s' \<rparr>" "cache_order s' = take 4 (?e # cache_order s)"
    using cache_insert_order [of s ip mac] ok l by (auto simp: session_ok_def)
  have sorted: "sorted_wrt (\<lambda>e e'. ce_valid e' \<longrightarrow> ce_valid e) (?e # cache_order s)"
    using ok by (simp add: session_ok_def)
  have view: "cache_view s' = take 4 ((ip, mac) # cache_view s)"
    unfolding cache_view_def s'(5) filter_take_valid [OF sorted] by (simp add: take_map)
  have "sorted_wrt (\<lambda>e e'. ce_valid e' \<longrightarrow> ce_valid e) (cache_order s')"
    unfolding s'(5) by (rule sorted_wrt_take [OF sorted])
  moreover have "distinct (map fst (cache_view s'))"
  proof -
    have "distinct (map fst ((ip, mac) # cache_view s))"
      using ok new by (auto simp: session_ok_def map_of_eq_None_iff)
    then show ?thesis unfolding view take_map [symmetric] by (rule distinct_take)
  qed
  moreover have "\<forall>(i, m)\<in>set (cache_view s'). length i = 4 \<and> length m = 6"
    using ok l unfolding view by (fastforce simp: session_ok_def dest: in_set_takeD)
  moreover have "ss_ip_gateway s' = ss_ip_gateway s" "ss_subnet_mask s' = ss_subnet_mask s"
    by (subst s'(4), simp)+
  ultimately show ?thesis using s'(1-4) view ok by (auto simp: session_ok_def)
qed

lemma session_ok_init:
  assumes "length (ss_cache s) = 4" "length ip = 4" "length net = 4"
  shows "session_ok (scanner_session_init ip mac net s)" "cache_view (scanner_session_init ip mac net s) = []"
proof -
  have "filter ce_valid (rev (map (ce_valid_update (\<lambda>_. False)) (ss_cache s))) = []"
    by (auto simp: filter_empty_conv)
  then show "cache_view (scanner_session_init ip mac net s) = []"
    by (simp add: cache_view_def cache_order_def scanner_session_init_def)
  moreover have "sorted_wrt (\<lambda>e e'. ce_valid e' \<longrightarrow> ce_valid e) (rev (map (ce_valid_update (\<lambda>_. False)) (ss_cache s)))"
    by (simp add: sorted_wrt_iff_nth_less rev_nth)
  ultimately show "session_ok (scanner_session_init ip mac net s)"
    using assms by (simp add: session_ok_def cache_order_def scanner_session_init_def)
qed

section \<open>Resolving, with the ARP predicate\<close>

lemma send_packet_station:
  "honest_bank chip \<Longrightarrow> same_station d d1 \<Longrightarrow> 0 < len \<Longrightarrow> unat len \<le> length b \<Longrightarrow>
     runs (send_packet chip b len d1) (same_station d)"
  by (rule runs_mono [OF send_packet_sends]) (auto simp: same_station_def)

definition arp_waiting :: "arp_globals \<Rightarrow> enc28j60 \<Rightarrow> buf \<Rightarrow> arp_reply_match_ctx \<times> arp_world \<Rightarrow> bool" where
  "arp_waiting g d ip = (\<lambda>(c, g', d').
     g' = g \<and> arp_globals_ok g \<and> same_station d d' \<and> am_target_ip c = ip \<and> length ip = 4 \<and> length (am_target_mac c) = 6)"

definition whole_frame :: "buf \<times> u16 \<Rightarrow> bool" where
  "whole_frame x \<longleftrightarrow> unat (snd x) \<le> length (fst x)"

lemma arp_reply_match_step:
  assumes "arp_waiting g d ip c" "whole_frame (f, len)"
  shows "arp_reply_match f len c =
           Some (if arp_reply_accepted g ip f len
                 then (True, (fst c)\<lparr> am_target_mac := take 6 (drop 22 f) \<rparr>, snd c) else (False, c))"
  using assms by (cases c) (simp add: arp_reply_match_def arp_waiting_def whole_frame_def arp_reply_match_eq)

lemma accepted_mac: "arp_reply_accepted g ip f len \<Longrightarrow> unat len \<le> length f \<Longrightarrow> length (take 6 (drop 22 f)) = 6"
  by (auto simp: arp_reply_accepted_def)

interpretation arp_wait: packet_client arp_reply_match "arp_waiting g d ip" whole_frame fst for g d ip
proof
  fix c f len assume c: "arp_waiting g d ip c" "whole_frame (f, len)"
  show "runs (arp_reply_match f len c) (\<lambda>(ok, c'). arp_waiting g d ip c')"
    unfolding arp_reply_match_step [OF c]
    using c accepted_mac [of g ip f len] by (cases c) (simp add: arp_waiting_def whole_frame_def)
qed

lemma arp_trigger_ok:
  assumes "honest_bank chip" "0 < len" "unat len \<le> length b"
  shows "arp_wait.trigger_ok g d ip (Some (scanner_send_packet_trigger chip b len))"
proof -
  have "runs (scanner_send_packet_trigger chip b len c) (\<lambda>c'. arp_waiting g d ip c' \<and> fst c' = fst c)"
    if "arp_waiting g d ip c" for c
  proof -
    obtain a g' d1 where c: "c = (a, g', d1)" by (cases c)
    have "runs (send_packet chip b len d1) (same_station d)"
      using that by (intro send_packet_station [OF assms(1) _ assms(2,3)]) (simp add: arp_waiting_def c)
    then show ?thesis using that by (auto simp: scanner_send_packet_trigger_def arp_waiting_def c runs_iff)
  qed
  then show ?thesis by (simp add: arp_wait.trigger_ok_def)
qed

text \<open>
  The answer of a successful wait is in a frame that was heard and that has the bytes \<open>get_arp_reply\<close>
  looks at; that the frame is an ARP frame is not known, since the code does not look at its EtherType.
\<close>

definition arp_answered :: "wait_env \<Rightarrow> arp_globals \<Rightarrow> buf \<Rightarrow> buf \<Rightarrow> bool" where
  "arp_answered env g ip mac \<longleftrightarrow>
     (\<exists>f len. frame_heard env (f, len) \<and> arp_reply_accepted g ip f len \<and> mac = take 6 (drop 22 f))"

definition quiet_env :: "wait_env \<Rightarrow> bool" where
  "quiet_env env \<longleftrightarrow> clock_runs env \<and> (\<forall>x. frame_heard env x \<longrightarrow> whole_frame x)"

lemma arp_wait_runs:
  assumes "honest_bank chip" "0 < len" "unat len \<le> length b" "quiet_env env" "unat timeout < 2147483648"
    and "slots_clean (sy_slots sys)" "arp_waiting g d ip c"
  shows "runs (scanner_wait_for_packet arp_reply_match c (Some (scanner_send_packet_trigger chip b len)) timeout env s sys)
           (\<lambda>(got, n, c', s', sys'). arp_waiting g d ip c' \<and> system_kept sys sys' \<and> session_kept s s' \<and>
              (got \<longrightarrow> arp_answered env g ip (am_target_mac (fst c'))))"
proof -
  have "runs (scanner_wait_for_packet arp_reply_match c (Some (scanner_send_packet_trigger chip b len)) timeout env s sys)
      (arp_wait.waited g d ip env c s sys)"
    using assms(4-7) arp_trigger_ok [OF assms(1-3)]
    by (intro arp_wait.scanner_wait_runs) (simp_all add: quiet_env_def)
  moreover have "arp_answered env g ip (am_target_mac a)" if "arp_wait.accepted g d ip (frame_heard env) n a" for n a
  proof -
    from that obtain f c1 c2 where f: "frame_heard env (f, n)" "arp_waiting g d ip c1"
      "arp_reply_match f n c1 = Some (True, c2)" "fst c2 = a" by (auto simp: arp_wait.accepted_def)
    have w: "whole_frame (f, n)" using f(1) assms(4) by (simp add: quiet_env_def)
    from f(3,4) show ?thesis unfolding arp_reply_match_step [OF f(2) w] arp_answered_def
      using f(1) by (auto split: if_splits intro!: exI [of _ f] exI [of _ n])
  qed
  ultimately show ?thesis by (elim runs_mono) (auto simp: arp_wait.waited_def)
qed

lemma resolve_attempts_runs:
  assumes "honest_bank chip" "0 < len" "unat len \<le> length b" "slots_clean (sy_slots sys)" "arp_waiting g d ip c"
    and "\<forall>x\<in>set envs. quiet_env (snd x)"
  shows "runs (resolve_attempts chip b len envs c s sys)
           (\<lambda>(ok, c', s', sys'). arp_waiting g d ip c' \<and> system_kept sys sys' \<and> session_kept s s' \<and>
              (ok \<longrightarrow> (\<exists>x\<in>set envs. arp_answered (snd x) g ip (am_target_mac (fst c')))))"
  using assms(4-6)
proof (induction envs arbitrary: c s sys)
  case (Cons x envs)
  obtain p env where x: "x = (p, env)" by force
  obtain cancel s1 where poll: "cancel_poll p s = (cancel, s1)" by force
  have s1: "session_kept s s1" by (rule cancel_poll_kept [OF poll])
  show ?case
  proof (cases cancel)
    case True
    then show ?thesis using poll s1 Cons.prems(2) by (simp add: x)
  next
    case False
    have "quiet_env env" using Cons.prems(3) by (simp add: x)
    from arp_wait_runs [OF assms(1-3) this _ Cons.prems(1,2), of 2000 s1] obtain got n c2 s2 sys2 where w:
      "scanner_wait_for_packet arp_reply_match c (Some (scanner_send_packet_trigger chip b len)) 2000 env s1 sys = Some (got, n, c2, s2, sys2)"
      "arp_waiting g d ip c2" "system_kept sys sys2" "session_kept s1 s2"
      "got \<longrightarrow> arp_answered env g ip (am_target_mac (fst c2))" by (auto simp: runs_iff)
    have s2: "session_kept s s2" by (rule session_kept_trans [OF s1 w(4)])
    show ?thesis
    proof (cases got)
      case True
      then show ?thesis using poll False w s2 by (simp add: x)
    next
      case no: False
      have clean: "slots_clean (sy_slots sys2)" using w(3) Cons.prems(1) by (simp add: system_kept_def)
      have "runs (resolve_attempts chip b len envs c2 s2 sys2)
           (\<lambda>(ok, c', s', sys'). arp_waiting g d ip c' \<and> system_kept sys2 sys' \<and> session_kept s2 s' \<and>
              (ok \<longrightarrow> (\<exists>x\<in>set envs. arp_answered (snd x) g ip (am_target_mac (fst c')))))"
        by (rule Cons.IH [OF clean w(2)]) (use Cons.prems(3) in simp)
      then show ?thesis using poll False no w(1) session_kept_trans [OF s2] system_kept_trans [OF w(3)]
        by (auto simp: x elim!: runs_mono)
    qed
  qed
qed simp

section \<open>Properties\<close>

text \<open>Two addresses agree on the bits of the network.\<close>

definition on_link :: "buf \<Rightarrow> buf \<Rightarrow> buf \<Rightarrow> bool" where
  "on_link a b net \<longleftrightarrow> map2 (AND) a net = map2 (AND) b net"

lemma same_subnet_eq:
  assumes "length a = 4" "length b = 4" "length net = 4"
  shows "same_subnet a b net = Some (on_link a b net)"
proof -
  obtain a0 a1 a2 a3 where "a = [a0, a1, a2, a3]" by (rule four_elements [OF assms(1)])
  moreover obtain b0 b1 b2 b3 where "b = [b0, b1, b2, b3]" by (rule four_elements [OF assms(2)])
  moreover obtain n0 n1 n2 n3 where "net = [n0, n1, n2, n3]" by (rule four_elements [OF assms(3)])
  ultimately show ?thesis by (simp add: same_subnet_def rd_def on_link_def)
qed

definition next_hop :: "scanner_session \<Rightarrow> enc28j60 \<Rightarrow> buf \<Rightarrow> buf" where
  "next_hop s d target = (if on_link target (enc_ip_address d) (ss_subnet_mask s) then target else ss_ip_gateway s)"

text \<open>
  C32. The session's cache is a queue of at most four bindings. A lookup in the code's array of
  slots is the lookup in the bindings from the newest to the oldest; an insertion of an address that is
  not bound puts its binding in front and drops the oldest beyond four; a new session's queue is empty.
\<close>

theorem scanner_cache_refines_queue:
  assumes "session_ok s" "length ip = 4" "length mac = 6"
  shows "cache_lookup s ip mac = Some (case map_of (cache_view s) ip of Some m \<Rightarrow> (True, m) | None \<Rightarrow> (False, mac)) \<and>
         (map_of (cache_view s) ip = None \<longrightarrow>
            (\<exists>s'. cache_insert s ip mac = Some s' \<and> session_ok s' \<and> cache_view s' = take 4 ((ip, mac) # cache_view s))) \<and>
         length (cache_view s) \<le> 4 \<and>
         cache_view (scanner_session_init (ss_ip_gateway s) mac (ss_subnet_mask s) s) = []"
proof -
  have "length (cache_view s) \<le> length (cache_order s)" by (simp add: cache_view_def)
  also have "\<dots> = 4" using assms(1) by (simp add: session_ok_def cache_order_def Let_def)
  finally have "length (cache_view s) \<le> 4" .
  then show ?thesis
    using cache_lookup_eq [OF assms] cache_insert_eq [OF assms] session_ok_init(2) [of s] assms(1)
    by (auto simp: session_ok_def)
qed

text \<open>A resolution, with what its callers go on from.\<close>

lemma scanner_resolve_runs:
  assumes "honest_bank chip" "driver_idle d" "length (enc_ip_address d) = 4" "arp_globals_ok g" "session_ok s"
    and "slots_clean (sy_slots sys)" "\<forall>x\<in>set envs. quiet_env (snd x)" "length target = 4" "length mac = 6"
  shows "\<exists>ok mac' s' g' d' sys'.
     scanner_resolve_next_hop chip target is_gateway mac envs s (g, d) sys = Some (ok, mac', s', (g', d'), sys') \<and>
     session_ok s' \<and> same_station d d' \<and> system_kept sys sys' \<and> arp_globals_ok g' \<and> length mac' = 6 \<and>
     (case map_of (cache_view s) (next_hop s d target) of
        Some m \<Rightarrow> ok \<and> mac' = m \<and> s' = s \<and> d' = d
      | None \<Rightarrow>
          if ok then cache_view s' = take 4 ((next_hop s d target, mac') # cache_view s) \<and>
                     ag_my_ip g' = enc_ip_address d \<and>
                     (\<exists>x\<in>set envs. arp_answered (snd x) g' (next_hop s d target) mac') \<and>
                     ss_mac_gateway s' = (if next_hop s d target = target \<and> on_link target (enc_ip_address d) (ss_subnet_mask s) \<and> \<not> is_gateway
                                          then ss_mac_gateway s else mac')
          else cache_view s' = cache_view s \<and> ss_mac_gateway s' = ss_mac_gateway s)"
proof -
  let ?hop = "next_hop s d target"
  let ?local = "on_link target (enc_ip_address d) (ss_subnet_mask s)"
  have hop: "length ?hop = 4" using assms(5,8) by (simp add: next_hop_def session_ok_def)
  have subnet: "same_subnet target (enc_ip_address d) (ss_subnet_mask s) = Some ?local"
    using assms(3,5,8) by (intro same_subnet_eq) (simp_all add: session_ok_def)
  note lookup = cache_lookup_eq [OF assms(5) hop assms(9)]
  show ?thesis
  proof (cases "map_of (cache_view s) ?hop")
    case (Some m)
    then have "scanner_resolve_next_hop chip target is_gateway mac envs s (g, d) sys = Some (True, m, s, (g, d), sys)"
      using subnet lookup by (simp add: scanner_resolve_next_hop_def next_hop_def)
    moreover have "length m = 6" using assms(5) map_of_SomeD [OF Some] by (auto simp: session_ok_def)
    ultimately show ?thesis using Some assms(2,4,5) by (auto simp: same_station_refl)
  next
    case None
    let ?g = "g\<lparr> ag_my_mac := enc_mac_address d, ag_my_ip := enc_ip_address d \<rparr>"
    have mac: "length (enc_mac_address d) = 6" using assms(2) by (simp add: driver_idle_def)
    have g: "arp_globals_ok ?g" using assms(3,4) mac by (simp add: arp_globals_ok_def)
    obtain request where request: "set_arp_request ?g (Some (replicate 42 0)) 0 (Some ?hop) = Some (True, Some request, 42)"
      "length request = 42"
      using set_arp_request_eq [OF g _ hop, of "replicate 42 0" 0] g hop
      by (simp add: length_arp_frame wf_arp_fields arp_globals_ok_def)
    let ?c = "(\<lparr> am_target_ip = ?hop, am_target_mac = mac \<rparr>, ?g, d)"
    have "arp_waiting ?g d ?hop ?c" using g hop assms(2,9) by (simp add: arp_waiting_def same_station_refl)
    moreover have "\<forall>x\<in>set (take 10 envs). quiet_env (snd x)" using assms(7) by (auto dest: in_set_takeD)
    ultimately have "runs (resolve_attempts chip request 42 (take 10 envs) ?c s sys)
           (\<lambda>(ok, c', s', sys'). arp_waiting ?g d ?hop c' \<and> system_kept sys sys' \<and> session_kept s s' \<and>
              (ok \<longrightarrow> (\<exists>x\<in>set (take 10 envs). arp_answered (snd x) ?g ?hop (am_target_mac (fst c')))))"
      by (intro resolve_attempts_runs assms(1,6)) (simp_all add: request(2))
    then obtain ok c' g' d' s1 sys1 where tries: "resolve_attempts chip request 42 (take 10 envs) ?c s sys = Some (ok, (c', g', d'), s1, sys1)"
      "arp_waiting ?g d ?hop (c', g', d')" "system_kept sys sys1" "session_kept s s1"
      "ok \<longrightarrow> (\<exists>x\<in>set (take 10 envs). arp_answered (snd x) ?g ?hop (am_target_mac c'))"
      by (simp only: runs_iff split_paired_Ex prod.case fst_conv) blast
    have answered: "ok \<longrightarrow> (\<exists>x\<in>set envs. arp_answered (snd x) ?g ?hop (am_target_mac c'))"
      using tries(5) by (meson in_set_takeD)
    have s1: "session_ok s1" "cache_view s1 = cache_view s" "ss_mac_gateway s1 = ss_mac_gateway s"
      using tries(4) assms(5) by (simp_all add: session_kept_def session_ok_def cache_view_def cache_order_def)
    have c': "g' = ?g" "same_station d d'" "length (am_target_mac c') = 6" using tries(2) by (simp_all add: arp_waiting_def)
    obtain s2 where s2: "cache_insert s1 ?hop (am_target_mac c') = Some s2" "session_ok s2"
      "cache_view s2 = take 4 ((?hop, am_target_mac c') # cache_view s)" "s2 = s1\<lparr> ss_cache := ss_cache s2, ss_cache_next := ss_cache_next s2 \<rparr>"
      using cache_insert_eq [OF s1(1) hop c'(3)] None s1(2) by auto
    have kept: "ss_mac_gateway s2 = ss_mac_gateway s" by (subst s2(4)) (simp add: s1(3))
    have view: "session_ok (s2\<lparr> ss_mac_gateway := m \<rparr>)" "cache_view (s2\<lparr> ss_mac_gateway := m \<rparr>) = cache_view s2" for m
      using s2(2) by (simp_all add: session_ok_def cache_view_def cache_order_def)
    let ?s = "if ok then (if \<not> ?local \<or> is_gateway then s2\<lparr> ss_mac_gateway := am_target_mac c' \<rparr> else s2) else s1"
    have result: "scanner_resolve_next_hop chip target is_gateway mac envs s (g, d) sys =
        Some (ok, am_target_mac c', ?s, (g', d'), sys1)"
      using subnet lookup None mac assms(3) request(1) tries(1) s2(1) c'(3)
      by (simp add: scanner_resolve_next_hop_def next_hop_def [symmetric] arp_set_my_mac_address_def
          arp_set_my_ip_address_def rd_bytes_def Let_def)
    have ok: "session_ok ?s" using s1(1) s2(2) view(1) by simp
    have away: "\<not> ?local \<Longrightarrow> ?hop = ss_ip_gateway s" "?local \<Longrightarrow> ?hop = target" by (simp_all add: next_hop_def)
    have found: "if ok then cache_view ?s = take 4 ((?hop, am_target_mac c') # cache_view s) \<and> ag_my_ip g' = enc_ip_address d \<and>
           (\<exists>x\<in>set envs. arp_answered (snd x) g' ?hop (am_target_mac c')) \<and>
           ss_mac_gateway ?s = (if ?hop = target \<and> ?local \<and> \<not> is_gateway then ss_mac_gateway s else am_target_mac c')
         else cache_view ?s = cache_view s \<and> ss_mac_gateway ?s = ss_mac_gateway s"
      using s1(2,3) s2(3) kept view(2) c'(1) answered away by (cases ok) simp_all
    show ?thesis
      by (rule exI [of _ ok], rule exI [of _ "am_target_mac c'"], rule exI [of _ ?s], rule exI [of _ g'], rule exI [of _ d'],
          rule exI [of _ sys1]) (use result ok found None c' g tries(3) in simp)
  qed
qed

text \<open>
  C33. Resolving the next hop is sound and returns. The hop is the target on the own network and
  the gateway otherwise. A hop that is in the cache is answered from it and nothing is sent. Otherwise the call ends,
  whatever frames arrive and at whichever step; a success means that a frame was heard that \<open>get_arp_reply\<close>
  takes for a reply of the hop: at least 42 bytes, opcode 2 at offset 20, the hop's address at 28 and the own one
  at 38 (the code does not test the EtherType, so it need not be an ARP frame). The bytes at 22 of that frame
  are the answer and the newest binding, and the gateway's address is kept in step; a failure leaves
  both alone. Slots and semaphores are given back.
\<close>

theorem scanner_resolve_next_hop_sound:
  assumes "honest_bank chip" "driver_idle d" "length (enc_ip_address d) = 4" "arp_globals_ok g" "session_ok s"
    and "slots_clean (sy_slots sys)" "\<forall>x\<in>set envs. quiet_env (snd x)" "length target = 4" "length mac = 6"
  shows "\<exists>ok mac' s' g' d' sys'.
     scanner_resolve_next_hop chip target is_gateway mac envs s (g, d) sys = Some (ok, mac', s', (g', d'), sys') \<and>
     session_ok s' \<and> same_station d d' \<and> system_kept sys sys' \<and>
     (case map_of (cache_view s) (next_hop s d target) of
        Some m \<Rightarrow> ok \<and> mac' = m \<and> s' = s \<and> d' = d
      | None \<Rightarrow>
          if ok then cache_view s' = take 4 ((next_hop s d target, mac') # cache_view s) \<and>
                     ag_my_ip g' = enc_ip_address d \<and>
                     (\<exists>x\<in>set envs. arp_answered (snd x) g' (next_hop s d target) mac') \<and>
                     ss_mac_gateway s' = (if next_hop s d target = target \<and> on_link target (enc_ip_address d) (ss_subnet_mask s) \<and> \<not> is_gateway
                                          then ss_mac_gateway s else mac')
          else cache_view s' = cache_view s \<and> ss_mac_gateway s' = ss_mac_gateway s)"
  using scanner_resolve_runs [OF assms, of is_gateway] by (elim exE conjE) (intro exI conjI, assumption+)

section \<open>Examples\<close>

text \<open>
  A session whose gateway is 10.0.0.1, an environment in which the gateway's reply arrives in the
  first pass, and one in which nothing arrives.
\<close>

definition example_session :: scanner_session where
  "example_session =
     \<lparr> ss_ip_gateway = [10, 0, 0, 1], ss_mac_gateway = replicate 6 0, ss_subnet_mask = [255, 255, 255, 0],
       ss_cache = replicate 4 \<lparr> ce_ip = [], ce_mac = [], ce_valid = False \<rparr>, ss_cache_next = 0, ss_cancelled = False,
       ss_external_cancel = False, ss_app_shutdown = True, ss_last_wait_failure = ScannerWaitFailureNone \<rparr>"

definition example_reply :: buf where
  "example_reply = [2, 0, 0, 0, 0, 1] @ [2, 0, 0, 0, 0, 9] @ [8, 6] @ [0, 1, 8, 0, 6, 4, 0, 2] @
     [2, 0, 0, 0, 0, 9] @ [10, 0, 0, 1] @ [2, 0, 0, 0, 0, 1] @ [10, 0, 0, 2]"

definition example_env :: "frames \<Rightarrow> wait_env" where
  "example_env fs =
     \<lparr> we_free_heap = 5000, we_max_block = 4000, we_semaphore = True, we_failed_free = 0, we_failed_block = 0,
       we_before = [], we_start = 0,
       we_passes = (\<lambda>i. \<lparr> wp_now = of_nat (50 * (i + 1)),
          wp_poll = \<lparr> po_app_shutdown = False, po_external_cancel = False, po_back_pin = True \<rparr>,
          wp_now2 = of_nat (50 * (i + 1)), wp_frames = (\<lambda>_. fs) \<rparr>),
       we_late = [] \<rparr>"

definition example_system :: scanner_system where
  "example_system =
     \<lparr> sy_diagnostic = \<lparr> sd_free_heap = 0, sd_max_block = 0, sd_required_total = 0, sd_required_block = 0,
          sd_result = StartupDiagnosticResultNone, sd_boundary = StartupDiagnosticBoundaryNone, sd_valid = False \<rparr>,
       sy_rx_mutex = True, sy_slots = replicate 8 rx_handle_zero, sy_semaphores = 0 \<rparr>"

lemma example_clock: "clock_runs (example_env fs)"
  unfolding clock_runs_def by (rule exI [of _ "\<lambda>i. 50 * i"]) (simp add: example_env_def)

lemma example_quiet: "\<forall>x\<in>set fs. whole_frame x \<Longrightarrow> quiet_env (example_env fs)"
  by (simp add: quiet_env_def example_clock frame_heard_def) (auto simp: example_env_def)

lemma example_session_ok: "session_ok example_session" "cache_view example_session = []"
  by (simp_all add: session_ok_def example_session_def cache_view_def cache_order_def numeral_eq_Suc)

lemma example_addresses: "length (enc_ip_address example_driver) = 4"
  by (simp add: example_driver_def)

lemma scanner_cache_refines_queue_witness:
  "cache_lookup example_session [10, 0, 0, 1] (replicate 6 0) = Some (False, replicate 6 0) \<and>
   (\<exists>s'. cache_insert example_session [10, 0, 0, 1] [2, 0, 0, 0, 0, 9] = Some s' \<and>
      cache_view s' = [([10, 0, 0, 1], [2, 0, 0, 0, 0, 9])])"
  using scanner_cache_refines_queue [OF example_session_ok(1), of "[10, 0, 0, 1]" "replicate 6 0"]
    scanner_cache_refines_queue [OF example_session_ok(1), of "[10, 0, 0, 1]" "[2, 0, 0, 0, 0, 9]"]
  by (auto simp: example_session_ok(2))

lemma scanner_resolve_next_hop_sound_witness:
  "\<exists>ok mac' s' g' d' sys'.
     scanner_resolve_next_hop example_chip [93, 184, 216, 34] False (replicate 6 0)
       (replicate 10 (\<lparr> po_app_shutdown = False, po_external_cancel = False, po_back_pin = True \<rparr>,
          example_env [(example_reply, 42)])) example_session (arp_globals_init, example_driver) example_system =
       Some (ok, mac', s', (g', d'), sys') \<and>
     system_kept example_system sys' \<and>
     (if ok then cache_view s' = [([10, 0, 0, 1], mac')] \<and> ss_mac_gateway s' = mac'
      else cache_view s' = [])"
proof -
  have "quiet_env (example_env [(example_reply, 42)])"
    by (rule example_quiet) (simp add: whole_frame_def example_reply_def)
  then have quiet: "\<forall>x\<in>set (replicate 10 (\<lparr> po_app_shutdown = False, po_external_cancel = False, po_back_pin = True \<rparr>,
      example_env [(example_reply, 42)])). quiet_env (snd x)" by simp
  have clean: "slots_clean (sy_slots example_system)" by (simp add: slots_clean_def example_system_def)
  have hop: "next_hop example_session example_driver [93, 184, 216, 34] = [10, 0, 0, 1]"
    by (simp add: next_hop_def on_link_def example_session_def example_driver_def)
  have globals: "arp_globals_ok arp_globals_init" by (simp add: arp_globals_ok_def arp_globals_init_def)
  have l: "length ([93, 184, 216, 34] :: buf) = 4" "length (replicate 6 0 :: buf) = 6" by simp_all
  show ?thesis
    using scanner_resolve_next_hop_sound [OF example_chip_ok(1) example_driver_ok example_addresses globals
        example_session_ok(1) clean quiet l, of False]
    by - (elim exE conjE, intro exI conjI, assumption, assumption, simp add: hop example_session_ok(2) split: if_splits)
qed

end
