(* ===== verification/Arp_Scan.thy ===== *)
theory Arp_Scan
  imports Scanner_Session "HOL-Library.Sublist"
begin

text \<open>
  \<open>arp_scan_network\<close> of \<open>modules/arp_module.c\<close>: one ARP request after the other for a range of
  addresses, each with its wait through the scanner session, and the list of the hosts from which a matching frame came.
\<close>

section \<open>The scan\<close>

text \<open>The end of the loop's body: past 255 the third byte is raised and the fourth goes on from 1.\<close>

definition next_address :: "buf \<Rightarrow> buf option" where
  "next_address start_list =
     do { last_byte \<leftarrow> rd start_list 3;
          start_list \<leftarrow> (if last_byte = 255
             then do { third \<leftarrow> rd start_list 2;
                       start_list \<leftarrow> wr_bytes start_list 2 [third + 1];
                       wr_bytes start_list 3 [1] }
             else Some start_list);
          last_byte \<leftarrow> rd start_list 3;
          wr_bytes start_list 3 [last_byte + 1] }"

text \<open>One environment for each pass. The result has the list, the counter, the transmit buffer and the session.\<close>

fun arp_scan_loop ::
  "chip \<Rightarrow> (scanner_poll \<times> wait_env) list \<Rightarrow> arp_list list \<Rightarrow> u8 \<Rightarrow> buf \<Rightarrow> buf \<Rightarrow> u16 \<Rightarrow> scanner_session \<Rightarrow> arp_world \<Rightarrow>
   scanner_system \<Rightarrow> (arp_list list \<times> u8 \<times> buf \<times> scanner_session \<times> arp_world \<times> scanner_system) option" where
  "arp_scan_loop chip [] list counter start_list tx_buffer packet_len s w sys =
     Some (list, counter, tx_buffer, s, w, sys)"
| "arp_scan_loop chip ((p, env) # rest) list counter start_list tx_buffer packet_len s (g, d) sys =
     (let (cancel, s) = cancel_poll p s in
      if cancel then Some (list, counter, tx_buffer, s, (g, d), sys)
      else do { (_, tx, packet_len) \<leftarrow> set_arp_request g (Some tx_buffer) packet_len (Some start_list);
                (case tx of
                   None \<Rightarrow> None
                 | Some tx_buffer \<Rightarrow>
                     if unat counter < length list
                     then do { (got, n, (c, g, d), s, sys) \<leftarrow>
                                 scanner_wait_for_packet arp_reply_match
                                   (\<lparr> am_target_ip = start_list, am_target_mac = al_mac (list ! unat counter) \<rparr>, g, d)
                                   (Some (scanner_send_packet_trigger chip tx_buffer packet_len)) 1000 env s sys;
                               let list = list[unat counter := (list ! unat counter)\<lparr> al_mac := am_target_mac c \<rparr>];
                               if \<not> got \<and> scanner_session_get_last_wait_failure s \<noteq> ScannerWaitFailureNone
                               then Some (list, counter, tx_buffer, s, (g, d), sys)
                               else do { ip \<leftarrow> rd_bytes start_list 0 4;
                                         let list = (if got then list[unat counter := (list ! unat counter)\<lparr> al_ip := ip \<rparr>] else list);
                                         let counter = (if got then counter + 1 else counter);
                                         if ss_cancelled s then Some (list, counter, tx_buffer, s, (g, d), sys)
                                         else do { start_list \<leftarrow> next_address start_list;
                                                   arp_scan_loop chip rest list counter start_list tx_buffer packet_len s (g, d) sys } } }
                     else None) })"

text \<open>The environments are as many as \<open>range\<close>, here \<open>count_of\<close>.\<close>

definition arp_scan_network ::
  "chip \<Rightarrow> (scanner_poll \<times> wait_env) list \<Rightarrow> arp_list list \<Rightarrow> buf \<Rightarrow> u8 \<Rightarrow> buf \<Rightarrow> scanner_session \<Rightarrow> arp_world \<Rightarrow>
   scanner_system \<Rightarrow> (arp_list list \<times> u8 \<times> buf \<times> scanner_session \<times> arp_world \<times> scanner_system) option" where
  "arp_scan_network chip envs list init_ip count_of tx_buffer s w sys =
     (case w of (g, d) \<Rightarrow>
      do { g \<leftarrow> arp_set_my_mac_address (Some (enc_mac_address d)) g;
           g \<leftarrow> arp_set_my_ip_address (Some (enc_ip_address d)) g;
           start_list \<leftarrow> rd_bytes init_ip 0 4;
           arp_scan_loop chip (take (unat count_of) envs) list 0 start_list tx_buffer 0 s (g, d) sys })"

section \<open>The addresses of a scan\<close>

definition address_after :: "buf \<Rightarrow> buf" where
  "address_after ip = (if ip ! 3 = 255 then [ip ! 0, ip ! 1, ip ! 2 + 1, 2] else [ip ! 0, ip ! 1, ip ! 2, ip ! 3 + 1])"

fun sweep :: "buf \<Rightarrow> nat \<Rightarrow> buf list" where
  "sweep ip 0 = []"
| "sweep ip (Suc n) = ip # sweep (address_after ip) n"

lemma next_address_eq: "length ip = 4 \<Longrightarrow> next_address ip = Some (address_after ip)"
  by (erule four_elements) (simp add: next_address_def address_after_def rd_def wr_bytes_def)

lemma length_address_after [simp]: "length (address_after ip) = 4"
  by (simp add: address_after_def)

text \<open>The hosts that a part of a scan has found.\<close>

definition found_hosts :: "(scanner_poll \<times> wait_env) list \<Rightarrow> arp_globals \<Rightarrow> buf \<Rightarrow> arp_list list \<Rightarrow> bool" where
  "found_hosts envs g ip hosts \<longleftrightarrow>
     subseq (map al_ip hosts) (sweep ip (length envs)) \<and>
     (\<forall>h\<in>set hosts. \<exists>x\<in>set envs. arp_answered (snd x) g (al_ip h) (al_mac h))"

lemma found_hosts_nil [simp]: "found_hosts envs g ip []"
  by (simp add: found_hosts_def)

lemma found_hosts_skip: "found_hosts envs g (address_after ip) hosts \<Longrightarrow> found_hosts (x # envs) g ip hosts"
  by (auto simp: found_hosts_def)

lemma found_hosts_add:
  "arp_answered (snd x) g ip (al_mac h) \<Longrightarrow> al_ip h = ip \<Longrightarrow> found_hosts envs g (address_after ip) hosts \<Longrightarrow>
     found_hosts (x # envs) g ip (h # hosts)"
  by (auto simp: found_hosts_def)

text \<open>A pass that waits: the frame that was accepted, or the list with at most its entry's hardware address changed.\<close>

lemma arp_scan_loop_runs:
  assumes "honest_bank chip" "arp_globals_ok g" "\<forall>x\<in>set envs. quiet_env (snd x)" "slots_clean (sy_slots sys)"
    and "same_station d0 d" "length ip = 4" "42 \<le> length tx" "\<forall>h\<in>set list. length (al_mac h) = 6"
    and "unat counter + length envs \<le> length list" "unat counter + length envs < 256"
  shows "runs (arp_scan_loop chip envs list counter ip tx len s (g, d) sys)
           (\<lambda>(list', counter', tx', s', (g', d'), sys').
              g' = g \<and> same_station d0 d' \<and> system_kept sys sys' \<and> session_kept s s' \<and> length list' = length list \<and>
              unat counter \<le> unat counter' \<and> unat counter' \<le> unat counter + length envs \<and>
              take (unat counter) list' = take (unat counter) list \<and>
              found_hosts envs g ip (drop (unat counter) (take (unat counter') list')))"
  using assms(3-)
proof (induction envs arbitrary: list counter ip tx len s d sys)
  case (Cons x envs)
  obtain p env where x: "x = (p, env)" by force
  obtain cancel s1 where poll: "cancel_poll p s = (cancel, s1)" by force
  have s1: "session_kept s s1" by (rule cancel_poll_kept [OF poll])
  show ?case
  proof (cases cancel)
    case True
    then show ?thesis using poll s1 Cons.prems(3) by (simp add: x)
  next
    case False
    let ?i = "unat counter"
    let ?tx = "arp_frame MAC_BROADCAST (ag_my_mac g) (arp_fields (ag_my_mac g) MAC_ZEROS (ag_my_ip g) ip 1) @ drop 42 tx"
    let ?c = "(\<lparr> am_target_ip = ip, am_target_mac = al_mac (list ! ?i) \<rparr>, g, d)"
    have i: "?i < length list" using Cons.prems(7) by simp
    have mac: "length (al_mac (list ! ?i)) = 6" using Cons.prems(6) i by simp
    have tx: "set_arp_request g (Some tx) len (Some ip) = Some (True, Some ?tx, 42)" "42 \<le> length ?tx"
      using set_arp_request_eq [OF assms(2) Cons.prems(5,4)] assms(2) Cons.prems(4)
      by (simp_all add: length_arp_frame wf_arp_fields arp_globals_ok_def)
    have "quiet_env env" "arp_waiting g d0 ip ?c"
      using Cons.prems(1,3,4) assms(2) mac by (simp_all add: x arp_waiting_def)
    from arp_wait_runs [OF assms(1) _ _ this(1) _ Cons.prems(2) this(2), of 42 ?tx 1000 s1] tx(2)
    obtain got n c g1 d1 s2 sys2 where w:
      "scanner_wait_for_packet arp_reply_match ?c (Some (scanner_send_packet_trigger chip ?tx 42)) 1000 env s1 sys = Some (got, n, (c, g1, d1), s2, sys2)"
      "arp_waiting g d0 ip (c, g1, d1)" "system_kept sys sys2" "session_kept s1 s2" "got \<longrightarrow> arp_answered env g ip (am_target_mac c)"
      by (auto simp: runs_iff)
    have w': "g1 = g" "same_station d0 d1" "length (am_target_mac c) = 6" using w(2) by (simp_all add: arp_waiting_def)
    have s2: "session_kept s s2" by (rule session_kept_trans [OF s1 w(4)])
    let ?list = "list[?i := (list ! ?i)\<lparr> al_mac := am_target_mac c \<rparr>]"
    let ?found = "list[?i := (list ! ?i)\<lparr> al_mac := am_target_mac c, al_ip := ip \<rparr>]"
    define l where "l = (if got then ?found else ?list)"
    define k where "k = (if got then counter + 1 else counter)"
    have step: "arp_scan_loop chip (x # envs) list counter ip tx len s (g, d) sys =
        (if \<not> got \<and> ss_last_wait_failure s2 \<noteq> ScannerWaitFailureNone \<or> ss_cancelled s2 then Some (l, k, ?tx, s2, (g, d1), sys2)
         else arp_scan_loop chip envs l k (address_after ip) ?tx 42 s2 (g, d1) sys2)"
      using poll False tx(1) i w(1) w'(1) Cons.prems(4)
      by (simp add: x scanner_session_get_last_wait_failure_def rd_bytes_def next_address_eq l_def k_def Let_def)
    have "unat (counter + 1) = Suc ?i" using Cons.prems(8) by (simp add: unat_word_ariths)
    then have k: "unat k = (if got then Suc ?i else ?i)" by (simp add: k_def)
    have l: "take ?i l = take ?i list" "length l = length list" "got \<Longrightarrow> l ! ?i = (list ! ?i)\<lparr> al_mac := am_target_mac c, al_ip := ip \<rparr>"
      using i by (simp_all add: l_def)
    have hosts: "\<forall>h\<in>set l. length (al_mac h) = 6"
      using Cons.prems(6) w'(3) mac by (auto simp: l_def dest!: set_update_subset_insert [THEN subsetD])
    have new: "found_hosts (x # envs) g ip (l ! ?i # hosts)" if "got" "found_hosts envs g (address_after ip) hosts" for hosts
      using that w(5) l(3) by (simp add: found_hosts_add x)
    have later: "runs (arp_scan_loop chip envs l k (address_after ip) ?tx 42 s2 (g, d1) sys2)
           (\<lambda>(list', counter', tx', s', (g', d'), sys').
              g' = g \<and> same_station d0 d' \<and> system_kept sys2 sys' \<and> session_kept s2 s' \<and> length list' = length l \<and>
              unat k \<le> unat counter' \<and> unat counter' \<le> unat k + length envs \<and>
              take (unat k) list' = take (unat k) l \<and>
              found_hosts envs g (address_after ip) (drop (unat k) (take (unat counter') list')))"
    proof (rule Cons.IH [OF _ _ w'(2) _ tx(2) hosts])
      show "slots_clean (sy_slots sys2)" using Cons.prems(2) w(3) by (simp add: system_kept_def)
    qed (use Cons.prems(1,7,8) k l(2) in simp_all)
    show ?thesis
    proof (cases "\<not> got \<and> ss_last_wait_failure s2 \<noteq> ScannerWaitFailureNone \<or> ss_cancelled s2")
      case True
      have "found_hosts (x # envs) g ip (drop ?i (take (unat k) l))"
        using k new [of "[]"] i l(2) by (cases got) (simp_all add: take_Suc_conv_app_nth)
      then show ?thesis using step True w(3) w'(2) s2 k l(1,2) by simp
    next
      case goes: False
      have "found_hosts (x # envs) g ip (drop ?i (take (unat n') l'))"
        if r: "unat k \<le> unat n'" "take (unat k) l' = take (unat k) l" "found_hosts envs g (address_after ip) (drop (unat k) (take (unat n') l'))"
          "length l' = length l" for l' and n' :: u8
      proof (cases got)
        case False
        then show ?thesis using r(3) k by (simp add: found_hosts_skip)
      next
        case True
        have "take (Suc ?i) l' ! ?i = take (Suc ?i) l ! ?i" using r(2) True k by simp
        then have "drop ?i (take (unat n') l') = l ! ?i # drop (Suc ?i) (take (unat n') l')"
          using r(1,4) True k i l(2) by (subst Cons_nth_drop_Suc [symmetric]) simp_all
        then show ?thesis using r(3) True k new by simp
      qed
      note hosts_found = this
      from later obtain l' k' tx' s' g' d' sys' where r:
        "arp_scan_loop chip envs l k (address_after ip) ?tx 42 s2 (g, d1) sys2 = Some (l', k', tx', s', (g', d'), sys')"
        "g' = g" "same_station d0 d'" "system_kept sys2 sys'" "session_kept s2 s'" "length l' = length l"
        "unat k \<le> unat k'" "unat k' \<le> unat k + length envs" "take (unat k) l' = take (unat k) l"
        "found_hosts envs g (address_after ip) (drop (unat k) (take (unat k') l'))"
        by (simp only: runs_iff split_paired_Ex prod.case) blast
      have "take ?i l' = take ?i list"
        using arg_cong [OF r(9), of "take ?i"] k l(1) by (cases got) simp_all
      moreover have "?i \<le> unat k'" "unat k' \<le> ?i + length (x # envs)" using r(7,8) k by (simp_all split: if_splits)
      ultimately show ?thesis
        unfolding step if_not_P [OF goes] r(1)
        using hosts_found [OF r(7,9,10,6)] session_kept_trans [OF s2 r(5)] system_kept_trans [OF w(3) r(4)] l(2) r(2,3,6)
        by simp
    qed
  qed
qed simp

section \<open>Property\<close>

text \<open>
  C34. A network scan reports only addresses for which a matching frame was heard. Whatever frames arrive and whenever, the scan returns, and
  gives back every slot and semaphore. The reported addresses are addresses of the sweep, in its order
  and none twice over, and for each of them a frame was heard that \<open>get_arp_reply\<close> takes for its reply (at
  least 42 bytes, opcode 2 at offset 20, that address at 28 and the own one at 38; the EtherType is not tested
  by the code), with the reported hardware address at offset 22. Entries past the count may have a
  hardware address of a reply that came too late, and keep their addresses in number.
\<close>

theorem arp_scan_network_sound:
  assumes "honest_bank chip" "driver_idle d" "length (enc_ip_address d) = 4" "arp_globals_ok g"
    and "slots_clean (sy_slots sys)" "\<forall>x\<in>set envs. quiet_env (snd x)" "length init_ip = 4" "42 \<le> length tx"
    and "\<forall>h\<in>set list. length (al_mac h) = 6" "unat count_of \<le> length list"
  shows "\<exists>list' counter tx' s' g' d' sys'.
     arp_scan_network chip envs list init_ip count_of tx s (g, d) sys = Some (list', counter, tx', s', (g', d'), sys') \<and>
     system_kept sys sys' \<and> session_kept s s' \<and> same_station d d' \<and> length list' = length list \<and>
     counter \<le> count_of \<and> ag_my_ip g' = enc_ip_address d \<and>
     subseq (map al_ip (take (unat counter) list')) (sweep init_ip (unat count_of)) \<and>
     (\<forall>h\<in>set (take (unat counter) list'). \<exists>x\<in>set envs. arp_answered (snd x) g' (al_ip h) (al_mac h))"
proof -
  let ?g = "g\<lparr> ag_my_mac := enc_mac_address d, ag_my_ip := enc_ip_address d \<rparr>"
  let ?envs = "take (unat count_of) envs"
  have mac: "length (enc_mac_address d) = 6" using assms(2) by (simp add: driver_idle_def)
  have g: "arp_globals_ok ?g" using assms(3,4) mac by (simp add: arp_globals_ok_def)
  have bound: "unat (0 :: u8) + length ?envs \<le> length list" "unat (0 :: u8) + length ?envs < 256"
    using assms(10) unat_u8_less [of count_of] by (simp_all del: unat_u8_less)
  have quiet: "\<forall>x\<in>set ?envs. quiet_env (snd x)" using assms(6) by (meson in_set_takeD)
  have call: "arp_scan_network chip envs list init_ip count_of tx s (g, d) sys =
      arp_scan_loop chip ?envs list 0 init_ip tx 0 s (?g, d) sys"
    using assms(3,7) mac
    by (simp add: arp_scan_network_def arp_set_my_mac_address_def arp_set_my_ip_address_def rd_bytes_def)
  from arp_scan_loop_runs [OF assms(1) g quiet assms(5) same_station_refl [OF assms(2)] assms(7-9) bound, of 0 s]
  obtain list' counter tx' s' g' d' sys' where r:
    "arp_scan_loop chip ?envs list 0 init_ip tx 0 s (?g, d) sys = Some (list', counter, tx', s', (g', d'), sys')"
    "g' = ?g" "same_station d d'" "system_kept sys sys'" "session_kept s s'" "length list' = length list"
    "unat counter \<le> length ?envs" "found_hosts ?envs ?g init_ip (take (unat counter) list')"
    by (simp only: runs_iff split_paired_Ex prod.case unsigned_0 drop_0 add_0) blast
  have longer: "subseq (sweep ip (min n m)) (sweep ip n)" for ip n m
  proof (induction n arbitrary: ip m)
    case (Suc n)
    then show ?case by (cases m) simp_all
  qed simp
  have "subseq (map al_ip (take (unat counter) list')) (sweep init_ip (unat count_of))"
    using r(8) longer [of init_ip "unat count_of" "length envs"]
    by (auto simp: found_hosts_def min.commute intro: subseq_order.trans)
  moreover have "\<forall>h\<in>set (take (unat counter) list'). \<exists>x\<in>set envs. arp_answered (snd x) g' (al_ip h) (al_mac h)"
    using r(2,8) unfolding found_hosts_def by (meson in_set_takeD)
  moreover have "counter \<le> count_of" using r(7) by (simp add: word_le_nat_alt)
  ultimately show ?thesis
    unfolding call r(1) using r(2-6) by auto
qed

section \<open>Example\<close>

lemma arp_scan_network_sound_witness:
  "\<exists>list' counter tx' s' g' d' sys'.
     arp_scan_network example_chip
       (replicate 3 (\<lparr> po_app_shutdown = False, po_external_cancel = False, po_back_pin = True \<rparr>, example_env [(example_reply, 42)]))
       (replicate 255 \<lparr> al_mac = replicate 6 0, al_ip = replicate 4 0 \<rparr>) [10, 0, 0, 1] 3 (replicate 1518 0)
       example_session (arp_globals_init, example_driver) example_system = Some (list', counter, tx', s', (g', d'), sys') \<and>
     counter \<le> 3 \<and> subseq (map al_ip (take (unat counter) list')) [[10, 0, 0, 1], [10, 0, 0, 2], [10, 0, 0, 3]]"
proof -
  have "quiet_env (example_env [(example_reply, 42)])"
    by (rule example_quiet) (simp add: whole_frame_def example_reply_def)
  then have quiet: "\<forall>x\<in>set (replicate 3 (\<lparr> po_app_shutdown = False, po_external_cancel = False, po_back_pin = True \<rparr>,
      example_env [(example_reply, 42)])). quiet_env (snd x)" by simp
  have clean: "slots_clean (sy_slots example_system)" by (simp add: slots_clean_def example_system_def)
  have globals: "arp_globals_ok arp_globals_init" by (simp add: arp_globals_ok_def arp_globals_init_def)
  have l: "length ([10, 0, 0, 1] :: buf) = 4" "42 \<le> length (replicate 1518 0 :: buf)" by simp_all
  have entries: "\<forall>h\<in>set (replicate 255 \<lparr> al_mac = replicate 6 0, al_ip = replicate 4 0 \<rparr>). length (al_mac h) = 6"
    "unat (3 :: u8) \<le> length (replicate 255 \<lparr> al_mac = replicate 6 0, al_ip = replicate 4 0 \<rparr>)" by simp_all
  have "unat (3 :: u8) = Suc (Suc (Suc 0))" by simp
  then have hosts: "sweep [10, 0, 0, 1] (unat (3 :: u8)) = [[10, 0, 0, 1], [10, 0, 0, 2], [10, 0, 0, 3]]"
    by (simp only: sweep.simps) (simp add: address_after_def)
  show ?thesis
    using arp_scan_network_sound [OF example_chip_ok(1) example_driver_ok example_addresses globals clean quiet l entries, of example_session]
    unfolding hosts by blast
qed

end
