(* ===== verification/Port_Scan.thy ===== *)
theory Port_Scan
  imports Scanner_Session Tcp Udp
begin

text \<open>
  What the port scans of \<open>modules/tcp_module.c\<close> and \<open>modules/udp_module.c\<close> share: the answer to ARP
  requests that arrive in between, the test that a frame is addressed to the controller, the body of the
  senders, and the loop over the ports with the calls it makes on the result menu. The two C files
  repeat these parts word for word; here each has one definition with the probe as its parameter.
\<close>

section \<open>The world of a scan\<close>

text \<open>The ARP module's variables, the driver and its transmit buffer.\<close>

type_synonym net = "arp_globals \<times> enc28j60 \<times> buf"

definition frame_to_me :: "buf \<Rightarrow> buf \<Rightarrow> bool option" where
  "frame_to_me my_mac frame =
     do { m \<leftarrow> rd_bytes my_mac 4 2; f \<leftarrow> rd_bytes frame 4 2;
          if m \<noteq> f then Some False
          else do { m \<leftarrow> rd_bytes my_mac 0 4; f \<leftarrow> rd_bytes frame 0 4; Some (m = f) } }"

definition arp_auto_reply :: "chip \<Rightarrow> buf \<Rightarrow> net \<Rightarrow> net option" where
  "arp_auto_reply chip frame =
     (\<lambda>(g, d, tx). do { (_, g, d) \<leftarrow> arp_reply_requested chip (Some frame) (Some (enc_ip_address d)) g d;
                         Some (g, d, tx) })"

text \<open>A sender: the transport header, then the IPv4 header, then the Ethernet header, then the frame is sent.\<close>

definition send_ip_frame ::
  "chip \<Rightarrow> (buf ptr \<Rightarrow> ((bool \<times> u16) \<times> buf ptr) option) \<Rightarrow> u8 \<Rightarrow> u8 \<Rightarrow> buf \<Rightarrow> buf \<Rightarrow> buf \<Rightarrow> buf \<Rightarrow>
   enc28j60 \<Rightarrow> buf \<Rightarrow> (bool \<times> enc28j60 \<times> buf) option" where
  "send_ip_frame chip build protocol ttl source_mac source_ip target_mac target_ip d b =
     do { ((ok, len), b) \<leftarrow> with_off (ETHERNET_HEADER_LEN + IP_HEADER_LEN) build b;
          if \<not> ok then Some (False, d, b)
          else do { (ok, b) \<leftarrow> with_off ETHERNET_HEADER_LEN
                      (\<lambda>b. set_ipv4_header b protocol len (Some source_ip) (Some target_ip) 0 0x4000 ttl) b;
                    if \<not> ok then Some (False, d, b)
                    else do { (ok, b) \<leftarrow> with_off 0
                                (\<lambda>b. set_ethernet_header b (Some source_mac) (Some target_mac) 0x800) b;
                              if \<not> ok then Some (False, d, b)
                              else do { d \<leftarrow> send_packet chip b (of_nat (ETHERNET_HEADER_LEN + IP_HEADER_LEN) + len) d;
                                        Some (True, d, b) } } } }"

section \<open>The loop over the ports\<close>

text \<open>The calls on the firmware's menu, in order.\<close>

datatype menu_call =
    AddItem buf u32
  | ChangeLabel u32 buf
  | SelectItem u32

definition port_label :: "u32 \<Rightarrow> buf \<Rightarrow> buf" where
  "port_label i suffix = dec_u32 i @ suffix"

text \<open>
  \<open>probe\<close> is the predicate and trigger of one port with its wait: it says whether the port answered. The
  result has the index of the menu's last item and the calls made.
\<close>

fun port_scan_loop ::
  "(u32 \<Rightarrow> 'e \<Rightarrow> scanner_session \<Rightarrow> net \<Rightarrow> scanner_system \<Rightarrow> (bool \<times> scanner_session \<times> net \<times> scanner_system) option) \<Rightarrow>
   (scanner_poll \<times> 'e) list \<Rightarrow> u32 \<Rightarrow> u32 \<Rightarrow> menu_call list \<Rightarrow> scanner_session \<Rightarrow> net \<Rightarrow> scanner_system \<Rightarrow>
   (u32 \<times> menu_call list \<times> scanner_session \<times> net \<times> scanner_system) option" where
  "port_scan_loop probe [] i submenu_index calls s w sys = Some (submenu_index, calls, s, w, sys)"
| "port_scan_loop probe ((p, env) # rest) i submenu_index calls s w sys =
     (let (cancel, s) = cancel_poll p s in
      if cancel then Some (submenu_index, calls, s, w, sys)
      else do { let calls = calls @ [ChangeLabel submenu_index (port_label i (ascii ''...''))];
                (answered, s, w, sys) \<leftarrow> probe i env s w sys;
                if answered
                then port_scan_loop probe rest (i + 1) (submenu_index + 1)
                       (calls @ [ChangeLabel submenu_index (port_label i []),
                                 AddItem (port_label i (ascii ''...'')) (submenu_index + 1), SelectItem (submenu_index + 1)]) s w sys
                else port_scan_loop probe rest (i + 1) submenu_index calls s w sys })"

text \<open>
  A whole scan: a new session, the target's hardware address, and the ports from \<open>init_port\<close> on. When the
  address cannot be resolved no call is made. The probe is given the hardware address.
\<close>

definition port_scan ::
  "chip \<Rightarrow> buf \<Rightarrow> buf \<Rightarrow> buf \<Rightarrow> scanner_session \<Rightarrow>
   (buf \<Rightarrow> u32 \<Rightarrow> 'e \<Rightarrow> scanner_session \<Rightarrow> net \<Rightarrow> scanner_system \<Rightarrow> (bool \<times> scanner_session \<times> net \<times> scanner_system) option) \<Rightarrow>
   buf \<Rightarrow> bool \<Rightarrow> u16 \<Rightarrow> u16 \<Rightarrow> (scanner_poll \<times> wait_env) list \<Rightarrow> (scanner_poll \<times> 'e) list \<Rightarrow> net \<Rightarrow> scanner_system \<Rightarrow>
   (menu_call list \<times> scanner_session \<times> net \<times> scanner_system) option" where
  "port_scan chip ip_gateway mac_gateway subnet_mask stack probe target_ip is_gateway init_port range_port resolve_envs envs w sys =
     (case w of (g, d, tx) \<Rightarrow>
      do { let s = scanner_session_init ip_gateway mac_gateway subnet_mask stack;
           (ok, target_mac, s, (g, d), sys) \<leftarrow>
             scanner_resolve_next_hop chip target_ip is_gateway (replicate 6 0) resolve_envs s (g, d) sys;
           if \<not> ok then Some ([], scanner_session_deinit s, (g, d, tx), sys)
           else do { (submenu_index, calls, s, w, sys) \<leftarrow>
                       port_scan_loop (probe target_mac) (take (unat range_port) envs) (ucast init_port) 0 [AddItem [] 0] s (g, d, tx) sys;
                     Some (calls @ [ChangeLabel submenu_index (ascii ''FINISH'')], scanner_session_deinit s, w, sys) } })"

section \<open>What the menu shows\<close>

text \<open>The calls for a run over the ports from \<open>i\<close> on, given for each whether it answered.\<close>

fun menu_trace :: "u32 \<Rightarrow> u32 \<Rightarrow> bool list \<Rightarrow> menu_call list" where
  "menu_trace i n [] = []"
| "menu_trace i n (answered # rest) =
     ChangeLabel n (port_label i (ascii ''...'')) #
     (if answered
      then [ChangeLabel n (port_label i []), AddItem (port_label i (ascii ''...'')) (n + 1), SelectItem (n + 1)] @
           menu_trace (i + 1) (n + 1) rest
      else menu_trace (i + 1) n rest)"

definition answers :: "bool list \<Rightarrow> u32" where
  "answers bs = of_nat (length (filter id bs))"

text \<open>
  A probe keeps the invariant of the world and the shared resources, and says yes only when \<open>evidence\<close>
  holds; then so does the loop, and its calls are the trace of the answers.
\<close>

locale port_probe =
  fixes probe :: "u32 \<Rightarrow> 'e \<Rightarrow> scanner_session \<Rightarrow> net \<Rightarrow> scanner_system \<Rightarrow> (bool \<times> scanner_session \<times> net \<times> scanner_system) option"
    and net_ok :: "net \<Rightarrow> bool" and env_ok :: "'e \<Rightarrow> bool" and evidence :: "u32 \<Rightarrow> 'e \<Rightarrow> bool"
  assumes probe_runs: "net_ok w \<Longrightarrow> env_ok env \<Longrightarrow> slots_clean (sy_slots sys) \<Longrightarrow>
     runs (probe i env s w sys) (\<lambda>(answered, s', w', sys').
       net_ok w' \<and> session_kept s s' \<and> system_kept sys sys' \<and> (answered \<longrightarrow> evidence i env))"
begin

lemma port_scan_loop_runs:
  assumes "net_ok w" "\<forall>x\<in>set envs. env_ok (snd x)" "slots_clean (sy_slots sys)"
  shows "runs (port_scan_loop probe envs i n calls s w sys)
           (\<lambda>(n', calls', s', w', sys'). net_ok w' \<and> session_kept s s' \<and> system_kept sys sys' \<and>
              (\<exists>bs. length bs \<le> length envs \<and> calls' = calls @ menu_trace i n bs \<and> n' = n + answers bs \<and>
                 (\<forall>k<length bs. bs ! k \<longrightarrow> evidence (i + of_nat k) (snd (envs ! k)))))"
  using assms
proof (induction envs arbitrary: i n calls s w sys)
  case Nil
  then show ?case by (auto simp: answers_def intro!: exI [of _ "[]"])
next
  case (Cons x envs)
  obtain p env where x: "x = (p, env)" by force
  obtain cancel s1 where poll: "cancel_poll p s = (cancel, s1)" by force
  have s1: "session_kept s s1" by (rule cancel_poll_kept [OF poll])
  show ?case
  proof (cases cancel)
    case True
    then show ?thesis using poll s1 Cons.prems(1) by (auto simp: x answers_def intro!: exI [of _ "[]"])
  next
    case False
    obtain answered s2 w2 sys2 where pr: "probe i env s1 w sys = Some (answered, s2, w2, sys2)"
      "net_ok w2" "session_kept s1 s2" "system_kept sys sys2" "answered \<longrightarrow> evidence i env"
      using probe_runs [OF Cons.prems(1) _ Cons.prems(3), of env i s1] Cons.prems(2) by (auto simp: runs_iff x)
    let ?n = "if answered then n + 1 else n"
    let ?first = "ChangeLabel n (port_label i (ascii ''...'')) #
        (if answered then [ChangeLabel n (port_label i []), AddItem (port_label i (ascii ''...'')) (n + 1), SelectItem (n + 1)] else [])"
    have step: "port_scan_loop probe (x # envs) i n calls s w sys =
        port_scan_loop probe envs (i + 1) ?n (calls @ ?first) s2 w2 sys2"
      using poll False pr(1) by (simp add: x)
    have "slots_clean (sy_slots sys2)" using Cons.prems(3) pr(4) by (simp add: system_kept_def)
    then obtain n' calls' s' w' sys' bs where r:
      "port_scan_loop probe envs (i + 1) ?n (calls @ ?first) s2 w2 sys2 = Some (n', calls', s', w', sys')"
      "net_ok w'" "session_kept s2 s'" "system_kept sys2 sys'" "length bs \<le> length envs"
      "calls' = (calls @ ?first) @ menu_trace (i + 1) ?n bs" "n' = ?n + answers bs"
      "\<forall>k<length bs. bs ! k \<longrightarrow> evidence (i + 1 + of_nat k) (snd (envs ! k))"
      using Cons.IH [OF pr(2), of sys2 "i + 1" ?n "calls @ ?first" s2] Cons.prems(2)
      by (simp only: runs_iff split_paired_Ex prod.case list.set_intros ball_simps) (metis list.set_intros(2))
    have "length (answered # bs) \<le> length (x # envs)" using r(5) by simp
    moreover have "calls' = calls @ menu_trace i n (answered # bs)" using r(6) by simp
    moreover have "n' = n + answers (answered # bs)" using r(7) by (simp add: answers_def)
    moreover have "\<forall>k<length (answered # bs). (answered # bs) ! k \<longrightarrow> evidence (i + of_nat k) (snd ((x # envs) ! k))"
      using r(8) pr(5) by (auto simp: less_Suc_eq_0_disj x add.assoc)
    ultimately have "\<exists>bs. length bs \<le> length (x # envs) \<and> calls' = calls @ menu_trace i n bs \<and> n' = n + answers bs \<and>
        (\<forall>k<length bs. bs ! k \<longrightarrow> evidence (i + of_nat k) (snd ((x # envs) ! k)))" by blast
    then show ?thesis
      unfolding step r(1) using r(2) session_kept_trans [OF session_kept_trans [OF s1 pr(3)] r(3)]
        system_kept_trans [OF pr(4) r(4)] by simp
  qed
qed

end

section \<open>The shared parts run\<close>

definition net_ok :: "enc28j60 \<Rightarrow> net \<Rightarrow> bool" where
  "net_ok d = (\<lambda>(g, d', tx). arp_globals_ok g \<and> same_station d d' \<and> length tx = 1518)"

text \<open>The dispatcher hands out its receive buffer of \<open>MAX_FRAMELEN\<close> bytes, whatever the length of the frame.\<close>

definition rx_frame :: "buf \<times> u16 \<Rightarrow> bool" where
  "rx_frame x \<longleftrightarrow> length (fst x) = 1518"

lemma frame_to_me_eq: "length my_mac = 6 \<Longrightarrow> 6 \<le> length f \<Longrightarrow> frame_to_me my_mac f = Some (take 6 f = my_mac)"
proof -
  assume l: "length my_mac = 6" "6 \<le> length f"
  have "take 6 f = take 4 f @ take 2 (drop 4 f)" "my_mac = take 4 my_mac @ take 2 (drop 4 my_mac)"
    using l take_add [of 4 2 f] take_add [of 4 2 my_mac] by simp_all
  then have "take 6 f = my_mac \<longleftrightarrow> take 4 my_mac @ take 2 (drop 4 my_mac) = take 4 f @ take 2 (drop 4 f)" by metis
  also have "\<dots> \<longleftrightarrow> take 4 my_mac = take 4 f \<and> take 2 (drop 4 my_mac) = take 2 (drop 4 f)"
    by (rule append_eq_append_conv) (use l in simp)
  finally have "take 6 f = my_mac \<longleftrightarrow> take 4 my_mac = take 4 f \<and> take 2 (drop 4 my_mac) = take 2 (drop 4 f)" .
  then show ?thesis using l by (simp add: frame_to_me_def rd_bytes_def)
qed

lemma get_arp_requested_runs:
  assumes "arp_globals_ok g" "42 \<le> length f" "length ip = 4"
  shows "runs (get_arp_requested (Some f) (Some ip) g) (\<lambda>(asked, g'). arp_globals_ok g' \<and> (asked \<longrightarrow> length (ag_ip_src_requested g') = 4))"
proof -
  let ?h = "arp_of_bytes (take 28 (drop 14 f))"
  have wf: "wf_arp ?h" using assms(2) by (intro arp.wf_dec) simp
  have get: "arp_get_header (Some f) = Some ?h" using assms(2) by (simp add: arp_get_header_def arp.load_eq)
  have l: "length (arp_mac_source ?h) = 6" "length (arp_ip_source ?h) = 4" "length (arp_ip_destiny ?h) = 4"
    using wf by (simp_all add: wf_arp_def)
  obtain opcode where opcode: "arp_opcode ?h = Some opcode" using arp_opcode_eq [OF wf] by blast
  have same: "is_the_ip ip (arp_ip_destiny ?h) = Some (ip = arp_ip_destiny ?h)" by (rule is_the_ip_eq [OF assms(3) l(3)])
  have a: "is_arp (Some f) = Some (be16 (f ! 12) (f ! 13) = 0x0806)" using assms(2) by (intro is_arp_in) simp
  show ?thesis
    unfolding get_arp_requested_def option.case prod.case a get bind.bind_lunit opcode same
    using assms(1) l(1,2) by (simp add: arp_globals_ok_def)
qed

lemma arp_auto_reply_runs:
  assumes "honest_bank chip" "length (enc_ip_address d) = 4" "net_ok d w" "42 \<le> length f"
  shows "runs (arp_auto_reply chip f w) (net_ok d)"
proof -
  obtain g d1 tx where w: "w = (g, d1, tx)" by (cases w)
  have g: "arp_globals_ok g" and d: "same_station d d1" "enc_ip_address d1 = enc_ip_address d" and idle: "driver_idle d1"
    and tx: "length tx = 1518"
    using assms(3) by (simp_all add: net_ok_def w same_station_def)
  have "length (enc_mac_address d1) = 6" using idle by (simp add: driver_idle_def)
  note d1 = d this
  obtain asked g1 where a: "get_arp_requested (Some f) (Some (enc_ip_address d1)) g = Some (asked, g1)" "arp_globals_ok g1"
    using get_arp_requested_runs [OF g assms(4), of "enc_ip_address d1"] assms(2) d1(2) by (auto simp: runs_iff)
  show ?thesis
  proof (cases asked)
    case False
    then show ?thesis using a d1 tx by (simp add: arp_auto_reply_def w arp_reply_requested_def net_ok_def)
  next
    case True
    let ?g = "g1\<lparr> ag_my_mac := enc_mac_address d1, ag_my_ip := enc_ip_address d1 \<rparr>"
    have g': "arp_globals_ok ?g" using a(2) d1(2,3) assms(2) by (simp add: arp_globals_ok_def)
    have l: "length (ag_mac_dest g1) = 6" "length (ag_ip_src_requested g1) = 4" using a(2) by (simp_all add: arp_globals_ok_def)
    obtain r where r: "set_arp_reply ?g (Some (replicate 42 0)) (ag_mac_dest g1) (Some (ag_ip_src_requested g1)) = Some (True, Some r)"
      "length r = 42"
      using set_arp_reply_eq [OF g' _ l, of "replicate 42 0"] g' l by (simp add: length_arp_frame wf_arp_fields arp_globals_ok_def)
    obtain d2 where d2: "send_packet chip r 42 d1 = Some d2" "same_station d d2"
      using send_packet_station [OF assms(1) d1(1), of 42 r] r(2) by (auto simp: runs_iff)
    show ?thesis using True a(1) d1(2,3) assms(2) r(1) d2 g' tx
      by (simp add: arp_auto_reply_def w arp_reply_requested_def rd_bytes_def net_ok_def)
  qed
qed

lemma set_ipv4_header_runs:
  assumes "20 \<le> length b" "length src = 4" "length dst = 4"
  shows "\<exists>b'. set_ipv4_header (Some b) protocol n (Some src) (Some dst) ident flags ttl = Some (True, Some b') \<and>
           length b' = length b"
  using assms by (simp add: set_ipv4_header_eq ip.length_enc wf_ip_fields)

lemma send_ip_frame_runs:
  assumes "honest_bank chip" "same_station d0 d" "34 \<le> length b" "length source_mac = 6" "length target_mac = 6"
    and "length source_ip = 4" "length target_ip = 4"
    and build: "\<And>b'. length b' = length b - 34 \<Longrightarrow> runs (build (Some b')) (\<lambda>((ok, len), r). r \<noteq> None \<and> length (the r) = length b' \<and>
       (ok \<longrightarrow> unat len \<le> length b' \<and> unat len < 2000))"
  shows "runs (send_ip_frame chip build protocol ttl source_mac source_ip target_mac target_ip d b)
           (\<lambda>(ok, d', b'). same_station d0 d' \<and> length b' = length b)"
proof -
  obtain ok len r where r: "build (Some (drop 34 b)) = Some ((ok, len), Some r)" "length r = length b - 34"
    "ok \<longrightarrow> unat len \<le> length b - 34 \<and> unat len < 2000"
    using build [of "drop 34 b"] by (auto simp: runs_iff)
  let ?b1 = "take 34 b @ r"
  have b1: "with_off 34 build b = Some ((ok, len), ?b1)" using r(1) assms(3) by (simp add: with_off_def)
  have l1: "length ?b1 = length b" using assms(3) r(2) by simp
  show ?thesis
  proof (cases ok)
    case False
    then show ?thesis using b1 assms(2) l1 by (simp add: send_ip_frame_def)
  next
    case True
    obtain b2' where "set_ipv4_header (Some (drop 14 ?b1)) protocol len (Some source_ip) (Some target_ip) 0 0x4000 ttl = Some (True, Some b2')"
      "length b2' = length b - 14"
      using set_ipv4_header_runs [of "drop 14 ?b1" source_ip target_ip protocol len 0 "0x4000" ttl] assms(3,6,7) l1 by auto
    then obtain b2 where b2: "with_off 14 (\<lambda>b. set_ipv4_header b protocol len (Some source_ip) (Some target_ip) 0 0x4000 ttl) ?b1 = Some (True, b2)"
      "length b2 = length b"
      using l1 assms(3) by (simp add: with_off_def)
    have b3: "with_off 0 (\<lambda>b. set_ethernet_header b (Some source_mac) (Some target_mac) 0x800) b2 =
        Some (True, target_mac @ source_mac @ [hi8 0x800, lo8 0x800] @ drop 14 b2)" (is "_ = Some (True, ?b3)")
      using b2(2) assms(3-5) by (simp add: with_off_def set_ethernet_header_eq)
    have l3: "length ?b3 = length b" using assms(3-5) b2(2) by simp
    have len: "unat (34 + len) = 34 + unat len" using r(3) True by (simp add: unat_word_ariths)
    have "unat len \<le> length b - 34" using r(3) True by simp
    with assms(3) have "34 + unat len \<le> length b" by linarith
    then have fits: "unat (34 + len) \<le> length ?b3" "0 < 34 + len"
      unfolding l3 len by (simp_all add: word_greater_zero_iff unat_eq_0 [symmetric] len)
    have "runs (send_packet chip ?b3 (34 + len) d) (same_station d0)"
      by (rule send_packet_station [OF assms(1,2) fits(2,1)])
    then show ?thesis using True b1 b2(1) b3 l3 by (auto simp: send_ip_frame_def runs_iff)
  qed
qed

section \<open>The whole scan\<close>

text \<open>What a scan leaves on the menu: nothing, or the trace of its answers, each with its evidence.\<close>

definition scan_calls :: "(u32 \<Rightarrow> 'e \<Rightarrow> bool) \<Rightarrow> u16 \<Rightarrow> u16 \<Rightarrow> (scanner_poll \<times> 'e) list \<Rightarrow> menu_call list \<Rightarrow> bool" where
  "scan_calls evidence init_port range_port envs calls \<longleftrightarrow>
     calls = [] \<or>
     (\<exists>bs. length bs \<le> unat range_port \<and> length bs \<le> length envs \<and>
        calls = AddItem [] 0 # menu_trace (ucast init_port) 0 bs @ [ChangeLabel (answers bs) (ascii ''FINISH'')] \<and>
        (\<forall>k<length bs. bs ! k \<longrightarrow> evidence (ucast init_port + of_nat k) (snd (envs ! k))))"

lemma port_scan_runs:
  assumes "honest_bank chip" "length (enc_ip_address d) = 4" "net_ok d w" "slots_clean (sy_slots sys)"
    and "\<forall>x\<in>set resolve_envs. quiet_env (snd x)" "\<forall>x\<in>set envs. env_ok (snd x)"
    and "length (ss_cache stack) = 4" "length ip_gateway = 4" "length subnet_mask = 4" "length target_ip = 4"
    and probe: "\<And>m. length m = 6 \<Longrightarrow> port_probe (probe m) (net_ok d) env_ok evidence"
  shows "runs (port_scan chip ip_gateway mac_gateway subnet_mask stack probe target_ip is_gateway init_port range_port
             resolve_envs envs w sys)
           (\<lambda>(calls, s', w', sys'). net_ok d w' \<and> system_kept sys sys' \<and> scan_calls evidence init_port range_port envs calls)"
proof -
  obtain g d1 tx where w: "w = (g, d1, tx)" by (cases w)
  let ?s = "scanner_session_init ip_gateway mac_gateway subnet_mask stack"
  have s: "session_ok ?s" using assms(7-9) by (rule session_ok_init)
  have d1: "driver_idle d1" "length (enc_ip_address d1) = 4" "arp_globals_ok g" "same_station d d1" "length tx = 1518"
    using assms(2,3) by (simp_all add: net_ok_def w same_station_def)
  obtain ok mac s1 g1 d2 sys1 where r:
    "scanner_resolve_next_hop chip target_ip is_gateway (replicate 6 0) resolve_envs ?s (g, d1) sys = Some (ok, mac, s1, (g1, d2), sys1)"
    "same_station d1 d2" "system_kept sys sys1" "arp_globals_ok g1" "length mac = 6"
    using scanner_resolve_runs [OF assms(1) d1(1-3) s assms(4,5,10) length_replicate, of is_gateway 0]
    by - (elim exE conjE, rule that, assumption+)
  have net: "net_ok d (g1, d2, tx)" using r(2,4) d1(4,5) same_station_trans by (simp add: net_ok_def)
  show ?thesis
  proof (cases ok)
    case False
    then show ?thesis using r(1,3) net by (simp add: port_scan_def w scan_calls_def)
  next
    case True
    have "slots_clean (sy_slots sys1)" using assms(4) r(3) by (simp add: system_kept_def)
    moreover have "\<forall>x\<in>set (take (unat range_port) envs). env_ok (snd x)" using assms(6) by (meson in_set_takeD)
    ultimately obtain n calls s2 w2 sys2 bs where l:
      "port_scan_loop (probe mac) (take (unat range_port) envs) (ucast init_port) 0 [AddItem [] 0] s1 (g1, d2, tx) sys1 =
         Some (n, calls, s2, w2, sys2)" "net_ok d w2" "system_kept sys1 sys2"
      "length bs \<le> length (take (unat range_port) envs)" "calls = [AddItem [] 0] @ menu_trace (ucast init_port) 0 bs" "n = 0 + answers bs"
      "\<forall>k<length bs. bs ! k \<longrightarrow> evidence (ucast init_port + of_nat k) (snd (take (unat range_port) envs ! k))"
      using port_probe.port_scan_loop_runs [OF probe [OF r(5)] net, of "take (unat range_port) envs" sys1 "ucast init_port" 0
          "[AddItem [] 0]" s1]
      by (simp only: runs_iff split_paired_Ex prod.case) blast
    have "scan_calls evidence init_port range_port envs (calls @ [ChangeLabel n (ascii ''FINISH'')])"
      using l(4-7) by (auto simp: scan_calls_def intro!: exI [of _ bs])
    then show ?thesis
      using r(1) True l(1,2) system_kept_trans [OF r(3) l(3)] by (simp add: port_scan_def w)
  qed
qed

section \<open>Examples\<close>

definition example_net :: net where
  "example_net = (arp_globals_init, example_driver, replicate 1518 0)"

lemma example_net_ok: "net_ok example_driver example_net"
  by (simp add: net_ok_def example_net_def same_station_refl example_driver_ok arp_globals_ok_def arp_globals_init_def)

definition no_cancel :: scanner_poll where
  "no_cancel = \<lparr> po_app_shutdown = False, po_external_cancel = False, po_back_pin = True \<rparr>"

text \<open>The gateway's reply to ten requests, and one received frame in the wait of each of two ports.\<close>

definition example_resolve :: "(scanner_poll \<times> wait_env) list" where
  "example_resolve = replicate 10 (no_cancel, example_env [(example_reply, 42)])"

lemma example_resolve_quiet: "\<forall>x\<in>set example_resolve. quiet_env (snd x)"
proof -
  have "quiet_env (example_env [(example_reply, 42)])"
    by (rule example_quiet) (simp add: whole_frame_def example_reply_def)
  then show ?thesis by (simp add: example_resolve_def)
qed

lemma example_system_clean: "slots_clean (sy_slots example_system)"
  by (simp add: slots_clean_def example_system_def)

lemma example_stack: "length (ss_cache example_session) = 4"
  by (simp add: example_session_def)

definition rx_env :: "wait_env \<Rightarrow> bool" where
  "rx_env env \<longleftrightarrow> clock_runs env \<and> (\<forall>x. frame_heard env x \<longrightarrow> rx_frame x)"

lemma example_rx_env: "\<forall>x\<in>set fs. rx_frame x \<Longrightarrow> rx_env (example_env fs)"
  by (simp add: rx_env_def example_clock frame_heard_def) (auto simp: example_env_def)

end
