(* ===== verification/Udp_Scan.thy ===== *)
theory Udp_Scan
  imports Port_Scan
begin

text \<open>
  \<open>modules/udp_module.c\<close>: the UDP port scan. An empty datagram goes to each port; a port is listed when a
  datagram comes back from it.
\<close>

section \<open>The probe\<close>

definition WIN_TTL :: u8 where "WIN_TTL = 128"

definition empty_datagram :: "u16 \<Rightarrow> u16 \<Rightarrow> buf ptr \<Rightarrow> ((bool \<times> u16) \<times> buf ptr) option" where
  "empty_datagram source_port target_port b =
     do { (ok, b) \<leftarrow> set_udp_header b source_port target_port (of_nat UDP_HEADER_LEN);
          Some ((ok, of_nat UDP_HEADER_LEN), b) }"

definition send_empty_udp_packet ::
  "chip \<Rightarrow> buf \<Rightarrow> buf \<Rightarrow> buf \<Rightarrow> buf \<Rightarrow> u16 \<Rightarrow> u16 \<Rightarrow> enc28j60 \<Rightarrow> buf \<Rightarrow> (bool \<times> enc28j60 \<times> buf) option" where
  "send_empty_udp_packet chip source_mac target_mac source_ip target_ip source_port target_port d buffer =
     send_ip_frame chip (empty_datagram source_port target_port) 17 WIN_TTL source_mac source_ip target_mac target_ip d buffer"

record udp_scan_pred_ctx =
  up_my_mac :: buf
  up_expected_source_port :: u16
  up_expected_dest_port :: u16

definition udp_scan_match :: "chip \<Rightarrow> (udp_scan_pred_ctx \<times> net) packet_predicate" where
  "udp_scan_match chip frame len =
     (\<lambda>(c, w).
        do { arp \<leftarrow> is_arp (Some frame);
             if arp then do { w \<leftarrow> arp_auto_reply chip frame w; Some (False, c, w) }
             else do { udp \<leftarrow> is_udp frame;
                       if \<not> udp then Some (False, c, w)
                       else do { mine \<leftarrow> frame_to_me (up_my_mac c) frame;
                                 if \<not> mine then Some (False, c, w)
                                 else do { hdr \<leftarrow> udp_get_header frame;
                                           src \<leftarrow> bytes_to_uint (mem16 0) (udp_source_port hdr) 2;
                                           dst \<leftarrow> bytes_to_uint (mem16 0) (udp_dest_port hdr) 2;
                                           Some (val16 src = up_expected_source_port c \<and> val16 dst = up_expected_dest_port c, c, w) } } } })"

definition udp_probe_trigger :: "chip \<Rightarrow> buf \<Rightarrow> buf \<Rightarrow> u16 \<Rightarrow> u16 \<Rightarrow> (udp_scan_pred_ctx \<times> net) trigger" where
  "udp_probe_trigger chip target_mac target_ip source_port target_port =
     (\<lambda>(c, g, d, tx).
        do { (_, d, tx) \<leftarrow> send_empty_udp_packet chip (enc_mac_address d) target_mac (enc_ip_address d) target_ip
               source_port target_port d tx;
             Some (c, g, d, tx) })"

text \<open>The body of the loop: context, trigger and wait for port \<open>i\<close>, cut to 16 bits.\<close>

definition udp_probe ::
  "chip \<Rightarrow> buf \<Rightarrow> buf \<Rightarrow> u32 \<Rightarrow> wait_env \<Rightarrow> scanner_session \<Rightarrow> net \<Rightarrow> scanner_system \<Rightarrow>
   (bool \<times> scanner_session \<times> net \<times> scanner_system) option" where
  "udp_probe chip target_ip target_mac i env s w sys =
     (case w of (g, d, tx) \<Rightarrow>
      do { let c = \<lparr> up_my_mac = enc_mac_address d, up_expected_source_port = ucast i, up_expected_dest_port = 64892 \<rparr>;
           (got, n, (c, w), s, sys) \<leftarrow>
             scanner_wait_for_packet (udp_scan_match chip) (c, g, d, tx)
               (Some (udp_probe_trigger chip target_mac target_ip 64892 (ucast i))) 100 env s sys;
           Some (got, s, w, sys) })"

definition udp_port_scan where
  "udp_port_scan chip ip_gateway mac_gateway subnet_mask stack target_ip is_gateway init_port range_port resolve_envs envs w sys =
     port_scan chip ip_gateway mac_gateway subnet_mask stack (udp_probe chip target_ip) target_ip is_gateway init_port range_port
       resolve_envs envs w sys"

section \<open>What the predicate accepts\<close>

text \<open>A datagram to the controller from the port that was asked, to the port that asked.\<close>

definition udp_answer :: "buf \<Rightarrow> u16 \<Rightarrow> buf \<Rightarrow> bool" where
  "udp_answer my_mac port f \<longleftrightarrow>
     take 6 f = my_mac \<and> be16 (f ! 12) (f ! 13) = 0x0800 \<and> f ! 23 = 17 \<and>
     be16 (f ! 34) (f ! 35) = port \<and> be16 (f ! 36) (f ! 37) = 64892"

lemma two_bytes: "k + 1 < length f \<Longrightarrow> take 2 (drop k f) = [f ! k, f ! (k + 1)]"
  by (simp add: numeral_2_eq_2 Cons_nth_drop_Suc [symmetric])

lemma udp_ports:
  assumes "42 \<le> length f"
  shows "\<exists>h. udp_get_header f = Some h \<and> bytes_to_uint (mem16 0) (udp_source_port h) 2 = Some (mem16 (be16 (f ! 34) (f ! 35))) \<and>
           bytes_to_uint (mem16 0) (udp_dest_port h) 2 = Some (mem16 (be16 (f ! 36) (f ! 37)))"
proof -
  let ?h = "udp_of_bytes (take 8 (drop 34 f))"
  have "udp_source_port ?h = [f ! 34, f ! 35]" "udp_dest_port ?h = [f ! 36, f ! 37]"
    using assms by (simp_all add: udp_of_bytes_def two_bytes drop_take)
  then show ?thesis using assms by (simp add: udp_get_header_def udp.load_eq bytes_to_uint16 mem16_def)
qed

definition udp_waiting :: "chip \<Rightarrow> enc28j60 \<Rightarrow> udp_scan_pred_ctx \<Rightarrow> udp_scan_pred_ctx \<times> net \<Rightarrow> bool" where
  "udp_waiting chip d c0 = (\<lambda>(c, w).
     c = c0 \<and> honest_bank chip \<and> length (enc_ip_address d) = 4 \<and> length (up_my_mac c0) = 6 \<and>
     up_expected_dest_port c0 = 64892 \<and> net_ok d w)"

lemma udp_scan_match_step:
  assumes "udp_waiting chip d c0 (c, w)" "rx_frame (f, len)"
  shows "\<exists>w'. net_ok d w' \<and> udp_scan_match chip f len (c, w) =
           Some (udp_answer (up_my_mac c0) (up_expected_source_port c0) f, c, w')"
proof (cases "be16 (f ! 12) (f ! 13) = 0x0806")
  case True
  have "runs (arp_auto_reply chip f w) (net_ok d)"
    using assms by (intro arp_auto_reply_runs) (simp_all add: udp_waiting_def rx_frame_def)
  moreover have "\<not> udp_answer (up_my_mac c0) (up_expected_source_port c0) f" using True by (simp add: udp_answer_def)
  ultimately show ?thesis using True assms(2) by (auto simp: udp_scan_match_def is_arp_in rx_frame_def runs_iff)
next
  case False
  have f: "length f = 1518" using assms(2) by (simp add: rx_frame_def)
  have mine: "frame_to_me (up_my_mac c0) f = Some (take 6 f = up_my_mac c0)"
    using assms f by (intro frame_to_me_eq) (simp_all add: udp_waiting_def)
  obtain h where h: "udp_get_header f = Some h" "bytes_to_uint (mem16 0) (udp_source_port h) 2 = Some (mem16 (be16 (f ! 34) (f ! 35)))"
    "bytes_to_uint (mem16 0) (udp_dest_port h) 2 = Some (mem16 (be16 (f ! 36) (f ! 37)))"
    using udp_ports [of f] f by auto
  show ?thesis
    using False assms(1) f mine h
    by (intro exI [of _ w]) (auto simp: udp_scan_match_def is_arp_in is_udp_in udp_answer_def udp_waiting_def)
qed

interpretation udp_wait: packet_client "udp_scan_match chip" "udp_waiting chip d c0" rx_frame fst for chip d c0
proof
  fix c f len assume c: "udp_waiting chip d c0 c" "rx_frame (f, len)"
  obtain c1 w where w: "c = (c1, w)" by (cases c)
  then show "runs (udp_scan_match chip f len c) (\<lambda>(ok, c'). udp_waiting chip d c0 c')"
    using udp_scan_match_step [of chip d c0 c1 w f len] c by (auto simp: udp_waiting_def runs_iff)
qed

lemma empty_datagram_runs:
  "length b = 1484 \<Longrightarrow> runs (empty_datagram sp tp (Some b)) (\<lambda>((ok, len), r). r \<noteq> None \<and> length (the r) = length b \<and>
     (ok \<longrightarrow> unat len \<le> length b \<and> unat len < 2000))"
  by (simp add: empty_datagram_def set_udp_header_eq udp_segment_def)

lemma udp_trigger_ok:
  assumes "length target_mac = 6" "length target_ip = 4"
  shows "udp_wait.trigger_ok chip d c0 (Some (udp_probe_trigger chip target_mac target_ip sp tp))"
proof -
  have "runs (udp_probe_trigger chip target_mac target_ip sp tp c) (\<lambda>c'. udp_waiting chip d c0 c' \<and> fst c' = fst c)"
    if c: "udp_waiting chip d c0 c" for c
  proof -
    obtain a g d1 tx where a: "c = (a, g, d1, tx)" by (cases c)
    have d1: "honest_bank chip" "same_station d d1" "length tx = 1518" "length (enc_ip_address d1) = 4"
      using c by (simp_all add: udp_waiting_def net_ok_def same_station_def a)
    have idle: "driver_idle d1" using d1(2) by (simp add: same_station_def)
    then have mac: "length (enc_mac_address d1) = 6" by (simp add: driver_idle_def)
    have "runs (send_empty_udp_packet chip (enc_mac_address d1) target_mac (enc_ip_address d1) target_ip sp tp d1 tx)
        (\<lambda>(ok, d', b'). same_station d d' \<and> length b' = length tx)"
      unfolding send_empty_udp_packet_def
      by (rule send_ip_frame_runs [OF d1(1,2) _ mac assms(1) d1(4) assms(2)]) (use d1(3) empty_datagram_runs in simp_all)
    then show ?thesis using c by (auto simp: udp_probe_trigger_def a runs_iff udp_waiting_def net_ok_def)
  qed
  then show ?thesis by (simp add: udp_wait.trigger_ok_def)
qed

section \<open>Property\<close>

definition udp_port_answered :: "enc28j60 \<Rightarrow> u32 \<Rightarrow> wait_env \<Rightarrow> bool" where
  "udp_port_answered d i env \<longleftrightarrow> (\<exists>f len. frame_heard env (f, len) \<and> udp_answer (enc_mac_address d) (ucast i) f)"

lemma udp_port_probe:
  assumes "honest_bank chip" "length (enc_ip_address d) = 4" "length target_ip = 4" "length m = 6"
  shows "port_probe (udp_probe chip target_ip m) (net_ok d) rx_env (udp_port_answered d)"
proof
  fix w env s and i :: u32 and sys :: scanner_system
  assume w: "net_ok d w" and env: "rx_env env" and sys: "slots_clean (sy_slots sys)"
  obtain g d1 tx where e: "w = (g, d1, tx)" by (cases w)
  have d1: "enc_mac_address d1 = enc_mac_address d" "length (enc_mac_address d) = 6"
    using w by (auto simp: net_ok_def e same_station_def driver_idle_def)
  let ?c = "\<lparr> up_my_mac = enc_mac_address d, up_expected_source_port = ucast i, up_expected_dest_port = 64892 \<rparr>"
  have inv: "udp_waiting chip d ?c (?c, w)" using assms(1,2) d1(2) w by (simp add: udp_waiting_def)
  have heard: "\<forall>x. frame_heard env x \<longrightarrow> rx_frame x" using env by (simp add: rx_env_def)
  obtain got n c' w' s' sys' where r:
    "scanner_wait_for_packet (udp_scan_match chip) (?c, w) (Some (udp_probe_trigger chip m target_ip 64892 (ucast i))) 100 env s sys =
       Some (got, n, (c', w'), s', sys')" "udp_wait.waited chip d ?c env (?c, w) s sys (got, n, (c', w'), s', sys')"
    using udp_wait.scanner_wait_runs [OF _ _ sys heard inv udp_trigger_ok [OF assms(4,3)], of 100 64892 "ucast i" s] env
    by (auto simp: rx_env_def runs_iff)
  have kept: "udp_waiting chip d ?c (c', w')" "session_kept s s'" "system_kept sys sys'"
    using r(2) by (simp_all add: udp_wait.waited_def)
  have "net_ok d w'" using kept(1) by (simp add: udp_waiting_def)
  moreover have "udp_port_answered d i env" if got
  proof -
    from r(2) that obtain f c1 c2 where f: "frame_heard env (f, n)" "udp_waiting chip d ?c c1" "udp_scan_match chip f n c1 = Some (True, c2)"
      by (auto simp: udp_wait.waited_def udp_wait.accepted_def)
    obtain a w1 where a: "c1 = (a, w1)" by (cases c1)
    have "udp_answer (enc_mac_address d) (ucast i) f"
      using udp_scan_match_step [of chip d ?c a w1 f n] f heard by (auto simp: a)
    then show ?thesis using f(1) by (auto simp: udp_port_answered_def)
  qed
  ultimately show "runs (udp_probe chip target_ip m i env s w sys) (\<lambda>(answered, s', w', sys').
       net_ok d w' \<and> session_kept s s' \<and> system_kept sys sys' \<and> (answered \<longrightarrow> udp_port_answered d i env))"
    using r(1) d1(1) kept(2,3) by (auto simp: udp_probe_def e)
qed

text \<open>
  A UDP scan lists only ports that answered. Whatever frames arrive and whenever, the scan returns and gives
  back every slot and semaphore. The calls it makes on the menu are those of a run over the ports from
  \<open>init_port\<close> on, cut short by a cancel at most, and for every port it lists a
  datagram from that port to the controller was heard during that port's wait.
\<close>

theorem udp_port_scan_sound:
  assumes "honest_bank chip" "length (enc_ip_address d) = 4" "net_ok d w" "slots_clean (sy_slots sys)"
    and "\<forall>x\<in>set resolve_envs. quiet_env (snd x)" "\<forall>x\<in>set envs. rx_env (snd x)"
    and "length (ss_cache stack) = 4" "length ip_gateway = 4" "length subnet_mask = 4" "length target_ip = 4"
  shows "\<exists>calls s' w' sys'.
     udp_port_scan chip ip_gateway mac_gateway subnet_mask stack target_ip is_gateway init_port range_port
       resolve_envs envs w sys = Some (calls, s', w', sys') \<and>
     net_ok d w' \<and> system_kept sys sys' \<and> scan_calls (udp_port_answered d) init_port range_port envs calls"
  using port_scan_runs [OF assms udp_port_probe [OF assms(1,2,10)], where mac_gateway = mac_gateway and is_gateway = is_gateway and
      init_port = init_port and range_port = range_port]
  by (simp add: udp_port_scan_def runs_iff)

text \<open>A name server's datagram in the wait of port 53, nothing in the wait of port 54.\<close>

definition example_datagram :: buf where
  "example_datagram = [2, 0, 0, 0, 0, 1] @ [2, 0, 0, 0, 0, 9] @ [8, 0] @ [0x45, 0, 0, 28, 0, 0, 0, 0, 64, 17, 0, 0] @ [10, 0, 0, 1] @
     [10, 0, 0, 2] @ [0, 53] @ [0xFD, 0x7C] @ [0, 8, 0, 0] @ replicate 1476 0"

definition example_udp_envs :: "(scanner_poll \<times> wait_env) list" where
  "example_udp_envs = [(no_cancel, example_env [(example_datagram, 60)]), (no_cancel, example_env [])]"

lemma udp_port_scan_sound_witness:
  "\<exists>calls s' w' sys'.
     udp_port_scan example_chip [10, 0, 0, 1] (replicate 6 0) [255, 255, 255, 0] example_session [10, 0, 0, 1] True 53 2
       example_resolve example_udp_envs example_net example_system = Some (calls, s', w', sys') \<and>
     scan_calls (udp_port_answered example_driver) 53 2 example_udp_envs calls"
proof -
  have "rx_env (example_env [(example_datagram, 60)])" "rx_env (example_env [])"
    by (rule example_rx_env, simp add: rx_frame_def example_datagram_def)+
  then have envs: "\<forall>x\<in>set example_udp_envs. rx_env (snd x)" by (simp add: example_udp_envs_def)
  have l: "length ([10, 0, 0, 1] :: buf) = 4" "length ([255, 255, 255, 0] :: buf) = 4" by simp_all
  show ?thesis
    using udp_port_scan_sound [OF example_chip_ok(1) example_addresses example_net_ok example_system_clean
        example_resolve_quiet envs example_stack l l(1), where init_port = 53 and range_port = 2] by blast
qed

end
