(* ===== verification/Tcp_Module.thy ===== *)
theory Tcp_Module
  imports Udp_Scan
begin

text \<open>
  \<open>modules/tcp_module.c\<close>: the TCP segments the tool sends, the SYN scan through the scanner session, and the
  handshakes that poll the controller themselves. Random numbers are arguments; the hex
  dumps of the debug build are left out.
\<close>

section \<open>Senders\<close>

definition SCAN_TTL :: u8 where "SCAN_TTL = 64"
definition TCP_RST :: u16 where "TCP_RST = 0x0004"

text \<open>A header builder in the form the body of the senders takes it.\<close>

definition tcp_builder :: "(buf ptr \<Rightarrow> (bool \<times> buf ptr \<times> u16) option) \<Rightarrow> buf ptr \<Rightarrow> ((bool \<times> u16) \<times> buf ptr) option" where
  "tcp_builder f b = do { (ok, b, len) \<leftarrow> f b; Some ((ok, len), b) }"

definition syn_window :: "u32 \<Rightarrow> u16" where
  "syn_window random = (let r = ucast (random mod 3) :: u8 in if r = 0 then 64240 else if r = 1 then 65535 else 8192)"

definition tcp_send_syn ::
  "chip \<Rightarrow> u32 \<Rightarrow> buf \<Rightarrow> buf \<Rightarrow> buf \<Rightarrow> buf \<Rightarrow> u16 \<Rightarrow> u16 \<Rightarrow> u32 \<Rightarrow> u32 \<Rightarrow> enc28j60 \<Rightarrow> buf \<Rightarrow> (bool \<times> enc28j60 \<times> buf) option" where
  "tcp_send_syn chip random source_mac source_ip target_mac target_ip source_port dest_port sequence ack_number d tx_buffer =
     do { let window_size = syn_window random;
          (tick, d) \<leftarrow> get_tick chip d;
          send_ip_frame chip (tcp_builder (\<lambda>b. set_tcp_header_syn tick b (Some source_ip) (Some target_ip) source_port dest_port
               sequence ack_number window_size 0 0)) 6 SCAN_TTL source_mac source_ip target_mac target_ip d tx_buffer }"

text \<open>The comparison of two addresses under a mask as 32-bit words.\<close>

definition masked_equal :: "buf \<Rightarrow> buf \<Rightarrow> buf \<Rightarrow> bool option" where
  "masked_equal a b net =
     do { x \<leftarrow> rd_bytes a 0 4; y \<leftarrow> rd_bytes b 0 4; m \<leftarrow> rd_bytes net 0 4; Some (map2 (AND) x m = map2 (AND) y m) }"

text \<open>The two senders with a local buffer of 104 bytes.\<close>

definition tcp_send_fin ::
  "chip \<Rightarrow> buf \<Rightarrow> buf ptr \<Rightarrow> u16 \<Rightarrow> u16 \<Rightarrow> buf ptr \<Rightarrow> u32 \<Rightarrow> u32 \<Rightarrow> arp_globals \<Rightarrow> enc28j60 \<Rightarrow>
   (bool \<times> arp_globals \<times> enc28j60) option" where
  "tcp_send_fin chip subnet_mask target_ip source_port dest_port ip_gateway sequence ack_number g d =
     (case (target_ip, ip_gateway) of
        (Some target, Some gateway) \<Rightarrow>
          do { local \<leftarrow> masked_equal (enc_ip_address d) target subnet_mask;
               (found, target_mac, g, d) \<leftarrow> arp_get_specific_mac chip (Some (enc_ip_address d)) (if local then target else gateway)
                  (Some (enc_mac_address d)) (replicate 6 0) g d;
               if \<not> found then Some (False, g, d)
               else do { (ok, d, b) \<leftarrow> send_ip_frame chip (tcp_builder (\<lambda>b. set_tcp_header_fin b (Some (enc_ip_address d)) (Some target)
                            source_port dest_port sequence ack_number 0xFFFF 0 0)) 6 SCAN_TTL
                            (enc_mac_address d) (enc_ip_address d) target_mac target d (replicate 104 0);
                         Some (ok, g, d) } }
      | _ \<Rightarrow> Some (False, g, d))"

definition tcp_send_ack ::
  "chip \<Rightarrow> buf \<Rightarrow> buf \<Rightarrow> buf \<Rightarrow> buf ptr \<Rightarrow> u16 \<Rightarrow> u16 \<Rightarrow> u32 \<Rightarrow> u32 \<Rightarrow> enc28j60 \<Rightarrow> (bool \<times> enc28j60) option" where
  "tcp_send_ack chip source_mac source_ip target_mac target_ip source_port dest_port sequence ack_number d =
     (case target_ip of
        None \<Rightarrow> Some (False, d)
      | Some target \<Rightarrow>
          do { (ok, d, b) \<leftarrow> send_ip_frame chip (tcp_builder (\<lambda>b. set_tcp_header_ack b (Some source_ip) (Some target)
                  source_port dest_port sequence ack_number 0xFFFF 0 0)) 6 SCAN_TTL source_mac source_ip target_mac target d (replicate 104 0);
               Some (ok, d) })"

text \<open>The probes of the OS detector; the NULL and the XMAS probe use the builder with options, without any.\<close>

definition tcp_send_ack_probe ::
  "chip \<Rightarrow> buf \<Rightarrow> buf \<Rightarrow> buf \<Rightarrow> buf \<Rightarrow> u16 \<Rightarrow> u16 \<Rightarrow> u32 \<Rightarrow> enc28j60 \<Rightarrow> buf \<Rightarrow> (bool \<times> enc28j60 \<times> buf) option" where
  "tcp_send_ack_probe chip source_mac source_ip target_mac target_ip source_port dest_port sequence d tx_buffer =
     send_ip_frame chip (tcp_builder (\<lambda>b. set_tcp_header_ack b (Some source_ip) (Some target_ip) source_port dest_port sequence 0 1024 0 0))
       6 SCAN_TTL source_mac source_ip target_mac target_ip d tx_buffer"

definition tcp_send_fin_probe ::
  "chip \<Rightarrow> buf \<Rightarrow> buf \<Rightarrow> buf \<Rightarrow> buf \<Rightarrow> u16 \<Rightarrow> u16 \<Rightarrow> u32 \<Rightarrow> enc28j60 \<Rightarrow> buf \<Rightarrow> (bool \<times> enc28j60 \<times> buf) option" where
  "tcp_send_fin_probe chip source_mac source_ip target_mac target_ip source_port dest_port sequence d tx_buffer =
     send_ip_frame chip (tcp_builder (\<lambda>b. set_tcp_header_fin b (Some source_ip) (Some target_ip) source_port dest_port sequence 0 1024 0 0))
       6 SCAN_TTL source_mac source_ip target_mac target_ip d tx_buffer"

definition tcp_send_null_probe ::
  "chip \<Rightarrow> buf \<Rightarrow> buf \<Rightarrow> buf \<Rightarrow> buf \<Rightarrow> u16 \<Rightarrow> u16 \<Rightarrow> u32 \<Rightarrow> enc28j60 \<Rightarrow> buf \<Rightarrow> (bool \<times> enc28j60 \<times> buf) option" where
  "tcp_send_null_probe chip source_mac source_ip target_mac target_ip source_port dest_port sequence d tx_buffer =
     send_ip_frame chip (tcp_builder (\<lambda>b. set_tcp_header_tseq b (Some source_ip) (Some target_ip) source_port dest_port sequence 0 1024 0 0 []))
       6 SCAN_TTL source_mac source_ip target_mac target_ip d tx_buffer"

definition tcp_send_xmas_probe ::
  "chip \<Rightarrow> buf \<Rightarrow> buf \<Rightarrow> buf \<Rightarrow> buf \<Rightarrow> u16 \<Rightarrow> u16 \<Rightarrow> u32 \<Rightarrow> enc28j60 \<Rightarrow> buf \<Rightarrow> (bool \<times> enc28j60 \<times> buf) option" where
  "tcp_send_xmas_probe chip source_mac source_ip target_mac target_ip source_port dest_port sequence d tx_buffer =
     send_ip_frame chip (tcp_builder (\<lambda>b. set_tcp_header_tseq b (Some source_ip) (Some target_ip) source_port dest_port sequence 0 1024 0 0 []))
       6 SCAN_TTL source_mac source_ip target_mac target_ip d tx_buffer"

section \<open>The SYN scan\<close>

record tcp_scan_pred_ctx =
  tp_my_mac :: buf
  tp_expected_source_port :: u16
  tp_port_open :: bool

text \<open>The flags of a header: nine bits of the two bytes.\<close>

definition tcp_flags :: "tcp_header \<Rightarrow> u16 option" where
  "tcp_flags h = do { m \<leftarrow> bytes_to_uint (mem16 0) (tcp_data_offset_flags h) 2; Some (val16 m AND 0x1FF) }"

definition tcp_scan_match :: "chip \<Rightarrow> (tcp_scan_pred_ctx \<times> net) packet_predicate" where
  "tcp_scan_match chip frame len =
     (\<lambda>(c, w).
        do { arp \<leftarrow> is_arp (Some frame);
             if arp then do { w \<leftarrow> arp_auto_reply chip frame w; Some (False, c, w) }
             else do { tcp \<leftarrow> is_tcp (Some frame);
                       if \<not> tcp then Some (False, c, w)
                       else do { mine \<leftarrow> frame_to_me (tp_my_mac c) frame;
                                 if \<not> mine then Some (False, c, w)
                                 else do { hdr \<leftarrow> tcp_get_header frame;
                                           data_offset_flags \<leftarrow> tcp_flags hdr;
                                           src \<leftarrow> bytes_to_uint (mem16 0) (tcp_source_port hdr) 2;
                                           if val16 src \<noteq> tp_expected_source_port c then Some (False, c, w)
                                           else let syn_ack = TCP_SYN OR TCP_ACK in
                                             if data_offset_flags AND syn_ack = syn_ack
                                             then Some (True, c\<lparr> tp_port_open := True \<rparr>, w)
                                             else Some (False, c, w) } } } })"

definition tcp_syn_trigger ::
  "chip \<Rightarrow> u32 \<Rightarrow> buf \<Rightarrow> buf \<Rightarrow> u16 \<Rightarrow> u16 \<Rightarrow> u32 \<Rightarrow> u32 \<Rightarrow> (tcp_scan_pred_ctx \<times> net) trigger" where
  "tcp_syn_trigger chip random target_mac target_ip source_port dest_port sequence ack_number =
     (\<lambda>(c, g, d, tx).
        do { (_, d, tx) \<leftarrow> tcp_send_syn chip random (enc_mac_address d) (enc_ip_address d) target_mac target_ip
               source_port dest_port sequence ack_number d tx;
             Some (c, g, d, tx) })"

text \<open>The environment of one port: \<open>rand\<close>, the random number for the window, and the wait.\<close>

record tcp_probe_env =
  te_rand :: nat
  te_random :: u32
  te_wait :: wait_env

definition tcp_probe ::
  "chip \<Rightarrow> buf \<Rightarrow> u32 \<Rightarrow> buf \<Rightarrow> u32 \<Rightarrow> tcp_probe_env \<Rightarrow> scanner_session \<Rightarrow> net \<Rightarrow> scanner_system \<Rightarrow>
   (bool \<times> scanner_session \<times> net \<times> scanner_system) option" where
  "tcp_probe chip target_ip sequence target_mac i env s w sys =
     (case w of (g, d, tx) \<Rightarrow>
      do { let src_port = of_nat (32768 + te_rand env mod 28232);
           let c = \<lparr> tp_my_mac = enc_mac_address d, tp_expected_source_port = ucast i, tp_port_open = False \<rparr>;
           (got, n, (c, w), s, sys) \<leftarrow>
             scanner_wait_for_packet (tcp_scan_match chip) (c, g, d, tx)
               (Some (tcp_syn_trigger chip (te_random env) target_mac target_ip src_port (ucast i) sequence 0)) 100 (te_wait env) s sys;
           Some (got \<and> tp_port_open c, s, w, sys) })"

text \<open>\<open>tick\<close> and \<open>rand\<close> are read once, after the resolution.\<close>

definition tcp_syn_scan where
  "tcp_syn_scan chip ip_gateway mac_gateway subnet_mask stack tick rand target_ip is_gateway init_port range_port resolve_envs envs w sys =
     port_scan chip ip_gateway mac_gateway subnet_mask stack (tcp_probe chip target_ip (tick XOR push_bit 16 rand)) target_ip is_gateway
       init_port range_port resolve_envs envs w sys"

section \<open>Handshakes\<close>

text \<open>What a received TCP frame for the controller means to a handshake that waits for the second segment.\<close>

datatype handshake_answer = Accepted u32 u32 | Refused | Other

definition handshake_frame :: "buf \<Rightarrow> handshake_answer option" where
  "handshake_frame rx_buffer =
     do { header \<leftarrow> tcp_get_header rx_buffer;
          flags \<leftarrow> tcp_flags header;
          if flags AND (TCP_SYN OR TCP_ACK) = TCP_SYN OR TCP_ACK
          then do { sq \<leftarrow> bytes_to_uint (mem32 0) (tcp_sequence header) 4;
                    ak \<leftarrow> bytes_to_uint (mem32 0) (tcp_ack_number header) 4;
                    Some (Accepted (val32 sq) (val32 ak)) }
          else if flags AND (TCP_RST OR TCP_ACK) = TCP_RST OR TCP_ACK then Some Refused
          else Some Other }"

text \<open>The receive loop; it ends with the numbers of the segment that was accepted.\<close>

partial_function (option) handshake_wait ::
  "chip \<Rightarrow> u32 \<Rightarrow> buf \<Rightarrow> arp_globals \<Rightarrow> enc28j60 \<Rightarrow> ((u32 \<times> u32) ptr \<times> buf \<times> arp_globals \<times> enc28j60) option" where
  "handshake_wait chip last_time rx_buffer g d =
     do { (now, d) \<leftarrow> get_tick chip d;
          if now - last_time > 3000 then Some (None, rx_buffer, g, d)
          else do { (len, rx_buffer, d) \<leftarrow> receive_packet chip rx_buffer 1500 d;
                    if len = 0 then handshake_wait chip last_time rx_buffer g d
                    else do { arp \<leftarrow> is_arp (Some rx_buffer);
                              if arp
                              then do { (_, g, d) \<leftarrow> arp_reply_requested chip (Some rx_buffer) (Some (enc_ip_address d)) g d;
                                        handshake_wait chip last_time rx_buffer g d }
                              else do { tcp \<leftarrow> is_tcp (Some rx_buffer);
                                        mine \<leftarrow> (if tcp then frame_to_me (enc_mac_address d) rx_buffer else Some False);
                                        if \<not> mine then handshake_wait chip last_time rx_buffer g d
                                        else do { answer \<leftarrow> handshake_frame rx_buffer;
                                                  (case answer of
                                                     Accepted sq ak \<Rightarrow> Some (Some (sq, ak), rx_buffer, g, d)
                                                   | Refused \<Rightarrow> Some (None, rx_buffer, g, d)
                                                   | Other \<Rightarrow> handshake_wait chip last_time rx_buffer g d) } } } } }"

text \<open>
  The body of both handshakes: the address of the target or, when the gateway is on another network than the target, of
  the gateway; the SYN; the wait; the ACK. They differ in the source they claim.
\<close>

definition tcp_handshake ::
  "chip \<Rightarrow> buf \<Rightarrow> buf \<Rightarrow> (enc28j60 \<Rightarrow> buf \<times> buf) \<Rightarrow> u32 \<Rightarrow> u32 \<Rightarrow> buf \<Rightarrow> u16 \<Rightarrow> u16 \<Rightarrow> net \<Rightarrow> buf \<Rightarrow> (bool \<times> net \<times> buf) option" where
  "tcp_handshake chip ip_gateway subnet_mask source rand random target_ip source_port dest_port w rx_buffer =
     (case w of (g, d, tx) \<Rightarrow>
      do { local \<leftarrow> masked_equal ip_gateway target_ip subnet_mask;
           (found, target_mac, g, d) \<leftarrow> arp_get_specific_mac chip (Some (enc_ip_address d)) (if local then target_ip else ip_gateway)
              (Some (enc_mac_address d)) (replicate 6 0) g d;
           if \<not> found then Some (False, (g, d, tx), rx_buffer)
           else do { (tick, d) \<leftarrow> get_tick chip d;
                     let sequence = tick XOR push_bit 16 rand;
                     let (source_mac, source_ip) = source d;
                     (sent, d, tx) \<leftarrow> tcp_send_syn chip random source_mac source_ip target_mac target_ip source_port dest_port sequence 0 d tx;
                     (last_time, d) \<leftarrow> (if sent then get_tick chip d else Some (0, d));
                     (numbers, rx_buffer, g, d) \<leftarrow> handshake_wait chip last_time rx_buffer g d;
                     (case numbers of
                        None \<Rightarrow> Some (False, (g, d, tx), rx_buffer)
                      | Some (sequence, ack_number) \<Rightarrow>
                          do { (ok, d) \<leftarrow> tcp_send_ack chip source_mac source_ip target_mac (Some target_ip) source_port dest_port
                                 ack_number (sequence + 1) d;
                               Some (ok, (g, d, tx), rx_buffer) }) } })"

definition tcp_handshake_process where
  "tcp_handshake_process chip ip_gateway subnet_mask rand random target_ip source_port dest_port w rx_buffer =
     tcp_handshake chip ip_gateway subnet_mask (\<lambda>d. (enc_mac_address d, enc_ip_address d)) rand random target_ip source_port dest_port w rx_buffer"

definition tcp_handshake_process_spoof where
  "tcp_handshake_process_spoof chip ip_gateway mac_gateway subnet_mask rand random target_ip source_port dest_port w rx_buffer =
     tcp_handshake chip ip_gateway subnet_mask (\<lambda>d. (mac_gateway, ip_gateway)) rand random target_ip source_port dest_port w rx_buffer"

text \<open>The detector sends a SYN in the gateway's name and waits for any TCP frame to the controller.\<close>

partial_function (option) detector_wait ::
  "chip \<Rightarrow> u32 \<Rightarrow> buf \<Rightarrow> arp_globals \<Rightarrow> enc28j60 \<Rightarrow> (bool \<times> buf \<times> arp_globals \<times> enc28j60) option" where
  "detector_wait chip last_time rx_buffer g d =
     do { (now, d) \<leftarrow> get_tick chip d;
          if now - last_time > 3000 then Some (False, rx_buffer, g, d)
          else do { (len, rx_buffer, d) \<leftarrow> receive_packet chip rx_buffer 1500 d;
                    if len = 0 then detector_wait chip last_time rx_buffer g d
                    else do { arp \<leftarrow> is_arp (Some rx_buffer);
                              if arp
                              then do { (_, g, d) \<leftarrow> arp_reply_requested chip (Some rx_buffer) (Some (enc_ip_address d)) g d;
                                        detector_wait chip last_time rx_buffer g d }
                              else do { tcp \<leftarrow> is_tcp (Some rx_buffer);
                                        mine \<leftarrow> (if tcp then frame_to_me (enc_mac_address d) rx_buffer else Some False);
                                        if mine then Some (True, rx_buffer, g, d)
                                        else detector_wait chip last_time rx_buffer g d } } } }"

definition tcp_os_detector ::
  "chip \<Rightarrow> buf \<Rightarrow> buf \<Rightarrow> buf \<Rightarrow> u32 \<Rightarrow> u32 \<Rightarrow> buf \<Rightarrow> u16 \<Rightarrow> u16 \<Rightarrow> net \<Rightarrow> buf \<Rightarrow> (bool \<times> net \<times> buf) option" where
  "tcp_os_detector chip ip_gateway mac_gateway subnet_mask rand random target_ip source_port dest_port w rx_buffer =
     (case w of (g, d, tx) \<Rightarrow>
      do { local \<leftarrow> masked_equal ip_gateway target_ip subnet_mask;
           (found, target_mac, g, d) \<leftarrow> arp_get_specific_mac chip (Some (enc_ip_address d)) (if local then target_ip else ip_gateway)
              (Some (enc_mac_address d)) (replicate 6 0) g d;
           if \<not> found then Some (False, (g, d, tx), rx_buffer)
           else do { (tick, d) \<leftarrow> get_tick chip d;
                     (sent, d, tx) \<leftarrow> tcp_send_syn chip random mac_gateway ip_gateway target_mac target_ip source_port dest_port
                        (tick XOR push_bit 16 rand) 0 d tx;
                     (last_time, d) \<leftarrow> (if sent then get_tick chip d else Some (0, d));
                     (result, rx_buffer, g, d) \<leftarrow> detector_wait chip last_time rx_buffer g d;
                     Some (result, (g, d, tx), rx_buffer) } })"

section \<open>Headers of received frames\<close>

text \<open>A prefix that is written twice.\<close>

lemma take_twice:
  assumes "k \<le> length x"
  shows "take k (take n x @ drop n (take k x @ z)) = take k x"
proof (cases "n \<le> k")
  case True
  then have "take n (take k x @ z) = take n x" using assms by simp
  then have "take n x @ drop n (take k x @ z) = take k x @ z" by (metis append_take_drop_id)
  then show ?thesis using assms by simp
next
  case False
  then show ?thesis using assms by (simp add: min_def)
qed

lemma tcp_get_header_frame:
  assumes "94 \<le> length f"
  shows "\<exists>h. tcp_get_header f = Some h \<and> wf_tcp h \<and> tcp_source_port h = [f ! 34, f ! 35] \<and>
           tcp_data_offset_flags h = [f ! 46, f ! 47] \<and> tcp_sequence h = take 4 (drop 38 f) \<and> tcp_ack_number h = take 4 (drop 42 f)"
proof -
  define x where "x = drop 34 f"
  define h0 where "h0 = take 20 x @ replicate 50 0"
  define n where "n = unat (drop_bit 4 (h0 ! 12)) * 4"
  define b where "b = take n x @ drop n h0"
  have "unat (drop_bit 4 (h0 ! 12)) < 16"
    unfolding unat_drop_bit_eq by (simp add: drop_bit_eq_div less_mult_imp_div_less)
  then have n: "n \<le> 60" by (simp add: n_def)
  have x: "60 \<le> length x" using assms by (simp add: x_def)
  have l: "length (take n x) = n" "length h0 = 70" "length (take 20 x) = 20" using n x by (simp_all add: h0_def)
  have zero: "tcp_to_bytes tcp_zero = replicate 20 0 @ replicate 50 0"
    by (simp add: tcp_to_bytes_def tcp_fixed_bytes_def tcp_zero_def eval_nat_numeral)
  have fixed: "rd_bytes f 34 20 = Some (take 20 x)" "wr_bytes (tcp_to_bytes tcp_zero) 0 (take 20 x) = Some h0"
    using assms l(3) unfolding zero by (simp_all add: rd_bytes_def wr_bytes_def x_def h0_def)
  have whole: "rd_bytes f 34 n = Some (take n x)" "wr_bytes h0 0 (take n x) = Some b"
    using assms n l(1,2) by (simp_all add: rd_bytes_def wr_bytes_def x_def b_def)
  have get: "tcp_get_header f = Some (tcp_of_bytes b)"
    unfolding tcp_get_header_def fixed bind.bind_lunit Let_def n_def [symmetric] whole ..
  have first: "take 20 b = take 20 x" unfolding b_def h0_def by (rule take_twice) (use x in simp)
  have part: "take a (drop k b) = take a (drop (34 + k) f)" if "k + a \<le> 20" for a k
  proof -
    have "a \<le> 20 - k" using that by linarith
    then show ?thesis using arg_cong [OF first, of "\<lambda>z. take a (drop k z)"] by (simp add: drop_take min_absorb1 x_def add.commute)
  qed
  have "length b = 70" using n l(1,2) by (simp add: b_def)
  then have "wf_tcp (tcp_of_bytes b)" by (rule tcp.wf_dec)
  moreover have "tcp_source_port (tcp_of_bytes b) = [f ! 34, f ! 35]" "tcp_data_offset_flags (tcp_of_bytes b) = [f ! 46, f ! 47]"
    using part [of 0 2] part [of 12 2] two_bytes [of 34 f] two_bytes [of 46 f] assms by (simp_all add: tcp_of_bytes_def)
  moreover have "tcp_sequence (tcp_of_bytes b) = take 4 (drop 38 f)" "tcp_ack_number (tcp_of_bytes b) = take 4 (drop 42 f)"
    using part [of 4 4] part [of 8 4] by (simp_all add: tcp_of_bytes_def)
  ultimately show ?thesis using get by blast
qed

lemma tcp_flags_eq: "tcp_data_offset_flags h = [a, b] \<Longrightarrow> tcp_flags h = Some (be16 a b AND 0x1FF)"
  by (simp add: tcp_flags_def bytes_to_uint16 mem16_def val16_def)

text \<open>A segment from the port to the controller with SYN and ACK set.\<close>

definition syn_ack_from :: "buf \<Rightarrow> u16 \<Rightarrow> buf \<Rightarrow> bool" where
  "syn_ack_from my_mac port f \<longleftrightarrow>
     take 6 f = my_mac \<and> be16 (f ! 12) (f ! 13) = 0x0800 \<and> f ! 23 = 6 \<and> be16 (f ! 34) (f ! 35) = port \<and>
     be16 (f ! 46) (f ! 47) AND 0x12 = 0x12"

lemma flags_syn_ack: "(w AND 0x1FF) AND (TCP_SYN OR TCP_ACK) = TCP_SYN OR TCP_ACK \<longleftrightarrow> (w :: u16) AND 0x12 = 0x12"
proof -
  have "TCP_SYN OR TCP_ACK = 0x12" by (simp add: TCP_SYN_def TCP_ACK_def)
  moreover have "(w AND 0x1FF) AND 0x12 = w AND 0x12" by (simp add: and.assoc)
  ultimately show ?thesis by simp
qed

definition tcp_waiting :: "chip \<Rightarrow> enc28j60 \<Rightarrow> buf \<Rightarrow> u16 \<Rightarrow> tcp_scan_pred_ctx \<times> net \<Rightarrow> bool" where
  "tcp_waiting chip d my_mac port = (\<lambda>(c, w).
     tp_my_mac c = my_mac \<and> tp_expected_source_port c = port \<and> honest_bank chip \<and> length (enc_ip_address d) = 4 \<and>
     length my_mac = 6 \<and> net_ok d w)"

lemma tcp_scan_match_step:
  assumes "tcp_waiting chip d my_mac port (c, w)" "rx_frame (f, len)"
  shows "\<exists>w'. net_ok d w' \<and> tcp_scan_match chip f len (c, w) =
           Some (if syn_ack_from my_mac port f then (True, c\<lparr> tp_port_open := True \<rparr>, w') else (False, c, w'))"
proof (cases "be16 (f ! 12) (f ! 13) = 0x0806")
  case True
  have "runs (arp_auto_reply chip f w) (net_ok d)"
    using assms by (intro arp_auto_reply_runs) (simp_all add: tcp_waiting_def rx_frame_def)
  moreover have "\<not> syn_ack_from my_mac port f" using True by (simp add: syn_ack_from_def)
  ultimately show ?thesis using True assms(2) by (auto simp: tcp_scan_match_def is_arp_in rx_frame_def runs_iff)
next
  case False
  have f: "length f = 1518" using assms(2) by (simp add: rx_frame_def)
  have mine: "frame_to_me my_mac f = Some (take 6 f = my_mac)"
    using assms f by (intro frame_to_me_eq) (simp_all add: tcp_waiting_def)
  obtain h where h: "tcp_get_header f = Some h" "tcp_source_port h = [f ! 34, f ! 35]" "tcp_data_offset_flags h = [f ! 46, f ! 47]"
    using tcp_get_header_frame [of f] f by auto
  have src: "bytes_to_uint (mem16 0) (tcp_source_port h) 2 = Some (mem16 (be16 (f ! 34) (f ! 35)))"
    unfolding h(2) by (rule bytes_to_uint16) (simp add: mem16_def)
  show ?thesis
    using False assms(1) f mine h(1) src tcp_flags_eq [OF h(3)]
    by (intro exI [of _ w]) (auto simp: tcp_scan_match_def is_arp_in is_tcp_in syn_ack_from_def tcp_waiting_def Let_def flags_syn_ack)
qed

interpretation tcp_wait: packet_client "tcp_scan_match chip" "tcp_waiting chip d my_mac port" rx_frame fst for chip d my_mac port
proof
  fix c f len assume c: "tcp_waiting chip d my_mac port c" "rx_frame (f, len)"
  obtain c1 w where w: "c = (c1, w)" by (cases c)
  then show "runs (tcp_scan_match chip f len c) (\<lambda>(ok, c'). tcp_waiting chip d my_mac port c')"
    using tcp_scan_match_step [of chip d my_mac port c1 w f len] c by (auto simp: tcp_waiting_def runs_iff)
qed

lemma driver_idle_ticks [simp]: "driver_idle (d\<lparr> bus_ticks := n \<rparr>) = driver_idle d"
  by (simp add: driver_idle_def)

lemma tcp_syn_builder_runs:
  assumes "length b = 1484" "length s = 4" "length t = 4"
  shows "runs (tcp_builder (\<lambda>b. set_tcp_header_syn tick b (Some s) (Some t) sp dp sq ak win 0 0) (Some b))
     (\<lambda>((ok, len), r). r \<noteq> None \<and> length (the r) = length b \<and> (ok \<longrightarrow> unat len \<le> length b \<and> unat len < 2000))"
proof -
  let ?h = "tcp_finish s t (tcp_fields sp dp sq ak 0xA002 win 0 (syn_option_bytes tick @ replicate 30 0)) 20"
  have "length (tcp_segment ?h 20) = 40"
    by (subst length_tcp_segment) (simp_all add: wf_intros syn_option_bytes_def)
  then show ?thesis using assms by (simp add: tcp_builder_def set_tcp_header_syn_eq)
qed

lemma tcp_send_syn_runs:
  assumes "honest_bank chip" "same_station d0 d" "length tx = 1518" "length source_mac = 6" "length target_mac = 6"
    and "length source_ip = 4" "length target_ip = 4"
  shows "runs (tcp_send_syn chip random source_mac source_ip target_mac target_ip sp dp sq ak d tx)
           (\<lambda>(ok, d', b'). same_station d0 d' \<and> length b' = length tx)"
proof -
  let ?d = "d\<lparr> bus_ticks := bus_ticks d + 1 \<rparr>"
  have d: "same_station d0 ?d" using assms(2) by (simp add: same_station_def)
  show ?thesis
    unfolding tcp_send_syn_def get_tick_def Let_def bind.bind_lunit prod.case
    by (rule send_ip_frame_runs [OF assms(1) d _ assms(4-7)])
      (use assms(3) tcp_syn_builder_runs [OF _ assms(6,7)] in simp_all)
qed

lemma tcp_trigger_ok:
  assumes "length target_mac = 6" "length target_ip = 4"
  shows "tcp_wait.trigger_ok chip d my_mac port (Some (tcp_syn_trigger chip random target_mac target_ip sp dp sq ak))"
proof -
  have "runs (tcp_syn_trigger chip random target_mac target_ip sp dp sq ak c) (\<lambda>c'. tcp_waiting chip d my_mac port c' \<and> fst c' = fst c)"
    if c: "tcp_waiting chip d my_mac port c" for c
  proof -
    obtain a g d1 tx where a: "c = (a, g, d1, tx)" by (cases c)
    have d1: "honest_bank chip" "same_station d d1" "length tx = 1518" "length (enc_ip_address d1) = 4"
      using c by (simp_all add: tcp_waiting_def net_ok_def same_station_def a)
    have "driver_idle d1" using d1(2) by (simp add: same_station_def)
    then have mac: "length (enc_mac_address d1) = 6" by (simp add: driver_idle_def)
    show ?thesis
      using tcp_send_syn_runs [OF d1(1-3) mac assms(1) d1(4) assms(2), of random sp dp sq ak] c
      by (auto simp: tcp_syn_trigger_def a runs_iff tcp_waiting_def net_ok_def)
  qed
  then show ?thesis by (simp add: tcp_wait.trigger_ok_def)
qed

definition tcp_port_open :: "enc28j60 \<Rightarrow> u32 \<Rightarrow> tcp_probe_env \<Rightarrow> bool" where
  "tcp_port_open d i env \<longleftrightarrow> (\<exists>f len. frame_heard (te_wait env) (f, len) \<and> syn_ack_from (enc_mac_address d) (ucast i) f)"

lemma tcp_port_probe:
  assumes "honest_bank chip" "length (enc_ip_address d) = 4" "length target_ip = 4" "length m = 6"
  shows "port_probe (tcp_probe chip target_ip sequence m) (net_ok d) (\<lambda>env. rx_env (te_wait env)) (tcp_port_open d)"
proof
  fix w s and env :: tcp_probe_env and i :: u32 and sys :: scanner_system
  assume w: "net_ok d w" and env: "rx_env (te_wait env)" and sys: "slots_clean (sy_slots sys)"
  obtain g d1 tx where e: "w = (g, d1, tx)" by (cases w)
  have d1: "enc_mac_address d1 = enc_mac_address d" "length (enc_mac_address d) = 6"
    using w by (auto simp: net_ok_def e same_station_def driver_idle_def)
  let ?c = "\<lparr> tp_my_mac = enc_mac_address d, tp_expected_source_port = ucast i, tp_port_open = False \<rparr>"
  let ?sp = "of_nat (32768 + te_rand env mod 28232) :: u16"
  have inv: "tcp_waiting chip d (enc_mac_address d) (ucast i) (?c, w)" using assms(1,2) d1(2) w by (simp add: tcp_waiting_def)
  have heard: "\<forall>x. frame_heard (te_wait env) x \<longrightarrow> rx_frame x" using env by (simp add: rx_env_def)
  obtain got n c' w' s' sys' where r:
    "scanner_wait_for_packet (tcp_scan_match chip) (?c, w) (Some (tcp_syn_trigger chip (te_random env) m target_ip ?sp (ucast i) sequence 0))
       100 (te_wait env) s sys = Some (got, n, (c', w'), s', sys')"
    "tcp_wait.waited chip d (enc_mac_address d) (ucast i) (te_wait env) (?c, w) s sys (got, n, (c', w'), s', sys')"
    using tcp_wait.scanner_wait_runs [OF _ _ sys heard inv tcp_trigger_ok [OF assms(4,3)],
        of 100 "te_random env" ?sp "ucast i" sequence 0 s] env
    by (auto simp: rx_env_def runs_iff)
  have kept: "tcp_waiting chip d (enc_mac_address d) (ucast i) (c', w')" "session_kept s s'" "system_kept sys sys'"
    using r(2) by (simp_all add: tcp_wait.waited_def)
  have "net_ok d w'" using kept(1) by (simp add: tcp_waiting_def)
  moreover have "tcp_port_open d i env" if got
  proof -
    from r(2) that obtain f c1 c2 where f: "frame_heard (te_wait env) (f, n)" "tcp_waiting chip d (enc_mac_address d) (ucast i) c1"
      "tcp_scan_match chip f n c1 = Some (True, c2)"
      by (auto simp: tcp_wait.waited_def tcp_wait.accepted_def)
    obtain a w1 where a: "c1 = (a, w1)" by (cases c1)
    have "syn_ack_from (enc_mac_address d) (ucast i) f"
      using tcp_scan_match_step [of chip d "enc_mac_address d" "ucast i" a w1 f n] f heard by (auto simp: a split: if_splits)
    then show ?thesis using f(1) by (auto simp: tcp_port_open_def)
  qed
  ultimately show "runs (tcp_probe chip target_ip sequence m i env s w sys) (\<lambda>(answered, s', w', sys').
       net_ok d w' \<and> session_kept s s' \<and> system_kept sys sys' \<and> (answered \<longrightarrow> tcp_port_open d i env))"
    using r(1) d1(1) kept(2,3) by (auto simp: tcp_probe_def e)
qed

section \<open>Properties\<close>

text \<open>
  C35. A SYN scan lists only ports that answered. Whatever frames arrive and whenever, the scan returns and gives
  back every slot and semaphore. The calls it makes on the menu are those of a run over the ports from
  \<open>init_port\<close> on, cut short by a cancel at most, and for every port it lists a segment from that port
  to the controller with SYN and ACK set was heard during that port's wait.
\<close>

theorem tcp_syn_scan_sound:
  assumes "honest_bank chip" "length (enc_ip_address d) = 4" "net_ok d w" "slots_clean (sy_slots sys)"
    and "\<forall>x\<in>set resolve_envs. quiet_env (snd x)" "\<forall>x\<in>set envs. rx_env (te_wait (snd x))"
    and "length (ss_cache stack) = 4" "length ip_gateway = 4" "length subnet_mask = 4" "length target_ip = 4"
  shows "\<exists>calls s' w' sys'.
     tcp_syn_scan chip ip_gateway mac_gateway subnet_mask stack tick rand target_ip is_gateway init_port range_port
       resolve_envs envs w sys = Some (calls, s', w', sys') \<and>
     net_ok d w' \<and> system_kept sys sys' \<and> scan_calls (tcp_port_open d) init_port range_port envs calls"
  using port_scan_runs [OF assms(1-5) _ assms(7-10) tcp_port_probe [OF assms(1,2,10), where sequence = "tick XOR push_bit 16 rand"], where envs = envs and mac_gateway = mac_gateway
      and is_gateway = is_gateway and init_port = init_port and range_port = range_port] assms(6)
  by (simp add: tcp_syn_scan_def runs_iff)

lemma tseq_without_options:
  assumes "20 \<le> length b" "length s = 4" "length t = 4"
  shows "set_tcp_header_tseq (Some b) (Some s) (Some t) sp dp sq ak win urg 0 [] =
           Some (True, Some (tcp_segment (tcp_finish s t
             (tcp_fields sp dp sq ak 0x5002 win urg (replicate 50 0)) 0) 0 @ drop 20 b), 20)"
proof -
  let ?h = "tcp_fields sp dp sq ak 0x5002 win urg (replicate 50 0)"
  have wf: "wf_tcp ?h" "wf_tcp (tcp_finish s t ?h 0)" by (simp_all add: wf_intros)
  have z: "tcp_checksum ?h = [0, 0]" by (simp add: tcp_fields_def)
  have l: "length (tcp_segment (tcp_finish s t ?h 0) 0) = 20" using wf by (simp add: length_tcp_segment)
  have "push_bit 12 5 OR TCP_SYN = (0x5002 :: u16)" by (simp add: TCP_SYN_def)
  then have create: "create_tcp_header (Some tcp_zero) sp dp sq ak TCP_SYN win urg = Some (True, Some ?h)"
    by (simp add: create_tcp_header_eq)
  have f: "tcp_data_offset_flags ?h = [0x50, 0x02]" "tcp_options ?h = replicate 50 0"
    by (simp_all add: tcp_fields_def hi8_def lo8_def)
  then have same: "?h\<lparr> tcp_data_offset_flags := [0x50, 0x02] \<rparr> = ?h" "?h\<lparr> tcp_options := replicate 50 0 \<rparr> = ?h"
    by (simp_all add: tcp_fields_def)
  have none: "rd_bytes [] 0 0 = Some []" "wr_bytes (replicate 50 0) 0 [] = Some (replicate 50 (0 :: u8))"
    by (simp_all add: rd_bytes_def wr_bytes_def)
  show ?thesis
    using assms l calculate_checksum_tcp_eq [OF wf(1) z assms(2,3), of 0] create
    by (simp add: set_tcp_header_tseq_def tcp_pseudo_header_eq rd_tcp_segment [OF wf(2)] wr_bytes_in Let_def f same none)
qed

text \<open>
  C36. The NULL probe and the XMAS probe are SYN probes. Both of them send one and the same frame, and the header in it
  has the SYN flag and no other, where the names promise no flag and FIN, PSH and URG.
\<close>

theorem tcp_null_xmas_probes_are_syn:
  assumes "honest_bank chip" "driver_idle d" "length tx = 1518" "length source_mac = 6" "length target_mac = 6"
    and "length source_ip = 4" "length target_ip = 4"
  shows "\<exists>d' tx' h. tcp_send_null_probe chip source_mac source_ip target_mac target_ip sp dp sq d tx = Some (True, d', tx') \<and>
     tcp_send_xmas_probe chip source_mac source_ip target_mac target_ip sp dp sq d tx = Some (True, d', tx') \<and>
     (\<exists>tr n. bus_trace d' = bus_trace d @ tr \<and> filter (\<lambda>t. \<not> plain t) tr = frame_load tx' 54 @ replicate n transmit) \<and>
     tcp_get_header tx' = Some h \<and> tcp_flags h = Some TCP_SYN \<and> tcp_dest_port h = [hi8 dp, lo8 dp]"
proof -
  let ?h = "tcp_finish source_ip target_ip (tcp_fields sp dp sq 0 0x5002 1024 0 (replicate 50 0)) 0"
  have wf: "wf_tcp ?h" by (simp add: wf_intros)
  have seg: "length (tcp_segment ?h 0) = 20" using wf by (simp add: length_tcp_segment)
  have build: "with_off 34 (tcp_builder (\<lambda>b. set_tcp_header_tseq b (Some source_ip) (Some target_ip) sp dp sq 0 1024 0 0 [])) tx =
      Some ((True, 20), take 34 tx @ tcp_segment ?h 0 @ drop 54 tx)"
    using tseq_without_options [of "drop 34 tx" source_ip target_ip sp dp sq 0 1024 0] assms
    by (simp add: with_off_def tcp_builder_def)
  obtain i where i: "set_ipv4_header (Some (drop 14 (take 34 tx @ tcp_segment ?h 0 @ drop 54 tx))) 6 20 (Some source_ip) (Some target_ip) 0 0x4000 SCAN_TTL =
      Some (True, Some (i @ tcp_segment ?h 0 @ drop 54 tx))" "length i = 20"
    using set_ipv4_header_eq [of "drop 14 (take 34 tx @ tcp_segment ?h 0 @ drop 54 tx)" source_ip target_ip 6 20 0 "0x4000" SCAN_TTL]
      assms(3,6,7) seg by (simp add: ip.length_enc wf_ip_fields)
  let ?tx = "(target_mac @ source_mac @ [8, 0] @ i) @ tcp_segment ?h 0 @ drop 54 tx"
  have "hi8 0x800 = (8 :: u8)" "lo8 0x800 = (0 :: u8)" by (simp_all add: hi8_def lo8_def)
  then have frame: "with_off 0 (\<lambda>b. set_ethernet_header b (Some source_mac) (Some target_mac) 0x800) (take 14 tx @ i @ tcp_segment ?h 0 @ drop 54 tx) =
      Some (True, ?tx)"
    using assms(3-5) i(2) seg by (simp add: with_off_def set_ethernet_header_eq)
  have len: "length ?tx = 1518" using assms(3-5) i(2) seg by simp
  obtain d' tr n where d': "send_packet chip ?tx 54 d = Some d'" "bus_trace d' = bus_trace d @ tr"
    "filter (\<lambda>t. \<not> plain t) tr = frame_load ?tx 54 @ replicate n transmit"
    using send_packet_sends [OF assms(1,2), of 54 ?tx] len by (auto simp: runs_iff)
  have null: "tcp_send_null_probe chip source_mac source_ip target_mac target_ip sp dp sq d tx = Some (True, d', ?tx)"
    using build i(1) frame d'(1) assms(3) seg
    by (simp add: tcp_send_null_probe_def send_ip_frame_def with_off_def)
  have off: "tcp_data_offset_flags ?h = [0x50, 0x02]" by (simp add: tcp_finish_def tcp_fields_def hi8_def lo8_def)
  have "tcp_get_header ?tx = Some ?h"
    by (rule tcp_get_header_segment [OF wf, of 0]) (use assms i(2) off in \<open>simp_all add: tcp_finish_def tcp_fields_def\<close>)
  moreover have "tcp_flags ?h = Some TCP_SYN" using tcp_flags_eq [OF off] by (simp add: be16_def TCP_SYN_def)
  moreover have "tcp_dest_port ?h = [hi8 dp, lo8 dp]" by (simp add: tcp_finish_def tcp_fields_def)
  moreover have "tcp_send_xmas_probe chip source_mac source_ip target_mac target_ip sp dp sq d tx = Some (True, d', ?tx)"
    using null by (simp add: tcp_send_xmas_probe_def tcp_send_null_probe_def)
  ultimately show ?thesis using null d'(2,3) by blast
qed

section \<open>Examples\<close>

text \<open>A SYN-ACK of port 80 in the wait of that port, nothing in the wait of port 81.\<close>

definition example_syn_ack :: buf where
  "example_syn_ack = [2, 0, 0, 0, 0, 1] @ [2, 0, 0, 0, 0, 9] @ [8, 0] @ [0x45, 0, 0, 40, 0, 0, 0, 0, 64, 6, 0, 0] @ [10, 0, 0, 1] @
     [10, 0, 0, 2] @ [0, 80] @ [0x80, 0] @ [0, 0, 0, 9] @ [0, 0, 0, 1] @ [0x50, 0x12] @ replicate 1470 0"

definition example_tcp_envs :: "(scanner_poll \<times> tcp_probe_env) list" where
  "example_tcp_envs =
     [(no_cancel, \<lparr> te_rand = 5, te_random = 7, te_wait = example_env [(example_syn_ack, 60)] \<rparr>),
      (no_cancel, \<lparr> te_rand = 6, te_random = 8, te_wait = example_env [] \<rparr>)]"

lemma tcp_syn_scan_sound_witness:
  "\<exists>calls s' w' sys'.
     tcp_syn_scan example_chip [10, 0, 0, 1] (replicate 6 0) [255, 255, 255, 0] example_session 100 200 [10, 0, 0, 1] True 80 2
       example_resolve example_tcp_envs example_net example_system = Some (calls, s', w', sys') \<and>
     scan_calls (tcp_port_open example_driver) 80 2 example_tcp_envs calls"
proof -
  have "rx_env (example_env [(example_syn_ack, 60)])" "rx_env (example_env [])"
    by (rule example_rx_env, simp add: rx_frame_def example_syn_ack_def)+
  then have envs: "\<forall>x\<in>set example_tcp_envs. rx_env (te_wait (snd x))" by (simp add: example_tcp_envs_def)
  have l: "length ([10, 0, 0, 1] :: buf) = 4" "length ([255, 255, 255, 0] :: buf) = 4" by simp_all
  show ?thesis
    using tcp_syn_scan_sound [OF example_chip_ok(1) example_addresses example_net_ok example_system_clean
        example_resolve_quiet envs example_stack l l(1), where init_port = 80 and range_port = 2 and tick = 100 and rand = 200] by blast
qed

lemma tcp_null_xmas_probes_are_syn_witness:
  "\<exists>d' tx' h.
     tcp_send_null_probe example_chip [2, 0, 0, 0, 0, 1] [10, 0, 0, 2] [2, 0, 0, 0, 0, 9] [10, 0, 0, 1] 40000 80 1
       example_driver (replicate 1518 0) = Some (True, d', tx') \<and>
     tcp_get_header tx' = Some h \<and> tcp_flags h = Some TCP_SYN"
  using tcp_null_xmas_probes_are_syn [OF example_chip_ok(1) example_driver_ok, of "replicate 1518 0" "[2, 0, 0, 0, 0, 1]"
      "[2, 0, 0, 0, 0, 9]" "[10, 0, 0, 2]" "[10, 0, 0, 1]" 40000 80 1] by auto

end
