(* ===== verification/Ping.thy ===== *)
theory Ping
  imports Udp_Scan Icmp
begin

text \<open>
  \<open>modules/ping_module.c\<close>: the echo request, the reply, the tests on received frames, and the answer to a request.
\<close>

section \<open>The module\<close>

definition PING_DATA_SIZE :: nat where [simp]: "PING_DATA_SIZE = 64"
definition ICMP_TYPE_ECHO_REPLY :: u8 where [simp]: "ICMP_TYPE_ECHO_REPLY = 0"
definition ICMP_TYPE_ECHO_REQUEST :: u8 where [simp]: "ICMP_TYPE_ECHO_REQUEST = 8"

fun compare_from :: "buf \<Rightarrow> buf \<Rightarrow> nat list \<Rightarrow> bool option" where
  "compare_from a b [] = Some True"
| "compare_from a b (i # is) =
     do { x \<leftarrow> rd a i; y \<leftarrow> rd b i; if x \<noteq> y then Some False else compare_from a b is }"

definition compare_ip :: "buf \<Rightarrow> buf \<Rightarrow> bool option" where
  "compare_ip ip_a ip_b = compare_from ip_a ip_b [0..<4]"

text \<open>The padding counts from zero behind the payload.\<close>

definition pad_ping_data :: "u8 \<Rightarrow> buf \<Rightarrow> buf" where
  "pad_ping_data position ping_data =
     (if unat position < 64
      then fold (\<lambda>i b. b[i := of_nat i - position]) [unat position..<64] ping_data
      else ping_data)"

definition ip_icmp_frame ::
  "buf ptr \<Rightarrow> buf ptr \<Rightarrow> buf ptr \<Rightarrow> buf ptr \<Rightarrow> buf ptr \<Rightarrow> u8 \<Rightarrow> u16 \<Rightarrow> u16 \<Rightarrow> buf ptr \<Rightarrow> u16 \<Rightarrow> u16 \<Rightarrow> (u16 \<times> buf ptr) option" where
  "ip_icmp_frame buffer src_mac dst_mac src_ip dst_ip type identifier sequence payload payload_len packet_size =
     (case buffer of
        None \<Rightarrow> Some (0, None)
      | Some b \<Rightarrow>
          do { (ok, b) \<leftarrow> with_off 0 (\<lambda>b. set_ethernet_header b src_mac dst_mac 0x0800) b;
               if \<not> ok then Some (0, Some b)
               else do { (ok, b) \<leftarrow> with_off ETHERNET_HEADER_LEN
                           (\<lambda>b. set_ipv4_header b 1 (of_nat ICMP_HEADER_LEN + payload_len) src_ip dst_ip 0 0x4000 WIN_TTL) b;
                         if \<not> ok then Some (0, Some b)
                         else do { (ok, b) \<leftarrow> with_off (ETHERNET_HEADER_LEN + IP_HEADER_LEN)
                                     (\<lambda>b. icmp_set_header b type 0 identifier sequence payload payload_len) b;
                                   if \<not> ok then Some (0, Some b)
                                   else (case payload of
                                           None \<Rightarrow> None
                                         | Some p \<Rightarrow>
                                             do { s \<leftarrow> rd_bytes p 0 (unat payload_len);
                                                  b \<leftarrow> wr_bytes b (ETHERNET_HEADER_LEN + IP_HEADER_LEN + ICMP_HEADER_LEN) s;
                                                  Some (packet_size, Some b) }) } } })"

definition create_flipper_ping_packet ::
  "buf ptr \<Rightarrow> buf ptr \<Rightarrow> buf ptr \<Rightarrow> buf ptr \<Rightarrow> buf ptr \<Rightarrow> u16 \<Rightarrow> u16 \<Rightarrow> buf ptr \<Rightarrow> u16 \<Rightarrow> (u16 \<times> buf ptr) option" where
  "create_flipper_ping_packet buffer src_mac dst_mac src_ip dst_ip identifier sequence payload payload_len =
     (case (buffer, src_mac, src_ip, dst_ip, payload) of
        (Some _, Some _, Some _, Some _, Some p) \<Rightarrow>
          if payload_len > 64 then Some (0, buffer)
          else do { let ping_data = replicate PING_DATA_SIZE 0;
                    s \<leftarrow> rd_bytes p 0 (unat payload_len);
                    ping_data \<leftarrow> wr_bytes ping_data 0 s;
                    let ping_data = pad_ping_data (ucast payload_len) ping_data;
                    ip_icmp_frame buffer src_mac dst_mac src_ip dst_ip ICMP_TYPE_ECHO_REQUEST identifier sequence
                      (Some ping_data) (of_nat PING_DATA_SIZE)
                      (of_nat (PING_DATA_SIZE + ETHERNET_HEADER_LEN + IP_HEADER_LEN + ICMP_HEADER_LEN)) }
      | _ \<Rightarrow> Some (0, buffer))"

definition create_ping_packet_reply ::
  "buf ptr \<Rightarrow> buf ptr \<Rightarrow> buf ptr \<Rightarrow> buf ptr \<Rightarrow> buf ptr \<Rightarrow> u16 \<Rightarrow> u16 \<Rightarrow> buf ptr \<Rightarrow> u16 \<Rightarrow> (u16 \<times> buf ptr) option" where
  "create_ping_packet_reply buffer src_mac dst_mac src_ip dst_ip identifier sequence payload payload_len =
     ip_icmp_frame buffer src_mac dst_mac src_ip dst_ip ICMP_TYPE_ECHO_REPLY identifier sequence payload payload_len
       (payload_len + of_nat (ETHERNET_HEADER_LEN + IP_HEADER_LEN + ICMP_HEADER_LEN))"

definition ping_packet_replied :: "buf ptr \<Rightarrow> buf ptr \<Rightarrow> bool option" where
  "ping_packet_replied packet ip_ping =
     (case (packet, ip_ping) of
        (Some p, Some ip) \<Rightarrow>
          do { icmp \<leftarrow> is_icmp packet;
               if \<not> icmp then Some False
               else do { h \<leftarrow> icmp_get_header packet;
                         if icmp_type h \<noteq> ICMP_TYPE_ECHO_REPLY then Some False
                         else do { v4 \<leftarrow> ipv4_get_header p; compare_ip ip (ip_source_ip v4) } } }
      | _ \<Rightarrow> Some False)"

definition ping_packet_requested :: "buf ptr \<Rightarrow> buf ptr \<Rightarrow> bool option" where
  "ping_packet_requested packet own_ip =
     (case (packet, own_ip) of
        (Some p, Some ip) \<Rightarrow>
          do { icmp \<leftarrow> is_icmp packet;
               if \<not> icmp then Some False
               else do { h \<leftarrow> icmp_get_header packet;
                         if icmp_type h \<noteq> ICMP_TYPE_ECHO_REQUEST then Some False
                         else do { v4 \<leftarrow> ipv4_get_header p; compare_ip ip (ip_dest_ip v4) } } }
      | _ \<Rightarrow> Some False)"

text \<open>\<open>heap\<close> says whether \<open>malloc\<close> returns a block.\<close>

definition ping_reply_to_request ::
  "chip \<Rightarrow> bool \<Rightarrow> buf ptr \<Rightarrow> u16 \<Rightarrow> enc28j60 \<Rightarrow> (bool \<times> enc28j60) option" where
  "ping_reply_to_request chip heap packet size_of_packet d =
     (case packet of
        None \<Rightarrow> Some (False, d)
      | Some p \<Rightarrow>
          do { asked \<leftarrow> ping_packet_requested packet (Some (enc_ip_address d));
               if \<not> asked then Some (False, d)
               else do { eth \<leftarrow> ethernet_get_header p;
                         ip \<leftarrow> ipv4_get_header p;
                         icmp \<leftarrow> icmp_get_header packet;
                         identifier \<leftarrow> rd_be16 (icmp_identifier icmp) 0;
                         sequence \<leftarrow> rd_be16 (icmp_sequence icmp) 0;
                         let header_size = of_nat (ETHERNET_HEADER_LEN + IP_HEADER_LEN + ICMP_HEADER_LEN);
                         if size_of_packet < header_size then Some (False, d)
                         else do { let data_size = size_of_packet - header_size;
                                   if data_size > 0 \<and> \<not> heap then Some (False, d)
                                   else do { data_extra \<leftarrow>
                                               (if data_size > 0
                                                then map_option Some (rd_bytes p (ETHERNET_HEADER_LEN + IP_HEADER_LEN + ICMP_HEADER_LEN) (unat data_size))
                                                else Some None);
                                             (len, reply) \<leftarrow>
                                               create_ping_packet_reply (Some (replicate 1518 0)) (Some (enc_mac_address d)) (Some (eth_mac_source eth))
                                                 (Some (enc_ip_address d)) (Some (ip_source_ip ip)) identifier sequence data_extra data_size;
                                             (case reply of
                                                None \<Rightarrow> None
                                              | Some packet_reply \<Rightarrow>
                                                  do { d \<leftarrow> send_packet chip packet_reply len d; Some (True, d) }) } } } })"

section \<open>What is laid down\<close>

lemma compare_ip_eq: "length a = 4 \<Longrightarrow> length b = 4 \<Longrightarrow> compare_ip a b = Some (a = b)"
proof -
  assume l: "length a = 4" "length b = 4"
  obtain a0 a1 a2 a3 where "a = [a0, a1, a2, a3]" by (rule four_elements [OF l(1)])
  moreover obtain b0 b1 b2 b3 where "b = [b0, b1, b2, b3]" by (rule four_elements [OF l(2)])
  ultimately show ?thesis by (simp add: compare_ip_def rd_def upt_rec numeral_eq_Suc)
qed

definition ping_padding :: "nat \<Rightarrow> buf" where
  "ping_padding n = map of_nat [0..<64 - n]"

lemma pad_fold:
  "n + k \<le> length (b :: buf) \<Longrightarrow>
     fold (\<lambda>i b. b[i := of_nat i - of_nat n]) [n..<n + k] b = take n b @ map of_nat [0..<k] @ drop (n + k) b"
proof (induction k)
  case (Suc k)
  let ?x = "take n b @ map of_nat [0..<k]"
  have l: "length ?x = n + k" using Suc.prems by simp
  have d: "drop (n + k) b = b ! (n + k) # drop (n + Suc k) b"
    using Suc.prems Cons_nth_drop_Suc [of "n + k" b] by simp
  have v: "(of_nat (n + k) :: u8) - of_nat n = of_nat k" by simp
  have "fold (\<lambda>i b. b[i := of_nat i - of_nat n]) [n..<n + Suc k] b =
      (?x @ drop (n + k) b)[n + k := of_nat (n + k) - of_nat n]"
    using Suc by simp
  also have "\<dots> = ?x @ of_nat k # drop (n + Suc k) b"
    unfolding v d using list_update_length [of ?x "b ! (n + k)" "drop (n + Suc k) b" "of_nat k"] unfolding l .
  finally show ?case by simp
qed simp

lemma small_byte: "unat n \<le> 64 \<Longrightarrow> unat (ucast (n :: u16) :: u8) = unat n"
  by (simp add: unsigned_ucast_eq take_bit_nat_eq_self)

lemma small_byte_nat: "(of_nat (unat n) :: u8) = ucast (n :: u16)"
  by (rule bit_word_eqI) (simp add: bit_simps)

lemma pad_ping_data_eq:
  assumes "unat n \<le> 64" "length p = unat n"
  shows "pad_ping_data (ucast (n :: u16)) (p @ replicate (64 - unat n) 0) = p @ ping_padding (unat n)"
proof (cases "unat n = 64")
  case True
  then show ?thesis using small_byte [OF assms(1)] by (simp add: pad_ping_data_def ping_padding_def)
next
  case False
  show ?thesis
    using False assms small_byte [OF assms(1)] small_byte_nat [of n] pad_fold [of "unat n" "64 - unat n" "p @ replicate (64 - unat n) 0"]
    by (simp add: pad_ping_data_def ping_padding_def)
qed

definition ping_frame :: "buf \<Rightarrow> buf \<Rightarrow> buf \<Rightarrow> buf \<Rightarrow> u8 \<Rightarrow> u16 \<Rightarrow> u16 \<Rightarrow> buf \<Rightarrow> buf" where
  "ping_frame src_mac dst_mac src_ip dst_ip type identifier sequence payload =
     (let h = ip_fields 1 (8 + of_nat (length payload)) src_ip dst_ip 0 0x4000 WIN_TTL;
          c = ip_header_checksum (h [0, 0]);
          k = icmp_message_checksum type 0 identifier sequence payload
      in dst_mac @ src_mac @ [8, 0] @ ip_to_bytes (h [hi8 c, lo8 c]) @
         icmp_message type 0 identifier sequence [hi8 k, lo8 k] payload)"

lemma length_ping_frame:
  assumes "length src_mac = 6" "length dst_mac = 6" "length src_ip = 4" "length dst_ip = 4"
  shows "length (ping_frame src_mac dst_mac src_ip dst_ip type identifier sequence payload) = 42 + length payload"
  using assms by (simp add: ping_frame_def Let_def ip.length_enc wf_ip_fields length_icmp_message)

lemma ip_icmp_frame_eq:
  assumes "length src_mac = 6" "length dst_mac = 6" "length src_ip = 4" "length dst_ip = 4"
    and "unat n \<le> length p" "unat n \<le> 65527" "42 + unat n \<le> length b"
  shows "ip_icmp_frame (Some b) (Some src_mac) (Some dst_mac) (Some src_ip) (Some dst_ip) type identifier sequence
           (Some p) n k = Some (k, Some (ping_frame src_mac dst_mac src_ip dst_ip type identifier sequence (take (unat n) p) @
              drop (42 + unat n) b))"
proof -
  let ?d = "take (unat n) p"
  define h where "h = ip_fields 1 (8 + n) src_ip dst_ip 0 0x4000 WIN_TTL"
  define c where "c = ip_header_checksum (h [0, 0])"
  define m where "m = icmp_message_checksum type 0 identifier sequence ?d"
  define I where "I = ip_to_bytes (h [hi8 c, lo8 c])"
  define H where "H = icmp_message type 0 identifier sequence [hi8 m, lo8 m]"
  have I: "length I = 20" using assms(3,4) by (simp add: I_def h_def ip.length_enc wf_ip_fields)
  have H: "H x = H [] @ x" "length (H []) = 8" for x
    by (simp_all add: H_def icmp_message_def icmp_to_bytes_def icmp_fields_def)
  have e: "with_off 0 (\<lambda>b. set_ethernet_header b (Some src_mac) (Some dst_mac) 0x0800) b =
      Some (True, dst_mac @ src_mac @ [8, 0] @ drop 14 b)"
    using assms(1,2,7) by (simp add: with_off_def set_ethernet_header_eq hi8_def lo8_def)
  have i: "with_off 14 (\<lambda>b. set_ipv4_header b 1 (8 + n) (Some src_ip) (Some dst_ip) 0 0x4000 WIN_TTL)
      (dst_mac @ src_mac @ [8, 0] @ drop 14 b) = Some (True, (dst_mac @ src_mac @ [8, 0]) @ I @ drop 34 b)"
    using assms(1-4,7) by (simp add: with_off_def set_ipv4_header_eq I_def c_def h_def)
  have s: "with_off 34 (\<lambda>b. icmp_set_header b type 0 identifier sequence (Some p) n)
      ((dst_mac @ src_mac @ [8, 0]) @ I @ drop 34 b) = Some (True, (dst_mac @ src_mac @ [8, 0] @ I) @ H (drop 42 b))"
    using assms I by (simp add: with_off_def icmp_set_header_eq H_def m_def)
  have w: "wr_bytes ((dst_mac @ src_mac @ [8, 0] @ I) @ H (drop 42 b)) 42 ?d =
      Some ((dst_mac @ src_mac @ [8, 0] @ I @ H []) @ ?d @ drop (42 + unat n) b)"
    using assms I H(2) wr_bytes_at [of "dst_mac @ src_mac @ [8, 0] @ I @ H []" 42 ?d "drop 42 b"] H(1) [of "drop 42 b"]
    by (simp add: add.commute)
  have r: "rd_bytes p 0 (unat n) = Some ?d" using assms(5) by (simp add: rd_bytes_def)
  have f: "ping_frame src_mac dst_mac src_ip dst_ip type identifier sequence ?d = dst_mac @ src_mac @ [8, 0] @ I @ H [] @ ?d"
    using assms(5) H(1) [of ?d] by (simp add: ping_frame_def Let_def I_def c_def h_def H_def m_def)
  show ?thesis
    unfolding f using e i s w r by (simp add: ip_icmp_frame_def)
qed

section \<open>Received frames\<close>

definition echo_frame :: "u8 \<Rightarrow> buf \<Rightarrow> bool" where
  "echo_frame type f \<longleftrightarrow> be16 (f ! 12) (f ! 13) = 0x0800 \<and> f ! 23 = 1 \<and> f ! 34 = type"

lemma frame_headers:
  assumes "42 \<le> length f"
  shows "\<exists>h. ipv4_get_header f = Some h \<and> ip_source_ip h = take 4 (drop 26 f) \<and> ip_dest_ip h = take 4 (drop 30 f)"
    and "\<exists>h. icmp_get_header (Some f) = Some h \<and> icmp_type h = f ! 34 \<and> icmp_identifier h = [f ! 38, f ! 39] \<and>
           icmp_sequence h = [f ! 40, f ! 41]"
  using assms two_bytes [of 38 f] two_bytes [of 40 f]
  by (simp_all add: ipv4_get_header_in ip_of_bytes_def drop_take icmp_get_header_def icmp.load_eq icmp_of_bytes_def)

lemma ping_packet_tests:
  assumes "42 \<le> length f" "length ip = 4"
  shows "ping_packet_replied (Some f) (Some ip) = Some (echo_frame 0 f \<and> take 4 (drop 26 f) = ip)"
    and "ping_packet_requested (Some f) (Some ip) = Some (echo_frame 8 f \<and> take 4 (drop 30 f) = ip)"
  using frame_headers [OF assms(1)] assms compare_ip_eq [OF assms(2), of "take 4 (drop 26 f)"]
    compare_ip_eq [OF assms(2), of "take 4 (drop 30 f)"]
  by (auto simp: ping_packet_replied_def ping_packet_requested_def is_icmp_in echo_frame_def)

text \<open>What another station reads in a frame that is laid down.\<close>

lemma ping_frame_fields:
  fixes type :: u8 and ident sequence :: u16 and payload :: buf
  assumes "length src_mac = 6" "length dst_mac = 6" "length src_ip = 4" "length dst_ip = 4"
  defines "f \<equiv> ping_frame src_mac dst_mac src_ip dst_ip type ident sequence payload"
  shows "echo_frame type f" "take 12 f = dst_mac @ src_mac" "take 4 (drop 26 f) = src_ip" "take 4 (drop 30 f) = dst_ip"
    "drop 38 f = [hi8 ident, lo8 ident, hi8 sequence, lo8 sequence] @ payload"
proof -
  define h where "h = ip_fields 1 (8 + of_nat (length payload)) src_ip dst_ip 0 0x4000 WIN_TTL"
  define c where "c = ip_header_checksum (h [0, 0])"
  define k where "k = icmp_message_checksum type 0 ident sequence payload"
  have f: "f = (dst_mac @ src_mac) @ [8, 0] @ ip_to_bytes (h [hi8 c, lo8 c]) @
      icmp_message type 0 ident sequence [hi8 k, lo8 k] payload"
    by (simp add: f_def ping_frame_def Let_def h_def c_def k_def)
  obtain i where i: "ip_to_bytes (h [hi8 c, lo8 c]) = i @ [WIN_TTL, 1, hi8 c, lo8 c] @ src_ip @ dst_ip" "length i = 8"
    using assms(3,4) by (simp add: h_def ip_fields_def ip_to_bytes_def)
  have m: "icmp_message type 0 ident sequence [hi8 k, lo8 k] payload =
      [type, 0, hi8 k, lo8 k] @ [hi8 ident, lo8 ident, hi8 sequence, lo8 sequence] @ payload"
    by (simp add: icmp_message_def icmp_to_bytes_def icmp_fields_def)
  show "echo_frame type f" using assms(1-4) i(2) by (simp add: echo_frame_def f i(1) m nth_append be16_def)
  show "take 12 f = dst_mac @ src_mac" "take 4 (drop 26 f) = src_ip" "take 4 (drop 30 f) = dst_ip"
    "drop 38 f = [hi8 ident, lo8 ident, hi8 sequence, lo8 sequence] @ payload"
    using assms(1-4) i(2) by (simp_all add: f i(1) m)
qed

lemma ping_frame_verifies:
  fixes type :: u8 and ident sequence :: u16 and payload :: buf
  assumes "length src_mac = 6" "length dst_mac = 6" "length src_ip = 4" "length dst_ip = 4" "length payload \<le> 65527"
  defines "f \<equiv> ping_frame src_mac dst_mac src_ip dst_ip type ident sequence payload"
  shows "calculate_checksum_ipv4 (take 20 (drop 14 f)) 10 = Some 0"
    "calculate_checksum (drop 34 f) (of_nat (8 + length payload)) = Some 0"
proof -
  define h where "h = ip_fields 1 (8 + of_nat (length payload)) src_ip dst_ip 0 0x4000 WIN_TTL"
  define c where "c = ip_header_checksum (h [0, 0])"
  define k where "k = icmp_message_checksum type 0 ident sequence payload"
  define m where "m = icmp_message type 0 ident sequence [hi8 k, lo8 k] payload"
  have f: "f = (dst_mac @ src_mac @ [8, 0]) @ ip_to_bytes (h [hi8 c, lo8 c]) @ m"
    by (simp add: f_def ping_frame_def Let_def h_def c_def k_def m_def)
  have wf: "wf_ip (h [hi8 c, lo8 c])" using assms(3,4) by (simp add: h_def wf_ip_fields)
  have l: "length (ip_to_bytes (h [hi8 c, lo8 c])) = 20" using wf by (rule ip.length_enc)
  have ck: "ip_checksum (h [hi8 c, lo8 c]) = [hi8 (ip_header_checksum (h [hi8 c, lo8 c])), lo8 (ip_header_checksum (h [hi8 c, lo8 c]))]"
    by (simp add: h_def c_def ip_header_checksum_def ip_fields_def)
  show "calculate_checksum_ipv4 (take 20 (drop 14 f)) 10 = Some 0"
    using ip_header_verifies(1) [OF wf ck] assms(1,2) l by (simp add: f)
  have "drop 34 f = m" using assms(1,2) l by (simp add: f)
  moreover have "length m = 8 + length payload" by (simp add: m_def length_icmp_message)
  ultimately show "calculate_checksum (drop 34 f) (of_nat (8 + length payload)) = Some 0"
    using icmp_message_verifies [OF assms(5), of type 0 ident sequence] by (simp add: m_def k_def)
qed

section \<open>Properties\<close>

text \<open>
  The reply to a frame of \<open>n\<close> bytes: everything behind the ICMP header is its data, including the padding
  that the sender added to reach the 60 bytes of a minimal frame.
\<close>

definition echo_reply_to :: "buf \<Rightarrow> buf \<Rightarrow> buf \<Rightarrow> nat \<Rightarrow> buf" where
  "echo_reply_to own_mac own_ip f n =
     ping_frame own_mac (take 6 (drop 6 f)) own_ip (take 4 (drop 26 f)) 0 (be16 (f ! 38) (f ! 39)) (be16 (f ! 40) (f ! 41))
       (take (n - 42) (drop 42 f))"

lemma ping_reply_runs:
  assumes "honest_bank chip" "driver_idle d" "length (enc_ip_address d) = 4"
    and "42 < unat len" "unat len \<le> length f" "unat len \<le> 1518"
    and "echo_frame 8 f" "take 4 (drop 30 f) = enc_ip_address d"
  shows "\<exists>d' tr n. ping_reply_to_request chip True (Some f) len d = Some (True, d') \<and>
     driver_idle d' \<and> bus_trace d' = bus_trace d @ tr \<and>
     filter (\<lambda>t. \<not> plain t) tr =
       frame_load (echo_reply_to (enc_mac_address d) (enc_ip_address d) f (unat len)) len @ replicate n transmit"
proof -
  let ?reply = "echo_reply_to (enc_mac_address d) (enc_ip_address d) f (unat len)"
  have f: "42 \<le> length f" using assms(4,5) by linarith
  have mac: "length (enc_mac_address d) = 6" using assms(2) by (simp add: driver_idle_def)
  have asked: "ping_packet_requested (Some f) (Some (enc_ip_address d)) = Some True"
    using ping_packet_tests(2) [OF f assms(3)] assms(7,8) by simp
  have eth: "ethernet_get_header f = Some (eth_of_bytes (take 14 f))" "eth_mac_source (eth_of_bytes (take 14 f)) = take 6 (drop 6 f)"
    using f by (simp_all add: ethernet_get_header_def eth.load_eq eth_of_bytes_def drop_take)
  obtain ip where ip: "ipv4_get_header f = Some ip" "ip_source_ip ip = take 4 (drop 26 f)"
    using frame_headers(1) [OF f] by blast
  obtain h where h: "icmp_get_header (Some f) = Some h" "icmp_identifier h = [f ! 38, f ! 39]" "icmp_sequence h = [f ! 40, f ! 41]"
    using frame_headers(2) [OF f] by blast
  have n: "\<not> len < 42" "unat (len - 42) = unat len - 42" "0 < len - 42"
  proof -
    show "\<not> len < 42" using assms(4) by (simp add: word_less_nat_alt)
    then show n: "unat (len - 42) = unat len - 42" by (simp add: unat_sub linorder_not_less)
    show "0 < len - 42" using n assms(4) by (simp add: word_less_nat_alt)
  qed
  define p where "p = take (unat len - 42) (drop 42 f)"
  have p: "rd_bytes f 42 (unat (len - 42)) = Some p" "length p = unat (len - 42)"
    using assms(5) n(2) f by (simp_all add: rd_bytes_def p_def)
  have "create_ping_packet_reply (Some (replicate 1518 0)) (Some (enc_mac_address d)) (Some (take 6 (drop 6 f)))
      (Some (enc_ip_address d)) (Some (take 4 (drop 26 f))) (be16 (f ! 38) (f ! 39)) (be16 (f ! 40) (f ! 41)) (Some p) (len - 42) =
      Some (len, Some (?reply @ replicate (1518 - unat len) 0))"
    using ip_icmp_frame_eq [OF mac _ assms(3), of "take 6 (drop 6 f)" "take 4 (drop 26 f)" "len - 42" p "replicate 1518 0"] f p(2)
      assms(4,6) n(2) by (simp add: create_ping_packet_reply_def echo_reply_to_def p_def [symmetric])
  moreover have "length ?reply = unat len"
    using f assms(3-5) mac by (simp add: echo_reply_to_def length_ping_frame)
  then have fits: "frame_load (?reply @ replicate (1518 - unat len) 0) len = frame_load ?reply len"
    "unat len \<le> length (?reply @ replicate (1518 - unat len) (0 :: u8))" by (simp_all add: frame_load_def)
  moreover have "0 < len" using assms(4) by (simp add: word_greater_zero_iff) auto
  ultimately show ?thesis
    using send_packet_runs [OF assms(1,2), of len "?reply @ replicate (1518 - unat len) 0"] asked eth ip h n p(1)
    by (auto simp: ping_reply_to_request_def runs_iff rd_be16_def rd_def)
qed

lemma create_flipper_ping_packet_eq:
  assumes "length src_mac = 6" "length dst_mac = 6" "length src_ip = 4" "length dst_ip = 4"
    and "length payload = unat n" "unat n \<le> 64" "106 \<le> length b"
  shows "create_flipper_ping_packet (Some b) (Some src_mac) (Some dst_mac) (Some src_ip) (Some dst_ip) ident sequence (Some payload) n =
     Some (106, Some (ping_frame src_mac dst_mac src_ip dst_ip 8 ident sequence (payload @ ping_padding (unat n)) @ drop 106 b))"
proof -
  have l: "length (payload @ ping_padding (unat n)) = 64" using assms(5,6) by (simp add: ping_padding_def)
  have "\<not> n > 64" using assms(6) by (simp add: word_less_nat_alt)
  then show ?thesis
    using assms ip_icmp_frame_eq [OF assms(1-4), of 64 "payload @ ping_padding (unat n)" b 8 ident sequence 106] l
      pad_ping_data_eq [OF assms(6,5)]
    by (simp add: create_flipper_ping_packet_def rd_bytes_def wr_bytes_def)
qed

text \<open>
  C37. A ping works between two stations that run this code. The request is built from at most 64 bytes, completed
  with bytes that count from zero; the station with the address asked for loads one frame into the controller
  and starts it; that frame has valid checksums, goes to the sender, echoes identifier, sequence and data, and is
  accepted as the reply of that address.
\<close>

theorem ping_exchange:
  fixes n ident sequence :: u16 and payload :: buf
  assumes "honest_bank chip" "driver_idle d" "length (enc_ip_address d) = 4"
    and "length src_mac = 6" "length dst_mac = 6" "length src_ip = 4" "length payload = unat n" "unat n \<le> 64"
  shows "\<exists>request reply d' tr k.
     create_flipper_ping_packet (Some (replicate 1518 0)) (Some src_mac) (Some dst_mac) (Some src_ip) (Some (enc_ip_address d))
       ident sequence (Some payload) n = Some (106, Some request) \<and>
     ping_reply_to_request chip True (Some request) 106 d = Some (True, d') \<and> driver_idle d' \<and> bus_trace d' = bus_trace d @ tr \<and>
     filter (\<lambda>t. \<not> plain t) tr = frame_load reply 106 @ replicate k transmit \<and>
     length reply = 106 \<and> take 12 reply = src_mac @ enc_mac_address d \<and>
     drop 38 reply = [hi8 ident, lo8 ident, hi8 sequence, lo8 sequence] @ payload @ ping_padding (unat n) \<and>
     calculate_checksum_ipv4 (take 20 (drop 14 reply)) 10 = Some 0 \<and> calculate_checksum (drop 34 reply) 72 = Some 0 \<and>
     ping_packet_replied (Some reply) (Some (enc_ip_address d)) = Some True"
proof -
  let ?data = "payload @ ping_padding (unat n)"
  let ?frame = "ping_frame src_mac dst_mac src_ip (enc_ip_address d) 8 ident sequence ?data"
  let ?request = "?frame @ replicate 1412 0"
  let ?reply = "ping_frame (enc_mac_address d) src_mac (enc_ip_address d) src_ip 0 ident sequence ?data"
  have data: "length ?data = 64" using assms(7,8) by (simp add: ping_padding_def)
  have mac: "length (enc_mac_address d) = 6" using assms(2) by (simp add: driver_idle_def)
  have l: "length ?frame = 106" "length ?reply = 106"
    using length_ping_frame [OF assms(4-6,3), of 8 ident sequence ?data] length_ping_frame [OF mac assms(4,3,6), of 0 ident sequence ?data] data
    by simp_all
  note q = ping_frame_fields [OF assms(4-6,3), of 8 ident sequence ?data]
    and r = ping_frame_fields [OF mac assms(4,3,6), of 0 ident sequence ?data]
  have request: "create_flipper_ping_packet (Some (replicate 1518 0)) (Some src_mac) (Some dst_mac) (Some src_ip)
      (Some (enc_ip_address d)) ident sequence (Some payload) n = Some (106, Some ?request)"
    using create_flipper_ping_packet_eq [OF assms(4-6,3,7,8), of "replicate 1518 0"] by simp
  have at: "?frame ! (38 + k) = ([hi8 ident, lo8 ident, hi8 sequence, lo8 sequence] @ ?data) ! k" if "k < 4" for k
    using arg_cong [OF q(5), of "\<lambda>x. x ! k"] l(1) that by simp
  have "echo_frame 8 ?request" using q(1) l(1) by (simp add: echo_frame_def nth_append)
  moreover have "take 4 (drop 30 ?request) = enc_ip_address d" using q(4) l(1) by simp
  moreover have "take 6 (drop 6 ?request) = src_mac"
    using arg_cong [OF q(2), of "drop 6"] l(1) assms(5) by (simp add: drop_take)
  moreover have "take 4 (drop 26 ?request) = src_ip" using q(3) l(1) by simp
  moreover have "take 64 (drop 42 ?request) = ?data"
    using arg_cong [OF q(5), of "drop 4"] l(1) data by simp
  moreover have "be16 (?request ! 38) (?request ! 39) = ident" "be16 (?request ! 40) (?request ! 41) = sequence"
    using at [of 0] at [of 1] at [of 2] at [of 3] l(1) by (simp_all add: nth_append)
  ultimately have reply: "echo_reply_to (enc_mac_address d) (enc_ip_address d) ?request 106 = ?reply"
    and asked: "echo_frame 8 ?request" "take 4 (drop 30 ?request) = enc_ip_address d" by (simp_all add: echo_reply_to_def)
  obtain d' tr k where sent: "ping_reply_to_request chip True (Some ?request) 106 d = Some (True, d')" "driver_idle d'"
    "bus_trace d' = bus_trace d @ tr" "filter (\<lambda>t. \<not> plain t) tr = frame_load ?reply 106 @ replicate k transmit"
    using ping_reply_runs [OF assms(1-3) _ _ _ asked, of 106] l(1) reply by auto
  have "ping_packet_replied (Some ?reply) (Some (enc_ip_address d)) = Some True"
    using ping_packet_tests(1) [of ?reply, OF _ assms(3)] l(2) r(1,3) by simp
  moreover have "length ?data \<le> 65527" unfolding data by simp
  note v = ping_frame_verifies [OF mac assms(4,3,6) this, of 0 ident sequence, unfolded data]
  have "calculate_checksum (drop 34 ?reply) 72 = Some 0" using v(2) by simp
  ultimately show ?thesis
    using request sent l(2) r(2,5) v(1) by - (intro exI conjI, assumption+)
qed

lemma ping_exchange_witness:
  "\<exists>request reply d'.
     create_flipper_ping_packet (Some (replicate 1518 0)) (Some [2, 0, 0, 0, 0, 9]) (Some [2, 0, 0, 0, 0, 1]) (Some [10, 0, 0, 1])
       (Some (enc_ip_address example_driver)) 7 1 (Some [80, 73]) 2 = Some (106, Some request) \<and>
     ping_reply_to_request example_chip True (Some request) 106 example_driver = Some (True, d') \<and>
     drop 38 reply = [0, 7, 0, 1] @ [80, 73] @ ping_padding 2 \<and>
     ping_packet_replied (Some reply) (Some (enc_ip_address example_driver)) = Some True"
proof -
  have l: "length ([2, 0, 0, 0, 0, 9] :: buf) = 6" "length ([2, 0, 0, 0, 0, 1] :: buf) = 6" "length ([10, 0, 0, 1] :: buf) = 4"
    "length ([80, 73] :: buf) = unat (2 :: u16)" "unat (2 :: u16) \<le> 64" by simp_all
  show ?thesis
    using ping_exchange [OF example_chip_ok(1) example_driver_ok example_addresses l, of 7 1]
    by (simp add: hi8_def lo8_def) blast
qed

end
