(* ===== verification/Analysis.thy ===== *)
theory Analysis
  imports Tcp_Module Dhcp
begin

text \<open>
  \<open>modules/analysis_module.c\<close>: what the viewer of capture files shows of a packet. The variables behind the
  pointers are a record; a field that may be NULL is a pointer. The text is appended to the firmware's
  string, modelled by its characters.
\<close>

section \<open>The information of a packet\<close>

datatype protocol_enum = ARP | IPV4 | UDP | TCP | DHCP | UNKNOWN

record packet_information =
  pi_mac_source :: "buf ptr"
  pi_mac_destiny :: "buf ptr"
  pi_ip_source :: "buf ptr"
  pi_ip_destiny :: "buf ptr"
  pi_packet_type :: protocol_enum
  pi_type_message :: "u8 ptr"
  pi_port_source :: "u16 ptr"
  pi_port_destiny :: "u16 ptr"
  pi_payload :: "buf ptr"

text \<open>\<open>if(p) *p = v\<close>\<close>

definition set_if :: "'a \<Rightarrow> 'a ptr \<Rightarrow> 'a ptr" where
  "set_if v p = map_option (\<lambda>_. v) p"

text \<open>A \<open>memcpy\<close> to a pointer the code has found not NULL.\<close>

definition copy_to :: "buf ptr \<Rightarrow> buf \<Rightarrow> buf ptr option" where
  "copy_to p s = (case p of None \<Rightarrow> None | Some a \<Rightarrow> map_option Some (wr_bytes a 0 s))"

definition clear_information :: "packet_information \<Rightarrow> packet_information option" where
  "clear_information i =
     do { ms \<leftarrow> copy_to (pi_mac_source i) (replicate 6 0);
          md \<leftarrow> copy_to (pi_mac_destiny i) (replicate 6 0);
          is \<leftarrow> copy_to (pi_ip_source i) (replicate 4 0);
          id \<leftarrow> copy_to (pi_ip_destiny i) (replicate 4 0);
          Some (i\<lparr> pi_mac_source := ms, pi_mac_destiny := md, pi_ip_source := is, pi_ip_destiny := id,
                   pi_packet_type := UNKNOWN, pi_type_message := set_if 0 (pi_type_message i),
                   pi_port_source := set_if 0 (pi_port_source i), pi_port_destiny := set_if 0 (pi_port_destiny i) \<rparr>) }"

definition dhcp_type_message :: "buf \<Rightarrow> dhcp_message_view ptr \<Rightarrow> u8 ptr \<Rightarrow> u8 ptr option" where
  "dhcp_type_message packet view type_message =
     (if type_message = None then Some None
      else do { discover \<leftarrow> dhcp_is_discover packet view;
                if discover then Some (Some DHCP_DISCOVER)
                else do { offer \<leftarrow> dhcp_is_offer packet view;
                          if offer then Some (Some DHCP_OFFER)
                          else do { request \<leftarrow> dhcp_is_request packet view;
                                    if request then Some (Some DHCP_REQUEST)
                                    else do { ack \<leftarrow> dhcp_is_acknoledge packet view;
                                              Some (if ack then Some DHCP_ACKNOLEDGE else type_message) } } } })"

text \<open>The lengths in the comparisons are promoted to \<open>int\<close>.\<close>

definition copy_payload :: "buf \<Rightarrow> u16 \<Rightarrow> nat \<Rightarrow> u16 \<Rightarrow> packet_information \<Rightarrow> packet_information option" where
  "copy_payload packet len from_header payload_size i =
     (if payload_size > 0 \<and> int (unat payload_size) \<le> int (unat len) - int from_header
      then do { s \<leftarrow> rd_bytes packet from_header (unat payload_size);
                p \<leftarrow> copy_to (pi_payload i) s;
                Some (i\<lparr> pi_payload := p \<rparr>) }
      else Some i)"

definition udp_information ::
  "buf \<Rightarrow> u16 \<Rightarrow> u16 \<Rightarrow> packet_information \<Rightarrow> (u16 \<times> packet_information) option" where
  "udp_information packet len ip_header_length i =
     do { h \<leftarrow> udp_get_header packet;
          sport \<leftarrow> rd_be16 (udp_source_port h) 0; dport \<leftarrow> rd_be16 (udp_dest_port h) 0;
          let i = i\<lparr> pi_packet_type := UDP, pi_port_source := set_if sport (pi_port_source i),
                     pi_port_destiny := set_if dport (pi_port_destiny i) \<rparr>;
          (dhcp, view) \<leftarrow> dhcp_parse_message (Some packet) len;
          i \<leftarrow> (if dhcp
                 then do { t \<leftarrow> dhcp_type_message packet view (pi_type_message i);
                           Some (i\<lparr> pi_packet_type := DHCP, pi_type_message := t \<rparr>) }
                 else Some i);
          udp_length \<leftarrow> rd_be16 (udp_length h) 0;
          let payload_size = udp_length - of_nat UDP_HEADER_LEN;
          i \<leftarrow> copy_payload packet len (ETHERNET_HEADER_LEN + unat ip_header_length + UDP_HEADER_LEN) payload_size i;
          Some (payload_size, i) }"

definition tcp_information :: "buf \<Rightarrow> packet_information \<Rightarrow> (u16 \<times> packet_information) option" where
  "tcp_information packet i =
     do { h \<leftarrow> tcp_get_header packet;
          sport \<leftarrow> rd_be16 (tcp_source_port h) 0; dport \<leftarrow> rd_be16 (tcp_dest_port h) 0;
          Some (0, i\<lparr> pi_packet_type := TCP, pi_port_source := set_if sport (pi_port_source i),
                      pi_port_destiny := set_if dport (pi_port_destiny i) \<rparr>) }"

definition ipv4_information :: "buf \<Rightarrow> u16 \<Rightarrow> packet_information \<Rightarrow> (u16 \<times> packet_information) option" where
  "ipv4_information packet len i =
     do { h \<leftarrow> ipv4_get_header packet;
          src \<leftarrow> copy_to (pi_ip_source i) (ip_source_ip h);
          dst \<leftarrow> copy_to (pi_ip_destiny i) (ip_dest_ip h);
          let i = i\<lparr> pi_ip_source := src, pi_ip_destiny := dst \<rparr>;
          total_length \<leftarrow> rd_be16 (ip_total_length h) 0;
          let ip_header_length = (ucast (ip_version_ihl h AND 0x0F) :: u16) * 4;
          udp \<leftarrow> is_udp packet;
          if udp then udp_information packet len ip_header_length i
          else do { tcp \<leftarrow> is_tcp (Some packet);
                    if tcp then tcp_information packet i
                    else do { let payload_size = total_length - ip_header_length;
                              i \<leftarrow> copy_payload packet len (ETHERNET_HEADER_LEN + unat ip_header_length) payload_size
                                    (i\<lparr> pi_packet_type := IPV4, pi_type_message := set_if (ip_protocol h) (pi_type_message i) \<rparr>);
                              Some (payload_size, i) } } }"

definition get_packet_information ::
  "buf ptr \<Rightarrow> u16 \<Rightarrow> packet_information \<Rightarrow> (u16 \<times> packet_information) option" where
  "get_packet_information packet len i =
     (case packet of
        Some p \<Rightarrow>
          if pi_mac_destiny i = None \<or> pi_mac_source i = None \<or> pi_ip_source i = None \<or> pi_ip_destiny i = None \<or> pi_payload i = None
          then Some (0, i\<lparr> pi_packet_type := UNKNOWN, pi_port_destiny := set_if 0 (pi_port_destiny i),
                           pi_port_source := set_if 0 (pi_port_source i) \<rparr>)
          else do { i \<leftarrow> clear_information i;
                    eth \<leftarrow> ethernet_get_header p;
                    ms \<leftarrow> copy_to (pi_mac_source i) (eth_mac_source eth);
                    md \<leftarrow> copy_to (pi_mac_destiny i) (eth_mac_destination eth);
                    let i = i\<lparr> pi_mac_source := ms, pi_mac_destiny := md \<rparr>;
                    arp \<leftarrow> is_arp packet;
                    if arp
                    then do { h \<leftarrow> arp_get_header packet;
                              src \<leftarrow> copy_to (pi_ip_source i) (arp_ip_source h);
                              dst \<leftarrow> copy_to (pi_ip_destiny i) (arp_ip_destiny h);
                              operation \<leftarrow> rd_be16 (arp_operation_code h) 0;
                              Some (0, i\<lparr> pi_packet_type := ARP, pi_ip_source := src, pi_ip_destiny := dst,
                                          pi_type_message := set_if (ucast operation) (pi_type_message i) \<rparr>) }
                    else do { v4 \<leftarrow> is_ipv4 p;
                              if v4 then ipv4_information p len i
                              else do { let payload_size = len - of_nat ETHERNET_HEADER_LEN;
                                        i \<leftarrow> (if payload_size > 0
                                               then do { s \<leftarrow> rd_bytes p ETHERNET_HEADER_LEN (unat payload_size);
                                                         pl \<leftarrow> copy_to (pi_payload i) s;
                                                         Some (i\<lparr> pi_payload := pl \<rparr>) }
                                               else Some i);
                                        Some (payload_size, i) } } }
      | None \<Rightarrow> Some (0, i\<lparr> pi_packet_type := UNKNOWN, pi_port_destiny := set_if 0 (pi_port_destiny i),
                           pi_port_source := set_if 0 (pi_port_source i) \<rparr>))"

section \<open>The text\<close>

definition get_protocol_name :: "protocol_enum \<Rightarrow> string" where
  "get_protocol_name packet_type =
     (case packet_type of ARP \<Rightarrow> ''ARP'' | IPV4 \<Rightarrow> ''IPv4'' | UDP \<Rightarrow> ''UDP'' | TCP \<Rightarrow> ''TCP'' | DHCP \<Rightarrow> ''DHCP'' | UNKNOWN \<Rightarrow> ''UNKNOWN'')"

text \<open>The two formats write into the arrays of the caller.\<close>

definition format_mac_address :: "buf \<Rightarrow> buf \<Rightarrow> buf" where
  "format_mac_address mac str = snprintf_to str (mac_text mac)"

definition format_ip_address :: "buf \<Rightarrow> buf \<Rightarrow> buf" where
  "format_ip_address ip str = snprintf_to str (ipv4_text ip)"

definition text_line :: "string \<Rightarrow> buf \<Rightarrow> buf" where
  "text_line label value = ascii label @ value @ [10]"

definition ip_lines :: "buf \<Rightarrow> buf \<Rightarrow> buf" where
  "ip_lines ip_source ip_destiny =
     text_line ''  Source IP: '' (cstr (format_ip_address ip_source (replicate 16 0))) @
     text_line ''  Destination IP: '' (cstr (format_ip_address ip_destiny (replicate 16 0)))"

definition set_string_info ::
  "buf \<Rightarrow> buf \<Rightarrow> buf \<Rightarrow> buf \<Rightarrow> buf \<Rightarrow> protocol_enum \<Rightarrow> u8 \<Rightarrow> u16 \<Rightarrow> u16 \<Rightarrow> u16 \<Rightarrow> buf" where
  "set_string_info text_arg mac_source mac_destiny ip_source ip_destiny packet_type type_message port_source port_destiny payload_size =
     (let name = ascii (get_protocol_name packet_type);
          unknown = ascii ''Unknown ('' @ dec_u8 type_message @ ascii '')''
      in text_arg @
         text_line ''--- Packet Information ---'' [] @
         text_line ''  EtherType: '' name @
         text_line ''Ethernet Header:'' [] @
         text_line ''  Source MAC: '' (cstr (format_mac_address mac_source (replicate 18 0))) @
         text_line ''  Destination MAC: '' (cstr (format_mac_address mac_destiny (replicate 18 0))) @
         (if packet_type \<in> {IPV4, UDP, TCP, DHCP}
          then text_line ''IP Header:'' [] @ ip_lines ip_source ip_destiny @ text_line ''  Protocol: '' name
          else []) @
         (if packet_type = ARP
          then text_line ''ARP Information:'' [] @ ip_lines ip_source ip_destiny @
               text_line ''  Message Type: ''
                 (if type_message = 1 then ascii ''Request'' else if type_message = 2 then ascii ''Reply'' else unknown)
          else if packet_type = UDP \<or> packet_type = TCP
          then text_line (''Transport Layer Information ('' @ get_protocol_name packet_type @ ''):'') [] @
               text_line ''  Source Port: '' (dec_u16 port_source) @ text_line ''  Destination Port: '' (dec_u16 port_destiny)
          else []) @
         (if packet_type = DHCP
          then text_line ''DHCP Information:'' [] @
               text_line ''  Message Type: ''
                 (if type_message = DHCP_DISCOVER then ascii ''Discover'' else if type_message = DHCP_OFFER then ascii ''Offer''
                  else if type_message = DHCP_REQUEST then ascii ''Request'' else unknown)
          else []) @
         text_line ''Payload Size: '' (dec_u16 payload_size @ ascii '' bytes'') @
         text_line ''--------------------'' [])"

definition print_packet_info :: "buf \<Rightarrow> buf ptr \<Rightarrow> u16 \<Rightarrow> buf option" where
  "print_packet_info text_arg packet packet_size =
     do { (payload_size, i) \<leftarrow> get_packet_information packet packet_size
            \<lparr> pi_mac_source = Some (replicate 6 0), pi_mac_destiny = Some (replicate 6 0),
              pi_ip_source = Some (replicate 4 0), pi_ip_destiny = Some (replicate 4 0), pi_packet_type = ARP,
              pi_type_message = Some 0, pi_port_source = Some 0, pi_port_destiny = Some 0,
              pi_payload = Some (replicate 1500 0) \<rparr>;
          ms \<leftarrow> pi_mac_source i; md \<leftarrow> pi_mac_destiny i; is \<leftarrow> pi_ip_source i; id \<leftarrow> pi_ip_destiny i;
          t \<leftarrow> pi_type_message i; ps \<leftarrow> pi_port_source i; pd \<leftarrow> pi_port_destiny i;
          Some (set_string_info text_arg ms md is id (pi_packet_type i) t ps pd payload_size) }"

section \<open>When the arrays are large enough\<close>

lemma copy_to_in [mem_simps]: "length s \<le> length a \<Longrightarrow> copy_to (Some a) s = Some (Some (s @ drop (length s) a))"
  by (simp add: copy_to_def wr_bytes_def)

lemma copy_to_out: "length a < length s \<Longrightarrow> copy_to (Some a) s = None"
  by (simp add: copy_to_def wr_bytes_def)

text \<open>Variables of the sizes that the viewer gives them.\<close>

definition information_ok :: "packet_information \<Rightarrow> bool" where
  "information_ok i \<longleftrightarrow>
     (\<exists>ms md is id t ps pd pl ty. length ms = 6 \<and> length md = 6 \<and> length is = 4 \<and> length id = 4 \<and> length pl = 1500 \<and>
        i = \<lparr> pi_mac_source = Some ms, pi_mac_destiny = Some md, pi_ip_source = Some is, pi_ip_destiny = Some id,
              pi_packet_type = ty, pi_type_message = Some t, pi_port_source = Some ps, pi_port_destiny = Some pd,
              pi_payload = Some pl \<rparr>)"

lemma copy_payload_eq:
  "copy_payload p len k n i =
     (if n > 0 \<and> k + unat n \<le> unat len
      then do { s \<leftarrow> rd_bytes p k (unat n); pl \<leftarrow> copy_to (pi_payload i) s; Some (i\<lparr> pi_payload := pl \<rparr>) }
      else Some i)"
proof -
  have "int (unat n) \<le> int (unat len) - int k \<longleftrightarrow> k + unat n \<le> unat len" by linarith
  then show ?thesis unfolding copy_payload_def by presburger
qed

lemma copy_payload_runs:
  assumes "information_ok i" "unat len \<le> length p" "k + unat n \<le> unat len \<Longrightarrow> unat n \<le> 1500"
  shows "runs (copy_payload p len k n i) information_ok"
proof (cases "n > 0 \<and> k + unat n \<le> unat len")
  case True
  then have n: "unat n \<le> 1500" "k + unat n \<le> length p" using assms(2,3) by linarith+
  obtain ms md si di t ps pd pl ty where i: "i = \<lparr> pi_mac_source = Some ms, pi_mac_destiny = Some md, pi_ip_source = Some si,
      pi_ip_destiny = Some di, pi_packet_type = ty, pi_type_message = Some t, pi_port_source = Some ps, pi_port_destiny = Some pd,
      pi_payload = Some pl \<rparr>" "length ms = 6" "length md = 6" "length si = 4" "length di = 4" "length pl = 1500"
    using assms(1) by (auto simp: information_ok_def)
  then show ?thesis using True n by (simp add: copy_payload_eq mem_simps information_ok_def)
qed (use assms(1) in \<open>auto simp: copy_payload_eq\<close>)

lemma copy_payload_overruns:
  assumes "information_ok i" "unat len \<le> length p" "1500 < unat n" "k + unat n \<le> unat len"
  shows "copy_payload p len k n i = None"
proof -
  have n: "k + unat n \<le> length p" using assms(2,4) by linarith
  have pos: "n > 0" using assms(3) by (simp add: word_less_nat_alt)
  obtain pl where "pi_payload i = Some pl" "length pl = 1500" using assms(1) by (auto simp: information_ok_def)
  then show ?thesis using n pos assms(3,4) by (simp add: copy_payload_eq mem_simps copy_to_out)
qed

lemma dhcp_type_message_runs:
  assumes "unat len \<le> length p"
  shows "runs (dhcp_parse_message (Some p) len) (\<lambda>(ok, view). ok \<longrightarrow> (\<exists>r. dhcp_type_message p view (Some t) = Some (Some r)))"
proof -
  obtain ok view where r: "dhcp_parse_message (Some p) len = Some (ok, view)"
    "case (ok, view) of (True, Some v) \<Rightarrow> wf_view p (unat len) v | (True, None) \<Rightarrow> False | (False, v) \<Rightarrow> v = None"
    using dhcp_parse_message_runs [OF assms] by (auto simp: runs_iff)
  have "\<exists>r. dhcp_type_message p view (Some t) = Some (Some r)" if "ok"
  proof -
    from that r(2) obtain v where v: "view = Some v" "wf_view p (unat len) v" by (cases view) auto
    show ?thesis
      using dhcp_is_type_eq [OF v(2)]
      by (simp add: v(1) dhcp_type_message_def dhcp_is_discover_def dhcp_is_offer_def dhcp_is_request_def dhcp_is_acknoledge_def)
  qed
  then show ?thesis by (simp add: r(1))
qed

lemma udp_information_runs:
  assumes "information_ok i" "unat len \<le> length p" "94 \<le> length p" "unat len \<le> 1518"
  shows "runs (udp_information p len hl i) (\<lambda>(n, i). information_ok i)"
proof -
  let ?h = "udp_of_bytes (take 8 (drop 34 p))"
  have h: "udp_get_header p = Some ?h" using assms(3) by (simp add: udp_get_header_def udp.load_eq)
  have "wf_udp ?h" using assms(3) by (intro udp.wf_dec) simp
  then have l: "length (udp_source_port ?h) = 2" "length (udp_dest_port ?h) = 2" "length (udp_length ?h) = 2"
    by (simp_all add: wf_udp_def)
  obtain ms md si di t ps pd pl ty where i: "i = \<lparr> pi_mac_source = Some ms, pi_mac_destiny = Some md, pi_ip_source = Some si,
      pi_ip_destiny = Some di, pi_packet_type = ty, pi_type_message = Some t, pi_port_source = Some ps, pi_port_destiny = Some pd,
      pi_payload = Some pl \<rparr>" "length ms = 6" "length md = 6" "length si = 4" "length di = 4" "length pl = 1500"
    using assms(1) by (auto simp: information_ok_def)
  have ok: "information_ok (i\<lparr> pi_packet_type := ty, pi_port_source := Some a, pi_port_destiny := Some b \<rparr>)"
    "information_ok (i\<lparr> pi_packet_type := ty, pi_port_source := Some a, pi_port_destiny := Some b, pi_type_message := Some c \<rparr>)" for a b c ty
    by (simp_all add: i information_ok_def)
  obtain dhcp view where d: "dhcp_parse_message (Some p) len = Some (dhcp, view)"
    "dhcp \<longrightarrow> (\<exists>r. dhcp_type_message p view (Some t) = Some (Some r))"
    using dhcp_type_message_runs [OF assms(2), of t] by (auto simp: runs_iff)
  define sp where "sp = be16 (udp_source_port ?h ! 0) (udp_source_port ?h ! 1)"
  define dp where "dp = be16 (udp_dest_port ?h ! 0) (udp_dest_port ?h ! 1)"
  define n where "n = be16 (udp_length ?h ! 0) (udp_length ?h ! 1) - 8"
  have copy: "runs (copy_payload p len (14 + unat hl + 8) n j) information_ok" if "information_ok j" for j
    by (rule copy_payload_runs [OF that assms(2)]) (use assms(4) in simp)
  show ?thesis
  proof (cases dhcp)
    case False
    then show ?thesis
      using h l d copy [OF ok(1) [where ty = UDP and a = sp and b = dp]] by (auto simp: udp_information_def mem_simps i(1) set_if_def sp_def dp_def n_def runs_iff Let_def)
  next
    case True
    with d obtain r where "dhcp_type_message p view (Some t) = Some (Some r)" by blast
    then show ?thesis
      using True h l d(1) copy [OF ok(2) [where ty = DHCP and a = sp and b = dp and c = r]] by (auto simp: udp_information_def mem_simps i(1) set_if_def sp_def dp_def n_def runs_iff Let_def)
  qed
qed

lemma tcp_information_runs:
  assumes "information_ok i" "94 \<le> length p"
  shows "runs (tcp_information p i) (\<lambda>(n, i). information_ok i)"
proof -
  obtain h where h: "tcp_get_header p = Some h" "wf_tcp h" using tcp_get_header_frame [OF assms(2)] by blast
  then have "length (tcp_source_port h) = 2" "length (tcp_dest_port h) = 2" by (simp_all add: wf_tcp_def)
  then show ?thesis using h(1) assms(1) by (auto simp: tcp_information_def mem_simps information_ok_def set_if_def)
qed

text \<open>The packets for which \<open>payload\<close> is too small.\<close>

definition payload_overruns :: "buf \<Rightarrow> nat \<Rightarrow> bool" where
  "payload_overruns p len \<longleftrightarrow>
     (let type = be16 (p ! 12) (p ! 13); total_length = unat (be16 (p ! 16) (p ! 17))
      in type \<noteq> 0x0800 \<and> type \<noteq> 0x0806 \<and> (len < 14 \<or> 1514 < len) \<or>
         type = 0x0800 \<and> p ! 23 \<noteq> 6 \<and> p ! 23 \<noteq> 17 \<and> p ! 14 AND 0x0F = 0 \<and> 1500 < total_length \<and> total_length \<le> len - 14)"

lemma header_length: "unat ((ucast (b AND 0x0F) :: u16) * 4) = 4 * unat (b AND 0x0F :: u8)"
proof -
  have "unat (b AND 0x0F) < 16" using word_and_le1 [of b "0x0F"] by (simp add: word_le_nat_alt)
  then show ?thesis by (simp add: unat_word_ariths)
qed

lemma ipv4_information_eq:
  assumes "information_ok i" "length p = 1518" "unat len \<le> 1518" "be16 (p ! 12) (p ! 13) = 0x0800"
  shows "if payload_overruns p (unat len) then ipv4_information p len i = None
         else runs (ipv4_information p len i) (\<lambda>(n, i). information_ok i)"
proof -
  let ?h = "ip_of_bytes (take 20 (drop 14 p))"
  obtain ms md si di t ps pd pl ty where i: "i = \<lparr> pi_mac_source = Some ms, pi_mac_destiny = Some md, pi_ip_source = Some si,
      pi_ip_destiny = Some di, pi_packet_type = ty, pi_type_message = Some t, pi_port_source = Some ps, pi_port_destiny = Some pd,
      pi_payload = Some pl \<rparr>" "length ms = 6" "length md = 6" "length si = 4" "length di = 4" "length pl = 1500"
    using assms(1) by (auto simp: information_ok_def)
  have "wf_ip ?h" using assms(2) by (intro ip.wf_dec) simp
  then have l: "length (ip_source_ip ?h) = 4" "length (ip_dest_ip ?h) = 4" "length (ip_total_length ?h) = 2" by (simp_all add: wf_ip_def)
  let ?i = "i\<lparr> pi_ip_source := Some (ip_source_ip ?h), pi_ip_destiny := Some (ip_dest_ip ?h) \<rparr>"
  have ok: "information_ok ?i" "information_ok (?i\<lparr> pi_packet_type := ty, pi_type_message := Some c \<rparr>)" for ty c
    using i(2-) l by (simp_all add: i(1) information_ok_def)
  let ?hl = "(ucast (p ! 14 AND 0x0F) :: u16) * 4"
  let ?tl = "be16 (p ! 16) (p ! 17)"
  have total: "rd_be16 (ip_total_length ?h) 0 = Some ?tl"
    using assms(2) two_bytes [of 16 p] by (simp add: ip_of_bytes_def drop_take rd_be16_def rd_def)
  have ihl: "ip_version_ihl ?h = p ! 14" "ip_protocol ?h = p ! 23" using assms(2) by (simp_all add: ip_of_bytes_def)
  have tests: "is_udp p = Some (p ! 23 = 17)" "is_tcp (Some p) = Some (p ! 23 = 6)"
    using assms(2,4) by (simp_all add: is_udp_in is_tcp_in)
  have start: "ipv4_information p len i =
      (if p ! 23 = 17 then udp_information p len ?hl ?i
       else if p ! 23 = 6 then tcp_information p ?i
       else do { j \<leftarrow> copy_payload p len (14 + unat ?hl) (?tl - ?hl) (?i\<lparr> pi_packet_type := IPV4, pi_type_message := Some (p ! 23) \<rparr>);
                 Some (?tl - ?hl, j) })"
    using assms(2) i(2-) l total tests by (simp add: ipv4_information_def ipv4_get_header_in mem_simps ihl i(1) set_if_def Let_def)
  show ?thesis
  proof (cases "p ! 23 = 17 \<or> p ! 23 = 6")
    case True
    then show ?thesis
      using udp_information_runs [OF ok(1), of len p ?hl] tcp_information_runs [OF ok(1), of p] assms(2-4)
      by (auto simp: start payload_overruns_def Let_def)
  next
    case False
    then have go: "ipv4_information p len i =
        do { j \<leftarrow> copy_payload p len (14 + unat ?hl) (?tl - ?hl) (?i\<lparr> pi_packet_type := IPV4, pi_type_message := Some (p ! 23) \<rparr>);
             Some (?tl - ?hl, j) }" by (simp add: start)
    show ?thesis
    proof (cases "payload_overruns p (unat len)")
      case True
      then have z: "p ! 14 AND 0x0F = 0" "1500 < unat ?tl" "unat ?tl \<le> unat len - 14"
        using False assms(4) by (auto simp: payload_overruns_def Let_def)
      have hl: "?hl = 0" using z(1) by simp
      have "copy_payload p len (14 + unat ?hl) (?tl - ?hl) (?i\<lparr> pi_packet_type := IPV4, pi_type_message := Some (p ! 23) \<rparr>) = None"
        by (rule copy_payload_overruns [OF ok(2)]) (use z(2,3) assms(2,3) in \<open>simp_all add: hl\<close>)
      then show ?thesis using True by (simp add: go)
    next
      case fits: False
      have "unat (?tl - ?hl) \<le> 1500" if "14 + unat ?hl + unat (?tl - ?hl) \<le> unat len"
      proof (cases "p ! 14 AND 0x0F = 0")
        case True
        then have hl: "?hl = 0" by simp
        from that have "unat ?tl \<le> unat len - 14" unfolding hl by simp
        then show ?thesis using True fits False assms(4) by (auto simp: payload_overruns_def Let_def hl)
      next
        case False
        then have "1 \<le> unat (p ! 14 AND 0x0F)" by (simp add: Suc_le_eq unat_gt_0)
        then show ?thesis using that assms(3) by (simp add: header_length)
      qed
      then have "runs (copy_payload p len (14 + unat ?hl) (?tl - ?hl) (?i\<lparr> pi_packet_type := IPV4, pi_type_message := Some (p ! 23) \<rparr>)) information_ok"
        by (intro copy_payload_runs ok(2)) (use assms(2,3) in simp_all)
      then show ?thesis using fits by (auto simp: go runs_iff)
    qed
  qed
qed

lemma get_packet_information_eq:
  assumes "information_ok i" "length p = 1518" "unat len \<le> 1518"
  shows "if payload_overruns p (unat len) then get_packet_information (Some p) len i = None
         else runs (get_packet_information (Some p) len i) (\<lambda>(n, i). information_ok i)"
proof -
  obtain ms md si di t ps pd pl ty where i: "i = \<lparr> pi_mac_source = Some ms, pi_mac_destiny = Some md, pi_ip_source = Some si,
      pi_ip_destiny = Some di, pi_packet_type = ty, pi_type_message = Some t, pi_port_source = Some ps, pi_port_destiny = Some pd,
      pi_payload = Some pl \<rparr>" "length ms = 6" "length md = 6" "length si = 4" "length di = 4" "length pl = 1500"
    using assms(1) by (auto simp: information_ok_def)
  let ?type = "be16 (p ! 12) (p ! 13)"
  let ?i = "\<lparr> pi_mac_source = Some (take 6 (drop 6 p)), pi_mac_destiny = Some (take 6 p), pi_ip_source = Some (replicate 4 0),
      pi_ip_destiny = Some (replicate 4 0), pi_packet_type = UNKNOWN, pi_type_message = Some 0, pi_port_source = Some 0,
      pi_port_destiny = Some 0, pi_payload = Some pl \<rparr>"
  have ok: "information_ok (?i\<lparr> pi_packet_type := ty', pi_ip_source := Some a, pi_ip_destiny := Some b, pi_type_message := Some c \<rparr>)"
    if "length a = 4" "length b = 4" for ty' a b c using that i(2-) assms(2) by (simp add: information_ok_def)
  have ok0: "information_ok ?i" using i(2-) assms(2) by (simp add: information_ok_def)
  let ?h = "arp_of_bytes (take 28 (drop 14 p))"
  have "wf_arp ?h" using assms(2) by (intro arp.wf_dec) simp
  then have l: "length (arp_ip_source ?h) = 4" "length (arp_ip_destiny ?h) = 4" "length (arp_operation_code ?h) = 2"
    by (simp_all add: wf_arp_def)
  let ?n = "len - 14"
  have eth: "ethernet_get_header p = Some (eth_of_bytes (take 14 p))" using assms(2) by (simp add: ethernet_get_header_def eth.load_eq)
  have start: "get_packet_information (Some p) len i =
      (if ?type = 0x0806
       then do { h \<leftarrow> Some ?h; operation \<leftarrow> rd_be16 (arp_operation_code h) 0;
                 Some (0, ?i\<lparr> pi_packet_type := ARP, pi_ip_source := Some (arp_ip_source h), pi_ip_destiny := Some (arp_ip_destiny h),
                              pi_type_message := Some (ucast operation) \<rparr>) }
       else if ?type = 0x0800 then ipv4_information p len ?i
       else do { j \<leftarrow> (if ?n > 0
                        then do { s \<leftarrow> rd_bytes p 14 (unat ?n); pl \<leftarrow> copy_to (pi_payload ?i) s; Some (?i\<lparr> pi_payload := pl \<rparr>) }
                        else Some ?i);
                 Some (?n, j) })"
    using assms(2) i(2-) l
    by (simp add: get_packet_information_def i(1) clear_information_def mem_simps eth eth_of_bytes_def drop_take min_absorb1 set_if_def
        arp_get_header_def arp.load_eq Let_def)
  show ?thesis
  proof (cases "?type = 0x0800 \<or> ?type = 0x0806")
    case True
    then show ?thesis
      using ipv4_information_eq [OF ok0 assms(2,3)] l ok [where ty' = ARP and a = "arp_ip_source ?h" and b = "arp_ip_destiny ?h"]
      by (auto simp: start payload_overruns_def Let_def mem_simps)
  next
    case False
    have n: "unat ?n = (if unat len < 14 then unat len + 65522 else unat len - 14)"
    proof (cases "unat len < 14")
      case True
      then have "len < 14" by (simp add: word_less_nat_alt)
      then show ?thesis using True by (simp add: unat_sub_if')
    next
      case False
      then have "14 \<le> len" by (simp add: word_le_nat_alt)
      then show ?thesis using False by (simp add: unat_sub)
    qed
    have over: "payload_overruns p (unat len) \<longleftrightarrow> unat len < 14 \<or> 1514 < unat len"
      using False by (auto simp: payload_overruns_def Let_def)
    show ?thesis
    proof (cases "payload_overruns p (unat len)")
      case True
      then have "1500 < unat ?n" using n over by auto
      moreover from this have "?n > 0" by (simp add: word_less_nat_alt)
      ultimately show ?thesis
        using True False assms(2) i(6) by (simp add: start rd_bytes_def copy_to_def wr_bytes_def)
    next
      case fits: False
      then have "unat ?n = unat len - 14" "14 \<le> unat len" "unat len \<le> 1514" using n over by auto
      then have "information_ok (?i\<lparr> pi_payload := Some (take (unat ?n) (drop 14 p) @ drop (unat ?n) pl) \<rparr>)"
        "14 + unat ?n \<le> 1518" "unat ?n \<le> 1500"
        using i(2-) assms(2) by (simp_all add: information_ok_def)
      then show ?thesis using fits False assms(2) i(6) ok0 by (simp add: start rd_bytes_def copy_to_def wr_bytes_def)
    qed
  qed
qed

section \<open>Property\<close>

text \<open>
  C38. When the viewer of capture files shows a packet, the copy of its payload leaves the array of 1500 bytes
  for exactly these records of at most 1518 bytes: of another type than IPv4 and ARP and shorter than 14 bytes (the length of
  the payload wraps) or longer than 1514 bytes (a full frame with a VLAN tag), and of an IPv4 packet whose
  protocol is neither UDP nor TCP, whose header claims a length of zero, and whose total length is
  more than 1500 bytes and not more than the record has behind its Ethernet header (a truncated packet
  does not overrun). For every other record, whatever its bytes, a text is produced.
\<close>

theorem print_packet_info_overruns_iff:
  assumes "length p = 1518" "unat len \<le> 1518"
  shows "print_packet_info text_arg (Some p) len = None \<longleftrightarrow> payload_overruns p (unat len)"
proof -
  let ?i = "\<lparr> pi_mac_source = Some (replicate 6 0), pi_mac_destiny = Some (replicate 6 0), pi_ip_source = Some (replicate 4 0),
      pi_ip_destiny = Some (replicate 4 0), pi_packet_type = ARP, pi_type_message = Some 0, pi_port_source = Some 0,
      pi_port_destiny = Some 0, pi_payload = Some (replicate 1500 0) \<rparr>"
  have "information_ok ?i" by (simp add: information_ok_def)
  note r = get_packet_information_eq [OF this assms]
  show ?thesis
  proof (cases "payload_overruns p (unat len)")
    case True
    then show ?thesis using r by (simp add: print_packet_info_def)
  next
    case False
    with r obtain n i where i: "get_packet_information (Some p) len ?i = Some (n, i)" "information_ok i" by (auto simp: runs_iff)
    then show ?thesis using False by (auto simp: print_packet_info_def information_ok_def)
  qed
qed

text \<open>A tagged frame of full length, and an untagged one.\<close>

lemma print_packet_info_overruns_iff_witness:
  "print_packet_info [] (Some (replicate 12 0 @ [0x81, 0] @ replicate 1504 0)) 1518 = None \<and>
   print_packet_info [] (Some (replicate 12 0 @ [0x81, 0] @ replicate 1504 0)) 1514 \<noteq> None"
proof -
  let ?p = "replicate 12 0 @ [0x81, 0] @ replicate 1504 0 :: buf"
  have l: "length ?p = 1518" "unat (1518 :: u16) \<le> 1518" "unat (1514 :: u16) \<le> 1518" by simp_all
  have "payload_overruns ?p (unat (1518 :: u16))" "\<not> payload_overruns ?p (unat (1514 :: u16))"
    by (simp_all add: payload_overruns_def nth_append be16_def)
  then show ?thesis
    using print_packet_info_overruns_iff [OF l(1,2), of "[]"] print_packet_info_overruns_iff [OF l(1,3), of "[]"] by blast
qed

end
