(* ===== verification/Capture.thy ===== *)
theory Capture
  imports Packed_Struct Passive_History
begin

text \<open>
  \<open>modules/capture_module.c\<close>: writing and reading capture files. The file service of the firmware is a
  parameter: a record of its operations on an arbitrary state. A read returns the bytes it delivers, the
  count of the C call is their number. The files have the byte order of the target, little-endian.
\<close>

section \<open>The service and the headers\<close>

type_synonym u64 = "64 word"

record 's storage_file =
  sf_open_read :: "buf \<Rightarrow> 's \<Rightarrow> bool \<times> 's"
  sf_open_write :: "buf \<Rightarrow> 's \<Rightarrow> bool \<times> 's"
  sf_write :: "buf \<Rightarrow> 's \<Rightarrow> nat \<times> 's"
  sf_read :: "nat \<Rightarrow> 's \<Rightarrow> buf \<times> 's"
  sf_seek :: "u32 \<Rightarrow> 's \<Rightarrow> bool \<times> 's"
  sf_tell :: "'s \<Rightarrow> u64"
  sf_size :: "'s \<Rightarrow> u64"
  sf_sync :: "'s \<Rightarrow> bool \<times> 's"
  sf_close :: "'s \<Rightarrow> 's"
  sf_is_open :: "'s \<Rightarrow> bool"

record pcap_global_header =
  gh_magic_number :: u32
  gh_version_major :: u16
  gh_version_minor :: u16
  gh_thiszone :: u32
  gh_sigfigs :: u32
  gh_snaplen :: u32
  gh_network :: u32

record pcap_packet_header =
  ph_ts_sec :: u32
  ph_ts_usec :: u32
  ph_incl_len :: u32
  ph_orig_len :: u32

definition gh_to_bytes :: "pcap_global_header \<Rightarrow> buf" where
  "gh_to_bytes h =
     le32 (gh_magic_number h) @ le16 (gh_version_major h) @ le16 (gh_version_minor h) @ le32 (gh_thiszone h) @
     le32 (gh_sigfigs h) @ le32 (gh_snaplen h) @ le32 (gh_network h)"

definition le32_at :: "buf \<Rightarrow> nat \<Rightarrow> u32" where
  "le32_at b k = be32 (b ! (k + 3)) (b ! (k + 2)) (b ! (k + 1)) (b ! k)"

definition gh_of_bytes :: "buf \<Rightarrow> pcap_global_header" where
  "gh_of_bytes b =
     \<lparr> gh_magic_number = le32_at b 0, gh_version_major = be16 (b ! 5) (b ! 4), gh_version_minor = be16 (b ! 7) (b ! 6),
       gh_thiszone = le32_at b 8, gh_sigfigs = le32_at b 12, gh_snaplen = le32_at b 16, gh_network = le32_at b 20 \<rparr>"

definition ph_to_bytes :: "pcap_packet_header \<Rightarrow> buf" where
  "ph_to_bytes h = le32 (ph_ts_sec h) @ le32 (ph_ts_usec h) @ le32 (ph_incl_len h) @ le32 (ph_orig_len h)"

definition ph_of_bytes :: "buf \<Rightarrow> pcap_packet_header" where
  "ph_of_bytes b =
     \<lparr> ph_ts_sec = le32_at b 0, ph_ts_usec = le32_at b 4, ph_incl_len = le32_at b 8, ph_orig_len = le32_at b 12 \<rparr>"

lemma be32_inverse:
  "byte32 0 (be32 a b c d) = d" "byte32 1 (be32 a b c d) = c" "byte32 2 (be32 a b c d) = b" "byte32 3 (be32 a b c d) = a"
  unfolding be32_def byte32_def by (rule bit_word_eqI, auto simp: bit_simps dest: bit_imp_le_length)+

lemma le32_le32_at: "k + 4 \<le> length b \<Longrightarrow> le32 (le32_at b k) = take 4 (drop k b)"
proof -
  assume "k + 4 \<le> length b"
  then have "take 4 (drop k b) = [b ! k, b ! (k + 1), b ! (k + 2), b ! (k + 3)]"
    by (simp add: Cons_nth_drop_Suc [symmetric] numeral_eq_Suc)
  then show ?thesis by (simp only: le32_def le32_at_def be32_inverse)
qed

lemma le16_at: "k + 2 \<le> length b \<Longrightarrow> le16 (be16 (b ! Suc k) (b ! k)) = take 2 (drop k b)"
  by (simp add: le16_def Cons_nth_drop_Suc [symmetric] numeral_eq_Suc)

lemma le32_at_le32: "length xs = k \<Longrightarrow> le32_at (xs @ le32 v @ ys) k = v"
  by (auto simp: le32_at_def le32_def nth_append be32_bytes [simplified])

interpretation gh: packed_struct 24 gh_of_bytes gh_to_bytes "\<lambda>h. True"
proof unfold_locales
  fix b :: buf assume b: "length b = 24"
  show "gh_to_bytes (gh_of_bytes b) = b"
    using b le16_at [of 4 b] le16_at [of 6 b] by (simp add: gh_to_bytes_def gh_of_bytes_def le32_le32_at chunks)
qed (simp_all add: gh_to_bytes_def gh_of_bytes_def le32_at_def le32_def le16_def nth_append be32_bytes [simplified])

interpretation ph: packed_struct 16 ph_of_bytes ph_to_bytes "\<lambda>h. True"
proof unfold_locales
  fix b :: buf assume b: "length b = 16"
  then show "ph_to_bytes (ph_of_bytes b) = b" by (simp add: ph_to_bytes_def ph_of_bytes_def le32_le32_at chunks)
qed (simp_all add: ph_to_bytes_def ph_of_bytes_def le32_at_def le32_def nth_append be32_bytes [simplified])

section \<open>Writing\<close>

definition create_pcap_name :: "buf \<Rightarrow> buf \<Rightarrow> buf" where
  "create_pcap_name PATH name = PATH @ ascii ''/'' @ name @ ascii ''.pcap''"

record capture_globals =
  base_timestamp_sec :: u32
  base_tick :: u32

text \<open>\<open>timestamp\<close> and \<open>tick\<close> are what the two clocks say.\<close>

definition pcap_capture_init ::
  "'s storage_file \<Rightarrow> u32 \<Rightarrow> u32 \<Rightarrow> buf \<Rightarrow> capture_globals \<Rightarrow> 's \<Rightarrow> bool \<times> capture_globals \<times> 's" where
  "pcap_capture_init f timestamp tick filename g s =
     (let g = \<lparr> base_timestamp_sec = timestamp, base_tick = tick \<rparr>;
          (ok, s) = sf_open_write f filename s
      in if \<not> ok then (False, g, s)
         else let header = \<lparr> gh_magic_number = 0xA1B2C3D4, gh_version_major = 2, gh_version_minor = 4, gh_thiszone = 0,
                             gh_sigfigs = 0, gh_snaplen = 65535, gh_network = 1 \<rparr>;
                  (n, s) = sf_write f (gh_to_bytes header) s
              in if n \<noteq> 24 then (False, g, sf_close f s)
                 else let (_, s) = sf_sync f s in (True, g, s))"

definition pcap_capture_add_packet ::
  "'s storage_file \<Rightarrow> u32 \<Rightarrow> capture_globals \<Rightarrow> buf \<Rightarrow> u32 \<Rightarrow> 's \<Rightarrow> (bool \<times> 's) option" where
  "pcap_capture_add_packet f tick g packet packet_len s =
     (let elapsed_ms = tick - base_tick g;
          header = \<lparr> ph_ts_sec = base_timestamp_sec g + elapsed_ms div 1000, ph_ts_usec = (elapsed_ms mod 1000) * 1000,
                     ph_incl_len = packet_len, ph_orig_len = packet_len \<rparr>;
          (n, s) = sf_write f (ph_to_bytes header) s
      in if n \<noteq> 16 then Some (False, s)
         else do { d \<leftarrow> rd_bytes packet 0 (unat packet_len);
                   let (n, s) = sf_write f d s;
                   Some (n = unat packet_len, s) })"

definition pcap_capture_sync :: "'s storage_file \<Rightarrow> 's \<Rightarrow> bool \<times> 's" where
  "pcap_capture_sync f s = sf_sync f s"

definition pcap_close :: "'s storage_file \<Rightarrow> 's \<Rightarrow> 's" where
  "pcap_close f s = sf_close f (snd (sf_sync f s))"

section \<open>Reading\<close>

text \<open>The check of the header, as both readers do it; on failure the file is closed again.\<close>

definition pcap_check_header :: "'s storage_file \<Rightarrow> 's \<Rightarrow> bool \<times> 's" where
  "pcap_check_header f s =
     (let (header, s) = sf_read f 24 s
      in if length header \<noteq> 24 \<or> gh_magic_number (gh_of_bytes header) \<noteq> 0xA1B2C3D4 then (False, sf_close f s)
         else (True, s))"

definition pcap_reader_init :: "'s storage_file \<Rightarrow> buf \<Rightarrow> 's \<Rightarrow> nat \<times> 's" where
  "pcap_reader_init f filename s =
     (let (ok, s) = sf_open_read f filename s
      in if \<not> ok then (0, s) else let (ok, s) = pcap_check_header f s in (if ok then 24 else 0, s))"

definition pcap_get_specific_packet ::
  "'s storage_file \<Rightarrow> buf ptr \<Rightarrow> nat \<Rightarrow> u32 \<Rightarrow> 's \<Rightarrow> (nat \<times> buf ptr \<times> 's) option" where
  "pcap_get_specific_packet f packet packet_capacity packet_position s =
     (case packet of
        None \<Rightarrow> Some (0, None, s)
      | Some b \<Rightarrow>
          if packet_capacity = 0 \<or> \<not> sf_is_open f s then Some (0, packet, s)
          else let (ok, s) = sf_sync f s in
            if \<not> ok then Some (0, packet, s)
            else let (ok, s) = sf_seek f packet_position s in
              if \<not> ok then Some (0, packet, s)
              else let (header, s) = sf_read f 16 s in
                if length header \<noteq> 16 then Some (0, packet, s)
                else let to_read = unat (ph_incl_len (ph_of_bytes header));
                         to_read = (if to_read > packet_capacity then packet_capacity else to_read);
                         (d, s) = sf_read f to_read s
                  in do { b \<leftarrow> wr_bytes b 0 d;
                          Some (if length d \<noteq> to_read then 0 else to_read, Some b, s) })"

function pcap_scan_loop ::
  "'s storage_file \<Rightarrow> u64 \<Rightarrow> u32 \<Rightarrow> u32 \<Rightarrow> u64 \<Rightarrow> u32 \<Rightarrow> u64 list \<Rightarrow> 's \<Rightarrow> (u32 \<times> u64 list \<times> 's) option" where
  "pcap_scan_loop f file_size max_positions bytes_read position counter positions s =
     (if \<not> bytes_read > 0 then Some (counter, positions, s)
      else let position = position + ucast bytes_read in
        if counter \<ge> max_positions then Some (counter, positions, s)
        else if length positions \<le> unat counter then None
        else let positions = positions[unat counter := position];
                 counter' = counter + 1;
                 (header, s) = sf_read f 16 s
          in if length header \<noteq> 16 then Some (counter', positions, s)
             else let orig_len = ph_orig_len (ph_of_bytes header) in
               if orig_len = 0 then Some (counter', positions, s)
               else let cursor = sf_tell f s;
                        (ok, s) = sf_seek f (ucast (cursor + ucast orig_len)) s
                 in if \<not> ok then Some (counter', positions, s)
                    else if sf_tell f s \<ge> file_size then Some (counter', positions, s)
                    else pcap_scan_loop f file_size max_positions (16 + orig_len) position counter' positions s)"
  by pat_completeness auto
termination
proof (relation "measure (\<lambda>(f, size, max_positions, bytes_read, position, counter, positions, s). unat max_positions - unat counter)", goal_cases)
  case (2 f size max_positions bytes_read position counter)
  then have c: "unat counter < unat max_positions" by (simp add: word_less_nat_alt not_le)
  then have "Suc (unat counter) < 4294967296" using unat_u32_less [of max_positions] by linarith
  then have "unat (counter + 1) = unat counter + 1" by (simp add: unat_word_ariths)
  with 2 c show ?case by simp
qed simp

declare pcap_scan_loop.simps [simp del]

definition pcap_scan ::
  "'s storage_file \<Rightarrow> buf \<Rightarrow> u64 list \<Rightarrow> u32 \<Rightarrow> 's \<Rightarrow> (u32 \<times> u64 list \<times> 's) option" where
  "pcap_scan f filename positions max_positions s =
     (let (ok, s) = sf_open_read f filename s
      in if \<not> ok then Some (0, positions, s)
         else let file_size = sf_size f s;
                  (ok, s) = pcap_check_header f s
           in if \<not> ok then Some (0, positions, s)
              else do { (counter, positions, s) \<leftarrow> pcap_scan_loop f file_size max_positions 24 0 0 positions s;
                        Some (counter, positions, sf_close f s) })"

section \<open>A card that works\<close>

text \<open>
  What a file on a healthy card does, seen through its content and the position in it: the documented
  behaviour of the service for writing at the end, reading, seeking and the size.
\<close>

definition file_works :: "'s storage_file \<Rightarrow> ('s \<Rightarrow> buf) \<Rightarrow> ('s \<Rightarrow> nat) \<Rightarrow> bool" where
  "file_works f content pos \<longleftrightarrow>
     (\<forall>name s. \<exists>s'. sf_open_write f name s = (True, s') \<and> content s' = [] \<and> pos s' = 0) \<and>
     (\<forall>name s. \<exists>s'. sf_open_read f name s = (True, s') \<and> content s' = content s \<and> pos s' = 0 \<and> sf_is_open f s') \<and>
     (\<forall>d s. pos s = length (content s) \<longrightarrow>
        (\<exists>s'. sf_write f d s = (length d, s') \<and> content s' = content s @ d \<and> pos s' = length (content s'))) \<and>
     (\<forall>n s. \<exists>s'. sf_read f n s = (take n (drop (pos s) (content s)), s') \<and> content s' = content s \<and>
        pos s' = pos s + min n (length (content s) - pos s) \<and> sf_is_open f s' = sf_is_open f s) \<and>
     (\<forall>p s. unat p \<le> length (content s) \<longrightarrow>
        (\<exists>s'. sf_seek f p s = (True, s') \<and> content s' = content s \<and> pos s' = unat p \<and> sf_is_open f s' = sf_is_open f s)) \<and>
     (\<forall>s. \<exists>s'. sf_sync f s = (True, s') \<and> content s' = content s \<and> pos s' = pos s \<and> sf_is_open f s' = sf_is_open f s) \<and>
     (\<forall>s. content (sf_close f s) = content s) \<and>
     (\<forall>s. sf_tell f s = of_nat (pos s)) \<and> (\<forall>s. sf_size f s = of_nat (length (content s)))"

lemma file_laws:
  assumes "file_works f content pos"
  shows works_open_write: "\<exists>s'. sf_open_write f name s = (True, s') \<and> content s' = [] \<and> pos s' = 0"
    and works_open_read: "\<exists>s'. sf_open_read f name s = (True, s') \<and> content s' = content s \<and> pos s' = 0 \<and> sf_is_open f s'"
    and works_write: "pos s = length (content s) \<Longrightarrow>
        \<exists>s'. sf_write f d s = (length d, s') \<and> content s' = content s @ d \<and> pos s' = length (content s')"
    and works_read: "\<exists>s'. sf_read f n s = (take n (drop (pos s) (content s)), s') \<and> content s' = content s \<and>
        pos s' = pos s + min n (length (content s) - pos s) \<and> sf_is_open f s' = sf_is_open f s"
    and works_seek: "unat p \<le> length (content s) \<Longrightarrow>
        \<exists>s'. sf_seek f p s = (True, s') \<and> content s' = content s \<and> pos s' = unat p \<and> sf_is_open f s' = sf_is_open f s"
    and works_sync: "\<exists>s'. sf_sync f s = (True, s') \<and> content s' = content s \<and> pos s' = pos s \<and> sf_is_open f s' = sf_is_open f s"
    and works_close: "content (sf_close f s) = content s"
    and works_tell: "sf_tell f s = of_nat (pos s)"
    and works_size: "sf_size f s = of_nat (length (content s))"
  using assms unfolding file_works_def by simp_all

section \<open>The file of a capture\<close>

definition capture_header :: buf where
  "capture_header =
     gh_to_bytes \<lparr> gh_magic_number = 0xA1B2C3D4, gh_version_major = 2, gh_version_minor = 4, gh_thiszone = 0,
                   gh_sigfigs = 0, gh_snaplen = 65535, gh_network = 1 \<rparr>"

definition capture_record :: "capture_globals \<Rightarrow> u32 \<Rightarrow> buf \<Rightarrow> buf" where
  "capture_record g tick p =
     ph_to_bytes \<lparr> ph_ts_sec = base_timestamp_sec g + (tick - base_tick g) div 1000,
                   ph_ts_usec = ((tick - base_tick g) mod 1000) * 1000,
                   ph_incl_len = of_nat (length p), ph_orig_len = of_nat (length p) \<rparr> @ p"

definition capture_records :: "capture_globals \<Rightarrow> (u32 \<times> buf) list \<Rightarrow> buf" where
  "capture_records g xs = concat (map (\<lambda>(tick, p). capture_record g tick p) xs)"

text \<open>What the sniffer does: the start, one call for each frame it hears, the end.\<close>

fun write_frames :: "'s storage_file \<Rightarrow> capture_globals \<Rightarrow> (u32 \<times> buf) list \<Rightarrow> 's \<Rightarrow> 's option" where
  "write_frames f g [] s = Some s"
| "write_frames f g ((tick, p) # xs) s =
     do { (_, s) \<leftarrow> pcap_capture_add_packet f tick g p (of_nat (length p)) s; write_frames f g xs s }"

definition capture_session ::
  "'s storage_file \<Rightarrow> u32 \<Rightarrow> u32 \<Rightarrow> buf \<Rightarrow> (u32 \<times> buf) list \<Rightarrow> capture_globals \<Rightarrow> 's \<Rightarrow> (bool \<times> 's) option" where
  "capture_session f timestamp tick filename xs g s =
     (let (ok, g, s) = pcap_capture_init f timestamp tick filename g s
      in if \<not> ok then Some (False, s)
         else do { s \<leftarrow> write_frames f g xs s; Some (True, pcap_close f s) })"

text \<open>A frame that is captured has at most 1518 bytes; the length of a record has 32 bits.\<close>

definition frames_ok :: "(u32 \<times> buf) list \<Rightarrow> bool" where
  "frames_ok xs \<longleftrightarrow> (\<forall>(tick, p) \<in> set xs. p \<noteq> [] \<and> length p \<le> 1518)"

lemma length_capture_record: "length (capture_record g tick p) = 16 + length p"
  by (simp add: capture_record_def ph.length_enc)

lemma write_frames_eq:
  assumes w: "file_works f content pos"
  shows "frames_ok xs \<Longrightarrow> pos s = length (content s) \<Longrightarrow>
           \<exists>s'. write_frames f g xs s = Some s' \<and> content s' = content s @ capture_records g xs \<and> pos s' = length (content s')"
proof (induction xs arbitrary: s)
  case Nil
  then show ?case by (simp add: capture_records_def)
next
  case (Cons x xs)
  obtain tick p where x: "x = (tick, p)" by force
  have p: "length p \<le> 1518" and xs: "frames_ok xs" using Cons.prems(1) by (simp_all add: frames_ok_def x)
  have len: "unat (of_nat (length p) :: u32) = length p" using p by (simp add: unat_of_nat_u32)
  let ?h = "ph_to_bytes \<lparr> ph_ts_sec = base_timestamp_sec g + (tick - base_tick g) div 1000,
      ph_ts_usec = ((tick - base_tick g) mod 1000) * 1000, ph_incl_len = of_nat (length p), ph_orig_len = of_nat (length p) \<rparr>"
  obtain s1 where s1: "sf_write f ?h s = (16, s1)" "content s1 = content s @ ?h" "pos s1 = length (content s1)"
    using works_write [OF w Cons.prems(2), of ?h] by (auto simp: ph.length_enc)
  obtain s2 where s2: "sf_write f p s1 = (length p, s2)" "content s2 = content s1 @ p" "pos s2 = length (content s2)"
    using works_write [OF w s1(3), of p] by blast
  have "pcap_capture_add_packet f tick g p (of_nat (length p)) s = Some (True, s2)"
    using s1(1) s2(1) len by (simp add: pcap_capture_add_packet_def Let_def rd_bytes_def)
  moreover obtain s' where "write_frames f g xs s2 = Some s'" "content s' = content s2 @ capture_records g xs" "pos s' = length (content s')"
    using Cons.IH [OF xs s2(3)] by blast
  ultimately show ?case using s1(2) s2(2) by (simp add: x capture_records_def capture_record_def)
qed

lemma capture_session_eq:
  assumes w: "file_works f content pos" and "frames_ok xs"
  shows "\<exists>s'. capture_session f timestamp tick filename xs g s = Some (True, s') \<and>
     content s' = capture_header @ capture_records \<lparr> base_timestamp_sec = timestamp, base_tick = tick \<rparr> xs"
proof -
  let ?g = "\<lparr> base_timestamp_sec = timestamp, base_tick = tick \<rparr>"
  obtain s1 where s1: "sf_open_write f filename s = (True, s1)" "content s1 = []" "pos s1 = 0" using works_open_write [OF w] by blast
  obtain s2 where s2: "sf_write f capture_header s1 = (24, s2)" "content s2 = capture_header" "pos s2 = length (content s2)"
    using works_write [OF w, of s1 capture_header] s1 by (auto simp: capture_header_def gh.length_enc)
  obtain s3 where s3: "sf_sync f s2 = (True, s3)" "content s3 = content s2" "pos s3 = pos s2" using works_sync [OF w] by blast
  obtain s4 where s4: "write_frames f ?g xs s3 = Some s4" "content s4 = content s3 @ capture_records ?g xs"
    using write_frames_eq [OF w assms(2), of s3 ?g] s2(3) s3(2,3) by auto
  obtain s5 where s5: "sf_sync f s4 = (True, s5)" "content s5 = content s4" using works_sync [OF w] by blast
  have "pcap_capture_init f timestamp tick filename g s = (True, ?g, s3)"
    using s1(1) s2(1) s3(1) by (simp add: pcap_capture_init_def capture_header_def [symmetric])
  then show ?thesis
    using s2(2) s3(2) s4 s5 works_close [OF w, of s5] by (simp add: capture_session_def pcap_close_def)
qed

section \<open>Reading it back\<close>

definition record_offset :: "(u32 \<times> buf) list \<Rightarrow> nat \<Rightarrow> nat" where
  "record_offset xs k = sum_list (map (\<lambda>(tick, p). 16 + length p) (take k xs))"

lemma length_capture_records: "length (capture_records g xs) = record_offset xs (length xs)"
  by (induction xs) (auto simp: capture_records_def record_offset_def length_capture_record)

lemma record_offset_Cons: "record_offset (x # xs) (Suc k) = 16 + length (snd x) + record_offset xs k"
  by (simp add: record_offset_def split: prod.split)

lemma record_offset_0 [simp]: "record_offset xs 0 = 0"
  by (simp add: record_offset_def)

lemma capture_record_header:
  assumes "length p \<le> 1518"
  shows "\<exists>h. take 16 (capture_record g tick p @ r) = h \<and> ph_incl_len (ph_of_bytes h) = of_nat (length p) \<and>
           ph_orig_len (ph_of_bytes h) = of_nat (length p) \<and> drop 16 (capture_record g tick p @ r) = p @ r"
  by (simp add: capture_record_def ph.length_enc ph.dec_enc)

lemma widen: "(ucast (w :: u32) :: u64) = of_nat (unat w)"
  by (rule bit_word_eqI) (simp add: bit_simps)

lemma narrow: "(ucast (of_nat n :: u64) :: u32) = of_nat n"
  by (rule bit_word_eqI) (auto simp: bit_simps)

lemma pcap_scan_loop_eq:
  assumes w: "file_works f content pos"
  shows "xs \<noteq> [] \<Longrightarrow> frames_ok xs \<Longrightarrow> content s = pre @ capture_records g xs \<Longrightarrow> pos s = length pre \<Longrightarrow>
     length (content s) < 2 ^ 32 \<Longrightarrow> unat max_positions \<le> length positions \<Longrightarrow>
     0 < bytes_read \<Longrightarrow> position + ucast bytes_read = of_nat (length pre) \<Longrightarrow>
     \<exists>positions' s'.
        pcap_scan_loop f (of_nat (length (content s))) max_positions bytes_read position counter positions s =
          Some (counter + of_nat (min (length xs) (unat max_positions - unat counter)), positions', s') \<and>
        content s' = content s \<and> length positions' = length positions \<and>
        (\<forall>k<min (length xs) (unat max_positions - unat counter). positions' ! (unat counter + k) = of_nat (length pre + record_offset xs k)) \<and>
        (\<forall>k<unat counter. positions' ! k = positions ! k)"
proof (induction xs arbitrary: s pre counter positions bytes_read position)
  case (Cons x xs)
  let ?n = "\<lambda>xs c. min (length xs) (unat max_positions - unat c)"
  show ?case
  proof (cases "unat counter < unat max_positions")
    case False
    then have "max_positions \<le> counter" by (simp add: word_le_nat_alt)
    then have "pcap_scan_loop f (of_nat (length (content s))) max_positions bytes_read position counter positions s =
        Some (counter, positions, s)"
      by (subst pcap_scan_loop.simps) (simp add: Let_def)
    then show ?thesis using False by simp
  next
    case room: True
    obtain tick p where x: "x = (tick, p)" by force
    have p: "p \<noteq> []" "length p \<le> 1518" and xs: "frames_ok xs" using Cons.prems(2) by (simp_all add: frames_ok_def x)
    let ?r = "capture_record g tick p" and ?rest = "capture_records g xs"
    have content: "content s = pre @ ?r @ ?rest" using Cons.prems(3) by (simp add: capture_records_def x)
    have lr: "length ?r = 16 + length p" by (rule length_capture_record)
    have c: "unat counter < unat max_positions" "unat counter < length positions" using room Cons.prems(6) by simp_all
    then have "Suc (unat counter) < 4294967296" using unat_u32_less [of max_positions] by linarith
    then have c1: "unat (counter + 1) = Suc (unat counter)" by (simp add: unat_word_ariths)
    let ?positions = "positions[unat counter := of_nat (length pre)]"
    obtain h where h: "take 16 (?r @ ?rest) = h" "ph_orig_len (ph_of_bytes h) = of_nat (length p)"
      using capture_record_header [OF p(2)] by blast
    have lh: "length h = 16" using h(1) lr by auto
    obtain s1 where s1: "sf_read f 16 s = (h, s1)" "content s1 = content s" "pos s1 = length pre + 16"
      using works_read [OF w, of 16 s] h(1) Cons.prems(4) content lr by auto
    have orig: "ph_orig_len (ph_of_bytes h) \<noteq> 0" "unat (of_nat (length p) :: u32) = length p"
      using p by (simp_all add: h(2) unat_of_nat_u32 unat_eq_0 [symmetric])
    define to where "to = length pre + 16 + length p"
    have small: "to \<le> length (content s)" "to < 4294967296"
      using content lr Cons.prems(5) by (simp_all add: to_def)
    have target: "(ucast (of_nat (length pre + 16) + ucast (of_nat (length p) :: u32) :: u64) :: u32) = of_nat to"
    proof -
      have "(ucast (of_nat (length p) :: u32) :: u64) = of_nat (length p)"
        using widen [of "of_nat (length p)"] orig(2) by simp
      then have "of_nat (length pre + 16) + ucast (of_nat (length p) :: u32) = (of_nat to :: u64)" by (simp add: to_def)
      moreover have "(ucast (of_nat to :: u64) :: u32) = of_nat to" by (rule narrow)
      ultimately show ?thesis by simp
    qed
    obtain s2 where s2: "sf_seek f (of_nat to) s1 = (True, s2)" "content s2 = content s" "pos s2 = to"
      using works_seek [OF w, of "of_nat to" s1] small s1(2) by (auto simp: unat_of_nat_u32)
    have tell: "sf_tell f s1 = of_nat (length pre + 16)" "sf_tell f s2 = of_nat to"
      using works_tell [OF w] s1(3) s2(3) by simp_all
    have size: "(of_nat (length (content s)) :: u64) \<le> of_nat to \<longleftrightarrow> length (content s) \<le> to"
      using small Cons.prems(5) by (simp add: word_le_nat_alt unat_of_nat take_bit_nat_eq_self)
    have step: "pcap_scan_loop f (of_nat (length (content s))) max_positions bytes_read position counter positions s =
        (if length (content s) \<le> to then Some (counter + 1, ?positions, s2)
         else pcap_scan_loop f (of_nat (length (content s))) max_positions (16 + of_nat (length p)) (of_nat (length pre)) (counter + 1) ?positions s2)"
      using Cons.prems(7,8) c s1(1) lh orig(1) h(2) tell s2(1) size target
      by (subst pcap_scan_loop.simps) (simp add: Let_def not_le word_less_nat_alt word_le_nat_alt)
    show ?thesis
    proof (cases "xs = []")
      case True
      then have "length (content s) \<le> to" using content lr by (simp add: capture_records_def to_def)
      moreover have "?n (x # xs) counter = 1" using True room by simp
      ultimately show ?thesis using step s2(2) c by (auto simp: x True)
    next
      case False
      then obtain y ys where ys: "xs = y # ys" by (cases xs) auto
      have "0 < length ?rest" by (simp add: ys length_capture_records record_offset_Cons)
      then have more: "\<not> length (content s) \<le> to" using content lr by (simp add: to_def)
      have small': "16 + length p < 4294967296" using p(2) by simp
      have bytes: "unat (16 + of_nat (length p) :: u32) = 16 + length p"
        using unat_of_nat_u32 [OF small'] by simp
      have position: "of_nat (length pre) + ucast (16 + of_nat (length p) :: u32) = (of_nat (length (pre @ ?r)) :: u64)"
        using lr widen [of "16 + of_nat (length p)"] bytes by simp
      have "\<exists>positions' s'.
          pcap_scan_loop f (of_nat (length (content s2))) max_positions (16 + of_nat (length p)) (of_nat (length pre)) (counter + 1) ?positions s2 =
            Some (counter + 1 + of_nat (?n xs (counter + 1)), positions', s') \<and> content s' = content s2 \<and> length positions' = length ?positions \<and>
          (\<forall>k<?n xs (counter + 1). positions' ! (unat (counter + 1) + k) = of_nat (length (pre @ ?r) + record_offset xs k)) \<and>
          (\<forall>k<unat (counter + 1). positions' ! k = ?positions ! k)"
        by (rule Cons.IH [OF False xs]) (use content s2 lr Cons.prems(5,6) c1 bytes position in \<open>simp_all add: x to_def word_less_nat_alt\<close>)
      then obtain positions' s' where r:
        "pcap_scan_loop f (of_nat (length (content s))) max_positions (16 + of_nat (length p)) (of_nat (length pre)) (counter + 1) ?positions s2 =
           Some (counter + 1 + of_nat (?n xs (counter + 1)), positions', s')" "content s' = content s" "length positions' = length positions"
        "\<forall>k<?n xs (counter + 1). positions' ! (Suc (unat counter) + k) = of_nat (length (pre @ ?r) + record_offset xs k)"
        "\<forall>k<Suc (unat counter). positions' ! k = ?positions ! k"
        using s2(2) c1 by auto
      have n: "?n (x # xs) counter = Suc (?n xs (counter + 1))" using room c1 by (simp add: Suc_diff_Suc [symmetric])
      have "positions' ! (unat counter + k) = of_nat (length pre + record_offset (x # xs) k)" if "k < ?n (x # xs) counter" for k
      proof (cases k)
        case 0
        then show ?thesis using r(5) c(2) by simp
      next
        case (Suc j)
        then show ?thesis using r(4) that lr unfolding n by (simp add: record_offset_Cons x add.assoc)
      qed
      moreover have "\<forall>k<unat counter. positions' ! k = positions ! k" using r(5) by simp
      ultimately show ?thesis
        unfolding step n using more r(1-3) by (intro exI [of _ positions'] exI [of _ s']) (simp add: add.assoc)
    qed
  qed
qed simp

text \<open>Behind the last record there is no header; the position is counted all the same.\<close>

lemma pcap_scan_loop_end:
  assumes w: "file_works f content pos" and "pos s = length (content s)" "0 < max_positions" "positions \<noteq> []"
  shows "\<exists>s'. pcap_scan_loop f file_size max_positions 24 0 0 positions s = Some (1, positions[0 := 24], s') \<and> content s' = content s"
proof -
  obtain s1 where "sf_read f 16 s = ([], s1)" "content s1 = content s"
    using works_read [OF w, of 16 s] assms(2) by auto
  then show ?thesis
    using assms(3,4) by (subst pcap_scan_loop.simps) (simp add: Let_def not_le)
qed

lemma pcap_get_nothing:
  assumes w: "file_works f content pos" and "content s = pre" "sf_is_open f s" "length pre < 2 ^ 32"
  shows "\<exists>s'. pcap_get_specific_packet f (Some buffer) 1518 (of_nat (length pre)) s = Some (0, Some buffer, s') \<and>
           content s' = content s"
proof -
  obtain s1 where s1: "sf_sync f s = (True, s1)" "content s1 = content s"
    using works_sync [OF w, of s] by auto
  have pre: "unat (of_nat (length pre) :: u32) = length pre" using assms(4) by (simp add: unat_of_nat_u32)
  obtain s2 where s2: "sf_seek f (of_nat (length pre)) s1 = (True, s2)" "content s2 = content s" "pos s2 = length pre"
    using works_seek [OF w, of "of_nat (length pre)" s1] pre s1(2) assms(2) by auto
  obtain s3 where "sf_read f 16 s2 = ([], s3)" "content s3 = content s"
    using works_read [OF w, of 16 s2] s2(2,3) assms(2) by auto
  then show ?thesis using assms(3) s1(1) s2(1) by (simp add: pcap_get_specific_packet_def Let_def)
qed

lemma pcap_get_eq:
  assumes w: "file_works f content pos" and "content s = pre @ capture_record g tick p @ rest" "sf_is_open f s"
    and "length p \<le> 1518" "length (content s) < 2 ^ 32" "length buffer = 1518"
  shows "\<exists>s'. pcap_get_specific_packet f (Some buffer) 1518 (of_nat (length pre)) s =
           Some (length p, Some (p @ drop (length p) buffer), s') \<and> content s' = content s"
proof -
  obtain s1 where s1: "sf_sync f s = (True, s1)" "content s1 = content s" "sf_is_open f s1"
    using works_sync [OF w, of s] assms(3) by auto
  have pre: "length pre \<le> length (content s)" "unat (of_nat (length pre) :: u32) = length pre"
    using assms(2,5) by (simp_all add: unat_of_nat_u32)
  obtain s2 where s2: "sf_seek f (of_nat (length pre)) s1 = (True, s2)" "content s2 = content s" "pos s2 = length pre"
    using works_seek [OF w, of "of_nat (length pre)" s1] pre s1(2) by auto
  obtain h where h: "take 16 (capture_record g tick p @ rest) = h" "ph_incl_len (ph_of_bytes h) = of_nat (length p)"
    "drop 16 (capture_record g tick p @ rest) = p @ rest"
    using capture_record_header [OF assms(4)] by blast
  have lr: "length (capture_record g tick p) = 16 + length p" by (rule length_capture_record)
  have lh: "length h = 16" using h(1) lr by auto
  obtain s3 where s3: "sf_read f 16 s2 = (h, s3)" "content s3 = content s" "pos s3 = length pre + 16"
    using works_read [OF w, of 16 s2] s2 assms(2) h(1) lr by auto
  have "take (length p) (drop (length pre + 16) (content s)) = p" using assms(2) h(3) by simp
  then obtain s4 where s4: "sf_read f (length p) s3 = (p, s4)" "content s4 = content s"
    using works_read [OF w, of "length p" s3] s3 by auto
  have "unat (of_nat (length p) :: u32) = length p" using assms(4) by (simp add: unat_of_nat_u32)
  then show ?thesis
    using assms(3,4,6) s1(1) s2(1) s3(1) s4 lh h(2)
    by (simp add: pcap_get_specific_packet_def Let_def wr_bytes_def)
qed

lemma capture_records_split:
  assumes "k < length xs"
  shows "\<exists>a b. capture_records g xs = a @ capture_record g (fst (xs ! k)) (snd (xs ! k)) @ b \<and> length a = record_offset xs k"
proof -
  have app: "capture_records g (ys @ zs) = capture_records g ys @ capture_records g zs" for ys zs
    by (simp add: capture_records_def)
  have "capture_records g xs = capture_records g (take k xs) @ capture_records g (xs ! k # drop (Suc k) xs)"
    unfolding app [symmetric] using id_take_nth_drop [OF assms] by simp
  moreover have "length (capture_records g (take k xs)) = record_offset xs k"
    using assms by (simp add: length_capture_records) (simp add: record_offset_def)
  ultimately show ?thesis by (auto simp: capture_records_def split: prod.split)
qed

text \<open>How many frames the scan finds.\<close>

definition frames_found :: "(u32 \<times> buf) list \<Rightarrow> u32 \<Rightarrow> nat" where
  "frames_found xs max_positions = min (length xs) (unat max_positions)"

lemma scan_of_session:
  assumes w: "file_works f content pos" and "frames_ok xs" "unat max_positions \<le> length positions"
    and "content s = capture_header @ capture_records g xs" "length (content s) < 2 ^ 32"
  shows "\<exists>positions' s'. pcap_scan f filename positions max_positions s =
       Some (if xs = [] \<and> 0 < max_positions then 1 else of_nat (frames_found xs max_positions), positions', s') \<and>
     content s' = content s \<and> (\<forall>k<frames_found xs max_positions. positions' ! k = of_nat (24 + record_offset xs k)) \<and>
     (xs = [] \<and> 0 < max_positions \<longrightarrow> positions' ! 0 = 24)"
proof -
  have lh: "length capture_header = 24" by (simp add: capture_header_def gh.length_enc)
  obtain s2 where s2: "sf_open_read f filename s = (True, s2)" "content s2 = content s" "pos s2 = 0" using works_open_read [OF w] by blast
  obtain s3 where s3: "sf_read f 24 s2 = (capture_header, s3)" "content s3 = content s" "pos s3 = 24"
    using works_read [OF w, of 24 s2] s2 assms(4) lh by auto
  have magic: "gh_magic_number (gh_of_bytes capture_header) = 0xA1B2C3D4" by (simp add: capture_header_def gh.dec_enc)
  have scan: "pcap_scan f filename positions max_positions s = Some (c, p, sf_close f s4)"
    if "pcap_scan_loop f (of_nat (length (content s))) max_positions 24 0 0 positions s3 = Some (c, p, s4)" for c p s4
    using s2 s3(1) lh magic that works_size [OF w, of s2] by (simp add: pcap_scan_def pcap_check_header_def)
  show ?thesis
  proof (cases "xs = []")
    case False
    have start: "(0 :: u64) + ucast (24 :: u32) = of_nat (length capture_header)" using lh by simp
    obtain positions' s4 where r:
      "pcap_scan_loop f (of_nat (length (content s))) max_positions 24 0 0 positions s3 =
         Some (of_nat (frames_found xs max_positions), positions', s4)"
      "content s4 = content s" "\<forall>k<frames_found xs max_positions. positions' ! k = of_nat (24 + record_offset xs k)"
      using pcap_scan_loop_eq [OF w False assms(2), of s3 capture_header g max_positions positions 24 0 0] s3 assms(3-5) lh start
      by (auto simp: frames_found_def)
    then show ?thesis
      using scan [OF r(1)] False works_close [OF w, of s4]
      by (intro exI [of _ positions'] exI [of _ "sf_close f s4"]) simp
  next
    case True
    then have end_of_file: "pos s3 = length (content s3)" using s3 assms(4) lh by (simp add: capture_records_def)
    show ?thesis
    proof (cases "max_positions = 0")
      case False
      then have room: "0 < max_positions" "positions \<noteq> []"
        using assms(3) by (auto simp: word_gt_0 unat_eq_0 [symmetric])
      from pcap_scan_loop_end [OF w end_of_file room] obtain s4 where
        r: "pcap_scan_loop f (of_nat (length (content s))) max_positions 24 0 0 positions s3 = Some (1, positions[0 := 24], s4)"
          "content s4 = content s3"
        by blast
      then show ?thesis
        using scan [OF r(1)] True s3(2) room works_close [OF w, of s4]
        by (intro exI [of _ "positions[0 := 24]"] exI [of _ "sf_close f s4"]) (simp add: frames_found_def)
    next
      case True
      then have r: "pcap_scan_loop f (of_nat (length (content s))) max_positions 24 0 0 positions s3 = Some (0, positions, s3)"
        by (subst pcap_scan_loop.simps) simp
      then show ?thesis
        using scan [OF r] True s3(2) works_close [OF w, of s3]
        by (intro exI [of _ positions] exI [of _ "sf_close f s3"]) (simp add: frames_found_def)
    qed
  qed
qed

section \<open>Property\<close>

text \<open>
  C39. What the sniffer captures can be viewed. On a card that works, a session that hears frames of 1 to 1518
  bytes, in a file below 4 GiB, leaves a file in which the scan finds these frames, the first \<open>max_positions\<close> of
  them when there are more, and in any order the reader gets each of them back, byte for byte, at the
  position the scan noted for it. A session that heard nothing is counted as one packet, and at its position the
  reader gets none.
\<close>

theorem capture_file_roundtrip:
  fixes content :: "'s \<Rightarrow> buf"
  assumes "file_works f content pos" "frames_ok xs" "unat max_positions \<le> length positions"
    and "24 + record_offset xs (length xs) < 2 ^ 32" "length buffer = 1518"
  shows "\<exists>s1 positions' s2. capture_session f timestamp tick filename xs g s = Some (True, s1) \<and>
     pcap_scan f filename positions max_positions s1 =
       Some (if xs = [] \<and> 0 < max_positions then 1 else of_nat (min (length xs) (unat max_positions)), positions', s2) \<and>
     content s2 = content s1 \<and>
     (\<forall>k<min (length xs) (unat max_positions). \<forall>s3. content s3 = content s1 \<and> sf_is_open f s3 \<longrightarrow>
        (\<exists>s4. pcap_get_specific_packet f (Some buffer) 1518 (ucast (positions' ! k)) s3 =
                Some (length (snd (xs ! k)), Some (snd (xs ! k) @ drop (length (snd (xs ! k))) buffer), s4) \<and>
              content s4 = content s1)) \<and>
     (xs = [] \<and> 0 < max_positions \<longrightarrow> (\<forall>s3. content s3 = content s1 \<and> sf_is_open f s3 \<longrightarrow>
        (\<exists>s4. pcap_get_specific_packet f (Some buffer) 1518 (ucast (positions' ! 0)) s3 = Some (0, Some buffer, s4) \<and>
              content s4 = content s1)))"
proof -
  note w = assms(1)
  define g' where "g' = \<lparr> base_timestamp_sec = timestamp, base_tick = tick \<rparr>"
  obtain s1 where s1: "capture_session f timestamp tick filename xs g s = Some (True, s1)"
    "content s1 = capture_header @ capture_records g' xs"
    using capture_session_eq [OF w assms(2), where timestamp = timestamp and tick = tick and filename = filename and g = g and s = s]
    unfolding g'_def by blast
  have lh: "length capture_header = 24" by (simp add: capture_header_def gh.length_enc)
  have len: "length (content s1) < 2 ^ 32" using s1(2) lh assms(4) by (simp add: length_capture_records)
  obtain positions' s2 where s2: "pcap_scan f filename positions max_positions s1 =
       Some (if xs = [] \<and> 0 < max_positions then 1 else of_nat (frames_found xs max_positions), positions', s2)"
    "content s2 = content s1" "\<forall>k<frames_found xs max_positions. positions' ! k = of_nat (24 + record_offset xs k)"
    "xs = [] \<and> 0 < max_positions \<longrightarrow> positions' ! 0 = 24"
    using scan_of_session [OF w assms(2,3) s1(2) len] by blast
  have "\<exists>s6. pcap_get_specific_packet f (Some buffer) 1518 (ucast (positions' ! k)) s5 =
         Some (length (snd (xs ! k)), Some (snd (xs ! k) @ drop (length (snd (xs ! k))) buffer), s6) \<and> content s6 = content s1"
    if "k < frames_found xs max_positions" "content s5 = content s1" "sf_is_open f s5" for k s5
  proof -
    have k: "k < length xs" using that(1) by (simp add: frames_found_def)
    obtain a b where ab: "capture_records g' xs = a @ capture_record g' (fst (xs ! k)) (snd (xs ! k)) @ b" "length a = record_offset xs k"
      using capture_records_split [OF k] by blast
    have c5: "content s5 = (capture_header @ a) @ capture_record g' (fst (xs ! k)) (snd (xs ! k)) @ b"
      using that(2) s1(2) ab(1) by simp
    have "length (snd (xs ! k)) \<le> 1518" using assms(2) nth_mem [OF k] by (auto simp: frames_ok_def split_beta)
    moreover have "(ucast (positions' ! k) :: u32) = of_nat (length (capture_header @ a))"
    proof -
      have "positions' ! k = of_nat (24 + record_offset xs k)" using s2(3) that(1) by blast
      then show ?thesis using narrow [of "24 + record_offset xs k"] by (simp only: length_append lh ab(2))
    qed
    ultimately show ?thesis using pcap_get_eq [OF w c5 that(3) _ _ assms(5)] that(2) len by simp
  qed
  moreover have "\<exists>s6. pcap_get_specific_packet f (Some buffer) 1518 (ucast (positions' ! 0)) s5 = Some (0, Some buffer, s6) \<and>
      content s6 = content s1" if "xs = []" "0 < max_positions" "content s5 = content s1" "sf_is_open f s5" for s5
  proof -
    have "content s5 = capture_header" using that(1,3) s1(2) by (simp add: capture_records_def)
    then show ?thesis
      using pcap_get_nothing [OF w _ that(4), of capture_header buffer] s2(4) that lh narrow [of 24] by simp
  qed
  ultimately show ?thesis using s1(1) s2(1,2) by (auto simp: frames_found_def)
qed

text \<open>A file as its bytes and the position, whether it is open or not.\<close>

definition example_card_file :: "(buf \<times> nat \<times> bool) storage_file" where
  "example_card_file =
     \<lparr> sf_open_read = (\<lambda>_ (c, p, b). (True, c, 0, True)), sf_open_write = (\<lambda>_ (c, p, b). (True, [], 0, True)),
       sf_write = (\<lambda>d (c, p, b). (length d, take p c @ d @ drop (p + length d) c, p + length d, b)),
       sf_read = (\<lambda>n (c, p, b). (take n (drop p c), c, p + min n (length c - p), b)),
       sf_seek = (\<lambda>q (c, p, b). if unat q \<le> length c then (True, c, unat q, b) else (False, c, p, b)),
       sf_tell = (\<lambda>(c, p, b). of_nat p), sf_size = (\<lambda>(c, p, b). of_nat (length c)), sf_sync = (\<lambda>s. (True, s)),
       sf_close = (\<lambda>(c, p, b). (c, p, False)), sf_is_open = (\<lambda>(c, p, b). b) \<rparr>"

lemma example_card_file_works: "file_works example_card_file fst (fst \<circ> snd)"
  by (auto simp: file_works_def example_card_file_def)

lemma capture_file_roundtrip_witness:
  "\<exists>s1 positions' s2 s4.
     capture_session example_card_file 1700000000 5 [112] [(6, [1, 2, 3]), (1009, [4, 5])] \<lparr> base_timestamp_sec = 0, base_tick = 0 \<rparr> ([], 0, False) =
       Some (True, s1) \<and>
     pcap_scan example_card_file [112] (replicate 4 0) 4 s1 = Some (2, positions', s2) \<and>
     pcap_get_specific_packet example_card_file (Some (replicate 1518 0)) 1518 (ucast (positions' ! 1)) (fst s1, 0, True) =
       Some (2, Some ([4, 5] @ replicate 1516 0), s4)"
proof -
  let ?xs = "[(6, [1, 2, 3]), (1009, [4, 5])] :: (u32 \<times> buf) list"
  have p: "frames_ok ?xs" "unat (4 :: u32) \<le> length (replicate 4 0 :: u64 list)"
    "24 + record_offset ?xs (length ?xs) < 2 ^ 32" "length (replicate 1518 0 :: buf) = 1518"
    by (simp_all add: frames_ok_def record_offset_def)
  have n: "min (length ?xs) (unat (4 :: u32)) = length ?xs" by simp
  obtain s1 positions' s2 where r:
    "capture_session example_card_file 1700000000 5 [112] ?xs \<lparr> base_timestamp_sec = 0, base_tick = 0 \<rparr> ([], 0, False) = Some (True, s1)"
    "pcap_scan example_card_file [112] (replicate 4 0) 4 s1 = Some (of_nat (length ?xs), positions', s2)"
    "\<forall>k<length ?xs. \<forall>s3. fst s3 = fst s1 \<and> sf_is_open example_card_file s3 \<longrightarrow>
       (\<exists>s4. pcap_get_specific_packet example_card_file (Some (replicate 1518 0)) 1518 (ucast (positions' ! k)) s3 =
          Some (length (snd (?xs ! k)), Some (snd (?xs ! k) @ drop (length (snd (?xs ! k))) (replicate 1518 0)), s4) \<and> fst s4 = fst s1)"
    using capture_file_roundtrip [OF example_card_file_works p, of 1700000000 5 "[112]" "\<lparr> base_timestamp_sec = 0, base_tick = 0 \<rparr>" "([], 0, False)"]
    unfolding n by fastforce
  have "sf_is_open example_card_file (fst s1, 0, True)" by (simp add: example_card_file_def)
  with r(3) obtain s4 where "pcap_get_specific_packet example_card_file (Some (replicate 1518 0)) 1518 (ucast (positions' ! 1)) (fst s1, 0, True) =
      Some (length (snd (?xs ! 1)), Some (snd (?xs ! 1) @ drop (length (snd (?xs ! 1))) (replicate 1518 0)), s4)"
    by (metis One_nat_def fst_conv length_Cons lessI list.size(3))
  moreover have "length (snd (?xs ! 1)) = 2" "snd (?xs ! 1) = [4, 5]" "drop 2 (replicate 1518 0 :: buf) = replicate 1516 0"
    "(of_nat (length ?xs) :: u32) = 2" by simp_all
  ultimately show ?thesis using r(1,2) by (simp only:) blast
qed

end
