(* ===== verification/Os_Classify.thy ===== *)
theory Os_Classify
  imports Complex_Main "HOL-Library.Log_Nat" Prelude
begin

text \<open>
  \<open>modules/os_detector_module.c\<close>, first half: the classifiers of what the target sent, the parser of TCP
  options and the scoreboard. The variance is computed in \<open>double\<close>: here a rational number that every
  operation rounds to 53 bits, to the nearest and to even. The values come from integers of 32
  bits, so the range of the exponent is not left.
\<close>

section \<open>Double precision\<close>

type_synonym dbl = rat

definition two_to :: "int \<Rightarrow> rat" where
  "two_to k = (if 0 \<le> k then 2 ^ nat k else 1 / 2 ^ nat (- k))"

definition binade :: "rat \<Rightarrow> int" where
  "binade x =
     (let (p, q) = quotient_of \<bar>x\<bar>; k = bitlen p - bitlen q in if two_to k \<le> \<bar>x\<bar> then k else k - 1)"

definition round_even :: "rat \<Rightarrow> int" where
  "round_even x =
     (let f = \<lfloor>x\<rfloor>; r = x - of_int f in if r < 1 / 2 then f else if r > 1 / 2 then f + 1 else if even f then f else f + 1)"

definition rnd :: "rat \<Rightarrow> dbl" where
  "rnd x = (if x = 0 then 0 else let e = binade x - 52 in of_int (round_even (x * two_to (- e))) * two_to e)"

definition dbl_of :: "int \<Rightarrow> dbl" where "dbl_of n = rnd (of_int n)"
definition dbl_add :: "dbl \<Rightarrow> dbl \<Rightarrow> dbl" where "dbl_add x y = rnd (x + y)"
definition dbl_sub :: "dbl \<Rightarrow> dbl \<Rightarrow> dbl" where "dbl_sub x y = rnd (x - y)"
definition dbl_mul :: "dbl \<Rightarrow> dbl \<Rightarrow> dbl" where "dbl_mul x y = rnd (x * y)"
definition dbl_div :: "dbl \<Rightarrow> dbl \<Rightarrow> dbl" where "dbl_div x y = rnd (x / y)"

text \<open>The literals \<open>0.5\<close>, \<open>0.7\<close> and \<open>0.8\<close>\<close>

definition dbl_tenths :: "int \<Rightarrow> dbl" where "dbl_tenths n = rnd (of_int n / 10)"

section \<open>Classifiers\<close>

datatype OS_DETECTOR_OS = WINDOWS | LINUX | IOS | NO_DETECTED

datatype ipid_pattern =
    IPID_UNKNOWN
  | IPID_CONSTANT
  | IPID_INCREMENTAL
  | IPID_INCREMENTAL_LARGE
  | IPID_RANDOM
  | IPID_ZERO

datatype seq_pattern = SEQ_UNKNOWN | SEQ_CONSTANT | SEQ_INCREMENTAL | SEQ_RANDOM

definition ipid_pattern_str :: "ipid_pattern \<Rightarrow> string" where
  "ipid_pattern_str p =
     (case p of IPID_ZERO \<Rightarrow> ''ZERO'' | IPID_INCREMENTAL \<Rightarrow> ''INCREMENTAL'' | IPID_RANDOM \<Rightarrow> ''RANDOM''
      | IPID_CONSTANT \<Rightarrow> ''CONSTANT'' | _ \<Rightarrow> ''UNKNOWN'')"

definition seq_pattern_to_string :: "u8 \<Rightarrow> string" where
  "seq_pattern_to_string pattern =
     (if pattern = 0 then ''CONSTANT'' else if pattern = 1 then ''INCREMENTAL'' else if pattern = 2 then ''RANDOM''
      else if pattern = 3 then ''LOW_VARIANCE'' else ''UNKNOWN'')"

definition ipid_diff :: "u16 \<Rightarrow> u16 \<Rightarrow> int" where
  "ipid_diff prev cur =
     (let diff = int (unat cur) - int (unat prev)
      in if diff < -32768 then diff + 65536 else if diff > 32767 then diff - 65536 else diff)"

definition varianza :: "int list \<Rightarrow> dbl" where
  "varianza d =
     (let len = int (length d) in
      if len \<le> 1 then 0
      else let (suma, suma2) = fold (\<lambda>x (s, s2). (dbl_add s (dbl_of x), dbl_add s2 (dbl_mul (dbl_of x) (dbl_of x)))) d (0, 0);
               media = dbl_div suma (dbl_of len)
           in dbl_sub (dbl_div suma2 (dbl_of len)) (dbl_mul media media))"

text \<open>The differences of neighbours in the first \<open>n\<close> entries.\<close>

definition neighbour_diffs :: "('a \<Rightarrow> 'a \<Rightarrow> int) \<Rightarrow> 'a list \<Rightarrow> nat \<Rightarrow> int list" where
  "neighbour_diffs diff xs n = map (\<lambda>i. diff (xs ! i) (xs ! (i + 1))) [0..<n - 1]"

definition count_of :: "('a \<Rightarrow> bool) \<Rightarrow> 'a list \<Rightarrow> int" where
  "count_of P xs = int (length (filter P xs))"

definition detectar_patron_ipid :: "u16 list \<Rightarrow> nat \<Rightarrow> ipid_pattern option" where
  "detectar_patron_ipid ids n =
     (if n < 3 then Some IPID_UNKNOWN
      else if length ids < n then None
      else if list_all (\<lambda>x. x = 0) (take n ids) then Some IPID_ZERO
      else if list_all (\<lambda>x. x = ids ! 0) (take n ids) then Some IPID_CONSTANT
      else let n = min n 100;
               diffs = neighbour_diffs ipid_diff ids n;
               positivos = dbl_of (count_of (\<lambda>d. d > 0) diffs);
               pequenos = dbl_of (count_of (\<lambda>d. d > 0 \<and> d < 1000) diffs);
               grandes = dbl_of (count_of (\<lambda>d. d \<ge> 1000) diffs);
               var = varianza diffs;
               part = (\<lambda>k. dbl_mul (dbl_tenths k) (dbl_of (int n - 1)))
           in if positivos \<ge> part 8 \<and> pequenos \<ge> part 7 \<and> var < 20000 then Some IPID_INCREMENTAL
              else if positivos \<ge> part 8 \<and> grandes \<ge> part 5 then Some IPID_INCREMENTAL_LARGE
              else if var > 500000 then Some IPID_RANDOM
              else Some IPID_UNKNOWN)"

definition clasificar_ipid_por_patron :: "ipid_pattern \<Rightarrow> OS_DETECTOR_OS" where
  "clasificar_ipid_por_patron pattern =
     (case pattern of IPID_ZERO \<Rightarrow> LINUX | IPID_CONSTANT \<Rightarrow> WINDOWS | IPID_INCREMENTAL \<Rightarrow> LINUX
      | IPID_INCREMENTAL_LARGE \<Rightarrow> LINUX | IPID_RANDOM \<Rightarrow> IOS | _ \<Rightarrow> NO_DETECTED)"

text \<open>The array of differences has 100 entries.\<close>

definition word_diff :: "u32 \<Rightarrow> u32 \<Rightarrow> int" where
  "word_diff a b = sint (b - a)"

definition detectar_patron_seq :: "u32 list \<Rightarrow> nat \<Rightarrow> seq_pattern option" where
  "detectar_patron_seq seq n =
     (if n < 4 then Some SEQ_UNKNOWN
      else if length seq < n \<or> 101 < n then None
      else let diffs = neighbour_diffs word_diff seq n; var = varianza diffs
           in if list_all (\<lambda>x. x = seq ! 0) (take n seq) then Some SEQ_CONSTANT
              else if dbl_of (count_of (\<lambda>d. d > 0 \<and> d < 100000) diffs) > dbl_mul (dbl_of (int n - 1)) (dbl_tenths 7) \<and> var < 100000000
              then Some SEQ_INCREMENTAL
              else if var > 1000000000 then Some SEQ_RANDOM
              else Some SEQ_UNKNOWN)"

definition clasificar_seq :: "seq_pattern \<Rightarrow> OS_DETECTOR_OS" where
  "clasificar_seq p =
     (case p of SEQ_CONSTANT \<Rightarrow> WINDOWS | SEQ_INCREMENTAL \<Rightarrow> LINUX | SEQ_RANDOM \<Rightarrow> IOS | SEQ_UNKNOWN \<Rightarrow> NO_DETECTED)"

definition detectar_ts_rate :: "u32 list \<Rightarrow> nat \<Rightarrow> OS_DETECTOR_OS option" where
  "detectar_ts_rate ts n =
     (if n < 4 then Some NO_DETECTED
      else if length ts < n \<or> 101 < n then None
      else let var = varianza (neighbour_diffs word_diff ts n)
           in Some (if var < 10000 then LINUX else if var > 1000000 then WINDOWS else NO_DETECTED))"

definition clasificar_window :: "u16 list \<Rightarrow> nat \<Rightarrow> OS_DETECTOR_OS \<Rightarrow> OS_DETECTOR_OS option" where
  "clasificar_window win n value_ptr =
     (if n = 0 then Some value_ptr
      else if length win < n then None
      else let (max_count, dominante) =
             fold (\<lambda>i (max_count, dominante).
                 let count = count_of (\<lambda>w. w = win ! i) (take n win)
                 in if count > max_count then (count, win ! i) else (max_count, dominante)) [0..<n] (0, 0)
           in Some (if dbl_of max_count \<ge> dbl_mul (dbl_tenths 7) (dbl_of (int n))
                    then (if dominante = 65535 then IOS
                          else if dominante \<ge> 64000 then WINDOWS
                          else if dominante \<ge> 5800 \<and> dominante \<le> 6000 then LINUX
                          else if dominante \<ge> 29000 \<and> dominante \<le> 30000 then LINUX
                          else value_ptr)
                    else value_ptr))"

section \<open>TCP options\<close>

definition TCP_OPTS_MAX :: nat where [simp]: "TCP_OPTS_MAX = 9"

record tcp_opts =
  to_has_mss :: bool
  to_has_sack :: bool
  to_has_ws :: bool
  to_has_ts :: bool
  to_has_nop :: bool
  to_options_length :: u8
  to_tsval :: u32
  to_tsecr :: u32
  to_order :: buf
  to_count :: u8
  to_mss_value :: u16
  to_ws_value :: u8

definition tcp_opts_zero :: tcp_opts where
  "tcp_opts_zero =
     \<lparr> to_has_mss = False, to_has_sack = False, to_has_ws = False, to_has_ts = False, to_has_nop = False,
       to_options_length = 0, to_tsval = 0, to_tsecr = 0, to_order = replicate 16 0, to_count = 0, to_mss_value = 0,
       to_ws_value = 0 \<rparr>"

text \<open>\<open>if(opts->count < TCP_OPTS_MAX) opts->order[opts->count++] = kind\<close>\<close>

definition note_option :: "u8 \<Rightarrow> tcp_opts \<Rightarrow> tcp_opts option" where
  "note_option kind opts =
     (if unat (to_count opts) < TCP_OPTS_MAX
      then do { o' \<leftarrow> wr_bytes (to_order opts) (unat (to_count opts)) [kind];
                Some (opts\<lparr> to_order := o', to_count := to_count opts + 1 \<rparr>) }
      else Some opts)"

text \<open>One option of length \<open>len\<close> at \<open>p\<close>; options of other kinds are skipped.\<close>

definition tcp_option :: "buf \<Rightarrow> nat \<Rightarrow> u8 \<Rightarrow> u8 \<Rightarrow> tcp_opts \<Rightarrow> tcp_opts option" where
  "tcp_option ptr i kind len opts =
     (if kind = 2
      then (if len < 4 then Some opts
            else do { v \<leftarrow> rd_be16 ptr (i + 2); note_option 2 (opts\<lparr> to_has_mss := True, to_mss_value := v \<rparr>) })
      else if kind = 3
      then (if len < 3 then Some opts
            else do { v \<leftarrow> rd ptr (i + 2); note_option 3 (opts\<lparr> to_has_ws := True, to_ws_value := v \<rparr>) })
      else if kind = 4 then note_option 4 (opts\<lparr> to_has_sack := True \<rparr>)
      else if kind = 5 then note_option 5 (opts\<lparr> to_has_sack := True \<rparr>)
      else if kind = 8
      then (if len < 10 then Some opts
            else do { v \<leftarrow> rd_be32 ptr (i + 2); e \<leftarrow> rd_be32 ptr (i + 6);
                      note_option 8 (opts\<lparr> to_has_ts := True, to_tsval := v, to_tsecr := e \<rparr>) })
      else Some opts)"

text \<open>The loop; \<open>i\<close> is a byte in the code and stays below \<open>opts_len \<le> 40\<close> plus the last length.\<close>

function parse_options_loop :: "buf \<Rightarrow> nat \<Rightarrow> nat \<Rightarrow> tcp_opts \<Rightarrow> tcp_opts option" where
  "parse_options_loop ptr opts_len i opts =
     (if \<not> i < opts_len then Some opts
      else case rd ptr i of
        None \<Rightarrow> None
      | Some kind \<Rightarrow>
          if kind = 0 then note_option 0 opts
          else if kind = 1
          then (case note_option 1 (opts\<lparr> to_has_nop := True \<rparr>) of
                  None \<Rightarrow> None
                | Some opts \<Rightarrow> parse_options_loop ptr opts_len (i + 1) opts)
          else if i + 1 \<ge> opts_len then Some opts
          else case rd ptr (i + 1) of
            None \<Rightarrow> None
          | Some len \<Rightarrow>
              if len < 2 \<or> i + unat len > opts_len then Some opts
              else case tcp_option ptr i kind len opts of
                     None \<Rightarrow> None
                   | Some opts \<Rightarrow> parse_options_loop ptr opts_len (i + unat len) opts)"
  by pat_completeness auto
termination
proof (relation "measure (\<lambda>(ptr, opts_len, i, opts). opts_len - i)", goal_cases)
  case (3 ptr opts_len i opts kind len)
  then have "2 \<le> unat len" by (simp add: word_less_nat_alt)
  moreover from 3 have "i + unat len \<le> opts_len" by simp
  ultimately have "opts_len - (i + unat len) < opts_len - i" by linarith
  then show ?case by simp
qed simp_all

declare parse_options_loop.simps [simp del]

definition parse_tcp_options :: "buf ptr \<Rightarrow> u8 \<Rightarrow> tcp_opts option" where
  "parse_tcp_options tcp_start tcp_header_len =
     (case tcp_start of
        None \<Rightarrow> Some tcp_opts_zero
      | Some b \<Rightarrow>
          if tcp_header_len < 20 \<or> tcp_header_len > 60 then Some tcp_opts_zero
          else let opts_len = tcp_header_len - 20; opts = tcp_opts_zero\<lparr> to_options_length := opts_len \<rparr>
               in if opts_len = 0 then Some opts
                  else if length b < 20 then None
                  else parse_options_loop (drop 20 b) (unat opts_len) 0 opts)"

definition starts_with :: "nat \<Rightarrow> buf \<Rightarrow> tcp_opts \<Rightarrow> bool" where
  "starts_with k xs opts \<longleftrightarrow> take (length xs) (drop k (to_order opts)) = xs"

definition clasificar_tcp_options :: "tcp_opts \<Rightarrow> OS_DETECTOR_OS" where
  "clasificar_tcp_options opts =
     (let count = unat (to_count opts); ws = to_ws_value opts;
          all_three = to_has_mss opts \<and> to_has_ws opts \<and> to_has_ts opts in
      if count < 3 then NO_DETECTED
      else if count \<ge> 4 \<and> starts_with 0 [2, 4, 8, 3] opts then WINDOWS
      else if count \<ge> 7 \<and> starts_with 0 [2, 1, 1, 4, 8, 1, 3] opts then LINUX
      else if count \<ge> 6 \<and> starts_with 1 [1, 3, 1, 1, 8] opts then IOS
      else if all_three \<and> to_has_sack opts \<and> ws = 8 then WINDOWS
      else if all_three \<and> to_has_sack opts \<and> (ws = 7 \<or> ws = 6) then LINUX
      else if all_three \<and> ws = 6 then IOS
      else if to_options_length opts = 20 \<and> all_three \<and> to_has_sack opts \<and> ws = 7 then LINUX
      else if to_options_length opts = 20 \<and> all_three \<and> to_has_sack opts \<and> ws = 8 then WINDOWS
      else if to_has_ts opts \<and> ws = 6 then IOS
      else NO_DETECTED)"

section \<open>The scoreboard\<close>

record os_scoreboard =
  windows_score :: int
  linux_score :: int
  ios_score :: int

definition os_scoreboard_init :: "os_scoreboard \<Rightarrow> os_scoreboard" where
  "os_scoreboard_init sb = sb\<lparr> windows_score := 0, linux_score := 0, ios_score := 0 \<rparr>"

definition os_score_add :: "OS_DETECTOR_OS \<Rightarrow> int \<Rightarrow> os_scoreboard \<Rightarrow> os_scoreboard" where
  "os_score_add os weight sb =
     (case os of
        WINDOWS \<Rightarrow> sb\<lparr> windows_score := windows_score sb + weight \<rparr>
      | LINUX \<Rightarrow> sb\<lparr> linux_score := linux_score sb + weight \<rparr>
      | IOS \<Rightarrow> sb\<lparr> ios_score := ios_score sb + weight \<rparr>
      | NO_DETECTED \<Rightarrow> sb)"

definition os_score_resolve :: "os_scoreboard \<Rightarrow> OS_DETECTOR_OS" where
  "os_score_resolve sb =
     (let w = windows_score sb; l = linux_score sb; i = ios_score sb in
      if w = l \<and> l = i then NO_DETECTED
      else let (max', result) = (w, WINDOWS);
               (max', result) = (if l > max' then (l, LINUX) else (max', result));
               (max', result) = (if i > max' then (i, IOS) else (max', result))
           in if w = l \<and> l = i then NO_DETECTED
              else if result = WINDOWS \<and> w = l \<or> result = LINUX \<and> l = i \<or> result = WINDOWS \<and> w = i then NO_DETECTED
              else if max' < 25 then NO_DETECTED
              else result)"

fun port_index_from :: "u16 \<Rightarrow> u16 list \<Rightarrow> nat \<Rightarrow> int" where
  "port_index_from port [] i = -1"
| "port_index_from port (p # ps) i = (if p = port then int i else port_index_from port ps (i + 1))"

text \<open>Every caller passes the whole array.\<close>

definition get_port_index :: "u16 \<Rightarrow> u16 list \<Rightarrow> int" where
  "get_port_index port probe_ports = port_index_from port probe_ports 0"

section \<open>What the options say\<close>

text \<open>
  The reference reading: the list of options up to the end marker or the first option that does not fit. The ones
  the detector knows have their kind and enough data.
\<close>

function option_items :: "buf \<Rightarrow> (u8 \<times> buf) list" where
  "option_items [] = []"
| "option_items (k # r) =
     (if k = 0 then [(0, [])]
      else if k = 1 then (1, []) # option_items r
      else case r of
             [] \<Rightarrow> []
           | l # d \<Rightarrow> if l < 2 \<or> length d < unat l - 2 then []
                       else (k, take (unat l - 2) d) # option_items (drop (unat l - 2) d))"
  by pat_completeness auto
termination by (relation "measure length") auto

declare option_items.simps [simp del]

definition known_option :: "u8 \<times> buf \<Rightarrow> bool" where
  "known_option x \<longleftrightarrow>
     (let k = fst x; n = length (snd x)
      in k \<in> {0, 1, 4, 5} \<or> k = 2 \<and> 2 \<le> n \<or> k = 3 \<and> 1 \<le> n \<or> k = 8 \<and> 8 \<le> n)"

text \<open>The data of the last option of a kind\<close>

definition last_option :: "u8 \<Rightarrow> (u8 \<times> buf) list \<Rightarrow> buf ptr" where
  "last_option k xs = map_option snd (find (\<lambda>x. fst x = k) (rev xs))"

definition option_value :: "u8 \<Rightarrow> (buf \<Rightarrow> 'a :: zero) \<Rightarrow> (u8 \<times> buf) list \<Rightarrow> 'a" where
  "option_value k f xs = (case last_option k xs of None \<Rightarrow> 0 | Some d \<Rightarrow> f d)"

definition opts_of :: "u8 \<Rightarrow> (u8 \<times> buf) list \<Rightarrow> tcp_opts" where
  "opts_of options_length xs =
     (let kinds = map fst xs in
      \<lparr> to_has_mss = (2 \<in> set kinds), to_has_sack = (4 \<in> set kinds \<or> 5 \<in> set kinds), to_has_ws = (3 \<in> set kinds),
        to_has_ts = (8 \<in> set kinds), to_has_nop = (1 \<in> set kinds), to_options_length = options_length,
        to_tsval = option_value 8 (\<lambda>d. be32 (d ! 0) (d ! 1) (d ! 2) (d ! 3)) xs,
        to_tsecr = option_value 8 (\<lambda>d. be32 (d ! 4) (d ! 5) (d ! 6) (d ! 7)) xs,
        to_order = take 9 kinds @ replicate (16 - min 9 (length xs)) 0,
        to_count = of_nat (min 9 (length xs)),
        to_mss_value = option_value 2 (\<lambda>d. be16 (d ! 0) (d ! 1)) xs, to_ws_value = option_value 3 (\<lambda>d. d ! 0) xs \<rparr>)"

lemma option_value_append [simp]:
  "option_value k f (xs @ [(j, d)]) = (if j = k then f d else option_value k f xs)"
  by (simp add: option_value_def last_option_def)

lemma note_option_eq:
  assumes "to_order opts = take 9 kinds @ replicate (16 - min 9 (length kinds)) 0" "to_count opts = of_nat (min 9 (length kinds))"
  shows "note_option k opts =
     Some (opts\<lparr> to_order := take 9 (kinds @ [k]) @ replicate (16 - min 9 (Suc (length kinds))) 0,
                 to_count := of_nat (min 9 (Suc (length kinds))) \<rparr>)"
proof (cases "length kinds < 9")
  case True
  have "unat (of_nat (length kinds) :: u8) = length kinds" using True by (simp add: unat_of_nat_u8)
  moreover have "replicate (16 - length kinds) (0 :: u8) = 0 # replicate (15 - length kinds) 0"
    using True by (simp flip: replicate_Suc add: Suc_diff_le)
  ultimately show ?thesis using True assms by (simp add: note_option_def wr_bytes_def)
next
  case False
  then show ?thesis using assms by (simp add: note_option_def)
qed

lemma opts_of_append:
  "opts_of L (xs @ [(k, d)]) =
     (let o' = (opts_of L xs)\<lparr> to_order := take 9 (map fst xs @ [k]) @ replicate (16 - min 9 (Suc (length xs))) 0,
                                to_count := of_nat (min 9 (Suc (length xs))) \<rparr>;
          o' = (if k = 2 then o'\<lparr> to_has_mss := True, to_mss_value := be16 (d ! 0) (d ! 1) \<rparr> else o');
          o' = (if k = 3 then o'\<lparr> to_has_ws := True, to_ws_value := d ! 0 \<rparr> else o');
          o' = (if k = 4 \<or> k = 5 then o'\<lparr> to_has_sack := True \<rparr> else o');
          o' = (if k = 1 then o'\<lparr> to_has_nop := True \<rparr> else o')
      in if k = 8 then o'\<lparr> to_has_ts := True, to_tsval := be32 (d ! 0) (d ! 1) (d ! 2) (d ! 3),
                            to_tsecr := be32 (d ! 4) (d ! 5) (d ! 6) (d ! 7) \<rparr> else o')"
  by (auto simp: opts_of_def Let_def)

lemma note_opts_of:
  "note_option k (opts_of L xs) =
     Some ((opts_of L xs)\<lparr> to_order := take 9 (map fst xs @ [k]) @ replicate (16 - min 9 (Suc (length xs))) 0,
                             to_count := of_nat (min 9 (Suc (length xs))) \<rparr>)"
  by (subst note_option_eq [where kinds = "map fst xs"]) (simp_all add: opts_of_def Let_def)

lemma note_opts_of_with:
  assumes "to_order o' = to_order (opts_of L xs)" "to_count o' = to_count (opts_of L xs)"
  shows "note_option k o' = Some (o'\<lparr> to_order := take 9 (map fst xs @ [k]) @ replicate (16 - min 9 (Suc (length xs))) 0,
                                       to_count := of_nat (min 9 (Suc (length xs))) \<rparr>)"
  using assms by (subst note_option_eq [where kinds = "map fst xs"]) (simp_all add: opts_of_def Let_def)

lemma tcp_option_eq:
  assumes "2 \<le> unat len" "i + unat len \<le> length ptr" "k \<noteq> 0" "k \<noteq> 1"
  defines "d \<equiv> take (unat len - 2) (drop (i + 2) ptr)"
  shows "tcp_option ptr i k len (opts_of L xs) = Some (opts_of L (xs @ filter known_option [(k, d)]))"
proof -
  have d: "length d = unat len - 2" "\<And>j. j < unat len - 2 \<Longrightarrow> d ! j = ptr ! (i + 2 + j)"
    using assms(1,2) by (simp_all add: d_def)
  have len: "len < n \<longleftrightarrow> unat len < unat n" for n by (simp add: word_less_nat_alt)
  consider "k = 2" | "k = 3" | "k = 4" | "k = 5" | "k = 8" | "k \<notin> {0, 1, 2, 3, 4, 5, 8}" using assms(3,4) by auto
  then show ?thesis
  proof cases
    case 1
    then show ?thesis using assms(1,2) d(1) d(2) [of 0] d(2) [of 1]
      by (auto simp: tcp_option_def len known_option_def mem_simps note_opts_of_with opts_of_append Let_def)
  next
    case 2
    then show ?thesis using assms(1,2) d(1) d(2) [of 0]
      by (auto simp: tcp_option_def len known_option_def mem_simps note_opts_of_with opts_of_append Let_def)
  next
    case 3
    then show ?thesis by (simp add: tcp_option_def known_option_def note_opts_of_with opts_of_append Let_def)
  next
    case 4
    then show ?thesis by (simp add: tcp_option_def known_option_def note_opts_of_with opts_of_append Let_def)
  next
    case 5
    then show ?thesis using assms(1,2) d(1) d(2) [of 0] d(2) [of 1] d(2) [of 2] d(2) [of 3] d(2) [of 4] d(2) [of 5] d(2) [of 6] d(2) [of 7]
      by (auto simp: tcp_option_def len known_option_def mem_simps note_opts_of_with opts_of_append Let_def add.commute [of i])
  next
    case 6
    then show ?thesis by (simp add: tcp_option_def known_option_def Let_def)
  qed
qed

lemma option_items_step:
  assumes "i < n" "n \<le> length ptr"
  shows "option_items (take (n - i) (drop i ptr)) =
     (if ptr ! i = 0 then [(0, [])]
      else if ptr ! i = 1 then (1, []) # option_items (take (n - (i + 1)) (drop (i + 1) ptr))
      else if n \<le> i + 1 then []
      else if unat (ptr ! (i + 1)) < 2 \<or> n < i + unat (ptr ! (i + 1)) then []
      else (ptr ! i, take (unat (ptr ! (i + 1)) - 2) (drop (i + 2) ptr)) #
           option_items (take (n - (i + unat (ptr ! (i + 1)))) (drop (i + unat (ptr ! (i + 1))) ptr)))"
proof -
  obtain m where m: "n - i = Suc m" using assms(1) by (metis Suc_diff_Suc)
  have first: "take (n - i) (drop i ptr) = ptr ! i # take m (drop (i + 1) ptr)"
    using assms by (simp add: m Cons_nth_drop_Suc [symmetric])
  have m1: "m = n - (i + 1)" using m by simp
  show ?thesis
  proof (cases "n \<le> i + 1")
    case True
    then have "m = 0" using m1 by simp
    then show ?thesis using True first m1 by (simp add: option_items.simps)
  next
    case False
    then have "m \<noteq> 0" using m1 by simp
    then obtain j where j: "m = Suc j" using not0_implies_Suc by blast
    let ?l = "unat (ptr ! (i + 1))"
    have second: "take m (drop (i + 1) ptr) = ptr ! (i + 1) # take j (drop (i + 2) ptr)"
      using False assms by (simp add: j Cons_nth_drop_Suc [symmetric])
    have l: "ptr ! (i + 1) < 2 \<longleftrightarrow> ?l < 2" by (simp add: word_less_nat_alt)
    have lj: "length (take j (drop (i + 2) ptr)) = j" "j = n - (i + 2)" using assms False j m1 by simp_all
    have rest: "drop (?l - 2) (take j (drop (i + 2) ptr)) = take (n - (i + ?l)) (drop (i + ?l) ptr)" if "2 \<le> ?l"
    proof -
      have "?l - 2 + (i + 2) = i + ?l" "j - (?l - 2) = n - (i + ?l)" using that lj(2) by simp_all
      then show ?thesis by (simp only: drop_take drop_drop)
    qed
    have "take (?l - 2) (take j (drop (i + 2) ptr)) = take (?l - 2) (drop (i + 2) ptr)" if "i + ?l \<le> n"
      using that lj(2) by (simp add: min_def)
    then show ?thesis
      using False first second l lj rest m1 by (auto simp: option_items.simps not_less)
  qed
qed

lemma parse_options_loop_eq:
  assumes "opts_len \<le> length ptr"
  shows "parse_options_loop ptr opts_len i (opts_of L xs) =
           Some (opts_of L (xs @ filter known_option (option_items (take (opts_len - i) (drop i ptr)))))"
  using assms
proof (induction "opts_len - i" arbitrary: i xs rule: less_induct)
  case less
  show ?case
  proof (cases "i < opts_len")
    case False
    then show ?thesis by (simp add: parse_options_loop.simps option_items.simps)
  next
    case True
    note items = option_items_step [OF True less.prems]
    have rd: "rd ptr i = Some (ptr ! i)" using True less.prems by (simp add: rd_def)
    consider "ptr ! i = 0" | "ptr ! i = 1" | "ptr ! i \<notin> {0, 1}" by auto
    then show ?thesis
    proof cases
      case 1
      then show ?thesis using True rd items
        by (simp add: parse_options_loop.simps note_opts_of_with known_option_def opts_of_append Let_def)
    next
      case 2
      have "note_option 1 ((opts_of L xs)\<lparr> to_has_nop := True \<rparr>) = Some (opts_of L (xs @ [(1, [])]))"
        by (simp add: note_opts_of_with opts_of_append Let_def)
      then show ?thesis using 2 True rd items less.hyps [of "i + 1" "xs @ [(1, [])]"] less.prems
        by (subst parse_options_loop.simps) (simp add: known_option_def)
    next
      case 3
      show ?thesis
      proof (cases "opts_len \<le> i + 1")
        case True
        then show ?thesis using 3 \<open>i < opts_len\<close> rd items by (subst parse_options_loop.simps) simp
      next
        case False
        let ?l = "ptr ! (i + 1)"
        let ?d = "take (unat ?l - 2) (drop (i + 2) ptr)"
        have rd1: "rd ptr (i + 1) = Some ?l" using False less.prems by (simp add: rd_def)
        show ?thesis
        proof (cases "unat ?l < 2 \<or> opts_len < i + unat ?l")
          case True
          then show ?thesis using 3 \<open>i < opts_len\<close> False rd rd1 items
            by (subst parse_options_loop.simps) (auto simp: word_less_nat_alt)
        next
          case fits: False
          then have "tcp_option ptr i (ptr ! i) ?l (opts_of L xs) = Some (opts_of L (xs @ filter known_option [(ptr ! i, ?d)]))"
            using 3 less.prems by (intro tcp_option_eq) simp_all
          then show ?thesis
            using 3 \<open>i < opts_len\<close> False fits rd rd1 items less.prems
              less.hyps [of "i + unat ?l" "xs @ filter known_option [(ptr ! i, ?d)]"]
            by (subst parse_options_loop.simps) (auto simp: word_less_nat_alt)
        qed
      qed
    qed
  qed
qed

section \<open>Properties\<close>

lemma parse_tcp_options_in_range:
  assumes "20 \<le> unat header_len" "unat header_len \<le> 60" "unat header_len \<le> length tcp"
  shows "parse_tcp_options (Some tcp) header_len =
     Some (opts_of (header_len - 20) (filter known_option (option_items (take (unat header_len - 20) (drop 20 tcp)))))"
proof -
  have n: "\<not> header_len < 20" "\<not> header_len > 60" using assms by (simp_all add: word_less_nat_alt)
  have len: "unat (header_len - 20) = unat header_len - 20" using assms(1) by (simp add: unat_sub word_le_nat_alt)
  have start: "tcp_opts_zero\<lparr> to_options_length := L \<rparr> = opts_of L []" for L
    by (simp add: tcp_opts_zero_def opts_of_def option_value_def last_option_def Let_def)
  show ?thesis
  proof (cases "header_len - 20 = 0")
    case True
    then have "unat header_len - 20 = 0" using len by simp
    then show ?thesis using True n start [of 0] by (simp add: parse_tcp_options_def option_items.simps)
  next
    case False
    have "unat (header_len - 20) \<le> length (drop 20 tcp)" using assms(3) len by simp
    note parse_options_loop_eq [OF this, of 0 "header_len - 20" "[]"]
    then show ?thesis using False n assms(1,3) start by (simp add: parse_tcp_options_def len)
  qed
qed

text \<open>
  C40. Parsing TCP options is safe, ends and refines the reading of the option list. For any bytes and any header
  length of 20 to 60 that lies inside the bytes, the parser stays inside the header, whatever lengths the options
  claim; its flags and values are those of the options with enough data, each value from the last one of its
  kind, and the order it notes is that of the first nine. A header length below 20 or above 60, or no header at all,
  gives the empty result, and then no byte is read, however few there are.
\<close>

theorem parse_tcp_options_refines:
  assumes "20 \<le> unat header_len \<and> unat header_len \<le> 60 \<longrightarrow> unat header_len \<le> length tcp"
  shows "parse_tcp_options (Some tcp) header_len =
       Some (if 20 \<le> unat header_len \<and> unat header_len \<le> 60
             then opts_of (header_len - 20)
                    (filter known_option (option_items (take (unat header_len - 20) (drop 20 tcp))))
             else tcp_opts_zero) \<and>
     parse_tcp_options None header_len = Some tcp_opts_zero"
  using parse_tcp_options_in_range [of header_len tcp] assms
  by (auto simp: parse_tcp_options_def word_less_nat_alt)

text \<open>A SYN-ACK of a Linux host, and a timestamp option that claims to be shorter than it is.\<close>

lemma parse_tcp_options_refines_witness:
  "\<exists>o' p. parse_tcp_options (Some (replicate 20 0 @ [2, 4, 5, 0xB4, 4, 2, 8, 10, 1, 2, 3, 4, 5, 6, 7, 8, 1, 3, 3, 7])) 40 = Some o' \<and>
     to_order o' = [2, 4, 8, 1, 3] @ replicate 11 0 \<and> to_mss_value o' = 1460 \<and>
     parse_tcp_options (Some (replicate 20 0 @ [8, 2, 1, 1])) 24 = Some p \<and> \<not> to_has_ts p \<and> to_count p = 2"
  using parse_tcp_options_refines [of 40 "replicate 20 0 @ [2, 4, 5, 0xB4, 4, 2, 8, 10, 1, 2, 3, 4, 5, 6, 7, 8, 1, 3, 3, 7]"]
    parse_tcp_options_refines [of 24 "replicate 20 0 @ [8, 2, 1, 1]"]
  by (simp add: option_items.simps known_option_def opts_of_def option_value_def last_option_def be16_def Let_def)

end
