(* ===== verification/Spec2Isabelle.thy ===== *)
theory Spec2Isabelle
  imports Startup_Guard Icmp Tcp Dora Cdp_Grammar Passive_Handlers Passive_Store Rx_Dispatch Enc28j60
    Ip_Assigner Settings Arp_Module Scanner_Session Arp_Scan Port_Scan Udp_Scan Tcp_Module Ping Analysis Capture Os_Classify
begin

text \<open>
  Verification library of the Flipper Zero ENC28J60 Ethernet tool (\<open>src/EthernetAppDemo\<close>), an
  application of the Flipper Zero that drives a Microchip ENC28J60 Ethernet controller over SPI,
  configures itself by DHCP, discovers neighbours passively and scans hosts and ports.

  The parts of the program and how they interact. The driver \<open>chip/enc28j60.c\<close> moves frames between
  the controller and one receive and one transmit buffer. The dispatcher thread of
  \<open>chip/rx_dispatch.c\<close> owns reception: it offers each frame to the handlers that other threads have
  registered, and can be paused while somebody else uses the chip. The protocol tools
  (\<open>libraries/protocol_tools\<close>) build and take apart frames. The DHCP client builds on them and runs
  the DORA exchange. The passive modules (LLDP, CDP, EAPOL) parse what they hear into the neighbour
  table, and the history keeps that table on the memory card. The startup guard is asked for memory
  before anything is started.

  Modelling conventions. A byte is a word of length 8, \<open>int\<close> and \<open>size_t\<close> have 32 bits (a Cortex-M4), a
  memory block is the list of its bytes, a C string is a \<open>char\<close> array that holds a NUL, a nullable
  pointer is an option whose \<open>None\<close> is NULL. A computation that may leave its block has an option
  type whose \<open>None\<close> is the out-of-bounds access, so that an operation is memory safe when it
  returns \<open>Some\<close>; \<open>runs\<close> of theory Prelude says that it does and what its result satisfies, and the
  proofs about code that may fail are steps over its rules. C integers keep their width: sums that
  may wrap are sums of words.

  Theories, in the order of their dependencies:

  \<^item> Prelude, C_Strings, Packed_Struct, Frame_Values: byte order, checked accesses, C strings and
    the formats of \<open>snprintf\<close> the code uses, structs laid over packets (locale \<open>packed_struct\<close>,
    interpreted by every header), values inside frames.
  \<^item> Startup_Guard (\<open>functions/startup_guard.c\<close>): the requirements of a thread, the check, and the
    diagnostic snapshot with its screen as data. The answer of the thread check is
    given for every size: Ready exactly when the free heap and the largest block cover the requirements, each sum
    cut at the largest \<open>size_t\<close> as the saturating additions do.
  \<^item> Functions, Ethernet, Checksum, Ipv4, Icmp, Udp, Tcp (\<open>functions.c\<close>, \<open>ethernet_protocol.c\<close>,
    \<open>arp.c\<close>, \<open>ipv4.c\<close>, \<open>icmp.c\<close>, \<open>udp.c\<close>, \<open>tcp.c\<close>): builders and readers of headers. The checksum routines are
    related to one reference value, the residue of the sum of the big-endian words modulo 65535; the
    builders produce packets whose checksums verify and whose fields the readers return.
  \<^item> Dhcp, Dhcp_Client, Dora (\<open>dhcp.c\<close>, \<open>dhcp_protocol.c\<close>): messages, option lookup as lookup in the list
    of encoded options, the handlers for offers and acknowledgements, and the exchange as a state
    machine over what the network, the clock and the user supply in each pass. The loop of
    the code is a fold of its body over that list of passes; Dora shows what it keeps and that it
    succeeds with a server that answers. The deadline of the code ends the loop.
  \<^item> Neighbor_Db (\<open>neighbor_db.c\<close>): the table of 32 entries refines a bounded map from
    (address, source) to entries.
  \<^item> Lldp, Cdp, Cdp_Grammar, Eapol (\<open>lldp.c\<close>, \<open>cdp.c\<close>, \<open>eapol.c\<close>): the parsers. Each is memory safe on any bytes and
    refines an abstract reading of the frame (a list of TLVs, the CDP grammar, an EAPOL header). The grammar
    of CDP messages and what they mean are defined in Cdp_Grammar without the functions of the parser.
  \<^item> Passive_Handlers (\<open>lldp_module.c\<close>, \<open>cdp_module.c\<close>, \<open>eapol_module.c\<close>, \<open>passive_discovery_module.c\<close>): from a
    frame to the table, over the registry of handlers.
  \<^item> History_Payload, Passive_History, Passive_Store (\<open>passive_history.c\<close>): the payload codec, the
    file format, and the promises of the whole: loading accepts or rejects any bytes safely,
    merging and clearing refine operations on a table of at most 32 neighbours, and reach the rename only
    with a complete file. The storage service is a parameter, given by its answers: each opening of the file has
    its own view (what a read at a position delivers, whether a seek works), each write, the seek, the sync
    and the rename their own answer, so that any of them may fail independently. Nothing is assumed of them
    but what a theorem states: \<open>reads_true\<close> (a view delivers only bytes of the file, perhaps too few),
    \<open>rename_replaces\<close> (a rename that answers success replaced the file) and \<open>disk_works\<close> (every call works). The
    effect of a rename that fails is any, since the file system leaves it open. A write that answers the full
    count wrote the bytes, and calls on the temporary file leave the history file alone; within one opening the same read
    delivers the same bytes.
  \<^item> Rx_Dispatch (\<open>rx_dispatch.c\<close>): the dispatcher, its callers and the interrupt as step relations over the
    shared state, one step per access to that state; what holds of a reachable state
    holds for every interleaving with up to 255 callers. A pause is acknowledged within 35 steps of
    the dispatcher, the longest way round its loop.
  \<^item> Enc28j60 (\<open>enc28j60.c\<close>): every operation of the driver over an arbitrary chip (a function from the
    transfers so far to the answers) and an arbitrary clock. There \<open>None\<close> stands for an access
    outside the buffer, a violation of the locking rules and a wait that never ends; waits that
    depend on the clock are \<open>partial_function\<close>s, and the theorems show that they end when the clock runs.
    Transmission is bounded by 18 starts whatever the chip answers; the bank discipline and the safety of
    receiving assume \<open>honest_bank\<close>, a chip that reports its bank bits truly. Starting is covered right after a
    soft reset only; the plain start can write the wrong registers (\<open>enc28j60_restart_loses_buffers\<close>).
  \<^item> Ip_Assigner (\<open>draw_functions/ip_assigner.c\<close>): the address editor as a state machine over key events;
    after any event the cursor is in range, and the digits and the stored bytes agree, except after a down key on the
    leading zero of 056 to 059, which leaves the digits 256 to 259 and a byte of 0 to 3.
  \<^item> Settings (\<open>libraries/settings/settings.c\<close>): checks, loading and saving over the file service of the
    firmware, a parameter. Loading rejects what is not valid; what is saved is loaded again.
  \<^item> Arp_Module, Arp_Scan (\<open>modules/arp_module.c\<close>): the ARP frames, the tests on received ones, the answer to
    a request, the resolver that polls the controller, and the scan of a network.
  \<^item> Scanner_Session (\<open>libraries/scanner/scanner_session.c\<close>): the session of a scanner. Its cache refines a
    queue of four bindings. A wait for a packet is a loop over passes (\<open>wait_env\<close>): for each, what the clock and
    the cancel flags say and which frames the dispatcher delivers before the next step of the
    worker, so that a theorem for every \<open>wait_env\<close> holds for every interleaving with the dispatcher. \<open>clock_runs\<close> says that
    the clock counts. The promise to its clients is locale \<open>packet_client\<close>: a predicate that keeps the client's
    invariant gives a wait that returns, keeps it, gives back the handler's slot and the semaphore, and succeeds
    only for a frame the predicate accepted. It is interpreted by \<open>arp_wait\<close> (resolution and network scan),
    \<open>udp_wait\<close> and \<open>tcp_wait\<close>. A list of environments, one per wait, is an argument of the loops.
  \<^item> Port_Scan, Udp_Scan, Tcp_Module (\<open>modules/udp_module.c\<close>, \<open>modules/tcp_module.c\<close>): the senders, the port scans over
    the session with the calls they make on the result menu (locale \<open>port_probe\<close>: a probe that says yes
    only with evidence gives a scan that lists only ports with evidence), and the handshakes.
    Frames the dispatcher hands out are blocks of 1518 bytes, its receive buffer.
  \<^item> Ping (\<open>modules/ping_module.c\<close>): the echo request, the reply and the tests on received frames; an
    exchange between two stations that run this code.
  \<^item> Analysis (\<open>modules/analysis_module.c\<close>): what the viewer of capture files reads out of a packet and the text it
    shows; exactly the packets whose payload does not fit the array of 1500 bytes.
  \<^item> Capture (\<open>modules/capture_module.c\<close>): capture files over the file service of the firmware, a parameter
    whose documented behaviour is the hypothesis \<open>file_works\<close>; what is captured can be found and read.
  \<^item> Os_Classify (\<open>modules/os_detector_module.c\<close>): the classifiers with their double arithmetic (rational
    numbers rounded to 53 bits), the parser of TCP options as a refinement of a list of options, the scoreboard.

  Not modelled: the scenes, the views and the drawing (glue over the view dispatcher of the
  firmware), the SPI transport \<open>Spi_lib.c\<close> (calls of the firmware's hardware layer), the debug
  printers, and the modules that PROJECT.json lists as not modelled, each with its reason.
\<close>

end
